(* ===== verification/Prelude.thy ===== *)
theory Prelude
  imports Complex_Main "HOL-Library.Word"
begin

text \<open>
  Shared vocabulary of the development.

  \<^item> Machine types: C++ \<open>unsigned\<close> is a 32-bit word (\<open>u32\<close>), \<open>uint64_t\<close> a 64-bit word;
    \<open>double\<close> is read as an exact real (rounding, overflow to infinity and NaN are not modelled).
  \<^item> Pointers are natural numbers and \<open>nullptr\<close> is 0, so that the order of \<open>std::map\<close> and
    \<open>std::set\<close> keys that are pointers is the order of addresses.
  \<^item> \<open>std::map\<close> is an association list kept sorted by key: \<open>map_of\<close> is \<open>find\<close>,
    \<open>omap_put\<close> is \<open>m[k] = v\<close>, \<open>omap_erase\<close> is \<open>erase\<close>, and the list order is the
    iteration order. The locale \<open>ordered_map\<close> states the contract the clients rely on and is
    interpreted on these operations. \<open>std::unordered_map\<close> and \<open>llvm::DenseMap\<close> use the same
    representation; wherever the code iterates over one of those, the result does not depend on
    the order.
  \<^item> Generic lemmas on folds, intervals and paths that several components use.
\<close>

section \<open>Machine types\<close>

type_synonym u32 = "32 word"
type_synonym u64 = "64 word"
type_synonym double = real

type_synonym block_ptr = nat
type_synonym bb_ptr = nat
type_synonym value_ptr = nat
type_synonym loop_id = nat

abbreviation (input) nullptr :: nat where
  "nullptr \<equiv> 0"

abbreviation (input) u2r :: "u32 \<Rightarrow> real" where
  "u2r w \<equiv> real (unat w)"

definition DBL_MAX :: double where
  "DBL_MAX = (2 - 1 / 2 ^ 52) * 2 ^ 1023"

text \<open>Collections of facts: the laws of the ordered map, the monotonicity facts of the energy
  metadata, and the facts that say which parts of a state an operation leaves alone.\<close>

named_theorems omap_simps
named_theorems frame_simps
named_theorems energy_mono

section \<open>Ordered maps\<close>

type_synonym ('k, 'v) omap = "('k \<times> 'v) list"

fun omap_put :: "'k::linorder \<Rightarrow> 'v \<Rightarrow> ('k, 'v) omap \<Rightarrow> ('k, 'v) omap" where
  "omap_put k v [] = [(k, v)]"
| "omap_put k v ((k', v') # m) =
     (if k < k' then (k, v) # (k', v') # m
      else if k = k' then (k, v) # m
      else (k', v') # omap_put k v m)"

definition omap_erase :: "'k \<Rightarrow> ('k, 'v) omap \<Rightarrow> ('k, 'v) omap" where
  "omap_erase k m = filter (\<lambda>p. fst p \<noteq> k) m"

definition omap_count :: "('k, 'v) omap \<Rightarrow> 'k \<Rightarrow> bool" where
  "omap_count m k \<longleftrightarrow> map_of m k \<noteq> None"

definition omap_get :: "'v \<Rightarrow> ('k, 'v) omap \<Rightarrow> 'k \<Rightarrow> 'v" where
  "omap_get d m k = (case map_of m k of Some v \<Rightarrow> v | None \<Rightarrow> d)"

definition omap_wf :: "('k::linorder, 'v) omap \<Rightarrow> bool" where
  "omap_wf m \<longleftrightarrow> sorted_wrt (<) (map fst m)"

locale ordered_map =
  fixes find :: "'m \<Rightarrow> 'k \<Rightarrow> 'v option"
    and put :: "'k \<Rightarrow> 'v \<Rightarrow> 'm \<Rightarrow> 'm"
    and erase :: "'k \<Rightarrow> 'm \<Rightarrow> 'm"
    and wf :: "'m \<Rightarrow> bool"
    and empty :: 'm
  assumes find_empty: "find empty = (\<lambda>_. None)"
    and find_put: "find (put k v m) = (find m)(k \<mapsto> v)"
    and find_erase: "find (erase k m) = (find m)(k := None)"
    and wf_empty: "wf empty"
    and wf_put: "wf m \<Longrightarrow> wf (put k v m)"
    and wf_erase: "wf m \<Longrightarrow> wf (erase k m)"
begin

lemma find_put_same: "find (put k v m) k = Some v"
  by (simp add: find_put)

lemma find_put_other: "k' \<noteq> k \<Longrightarrow> find (put k v m) k' = find m k'"
  by (simp add: find_put)

lemma find_erase_same: "find (erase k m) k = None"
  by (simp add: find_erase)

lemma put_put: "find (put k v' (put k v m)) = find (put k v' m)"
  by (simp add: find_put)

lemma wf_puts: "wf m \<Longrightarrow> wf (foldr (\<lambda>(k, v). put k v) kvs m)"
  by (induction kvs) (auto intro: wf_put)

lemma dom_find_put: "dom (find (put k v m)) = insert k (dom (find m))"
  by (simp add: find_put)

end

lemma map_of_omap_put [omap_simps, simp]: "map_of (omap_put k v m) = (map_of m)(k \<mapsto> v)"
  by (induction k v m rule: omap_put.induct) (auto simp: fun_eq_iff)

lemma map_of_omap_erase [omap_simps, simp]: "map_of (omap_erase k m) = (map_of m)(k := None)"
  by (induction m) (auto simp: omap_erase_def fun_eq_iff)

lemma fst_set_omap_put: "fst ` set (omap_put k v m) = insert k (fst ` set m)"
  by (induction k v m rule: omap_put.induct) auto

lemma omap_wf_put [intro]: "omap_wf m \<Longrightarrow> omap_wf (omap_put k v m)"
proof (induction k v m rule: omap_put.induct)
  case (2 k v k' v' m)
  have "\<forall>x \<in> fst ` set (omap_put k v m). k' < x" if "\<not> k < k'" "k \<noteq> k'"
    using that "2.prems" fst_set_omap_put [of k v m] by (auto simp: omap_wf_def)
  with 2 show ?case by (fastforce simp: omap_wf_def)
qed (auto simp: omap_wf_def)

lemma omap_wf_erase [intro]: "omap_wf m \<Longrightarrow> omap_wf (omap_erase k m)"
  by (induction m) (auto simp: omap_wf_def omap_erase_def)

lemma omap_wf_Nil [simp]: "omap_wf []"
  by (simp add: omap_wf_def)

lemma omap_wf_distinct: "omap_wf m \<Longrightarrow> distinct (map fst m)"
  unfolding omap_wf_def by (simp add: strict_sorted_iff)

interpretation omap: ordered_map map_of omap_put omap_erase omap_wf "[]"
  by unfold_locales (auto simp: fun_eq_iff)

lemma omap_get_put [omap_simps, simp]:
  "omap_get d (omap_put k v m) k' = (if k' = k then v else omap_get d m k')"
  by (simp add: omap_get_def)

lemma omap_get_erase [omap_simps, simp]:
  "omap_get d (omap_erase k m) k' = (if k' = k then d else omap_get d m k')"
  by (simp add: omap_get_def)

lemma omap_get_Nil [simp]: "omap_get d [] k = d"
  by (simp add: omap_get_def)

lemma omap_count_put [omap_simps, simp]:
  "omap_count (omap_put k v m) k' \<longleftrightarrow> k' = k \<or> omap_count m k'"
  by (auto simp: omap_count_def)

lemma omap_count_Nil [simp]: "\<not> omap_count [] k"
  by (simp add: omap_count_def)

lemma omap_wf_map_of_eq:
  assumes "omap_wf m" and "(k, v) \<in> set m"
  shows "map_of m k = Some v"
  using assms by (simp add: omap_wf_distinct)

section \<open>Half-open address intervals\<close>

text \<open>Two half-open intervals \<open>[a, b)\<close> and \<open>[c, d)\<close> overlap when each starts before the other
  ends; this is the test both \<open>mergeAllocations\<close> and \<open>intervalIsEmpty\<close> make.\<close>

definition overlaps :: "u32 \<Rightarrow> u32 \<Rightarrow> u32 \<Rightarrow> u32 \<Rightarrow> bool" where
  "overlaps a b c d \<longleftrightarrow> a < d \<and> c < b"

lemma overlaps_sym: "overlaps a b c d \<longleftrightarrow> overlaps c d a b"
  by (auto simp: overlaps_def)

lemma not_overlaps_iff: "\<not> overlaps a b c d \<longleftrightarrow> d \<le> a \<or> b \<le> c"
  by (auto simp: overlaps_def not_less)

lemma unat_less_u32: "unat (a :: u32) < 2 ^ 32"
  using unsigned_less [of a] by simp

lemma unat_add_u32: "unat a + unat b < 2 ^ 32 \<Longrightarrow> unat (a + b :: u32) = unat a + unat b"
  by (simp add: unat_word_ariths)

section \<open>Folds that stop at the first failure\<close>

fun foldM :: "('s \<Rightarrow> 'a \<Rightarrow> 's option) \<Rightarrow> 's \<Rightarrow> 'a list \<Rightarrow> 's option" where
  "foldM f s [] = Some s"
| "foldM f s (x # xs) = (case f s x of None \<Rightarrow> None | Some s' \<Rightarrow> foldM f s' xs)"

lemma foldM_invariant:
  assumes "foldM f s xs = Some t" and "P s"
    and "\<And>s x s'. x \<in> set xs \<Longrightarrow> P s \<Longrightarrow> f s x = Some s' \<Longrightarrow> P s'"
  shows "P t"
  using assms
proof (induction xs arbitrary: s)
  case (Cons x xs)
  from Cons.prems(1) obtain s' where "f s x = Some s'" "foldM f s' xs = Some t"
    by (auto split: option.splits)
  with Cons.IH [of s'] Cons.prems(2,3) show ?case by auto
qed simp

lemma foldM_total:
  assumes "P s" and "\<And>s x. x \<in> set xs \<Longrightarrow> P s \<Longrightarrow> \<exists>s'. f s x = Some s' \<and> P s'"
  shows "\<exists>t. foldM f s xs = Some t"
  using assms
proof (induction xs arbitrary: s)
  case (Cons x xs)
  from Cons.prems(2) [of x s] Cons.prems(1) obtain s' where "f s x = Some s'" "P s'" by auto
  with Cons.IH [of s'] Cons.prems(2) show ?case by auto
qed simp

lemma find_append: "find P (xs @ ys) = (case find P xs of Some x \<Rightarrow> Some x | None \<Rightarrow> find P ys)"
  by (induction xs) auto

lemma find_someD: "find P xs = Some x \<Longrightarrow> P x \<and> x \<in> set xs"
  by (induction xs) (auto split: if_splits)

lemma foldl_invariant:
  assumes "P s" and "\<And>s x. x \<in> set xs \<Longrightarrow> P s \<Longrightarrow> P (f s x)"
  shows "P (foldl f s xs)"
  using assms by (induction xs arbitrary: s) auto

section \<open>Computations that may raise an error\<close>

definition bindE :: "'e + 'a \<Rightarrow> ('a \<Rightarrow> 'e + 'b) \<Rightarrow> 'e + 'b" where
  "bindE m f = (case m of Inl e \<Rightarrow> Inl e | Inr a \<Rightarrow> f a)"

lemma bindE_Inr [simp]: "bindE (Inr a) f = f a"
  by (simp add: bindE_def)

lemma bindE_Inl [simp]: "bindE (Inl e) f = Inl e"
  by (simp add: bindE_def)

lemma bindE_eq_Inr: "bindE m f = Inr b \<longleftrightarrow> (\<exists>a. m = Inr a \<and> f a = Inr b)"
  by (cases m) auto

end
