(* ===== verification/SchematicSolution.thy ===== *)
theory SchematicSolution
  imports Prelude
begin

text \<open>
  The data model of the SCHEMATIC pass and the operations on its checkpoint table
  (\<open>passes/include/schematic/SchematicSolution.h\<close>, \<open>SchematicBlock.h/.cpp\<close>,
  \<open>SchematicParams.h\<close>, \<open>SchematicStateAnalysis\<close>'s getters and \<open>common/CFGAnalysis\<close>).

  Blocks and values are addresses. The graph is the store of \<open>SchematicBlock\<close> objects; the
  solution keeps \<open>shared_ptr<RegionAllocation>\<close> objects in an explicit heap (\<open>allocHeap\<close>), because
  the code mutates an allocation through one block's pointer and every block that shares the
  pointer sees the change. LLVM's loop information is the record \<open>loop_info\<close>, an argument of the
  definitions that query it.

  The main result here is the invariant \<open>ckpt_wf\<close>: the set of enabled checkpoints is exactly the
  set of edges whose recorded state is \<open>Active\<close>, and provenance is kept for enabled edges only.
\<close>

section \<open>Blocks and the block graph\<close>

definition kStartFuncName :: string where "kStartFuncName = ''START_Func''"
definition kEndFuncName :: string where "kEndFuncName = ''END_Func''"
definition kStartLoopName :: string where "kStartLoopName = ''START_Loop''"
definition kEndLoopName :: string where "kEndLoopName = ''END_Loop''"

record SchematicBlock =
  blk_bb :: bb_ptr
  blk_name :: string
  blk_preds :: "block_ptr list"
  blk_succs :: "block_ptr list"

text \<open>\<open>graphBlocks\<close> is the store of block objects, \<open>realBlocks\<close> the deduplication map of
  \<open>getOrCreate\<close>, \<open>graphNext\<close> the next fresh address (never 0).\<close>

record SchematicGraph =
  graphBlocks :: "(block_ptr, SchematicBlock) omap"
  realBlocks :: "(bb_ptr, block_ptr) omap"
  syntheticBlocks :: "block_ptr list"
  graphNext :: nat

definition emptyGraph :: SchematicGraph where
  "emptyGraph = \<lparr>graphBlocks = [], realBlocks = [], syntheticBlocks = [], graphNext = 1\<rparr>"

definition nullBlock :: SchematicBlock where
  "nullBlock = \<lparr>blk_bb = nullptr, blk_name = [], blk_preds = [], blk_succs = []\<rparr>"

definition blockAt :: "SchematicGraph \<Rightarrow> block_ptr \<Rightarrow> SchematicBlock" where
  "blockAt g b = omap_get nullBlock (graphBlocks g) b"

definition getLLVMBlock :: "SchematicGraph \<Rightarrow> block_ptr \<Rightarrow> bb_ptr" where
  "getLLVMBlock g b = blk_bb (blockAt g b)"

definition getName :: "SchematicGraph \<Rightarrow> block_ptr \<Rightarrow> string" where
  "getName g b = blk_name (blockAt g b)"

definition isSynthetic :: "SchematicGraph \<Rightarrow> block_ptr \<Rightarrow> bool" where
  "isSynthetic g b \<longleftrightarrow> getLLVMBlock g b = nullptr"

definition predecessors :: "SchematicGraph \<Rightarrow> block_ptr \<Rightarrow> block_ptr list" where
  "predecessors g b = blk_preds (blockAt g b)"

definition successors :: "SchematicGraph \<Rightarrow> block_ptr \<Rightarrow> block_ptr list" where
  "successors g b = blk_succs (blockAt g b)"

definition addPredecessor :: "block_ptr \<Rightarrow> SchematicBlock \<Rightarrow> SchematicBlock" where
  "addPredecessor b blk = (if b \<in> set (blk_preds blk) then blk else blk\<lparr>blk_preds := blk_preds blk @ [b]\<rparr>)"

definition addSuccessor :: "block_ptr \<Rightarrow> SchematicBlock \<Rightarrow> SchematicBlock" where
  "addSuccessor b blk = (if b \<in> set (blk_succs blk) then blk else blk\<lparr>blk_succs := blk_succs blk @ [b]\<rparr>)"

definition updateBlock ::
  "(SchematicBlock \<Rightarrow> SchematicBlock) \<Rightarrow> block_ptr \<Rightarrow> SchematicGraph \<Rightarrow> SchematicGraph" where
  "updateBlock f b g = g\<lparr>graphBlocks := omap_put b (f (blockAt g b)) (graphBlocks g)\<rparr>"

text \<open>The LLVM block name given to a new node is an argument: \<open>bb->getName()\<close> is LLVM's.\<close>

definition getOrCreate :: "(bb_ptr \<Rightarrow> string) \<Rightarrow> bb_ptr \<Rightarrow> SchematicGraph \<Rightarrow> block_ptr \<times> SchematicGraph" where
  "getOrCreate bbName bb g =
     (case map_of (realBlocks g) bb of
        Some b \<Rightarrow> (b, g)
      | None \<Rightarrow>
          let b = graphNext g;
              blk = \<lparr>blk_bb = bb, blk_name = bbName bb, blk_preds = [], blk_succs = []\<rparr>
          in (b, g\<lparr>graphBlocks := omap_put b blk (graphBlocks g),
                   realBlocks := omap_put bb b (realBlocks g),
                   graphNext := Suc b\<rparr>))"

definition createSynthetic :: "string \<Rightarrow> SchematicGraph \<Rightarrow> block_ptr \<times> SchematicGraph" where
  "createSynthetic nm g =
     (let b = graphNext g;
          blk = \<lparr>blk_bb = nullptr, blk_name = nm, blk_preds = [], blk_succs = []\<rparr>
      in (b, g\<lparr>graphBlocks := omap_put b blk (graphBlocks g),
               syntheticBlocks := syntheticBlocks g @ [b],
               graphNext := Suc b\<rparr>))"

definition addEdge :: "block_ptr \<Rightarrow> block_ptr \<Rightarrow> SchematicGraph \<Rightarrow> SchematicGraph" where
  "addEdge a b g = updateBlock (addPredecessor a) b (updateBlock (addSuccessor b) a g)"

fun addTraceEdges :: "block_ptr list \<Rightarrow> SchematicGraph \<Rightarrow> SchematicGraph" where
  "addTraceEdges (a # b # tr) g = addTraceEdges (b # tr) (addEdge a b g)"
| "addTraceEdges _ g = g"

definition addCFGEdges ::
  "(bb_ptr \<Rightarrow> string) \<Rightarrow> bb_ptr list \<Rightarrow> (bb_ptr \<Rightarrow> bb_ptr list) \<Rightarrow> SchematicGraph \<Rightarrow> SchematicGraph" where
  "addCFGEdges bbName F llvmSuccs g =
     foldl (\<lambda>g BB.
       let (blk, g1) = getOrCreate bbName BB g
       in foldl (\<lambda>g succ.
            let (sblk, g2) = getOrCreate bbName succ g in addEdge blk sblk g2)
          g1 (llvmSuccs BB)) g F"

section \<open>Analyses the pass reads\<close>

record SchematicParams =
  capacity :: double
  E_pro :: double
  E_epi :: double
  N_reg :: u32
  regStoreEnergy :: double
  regRestoreEnergy :: double
  nvmAccessPenalty :: double
  memStoreEnergyPerByte :: double
  memRestoreEnergyPerByte :: double
  vmCapacityBytes :: u32
  loopIncrementCostNvm :: double
  callCost :: double
  addDebugMarkers :: bool

record BlockInfo =
  bi_name :: string
  energyCost :: double

record CFGAnalysis =
  cfg_blocks :: "bb_ptr list"
  cfg_blockInfo :: "(bb_ptr, BlockInfo) omap"
  cfg_edges :: "(bb_ptr \<times> bb_ptr) list"
  cfg_entryBlock :: bb_ptr
  cfg_exitBlocks :: "bb_ptr list"

definition emptyBlockInfo :: BlockInfo where
  "emptyBlockInfo = \<lparr>bi_name = [], energyCost = 0\<rparr>"

definition getBlockInfo :: "CFGAnalysis \<Rightarrow> bb_ptr \<Rightarrow> BlockInfo" where
  "getBlockInfo cfg BB = omap_get emptyBlockInfo (cfg_blockInfo cfg) BB"

definition setBlockEnergyCost :: "bb_ptr \<Rightarrow> double \<Rightarrow> CFGAnalysis \<Rightarrow> CFGAnalysis" where
  "setBlockEnergyCost BB cost cfg =
     cfg\<lparr>cfg_blockInfo := omap_put BB ((getBlockInfo cfg BB)\<lparr>energyCost := cost\<rparr>) (cfg_blockInfo cfg)\<rparr>"

text \<open>\<open>CFGAnalysis::analyze\<close>: the function's blocks in order, LLVM's successor lists, the display
  names and the estimator's cost are its inputs.\<close>

definition analyzeBlock ::
  "(bb_ptr \<Rightarrow> string) \<Rightarrow> (bb_ptr \<Rightarrow> bb_ptr list) \<Rightarrow> (bb_ptr \<Rightarrow> double) \<Rightarrow> bb_ptr \<Rightarrow> CFGAnalysis \<Rightarrow> bb_ptr \<Rightarrow> CFGAnalysis" where
  "analyzeBlock blockName llvmSuccs estimate entry cfg BB =
     cfg\<lparr>cfg_blocks := cfg_blocks cfg @ [BB],
         cfg_blockInfo := omap_put BB \<lparr>bi_name = blockName BB, energyCost = estimate BB\<rparr> (cfg_blockInfo cfg),
         cfg_entryBlock := (if BB = entry then BB else cfg_entryBlock cfg),
         cfg_edges := cfg_edges cfg @ map (Pair BB) (llvmSuccs BB),
         cfg_exitBlocks := (if llvmSuccs BB = [] then cfg_exitBlocks cfg @ [BB] else cfg_exitBlocks cfg)\<rparr>"

definition analyzeCFG ::
  "(bb_ptr \<Rightarrow> string) \<Rightarrow> (bb_ptr \<Rightarrow> bb_ptr list) \<Rightarrow> (bb_ptr \<Rightarrow> double) \<Rightarrow> bb_ptr \<Rightarrow> bb_ptr list \<Rightarrow> CFGAnalysis" where
  "analyzeCFG blockName llvmSuccs estimate entry F =
     foldl (analyzeBlock blockName llvmSuccs estimate entry)
       \<lparr>cfg_blocks = [], cfg_blockInfo = [], cfg_edges = [], cfg_entryBlock = nullptr, cfg_exitBlocks = []\<rparr> F"

record SchematicStateAnalysis =
  sa_candidates :: "value_ptr list"
  sa_varSizeBytes :: "(value_ptr, u32) omap"
  sa_loadCounts :: "((bb_ptr \<times> value_ptr) \<times> u32) list"
  sa_storeCounts :: "((bb_ptr \<times> value_ptr) \<times> u32) list"
  sa_firstOpIsLoad :: "((bb_ptr \<times> value_ptr) \<times> bool) list"
  \<comment> \<open>LLVM's answer to "is the value type of this global / the allocated type of this alloca a
    pointer", which \<open>chooseMemoryAllocation\<close> asks\<close>
  isPointerType :: "value_ptr \<Rightarrow> bool"

definition getLoadCount :: "SchematicStateAnalysis \<Rightarrow> bb_ptr \<Rightarrow> value_ptr \<Rightarrow> u32" where
  "getLoadCount st BB v = omap_get 0 (sa_loadCounts st) (BB, v)"

definition getStoreCount :: "SchematicStateAnalysis \<Rightarrow> bb_ptr \<Rightarrow> value_ptr \<Rightarrow> u32" where
  "getStoreCount st BB v = omap_get 0 (sa_storeCounts st) (BB, v)"

definition getFirstOpIsLoad :: "SchematicStateAnalysis \<Rightarrow> bb_ptr \<Rightarrow> value_ptr \<Rightarrow> bool option" where
  "getFirstOpIsLoad st BB v = map_of (sa_firstOpIsLoad st) (BB, v)"

definition getVarSizeBytes :: "SchematicStateAnalysis \<Rightarrow> value_ptr \<Rightarrow> u32" where
  "getVarSizeBytes st v = omap_get 0 (sa_varSizeBytes st) v"

text \<open>What the pass asks of \<open>llvm::LoopInfo\<close> and \<open>llvm::Loop\<close>.\<close>

record loop_info =
  getLoopFor :: "bb_ptr \<Rightarrow> loop_id option"
  getHeader :: "loop_id \<Rightarrow> bb_ptr"
  getLoopLatch :: "loop_id \<Rightarrow> bb_ptr"
  getLoopBlocks :: "loop_id \<Rightarrow> bb_ptr list"

definition loopContains :: "loop_info \<Rightarrow> loop_id \<Rightarrow> bb_ptr \<Rightarrow> bool" where
  "loopContains LI L BB \<longleftrightarrow> BB \<in> set (getLoopBlocks LI L)"

section \<open>The solution\<close>

datatype Placement = VM | NVM

datatype CheckpointState = Potential | Disabled | Active | Virtual | LoopLatch

datatype CFGEdge = CFGEdge (src: block_ptr) (dst: block_ptr)

instantiation CFGEdge :: linorder
begin

definition less_CFGEdge :: "CFGEdge \<Rightarrow> CFGEdge \<Rightarrow> bool" where
  "less_CFGEdge a b \<longleftrightarrow> (if src a \<noteq> src b then src a < src b else dst a < dst b)"

definition less_eq_CFGEdge :: "CFGEdge \<Rightarrow> CFGEdge \<Rightarrow> bool" where
  "less_eq_CFGEdge a b \<longleftrightarrow> a = b \<or> a < b"

instance
proof
  fix x y z :: CFGEdge
  show "(x < y) = (x \<le> y \<and> \<not> y \<le> x)"
    by (cases x; cases y) (auto simp: less_CFGEdge_def less_eq_CFGEdge_def split: if_splits)
  show "x \<le> x"
    by (simp add: less_eq_CFGEdge_def)
  show "x \<le> y \<Longrightarrow> y \<le> z \<Longrightarrow> x \<le> z"
    by (cases x; cases y; cases z)
      (auto simp: less_CFGEdge_def less_eq_CFGEdge_def split: if_splits)
  show "x \<le> y \<Longrightarrow> y \<le> x \<Longrightarrow> x = y"
    by (cases x; cases y) (auto simp: less_CFGEdge_def less_eq_CFGEdge_def split: if_splits)
  show "x \<le> y \<or> y \<le> x"
    by (cases x; cases y) (auto simp: less_CFGEdge_def less_eq_CFGEdge_def split: if_splits)
qed

end

record VariableAllocation =
  placement :: Placement
  rawNeedRestore :: bool
  rawNeedSave :: bool

definition needRestore :: "VariableAllocation \<Rightarrow> bool" where
  "needRestore va \<longleftrightarrow> rawNeedRestore va \<and> placement va = VM"

definition needSave :: "VariableAllocation \<Rightarrow> bool" where
  "needSave va \<longleftrightarrow> rawNeedSave va \<and> placement va = VM"

record RegionAllocation =
  vars :: "(value_ptr, VariableAllocation) omap"
  vmOffsets :: "(value_ptr, u32) omap"
  vmBytesUsed :: u32
  intervalEnergy :: double

definition emptyAllocation :: RegionAllocation where
  "emptyAllocation = \<lparr>vars = [], vmOffsets = [], vmBytesUsed = 0, intervalEnergy = 0\<rparr>"

record LoopMark =
  lm_loop :: loop_id
  nbIter :: u32
  costOneIt :: double

record BlockMetadata =
  analyzed :: bool
  E_left :: double
  E_to_leave :: double
  meta_loop :: "LoopMark option"

definition defaultMetadata :: BlockMetadata where
  "defaultMetadata = \<lparr>analyzed = False, E_left = DBL_MAX, E_to_leave = 0, meta_loop = None\<rparr>"

record LoopCheckpointDecision =
  dec_loop :: "loop_id option"
  mandatoryBackEdge :: bool
  loopFitsEntirely :: bool
  numIterationsPerCharge :: u32
  E_loop :: double
  bodyPathCount :: u32
  hadEnabledCheckpoints :: bool
  convergenceApplied :: bool
  convergenceIterations :: u32
  initialStartEToLeave :: double
  initialEndEToLeave :: double
  initialELoop :: double
  initialAvailableEnergy :: double
  initialRawNumIterations :: int
  finalStartEToLeave :: double
  finalEndEToLeave :: double
  finalAvailableEnergy :: double
  finalRawNumIterations :: int
  bodyAllocation :: RegionAllocation

definition defaultDecision :: LoopCheckpointDecision where
  "defaultDecision = \<lparr>dec_loop = None, mandatoryBackEdge = False, loopFitsEntirely = False,
     numIterationsPerCharge = 0, E_loop = 0, bodyPathCount = 0, hadEnabledCheckpoints = False,
     convergenceApplied = False, convergenceIterations = 0, initialStartEToLeave = 0,
     initialEndEToLeave = 0, initialELoop = 0, initialAvailableEnergy = 0,
     initialRawNumIterations = 0, finalStartEToLeave = 0, finalEndEToLeave = 0,
     finalAvailableEnergy = 0, finalRawNumIterations = 0, bodyAllocation = emptyAllocation\<rparr>"

record RegionSolution =
  region_blocks :: "block_ptr list"
  allocation :: RegionAllocation

record SchematicSolution =
  enabledCheckpoints :: "CFGEdge set"
  checkpointStates :: "(CFGEdge, CheckpointState) omap"
  checkpointOrigins :: "(CFGEdge, string list) omap"
  regions :: "RegionSolution list"
  blockMeta :: "(block_ptr, BlockMetadata) omap"
  loopDecisions :: "(block_ptr, LoopCheckpointDecision) omap"
  decidedPlacements :: "(block_ptr, (value_ptr, Placement) omap) omap"
  blockAllocation :: "(block_ptr, nat) omap"
  functionCallBlocks :: "block_ptr set"
  pathsAnalyzed :: u32
  totalVmVariables :: u32
  totalNvmVariables :: u32
  allocHeap :: "(nat, RegionAllocation) omap"
  allocNext :: nat

definition emptySolution :: SchematicSolution where
  "emptySolution = \<lparr>enabledCheckpoints = {}, checkpointStates = [], checkpointOrigins = [],
     regions = [], blockMeta = [], loopDecisions = [], decidedPlacements = [],
     blockAllocation = [], functionCallBlocks = {}, pathsAnalyzed = 0, totalVmVariables = 0,
     totalNvmVariables = 0, allocHeap = [], allocNext = 1\<rparr>"

definition metaOf :: "SchematicSolution \<Rightarrow> block_ptr \<Rightarrow> BlockMetadata" where
  "metaOf sol b = omap_get defaultMetadata (blockMeta sol) b"

definition setMeta :: "block_ptr \<Rightarrow> BlockMetadata \<Rightarrow> SchematicSolution \<Rightarrow> SchematicSolution" where
  "setMeta b m sol = sol\<lparr>blockMeta := omap_put b m (blockMeta sol)\<rparr>"

definition isAnalyzed :: "SchematicSolution \<Rightarrow> block_ptr \<Rightarrow> bool" where
  "isAnalyzed sol b \<longleftrightarrow> (case map_of (blockMeta sol) b of None \<Rightarrow> False | Some m \<Rightarrow> analyzed m)"

definition placementsOf :: "SchematicSolution \<Rightarrow> block_ptr \<Rightarrow> (value_ptr, Placement) omap" where
  "placementsOf sol b = omap_get [] (decidedPlacements sol) b"

text \<open>Reading, sharing and allocating the \<open>shared_ptr<RegionAllocation>\<close> objects.\<close>

definition allocAt :: "SchematicSolution \<Rightarrow> nat \<Rightarrow> RegionAllocation" where
  "allocAt sol r = omap_get emptyAllocation (allocHeap sol) r"

definition findAllocation :: "SchematicSolution \<Rightarrow> block_ptr \<Rightarrow> RegionAllocation option" where
  "findAllocation sol b = map_option (allocAt sol) (map_of (blockAllocation sol) b)"

definition setAllocAt :: "nat \<Rightarrow> RegionAllocation \<Rightarrow> SchematicSolution \<Rightarrow> SchematicSolution" where
  "setAllocAt r a sol = sol\<lparr>allocHeap := omap_put r a (allocHeap sol)\<rparr>"

definition makeShared :: "RegionAllocation \<Rightarrow> SchematicSolution \<Rightarrow> nat \<times> SchematicSolution" where
  "makeShared a sol =
     (allocNext sol, sol\<lparr>allocHeap := omap_put (allocNext sol) a (allocHeap sol),
                        allocNext := Suc (allocNext sol)\<rparr>)"

section \<open>Resolving a checkpoint edge\<close>

text \<open>The worklist of the depth-first search in \<open>resolveCheckpointEdge\<close>: a stack whose top is
  the back of the vector. \<open>True\<close> when \<open>dstB\<close> is popped.\<close>

function reachesDst :: "SchematicGraph \<Rightarrow> block_ptr \<Rightarrow> block_ptr set \<Rightarrow> block_ptr list \<Rightarrow> bool" where
  "reachesDst g dstB visited [] = False"
| "reachesDst g dstB visited (cur # worklist) =
     (if cur = dstB then True
      else if cur \<in> visited then reachesDst g dstB visited worklist
      else reachesDst g dstB (insert cur visited) (rev (successors g cur) @ worklist))"
  by pat_completeness auto
termination
proof (relation "measures [\<lambda>(g, d, v, w). card (fst ` set (graphBlocks g) - v), \<lambda>(g, d, v, w). length w]",
    goal_cases)
  case (3 g dstB visited cur worklist)
  let ?D = "fst ` set (graphBlocks g)"
  show ?case
  proof (cases "cur \<in> ?D")
    case True
    with 3 have "?D - insert cur visited \<subset> ?D - visited" by auto
    then have "card (?D - insert cur visited) < card (?D - visited)"
      by (intro psubset_card_mono) auto
    then show ?thesis by simp
  next
    case False
    then have "map_of (graphBlocks g) cur = None"
      by (simp add: map_of_eq_None_iff)
    then have "successors g cur = []"
      by (simp add: successors_def blockAt_def omap_get_def nullBlock_def)
    moreover from False have "?D - insert cur visited = ?D - visited" by auto
    ultimately show ?thesis by simp
  qed
qed auto

definition resolveCheckpointEdge :: "SchematicGraph \<Rightarrow> CFGEdge \<Rightarrow> CFGEdge" where
  "resolveCheckpointEdge g e =
     (if dst e \<in> set (successors g (src e)) then e
      else case find (\<lambda>succ. reachesDst g (dst e) {} [succ]) (successors g (src e)) of
             Some succ \<Rightarrow> CFGEdge (src e) succ
           | None \<Rightarrow> e)"

section \<open>The checkpoint table\<close>

definition getCheckpointState :: "SchematicGraph \<Rightarrow> SchematicSolution \<Rightarrow> CFGEdge \<Rightarrow> CheckpointState" where
  "getCheckpointState g sol e = omap_get Potential (checkpointStates sol) (resolveCheckpointEdge g e)"

definition isDisabledCheckpoint :: "SchematicGraph \<Rightarrow> SchematicSolution \<Rightarrow> CFGEdge \<Rightarrow> bool" where
  "isDisabledCheckpoint g sol e \<longleftrightarrow> getCheckpointState g sol e = Disabled"

definition isPotentialCheckpoint :: "SchematicGraph \<Rightarrow> SchematicSolution \<Rightarrow> CFGEdge \<Rightarrow> bool" where
  "isPotentialCheckpoint g sol e \<longleftrightarrow> getCheckpointState g sol e = Potential"

definition addOrigin :: "CFGEdge \<Rightarrow> string \<Rightarrow> SchematicSolution \<Rightarrow> SchematicSolution" where
  "addOrigin r origin sol =
     (let origins = omap_get [] (checkpointOrigins sol) r
      in sol\<lparr>checkpointOrigins :=
           omap_put r (if origin \<in> set origins then origins else origins @ [origin])
             (checkpointOrigins sol)\<rparr>)"

definition setCheckpointState ::
  "SchematicGraph \<Rightarrow> CFGEdge \<Rightarrow> CheckpointState \<Rightarrow> string \<Rightarrow> SchematicSolution \<Rightarrow> SchematicSolution" where
  "setCheckpointState g e st origin sol =
     (let r = resolveCheckpointEdge g e;
          sol1 = sol\<lparr>checkpointStates := omap_put r st (checkpointStates sol)\<rparr>
      in if st = Active then
           (let sol2 = sol1\<lparr>enabledCheckpoints := insert r (enabledCheckpoints sol1)\<rparr>
            in if origin \<noteq> [] then addOrigin r origin sol2 else sol2)
         else sol1\<lparr>enabledCheckpoints := enabledCheckpoints sol1 - {r},
                   checkpointOrigins := omap_erase r (checkpointOrigins sol1)\<rparr>)"

definition enableCheckpoint ::
  "SchematicGraph \<Rightarrow> CFGEdge \<Rightarrow> string \<Rightarrow> SchematicSolution \<Rightarrow> SchematicSolution" where
  "enableCheckpoint g e origin sol = setCheckpointState g e Active origin sol"

definition disableCheckpoint :: "SchematicGraph \<Rightarrow> CFGEdge \<Rightarrow> SchematicSolution \<Rightarrow> SchematicSolution" where
  "disableCheckpoint g e sol = setCheckpointState g e Disabled [] sol"

definition setLoopLatchCheckpoint :: "SchematicGraph \<Rightarrow> CFGEdge \<Rightarrow> SchematicSolution \<Rightarrow> SchematicSolution" where
  "setLoopLatchCheckpoint g e sol = setCheckpointState g e LoopLatch [] sol"

definition hasNonDisabledCheckpoint :: "SchematicSolution \<Rightarrow> bool" where
  "hasNonDisabledCheckpoint sol \<longleftrightarrow>
     enabledCheckpoints sol \<noteq> {} \<or>
     list_ex (\<lambda>(e, st). st = Active \<or> st = LoopLatch \<or> st = Virtual) (checkpointStates sol) \<or>
     list_ex (\<lambda>(b, d). \<not> loopFitsEntirely d \<and>
        (mandatoryBackEdge d \<or> numIterationsPerCharge d > 0 \<or> hadEnabledCheckpoints d))
       (loopDecisions sol)"

section \<open>Invariant of the checkpoint table\<close>

definition ckpt_wf :: "SchematicSolution \<Rightarrow> bool" where
  "ckpt_wf sol \<longleftrightarrow>
     enabledCheckpoints sol = {e. map_of (checkpointStates sol) e = Some Active} \<and>
     dom (map_of (checkpointOrigins sol)) \<subseteq> enabledCheckpoints sol \<and>
     omap_wf (checkpointStates sol) \<and> omap_wf (checkpointOrigins sol)"

lemma successors_outside: "b \<notin> fst ` set (graphBlocks g) \<Longrightarrow> successors g b = []"
  by (simp add: successors_def blockAt_def omap_get_def nullBlock_def map_of_eq_None_iff [symmetric])

definition cfg_step :: "SchematicGraph \<Rightarrow> (block_ptr \<times> block_ptr) set" where
  "cfg_step g = {(a, b). b \<in> set (successors g a)}"

lemma reachesDst_sound:
  "reachesDst g d visited wl \<Longrightarrow> \<exists>w \<in> set wl. (w, d) \<in> (cfg_step g)\<^sup>*"
proof (induction g d visited wl rule: reachesDst.induct)
  case (2 g dstB visited cur worklist)
  show ?case
  proof (cases "cur = dstB \<or> cur \<in> visited")
    case True
    with 2 show ?thesis by (auto split: if_splits)
  next
    case False
    with 2 obtain w where w: "w \<in> set (successors g cur) \<union> set worklist" "(w, dstB) \<in> (cfg_step g)\<^sup>*"
      by auto
    then show ?thesis
      by (auto simp: cfg_step_def intro: converse_rtrancl_into_rtrancl)
  qed
qed simp

text \<open>The search misses nothing: what the worklist can reach without the visited blocks, it finds,
  provided every edge out of the visited blocks leads to a visited or pending block.\<close>

lemma reachesDst_complete:
  assumes "\<And>v s. v \<in> visited \<Longrightarrow> s \<in> set (successors g v) \<Longrightarrow> s \<in> visited \<union> set wl"
    and "d \<notin> visited" and "w \<in> visited \<union> set wl" and "(w, d) \<in> (cfg_step g)\<^sup>*"
  shows "reachesDst g d visited wl"
  using assms
proof (induction g d visited wl arbitrary: w rule: reachesDst.induct)
  case (1 g dstB visited)
  have "x \<in> visited" if "(w, x) \<in> (cfg_step g)\<^sup>*" for x
    using that by (induction rule: rtrancl_induct) (use "1.prems" in \<open>auto simp: cfg_step_def\<close>)
  with "1.prems" show ?case by auto
next
  case (2 g dstB visited cur worklist)
  show ?case
  proof (cases "cur = dstB")
    case False
    show ?thesis
    proof (cases "cur \<in> visited")
      case True
      have "reachesDst g dstB visited worklist"
        using False True "2.prems" by (intro "2.IH"(1) [of w]) auto
      with True False show ?thesis by simp
    next
      case nv: False
      have "reachesDst g dstB (insert cur visited) (rev (successors g cur) @ worklist)"
        using False nv "2.prems" by (intro "2.IH"(2) [of w]) auto
      with nv False show ?thesis by simp
    qed
  qed simp
qed

lemma reachesDst_iff: "reachesDst g d {} [s] \<longleftrightarrow> (s, d) \<in> (cfg_step g)\<^sup>*"
  using reachesDst_sound [of g d "{}" "[s]"] reachesDst_complete [of "{}" g "[s]" d s] by auto

lemma resolve_src [simp]: "src (resolveCheckpointEdge g e) = src e"
  by (simp add: resolveCheckpointEdge_def split: option.splits)

lemma resolve_idem [simp]:
  "resolveCheckpointEdge g (resolveCheckpointEdge g e) = resolveCheckpointEdge g e"
proof (cases "dst e \<in> set (successors g (src e))")
  case False
  show ?thesis
  proof (cases "find (\<lambda>succ. reachesDst g (dst e) {} [succ]) (successors g (src e))")
    case (Some s)
    then have "s \<in> set (successors g (src e))" by (auto simp: find_Some_iff)
    with Some False show ?thesis by (simp add: resolveCheckpointEdge_def)
  qed (use False in \<open>simp add: resolveCheckpointEdge_def\<close>)
qed (simp add: resolveCheckpointEdge_def)

lemma resolveCheckpointEdge_alt:
  "resolveCheckpointEdge g e =
     (if dst e \<in> set (successors g (src e)) then e
      else case find (\<lambda>s. (s, dst e) \<in> (cfg_step g)\<^sup>*) (successors g (src e)) of
             Some s \<Rightarrow> CFGEdge (src e) s | None \<Rightarrow> e)"
  by (simp only: resolveCheckpointEdge_def reachesDst_iff)

lemma ckpt_wf_setCheckpointState [intro]:
  assumes "ckpt_wf sol"
  shows "ckpt_wf (setCheckpointState g e st origin sol)"
proof (cases "st = Active")
  case True
  with assms show ?thesis
    by (auto simp: ckpt_wf_def setCheckpointState_def addOrigin_def Let_def)
next
  case False
  with assms show ?thesis
    by (auto simp: ckpt_wf_def setCheckpointState_def Let_def)
qed

lemma getCheckpointState_set:
  "getCheckpointState g (setCheckpointState g e st origin sol) e' =
     (if resolveCheckpointEdge g e' = resolveCheckpointEdge g e then st
      else getCheckpointState g sol e')"
  by (simp add: getCheckpointState_def setCheckpointState_def addOrigin_def Let_def)

lemma setCheckpointState_frame [frame_simps, simp]:
  "blockMeta (setCheckpointState g e st origin sol) = blockMeta sol"
  "decidedPlacements (setCheckpointState g e st origin sol) = decidedPlacements sol"
  "blockAllocation (setCheckpointState g e st origin sol) = blockAllocation sol"
  "allocHeap (setCheckpointState g e st origin sol) = allocHeap sol"
  "regions (setCheckpointState g e st origin sol) = regions sol"
  "loopDecisions (setCheckpointState g e st origin sol) = loopDecisions sol"
  "functionCallBlocks (setCheckpointState g e st origin sol) = functionCallBlocks sol"
  by (simp_all add: setCheckpointState_def addOrigin_def Let_def)

section \<open>Sample inputs\<close>

text \<open>A three-block function with two variables, on which the properties below are instantiated.\<close>

definition sample_params :: SchematicParams where
  "sample_params = \<lparr>capacity = 500, E_pro = 4, E_epi = 3, N_reg = 4, regStoreEnergy = 2, regRestoreEnergy = 1,
     nvmAccessPenalty = 5, memStoreEnergyPerByte = 2, memRestoreEnergyPerByte = 1, vmCapacityBytes = 16,
     loopIncrementCostNvm = 6, callCost = 7, addDebugMarkers = False\<rparr>"

definition sample_block :: "bb_ptr \<Rightarrow> block_ptr list \<Rightarrow> block_ptr list \<Rightarrow> SchematicBlock" where
  "sample_block bb ps ss = \<lparr>blk_bb = bb, blk_name = ''b'', blk_preds = ps, blk_succs = ss\<rparr>"

definition sample_graph :: SchematicGraph where
  "sample_graph = \<lparr>graphBlocks = [(1, sample_block 1 [] [2]), (2, sample_block 2 [1] [3]), (3, sample_block 3 [2] [])],
     realBlocks = [(1, 1), (2, 2), (3, 3)], syntheticBlocks = [], graphNext = 4\<rparr>"

definition sample_cfg :: CFGAnalysis where
  "sample_cfg = \<lparr>cfg_blocks = [1, 2, 3],
     cfg_blockInfo = [(1, \<lparr>bi_name = ''a'', energyCost = 10\<rparr>), (2, \<lparr>bi_name = ''b'', energyCost = 100\<rparr>), (3, \<lparr>bi_name = ''c'', energyCost = 20\<rparr>)],
     cfg_edges = [(1, 2), (2, 3)], cfg_entryBlock = 1, cfg_exitBlocks = [3]\<rparr>"

definition sample_state :: SchematicStateAnalysis where
  "sample_state = \<lparr>sa_candidates = [7, 8], sa_varSizeBytes = [(7, 4), (8, 2)],
     sa_loadCounts = [((2, 7), 10), ((2, 8), 3)], sa_storeCounts = [((2, 7), 2)],
     sa_firstOpIsLoad = [((2, 7), True), ((2, 8), True)], isPointerType = (\<lambda>_. False)\<rparr>"

lemmas sample_defs = sample_params_def sample_block_def sample_graph_def sample_cfg_def sample_state_def

text \<open>(C5) The checkpoint table keeps its invariant: after any sequence of state changes the enabled
  set is exactly the set of edges recorded Active, and origins exist for enabled edges only.\<close>

theorem checkpoint_table_invariant:
  "ckpt_wf (foldl (\<lambda>sol (e, st, origin). setCheckpointState g e st origin sol) emptySolution ops)"
proof (rule foldl_invariant)
  show "ckpt_wf emptySolution"
    by (simp add: ckpt_wf_def emptySolution_def)
  show "ckpt_wf (case x of (e, st, origin) \<Rightarrow> setCheckpointState g e st origin sol)"
    if "ckpt_wf sol" for sol x
    using that by (cases x) auto
qed

text \<open>A checkpoint edge resolves to a real CFG edge with the same source whose target reaches
  the requested destination, whenever the source has such a successor; otherwise the edge is
  returned unchanged. Resolving twice changes nothing more.\<close>

theorem resolveCheckpointEdge_correct:
  "resolveCheckpointEdge g (resolveCheckpointEdge g e) = resolveCheckpointEdge g e \<and>
   (if \<exists>s. s \<in> set (successors g (src e)) \<and> (s, dst e) \<in> (cfg_step g)\<^sup>*
    then \<exists>s. s \<in> set (successors g (src e)) \<and> (s, dst e) \<in> (cfg_step g)\<^sup>* \<and>
             resolveCheckpointEdge g e = CFGEdge (src e) s
    else resolveCheckpointEdge g e = e)"
proof (cases "dst e \<in> set (successors g (src e))")
  case True
  then show ?thesis
    by (cases e) (auto simp: resolveCheckpointEdge_alt)
next
  case False
  show ?thesis
  proof (cases "find (\<lambda>s. (s, dst e) \<in> (cfg_step g)\<^sup>*) (successors g (src e))")
    case None
    with False have "resolveCheckpointEdge g e = e"
      by (simp add: resolveCheckpointEdge_alt)
    with None show ?thesis by (auto simp: find_None_iff)
  next
    case (Some s)
    then have "s \<in> set (successors g (src e))" "(s, dst e) \<in> (cfg_step g)\<^sup>*"
      by (auto simp: find_Some_iff)
    moreover from Some False have "resolveCheckpointEdge g e = CFGEdge (src e) s"
      by (simp add: resolveCheckpointEdge_alt)
    ultimately show ?thesis by (auto simp flip: \<open>resolveCheckpointEdge g e = CFGEdge (src e) s\<close>)
  qed
qed

end
