(* ===== verification/MemoryAllocator.thy ===== *)
theory MemoryAllocator
  imports SchematicSolution
begin

text \<open>
  The greedy VM/NVM allocator of SCHEMATIC (\<open>passes/src/schematic/MemoryAllocator.cpp\<close>):
  the program-wide VM address tracker, the merge of allocations with its conflict detection, the
  two overloads of \<open>chooseMemoryAllocation\<close>, \<open>computeCost\<close> and \<open>extendsAllocation\<close>. (The
  part that applies an RCG result to the solution is in theory \<open>ApplyAllocation\<close>.)

  A \<open>VMAddressTracker*\<close> that may be null is an \<open>option\<close>, threaded as state; addresses and
  sizes are 32-bit words, so \<open>currAddress + sz\<close> wraps as the code's does. \<open>std::sort\<close> on the
  candidates is taken to be stable (the C++ standard leaves the order of equal gains open); the
  packing lemmas hold for the candidates in any order.

  Results: the tracker hands out pairwise disjoint ranges below the VM capacity
  (\<open>tracker_wf\<close>), every allocation built over tracked allocations is tracked again, a merge
  keeps the placements of its inputs and its VM ranges disjoint, and an interval whose
  allocations conflict is charged 99999 on top of its execution energy.
\<close>

section \<open>The VM address tracker\<close>

record VMAddressTracker =
  allocatedVars :: "(value_ptr, u32) omap"
  topAddress :: u32

definition resetTracker :: VMAddressTracker where
  "resetTracker = \<lparr>allocatedVars = [], topAddress = 0\<rparr>"

definition getExistingAddress :: "VMAddressTracker \<Rightarrow> value_ptr \<Rightarrow> u32 option" where
  "getExistingAddress t v = map_of (allocatedVars t) v"

definition recordAllocation :: "value_ptr \<Rightarrow> u32 \<Rightarrow> VMAddressTracker \<Rightarrow> u32 \<times> VMAddressTracker" where
  "recordAllocation v sz t =
     (topAddress t, t\<lparr>allocatedVars := omap_put v (topAddress t) (allocatedVars t),
                      topAddress := topAddress t + sz\<rparr>)"

section \<open>Save and restore flags, energy gain\<close>

fun firstAccessIsLoad ::
  "SchematicGraph \<Rightarrow> SchematicStateAnalysis \<Rightarrow> value_ptr \<Rightarrow> block_ptr list \<Rightarrow> bool" where
  "firstAccessIsLoad g st v [] = False"
| "firstAccessIsLoad g st v (block # blocks) =
     (let BB = getLLVMBlock g block
      in if BB = nullptr then firstAccessIsLoad g st v blocks
         else case getFirstOpIsLoad st BB v of
                Some isLoad \<Rightarrow> isLoad
              | None \<Rightarrow> firstAccessIsLoad g st v blocks)"

definition computeSaveRestoreFlags ::
  "SchematicGraph \<Rightarrow> value_ptr \<Rightarrow> block_ptr list \<Rightarrow> SchematicStateAnalysis \<Rightarrow> bool \<times> bool" where
  "computeSaveRestoreFlags g v intervalBlocks st =
     (let needR = firstAccessIsLoad g st v intervalBlocks;
          needS = True
      in (needR, needS))"

definition estimateEnergyGain :: "u32 \<Rightarrow> u32 \<Rightarrow> bool \<Rightarrow> bool \<Rightarrow> SchematicParams \<Rightarrow> double" where
  "estimateEnergyGain accessCount sz needR needS params =
     (let E_sr = memRestoreEnergyPerByte params * u2r sz * (if needR then 1 else 0) +
                 memStoreEnergyPerByte params * u2r sz * (if needS then 1 else 0)
      in nvmAccessPenalty params * u2r accessCount - E_sr)"

section \<open>Merging allocations\<close>

type_synonym occupied = "(u32 \<times> u32) list"

definition occupiedOf :: "SchematicStateAnalysis \<Rightarrow> RegionAllocation \<Rightarrow> occupied" where
  "occupiedOf st a =
     concat (map (\<lambda>(v, va).
       if placement va = VM then
         (case map_of (vmOffsets a) v of
            Some off \<Rightarrow> [(off, off + getVarSizeBytes st v)]
          | None \<Rightarrow> [])
       else []) (vars a))"

text \<open>One iteration of the inner loop of \<open>mergeAllocations\<close>: \<open>None\<close> is the
  \<open>return std::nullopt\<close> of a placement mismatch, an offset mismatch, an overlap, or a checkpoint
  increase that is not allowed.\<close>

definition mergeVar ::
  "SchematicStateAnalysis \<Rightarrow> bool \<Rightarrow> RegionAllocation \<Rightarrow> RegionAllocation \<times> occupied
     \<Rightarrow> value_ptr \<times> VariableAllocation \<Rightarrow> (RegionAllocation \<times> occupied) option" where
  "mergeVar st checkpointIncreaseAllowed ai acc p =
     (let (result, occ) = acc; (v, va) = p
      in case map_of (vars result) v of
           Some existing \<Rightarrow>
             if placement existing \<noteq> placement va then None
             else if placement va = VM then
               (case (map_of (vmOffsets result) v, map_of (vmOffsets ai) v) of
                  (Some off1, Some off2) \<Rightarrow> if off1 \<noteq> off2 then None else Some (result, occ)
                | _ \<Rightarrow> Some (result, occ))
             else Some (result, occ)
         | None \<Rightarrow>
             if placement va = VM then
               (case map_of (vmOffsets ai) v of
                  Some startAddr \<Rightarrow>
                    let endAddr = startAddr + getVarSizeBytes st v
                    in if list_ex (\<lambda>(s, e). startAddr < e \<and> s < endAddr) occ then None
                       else if (needRestore va \<or> needSave va) \<and> \<not> checkpointIncreaseAllowed then None
                       else Some (result\<lparr>vars := omap_put v va (vars result),
                                         vmOffsets := omap_put v startAddr (vmOffsets result)\<rparr>,
                                  occ @ [(startAddr, endAddr)])
                | None \<Rightarrow>
                    if (needRestore va \<or> needSave va) \<and> \<not> checkpointIncreaseAllowed then None
                    else Some (result\<lparr>vars := omap_put v va (vars result)\<rparr>, occ))
             else Some (result\<lparr>vars := omap_put v va (vars result)\<rparr>, occ))"

definition mergeOne ::
  "SchematicStateAnalysis \<Rightarrow> bool \<Rightarrow> RegionAllocation \<times> occupied \<Rightarrow> RegionAllocation
     \<Rightarrow> (RegionAllocation \<times> occupied) option" where
  "mergeOne st inc acc ai = foldM (mergeVar st inc ai) acc (vars ai)"

definition mergeAllocations ::
  "RegionAllocation list \<Rightarrow> SchematicStateAnalysis \<Rightarrow> bool \<Rightarrow> RegionAllocation option" where
  "mergeAllocations allocations st checkpointIncreaseAllowed =
     (case allocations of
        [] \<Rightarrow> Some emptyAllocation
      | [a] \<Rightarrow> Some a
      | a # rest \<Rightarrow>
          map_option fst (foldM (mergeOne st checkpointIncreaseAllowed) (a, occupiedOf st a) rest))"

section \<open>Choosing an allocation\<close>

record VariableAccessEstimate =
  accessCount :: u32
  est_needRestore :: bool
  est_needSave :: bool

record CandidateEntry =
  c_v :: value_ptr
  c_gain :: double
  c_size :: u32
  c_needRestore :: bool
  c_needSave :: bool

type_synonym access_map = "(value_ptr, VariableAccessEstimate) omap"

text \<open>The three merges at the top: block allocations (a checkpoint increase is allowed), then the
  start and the end boundary (it is not).\<close>

definition mergeBoundary ::
  "SchematicStateAnalysis \<Rightarrow> RegionAllocation option \<Rightarrow> RegionAllocation \<Rightarrow> RegionAllocation option" where
  "mergeBoundary st boundary constrained =
     (case boundary of
        None \<Rightarrow> Some constrained
      | Some b \<Rightarrow> mergeAllocations [b, constrained] st False)"

definition constrainedAllocation ::
  "SchematicStateAnalysis \<Rightarrow> RegionAllocation option \<Rightarrow> RegionAllocation option \<Rightarrow> RegionAllocation list
     \<Rightarrow> RegionAllocation option" where
  "constrainedAllocation st startAlloc endAlloc memoryAllocations =
     Option.bind (if memoryAllocations = [] then Some emptyAllocation
                  else mergeAllocations memoryAllocations st True)
       (\<lambda>c1. Option.bind (mergeBoundary st startAlloc c1) (mergeBoundary st endAlloc))"

definition constrainedGain :: "SchematicStateAnalysis \<Rightarrow> SchematicParams \<Rightarrow> RegionAllocation \<Rightarrow> double" where
  "constrainedGain st params result =
     foldl (\<lambda>g (v, va).
       let sz = getVarSizeBytes st v;
           g1 = (if needRestore va then g - memRestoreEnergyPerByte params * u2r sz else g)
       in if needSave va then g1 - memStoreEnergyPerByte params * u2r sz else g1) 0 (vars result)"

definition considerCandidate ::
  "SchematicStateAnalysis \<Rightarrow> SchematicParams \<Rightarrow> RegionAllocation option \<Rightarrow> RegionAllocation option
     \<Rightarrow> access_map \<Rightarrow> RegionAllocation \<times> CandidateEntry list \<Rightarrow> value_ptr
     \<Rightarrow> RegionAllocation \<times> CandidateEntry list" where
  "considerCandidate st params startAlloc endAlloc variableAccesses acc v =
     (let (result, candidates) = acc
      in if omap_count (vars result) v then (result, candidates)
         else case map_of variableAccesses v of
           None \<Rightarrow> (result, candidates)
         | Some access \<Rightarrow>
             if accessCount access = 0 then (result, candidates)
             else
               let needR = est_needRestore access;
                   needS = est_needSave access;
                   nvm = result\<lparr>vars := omap_put v \<lparr>placement = NVM, rawNeedRestore = needR, rawNeedSave = needS\<rparr> (vars result)\<rparr>;
                   sz = getVarSizeBytes st v;
                   entry = \<lparr>c_v = v, c_gain = estimateEnergyGain (accessCount access) sz needR needS params,
                            c_size = sz, c_needRestore = needR, c_needSave = needS\<rparr>
               in if isPointerType st v then (nvm, candidates)
                  else if startAlloc = None \<and> endAlloc = None then (result, candidates @ [entry])
                  else if (needR \<and> startAlloc \<noteq> None) \<or> (needS \<and> endAlloc \<noteq> None) then (nvm, candidates)
                  else (result, candidates @ [entry]))"

definition sortCandidates :: "CandidateEntry list \<Rightarrow> CandidateEntry list" where
  "sortCandidates = sort_key (\<lambda>c. - c_gain c)"

record pack_state =
  pk_result :: RegionAllocation
  pk_gain :: double
  pk_addr :: u32
  pk_tracker :: "VMAddressTracker option"

definition placeAt ::
  "CandidateEntry \<Rightarrow> u32 \<Rightarrow> RegionAllocation \<Rightarrow> RegionAllocation" where
  "placeAt c addr result =
     result\<lparr>vmOffsets := omap_put (c_v c) addr (vmOffsets result),
            vars := omap_put (c_v c) \<lparr>placement = VM, rawNeedRestore = c_needRestore c,
                                       rawNeedSave = c_needSave c\<rparr> (vars result)\<rparr>"

definition placeNvm :: "CandidateEntry \<Rightarrow> RegionAllocation \<Rightarrow> RegionAllocation" where
  "placeNvm c result =
     result\<lparr>vars := omap_put (c_v c) \<lparr>placement = NVM, rawNeedRestore = c_needRestore c,
                                       rawNeedSave = c_needSave c\<rparr> (vars result)\<rparr>"

definition packCandidate :: "SchematicParams \<Rightarrow> pack_state \<Rightarrow> CandidateEntry \<Rightarrow> pack_state" where
  "packCandidate params s c =
     (if c_gain c > 0 then
        case Option.bind (pk_tracker s) (\<lambda>t. getExistingAddress t (c_v c)) of
          Some existing \<Rightarrow>
            s\<lparr>pk_result := placeAt c existing (pk_result s), pk_gain := pk_gain s + c_gain c\<rparr>
        | None \<Rightarrow>
            if pk_addr s + c_size c \<le> vmCapacityBytes params then
              \<lparr>pk_result = placeAt c (pk_addr s) (pk_result s),
               pk_gain = pk_gain s + c_gain c,
               pk_addr = pk_addr s + c_size c,
               pk_tracker = map_option (\<lambda>t. snd (recordAllocation (c_v c) (c_size c) t)) (pk_tracker s)\<rparr>
            else s\<lparr>pk_result := placeNvm c (pk_result s)\<rparr>
      else s\<lparr>pk_result := placeNvm c (pk_result s)\<rparr>)"

text \<open>The overload on access estimates; the tracker is returned beside the pair.\<close>

definition chooseFromAccesses ::
  "access_map \<Rightarrow> SchematicStateAnalysis \<Rightarrow> SchematicParams \<Rightarrow> RegionAllocation option
     \<Rightarrow> RegionAllocation option \<Rightarrow> RegionAllocation list \<Rightarrow> VMAddressTracker option
     \<Rightarrow> RegionAllocation \<times> double \<times> VMAddressTracker option" where
  "chooseFromAccesses variableAccesses st params startAlloc endAlloc memoryAllocations tracker =
     (case constrainedAllocation st startAlloc endAlloc memoryAllocations of
        None \<Rightarrow> (emptyAllocation, -99999, tracker)
      | Some constrained \<Rightarrow>
          let totalGain = constrainedGain st params constrained;
              (result, candidates) =
                foldl (considerCandidate st params startAlloc endAlloc variableAccesses)
                  (constrained, []) (sa_candidates st);
              s = foldl (packCandidate params)
                    \<lparr>pk_result = result, pk_gain = totalGain,
                     pk_addr = (case tracker of Some t \<Rightarrow> topAddress t | None \<Rightarrow> 0),
                     pk_tracker = tracker\<rparr> (sortCandidates candidates)
          in ((pk_result s)\<lparr>vmBytesUsed := pk_addr s\<rparr>, pk_gain s, pk_tracker s))"

definition intervalAccesses ::
  "SchematicGraph \<Rightarrow> block_ptr list \<Rightarrow> SchematicStateAnalysis \<Rightarrow> access_map" where
  "intervalAccesses g intervalBlocks st =
     foldl (\<lambda>m v.
       let bbs = filter (\<lambda>BB. BB \<noteq> nullptr) (map (getLLVMBlock g) intervalBlocks);
           nR = foldl (\<lambda>n BB. n + getLoadCount st BB v) 0 bbs;
           nW = foldl (\<lambda>n BB. n + getStoreCount st BB v) 0 bbs;
           (needR, needS) = computeSaveRestoreFlags g v intervalBlocks st
       in if nR = 0 \<and> nW = 0 then m
          else omap_put v \<lparr>accessCount = nR + nW, est_needRestore = needR, est_needSave = needS\<rparr> m)
     [] (sa_candidates st)"

definition chooseMemoryAllocation ::
  "SchematicGraph \<Rightarrow> block_ptr list \<Rightarrow> SchematicStateAnalysis \<Rightarrow> SchematicParams
     \<Rightarrow> RegionAllocation option \<Rightarrow> RegionAllocation option \<Rightarrow> RegionAllocation list
     \<Rightarrow> VMAddressTracker option \<Rightarrow> RegionAllocation \<times> double \<times> VMAddressTracker option" where
  "chooseMemoryAllocation g intervalBlocks st params startAlloc endAlloc memoryAllocations tracker =
     chooseFromAccesses (intervalAccesses g intervalBlocks st) st params startAlloc endAlloc
       memoryAllocations tracker"

text \<open>\<open>blockAlloc\<close> is the lookup in \<open>blockAllocation\<close> (through the shared pointer).\<close>

definition intervalExecEnergy :: "SchematicGraph \<Rightarrow> CFGAnalysis \<Rightarrow> block_ptr list \<Rightarrow> double" where
  "intervalExecEnergy g cfg blocks =
     foldl (\<lambda>e b. let BB = getLLVMBlock g b
                  in if BB \<noteq> nullptr then e + energyCost (getBlockInfo cfg BB) else e) 0 blocks"

definition computeCost ::
  "SchematicGraph \<Rightarrow> block_ptr list \<Rightarrow> SchematicStateAnalysis \<Rightarrow> CFGAnalysis \<Rightarrow> SchematicParams
     \<Rightarrow> (block_ptr \<Rightarrow> RegionAllocation option) \<Rightarrow> VMAddressTracker option \<Rightarrow> RegionAllocation option
     \<Rightarrow> RegionAllocation option \<Rightarrow> RegionAllocation \<times> double \<times> VMAddressTracker option" where
  "computeCost g blocks st cfg params blockAlloc tracker startAlloc endAlloc =
     (if blocks = [] then (emptyAllocation, 0, tracker)
      else
        let energy = intervalExecEnergy g cfg blocks;
            memoryAllocations = List.map_filter blockAlloc blocks;
            (alloc, gain, tracker') =
              chooseMemoryAllocation g blocks st params startAlloc endAlloc memoryAllocations tracker
        in (alloc, energy - gain, tracker'))"

section \<open>Extending an allocation, boundary costs\<close>

definition extendVar ::
  "RegionAllocation \<Rightarrow> RegionAllocation \<Rightarrow> value_ptr \<times> VariableAllocation \<Rightarrow> RegionAllocation" where
  "extendVar source target p =
     (let (v, va) = p
      in if map_of (vars target) v = None then
           let t1 = target\<lparr>vars := omap_put v va (vars target)\<rparr>
           in if placement va = VM then
                (case map_of (vmOffsets source) v of
                   Some off \<Rightarrow> t1\<lparr>vmOffsets := omap_put v off (vmOffsets t1)\<rparr>
                 | None \<Rightarrow> t1)
              else t1
         else target)"

definition extendsAllocation :: "RegionAllocation \<Rightarrow> RegionAllocation \<Rightarrow> RegionAllocation" where
  "extendsAllocation target source = foldl (extendVar source) target (vars source)"

definition vmVarCost ::
  "double \<Rightarrow> SchematicStateAnalysis \<Rightarrow> (value_ptr, Placement) omap \<Rightarrow> double" where
  "vmVarCost perByte st placements =
     foldl (\<lambda>cost (gv, place). if place = VM then cost + perByte * u2r (getVarSizeBytes st gv) else cost)
       0 placements"

definition computeAllocationRestoreCost ::
  "block_ptr \<Rightarrow> SchematicSolution \<Rightarrow> SchematicStateAnalysis \<Rightarrow> SchematicParams \<Rightarrow> double" where
  "computeAllocationRestoreCost block sol st params =
     (case map_of (decidedPlacements sol) block of
        Some placements \<Rightarrow> vmVarCost (memRestoreEnergyPerByte params) st placements
      | None \<Rightarrow> 0)"

definition computeAllocationSaveCost ::
  "block_ptr \<Rightarrow> SchematicSolution \<Rightarrow> SchematicStateAnalysis \<Rightarrow> SchematicParams \<Rightarrow> double" where
  "computeAllocationSaveCost block sol st params =
     (case map_of (decidedPlacements sol) block of
        Some placements \<Rightarrow> vmVarCost (memStoreEnergyPerByte params) st placements
      | None \<Rightarrow> 0)"

section \<open>Tracked allocations\<close>

text \<open>No address computation of the packer wraps: each variable fits above the VM capacity.\<close>

definition sizes_fit :: "SchematicStateAnalysis \<Rightarrow> u32 \<Rightarrow> bool" where
  "sizes_fit st cap \<longleftrightarrow> list_all (\<lambda>(v, s). unat cap + unat s < 2 ^ 32) (sa_varSizeBytes st)"

definition tracker_wf :: "SchematicStateAnalysis \<Rightarrow> u32 \<Rightarrow> VMAddressTracker \<Rightarrow> bool" where
  "tracker_wf st cap t \<longleftrightarrow>
     topAddress t \<le> cap \<and>
     (\<forall>v a. map_of (allocatedVars t) v = Some a \<longrightarrow>
        unat a + unat (getVarSizeBytes st v) \<le> unat (topAddress t)) \<and>
     (\<forall>v w a b. map_of (allocatedVars t) v = Some a \<longrightarrow> map_of (allocatedVars t) w = Some b \<longrightarrow> v \<noteq> w \<longrightarrow>
        unat a + unat (getVarSizeBytes st v) \<le> unat b \<or> unat b + unat (getVarSizeBytes st w) \<le> unat a)"

definition alloc_tracked :: "VMAddressTracker \<Rightarrow> RegionAllocation \<Rightarrow> bool" where
  "alloc_tracked t a \<longleftrightarrow>
     (\<forall>v va. map_of (vars a) v = Some va \<longrightarrow> placement va = VM \<longrightarrow>
        (\<exists>off. map_of (vmOffsets a) v = Some off \<and> map_of (allocatedVars t) v = Some off))"

lemma sizes_fitD: "sizes_fit st cap \<Longrightarrow> unat cap + unat (getVarSizeBytes st v) < 2 ^ 32"
  using unat_less_u32 [of cap]
  by (fastforce simp: sizes_fit_def getVarSizeBytes_def omap_get_def list_all_iff
      dest: map_of_SomeD split: option.splits)

lemma tracker_wf_reset: "tracker_wf st cap resetTracker"
  by (simp add: tracker_wf_def resetTracker_def)

text \<open>Appending a fresh variable at the top keeps the ranges disjoint and below the capacity.\<close>

lemma recordAllocation_wf:
  assumes wf: "tracker_wf st cap t" and fits: "sizes_fit st cap"
    and room: "topAddress t + getVarSizeBytes st v \<le> cap"
    and fresh: "getExistingAddress t v = None"
  shows "tracker_wf st cap (snd (recordAllocation v (getVarSizeBytes st v) t))"
proof -
  let ?s = "getVarSizeBytes st v"
  have top: "unat (topAddress t) \<le> unat cap"
    using wf by (simp add: tracker_wf_def word_le_nat_alt)
  then have "unat (topAddress t) + unat ?s < 2 ^ 32"
    using sizes_fitD [OF fits, of v] by linarith
  then have sum: "unat (topAddress t + ?s) = unat (topAddress t) + unat ?s"
    by (rule unat_add_u32)
  have old: "unat a + unat (getVarSizeBytes st w) \<le> unat (topAddress t)"
    if "map_of (allocatedVars t) w = Some a" for w a
    using wf that by (auto simp: tracker_wf_def)
  show ?thesis
    using wf room fresh old sum
    by (fastforce simp: tracker_wf_def recordAllocation_def getExistingAddress_def)
qed

lemma alloc_tracked_mono:
  "alloc_tracked t a \<Longrightarrow> map_of (allocatedVars t) \<subseteq>\<^sub>m map_of (allocatedVars t') \<Longrightarrow> alloc_tracked t' a"
  by (fastforce simp: alloc_tracked_def map_le_def dom_def)

lemma alloc_tracked_empty [simp]: "alloc_tracked t emptyAllocation"
  by (simp add: alloc_tracked_def emptyAllocation_def)

lemma alloc_tracked_nvm:
  "alloc_tracked t a \<Longrightarrow> placement va = NVM \<Longrightarrow> alloc_tracked t (a\<lparr>vars := omap_put v va (vars a)\<rparr>)"
  by (auto simp: alloc_tracked_def)

lemma alloc_tracked_vm:
  assumes "alloc_tracked t a" and "map_of (allocatedVars t) v = Some off"
  shows "alloc_tracked t (a\<lparr>vmOffsets := omap_put v off (vmOffsets a), vars := omap_put v va (vars a)\<rparr>)"
    and "alloc_tracked t (a\<lparr>vars := omap_put v va (vars a), vmOffsets := omap_put v off (vmOffsets a)\<rparr>)"
  using assms by (auto simp: alloc_tracked_def)

lemma mergeVar_tracked:
  assumes "mergeVar st inc ai (r, occ) (v, va) = Some (r', occ')"
    and "alloc_tracked t r" and "alloc_tracked t ai" and "map_of (vars ai) v = Some va"
  shows "alloc_tracked t r'"
proof (cases "map_of (vars r) v")
  case (Some existing)
  with assms show ?thesis
    by (auto simp: mergeVar_def split: if_splits option.splits)
next
  case None
  show ?thesis
  proof (cases "placement va")
    case VM
    with assms(3,4) obtain off where off: "map_of (vmOffsets ai) v = Some off"
        "map_of (allocatedVars t) v = Some off"
      by (auto simp: alloc_tracked_def)
    with None VM assms(1) have
      "r' = r\<lparr>vars := omap_put v va (vars r), vmOffsets := omap_put v off (vmOffsets r)\<rparr>"
      by (auto simp: mergeVar_def Let_def split: if_splits)
    with alloc_tracked_vm(2) [OF assms(2) off(2)] show ?thesis by simp
  next
    case NVM
    with None assms show ?thesis
      by (auto simp: mergeVar_def intro: alloc_tracked_nvm)
  qed
qed

lemma foldM_mergeVar_tracked:
  assumes "foldM (mergeVar st inc ai) (r, occ) vs = Some (r', occ')"
    and "alloc_tracked t r" and "alloc_tracked t ai" and "omap_wf (vars ai)"
    and "set vs \<subseteq> set (vars ai)"
  shows "alloc_tracked t r'"
proof -
  have "alloc_tracked t (fst (r', occ'))"
  proof (rule foldM_invariant [OF assms(1), where P = "\<lambda>s. alloc_tracked t (fst s)"])
    fix s x s'
    assume x: "x \<in> set vs" and s: "alloc_tracked t (fst s)" and eq: "mergeVar st inc ai s x = Some s'"
    obtain v va where xv: "x = (v, va)" by (cases x)
    with x assms(4,5) have "map_of (vars ai) v = Some va"
      by (auto intro: omap_wf_map_of_eq)
    with eq s assms(3) xv show "alloc_tracked t (fst s')"
      by (cases s; cases s') (auto dest: mergeVar_tracked)
  qed (use assms in simp)
  then show ?thesis by simp
qed

definition tracked_ok :: "VMAddressTracker \<Rightarrow> RegionAllocation \<Rightarrow> bool" where
  "tracked_ok t a \<longleftrightarrow> alloc_tracked t a \<and> omap_wf (vars a)"

lemma mergeVar_wf:
  "mergeVar st inc ai (r, occ) p = Some (r', occ') \<Longrightarrow> omap_wf (vars r) \<Longrightarrow> omap_wf (vars r')"
  by (cases p) (auto simp: mergeVar_def Let_def split: if_splits option.splits)

lemma mergeOne_tracked:
  assumes "mergeOne st inc s ai = Some s'" and "tracked_ok t (fst s)" and "tracked_ok t ai"
  shows "tracked_ok t (fst s')"
proof -
  obtain r occ r' occ' where s: "s = (r, occ)" "s' = (r', occ')" by (cases s; cases s')
  have "omap_wf (vars (fst s'))"
    using assms(1,2) unfolding mergeOne_def
    by (elim foldM_invariant [where P = "\<lambda>x. omap_wf (vars (fst x))"])
      (auto simp: tracked_ok_def dest: mergeVar_wf)
  moreover have "alloc_tracked t r'"
    using assms s by (auto simp: mergeOne_def tracked_ok_def intro: foldM_mergeVar_tracked)
  ultimately show ?thesis using s by (simp add: tracked_ok_def)
qed

lemma mergeAllocations_tracked:
  assumes "mergeAllocations as st inc = Some r" and "\<forall>a \<in> set as. tracked_ok t a"
  shows "tracked_ok t r"
proof (cases as)
  case Nil
  with assms show ?thesis
    by (auto simp: mergeAllocations_def tracked_ok_def emptyAllocation_def alloc_tracked_def)
next
  case (Cons a rest)
  show ?thesis
  proof (cases rest)
    case Nil
    with Cons assms show ?thesis by (simp add: mergeAllocations_def)
  next
    case (Cons b more)
    with \<open>as = a # rest\<close> assms(1) obtain s where
      s: "foldM (mergeOne st inc) (a, occupiedOf st a) rest = Some s" and r: "r = fst s"
      by (auto simp: mergeAllocations_def)
    have "tracked_ok t (fst s)"
      using \<open>as = a # rest\<close> assms(2)
      by (intro foldM_invariant [OF s, where P = "\<lambda>x. tracked_ok t (fst x)"])
        (auto intro: mergeOne_tracked)
    with r show ?thesis by simp
  qed
qed

lemma constrainedAllocation_tracked:
  assumes "constrainedAllocation st sa ea mems = Some r"
    and "\<forall>a \<in> set mems \<union> set_option sa \<union> set_option ea. tracked_ok t a"
  shows "tracked_ok t r"
proof -
  have base: "tracked_ok t c1"
    if "(if mems = [] then Some emptyAllocation else mergeAllocations mems st True) = Some c1" for c1
    using that assms(2)
    by (auto simp: tracked_ok_def emptyAllocation_def alloc_tracked_def split: if_splits
        dest: mergeAllocations_tracked [where t = t])
  have boundary: "tracked_ok t c'"
    if "mergeBoundary st b c = Some c'" "tracked_ok t c" "\<forall>a \<in> set_option b. tracked_ok t a" for b c c'
    using that by (cases b) (auto simp: mergeBoundary_def dest: mergeAllocations_tracked [where t = t])
  show ?thesis
    using assms base boundary
    by (auto simp: constrainedAllocation_def bind_eq_Some_conv)
qed

lemma considerCandidate_tracked:
  assumes "considerCandidate st params sa ea accs (r, cs) v = (r', cs')"
    and "tracked_ok t r" and "\<forall>c \<in> set cs. c_size c = getVarSizeBytes st (c_v c)"
  shows "tracked_ok t r' \<and> (\<forall>c \<in> set cs'. c_size c = getVarSizeBytes st (c_v c))"
  using assms
  by (auto simp: considerCandidate_def tracked_ok_def Let_def intro: alloc_tracked_nvm
      split: if_splits option.splits)

lemma foldl_considerCandidate_tracked:
  assumes "foldl (considerCandidate st params sa ea accs) (r, []) vs = (r', cs')" and "tracked_ok t r"
  shows "tracked_ok t r' \<and> (\<forall>c \<in> set cs'. c_size c = getVarSizeBytes st (c_v c))"
proof -
  let ?P = "\<lambda>s :: RegionAllocation \<times> CandidateEntry list.
    tracked_ok t (fst s) \<and> (\<forall>c \<in> set (snd s). c_size c = getVarSizeBytes st (c_v c))"
  have "?P (foldl (considerCandidate st params sa ea accs) (r, []) vs)"
  proof (rule foldl_invariant [where P = ?P])
    fix s v
    assume "?P s"
    then show "?P (considerCandidate st params sa ea accs s v)"
      using considerCandidate_tracked [of st params sa ea accs "fst s" "snd s" v
          "fst (considerCandidate st params sa ea accs s v)" "snd (considerCandidate st params sa ea accs s v)" t]
      by simp
  qed (use assms(2) in simp)
  with assms(1) show ?thesis by simp
qed

definition pack_inv ::
  "SchematicStateAnalysis \<Rightarrow> SchematicParams \<Rightarrow> VMAddressTracker \<Rightarrow> pack_state \<Rightarrow> bool" where
  "pack_inv st params t0 s \<longleftrightarrow>
     (\<exists>t. pk_tracker s = Some t \<and> tracker_wf st (vmCapacityBytes params) t \<and>
          pk_addr s = topAddress t \<and> tracked_ok t (pk_result s) \<and>
          map_of (allocatedVars t0) \<subseteq>\<^sub>m map_of (allocatedVars t))"

lemma placeNvm_tracked: "tracked_ok t r \<Longrightarrow> tracked_ok t (placeNvm c r)"
  by (auto simp: tracked_ok_def placeNvm_def intro: alloc_tracked_nvm)

lemma placeAt_tracked:
  "tracked_ok t r \<Longrightarrow> map_of (allocatedVars t) (c_v c) = Some a \<Longrightarrow> tracked_ok t (placeAt c a r)"
  by (auto simp: tracked_ok_def placeAt_def intro: alloc_tracked_vm)

lemma packCandidate_inv:
  assumes inv: "pack_inv st params t0 s" and fits: "sizes_fit st (vmCapacityBytes params)"
    and sz: "c_size c = getVarSizeBytes st (c_v c)"
  shows "pack_inv st params t0 (packCandidate params s c)"
proof -
  from inv obtain t where t: "pk_tracker s = Some t" "tracker_wf st (vmCapacityBytes params) t"
      "pk_addr s = topAddress t" "tracked_ok t (pk_result s)"
      "map_of (allocatedVars t0) \<subseteq>\<^sub>m map_of (allocatedVars t)"
    by (auto simp: pack_inv_def)
  consider (nvm) "\<not> c_gain c > 0 \<or>
        (getExistingAddress t (c_v c) = None \<and> \<not> pk_addr s + c_size c \<le> vmCapacityBytes params)"
    | (reuse) a where "c_gain c > 0" "getExistingAddress t (c_v c) = Some a"
    | (fresh) "c_gain c > 0" "getExistingAddress t (c_v c) = None"
        "pk_addr s + c_size c \<le> vmCapacityBytes params"
    by (cases "getExistingAddress t (c_v c)") blast+
  then show ?thesis
  proof cases
    case nvm
    with t show ?thesis
      by (auto simp: pack_inv_def packCandidate_def placeNvm_tracked split: option.splits)
  next
    case reuse
    with t show ?thesis
      by (auto simp: pack_inv_def packCandidate_def getExistingAddress_def intro: placeAt_tracked)
  next
    case fresh
    let ?t = "snd (recordAllocation (c_v c) (getVarSizeBytes st (c_v c)) t)"
    have wf: "tracker_wf st (vmCapacityBytes params) ?t"
      using fresh t sz fits by (intro recordAllocation_wf) auto
    have le: "map_of (allocatedVars t) \<subseteq>\<^sub>m map_of (allocatedVars ?t)"
      using fresh(2) by (auto simp: map_le_def recordAllocation_def getExistingAddress_def)
    then have "tracked_ok ?t (pk_result s)"
      using t(4) by (auto simp: tracked_ok_def intro: alloc_tracked_mono)
    then have "tracked_ok ?t (placeAt c (topAddress t) (pk_result s))"
      by (rule placeAt_tracked) (simp add: recordAllocation_def)
    moreover have "map_of (allocatedVars t0) \<subseteq>\<^sub>m map_of (allocatedVars ?t)"
      using t(5) le by (rule map_le_trans)
    ultimately show ?thesis
      using fresh t sz wf by (simp add: pack_inv_def packCandidate_def) (simp add: recordAllocation_def)
  qed
qed

text \<open>The allocator as a whole: over tracked inputs the chosen allocation is tracked by the new
  tracker, which is well formed and extends the old one.\<close>

lemma chooseFromAccesses_tracked:
  assumes "chooseFromAccesses accs st params sa ea mems (Some t) = (alloc, gain, tr)"
    and "tracker_wf st (vmCapacityBytes params) t" and "sizes_fit st (vmCapacityBytes params)"
    and "\<forall>a \<in> set mems \<union> set_option sa \<union> set_option ea. tracked_ok t a"
  shows "\<exists>t'. tr = Some t' \<and> tracker_wf st (vmCapacityBytes params) t' \<and> tracked_ok t' alloc \<and>
     map_of (allocatedVars t) \<subseteq>\<^sub>m map_of (allocatedVars t')"
proof (cases "constrainedAllocation st sa ea mems")
  case None
  with assms show ?thesis
    by (auto simp: chooseFromAccesses_def tracked_ok_def emptyAllocation_def alloc_tracked_def)
next
  case (Some c)
  obtain r cs where rc: "foldl (considerCandidate st params sa ea accs) (c, []) (sa_candidates st) = (r, cs)"
    by fastforce
  from Some assms(4) have "tracked_ok t c" by (rule constrainedAllocation_tracked)
  from foldl_considerCandidate_tracked [OF rc this]
  have r: "tracked_ok t r" and szs: "\<forall>c \<in> set cs. c_size c = getVarSizeBytes st (c_v c)" by auto
  define s0 where "s0 = \<lparr>pk_result = r, pk_gain = constrainedGain st params c,
    pk_addr = topAddress t, pk_tracker = Some t\<rparr>"
  define s where "s = foldl (packCandidate params) s0 (sortCandidates cs)"
  have "pack_inv st params t s"
    unfolding s_def
    by (rule foldl_invariant)
      (use r szs assms(2,3) in \<open>auto simp: s0_def pack_inv_def sortCandidates_def
         intro!: packCandidate_inv [unfolded pack_inv_def]\<close>)
  then obtain t' where t': "pk_tracker s = Some t'" "tracker_wf st (vmCapacityBytes params) t'"
      "tracked_ok t' (pk_result s)" "map_of (allocatedVars t) \<subseteq>\<^sub>m map_of (allocatedVars t')"
    by (auto simp: pack_inv_def)
  have "alloc = (pk_result s)\<lparr>vmBytesUsed := pk_addr s\<rparr>" "tr = pk_tracker s"
    using assms(1) Some rc by (auto simp: chooseFromAccesses_def Let_def s_def s0_def)
  with t' show ?thesis
    by (auto simp: tracked_ok_def alloc_tracked_def)
qed

lemma computeCost_tracked:
  assumes "computeCost g blocks st cfg params blockAlloc (Some t) sa ea = (alloc, e, tr)"
    and "tracker_wf st (vmCapacityBytes params) t" and "sizes_fit st (vmCapacityBytes params)"
    and "\<forall>b a. blockAlloc b = Some a \<longrightarrow> tracked_ok t a"
    and "\<forall>a \<in> set_option sa \<union> set_option ea. tracked_ok t a"
  shows "\<exists>t'. tr = Some t' \<and> tracker_wf st (vmCapacityBytes params) t' \<and> tracked_ok t' alloc \<and>
     map_of (allocatedVars t) \<subseteq>\<^sub>m map_of (allocatedVars t')"
proof (cases "blocks = []")
  case True
  with assms show ?thesis
    by (auto simp: computeCost_def tracked_ok_def emptyAllocation_def alloc_tracked_def)
next
  case False
  let ?mems = "List.map_filter blockAlloc blocks"
  obtain a gn tr' where eq: "chooseFromAccesses (intervalAccesses g blocks st) st params sa ea ?mems (Some t) = (a, gn, tr')"
    by (cases "chooseFromAccesses (intervalAccesses g blocks st) st params sa ea ?mems (Some t)")
  have "\<forall>a \<in> set ?mems \<union> set_option sa \<union> set_option ea. tracked_ok t a"
    using assms(4,5) by (auto simp: List.map_filter_def)
  from chooseFromAccesses_tracked [OF eq assms(2,3) this] eq False assms(1) show ?thesis
    by (simp add: computeCost_def chooseMemoryAllocation_def Let_def)
qed

lemma tracked_disjoint:
  assumes "tracker_wf st cap t" and "alloc_tracked t a"
    and "map_of (vars a) v = Some va" and "placement va = VM"
    and "map_of (vars a) w = Some wa" and "placement wa = VM" and "v \<noteq> w"
  shows "\<exists>ov ow. map_of (vmOffsets a) v = Some ov \<and> map_of (vmOffsets a) w = Some ow \<and>
     unat ov + unat (getVarSizeBytes st v) \<le> unat cap \<and>
     (unat ov + unat (getVarSizeBytes st v) \<le> unat ow \<or> unat ow + unat (getVarSizeBytes st w) \<le> unat ov)"
proof -
  from assms(2-4) obtain ov where ov: "map_of (vmOffsets a) v = Some ov" "map_of (allocatedVars t) v = Some ov"
    by (auto simp: alloc_tracked_def)
  from assms(2,5,6) obtain ow where ow: "map_of (vmOffsets a) w = Some ow" "map_of (allocatedVars t) w = Some ow"
    by (auto simp: alloc_tracked_def)
  note o = ov ow
  moreover from assms(1) o have "unat ov + unat (getVarSizeBytes st v) \<le> unat (topAddress t)"
      "unat (topAddress t) \<le> unat cap"
    by (auto simp: tracker_wf_def word_le_nat_alt)
  ultimately show ?thesis
    using assms(1,7) by (fastforce simp: tracker_wf_def)
qed

section \<open>Merging keeps placements and disjointness\<close>

definition vm_range :: "SchematicStateAnalysis \<Rightarrow> RegionAllocation \<Rightarrow> value_ptr \<Rightarrow> (u32 \<times> u32) option" where
  "vm_range st a v =
     (case (map_of (vars a) v, map_of (vmOffsets a) v) of
        (Some va, Some off) \<Rightarrow> if placement va = VM then Some (off, off + getVarSizeBytes st v) else None
      | _ \<Rightarrow> None)"

definition ranges_disjoint :: "SchematicStateAnalysis \<Rightarrow> RegionAllocation \<Rightarrow> bool" where
  "ranges_disjoint st a \<longleftrightarrow>
     (\<forall>v w s e s' e'. v \<noteq> w \<longrightarrow> vm_range st a v = Some (s, e) \<longrightarrow> vm_range st a w = Some (s', e') \<longrightarrow>
        \<not> overlaps s e s' e')"

text \<open>The invariant of the merge loop: the accumulated result keeps every entry of the first
  allocation, and \<open>occupied\<close> lists the range of each of its VM variables. Offsets are recorded for
  present variables only, which every allocation the code builds satisfies.\<close>

definition offsets_present :: "RegionAllocation \<Rightarrow> bool" where
  "offsets_present a \<longleftrightarrow> dom (map_of (vmOffsets a)) \<subseteq> dom (map_of (vars a))"

definition merge_inv ::
  "SchematicStateAnalysis \<Rightarrow> RegionAllocation \<Rightarrow> RegionAllocation \<times> occupied \<Rightarrow> bool" where
  "merge_inv st a0 s \<longleftrightarrow>
     map_of (vars a0) \<subseteq>\<^sub>m map_of (vars (fst s)) \<and>
     offsets_present (fst s) \<and>
     (\<forall>v p. vm_range st (fst s) v = Some p \<longrightarrow> p \<in> set (snd s)) \<and>
     ranges_disjoint st (fst s)"

lemma vm_range_put:
  "vm_range st (r\<lparr>vars := omap_put v va (vars r), vmOffsets := omap_put v off (vmOffsets r)\<rparr>) w =
     (if w = v then if placement va = VM then Some (off, off + getVarSizeBytes st v) else None
      else vm_range st r w)"
  "vm_range st (r\<lparr>vars := omap_put v va (vars r)\<rparr>) w =
     (if w = v then (case map_of (vmOffsets r) v of
          Some off \<Rightarrow> if placement va = VM then Some (off, off + getVarSizeBytes st v) else None
        | None \<Rightarrow> None)
      else vm_range st r w)"
  by (auto simp: vm_range_def split: option.splits)

lemma mergeVar_inv:
  assumes eq: "mergeVar st inc ai (r, occ) (v, va) = Some (r', occ')" and inv: "merge_inv st a0 (r, occ)"
  shows "merge_inv st a0 (r', occ')"
proof (cases "map_of (vars r) v")
  case (Some ex)
  with eq have "r' = r" "occ' = occ"
    by (auto simp: mergeVar_def split: if_splits option.splits)
  with inv show ?thesis by simp
next
  case None
  then have no_off: "map_of (vmOffsets r) v = None"
    using inv by (auto simp: merge_inv_def offsets_present_def)
  have keep: "map_of (vars a0) \<subseteq>\<^sub>m (map_of (vars r))(v \<mapsto> va)"
    using inv None by (fastforce simp: merge_inv_def map_le_def dom_def)
  show ?thesis
  proof (cases "placement va = VM \<and> map_of (vmOffsets ai) v \<noteq> None")
    case True
    then obtain off where off: "map_of (vmOffsets ai) v = Some off" and vm: "placement va = VM" by auto
    let ?e = "off + getVarSizeBytes st v"
    from eq None off vm have free: "\<forall>(s, e) \<in> set occ. \<not> overlaps off ?e s e"
      and r': "r' = r\<lparr>vars := omap_put v va (vars r), vmOffsets := omap_put v off (vmOffsets r)\<rparr>"
      and occ': "occ' = occ @ [(off, ?e)]"
      by (auto simp: mergeVar_def Let_def list_ex_iff overlaps_def split: if_splits)
    have "ranges_disjoint st r'"
      using inv free unfolding merge_inv_def ranges_disjoint_def r' vm_range_put
      by (auto simp: vm overlaps_sym [of off])
    then show ?thesis
      using inv keep by (auto simp: merge_inv_def r' occ' vm_range_put offsets_present_def split: if_splits)
  next
    case False
    with eq None have r': "r' = r\<lparr>vars := omap_put v va (vars r)\<rparr>" and occ': "occ' = occ"
      by (auto simp: mergeVar_def Let_def split: if_splits option.splits)
    have "vm_range st r' = vm_range st r"
      using None no_off by (auto simp: r' vm_range_put vm_range_def fun_eq_iff split: option.splits)
    then show ?thesis
      using inv keep by (auto simp: merge_inv_def r' occ' ranges_disjoint_def offsets_present_def)
  qed
qed

lemma mergeVar_records:
  assumes "mergeVar st inc ai (r, occ) (v, va) = Some (r', occ')"
  shows "\<exists>va'. map_of (vars r') v = Some va' \<and> placement va' = placement va"
  using assms by (auto simp: mergeVar_def Let_def split: if_splits option.splits)

lemma mergeVar_keeps:
  "mergeVar st inc ai (r, occ) p = Some (r', occ') \<Longrightarrow> map_of (vars r) \<subseteq>\<^sub>m map_of (vars r')"
  by (cases p) (auto simp: mergeVar_def Let_def map_le_def split: if_splits option.splits)

lemma foldM_mergeVar_keeps:
  "foldM (mergeVar st inc ai) s vs = Some s' \<Longrightarrow> map_of (vars (fst s)) \<subseteq>\<^sub>m map_of (vars (fst s'))"
proof (induction vs arbitrary: s)
  case (Cons p vs)
  then obtain s1 where "mergeVar st inc ai s p = Some s1" "foldM (mergeVar st inc ai) s1 vs = Some s'"
    by (auto split: option.splits)
  with Cons.IH [of s1] show ?case
    by (cases s; cases s1) (auto dest!: mergeVar_keeps intro: map_le_trans)
qed simp

lemma foldM_mergeVar_records:
  "foldM (mergeVar st inc ai) s vs = Some s' \<Longrightarrow> (v, va) \<in> set vs \<Longrightarrow>
     \<exists>va'. map_of (vars (fst s')) v = Some va' \<and> placement va' = placement va"
proof (induction vs arbitrary: s)
  case (Cons p vs)
  then obtain s1 where s1: "mergeVar st inc ai s p = Some s1" "foldM (mergeVar st inc ai) s1 vs = Some s'"
    by (auto split: option.splits)
  show ?case
  proof (cases "p = (v, va)")
    case True
    with s1(1) obtain va' where "map_of (vars (fst s1)) v = Some va'" "placement va' = placement va"
      by (cases s; cases s1) (auto dest: mergeVar_records)
    with foldM_mergeVar_keeps [OF s1(2)] show ?thesis
      by (auto simp: map_le_def dom_def)
  next
    case False
    with Cons s1 show ?thesis by auto
  qed
qed simp

lemma foldM_mergeOne_records:
  "foldM (mergeOne st inc) s as = Some s' \<Longrightarrow>
     map_of (vars (fst s)) \<subseteq>\<^sub>m map_of (vars (fst s')) \<and>
     (\<forall>a \<in> set as. \<forall>(v, va) \<in> set (vars a).
        \<exists>va'. map_of (vars (fst s')) v = Some va' \<and> placement va' = placement va)"
proof (induction as arbitrary: s)
  case (Cons a as)
  then obtain s1 where s1: "mergeOne st inc s a = Some s1" "foldM (mergeOne st inc) s1 as = Some s'"
    by (auto split: option.splits)
  note IH = Cons.IH [OF s1(2)]
  have "\<exists>va'. map_of (vars (fst s')) v = Some va' \<and> placement va' = placement va"
    if "(v, va) \<in> set (vars a)" for v va
    using foldM_mergeVar_records [OF s1(1) [unfolded mergeOne_def] that] IH
    by (auto simp: map_le_def dom_def)
  moreover have "map_of (vars (fst s)) \<subseteq>\<^sub>m map_of (vars (fst s'))"
    using foldM_mergeVar_keeps [OF s1(1) [unfolded mergeOne_def]] IH by (auto intro: map_le_trans)
  ultimately show ?case using IH by auto
qed simp

lemma occupiedOf_range:
  "vm_range st a v = Some p \<Longrightarrow> p \<in> set (occupiedOf st a)"
proof -
  assume "vm_range st a v = Some p"
  then obtain va off where "map_of (vars a) v = Some va" and off: "map_of (vmOffsets a) v = Some off"
      "placement va = VM" "p = (off, off + getVarSizeBytes st v)"
    by (auto simp: vm_range_def split: option.splits if_splits)
  then have "(v, va) \<in> set (vars a)" by (auto dest: map_of_SomeD)
  then show ?thesis
    unfolding occupiedOf_def set_concat set_map image_image
    by (rule UN_I) (simp add: off)
qed

lemma mergeAllocations_inv:
  assumes "mergeAllocations (a # as) st inc = Some r"
    and "ranges_disjoint st a" and "offsets_present a"
  shows "ranges_disjoint st r"
proof (cases as)
  case Nil
  with assms show ?thesis by (simp add: mergeAllocations_def)
next
  case (Cons b more)
  with assms(1) obtain s where s: "foldM (mergeOne st inc) (a, occupiedOf st a) as = Some s" "r = fst s"
    by (auto simp: mergeAllocations_def)
  have "merge_inv st a s"
  proof (rule foldM_invariant [OF s(1), where P = "merge_inv st a"])
    show "merge_inv st a (a, occupiedOf st a)"
      using assms occupiedOf_range by (auto simp: merge_inv_def)
    fix s1 x s2
    assume s1: "merge_inv st a s1" and "mergeOne st inc s1 x = Some s2"
    then have s2: "foldM (mergeVar st inc x) s1 (vars x) = Some s2" by (simp add: mergeOne_def)
    show "merge_inv st a s2"
    proof (rule foldM_invariant [where P = "merge_inv st a", OF s2 s1])
      fix u p u'
      assume "merge_inv st a u" "mergeVar st inc x u p = Some u'"
      then show "merge_inv st a u'"
        by (cases u; cases p; cases u') (auto dest: mergeVar_inv)
    qed
  qed
  with s show ?thesis by (simp add: merge_inv_def)
qed

section \<open>Extending an allocation\<close>

lemma extendVar_vars:
  "map_of (vars (extendVar source target (v, va))) =
     (if map_of (vars target) v = None then (map_of (vars target))(v \<mapsto> va) else map_of (vars target))"
  by (auto simp: extendVar_def Let_def split: option.splits)

lemma foldl_extendVar_vars:
  "map_of (vars (foldl (extendVar source) target vs)) = map_of vs ++ map_of (vars target)"
proof (induction vs arbitrary: target)
  case (Cons p vs)
  obtain v va where "p = (v, va)" by (cases p)
  then show ?case
    using Cons by (auto simp: extendVar_vars map_add_def fun_eq_iff split: option.splits)
qed simp

lemma extendsAllocation_vars:
  "map_of (vars (extendsAllocation target source)) = map_of (vars source) ++ map_of (vars target)"
  by (simp add: extendsAllocation_def foldl_extendVar_vars)

section \<open>Gain\<close>

lemma packCandidate_gain: "pk_gain s \<le> pk_gain (packCandidate params s c)"
  by (auto simp: packCandidate_def split: option.splits)

lemma foldl_pack_gain: "pk_gain s \<le> pk_gain (foldl (packCandidate params) s cs)"
proof (induction cs arbitrary: s)
  case (Cons c cs)
  with packCandidate_gain [of s params c] show ?case by (fastforce intro: order_trans)
qed simp

lemma chooseFromAccesses_gain_ge:
  assumes "constrainedAllocation st sa ea mems = Some c"
    and "chooseFromAccesses accs st params sa ea mems tr = (alloc, gain, tr')"
  shows "constrainedGain st params c \<le> gain"
proof -
  obtain r cs where "foldl (considerCandidate st params sa ea accs) (c, []) (sa_candidates st) = (r, cs)"
    by fastforce
  with assms foldl_pack_gain [of "\<lparr>pk_result = r, pk_gain = constrainedGain st params c,
      pk_addr = (case tr of Some t \<Rightarrow> topAddress t | None \<Rightarrow> 0), pk_tracker = tr\<rparr>" params "sortCandidates cs"]
  show ?thesis by (auto simp: chooseFromAccesses_def Let_def)
qed

section \<open>Properties\<close>

lemmas memalloc_eval =
  computeCost_def intervalExecEnergy_def getLLVMBlock_def blockAt_def omap_get_def getBlockInfo_def
  List.map_filter_def chooseMemoryAllocation_def chooseFromAccesses_def constrainedAllocation_def
  mergeBoundary_def constrainedGain_def emptyAllocation_def intervalAccesses_def getLoadCount_def
  getStoreCount_def computeSaveRestoreFlags_def getFirstOpIsLoad_def considerCandidate_def
  estimateEnergyGain_def getVarSizeBytes_def sortCandidates_def packCandidate_def
  getExistingAddress_def resetTracker_def placeAt_def placeNvm_def recordAllocation_def omap_count_def

definition sample_vm :: VariableAllocation where
  "sample_vm = \<lparr>placement = VM, rawNeedRestore = True, rawNeedSave = True\<rparr>"

definition sample_alloc :: RegionAllocation where
  "sample_alloc = \<lparr>vars = [(7, sample_vm), (8, sample_vm)], vmOffsets = [(7, 0), (8, 4)],
     vmBytesUsed = 6, intervalEnergy = 0\<rparr>"

lemma sample_computeCost:
  "computeCost sample_graph [2] sample_state sample_cfg sample_params (\<lambda>_. None) (Some resetTracker) None None =
     (sample_alloc, 43, Some \<lparr>allocatedVars = [(7, 0), (8, 4)], topAddress = 6\<rparr>)"
  by (simp add: sample_defs sample_alloc_def sample_vm_def memalloc_eval)

text \<open>(C4) No VM overlap: when the allocations an interval starts from use the tracker's
  addresses, any two distinct variables the chosen allocation puts in VM get disjoint address
  ranges below the VM capacity, and the tracker stays well formed.\<close>

theorem computeCost_vm_ranges_disjoint:
  assumes "computeCost g blocks st cfg params blockAlloc (Some t) sa ea = (alloc, e, tr)"
    and "tracker_wf st (vmCapacityBytes params) t" and "sizes_fit st (vmCapacityBytes params)"
    and "\<forall>b a. blockAlloc b = Some a \<longrightarrow> tracked_ok t a"
    and "\<forall>a \<in> set_option sa \<union> set_option ea. tracked_ok t a"
    and "map_of (vars alloc) v = Some va" and "placement va = VM"
    and "map_of (vars alloc) w = Some wa" and "placement wa = VM" and "v \<noteq> w"
  shows "\<exists>t' ov ow. tr = Some t' \<and> tracker_wf st (vmCapacityBytes params) t' \<and>
     map_of (vmOffsets alloc) v = Some ov \<and> map_of (vmOffsets alloc) w = Some ow \<and>
     unat ov + unat (getVarSizeBytes st v) \<le> unat (vmCapacityBytes params) \<and>
     (unat ov + unat (getVarSizeBytes st v) \<le> unat ow \<or> unat ow + unat (getVarSizeBytes st w) \<le> unat ov)"
proof -
  from computeCost_tracked [OF assms(1-5)] obtain t' where
    t': "tr = Some t'" "tracker_wf st (vmCapacityBytes params) t'" "alloc_tracked t' alloc"
    by (auto simp: tracked_ok_def)
  from tracked_disjoint [OF t'(2,3) assms(6-10)] t' show ?thesis by auto
qed

theorem computeCost_vm_ranges_disjoint_witness:
  "\<exists>t' ov ow. Some \<lparr>allocatedVars = [(7, 0), (8, 4)], topAddress = 6\<rparr> = Some t' \<and>
     tracker_wf sample_state (vmCapacityBytes sample_params) t' \<and>
     map_of (vmOffsets sample_alloc) 7 = Some ov \<and> map_of (vmOffsets sample_alloc) 8 = Some ow \<and>
     unat ov + unat (getVarSizeBytes sample_state 7) \<le> unat (vmCapacityBytes sample_params) \<and>
     (unat ov + unat (getVarSizeBytes sample_state 7) \<le> unat ow \<or>
      unat ow + unat (getVarSizeBytes sample_state 8) \<le> unat ov)"
  by (rule computeCost_vm_ranges_disjoint [OF sample_computeCost tracker_wf_reset,
      where va = sample_vm and wa = sample_vm])
    (simp_all add: sizes_fit_def sample_defs sample_alloc_def sample_vm_def)

text \<open>A merge that succeeds keeps every variable of every input at the placement that input
  gave it, keeps the entries of the first input unchanged, and leaves no two VM ranges
  overlapping if the first input had none.\<close>

theorem mergeAllocations_sound:
  assumes "mergeAllocations (a # as) st inc = Some r"
  shows "map_of (vars a) \<subseteq>\<^sub>m map_of (vars r) \<and>
    (\<forall>b \<in> set as. \<forall>v va. map_of (vars b) v = Some va \<longrightarrow>
       (\<exists>va'. map_of (vars r) v = Some va' \<and> placement va' = placement va)) \<and>
    (ranges_disjoint st a \<longrightarrow> offsets_present a \<longrightarrow> ranges_disjoint st r)"
proof -
  have "map_of (vars a) \<subseteq>\<^sub>m map_of (vars r) \<and>
     (\<forall>b \<in> set as. \<forall>(v, va) \<in> set (vars b). \<exists>va'. map_of (vars r) v = Some va' \<and> placement va' = placement va)"
  proof (cases as)
    case Nil
    with assms show ?thesis by (simp add: mergeAllocations_def)
  next
    case (Cons b more)
    with assms obtain s where "foldM (mergeOne st inc) (a, occupiedOf st a) as = Some s" "r = fst s"
      by (auto simp: mergeAllocations_def)
    then show ?thesis using foldM_mergeOne_records [of st inc "(a, occupiedOf st a)" as s] by simp
  qed
  with mergeAllocations_inv [OF assms] show ?thesis by (blast dest: map_of_SomeD)
qed

definition sample_alloc2 :: RegionAllocation where
  "sample_alloc2 = \<lparr>vars = [(9, sample_vm)], vmOffsets = [(9, 6)], vmBytesUsed = 8, intervalEnergy = 0\<rparr>"

theorem mergeAllocations_sound_witness:
  "map_of (vars sample_alloc) \<subseteq>\<^sub>m map_of [(7, sample_vm), (8, sample_vm), (9, sample_vm)] \<and>
   (\<exists>va'. map_of [(7, sample_vm), (8, sample_vm), (9, sample_vm)] 9 = Some va' \<and> placement va' = VM)"
proof -
  let ?r = "sample_alloc\<lparr>vars := [(7, sample_vm), (8, sample_vm), (9, sample_vm)],
    vmOffsets := [(7, 0), (8, 4), (9, 6)]\<rparr>"
  have "mergeAllocations [sample_alloc, sample_alloc2] sample_state True = Some ?r"
    by (simp add: mergeAllocations_def mergeOne_def mergeVar_def sample_alloc_def sample_alloc2_def
        sample_vm_def sample_defs occupiedOf_def getVarSizeBytes_def omap_get_def needRestore_def needSave_def)
  from mergeAllocations_sound [OF this] show ?thesis
    by (simp add: sample_alloc2_def sample_vm_def)
qed

text \<open>Extending an allocation never changes a variable the target already has and adds exactly
  the variables of the source; extending twice is extending once.\<close>

theorem extendsAllocation_conservative:
  "map_of (vars (extendsAllocation target source)) = map_of (vars source) ++ map_of (vars target) \<and>
   map_of (vars (extendsAllocation (extendsAllocation target source) source)) =
     map_of (vars (extendsAllocation target source))"
  by (auto simp: extendsAllocation_vars map_add_def fun_eq_iff split: option.splits)

text \<open>Where nothing constrains the interval, the allocation never costs more than leaving
  everything in NVM: the charged energy is at most the all-NVM execution energy.\<close>

theorem computeCost_le_all_nvm:
  assumes "computeCost g blocks st cfg params (\<lambda>_. None) tracker None None = (alloc, e, tr)"
  shows "e \<le> intervalExecEnergy g cfg blocks"
proof (cases "blocks = []")
  case True
  with assms show ?thesis by (simp add: computeCost_def intervalExecEnergy_def)
next
  case False
  obtain a gn tr' where c: "chooseFromAccesses (intervalAccesses g blocks st) st params None None [] tracker = (a, gn, tr')"
    by (cases "chooseFromAccesses (intervalAccesses g blocks st) st params None None [] tracker")
  have "constrainedAllocation st None None [] = Some emptyAllocation"
    by (simp add: constrainedAllocation_def mergeBoundary_def)
  from chooseFromAccesses_gain_ge [OF this c] have "0 \<le> gn"
    by (simp add: constrainedGain_def emptyAllocation_def)
  moreover have "e = intervalExecEnergy g cfg blocks - gn"
    using False c assms by (simp add: computeCost_def chooseMemoryAllocation_def Let_def List.map_filter_def)
  ultimately show ?thesis by simp
qed

theorem computeCost_le_all_nvm_witness:
  "(43::real) \<le> intervalExecEnergy sample_graph sample_cfg [2]"
  by (rule computeCost_le_all_nvm [OF sample_computeCost])

text \<open>An interval whose allocations conflict gets an empty allocation and a penalty of 99999.\<close>

lemma computeCost_conflict:
  assumes "blocks \<noteq> []"
    and "constrainedAllocation st sa ea (List.map_filter blockAlloc blocks) = None"
  shows "computeCost g blocks st cfg params blockAlloc tracker sa ea =
     (emptyAllocation, intervalExecEnergy g cfg blocks + 99999, tracker)"
  using assms by (simp add: computeCost_def chooseMemoryAllocation_def chooseFromAccesses_def)

end
