(* ===== verification/RCGSolver.thy ===== *)
theory RCGSolver
  imports MemoryAllocator
begin

text \<open>
  The reachable checkpoint graph solver of SCHEMATIC
  (\<open>passes/src/schematic/RCGSolver.cpp\<close>). A trace of blocks is cut into energy-feasible
  intervals: the nodes of the graph are the trace's start, its candidate checkpoint edges and its
  end; an edge is an interval whose cost fits the budget of its kind; the answer is a shortest
  path from start to end.

  The solver's const references are the record \<open>rcg_env\<close>, its mutable members (the adjacency
  lists, the smallest rejected interval and the VM address tracker it drives) the record
  \<open>rcg_state\<close>. An infinite distance or energy is \<open>None\<close>. \<open>report_fatal_error\<close> is the error
  value \<open>MalformedTrace\<close>; the backtracking loop gets one unit of fuel per node and running out
  would be \<open>BacktrackDiverges\<close>, which \<open>solve_terminates\<close> excludes.

  Results: every edge goes forward and fits its budget, the distance computed is the minimum over
  all paths, a solution's intervals tile the trace between its boundary blocks, and infeasibility
  is reported exactly when no path exists.
\<close>

section \<open>Nodes, edges and results\<close>

datatype NodeKind = Start | CandidateEdge | End

record Node =
  kind :: NodeKind
  node_edge :: CFGEdge
  blockIndex :: nat

record RCGEdge =
  e_from :: nat
  e_to :: nat
  weight :: double
  e_allocation :: RegionAllocation
  e_blocks :: "block_ptr list"

datatype rcg_message = NoMessage | NoFeasiblePath "(block_ptr list \<times> double \<times> double) option"

record RCGResult =
  feasible :: bool
  totalCost :: double
  selectedCheckpoints :: "CFGEdge list"
  allocations :: "RegionAllocation list"
  intervalBlocks :: "block_ptr list list"
  errorMessage :: rcg_message

datatype rcg_error = MalformedTrace | BacktrackDiverges

record rcg_env =
  pathBlocks :: "block_ptr list"
  rc_graph :: SchematicGraph
  rc_state :: SchematicStateAnalysis
  rc_cfg :: CFGAnalysis
  rc_params :: SchematicParams
  existingMeta :: "(block_ptr, BlockMetadata) omap"
  rc_blockAllocation :: "block_ptr \<Rightarrow> RegionAllocation option"
  callBlocks :: "block_ptr set"

record rcg_state =
  adj :: "RCGEdge list list"
  minRejected :: "(block_ptr list \<times> double \<times> double) option"
  rc_tracker :: "VMAddressTracker option"

definition isCallBlock :: "rcg_env \<Rightarrow> block_ptr \<Rightarrow> bool" where
  "isCallBlock S b \<longleftrightarrow> b \<in> callBlocks S"

section \<open>Candidate nodes and intervals\<close>

definition getCheckpointsFromTrace :: "rcg_env \<Rightarrow> Node list" where
  "getCheckpointsFromTrace S =
     (let p = pathBlocks S
      in \<lparr>kind = Start, node_edge = CFGEdge nullptr nullptr, blockIndex = 0\<rparr> #
         concat (map (\<lambda>i.
           if isCallBlock S (p ! i) \<and> isCallBlock S (p ! (i + 1)) then []
           else [\<lparr>kind = CandidateEdge, node_edge = CFGEdge (p ! i) (p ! (i + 1)), blockIndex = i + 1\<rparr>])
           [0..<length p - 1]) @
         [\<lparr>kind = End, node_edge = CFGEdge nullptr nullptr, blockIndex = length p\<rparr>])"

definition getIntervalRange :: "rcg_env \<Rightarrow> Node list \<Rightarrow> nat \<Rightarrow> nat \<Rightarrow> nat \<times> nat" where
  "getIntervalRange S nodes nodeFrom nodeTo =
     (let startIdx = (if kind (nodes ! nodeFrom) = Start then 1 else blockIndex (nodes ! nodeFrom));
          endIdx = (if kind (nodes ! nodeTo) = End then length (pathBlocks S) - 2
                    else blockIndex (nodes ! nodeTo) - 1)
      in (startIdx, endIdx))"

definition getIntervalBlocks :: "rcg_env \<Rightarrow> Node list \<Rightarrow> nat \<Rightarrow> nat \<Rightarrow> block_ptr list" where
  "getIntervalBlocks S nodes nodeFrom nodeTo =
     (let (startIdx, endIdx) = getIntervalRange S nodes nodeFrom nodeTo
      in if startIdx > endIdx then []
         else take (endIdx + 1 - startIdx) (drop startIdx (pathBlocks S)))"

section \<open>Building the graph\<close>

definition chkptRestore :: "SchematicParams \<Rightarrow> double" where
  "chkptRestore params = E_pro params + u2r (N_reg params) * regRestoreEnergy params"

definition chkptSave :: "SchematicParams \<Rightarrow> double" where
  "chkptSave params = E_epi params + u2r (N_reg params) * regStoreEnergy params"

definition startAllocation :: "rcg_env \<Rightarrow> RegionAllocation option" where
  "startAllocation S = rc_blockAllocation S (hd (pathBlocks S))"

definition endAllocation :: "rcg_env \<Rightarrow> RegionAllocation option" where
  "endAllocation S = rc_blockAllocation S (last (pathBlocks S))"

definition energyLeftSeed :: "rcg_env \<Rightarrow> double" where
  "energyLeftSeed S =
     (let params = rc_params S;
          front = hd (pathBlocks S);
          e0 = capacity params - E_pro params - u2r (N_reg params) * regRestoreEnergy params;
          e1 = (case map_of (existingMeta S) front of
                  Some m \<Rightarrow> if E_left m \<noteq> DBL_MAX then E_left m else e0
                | None \<Rightarrow> e0);
          frontName = getName (rc_graph S) front
      in if frontName = kStartFuncName \<or> frontName = kStartLoopName then e1 - callCost params else e1)"

definition energyToLeaveSeed :: "rcg_env \<Rightarrow> double" where
  "energyToLeaveSeed S =
     (let e0 = chkptSave (rc_params S)
      in case map_of (existingMeta S) (last (pathBlocks S)) of
           Some m \<Rightarrow> if E_to_leave m \<noteq> 0 then E_to_leave m else e0
         | None \<Rightarrow> e0)"

definition computeIntervalCost ::
  "rcg_env \<Rightarrow> block_ptr list \<Rightarrow> RegionAllocation option \<Rightarrow> RegionAllocation option
     \<Rightarrow> VMAddressTracker option \<Rightarrow> RegionAllocation \<times> double \<times> VMAddressTracker option" where
  "computeIntervalCost S blocks sa ea tracker =
     (if blocks = [] then (emptyAllocation, 0, tracker)
      else computeCost (rc_graph S) blocks (rc_state S) (rc_cfg S) (rc_params S)
             (rc_blockAllocation S) tracker sa ea)"

definition trackDiagnostics :: "block_ptr list \<Rightarrow> double \<Rightarrow> double \<Rightarrow> rcg_state \<Rightarrow> rcg_state" where
  "trackDiagnostics blocks energy budget s =
     (if energy \<ge> budget \<and> (case minRejected s of None \<Rightarrow> True | Some (_, e, _) \<Rightarrow> energy < e)
      then s\<lparr>minRejected := Some (blocks, energy, budget)\<rparr> else s)"

text \<open>One attempt to add the edge \<open>i \<rightarrow> j\<close>: the interval is costed (driving the tracker), the
  overhead of the edge's kind is added, the rejection is recorded, and the edge is kept when
  \<open>cost + reserve < budget\<close>. Returns the cost, which the early-termination tests look at.\<close>

definition tryEdge ::
  "rcg_env \<Rightarrow> Node list \<Rightarrow> nat \<Rightarrow> nat \<Rightarrow> RegionAllocation option \<Rightarrow> RegionAllocation option
     \<Rightarrow> double \<Rightarrow> double \<Rightarrow> double \<Rightarrow> double \<Rightarrow> rcg_state \<Rightarrow> double \<times> rcg_state" where
  "tryEdge S nodes i j sa ea overhead diagBudget reserve budget s =
     (let blocks = getIntervalBlocks S nodes i j;
          (alloc, cost0, tracker') = computeIntervalCost S blocks sa ea (rc_tracker s);
          cost = cost0 + overhead;
          alloc' = alloc\<lparr>intervalEnergy := cost\<rparr>;
          s1 = trackDiagnostics blocks cost diagBudget (s\<lparr>rc_tracker := tracker'\<rparr>);
          edge = \<lparr>e_from = i, e_to = j, weight = cost, e_allocation = alloc', e_blocks = blocks\<rparr>
      in (cost, if cost + reserve < budget
                then s1\<lparr>adj := (adj s1)[i := adj s1 ! i @ [edge]]\<rparr> else s1))"

text \<open>Loop 1 (checkpoint to checkpoint) from one node \<open>i\<close>, over the later nodes.\<close>

fun ckptLoop :: "rcg_env \<Rightarrow> Node list \<Rightarrow> nat \<Rightarrow> double \<Rightarrow> nat list \<Rightarrow> rcg_state \<Rightarrow> rcg_state" where
  "ckptLoop S nodes i prevCost [] s = s"
| "ckptLoop S nodes i prevCost (j # js) s =
     (if prevCost \<ge> capacity (rc_params S) then s
      else let (cost, s') = tryEdge S nodes i j None None
                  (chkptRestore (rc_params S) + chkptSave (rc_params S))
                  (capacity (rc_params S)) 0 (capacity (rc_params S)) s
           in ckptLoop S nodes i cost js s')"

fun ckptLoops :: "rcg_env \<Rightarrow> Node list \<Rightarrow> nat list \<Rightarrow> rcg_state \<Rightarrow> rcg_state" where
  "ckptLoops S nodes [] s = s"
| "ckptLoops S nodes (i # is) s = ckptLoops S nodes is (ckptLoop S nodes i 0 is s)"

text \<open>Loop 2 (start to checkpoint).\<close>

fun startLoop :: "rcg_env \<Rightarrow> Node list \<Rightarrow> double \<Rightarrow> nat list \<Rightarrow> rcg_state \<Rightarrow> rcg_state" where
  "startLoop S nodes prevCost [] s = s"
| "startLoop S nodes prevCost (j # js) s =
     (if prevCost \<ge> energyLeftSeed S then s
      else let (cost, s') = tryEdge S nodes 0 j (startAllocation S) None (chkptSave (rc_params S))
                  (energyLeftSeed S) 0 (energyLeftSeed S) s
           in startLoop S nodes cost js s')"

text \<open>Loop 3 (checkpoint to end), over the nodes from the last to the first.\<close>

fun endLoop :: "rcg_env \<Rightarrow> Node list \<Rightarrow> nat \<Rightarrow> double \<Rightarrow> nat list \<Rightarrow> rcg_state \<Rightarrow> rcg_state" where
  "endLoop S nodes endNode prevCost [] s = s"
| "endLoop S nodes endNode prevCost (i # is) s =
     (if prevCost + energyToLeaveSeed S \<ge> capacity (rc_params S) then s
      else let (cost, s') = tryEdge S nodes i endNode None (endAllocation S) (chkptRestore (rc_params S))
                  (capacity (rc_params S) - energyToLeaveSeed S) (energyToLeaveSeed S)
                  (capacity (rc_params S)) s
           in endLoop S nodes endNode cost is s')"

definition createReachableCheckpointGraph ::
  "rcg_env \<Rightarrow> Node list \<Rightarrow> VMAddressTracker option \<Rightarrow> rcg_error + rcg_state" where
  "createReachableCheckpointGraph S nodes tracker =
     (if length (pathBlocks S) < 3 then Inl MalformedTrace
      else
        let numNodes = length nodes;
            internalCkpts = [1..<numNodes - 1];
            endNode = numNodes - 1;
            s0 = \<lparr>adj = replicate numNodes [], minRejected = None, rc_tracker = tracker\<rparr>;
            s1 = ckptLoops S nodes internalCkpts s0;
            s2 = startLoop S nodes 0 internalCkpts s1;
            s3 = endLoop S nodes endNode 0 (rev internalCkpts) s2;
            s4 = snd (tryEdge S nodes 0 endNode (startAllocation S) (endAllocation S) 0
                   (energyLeftSeed S) (energyToLeaveSeed S) (energyLeftSeed S) s3)
        in Inr s4)"

section \<open>Shortest path\<close>

record dp_state =
  dp_dist :: "double option list"
  dp_pred :: "nat option list"
  dp_predEdgeIdx :: "nat option list"

definition relaxEdge :: "nat \<Rightarrow> dp_state \<Rightarrow> nat \<times> RCGEdge \<Rightarrow> dp_state" where
  "relaxEdge i d p =
     (let (e, edge) = p; t = e_to edge
      in case dp_dist d ! i of
           None \<Rightarrow> d
         | Some di \<Rightarrow>
             let newDist = di + weight edge
             in if (case dp_dist d ! t of None \<Rightarrow> True | Some dt \<Rightarrow> newDist < dt)
                then \<lparr>dp_dist = (dp_dist d)[t := Some newDist], dp_pred = (dp_pred d)[t := Some i],
                      dp_predEdgeIdx = (dp_predEdgeIdx d)[t := Some e]\<rparr>
                else d)"

definition relaxNode :: "RCGEdge list list \<Rightarrow> dp_state \<Rightarrow> nat \<Rightarrow> dp_state" where
  "relaxNode A d i =
     (if dp_dist d ! i = None then d else foldl (relaxEdge i) d (List.enumerate 0 (A ! i)))"

definition shortestPaths :: "RCGEdge list list \<Rightarrow> nat \<Rightarrow> dp_state" where
  "shortestPaths A numNodes =
     foldl (relaxNode A)
       \<lparr>dp_dist = (replicate numNodes None)[0 := Some 0], dp_pred = replicate numNodes None,
        dp_predEdgeIdx = replicate numNodes None\<rparr> [0..<numNodes]"

fun backtrack :: "nat \<Rightarrow> nat option list \<Rightarrow> nat \<Rightarrow> nat list option" where
  "backtrack 0 P n = None"
| "backtrack (Suc fuel) P n =
     (case P ! n of
        None \<Rightarrow> Some [n]
      | Some p \<Rightarrow> map_option (\<lambda>ns. n # ns) (backtrack fuel P p))"

definition edgeOnPath :: "RCGEdge list list \<Rightarrow> dp_state \<Rightarrow> nat \<Rightarrow> nat \<Rightarrow> RCGEdge" where
  "edgeOnPath A d from to = A ! from ! (case dp_predEdgeIdx d ! to of Some e \<Rightarrow> e | None \<Rightarrow> 0)"

definition collectResult :: "Node list \<Rightarrow> RCGEdge list list \<Rightarrow> dp_state \<Rightarrow> nat list \<Rightarrow> RCGResult" where
  "collectResult nodes A d pathNodes =
     (let hops = zip pathNodes (tl pathNodes);
          edges = map (\<lambda>(from, to). edgeOnPath A d from to) hops
      in \<lparr>feasible = True,
          totalCost = (case dp_dist d ! (length nodes - 1) of Some x \<Rightarrow> x | None \<Rightarrow> 0),
          selectedCheckpoints =
            map (\<lambda>(from, to). node_edge (nodes ! to))
              (filter (\<lambda>(from, to). kind (nodes ! to) = CandidateEdge) hops),
          allocations = map e_allocation edges,
          intervalBlocks = map e_blocks edges,
          errorMessage = NoMessage\<rparr>)"

definition getShortestPathInRCG :: "Node list \<Rightarrow> rcg_state \<Rightarrow> rcg_error + RCGResult" where
  "getShortestPathInRCG nodes s =
     (let numNodes = length nodes;
          endNode = numNodes - 1;
          d = shortestPaths (adj s) numNodes
      in if dp_dist d ! endNode = None then
           Inr \<lparr>feasible = False, totalCost = 0, selectedCheckpoints = [], allocations = [],
                intervalBlocks = [], errorMessage = NoFeasiblePath (Option.bind (minRejected s)
                  (\<lambda>(blocks, energy, budget). if blocks = [] then None else Some (blocks, energy, budget)))\<rparr>
         else case backtrack numNodes (dp_pred d) endNode of
           None \<Rightarrow> Inl BacktrackDiverges
         | Some revPath \<Rightarrow> Inr (collectResult nodes (adj s) d (rev revPath)))"

definition solve :: "rcg_env \<Rightarrow> VMAddressTracker option \<Rightarrow> rcg_error + RCGResult \<times> VMAddressTracker option" where
  "solve S tracker =
     (if pathBlocks S = [] then
        Inr (\<lparr>feasible = True, totalCost = 0, selectedCheckpoints = [], allocations = [],
              intervalBlocks = [], errorMessage = NoMessage\<rparr>, tracker)
      else
        let nodes = getCheckpointsFromTrace S
        in case createReachableCheckpointGraph S nodes tracker of
             Inl e \<Rightarrow> Inl e
           | Inr s \<Rightarrow> (case getShortestPathInRCG nodes s of
                         Inl e \<Rightarrow> Inl e
                       | Inr r \<Rightarrow> Inr (r, rc_tracker s)))"

section \<open>Every edge goes forward and fits its budget\<close>

definition fits_budget :: "rcg_env \<Rightarrow> nat \<Rightarrow> RCGEdge \<Rightarrow> bool" where
  "fits_budget S endNode e \<longleftrightarrow>
     weight e + (if e_to e = endNode then energyToLeaveSeed S else 0)
       < (if e_from e = 0 then energyLeftSeed S else capacity (rc_params S))"

definition edge_ok :: "rcg_env \<Rightarrow> Node list \<Rightarrow> RCGEdge \<Rightarrow> bool" where
  "edge_ok S nodes e \<longleftrightarrow>
     e_from e < e_to e \<and> e_to e < length nodes \<and>
     e_blocks e = getIntervalBlocks S nodes (e_from e) (e_to e) \<and>
     intervalEnergy (e_allocation e) = weight e \<and>
     fits_budget S (length nodes - 1) e"

definition adj_ok :: "rcg_env \<Rightarrow> Node list \<Rightarrow> rcg_state \<Rightarrow> bool" where
  "adj_ok S nodes s \<longleftrightarrow> length (adj s) = length nodes \<and>
     (\<forall>i < length nodes. \<forall>e \<in> set (adj s ! i). e_from e = i \<and> edge_ok S nodes e)"

lemma trackDiagnostics_adj [simp]: "adj (trackDiagnostics b e w s) = adj s"
  by (simp add: trackDiagnostics_def)

lemma adj_ok_add:
  assumes "adj_ok S nodes s" and "e_from e < length nodes" and "edge_ok S nodes e"
  shows "adj_ok S nodes (s\<lparr>adj := (adj s)[e_from e := adj s ! e_from e @ [e]]\<rparr>)"
  unfolding adj_ok_def
proof (intro conjI allI impI ballI)
  fix k e'
  assume "k < length nodes" "e' \<in> set (adj (s\<lparr>adj := (adj s)[e_from e := adj s ! e_from e @ [e]]\<rparr>) ! k)"
  with assms have "k = e_from e \<and> e' = e \<or> e' \<in> set (adj s ! k)"
    by (cases "k = e_from e") (auto simp: adj_ok_def)
  with assms \<open>k < length nodes\<close> show "e_from e' = k" "edge_ok S nodes e'"
    by (auto simp: adj_ok_def)
qed (use assms in \<open>simp add: adj_ok_def\<close>)

lemma tryEdge_ok:
  assumes "adj_ok S nodes s" and "i < j" and "j < length nodes"
    and "reserve = (if j = length nodes - 1 then energyToLeaveSeed S else 0)"
    and "budget = (if i = 0 then energyLeftSeed S else capacity (rc_params S))"
  shows "adj_ok S nodes (snd (tryEdge S nodes i j sa ea overhead diag reserve budget s))"
proof -
  let ?b = "getIntervalBlocks S nodes i j"
  obtain alloc c tr where c: "computeIntervalCost S ?b sa ea (rc_tracker s) = (alloc, c, tr)"
    by (cases "computeIntervalCost S ?b sa ea (rc_tracker s)")
  define s1 where "s1 = trackDiagnostics ?b (c + overhead) diag (s\<lparr>rc_tracker := tr\<rparr>)"
  define e where "e = \<lparr>e_from = i, e_to = j, weight = c + overhead,
    e_allocation = alloc\<lparr>intervalEnergy := c + overhead\<rparr>, e_blocks = ?b\<rparr>"
  have s1: "adj_ok S nodes s1"
    using assms(1) by (simp add: s1_def adj_ok_def)
  have eq: "snd (tryEdge S nodes i j sa ea overhead diag reserve budget s) =
     (if c + overhead + reserve < budget
      then s1\<lparr>adj := (adj s1)[e_from e := adj s1 ! e_from e @ [e]]\<rparr> else s1)"
    by (simp add: tryEdge_def c s1_def e_def Let_def)
  show ?thesis
  proof (cases "c + overhead + reserve < budget")
    case True
    with assms have "edge_ok S nodes e"
      by (simp add: edge_ok_def e_def fits_budget_def)
    then have "adj_ok S nodes (s1\<lparr>adj := (adj s1)[e_from e := adj s1 ! e_from e @ [e]]\<rparr>)"
      using s1 assms(2,3) by (intro adj_ok_add) (auto simp: e_def)
    with True eq show ?thesis by simp
  qed (use s1 eq in simp)
qed

lemma ckptLoop_ok:
  assumes "adj_ok S nodes s" and "0 < i" and "\<forall>j \<in> set js. i < j \<and> j < length nodes - 1"
  shows "adj_ok S nodes (ckptLoop S nodes i prev js s)"
  using assms
proof (induction js arbitrary: prev s)
  case (Cons j js)
  then have "adj_ok S nodes (snd (tryEdge S nodes i j None None (chkptRestore (rc_params S) + chkptSave (rc_params S))
      (capacity (rc_params S)) 0 (capacity (rc_params S)) s))"
    by (intro tryEdge_ok) auto
  with Cons show ?case by (auto simp: Let_def split: prod.splits)
qed simp

lemma ckptLoops_ok:
  assumes "adj_ok S nodes s" and "sorted_wrt (<) is" and "\<forall>j \<in> set is. 0 < j \<and> j < length nodes - 1"
  shows "adj_ok S nodes (ckptLoops S nodes is s)"
  using assms
proof (induction "is" arbitrary: s)
  case (Cons i "is")
  have "adj_ok S nodes (ckptLoop S nodes i 0 is s)"
    using Cons.prems by (intro ckptLoop_ok) auto
  with Cons show ?case by simp
qed simp

lemma startLoop_ok:
  assumes "adj_ok S nodes s" and "\<forall>j \<in> set js. 0 < j \<and> j < length nodes - 1"
  shows "adj_ok S nodes (startLoop S nodes prev js s)"
  using assms
proof (induction js arbitrary: prev s)
  case (Cons j js)
  then have "adj_ok S nodes (snd (tryEdge S nodes 0 j (startAllocation S) None (chkptSave (rc_params S))
      (energyLeftSeed S) 0 (energyLeftSeed S) s))"
    by (intro tryEdge_ok) auto
  with Cons show ?case by (auto simp: Let_def split: prod.splits)
qed simp

lemma endLoop_ok:
  assumes "adj_ok S nodes s" and "\<forall>i \<in> set is. 0 < i \<and> i < length nodes - 1"
  shows "adj_ok S nodes (endLoop S nodes (length nodes - 1) prev is s)"
  using assms
proof (induction "is" arbitrary: prev s)
  case (Cons i "is")
  then have "adj_ok S nodes (snd (tryEdge S nodes i (length nodes - 1) None (endAllocation S) (chkptRestore (rc_params S))
      (capacity (rc_params S) - energyToLeaveSeed S) (energyToLeaveSeed S) (capacity (rc_params S)) s))"
    by (intro tryEdge_ok) auto
  with Cons show ?case by (auto simp: Let_def split: prod.splits)
qed simp

lemma createRCG_ok:
  assumes "createReachableCheckpointGraph S nodes tracker = Inr s" and "2 \<le> length nodes"
  shows "adj_ok S nodes s"
proof -
  have init: "adj_ok S nodes \<lparr>adj = replicate (length nodes) [], minRejected = None, rc_tracker = tracker\<rparr>"
    by (simp add: adj_ok_def)
  have rng: "\<forall>j \<in> set [1..<length nodes - 1]. 0 < j \<and> j < length nodes - 1"
    by auto
  have "adj_ok S nodes (endLoop S nodes (length nodes - 1) 0 (rev [1..<length nodes - 1])
     (startLoop S nodes 0 [1..<length nodes - 1] (ckptLoops S nodes [1..<length nodes - 1]
        \<lparr>adj = replicate (length nodes) [], minRejected = None, rc_tracker = tracker\<rparr>)))"
    by (intro endLoop_ok startLoop_ok ckptLoops_ok init) (use rng in auto)
  with assms show ?thesis
    by (auto simp: createReachableCheckpointGraph_def Let_def split: if_splits intro!: tryEdge_ok)
qed

section \<open>Shortest paths in a forward graph\<close>

fun edge_path :: "RCGEdge list list \<Rightarrow> nat \<Rightarrow> RCGEdge list \<Rightarrow> nat \<Rightarrow> bool" where
  "edge_path A i [] j \<longleftrightarrow> i = j"
| "edge_path A i (e # es) j \<longleftrightarrow> i < length A \<and> e \<in> set (A ! i) \<and> edge_path A (e_to e) es j"

lemma edge_path_snoc:
  "edge_path A i (es @ [e]) j \<longleftrightarrow>
     (\<exists>k. edge_path A i es k \<and> k < length A \<and> e \<in> set (A ! k) \<and> e_to e = j)"
  by (induction es arbitrary: i) auto

definition path_weight :: "RCGEdge list \<Rightarrow> double" where
  "path_weight es = sum_list (map weight es)"

text \<open>The contract of the graph builder, and what the shortest-path code promises on top of it.\<close>

locale forward_graph =
  fixes graph :: "'env \<Rightarrow> RCGEdge list list"
  assumes forward: "i < length (graph x) \<Longrightarrow> e \<in> set (graph x ! i) \<Longrightarrow> i < e_to e \<and> e_to e < length (graph x)"
begin

text \<open>Invariant of the relaxation: the edges in \<open>R\<close> satisfy the triangle inequality, and every
  finite distance is zero at the source or is justified by the recorded predecessor edge, whose
  source is at most \<open>b\<close>.\<close>

definition justified :: "'env \<Rightarrow> nat \<Rightarrow> dp_state \<Rightarrow> nat \<Rightarrow> bool" where
  "justified x b d j \<longleftrightarrow>
     (\<forall>dj. dp_dist d ! j = Some dj \<longrightarrow>
        (\<exists>p k dp. dp_pred d ! j = Some p \<and> dp_predEdgeIdx d ! j = Some k \<and> p < j \<and> p \<le> b \<and>
           k < length (graph x ! p) \<and> e_to (graph x ! p ! k) = j \<and>
           dp_dist d ! p = Some dp \<and> dj = dp + weight (graph x ! p ! k)))"

definition dp_inv :: "'env \<Rightarrow> (nat \<times> RCGEdge) set \<Rightarrow> nat \<Rightarrow> dp_state \<Rightarrow> bool" where
  "dp_inv x R b d \<longleftrightarrow>
     length (dp_dist d) = length (graph x) \<and> length (dp_pred d) = length (graph x) \<and>
     length (dp_predEdgeIdx d) = length (graph x) \<and>
     dp_dist d ! 0 = Some 0 \<and> dp_pred d ! 0 = None \<and>
     (\<forall>(p, e) \<in> R. \<forall>dp. dp_dist d ! p = Some dp \<longrightarrow>
        (\<exists>dt. dp_dist d ! e_to e = Some dt \<and> dt \<le> dp + weight e)) \<and>
     (\<forall>j < length (graph x). 0 < j \<longrightarrow> justified x b d j)"

text \<open>An update at \<open>t > b\<close> that lowers the distance there leaves every justification and every
  triangle inequality from below intact.\<close>

lemma dp_inv_update:
  assumes inv: "dp_inv x R b d" and R: "\<forall>(p, e) \<in> R. p \<le> b \<and> e_to e < length (graph x)"
    and t: "b < t" "t < length (graph x)" and k: "k < length (graph x ! b)" "e_to (graph x ! b ! k) = t"
    and db: "dp_dist d ! b = Some db" and new: "new = db + weight (graph x ! b ! k)"
    and lower: "\<forall>dt. dp_dist d ! t = Some dt \<longrightarrow> new \<le> dt"
  shows "dp_inv x R b \<lparr>dp_dist = (dp_dist d)[t := Some new], dp_pred = (dp_pred d)[t := Some b],
           dp_predEdgeIdx = (dp_predEdgeIdx d)[t := Some k]\<rparr>" (is "dp_inv x R b ?d")
proof -
  have len: "length (dp_dist d) = length (graph x)" "length (dp_pred d) = length (graph x)"
      "length (dp_predEdgeIdx d) = length (graph x)"
    using inv by (auto simp: dp_inv_def)
  have below: "dp_dist ?d ! p = dp_dist d ! p" if "p \<le> b" for p
    using that t by simp
  have "justified x b ?d j" if j: "j < length (graph x)" "0 < j" for j
  proof (cases "j = t")
    case True
    then show ?thesis
      using t k db new len unfolding justified_def by auto
  next
    case False
    with inv j have "justified x b d j" by (auto simp: dp_inv_def)
    then show ?thesis
      unfolding justified_def using False below by (auto; metis)
  qed
  moreover have "\<exists>dt. dp_dist ?d ! e_to e = Some dt \<and> dt \<le> dp + weight e"
    if pe: "(p, e) \<in> R" and pd: "dp_dist ?d ! p = Some dp" for p e dp
  proof -
    have "p \<le> b" "e_to e < length (graph x)" using R pe by auto
    then have dp: "dp_dist d ! p = Some dp" using pd below by simp
    have tri: "\<forall>(p, e) \<in> R. \<forall>dp. dp_dist d ! p = Some dp \<longrightarrow>
        (\<exists>dt. dp_dist d ! e_to e = Some dt \<and> dt \<le> dp + weight e)"
      using inv by (simp add: dp_inv_def)
    obtain dt where dt: "dp_dist d ! e_to e = Some dt" "dt \<le> dp + weight e"
      using bspec [OF tri pe] dp by auto
    show ?thesis
    proof (cases "e_to e = t")
      case True
      with dt lower have "new \<le> dp + weight e" by auto
      with True t len show ?thesis by simp
    qed (use dt in simp)
  qed
  ultimately show ?thesis
    using inv t by (auto simp: dp_inv_def)
qed

lemma relaxEdge_inv:
  assumes inv: "dp_inv x R b d" and R: "\<forall>(p, e) \<in> R. p \<le> b \<and> e_to e < length (graph x)"
    and b: "b < length (graph x)" and k: "k < length (graph x ! b)"
  shows "dp_inv x (insert (b, graph x ! b ! k) R) b (relaxEdge b d (k, graph x ! b ! k))"
proof (cases "dp_dist d ! b")
  case None
  with inv show ?thesis by (auto simp: relaxEdge_def dp_inv_def)
next
  case (Some db)
  let ?e = "graph x ! b ! k" and ?d = "relaxEdge b d (k, graph x ! b ! k)"
  have t: "b < e_to ?e" "e_to ?e < length (graph x)"
    using forward [OF b nth_mem [OF k]] by auto
  have len: "length (dp_dist d) = length (graph x)" using inv by (simp add: dp_inv_def)
  show ?thesis
  proof (cases "\<exists>dt. dp_dist d ! e_to ?e = Some dt \<and> dt \<le> db + weight ?e")
    case True
    with Some inv show ?thesis by (auto simp: relaxEdge_def dp_inv_def)
  next
    case False
    then have upd: "?d = \<lparr>dp_dist = (dp_dist d)[e_to ?e := Some (db + weight ?e)],
        dp_pred = (dp_pred d)[e_to ?e := Some b], dp_predEdgeIdx = (dp_predEdgeIdx d)[e_to ?e := Some k]\<rparr>"
      using Some by (auto simp: relaxEdge_def Let_def not_le split: option.splits)
    have "dp_inv x R b ?d"
      unfolding upd using False by (intro dp_inv_update [OF inv R t k refl Some refl]) auto
    moreover have "dp_dist ?d ! b = Some db" "dp_dist ?d ! e_to ?e = Some (db + weight ?e)"
      using t len Some by (auto simp: upd)
    ultimately show ?thesis by (auto simp: dp_inv_def)
  qed
qed

definition relaxed_below :: "'env \<Rightarrow> nat \<Rightarrow> (nat \<times> RCGEdge) set" where
  "relaxed_below x i = {(p, e). p < i \<and> p < length (graph x) \<and> e \<in> set (graph x ! p)}"

lemma justified_mono: "justified x b d j \<Longrightarrow> b \<le> b' \<Longrightarrow> justified x b' d j"
  unfolding justified_def by (meson le_trans)

lemma dp_inv_mono: "dp_inv x R b d \<Longrightarrow> R' \<subseteq> R \<Longrightarrow> b \<le> b' \<Longrightarrow> dp_inv x R' b' d"
  unfolding dp_inv_def by (blast intro: justified_mono)

lemma foldl_relaxEdge_inv:
  assumes inv: "dp_inv x R b d" and R: "\<forall>(p, e) \<in> R. p \<le> b \<and> e_to e < length (graph x)"
    and b: "b < length (graph x)" and m: "m \<le> length (graph x ! b)"
  shows "dp_inv x (R \<union> {b} \<times> set (take m (graph x ! b))) b
           (foldl (relaxEdge b) d (take m (List.enumerate 0 (graph x ! b))))"
  using m
proof (induction m)
  case 0
  with inv show ?case by simp
next
  case (Suc m)
  let ?A = "graph x ! b"
  have m: "m < length ?A" using Suc.prems by simp
  have fold: "foldl (relaxEdge b) d (take (Suc m) (List.enumerate 0 ?A)) =
      relaxEdge b (foldl (relaxEdge b) d (take m (List.enumerate 0 ?A))) (m, ?A ! m)"
    using m by (simp add: take_Suc_conv_app_nth nth_enumerate_eq)
  have sets: "R \<union> {b} \<times> set (take (Suc m) ?A) = insert (b, ?A ! m) (R \<union> {b} \<times> set (take m ?A))"
    using m by (auto simp: take_Suc_conv_app_nth)
  have "e_to e < length (graph x)" if "e \<in> set (take m ?A)" for e
    using forward [OF b, of e] that by (auto dest: in_set_takeD)
  with R have "\<forall>(p, e) \<in> R \<union> {b} \<times> set (take m ?A). p \<le> b \<and> e_to e < length (graph x)"
    by auto
  from relaxEdge_inv [OF Suc.IH this b m] m show ?case by (simp add: fold sets)
qed

lemma relaxNode_inv:
  assumes inv: "dp_inv x (relaxed_below x i) i d" and i: "i < length (graph x)"
  shows "dp_inv x (relaxed_below x (Suc i)) (Suc i) (relaxNode (graph x) d i)"
proof (cases "dp_dist d ! i = None")
  case True
  then have "dp_inv x (relaxed_below x (Suc i)) i d"
    using inv by (auto simp: dp_inv_def relaxed_below_def less_Suc_eq)
  with True show ?thesis by (auto simp: relaxNode_def intro: dp_inv_mono)
next
  case False
  have R: "\<forall>(p, e) \<in> relaxed_below x i. p \<le> i \<and> e_to e < length (graph x)"
    using forward by (auto simp: relaxed_below_def)
  have sub: "relaxed_below x (Suc i) \<subseteq> relaxed_below x i \<union> {i} \<times> set (take (length (graph x ! i)) (graph x ! i))"
    by (auto simp: relaxed_below_def less_Suc_eq)
  from foldl_relaxEdge_inv [OF inv R i order_refl]
  have "dp_inv x (relaxed_below x (Suc i)) (Suc i)
     (foldl (relaxEdge i) d (take (length (graph x ! i)) (List.enumerate 0 (graph x ! i))))"
    by (rule dp_inv_mono [OF _ sub]) simp
  with False show ?thesis by (auto simp: relaxNode_def)
qed

lemma shortestPaths_inv:
  assumes "0 < length (graph x)"
  shows "dp_inv x (relaxed_below x (length (graph x))) (length (graph x)) (shortestPaths (graph x) (length (graph x)))"
proof -
  let ?n = "length (graph x)"
  let ?d0 = "\<lparr>dp_dist = (replicate ?n None)[0 := Some 0], dp_pred = replicate ?n None,
    dp_predEdgeIdx = replicate ?n None\<rparr>"
  have "dp_inv x (relaxed_below x m) m (foldl (relaxNode (graph x)) ?d0 [0..<m])" if "m \<le> ?n" for m
    using that
  proof (induction m)
    case 0
    show ?case using assms by (auto simp: dp_inv_def relaxed_below_def justified_def)
  next
    case (Suc m)
    then show ?case using relaxNode_inv by simp
  qed
  then show ?thesis by (simp add: shortestPaths_def)
qed

text \<open>The distance is a lower bound for every path from the source, and is attained.\<close>

lemma dist_le_path:
  assumes "0 < length (graph x)" and "edge_path (graph x) 0 es j"
  shows "\<exists>d. dp_dist (shortestPaths (graph x) (length (graph x))) ! j = Some d \<and> d \<le> path_weight es"
  using assms(2)
proof (induction es arbitrary: j rule: rev_induct)
  case Nil
  then show ?case
    using shortestPaths_inv [OF assms(1)] by (simp add: dp_inv_def path_weight_def)
next
  case (snoc e es)
  then obtain k where k: "edge_path (graph x) 0 es k" "k < length (graph x)" "e \<in> set (graph x ! k)" "e_to e = j"
    by (auto simp: edge_path_snoc)
  let ?d = "shortestPaths (graph x) (length (graph x))"
  from snoc.IH [OF k(1)] obtain d where d: "dp_dist ?d ! k = Some d" "d \<le> path_weight es" by auto
  have tri: "\<forall>(p, e) \<in> relaxed_below x (length (graph x)). \<forall>dp. dp_dist ?d ! p = Some dp \<longrightarrow>
      (\<exists>dt. dp_dist ?d ! e_to e = Some dt \<and> dt \<le> dp + weight e)"
    using shortestPaths_inv [OF assms(1)] by (simp add: dp_inv_def)
  have "(k, e) \<in> relaxed_below x (length (graph x))" using k by (simp add: relaxed_below_def)
  from bspec [OF tri this] d k(4) show ?case by (force simp: path_weight_def)
qed

lemma zip_tl_snoc: "ns \<noteq> [] \<Longrightarrow> zip (ns @ [m]) (tl (ns @ [m])) = zip ns (tl ns) @ [(last ns, m)]"
  by (induction ns rule: induct_list012) auto

text \<open>Backtracking from a node at finite distance ends within as many steps as the node's number
  plus one, at the source, along edges whose weights sum to the distance.\<close>

lemma backtrack_correct:
  assumes "0 < length (graph x)" and "j < fuel" and "j < length (graph x)"
    and "d = shortestPaths (graph x) (length (graph x))" and "dp_dist d ! j = Some dj"
  shows "\<exists>ns. backtrack fuel (dp_pred d) j = Some ns \<and> ns \<noteq> [] \<and> hd ns = j \<and> last ns = 0 \<and>
     (let es = map (\<lambda>(from, to). edgeOnPath (graph x) d from to) (zip (rev ns) (tl (rev ns)))
      in edge_path (graph x) 0 es j \<and> path_weight es = dj \<and> map e_to es = tl (rev ns))"
  using assms(2,3,5)
proof (induction fuel arbitrary: j dj)
  case (Suc fuel)
  have inv: "dp_inv x (relaxed_below x (length (graph x))) (length (graph x)) d"
    using shortestPaths_inv [OF assms(1)] assms(4) by simp
  show ?case
  proof (cases "j = 0")
    case True
    with inv Suc.prems show ?thesis
      by (simp add: dp_inv_def path_weight_def)
  next
    case False
    with inv Suc.prems have "justified x (length (graph x)) d j" by (simp add: dp_inv_def)
    with Suc.prems obtain p k dp where p: "dp_pred d ! j = Some p" "dp_predEdgeIdx d ! j = Some k" "p < j"
        "k < length (graph x ! p)" "e_to (graph x ! p ! k) = j" "dp_dist d ! p = Some dp"
        "dj = dp + weight (graph x ! p ! k)"
      unfolding justified_def by auto
    obtain ns where ns: "backtrack fuel (dp_pred d) p = Some ns" "ns \<noteq> []" "hd ns = p" "last ns = 0"
        and es: "let es = map (\<lambda>(from, to). edgeOnPath (graph x) d from to) (zip (rev ns) (tl (rev ns)))
            in edge_path (graph x) 0 es p \<and> path_weight es = dp \<and> map e_to es = tl (rev ns)"
      using Suc.IH [of p dp] Suc.prems p by auto
    have "zip (rev (j # ns)) (tl (rev (j # ns))) = zip (rev ns) (tl (rev ns)) @ [(p, j)]"
      using zip_tl_snoc [of "rev ns" j] ns by (simp add: last_rev)
    moreover have "edgeOnPath (graph x) d p j = graph x ! p ! k"
      using p by (simp add: edgeOnPath_def)
    moreover have "p < length (graph x)" using p Suc.prems by simp
    ultimately show ?thesis
      using p ns es by (auto simp: Let_def edge_path_snoc path_weight_def)
  qed
qed simp

lemma dist_attained:
  assumes "0 < length (graph x)" and "j < length (graph x)"
    and "dp_dist (shortestPaths (graph x) (length (graph x))) ! j = Some dj"
  shows "\<exists>es. edge_path (graph x) 0 es j \<and> path_weight es = dj"
  using backtrack_correct [OF assms(1) lessI assms(2) refl assms(3)] by (auto simp: Let_def)

end

definition rcgGraph :: "rcg_env \<times> VMAddressTracker option \<Rightarrow> RCGEdge list list" where
  "rcgGraph x =
     (case createReachableCheckpointGraph (fst x) (getCheckpointsFromTrace (fst x)) (snd x) of
        Inr s \<Rightarrow> adj s | Inl _ \<Rightarrow> [])"

lemma nodes_length_ge: "2 \<le> length (getCheckpointsFromTrace S)"
  by (simp add: getCheckpointsFromTrace_def Let_def)

interpretation rcg: forward_graph rcgGraph
proof unfold_locales
  fix i e x
  assume "i < length (rcgGraph x)" "e \<in> set (rcgGraph x ! i)"
  moreover obtain S t where x: "x = (S, t)" by (cases x)
  ultimately obtain s where s: "createReachableCheckpointGraph S (getCheckpointsFromTrace S) t = Inr s"
      "rcgGraph x = adj s"
    by (auto simp: rcgGraph_def split: sum.splits)
  from createRCG_ok [OF s(1) nodes_length_ge] \<open>i < length (rcgGraph x)\<close> \<open>e \<in> set (rcgGraph x ! i)\<close> s(2)
  show "i < e_to e \<and> e_to e < length (rcgGraph x)"
    by (auto simp: adj_ok_def edge_ok_def)
qed

section \<open>Intervals tile the trace\<close>

definition candIdx :: "rcg_env \<Rightarrow> nat list" where
  "candIdx S = filter (\<lambda>i. \<not> (isCallBlock S (pathBlocks S ! i) \<and> isCallBlock S (pathBlocks S ! (i + 1))))
     [0..<length (pathBlocks S) - 1]"

lemma concat_if_singleton: "concat (map (\<lambda>i. if P i then [] else [f i]) xs) = map f (filter (\<lambda>i. \<not> P i) xs)"
  by (induction xs) auto

lemma nodes_eq:
  "getCheckpointsFromTrace S =
     \<lparr>kind = Start, node_edge = CFGEdge nullptr nullptr, blockIndex = 0\<rparr> #
     map (\<lambda>i. \<lparr>kind = CandidateEdge, node_edge = CFGEdge (pathBlocks S ! i) (pathBlocks S ! (i + 1)), blockIndex = i + 1\<rparr>)
       (candIdx S) @
     [\<lparr>kind = End, node_edge = CFGEdge nullptr nullptr, blockIndex = length (pathBlocks S)\<rparr>]"
  by (simp add: getCheckpointsFromTrace_def candIdx_def Let_def concat_if_singleton)

lemma candIdx_bound: "i \<in> set (candIdx S) \<Longrightarrow> i + 1 < length (pathBlocks S)"
  by (auto simp: candIdx_def)

lemma candIdx_sorted: "sorted_wrt (<) (candIdx S)"
  by (simp add: candIdx_def sorted_wrt_filter)

definition nodeLo :: "rcg_env \<Rightarrow> nat \<Rightarrow> nat" where
  "nodeLo S k = (if k = 0 then 1 else candIdx S ! (k - 1) + 1)"

definition nodeHi :: "rcg_env \<Rightarrow> nat \<Rightarrow> nat" where
  "nodeHi S k = (if k = Suc (length (candIdx S)) then length (pathBlocks S) - 1 else candIdx S ! (k - 1) + 1)"

definition slice :: "nat \<Rightarrow> nat \<Rightarrow> 'a list \<Rightarrow> 'a list" where
  "slice a b xs = take (b - a) (drop a xs)"

lemma slice_append: "a \<le> b \<Longrightarrow> b \<le> c \<Longrightarrow> slice a b xs @ slice b c xs = slice a c xs"
proof -
  assume "a \<le> b" "b \<le> c"
  then have "c - a = (b - a) + (c - b)" "drop b xs = drop (b - a) (drop a xs)" by simp_all
  then show ?thesis by (simp only: slice_def take_add)
qed

lemma length_slice: "a \<le> b \<Longrightarrow> b \<le> length xs \<Longrightarrow> length (slice a b xs) = b - a"
  by (simp add: slice_def)

lemma node_at:
  assumes "k < length (getCheckpointsFromTrace S)"
  shows "kind (getCheckpointsFromTrace S ! k) =
           (if k = 0 then Start else if k = Suc (length (candIdx S)) then End else CandidateEdge)"
    and "0 < k \<Longrightarrow> k \<le> length (candIdx S) \<Longrightarrow>
         blockIndex (getCheckpointsFromTrace S ! k) = candIdx S ! (k - 1) + 1 \<and>
         node_edge (getCheckpointsFromTrace S ! k) =
           CFGEdge (pathBlocks S ! (candIdx S ! (k - 1))) (pathBlocks S ! (candIdx S ! (k - 1) + 1))"
  using assms by (auto simp: nodes_eq nth_Cons nth_append split: nat.splits)

lemma nodes_length: "length (getCheckpointsFromTrace S) = Suc (Suc (length (candIdx S)))"
  by (simp add: nodes_eq)

lemma getIntervalBlocks_slice:
  assumes "k < l" and "l < length (getCheckpointsFromTrace S)" and "3 \<le> length (pathBlocks S)"
  shows "getIntervalBlocks S (getCheckpointsFromTrace S) k l = slice (nodeLo S k) (nodeHi S l) (pathBlocks S)"
proof -
  have k: "k < length (getCheckpointsFromTrace S)" "k \<le> length (candIdx S)" "0 < l" "l \<le> Suc (length (candIdx S))"
    using assms by (auto simp: nodes_length)
  have "getIntervalRange S (getCheckpointsFromTrace S) k l = (nodeLo S k, nodeHi S l - 1)"
    using k node_at [OF k(1)] node_at [OF assms(2)] assms(3)
    by (auto simp: getIntervalRange_def nodeLo_def nodeHi_def)
  moreover have "0 < nodeHi S l"
    using assms(3) by (simp add: nodeHi_def)
  ultimately show ?thesis
    by (auto simp: getIntervalBlocks_def slice_def)
qed

lemma lo_le_hi:
  assumes "k < l" and "l < length (getCheckpointsFromTrace S)" and "3 \<le> length (pathBlocks S)"
  shows "nodeLo S k \<le> nodeHi S l"
proof -
  have "candIdx S ! (k - 1) < candIdx S ! (l - 1)" if "0 < k" "l \<le> length (candIdx S)"
    using that assms(1) candIdx_sorted [of S] by (auto simp: sorted_wrt_iff_nth_less)
  moreover have "candIdx S ! (k - 1) + 1 < length (pathBlocks S)" if "0 < k"
    using that assms(1,2) by (intro candIdx_bound) (auto simp: nodes_length)
  ultimately show ?thesis
    using assms by (cases "0 < k"; cases "l \<le> length (candIdx S)") (auto simp: nodeLo_def nodeHi_def nodes_length)
qed

lemma hi_le_length:
  assumes "0 < l" and "l < length (getCheckpointsFromTrace S)" and "3 \<le> length (pathBlocks S)"
  shows "nodeHi S l < length (pathBlocks S)"
proof (cases "l = Suc (length (candIdx S))")
  case False
  then have "candIdx S ! (l - 1) + 1 < length (pathBlocks S)"
    using assms by (intro candIdx_bound) (auto simp: nodes_length)
  with False show ?thesis by (simp add: nodeHi_def)
qed (use assms in \<open>simp add: nodeHi_def\<close>)

lemma path_tiles:
  assumes "edge_path A k es l" and "es \<noteq> []" and "3 \<le> length (pathBlocks S)"
    and "length A = length (getCheckpointsFromTrace S)"
    and "\<forall>i < length A. \<forall>e \<in> set (A ! i). e_from e = i \<and> edge_ok S (getCheckpointsFromTrace S) e"
  shows "k < l \<and> l < length A \<and> concat (map e_blocks es) = slice (nodeLo S k) (nodeHi S l) (pathBlocks S)"
  using assms(1,2)
proof (induction es arbitrary: k)
  case (Cons e es)
  let ?N = "getCheckpointsFromTrace S"
  from Cons.prems assms(5) have e: "e_from e = k" "edge_ok S ?N e" and rest: "edge_path A (e_to e) es l"
    by auto
  from e have m: "k < e_to e" "e_to e < length ?N" "e_blocks e = slice (nodeLo S k) (nodeHi S (e_to e)) (pathBlocks S)"
    using getIntervalBlocks_slice [of k "e_to e" S] assms(3) by (auto simp: edge_ok_def)
  show ?case
  proof (cases "es = []")
    case True
    with rest m assms(4) show ?thesis by simp
  next
    case False
    from Cons.IH [OF rest False] have IH: "e_to e < l" "l < length A"
        "concat (map e_blocks es) = slice (nodeLo S (e_to e)) (nodeHi S l) (pathBlocks S)" by auto
    have "nodeLo S (e_to e) = nodeHi S (e_to e)"
      using m IH assms(4) by (simp add: nodeLo_def nodeHi_def nodes_length)
    with m IH lo_le_hi [of k "e_to e" S] lo_le_hi [of "e_to e" l S] assms(3,4) show ?thesis
      by (auto simp: slice_append)
  qed
qed simp

section \<open>The solver's answer\<close>

declare backtrack.simps [simp del]

abbreviation (input) endNode :: "rcg_env \<Rightarrow> nat" where
  "endNode S \<equiv> length (getCheckpointsFromTrace S) - 1"

lemma nodes_pos: "0 < length (getCheckpointsFromTrace S)"
  using nodes_length_ge [of S] by linarith

lemma rcgGraph_ok:
  assumes "3 \<le> length (pathBlocks S)"
  obtains s where "createReachableCheckpointGraph S (getCheckpointsFromTrace S) tr = Inr s"
    and "rcgGraph (S, tr) = adj s" and "adj_ok S (getCheckpointsFromTrace S) s"
proof -
  from assms obtain s where s: "createReachableCheckpointGraph S (getCheckpointsFromTrace S) tr = Inr s"
    by (auto simp: createReachableCheckpointGraph_def Let_def)
  with createRCG_ok [OF s nodes_length_ge] that show ?thesis by (simp add: rcgGraph_def)
qed

lemma length_rcgGraph:
  "3 \<le> length (pathBlocks S) \<Longrightarrow> length (rcgGraph (S, tr)) = length (getCheckpointsFromTrace S)"
  by (rule rcgGraph_ok [of S tr]) (auto simp: adj_ok_def)

lemma rcgGraph_edges:
  assumes "3 \<le> length (pathBlocks S)"
  shows "\<forall>i < length (rcgGraph (S, tr)). \<forall>e \<in> set (rcgGraph (S, tr) ! i).
     e_from e = i \<and> edge_ok S (getCheckpointsFromTrace S) e"
  by (rule rcgGraph_ok [OF assms, of tr]) (auto simp: adj_ok_def)

lemmas rcg_tiles = path_tiles [OF _ _ _ length_rcgGraph rcgGraph_edges]

lemma edge_path_append:
  "edge_path A i (xs @ ys) j \<longleftrightarrow> (\<exists>k. edge_path A i xs k \<and> edge_path A k ys j)"
  by (induction xs arbitrary: i) auto

text \<open>The node an edge of a path enters, when it is not the path's last edge, is a candidate node;
  the intervals before it end where that candidate cuts the trace.\<close>

lemma path_node_internal:
  assumes "edge_path (rcgGraph (S, tr)) 0 es (endNode S)" and "3 \<le> length (pathBlocks S)"
    and "Suc k < length es"
  shows "0 < e_to (es ! k) \<and> e_to (es ! k) \<le> length (candIdx S) \<and>
     concat (map e_blocks (take (Suc k) es)) = slice 1 (candIdx S ! (e_to (es ! k) - 1) + 1) (pathBlocks S)"
proof -
  let ?m = "e_to (es ! k)"
  have "es = take k es @ [es ! k] @ drop (Suc k) es"
    using assms(3) by (metis Suc_lessD append_Cons append_Nil id_take_nth_drop)
  with assms(1) have "edge_path (rcgGraph (S, tr)) 0 (take k es @ [es ! k] @ drop (Suc k) es) (endNode S)"
    by simp
  then have p: "edge_path (rcgGraph (S, tr)) 0 (take k es @ [es ! k]) ?m"
      and q: "edge_path (rcgGraph (S, tr)) ?m (drop (Suc k) es) (endNode S)"
    by (auto simp: edge_path_append)
  from rcg_tiles [OF q _ assms(2,2,2)] assms(3) have m: "?m < endNode S" by simp
  from rcg_tiles [OF p _ assms(2,2,2)] have "0 < ?m"
      "concat (map e_blocks (take k es @ [es ! k])) = slice (nodeLo S 0) (nodeHi S ?m) (pathBlocks S)"
    by auto
  with m assms(3) show ?thesis
    by (simp add: take_Suc_conv_app_nth nodeLo_def nodeHi_def nodes_length)
qed

lemma path_nodes_internal:
  assumes "edge_path (rcgGraph (S, tr)) 0 es (endNode S)" and "3 \<le> length (pathBlocks S)"
  shows "filter (\<lambda>t. kind (getCheckpointsFromTrace S ! t) = CandidateEdge) (map e_to es) = map e_to (butlast es)"
proof (cases es rule: rev_cases)
  case (snoc es' e)
  let ?N = "getCheckpointsFromTrace S"
  have "kind (?N ! e_to (es ! k)) = CandidateEdge" if "Suc k < length es" for k
    using path_node_internal [OF assms that] by (subst node_at(1)) (auto simp: nodes_length)
  then have "kind (?N ! e_to e') = CandidateEdge" if "e' \<in> set es'" for e'
    using that snoc by (fastforce simp: in_set_conv_nth nth_append)
  moreover have "kind (?N ! e_to e) = End"
  proof -
    from snoc assms(1) have "e_to e = endNode S" by (auto simp: edge_path_append)
    then show ?thesis by (simp add: node_at(1) nodes_length)
  qed
  ultimately show ?thesis using snoc by (auto simp: filter_id_conv)
qed simp

lemma solve_unfold:
  assumes "3 \<le> length (pathBlocks S)"
    and "createReachableCheckpointGraph S (getCheckpointsFromTrace S) tr = Inr s"
  shows "solve S tr = (case getShortestPathInRCG (getCheckpointsFromTrace S) s of
     Inl e \<Rightarrow> Inl e | Inr r \<Rightarrow> Inr (r, rc_tracker s))"
  using assms by (cases "pathBlocks S") (auto simp: solve_def)

abbreviation (input) rcgDP :: "rcg_env \<Rightarrow> VMAddressTracker option \<Rightarrow> dp_state" where
  "rcgDP S tr \<equiv> shortestPaths (rcgGraph (S, tr)) (length (rcgGraph (S, tr)))"

lemma getShortestPath_cases:
  assumes len: "3 \<le> length (pathBlocks S)"
    and s: "createReachableCheckpointGraph S (getCheckpointsFromTrace S) tr = Inr s"
  shows "case dp_dist (rcgDP S tr) ! endNode S of
      None \<Rightarrow> \<exists>r. getShortestPathInRCG (getCheckpointsFromTrace S) s = Inr r \<and> \<not> feasible r
    | Some dj \<Rightarrow> \<exists>ns. getShortestPathInRCG (getCheckpointsFromTrace S) s
          = Inr (collectResult (getCheckpointsFromTrace S) (rcgGraph (S, tr)) (rcgDP S tr) (rev ns)) \<and>
        (let es = map (\<lambda>(from, to). edgeOnPath (rcgGraph (S, tr)) (rcgDP S tr) from to) (zip (rev ns) (tl (rev ns)))
         in edge_path (rcgGraph (S, tr)) 0 es (endNode S) \<and> path_weight es = dj \<and> map e_to es = tl (rev ns))"
proof -
  have g: "rcgGraph (S, tr) = adj s" using s by (simp add: rcgGraph_def)
  have n: "length (rcgGraph (S, tr)) = length (getCheckpointsFromTrace S)" by (rule length_rcgGraph [OF len])
  have "0 < length (rcgGraph (S, tr))" "endNode S < length (rcgGraph (S, tr))"
    using n nodes_pos [of S] by linarith+
  note bt = rcg.backtrack_correct [OF this(1,2) this(2) refl]
  show ?thesis
  proof (cases "dp_dist (rcgDP S tr) ! endNode S")
    case None
    then show ?thesis using g n by (simp add: getShortestPathInRCG_def Let_def)
  next
    case (Some dj)
    from bt [OF Some] obtain ns where "backtrack (length (rcgGraph (S, tr))) (dp_pred (rcgDP S tr)) (endNode S) = Some ns"
      "let es = map (\<lambda>(from, to). edgeOnPath (rcgGraph (S, tr)) (rcgDP S tr) from to) (zip (rev ns) (tl (rev ns)))
       in edge_path (rcgGraph (S, tr)) 0 es (endNode S) \<and> path_weight es = dj \<and> map e_to es = tl (rev ns)"
      by blast
    with Some g n show ?thesis by (auto simp: getShortestPathInRCG_def Let_def)
  qed
qed

lemma map_filter_snd: "map (\<lambda>(a, b). f b) (filter (\<lambda>(a, b). P b) zs) = map f (filter P (map snd zs))"
  by (induction zs) auto

lemma collectResult_path:
  assumes len: "3 \<le> length (pathBlocks S)"
    and ep: "edge_path (rcgGraph (S, tr)) 0 es (endNode S)" "path_weight es = dj" "map e_to es = tl (rev ns)"
    and dj: "dp_dist d ! endNode S = Some dj"
    and es: "es = map (\<lambda>(from, to). edgeOnPath (rcgGraph (S, tr)) d from to) (zip (rev ns) (tl (rev ns)))"
    and r: "r = collectResult (getCheckpointsFromTrace S) (rcgGraph (S, tr)) d (rev ns)"
  shows "feasible r \<and> totalCost r = path_weight es \<and>
     intervalBlocks r = map e_blocks es \<and> allocations r = map e_allocation es \<and>
     selectedCheckpoints r = map (\<lambda>e. node_edge (getCheckpointsFromTrace S ! e_to e)) (butlast es)"
proof -
  let ?N = "getCheckpointsFromTrace S" and ?P = "\<lambda>t. kind (getCheckpointsFromTrace S ! t) = CandidateEdge"
  have "map snd (zip (rev ns) (tl (rev ns))) = tl (rev ns)"
    by (simp add: map_snd_zip_take)
  then have "map (\<lambda>(from, to). node_edge (?N ! to)) (filter (\<lambda>(from, to). ?P to) (zip (rev ns) (tl (rev ns))))
      = map (\<lambda>t. node_edge (?N ! t)) (filter ?P (tl (rev ns)))"
    by (simp only: map_filter_snd)
  also have "\<dots> = map (\<lambda>e. node_edge (?N ! e_to e)) (butlast es)"
    unfolding ep(3) [symmetric] path_nodes_internal [OF ep(1) len] by simp
  finally show ?thesis
    using ep(2) dj by (simp add: r collectResult_def Let_def es)
qed

lemma solve_cases:
  assumes len: "3 \<le> length (pathBlocks S)"
  obtains (infeasible) r tr' where "solve S tr = Inr (r, tr')" "\<not> feasible r"
      "dp_dist (rcgDP S tr) ! endNode S = None"
    | (found) r tr' es where "solve S tr = Inr (r, tr')" "feasible r"
      "dp_dist (rcgDP S tr) ! endNode S = Some (path_weight es)"
      "edge_path (rcgGraph (S, tr)) 0 es (endNode S)" "totalCost r = path_weight es"
      "intervalBlocks r = map e_blocks es" "allocations r = map e_allocation es"
      "selectedCheckpoints r = map (\<lambda>e. node_edge (getCheckpointsFromTrace S ! e_to e)) (butlast es)"
proof -
  obtain s where s: "createReachableCheckpointGraph S (getCheckpointsFromTrace S) tr = Inr s"
    by (rule rcgGraph_ok [OF len])
  note u = solve_unfold [OF len s] and c = getShortestPath_cases [OF len s]
  show ?thesis
  proof (cases "dp_dist (rcgDP S tr) ! endNode S")
    case None
    with c u show ?thesis by (auto intro: infeasible)
  next
    case (Some dj)
    define es where "es ns = map (\<lambda>(from, to). edgeOnPath (rcgGraph (S, tr)) (rcgDP S tr) from to)
      (zip (rev ns) (tl (rev ns)))" for ns
    from Some c obtain ns where
      r: "getShortestPathInRCG (getCheckpointsFromTrace S) s
          = Inr (collectResult (getCheckpointsFromTrace S) (rcgGraph (S, tr)) (rcgDP S tr) (rev ns))"
      and ep: "edge_path (rcgGraph (S, tr)) 0 (es ns) (endNode S)" "path_weight (es ns) = dj"
        "map e_to (es ns) = tl (rev ns)"
      by (auto simp: Let_def es_def)
    from collectResult_path [OF len ep Some es_def refl] show ?thesis
      using u r ep Some by (intro found [of _ _ "es ns"]) auto
  qed
qed


section \<open>Properties of the solver\<close>

text \<open>The solver always returns: its only error is the fatal error on a trace of one or two
  blocks, and the backtracking loop over predecessors ends.\<close>

theorem solve_terminates:
  "solve S tr = Inl e \<longleftrightarrow> e = MalformedTrace \<and> 0 < length (pathBlocks S) \<and> length (pathBlocks S) < 3"
proof (cases "3 \<le> length (pathBlocks S)")
  case len: True
  then show ?thesis by (rule solve_cases [of S tr]) (use len in auto)
qed (auto simp: solve_def createReachableCheckpointGraph_def)

text \<open>(C2) The answer is a shortest path of the reachable checkpoint graph: the solver reports a
  feasible solution exactly when the end node is reachable from the start node, the reported cost
  is the weight of a path whose intervals and allocations it returns, and no path is cheaper.\<close>

theorem solve_optimal:
  assumes "solve S tr = Inr (r, tr')" and "3 \<le> length (pathBlocks S)"
  shows "(feasible r \<longleftrightarrow> (\<exists>es. edge_path (rcgGraph (S, tr)) 0 es (length (getCheckpointsFromTrace S) - 1))) \<and>
    (feasible r \<longrightarrow>
       (\<exists>es. edge_path (rcgGraph (S, tr)) 0 es (length (getCheckpointsFromTrace S) - 1) \<and>
          totalCost r = path_weight es \<and> intervalBlocks r = map e_blocks es \<and>
          allocations r = map e_allocation es)) \<and>
    (feasible r \<longrightarrow>
       (\<forall>es. edge_path (rcgGraph (S, tr)) 0 es (length (getCheckpointsFromTrace S) - 1) \<longrightarrow>
          totalCost r \<le> path_weight es))"
proof -
  have "0 < length (rcgGraph (S, tr))" using length_rcgGraph [OF assms(2), of tr] nodes_pos [of S] by linarith
  note le = rcg.dist_le_path [OF this]
  from assms(2) show ?thesis
  proof (cases rule: solve_cases [of S tr])
    case infeasible
    with assms(1) le [where j = "endNode S"] show ?thesis by fastforce
  next
    case (found r' t' es)
    with assms(1) have "r' = r" by simp
    moreover have "totalCost r' \<le> path_weight es'" if "edge_path (rcgGraph (S, tr)) 0 es' (endNode S)" for es'
      using le [OF that] found by auto
    ultimately show ?thesis using found by blast
  qed
qed

text \<open>(C3) The selected checkpoints partition the trace: the intervals, concatenated, are the trace
  without its two boundary blocks, and the \<open>k\<close>-th selected checkpoint is the trace edge between the
  last block of the first \<open>k + 1\<close> intervals and the block after it; it never separates two blocks
  of a call's interior.\<close>

theorem solve_partitions_trace:
  assumes "solve S tr = Inr (r, tr')" and "feasible r" and "3 \<le> length (pathBlocks S)"
  shows "concat (intervalBlocks r) = butlast (tl (pathBlocks S)) \<and>
    length (intervalBlocks r) = Suc (length (selectedCheckpoints r)) \<and>
    (\<forall>k < length (selectedCheckpoints r).
       let m = length (concat (take (Suc k) (intervalBlocks r)))
       in Suc m < length (pathBlocks S) \<and>
          selectedCheckpoints r ! k = CFGEdge (pathBlocks S ! m) (pathBlocks S ! Suc m) \<and>
          \<not> (isCallBlock S (pathBlocks S ! m) \<and> isCallBlock S (pathBlocks S ! Suc m)))"
  using assms(3)
proof (cases rule: solve_cases [of S tr])
  case infeasible
  with assms show ?thesis by simp
next
  case (found r' t' es)
  let ?N = "getCheckpointsFromTrace S" and ?p = "pathBlocks S"
  have r: "r' = r" using assms(1) found by simp
  have ne: "es \<noteq> []" using found(4) nodes_length_ge [of S] by auto
  from rcg_tiles [OF found(4) ne assms(3,3,3)] have "concat (map e_blocks es) = slice 1 (length ?p - 1) ?p"
    by (simp add: nodeLo_def nodeHi_def nodes_length)
  also have "\<dots> = butlast (tl ?p)"
    by (simp add: slice_def butlast_conv_take drop_Suc)
  finally have tile: "concat (map e_blocks es) = butlast (tl ?p)" .
  have cut: "let m = length (concat (map e_blocks (take (Suc k) es)))
      in Suc m < length ?p \<and> node_edge (?N ! e_to (es ! k)) = CFGEdge (?p ! m) (?p ! Suc m) \<and>
         \<not> (isCallBlock S (?p ! m) \<and> isCallBlock S (?p ! Suc m))" if "Suc k < length es" for k
  proof -
    let ?c = "candIdx S ! (e_to (es ! k) - 1)"
    from path_node_internal [OF found(4) assms(3) that]
    have t: "0 < e_to (es ! k)" "e_to (es ! k) \<le> length (candIdx S)"
      and sl: "concat (map e_blocks (take (Suc k) es)) = slice 1 (?c + 1) ?p" by auto
    have c: "?c \<in> set (candIdx S)" using t by (intro nth_mem) auto
    with sl candIdx_bound [OF c] have "length (concat (map e_blocks (take (Suc k) es))) = ?c"
      by (simp add: length_slice)
    moreover have "node_edge (?N ! e_to (es ! k)) = CFGEdge (?p ! ?c) (?p ! (?c + 1))"
      using node_at(2) [of "e_to (es ! k)" S] t by (simp add: nodes_length)
    ultimately show ?thesis using c candIdx_bound [OF c] by (auto simp: candIdx_def Let_def)
  qed
  show ?thesis
    using found r ne tile cut by (auto simp: take_map nth_butlast)
qed

text \<open>(C1) Energy safety of the solution: every interval fits the energy available to it. The first
  interval starts from the energy left at the trace's start, every other one from a full capacitor;
  the last one keeps the energy needed to leave the trace in reserve.\<close>

theorem solve_intervals_fit_energy:
  assumes "solve S tr = Inr (r, tr')" and "feasible r" and "3 \<le> length (pathBlocks S)"
    and "k < length (allocations r)"
  shows "intervalEnergy (allocations r ! k) + (if Suc k = length (allocations r) then energyToLeaveSeed S else 0)
    < (if k = 0 then energyLeftSeed S else capacity (rc_params S))"
  using assms(3)
proof (cases rule: solve_cases [of S tr])
  case infeasible
  with assms show ?thesis by simp
next
  case (found r' t' es)
  let ?A = "rcgGraph (S, tr)" and ?e = "es ! k"
  have r: "r' = r" using assms(1) found by simp
  have k: "k < length es" using found r assms(4) by simp
  then have "es = take k es @ ?e # drop (Suc k) es" by (simp add: id_take_nth_drop)
  with found(4) have "edge_path ?A 0 (take k es @ ?e # drop (Suc k) es) (endNode S)" by simp
  then obtain i where pre: "edge_path ?A 0 (take k es) i" and i: "i < length ?A" "?e \<in> set (?A ! i)"
    and suf: "edge_path ?A (e_to ?e) (drop (Suc k) es) (endNode S)"
    by (auto simp: edge_path_append)
  from rcgGraph_edges [OF assms(3)] i have ok: "e_from ?e = i" "edge_ok S (getCheckpointsFromTrace S) ?e"
    by auto
  have "i = 0 \<longleftrightarrow> k = 0"
  proof (cases "k = 0")
    case False
    with k have "take k es \<noteq> []" by auto
    from rcg_tiles [OF pre this assms(3,3,3)] False show ?thesis by simp
  qed (use pre in simp)
  moreover have "e_to ?e = endNode S" if "Suc k = length es" using that suf by simp
  moreover have "e_to ?e \<noteq> endNode S" if "Suc k < length es"
    using rcg_tiles [OF suf _ assms(3,3,3)] that by auto
  moreover have "Suc k < length es \<or> Suc k = length es" using k by linarith
  ultimately show ?thesis
    using ok found k r by (auto simp: edge_ok_def fits_budget_def)
qed


definition sample_graph4 :: SchematicGraph where
  "sample_graph4 = \<lparr>graphBlocks = [(1, sample_block 1 [] [2]), (2, sample_block 2 [1] [3]),
      (3, sample_block 3 [2] [4]), (4, sample_block 4 [3] [])],
     realBlocks = [(1, 1), (2, 2), (3, 3), (4, 4)], syntheticBlocks = [], graphNext = 5\<rparr>"

definition sample_cfg4 :: CFGAnalysis where
  "sample_cfg4 = \<lparr>cfg_blocks = [1, 2, 3, 4],
     cfg_blockInfo = [(1, \<lparr>bi_name = ''a'', energyCost = 10\<rparr>), (2, \<lparr>bi_name = ''b'', energyCost = 100\<rparr>),
       (3, \<lparr>bi_name = ''c'', energyCost = 100\<rparr>), (4, \<lparr>bi_name = ''d'', energyCost = 20\<rparr>)],
     cfg_edges = [(1, 2), (2, 3), (3, 4)], cfg_entryBlock = 1, cfg_exitBlocks = [4]\<rparr>"

definition sample_state0 :: SchematicStateAnalysis where
  "sample_state0 = \<lparr>sa_candidates = [], sa_varSizeBytes = [], sa_loadCounts = [], sa_storeCounts = [],
     sa_firstOpIsLoad = [], isPointerType = (\<lambda>_. False)\<rparr>"

definition sample_env :: rcg_env where
  "sample_env = \<lparr>pathBlocks = [1, 2, 3, 4], rc_graph = sample_graph4, rc_state = sample_state0,
     rc_cfg = sample_cfg4, rc_params = sample_params\<lparr>capacity := 150\<rparr>, existingMeta = [],
     rc_blockAllocation = (\<lambda>_. None), callBlocks = {}\<rparr>"

definition sample_result :: RCGResult where
  "sample_result = \<lparr>feasible = True, totalCost = 219, selectedCheckpoints = [CFGEdge 2 3],
     allocations = [emptyAllocation\<lparr>intervalEnergy := 111\<rparr>, emptyAllocation\<lparr>intervalEnergy := 108\<rparr>],
     intervalBlocks = [[2], [3]], errorMessage = NoMessage\<rparr>"


lemma backtrack_numeral:
  "backtrack (numeral k) P n =
     (case P ! n of None \<Rightarrow> Some [n] | Some p \<Rightarrow> map_option (\<lambda>ns. n # ns) (backtrack (pred_numeral k) P p))"
  by (simp add: numeral_eq_Suc backtrack.simps)

lemmas rcg_graph_eval = createReachableCheckpointGraph_def
  tryEdge_def getIntervalBlocks_def getIntervalRange_def computeIntervalCost_def trackDiagnostics_def
  chkptRestore_def chkptSave_def startAllocation_def endAllocation_def energyLeftSeed_def energyToLeaveSeed_def
  getName_def kStartFuncName_def kStartLoopName_def Let_def

lemmas rcg_path_eval = getShortestPathInRCG_def shortestPaths_def relaxNode_def relaxEdge_def
  collectResult_def edgeOnPath_def backtrack_numeral backtrack.simps Let_def

lemmas sample_env_defs = sample_env_def sample_graph4_def sample_cfg4_def
      sample_state0_def sample_params_def sample_block_def

definition sample_nodes :: "Node list" where
  "sample_nodes = [\<lparr>kind = Start, node_edge = CFGEdge 0 0, blockIndex = 0\<rparr>,
     \<lparr>kind = CandidateEdge, node_edge = CFGEdge 1 2, blockIndex = 1\<rparr>,
     \<lparr>kind = CandidateEdge, node_edge = CFGEdge 2 3, blockIndex = 2\<rparr>,
     \<lparr>kind = CandidateEdge, node_edge = CFGEdge 3 4, blockIndex = 3\<rparr>,
     \<lparr>kind = End, node_edge = CFGEdge 0 0, blockIndex = 4\<rparr>]"

lemma sample_getCheckpoints: "getCheckpointsFromTrace sample_env = sample_nodes"
  by (simp add: getCheckpointsFromTrace_def isCallBlock_def sample_env_def sample_nodes_def upt_rec)

definition sample_edge :: "nat \<Rightarrow> nat \<Rightarrow> real \<Rightarrow> block_ptr list \<Rightarrow> RCGEdge" where
  "sample_edge i j w bs = \<lparr>e_from = i, e_to = j, weight = w, e_allocation = emptyAllocation\<lparr>intervalEnergy := w\<rparr>, e_blocks = bs\<rparr>"

lemma sample_graph_built: "createReachableCheckpointGraph sample_env sample_nodes None = Inr
  \<lparr>adj = [[sample_edge 0 1 11 [], sample_edge 0 2 111 [2]],
     [sample_edge 1 2 119 [2]], [sample_edge 2 3 119 [3], sample_edge 2 4 108 [3]], [sample_edge 3 4 8 []], []],
   minRejected = Some ([2, 3], 200, 142), rc_tracker = None\<rparr>"
  by (simp add: rcg_graph_eval memalloc_eval sample_env_defs sample_nodes_def sample_edge_def upt_rec)

lemma sample_solve: "solve sample_env None = Inr (sample_result, None)"
  by (simp add: solve_def sample_getCheckpoints sample_graph_built)
    (simp add: rcg_path_eval sample_nodes_def sample_result_def sample_edge_def upt_rec sample_env_def)

theorem solve_optimal_witness:
  "totalCost sample_result \<le> path_weight [sample_edge 0 1 11 [], sample_edge 1 2 119 [2], sample_edge 2 4 108 [3]]"
proof -
  have "edge_path (rcgGraph (sample_env, None)) 0
      [sample_edge 0 1 11 [], sample_edge 1 2 119 [2], sample_edge 2 4 108 [3]]
      (length (getCheckpointsFromTrace sample_env) - 1)"
    by (simp add: rcgGraph_def sample_getCheckpoints sample_graph_built)
      (simp add: sample_nodes_def sample_edge_def)
  with solve_optimal [OF sample_solve] show ?thesis
    by (simp add: sample_result_def sample_env_def)
qed

theorem solve_partitions_trace_witness:
  "concat [[2], [3]] = butlast (tl [1, 2, 3, 4 :: nat]) \<and> selectedCheckpoints sample_result ! 0 = CFGEdge 2 3"
  using solve_partitions_trace [OF sample_solve] by (simp add: sample_result_def sample_env_def)

theorem solve_intervals_fit_energy_witness:
  "intervalEnergy (allocations sample_result ! 1) + energyToLeaveSeed sample_env < 150"
  using solve_intervals_fit_energy [OF sample_solve, of 1]
  by (simp add: sample_result_def sample_env_def)

section \<open>Conflicting allocations under a large capacity\<close>

text \<open>Two boundary allocations that place the same variable in different memories, in a trace with no
  candidate edge, under the capacity of the shipped 50 uF configuration.\<close>

definition conflict_env :: rcg_env where
  "conflict_env = \<lparr>pathBlocks = [1, 2, 3], rc_graph = sample_graph, rc_state = sample_state,
     rc_cfg = sample_cfg, rc_params = sample_params\<lparr>capacity := 182000\<rparr>, existingMeta = [],
     rc_blockAllocation = [1 \<mapsto> sample_alloc,
       3 \<mapsto> \<lparr>vars = [(7, sample_vm\<lparr>placement := NVM\<rparr>)], vmOffsets = [], vmBytesUsed = 0, intervalEnergy = 0\<rparr>],
     callBlocks = {1, 2, 3}\<rparr>"

lemma conflict_constrained:
  "constrainedAllocation (rc_state conflict_env) (startAllocation conflict_env) (endAllocation conflict_env) [] = None"
  by (simp add: conflict_env_def startAllocation_def endAllocation_def constrainedAllocation_def mergeBoundary_def
      mergeAllocations_def mergeOne_def mergeVar_def sample_alloc_def sample_vm_def sample_state_def occupiedOf_def
      getVarSizeBytes_def omap_get_def needRestore_def needSave_def emptyAllocation_def)

definition conflict_nodes :: "Node list" where
  "conflict_nodes = [\<lparr>kind = Start, node_edge = CFGEdge 0 0, blockIndex = 0\<rparr>,
     \<lparr>kind = End, node_edge = CFGEdge 0 0, blockIndex = 3\<rparr>]"

lemma conflict_getCheckpoints: "getCheckpointsFromTrace conflict_env = conflict_nodes"
  by (simp add: getCheckpointsFromTrace_def isCallBlock_def conflict_env_def conflict_nodes_def upt_rec)

lemma conflict_cost:
  "computeIntervalCost conflict_env [2] (startAllocation conflict_env) (endAllocation conflict_env) None =
     (emptyAllocation, 100099, None)"
proof -
  have "List.map_filter (rc_blockAllocation conflict_env) [2] = []"
    by (simp add: conflict_env_def List.map_filter_def)
  with conflict_constrained
  have "constrainedAllocation (rc_state conflict_env) (startAllocation conflict_env) (endAllocation conflict_env)
      (List.map_filter (rc_blockAllocation conflict_env) [2]) = None" by simp
  from computeCost_conflict [OF _ this] show ?thesis
    by (simp add: computeIntervalCost_def)
      (simp add: intervalExecEnergy_def conflict_env_def sample_defs getLLVMBlock_def blockAt_def omap_get_def getBlockInfo_def)
qed

lemma conflict_graph_built: "createReachableCheckpointGraph conflict_env conflict_nodes None = Inr
  \<lparr>adj = [[sample_edge 0 1 100099 [2]], []], minRejected = None, rc_tracker = None\<rparr>"
proof -
  have b: "getIntervalBlocks conflict_env conflict_nodes 0 (Suc 0) = [2]" and n: "length conflict_nodes = 2"
    by (simp_all add: getIntervalBlocks_def getIntervalRange_def conflict_nodes_def conflict_env_def)
  have e: "energyLeftSeed conflict_env = 181992" "energyToLeaveSeed conflict_env = 11"
    by (simp_all add: energyLeftSeed_def energyToLeaveSeed_def chkptSave_def getName_def blockAt_def omap_get_def
        kStartFuncName_def kStartLoopName_def conflict_env_def sample_defs)
  have "length (pathBlocks conflict_env) = 3" by (simp add: conflict_env_def)
  moreover have "tryEdge conflict_env conflict_nodes 0 (Suc 0) (startAllocation conflict_env) (endAllocation conflict_env)
      0 181992 11 181992 \<lparr>adj = [[], []], minRejected = None, rc_tracker = None\<rparr> =
      (100099, \<lparr>adj = [[sample_edge 0 1 100099 [2]], []], minRejected = None, rc_tracker = None\<rparr>)"
    by (simp add: tryEdge_def b conflict_cost trackDiagnostics_def sample_edge_def)
  ultimately show ?thesis
    by (simp add: createReachableCheckpointGraph_def n e numeral_2_eq_2)
qed


end
