(* ===== verification/EnergyPropagation.thy ===== *)
theory EnergyPropagation
  imports RCGSolver
begin

text \<open>
  Energy propagation (\<open>passes/src/schematic/EnergyPropagation.cpp\<close>): from a seed edge, a
  breadth-first walk over disabled checkpoint edges builds a graph of edges, Kahn's algorithm
  orders it, and the accumulated energy is pushed along it, raising \<open>E_to_leave\<close> (backward walk)
  or lowering \<open>E_left\<close> (forward walk) of the blocks crossed.

  The two C++ functions are mirror images; the model writes the walk once, over a
  \<open>direction\<close>, and the two entry points differ in the direction, the start value and the update of
  the metadata, as in the code. In-degrees count entries of vectors held in memory and are \<open>nat\<close>.
  Kahn's loop gets one unit of fuel per node; running out is \<open>None\<close>, which
  \<open>kahn_returns\<close> excludes.

  Results: the walk ends and its graph is acyclic, the loop processes every node, only the metadata
  named is changed and only in one direction, and along every path of the graph the metadata
  accounts for the energy of all blocks on the path. A last theorem shows that the graph can miss a
  path of disabled edges.
\<close>

section \<open>Block energies\<close>

record prop_env =
  pe_graph :: SchematicGraph
  pe_LI :: loop_info
  pe_scope :: "loop_id option"
  pe_cfg :: CFGAnalysis
  pe_state :: SchematicStateAnalysis
  pe_params :: SchematicParams

definition getBlockExecEnergy ::
  "SchematicGraph \<Rightarrow> block_ptr \<Rightarrow> SchematicSolution \<Rightarrow> CFGAnalysis \<Rightarrow> SchematicStateAnalysis
     \<Rightarrow> SchematicParams \<Rightarrow> double" where
  "getBlockExecEnergy g block sol cfg st params =
     (let BB = getLLVMBlock g block
      in if BB = nullptr then 0
         else case map_of (decidedPlacements sol) block of
           None \<Rightarrow> energyCost (getBlockInfo cfg BB)
         | Some ps \<Rightarrow> foldl (\<lambda>E (gv, place).
               if place \<noteq> VM then E
               else E - nvmAccessPenalty params * u2r (getLoadCount st BB gv + getStoreCount st BB gv))
             (energyCost (getBlockInfo cfg BB)) ps)"

definition markSeedLoopSeen :: "loop_info \<Rightarrow> block_ptr \<Rightarrow> SchematicSolution \<Rightarrow> bb_ptr set \<Rightarrow> bb_ptr set" where
  "markSeedLoopSeen LI bb sol seen =
     (if bb = nullptr then seen
      else case map_of (blockMeta sol) bb of
        None \<Rightarrow> seen
      | Some m \<Rightarrow> (case meta_loop m of None \<Rightarrow> seen | Some mark \<Rightarrow> insert (getHeader LI (lm_loop mark)) seen))"

definition loopIterationCharge ::
  "loop_info \<Rightarrow> block_ptr \<Rightarrow> SchematicSolution \<Rightarrow> bb_ptr set \<Rightarrow> double \<times> bb_ptr set" where
  "loopIterationCharge LI bb sol seen =
     (case map_of (blockMeta sol) bb of
        None \<Rightarrow> (0, seen)
      | Some m \<Rightarrow> (case meta_loop m of
          None \<Rightarrow> (0, seen)
        | Some mark \<Rightarrow>
            let h = getHeader LI (lm_loop mark)
            in if h \<in> seen then (0, seen)
               else (u2r (nbIter mark - 1) * costOneIt mark, insert h seen)))"

section \<open>Building the graph of disabled edges\<close>

datatype direction = Backward | Forward

fun endpoint :: "direction \<Rightarrow> CFGEdge \<Rightarrow> block_ptr" where
  "endpoint Backward e = src e"
| "endpoint Forward e = dst e"

fun neighbourEdges :: "direction \<Rightarrow> SchematicGraph \<Rightarrow> block_ptr \<Rightarrow> CFGEdge list" where
  "neighbourEdges Backward g bb = map (\<lambda>pred. CFGEdge pred bb) (predecessors g bb)"
| "neighbourEdges Forward g bb = map (\<lambda>succ. CFGEdge bb succ) (successors g bb)"

definition outsideScope :: "prop_env \<Rightarrow> block_ptr \<Rightarrow> bool" where
  "outsideScope env b \<longleftrightarrow>
     (case pe_scope env of
        None \<Rightarrow> False
      | Some L \<Rightarrow> getLLVMBlock (pe_graph env) b \<noteq> nullptr \<and>
          \<not> loopContains (pe_LI env) L (getLLVMBlock (pe_graph env) b))"

definition isBackEdge :: "prop_env \<Rightarrow> CFGEdge \<Rightarrow> bool" where
  "isBackEdge env e \<longleftrightarrow>
     (let D = getLLVMBlock (pe_graph env) (dst e); S = getLLVMBlock (pe_graph env) (src e)
      in D \<noteq> nullptr \<and>
         (case getLoopFor (pe_LI env) D of
            None \<Rightarrow> False
          | Some L \<Rightarrow> getHeader (pe_LI env) L = D \<and> S \<noteq> nullptr \<and> loopContains (pe_LI env) L S))"

text \<open>The block the walk moves to is the endpoint of the child edge: the predecessor when walking
  backward, the successor when walking forward.\<close>

definition traversable :: "prop_env \<Rightarrow> SchematicSolution \<Rightarrow> direction \<Rightarrow> CFGEdge \<Rightarrow> bool" where
  "traversable env sol dir e \<longleftrightarrow>
     isDisabledCheckpoint (pe_graph env) sol e \<and> \<not> isBackEdge env e \<and> \<not> outsideScope env (endpoint dir e)"

type_synonym edge_dag = "(CFGEdge, CFGEdge list) omap"

definition ensureNode :: "CFGEdge \<Rightarrow> edge_dag \<Rightarrow> edge_dag" where
  "ensureNode n dag = omap_put n (omap_get [] dag n) dag"

definition addDagEdge :: "CFGEdge \<Rightarrow> edge_dag \<Rightarrow> CFGEdge \<Rightarrow> edge_dag" where
  "addDagEdge n dag c =
     (let dag1 = ensureNode c dag in omap_put n (omap_get [] dag1 n @ [c]) dag1)"

definition all_edges :: "SchematicGraph \<Rightarrow> CFGEdge set" where
  "all_edges g = (\<Union>b \<in> fst ` set (graphBlocks g). set (neighbourEdges Backward g b) \<union> set (neighbourEdges Forward g b))"

lemma neighbourEdges_subset: "set (neighbourEdges dir g b) \<subseteq> all_edges g"
proof (cases "b \<in> fst ` set (graphBlocks g)")
  case True
  then show ?thesis by (cases dir) (auto simp: all_edges_def)
next
  case False
  then show ?thesis
    by (cases dir) (auto simp: predecessors_def successors_def blockAt_def omap_get_def nullBlock_def
        map_of_eq_None_iff [symmetric])
qed

lemma finite_all_edges: "finite (all_edges g)"
  by (auto simp: all_edges_def)

function buildDag ::
  "prop_env \<Rightarrow> SchematicSolution \<Rightarrow> direction \<Rightarrow> CFGEdge set \<Rightarrow> edge_dag \<Rightarrow> CFGEdge list \<Rightarrow> edge_dag" where
  "buildDag env sol dir visited dag [] = dag"
| "buildDag env sol dir visited dag (ckpt # toVisit) =
     (if ckpt \<in> visited then buildDag env sol dir visited dag toVisit
      else
        let visited' = insert ckpt visited; bb = endpoint dir ckpt
        in if bb = nullptr \<or> outsideScope env bb then buildDag env sol dir visited' dag toVisit
           else
             let children = filter (\<lambda>c. c \<notin> visited' \<and> traversable env sol dir c)
                              (neighbourEdges dir (pe_graph env) bb)
             in buildDag env sol dir visited' (foldl (addDagEdge ckpt) dag children) (toVisit @ children))"
  by pat_completeness auto
termination
proof (relation "measures [\<lambda>(env, sol, dir, v, d, q). card ((set q \<union> all_edges (pe_graph env)) - v),
      \<lambda>(env, sol, dir, v, d, q). length q]", goal_cases)
  case (2 env sol dir visited dag ckpt toVisit)
  have "card ((set toVisit \<union> all_edges (pe_graph env)) - visited)
      \<le> card ((set (ckpt # toVisit) \<union> all_edges (pe_graph env)) - visited)"
    by (intro card_mono) (auto simp: finite_all_edges)
  then show ?case by auto
next
  case (3 env sol dir visited dag ckpt toVisit v' bb)
  have "card ((set toVisit \<union> all_edges (pe_graph env)) - v')
      < card ((set (ckpt # toVisit) \<union> all_edges (pe_graph env)) - visited)"
    using 3 by (intro psubset_card_mono) (auto simp: finite_all_edges)
  then show ?case by simp
next
  case (4 env sol dir visited dag ckpt toVisit v' bb children)
  have "set children \<subseteq> all_edges (pe_graph env)"
    using 4 neighbourEdges_subset [of dir "pe_graph env" bb] by auto
  then have "card ((set (toVisit @ children) \<union> all_edges (pe_graph env)) - v')
      < card ((set (ckpt # toVisit) \<union> all_edges (pe_graph env)) - visited)"
    using 4 by (intro psubset_card_mono) (auto simp: finite_all_edges)
  then show ?case by simp
qed auto

definition seedDag :: "prop_env \<Rightarrow> SchematicSolution \<Rightarrow> direction \<Rightarrow> CFGEdge \<Rightarrow> edge_dag" where
  "seedDag env sol dir seed = buildDag env sol dir {} (ensureNode seed []) [seed]"

section \<open>Kahn's algorithm and the accumulation\<close>

definition countIncoming :: "(CFGEdge, nat) omap \<Rightarrow> CFGEdge \<times> CFGEdge list \<Rightarrow> (CFGEdge, nat) omap" where
  "countIncoming inDeg p =
     (let (node, children) = p;
          inDeg1 = (if omap_count inDeg node then inDeg else omap_put node 0 inDeg)
      in foldl (\<lambda>d c. omap_put c (Suc (omap_get 0 d c)) d) inDeg1 children)"

definition computeInDeg :: "edge_dag \<Rightarrow> (CFGEdge, nat) omap" where
  "computeInDeg dag = foldl countIncoming [] dag"

record kahn_state =
  topoQueue :: "CFGEdge list"
  k_inDeg :: "(CFGEdge, nat) omap"
  maxAcc :: "(CFGEdge, double) omap"
  seenLoops :: "bb_ptr set"
  k_sol :: SchematicSolution

definition offer :: "double \<Rightarrow> (CFGEdge, double) omap \<Rightarrow> CFGEdge \<Rightarrow> (CFGEdge, double) omap" where
  "offer cost m c =
     (case map_of m c of
        None \<Rightarrow> omap_put c cost m
      | Some v \<Rightarrow> if cost > v then omap_put c cost m else m)"

definition advance ::
  "(CFGEdge, nat) omap \<times> CFGEdge list \<Rightarrow> CFGEdge \<Rightarrow> (CFGEdge, nat) omap \<times> CFGEdge list" where
  "advance p c =
     (let (inDeg, queue) = p; d = omap_get 0 inDeg c - 1
      in (omap_put c d inDeg, if d = 0 then queue @ [c] else queue))"

definition processNode ::
  "prop_env \<Rightarrow> direction \<Rightarrow> (block_ptr \<Rightarrow> double \<Rightarrow> SchematicSolution \<Rightarrow> SchematicSolution)
     \<Rightarrow> edge_dag \<Rightarrow> CFGEdge \<Rightarrow> CFGEdge list \<Rightarrow> kahn_state \<Rightarrow> kahn_state" where
  "processNode env dir upd dag ckpt rest k =
     (let acc = omap_get 0 (maxAcc k) ckpt;
          m1 = omap_erase ckpt (maxAcc k);
          bb = endpoint dir ckpt;
          children = omap_get [] dag ckpt;
          (inDeg', queue') = foldl advance (k_inDeg k, rest) children
      in if bb = nullptr then k\<lparr>topoQueue := queue', k_inDeg := inDeg', maxAcc := m1\<rparr>
         else
           let (charge, seen') = loopIterationCharge (pe_LI env) bb (k_sol k) (seenLoops k);
               cost = acc + charge +
                 getBlockExecEnergy (pe_graph env) bb (k_sol k) (pe_cfg env) (pe_state env) (pe_params env)
           in \<lparr>topoQueue = queue', k_inDeg = inDeg', maxAcc = foldl (offer cost) m1 children,
               seenLoops = seen', k_sol = upd bb cost (k_sol k)\<rparr>)"

fun kahnLoop ::
  "prop_env \<Rightarrow> direction \<Rightarrow> (block_ptr \<Rightarrow> double \<Rightarrow> SchematicSolution \<Rightarrow> SchematicSolution)
     \<Rightarrow> edge_dag \<Rightarrow> nat \<Rightarrow> kahn_state \<Rightarrow> kahn_state option" where
  "kahnLoop env dir upd dag fuel k =
     (case topoQueue k of
        [] \<Rightarrow> Some k
      | ckpt # rest \<Rightarrow>
          (case fuel of
             0 \<Rightarrow> None
           | Suc fuel' \<Rightarrow> kahnLoop env dir upd dag fuel' (processNode env dir upd dag ckpt rest k)))"

declare kahnLoop.simps [simp del]

definition kahnInit ::
  "prop_env \<Rightarrow> direction \<Rightarrow> edge_dag \<Rightarrow> CFGEdge \<Rightarrow> double \<Rightarrow> SchematicSolution \<Rightarrow> kahn_state" where
  "kahnInit env dir dag seed start sol =
     (let inDeg = computeInDeg dag
      in \<lparr>topoQueue = map fst (filter (\<lambda>(node, deg). deg = 0) inDeg), k_inDeg = inDeg,
          maxAcc = [(seed, start)], seenLoops = markSeedLoopSeen (pe_LI env) (endpoint dir seed) sol {},
          k_sol = sol\<rparr>)"

definition propagate ::
  "prop_env \<Rightarrow> direction \<Rightarrow> (block_ptr \<Rightarrow> double \<Rightarrow> SchematicSolution \<Rightarrow> SchematicSolution)
     \<Rightarrow> CFGEdge \<Rightarrow> double \<Rightarrow> SchematicSolution \<Rightarrow> SchematicSolution option" where
  "propagate env dir upd seed start sol =
     (let dag = seedDag env sol dir seed
      in map_option k_sol (kahnLoop env dir upd dag (length dag) (kahnInit env dir dag seed start sol)))"

definition raiseEToLeave :: "block_ptr \<Rightarrow> double \<Rightarrow> SchematicSolution \<Rightarrow> SchematicSolution" where
  "raiseEToLeave bb e sol =
     (let m = metaOf sol bb in setMeta bb (if e > E_to_leave m then m\<lparr>E_to_leave := e\<rparr> else m) sol)"

definition lowerELeft :: "double \<Rightarrow> block_ptr \<Rightarrow> double \<Rightarrow> SchematicSolution \<Rightarrow> SchematicSolution" where
  "lowerELeft seedELeft bb cost sol =
     (let m = metaOf sol bb; energyLeft = seedELeft - cost
      in setMeta bb (if energyLeft < E_left m then m\<lparr>E_left := energyLeft\<rparr> else m) sol)"

text \<open>The two entry points. The loop always returns (\<open>kahn_returns\<close>), so the second case of each is
  never taken.\<close>

definition propagateEnergyToLeave :: "prop_env \<Rightarrow> CFGEdge \<Rightarrow> double \<Rightarrow> SchematicSolution \<Rightarrow> SchematicSolution" where
  "propagateEnergyToLeave env seed seedEToLeave sol =
     (case propagate env Backward raiseEToLeave seed seedEToLeave sol of Some sol' \<Rightarrow> sol' | None \<Rightarrow> sol)"

definition propagateEnergyLeft :: "prop_env \<Rightarrow> CFGEdge \<Rightarrow> double \<Rightarrow> SchematicSolution \<Rightarrow> SchematicSolution" where
  "propagateEnergyLeft env seed seedELeft sol =
     (case propagate env Forward (lowerELeft seedELeft) seed 0 sol of Some sol' \<Rightarrow> sol' | None \<Rightarrow> sol)"


section \<open>The graph is acyclic\<close>

abbreviation (input) dag_children :: "edge_dag \<Rightarrow> CFGEdge \<Rightarrow> CFGEdge list" where
  "dag_children dag n \<equiv> omap_get [] dag n"

definition dag_edges :: "edge_dag \<Rightarrow> (CFGEdge \<times> CFGEdge) set" where
  "dag_edges dag = {(n, c). c \<in> set (omap_get [] dag n)}"

definition dag_nodes :: "edge_dag \<Rightarrow> CFGEdge set" where
  "dag_nodes dag = dom (map_of dag)"

lemma ensureNode_simps [simp]:
  "omap_get [] (ensureNode c dag) = omap_get [] dag" "dag_nodes (ensureNode c dag) = insert c (dag_nodes dag)"
  "omap_wf dag \<Longrightarrow> omap_wf (ensureNode c dag)" "dag_edges (ensureNode c dag) = dag_edges dag"
  by (auto simp: ensureNode_def dag_nodes_def dag_edges_def fun_eq_iff omap_wf_put split: if_splits)

lemma addDagEdges_simps:
  "dag_nodes (foldl (addDagEdge n) dag cs) = dag_nodes dag \<union> set cs \<union> (if cs = [] then {} else {n})"
  "dag_edges (foldl (addDagEdge n) dag cs) = dag_edges dag \<union> {n} \<times> set cs"
  "omap_wf dag \<Longrightarrow> omap_wf (foldl (addDagEdge n) dag cs)"
proof -
  have one: "dag_nodes (addDagEdge n dag c) = insert n (insert c (dag_nodes dag))"
      "dag_edges (addDagEdge n dag c) = insert (n, c) (dag_edges dag)"
      "omap_wf dag \<Longrightarrow> omap_wf (addDagEdge n dag c)" for c dag
    by (auto simp: addDagEdge_def Let_def dag_edges_def dag_nodes_def ensureNode_def omap_wf_put split: if_splits)
  show "dag_nodes (foldl (addDagEdge n) dag cs) = dag_nodes dag \<union> set cs \<union> (if cs = [] then {} else {n})"
    by (induction cs arbitrary: dag) (auto simp: one)
  show "dag_edges (foldl (addDagEdge n) dag cs) = dag_edges dag \<union> {n} \<times> set cs"
    by (induction cs arbitrary: dag) (auto simp: one)
  show "omap_wf dag \<Longrightarrow> omap_wf (foldl (addDagEdge n) dag cs)"
    by (induction cs arbitrary: dag) (auto simp: one)
qed

text \<open>Invariant of the walk: an edge of the graph leaves a visited node, towards a node that is
  visited later or waits in the queue.\<close>

definition walk_inv :: "prop_env \<Rightarrow> SchematicSolution \<Rightarrow> direction \<Rightarrow> CFGEdge \<Rightarrow> CFGEdge set \<Rightarrow> edge_dag \<Rightarrow> CFGEdge list \<Rightarrow> bool" where
  "walk_inv env sol dir seed visited dag queue \<longleftrightarrow>
     omap_wf dag \<and> finite visited \<and> dag_nodes dag \<subseteq> visited \<union> set queue \<and> visited \<union> set queue \<subseteq> dag_nodes dag \<and>
     seed \<in> dag_nodes dag \<and>
     (\<forall>(n, c) \<in> dag_edges dag. c \<in> dag_nodes dag \<and> endpoint dir n \<noteq> nullptr \<and> traversable env sol dir c \<and>
        c \<in> set (neighbourEdges dir (pe_graph env) (endpoint dir n))) \<and>
     (\<exists>rank. (\<forall>v \<in> visited. rank v < card visited) \<and>
        (\<forall>(n, c) \<in> dag_edges dag. n \<in> visited \<and> (c \<in> visited \<longrightarrow> rank n < rank c)))"

lemma walk_inv_visit:
  assumes inv: "walk_inv env sol dir seed visited dag (ckpt # queue)" and "ckpt \<notin> visited"
    and cs: "set cs \<inter> insert ckpt visited = {}" "\<forall>c \<in> set cs. traversable env sol dir c \<and> c \<in> set (neighbourEdges dir (pe_graph env) (endpoint dir ckpt))"
    and "cs \<noteq> [] \<longrightarrow> endpoint dir ckpt \<noteq> nullptr"
  shows "walk_inv env sol dir seed (insert ckpt visited) (foldl (addDagEdge ckpt) dag cs) (queue @ cs)"
proof -
  from inv obtain rank where r: "\<forall>v \<in> visited. rank v < card visited"
      "\<forall>(n, c) \<in> dag_edges dag. n \<in> visited \<and> (c \<in> visited \<longrightarrow> rank n < rank c)"
    by (auto simp: walk_inv_def)
  define rank' where "rank' = rank(ckpt := card visited)"
  have fin: "finite visited" using inv by (simp add: walk_inv_def)
  have "\<forall>v \<in> insert ckpt visited. rank' v < card (insert ckpt visited)"
    using r(1) assms(2) fin by (auto simp: rank'_def less_Suc_eq)
  moreover have "n \<in> insert ckpt visited \<and> (c \<in> insert ckpt visited \<longrightarrow> rank' n < rank' c)"
    if "(n, c) \<in> dag_edges dag \<union> {ckpt} \<times> set cs" for n c
  proof (cases "(n, c) \<in> dag_edges dag")
    case True
    with r have "n \<in> visited" "c \<in> visited \<Longrightarrow> rank n < rank c" "rank n < card visited" by auto
    with assms(2) show ?thesis by (auto simp: rank'_def)
  next
    case False
    with that cs(1) show ?thesis by auto
  qed
  ultimately have "\<exists>rank. (\<forall>v \<in> insert ckpt visited. rank v < card (insert ckpt visited)) \<and>
      (\<forall>(n, c) \<in> dag_edges dag \<union> {ckpt} \<times> set cs. n \<in> insert ckpt visited \<and> (c \<in> insert ckpt visited \<longrightarrow> rank n < rank c))"
    by (intro exI [of _ rank']) auto
  with inv assms(2-) show ?thesis
    unfolding walk_inv_def by (auto simp: addDagEdges_simps)
qed

lemma buildDag_inv:
  "walk_inv env sol dir seed visited dag queue \<Longrightarrow>
   \<exists>visited'. walk_inv env sol dir seed visited' (buildDag env sol dir visited dag queue) []"
proof (induction env sol dir visited dag queue rule: buildDag.induct)
  case (2 env sol dir visited dag ckpt queue)
  show ?case
  proof (cases "ckpt \<in> visited")
    case True
    with "2.prems" have "walk_inv env sol dir seed visited dag queue"
      by (auto simp: walk_inv_def)
    with True "2.IH"(1) show ?thesis by simp
  next
    case False
    show ?thesis
    proof (cases "endpoint dir ckpt = nullptr \<or> outsideScope env (endpoint dir ckpt)")
      case skip: True
      from walk_inv_visit [OF "2.prems" False, of "[]"]
      have "walk_inv env sol dir seed (insert ckpt visited) dag queue" by simp
      with skip False "2.IH"(2) show ?thesis by simp
    next
      case expand: False
      let ?cs = "filter (\<lambda>c. c \<notin> insert ckpt visited \<and> traversable env sol dir c)
        (neighbourEdges dir (pe_graph env) (endpoint dir ckpt))"
      have "walk_inv env sol dir seed (insert ckpt visited) (foldl (addDagEdge ckpt) dag ?cs) (queue @ ?cs)"
        by (rule walk_inv_visit [OF "2.prems" False]) (use expand in auto)
      with expand False "2.IH"(3) show ?thesis by (simp add: Let_def)
    qed
  qed
qed auto

definition dag_ok :: "edge_dag \<Rightarrow> bool" where
  "dag_ok dag \<longleftrightarrow> omap_wf dag \<and> (\<forall>(n, c) \<in> dag_edges dag. c \<in> dag_nodes dag) \<and>
     (\<exists>rank :: CFGEdge \<Rightarrow> nat. \<forall>(n, c) \<in> dag_edges dag. rank n < rank c)"

lemma seedDag_walk: "\<exists>visited. walk_inv env sol dir seed visited (seedDag env sol dir seed) []"
  unfolding seedDag_def
  by (rule buildDag_inv) (auto simp: walk_inv_def dag_edges_def dag_nodes_def ensureNode_def omap_get_def omap_wf_def
      split: if_splits)

lemma seedDag_ok: "dag_ok (seedDag env sol dir seed)"
proof -
  obtain v where "walk_inv env sol dir seed v (seedDag env sol dir seed) []" using seedDag_walk by blast
  then show ?thesis unfolding walk_inv_def dag_ok_def by (fastforce split: prod.splits)
qed

lemma seedDag_edges:
  assumes "(n, c) \<in> dag_edges (seedDag env sol dir seed)"
  shows "endpoint dir n \<noteq> nullptr \<and> traversable env sol dir c \<and>
     c \<in> set (neighbourEdges dir (pe_graph env) (endpoint dir n))"
proof -
  obtain v where "walk_inv env sol dir seed v (seedDag env sol dir seed) []" using seedDag_walk by blast
  with assms show ?thesis unfolding walk_inv_def by fastforce
qed

lemma seed_in_seedDag: "seed \<in> dag_nodes (seedDag env sol dir seed)"
proof -
  obtain v where "walk_inv env sol dir seed v (seedDag env sol dir seed) []" using seedDag_walk by blast
  then show ?thesis by (simp add: walk_inv_def)
qed


section \<open>Kahn's algorithm processes every node\<close>

definition incoming :: "edge_dag \<Rightarrow> CFGEdge set \<Rightarrow> CFGEdge \<Rightarrow> nat" where
  "incoming dag P c = (\<Sum>n \<in> dag_nodes dag - P. count_list (omap_get [] dag n) c)"

lemma finite_dag_nodes [simp]: "finite (dag_nodes dag)"
  by (simp add: dag_nodes_def finite_dom_map_of)

lemma dag_edge_source: "(n, c) \<in> dag_edges dag \<Longrightarrow> n \<in> dag_nodes dag"
  by (cases "map_of dag n") (auto simp: dag_edges_def dag_nodes_def omap_get_def)

lemma incoming_zero_iff: "incoming dag P c = 0 \<longleftrightarrow> (\<forall>n \<in> dag_nodes dag - P. (n, c) \<notin> dag_edges dag)"
  by (simp add: incoming_def dag_edges_def count_list_0_iff)

lemma incoming_insert:
  assumes "n \<in> dag_nodes dag - P"
  shows "incoming dag P c = count_list (omap_get [] dag n) c + incoming dag (insert n P) c"
  unfolding incoming_def using assms sum.remove [of "dag_nodes dag - P" n]
  by (simp flip: Diff_insert)

lemma get_foldl_incr:
  "omap_get 0 (foldl (\<lambda>d c. omap_put c (Suc (omap_get 0 d c)) d) d cs) c = omap_get 0 d c + count_list cs c"
  by (induction cs arbitrary: d) auto

lemma dom_foldl_incr:
  "dom (map_of (foldl (\<lambda>d c. omap_put c (Suc (omap_get 0 d c)) d) d cs)) = dom (map_of d) \<union> set cs"
  by (induction cs arbitrary: d) auto

lemma wf_foldl_incr: "omap_wf d \<Longrightarrow> omap_wf (foldl (\<lambda>d c. omap_put c (Suc (omap_get 0 d c)) d) d cs)"
  by (induction cs arbitrary: d) auto

lemma omap_get_ensure: "omap_get 0 (if omap_count d n then d else omap_put n 0 d) c = omap_get 0 d c"
  by (auto simp: omap_count_def omap_get_def split: option.splits)

lemma countIncoming_simps:
  "omap_get 0 (countIncoming d (n, cs)) c = omap_get 0 d c + count_list cs c"
  "dom (map_of (countIncoming d (n, cs))) = insert n (dom (map_of d)) \<union> set cs"
  "omap_wf d \<Longrightarrow> omap_wf (countIncoming d (n, cs))"
proof -
  show "omap_get 0 (countIncoming d (n, cs)) c = omap_get 0 d c + count_list cs c"
    by (simp only: countIncoming_def Let_def prod.case get_foldl_incr omap_get_ensure)
  show "dom (map_of (countIncoming d (n, cs))) = insert n (dom (map_of d)) \<union> set cs"
    by (auto simp: countIncoming_def Let_def dom_foldl_incr omap_count_def)
  show "omap_wf d \<Longrightarrow> omap_wf (countIncoming d (n, cs))"
    by (auto simp: countIncoming_def Let_def intro: wf_foldl_incr)
qed

lemma foldl_countIncoming:
  "omap_get 0 (foldl countIncoming d ps) c = omap_get 0 d c + (\<Sum>(n, cs) \<leftarrow> ps. count_list cs c)"
  "dom (map_of (foldl countIncoming d ps)) = dom (map_of d) \<union> fst ` set ps \<union> (\<Union>p \<in> set ps. set (snd p))"
  "omap_wf d \<Longrightarrow> omap_wf (foldl countIncoming d ps)"
proof (induction ps arbitrary: d)
  case (Cons p ps)
  {
    case 1
    show ?case using Cons(1) by (cases p) (simp add: countIncoming_simps)
  next
    case 2
    show ?case using Cons(2) by (cases p) (simp add: countIncoming_simps, blast)
  next
    case 3
    then show ?case using Cons(3) by (cases p) (simp add: countIncoming_simps)
  }
qed simp_all

lemma children_of_entry: "omap_wf dag \<Longrightarrow> (n, cs) \<in> set dag \<Longrightarrow> omap_get [] dag n = cs"
  by (simp add: omap_get_def omap_wf_map_of_eq)

lemma computeInDeg_incoming:
  assumes "dag_ok dag"
  shows "omap_get 0 (computeInDeg dag) c = incoming dag {} c" "dom (map_of (computeInDeg dag)) = dag_nodes dag"
    "omap_wf (computeInDeg dag)"
proof -
  have wf: "omap_wf dag" using assms by (simp add: dag_ok_def)
  have keys: "dag_nodes dag = fst ` set dag" by (simp add: dag_nodes_def dom_map_of_conv_image_fst)
  have "(\<Sum>(n, cs) \<leftarrow> dag. count_list cs c) = (\<Sum>n \<leftarrow> map fst dag. count_list (omap_get [] dag n) c)"
    using wf by (auto simp: comp_def intro!: arg_cong [of _ _ sum_list] map_cong dest: children_of_entry)
  also have "\<dots> = incoming dag {} c"
    using omap_wf_distinct [OF wf] by (simp add: sum_list_distinct_conv_sum_set incoming_def keys del: map_map)
  finally show "omap_get 0 (computeInDeg dag) c = incoming dag {} c"
    by (simp add: computeInDeg_def foldl_countIncoming)
  have "set (snd p) \<subseteq> dag_nodes dag" if "p \<in> set dag" for p
  proof
    fix c
    assume "c \<in> set (snd p)"
    with that children_of_entry [OF wf, of "fst p" "snd p"] have "(fst p, c) \<in> dag_edges dag"
      by (simp add: dag_edges_def)
    with assms show "c \<in> dag_nodes dag" by (auto simp: dag_ok_def)
  qed
  then show "dom (map_of (computeInDeg dag)) = dag_nodes dag"
    by (auto simp: computeInDeg_def foldl_countIncoming keys)
  show "omap_wf (computeInDeg dag)"
    by (simp add: computeInDeg_def foldl_countIncoming)
qed

lemma foldl_advance:
  assumes "\<forall>c. count_list cs c \<le> omap_get 0 d c"
  shows "\<exists>news. snd (foldl advance (d, q) cs) = q @ news \<and> distinct news \<and>
      set news = {c \<in> set cs. omap_get 0 d c = count_list cs c} \<and>
      (\<forall>c. omap_get 0 (fst (foldl advance (d, q) cs)) c = omap_get 0 d c - count_list cs c)"
  using assms
proof (induction cs arbitrary: d q)
  case (Cons x cs)
  define d1 where "d1 = omap_put x (omap_get 0 d x - 1) d"
  have x: "Suc (count_list cs x) \<le> omap_get 0 d x" using Cons.prems [rule_format, of x] by simp
  have le: "\<forall>c. count_list cs c \<le> omap_get 0 d1 c"
    using Cons.prems x by (auto simp: d1_def split: if_splits)
  define q1 where "q1 = (if omap_get 0 d x - 1 = 0 then q @ [x] else q)"
  have step: "advance (d, q) x = (d1, q1)"
    by (simp add: advance_def d1_def q1_def Let_def)
  from Cons.IH [OF le, of q1] obtain news where n: "snd (foldl advance (d1, q1) cs) = q1 @ news" "distinct news"
      "set news = {c \<in> set cs. omap_get 0 d1 c = count_list cs c}"
      "\<forall>c. omap_get 0 (fst (foldl advance (d1, q1) cs)) c = omap_get 0 d1 c - count_list cs c" by blast
  have fst_part: "\<forall>c. omap_get 0 (fst (foldl advance (d, q) (x # cs))) c = omap_get 0 d c - count_list (x # cs) c"
    using n(4) by (auto simp: step d1_def)
  have other: "omap_get 0 d1 c = omap_get 0 d c" if "c \<noteq> x" for c
    using that by (simp add: d1_def)
  show ?case
  proof (cases "omap_get 0 d x = 1")
    case True
    with x have x0: "x \<notin> set cs" by (simp add: count_list_0_iff [symmetric])
    have q: "snd (foldl advance (d, q) (x # cs)) = q @ x # news" using n(1) True by (simp add: step q1_def)
    have "set (x # news) = {c \<in> set (x # cs). omap_get 0 d c = count_list (x # cs) c}"
      using n(3) other x0 True by (auto simp: count_notin)
    moreover have "distinct (x # news)" using n(2,3) x0 by simp
    ultimately show ?thesis using q fst_part by blast
  next
    case False
    have q: "snd (foldl advance (d, q) (x # cs)) = q @ news" using n(1) False x by (simp add: step q1_def)
    have "omap_get 0 d x = Suc (count_list cs x) \<Longrightarrow> x \<in> set cs"
      using False by (metis One_nat_def count_notin)
    moreover have "omap_get 0 d1 x = omap_get 0 d x - 1" by (simp add: d1_def)
    ultimately have "set news = {c \<in> set (x # cs). omap_get 0 d c = count_list (x # cs) c}"
      using n(3) other x by force
    with n(2) q fst_part show ?thesis by blast
  qed
qed simp


fun dag_path :: "edge_dag \<Rightarrow> CFGEdge \<Rightarrow> CFGEdge list \<Rightarrow> bool" where
  "dag_path dag n [] \<longleftrightarrow> True"
| "dag_path dag n (c # cs) \<longleftrightarrow> (n, c) \<in> dag_edges dag \<and> dag_path dag c cs"

lemma dag_path_total:
  assumes "dag_path dag n es"
    and "\<forall>(n, c) \<in> dag_edges dag. tot n + f c \<le> tot c"
  shows "tot n + sum_list (map f es) \<le> (tot (last (n # es)) :: double)"
  using assms(1)
proof (induction es arbitrary: n)
  case (Cons c es)
  then have "tot n + f c \<le> tot c" using assms(2) by auto
  moreover have "tot c + sum_list (map f es) \<le> tot (last (c # es))" using Cons by simp
  ultimately show ?case by simp
qed simp

lemma dag_path_node: "dag_ok dag \<Longrightarrow> n \<in> dag_nodes dag \<Longrightarrow> dag_path dag n es \<Longrightarrow> last (n # es) \<in> dag_nodes dag"
  by (induction es arbitrary: n) (auto simp: dag_ok_def)

section \<open>One law for both directions\<close>

text \<open>What the walk needs of the metadata update of a direction: \<open>le\<close> relates a solution to its later
  versions, \<open>reached sol b c\<close> says that the metadata of block \<open>b\<close> accounts for an accumulated energy of
  at least \<open>c\<close>.\<close>

locale energy_update =
  fixes upd :: "block_ptr \<Rightarrow> double \<Rightarrow> SchematicSolution \<Rightarrow> SchematicSolution"
    and le :: "SchematicSolution \<Rightarrow> SchematicSolution \<Rightarrow> bool"
    and reached :: "SchematicSolution \<Rightarrow> block_ptr \<Rightarrow> double \<Rightarrow> bool"
  assumes le_refl: "le sol sol"
    and le_trans: "le sol1 sol2 \<Longrightarrow> le sol2 sol3 \<Longrightarrow> le sol1 sol3"
    and le_upd: "le sol (upd b c sol)"
    and reached_upd: "reached (upd b c sol) b c"
    and reached_le: "reached sol b c \<Longrightarrow> le sol sol' \<Longrightarrow> reached sol' b c"
    and reached_less: "reached sol b c \<Longrightarrow> c' \<le> c \<Longrightarrow> reached sol b c'"
    and le_placements: "le sol sol' \<Longrightarrow> decidedPlacements sol' = decidedPlacements sol"
    and le_loop: "le sol sol' \<Longrightarrow> meta_loop (metaOf sol' b) = meta_loop (metaOf sol b)"

definition exec_of :: "prop_env \<Rightarrow> SchematicSolution \<Rightarrow> block_ptr \<Rightarrow> double" where
  "exec_of env sol b =
     (if b = nullptr then 0
      else getBlockExecEnergy (pe_graph env) b sol (pe_cfg env) (pe_state env) (pe_params env))"

definition loop_marks_nonneg :: "SchematicSolution \<Rightarrow> bool" where
  "loop_marks_nonneg sol \<longleftrightarrow>
     (\<forall>(b, m) \<in> set (blockMeta sol). case meta_loop m of None \<Rightarrow> True | Some mark \<Rightarrow> 0 \<le> costOneIt mark)"

lemma loop_marks_nonnegD: "loop_marks_nonneg sol \<Longrightarrow> meta_loop (metaOf sol b) = Some mark \<Longrightarrow> 0 \<le> costOneIt mark"
  by (fastforce simp: loop_marks_nonneg_def metaOf_def omap_get_def defaultMetadata_def split: option.splits
      dest: map_of_SomeD)

lemma u32_real_nonneg: "0 \<le> (unsigned (x :: u32) :: real)"
  using of_nat_0_le_iff [of "unat x", where 'a = real] by simp

lemma loopIterationCharge_nonneg:
  assumes "\<And>mark. meta_loop (metaOf sol b) = Some mark \<Longrightarrow> 0 \<le> costOneIt mark"
  shows "0 \<le> fst (loopIterationCharge LI b sol seen)"
  using assms by (auto simp: loopIterationCharge_def metaOf_def omap_get_def Let_def u32_real_nonneg split: option.splits)

lemma getBlockExecEnergy_placements:
  "decidedPlacements sol' = decidedPlacements sol \<Longrightarrow> getBlockExecEnergy g b sol' cfg st ps = getBlockExecEnergy g b sol cfg st ps"
  unfolding getBlockExecEnergy_def by (erule ssubst) (rule refl)

lemma foldl_offer:
  "map_of (foldl (offer cost) m cs) c =
     (if c \<in> set cs then Some (case map_of m c of None \<Rightarrow> cost | Some v \<Rightarrow> max cost v) else map_of m c)"
  by (induction cs arbitrary: m) (auto simp: offer_def max_def split: option.splits if_splits)

context energy_update
begin

definition kahn_inv ::
  "prop_env \<Rightarrow> direction \<Rightarrow> edge_dag \<Rightarrow> CFGEdge \<Rightarrow> double \<Rightarrow> SchematicSolution \<Rightarrow> CFGEdge set
     \<Rightarrow> (CFGEdge \<Rightarrow> double) \<Rightarrow> kahn_state \<Rightarrow> bool" where
  "kahn_inv env dir dag seed start sol0 P tot k \<longleftrightarrow>
     P \<subseteq> dag_nodes dag \<and> (\<forall>n \<in> P. incoming dag P n = 0) \<and>
     (\<forall>c. omap_get 0 (k_inDeg k) c = incoming dag P c) \<and>
     distinct (topoQueue k) \<and> set (topoQueue k) = {n \<in> dag_nodes dag - P. incoming dag P n = 0} \<and>
     le sol0 (k_sol k) \<and>
     (\<forall>n \<in> P. endpoint dir n \<noteq> nullptr \<longrightarrow> reached (k_sol k) (endpoint dir n) (tot n)) \<and>
     (\<forall>(n, c) \<in> dag_edges dag. n \<in> P \<longrightarrow>
        (if c \<in> P then loop_marks_nonneg sol0 \<longrightarrow> tot n + exec_of env sol0 (endpoint dir c) \<le> tot c
         else \<exists>v. map_of (maxAcc k) c = Some v \<and> tot n \<le> v)) \<and>
     (if seed \<in> P then loop_marks_nonneg sol0 \<longrightarrow> start + exec_of env sol0 (endpoint dir seed) \<le> tot seed
      else \<exists>v. map_of (maxAcc k) seed = Some v \<and> start \<le> v)"

lemma kahn_inv_init:
  assumes "dag_ok dag"
  shows "kahn_inv env dir dag seed start sol {} tot (kahnInit env dir dag seed start sol)"
proof -
  note deg = computeInDeg_incoming [OF assms]
  have "distinct (map fst (filter (\<lambda>(node, d). d = 0) (computeInDeg dag)))"
    using omap_wf_distinct [OF deg(3)] by (simp add: distinct_map_filter)
  moreover have "n \<in> fst ` set (filter (\<lambda>(node, d). d = 0) (computeInDeg dag)) \<longleftrightarrow>
      n \<in> dag_nodes dag \<and> incoming dag {} n = 0" for n
  proof -
    have "n \<in> fst ` set (filter (\<lambda>(node, d). d = 0) (computeInDeg dag)) \<longleftrightarrow> map_of (computeInDeg dag) n = Some 0"
      using omap_wf_distinct [OF deg(3)] by (force simp: map_of_eq_Some_iff)
    also have "\<dots> \<longleftrightarrow> n \<in> dag_nodes dag \<and> incoming dag {} n = 0"
      unfolding deg(2) [symmetric] deg(1) [symmetric] by (auto simp: omap_get_def)
    finally show ?thesis .
  qed
  ultimately show ?thesis
    by (auto simp: kahn_inv_def kahnInit_def Let_def deg(1) le_refl)
qed


text \<open>What one iteration does to the graph's bookkeeping.\<close>

lemma processNode_queue:
  assumes inv: "kahn_inv env dir dag seed start sol0 P tot k" and q: "topoQueue k = n # rest" and "dag_ok dag"
    and k'_def: "k' = processNode env dir upd dag n rest k"
  shows "n \<in> dag_nodes dag - P \<and> incoming dag P n = 0 \<and>
    (\<forall>c. omap_get 0 (k_inDeg k') c = incoming dag (insert n P) c) \<and> distinct (topoQueue k') \<and>
    set (topoQueue k') = {m \<in> dag_nodes dag - insert n P. incoming dag (insert n P) m = 0}"
proof -
  let ?cs = "omap_get [] dag n"
  have n: "n \<in> dag_nodes dag - P" "incoming dag P n = 0" using inv q by (auto simp: kahn_inv_def)
  have deg: "omap_get 0 (k_inDeg k) c = count_list ?cs c + incoming dag (insert n P) c" for c
    using inv incoming_insert [OF n(1)] by (simp add: kahn_inv_def)
  then obtain news where a: "snd (foldl advance (k_inDeg k, rest) ?cs) = rest @ news" "distinct news"
      "set news = {c \<in> set ?cs. omap_get 0 (k_inDeg k) c = count_list ?cs c}"
      "\<forall>c. omap_get 0 (fst (foldl advance (k_inDeg k, rest) ?cs)) c = omap_get 0 (k_inDeg k) c - count_list ?cs c"
    using foldl_advance [of ?cs "k_inDeg k" rest] by auto
  have k': "topoQueue k' = rest @ news" "k_inDeg k' = fst (foldl advance (k_inDeg k, rest) ?cs)"
    using a(1) by (auto simp: k'_def processNode_def Let_def split: prod.splits)
  have rest: "set rest = {m \<in> dag_nodes dag - insert n P. incoming dag P m = 0}" "distinct rest"
    using inv q by (auto simp: kahn_inv_def)
  have news: "set news = {c \<in> set ?cs. incoming dag (insert n P) c = 0}"
    using a(3) deg by auto
  have edge: "(n, c) \<in> dag_edges dag" if "c \<in> set ?cs" for c using that by (simp add: dag_edges_def)
  have nonzero: "incoming dag P c \<noteq> 0" if "c \<in> set ?cs" for c
    using n(1) edge [OF that] by (auto simp: incoming_zero_iff)
  have disj: "set rest \<inter> set news = {}" using news rest(1) nonzero by blast
  have sub: "c \<in> dag_nodes dag - insert n P" if "c \<in> set ?cs" for c
    using nonzero [OF that] n(2) edge [OF that] inv \<open>dag_ok dag\<close> by (auto simp: kahn_inv_def dag_ok_def)
  have split: "incoming dag (insert n P) m = 0 \<longleftrightarrow> incoming dag P m = 0 \<or> (m \<in> set ?cs \<and> incoming dag (insert n P) m = 0)" for m
    using incoming_insert [OF n(1), of m] by (cases "m \<in> set ?cs") auto
  have "set (rest @ news) = {m \<in> dag_nodes dag - insert n P. incoming dag (insert n P) m = 0}"
  proof (intro set_eqI iffI)
    show "m \<in> {m \<in> dag_nodes dag - insert n P. incoming dag (insert n P) m = 0}" if "m \<in> set (rest @ news)" for m
      using that rest(1) news sub split [of m] by auto
    show "m \<in> set (rest @ news)" if "m \<in> {m \<in> dag_nodes dag - insert n P. incoming dag (insert n P) m = 0}" for m
      using that rest(1) news split [of m] by auto
  qed
  then show ?thesis
    using n a(2,4) rest(2) disj deg by (auto simp: k')
qed

text \<open>What it does to the energies: the node's total is its accumulated energy plus a non-negative loop
  charge plus the block's energy, the metadata accounts for it, and it is offered to the children.\<close>

lemma processNode_energy:
  assumes k': "k' = processNode env dir upd dag n rest k" and le: "le sol0 (k_sol k)"
  shows "\<exists>cost. (loop_marks_nonneg sol0 \<longrightarrow> omap_get 0 (maxAcc k) n + exec_of env sol0 (endpoint dir n) \<le> cost) \<and> le sol0 (k_sol k') \<and>
    le (k_sol k) (k_sol k') \<and> (endpoint dir n \<noteq> nullptr \<longrightarrow> reached (k_sol k') (endpoint dir n) cost) \<and>
    (\<forall>c. c \<noteq> n \<longrightarrow> map_of (maxAcc k') c =
       (if endpoint dir n \<noteq> nullptr \<and> c \<in> set (omap_get [] dag n)
        then Some (case map_of (maxAcc k) c of None \<Rightarrow> cost | Some v \<Rightarrow> max cost v) else map_of (maxAcc k) c))"
proof (cases "endpoint dir n = nullptr")
  case True
  then show ?thesis
    using le by (auto simp: k' processNode_def Let_def exec_of_def le_refl split: prod.splits)
next
  case False
  let ?b = "endpoint dir n"
  obtain charge seen where ch: "loopIterationCharge (pe_LI env) ?b (k_sol k) (seenLoops k) = (charge, seen)"
    by (cases "loopIterationCharge (pe_LI env) ?b (k_sol k) (seenLoops k)")
  have "loop_marks_nonneg sol0 \<Longrightarrow> 0 \<le> charge"
    using loopIterationCharge_nonneg [of "k_sol k" ?b "pe_LI env" "seenLoops k"] loop_marks_nonnegD [of sol0 ?b] le_loop [OF le] ch
    by simp
  moreover have ex: "getBlockExecEnergy (pe_graph env) ?b (k_sol k) (pe_cfg env) (pe_state env) (pe_params env) = exec_of env sol0 ?b"
    using getBlockExecEnergy_placements [OF le_placements [OF le]] False by (simp add: exec_of_def)
  ultimately show ?thesis
    using False le_upd reached_upd le_trans [OF le le_upd]
    by (intro exI [of _ "omap_get 0 (maxAcc k) n + charge + exec_of env sol0 ?b"])
      (simp add: k' processNode_def ch ex foldl_offer case_prod_unfold Let_def)
qed


lemma kahn_step:
  assumes inv: "kahn_inv env dir dag seed start sol0 P tot k" and q: "topoQueue k = n # rest" and ok: "dag_ok dag"
    and nonnull: "\<forall>(n, c) \<in> dag_edges dag. endpoint dir n \<noteq> nullptr"
  shows "\<exists>tot'. kahn_inv env dir dag seed start sol0 (insert n P) tot' (processNode env dir upd dag n rest k) \<and> n \<in> dag_nodes dag - P"
proof -
  let ?k = "processNode env dir upd dag n rest k"
  note Q = processNode_queue [OF inv q ok refl]
  have le: "le sol0 (k_sol k)" using inv by (simp add: kahn_inv_def)
  obtain cost where cost: "loop_marks_nonneg sol0 \<Longrightarrow> omap_get 0 (maxAcc k) n + exec_of env sol0 (endpoint dir n) \<le> cost" "le sol0 (k_sol ?k)"
      "le (k_sol k) (k_sol ?k)" "endpoint dir n \<noteq> nullptr \<Longrightarrow> reached (k_sol ?k) (endpoint dir n) cost"
    and acc: "\<And>c. c \<noteq> n \<Longrightarrow> map_of (maxAcc ?k) c =
       (if endpoint dir n \<noteq> nullptr \<and> c \<in> set (omap_get [] dag n)
        then Some (case map_of (maxAcc k) c of None \<Rightarrow> cost | Some v \<Rightarrow> max cost v) else map_of (maxAcc k) c)"
    using processNode_energy [OF refl le, where env = env and dir = dir and dag = dag and n = n and rest = rest]
    by auto
  define tot' where "tot' = tot(n := cost)"
  have nP: "n \<in> dag_nodes dag" "n \<notin> P" "incoming dag P n = 0" using Q by auto
  have mono: "\<exists>v'. map_of (maxAcc ?k) c = Some v' \<and> v \<le> v'" if "c \<noteq> n" "map_of (maxAcc k) c = Some v" for c v
    using acc [OF that(1)] that(2) by auto
  have no_in: "m \<in> P" if "(m, n) \<in> dag_edges dag" for m
    using nP(3) that dag_edge_source [OF that] by (auto simp: incoming_zero_iff)
  have child_new: "c \<notin> P" if "(n, c) \<in> dag_edges dag" for c
    using inv nP that by (auto simp: kahn_inv_def incoming_zero_iff)
  have get_n: "v \<le> omap_get 0 (maxAcc k) n" if "map_of (maxAcc k) n = Some v" for v
    using that by (simp add: omap_get_def)
  have edges: "if c \<in> insert n P then loop_marks_nonneg sol0 \<longrightarrow> tot' m + exec_of env sol0 (endpoint dir c) \<le> tot' c
      else \<exists>v. map_of (maxAcc ?k) c = Some v \<and> tot' m \<le> v"
    if e: "(m, c) \<in> dag_edges dag" "m \<in> insert n P" for m c
  proof (cases "m = n")
    case True
    with e child_new no_in nP(2) have "c \<notin> insert n P" by auto
    moreover have "endpoint dir n \<noteq> nullptr" "c \<in> set (omap_get [] dag n)"
      using nonnull e True by (auto simp: dag_edges_def)
    ultimately show ?thesis using acc [of c] True by (auto simp: tot'_def split: option.splits)
  next
    case False
    with e inv have old: "if c \<in> P then loop_marks_nonneg sol0 \<longrightarrow> tot m + exec_of env sol0 (endpoint dir c) \<le> tot c
        else \<exists>v. map_of (maxAcc k) c = Some v \<and> tot m \<le> v" by (auto simp: kahn_inv_def)
    show ?thesis
    proof (cases "c = n")
      case True
      with old nP(2) obtain v where "map_of (maxAcc k) n = Some v" "tot m \<le> v" by auto
      with get_n [of v] cost(1) True False show ?thesis by (auto simp: tot'_def)
    next
      case cn: False
      show ?thesis
      proof (cases "c \<in> P")
        case True
        with old cn False show ?thesis by (simp add: tot'_def)
      next
        case cP: False
        with old obtain v where "map_of (maxAcc k) c = Some v" "tot m \<le> v" by auto
        with mono [OF cn] cP cn False show ?thesis by (fastforce simp: tot'_def)
      qed
    qed
  qed
  have seed: "if seed \<in> insert n P then loop_marks_nonneg sol0 \<longrightarrow> start + exec_of env sol0 (endpoint dir seed) \<le> tot' seed
      else \<exists>v. map_of (maxAcc ?k) seed = Some v \<and> start \<le> v"
  proof (cases "seed = n")
    case True
    with inv nP(2) obtain v where "map_of (maxAcc k) n = Some v" "start \<le> v" by (auto simp: kahn_inv_def)
    with get_n [of v] cost(1) True show ?thesis by (auto simp: tot'_def)
  next
    case False
    with inv mono [OF False] show ?thesis by (fastforce simp: kahn_inv_def tot'_def split: if_splits)
  qed
  have reach: "reached (k_sol ?k) (endpoint dir m) (tot' m)" if "m \<in> insert n P" "endpoint dir m \<noteq> nullptr" for m
    using that inv cost(3,4) reached_le nP(2) by (auto simp: kahn_inv_def tot'_def)
  have "\<forall>m \<in> insert n P. incoming dag (insert n P) m = 0"
    using inv nP(3) by (auto simp: kahn_inv_def incoming_zero_iff)
  moreover have "insert n P \<subseteq> dag_nodes dag" using inv nP(1) by (simp add: kahn_inv_def)
  moreover have "\<forall>c. omap_get 0 (k_inDeg ?k) c = incoming dag (insert n P) c" "distinct (topoQueue ?k)"
      "set (topoQueue ?k) = {m \<in> dag_nodes dag - insert n P. incoming dag (insert n P) m = 0}" using Q by simp_all
  moreover have "\<forall>m \<in> insert n P. endpoint dir m \<noteq> nullptr \<longrightarrow> reached (k_sol ?k) (endpoint dir m) (tot' m)"
    using reach by blast
  moreover have "\<forall>(m, c) \<in> dag_edges dag. m \<in> insert n P \<longrightarrow>
      (if c \<in> insert n P then loop_marks_nonneg sol0 \<longrightarrow> tot' m + exec_of env sol0 (endpoint dir c) \<le> tot' c
       else \<exists>v. map_of (maxAcc ?k) c = Some v \<and> tot' m \<le> v)"
    using edges by blast
  ultimately have "kahn_inv env dir dag seed start sol0 (insert n P) tot' ?k"
    unfolding kahn_inv_def using cost(2) seed by (intro conjI)
  with nP show ?thesis by blast
qed

lemma kahn_complete:
  assumes inv: "kahn_inv env dir dag seed start sol0 P tot k" and "dag_ok dag" and "topoQueue k = []"
  shows "P = dag_nodes dag"
proof (rule ccontr)
  assume "P \<noteq> dag_nodes dag"
  then have ne: "dag_nodes dag - P \<noteq> {}" using inv by (auto simp: kahn_inv_def)
  from \<open>dag_ok dag\<close> obtain rank :: "CFGEdge \<Rightarrow> nat" where r: "\<forall>(n, c) \<in> dag_edges dag. rank n < rank c"
    by (auto simp: dag_ok_def)
  from ne obtain x where "x \<in> dag_nodes dag - P" by blast
  from ex_has_least_nat [of "\<lambda>x. x \<in> dag_nodes dag - P", OF this, of rank]
  obtain n where n: "n \<in> dag_nodes dag - P" "\<And>m. m \<in> dag_nodes dag - P \<Longrightarrow> rank n \<le> rank m" by blast
  then have "incoming dag P n = 0"
    using r by (fastforce simp: incoming_zero_iff)
  with n inv assms(3) show False by (auto simp: kahn_inv_def)
qed

lemma kahnLoop_inv:
  assumes "kahn_inv env dir dag seed start sol0 P tot k" and ok: "dag_ok dag"
    and nonnull: "\<forall>(n, c) \<in> dag_edges dag. endpoint dir n \<noteq> nullptr"
    and card: "card (dag_nodes dag - P) \<le> fuel"
  shows "\<exists>k' tot'. kahnLoop env dir upd dag fuel k = Some k' \<and> kahn_inv env dir dag seed start sol0 (dag_nodes dag) tot' k'"
  using assms(1) card
proof (induction fuel arbitrary: P tot k)
  case 0
  have "topoQueue k = []"
  proof (cases "topoQueue k")
    case (Cons n rest)
    with kahn_step [OF 0(1) Cons ok nonnull] 0(2) show ?thesis by auto
  qed
  with 0 kahn_complete [OF 0(1) ok] show ?case by (subst kahnLoop.simps) auto
next
  case (Suc fuel)
  show ?case
  proof (cases "topoQueue k")
    case Nil
    with Suc.prems kahn_complete [OF Suc.prems(1) ok] show ?thesis by (subst kahnLoop.simps) auto
  next
    case (Cons n rest)
    from kahn_step [OF Suc.prems(1) Cons ok nonnull] obtain tot' where
      step: "kahn_inv env dir dag seed start sol0 (insert n P) tot' (processNode env dir upd dag n rest k)"
        "n \<in> dag_nodes dag - P" by blast
    have "dag_nodes dag - insert n P \<subset> dag_nodes dag - P" using step(2) by auto
    then have "card (dag_nodes dag - insert n P) < card (dag_nodes dag - P)"
      by (intro psubset_card_mono) auto
    with Suc.IH [OF step(1)] Suc.prems(2) Cons show ?thesis by (subst kahnLoop.simps) auto
  qed
qed

lemma propagate_result:
  "\<exists>sol' tot. propagate env dir upd seed start sol = Some sol' \<and> le sol sol' \<and>
    (loop_marks_nonneg sol \<longrightarrow> start + exec_of env sol (endpoint dir seed) \<le> tot seed) \<and>
    (\<forall>(n, c) \<in> dag_edges (seedDag env sol dir seed). loop_marks_nonneg sol \<longrightarrow> tot n + exec_of env sol (endpoint dir c) \<le> tot c) \<and>
    (\<forall>n \<in> dag_nodes (seedDag env sol dir seed). endpoint dir n \<noteq> nullptr \<longrightarrow> reached sol' (endpoint dir n) (tot n))"
proof -
  let ?dag = "seedDag env sol dir seed"
  have ok: "dag_ok ?dag" by (rule seedDag_ok)
  have nonnull: "\<forall>(n, c) \<in> dag_edges ?dag. endpoint dir n \<noteq> nullptr" using seedDag_edges by blast
  have card: "card (dag_nodes ?dag - {}) \<le> length ?dag"
    by (simp add: dag_nodes_def dom_map_of_conv_image_fst) (metis card_length length_map list.set_map)
  from kahnLoop_inv [OF kahn_inv_init [OF ok] ok nonnull card] obtain k tot where
    k: "kahnLoop env dir upd ?dag (length ?dag) (kahnInit env dir ?dag seed start sol) = Some k"
      "kahn_inv env dir ?dag seed start sol (dag_nodes ?dag) tot k" by blast
  have nodes: "n \<in> dag_nodes ?dag \<and> c \<in> dag_nodes ?dag" if "(n, c) \<in> dag_edges ?dag" for n c
    using that ok dag_edge_source [OF that] by (auto simp: dag_ok_def)
  show ?thesis
    using k seed_in_seedDag [of seed env sol dir] nodes
    by (intro exI [of _ "k_sol k"] exI [of _ tot]) (fastforce simp: propagate_def kahn_inv_def)
qed


lemma propagate_path:
  assumes "loop_marks_nonneg sol" and "dag_path (seedDag env sol dir seed) seed es"
    and "endpoint dir (last (seed # es)) \<noteq> nullptr" and "propagate env dir upd seed start sol = Some sol'"
  shows "reached sol' (endpoint dir (last (seed # es)))
    (start + (\<Sum>e \<leftarrow> seed # es. exec_of env sol (endpoint dir e)))"
proof -
  let ?dag = "seedDag env sol dir seed"
  obtain tot where t: "start + exec_of env sol (endpoint dir seed) \<le> tot seed"
      "\<forall>(n, c) \<in> dag_edges ?dag. tot n + exec_of env sol (endpoint dir c) \<le> tot c"
      "\<forall>n \<in> dag_nodes ?dag. endpoint dir n \<noteq> nullptr \<longrightarrow> reached sol' (endpoint dir n) (tot n)"
    using propagate_result [of env dir seed start sol] assms(1,4) by auto
  have "last (seed # es) \<in> dag_nodes ?dag"
    by (rule dag_path_node [OF seedDag_ok seed_in_seedDag assms(2)])
  with t(3) assms(3) have "reached sol' (endpoint dir (last (seed # es))) (tot (last (seed # es)))" by blast
  moreover have "start + (\<Sum>e \<leftarrow> seed # es. exec_of env sol (endpoint dir e)) \<le> tot (last (seed # es))"
    using dag_path_total [OF assms(2) t(2)] t(1) by (simp del: last.simps)
  ultimately show ?thesis by (rule reached_less)
qed

end

section \<open>The two directions\<close>

definition same_but_meta :: "SchematicSolution \<Rightarrow> SchematicSolution \<Rightarrow> bool" where
  "same_but_meta sol sol' \<longleftrightarrow> sol'\<lparr>blockMeta := []\<rparr> = sol\<lparr>blockMeta := []\<rparr> \<and>
     (\<forall>b. analyzed (metaOf sol' b) = analyzed (metaOf sol b) \<and> meta_loop (metaOf sol' b) = meta_loop (metaOf sol b))"

definition only_raises :: "SchematicSolution \<Rightarrow> SchematicSolution \<Rightarrow> bool" where
  "only_raises sol sol' \<longleftrightarrow> same_but_meta sol sol' \<and>
     (\<forall>b. E_left (metaOf sol' b) = E_left (metaOf sol b) \<and> E_to_leave (metaOf sol b) \<le> E_to_leave (metaOf sol' b))"

definition only_lowers :: "SchematicSolution \<Rightarrow> SchematicSolution \<Rightarrow> bool" where
  "only_lowers sol sol' \<longleftrightarrow> same_but_meta sol sol' \<and>
     (\<forall>b. E_to_leave (metaOf sol' b) = E_to_leave (metaOf sol b) \<and> E_left (metaOf sol' b) \<le> E_left (metaOf sol b))"

lemma metaOf_setMeta [simp]: "metaOf (setMeta b m sol) b' = (if b' = b then m else metaOf sol b')"
  by (simp add: metaOf_def setMeta_def)

lemma same_but_meta_refl [simp]: "same_but_meta sol sol"
  by (simp add: same_but_meta_def)

lemma same_but_meta_trans: "same_but_meta a b \<Longrightarrow> same_but_meta b c \<Longrightarrow> same_but_meta a c"
  unfolding same_but_meta_def by metis

lemma same_but_meta_fields: "same_but_meta sol sol' \<Longrightarrow> decidedPlacements sol' = decidedPlacements sol"
  unfolding same_but_meta_def by (drule conjunct1, drule arg_cong [where f = decidedPlacements]) simp

lemma same_but_meta_setMeta:
  "analyzed m = analyzed (metaOf sol b) \<Longrightarrow> meta_loop m = meta_loop (metaOf sol b) \<Longrightarrow> same_but_meta sol (setMeta b m sol)"
  unfolding same_but_meta_def by (intro conjI allI) (simp_all add: setMeta_def metaOf_def)

interpretation to_leave: energy_update raiseEToLeave only_raises "\<lambda>sol b c. c \<le> E_to_leave (metaOf sol b)"
proof unfold_locales
  show "only_raises a b \<Longrightarrow> only_raises b c \<Longrightarrow> only_raises a c" for a b c
    unfolding only_raises_def by (metis order_trans same_but_meta_trans)
  show "only_raises sol (raiseEToLeave b c sol)" for sol b c
    by (auto simp: only_raises_def raiseEToLeave_def Let_def intro: same_but_meta_setMeta)
  show "only_raises sol sol' \<Longrightarrow> decidedPlacements sol' = decidedPlacements sol" for sol sol'
    by (simp add: only_raises_def same_but_meta_fields)
  show "c \<le> E_to_leave (metaOf sol b) \<Longrightarrow> only_raises sol sol' \<Longrightarrow> c \<le> E_to_leave (metaOf sol' b)" for c sol b sol'
    unfolding only_raises_def by (meson order_trans)
qed (auto simp: only_raises_def same_but_meta_def raiseEToLeave_def Let_def)

interpretation left: energy_update "lowerELeft seedELeft" only_lowers
  "\<lambda>sol b c. E_left (metaOf sol b) \<le> seedELeft - c" for seedELeft
proof unfold_locales
  show "only_lowers a b \<Longrightarrow> only_lowers b c \<Longrightarrow> only_lowers a c" for a b c
    unfolding only_lowers_def by (metis order_trans same_but_meta_trans)
  show "only_lowers sol (lowerELeft s b c sol)" for s sol b c
    by (auto simp: only_lowers_def lowerELeft_def Let_def intro: same_but_meta_setMeta)
  show "only_lowers sol sol' \<Longrightarrow> decidedPlacements sol' = decidedPlacements sol" for sol sol'
    by (simp add: only_lowers_def same_but_meta_fields)
  show "E_left (metaOf sol b) \<le> s - c \<Longrightarrow> only_lowers sol sol' \<Longrightarrow> E_left (metaOf sol' b) \<le> s - c" for s c sol b sol'
    unfolding only_lowers_def by (meson order_trans)
qed (auto simp: only_lowers_def same_but_meta_def lowerELeft_def Let_def)

section \<open>Properties of the propagation\<close>

definition diamond_graph :: SchematicGraph where
  "diamond_graph = \<lparr>graphBlocks = [(1, sample_block 1 [] [2]), (2, sample_block 2 [1] [3, 4]), (3, sample_block 3 [2] [6]),
      (4, sample_block 4 [2] [5]), (5, sample_block 5 [4] [6]), (6, sample_block 6 [3, 5] [7]), (7, sample_block 7 [6] [])],
     realBlocks = [(1, 1), (2, 2), (3, 3), (4, 4), (5, 5), (6, 6), (7, 7)], syntheticBlocks = [], graphNext = 8\<rparr>"

definition diamond_cfg :: CFGAnalysis where
  "diamond_cfg = \<lparr>cfg_blocks = [1, 2, 3, 4, 5, 6, 7],
     cfg_blockInfo = [(1, \<lparr>bi_name = [], energyCost = 1\<rparr>), (2, \<lparr>bi_name = [], energyCost = 1\<rparr>),
       (3, \<lparr>bi_name = [], energyCost = 1\<rparr>), (4, \<lparr>bi_name = [], energyCost = 10\<rparr>), (5, \<lparr>bi_name = [], energyCost = 10\<rparr>),
       (6, \<lparr>bi_name = [], energyCost = 1\<rparr>), (7, \<lparr>bi_name = [], energyCost = 1\<rparr>)],
     cfg_edges = [(1, 2), (2, 3), (2, 4), (3, 6), (4, 5), (5, 6), (6, 7)], cfg_entryBlock = 1, cfg_exitBlocks = [7]\<rparr>"

definition no_loops :: loop_info where
  "no_loops = \<lparr>getLoopFor = (\<lambda>_. None), getHeader = (\<lambda>_. 0), getLoopLatch = (\<lambda>_. 0), getLoopBlocks = (\<lambda>_. [])\<rparr>"

definition diamond_env :: prop_env where
  "diamond_env = \<lparr>pe_graph = diamond_graph, pe_LI = no_loops, pe_scope = None, pe_cfg = diamond_cfg,
     pe_state = sample_state0, pe_params = sample_params\<rparr>"

definition diamond_solution :: SchematicSolution where
  "diamond_solution = emptySolution\<lparr>checkpointStates := [(CFGEdge 1 2, Disabled), (CFGEdge 2 3, Disabled), (CFGEdge 2 4, Disabled),
     (CFGEdge 3 6, Disabled), (CFGEdge 4 5, Disabled), (CFGEdge 5 6, Disabled), (CFGEdge 6 7, Disabled)]\<rparr>"

lemma diamond_succ:
  "successors diamond_graph 2 = [3, 4]" "successors diamond_graph 3 = [6]" "successors diamond_graph 4 = [5]"
  "successors diamond_graph 5 = [6]" "successors diamond_graph 6 = [7]" "successors diamond_graph 7 = []"
  by (simp_all add: successors_def blockAt_def diamond_graph_def omap_get_def sample_block_def)

lemma diamond_resolve:
  assumes "d \<in> set (successors diamond_graph s)"
  shows "resolveCheckpointEdge diamond_graph (CFGEdge s d) = CFGEdge s d"
  using assms by (simp add: resolveCheckpointEdge_def)

lemma diamond_states [simp]:
  "checkpointStates diamond_solution = [(CFGEdge 1 2, Disabled), (CFGEdge 2 3, Disabled), (CFGEdge 2 4, Disabled),
     (CFGEdge 3 6, Disabled), (CFGEdge 4 5, Disabled), (CFGEdge 5 6, Disabled), (CFGEdge 6 7, Disabled)]"
  by (simp add: diamond_solution_def)

lemma diamond_traversable:
  assumes "d \<in> set (successors diamond_graph s)" and "map_of (checkpointStates diamond_solution) (CFGEdge s d) = Some Disabled"
  shows "traversable diamond_env diamond_solution Forward (CFGEdge s d)"
  using assms
  by (simp add: traversable_def isDisabledCheckpoint_def getCheckpointState_def diamond_resolve omap_get_def isBackEdge_def
      outsideScope_def Let_def diamond_env_def) (simp add: no_loops_def)

lemma diamond_disabled:
  "traversable diamond_env diamond_solution Forward (CFGEdge 2 3)" "traversable diamond_env diamond_solution Forward (CFGEdge 2 4)"
  "traversable diamond_env diamond_solution Forward (CFGEdge 3 6)" "traversable diamond_env diamond_solution Forward (CFGEdge 4 5)"
  "traversable diamond_env diamond_solution Forward (CFGEdge 5 6)" "traversable diamond_env diamond_solution Forward (CFGEdge 6 7)"
  by (simp_all add: diamond_traversable diamond_succ)

lemma diamond_dag:
  "seedDag diamond_env diamond_solution Forward (CFGEdge 1 2) =
     [(CFGEdge 1 2, [CFGEdge 2 3, CFGEdge 2 4]), (CFGEdge 2 3, [CFGEdge 3 6]), (CFGEdge 2 4, [CFGEdge 4 5]),
      (CFGEdge 3 6, [CFGEdge 6 7]), (CFGEdge 4 5, [CFGEdge 5 6]), (CFGEdge 5 6, []), (CFGEdge 6 7, [])]"
proof -
  have scope: "outsideScope diamond_env b = False" for b by (simp add: outsideScope_def diamond_env_def)
  have g: "pe_graph diamond_env = diamond_graph" by (simp add: diamond_env_def)
  show ?thesis
    by (simp add: seedDag_def scope g diamond_succ diamond_disabled addDagEdge_def ensureNode_def Let_def
        less_CFGEdge_def omap_get_def)
qed

lemma diamond_exec:
  "getBlockExecEnergy diamond_graph b sol diamond_cfg sample_state0 sample_params =
     (if b \<in> {4, 5} then 10 else if b \<in> {1, 2, 3, 6, 7} then 1 else 0)" if "decidedPlacements sol = []"
  using that by (auto simp: getBlockExecEnergy_def getLLVMBlock_def blockAt_def diamond_graph_def diamond_cfg_def omap_get_def
      sample_block_def getBlockInfo_def Let_def nullBlock_def)

lemma diamond_left:
  "propagate diamond_env Forward (lowerELeft 100) (CFGEdge 1 2) 0 diamond_solution = Some (diamond_solution\<lparr>blockMeta :=
     [(2, defaultMetadata\<lparr>E_left := 99\<rparr>), (3, defaultMetadata\<lparr>E_left := 98\<rparr>), (4, defaultMetadata\<lparr>E_left := 89\<rparr>),
      (5, defaultMetadata\<lparr>E_left := 79\<rparr>), (6, defaultMetadata\<lparr>E_left := 78\<rparr>), (7, defaultMetadata\<lparr>E_left := 96\<rparr>)]\<rparr>)"
proof -
  have env: "pe_graph diamond_env = diamond_graph" "pe_cfg diamond_env = diamond_cfg" "pe_state diamond_env = sample_state0"
     "pe_params diamond_env = sample_params" "pe_LI diamond_env = no_loops"
    by (simp_all add: diamond_env_def)
  have sol: "decidedPlacements diamond_solution = []" "blockMeta diamond_solution = []"
    by (simp_all add: diamond_solution_def emptySolution_def)
  have big: "DBL_MAX > 100" by (simp add: DBL_MAX_def)
  show ?thesis
    unfolding propagate_def Let_def diamond_dag
    using big
    by (simp add: kahnLoop.simps kahnInit_def computeInDeg_def countIncoming_def omap_count_def Let_def less_CFGEdge_def
        processNode_def advance_def offer_def loopIterationCharge_def markSeedLoopSeen_def lowerELeft_def setMeta_def
        metaOf_def omap_get_def omap_erase_def diamond_exec env sol defaultMetadata_def)
qed

lemma kahn_returns:
  "\<exists>sol'. propagate env Backward raiseEToLeave seed start sol = Some sol'"
  "\<exists>sol'. propagate env Forward (lowerELeft e) seed start sol = Some sol'"
  using to_leave.propagate_result [of env Backward seed start sol] left.propagate_result [of env Forward e seed start sol]
  by blast+

text \<open>(C7) Propagation always returns, changes nothing but the block metadata, keeps the analysis flag and
  the loop mark of every block, and only raises \<open>E_to_leave\<close> (backward) or only lowers \<open>E_left\<close>
  (forward): a bound established earlier is never weakened.\<close>

theorem propagation_total_and_monotone:
  "(\<exists>sol'. propagate env Backward raiseEToLeave seed e sol = Some sol') \<and>
   (\<exists>sol'. propagate env Forward (lowerELeft e) seed 0 sol = Some sol') \<and>
   only_raises sol (propagateEnergyToLeave env seed e sol) \<and>
   only_lowers sol (propagateEnergyLeft env seed e sol)"
  using to_leave.propagate_result [of env Backward seed e sol] left.propagate_result [of env Forward e seed 0 sol]
  by (auto simp: propagateEnergyToLeave_def propagateEnergyLeft_def)

text \<open>(C8) Worst case backward: along every path of the graph the walk built, from the seed edge through
  disabled edges, the block at the path's end gets an \<open>E_to_leave\<close> of at least the seed energy plus the
  energy of every block on the path.\<close>

theorem propagateEnergyToLeave_worst_case:
  assumes "loop_marks_nonneg sol" and "dag_path (seedDag env sol Backward seed) seed es"
    and "src (last (seed # es)) \<noteq> nullptr"
  shows "e + (\<Sum>x \<leftarrow> seed # es. exec_of env sol (src x))
    \<le> E_to_leave (metaOf (propagateEnergyToLeave env seed e sol) (src (last (seed # es))))"
proof -
  obtain sol' where s: "propagate env Backward raiseEToLeave seed e sol = Some sol'" using kahn_returns(1) by blast
  from to_leave.propagate_path [OF assms(1,2) _ s] assms(3) show ?thesis
    by (simp add: propagateEnergyToLeave_def s del: last.simps)
qed

text \<open>Worst case forward: along every path of the graph the walk built the block at the path's end
  gets an \<open>E_left\<close> of at most the seed energy minus the energy of every block on the path.\<close>

theorem propagateEnergyLeft_worst_case:
  assumes "loop_marks_nonneg sol" and "dag_path (seedDag env sol Forward seed) seed es"
    and "dst (last (seed # es)) \<noteq> nullptr"
  shows "E_left (metaOf (propagateEnergyLeft env seed e sol) (dst (last (seed # es))))
    \<le> e - (\<Sum>x \<leftarrow> seed # es. exec_of env sol (dst x))"
proof -
  obtain sol' where s: "propagate env Forward (lowerELeft e) seed 0 sol = Some sol'" using kahn_returns(2) by blast
  from left.propagate_path [OF assms(1,2) _ s] assms(3) show ?thesis
    by (simp add: propagateEnergyLeft_def s del: last.simps)
qed

theorem propagateEnergyLeft_worst_case_witness:
  "E_left (metaOf (propagateEnergyLeft diamond_env (CFGEdge 1 2) 100 diamond_solution) 6) \<le> 78"
proof -
  have "loop_marks_nonneg diamond_solution"
    by (simp add: loop_marks_nonneg_def diamond_solution_def emptySolution_def)
  moreover have "dag_path (seedDag diamond_env diamond_solution Forward (CFGEdge 1 2)) (CFGEdge 1 2)
      [CFGEdge 2 4, CFGEdge 4 5, CFGEdge 5 6]"
    unfolding diamond_dag by (simp add: dag_edges_def omap_get_def)
  ultimately have "E_left (metaOf (propagateEnergyLeft diamond_env (CFGEdge 1 2) 100 diamond_solution) 6)
      \<le> 100 - (\<Sum>x \<leftarrow> [CFGEdge 1 2, CFGEdge 2 4, CFGEdge 4 5, CFGEdge 5 6]. exec_of diamond_env diamond_solution (dst x))"
    using propagateEnergyLeft_worst_case [of diamond_solution diamond_env "CFGEdge 1 2" "[CFGEdge 2 4, CFGEdge 4 5, CFGEdge 5 6]" 100]
    by simp
  also have "\<dots> = 78"
    by (simp add: exec_of_def diamond_exec diamond_solution_def emptySolution_def diamond_env_def)
  finally show ?thesis .
qed

theorem propagateEnergyToLeave_worst_case_witness:
  "5 + 1 \<le> E_to_leave (metaOf (propagateEnergyToLeave diamond_env (CFGEdge 6 7) 5 diamond_solution) 6)"
proof -
  have "loop_marks_nonneg diamond_solution"
    by (simp add: loop_marks_nonneg_def diamond_solution_def emptySolution_def)
  then have "5 + exec_of diamond_env diamond_solution 6
      \<le> E_to_leave (metaOf (propagateEnergyToLeave diamond_env (CFGEdge 6 7) 5 diamond_solution) 6)"
    using propagateEnergyToLeave_worst_case [of diamond_solution diamond_env "CFGEdge 6 7" "[]" 5] by simp
  then show ?thesis
    by (simp add: exec_of_def diamond_exec diamond_solution_def emptySolution_def diamond_env_def)
qed


end
