(* ===== verification/ApplyAllocation.thy ===== *)
theory ApplyAllocation
  imports EnergyPropagation
begin

text \<open>
  Applying a solver result to the solution (\<open>updateCheckpointType\<close> and
  \<open>applyMemoryAllocation\<close> of \<open>passes/src/schematic/MemoryAllocator.cpp\<close>): the trace's
  checkpoint states are set, boundary allocations are extended, the interval allocations are shared
  with the blocks of the trace, and energy is propagated from every checkpoint.

  The loop over the trace consumes the trace as a list: the rest of the list is the suffix from the
  index \<open>i\<close> of the code. The shared allocation objects live in the solution's heap, so extending
  one is seen by every block that holds it. \<open>report_fatal_error\<close> is the error \<open>TraceTooShort\<close>.

  Results: the states of the trace's edges are exactly what the solver selected, every block of the
  trace is analysed afterwards, and no earlier decision or energy bound is revised.
\<close>

section \<open>Checkpoint states along a trace\<close>

definition traceEdges :: "block_ptr list \<Rightarrow> CFGEdge list" where
  "traceEdges trace = map (\<lambda>(s, d). CFGEdge s d) (zip trace (tl trace))"

definition updateCheckpointType ::
  "SchematicGraph \<Rightarrow> block_ptr list \<Rightarrow> CFGEdge list \<Rightarrow> string \<Rightarrow> SchematicSolution \<Rightarrow> SchematicSolution" where
  "updateCheckpointType g trace selected origin sol =
     (let selectedResolved = set (map (resolveCheckpointEdge g) selected)
      in foldl (\<lambda>sol traceEdge.
             let resolved = resolveCheckpointEdge g traceEdge
             in if resolved \<in> selectedResolved then enableCheckpoint g resolved origin sol
                else disableCheckpoint g resolved sol)
           sol (traceEdges trace))"

section \<open>Boundary allocations\<close>

definition extendStartBoundary ::
  "CFGEdge list \<Rightarrow> block_ptr list \<Rightarrow> SchematicSolution \<times> RegionAllocation list \<Rightarrow> SchematicSolution \<times> RegionAllocation list" where
  "extendStartBoundary selected trace p =
     (let (sol, allocs) = p
      in case map_of (blockAllocation sol) (hd trace) of
           None \<Rightarrow> (sol, allocs)
         | Some r \<Rightarrow>
             if selected = [] \<or> src (hd selected) \<noteq> hd trace then
               let a = extendsAllocation (allocAt sol r) (hd allocs)
               in (setAllocAt r a sol, allocs[0 := a])
             else (sol, allocs))"

definition extendEndBoundary ::
  "CFGEdge list \<Rightarrow> block_ptr list \<Rightarrow> SchematicSolution \<times> RegionAllocation list \<Rightarrow> SchematicSolution \<times> RegionAllocation list" where
  "extendEndBoundary selected trace p =
     (let (sol, allocs) = p
      in case map_of (blockAllocation sol) (last trace) of
           None \<Rightarrow> (sol, allocs)
         | Some r \<Rightarrow>
             if selected = [] \<or> dst (last selected) \<noteq> last trace then
               let a = extendsAllocation (allocAt sol r) (last allocs)
               in (setAllocAt r a sol, allocs[length allocs - 1 := a])
             else (sol, allocs))"

definition extendBoundaryObject :: "block_ptr \<Rightarrow> RegionAllocation \<Rightarrow> SchematicSolution \<Rightarrow> SchematicSolution" where
  "extendBoundaryObject b a sol =
     (case map_of (blockAllocation sol) b of
        None \<Rightarrow> sol
      | Some r \<Rightarrow> setAllocAt r (extendsAllocation (allocAt sol r) a) sol)"

definition unifyBoundaries ::
  "CFGEdge list \<Rightarrow> block_ptr list \<Rightarrow> SchematicSolution \<times> RegionAllocation list \<Rightarrow> SchematicSolution \<times> RegionAllocation list" where
  "unifyBoundaries selected trace p =
     (let (sol, allocs) = p
      in if selected \<noteq> [] then (sol, allocs)
         else
           let sol1 = extendBoundaryObject (hd trace) (hd allocs) sol;
               sol2 = extendBoundaryObject (last trace) (hd allocs) sol1
           in case (map_of (blockAllocation sol2) (hd trace), map_of (blockAllocation sol2) (last trace)) of
                (Some oldAlloc, Some newAlloc) \<Rightarrow>
                  (if oldAlloc \<noteq> newAlloc
                   then sol2\<lparr>blockAllocation :=
                          map (\<lambda>(bb, r). (bb, if r = oldAlloc then newAlloc else r)) (blockAllocation sol2)\<rparr>
                   else sol2, allocs)
              | _ \<Rightarrow> (sol2, allocs))"

definition extendBoundaries ::
  "CFGEdge list \<Rightarrow> block_ptr list \<Rightarrow> RegionAllocation list \<Rightarrow> SchematicSolution \<Rightarrow> SchematicSolution \<times> RegionAllocation list" where
  "extendBoundaries selected trace allocs sol =
     (if allocs = [] then (sol, allocs)
      else unifyBoundaries selected trace
             (extendEndBoundary selected trace (extendStartBoundary selected trace (sol, allocs))))"

section \<open>Walking the trace\<close>

definition decidePlacements ::
  "(value_ptr, VariableAllocation) omap \<Rightarrow> (value_ptr, Placement) omap \<Rightarrow> (value_ptr, Placement) omap" where
  "decidePlacements vs ps =
     foldl (\<lambda>ps (gv, va). if omap_count ps gv then ps else omap_put gv (placement va) ps) ps vs"

definition assignBlock ::
  "block_ptr \<Rightarrow> (value_ptr, VariableAllocation) omap \<Rightarrow> nat \<Rightarrow> SchematicSolution \<Rightarrow> SchematicSolution" where
  "assignBlock b vs memoryAlloc sol =
     (let sol1 = setMeta b ((metaOf sol b)\<lparr>analyzed := True\<rparr>) sol;
          sol2 = sol1\<lparr>decidedPlacements :=
                   omap_put b (decidePlacements vs (placementsOf sol1 b)) (decidedPlacements sol1)\<rparr>
      in case map_of (blockAllocation sol2) b of
           Some r \<Rightarrow> setAllocAt r (extendsAllocation (allocAt sol2 r) (allocAt sol2 memoryAlloc)) sol2
         | None \<Rightarrow> sol2\<lparr>blockAllocation := omap_put b memoryAlloc (blockAllocation sol2)\<rparr>)"

fun walkInterval ::
  "(value_ptr, VariableAllocation) omap \<Rightarrow> nat \<Rightarrow> CFGEdge option \<Rightarrow> block_ptr list \<Rightarrow> SchematicSolution
     \<Rightarrow> block_ptr list \<times> SchematicSolution" where
  "walkInterval vs r ckpt (b # b' # bs) sol =
     (let sol' = assignBlock b vs r sol
      in if ckpt = Some (CFGEdge b b') then (b' # bs, sol')
         else walkInterval vs r ckpt (b' # bs) sol')"
| "walkInterval vs r ckpt rest sol = (rest, sol)"

fun applyIntervals ::
  "CFGEdge list \<Rightarrow> block_ptr list list \<Rightarrow> nat \<Rightarrow> RegionAllocation list \<Rightarrow> nat option \<Rightarrow> block_ptr list
     \<Rightarrow> SchematicSolution \<Rightarrow> nat option \<times> block_ptr list \<times> SchematicSolution" where
  "applyIntervals selected ibs j [] memoryAlloc rest sol = (memoryAlloc, rest, sol)"
| "applyIntervals selected ibs j (a # as) memoryAlloc rest sol =
     (let (r, sol1) = makeShared a sol;
          (rest', sol2) = walkInterval (vars a) r (if j < length selected then Some (selected ! j) else None) rest sol1;
          sol3 = sol2\<lparr>regions := regions sol2 @ [\<lparr>region_blocks = ibs ! j, allocation = a\<rparr>]\<rparr>
      in applyIntervals selected ibs (Suc j) as (Some r) rest' sol3)"

section \<open>Energy seeds\<close>

definition seedForward :: "prop_env \<Rightarrow> block_ptr \<Rightarrow> block_ptr \<Rightarrow> bool \<Rightarrow> SchematicSolution \<Rightarrow> SchematicSolution" where
  "seedForward env bbBefore bbAfter isVirtual sol =
     (if bbAfter = nullptr then sol
      else
        let params = pe_params env;
            energyLeftStart =
              (case map_of (blockMeta sol) bbAfter of
                 Some m \<Rightarrow>
                   if isVirtual \<and> E_left m < DBL_MAX
                   then E_left m + getBlockExecEnergy (pe_graph env) bbAfter sol (pe_cfg env) (pe_state env) params
                   else capacity params - E_pro params - u2r (N_reg params) * regRestoreEnergy params -
                     computeAllocationRestoreCost bbAfter sol (pe_state env) params
               | None \<Rightarrow>
                   capacity params - E_pro params - u2r (N_reg params) * regRestoreEnergy params -
                     computeAllocationRestoreCost bbAfter sol (pe_state env) params)
        in propagateEnergyLeft env (CFGEdge bbBefore bbAfter) energyLeftStart sol)"

definition seedBackward :: "prop_env \<Rightarrow> block_ptr \<Rightarrow> block_ptr \<Rightarrow> SchematicSolution \<Rightarrow> SchematicSolution" where
  "seedBackward env bbBefore bbAfter sol =
     (if bbBefore = nullptr then sol
      else
        let params = pe_params env;
            energyToLeave =
              (case map_of (blockMeta sol) bbBefore of
                 Some m \<Rightarrow>
                   if E_to_leave m \<noteq> 0
                   then E_to_leave m - getBlockExecEnergy (pe_graph env) bbBefore sol (pe_cfg env) (pe_state env) params
                   else E_epi params + u2r (N_reg params) * regStoreEnergy params +
                     computeAllocationSaveCost bbBefore sol (pe_state env) params
               | None \<Rightarrow>
                   E_epi params + u2r (N_reg params) * regStoreEnergy params +
                     computeAllocationSaveCost bbBefore sol (pe_state env) params)
        in propagateEnergyToLeave env (CFGEdge bbBefore bbAfter) energyToLeave sol)"

definition seedCheckpoint :: "prop_env \<Rightarrow> SchematicSolution \<Rightarrow> block_ptr \<times> block_ptr \<times> bool \<Rightarrow> SchematicSolution" where
  "seedCheckpoint env sol p =
     (let (bbBefore, bbAfter, isVirtual) = p
      in seedBackward env bbBefore bbAfter (seedForward env bbBefore bbAfter isVirtual sol))"

datatype apply_error = TraceTooShort

definition applyMemoryAllocation ::
  "prop_env \<Rightarrow> RCGResult \<Rightarrow> block_ptr list \<Rightarrow> string \<Rightarrow> SchematicSolution \<Rightarrow> apply_error + SchematicSolution" where
  "applyMemoryAllocation env result trace origin sol =
     (if length trace < 3 then Inl TraceTooShort
      else
        let selected = selectedCheckpoints result;
            sol1 = updateCheckpointType (pe_graph env) trace selected origin sol;
            (sol2, allocs) = extendBoundaries selected trace (allocations result) sol1;
            (memoryAlloc, rest, sol3) = applyIntervals selected (intervalBlocks result) 0 allocs None trace sol2;
            sol4 = (case memoryAlloc of
                      Some r \<Rightarrow> assignBlock (hd rest) (vars (allocAt sol3 r)) r sol3
                    | None \<Rightarrow> sol3);
            ckpts = (nullptr, hd trace, True) # map (\<lambda>e. (src e, dst e, False)) selected @ [(last trace, nullptr, True)]
        in Inr (foldl (seedCheckpoint env) sol4 ckpts))"


section \<open>The order of progress\<close>

text \<open>A later solution has analysed at least the blocks an earlier one had, keeps every decided placement,
  and its energy bounds are at least as strict.\<close>

definition sol_le :: "SchematicSolution \<Rightarrow> SchematicSolution \<Rightarrow> bool" where
  "sol_le sol sol' \<longleftrightarrow>
     (\<forall>b. (analyzed (metaOf sol b) \<longrightarrow> analyzed (metaOf sol' b)) \<and>
        E_left (metaOf sol' b) \<le> E_left (metaOf sol b) \<and> E_to_leave (metaOf sol b) \<le> E_to_leave (metaOf sol' b) \<and>
        meta_loop (metaOf sol' b) = meta_loop (metaOf sol b) \<and>
        map_of (placementsOf sol b) \<subseteq>\<^sub>m map_of (placementsOf sol' b))"

definition same_table :: "SchematicSolution \<Rightarrow> SchematicSolution \<Rightarrow> bool" where
  "same_table sol sol' \<longleftrightarrow>
     enabledCheckpoints sol' = enabledCheckpoints sol \<and> checkpointStates sol' = checkpointStates sol \<and>
     checkpointOrigins sol' = checkpointOrigins sol"

lemma isAnalyzed_metaOf: "isAnalyzed sol b \<longleftrightarrow> analyzed (metaOf sol b)"
  by (simp add: isAnalyzed_def metaOf_def omap_get_def defaultMetadata_def split: option.splits)

lemma sol_le_refl [simp]: "sol_le sol sol"
  by (simp add: sol_le_def)

lemma sol_le_trans [trans]: "sol_le a b \<Longrightarrow> sol_le b c \<Longrightarrow> sol_le a c"
  unfolding sol_le_def by (metis map_le_trans order_trans)

lemma same_table_refl [simp]: "same_table sol sol"
  by (simp add: same_table_def)

lemma same_table_trans [trans]: "same_table a b \<Longrightarrow> same_table b c \<Longrightarrow> same_table a c"
  by (simp add: same_table_def)

lemma same_table_ckpt_wf: "same_table sol sol' \<Longrightarrow> ckpt_wf sol' = ckpt_wf sol"
  by (simp add: same_table_def ckpt_wf_def)

lemma same_table_state: "same_table sol sol' \<Longrightarrow> getCheckpointState g sol' = getCheckpointState g sol"
  by (simp add: same_table_def getCheckpointState_def fun_eq_iff)

lemma sol_le_frame [energy_mono]:
  "blockMeta sol' = blockMeta sol \<Longrightarrow> decidedPlacements sol' = decidedPlacements sol \<Longrightarrow> sol_le sol sol'"
  by (simp add: sol_le_def metaOf_def placementsOf_def)

lemma sol_le_setCheckpointState [energy_mono]: "sol_le sol (setCheckpointState g e st origin sol)"
  by (rule sol_le_frame) simp_all

lemma sol_le_setAllocAt [energy_mono]: "sol_le sol (setAllocAt r a sol)"
  by (rule sol_le_frame) (simp_all add: setAllocAt_def)

lemma same_table_setAllocAt [simp]: "same_table sol (setAllocAt r a sol)"
  by (simp add: same_table_def setAllocAt_def)

lemma same_but_meta_table: "same_but_meta sol sol' \<Longrightarrow> same_table sol sol'"
  unfolding same_but_meta_def same_table_def
  by (metis (no_types, lifting) SchematicSolution.simps(1,2,3) SchematicSolution.surjective SchematicSolution.update_convs(5))

lemma sol_le_only_raises: "only_raises sol sol' \<Longrightarrow> sol_le sol sol'"
  by (auto simp: only_raises_def sol_le_def same_but_meta_fields placementsOf_def) (auto simp: same_but_meta_def)

lemma sol_le_only_lowers: "only_lowers sol sol' \<Longrightarrow> sol_le sol sol'"
  by (auto simp: only_lowers_def sol_le_def same_but_meta_fields placementsOf_def) (auto simp: same_but_meta_def)

lemma to_leave_only_raises: "only_raises sol (propagateEnergyToLeave env seed e sol)"
  using to_leave.propagate_result [of env Backward seed e sol] by (auto simp: propagateEnergyToLeave_def)

lemma left_only_lowers: "only_lowers sol (propagateEnergyLeft env seed e sol)"
  using left.propagate_result [of env Forward e seed 0 sol] by (auto simp: propagateEnergyLeft_def)

lemma propagation_progress [energy_mono]:
  "sol_le sol (propagateEnergyToLeave env seed e sol)" "sol_le sol (propagateEnergyLeft env seed e sol)"
  by (rule sol_le_only_raises [OF to_leave_only_raises], rule sol_le_only_lowers [OF left_only_lowers])

lemma propagation_table [simp]:
  "same_table sol (propagateEnergyToLeave env seed e sol)" "same_table sol (propagateEnergyLeft env seed e sol)"
  using to_leave_only_raises [of sol env seed e] left_only_lowers [of sol env seed e]
  by (auto simp: only_raises_def only_lowers_def intro: same_but_meta_table)

section \<open>States along the trace\<close>

lemma updateCheckpointType_progress [energy_mono]: "sol_le sol (updateCheckpointType g trace sel origin sol)"
  unfolding updateCheckpointType_def Let_def
  by (rule foldl_invariant [of "sol_le sol"])
    (auto simp: enableCheckpoint_def disableCheckpoint_def intro: sol_le_trans sol_le_setCheckpointState)

lemma updateCheckpointType_wf: "ckpt_wf sol \<Longrightarrow> ckpt_wf (updateCheckpointType g trace sel origin sol)"
  unfolding updateCheckpointType_def Let_def
  by (rule foldl_invariant [of ckpt_wf]) (auto simp: enableCheckpoint_def disableCheckpoint_def)

lemma updateCheckpointType_state:
  "getCheckpointState g (updateCheckpointType g trace sel origin sol) e =
     (if resolveCheckpointEdge g e \<in> resolveCheckpointEdge g ` set (traceEdges trace)
      then if resolveCheckpointEdge g e \<in> resolveCheckpointEdge g ` set sel then Active else Disabled
      else getCheckpointState g sol e)"
proof -
  have "getCheckpointState g (foldl (\<lambda>sol traceEdge.
        let resolved = resolveCheckpointEdge g traceEdge
        in if resolved \<in> S then enableCheckpoint g resolved origin sol else disableCheckpoint g resolved sol) sol es) e =
     (if resolveCheckpointEdge g e \<in> resolveCheckpointEdge g ` set es
      then if resolveCheckpointEdge g e \<in> S then Active else Disabled
      else getCheckpointState g sol e)" for S es
    by (induction es arbitrary: sol)
      (auto simp: Let_def enableCheckpoint_def disableCheckpoint_def getCheckpointState_set)
  then show ?thesis by (simp add: updateCheckpointType_def Let_def)
qed


section \<open>Progress of the walk\<close>

lemma decidePlacements_extends: "map_of ps \<subseteq>\<^sub>m map_of (decidePlacements vs ps)"
  unfolding decidePlacements_def
proof (rule foldl_invariant [of "\<lambda>qs. map_of ps \<subseteq>\<^sub>m map_of qs"])
  show "map_of ps \<subseteq>\<^sub>m map_of (case x of (gv, va) \<Rightarrow> if omap_count qs gv then qs else omap_put gv (placement va) qs)"
    if "map_of ps \<subseteq>\<^sub>m map_of qs" for qs x
  proof -
    obtain gv va where x: "x = (gv, va)" by (cases x)
    have "map_of ps gv = None" if "map_of qs gv = None"
      using that \<open>map_of ps \<subseteq>\<^sub>m map_of qs\<close> by (metis domIff map_le_def)
    with that show ?thesis by (auto simp: x omap_count_def map_le_def)
  qed
qed simp

lemma assignBlock_progress [energy_mono]: "sol_le sol (assignBlock b vs r sol)"
proof -
  let ?sol1 = "setMeta b ((metaOf sol b)\<lparr>analyzed := True\<rparr>) sol"
  let ?sol2 = "?sol1\<lparr>decidedPlacements := omap_put b (decidePlacements vs (placementsOf ?sol1 b)) (decidedPlacements ?sol1)\<rparr>"
  have "placementsOf ?sol2 c = (if c = b then decidePlacements vs (placementsOf sol b) else placementsOf sol c)" for c
    by (simp add: placementsOf_def setMeta_def)
  moreover have "metaOf ?sol2 c = (if c = b then (metaOf sol b)\<lparr>analyzed := True\<rparr> else metaOf sol c)" for c
    by (simp add: metaOf_def setMeta_def)
  ultimately have "sol_le sol ?sol2"
    by (simp add: sol_le_def decidePlacements_extends)
  moreover have "sol_le ?sol2 (assignBlock b vs r sol)"
    by (rule sol_le_frame) (simp_all add: assignBlock_def Let_def setAllocAt_def split: option.splits)
  ultimately show ?thesis by (rule sol_le_trans)
qed

lemma assignBlock_analyzed: "analyzed (metaOf (assignBlock b vs r sol) b)"
  by (simp add: assignBlock_def Let_def setAllocAt_def metaOf_def setMeta_def split: option.splits)

lemma assignBlock_table [simp]: "same_table sol (assignBlock b vs r sol)"
  by (simp add: same_table_def assignBlock_def Let_def setAllocAt_def setMeta_def split: option.splits)

lemma walkInterval_correct:
  assumes "walkInterval vs r ckpt rest sol = (rest', sol')"
  shows "sol_le sol sol' \<and> same_table sol sol' \<and>
    (\<exists>pre. rest = pre @ rest' \<and> (\<forall>b \<in> set pre. analyzed (metaOf sol' b))) \<and>
    (rest \<noteq> [] \<longrightarrow> rest' \<noteq> []) \<and> (ckpt = None \<longrightarrow> length rest' \<le> 1)"
  using assms
proof (induction vs r ckpt rest sol rule: walkInterval.induct)
  case (1 vs r ckpt b b' bs sol)
  let ?sol = "assignBlock b vs r sol"
  have le: "sol_le sol ?sol" "same_table sol ?sol" "analyzed (metaOf ?sol b)"
    by (simp_all add: assignBlock_progress assignBlock_analyzed)
  show ?case
  proof (cases "ckpt = Some (CFGEdge b b')")
    case True
    with "1.prems" le show ?thesis by (auto simp: Let_def)
  next
    case False
    with 1 have "walkInterval vs r ckpt (b' # bs) ?sol = (rest', sol')" by (simp add: Let_def)
    with "1.IH" [OF refl False] obtain pre where
      IH: "sol_le ?sol sol'" "same_table ?sol sol'" "b' # bs = pre @ rest'" "\<forall>b \<in> set pre. analyzed (metaOf sol' b)"
        "rest' \<noteq> []" "ckpt = None \<longrightarrow> length rest' \<le> 1" by auto
    have "analyzed (metaOf sol' b)" using IH(1) le(3) by (simp add: sol_le_def)
    with IH have "b # b' # bs = (b # pre) @ rest'" "\<forall>x \<in> set (b # pre). analyzed (metaOf sol' x)" by auto
    with IH sol_le_trans [OF le(1) IH(1)] same_table_trans [OF le(2) IH(2)] show ?thesis by blast
  qed
qed auto

lemma makeShared_frame:
  assumes "makeShared a sol = (r, sol1)"
  shows "sol_le sol sol1" "same_table sol sol1"
  using assms by (auto simp: makeShared_def same_table_def intro: sol_le_frame)

lemma applyIntervals_correct:
  assumes "applyIntervals sel ibs j as m rest sol = (m', rest', sol')"
  shows "sol_le sol sol' \<and> same_table sol sol' \<and>
    (\<exists>pre. rest = pre @ rest' \<and> (\<forall>b \<in> set pre. analyzed (metaOf sol' b))) \<and>
    (rest \<noteq> [] \<longrightarrow> rest' \<noteq> []) \<and> (as \<noteq> [] \<longrightarrow> m' \<noteq> None) \<and>
    (as \<noteq> [] \<and> length sel < j + length as \<longrightarrow> length rest' \<le> 1)"
  using assms
proof (induction sel ibs j as m rest sol rule: applyIntervals.induct)
  case (2 sel ibs j a as m rest sol)
  obtain r sol1 where sh: "makeShared a sol = (r, sol1)" by (cases "makeShared a sol")
  let ?c = "if j < length sel then Some (sel ! j) else None"
  obtain rest2 sol2 where w: "walkInterval (vars a) r ?c rest sol1 = (rest2, sol2)"
    by (cases "walkInterval (vars a) r ?c rest sol1")
  define sol3 where "sol3 = sol2\<lparr>regions := regions sol2 @ [\<lparr>region_blocks = ibs ! j, allocation = a\<rparr>]\<rparr>"
  have rec: "applyIntervals sel ibs (Suc j) as (Some r) rest2 sol3 = (m', rest', sol')"
    using "2.prems" by (simp add: sh w sol3_def)
  note W = walkInterval_correct [OF w] and S = makeShared_frame [OF sh]
  have s3: "sol_le sol2 sol3" "same_table sol2 sol3"
    by (auto simp: sol3_def same_table_def intro: sol_le_frame)
  note IH = "2.IH" [OF sh [symmetric] refl w [symmetric] refl sol3_def rec]
  obtain pre pre2 where pre: "rest = pre @ rest2" "\<forall>b \<in> set pre. analyzed (metaOf sol2 b)"
      "rest2 = pre2 @ rest'" "\<forall>b \<in> set pre2. analyzed (metaOf sol' b)"
    using W IH by auto
  have "sol_le sol2 sol'" using s3(1) IH by (blast intro: sol_le_trans)
  then have "\<forall>b \<in> set (pre @ pre2). analyzed (metaOf sol' b)" using pre by (auto simp: sol_le_def)
  moreover have "sol_le sol sol'" using S(1) W s3(1) IH by (blast intro: sol_le_trans)
  moreover have "same_table sol sol'" using S(2) W s3(2) IH by (blast intro: same_table_trans)
  moreover have "m' \<noteq> None" using IH rec by (cases as) auto
  moreover have "length rest' \<le> 1" if "length sel < j + length (a # as)"
  proof (cases as)
    case Nil
    with that W rec show ?thesis by auto
  qed (use that IH in auto)
  ultimately show ?case using pre W IH by (intro conjI impI exI [of _ "pre @ pre2"]) auto
qed auto

definition untouched :: "SchematicSolution \<Rightarrow> SchematicSolution \<Rightarrow> bool" where
  "untouched sol sol' \<longleftrightarrow> blockMeta sol' = blockMeta sol \<and> decidedPlacements sol' = decidedPlacements sol \<and> same_table sol sol'"

lemma untouched_trans: "untouched a b \<Longrightarrow> untouched b c \<Longrightarrow> untouched a c"
  by (auto simp: untouched_def intro: same_table_trans)

lemma untouched_progress: "untouched sol sol' \<Longrightarrow> sol_le sol sol'"
  by (simp add: untouched_def sol_le_frame)

lemma untouched_alloc [simp]:
  "untouched sol sol" "untouched sol (setAllocAt r a sol)" "untouched sol (sol\<lparr>blockAllocation := m\<rparr>)"
  "untouched sol (extendBoundaryObject b a sol)"
  by (simp_all add: untouched_def setAllocAt_def same_table_def extendBoundaryObject_def split: option.split)

lemma boundaries_untouched:
  "untouched (fst p) (fst (extendStartBoundary sel trace p))" "untouched (fst p) (fst (extendEndBoundary sel trace p))"
  "untouched (fst p) (fst (unifyBoundaries sel trace p))"
proof -
  show "untouched (fst p) (fst (extendStartBoundary sel trace p))"
    by (cases p; cases "map_of (blockAllocation (fst p)) (hd trace)") (simp_all add: extendStartBoundary_def Let_def)
  show "untouched (fst p) (fst (extendEndBoundary sel trace p))"
    by (cases p; cases "map_of (blockAllocation (fst p)) (last trace)") (simp_all add: extendEndBoundary_def Let_def)
  obtain sol allocs where p: "p = (sol, allocs)" by (cases p)
  let ?s1 = "extendBoundaryObject (hd trace) (hd allocs) sol"
  let ?s2 = "extendBoundaryObject (last trace) (hd allocs) ?s1"
  have "untouched ?s2 (fst (unifyBoundaries sel trace p))" if "sel = []"
    using that by (cases "map_of (blockAllocation ?s2) (hd trace)"; cases "map_of (blockAllocation ?s2) (last trace)")
      (simp_all add: unifyBoundaries_def p Let_def)
  moreover have "untouched sol ?s2" by (rule untouched_trans [of _ ?s1]) simp_all
  ultimately show "untouched (fst p) (fst (unifyBoundaries sel trace p))"
    by (cases "sel = []") (auto simp: p unifyBoundaries_def intro: untouched_trans)
qed

lemma seeds_frame: "sol_le sol (foldl (seedCheckpoint env) sol cs) \<and> same_table sol (foldl (seedCheckpoint env) sol cs)"
proof (rule foldl_invariant [of "\<lambda>s. sol_le sol s \<and> same_table sol s"])
  show "sol_le sol (seedCheckpoint env s x) \<and> same_table sol (seedCheckpoint env s x)"
    if "sol_le sol s \<and> same_table sol s" for s x
  proof -
    obtain a b v where x: "x = (a, b, v)" by (cases x)
    have "sol_le s (seedForward env a b v s) \<and> same_table s (seedForward env a b v s)"
      by (simp add: seedForward_def Let_def propagation_progress)
    moreover have "sol_le t (seedBackward env a b t) \<and> same_table t (seedBackward env a b t)" for t
      by (simp add: seedBackward_def Let_def propagation_progress)
    ultimately show ?thesis
      using that by (auto simp: seedCheckpoint_def x intro: sol_le_trans same_table_trans)
  qed
qed simp


section \<open>Properties\<close>

lemma boundaries_length:
  "length (snd (extendStartBoundary sel trace p)) = length (snd p)"
  "length (snd (extendEndBoundary sel trace p)) = length (snd p)"
  "length (snd (unifyBoundaries sel trace p)) = length (snd p)"
  by (simp_all add: extendStartBoundary_def extendEndBoundary_def unifyBoundaries_def case_prod_unfold Let_def split: option.split)

lemma applyMemoryAllocation_steps:
  assumes "applyMemoryAllocation env result trace origin sol = Inr sol'"
  obtains sol2 allocs m rest sol3 sol4 where
    "3 \<le> length trace"
    "untouched (updateCheckpointType (pe_graph env) trace (selectedCheckpoints result) origin sol) sol2"
    "allocations result = [] \<longleftrightarrow> allocs = []" "length allocs = length (allocations result)"
    "applyIntervals (selectedCheckpoints result) (intervalBlocks result) 0 allocs None trace sol2 = (m, rest, sol3)"
    "sol4 = (case m of Some r \<Rightarrow> assignBlock (hd rest) (vars (allocAt sol3 r)) r sol3 | None \<Rightarrow> sol3)"
    "sol_le sol4 sol' \<and> same_table sol4 sol'"
proof -
  let ?sel = "selectedCheckpoints result"
  let ?sol1 = "updateCheckpointType (pe_graph env) trace ?sel origin sol"
  let ?p1 = "extendStartBoundary ?sel trace (?sol1, allocations result)"
  let ?p3 = "unifyBoundaries ?sel trace (extendEndBoundary ?sel trace ?p1)"
  define p where "p = extendBoundaries ?sel trace (allocations result) ?sol1"
  have len: "length (snd p) = length (allocations result)"
    by (simp add: p_def extendBoundaries_def boundaries_length)
  have "untouched ?sol1 (fst ?p3)"
    using boundaries_untouched(1) [of "(?sol1, allocations result)" ?sel trace] boundaries_untouched(2) [of ?p1 ?sel trace]
      boundaries_untouched(3) [of "extendEndBoundary ?sel trace ?p1" ?sel trace]
    by (auto intro: untouched_trans)
  then have un: "untouched ?sol1 (fst p)" by (simp add: p_def extendBoundaries_def)
  obtain m rest sol3 where ai: "applyIntervals ?sel (intervalBlocks result) 0 (snd p) None trace (fst p) = (m, rest, sol3)"
    by (cases "applyIntervals ?sel (intervalBlocks result) 0 (snd p) None trace (fst p)")
  define sol4 where "sol4 = (case m of Some r \<Rightarrow> assignBlock (hd rest) (vars (allocAt sol3 r)) r sol3 | None \<Rightarrow> sol3)"
  have t: "3 \<le> length trace" using assms by (simp add: applyMemoryAllocation_def split: if_splits)
  have "sol' = foldl (seedCheckpoint env) sol4
      ((nullptr, hd trace, True) # map (\<lambda>e. (src e, dst e, False)) ?sel @ [(last trace, nullptr, True)])"
    using assms t by (cases m)
      (simp_all add: applyMemoryAllocation_def sol4_def Let_def case_prod_unfold ai [unfolded p_def])
  then have "sol_le sol4 sol' \<and> same_table sol4 sol'" by (simp only: seeds_frame)
  with t un len ai sol4_def show ?thesis
    by (intro that [of "fst p" "snd p" m rest sol3 sol4]) (auto simp flip: length_0_conv)
qed

lemma apply_progress:
  assumes "applyMemoryAllocation env result trace origin sol = Inr sol'"
  shows "sol_le sol sol' \<and> (ckpt_wf sol \<longrightarrow> ckpt_wf sol')"
proof -
  obtain sol2 allocs m rest sol3 sol4 where s:
    "untouched (updateCheckpointType (pe_graph env) trace (selectedCheckpoints result) origin sol) sol2"
    "applyIntervals (selectedCheckpoints result) (intervalBlocks result) 0 allocs None trace sol2 = (m, rest, sol3)"
    "sol4 = (case m of Some r \<Rightarrow> assignBlock (hd rest) (vars (allocAt sol3 r)) r sol3 | None \<Rightarrow> sol3)"
    "sol_le sol4 sol' \<and> same_table sol4 sol'"
    by (rule applyMemoryAllocation_steps [OF assms])
  let ?sol1 = "updateCheckpointType (pe_graph env) trace (selectedCheckpoints result) origin sol"
  have "sol_le sol3 sol4 \<and> same_table sol3 sol4"
    by (simp add: s(3) assignBlock_progress split: option.split)
  with s(2,4) applyIntervals_correct [OF s(2)] untouched_progress [OF s(1)]
  have le: "sol_le ?sol1 sol'" by (blast intro: sol_le_trans)
  have "same_table ?sol1 sol'"
    using s applyIntervals_correct [OF s(2)] \<open>sol_le sol3 sol4 \<and> same_table sol3 sol4\<close>
    by (auto simp: untouched_def intro: same_table_trans)
  with le updateCheckpointType_progress updateCheckpointType_wf show ?thesis
    by (metis same_table_ckpt_wf sol_le_trans)
qed

lemma apply_settles:
  assumes "applyMemoryAllocation env result trace origin sol = Inr sol'"
    and "length (allocations result) = Suc (length (selectedCheckpoints result))"
  shows "(\<forall>e \<in> set (traceEdges trace). getCheckpointState (pe_graph env) sol' e =
      (if resolveCheckpointEdge (pe_graph env) e \<in> resolveCheckpointEdge (pe_graph env) ` set (selectedCheckpoints result)
       then Active else Disabled)) \<and>
    (\<forall>b \<in> set trace. isAnalyzed sol' b)"
proof -
  let ?sel = "selectedCheckpoints result"
  obtain sol2 allocs m rest sol3 sol4 where s: "3 \<le> length trace"
    "untouched (updateCheckpointType (pe_graph env) trace ?sel origin sol) sol2"
    "allocations result = [] \<longleftrightarrow> allocs = []" "length allocs = length (allocations result)"
    "applyIntervals ?sel (intervalBlocks result) 0 allocs None trace sol2 = (m, rest, sol3)"
    "sol4 = (case m of Some r \<Rightarrow> assignBlock (hd rest) (vars (allocAt sol3 r)) r sol3 | None \<Rightarrow> sol3)"
    "sol_le sol4 sol' \<and> same_table sol4 sol'"
    by (rule applyMemoryAllocation_steps [OF assms(1)])
  let ?sol1 = "updateCheckpointType (pe_graph env) trace ?sel origin sol"
  note A = applyIntervals_correct [OF s(5)]
  from A assms(2) s(3,4) obtain r pre where r: "m = Some r" and pre: "trace = pre @ rest" "\<forall>b \<in> set pre. analyzed (metaOf sol3 b)"
    and len: "length rest \<le> 1" "rest \<noteq> []" using s(1) by (cases m) auto
  then obtain z where z: "rest = [z]" by (cases rest) auto
  have s4: "sol_le sol3 sol4" "same_table sol3 sol4" "analyzed (metaOf sol4 z)"
    by (simp_all add: s(6) r z assignBlock_progress assignBlock_analyzed)
  have "\<forall>b \<in> set trace. analyzed (metaOf sol' b)"
    using pre z s4 s(7) by (auto simp: sol_le_def)
  moreover have "same_table ?sol1 sol'"
    using s(2,7) A s4(2) by (auto simp: untouched_def intro: same_table_trans)
  then have "getCheckpointState (pe_graph env) sol' = getCheckpointState (pe_graph env) ?sol1"
    by (rule same_table_state)
  ultimately show ?thesis
    by (auto simp: isAnalyzed_metaOf updateCheckpointType_state)
qed


text \<open>Applying a result never revises an earlier decision: blocks stay analysed, decided placements stay,
  \<open>E_left\<close> only falls, \<open>E_to_leave\<close> only rises, and the checkpoint table stays well formed.\<close>

theorem applyMemoryAllocation_progress:
  assumes "applyMemoryAllocation env result trace origin sol = Inr sol'"
  shows "sol_le sol sol' \<and> (ckpt_wf sol \<longrightarrow> ckpt_wf sol')"
  using assms by (rule apply_progress)

text \<open>Applying a feasible result settles the trace: the solver's selected edges are Active and every
  other edge of the trace is Disabled, and every block of the trace is analysed.\<close>

theorem applyMemoryAllocation_settles_trace:
  assumes "applyMemoryAllocation env result trace origin sol = Inr sol'"
    and "length (allocations result) = Suc (length (selectedCheckpoints result))"
  shows "(\<forall>e \<in> set (traceEdges trace). getCheckpointState (pe_graph env) sol' e =
      (if resolveCheckpointEdge (pe_graph env) e \<in> resolveCheckpointEdge (pe_graph env) ` set (selectedCheckpoints result)
       then Active else Disabled)) \<and>
    (\<forall>b \<in> set trace. isAnalyzed sol' b)"
  using assms by (rule apply_settles)

definition sample_penv :: prop_env where
  "sample_penv = \<lparr>pe_graph = sample_graph4, pe_LI = no_loops, pe_scope = None, pe_cfg = sample_cfg4,
     pe_state = sample_state0, pe_params = sample_params\<lparr>capacity := 150\<rparr>\<rparr>"

lemma applyMemoryAllocation_returns:
  assumes "3 \<le> length trace"
  shows "\<exists>sol'. applyMemoryAllocation env result trace origin sol = Inr sol'"
  using assms by (simp add: applyMemoryAllocation_def Let_def case_prod_unfold)

theorem applyMemoryAllocation_progress_witness:
  "\<exists>sol'. applyMemoryAllocation sample_penv sample_result [1, 2, 3, 4] ''t'' emptySolution = Inr sol' \<and>
     sol_le emptySolution sol' \<and> ckpt_wf sol'"
proof -
  obtain sol' where s: "applyMemoryAllocation sample_penv sample_result [1, 2, 3, 4] ''t'' emptySolution = Inr sol'"
    using applyMemoryAllocation_returns [of "[1, 2, 3, 4]" sample_penv sample_result "''t''" emptySolution] by auto
  with applyMemoryAllocation_progress [OF s] show ?thesis
    by (auto simp: ckpt_wf_def emptySolution_def)
qed

theorem applyMemoryAllocation_settles_trace_witness:
  "\<exists>sol'. applyMemoryAllocation sample_penv sample_result [1, 2, 3, 4] ''t'' emptySolution = Inr sol' \<and>
     getCheckpointState sample_graph4 sol' (CFGEdge 2 3) = Active \<and>
     getCheckpointState sample_graph4 sol' (CFGEdge 1 2) = Disabled \<and> isAnalyzed sol' 3"
proof -
  obtain sol' where s: "applyMemoryAllocation sample_penv sample_result [1, 2, 3, 4] ''t'' emptySolution = Inr sol'"
    using applyMemoryAllocation_returns [of "[1, 2, 3, 4]" sample_penv sample_result "''t''" emptySolution] by auto
  have r: "resolveCheckpointEdge sample_graph4 (CFGEdge a (Suc a)) = CFGEdge a (Suc a)" if "a \<in> {1, 2, 3}" for a
    using that by (auto simp: resolveCheckpointEdge_def successors_def blockAt_def sample_graph4_def omap_get_def sample_block_def)
  from r [of 1] r [of 2] have r': "resolveCheckpointEdge sample_graph4 (CFGEdge 1 2) = CFGEdge 1 2"
      "resolveCheckpointEdge sample_graph4 (CFGEdge 2 3) = CFGEdge 2 3"
    by (simp_all add: eval_nat_numeral)
  have len: "length (allocations sample_result) = Suc (length (selectedCheckpoints sample_result))"
    by (simp add: sample_result_def)
  have e: "CFGEdge 2 3 \<in> set (traceEdges [1, 2, 3, 4])" "CFGEdge 1 2 \<in> set (traceEdges [1, 2, 3, 4])"
    by (simp_all add: traceEdges_def)
  have sel: "set (selectedCheckpoints sample_result) = {CFGEdge 2 3}" "pe_graph sample_penv = sample_graph4"
    by (simp_all add: sample_result_def sample_penv_def)
  note T = applyMemoryAllocation_settles_trace [OF s len]
  have "getCheckpointState sample_graph4 sol' (CFGEdge 2 3) = Active"
    using T e(1) by (simp add: sel r' del: One_nat_def)
  moreover have "getCheckpointState sample_graph4 sol' (CFGEdge 1 2) = Disabled"
    using T e(2) by (simp add: sel r' del: One_nat_def)
  ultimately show ?thesis using T s by simp
qed

end
