(* ===== verification/TraceAnalyzer.thy ===== *)
theory TraceAnalyzer
  imports ApplyAllocation
begin

text \<open>
  The trace analyzer of SCHEMATIC (\<open>passes/src/schematic/TraceAnalyzer.cpp\<close>): a trace is cut into
  its parts not analysed yet, each part is solved and applied; blocks no trace covers get a trace of
  their own; edges between analysed blocks are decided; and the energy of disabled edges is
  refreshed until it is stable or the iteration bound is reached.

  The mutable state is the record \<open>trace_state\<close>: the block graph (\<open>getOrCreate\<close> may add a node),
  the solution and the VM address tracker. The const arguments are \<open>trace_env\<close>; block names are
  LLVM's and an argument. A result is \<open>None\<close> for success or the error, with the state reached; the two
  fatal errors of the callees end the program.

  Results: the parts cut from a trace are contiguous, cover every block not analysed and are long
  enough for the solver when the trace's ends are analysed; a successful analysis leaves every
  block of the trace analysed; every edge between analysed blocks is decided, and disabled only when
  the allocations agree and the energy suffices; compatible allocations merge without overlap.
\<close>

section \<open>State and arguments\<close>

record trace_env =
  ta_LI :: loop_info
  ta_scope :: "loop_id option"
  ta_cfg :: CFGAnalysis
  ta_state :: SchematicStateAnalysis
  ta_params :: SchematicParams
  ta_bbName :: "bb_ptr \<Rightarrow> string"

record trace_state =
  ts_graph :: SchematicGraph
  ts_sol :: SchematicSolution
  ts_tracker :: "VMAddressTracker option"

datatype analyze_error = Infeasible rcg_message | SolverFatal rcg_error | ApplyFatal apply_error

definition propEnv :: "trace_env \<Rightarrow> SchematicGraph \<Rightarrow> prop_env" where
  "propEnv te g = \<lparr>pe_graph = g, pe_LI = ta_LI te, pe_scope = ta_scope te, pe_cfg = ta_cfg te,
     pe_state = ta_state te, pe_params = ta_params te\<rparr>"

definition solverEnv :: "trace_env \<Rightarrow> trace_state \<Rightarrow> block_ptr list \<Rightarrow> rcg_env" where
  "solverEnv te ts path = \<lparr>pathBlocks = path, rc_graph = ts_graph ts, rc_state = ta_state te, rc_cfg = ta_cfg te,
     rc_params = ta_params te, existingMeta = blockMeta (ts_sol ts), rc_blockAllocation = findAllocation (ts_sol ts),
     callBlocks = functionCallBlocks (ts_sol ts)\<rparr>"

definition displayName :: "trace_env \<Rightarrow> SchematicGraph \<Rightarrow> block_ptr \<Rightarrow> string" where
  "displayName te g b = (if getLLVMBlock g b \<noteq> nullptr then ta_bbName te (getLLVMBlock g b) else getName g b)"

definition scopeName :: "trace_env \<Rightarrow> string" where
  "scopeName te = (if ta_scope te = None then ''function'' else ''loop'')"

definition describeFixedEdgeOrigin :: "trace_env \<Rightarrow> string \<Rightarrow> bb_ptr \<Rightarrow> bb_ptr \<Rightarrow> string" where
  "describeFixedEdgeOrigin te reason srcBB dstBB =
     scopeName te @ ''-'' @ reason @ ''['' @ ta_bbName te srcBB @ '' -> '' @ ta_bbName te dstBB @ '']''"

definition describeTraceOrigin :: "trace_env \<Rightarrow> SchematicGraph \<Rightarrow> block_ptr list \<Rightarrow> string" where
  "describeTraceOrigin te g trace =
     scopeName te @ ''-rcg['' @ displayName te g (hd trace) @ '' -> '' @ displayName te g (last trace) @ '']''"

section \<open>Cutting a trace into its parts not analysed\<close>

record cut_state =
  cut_paths :: "block_ptr list list"
  currentPath :: "block_ptr list"
  registeringPath :: bool
  lastFixedBB :: "block_ptr option"

definition registerBlock :: "(block_ptr \<Rightarrow> bool) \<Rightarrow> block_ptr \<Rightarrow> cut_state \<Rightarrow> cut_state" where
  "registerBlock isFixed block c =
     (if registeringPath c then
        let current = currentPath c @ [block]
        in if isFixed block
           then c\<lparr>cut_paths := cut_paths c @ [current], currentPath := [], registeringPath := False\<rparr>
           else c\<lparr>currentPath := current\<rparr>
      else c)"

definition openPath :: "(block_ptr \<Rightarrow> bool) \<Rightarrow> block_ptr \<Rightarrow> cut_state \<Rightarrow> cut_state" where
  "openPath isFixed block c =
     (if registeringPath c then c
      else if isFixed block then c\<lparr>lastFixedBB := Some block\<rparr>
      else c\<lparr>registeringPath := True,
             currentPath := currentPath c @ (case lastFixedBB c of Some b \<Rightarrow> [b] | None \<Rightarrow> []) @ [block],
             lastFixedBB := None\<rparr>)"

definition cutStep :: "(block_ptr \<Rightarrow> bool) \<Rightarrow> cut_state \<Rightarrow> block_ptr \<Rightarrow> cut_state" where
  "cutStep isFixed c block = openPath isFixed block (registerBlock isFixed block c)"

definition cutInit :: cut_state where
  "cutInit = \<lparr>cut_paths = [], currentPath = [], registeringPath = False, lastFixedBB = None\<rparr>"

definition cutTrace :: "(block_ptr \<Rightarrow> bool) \<Rightarrow> block_ptr list \<Rightarrow> block_ptr list list" where
  "cutTrace isFixed trace =
     (let c = foldl (cutStep isFixed) cutInit trace
      in if registeringPath c then cut_paths c @ [currentPath c] else cut_paths c)"

definition extractNotFixedBBPaths :: "block_ptr list \<Rightarrow> SchematicSolution \<Rightarrow> block_ptr list list" where
  "extractNotFixedBBPaths trace sol = cutTrace (isAnalyzed sol) trace"

section \<open>Compatibility of two allocations\<close>

definition intervalIsEmpty :: "RegionAllocation \<Rightarrow> u32 \<Rightarrow> u32 \<Rightarrow> SchematicStateAnalysis \<Rightarrow> bool" where
  "intervalIsEmpty alloc startAddr endAddr st \<longleftrightarrow>
     list_all (\<lambda>(v, va).
       if placement va \<noteq> VM then True
       else case map_of (vmOffsets alloc) v of
         None \<Rightarrow> True
       | Some iStart \<Rightarrow> \<not> overlaps startAddr endAddr iStart (iStart + getVarSizeBytes st v)) (vars alloc)"

definition compatibleVar ::
  "RegionAllocation \<Rightarrow> RegionAllocation \<Rightarrow> SchematicStateAnalysis \<Rightarrow> value_ptr \<times> VariableAllocation \<Rightarrow> bool" where
  "compatibleVar self other st p =
     (let (v, varAlloc) = p
      in case map_of (vars self) v of
           None \<Rightarrow>
             if placement varAlloc = VM then
               (case map_of (vmOffsets other) v of
                  None \<Rightarrow> True
                | Some startAddr \<Rightarrow> intervalIsEmpty self startAddr (startAddr + getVarSizeBytes st v) st)
             else True
         | Some selfAlloc \<Rightarrow>
             if placement varAlloc \<noteq> placement selfAlloc then False
             else if placement varAlloc = VM
             then omap_get 0 (vmOffsets self) v = omap_get 0 (vmOffsets other) v
             else True)"

definition isCompatibleOneWay :: "RegionAllocation \<Rightarrow> RegionAllocation \<Rightarrow> SchematicStateAnalysis \<Rightarrow> bool" where
  "isCompatibleOneWay self other st \<longleftrightarrow> list_all (compatibleVar self other st) (vars other)"

definition isCompatibleWith :: "RegionAllocation \<Rightarrow> RegionAllocation \<Rightarrow> SchematicStateAnalysis \<Rightarrow> bool" where
  "isCompatibleWith a b st \<longleftrightarrow> isCompatibleOneWay a b st \<and> isCompatibleOneWay b a st"

section \<open>Analysing a trace\<close>

fun analyzeSubPaths :: "trace_env \<Rightarrow> block_ptr list list \<Rightarrow> trace_state \<Rightarrow> analyze_error option \<times> trace_state" where
  "analyzeSubPaths te [] ts = (None, ts)"
| "analyzeSubPaths te (subPath # subs) ts =
     (case solve (solverEnv te ts subPath) (ts_tracker ts) of
        Inl e \<Rightarrow> (Some (SolverFatal e), ts)
      | Inr (result, tracker') \<Rightarrow>
          let ts1 = ts\<lparr>ts_tracker := tracker'\<rparr>
          in if \<not> feasible result then (Some (Infeasible (errorMessage result)), ts1)
             else case applyMemoryAllocation (propEnv te (ts_graph ts)) result subPath
                         (describeTraceOrigin te (ts_graph ts) subPath) (ts_sol ts) of
                    Inl e \<Rightarrow> (Some (ApplyFatal e), ts1)
                  | Inr sol' \<Rightarrow> analyzeSubPaths te subs (ts1\<lparr>ts_sol := sol'\<rparr>))"

definition analyzeTrace :: "trace_env \<Rightarrow> block_ptr list \<Rightarrow> trace_state \<Rightarrow> analyze_error option \<times> trace_state" where
  "analyzeTrace te trace ts =
     (if list_all (isAnalyzed (ts_sol ts)) trace then (None, ts)
      else analyzeSubPaths te (extractNotFixedBBPaths trace (ts_sol ts)) ts)"

section \<open>A trace for a block no trace covers\<close>

text \<open>The stack of the walk never holds more than one block: each step pushes at most the first
  successor not analysed.\<close>

function walkUnfixed ::
  "SchematicGraph \<Rightarrow> SchematicSolution \<Rightarrow> block_ptr set \<Rightarrow> block_ptr list \<Rightarrow> block_ptr \<Rightarrow> block_ptr list" where
  "walkUnfixed g sol visited acc bb =
     (if bb \<in> visited \<or> isAnalyzed sol bb then acc
      else case find (\<lambda>n. \<not> isAnalyzed sol n) (successors g bb) of
             None \<Rightarrow> acc @ [bb]
           | Some nxt \<Rightarrow> walkUnfixed g sol (insert bb visited) (acc @ [bb]) nxt)"
  by pat_completeness auto
termination
proof (relation "measure (\<lambda>(g, sol, v, acc, bb). card (fst ` set (graphBlocks g) - v))", goal_cases)
  case (2 g sol visited acc bb nxt)
  have "successors g bb \<noteq> []" using 2(2) by auto
  then have "bb \<in> fst ` set (graphBlocks g)" using successors_outside by blast
  with 2(1) have "fst ` set (graphBlocks g) - insert bb visited \<subset> fst ` set (graphBlocks g) - visited" by auto
  then show ?case by (simp add: psubset_card_mono)
qed auto

declare walkUnfixed.simps [simp del]

definition extractNotFixedBBTrace :: "SchematicGraph \<Rightarrow> block_ptr \<Rightarrow> SchematicSolution \<Rightarrow> block_ptr list" where
  "extractNotFixedBBTrace g startBB sol =
     (let front = (case find (isAnalyzed sol) (predecessors g startBB) of Some p \<Rightarrow> [p] | None \<Rightarrow> []);
          body = walkUnfixed g sol {} [] startBB;
          back = (if body = [] then []
                  else case find (isAnalyzed sol) (successors g (last body)) of Some s \<Rightarrow> [s] | None \<Rightarrow> [])
      in front @ body @ back)"

fun analyzeBlocks :: "trace_env \<Rightarrow> bb_ptr list \<Rightarrow> trace_state \<Rightarrow> analyze_error option \<times> trace_state" where
  "analyzeBlocks te [] ts = (None, ts)"
| "analyzeBlocks te (BB # BBs) ts =
     (if (case ta_scope te of Some L \<Rightarrow> \<not> loopContains (ta_LI te) L BB | None \<Rightarrow> False) then analyzeBlocks te BBs ts
      else
        let (block, g') = getOrCreate (ta_bbName te) BB (ts_graph ts);
            ts1 = ts\<lparr>ts_graph := g'\<rparr>
        in if isAnalyzed (ts_sol ts1) block then analyzeBlocks te BBs ts1
           else case analyzeTrace te (extractNotFixedBBTrace g' block (ts_sol ts1)) ts1 of
                  (Some e, ts2) \<Rightarrow> (Some e, ts2)
                | (None, ts2) \<Rightarrow> analyzeBlocks te BBs ts2)"

definition findAndAnalyzeNotFixedPaths :: "trace_env \<Rightarrow> trace_state \<Rightarrow> analyze_error option \<times> trace_state" where
  "findAndAnalyzeNotFixedPaths te ts = analyzeBlocks te (cfg_blocks (ta_cfg te)) ts"

section \<open>Edges between analysed blocks\<close>

record FixedCheckpointEdge =
  fe_srcBB :: bb_ptr
  fe_dstBB :: bb_ptr
  fe_srcBlock :: block_ptr
  fe_dstBlock :: block_ptr
  fe_edge :: CFGEdge
  fe_srcAlloc :: RegionAllocation
  fe_dstAlloc :: RegionAllocation

definition isEdgeOutsideLoopScope :: "trace_env \<Rightarrow> bb_ptr \<Rightarrow> bb_ptr \<Rightarrow> bool" where
  "isEdgeOutsideLoopScope te s d \<longleftrightarrow>
     (case ta_scope te of
        None \<Rightarrow> False
      | Some L \<Rightarrow> \<not> loopContains (ta_LI te) L s \<or> \<not> loopContains (ta_LI te) L d)"

definition isLoopBackEdge :: "loop_info \<Rightarrow> bb_ptr \<Rightarrow> bb_ptr \<Rightarrow> bool" where
  "isLoopBackEdge LI s d \<longleftrightarrow>
     (case getLoopFor LI d of Some L \<Rightarrow> d = getHeader LI L \<and> loopContains LI L s | None \<Rightarrow> False)"

definition getFixedCheckpointEdgeWithState ::
  "trace_env \<Rightarrow> CheckpointState \<Rightarrow> bb_ptr \<times> bb_ptr \<Rightarrow> SchematicGraph \<times> SchematicSolution
     \<Rightarrow> FixedCheckpointEdge option \<times> SchematicGraph" where
  "getFixedCheckpointEdgeWithState te required cfgEdge gs =
     (let (srcBB, dstBB) = cfgEdge; (g, sol) = gs
      in if isEdgeOutsideLoopScope te srcBB dstBB then (None, g)
         else
           let (srcBlock, g1) = getOrCreate (ta_bbName te) srcBB g;
               (dstBlock, g2) = getOrCreate (ta_bbName te) dstBB g1;
               edge = CFGEdge srcBlock dstBlock
           in if getCheckpointState g2 sol edge \<noteq> required then (None, g2)
              else if isLoopBackEdge (ta_LI te) srcBB dstBB then (None, g2)
              else if \<not> isAnalyzed sol srcBlock \<or> \<not> isAnalyzed sol dstBlock then (None, g2)
              else case (findAllocation sol srcBlock, findAllocation sol dstBlock) of
                     (Some srcAlloc, Some dstAlloc) \<Rightarrow>
                       (Some \<lparr>fe_srcBB = srcBB, fe_dstBB = dstBB, fe_srcBlock = srcBlock, fe_dstBlock = dstBlock,
                              fe_edge = edge, fe_srcAlloc = srcAlloc, fe_dstAlloc = dstAlloc\<rparr>, g2)
                   | _ \<Rightarrow> (None, g2))"

definition canMergeWithoutCheckpoint :: "SchematicSolution \<Rightarrow> FixedCheckpointEdge \<Rightarrow> bool" where
  "canMergeWithoutCheckpoint sol e \<longleftrightarrow>
     E_left (metaOf sol (fe_srcBlock e)) > E_to_leave (metaOf sol (fe_dstBlock e))"

definition allocationsAreCompatible :: "FixedCheckpointEdge \<Rightarrow> SchematicStateAnalysis \<Rightarrow> bool" where
  "allocationsAreCompatible e st \<longleftrightarrow> isCompatibleWith (fe_srcAlloc e) (fe_dstAlloc e) st"

definition enableFixedEdgeCheckpoint ::
  "trace_env \<Rightarrow> SchematicGraph \<Rightarrow> FixedCheckpointEdge \<Rightarrow> string \<Rightarrow> SchematicSolution \<Rightarrow> SchematicSolution" where
  "enableFixedEdgeCheckpoint te g e reason sol =
     enableCheckpoint g (fe_edge e) (describeFixedEdgeOrigin te reason (fe_srcBB e) (fe_dstBB e)) sol"

definition propagateAcross :: "trace_env \<Rightarrow> SchematicGraph \<Rightarrow> FixedCheckpointEdge \<Rightarrow> SchematicSolution \<Rightarrow> SchematicSolution" where
  "propagateAcross te g e sol =
     (let sol1 = propagateEnergyLeft (propEnv te g) (fe_edge e) (E_left (metaOf sol (fe_srcBlock e))) sol
      in propagateEnergyToLeave (propEnv te g) (fe_edge e) (E_to_leave (metaOf sol1 (fe_dstBlock e))) sol1)"

definition disableFixedEdgeCheckpointAndPropagate ::
  "trace_env \<Rightarrow> SchematicGraph \<Rightarrow> FixedCheckpointEdge \<Rightarrow> SchematicSolution \<Rightarrow> SchematicSolution" where
  "disableFixedEdgeCheckpointAndPropagate te g e sol = propagateAcross te g e (disableCheckpoint g (fe_edge e) sol)"

definition decideFixedEdge ::
  "trace_env \<Rightarrow> SchematicGraph \<times> SchematicSolution \<Rightarrow> bb_ptr \<times> bb_ptr \<Rightarrow> SchematicGraph \<times> SchematicSolution" where
  "decideFixedEdge te gs cfgEdge =
     (case getFixedCheckpointEdgeWithState te Potential cfgEdge gs of
        (None, g') \<Rightarrow> (g', snd gs)
      | (Some e, g') \<Rightarrow>
          (g', if \<not> allocationsAreCompatible e (ta_state te)
               then enableFixedEdgeCheckpoint te g' e ''fixed-edge-incompatible'' (snd gs)
               else if canMergeWithoutCheckpoint (snd gs) e
               then disableFixedEdgeCheckpointAndPropagate te g' e (snd gs)
               else enableFixedEdgeCheckpoint te g' e ''fixed-edge-energy'' (snd gs)))"

definition removePotentialCheckpointsBetweenFixedBBs ::
  "trace_env \<Rightarrow> SchematicGraph \<times> SchematicSolution \<Rightarrow> SchematicGraph \<times> SchematicSolution" where
  "removePotentialCheckpointsBetweenFixedBBs te gs = foldl (decideFixedEdge te) gs (cfg_edges (ta_cfg te))"

section \<open>Refreshing the energy of disabled edges\<close>

type_synonym energy_snapshot = "(block_ptr, double \<times> double) omap"

definition captureEnergySnapshot :: "trace_env \<Rightarrow> SchematicGraph \<Rightarrow> SchematicSolution \<Rightarrow> energy_snapshot" where
  "captureEnergySnapshot te g sol =
     foldl (\<lambda>snap (block, m).
         if \<not> analyzed m then snap
         else let BB = getLLVMBlock g block
              in if (case ta_scope te of Some L \<Rightarrow> BB \<noteq> nullptr \<and> \<not> loopContains (ta_LI te) L BB | None \<Rightarrow> False) then snap
                 else omap_put block (E_left m, E_to_leave m) snap)
       [] (blockMeta sol)"

definition snapshot_eps :: double where
  "snapshot_eps = 1 / 10 ^ 9"

definition energySnapshotsDiffer :: "energy_snapshot \<Rightarrow> energy_snapshot \<Rightarrow> bool" where
  "energySnapshotsDiffer before after \<longleftrightarrow>
     length before \<noteq> length after \<or>
     list_ex (\<lambda>((b1, l1, t1), (b2, l2, t2)).
       b1 \<noteq> b2 \<or> \<bar>l1 - l2\<bar> > snapshot_eps \<or> \<bar>t1 - t2\<bar> > snapshot_eps) (zip before after)"

definition refreshEdge ::
  "trace_env \<Rightarrow> SchematicGraph \<times> SchematicSolution \<Rightarrow> bb_ptr \<times> bb_ptr \<Rightarrow> SchematicGraph \<times> SchematicSolution" where
  "refreshEdge te gs cfgEdge =
     (case getFixedCheckpointEdgeWithState te Disabled cfgEdge gs of
        (None, g') \<Rightarrow> (g', snd gs)
      | (Some e, g') \<Rightarrow>
          if \<not> allocationsAreCompatible e (ta_state te) then (g', snd gs)
          else (g', propagateAcross te g' e (snd gs)))"

fun refreshLoop ::
  "trace_env \<Rightarrow> nat \<Rightarrow> bool \<Rightarrow> SchematicGraph \<times> SchematicSolution \<Rightarrow> bool \<times> SchematicGraph \<times> SchematicSolution" where
  "refreshLoop te 0 anyChanged gs = (anyChanged, gs)"
| "refreshLoop te (Suc iter) anyChanged gs =
     (let before = captureEnergySnapshot te (fst gs) (snd gs);
          gs' = foldl (refreshEdge te) gs (cfg_edges (ta_cfg te));
          after = captureEnergySnapshot te (fst gs') (snd gs')
      in if \<not> energySnapshotsDiffer before after then (anyChanged, gs')
         else refreshLoop te iter True gs')"

definition refreshDisabledCheckpointEnergy ::
  "trace_env \<Rightarrow> SchematicGraph \<times> SchematicSolution \<Rightarrow> bool \<times> SchematicGraph \<times> SchematicSolution" where
  "refreshDisabledCheckpointEnergy te gs = refreshLoop te (max 1 (length (cfg_edges (ta_cfg te)))) False gs"


section \<open>The parts of a trace\<close>

definition closed_part :: "(block_ptr \<Rightarrow> bool) \<Rightarrow> block_ptr list \<Rightarrow> block_ptr list \<Rightarrow> bool" where
  "closed_part fixed trace p \<longleftrightarrow>
     (\<exists>a b. trace = a @ p @ b \<and> p \<noteq> [] \<and> (a = [] \<or> fixed (hd p)) \<and> (b = [] \<or> fixed (last p)) \<and>
        (\<exists>x \<in> set p. \<not> fixed x) \<and> (\<forall>x \<in> set (butlast (tl p)). \<not> fixed x))"

definition open_part :: "(block_ptr \<Rightarrow> bool) \<Rightarrow> block_ptr list \<Rightarrow> block_ptr list \<Rightarrow> bool" where
  "open_part fixed trace p \<longleftrightarrow>
     (\<exists>a. trace = a @ p \<and> p \<noteq> [] \<and> (a = [] \<or> fixed (hd p)) \<and> \<not> fixed (last p) \<and> (\<forall>x \<in> set (tl p). \<not> fixed x))"

definition cut_inv :: "(block_ptr \<Rightarrow> bool) \<Rightarrow> block_ptr list \<Rightarrow> cut_state \<Rightarrow> bool" where
  "cut_inv fixed pre c \<longleftrightarrow>
     (\<forall>p \<in> set (cut_paths c). closed_part fixed pre p \<and> fixed (last p)) \<and>
     (\<forall>x \<in> set pre. \<not> fixed x \<longrightarrow> x \<in> \<Union> (set ` set (cut_paths c)) \<union> set (currentPath c)) \<and>
     (if registeringPath c then open_part fixed pre (currentPath c)
      else currentPath c = [] \<and>
        (if pre = [] then lastFixedBB c = None else lastFixedBB c = Some (last pre) \<and> fixed (last pre)))"

lemma closed_part_snoc: "closed_part fixed pre p \<Longrightarrow> fixed (last p) \<Longrightarrow> closed_part fixed (pre @ [x]) p"
  unfolding closed_part_def by (metis append.assoc)

lemma open_part_close:
  assumes "open_part fixed pre p" and "fixed x"
  shows "closed_part fixed (pre @ [x]) (p @ [x])"
proof -
  from assms(1) obtain a where a: "pre = a @ p" "p \<noteq> []" "a = [] \<or> fixed (hd p)" "\<not> fixed (last p)" "\<forall>x \<in> set (tl p). \<not> fixed x"
    by (auto simp: open_part_def)
  then have "butlast (tl (p @ [x])) = tl p" by (simp add: butlast_append)
  with a show ?thesis unfolding closed_part_def
    by (intro exI [of _ a] exI [of _ "[]"]) auto
qed

lemma open_part_grow: "open_part fixed pre p \<Longrightarrow> \<not> fixed x \<Longrightarrow> open_part fixed (pre @ [x]) (p @ [x])"
  unfolding open_part_def by (metis (no_types, lifting) Un_iff append.assoc append_is_Nil_conv hd_append2 last_snoc
      list.sel(3) list.set(1) list.set(2) set_append singletonD tl_append2)

lemma cutStep_inv:
  assumes "cut_inv fixed pre c"
  shows "cut_inv fixed (pre @ [x]) (cutStep fixed c x)"
proof (cases "registeringPath c")
  case reg: True
  with assms have op: "open_part fixed pre (currentPath c)" by (simp add: cut_inv_def)
  show ?thesis
  proof (cases "fixed x")
    case True
    with assms reg open_part_close [OF op True] show ?thesis
      by (auto simp: cut_inv_def cutStep_def registerBlock_def openPath_def Let_def intro: closed_part_snoc)
  next
    case False
    with assms reg open_part_grow [OF op False] show ?thesis
      by (auto simp: cut_inv_def cutStep_def registerBlock_def openPath_def Let_def intro: closed_part_snoc)
  qed
next
  case idle: False
  show ?thesis
  proof (cases "fixed x")
    case True
    with assms idle show ?thesis
      by (auto simp: cut_inv_def cutStep_def registerBlock_def openPath_def intro: closed_part_snoc)
  next
    case False
    have "open_part fixed (pre @ [x]) ((case lastFixedBB c of Some b \<Rightarrow> [b] | None \<Rightarrow> []) @ [x])"
    proof (cases pre rule: rev_cases)
      case Nil
      with assms idle False show ?thesis by (auto simp: cut_inv_def open_part_def)
    next
      case (snoc ys y)
      with assms idle have "lastFixedBB c = Some y" "fixed y" by (auto simp: cut_inv_def)
      with snoc False show ?thesis unfolding open_part_def by (intro exI [of _ ys]) auto
    qed
    with assms idle False show ?thesis
      by (auto simp: cut_inv_def cutStep_def registerBlock_def openPath_def intro: closed_part_snoc split: option.splits)
  qed
qed

lemma cutTrace_parts:
  "(\<forall>p \<in> set (cutTrace fixed trace). closed_part fixed trace p) \<and>
   (\<forall>x \<in> set trace. \<not> fixed x \<longrightarrow> (\<exists>p \<in> set (cutTrace fixed trace). x \<in> set p))"
proof -
  have "cut_inv fixed trace (foldl (cutStep fixed) cutInit trace)"
  proof (induction trace rule: rev_induct)
    case Nil
    show ?case by (simp add: cut_inv_def cutInit_def)
  qed (simp add: cutStep_inv)
  moreover have "open_part fixed trace p \<Longrightarrow> closed_part fixed trace p" for p
    unfolding open_part_def closed_part_def
    by (metis append_Nil2 in_set_butlastD last_in_set)
  ultimately show ?thesis
    by (auto simp: cut_inv_def cutTrace_def Let_def)
qed

lemma closed_part_length:
  assumes "closed_part fixed trace p" and "fixed (hd trace)" and "fixed (last trace)"
  shows "3 \<le> length p"
proof -
  from assms(1) obtain a b where p: "trace = a @ p @ b" "p \<noteq> []" "a = [] \<or> fixed (hd p)" "b = [] \<or> fixed (last p)"
    "\<exists>x \<in> set p. \<not> fixed x" by (auto simp: closed_part_def)
  with assms have "fixed (hd p)" "fixed (last p)" by (auto simp: hd_append split: if_splits)
  with p(5) show ?thesis by (cases p; cases "tl p"; cases "tl (tl p)") auto
qed

section \<open>Compatible allocations\<close>

lemma intervalIsEmptyD:
  assumes "intervalIsEmpty a s e st" and "vm_range st a v = Some (s', e')"
  shows "\<not> overlaps s e s' e'"
proof -
  from assms(2) obtain va where va: "map_of (vars a) v = Some va" "map_of (vmOffsets a) v = Some s'" "placement va = VM"
      "e' = s' + getVarSizeBytes st v"
    by (auto simp: vm_range_def split: option.splits if_splits)
  with assms(1) map_of_SomeD [OF va(1)] show ?thesis
    by (force simp: intervalIsEmpty_def list_all_iff)
qed

lemma offsets_present_extendVar: "offsets_present t \<Longrightarrow> offsets_present (extendVar s t p)"
  by (cases p) (auto simp: extendVar_def offsets_present_def Let_def split: option.splits)

lemma extendVar_new:
  assumes "offsets_present t" and "map_of (vars t) w = None"
  shows "map_of (vars (extendVar s t (w, wa))) = (map_of (vars t))(w \<mapsto> wa)"
    and "vm_range st (extendVar s t (w, wa)) v =
      (if v = w then (case map_of (vmOffsets s) w of
           Some off \<Rightarrow> if placement wa = VM then Some (off, off + getVarSizeBytes st w) else None
         | None \<Rightarrow> None)
       else vm_range st t v)"
proof -
  have "map_of (vmOffsets t) w = None" using assms by (auto simp: offsets_present_def)
  with assms(2) show "vm_range st (extendVar s t (w, wa)) v =
      (if v = w then (case map_of (vmOffsets s) w of
           Some off \<Rightarrow> if placement wa = VM then Some (off, off + getVarSizeBytes st w) else None
         | None \<Rightarrow> None)
       else vm_range st t v)"
    by (cases "map_of (vmOffsets s) w") (simp_all add: extendVar_def Let_def vm_range_put)
  show "map_of (vars (extendVar s t (w, wa))) = (map_of (vars t))(w \<mapsto> wa)"
    using assms(2) by (cases "map_of (vmOffsets s) w") (simp_all add: extendVar_def Let_def)
qed

lemma vm_range_foldl_extendVar:
  "offsets_present t \<Longrightarrow> vm_range st (foldl (extendVar s) t vs) v =
     (case map_of (vars t) v of
        Some _ \<Rightarrow> vm_range st t v
      | None \<Rightarrow> (case (map_of vs v, map_of (vmOffsets s) v) of
          (Some va, Some off) \<Rightarrow> if placement va = VM then Some (off, off + getVarSizeBytes st v) else None
        | _ \<Rightarrow> None))"
proof (induction vs arbitrary: t)
  case Nil
  then show ?case by (auto simp: vm_range_def split: option.splits)
next
  case (Cons p vs)
  obtain w wa where p: "p = (w, wa)" by (cases p)
  note IH = Cons.IH [OF offsets_present_extendVar [OF Cons.prems], of s "(w, wa)"]
  show ?case
  proof (cases "map_of (vars t) w")
    case None
    then show ?thesis
      using IH extendVar_new(1) [OF Cons.prems None, of s wa] extendVar_new(2) [OF Cons.prems None, of st s wa v]
      by (cases "v = w") (auto simp: p split: option.split)
  next
    case (Some _)
    then have "extendVar s t (w, wa) = t" by (simp add: extendVar_def)
    with IH Some show ?thesis by (cases "v = w"; cases "map_of (vars t) v") (simp_all add: p)
  qed
qed

lemma vm_range_extends:
  "offsets_present t \<Longrightarrow> vm_range st (extendsAllocation t s) v =
     (case map_of (vars t) v of Some _ \<Rightarrow> vm_range st t v | None \<Rightarrow> vm_range st s v)"
  by (simp only: extendsAllocation_def vm_range_foldl_extendVar vm_range_def [of _ s])

lemma compatible_free:
  assumes "isCompatibleOneWay a b st" and "map_of (vars a) w = None" and "vm_range st b w = Some (s, e)"
    and "vm_range st a v = Some (s', e')"
  shows "\<not> overlaps s e s' e'"
proof -
  from assms(3) obtain wa where w: "map_of (vars b) w = Some wa" "map_of (vmOffsets b) w = Some s" "placement wa = VM"
      "e = s + getVarSizeBytes st w"
    by (auto simp: vm_range_def split: option.splits if_splits)
  with assms(1,2) map_of_SomeD [OF w(1)] have "intervalIsEmpty a s e st"
    by (force simp: isCompatibleOneWay_def list_all_iff compatibleVar_def)
  then show ?thesis by (rule intervalIsEmptyD [OF _ assms(4)])
qed

lemma compatible_agree:
  assumes "isCompatibleOneWay a b st" and "map_of (vars a) v = Some va" and "map_of (vars b) v = Some vb"
  shows "placement va = placement vb \<and>
    (placement va = VM \<longrightarrow> omap_get 0 (vmOffsets a) v = omap_get 0 (vmOffsets b) v)"
  using assms(1,2) map_of_SomeD [OF assms(3)]
  by (auto simp: isCompatibleOneWay_def list_all_iff compatibleVar_def Let_def split: if_splits dest!: bspec)


section \<open>Progress of the analyzer\<close>

lemma solve_feasible_lengths:
  assumes "solve S tr = Inr (r, tr')" and "feasible r" and "pathBlocks S \<noteq> []"
  shows "length (allocations r) = Suc (length (selectedCheckpoints r))"
proof -
  have len: "3 \<le> length (pathBlocks S)"
  proof (rule ccontr)
    assume "\<not> 3 \<le> length (pathBlocks S)"
    with assms(3) have "solve S tr = Inl MalformedTrace"
      by (simp add: solve_def createReachableCheckpointGraph_def)
    with assms(1) show False by simp
  qed
  then show ?thesis
  proof (cases rule: solve_cases [of S tr])
    case infeasible
    with assms show ?thesis by simp
  next
    case (found r' t' es)
    have "es \<noteq> []" using found(4) nodes_length_ge [of S] by auto
    with found assms show ?thesis by auto
  qed
qed

lemma solve_error: "solve S tr = Inl e \<Longrightarrow> e = MalformedTrace \<and> length (pathBlocks S) < 3"
proof (cases "3 \<le> length (pathBlocks S)")
  case True
  then show "solve S tr = Inl e \<Longrightarrow> ?thesis" by (rule solve_cases [of S tr]) auto
qed (auto simp: solve_def createReachableCheckpointGraph_def split: if_splits)

lemma solverEnv_simps [simp]: "pathBlocks (solverEnv te ts p) = p"
  by (simp add: solverEnv_def)

lemma analyzeSubPaths_correct:
  assumes "analyzeSubPaths te ps ts = (e, ts')"
  shows "sol_le (ts_sol ts) (ts_sol ts') \<and> (ckpt_wf (ts_sol ts) \<longrightarrow> ckpt_wf (ts_sol ts')) \<and> ts_graph ts' = ts_graph ts \<and>
    (e = None \<longrightarrow> (\<forall>p \<in> set ps. \<forall>b \<in> set p. isAnalyzed (ts_sol ts') b)) \<and>
    ((\<forall>p \<in> set ps. 3 \<le> length p) \<longrightarrow> e = None \<or> (\<exists>msg. e = Some (Infeasible msg)))"
  using assms
proof (induction ps arbitrary: ts)
  case (Cons p ps)
  show ?case
  proof (cases "solve (solverEnv te ts p) (ts_tracker ts)")
    case (Inl err)
    have "err = MalformedTrace \<and> length p < 3"
      using Inl solve_error [of "solverEnv te ts p" "ts_tracker ts" err] by simp
    with Inl Cons.prems show ?thesis by auto
  next
    case (Inr rt)
    obtain r tr' where rt: "rt = (r, tr')" by (cases rt)
    show ?thesis
    proof (cases "feasible r")
      case False
      with Inr rt Cons.prems show ?thesis by auto
    next
      case feas: True
      let ?app = "applyMemoryAllocation (propEnv te (ts_graph ts)) r p (describeTraceOrigin te (ts_graph ts) p) (ts_sol ts)"
      show ?thesis
      proof (cases ?app)
        case (Inl err)
        then have "length p < 3" by (auto simp: applyMemoryAllocation_def Let_def split: if_splits prod.splits)
        with Inl Inr rt feas Cons.prems show ?thesis by auto
      next
        case app: (Inr sol')
        then have len: "3 \<le> length p" by (auto simp: applyMemoryAllocation_def split: if_splits)
        let ?ts = "ts\<lparr>ts_tracker := tr', ts_sol := sol'\<rparr>"
        have rec: "analyzeSubPaths te ps ?ts = (e, ts')" using Cons.prems Inr rt feas app by simp
        note IH = Cons.IH [OF rec]
        have le: "sol_le (ts_sol ts) sol'" "ckpt_wf (ts_sol ts) \<longrightarrow> ckpt_wf sol'"
          using apply_progress [OF app] by auto
        have "length (allocations r) = Suc (length (selectedCheckpoints r))"
          using solve_feasible_lengths [of "solverEnv te ts p" "ts_tracker ts" r tr'] Inr rt feas len by fastforce
        with apply_settles [OF app] have "\<forall>b \<in> set p. isAnalyzed sol' b" by auto
        moreover have "sol_le sol' (ts_sol ts')" using IH by simp
        ultimately have "\<forall>b \<in> set p. isAnalyzed (ts_sol ts') b"
          by (simp add: isAnalyzed_metaOf sol_le_def)
        with IH le sol_le_trans [OF le(1)] show ?thesis by simp
      qed
    qed
  qed
qed auto


lemma analyzeTrace_correct:
  assumes "analyzeTrace te trace ts = (e, ts')"
  shows "sol_le (ts_sol ts) (ts_sol ts') \<and> (ckpt_wf (ts_sol ts) \<longrightarrow> ckpt_wf (ts_sol ts')) \<and> ts_graph ts' = ts_graph ts \<and>
    (e = None \<longrightarrow> (\<forall>b \<in> set trace. isAnalyzed (ts_sol ts') b)) \<and>
    (isAnalyzed (ts_sol ts) (hd trace) \<and> isAnalyzed (ts_sol ts) (last trace) \<longrightarrow>
       e = None \<or> (\<exists>msg. e = Some (Infeasible msg)))"
proof (cases "list_all (isAnalyzed (ts_sol ts)) trace")
  case True
  with assms show ?thesis by (auto simp: analyzeTrace_def list_all_iff)
next
  case False
  let ?F = "isAnalyzed (ts_sol ts)" and ?ps = "extractNotFixedBBPaths trace (ts_sol ts)"
  have sub: "analyzeSubPaths te ?ps ts = (e, ts')" using assms False by (simp add: analyzeTrace_def)
  note A = analyzeSubPaths_correct [OF sub]
  have parts: "\<forall>p \<in> set ?ps. closed_part ?F trace p" "\<forall>x \<in> set trace. \<not> ?F x \<longrightarrow> (\<exists>p \<in> set ?ps. x \<in> set p)"
    using cutTrace_parts [of ?F trace] by (auto simp: extractNotFixedBBPaths_def)
  have "isAnalyzed (ts_sol ts') b" if "e = None" "b \<in> set trace" for b
  proof (cases "?F b")
    case True
    with A show ?thesis by (auto simp: isAnalyzed_metaOf sol_le_def)
  next
    case False
    with parts(2) that A show ?thesis by blast
  qed
  moreover have "\<forall>p \<in> set ?ps. 3 \<le> length p" if "?F (hd trace)" "?F (last trace)"
    using parts(1) closed_part_length that by blast
  ultimately show ?thesis using A by blast
qed

lemma walkUnfixed_prefix: "\<exists>ys. walkUnfixed g sol visited acc bb = acc @ ys"
proof (induction g sol visited acc bb rule: walkUnfixed.induct)
  case (1 g sol visited acc bb)
  show ?case
  proof (cases "bb \<in> visited \<or> isAnalyzed sol bb")
    case True
    then show ?thesis by (subst walkUnfixed.simps) simp
  next
    case False
    show ?thesis
    proof (cases "find (\<lambda>n. \<not> isAnalyzed sol n) (successors g bb)")
      case None
      with False show ?thesis by (subst walkUnfixed.simps) simp
    next
      case (Some n)
      from "1.IH" [OF False Some] show ?thesis
        by (subst walkUnfixed.simps) (use False Some in auto)
    qed
  qed
qed

lemma extractNotFixedBBTrace_start:
  assumes "\<not> isAnalyzed sol bb"
  shows "bb \<in> set (extractNotFixedBBTrace g bb sol)"
proof -
  have "bb \<in> set (walkUnfixed g sol {} [] bb)"
  proof (cases "find (\<lambda>n. \<not> isAnalyzed sol n) (successors g bb)")
    case None
    with assms show ?thesis by (subst walkUnfixed.simps) simp
  next
    case (Some n)
    obtain ys where "walkUnfixed g sol {bb} [bb] n = [bb] @ ys" using walkUnfixed_prefix by blast
    with assms Some show ?thesis by (subst walkUnfixed.simps) simp
  qed
  then show ?thesis by (simp add: extractNotFixedBBTrace_def Let_def)
qed

lemma getOrCreate_maps:
  assumes "getOrCreate nm BB g = (b, g')"
  shows "map_of (realBlocks g') BB = Some b" "map_of (realBlocks g) \<subseteq>\<^sub>m map_of (realBlocks g')"
  using assms by (auto simp: getOrCreate_def Let_def map_le_def split: option.splits)

definition in_scope :: "trace_env \<Rightarrow> bb_ptr \<Rightarrow> bool" where
  "in_scope te BB \<longleftrightarrow> (case ta_scope te of Some L \<Rightarrow> loopContains (ta_LI te) L BB | None \<Rightarrow> True)"

lemma analyzeBlocks_correct:
  assumes "analyzeBlocks te BBs ts = (e, ts')"
  shows "sol_le (ts_sol ts) (ts_sol ts') \<and> (ckpt_wf (ts_sol ts) \<longrightarrow> ckpt_wf (ts_sol ts')) \<and>
    map_of (realBlocks (ts_graph ts)) \<subseteq>\<^sub>m map_of (realBlocks (ts_graph ts')) \<and>
    (e = None \<longrightarrow> (\<forall>BB \<in> set BBs. in_scope te BB \<longrightarrow>
       (\<exists>b. map_of (realBlocks (ts_graph ts')) BB = Some b \<and> isAnalyzed (ts_sol ts') b)))"
  using assms
proof (induction BBs arbitrary: ts)
  case (Cons BB BBs)
  show ?case
  proof (cases "in_scope te BB")
    case False
    with Cons.prems have "analyzeBlocks te BBs ts = (e, ts')" by (auto simp: in_scope_def split: option.splits)
    with Cons.IH False show ?thesis by auto
  next
    case scope: True
    obtain b g' where gc: "getOrCreate (ta_bbName te) BB (ts_graph ts) = (b, g')"
      by (cases "getOrCreate (ta_bbName te) BB (ts_graph ts)")
    note M = getOrCreate_maps [OF gc]
    let ?ts1 = "ts\<lparr>ts_graph := g'\<rparr>"
    have "\<exists>ts2. sol_le (ts_sol ts) (ts_sol ts2) \<and> (ckpt_wf (ts_sol ts) \<longrightarrow> ckpt_wf (ts_sol ts2)) \<and> ts_graph ts2 = g' \<and>
        ((e \<noteq> None \<and> ts' = ts2) \<or> (isAnalyzed (ts_sol ts2) b \<and> analyzeBlocks te BBs ts2 = (e, ts')))"
    proof (cases "isAnalyzed (ts_sol ts) b")
      case True
      have "analyzeBlocks te BBs ?ts1 = (e, ts')"
        using Cons.prems scope gc True by (simp add: in_scope_def split: option.splits)
      with True show ?thesis by (intro exI [of _ ?ts1]) simp
    next
      case False
      let ?tr = "extractNotFixedBBTrace g' b (ts_sol ts)"
      obtain e2 ts2 where an: "analyzeTrace te ?tr ?ts1 = (e2, ts2)" by (cases "analyzeTrace te ?tr ?ts1")
      note A = analyzeTrace_correct [OF an]
      have "isAnalyzed (ts_sol ts2) b" if "e2 = None"
        using A that extractNotFixedBBTrace_start [OF False, of g'] by blast
      moreover have "case e2 of None \<Rightarrow> analyzeBlocks te BBs ts2 = (e, ts') | Some x \<Rightarrow> e = Some x \<and> ts' = ts2"
        using Cons.prems scope gc False an by (auto simp: in_scope_def split: option.splits)
      ultimately show ?thesis using A by (intro exI [of _ ts2]) (auto split: option.splits)
    qed
    then obtain ts2 where t2: "sol_le (ts_sol ts) (ts_sol ts2)" "ckpt_wf (ts_sol ts) \<longrightarrow> ckpt_wf (ts_sol ts2)" "ts_graph ts2 = g'"
        "(e \<noteq> None \<and> ts' = ts2) \<or> (isAnalyzed (ts_sol ts2) b \<and> analyzeBlocks te BBs ts2 = (e, ts'))" by blast
    from t2(4) show ?thesis
    proof
      assume "e \<noteq> None \<and> ts' = ts2"
      with t2 M show ?thesis by auto
    next
      assume r: "isAnalyzed (ts_sol ts2) b \<and> analyzeBlocks te BBs ts2 = (e, ts')"
      then have IH: "sol_le (ts_sol ts2) (ts_sol ts')" "ckpt_wf (ts_sol ts2) \<longrightarrow> ckpt_wf (ts_sol ts')"
          "map_of (realBlocks g') \<subseteq>\<^sub>m map_of (realBlocks (ts_graph ts'))"
          "e = None \<longrightarrow> (\<forall>BB \<in> set BBs. in_scope te BB \<longrightarrow>
             (\<exists>b. map_of (realBlocks (ts_graph ts')) BB = Some b \<and> isAnalyzed (ts_sol ts') b))"
        using Cons.IH [of ts2] t2(3) by auto
      have "map_of (realBlocks (ts_graph ts')) BB = Some b" using IH(3) M(1) by (metis domI map_le_def)
      moreover have "isAnalyzed (ts_sol ts') b" using r IH(1) by (simp add: isAnalyzed_metaOf sol_le_def)
      moreover have "sol_le (ts_sol ts) (ts_sol ts')" using t2(1) IH(1) by (rule sol_le_trans)
      moreover have "map_of (realBlocks (ts_graph ts)) \<subseteq>\<^sub>m map_of (realBlocks (ts_graph ts'))"
        using M(2) IH(3) by (rule map_le_trans)
      ultimately show ?thesis using t2(2) IH(2,4) by auto
    qed
  qed
qed auto


section \<open>Deciding the edges between analysed blocks\<close>

definition graph_complete :: "SchematicGraph \<Rightarrow> CFGAnalysis \<Rightarrow> bool" where
  "graph_complete g cfg \<longleftrightarrow>
     list_all (\<lambda>(s, d). map_of (realBlocks g) s \<noteq> None \<and> map_of (realBlocks g) d \<noteq> None) (cfg_edges cfg)"

definition blockOf :: "SchematicGraph \<Rightarrow> bb_ptr \<Rightarrow> block_ptr" where
  "blockOf g BB = omap_get 0 (realBlocks g) BB"

definition edgeOf :: "SchematicGraph \<Rightarrow> bb_ptr \<times> bb_ptr \<Rightarrow> CFGEdge" where
  "edgeOf g p = CFGEdge (blockOf g (fst p)) (blockOf g (snd p))"

text \<open>An edge the two passes look at: in scope, not a loop's back edge, both ends analysed and allocated.\<close>

definition fixed_edge :: "trace_env \<Rightarrow> SchematicGraph \<Rightarrow> SchematicSolution \<Rightarrow> bb_ptr \<times> bb_ptr \<Rightarrow> bool" where
  "fixed_edge te g sol p \<longleftrightarrow>
     \<not> isEdgeOutsideLoopScope te (fst p) (snd p) \<and> \<not> isLoopBackEdge (ta_LI te) (fst p) (snd p) \<and>
     isAnalyzed sol (blockOf g (fst p)) \<and> isAnalyzed sol (blockOf g (snd p)) \<and>
     findAllocation sol (blockOf g (fst p)) \<noteq> None \<and> findAllocation sol (blockOf g (snd p)) \<noteq> None"

definition may_merge :: "trace_env \<Rightarrow> SchematicGraph \<Rightarrow> SchematicSolution \<Rightarrow> bb_ptr \<times> bb_ptr \<Rightarrow> bool" where
  "may_merge te g sol p \<longleftrightarrow>
     isCompatibleWith (the (findAllocation sol (blockOf g (fst p)))) (the (findAllocation sol (blockOf g (snd p)))) (ta_state te) \<and>
     E_left (metaOf sol (blockOf g (fst p))) > E_to_leave (metaOf sol (blockOf g (snd p)))"

lemma getOrCreate_known: "map_of (realBlocks g) BB \<noteq> None \<Longrightarrow> getOrCreate nm BB g = (blockOf g BB, g)"
  by (auto simp: getOrCreate_def blockOf_def omap_get_def)

lemma getFixed_known:
  assumes "map_of (realBlocks g) s \<noteq> None" and "map_of (realBlocks g) d \<noteq> None"
  shows "getFixedCheckpointEdgeWithState te req (s, d) (g, sol) =
    (if fixed_edge te g sol (s, d) \<and> getCheckpointState g sol (edgeOf g (s, d)) = req
     then Some \<lparr>fe_srcBB = s, fe_dstBB = d, fe_srcBlock = blockOf g s, fe_dstBlock = blockOf g d, fe_edge = edgeOf g (s, d),
            fe_srcAlloc = the (findAllocation sol (blockOf g s)), fe_dstAlloc = the (findAllocation sol (blockOf g d))\<rparr>
     else None, g)"
  using assms by (auto simp: getFixedCheckpointEdgeWithState_def getOrCreate_known fixed_edge_def edgeOf_def Let_def
      split: option.splits)

lemma findAllocation_cong:
  "blockAllocation sol' = blockAllocation sol \<Longrightarrow> allocHeap sol' = allocHeap sol \<Longrightarrow> findAllocation sol' = findAllocation sol"
  by (simp add: findAllocation_def allocAt_def [abs_def] fun_eq_iff)

lemma propagateAcross_frame: "sol_le sol (propagateAcross te g e sol) \<and> same_table sol (propagateAcross te g e sol) \<and>
    findAllocation (propagateAcross te g e sol) = findAllocation sol \<and>
    (\<forall>b. isAnalyzed (propagateAcross te g e sol) b = isAnalyzed sol b)"
proof -
  have alloc: "findAllocation sol' = findAllocation sol \<and> (\<forall>b. isAnalyzed sol' b = isAnalyzed sol b)" if "same_but_meta sol sol'" for sol sol'
  proof -
    from that have eq: "sol'\<lparr>blockMeta := []\<rparr> = sol\<lparr>blockMeta := []\<rparr>" by (simp add: same_but_meta_def)
    have "blockAllocation sol' = blockAllocation sol" "allocHeap sol' = allocHeap sol"
      using arg_cong [OF eq, of blockAllocation] arg_cong [OF eq, of allocHeap] by simp_all
    then have "findAllocation sol' = findAllocation sol" by (rule findAllocation_cong)
    moreover have "\<forall>b. analyzed (metaOf sol' b) = analyzed (metaOf sol b)" using that by (simp add: same_but_meta_def)
    ultimately show ?thesis by (simp add: isAnalyzed_metaOf)
  qed
  let ?s1 = "propagateEnergyLeft (propEnv te g) (fe_edge e) (E_left (metaOf sol (fe_srcBlock e))) sol"
  have "same_but_meta sol ?s1" using left_only_lowers by (auto simp: only_lowers_def)
  moreover have "same_but_meta ?s1 (propagateAcross te g e sol)"
    using to_leave_only_raises by (auto simp: only_raises_def propagateAcross_def Let_def)
  ultimately have "same_but_meta sol (propagateAcross te g e sol)" by (rule same_but_meta_trans)
  moreover have "sol_le sol (propagateAcross te g e sol)"
    unfolding propagateAcross_def Let_def by (rule sol_le_trans [OF propagation_progress(2) propagation_progress(1)])
  ultimately show ?thesis using alloc same_but_meta_table by blast
qed

lemma setCheckpointState_fixed:
  "findAllocation (setCheckpointState g e st origin sol) = findAllocation sol"
  "isAnalyzed (setCheckpointState g e st origin sol) b = isAnalyzed sol b"
  "metaOf (setCheckpointState g e st origin sol) = metaOf sol"
  by (rule findAllocation_cong) (simp_all add: isAnalyzed_def metaOf_def fun_eq_iff)

text \<open>One edge: an undecided edge between analysed blocks is disabled when the two may be merged and
  enabled otherwise; any other edge is left alone. Nothing is ever set back to Potential.\<close>

lemma decideFixedEdge_correct:
  assumes "map_of (realBlocks g) s \<noteq> None" and "map_of (realBlocks g) d \<noteq> None"
    and "decideFixedEdge te (g, sol) (s, d) = (g', sol')"
  shows "g' = g \<and> sol_le sol sol' \<and> findAllocation sol' = findAllocation sol \<and> (\<forall>b. isAnalyzed sol' b = isAnalyzed sol b) \<and>
    (\<forall>e. getCheckpointState g sol' e =
       (if fixed_edge te g sol (s, d) \<and> getCheckpointState g sol (edgeOf g (s, d)) = Potential \<and>
           resolveCheckpointEdge g e = resolveCheckpointEdge g (edgeOf g (s, d))
        then if may_merge te g sol (s, d) then Disabled else Active
        else getCheckpointState g sol e)) \<and>
    (ckpt_wf sol \<longrightarrow> ckpt_wf sol')"
proof (cases "fixed_edge te g sol (s, d) \<and> getCheckpointState g sol (edgeOf g (s, d)) = Potential")
  case False
  with assms show ?thesis by (auto simp: decideFixedEdge_def getFixed_known)
next
  case True
  define fe where "fe = \<lparr>fe_srcBB = s, fe_dstBB = d, fe_srcBlock = blockOf g s, fe_dstBlock = blockOf g d, fe_edge = edgeOf g (s, d),
            fe_srcAlloc = the (findAllocation sol (blockOf g s)), fe_dstAlloc = the (findAllocation sol (blockOf g d))\<rparr>"
  have get: "getFixedCheckpointEdgeWithState te Potential (s, d) (g, sol) = (Some fe, g)"
    using True assms(1,2) by (simp add: getFixed_known fe_def)
  have mm: "may_merge te g sol (s, d) \<longleftrightarrow> allocationsAreCompatible fe (ta_state te) \<and> canMergeWithoutCheckpoint sol fe"
    by (simp add: may_merge_def allocationsAreCompatible_def canMergeWithoutCheckpoint_def fe_def)
  show ?thesis
  proof (cases "may_merge te g sol (s, d)")
    case merge: True
    let ?s1 = "setCheckpointState g (fe_edge fe) Disabled [] sol"
    have s': "g' = g" "sol' = propagateAcross te g fe ?s1"
      using assms(3) get merge mm by (auto simp: decideFixedEdge_def disableFixedEdgeCheckpointAndPropagate_def disableCheckpoint_def)
    note P = propagateAcross_frame [of ?s1 te g fe]
    have "sol_le sol sol'" using P sol_le_setCheckpointState sol_le_trans s'(2) by blast
    moreover have "getCheckpointState g sol' = getCheckpointState g ?s1" "ckpt_wf sol' = ckpt_wf ?s1"
      using P s'(2) same_table_state [of ?s1 sol' g] same_table_ckpt_wf [of ?s1 sol'] by simp_all
    ultimately show ?thesis
      using P s' True merge by (auto simp: setCheckpointState_fixed getCheckpointState_set fe_def)
  next
    case False
    then have "\<exists>origin. sol' = setCheckpointState g (fe_edge fe) Active origin sol" "g' = g"
      using assms(3) get mm by (auto simp: decideFixedEdge_def enableFixedEdgeCheckpoint_def enableCheckpoint_def split: if_splits)
    with True False show ?thesis
      by (auto simp: setCheckpointState_fixed getCheckpointState_set fe_def sol_le_setCheckpointState)
  qed
qed


lemma fixed_edge_cong:
  "findAllocation sol' = findAllocation sol \<Longrightarrow> (\<forall>b. isAnalyzed sol' b = isAnalyzed sol b) \<Longrightarrow>
   fixed_edge te g sol' p = fixed_edge te g sol p"
  by (simp add: fixed_edge_def)

definition decided_inv :: "trace_env \<Rightarrow> SchematicGraph \<Rightarrow> SchematicSolution \<Rightarrow> (bb_ptr \<times> bb_ptr) set \<Rightarrow> SchematicSolution \<Rightarrow> bool" where
  "decided_inv te g sol done sol' \<longleftrightarrow>
     sol_le sol sol' \<and> findAllocation sol' = findAllocation sol \<and> (\<forall>b. isAnalyzed sol' b = isAnalyzed sol b) \<and>
     (ckpt_wf sol \<longrightarrow> ckpt_wf sol') \<and>
     (\<forall>e. getCheckpointState g sol e \<noteq> Potential \<longrightarrow> getCheckpointState g sol' e = getCheckpointState g sol e) \<and>
     (\<forall>p \<in> done. fixed_edge te g sol p \<longrightarrow> getCheckpointState g sol' (edgeOf g p) \<noteq> Potential)"

lemma decided_inv_step:
  assumes inv: "decided_inv te g sol A sol1" and "map_of (realBlocks g) s \<noteq> None" "map_of (realBlocks g) d \<noteq> None"
    and step: "decideFixedEdge te (g, sol1) (s, d) = (g', sol2)"
  shows "g' = g \<and> decided_inv te g sol (insert (s, d) A) sol2"
proof -
  note D = decideFixedEdge_correct [OF assms(2,3) step]
  have I: "sol_le sol sol1" "findAllocation sol1 = findAllocation sol" "\<forall>b. isAnalyzed sol1 b = isAnalyzed sol b"
    "ckpt_wf sol \<longrightarrow> ckpt_wf sol1"
    "\<And>e. getCheckpointState g sol e \<noteq> Potential \<Longrightarrow> getCheckpointState g sol1 e = getCheckpointState g sol e"
    "\<And>p. p \<in> A \<Longrightarrow> fixed_edge te g sol p \<Longrightarrow> getCheckpointState g sol1 (edgeOf g p) \<noteq> Potential"
    using inv by (auto simp: decided_inv_def)
  have fe: "fixed_edge te g sol1 p = fixed_edge te g sol p" for p using fixed_edge_cong I(2,3) by blast
  have st: "getCheckpointState g sol2 e =
       (if fixed_edge te g sol (s, d) \<and> getCheckpointState g sol1 (edgeOf g (s, d)) = Potential \<and>
           resolveCheckpointEdge g e = resolveCheckpointEdge g (edgeOf g (s, d))
        then if may_merge te g sol1 (s, d) then Disabled else Active
        else getCheckpointState g sol1 e)" for e
    using D fe by simp
  have same: "getCheckpointState g sol1 e = getCheckpointState g sol1 e'" if "resolveCheckpointEdge g e = resolveCheckpointEdge g e'" for e e'
    using that by (simp add: getCheckpointState_def)
  have keep: "getCheckpointState g sol2 e = getCheckpointState g sol1 e" if "getCheckpointState g sol1 e \<noteq> Potential" for e
    using that st [of e] same [of e "edgeOf g (s, d)"] by auto
  have "getCheckpointState g sol2 (edgeOf g p) \<noteq> Potential" if "p \<in> insert (s, d) A" "fixed_edge te g sol p" for p
  proof (cases "getCheckpointState g sol1 (edgeOf g p) = Potential")
    case True
    with I(6) that have "p = (s, d)" by blast
    with True that st [of "edgeOf g p"] show ?thesis by simp
  qed (use keep in simp)
  moreover have "sol_le sol sol2" using I(1) D by (blast intro: sol_le_trans)
  ultimately show ?thesis
    using D I keep by (auto simp: decided_inv_def)
qed

lemma removePotential_inv:
  assumes "graph_complete g (ta_cfg te)"
    and "removePotentialCheckpointsBetweenFixedBBs te (g, sol) = (g', sol')"
  shows "g' = g \<and> decided_inv te g sol (set (cfg_edges (ta_cfg te))) sol'"
proof -
  have "fst (foldl (decideFixedEdge te) (g, sol) es) = g \<and> decided_inv te g sol (set es) (snd (foldl (decideFixedEdge te) (g, sol) es))"
    if "set es \<subseteq> set (cfg_edges (ta_cfg te))" for es
    using that
  proof (induction es rule: rev_induct)
    case Nil
    show ?case by (simp add: decided_inv_def)
  next
    case (snoc p es)
    obtain s d where p: "p = (s, d)" by (cases p)
    let ?q = "foldl (decideFixedEdge te) (g, sol) es"
    have q: "?q = (g, snd ?q)" "decided_inv te g sol (set es) (snd ?q)"
      using snoc by (auto simp: prod_eq_iff)
    have known: "map_of (realBlocks g) s \<noteq> None" "map_of (realBlocks g) d \<noteq> None"
      using assms(1) snoc.prems p by (auto simp: graph_complete_def list_all_iff)
    obtain g2 sol2 where d: "decideFixedEdge te (g, snd ?q) (s, d) = (g2, sol2)"
      by (cases "decideFixedEdge te (g, snd ?q) (s, d)")
    from decided_inv_step [OF q(2) known d] d q(1) show ?case by (simp add: p)
  qed
  from this [OF order_refl] assms(2) show ?thesis
    by (simp add: removePotentialCheckpointsBetweenFixedBBs_def)
qed


section \<open>Refreshing\<close>

lemma refreshEdge_frame: "sol_le (snd gs) (snd (refreshEdge te gs p)) \<and> same_table (snd gs) (snd (refreshEdge te gs p))"
  by (auto simp: refreshEdge_def propagateAcross_frame split: prod.split option.split)

lemma foldl_refreshEdge_frame:
  "sol_le (snd gs) (snd (foldl (refreshEdge te) gs ps)) \<and> same_table (snd gs) (snd (foldl (refreshEdge te) gs ps))"
  by (rule foldl_invariant [of "\<lambda>x. sol_le (snd gs) (snd x) \<and> same_table (snd gs) (snd x)"])
    (use refreshEdge_frame in \<open>auto intro: sol_le_trans same_table_trans\<close>)

lemma refreshLoop_correct:
  assumes "refreshLoop te n c gs = (c', gs')"
  shows "sol_le (snd gs) (snd gs') \<and> same_table (snd gs) (snd gs') \<and>
    (\<not> c' \<longrightarrow> \<not> c \<and> (n = 0 \<or> \<not> energySnapshotsDiffer (captureEnergySnapshot te (fst gs) (snd gs)) (captureEnergySnapshot te (fst gs') (snd gs'))))"
  using assms
proof (induction te n c gs rule: refreshLoop.induct)
  case (2 te n c gs)
  let ?gs = "foldl (refreshEdge te) gs (cfg_edges (ta_cfg te))"
  note F = foldl_refreshEdge_frame [of gs te "cfg_edges (ta_cfg te)"]
  show ?case
  proof (cases "energySnapshotsDiffer (captureEnergySnapshot te (fst gs) (snd gs)) (captureEnergySnapshot te (fst ?gs) (snd ?gs))")
    case True
    with "2.prems" have rec: "refreshLoop te n True ?gs = (c', gs')" by (simp add: Let_def)
    from "2.IH" [OF refl refl refl _ rec] True
    have "sol_le (snd ?gs) (snd gs') \<and> same_table (snd ?gs) (snd gs') \<and> c'" by auto
    with F show ?thesis by (blast intro: sol_le_trans same_table_trans)
  next
    case False
    with "2.prems" F show ?thesis by (auto simp: Let_def)
  qed
qed auto

section \<open>Properties\<close>

text \<open>The parts cut from a trace: each is a contiguous part of the trace that begins at an analysed block
  or at the trace's start, ends at an analysed block or at the trace's end, and has no analysed block inside;
  every block not analysed lies in one of them; and when both ends of the trace are analysed each part has at
  least the three blocks the solver requires.\<close>

theorem extractNotFixedBBPaths_correct:
  "(\<forall>p \<in> set (extractNotFixedBBPaths trace sol). closed_part (isAnalyzed sol) trace p) \<and>
   (\<forall>b \<in> set trace. \<not> isAnalyzed sol b \<longrightarrow> (\<exists>p \<in> set (extractNotFixedBBPaths trace sol). b \<in> set p)) \<and>
   (isAnalyzed sol (hd trace) \<and> isAnalyzed sol (last trace) \<longrightarrow>
      (\<forall>p \<in> set (extractNotFixedBBPaths trace sol). 3 \<le> length p))"
  using cutTrace_parts [of "isAnalyzed sol" trace] closed_part_length [of "isAnalyzed sol" trace]
  by (auto simp: extractNotFixedBBPaths_def)

definition sample_fixed :: SchematicSolution where
  "sample_fixed = emptySolution\<lparr>blockMeta := [(1, defaultMetadata\<lparr>analyzed := True, E_left := 50\<rparr>), (4, defaultMetadata\<lparr>analyzed := True\<rparr>)],
     blockAllocation := [(1, 1), (2, 1)], allocHeap := [(1, emptyAllocation)], allocNext := 2\<rparr>"

theorem extractNotFixedBBPaths_correct_witness:
  "closed_part (isAnalyzed sample_fixed) [1, 2, 3, 4] [1, 2, 3, 4] \<and> 3 \<le> length [1, 2, 3, 4 :: nat]"
proof -
  have a: "isAnalyzed sample_fixed 1" "isAnalyzed sample_fixed 4" "\<not> isAnalyzed sample_fixed 2" "\<not> isAnalyzed sample_fixed 3"
    by (simp_all add: isAnalyzed_def sample_fixed_def defaultMetadata_def)
  then have "[1, 2, 3, 4] \<in> set (extractNotFixedBBPaths [1, 2, 3, 4] sample_fixed)"
    by (simp add: extractNotFixedBBPaths_def cutTrace_def cutStep_def cutInit_def registerBlock_def openPath_def Let_def)
  with extractNotFixedBBPaths_correct [of "[1, 2, 3, 4]" sample_fixed] a show ?thesis by auto
qed

text \<open>Analysing a trace: earlier decisions are kept and the checkpoint table stays well formed; success
  means that every block of the trace is analysed; and when both ends of the trace were analysed, the only
  failure is an infeasible energy budget, never one of the fatal errors.\<close>

theorem analyzeTrace_settles:
  assumes "analyzeTrace te trace ts = (e, ts')"
  shows "sol_le (ts_sol ts) (ts_sol ts') \<and> (ckpt_wf (ts_sol ts) \<longrightarrow> ckpt_wf (ts_sol ts')) \<and>
    (e = None \<longrightarrow> (\<forall>b \<in> set trace. isAnalyzed (ts_sol ts') b)) \<and>
    (isAnalyzed (ts_sol ts) (hd trace) \<and> isAnalyzed (ts_sol ts) (last trace) \<longrightarrow>
       e = None \<or> (\<exists>msg. e = Some (Infeasible msg)))"
  using analyzeTrace_correct [OF assms] by blast

definition sample_te :: trace_env where
  "sample_te = \<lparr>ta_LI = no_loops, ta_scope = None, ta_cfg = sample_cfg4, ta_state = sample_state0,
     ta_params = sample_params\<lparr>capacity := 150\<rparr>, ta_bbName = (\<lambda>_. ''b'')\<rparr>"

definition sample_ts :: trace_state where
  "sample_ts = \<lparr>ts_graph = sample_graph4, ts_sol = emptySolution, ts_tracker = None\<rparr>"

lemma sample_analyzeTrace: "\<exists>ts'. analyzeTrace sample_te [1, 2, 3, 4] sample_ts = (None, ts')"
proof -
  have na: "\<not> isAnalyzed emptySolution b" for b by (simp add: isAnalyzed_def emptySolution_def)
  have ext: "extractNotFixedBBPaths [1, 2, 3, 4] emptySolution = [[1, 2, 3, 4]]"
    by (simp add: extractNotFixedBBPaths_def cutTrace_def cutStep_def cutInit_def registerBlock_def openPath_def Let_def na)
  have "solverEnv sample_te sample_ts [1, 2, 3, 4] = sample_env"
    by (simp add: solverEnv_def sample_te_def sample_ts_def sample_env_def emptySolution_def findAllocation_def fun_eq_iff)
  then have solve: "solve (solverEnv sample_te sample_ts [1, 2, 3, 4]) None = Inr (sample_result, None)"
    by (simp only: sample_solve)
  have feas: "feasible sample_result" by (simp add: sample_result_def)
  obtain sol' where app: "applyMemoryAllocation (propEnv sample_te sample_graph4) sample_result [1, 2, 3, 4]
      (describeTraceOrigin sample_te sample_graph4 [1, 2, 3, 4]) emptySolution = Inr sol'"
    using applyMemoryAllocation_returns [of "[1, 2, 3, 4]" "propEnv sample_te sample_graph4" sample_result
        "describeTraceOrigin sample_te sample_graph4 [1, 2, 3, 4]" emptySolution] by auto
  have ts: "ts_sol sample_ts = emptySolution" "ts_graph sample_ts = sample_graph4" "ts_tracker sample_ts = None"
    by (simp_all add: sample_ts_def)
  have "analyzeSubPaths sample_te [[1, 2, 3, 4]] sample_ts = (None, sample_ts\<lparr>ts_tracker := None, ts_sol := sol'\<rparr>)"
    using solve feas app by (simp only: analyzeSubPaths.simps ts sum.case prod.case Let_def if_False not_True_eq_False refl if_True simp_thms)
  with na ext ts show ?thesis by (simp add: analyzeTrace_def)
qed

theorem analyzeTrace_settles_witness:
  "\<exists>ts'. analyzeTrace sample_te [1, 2, 3, 4] sample_ts = (None, ts') \<and> isAnalyzed (ts_sol ts') 3"
proof -
  obtain ts' where t: "analyzeTrace sample_te [1, 2, 3, 4] sample_ts = (None, ts')" using sample_analyzeTrace by blast
  from analyzeTrace_settles [OF t] t show ?thesis by auto
qed

text \<open>After the blocks no trace covered have been analysed without error, every block of the function
  in scope has a node and is analysed.\<close>

theorem findAndAnalyzeNotFixedPaths_covers:
  assumes "findAndAnalyzeNotFixedPaths te ts = (None, ts')" and "BB \<in> set (cfg_blocks (ta_cfg te))" and "in_scope te BB"
  shows "sol_le (ts_sol ts) (ts_sol ts') \<and>
    (\<exists>b. map_of (realBlocks (ts_graph ts')) BB = Some b \<and> isAnalyzed (ts_sol ts') b)"
  using analyzeBlocks_correct [of te "cfg_blocks (ta_cfg te)" ts None ts'] assms
  by (auto simp: findAndAnalyzeNotFixedPaths_def)

lemma analyzeBlocks_unfixed:
  assumes "ta_scope te = None" and "getOrCreate (ta_bbName te) BB (ts_graph ts) = (b, ts_graph ts)"
    and "\<not> isAnalyzed (ts_sol ts) b"
    and "analyzeTrace te (extractNotFixedBBTrace (ts_graph ts) b (ts_sol ts)) ts = (None, ts2)"
  shows "analyzeBlocks te (BB # BBs) ts = analyzeBlocks te BBs ts2"
proof -
  have "ts\<lparr>ts_graph := ts_graph ts\<rparr> = ts" by (cases ts) simp
  with assms show ?thesis by simp
qed

lemma sample_findAndAnalyze: "\<exists>ts'. findAndAnalyzeNotFixedPaths sample_te sample_ts = (None, ts')"
proof -
  obtain ts' where t: "analyzeTrace sample_te [1, 2, 3, 4] sample_ts = (None, ts')" using sample_analyzeTrace by blast
  from analyzeTrace_correct [OF t] have all: "isAnalyzed (ts_sol ts') 1" "isAnalyzed (ts_sol ts') 2" "isAnalyzed (ts_sol ts') 3"
      "isAnalyzed (ts_sol ts') 4" and g: "ts_graph ts' = sample_graph4" by (auto simp: sample_ts_def)
  have na: "\<not> isAnalyzed emptySolution b" for b by (simp add: isAnalyzed_def emptySolution_def)
  have ext: "extractNotFixedBBTrace sample_graph4 1 emptySolution = [1, 2, 3, 4]"
    by (simp add: extractNotFixedBBTrace_def walkUnfixed.simps na successors_def predecessors_def blockAt_def omap_get_def sample_graph4_def sample_block_def)
  have gc: "getOrCreate nm b sample_graph4 = (b, sample_graph4)" if "b \<in> {1, 2, 3, 4}" for nm b
    using that by (auto simp: getOrCreate_def sample_graph4_def)
  have ts: "ts_sol sample_ts = emptySolution" "ts_graph sample_ts = sample_graph4" "sample_ts\<lparr>ts_graph := sample_graph4\<rparr> = sample_ts"
      "ts'\<lparr>ts_graph := sample_graph4\<rparr> = ts'" "ta_scope sample_te = None" "cfg_blocks (ta_cfg sample_te) = [1, 2, 3, 4]"
    using g by (simp_all add: sample_ts_def sample_te_def sample_cfg4_def)
  have "analyzeBlocks sample_te [2, 3, 4] ts' = (None, ts')"
    using all g gc ts by simp
  moreover have "analyzeBlocks sample_te (1 # [2, 3, 4]) sample_ts = analyzeBlocks sample_te [2, 3, 4] ts'"
    by (rule analyzeBlocks_unfixed [of _ _ _ 1]) (use gc [of 1] ts na ext t in simp_all)
  ultimately show ?thesis using ts by (simp add: findAndAnalyzeNotFixedPaths_def)
qed

theorem findAndAnalyzeNotFixedPaths_covers_witness:
  "\<exists>ts' b. findAndAnalyzeNotFixedPaths sample_te sample_ts = (None, ts') \<and>
     map_of (realBlocks (ts_graph ts')) 3 = Some b \<and> isAnalyzed (ts_sol ts') b"
proof -
  obtain ts' where t: "findAndAnalyzeNotFixedPaths sample_te sample_ts = (None, ts')" using sample_findAndAnalyze by blast
  from findAndAnalyzeNotFixedPaths_covers [OF t, of 3] t show ?thesis
    by (auto simp: sample_te_def sample_cfg4_def in_scope_def)
qed


text \<open>Every checkpoint edge between analysed blocks is decided: on a graph that has a node for every
  block of the function, no edge in scope that is not a back edge and joins two analysed and allocated
  blocks is left Potential, edges decided before keep their state, and no energy bound is weakened.\<close>

theorem removePotentialCheckpoints_decides:
  assumes "graph_complete g (ta_cfg te)"
    and "removePotentialCheckpointsBetweenFixedBBs te (g, sol) = (g', sol')"
  shows "g' = g \<and> sol_le sol sol' \<and> (ckpt_wf sol \<longrightarrow> ckpt_wf sol') \<and>
    (\<forall>p \<in> set (cfg_edges (ta_cfg te)). fixed_edge te g sol p \<longrightarrow> getCheckpointState g sol' (edgeOf g p) \<noteq> Potential) \<and>
    (\<forall>e. getCheckpointState g sol e \<noteq> Potential \<longrightarrow> getCheckpointState g sol' e = getCheckpointState g sol e)"
  using removePotential_inv [OF assms] by (auto simp: decided_inv_def)

definition sample_fixed2 :: SchematicSolution where
  "sample_fixed2 = emptySolution\<lparr>blockMeta := [(2, defaultMetadata\<lparr>analyzed := True, E_left := 50\<rparr>), (3, defaultMetadata\<lparr>analyzed := True\<rparr>)],
     blockAllocation := [(2, 1), (3, 1)], allocHeap := [(1, emptyAllocation)], allocNext := 2\<rparr>"

theorem removePotentialCheckpoints_decides_witness:
  "getCheckpointState sample_graph4 sample_fixed2 (edgeOf sample_graph4 (2, 3)) = Potential \<and>
   getCheckpointState sample_graph4 (snd (removePotentialCheckpointsBetweenFixedBBs sample_te (sample_graph4, sample_fixed2)))
     (edgeOf sample_graph4 (2, 3)) \<noteq> Potential"
proof -
  have "graph_complete sample_graph4 (ta_cfg sample_te)"
    by (simp add: graph_complete_def sample_te_def sample_cfg4_def sample_graph4_def)
  moreover obtain g' sol' where r: "removePotentialCheckpointsBetweenFixedBBs sample_te (sample_graph4, sample_fixed2) = (g', sol')"
    by (cases "removePotentialCheckpointsBetweenFixedBBs sample_te (sample_graph4, sample_fixed2)")
  moreover have "fixed_edge sample_te sample_graph4 sample_fixed2 (2, 3)"
    by (simp add: fixed_edge_def isEdgeOutsideLoopScope_def isLoopBackEdge_def sample_te_def no_loops_def blockOf_def omap_get_def
        sample_graph4_def isAnalyzed_def sample_fixed2_def findAllocation_def)
  moreover have "(2, 3) \<in> set (cfg_edges (ta_cfg sample_te))" by (simp add: sample_te_def sample_cfg4_def)
  moreover have "getCheckpointState sample_graph4 sample_fixed2 e = Potential" for e
    by (simp add: getCheckpointState_def sample_fixed2_def emptySolution_def)
  ultimately show ?thesis
    using removePotentialCheckpoints_decides [of sample_graph4 sample_te sample_fixed2 g' sol'] by auto
qed

text \<open>How an undecided edge between two analysed blocks is decided: it is disabled exactly when the two
  allocations are compatible and the energy left after its source exceeds the energy needed to leave its
  target, and enabled otherwise; other edges keep their state.\<close>

theorem decideFixedEdge_rule:
  assumes "map_of (realBlocks g) s = Some a" and "map_of (realBlocks g) d = Some b"
    and "fixed_edge te g sol (s, d)" and "getCheckpointState g sol (CFGEdge a b) = Potential"
    and "decideFixedEdge te (g, sol) (s, d) = (g', sol')"
  shows "getCheckpointState g sol' (CFGEdge a b) =
      (if isCompatibleWith (the (findAllocation sol a)) (the (findAllocation sol b)) (ta_state te) \<and>
          E_left (metaOf sol a) > E_to_leave (metaOf sol b) then Disabled else Active) \<and>
    (\<forall>e. resolveCheckpointEdge g e \<noteq> resolveCheckpointEdge g (CFGEdge a b) \<longrightarrow>
       getCheckpointState g sol' e = getCheckpointState g sol e)"
  using decideFixedEdge_correct [of g s d te sol g' sol'] assms
  by (simp add: edgeOf_def blockOf_def omap_get_def may_merge_def)

theorem decideFixedEdge_rule_witness:
  "getCheckpointState sample_graph4 (snd (decideFixedEdge sample_te (sample_graph4, sample_fixed2) (2, 3))) (CFGEdge 2 3) = Disabled"
proof -
  obtain g' sol' where r: "decideFixedEdge sample_te (sample_graph4, sample_fixed2) (2, 3) = (g', sol')"
    by (cases "decideFixedEdge sample_te (sample_graph4, sample_fixed2) (2, 3)")
  have "map_of (realBlocks sample_graph4) 2 = Some 2" "map_of (realBlocks sample_graph4) 3 = Some 3"
    by (simp_all add: sample_graph4_def)
  moreover have "fixed_edge sample_te sample_graph4 sample_fixed2 (2, 3)"
    by (simp add: fixed_edge_def isEdgeOutsideLoopScope_def isLoopBackEdge_def sample_te_def no_loops_def blockOf_def omap_get_def
        sample_graph4_def isAnalyzed_def sample_fixed2_def findAllocation_def)
  moreover have "getCheckpointState sample_graph4 sample_fixed2 (CFGEdge 2 3) = Potential"
    by (simp add: getCheckpointState_def sample_fixed2_def emptySolution_def)
  moreover have "isCompatibleWith (the (findAllocation sample_fixed2 2)) (the (findAllocation sample_fixed2 3)) (ta_state sample_te)"
      "E_left (metaOf sample_fixed2 2) > E_to_leave (metaOf sample_fixed2 3)"
    by (simp_all add: isCompatibleWith_def isCompatibleOneWay_def findAllocation_def allocAt_def sample_fixed2_def emptyAllocation_def
        omap_get_def metaOf_def defaultMetadata_def)
  ultimately show ?thesis using decideFixedEdge_rule [OF _ _ _ _ r] r by simp
qed

text \<open>Compatibility is what sharing needs: if two allocations are compatible and neither has overlapping VM
  ranges, a variable in both has the same placement and address in both, and extending one with the other
  creates no overlap.\<close>

theorem isCompatibleWith_extends_disjoint:
  assumes "isCompatibleWith a b st" and "ranges_disjoint st a" and "ranges_disjoint st b" and "offsets_present a"
  shows "ranges_disjoint st (extendsAllocation a b) \<and>
    (\<forall>v va vb. map_of (vars a) v = Some va \<longrightarrow> map_of (vars b) v = Some vb \<longrightarrow>
       placement va = placement vb \<and> (placement va = VM \<longrightarrow> omap_get 0 (vmOffsets a) v = omap_get 0 (vmOffsets b) v))"
proof -
  have one: "isCompatibleOneWay a b st" using assms(1) by (simp add: isCompatibleWith_def)
  have "\<not> overlaps s e s' e'"
    if "v \<noteq> w" "vm_range st (extendsAllocation a b) v = Some (s, e)" "vm_range st (extendsAllocation a b) w = Some (s', e')" for v w s e s' e'
  proof (cases "map_of (vars a) v"; cases "map_of (vars a) w")
    assume "map_of (vars a) v = None" "map_of (vars a) w = None"
    with that assms(3,4) show ?thesis by (simp add: vm_range_extends ranges_disjoint_def)
  next
    fix x y assume "map_of (vars a) v = Some x" "map_of (vars a) w = Some y"
    with that assms(2,4) show ?thesis by (simp add: vm_range_extends ranges_disjoint_def)
  next
    fix y assume "map_of (vars a) v = None" "map_of (vars a) w = Some y"
    with that assms(4) compatible_free [OF one, of v s e w s' e'] show ?thesis by (simp add: vm_range_extends)
  next
    fix x assume "map_of (vars a) v = Some x" "map_of (vars a) w = None"
    with that assms(4) compatible_free [OF one, of w s' e' v s e] show ?thesis
      by (simp add: vm_range_extends overlaps_sym [of s e])
  qed
  then show ?thesis using compatible_agree [OF one] unfolding ranges_disjoint_def by blast
qed

lemma sample_disjoint: "ranges_disjoint sample_state sample_alloc" "ranges_disjoint sample_state sample_alloc2"
  "offsets_present sample_alloc"
  by (auto simp: ranges_disjoint_def vm_range_def sample_alloc_def sample_alloc2_def sample_vm_def offsets_present_def
      sample_state_def getVarSizeBytes_def omap_get_def overlaps_def split: if_splits)

theorem isCompatibleWith_extends_disjoint_witness:
  "ranges_disjoint sample_state (extendsAllocation sample_alloc sample_alloc2)"
proof -
  have "isCompatibleWith sample_alloc sample_alloc2 sample_state"
    by (simp add: isCompatibleWith_def isCompatibleOneWay_def compatibleVar_def intervalIsEmpty_def sample_alloc_def sample_alloc2_def
        sample_vm_def sample_state_def getVarSizeBytes_def omap_get_def overlaps_def)
  from isCompatibleWith_extends_disjoint [OF this sample_disjoint] show ?thesis by simp
qed

text \<open>Refreshing returns after at most as many rounds as there are edges, keeps the checkpoint table, only
  strengthens energy bounds, and when it reports no change every analysed block's bounds are within 1e-9 of what
  they were.\<close>

theorem refreshDisabledCheckpointEnergy_stable:
  assumes "refreshDisabledCheckpointEnergy te (g, sol) = (changed, g', sol')"
  shows "sol_le sol sol' \<and> same_table sol sol' \<and>
    (\<not> changed \<longrightarrow> \<not> energySnapshotsDiffer (captureEnergySnapshot te g sol) (captureEnergySnapshot te g' sol'))"
  using refreshLoop_correct [of te "max 1 (length (cfg_edges (ta_cfg te)))" False "(g, sol)" changed "(g', sol')"] assms
  by (auto simp: refreshDisabledCheckpointEnergy_def)

theorem refreshDisabledCheckpointEnergy_stable_witness:
  "\<exists>changed g' sol'. refreshDisabledCheckpointEnergy sample_te (sample_graph4, sample_fixed2) = (changed, g', sol') \<and>
     sol_le sample_fixed2 sol' \<and> same_table sample_fixed2 sol'"
proof -
  obtain c g' sol' where r: "refreshDisabledCheckpointEnergy sample_te (sample_graph4, sample_fixed2) = (c, g', sol')"
    by (cases "refreshDisabledCheckpointEnergy sample_te (sample_graph4, sample_fixed2)")
  from refreshDisabledCheckpointEnergy_stable [OF r] r show ?thesis by blast
qed

end
