(* ===== verification/MILPOptimizer.thy ===== *)
theory MILPOptimizer
  imports Prelude "HOL-Library.Char_ord" "HOL-Library.List_Lexorder" "HOL-Library.Product_Lexorder"
begin

text \<open>
  The MILP checkpoint optimizer (\<open>passes/src/milp/CheckpointOptimizer.cpp\<close>): the linear model it builds
  over an abstract control-flow graph, and the solution it reads back from the solver.

  The three views the optimizer is given (\<open>ICFGView\<close>, \<open>IStateView\<close>, \<open>IEnergyView\<close>) are one record of data,
  \<open>milp_view\<close>. Decision variables are a datatype with one constructor per variable family, a linear
  expression is a constant with a list of weighted variables, and the model is the list of variables with
  their bounds, the objective and the list of constraints in the order the code adds them. Names of
  variables and constraints are only for the solver's log and are left out. Gurobi is an argument: a
  function from a model to an outcome (an exception, or a status with the number of solutions, an
  assignment, the objective value and the gap).

  The correctness of what is read back is in theory \<open>MILPSoundness\<close>.
\<close>

section \<open>Views, variables and linear expressions\<close>

type_synonym node_id = nat

definition kInvalidNodeId :: node_id where
  "kInvalidNodeId = 2 ^ 32 - 1"

record MILPEnergyParams =
  mp_capacity :: double
  mp_E_pro :: double
  mp_E_epi :: double
  mp_N_reg :: u32
  mp_regStoreEnergy :: double
  mp_regRestoreEnergy :: double
  mp_nvmAccessPenalty :: double
  mp_memStoreEnergyPerByte :: double
  mp_memRestoreEnergyPerByte :: double
  mp_vmCapacityBytes :: u32
  loopStripMiningCost :: double
  loopStripMiningEnabled :: bool

record milp_view =
  getBlocks :: "node_id list"
  getEdges :: "(node_id \<times> node_id) list"
  getEntryBlock :: node_id
  getExitBlocks :: "node_id list"
  getBlockEnergyCost :: "node_id \<Rightarrow> double"
  getVMObjs :: "value_ptr list"
  getEligLiveIn :: "node_id \<Rightarrow> value_ptr list"
  getEligDefIndicator :: "node_id \<Rightarrow> value_ptr \<Rightarrow> bool"
  getIneligibleObjs :: "value_ptr list"
  isIneligible :: "value_ptr \<Rightarrow> bool"
  getIneligLiveIn :: "node_id \<Rightarrow> value_ptr list"
  getIneligDefIndicator :: "node_id \<Rightarrow> value_ptr \<Rightarrow> bool"
  getVarSize :: "value_ptr \<Rightarrow> int"
  isGlobalVariable :: "value_ptr \<Rightarrow> bool"
  isAllocaInst :: "value_ptr \<Rightarrow> bool"
  getStableValueOrderKey :: "value_ptr \<Rightarrow> string"
  getParams :: MILPEnergyParams
  getEBase :: "node_id \<Rightarrow> double"
  getENvm :: "node_id \<Rightarrow> value_ptr \<Rightarrow> double"
  getESave :: "value_ptr \<Rightarrow> double"
  getERestore :: "value_ptr \<Rightarrow> double"
  getFEntry :: "node_id \<Rightarrow> double"
  getFBoundary :: "node_id \<Rightarrow> double"

datatype milp_var = VarR node_id | VarM node_id value_ptr | VarMGlobal value_ptr | VarD node_id value_ptr
  | VarRHat node_id value_ptr | VarS node_id value_ptr | VarEAccum node_id

type_synonym lin_expr = "double \<times> (double \<times> milp_var) list"
type_synonym assignment = "milp_var \<Rightarrow> double"

definition linConst :: "double \<Rightarrow> lin_expr" where
  "linConst c = (c, [])"

definition linVar :: "milp_var \<Rightarrow> lin_expr" where
  "linVar x = (0, [(1, x)])"

definition linScale :: "double \<Rightarrow> lin_expr \<Rightarrow> lin_expr" where
  "linScale k e = (k * fst e, map (\<lambda>(a, x). (k * a, x)) (snd e))"

definition linAdd :: "lin_expr \<Rightarrow> lin_expr \<Rightarrow> lin_expr" where
  "linAdd e f = (fst e + fst f, snd e @ snd f)"

definition linSub :: "lin_expr \<Rightarrow> lin_expr \<Rightarrow> lin_expr" where
  "linSub e f = linAdd e (linScale (- 1) f)"

definition linSum :: "lin_expr list \<Rightarrow> lin_expr" where
  "linSum es = foldl linAdd (linConst 0) es"

definition evalLin :: "assignment \<Rightarrow> lin_expr \<Rightarrow> double" where
  "evalLin X e = fst e + (\<Sum>(a, x) \<leftarrow> snd e. a * X x)"

datatype milp_constr = LinLe lin_expr lin_expr | LinGe lin_expr lin_expr | LinEq lin_expr lin_expr

fun holds :: "assignment \<Rightarrow> milp_constr \<Rightarrow> bool" where
  "holds X (LinLe e f) \<longleftrightarrow> evalLin X e \<le> evalLin X f"
| "holds X (LinGe e f) \<longleftrightarrow> evalLin X f \<le> evalLin X e"
| "holds X (LinEq e f) \<longleftrightarrow> evalLin X e = evalLin X f"

datatype var_type = GRB_BINARY | GRB_CONTINUOUS

record var_decl =
  vd_var :: milp_var
  vd_lb :: double
  vd_ub :: double
  vd_type :: var_type

record grb_model =
  gm_vars :: "var_decl list"
  gm_objective :: lin_expr
  gm_constrs :: "milp_constr list"

section \<open>Orders, neighbours and reachable definitions\<close>

definition stableSortAndUniqueValues :: "milp_view \<Rightarrow> value_ptr list \<Rightarrow> value_ptr list" where
  "stableSortAndUniqueValues I vs = remdups_adj (sort_key (getStableValueOrderKey I) vs)"

definition collectSortedValues :: "milp_view \<Rightarrow> value_ptr list \<Rightarrow> value_ptr list" where
  "collectSortedValues I vs = stableSortAndUniqueValues I vs"

definition collectSortedLiveInValues :: "milp_view \<Rightarrow> node_id \<Rightarrow> value_ptr list" where
  "collectSortedLiveInValues I b = stableSortAndUniqueValues I (getEligLiveIn I b @ getIneligLiveIn I b)"

definition buildPredecessorMap :: "milp_view \<Rightarrow> (node_id, node_id list) omap" where
  "buildPredecessorMap I =
     foldl (\<lambda>m (s, d). omap_put d (omap_get [] m d @ [s]) m)
       (foldl (\<lambda>m b. omap_put b [] m) [] (getBlocks I)) (getEdges I)"

definition buildSuccessorMap :: "milp_view \<Rightarrow> (node_id, node_id list) omap" where
  "buildSuccessorMap I =
     foldl (\<lambda>m (s, d). omap_put s (omap_get [] m s @ [d]) m)
       (foldl (\<lambda>m b. omap_put b [] m) [] (getBlocks I)) (getEdges I)"

definition definesIn :: "milp_view \<Rightarrow> node_id \<Rightarrow> value_ptr \<Rightarrow> bool" where
  "definesIn I b v \<longleftrightarrow> (isGlobalVariable I v \<and> getEligDefIndicator I b v) \<or> getIneligDefIndicator I b v"

text \<open>The search pops the last element of the worklist, looks at all its successors and pushes
  those that are new. Every push inserts a node, so the nodes left to insert and the worklist bound the search.\<close>

definition pushNew :: "node_id set \<times> node_id list \<Rightarrow> node_id \<Rightarrow> node_id set \<times> node_id list" where
  "pushNew st s = (let (reached, worklist) = st in if s \<in> reached then st else (insert s reached, worklist @ [s]))"

definition succ_nodes :: "(node_id, node_id list) omap \<Rightarrow> node_id set" where
  "succ_nodes succs = (\<Union>(b, ss) \<in> set succs. set ss)"

lemma pushNew_reached:
  "fst (foldl pushNew (R, w) ss) = R \<union> set ss"
  "set (snd (foldl pushNew (R, w) ss)) = set w \<union> (set ss - R)"
  by (induction ss arbitrary: R w) (auto simp: pushNew_def)

lemma pushNew_length: "length (snd (foldl pushNew (R, w) ss)) = length w + card (set ss - R)"
proof (induction ss arbitrary: R w)
  case (Cons s ss)
  show ?case
  proof (cases "s \<in> R")
    case True
    then have "set (s # ss) - R = set ss - R" by auto
    with Cons True show ?thesis by (simp add: pushNew_def)
  next
    case False
    then have "set (s # ss) - R = insert s (set ss - insert s R)" by auto
    with Cons False show ?thesis by (simp add: pushNew_def)
  qed
qed simp

function reachLoop :: "(node_id, node_id list) omap \<Rightarrow> node_id list \<Rightarrow> node_id set \<Rightarrow> node_id set" where
  "reachLoop succs [] reached = reached"
| "reachLoop succs (x # xs) reached =
     (let w = x # xs; cur = last w
      in case map_of succs cur of
           None \<Rightarrow> reachLoop succs (butlast w) reached
         | Some ss \<Rightarrow>
             let st = foldl pushNew (reached, butlast w) ss in reachLoop succs (snd st) (fst st))"
  by pat_completeness auto
termination
proof (relation "measure (\<lambda>(succs, w, reached). 2 * card (succ_nodes succs - reached) + length w)", goal_cases)
  case (3 succs x xs reached w cur ss st)
  have fin: "finite (succ_nodes succs)" by (auto simp: succ_nodes_def)
  have sub: "set ss \<subseteq> succ_nodes succs" using 3(3) by (force simp: succ_nodes_def dest: map_of_SomeD)
  have st: "fst st = reached \<union> set ss" "length (snd st) = length (butlast w) + card (set ss - reached)"
    using 3(4) pushNew_reached(1) [of reached "butlast w" ss] pushNew_length [of reached "butlast w" ss] by auto
  have "succ_nodes succs - reached = (succ_nodes succs - (reached \<union> set ss)) \<union> (set ss - reached)" using sub by auto
  moreover have "card ((succ_nodes succs - (reached \<union> set ss)) \<union> (set ss - reached)) =
      card (succ_nodes succs - (reached \<union> set ss)) + card (set ss - reached)"
    using fin by (intro card_Un_disjoint) auto
  ultimately have "card (succ_nodes succs - reached) = card (succ_nodes succs - fst st) + card (set ss - reached)"
    using st(1) by simp
  with st(2) 3(1) show ?case by simp
qed auto

definition computeReachableDefs ::
  "milp_view \<Rightarrow> value_ptr list \<Rightarrow> (node_id, node_id list) omap \<Rightarrow> value_ptr \<Rightarrow> node_id set" where
  "computeReachableDefs I allTracked succs v =
     (if v \<in> set allTracked
      then let defs = filter (\<lambda>b. definesIn I b v) (getBlocks I) in reachLoop succs defs (set defs)
      else {})"

section \<open>The model state\<close>

record milp_ctx =
  cx_view :: milp_view
  cx_coarse :: bool
  cx_preds :: "(node_id, node_id list) omap"
  orderedVmObjs :: "value_ptr list"
  orderedTrackedValues :: "value_ptr list"
  reachableDefs :: "value_ptr \<Rightarrow> node_id set"
  rHatKeys :: "(node_id \<times> value_ptr) list"
  sKeys :: "(node_id \<times> value_ptr) list"

definition predsOf :: "milp_ctx \<Rightarrow> node_id \<Rightarrow> node_id list" where
  "predsOf C b = omap_get [] (cx_preds C) b"

text \<open>A \<open>d\<close> variable exists for the blocks of the graph in \<open>Reach(v)\<close>.\<close>

definition hasD :: "milp_ctx \<Rightarrow> node_id \<Rightarrow> value_ptr \<Rightarrow> bool" where
  "hasD C b v \<longleftrightarrow> b \<in> set (getBlocks (cx_view C)) \<and> v \<in> set (orderedTrackedValues C) \<and> b \<in> reachableDefs C v"

definition rHatKeysOf :: "milp_view \<Rightarrow> (node_id \<times> value_ptr) list" where
  "rHatKeysOf I = concat (map (\<lambda>b. map (Pair b) (collectSortedValues I (getEligLiveIn I b))) (getBlocks I))"

definition sKeysOf :: "milp_ctx \<Rightarrow> (node_id \<times> value_ptr) list" where
  "sKeysOf C =
     (let I = cx_view C
      in concat (map (\<lambda>b.
           if b = getEntryBlock I then []
           else map (Pair b) (filter (\<lambda>v. list_ex (\<lambda>p. hasD C p v) (predsOf C b)) (collectSortedLiveInValues I b)))
         (getBlocks I)))"

definition buildContext :: "bool \<Rightarrow> milp_view \<Rightarrow> milp_ctx" where
  "buildContext coarse I =
     (let vmObjs = collectSortedValues I (getVMObjs I);
          tracked = stableSortAndUniqueValues I (vmObjs @ getIneligibleObjs I);
          C = \<lparr>cx_view = I, cx_coarse = coarse, cx_preds = buildPredecessorMap I, orderedVmObjs = vmObjs,
               orderedTrackedValues = tracked, reachableDefs = computeReachableDefs I tracked (buildSuccessorMap I),
               rHatKeys = rHatKeysOf I, sKeys = []\<rparr>
      in C\<lparr>sKeys := sKeysOf C\<rparr>)"

section \<open>Expressions\<close>

definition placeVar :: "milp_ctx \<Rightarrow> node_id \<Rightarrow> value_ptr \<Rightarrow> milp_var" where
  "placeVar C b v = (if cx_coarse C then VarMGlobal v else VarM b v)"

definition buildEBlk :: "milp_ctx \<Rightarrow> node_id \<Rightarrow> lin_expr" where
  "buildEBlk C b =
     (let I = cx_view C
      in foldl (\<lambda>e v. let eNvm = getENvm I b v
           in if eNvm = 0 then e
              else linSub (linAdd e (linConst eNvm)) (linScale eNvm (linVar (placeVar C b v))))
         (linConst (getEBase I b)) (orderedVmObjs C))"

definition buildEStart :: "milp_ctx \<Rightarrow> node_id \<Rightarrow> lin_expr" where
  "buildEStart C b =
     (let I = cx_view C;
          e1 = foldl (\<lambda>e (b', v).
                 if b' = b \<and> getERestore I v > 0 then linAdd e (linScale (getERestore I v) (linVar (VarRHat b' v))) else e)
               (linScale (mp_E_pro (getParams I)) (linVar (VarR b))) (rHatKeys C)
      in foldl (\<lambda>e v.
           if getERestore I v > 0 then linAdd e (linScale (getERestore I v) (linVar (VarR b))) else e)
         e1 (collectSortedValues I (getIneligLiveIn I b)))"

definition buildEEnd :: "milp_ctx \<Rightarrow> node_id \<Rightarrow> lin_expr" where
  "buildEEnd C b =
     (let I = cx_view C
      in foldl (\<lambda>e (b', v).
           if b' = b \<and> getESave I v > 0 then linAdd e (linScale (getESave I v) (linVar (VarS b' v))) else e)
         (linAdd (linConst 0) (linScale (mp_E_epi (getParams I)) (linVar (VarR b)))) (sKeys C))"

section \<open>Variables and objective\<close>

definition addVariables :: "milp_ctx \<Rightarrow> var_decl list" where
  "addVariables C =
     (let I = cx_view C; blocks = getBlocks I;
          bin = (\<lambda>x. \<lparr>vd_var = x, vd_lb = 0, vd_ub = 1, vd_type = GRB_BINARY\<rparr>);
          cont = (\<lambda>x. \<lparr>vd_var = x, vd_lb = 0, vd_ub = 1, vd_type = GRB_CONTINUOUS\<rparr>)
      in map (\<lambda>b. bin (VarR b)) blocks
       @ (if cx_coarse C then map (\<lambda>v. bin (VarMGlobal v)) (orderedVmObjs C) else [])
       @ concat (map (\<lambda>b. concat (map (\<lambda>v.
             (if \<not> cx_coarse C \<and> \<not> isIneligible I v then [bin (VarM b v)] else [])
           @ (if b \<in> reachableDefs C v then [cont (VarD b v)] else [])) (orderedTrackedValues C))) blocks)
       @ map (\<lambda>(b, v). cont (VarRHat b v)) (rHatKeys C)
       @ map (\<lambda>(b, v). cont (VarS b v)) (sKeys C)
       @ map (\<lambda>b. \<lparr>vd_var = VarEAccum b, vd_lb = 0, vd_ub = mp_capacity (getParams I), vd_type = GRB_CONTINUOUS\<rparr>) blocks)"

definition placementPenalty :: "milp_ctx \<Rightarrow> node_id \<Rightarrow> lin_expr \<Rightarrow> lin_expr" where
  "placementPenalty C b e0 =
     (let I = cx_view C; fEntry = getFEntry I b
      in foldl (\<lambda>e v. let eNvm = getENvm I b v
           in if eNvm = 0 then e
              else linSub (linAdd e (linConst (fEntry * eNvm))) (linScale (fEntry * eNvm) (linVar (placeVar C b v))))
         e0 (orderedVmObjs C))"

definition addObjective :: "milp_ctx \<Rightarrow> lin_expr" where
  "addObjective C =
     (let I = cx_view C;
          t1 = foldl (\<lambda>e b. placementPenalty C b e) (linConst 0) (getBlocks I);
          t2 = foldl (\<lambda>e b. linAdd e (linScale (getFBoundary I b) (buildEStart C b))) t1 (getBlocks I)
      in foldl (\<lambda>e b. if b = getEntryBlock I then e else linAdd e (linScale (getFBoundary I b) (buildEEnd C b)))
           t2 (getBlocks I))"

section \<open>Constraints\<close>

definition constrainEntryAsRegionStart :: "milp_ctx \<Rightarrow> milp_constr list" where
  "constrainEntryAsRegionStart C =
     (let entry = getEntryBlock (cx_view C)
      in if entry \<noteq> kInvalidNodeId \<and> entry \<in> set (getBlocks (cx_view C))
         then [LinEq (linVar (VarR entry)) (linConst 1)] else [])"

definition ineligibleUsage :: "milp_ctx \<Rightarrow> double" where
  "ineligibleUsage C =
     (let I = cx_view C
      in foldl (\<lambda>u v.
           if isIneligible I v \<and> (isGlobalVariable I v \<or> isAllocaInst I v) \<and> getVarSize I v > 0
           then u + real_of_int (getVarSize I v) else u) 0 (orderedTrackedValues C))"

definition vmUsage :: "milp_ctx \<Rightarrow> node_id \<Rightarrow> lin_expr" where
  "vmUsage C b =
     (let I = cx_view C
      in foldl (\<lambda>e v. if getVarSize I v \<le> 0 then e
                       else linAdd e (linScale (real_of_int (getVarSize I v)) (linVar (placeVar C b v))))
           (linConst 0) (orderedVmObjs C))"

text \<open>In coarse mode the usage does not depend on the block and one constraint is added.\<close>

definition constrainVMCapacity :: "milp_ctx \<Rightarrow> milp_constr list" where
  "constrainVMCapacity C =
     (let reducedCapacity = real (unat (mp_vmCapacityBytes (getParams (cx_view C)))) - ineligibleUsage C
      in if cx_coarse C then [LinLe (vmUsage C 0) (linConst reducedCapacity)]
         else map (\<lambda>b. LinLe (vmUsage C b) (linConst reducedCapacity)) (getBlocks (cx_view C)))"

definition constrainNeedRestoreLinearization :: "milp_ctx \<Rightarrow> milp_constr list" where
  "constrainNeedRestoreLinearization C =
     concat (map (\<lambda>(b, v).
       let rHat = linVar (VarRHat b v); r = linVar (VarR b); m = linVar (placeVar C b v)
       in [LinLe rHat r, LinLe rHat m, LinGe rHat (linSub (linAdd r m) (linConst 1))]) (rHatKeys C))"

definition mergeEqualities :: "node_id list \<Rightarrow> value_ptr list \<Rightarrow> milp_constr list" where
  "mergeEqualities preds vs =
     (case preds of
        [] \<Rightarrow> []
      | p # ps \<Rightarrow> concat (map (\<lambda>v. map (\<lambda>q. LinEq (linVar (VarM p v)) (linVar (VarM q v))) ps) vs))"

definition constrainPlacementPropagation :: "milp_ctx \<Rightarrow> milp_constr list" where
  "constrainPlacementPropagation C =
     (let I = cx_view C
      in if cx_coarse C then []
         else concat (map (\<lambda>(p, s). concat (map (\<lambda>v.
                  [LinLe (linVar (VarM s v)) (linAdd (linVar (VarM p v)) (linVar (VarR s))),
                   LinGe (linVar (VarM s v)) (linSub (linVar (VarM p v)) (linVar (VarR s)))])
                (orderedVmObjs C))) (getEdges I))
            @ concat (map (\<lambda>b. if b = getEntryBlock I \<or> length (predsOf C b) \<le> 1 then []
                else mergeEqualities (predsOf C b) (orderedVmObjs C)) (getBlocks I)))"

definition predDirtySum :: "milp_ctx \<Rightarrow> node_id \<Rightarrow> value_ptr \<Rightarrow> lin_expr" where
  "predDirtySum C b v = foldl (\<lambda>e p. if hasD C p v then linAdd e (linVar (VarD p v)) else e) (linConst 0) (predsOf C b)"

definition constrainDirtyPropagation :: "milp_ctx \<Rightarrow> milp_constr list" where
  "constrainDirtyPropagation C =
     (let I = cx_view C
      in concat (map (\<lambda>b. concat (map (\<lambda>v.
             if \<not> hasD C b v then []
             else
               let d = linVar (VarD b v); def = linConst (if definesIn I b v then 1 else 0)
               in [LinGe d def,
                   LinLe d (linAdd def (predDirtySum C b v)),
                   LinLe d (linAdd def (linSub (linConst 1) (linVar (VarR b))))])
           (orderedTrackedValues C))) (getBlocks I))
       @ concat (map (\<lambda>(p, s). concat (map (\<lambda>v.
             if \<not> hasD C p v \<or> \<not> hasD C s v then []
             else [LinGe (linVar (VarD s v)) (linSub (linVar (VarD p v)) (linVar (VarR s)))])
           (orderedTrackedValues C))) (getEdges I)))"

definition predPlaceSum :: "milp_ctx \<Rightarrow> node_id \<Rightarrow> value_ptr \<Rightarrow> lin_expr" where
  "predPlaceSum C b v = foldl (\<lambda>e p. linAdd e (linVar (VarM p v))) (linConst 0) (predsOf C b)"

definition saveTightening :: "milp_ctx \<Rightarrow> node_id \<times> value_ptr \<Rightarrow> milp_constr list" where
  "saveTightening C key =
     (let (b, v) = key; s = linVar (VarS b v)
      in [LinLe s (linVar (VarR b)), LinLe s (predDirtySum C b v)]
       @ (if isIneligible (cx_view C) v then []
          else if cx_coarse C then [LinLe s (linVar (VarMGlobal v))]
          else [LinLe s (predPlaceSum C b v)]))"

definition saveOnEdge :: "milp_ctx \<Rightarrow> node_id \<Rightarrow> node_id \<Rightarrow> value_ptr \<Rightarrow> milp_constr list" where
  "saveOnEdge C p s v =
     (if \<not> hasD C p v then []
      else
        let sv = linVar (VarS s v); d = linVar (VarD p v); r = linVar (VarR s)
        in if isIneligible (cx_view C) v then [LinGe sv (linSub (linAdd d r) (linConst 1))]
           else [LinGe sv (linSub (linAdd (linAdd d (linVar (placeVar C p v))) r) (linConst 2))])"

definition constrainSaveAtRegionBoundary :: "milp_ctx \<Rightarrow> milp_constr list" where
  "constrainSaveAtRegionBoundary C =
     concat (map (saveTightening C) (sKeys C))
   @ concat (map (\<lambda>(p, s). concat (map (\<lambda>(b, v). saveOnEdge C p s v) (filter (\<lambda>(b, v). b = s) (sKeys C))))
       (getEdges (cx_view C)))"

definition constrainEnergyInitAtRegionStart :: "milp_ctx \<Rightarrow> milp_constr list" where
  "constrainEnergyInitAtRegionStart C =
     (let M = mp_capacity (getParams (cx_view C))
      in concat (map (\<lambda>b.
           let slack = linScale M (linSub (linConst 1) (linVar (VarR b)))
           in [LinGe (linVar (VarEAccum b)) (linSub (buildEStart C b) slack),
               LinLe (linVar (VarEAccum b)) (linAdd (buildEStart C b) slack)]) (getBlocks (cx_view C))))"

definition constrainEnergyPropagation :: "milp_ctx \<Rightarrow> milp_constr list" where
  "constrainEnergyPropagation C =
     (let M = mp_capacity (getParams (cx_view C))
      in map (\<lambda>(s, d). LinGe (linVar (VarEAccum d))
                 (linSub (linAdd (linVar (VarEAccum s)) (buildEBlk C s)) (linScale M (linVar (VarR d)))))
           (getEdges (cx_view C)))"

definition constrainEnergyWithinCapacity :: "milp_ctx \<Rightarrow> milp_constr list" where
  "constrainEnergyWithinCapacity C =
     (let I = cx_view C; Ebuf = linConst (mp_capacity (getParams I))
      in map (\<lambda>(s, d). LinLe (linAdd (linAdd (linVar (VarEAccum s)) (buildEBlk C s)) (buildEEnd C d)) Ebuf) (getEdges I)
       @ map (\<lambda>x. LinLe (linAdd (linVar (VarEAccum x)) (buildEBlk C x)) Ebuf) (getExitBlocks I))"

definition addConstraints :: "milp_ctx \<Rightarrow> milp_constr list" where
  "addConstraints C =
     constrainEntryAsRegionStart C @ constrainNeedRestoreLinearization C @ constrainVMCapacity C
   @ constrainPlacementPropagation C @ constrainDirtyPropagation C @ constrainSaveAtRegionBoundary C
   @ constrainEnergyInitAtRegionStart C @ constrainEnergyPropagation C @ constrainEnergyWithinCapacity C"

definition buildModel :: "milp_ctx \<Rightarrow> grb_model" where
  "buildModel C = \<lparr>gm_vars = addVariables C, gm_objective = addObjective C, gm_constrs = addConstraints C\<rparr>"

section \<open>Solving and reading the solution back\<close>

datatype SolverStatus = Optimal | Feasible

datatype SolveFailure = NoFailure | BlocksExceedCapacity | ProvenInfeasible | TimeLimitNoSolution
  | FeasibleNotAccepted | SolverError

record MILPSolution =
  sol_r :: "node_id set"
  sol_m :: "(node_id \<times> value_ptr, bool) omap"
  sol_rHat :: "(node_id \<times> value_ptr, bool) omap"
  sol_s :: "(node_id \<times> value_ptr, bool) omap"
  sol_eAccum :: "(node_id, double) omap"
  objectiveValue :: double
  solverStatus :: SolverStatus
  mipGap :: double

datatype grb_status = GRB_OPTIMAL | GRB_INFEASIBLE | GRB_TIME_LIMIT | GRB_OTHER

record grb_outcome =
  go_status :: grb_status
  go_solCount :: nat
  go_X :: assignment
  go_objVal :: double
  go_gap :: double

text \<open>The solver: building the environment or the model may throw, and so may the optimisation. The two
  options are the time limit and the gap when they are set.\<close>

record gurobi =
  grb_buildThrows :: "grb_model \<Rightarrow> bool"
  grb_optimize :: "double option \<Rightarrow> double option \<Rightarrow> grb_model \<Rightarrow> grb_outcome option"

record optimizer =
  op_view :: milp_view
  coarseAllocation :: bool
  acceptFeasible :: bool
  op_timeLimit :: double
  op_mipGap :: double
  op_solution :: MILPSolution
  solveFailure :: SolveFailure
  op_solved :: bool
  modelBuilt :: bool
  gurobiFailed :: bool

definition emptyMILPSolution :: MILPSolution where
  "emptyMILPSolution = \<lparr>sol_r = {}, sol_m = [], sol_rHat = [], sol_s = [], sol_eAccum = [], objectiveValue = 0,
     solverStatus = Optimal, mipGap = 0\<rparr>"

definition newOptimizer :: "milp_view \<Rightarrow> optimizer" where
  "newOptimizer I = \<lparr>op_view = I, coarseAllocation = False, acceptFeasible = False, op_timeLimit = 600, op_mipGap = 0,
     op_solution = emptyMILPSolution, solveFailure = NoFailure, op_solved = False, modelBuilt = False, gurobiFailed = False\<rparr>"

definition getInfeasibleBlocks :: "milp_view \<Rightarrow> node_id list" where
  "getInfeasibleBlocks I = filter (\<lambda>b. getBlockEnergyCost I b > mp_capacity (getParams I)) (getBlocks I)"

definition op_model :: "optimizer \<Rightarrow> grb_model" where
  "op_model P = buildModel (buildContext (coarseAllocation P) (op_view P))"

definition ensureModelBuilt :: "gurobi \<Rightarrow> optimizer \<Rightarrow> bool \<times> optimizer" where
  "ensureModelBuilt G P =
     (if modelBuilt P then (True, P)
      else if gurobiFailed P then (False, P)
      else if grb_buildThrows G (op_model P) then (False, P\<lparr>gurobiFailed := True\<rparr>)
      else (True, P\<lparr>modelBuilt := True\<rparr>))"

definition putAll :: "('k::linorder \<Rightarrow> 'v) \<Rightarrow> 'k list \<Rightarrow> ('k, 'v) omap \<Rightarrow> ('k, 'v) omap" where
  "putAll f ks m = foldl (\<lambda>m k. omap_put k (f k) m) m ks"

definition extractSolution :: "milp_ctx \<Rightarrow> assignment \<Rightarrow> double \<Rightarrow> MILPSolution \<Rightarrow> MILPSolution" where
  "extractSolution C X objVal sol =
     (let I = cx_view C; blocks = getBlocks I;
          r = set (filter (\<lambda>b. X (VarR b) > 1 / 2) blocks);
          m1 = (if cx_coarse C
                then putAll (\<lambda>(b, v). X (VarMGlobal v) > 1 / 2) (concat (map (\<lambda>v. map (\<lambda>b. (b, v)) blocks) (orderedVmObjs C))) []
                else putAll (\<lambda>(b, v). X (VarM b v) > 1 / 2)
                       (concat (map (\<lambda>b. map (Pair b) (filter (\<lambda>v. \<not> isIneligible I v) (orderedTrackedValues C))) blocks)) []);
          m2 = putAll (\<lambda>_. True) (concat (map (\<lambda>b. map (Pair b) (getIneligibleObjs I)) blocks)) m1;
          h1 = putAll (\<lambda>(b, v). X (VarRHat b v) > 1 / 2) (rHatKeys C) [];
          h2 = putAll (\<lambda>(b, v). b \<in> r) (concat (map (\<lambda>b. map (Pair b) (getIneligLiveIn I b)) blocks)) h1
      in sol\<lparr>sol_r := r, sol_m := m2, sol_rHat := h2,
             sol_s := putAll (\<lambda>(b, v). X (VarS b v) > 1 / 2) (sKeys C) [],
             sol_eAccum := putAll (\<lambda>b. X (VarEAccum b)) blocks [], objectiveValue := objVal\<rparr>)"

definition optimizer_solve :: "gurobi \<Rightarrow> optimizer \<Rightarrow> bool \<times> optimizer" where
  "optimizer_solve G P0 =
     (let P = P0\<lparr>solveFailure := NoFailure\<rparr>; I = op_view P; C = buildContext (coarseAllocation P) I
      in if getInfeasibleBlocks I \<noteq> [] then (False, P\<lparr>solveFailure := BlocksExceedCapacity\<rparr>)
         else case ensureModelBuilt G P of
           (False, P1) \<Rightarrow> (False, P1\<lparr>solveFailure := SolverError\<rparr>)
         | (True, P1) \<Rightarrow>
             (case grb_optimize G (if op_timeLimit P1 > 0 then Some (op_timeLimit P1) else None)
                     (if op_mipGap P1 > 0 then Some (op_mipGap P1) else None) (op_model P1) of
                None \<Rightarrow> (False, P1\<lparr>solveFailure := SolverError\<rparr>)
              | Some out \<Rightarrow>
                  let P2 = P1\<lparr>op_solved := True\<rparr>;
                      sol = extractSolution C (go_X out) (go_objVal out) (op_solution P2)
                  in if go_status out = GRB_OPTIMAL then (True, P2\<lparr>op_solution := sol\<lparr>solverStatus := Optimal\<rparr>\<rparr>)
                     else if acceptFeasible P2 \<and> go_solCount out > 0
                       then (True, P2\<lparr>op_solution := sol\<lparr>solverStatus := Feasible, mipGap := go_gap out\<rparr>\<rparr>)
                     else (False, P2\<lparr>solveFailure :=
                             (if go_status out = GRB_INFEASIBLE then ProvenInfeasible
                              else if go_solCount out > 0 then FeasibleNotAccepted
                              else if go_status out = GRB_TIME_LIMIT then TimeLimitNoSolution else SolverError)\<rparr>)))"

end
