(* ===== verification/JsonConfig.thy ===== *)
theory JsonConfig
  imports MILPOptimizer SchematicSolution
begin

text \<open>
  The JSON inputs of the passes: the parameters of the MILP pass (\<open>parseMILPEnergyParams\<close> in
  \<open>milp/EnergyModel.cpp\<close>) and of SCHEMATIC (\<open>schematic/SchematicParams.cpp\<close>), and the block counts
  (\<open>milp/BBFreqLoader.cpp\<close>). A document is the tree the JSON library builds, with its three kinds of
  numbers; a file that cannot be opened or parsed is the absence of a document. The messages are left
  out, the error says which check failed.

  Shown: parsing the document written for a parameter record gives the record back, for both passes; the
  counts that are loaded are those of the named blocks; a capacity of 32 bits or more is cut down silently.
\<close>

section \<open>Documents\<close>

datatype json = JNull | JBool bool | JUnsigned u64 | JInteger int | JFloat double | JString string
  | JArray "json list" | JObject "(string \<times> json) list"

definition jsonAt :: "json \<Rightarrow> string \<Rightarrow> json option" where
  "jsonAt doc key = (case doc of JObject flds \<Rightarrow> map_of flds key | _ \<Rightarrow> None)"

definition getDouble :: "json \<Rightarrow> double option" where
  "getDouble v = (case v of JUnsigned n \<Rightarrow> Some (real (unat n)) | JInteger i \<Rightarrow> Some (of_int i) | JFloat d \<Rightarrow> Some d | _ \<Rightarrow> None)"

definition getUnsigned :: "json \<Rightarrow> u32 option" where
  "getUnsigned v = (case v of JUnsigned n \<Rightarrow> Some (ucast n) | _ \<Rightarrow> None)"

definition getBool :: "json \<Rightarrow> bool option" where
  "getBool v = (case v of JBool b \<Rightarrow> Some b | _ \<Rightarrow> None)"

datatype json_error = FileUnreadable | MissingField string | WrongType string | UnknownBlock string | UndefinedConversion string

text \<open>A required field of a given type, in the order presence then type.\<close>

definition requiredField :: "(json \<Rightarrow> 'a option) \<Rightarrow> json \<Rightarrow> string \<Rightarrow> json_error + 'a" where
  "requiredField get config field =
     (case jsonAt config field of
        None \<Rightarrow> Inl (MissingField field)
      | Some v \<Rightarrow> (case get v of None \<Rightarrow> Inl (WrongType field) | Some a \<Rightarrow> Inr a))"

fun requiredFields :: "(json \<Rightarrow> 'a option) \<Rightarrow> json \<Rightarrow> string list \<Rightarrow> json_error + 'a list" where
  "requiredFields get config [] = Inr []"
| "requiredFields get config (f # fs) =
     bindE (requiredField get config f) (\<lambda>a. bindE (requiredFields get config fs) (\<lambda>as. Inr (a # as)))"

text \<open>An optional field, in the pass's own section first and then in the document.\<close>

fun readOptional :: "(json \<Rightarrow> 'a option) \<Rightarrow> json list \<Rightarrow> string \<Rightarrow> 'a \<Rightarrow> json_error + 'a" where
  "readOptional get [] key out = Inr out"
| "readOptional get (s # srcs) key out =
     (case jsonAt s key of
        Some v \<Rightarrow> (case get v of None \<Rightarrow> Inl (WrongType key) | Some a \<Rightarrow> Inr a)
      | None \<Rightarrow> readOptional get srcs key out)"

definition sectionOf :: "json \<Rightarrow> string \<Rightarrow> json" where
  "sectionOf config name = (case jsonAt config name of Some (JObject flds) \<Rightarrow> JObject flds | _ \<Rightarrow> JNull)"

section \<open>Parameters of the MILP pass\<close>

definition milpDoubleFields :: "string list" where
  "milpDoubleFields = [''capacity'', ''E_pro'', ''E_epi'', ''reg_store_energy'', ''reg_restore_energy'',
     ''nvm_access_penalty'', ''mem_store_energy_per_byte'', ''mem_restore_energy_per_byte'']"

definition readStripMiningCost :: "json list \<Rightarrow> json_error + double" where
  "readStripMiningCost srcs =
     bindE (readOptional getDouble srcs ''loop_strip_mining_cost'' 0) (\<lambda>c.
     bindE (if c = 0 then readOptional getDouble srcs ''loop_increment_cost_nvm'' c else Inr c) (\<lambda>c.
     if c = 0 then readOptional getDouble srcs ''loop_increment_cost_nvm_O3'' c else Inr c))"

definition parseMILPEnergyParams :: "json option \<Rightarrow> json_error + MILPEnergyParams" where
  "parseMILPEnergyParams doc =
     (case doc of
        None \<Rightarrow> Inl FileUnreadable
      | Some config \<Rightarrow>
          bindE (requiredFields getDouble config milpDoubleFields) (\<lambda>ds.
          bindE (requiredField getUnsigned config ''vm_capacity_bytes'') (\<lambda>vm.
          bindE (readOptional getUnsigned [config] ''N_reg'' 16) (\<lambda>nreg.
          let srcs = [sectionOf config ''milp'', config]
          in bindE (readOptional getBool srcs ''loop_strip_mining_enabled'' False) (\<lambda>enabled.
             bindE (readStripMiningCost srcs) (\<lambda>cost.
             Inr \<lparr>mp_capacity = ds ! 0, mp_E_pro = ds ! 1, mp_E_epi = ds ! 2, mp_N_reg = nreg,
                  mp_regStoreEnergy = ds ! 3, mp_regRestoreEnergy = ds ! 4, mp_nvmAccessPenalty = ds ! 5,
                  mp_memStoreEnergyPerByte = ds ! 6, mp_memRestoreEnergyPerByte = ds ! 7, mp_vmCapacityBytes = vm,
                  loopStripMiningCost = cost, loopStripMiningEnabled = enabled\<rparr>))))))"

section \<open>Parameters of SCHEMATIC\<close>

definition schematicDoubleFields :: "string list" where
  "schematicDoubleFields = [''capacity'', ''E_pro'', ''E_epi'', ''reg_store_energy'', ''reg_restore_energy'',
     ''nvm_access_penalty'', ''mem_store_energy_per_byte'', ''mem_restore_energy_per_byte'', ''loop_increment_cost_nvm'',
     ''call_cost'']"

definition parseSchematicParams :: "json option \<Rightarrow> json_error + SchematicParams" where
  "parseSchematicParams doc =
     (case doc of
        None \<Rightarrow> Inl FileUnreadable
      | Some config \<Rightarrow>
          bindE (requiredFields getDouble config schematicDoubleFields) (\<lambda>ds.
          bindE (requiredFields getUnsigned config [''N_reg'', ''vm_capacity_bytes'']) (\<lambda>us.
          bindE (readOptional getBool [sectionOf config ''schematic'', config] ''add_debug_markers'' False) (\<lambda>markers.
          Inr \<lparr>capacity = ds ! 0, E_pro = ds ! 1, E_epi = ds ! 2, N_reg = us ! 0, regStoreEnergy = ds ! 3,
               regRestoreEnergy = ds ! 4, nvmAccessPenalty = ds ! 5, memStoreEnergyPerByte = ds ! 6,
               memRestoreEnergyPerByte = ds ! 7, vmCapacityBytes = us ! 1, loopIncrementCostNvm = ds ! 8,
               callCost = ds ! 9, addDebugMarkers = markers\<rparr>))))"

section \<open>Block counts\<close>

text \<open>The conversion of a number to 64 bits; a fraction is cut off, and outside the range the conversion of
  a floating-point number is undefined.\<close>

definition getCount :: "json \<Rightarrow> u64 option option" where
  "getCount v =
     (case v of
        JUnsigned n \<Rightarrow> Some (Some n)
      | JInteger i \<Rightarrow> Some (Some (word_of_int i))
      | JFloat d \<Rightarrow> Some (if - 1 < d \<and> d < 2 ^ 64 then Some (word_of_int (if d < 0 then 0 else \<lfloor>d\<rfloor>)) else None)
      | _ \<Rightarrow> None)"

type_synonym block_counts = "(bb_ptr, u64) omap"

definition blockNamed :: "(bb_ptr \<times> string) list \<Rightarrow> string \<Rightarrow> bb_ptr option" where
  "blockNamed blocks name =
     foldl (\<lambda>found (b, n). if n \<noteq> [] \<and> n = name then Some b else found) None blocks"

fun loadCounts :: "(bb_ptr \<times> string) list \<Rightarrow> (string \<times> json) list \<Rightarrow> block_counts \<Rightarrow> json_error + block_counts" where
  "loadCounts blocks [] counts = Inr counts"
| "loadCounts blocks ((bbName, v) # entries) counts =
     (case getCount v of
        None \<Rightarrow> Inl (WrongType bbName)
      | Some None \<Rightarrow> Inl (UndefinedConversion bbName)
      | Some (Some count) \<Rightarrow>
          (case blockNamed blocks bbName of
             None \<Rightarrow> Inl (UnknownBlock bbName)
           | Some b \<Rightarrow> loadCounts blocks entries (omap_put b count counts)))"

definition loadBBFreq :: "json option \<Rightarrow> string \<Rightarrow> (bb_ptr \<times> string) list \<Rightarrow> json_error + block_counts" where
  "loadBBFreq doc funcName blocks =
     (case doc of
        None \<Rightarrow> Inl FileUnreadable
      | Some rootDoc \<Rightarrow>
          (case jsonAt rootDoc funcName of
             None \<Rightarrow> Inl (MissingField funcName)
           | Some (JObject entries) \<Rightarrow> loadCounts blocks entries []
           | Some _ \<Rightarrow> Inl (WrongType funcName)))"

definition getBlockCount :: "block_counts \<Rightarrow> bb_ptr \<Rightarrow> u64 option" where
  "getBlockCount counts b = map_of counts b"

section \<open>Round trips\<close>

definition milpConfigDoc :: "MILPEnergyParams \<Rightarrow> json" where
  "milpConfigDoc p =
     JObject [(''capacity'', JFloat (mp_capacity p)), (''E_pro'', JFloat (mp_E_pro p)), (''E_epi'', JFloat (mp_E_epi p)),
       (''N_reg'', JUnsigned (ucast (mp_N_reg p))), (''reg_store_energy'', JFloat (mp_regStoreEnergy p)),
       (''reg_restore_energy'', JFloat (mp_regRestoreEnergy p)), (''nvm_access_penalty'', JFloat (mp_nvmAccessPenalty p)),
       (''mem_store_energy_per_byte'', JFloat (mp_memStoreEnergyPerByte p)),
       (''mem_restore_energy_per_byte'', JFloat (mp_memRestoreEnergyPerByte p)),
       (''vm_capacity_bytes'', JUnsigned (ucast (mp_vmCapacityBytes p))),
       (''milp'', JObject [(''loop_strip_mining_cost'', JFloat (loopStripMiningCost p)),
                            (''loop_strip_mining_enabled'', JBool (loopStripMiningEnabled p))])]"

definition schematicConfigDoc :: "SchematicParams \<Rightarrow> json" where
  "schematicConfigDoc p =
     JObject [(''capacity'', JFloat (capacity p)), (''E_pro'', JFloat (E_pro p)), (''E_epi'', JFloat (E_epi p)),
       (''N_reg'', JUnsigned (ucast (N_reg p))), (''reg_store_energy'', JFloat (regStoreEnergy p)),
       (''reg_restore_energy'', JFloat (regRestoreEnergy p)), (''nvm_access_penalty'', JFloat (nvmAccessPenalty p)),
       (''mem_store_energy_per_byte'', JFloat (memStoreEnergyPerByte p)),
       (''mem_restore_energy_per_byte'', JFloat (memRestoreEnergyPerByte p)),
       (''vm_capacity_bytes'', JUnsigned (ucast (vmCapacityBytes p))),
       (''loop_increment_cost_nvm'', JFloat (loopIncrementCostNvm p)), (''call_cost'', JFloat (callCost p)),
       (''schematic'', JObject [(''add_debug_markers'', JBool (addDebugMarkers p))])]"

lemmas json_reads = jsonAt_def getDouble_def getUnsigned_def getBool_def requiredField_def sectionOf_def

lemma ucast_u32_u64 [simp]: "(ucast (ucast (x :: u32) :: u64) :: u32) = x"
  by transfer (simp add: take_bit_take_bit)

lemma milp_roundtrip: "parseMILPEnergyParams (Some (milpConfigDoc p)) = Inr p"
  by (cases p) (simp add: parseMILPEnergyParams_def milpConfigDoc_def milpDoubleFields_def readStripMiningCost_def json_reads Let_def)

lemma schematic_roundtrip: "parseSchematicParams (Some (schematicConfigDoc p)) = Inr p"
  by (cases p) (simp add: parseSchematicParams_def schematicConfigDoc_def schematicDoubleFields_def json_reads)

definition freqDoc :: "string \<Rightarrow> (bb_ptr \<Rightarrow> u64) \<Rightarrow> (bb_ptr \<times> string) list \<Rightarrow> json" where
  "freqDoc funcName count blocks = JObject [(funcName, JObject (map (\<lambda>(b, n). (n, JUnsigned (count b))) blocks))]"

lemma blockNamed_found:
  assumes "distinct (map snd blocks)" and "(b, n) \<in> set blocks" and "n \<noteq> []"
  shows "blockNamed blocks n = Some b"
proof -
  have "foldl (\<lambda>found (b, m). if m \<noteq> [] \<and> m = n then Some b else found) r xs = (if \<exists>b. (b, n) \<in> set xs then Some (THE b. (b, n) \<in> set xs) else r)"
    if "distinct (map snd xs)" for r and xs :: "(bb_ptr \<times> string) list"
    using that
  proof (induction xs arbitrary: r)
    case (Cons x xs)
    obtain c m where x: "x = (c, m)" by (cases x)
    show ?case
    proof (cases "m = n")
      case True
      then have "\<not> (\<exists>b. (b, n) \<in> set xs)" using Cons.prems by (force simp: x)
      then have "(THE b. (b, n) \<in> set (x # xs)) = c" using True by (auto simp: x)
      then show ?thesis using Cons True assms(3) \<open>\<not> (\<exists>b. (b, n) \<in> set xs)\<close> by (auto simp: x)
    next
      case False
      then have "\<And>b. (b, n) \<in> set (x # xs) \<longleftrightarrow> (b, n) \<in> set xs" by (auto simp: x)
      then show ?thesis using Cons False by (simp add: x)
    qed
  qed simp
  moreover have "c = b" if "(c, n) \<in> set blocks" for c
    using assms(1,2) that by (metis distinct_map inj_onD prod.inject snd_conv)
  then have "(THE b. (b, n) \<in> set blocks) = b" using assms(2) by blast
  ultimately show ?thesis using assms by (auto simp: blockNamed_def)
qed

lemma loadCounts_get:
  assumes names: "distinct (map snd blocks)" "[] \<notin> snd ` set blocks" and sub: "set xs \<subseteq> set blocks" and d: "distinct (map fst xs)"
  shows "\<exists>r. loadCounts blocks (map (\<lambda>(b, n). (n, JUnsigned (count b))) xs) counts = Inr r
    \<and> (\<forall>b. map_of r b = (if b \<in> fst ` set xs then Some (count b) else map_of counts b))"
  using sub d
proof (induction xs arbitrary: counts)
  case (Cons x xs)
  obtain c m where x: "x = (c, m)" by (cases x)
  then have named: "blockNamed blocks m = Some c" using blockNamed_found [OF names(1)] names(2) Cons.prems(1) by force
  from Cons.IH [of "omap_put c (count c) counts"] Cons.prems
  obtain r where "loadCounts blocks (map (\<lambda>(b, n). (n, JUnsigned (count b))) xs) (omap_put c (count c) counts) = Inr r"
    "\<forall>b. map_of r b = (if b \<in> fst ` set xs then Some (count b) else map_of (omap_put c (count c) counts) b)"
    by auto
  then show ?case using named Cons.prems(2) by (auto simp: x getCount_def)
qed simp

section \<open>Properties\<close>

text \<open>Parsing the document written for a parameter record gives the record back, for the MILP pass with
  its own section and for SCHEMATIC; and loading the counts written for the named blocks of a function gives
  every block its count and counts nothing else.\<close>
theorem json_inputs_roundtrip:
  assumes "distinct (map snd blocks)" and "[] \<notin> snd ` set blocks" and "distinct (map fst blocks)"
  shows "parseMILPEnergyParams (Some (milpConfigDoc mp)) = Inr mp \<and> parseSchematicParams (Some (schematicConfigDoc sp)) = Inr sp
    \<and> (\<exists>counts. loadBBFreq (Some (freqDoc funcName count blocks)) funcName blocks = Inr counts
         \<and> (\<forall>b. getBlockCount counts b = (if b \<in> fst ` set blocks then Some (count b) else None)))"
proof -
  obtain counts where "loadCounts blocks (map (\<lambda>(b, n). (n, JUnsigned (count b))) blocks) [] = Inr counts"
    "\<forall>b. map_of counts b = (if b \<in> fst ` set blocks then Some (count b) else map_of [] b)"
    using loadCounts_get [OF assms(1,2) subset_refl assms(3), of count "[]"] by blast
  then have "loadBBFreq (Some (freqDoc funcName count blocks)) funcName blocks = Inr counts"
    "\<forall>b. getBlockCount counts b = (if b \<in> fst ` set blocks then Some (count b) else None)"
    by (simp_all add: loadBBFreq_def freqDoc_def jsonAt_def getBlockCount_def)
  then show ?thesis using milp_roundtrip schematic_roundtrip by blast
qed

definition sample_mp :: MILPEnergyParams where
  "sample_mp = \<lparr>mp_capacity = 100, mp_E_pro = 1, mp_E_epi = 2, mp_N_reg = 16, mp_regStoreEnergy = 1, mp_regRestoreEnergy = 1,
     mp_nvmAccessPenalty = 3, mp_memStoreEnergyPerByte = 1, mp_memRestoreEnergyPerByte = 1, mp_vmCapacityBytes = 2048,
     loopStripMiningCost = 0, loopStripMiningEnabled = True\<rparr>"

definition sample_sp :: SchematicParams where
  "sample_sp = \<lparr>capacity = 100, E_pro = 1, E_epi = 2, N_reg = 16, regStoreEnergy = 1, regRestoreEnergy = 1,
     nvmAccessPenalty = 3, memStoreEnergyPerByte = 1, memRestoreEnergyPerByte = 1, vmCapacityBytes = 2048,
     loopIncrementCostNvm = 1, callCost = 5, addDebugMarkers = False\<rparr>"

theorem json_inputs_roundtrip_witness:
  "parseMILPEnergyParams (Some (milpConfigDoc sample_mp)) = Inr sample_mp
   \<and> parseSchematicParams (Some (schematicConfigDoc sample_sp)) = Inr sample_sp
   \<and> (\<exists>counts. loadBBFreq (Some (freqDoc ''main'' (\<lambda>b. if b = 1 then 1 else 40) [(1, ''entry''), (2, ''body'')])) ''main''
          [(1, ''entry''), (2, ''body'')] = Inr counts
        \<and> (\<forall>b. getBlockCount counts b = (if b \<in> fst ` set [(1, ''entry''), (2, ''body'')] then Some (if b = 1 then 1 else 40) else None)))"
  by (rule json_inputs_roundtrip) simp_all

text \<open>A capacity that needs more than 32 bits passes the check and is cut down.\<close>
lemma vm_capacity_truncated:
  "map_sum id mp_vmCapacityBytes
     (parseMILPEnergyParams (Some (JObject ([(f, JFloat 1). f \<leftarrow> milpDoubleFields] @ [(''vm_capacity_bytes'', JUnsigned 0x100000800)]))))
   = Inr 0x800"
  by (simp add: parseMILPEnergyParams_def milpDoubleFields_def readStripMiningCost_def json_reads Let_def)

end
