(* ===== verification/TraceLoader.thy ===== *)
theory TraceLoader
  imports JsonConfig "HOL-Library.Multiset"
begin

text \<open>
  The trace loader (\<open>schematic/TraceLoader.cpp\<close>): execution traces of a function are read from a JSON
  document, and the traces of every loop are completed until each block that lies directly in the loop is
  on some path from the header to the latch. LLVM's loops are the functions of \<open>loop_forest\<close>; the
  documents are those of the theory \<open>JsonConfig\<close>, an absent one being a file that cannot be opened or
  parsed. \<open>std::sort\<close> leaves the order of paths of equal count open; the model takes the stable one. The
  block graph, which \<open>getOrCreate\<close> may extend, is threaded through and returned on success.

  Shown: the breadth-first search ends, finds a path whenever there is one and only reports paths; a
  successful load has one trace for every loop, whose paths go from header to latch inside the loop and
  cover the direct members; a load fails only for a missing document or function, a loop without a
  latch, or a member on no path from header to latch.
\<close>

section \<open>Records\<close>

record EnumeratedPath =
  ep_blocks :: "block_ptr list"
  ep_count :: u32

record LoadedLoopTrace =
  lt_loop :: "loop_id option"
  lt_header :: block_ptr
  lt_members :: "block_ptr list"
  lt_latch :: block_ptr
  lt_depth :: u32
  iterationPaths :: "EnumeratedPath list"

record LoadedTraces =
  functionPaths :: "EnumeratedPath list"
  loopTraces :: "LoadedLoopTrace list"

text \<open>What the loader asks of the function and of LLVM's loops. \<open>lf_parents L\<close> is the chain of parents
  of \<open>L\<close>, the immediate one first.\<close>

record loop_forest =
  lf_LI :: loop_info
  lf_bbName :: "bb_ptr \<Rightarrow> string"
  lf_succs :: "bb_ptr \<Rightarrow> bb_ptr list"
  lf_parents :: "loop_id \<Rightarrow> loop_id list"
  lf_exitBlocks :: "loop_id \<Rightarrow> bb_ptr list"
  lf_depth :: "loop_id \<Rightarrow> u32"
  lf_preorder :: "loop_id list"

section \<open>Trace entries\<close>

type_synonym name_map = "(string \<times> block_ptr) list"

fun resolveNames :: "name_map \<Rightarrow> json list \<Rightarrow> block_ptr list option" where
  "resolveNames names [] = Some []"
| "resolveNames names (v # vs) =
     (case v of
        JString nm \<Rightarrow>
          (case map_of names nm of
             None \<Rightarrow> None
           | Some b \<Rightarrow> map_option (\<lambda>bs. b # bs) (resolveNames names vs))
      | _ \<Rightarrow> None)"

definition keyOr :: "json \<Rightarrow> string \<Rightarrow> string \<Rightarrow> string" where
  "keyOr obj k k' = (if jsonAt obj k \<noteq> None then k else k')"

definition parseTraceEntry :: "name_map \<Rightarrow> json \<Rightarrow> EnumeratedPath option" where
  "parseTraceEntry names obj =
     (case (jsonAt obj (keyOr obj ''path'' ''trace''), jsonAt obj (keyOr obj ''count'' ''nb_execution'')) of
        (Some (JArray vs), Some (JUnsigned n)) \<Rightarrow>
          map_option (\<lambda>bs. \<lparr>ep_blocks = bs, ep_count = ucast n\<rparr>) (resolveNames names vs)
      | _ \<Rightarrow> None)"

definition parseTraces :: "name_map \<Rightarrow> json option \<Rightarrow> EnumeratedPath list" where
  "parseTraces names v =
     (case v of
        Some (JArray objs) \<Rightarrow> sort_key (\<lambda>p. - uint (ep_count p)) (List.map_filter (parseTraceEntry names) objs)
      | _ \<Rightarrow> [])"

section \<open>Loops\<close>

fun graphNodes :: "(bb_ptr \<Rightarrow> string) \<Rightarrow> bb_ptr list \<Rightarrow> SchematicGraph \<Rightarrow> block_ptr list \<times> SchematicGraph" where
  "graphNodes nm [] g = ([], g)"
| "graphNodes nm (BB # BBs) g =
     (let (b, g1) = getOrCreate nm BB g; (bs, g2) = graphNodes nm BBs g1 in (b # bs, g2))"

definition makeCanonicalLoopTrace :: "loop_forest \<Rightarrow> loop_id \<Rightarrow> SchematicGraph \<Rightarrow> LoadedLoopTrace \<times> SchematicGraph" where
  "makeCanonicalLoopTrace E L g =
     (let LI = lf_LI E; nm = lf_bbName E;
          (hb, g1) = getOrCreate nm (getHeader LI L) g;
          (la, g2) = (if getLoopLatch LI L \<noteq> nullptr then getOrCreate nm (getLoopLatch LI L) g1 else (nullptr, g1));
          (ms, g3) = graphNodes nm (getLoopBlocks LI L) g2
      in (\<lparr>lt_loop = Some L, lt_header = hb, lt_members = ms, lt_latch = la, lt_depth = lf_depth E L, iterationPaths = []\<rparr>, g3))"

definition pathContainsOnlyLoopMembers :: "SchematicGraph \<Rightarrow> EnumeratedPath \<Rightarrow> bb_ptr set \<Rightarrow> bool" where
  "pathContainsOnlyLoopMembers g path memberSet \<longleftrightarrow>
     list_all (\<lambda>b. let BB = if b \<noteq> nullptr then getLLVMBlock g b else nullptr in BB \<noteq> nullptr \<and> BB \<in> memberSet)
       (ep_blocks path)"

definition isStructurallyValidLoopPath ::
  "SchematicGraph \<Rightarrow> EnumeratedPath \<Rightarrow> LoadedLoopTrace \<Rightarrow> bb_ptr set \<Rightarrow> bool" where
  "isStructurallyValidLoopPath g path tr memberSet \<longleftrightarrow>
     ep_blocks path \<noteq> [] \<and> lt_header tr \<noteq> nullptr \<and> lt_latch tr \<noteq> nullptr
     \<and> List.hd (ep_blocks path) = lt_header tr \<and> last (ep_blocks path) = lt_latch tr
     \<and> pathContainsOnlyLoopMembers g path memberSet"

definition pathsEqual :: "EnumeratedPath \<Rightarrow> EnumeratedPath \<Rightarrow> bool" where
  "pathsEqual l r \<longleftrightarrow>
     length (ep_blocks l) = length (ep_blocks r)
     \<and> list_all (\<lambda>i. ep_blocks l ! i = ep_blocks r ! i) [0..<length (ep_blocks l)]"

definition pathAlreadyPresent :: "EnumeratedPath list \<Rightarrow> EnumeratedPath \<Rightarrow> bool" where
  "pathAlreadyPresent paths path \<longleftrightarrow> list_ex (\<lambda>existing. pathsEqual existing path) paths"

text \<open>From the innermost loop of a block up to the child of the parent, or nothing when the chain ends or
  starts at the parent itself.\<close>

fun climbToChild :: "loop_id \<Rightarrow> loop_id list \<Rightarrow> loop_id option" where
  "climbToChild parent [] = None"
| "climbToChild parent (owner # ancestors) =
     (if owner = parent then None
      else if ancestors \<noteq> [] \<and> List.hd ancestors = parent then Some owner
      else climbToChild parent ancestors)"

definition getImmediateChildLoop :: "loop_forest \<Rightarrow> loop_id \<Rightarrow> bb_ptr \<Rightarrow> loop_id option" where
  "getImmediateChildLoop E parent BB =
     (case getLoopFor (lf_LI E) BB of
        None \<Rightarrow> None
      | Some owner \<Rightarrow> climbToChild parent (owner # lf_parents E owner))"

definition pushUnseen :: "bb_ptr list \<Rightarrow> bb_ptr \<Rightarrow> bb_ptr list" where
  "pushUnseen seen b = (if b \<in> set seen then seen else seen @ [b])"

definition getReducedSuccessors :: "loop_forest \<Rightarrow> loop_id \<Rightarrow> bb_ptr \<Rightarrow> bb_ptr list" where
  "getReducedSuccessors E L BB =
     (if BB = nullptr then []
      else case getImmediateChildLoop E L BB of
        Some child \<Rightarrow>
          (if BB \<noteq> getHeader (lf_LI E) child then []
           else foldl pushUnseen [] (filter (\<lambda>x. x \<noteq> nullptr \<and> loopContains (lf_LI E) L x) (lf_exitBlocks E child)))
      | None \<Rightarrow>
          filter (\<lambda>s. loopContains (lf_LI E) L s
                      \<and> \<not> (BB = getLoopLatch (lf_LI E) L \<and> s = getHeader (lf_LI E) L)) (lf_succs E BB))"

section \<open>The breadth-first search\<close>

record bfs_state =
  bq :: "bb_ptr list"
  bvisited :: "bb_ptr set"
  bpred :: "(bb_ptr \<times> bb_ptr) list"

text \<open>The inner loop: the flag says that the destination was reached.\<close>

fun bfsVisit :: "bb_ptr \<Rightarrow> bb_ptr \<Rightarrow> bb_ptr list \<Rightarrow> bfs_state \<Rightarrow> bool \<times> bfs_state" where
  "bfsVisit dst' current [] s = (False, s)"
| "bfsVisit dst' current (succ # succs) s =
     (if succ \<in> bvisited s then bfsVisit dst' current succs s
      else
        let s1 = s\<lparr>bvisited := insert succ (bvisited s), bpred := (succ, current) # bpred s\<rparr>
        in if succ = dst' then (True, s1) else bfsVisit dst' current succs (s1\<lparr>bq := bq s1 @ [succ]\<rparr>))"

partial_function (option) bfsLoop ::
  "(bb_ptr \<Rightarrow> bb_ptr list) \<Rightarrow> bb_ptr \<Rightarrow> bfs_state \<Rightarrow> (bb_ptr \<times> bb_ptr) list option option" where
  "bfsLoop succsOf dst' s =
     (case bq s of
        [] \<Rightarrow> Some None
      | current # rest \<Rightarrow>
          (case bfsVisit dst' current (succsOf current) (s\<lparr>bq := rest\<rparr>) of
             (found, s1) \<Rightarrow> if found then Some (Some (bpred s1)) else bfsLoop succsOf dst' s1))"

partial_function (option) walkBack ::
  "(bb_ptr \<times> bb_ptr) list \<Rightarrow> bb_ptr \<Rightarrow> bb_ptr \<Rightarrow> bb_ptr list \<Rightarrow> bb_ptr list option option" where
  "walkBack predecessor src' cursor path =
     (if cursor = src' then Some (Some (rev path))
      else case map_of predecessor cursor of
             None \<Rightarrow> Some None
           | Some p \<Rightarrow> walkBack predecessor src' p (path @ [p]))"

declare bfsLoop.simps [code] walkBack.simps [code]

text \<open>The outer \<open>None\<close> would be a search that does not end.\<close>

definition findReducedPath ::
  "loop_forest \<Rightarrow> loop_id \<Rightarrow> bb_ptr \<Rightarrow> bb_ptr \<Rightarrow> bb_ptr list option option" where
  "findReducedPath E L src' dst' =
     (if src' = nullptr \<or> dst' = nullptr then Some None
      else if src' = dst' then Some (Some [src'])
      else case bfsLoop (getReducedSuccessors E L) dst' \<lparr>bq = [src'], bvisited = {src'}, bpred = []\<rparr> of
             None \<Rightarrow> None
           | Some None \<Rightarrow> Some None
           | Some (Some predecessor) \<Rightarrow> walkBack predecessor src' dst' [dst'])"

section \<open>Completing the traces of a loop\<close>

definition makeEnumeratedPath :: "loop_forest \<Rightarrow> bb_ptr list \<Rightarrow> SchematicGraph \<Rightarrow> EnumeratedPath \<times> SchematicGraph" where
  "makeEnumeratedPath E BBs g =
     (let (bs, g1) = graphNodes (lf_bbName E) BBs g in (\<lparr>ep_blocks = bs, ep_count = 1\<rparr>, g1))"

definition coveredByPaths :: "EnumeratedPath list \<Rightarrow> block_ptr \<Rightarrow> bool" where
  "coveredByPaths paths m \<longleftrightarrow> list_ex (\<lambda>p. m \<in> set (ep_blocks p)) paths"

definition isDirectMember :: "loop_forest \<Rightarrow> SchematicGraph \<Rightarrow> loop_id option \<Rightarrow> block_ptr \<Rightarrow> bool" where
  "isDirectMember E g L m \<longleftrightarrow>
     m \<noteq> nullptr \<and> getLLVMBlock g m \<noteq> nullptr \<and> getLoopFor (lf_LI E) (getLLVMBlock g m) = L"

definition coversAllDirectMembers :: "loop_forest \<Rightarrow> SchematicGraph \<Rightarrow> LoadedLoopTrace \<Rightarrow> bool" where
  "coversAllDirectMembers E g tr \<longleftrightarrow>
     list_all (\<lambda>m. isDirectMember E g (lt_loop tr) m \<longrightarrow> coveredByPaths (iterationPaths tr) m) (lt_members tr)"

datatype trace_error = SearchDiverges | MissingHeaderLatch | NoPathCovering bb_ptr | NoLoopPath bb_ptr | MembersUncovered bb_ptr
  | TraceUnreadable | FunctionNotTraced

definition coverMember ::
  "loop_forest \<Rightarrow> loop_id \<Rightarrow> block_ptr \<Rightarrow> EnumeratedPath list \<times> SchematicGraph
     \<Rightarrow> trace_error + EnumeratedPath list \<times> SchematicGraph" where
  "coverMember E L m s =
     (let LI = lf_LI E; (paths, g) = s; memberBB = getLLVMBlock g m
      in if \<not> isDirectMember E g (Some L) m \<or> coveredByPaths paths m then Inr s
         else case (findReducedPath E L (getHeader LI L) memberBB, findReducedPath E L memberBB (getLoopLatch LI L)) of
                (Some (Some prefix), Some (Some suffix)) \<Rightarrow>
                  (let (path, g1) = makeEnumeratedPath E (prefix @ tl suffix) g
                   in Inr (if pathAlreadyPresent paths path then paths else paths @ [path], g1))
              | (Some _, Some _) \<Rightarrow> Inl (NoPathCovering memberBB)
              | _ \<Rightarrow> Inl SearchDiverges)"

fun coverMembers ::
  "loop_forest \<Rightarrow> loop_id \<Rightarrow> block_ptr list \<Rightarrow> EnumeratedPath list \<times> SchematicGraph
     \<Rightarrow> trace_error + EnumeratedPath list \<times> SchematicGraph" where
  "coverMembers E L [] s = Inr s"
| "coverMembers E L (m # ms) s = bindE (coverMember E L m s) (coverMembers E L ms)"

definition canonicalPath ::
  "loop_forest \<Rightarrow> loop_id \<Rightarrow> EnumeratedPath list \<times> SchematicGraph \<Rightarrow> trace_error + EnumeratedPath list \<times> SchematicGraph" where
  "canonicalPath E L s =
     (let LI = lf_LI E
      in if fst s \<noteq> [] then Inr s
         else case findReducedPath E L (getHeader LI L) (getLoopLatch LI L) of
                None \<Rightarrow> Inl SearchDiverges
              | Some None \<Rightarrow> Inl (NoLoopPath (getHeader LI L))
              | Some (Some p) \<Rightarrow> (let (path, g1) = makeEnumeratedPath E p (snd s) in Inr ([path], g1)))"

definition synthesizeLoopPaths ::
  "loop_forest \<Rightarrow> LoadedLoopTrace \<Rightarrow> SchematicGraph \<Rightarrow> trace_error + LoadedLoopTrace \<times> SchematicGraph" where
  "synthesizeLoopPaths E tr g =
     (case lt_loop tr of
        None \<Rightarrow> Inl MissingHeaderLatch
      | Some L \<Rightarrow>
          if lt_header tr = nullptr \<or> lt_latch tr = nullptr then Inl MissingHeaderLatch
          else
            bindE (coverMembers E L (lt_members tr) (iterationPaths tr, g)) (\<lambda>s.
            bindE (canonicalPath E L s) (\<lambda>(paths, g1).
            let tr1 = tr\<lparr>iterationPaths := paths\<rparr>
            in if \<not> coversAllDirectMembers E g1 tr1 then Inl (MembersUncovered (getHeader (lf_LI E) L))
               else Inr (tr1\<lparr>iterationPaths := sort_key (\<lambda>p. - uint (ep_count p)) paths\<rparr>, g1))))"

fun synthesizeAll ::
  "loop_forest \<Rightarrow> LoadedLoopTrace list \<Rightarrow> SchematicGraph \<Rightarrow> trace_error + LoadedLoopTrace list \<times> SchematicGraph" where
  "synthesizeAll E [] g = Inr ([], g)"
| "synthesizeAll E (tr # trs) g =
     bindE (synthesizeLoopPaths E tr g) (\<lambda>(tr1, g1).
     bindE (synthesizeAll E trs g1) (\<lambda>(trs1, g2). Inr (tr1 # trs1, g2)))"

fun canonicalLoopTraces :: "loop_forest \<Rightarrow> loop_id list \<Rightarrow> SchematicGraph \<Rightarrow> LoadedLoopTrace list \<times> SchematicGraph" where
  "canonicalLoopTraces E [] g = ([], g)"
| "canonicalLoopTraces E (L # Ls) g =
     (let (tr, g1) = makeCanonicalLoopTrace E L g; (trs, g2) = canonicalLoopTraces E Ls g1 in (tr # trs, g2))"

definition addValidPath ::
  "SchematicGraph \<Rightarrow> bb_ptr set \<Rightarrow> LoadedLoopTrace \<Rightarrow> EnumeratedPath \<Rightarrow> LoadedLoopTrace" where
  "addValidPath g memberSet tr path =
     (if \<not> isStructurallyValidLoopPath g path tr memberSet then tr
      else if pathAlreadyPresent (iterationPaths tr) path then tr
      else tr\<lparr>iterationPaths := iterationPaths tr @ [path]\<rparr>)"

text \<open>A parsed trace goes to the canonical one of its loop; \<open>loopToIndex\<close> has a single index for a loop,
  the last one.\<close>

definition mergeParsed ::
  "loop_forest \<Rightarrow> SchematicGraph \<Rightarrow> LoadedLoopTrace list \<Rightarrow> LoadedLoopTrace \<Rightarrow> LoadedLoopTrace list" where
  "mergeParsed E g augmented parsed =
     (case lt_loop parsed of
        None \<Rightarrow> augmented
      | Some L \<Rightarrow>
          (case map_of (rev (zip (lf_preorder E) [0..<length (lf_preorder E)])) L of
             None \<Rightarrow> augmented
           | Some i \<Rightarrow>
               augmented[i := foldl (addValidPath g (set (getLoopBlocks (lf_LI E) L))) (augmented ! i) (iterationPaths parsed)]))"

definition augmentLoopTraces ::
  "loop_forest \<Rightarrow> LoadedLoopTrace list \<Rightarrow> SchematicGraph \<Rightarrow> trace_error + LoadedLoopTrace list \<times> SchematicGraph" where
  "augmentLoopTraces E parsedLoopTraces g =
     (let (canonical, g1) = canonicalLoopTraces E (lf_preorder E) g;
          augmented = foldl (mergeParsed E g1) canonical parsedLoopTraces
      in synthesizeAll E (sort_key (\<lambda>tr. - uint (lt_depth tr)) augmented) g1)"

section \<open>The loader\<close>

definition traceLoaderNames ::
  "loop_forest \<Rightarrow> bb_ptr list \<Rightarrow> SchematicGraph \<Rightarrow> name_map \<times> SchematicGraph" where
  "traceLoaderNames E F g =
     foldl (\<lambda>(names, g) BB.
        if lf_bbName E BB \<noteq> [] then let (b, g1) = getOrCreate (lf_bbName E) BB g in ((lf_bbName E BB, b) # names, g1)
        else (names, g)) ([], g) F"

definition knownNames :: "name_map \<Rightarrow> json option \<Rightarrow> block_ptr list" where
  "knownNames names v =
     (case v of
        Some (JArray vs) \<Rightarrow> List.map_filter (\<lambda>v. case v of JString nm \<Rightarrow> map_of names nm | _ \<Rightarrow> None) vs
      | _ \<Rightarrow> [])"

definition metaField :: "json \<Rightarrow> string \<Rightarrow> json option" where
  "metaField loopObj key =
     (case jsonAt loopObj ''loop'' of Some (JObject flds) \<Rightarrow> map_of flds key | _ \<Rightarrow> None)"

definition parseLoopTrace ::
  "loop_forest \<Rightarrow> name_map \<Rightarrow> string \<times> json \<Rightarrow> SchematicGraph \<Rightarrow> LoadedLoopTrace option \<times> SchematicGraph" where
  "parseLoopTrace E names entry g =
     (let (headerName, loopObj) = entry; LI = lf_LI E
      in case map_of names headerName of
           None \<Rightarrow> (None, g)
         | Some hb \<Rightarrow>
             (case find (\<lambda>L. getHeader LI L = getLLVMBlock g hb) (lf_preorder E) of
                None \<Rightarrow> (None, g)
              | Some L \<Rightarrow>
                  let latches = knownNames names (metaField loopObj ''latch'');
                      depth = (case metaField loopObj ''depth'' of Some (JUnsigned n) \<Rightarrow> ucast n | _ \<Rightarrow> 0);
                      (la, g1) = (if latches \<noteq> [] then (List.hd latches, g)
                                  else if getLoopLatch LI L \<noteq> nullptr then getOrCreate (lf_bbName E) (getLoopLatch LI L) g
                                  else (nullptr, g))
                  in (Some \<lparr>lt_loop = Some L, lt_header = hb,
                           lt_members = knownNames names (metaField loopObj ''basic_blocks''), lt_latch = la,
                           lt_depth = (if depth = 0 then lf_depth E L else depth),
                           iterationPaths = parseTraces names (jsonAt loopObj ''traces'')\<rparr>, g1)))"

fun parseLoopTraces ::
  "loop_forest \<Rightarrow> name_map \<Rightarrow> (string \<times> json) list \<Rightarrow> SchematicGraph \<Rightarrow> LoadedLoopTrace list \<times> SchematicGraph" where
  "parseLoopTraces E names [] g = ([], g)"
| "parseLoopTraces E names (entry # entries) g =
     (let (tr, g1) = parseLoopTrace E names entry g; (trs, g2) = parseLoopTraces E names entries g1
      in (case tr of None \<Rightarrow> trs | Some t \<Rightarrow> t # trs, g2))"

definition loadTraces ::
  "loop_forest \<Rightarrow> name_map \<Rightarrow> string \<Rightarrow> json option \<Rightarrow> SchematicGraph \<Rightarrow> trace_error + LoadedTraces \<times> SchematicGraph" where
  "loadTraces E names funcName doc g =
     (case doc of
        None \<Rightarrow> Inl TraceUnreadable
      | Some topLevel \<Rightarrow>
          (case jsonAt topLevel funcName of
             None \<Rightarrow> Inl FunctionNotTraced
           | Some funcObj \<Rightarrow>
               let fps = parseTraces names (jsonAt funcObj ''traces'');
                   (parsed, g1) = (case jsonAt funcObj ''loop_traces'' of
                       Some (JObject entries) \<Rightarrow> parseLoopTraces E names entries g
                     | _ \<Rightarrow> ([], g))
               in bindE (augmentLoopTraces E parsed g1) (\<lambda>(trs, g2).
                  Inr (\<lparr>functionPaths = fps, loopTraces = trs\<rparr>, g2))))"

section \<open>The search is correct\<close>

definition is_path :: "('a \<Rightarrow> 'a list) \<Rightarrow> 'a \<Rightarrow> 'a \<Rightarrow> 'a list \<Rightarrow> bool" where
  "is_path succsOf a b p \<longleftrightarrow>
     p \<noteq> [] \<and> List.hd p = a \<and> last p = b \<and> successively (\<lambda>u v. v \<in> set (succsOf u)) p"

lemma is_path_snoc: "is_path succsOf a u p \<Longrightarrow> v \<in> set (succsOf u) \<Longrightarrow> is_path succsOf a v (p @ [v])"
  by (auto simp: is_path_def successively_append_iff)

lemma is_path_join:
  "is_path succsOf a u p \<Longrightarrow> is_path succsOf u b q \<Longrightarrow> is_path succsOf a b (p @ tl q)"
  by (cases q) (auto simp: is_path_def successively_append_iff successively_Cons)

lemma is_path_closed:
  assumes "is_path succsOf a b p" "a \<in> V" "\<forall>v \<in> V. set (succsOf v) \<subseteq> V"
  shows "set p \<subseteq> V"
  using assms
proof (induction p arbitrary: a)
  case (Cons x p)
  then show ?case
    by (cases p) (auto simp: is_path_def)
qed simp

text \<open>The recorded predecessors, the most recent first: every entry is new and leads back to an older one.\<close>

fun pred_ok :: "(bb_ptr \<Rightarrow> bb_ptr list) \<Rightarrow> bb_ptr \<Rightarrow> (bb_ptr \<times> bb_ptr) list \<Rightarrow> bool" where
  "pred_ok succsOf a [] = True"
| "pred_ok succsOf a ((v, u) # m) =
     (v \<noteq> a \<and> v \<notin> fst ` set m \<and> (u = a \<or> u \<in> fst ` set m) \<and> v \<in> set (succsOf u) \<and> pred_ok succsOf a m)"

lemma walkBack_path:
  assumes "pred_ok succsOf a m" "c = a \<or> c \<in> fst ` set m"
  shows "\<exists>q. is_path succsOf a c q
    \<and> (\<forall>m' path. map_of m \<subseteq>\<^sub>m map_of m' \<longrightarrow> walkBack m' a c path = Some (Some (butlast q @ rev path)))"
  using assms
proof (induction m arbitrary: c)
  case Nil
  then show ?case
    by (intro exI [of _ "[a]"]) (simp add: is_path_def walkBack.simps)
next
  case (Cons e m)
  obtain v u where e: "e = (v, u)" by fastforce
  have le: "map_of m \<subseteq>\<^sub>m map_of m'" if "map_of (e # m) \<subseteq>\<^sub>m map_of m'" for m'
  proof (rule map_le_trans [OF _ that])
    have "map_of m v = None" using Cons.prems(1) e by (simp add: map_of_eq_None_iff)
    then show "map_of m \<subseteq>\<^sub>m map_of (e # m)" by (auto simp: e map_le_def dom_def)
  qed
  show ?case
  proof (cases "c = v")
    case False
    with Cons.prems Cons.IH [of c] le e show ?thesis by fastforce
  next
    case True
    from Cons.prems(1) e have u: "u = a \<or> u \<in> fst ` set m" and ok: "pred_ok succsOf a m"
      and edge: "v \<in> set (succsOf u)" and va: "v \<noteq> a" by auto
    from Cons.IH [OF ok u] obtain q where q: "is_path succsOf a u q"
      "\<forall>m' path. map_of m \<subseteq>\<^sub>m map_of m' \<longrightarrow> walkBack m' a u path = Some (Some (butlast q @ rev path))" by blast
    have "walkBack m' a v path = Some (Some (butlast (q @ [v]) @ rev path))" if "map_of (e # m) \<subseteq>\<^sub>m map_of m'" for m' path
    proof -
      have "map_of m' v = Some u" using that e by (auto simp: map_le_def dest: bspec [of _ _ v])
      with va have "walkBack m' a v path = walkBack m' a u (path @ [u])"
        by (subst walkBack.simps) simp
      also have "\<dots> = Some (Some (butlast q @ u # rev path))" using q(2) le [OF that] by simp
      also have "butlast q @ u # rev path = q @ rev path"
        using q(1) append_butlast_last_id [of q] by (simp add: is_path_def flip: append_Cons)
      finally show ?thesis by simp
    qed
    with is_path_snoc [OF q(1) edge] True show ?thesis by blast
  qed
qed

text \<open>A finite graph: the successors of a block stay in a list of blocks.\<close>

locale reduced_graph =
  fixes succsOf :: "bb_ptr \<Rightarrow> bb_ptr list" and nodes :: "bb_ptr list"
  assumes succs_nodes: "set (succsOf b) \<subseteq> set nodes"
begin

definition bfs_inv :: "bb_ptr \<Rightarrow> bb_ptr \<Rightarrow> bb_ptr set \<Rightarrow> bfs_state \<Rightarrow> bool" where
  "bfs_inv a d open' s \<longleftrightarrow>
     bvisited s = insert a (fst ` set (bpred s)) \<and> pred_ok succsOf a (bpred s) \<and> d \<notin> bvisited s
     \<and> set (bq s) \<subseteq> bvisited s \<and> (\<forall>v \<in> bvisited s - set (bq s) - open'. set (succsOf v) \<subseteq> bvisited s)"

definition bfs_size :: "bfs_state \<Rightarrow> nat" where
  "bfs_size s = length (bq s) + card (set nodes - bvisited s)"

lemma bfs_invI:
  assumes "bvisited s = insert a (fst ` set (bpred s))" "pred_ok succsOf a (bpred s)" "d \<notin> bvisited s"
    and "set (bq s) \<subseteq> bvisited s"
    and "\<And>v. v \<in> bvisited s \<Longrightarrow> v \<notin> set (bq s) \<Longrightarrow> v \<notin> open' \<Longrightarrow> set (succsOf v) \<subseteq> bvisited s"
  shows "bfs_inv a d open' s"
  using assms unfolding bfs_inv_def by blast

lemma bfs_invD:
  assumes "bfs_inv a d open' s"
  shows "a \<in> bvisited s" "d \<notin> bvisited s" "pred_ok succsOf a (bpred s)"
    and "v \<in> bvisited s \<longleftrightarrow> v = a \<or> v \<in> fst ` set (bpred s)"
    and "v \<in> bvisited s \<Longrightarrow> v \<notin> set (bq s) \<Longrightarrow> v \<notin> open' \<Longrightarrow> set (succsOf v) \<subseteq> bvisited s"
    and "set (bq s) \<subseteq> bvisited s" "bvisited s = insert a (fst ` set (bpred s))"
  using assms unfolding bfs_inv_def by blast+

lemma bfs_inv_push:
  assumes inv: "bfs_inv a d {c} s" and c: "c \<in> bvisited s" and x: "x \<in> set (succsOf c)" "x \<notin> bvisited s" "x \<noteq> d"
  shows "bfs_inv a d {c} (s\<lparr>bvisited := insert x (bvisited s), bpred := (x, c) # bpred s, bq := bq s @ [x]\<rparr>)"
proof -
  have "pred_ok succsOf a ((x, c) # bpred s)"
    using bfs_invD(3) [OF inv] bfs_invD(4) [OF inv, of x] bfs_invD(4) [OF inv, of c] c x by simp
  moreover have "insert x (bvisited s) = insert a (fst ` set ((x, c) # bpred s))"
    using inv by (simp add: bfs_inv_def insert_commute)
  moreover have "set (bq s) \<subseteq> bvisited s" by (rule bfs_invD(6) [OF inv])
  ultimately show ?thesis
  proof (intro bfs_invI)
    fix v assume "v \<in> bvisited (s\<lparr>bvisited := insert x (bvisited s), bpred := (x, c) # bpred s, bq := bq s @ [x]\<rparr>)"
      "v \<notin> set (bq (s\<lparr>bvisited := insert x (bvisited s), bpred := (x, c) # bpred s, bq := bq s @ [x]\<rparr>))" "v \<notin> {c}"
    then show "set (succsOf v) \<subseteq> bvisited (s\<lparr>bvisited := insert x (bvisited s), bpred := (x, c) # bpred s, bq := bq s @ [x]\<rparr>)"
      using bfs_invD(5) [OF inv, of v] by auto
  qed (use bfs_invD(2) [OF inv] x(3) in auto)
qed

lemma bfsVisit_not_found:
  assumes "bfs_inv a d {c} s" "c \<in> bvisited s" "set ss \<subseteq> set (succsOf c)" "bfsVisit d c ss s = (False, s')"
  shows "bfs_inv a d {c} s' \<and> bfs_size s' = bfs_size s \<and> bvisited s \<subseteq> bvisited s' \<and> set ss \<subseteq> bvisited s'"
  using assms
proof (induction d c ss s rule: bfsVisit.induct)
  case (2 d c x ss s)
  show ?case
  proof (cases "x \<in> bvisited s")
    case True
    with 2 show ?thesis by auto
  next
    case False
    let ?s = "s\<lparr>bvisited := insert x (bvisited s), bpred := (x, c) # bpred s, bq := bq s @ [x]\<rparr>"
    from False "2.prems" have xd: "x \<noteq> d" and step: "bfsVisit d c ss ?s = (False, s')"
      by (auto simp: Let_def split: if_splits)
    have inv: "bfs_inv a d {c} ?s"
      using bfs_inv_push [OF "2.prems"(1,2) _ False xd] "2.prems"(3) by simp
    have "x \<in> set nodes" using "2.prems"(3) succs_nodes by auto
    with False have "card (set nodes - bvisited s) = Suc (card (set nodes - insert x (bvisited s)))"
      by (metis Diff_iff List.finite_set card_Suc_Diff1 Diff_insert finite_Diff)
    then have len: "bfs_size ?s = bfs_size s" by (simp add: bfs_size_def)
    from "2.IH"(2) [OF False refl xd] step inv "2.prems"(2,3)
    have "bfs_inv a d {c} s' \<and> bfs_size s' = bfs_size ?s \<and> bvisited ?s \<subseteq> bvisited s' \<and> set ss \<subseteq> bvisited s'" by simp
    with len show ?thesis by auto
  qed
qed simp

lemma bfsVisit_found:
  assumes "bfs_inv a d {c} s" "c \<in> bvisited s" "set ss \<subseteq> set (succsOf c)" "bfsVisit d c ss s = (True, s')"
  shows "pred_ok succsOf a (bpred s') \<and> d \<in> fst ` set (bpred s')"
  using assms
proof (induction d c ss s rule: bfsVisit.induct)
  case (2 d c x ss s)
  show ?case
  proof (cases "x \<in> bvisited s")
    case True
    with 2 show ?thesis by auto
  next
    case False
    let ?s = "s\<lparr>bvisited := insert x (bvisited s), bpred := (x, c) # bpred s, bq := bq s @ [x]\<rparr>"
    show ?thesis
    proof (cases "x = d")
      case True
      have "c = a \<or> c \<in> fst ` set (bpred s)" "pred_ok succsOf a (bpred s)" "d \<noteq> a \<and> d \<notin> fst ` set (bpred s)"
        using "2.prems"(2) bfs_invD(2,3) [OF "2.prems"(1)] bfs_invD(4) [OF "2.prems"(1), of c] bfs_invD(4) [OF "2.prems"(1), of d] by simp_all
      moreover have "s' = s\<lparr>bvisited := insert x (bvisited s), bpred := (x, c) # bpred s\<rparr>"
        using True False "2.prems"(4) by (simp add: Let_def)
      ultimately show ?thesis using True "2.prems"(3) by simp
    next
      case xd: False
      have inv: "bfs_inv a d {c} ?s"
        using bfs_inv_push [OF "2.prems"(1,2) _ False xd] "2.prems"(3) by simp
      from "2.IH"(2) [OF False refl xd] inv "2.prems" False xd show ?thesis by (simp add: Let_def)
    qed
  qed
qed simp

lemma bfsLoop_returns:
  assumes "bfs_inv a d {} s"
  shows "\<exists>r. bfsLoop succsOf d s = Some r
    \<and> (case r of None \<Rightarrow> \<exists>V. a \<in> V \<and> d \<notin> V \<and> (\<forall>v \<in> V. set (succsOf v) \<subseteq> V)
       | Some m \<Rightarrow> pred_ok succsOf a m \<and> d \<in> fst ` set m)"
  using assms
proof (induction s rule: measure_induct_rule [of bfs_size])
  case (less s)
  show ?case
  proof (cases "bq s")
    case Nil
    with less.prems have "a \<in> bvisited s \<and> d \<notin> bvisited s \<and> (\<forall>v \<in> bvisited s. set (succsOf v) \<subseteq> bvisited s)"
      using bfs_invD(1,2,5) [OF less.prems] by simp
    with Nil show ?thesis by (subst bfsLoop.simps) (simp, blast)
  next
    case (Cons c rest)
    let ?s = "s\<lparr>bq := rest\<rparr>"
    have c: "c \<in> bvisited ?s" using bfs_invD(6) [OF less.prems] Cons by simp
    have inv: "bfs_inv a d {c} ?s"
      by (rule bfs_invI) (use bfs_invD [OF less.prems] Cons in auto)
    obtain found s' where v: "bfsVisit d c (succsOf c) ?s = (found, s')" by fastforce
    show ?thesis
    proof (cases found)
      case True
      with v have "bfsVisit d c (succsOf c) ?s = (True, s')" by simp
      from bfsVisit_found [OF inv c subset_refl this] this Cons show ?thesis by (subst bfsLoop.simps) simp
    next
      case False
      with v have v': "bfsVisit d c (succsOf c) ?s = (False, s')" by simp
      from bfsVisit_not_found [OF inv c subset_refl this]
      have s': "bfs_inv a d {c} s'" "bfs_size s' < bfs_size s" "set (succsOf c) \<subseteq> bvisited s'"
        using Cons by (auto simp: bfs_size_def)
      have "bfs_inv a d {} s'"
      proof (rule bfs_invI)
        show "set (succsOf v) \<subseteq> bvisited s'" if "v \<in> bvisited s'" "v \<notin> set (bq s')" for v
          using bfs_invD(5) [OF s'(1) that] s'(3) by (cases "v = c") simp_all
      qed (use bfs_invD(2,3,6,7) [OF s'(1)] in auto)
      from less.IH [OF s'(2) this] Cons v' show ?thesis by (subst bfsLoop.simps) simp
    qed
  qed
qed

lemma search_returns:
  assumes "a \<noteq> d"
  shows "\<exists>r. bfsLoop succsOf d \<lparr>bq = [a], bvisited = {a}, bpred = []\<rparr> = Some r
    \<and> (case r of None \<Rightarrow> \<not> (\<exists>p. is_path succsOf a d p)
       | Some m \<Rightarrow> \<exists>p. walkBack m a d [d] = Some (Some p) \<and> is_path succsOf a d p)"
proof -
  have "bfs_inv a d {} \<lparr>bq = [a], bvisited = {a}, bpred = []\<rparr>" using assms by (auto simp: bfs_inv_def)
  from bfsLoop_returns [OF this] obtain r where r: "bfsLoop succsOf d \<lparr>bq = [a], bvisited = {a}, bpred = []\<rparr> = Some r"
    and c: "case r of None \<Rightarrow> \<exists>V. a \<in> V \<and> d \<notin> V \<and> (\<forall>v \<in> V. set (succsOf v) \<subseteq> V)
       | Some m \<Rightarrow> pred_ok succsOf a m \<and> d \<in> fst ` set m" by blast
  show ?thesis
  proof (cases r)
    case None
    with c obtain V where V: "a \<in> V" "d \<notin> V" "\<forall>v \<in> V. set (succsOf v) \<subseteq> V" by auto
    have "\<not> is_path succsOf a d p" for p
      using is_path_closed [OF _ V(1,3)] V(2) by (metis in_mono is_path_def last_in_set)
    with r None show ?thesis by simp
  next
    case (Some m)
    with c walkBack_path [of succsOf a m d] obtain q where q: "is_path succsOf a d q"
      "walkBack m a d [d] = Some (Some (butlast q @ rev [d]))" by force
    then have "butlast q @ rev [d] = q" by (simp add: is_path_def) (metis append_butlast_last_id)
    with q r Some show ?thesis by simp
  qed
qed

end

lemma set_foldl_pushUnseen: "set (foldl pushUnseen seen xs) = set seen \<union> set xs"
  by (induction xs arbitrary: seen) (auto simp: pushUnseen_def)

interpretation rg: reduced_graph "getReducedSuccessors E L" "getLoopBlocks (lf_LI E) L" for E L
  by unfold_locales (auto simp: getReducedSuccessors_def set_foldl_pushUnseen loopContains_def split: option.splits)

lemma findReducedPath_returns:
  "\<exists>r. findReducedPath E L a d = Some r
     \<and> (\<forall>p. r = Some p \<longrightarrow> is_path (getReducedSuccessors E L) a d p \<and> a \<noteq> nullptr \<and> d \<noteq> nullptr)
     \<and> (r = None \<longrightarrow> a = nullptr \<or> d = nullptr \<or> \<not> (\<exists>p. is_path (getReducedSuccessors E L) a d p))"
proof (cases "a = nullptr \<or> d = nullptr \<or> a = d")
  case True
  then show ?thesis by (auto simp: findReducedPath_def is_path_def)
next
  case False
  with rg.search_returns [of a d E L] show ?thesis
    by (auto simp: findReducedPath_def split: option.splits)
qed

section \<open>Nodes of the block graph\<close>

text \<open>Every node \<open>getOrCreate\<close> has made is below the next address and knows its LLVM block.\<close>

definition graph_ok :: "SchematicGraph \<Rightarrow> bool" where
  "graph_ok g \<longleftrightarrow>
     0 < graphNext g \<and> (\<forall>b \<in> fst ` set (graphBlocks g). b < graphNext g)
     \<and> (\<forall>BB b. map_of (realBlocks g) BB = Some b \<longrightarrow> b \<noteq> nullptr \<and> b < graphNext g \<and> getLLVMBlock g b = BB)"

definition graph_ext :: "SchematicGraph \<Rightarrow> SchematicGraph \<Rightarrow> bool" where
  "graph_ext g g' \<longleftrightarrow>
     map_of (realBlocks g) \<subseteq>\<^sub>m map_of (realBlocks g')
     \<and> (\<forall>b. getLLVMBlock g b \<noteq> nullptr \<longrightarrow> getLLVMBlock g' b = getLLVMBlock g b)"

lemma graph_ext_refl [simp]: "graph_ext g g"
  by (simp add: graph_ext_def)

lemma graph_ext_trans: "graph_ext g g' \<Longrightarrow> graph_ext g' g'' \<Longrightarrow> graph_ext g g''"
  unfolding graph_ext_def by (metis map_le_trans)

lemma graph_ext_node: "graph_ext g g' \<Longrightarrow> map_of (realBlocks g) BB = Some b \<Longrightarrow> map_of (realBlocks g') BB = Some b"
  by (auto simp: graph_ext_def map_le_def dom_def)

lemma graph_ok_node: "graph_ok g \<Longrightarrow> map_of (realBlocks g) BB = Some b \<Longrightarrow> b \<noteq> nullptr \<and> getLLVMBlock g b = BB"
  by (simp add: graph_ok_def)

lemma getOrCreate_ok:
  assumes ok: "graph_ok g" and gc: "getOrCreate nm BB g = (b, g')"
  shows "graph_ok g'" "graph_ext g g'" "map_of (realBlocks g') BB = Some b"
proof -
  have "graph_ok g' \<and> graph_ext g g' \<and> map_of (realBlocks g') BB = Some b"
  proof (cases "map_of (realBlocks g) BB")
    case (Some b')
    with gc ok show ?thesis by (simp add: getOrCreate_def)
  next
    case None
    let ?blk = "\<lparr>blk_bb = BB, blk_name = nm BB, blk_preds = [], blk_succs = []\<rparr>"
    from None gc have b: "b = graphNext g"
      and g': "g' = g\<lparr>graphBlocks := omap_put b ?blk (graphBlocks g), realBlocks := omap_put BB b (realBlocks g), graphNext := Suc b\<rparr>"
      by (auto simp: getOrCreate_def Let_def)
    have fresh: "map_of (graphBlocks g) b = None"
      using ok by (auto simp: graph_ok_def b map_of_eq_None_iff)
    have at': "getLLVMBlock g' x = (if x = b then BB else getLLVMBlock g x)" for x
      by (simp add: getLLVMBlock_def blockAt_def omap_get_def g')
    have nx: "graphNext g' = Suc b" and rb: "map_of (realBlocks g') = (map_of (realBlocks g))(BB \<mapsto> b)" by (simp_all add: g')
    have null: "getLLVMBlock g b = nullptr"
      by (simp add: getLLVMBlock_def blockAt_def omap_get_def fresh nullBlock_def)
    have "graph_ok g'"
      unfolding graph_ok_def
    proof (intro conjI allI impI ballI)
      show "0 < graphNext g'" by (simp add: g')
      show "x < graphNext g'" if "x \<in> fst ` set (graphBlocks g')" for x
        using that ok unfolding g' graph_ok_def by (auto simp: fst_set_omap_put b less_Suc_eq)
      show "x \<noteq> nullptr" "x < graphNext g'" "getLLVMBlock g' x = X" if X: "map_of (realBlocks g') X = Some x" for X x
      proof -
        consider "X = BB" "x = b" | "X \<noteq> BB" "map_of (realBlocks g) X = Some x"
          using X by (auto simp: g' split: if_splits)
        then have "x \<noteq> nullptr \<and> x < graphNext g' \<and> getLLVMBlock g' x = X"
          by cases (use ok in \<open>force simp: at' b nx graph_ok_def\<close>)+
        then show "x \<noteq> nullptr" "x < graphNext g'" "getLLVMBlock g' x = X" by auto
      qed
    qed
    moreover have "graph_ext g g'"
      using None null rb unfolding graph_ext_def by (auto simp: at' map_le_def dom_def)
    ultimately show ?thesis by (simp add: g')
  qed
  then show "graph_ok g'" "graph_ext g g'" "map_of (realBlocks g') BB = Some b" by auto
qed

lemma graphNodes_ok:
  assumes "graph_ok g" "graphNodes nm BBs g = (bs, g')"
  shows "graph_ok g' \<and> graph_ext g g' \<and> list_all2 (\<lambda>BB b. map_of (realBlocks g') BB = Some b) BBs bs"
  using assms
proof (induction BBs arbitrary: bs g g')
  case (Cons BB BBs)
  obtain b g1 where gc: "getOrCreate nm BB g = (b, g1)" by fastforce
  obtain bs' g2 where rest: "graphNodes nm BBs g1 = (bs', g2)" by fastforce
  note one = getOrCreate_ok [OF Cons.prems(1) gc]
  from Cons.IH [OF one(1) rest] one Cons.prems(2) gc rest graph_ext_node [of g1 g2 BB b]
  show ?case by (auto intro: graph_ext_trans)
qed simp

lemma list_all2_node_ext:
  assumes "graph_ext g g'" "list_all2 (\<lambda>BB b. map_of (realBlocks g) BB = Some b) BBs bs"
  shows "list_all2 (\<lambda>BB b. map_of (realBlocks g') BB = Some b) BBs bs"
  by (rule list_all2_mono [OF assms(2)]) (rule graph_ext_node [OF assms(1)])

section \<open>Traces of a loop\<close>

definition trace_frame :: "loop_forest \<Rightarrow> SchematicGraph \<Rightarrow> loop_id \<Rightarrow> LoadedLoopTrace \<Rightarrow> bool" where
  "trace_frame E g L tr \<longleftrightarrow>
     lt_loop tr = Some L \<and> map_of (realBlocks g) (getHeader (lf_LI E) L) = Some (lt_header tr)
     \<and> (if getLoopLatch (lf_LI E) L = nullptr then lt_latch tr = nullptr
        else map_of (realBlocks g) (getLoopLatch (lf_LI E) L) = Some (lt_latch tr))
     \<and> list_all2 (\<lambda>BB b. map_of (realBlocks g) BB = Some b) (getLoopBlocks (lf_LI E) L) (lt_members tr)
     \<and> lt_depth tr = lf_depth E L"

definition paths_valid :: "loop_forest \<Rightarrow> SchematicGraph \<Rightarrow> loop_id \<Rightarrow> LoadedLoopTrace \<Rightarrow> bool" where
  "paths_valid E g L tr \<longleftrightarrow>
     list_all (\<lambda>p. isStructurallyValidLoopPath g p tr (set (getLoopBlocks (lf_LI E) L))) (iterationPaths tr)"

lemma trace_frame_ext: "graph_ext g g' \<Longrightarrow> trace_frame E g L tr \<Longrightarrow> trace_frame E g' L tr"
  unfolding trace_frame_def by (auto dest: graph_ext_node intro: list_all2_node_ext)

lemma valid_path_ext:
  assumes "graph_ext g g'" "isStructurallyValidLoopPath g p tr M"
  shows "isStructurallyValidLoopPath g' p tr M"
  using assms unfolding isStructurallyValidLoopPath_def pathContainsOnlyLoopMembers_def list_all_iff graph_ext_def Let_def
  by (metis (no_types, lifting))

lemma paths_valid_ext: "graph_ext g g' \<Longrightarrow> paths_valid E g L tr \<Longrightarrow> paths_valid E g' L tr"
  unfolding paths_valid_def by (auto simp: list_all_iff intro: valid_path_ext)

lemma makeCanonicalLoopTrace_ok:
  assumes ok: "graph_ok g" and mk: "makeCanonicalLoopTrace E L g = (tr, g')"
  shows "graph_ok g' \<and> graph_ext g g' \<and> trace_frame E g' L tr \<and> iterationPaths tr = []"
proof -
  let ?LI = "lf_LI E" and ?nm = "lf_bbName E"
  obtain hb g1 where h: "getOrCreate ?nm (getHeader ?LI L) g = (hb, g1)" by fastforce
  obtain la g2 where l: "(if getLoopLatch ?LI L \<noteq> nullptr then getOrCreate ?nm (getLoopLatch ?LI L) g1 else (nullptr, g1)) = (la, g2)"
    by fastforce
  obtain ms g3 where m: "graphNodes ?nm (getLoopBlocks ?LI L) g2 = (ms, g3)" by fastforce
  note h' = getOrCreate_ok [OF ok h]
  have l': "graph_ok g2 \<and> graph_ext g1 g2 \<and>
      (if getLoopLatch ?LI L = nullptr then la = nullptr else map_of (realBlocks g2) (getLoopLatch ?LI L) = Some la)"
  proof (cases "getLoopLatch ?LI L = nullptr")
    case True
    with l h'(1) show ?thesis by simp
  next
    case False
    with l have "getOrCreate ?nm (getLoopLatch ?LI L) g1 = (la, g2)" by simp
    from getOrCreate_ok [OF h'(1) this] False show ?thesis by simp
  qed
  have m': "graph_ok g3 \<and> graph_ext g2 g3
      \<and> list_all2 (\<lambda>BB b. map_of (realBlocks g3) BB = Some b) (getLoopBlocks ?LI L) ms"
    using graphNodes_ok [OF _ m] l' by simp
  have tr: "g' = g3" "tr = \<lparr>lt_loop = Some L, lt_header = hb, lt_members = ms, lt_latch = la, lt_depth = lf_depth E L, iterationPaths = []\<rparr>"
    using mk unfolding makeCanonicalLoopTrace_def Let_def h prod.case l m by simp_all
  have e: "graph_ext g1 g3" using l' m' by (blast intro: graph_ext_trans)
  have "map_of (realBlocks g3) (getHeader ?LI L) = Some hb" by (rule graph_ext_node [OF e h'(3)])
  moreover have "if getLoopLatch ?LI L = nullptr then la = nullptr else map_of (realBlocks g3) (getLoopLatch ?LI L) = Some la"
    using l' m' graph_ext_node [of g2 g3] by (auto split: if_splits)
  ultimately show ?thesis using m' h'(2) e by (auto simp: tr trace_frame_def intro: graph_ext_trans)
qed

lemma canonicalLoopTraces_ok:
  assumes "graph_ok g" "canonicalLoopTraces E Ls g = (trs, g')"
  shows "graph_ok g' \<and> graph_ext g g' \<and> list_all2 (\<lambda>L tr. trace_frame E g' L tr \<and> iterationPaths tr = []) Ls trs"
  using assms
proof (induction Ls arbitrary: trs g g')
  case (Cons L Ls)
  obtain tr g1 where mk: "makeCanonicalLoopTrace E L g = (tr, g1)" by fastforce
  obtain trs' g2 where rest: "canonicalLoopTraces E Ls g1 = (trs', g2)" by fastforce
  note one = makeCanonicalLoopTrace_ok [OF Cons.prems(1) mk]
  from Cons.IH [OF _ rest] one have "graph_ok g2 \<and> graph_ext g1 g2
      \<and> list_all2 (\<lambda>L tr. trace_frame E g2 L tr \<and> iterationPaths tr = []) Ls trs'" by simp
  with one Cons.prems(2) mk rest show ?case
    by (auto intro: graph_ext_trans trace_frame_ext)
qed simp

lemma trace_frame_paths [simp]: "trace_frame E g L (tr\<lparr>iterationPaths := ps\<rparr>) = trace_frame E g L tr"
  by (simp add: trace_frame_def)

lemma valid_path_paths [simp]:
  "isStructurallyValidLoopPath g p (tr\<lparr>iterationPaths := ps\<rparr>) M = isStructurallyValidLoopPath g p tr M"
  by (simp add: isStructurallyValidLoopPath_def)

lemma addValidPaths_ok:
  assumes "trace_frame E g L tr \<and> paths_valid E g L tr"
  shows "trace_frame E g L (foldl (addValidPath g (set (getLoopBlocks (lf_LI E) L))) tr ps)
     \<and> paths_valid E g L (foldl (addValidPath g (set (getLoopBlocks (lf_LI E) L))) tr ps)"
  using assms
proof (induction ps arbitrary: tr)
  case (Cons p ps)
  show ?case
    unfolding foldl_Cons by (rule Cons.IH) (use Cons.prems in \<open>simp add: addValidPath_def paths_valid_def\<close>)
qed simp

lemma mergeParsed_ok:
  assumes ok: "list_all2 (\<lambda>L tr. trace_frame E g L tr \<and> paths_valid E g L tr) (lf_preorder E) trs"
  shows "list_all2 (\<lambda>L tr. trace_frame E g L tr \<and> paths_valid E g L tr) (lf_preorder E) (mergeParsed E g trs parsed)"
proof (cases "lt_loop parsed")
  case (Some L)
  show ?thesis
  proof (cases "map_of (rev (zip (lf_preorder E) [0..<length (lf_preorder E)])) L")
    case None
    with ok Some show ?thesis by (simp add: mergeParsed_def)
  next
    case i: (Some i)
    then have i': "i < length (lf_preorder E)" "lf_preorder E ! i = L"
      by (auto dest!: map_of_SomeD simp: in_set_zip)
    then have "trace_frame E g L (trs ! i) \<and> paths_valid E g L (trs ! i)" using ok by (auto simp: list_all2_conv_all_nth)
    with addValidPaths_ok [of E g L "trs ! i" "iterationPaths parsed"] ok i' Some i show ?thesis
      by (auto simp: mergeParsed_def list_all2_conv_all_nth nth_list_update)
  qed
qed (use ok in \<open>simp add: mergeParsed_def\<close>)

section \<open>Completing the traces\<close>

lemma member_node:
  assumes "trace_frame E g L tr" "graph_ok g" "m \<in> set (lt_members tr)"
  shows "map_of (realBlocks g) (getLLVMBlock g m) = Some m" "m \<noteq> nullptr" "getLLVMBlock g m \<in> set (getLoopBlocks (lf_LI E) L)"
proof -
  from assms(3) obtain i where i: "i < length (lt_members tr)" "lt_members tr ! i = m" by (auto simp: in_set_conv_nth)
  have "list_all2 (\<lambda>BB b. map_of (realBlocks g) BB = Some b) (getLoopBlocks (lf_LI E) L) (lt_members tr)"
    using assms(1) by (simp add: trace_frame_def)
  then have len: "length (getLoopBlocks (lf_LI E) L) = length (lt_members tr)"
    and BB: "map_of (realBlocks g) (getLoopBlocks (lf_LI E) L ! i) = Some m"
    using list_all2_nthD2 [OF _ i(1)] i(2) by (auto dest: list_all2_lengthD)
  from i(1) len have "getLoopBlocks (lf_LI E) L ! i \<in> set (getLoopBlocks (lf_LI E) L)" by simp
  with BB graph_ok_node [OF assms(2) BB]
  show "map_of (realBlocks g) (getLLVMBlock g m) = Some m" "m \<noteq> nullptr" "getLLVMBlock g m \<in> set (getLoopBlocks (lf_LI E) L)"
    by auto
qed

lemma member_block_ext:
  assumes "trace_frame E g L tr" "graph_ok g" "m \<in> set (lt_members tr)" "graph_ext g g'" "graph_ok g'"
  shows "getLLVMBlock g' m = getLLVMBlock g m"
  using graph_ext_node [OF assms(4) member_node(1) [OF assms(1-3)]] graph_ok_node [OF assms(5)] by blast

text \<open>What LLVM promises of a loop: the header is one of its blocks and belongs to no inner loop.\<close>

definition header_ok :: "loop_forest \<Rightarrow> loop_id \<Rightarrow> bool" where
  "header_ok E L \<longleftrightarrow>
     nullptr \<notin> set (getLoopBlocks (lf_LI E) L) \<and> getHeader (lf_LI E) L \<in> set (getLoopBlocks (lf_LI E) L)
     \<and> getLoopFor (lf_LI E) (getHeader (lf_LI E) L) = Some L"

definition forest_ok :: "loop_forest \<Rightarrow> bool" where
  "forest_ok E \<longleftrightarrow> (\<forall>L \<in> set (lf_preorder E). header_ok E L)"

lemma reduced_path_members:
  assumes "is_path (getReducedSuccessors E L) a b p" "a \<in> set (getLoopBlocks (lf_LI E) L)"
  shows "set p \<subseteq> set (getLoopBlocks (lf_LI E) L)"
  using is_path_closed [OF assms] rg.succs_nodes by simp

text \<open>The blocks of a path of the reduced loop, as nodes, are a valid path of the loop.\<close>

lemma makeEnumeratedPath_ok:
  assumes lok: "header_ok E L" and ok: "graph_ok g" and fr: "trace_frame E g L tr" and la: "lt_latch tr \<noteq> nullptr"
    and p: "is_path (getReducedSuccessors E L) (getHeader (lf_LI E) L) (getLoopLatch (lf_LI E) L) p"
    and mk: "makeEnumeratedPath E p g = (path, g')"
  shows "graph_ok g'" "graph_ext g g'" "isStructurallyValidLoopPath g' path tr (set (getLoopBlocks (lf_LI E) L))"
    and "BB \<in> set p \<Longrightarrow> map_of (realBlocks g) BB = Some m \<Longrightarrow> m \<in> set (ep_blocks path)"
proof -
  from mk obtain bs where gn: "graphNodes (lf_bbName E) p g = (bs, g')" and path: "path = \<lparr>ep_blocks = bs, ep_count = 1\<rparr>"
    by (auto simp: makeEnumeratedPath_def split: prod.splits)
  note nodes = graphNodes_ok [OF ok gn]
  show ok': "graph_ok g'" and ext: "graph_ext g g'" using nodes by auto
  have l2: "list_all2 (\<lambda>BB b. map_of (realBlocks g') BB = Some b) p bs" using nodes by simp
  then have len: "length bs = length p" by (simp add: list_all2_lengthD)
  have nth: "map_of (realBlocks g') (p ! i) = Some (bs ! i)" if "i < length p" for i
    using l2 that by (rule list_all2_nthD)
  have fr': "trace_frame E g' L tr" by (rule trace_frame_ext [OF ext fr])
  have ne: "p \<noteq> []" "bs \<noteq> []" using p len by (auto simp: is_path_def)
  have h: "List.hd bs = lt_header tr"
    using nth [of 0] ne fr' p by (auto simp: is_path_def hd_conv_nth trace_frame_def)
  have l: "last bs = lt_latch tr"
    using nth [of "length p - 1"] ne fr' p la len by (auto simp: is_path_def last_conv_nth trace_frame_def split: if_splits)
  have sub: "set p \<subseteq> set (getLoopBlocks (lf_LI E) L)"
    using reduced_path_members [OF p] lok by (simp add: header_ok_def)
  have mem: "b \<noteq> nullptr \<and> getLLVMBlock g' b \<noteq> nullptr \<and> getLLVMBlock g' b \<in> set (getLoopBlocks (lf_LI E) L)"
    if "b \<in> set bs" for b
  proof -
    from that obtain i where i: "i < length p" "b = bs ! i" using len by (auto simp: in_set_conv_nth)
    have "p ! i \<in> set (getLoopBlocks (lf_LI E) L)" using sub nth_mem [OF i(1)] by blast
    moreover from this have "p ! i \<noteq> nullptr" using lok unfolding header_ok_def by metis
    ultimately show ?thesis using graph_ok_node [OF ok' nth [OF i(1)]] i(2) by simp
  qed
  have "lt_header tr \<noteq> nullptr" using mem [OF hd_in_set [OF ne(2)]] h by simp
  with mem show "isStructurallyValidLoopPath g' path tr (set (getLoopBlocks (lf_LI E) L))"
    unfolding isStructurallyValidLoopPath_def pathContainsOnlyLoopMembers_def path list_all_iff Let_def
    using h l la ne by simp
  show "m \<in> set (ep_blocks path)" if "BB \<in> set p" "map_of (realBlocks g) BB = Some m"
  proof -
    from that(1) obtain i where i: "i < length p" "p ! i = BB" by (auto simp: in_set_conv_nth)
    have "bs ! i = m" using nth [OF i(1)] graph_ext_node [OF ext that(2)] i(2) by simp
    with i(1) len show ?thesis by (auto simp: path)
  qed
qed

lemma pathsEqual_iff [simp]: "pathsEqual a b \<longleftrightarrow> ep_blocks a = ep_blocks b"
  unfolding pathsEqual_def list_all_iff list_eq_iff_nth_eq [of "ep_blocks a"] by auto

definition cover_inv ::
  "loop_forest \<Rightarrow> loop_id \<Rightarrow> LoadedLoopTrace \<Rightarrow> EnumeratedPath list \<times> SchematicGraph \<Rightarrow> bool" where
  "cover_inv E L tr s \<longleftrightarrow>
     graph_ok (snd s) \<and> trace_frame E (snd s) L tr \<and> paths_valid E (snd s) L (tr\<lparr>iterationPaths := fst s\<rparr>)"

definition on_loop_path :: "loop_forest \<Rightarrow> loop_id \<Rightarrow> bb_ptr \<Rightarrow> bool" where
  "on_loop_path E L BB \<longleftrightarrow>
     (\<exists>p. is_path (getReducedSuccessors E L) (getHeader (lf_LI E) L) (getLoopLatch (lf_LI E) L) p \<and> BB \<in> set p)"

lemma is_path_split:
  assumes "is_path succsOf a b p" "x \<in> set p"
  shows "(\<exists>q. is_path succsOf a x q) \<and> (\<exists>q. is_path succsOf x b q)"
proof -
  from assms(2) obtain l r where p: "p = l @ x # r" by (meson split_list)
  have "is_path succsOf a x (l @ [x])" "is_path succsOf x b (x # r)"
    using assms(1) unfolding p is_path_def by (auto simp: successively_append_iff hd_append split: if_splits)
  then show ?thesis by blast
qed

lemma cover_inv_add:
  assumes lok: "header_ok E L" and inv: "cover_inv E L tr (paths, g)" and la: "lt_latch tr \<noteq> nullptr"
    and p: "is_path (getReducedSuccessors E L) (getHeader (lf_LI E) L) (getLoopLatch (lf_LI E) L) p"
    and mk: "makeEnumeratedPath E p g = (path, g')"
  shows "cover_inv E L tr (paths @ [path], g')" "cover_inv E L tr (paths, g')" "graph_ext g g'"
proof -
  from inv have ok: "graph_ok g" and fr: "trace_frame E g L tr" and val: "paths_valid E g L (tr\<lparr>iterationPaths := paths\<rparr>)"
    by (auto simp: cover_inv_def)
  note new = makeEnumeratedPath_ok [OF lok ok fr la p mk]
  show "graph_ext g g'" by (rule new(2))
  show "cover_inv E L tr (paths @ [path], g')" "cover_inv E L tr (paths, g')"
    using new(1,3) trace_frame_ext [OF new(2) fr] paths_valid_ext [OF new(2) val]
    by (simp_all add: cover_inv_def paths_valid_def)
qed

lemma coverMember_ok:
  assumes lok: "header_ok E L" and inv: "cover_inv E L tr s" and la: "lt_latch tr \<noteq> nullptr"
    and m: "m \<in> set (lt_members tr)"
  shows "case coverMember E L m s of
      Inl e \<Rightarrow> \<exists>BB \<in> set (getLoopBlocks (lf_LI E) L). e = NoPathCovering BB
                \<and> getLoopFor (lf_LI E) BB = Some L \<and> \<not> on_loop_path E L BB
    | Inr s' \<Rightarrow> cover_inv E L tr s' \<and> graph_ext (snd s) (snd s') \<and> set (fst s) \<subseteq> set (fst s')
                \<and> (isDirectMember E (snd s) (Some L) m \<longrightarrow> coveredByPaths (fst s') m)"
proof -
  obtain paths g where s: "s = (paths, g)" by fastforce
  let ?BB = "getLLVMBlock g m" and ?h = "getHeader (lf_LI E) L" and ?l = "getLoopLatch (lf_LI E) L"
  from inv have ok: "graph_ok g" and fr: "trace_frame E g L tr" by (auto simp: cover_inv_def s)
  note node = member_node [OF fr ok m]
  have lnz: "?l \<noteq> nullptr" using fr la by (auto simp: trace_frame_def split: if_splits)
  have hnz: "?h \<noteq> nullptr" and bnz: "?BB \<noteq> nullptr" using lok node(3) unfolding header_ok_def by metis+
  show ?thesis
  proof (cases "\<not> isDirectMember E g (Some L) m \<or> coveredByPaths paths m")
    case True
    then have "coverMember E L m s = Inr s" by (simp add: coverMember_def s)
    with True inv s show ?thesis by auto
  next
    case False
    obtain r1 where r1: "findReducedPath E L ?h ?BB = Some r1"
      "\<forall>p. r1 = Some p \<longrightarrow> is_path (getReducedSuccessors E L) ?h ?BB p"
      "r1 = None \<longrightarrow> \<not> (\<exists>p. is_path (getReducedSuccessors E L) ?h ?BB p)"
      using findReducedPath_returns [of E L ?h ?BB] hnz bnz by blast
    obtain r2 where r2: "findReducedPath E L ?BB ?l = Some r2"
      "\<forall>p. r2 = Some p \<longrightarrow> is_path (getReducedSuccessors E L) ?BB ?l p"
      "r2 = None \<longrightarrow> \<not> (\<exists>p. is_path (getReducedSuccessors E L) ?BB ?l p)"
      using findReducedPath_returns [of E L ?BB ?l] lnz bnz by blast
    show ?thesis
    proof (cases "r1 = None \<or> r2 = None")
      case True
      then have "coverMember E L m s = Inl (NoPathCovering ?BB)"
        using False r1(1) r2(1) by (auto simp: coverMember_def s Let_def split: option.splits)
      moreover have "\<not> on_loop_path E L ?BB"
        using True r1(3) r2(3) is_path_split unfolding on_loop_path_def by metis
      moreover have "getLoopFor (lf_LI E) ?BB = Some L" using False by (simp add: isDirectMember_def)
      ultimately show ?thesis using node(3) by auto
    next
      case some: False
      then obtain p q where pq: "r1 = Some p" "r2 = Some q" by auto
      then have path: "is_path (getReducedSuccessors E L) ?h ?l (p @ tl q)"
        using r1(2) r2(2) is_path_join by metis
      obtain ep g1 where mk: "makeEnumeratedPath E (p @ tl q) g = (ep, g1)" by fastforce
      note add = cover_inv_add [OF lok inv [unfolded s] la path mk]
      have "?BB \<in> set (p @ tl q)" using r1(2) pq(1) unfolding is_path_def by (metis Un_iff last_in_set set_append)
      from makeEnumeratedPath_ok(4) [OF lok ok fr la path mk this node(1)] have mem: "m \<in> set (ep_blocks ep)" .
      have "coverMember E L m s = Inr (if pathAlreadyPresent paths ep then paths else paths @ [ep], g1)"
        using False r1(1) r2(1) pq mk by (simp add: coverMember_def s)
      moreover have "coveredByPaths (if pathAlreadyPresent paths ep then paths else paths @ [ep]) m"
        using mem by (simp add: coveredByPaths_def pathAlreadyPresent_def list_ex_iff) metis
      ultimately show ?thesis using add by (auto simp: s)
    qed
  qed
qed

lemma coveredByPaths_mono: "set ps \<subseteq> set qs \<Longrightarrow> coveredByPaths ps m \<Longrightarrow> coveredByPaths qs m"
  by (auto simp: coveredByPaths_def list_ex_iff)

lemma coverMembers_ok:
  assumes lok: "header_ok E L" and la: "lt_latch tr \<noteq> nullptr"
    and "cover_inv E L tr s" "set ms \<subseteq> set (lt_members tr)"
  shows "case coverMembers E L ms s of
      Inl e \<Rightarrow> \<exists>BB \<in> set (getLoopBlocks (lf_LI E) L). e = NoPathCovering BB
                \<and> getLoopFor (lf_LI E) BB = Some L \<and> \<not> on_loop_path E L BB
    | Inr s' \<Rightarrow> cover_inv E L tr s' \<and> graph_ext (snd s) (snd s') \<and> set (fst s) \<subseteq> set (fst s')
                \<and> (\<forall>m \<in> set ms. isDirectMember E (snd s') (Some L) m \<longrightarrow> coveredByPaths (fst s') m)"
  using assms(3,4)
proof (induction ms arbitrary: s)
  case (Cons m ms)
  have m: "m \<in> set (lt_members tr)" "set ms \<subseteq> set (lt_members tr)" using Cons.prems(2) by auto
  note one = coverMember_ok [OF lok Cons.prems(1) la m(1)]
  show ?case
  proof (cases "coverMember E L m s")
    case (Inl e)
    with one show ?thesis by simp
  next
    case (Inr s1)
    with one have s1: "cover_inv E L tr s1" "graph_ext (snd s) (snd s1)" "set (fst s) \<subseteq> set (fst s1)"
      "isDirectMember E (snd s) (Some L) m \<longrightarrow> coveredByPaths (fst s1) m" by auto
    note rest = Cons.IH [OF s1(1) m(2)]
    show ?thesis
    proof (cases "coverMembers E L ms s1")
      case (Inl e)
      with rest Inr show ?thesis by simp
    next
      case r: (Inr s2)
      with rest have s2: "cover_inv E L tr s2" "graph_ext (snd s1) (snd s2)" "set (fst s1) \<subseteq> set (fst s2)"
        "\<forall>m \<in> set ms. isDirectMember E (snd s2) (Some L) m \<longrightarrow> coveredByPaths (fst s2) m" by auto
      have ext: "graph_ext (snd s) (snd s2)" using s1(2) s2(2) by (rule graph_ext_trans)
      have "getLLVMBlock (snd s2) m = getLLVMBlock (snd s) m"
        using member_block_ext [OF _ _ m(1) ext, of E L] Cons.prems(1) s2(1) by (simp add: cover_inv_def)
      then have "isDirectMember E (snd s2) (Some L) m \<longrightarrow> coveredByPaths (fst s2) m"
        using s1(4) coveredByPaths_mono [OF s2(3)] by (simp add: isDirectMember_def)
      with s2 s1 ext r Inr show ?thesis by auto
    qed
  qed
qed simp

text \<open>A completed trace: its paths lead from the header to the latch inside the loop, there is one at
  least, and every direct member of the loop is on one of them.\<close>

definition loop_complete :: "loop_forest \<Rightarrow> SchematicGraph \<Rightarrow> loop_id \<Rightarrow> LoadedLoopTrace \<Rightarrow> bool" where
  "loop_complete E g L tr \<longleftrightarrow>
     trace_frame E g L tr \<and> paths_valid E g L tr \<and> lt_latch tr \<noteq> nullptr \<and> iterationPaths tr \<noteq> []
     \<and> coversAllDirectMembers E g tr"

definition loop_obstacle :: "loop_forest \<Rightarrow> loop_id \<Rightarrow> trace_error \<Rightarrow> bool" where
  "loop_obstacle E L e \<longleftrightarrow>
     e = MissingHeaderLatch \<and> getLoopLatch (lf_LI E) L = nullptr
     \<or> (\<exists>BB \<in> set (getLoopBlocks (lf_LI E) L). e = NoPathCovering BB
          \<and> getLoopFor (lf_LI E) BB = Some L \<and> \<not> on_loop_path E L BB)"

lemma header_is_member:
  assumes "header_ok E L" "graph_ok g" "trace_frame E g L tr"
  shows "lt_header tr \<in> set (lt_members tr)" "isDirectMember E g (Some L) (lt_header tr)" "lt_header tr \<noteq> nullptr"
proof -
  let ?h = "getHeader (lf_LI E) L" and ?bs = "getLoopBlocks (lf_LI E) L"
  have h: "map_of (realBlocks g) ?h = Some (lt_header tr)" using assms(3) by (simp add: trace_frame_def)
  from assms(1) have "?h \<in> set ?bs" by (simp add: header_ok_def)
  then obtain i where i: "i < length ?bs" "?bs ! i = ?h" by (auto simp: in_set_conv_nth)
  have l2: "list_all2 (\<lambda>BB b. map_of (realBlocks g) BB = Some b) ?bs (lt_members tr)"
    using assms(3) by (simp add: trace_frame_def)
  from list_all2_nthD [OF l2 i(1)] h i(2) have "lt_members tr ! i = lt_header tr" by simp
  with i(1) list_all2_lengthD [OF l2] nth_mem show "lt_header tr \<in> set (lt_members tr)" by metis
  show "isDirectMember E g (Some L) (lt_header tr)" "lt_header tr \<noteq> nullptr"
    using graph_ok_node [OF assms(2) h] assms(1) unfolding isDirectMember_def header_ok_def by metis+
qed

lemma coveredByPaths_Nil [simp]: "\<not> coveredByPaths [] m"
  by (simp add: coveredByPaths_def)

lemma coveredByPaths_sort [simp]: "coveredByPaths (sort_key f ps) m = coveredByPaths ps m"
  by (simp add: coveredByPaths_def list_ex_iff)

lemma synthesizeLoopPaths_ok:
  assumes lok: "header_ok E L" and ok: "graph_ok g" and fr: "trace_frame E g L tr" and val: "paths_valid E g L tr"
  shows "case synthesizeLoopPaths E tr g of
      Inl e \<Rightarrow> loop_obstacle E L e
    | Inr (tr', g') \<Rightarrow> loop_complete E g' L tr' \<and> lt_depth tr' = lt_depth tr \<and> graph_ok g' \<and> graph_ext g g'"
proof (cases "lt_latch tr = nullptr")
  case True
  then have "getLoopLatch (lf_LI E) L = nullptr"
    using fr graph_ok_node [OF ok] by (auto simp: trace_frame_def split: if_splits)
  with True fr show ?thesis by (simp add: synthesizeLoopPaths_def trace_frame_def loop_obstacle_def)
next
  case False
  note head = header_is_member [OF lok ok fr]
  have inv: "cover_inv E L tr (iterationPaths tr, g)" using ok fr val by (simp add: cover_inv_def)
  note cover = coverMembers_ok [OF lok False inv subset_refl]
  have L: "lt_loop tr = Some L" using fr by (simp add: trace_frame_def)
  show ?thesis
  proof (cases "coverMembers E L (lt_members tr) (iterationPaths tr, g)")
    case (Inl e)
    with cover have "loop_obstacle E L e" by (auto simp: loop_obstacle_def)
    with Inl False head L show ?thesis by (simp add: synthesizeLoopPaths_def)
  next
    case (Inr s)
    with cover have s: "cover_inv E L tr s" "graph_ext g (snd s)"
      and cov: "\<forall>m \<in> set (lt_members tr). isDirectMember E (snd s) (Some L) m \<longrightarrow> coveredByPaths (fst s) m" by auto
    from s(1) have s': "graph_ok (snd s)" "trace_frame E (snd s) L tr" "paths_valid E (snd s) L (tr\<lparr>iterationPaths := fst s\<rparr>)"
      by (auto simp: cover_inv_def)
    note head' = header_is_member [OF lok s'(1,2)]
    have "coveredByPaths (fst s) (lt_header tr)" using cov head' by blast
    then have ne: "fst s \<noteq> []" by auto
    have "coversAllDirectMembers E (snd s) (tr\<lparr>iterationPaths := fst s\<rparr>)"
      using cov L by (simp add: coversAllDirectMembers_def list_all_iff)
    then have res: "synthesizeLoopPaths E tr g =
        Inr (tr\<lparr>iterationPaths := sort_key (\<lambda>p. - uint (ep_count p)) (fst s)\<rparr>, snd s)"
      using Inr ne False head L by (simp add: synthesizeLoopPaths_def canonicalPath_def case_prod_beta)
    have "sort_key (\<lambda>p. - uint (ep_count p)) (fst s) \<noteq> []" using ne by (metis set_empty set_sort)
    moreover have "paths_valid E (snd s) L (tr\<lparr>iterationPaths := sort_key (\<lambda>p. - uint (ep_count p)) (fst s)\<rparr>)"
      using s'(3) by (simp add: paths_valid_def list_all_iff)
    moreover have "coversAllDirectMembers E (snd s) (tr\<lparr>iterationPaths := sort_key (\<lambda>p. - uint (ep_count p)) (fst s)\<rparr>)"
      using cov L by (simp add: coversAllDirectMembers_def list_all_iff)
    ultimately show ?thesis using res s' s(2) False by (simp add: loop_complete_def)
  qed
qed

lemma coversAll_ext:
  assumes "trace_frame E g L tr" "graph_ok g" "graph_ext g g'" "graph_ok g'" "coversAllDirectMembers E g tr"
  shows "coversAllDirectMembers E g' tr"
  using assms(5) member_block_ext [OF assms(1,2) _ assms(3,4)]
  by (simp add: coversAllDirectMembers_def list_all_iff isDirectMember_def)

lemma loop_complete_ext:
  assumes "graph_ok g" "graph_ext g g'" "graph_ok g'" "loop_complete E g L tr"
  shows "loop_complete E g' L tr"
  using assms(4) trace_frame_ext [OF assms(2)] paths_valid_ext [OF assms(2)] coversAll_ext [OF _ assms(1-3)]
  unfolding loop_complete_def by blast

lemma synthesizeAll_ok:
  assumes "\<forall>tr \<in> set trs. \<exists>L \<in> S. lt_loop tr = Some L \<and> header_ok E L \<and> trace_frame E g L tr \<and> paths_valid E g L tr"
    and "graph_ok g"
  shows "case synthesizeAll E trs g of
      Inl e \<Rightarrow> \<exists>L \<in> S. loop_obstacle E L e
    | Inr (trs', g') \<Rightarrow> graph_ok g' \<and> graph_ext g g'
        \<and> list_all2 (\<lambda>tr tr'. \<exists>L. lt_loop tr = Some L \<and> loop_complete E g' L tr' \<and> lt_depth tr' = lt_depth tr) trs trs'"
  using assms
proof (induction trs arbitrary: g)
  case (Cons tr trs)
  then obtain L where L: "L \<in> S" "lt_loop tr = Some L" "header_ok E L" "trace_frame E g L tr" "paths_valid E g L tr" by auto
  note one = synthesizeLoopPaths_ok [OF L(3) Cons.prems(2) L(4,5)]
  show ?case
  proof (cases "synthesizeLoopPaths E tr g")
    case (Inl e)
    with one L(1) show ?thesis by auto
  next
    case (Inr r)
    obtain tr1 g1 where r: "r = (tr1, g1)" by fastforce
    with Inr one have g1: "loop_complete E g1 L tr1" "lt_depth tr1 = lt_depth tr" "graph_ok g1" "graph_ext g g1" by auto
    have "\<forall>t \<in> set trs. \<exists>L \<in> S. lt_loop t = Some L \<and> header_ok E L \<and> trace_frame E g1 L t \<and> paths_valid E g1 L t"
      using Cons.prems(1) trace_frame_ext [OF g1(4)] paths_valid_ext [OF g1(4)] by (metis list.set_intros(2))
    note rest = Cons.IH [OF this g1(3)]
    show ?thesis
    proof (cases "synthesizeAll E trs g1")
      case (Inl e)
      with rest Inr r show ?thesis by simp
    next
      case rr: (Inr r2)
      obtain trs2 g2 where r2: "r2 = (trs2, g2)" by fastforce
      with rr rest have g2: "graph_ok g2" "graph_ext g1 g2"
        and l2: "list_all2 (\<lambda>tr tr'. \<exists>L. lt_loop tr = Some L \<and> loop_complete E g2 L tr' \<and> lt_depth tr' = lt_depth tr) trs trs2"
        by auto
      have "loop_complete E g2 L tr1" by (rule loop_complete_ext [OF g1(3) g2(2,1) g1(1)])
      with Inr r rr r2 g2 l2 L(2) g1(2) graph_ext_trans [OF g1(4) g2(2)] show ?thesis by auto
    qed
  qed
qed simp

section \<open>The loaded traces\<close>

lemma augmentLoopTraces_ok:
  assumes fo: "forest_ok E" and ok: "graph_ok g"
  shows "case augmentLoopTraces E parsed g of
      Inl e \<Rightarrow> \<exists>L \<in> set (lf_preorder E). loop_obstacle E L e
    | Inr (trs, g') \<Rightarrow> mset (map lt_loop trs) = mset (map Some (lf_preorder E))
        \<and> sorted_wrt (\<lambda>a b. lt_depth b \<le> lt_depth a) trs
        \<and> (\<forall>tr \<in> set trs. \<exists>L \<in> set (lf_preorder E). loop_complete E g' L tr) \<and> graph_ok g'"
proof -
  let ?ok = "\<lambda>g L tr. trace_frame E g L tr \<and> paths_valid E g L tr"
  obtain can g1 where can: "canonicalLoopTraces E (lf_preorder E) g = (can, g1)" by fastforce
  define aug where "aug = foldl (mergeParsed E g1) can parsed"
  define srt where "srt = sort_key (\<lambda>tr. - uint (lt_depth tr)) aug"
  note c = canonicalLoopTraces_ok [OF ok can]
  have "list_all2 (?ok g1) (lf_preorder E) can"
    by (rule list_all2_mono [OF c [THEN conjunct2, THEN conjunct2]]) (simp add: paths_valid_def)
  then have aug: "list_all2 (?ok g1) (lf_preorder E) aug"
    unfolding aug_def by (rule foldl_invariant) (rule mergeParsed_ok)
  have loops: "map lt_loop aug = map Some (lf_preorder E)"
    using list_all2_nthD [OF aug] list_all2_lengthD [OF aug]
    by (intro nth_equalityI) (auto simp: trace_frame_def)
  have each: "\<forall>tr \<in> set srt. \<exists>L \<in> set (lf_preorder E). lt_loop tr = Some L \<and> header_ok E L \<and> ?ok g1 L tr"
  proof
    fix tr assume "tr \<in> set srt"
    then obtain i where i: "i < length aug" "tr = aug ! i" by (auto simp: srt_def in_set_conv_nth)
    with list_all2_nthD2 [OF aug] list_all2_lengthD [OF aug] nth_mem [of i "lf_preorder E"] fo
    show "\<exists>L \<in> set (lf_preorder E). lt_loop tr = Some L \<and> header_ok E L \<and> ?ok g1 L tr"
      unfolding forest_ok_def trace_frame_def by (intro bexI [of _ "lf_preorder E ! i"]) auto
  qed
  have g1: "graph_ok g1" using c by simp
  note all = synthesizeAll_ok [OF each g1]
  have res: "augmentLoopTraces E parsed g = synthesizeAll E srt g1"
    by (simp add: augmentLoopTraces_def can srt_def aug_def)
  show ?thesis
  proof (cases "synthesizeAll E srt g1")
    case (Inl e)
    with all res show ?thesis by simp
  next
    case (Inr r)
    obtain trs g2 where r: "r = (trs, g2)" by fastforce
    with all Inr have g2: "graph_ok g2" and
      l2: "list_all2 (\<lambda>tr tr'. \<exists>L. lt_loop tr = Some L \<and> loop_complete E g2 L tr' \<and> lt_depth tr' = lt_depth tr) srt trs" by auto
    note nth = list_all2_nthD2 [OF l2] and len = list_all2_lengthD [OF l2]
    have "list_all2 (\<lambda>tr tr'. lt_loop tr' = lt_loop tr \<and> lt_depth tr' = lt_depth tr) srt trs"
      by (rule list_all2_mono [OF l2]) (auto simp: loop_complete_def trace_frame_def)
    then have lm: "map lt_loop trs = map lt_loop srt" and dm: "map lt_depth trs = map lt_depth srt"
      by (induction rule: list_all2_induct) simp_all
    have m: "mset (map lt_loop trs) = mset (map Some (lf_preorder E))"
      unfolding lm by (metis loops mset_map mset_sort srt_def)
    have "sorted (map (\<lambda>tr. - uint (lt_depth tr)) srt)" by (simp add: srt_def)
    then have "sorted_wrt (\<lambda>a b. b \<le> a) (map lt_depth srt)" by (simp add: sorted_wrt_map word_le_def)
    then have s: "sorted_wrt (\<lambda>a b. lt_depth b \<le> lt_depth a) trs" unfolding dm [symmetric] by (simp add: sorted_wrt_map)
    have "\<exists>L \<in> set (lf_preorder E). loop_complete E g2 L tr" if "tr \<in> set trs" for tr
    proof -
      from that obtain i where i: "i < length trs" "tr = trs ! i" by (auto simp: in_set_conv_nth)
      have "srt ! i \<in> set srt" using i(1) len by simp
      with each nth [OF i(1)] i(2) show ?thesis by fastforce
    qed
    with res Inr r m s g2 show ?thesis by simp
  qed
qed

lemma parseLoopTraces_graph:
  assumes "graph_ok g" shows "graph_ok (snd (parseLoopTraces E names entries g))"
  using assms
proof (induction entries arbitrary: g)
  case (Cons e es)
  obtain tr g1 where p: "parseLoopTrace E names e g = (tr, g1)" by fastforce
  have "graph_ok g1"
    using p Cons.prems getOrCreate_ok(1) [OF Cons.prems]
    by (auto simp: parseLoopTrace_def Let_def split: prod.splits option.splits if_splits)
  from Cons.IH [OF this] p show ?case by (simp add: case_prod_beta)
qed simp

lemma sorted_parseTraces: "sorted_wrt (\<lambda>p q. ep_count q \<le> ep_count p) (parseTraces names v)"
proof -
  have "sorted_wrt (\<lambda>p q. ep_count q \<le> ep_count p) (sort_key (\<lambda>p. - uint (ep_count p)) ps)" for ps :: "EnumeratedPath list"
    using sorted_sort_key [of "\<lambda>p. - uint (ep_count p)" ps] by (simp add: sorted_wrt_map word_le_def)
  then show ?thesis by (simp add: parseTraces_def split: option.splits json.splits)
qed

lemma loadTraces_cases:
  assumes fo: "forest_ok E" and ok: "graph_ok g"
  shows "case loadTraces E names funcName doc g of
      Inl e \<Rightarrow> e = TraceUnreadable \<and> doc = None
        \<or> e = FunctionNotTraced \<and> (\<exists>t. doc = Some t \<and> jsonAt t funcName = None)
        \<or> (\<exists>L \<in> set (lf_preorder E). loop_obstacle E L e)
    | Inr (lt, g') \<Rightarrow> mset (map lt_loop (loopTraces lt)) = mset (map Some (lf_preorder E))
        \<and> sorted_wrt (\<lambda>a b. lt_depth b \<le> lt_depth a) (loopTraces lt)
        \<and> (\<forall>tr \<in> set (loopTraces lt). \<exists>L \<in> set (lf_preorder E). loop_complete E g' L tr)
        \<and> sorted_wrt (\<lambda>p q. ep_count q \<le> ep_count p) (functionPaths lt) \<and> graph_ok g'"
proof (cases "\<exists>t f. doc = Some t \<and> jsonAt t funcName = Some f")
  case False
  then show ?thesis by (auto simp: loadTraces_def split: option.splits)
next
  case True
  then obtain t f where t: "doc = Some t" "jsonAt t funcName = Some f" by blast
  obtain parsed g1 where p: "(case jsonAt f ''loop_traces'' of
      Some (JObject entries) \<Rightarrow> parseLoopTraces E names entries g | _ \<Rightarrow> ([], g)) = (parsed, g1)" by fastforce
  have g1: "graph_ok g1"
    using p ok parseLoopTraces_graph [OF ok] by (auto split: option.splits json.splits) (metis snd_conv)
  have "loadTraces E names funcName doc g = bindE (augmentLoopTraces E parsed g1)
      (\<lambda>(trs, g2). Inr (\<lparr>functionPaths = parseTraces names (jsonAt f ''traces''), loopTraces = trs\<rparr>, g2))"
    by (simp add: loadTraces_def t p Let_def)
  with augmentLoopTraces_ok [OF fo g1, of parsed] sorted_parseTraces show ?thesis
    by (cases "augmentLoopTraces E parsed g1") (auto split: prod.splits)
qed

text \<open>(C11) What a load returns is complete: there is exactly one trace for every loop of the function,
  inner loops first; the paths of each trace lead from the header to the latch of its loop through blocks
  of the loop only; there is at least one, and every block that lies directly in the loop is on one of
  them; the paths of the function come by decreasing count. The hypotheses say that the block graph was
  built by its own operations and that the header of a loop lies directly in it.\<close>

theorem loadTraces_complete:
  assumes "forest_ok E" and "graph_ok g" and "loadTraces E names funcName doc g = Inr (lt, g')"
  shows "mset (map lt_loop (loopTraces lt)) = mset (map Some (lf_preorder E))
    \<and> sorted_wrt (\<lambda>a b. lt_depth b \<le> lt_depth a) (loopTraces lt)
    \<and> (\<forall>tr \<in> set (loopTraces lt). \<exists>L \<in> set (lf_preorder E). loop_complete E g' L tr)
    \<and> sorted_wrt (\<lambda>p q. ep_count q \<le> ep_count p) (functionPaths lt)"
  using loadTraces_cases [OF assms(1,2), of doc funcName names] assms(3) by simp

text \<open>A load fails only for a reason: the document cannot be read, it has no entry for the function,
  some loop has no latch, or some block that lies directly in a loop is on no path from the header to the
  latch of the loop. The search always ends, and the last test of the completion never fails.\<close>

lemma loadTraces_failure_cause:
  assumes "forest_ok E" and "graph_ok g" and "loadTraces E names funcName doc g = Inl e"
  shows "e = TraceUnreadable \<and> doc = None
    \<or> e = FunctionNotTraced \<and> (\<exists>t. doc = Some t \<and> jsonAt t funcName = None)
    \<or> (\<exists>L \<in> set (lf_preorder E).
         e = MissingHeaderLatch \<and> getLoopLatch (lf_LI E) L = nullptr
         \<or> (\<exists>BB \<in> set (getLoopBlocks (lf_LI E) L). e = NoPathCovering BB
              \<and> getLoopFor (lf_LI E) BB = Some L \<and> \<not> on_loop_path E L BB))"
  using loadTraces_cases [OF assms(1,2), of doc funcName names] assms(3) by (simp add: loop_obstacle_def)

section \<open>Natural loops are always completed\<close>

text \<open>The facts about a natural loop in LLVM's simplified form: along the edges inside the loop, the back edge
  apart, every block that lies directly in the loop is reached from the header and reaches the latch, the
  latch too lies directly in it; an edge that enters a child loop goes to the header of the child, and one
  that leaves it goes to one of its exit blocks.\<close>

definition bodySuccs :: "loop_forest \<Rightarrow> loop_id \<Rightarrow> bb_ptr \<Rightarrow> bb_ptr list" where
  "bodySuccs E L b =
     filter (\<lambda>s. s \<in> set (getLoopBlocks (lf_LI E) L)
                  \<and> \<not> (b = getLoopLatch (lf_LI E) L \<and> s = getHeader (lf_LI E) L)) (lf_succs E b)"

definition natural_loop :: "loop_forest \<Rightarrow> loop_id \<Rightarrow> bool" where
  "natural_loop E L \<longleftrightarrow>
     header_ok E L \<and> getLoopLatch (lf_LI E) L \<in> set (getLoopBlocks (lf_LI E) L)
     \<and> getLoopFor (lf_LI E) (getLoopLatch (lf_LI E) L) = Some L
     \<and> (\<forall>b \<in> set (getLoopBlocks (lf_LI E) L). getLoopFor (lf_LI E) b = Some L \<longrightarrow>
           (\<exists>p. is_path (bodySuccs E L) (getHeader (lf_LI E) L) b p) \<and> (\<exists>p. is_path (bodySuccs E L) b (getLoopLatch (lf_LI E) L) p))
     \<and> (\<forall>b \<in> set (getLoopBlocks (lf_LI E) L). \<forall>s \<in> set (bodySuccs E L b). \<forall>C.
           (getImmediateChildLoop E L s = Some C \<and> getImmediateChildLoop E L b \<noteq> Some C \<longrightarrow> s = getHeader (lf_LI E) C)
           \<and> (getImmediateChildLoop E L b = Some C \<and> getImmediateChildLoop E L s \<noteq> Some C \<longrightarrow> s \<in> set (lf_exitBlocks E C)))"

lemma getImmediateChildLoop_direct: "getLoopFor (lf_LI E) b = Some L \<Longrightarrow> getImmediateChildLoop E L b = None"
  by (simp add: getImmediateChildLoop_def)

lemma reduced_succ_direct:
  assumes "getImmediateChildLoop E L b = None" "b \<noteq> nullptr" "s \<in> set (bodySuccs E L b)"
  shows "s \<in> set (getReducedSuccessors E L b)"
  using assms by (auto simp: getReducedSuccessors_def bodySuccs_def loopContains_def)

lemma reduced_succ_child:
  assumes "getImmediateChildLoop E L b = Some C" "b = getHeader (lf_LI E) C" "b \<noteq> nullptr"
    and "s \<in> set (lf_exitBlocks E C)" "s \<in> set (getLoopBlocks (lf_LI E) L)" "s \<noteq> nullptr"
  shows "s \<in> set (getReducedSuccessors E L b)"
  using assms by (simp add: getReducedSuccessors_def set_foldl_pushUnseen loopContains_def)

lemma is_path_Cons: "is_path f c b q \<Longrightarrow> c \<in> set (f a) \<Longrightarrow> is_path f a b (a # q)"
  by (cases q) (auto simp: is_path_def)

lemma body_path_reduces:
  assumes nat: "natural_loop E L" and nn: "nullptr \<notin> set (getLoopBlocks (lf_LI E) L)"
    and "is_path (bodySuccs E L) a b p" "a \<in> set (getLoopBlocks (lf_LI E) L)" "getImmediateChildLoop E L b = None"
  shows "case getImmediateChildLoop E L a of
      None \<Rightarrow> \<exists>q. is_path (getReducedSuccessors E L) a b q
    | Some C \<Rightarrow> \<exists>c q. c \<in> set (lf_exitBlocks E C) \<and> c \<in> set (getLoopBlocks (lf_LI E) L)
        \<and> is_path (getReducedSuccessors E L) c b q"
  using assms(3-5)
proof (induction p arbitrary: a)
  case (Cons x p)
  let ?B = "set (getLoopBlocks (lf_LI E) L)" and ?kid = "getImmediateChildLoop E L"
    and ?red = "getReducedSuccessors E L"
  have xa: "x = a" using Cons.prems(1) by (simp add: is_path_def)
  show ?case
  proof (cases p)
    case Nil
    with Cons.prems(1) xa have "a = b" by (simp add: is_path_def)
    with Cons.prems(3) show ?thesis by (auto simp: is_path_def intro!: exI [of _ "[b]"])
  next
    case (Cons c p')
    with Cons.prems(1) xa have edge: "c \<in> set (bodySuccs E L a)" and pc: "is_path (bodySuccs E L) c b p"
      by (auto simp: is_path_def)
    from edge have cB: "c \<in> ?B" by (simp add: bodySuccs_def)
    have nz: "a \<noteq> nullptr" "c \<noteq> nullptr" using nn cB Cons.prems(2) by metis+
    note IH = Cons.IH [OF pc cB Cons.prems(3)]
    have enter: "c = getHeader (lf_LI E) D" if "?kid c = Some D" "?kid a \<noteq> Some D" for D
      using nat Cons.prems(2) edge that unfolding natural_loop_def by blast
    have leave: "c \<in> set (lf_exitBlocks E C)" if "?kid a = Some C" "?kid c \<noteq> Some C" for C
      using nat Cons.prems(2) edge that unfolding natural_loop_def by blast
    have from_c: "\<exists>q. is_path ?red c b q" if "?kid c \<noteq> ?kid a \<or> ?kid c = None"
    proof (cases "?kid c")
      case None
      with IH show ?thesis by simp
    next
      case (Some D)
      with IH obtain e q where e: "e \<in> set (lf_exitBlocks E D)" "e \<in> ?B" "is_path ?red e b q" by auto
      have "e \<noteq> nullptr" using nn e(2) by metis
      with reduced_succ_child [OF Some enter [OF Some] nz(2) e(1,2)] that Some have "e \<in> set (?red c)" by auto
      from is_path_Cons [OF e(3) this] show ?thesis by blast
    qed
    show ?thesis
    proof (cases "?kid a")
      case None
      then obtain q where "is_path ?red c b q" using from_c by (cases "?kid c") auto
      from is_path_Cons [OF this reduced_succ_direct [OF None nz(1) edge]] None show ?thesis by auto
    next
      case (Some C)
      show ?thesis
      proof (cases "?kid c = Some C")
        case True
        with IH Some show ?thesis by simp
      next
        case False
        with from_c leave [OF Some False] cB Some show ?thesis by auto
      qed
    qed
  qed
qed (simp add: is_path_def)

lemma natural_loop_on_path:
  assumes nat: "natural_loop E L" and b: "b \<in> set (getLoopBlocks (lf_LI E) L)" "getLoopFor (lf_LI E) b = Some L"
  shows "on_loop_path E L b"
proof -
  let ?h = "getHeader (lf_LI E) L" and ?l = "getLoopLatch (lf_LI E) L"
  from nat have nn: "nullptr \<notin> set (getLoopBlocks (lf_LI E) L)" and h: "?h \<in> set (getLoopBlocks (lf_LI E) L)"
    and kids: "getImmediateChildLoop E L ?h = None" "getImmediateChildLoop E L ?l = None"
    by (auto simp: natural_loop_def header_ok_def getImmediateChildLoop_direct)
  from nat b obtain p q where p: "is_path (bodySuccs E L) ?h b p" and q: "is_path (bodySuccs E L) b ?l q"
    unfolding natural_loop_def by blast
  note kb = getImmediateChildLoop_direct [OF b(2)]
  from body_path_reduces [OF nat nn p h kb] body_path_reduces [OF nat nn q b(1) kids(2)] kids kb
  obtain p' q' where p': "is_path (getReducedSuccessors E L) ?h b p'" and q': "is_path (getReducedSuccessors E L) b ?l q'"
    by auto
  have "b \<in> set (p' @ tl q')" using p' unfolding is_path_def by (metis Un_iff last_in_set set_append)
  with is_path_join [OF p' q'] show ?thesis unfolding on_loop_path_def by blast
qed

text \<open>(C12) The loader makes progress: whenever the document has an entry for the function and the loops of the
  function are natural loops in LLVM's simplified form, the load succeeds, whatever the traces in the
  document are. Ill-typed entries, unknown blocks and paths that are no iteration of their loop are skipped
  and what they leave uncovered is completed.\<close>

theorem loadTraces_succeeds:
  assumes "graph_ok g" and "\<forall>L \<in> set (lf_preorder E). natural_loop E L"
    and "doc = Some t" and "jsonAt t funcName = Some f"
  shows "\<exists>lt g'. loadTraces E names funcName doc g = Inr (lt, g')"
proof (cases "loadTraces E names funcName doc g")
  case (Inl e)
  have fo: "forest_ok E" using assms(2) by (simp add: forest_ok_def natural_loop_def)
  from loadTraces_cases [OF fo assms(1), of doc funcName names] Inl assms(3,4)
  obtain L where L: "L \<in> set (lf_preorder E)" "loop_obstacle E L e" by auto
  with assms(2) have nat: "natural_loop E L" by blast
  then have "getLoopLatch (lf_LI E) L \<noteq> nullptr" unfolding natural_loop_def header_ok_def by metis
  with L(2) natural_loop_on_path [OF nat] have False unfolding loop_obstacle_def by blast
  then show ?thesis ..
qed auto

section \<open>A sample function\<close>

text \<open>A loop of the blocks 1, 2 and 3 in which 1 branches to 2 and 3; only the short way was observed.\<close>

definition sample_forest :: "bb_ptr list \<Rightarrow> loop_forest" where
  "sample_forest latchSuccs =
     \<lparr>lf_LI = \<lparr>getLoopFor = (\<lambda>b. if b \<in> {1, 2, 3} then Some 0 else None), getHeader = (\<lambda>_. 1), getLoopLatch = (\<lambda>_. 3),
               getLoopBlocks = (\<lambda>_. [1, 2, 3])\<rparr>,
      lf_bbName = (\<lambda>b. if b = 1 then ''h'' else if b = 2 then ''b'' else ''l''),
      lf_succs = (\<lambda>b. if b = 1 then [2, 3] else if b = 2 then latchSuccs else [1, 4]),
      lf_parents = (\<lambda>_. []), lf_exitBlocks = (\<lambda>_. [4]), lf_depth = (\<lambda>_. 1), lf_preorder = [0]\<rparr>"

definition sample_trace_doc :: json where
  "sample_trace_doc = JObject [(''f'', JObject [(''loop_traces'', JObject [(''h'', JObject [(''traces'',
     JArray [JObject [(''path'', JArray [JString ''h'', JString ''l'']), (''count'', JUnsigned 5)]])])])])]"

definition sample_loader_names :: name_map where
  "sample_loader_names = fst (traceLoaderNames (sample_forest [3]) [1, 2, 3] emptyGraph)"

definition sample_loader_graph :: SchematicGraph where
  "sample_loader_graph = snd (traceLoaderNames (sample_forest [3]) [1, 2, 3] emptyGraph)"

lemma sample_forest_ok: "forest_ok (sample_forest ss)"
  by (simp add: forest_ok_def header_ok_def sample_forest_def)

lemma graph_ok_empty: "graph_ok emptyGraph"
  by (simp add: graph_ok_def emptyGraph_def)

lemma traceLoaderNames_graph: "graph_ok g \<Longrightarrow> graph_ok (snd (traceLoaderNames E F g))"
  unfolding traceLoaderNames_def
  by (rule foldl_invariant [where P = "\<lambda>s. graph_ok (snd s)"]) (auto dest: getOrCreate_ok(1) split: prod.splits)

lemma sample_loader_graph_ok: "graph_ok sample_loader_graph"
  unfolding sample_loader_graph_def by (rule traceLoaderNames_graph [OF graph_ok_empty])

lemma sample_load:
  "loadTraces (sample_forest [3]) sample_loader_names ''f'' (Some sample_trace_doc) sample_loader_graph =
     Inr (\<lparr>functionPaths = [], loopTraces = [\<lparr>lt_loop = Some 0, lt_header = 1, lt_members = [1, 2, 3], lt_latch = 3, lt_depth = 1,
       iterationPaths = [\<lparr>ep_blocks = [1, 3], ep_count = 5\<rparr>, \<lparr>ep_blocks = [1, 2, 3], ep_count = 1\<rparr>]\<rparr>]\<rparr>, sample_loader_graph)"
  by code_simp

lemma sample_load_stuck:
  "loadTraces (sample_forest [4]) sample_loader_names ''f'' (Some sample_trace_doc) sample_loader_graph = Inl (NoPathCovering 2)"
  by code_simp


lemma sample_natural: "natural_loop (sample_forest [3]) 0"
proof -
  let ?E = "sample_forest [3]"
  have succs: "bodySuccs ?E 0 1 = [2, 3]" "bodySuccs ?E 0 2 = [3]" "bodySuccs ?E 0 3 = []"
    by (simp_all add: bodySuccs_def sample_forest_def)
  have kids: "getImmediateChildLoop ?E 0 b = None" for b
    by (simp add: getImmediateChildLoop_def sample_forest_def)
  have "is_path (bodySuccs ?E 0) 1 1 [1]" "is_path (bodySuccs ?E 0) 1 2 [1, 2]" "is_path (bodySuccs ?E 0) 1 3 [1, 3]"
    "is_path (bodySuccs ?E 0) 2 3 [2, 3]" "is_path (bodySuccs ?E 0) 3 3 [3]"
    by (simp_all add: is_path_def succs [simplified])
  then have reach: "\<exists>p. is_path (bodySuccs ?E 0) 1 b p" "\<exists>p. is_path (bodySuccs ?E 0) b 3 p" if "b \<in> {1, 2, 3}" for b
    using that by blast+
  have LI: "lf_LI ?E = \<lparr>getLoopFor = (\<lambda>b. if b \<in> {1, 2, 3} then Some 0 else None), getHeader = (\<lambda>_. 1), getLoopLatch = (\<lambda>_. 3),
      getLoopBlocks = (\<lambda>_. [1, 2, 3])\<rparr>" by (simp add: sample_forest_def)
  show ?thesis
    using reach unfolding natural_loop_def header_ok_def LI by (simp add: kids)
qed

theorem loadTraces_complete_witness:
  "coversAllDirectMembers (sample_forest [3]) sample_loader_graph
     \<lparr>lt_loop = Some 0, lt_header = 1, lt_members = [1, 2, 3], lt_latch = 3, lt_depth = 1,
      iterationPaths = [\<lparr>ep_blocks = [1, 3], ep_count = 5\<rparr>, \<lparr>ep_blocks = [1, 2, 3], ep_count = 1\<rparr>]\<rparr>"
  using loadTraces_complete [OF sample_forest_ok sample_loader_graph_ok sample_load]
  by (auto simp: loop_complete_def)

lemma sample_not_on_path: "\<not> on_loop_path (sample_forest [4]) 0 2"
  using loadTraces_failure_cause [OF sample_forest_ok sample_loader_graph_ok sample_load_stuck]
  by (simp add: sample_forest_def)

theorem loadTraces_succeeds_witness:
  "\<exists>lt g'. loadTraces (sample_forest [3]) [] ''f'' (Some (JObject [(''f'', JNull)])) sample_loader_graph = Inr (lt, g')"
  by (rule loadTraces_succeeds [OF sample_loader_graph_ok _ refl])
    (use sample_natural in \<open>simp_all add: sample_forest_def jsonAt_def\<close>)

end
