(* ===== verification/LoopAnalyzer.thy ===== *)
theory LoopAnalyzer
  imports TraceAnalyzer TraceLoader
begin

text \<open>
  The loop analyzer of SCHEMATIC (\<open>passes/src/schematic/LoopAnalyzer.cpp\<close>). A loop's body paths
  are analysed between two synthetic boundary blocks; from the energy of one iteration and the energy
  a full charge leaves, the number of iterations per charge is computed and one of the back-edge
  policies is chosen: no checkpoint, one per iteration, or one every \<open>n\<close> iterations.

  LLVM's loop structure, the trip-count metadata and the scalar-evolution bound are arguments
  (record \<open>loop_env\<close>); the mutable state is \<open>trace_state\<close>. The scope guard that erases the synthetic
  blocks' entries runs on every return path. \<open>std::floor\<close> followed by a cast to \<open>int\<close> is the integer
  floor: outside the range of \<open>int\<close> the cast is undefined in C++. \<open>std::sort\<close> by depth leaves the order
  of equal depths open; the model takes the stable one.

  Results: the iteration budget covers the iterations it allows, the policy never lets more iterations
  pass than the budget, an unknown trip count never counts as a loop that fits, boundary placements
  are merged only when they agree, and the synthetic blocks leave no trace in the solution.
\<close>

section \<open>Arguments and records\<close>

record loop_env =
  le_LI :: loop_info
  le_cfg :: CFGAnalysis
  le_state :: SchematicStateAnalysis
  le_params :: SchematicParams
  le_bbName :: "bb_ptr \<Rightarrow> string"
  loadedLoopTraces :: "LoadedLoopTrace list"
  getMarkerTripCount :: "loop_id \<Rightarrow> u64 option"
  getSmallConstantMaxTripCount :: "loop_id \<Rightarrow> u32"
  parentLoops :: "loop_id \<Rightarrow> loop_id list"
  loopsInPreorder :: "loop_id list"
  containsLoop :: "loop_id \<Rightarrow> loop_id \<Rightarrow> bool"

definition traceEnv :: "loop_env \<Rightarrow> loop_id option \<Rightarrow> trace_env" where
  "traceEnv env scope = \<lparr>ta_LI = le_LI env, ta_scope = scope, ta_cfg = le_cfg env, ta_state = le_state env,
     ta_params = le_params env, ta_bbName = le_bbName env\<rparr>"

record LoopBoundaryBlocks =
  lb_header :: bb_ptr
  lb_latch :: bb_ptr
  headerBlock :: block_ptr
  latchBlock :: block_ptr
  startSynth :: block_ptr
  endSynth :: block_ptr

record LoopBoundaryPlacements =
  headerAlloc :: "(value_ptr, Placement) omap"
  latchAlloc :: "(value_ptr, Placement) omap"
  allocationsDiffer :: bool

record LoopIterationBudget =
  startEToLeave :: double
  endEToLeave :: double
  ELoop :: double
  availableEnergy :: double
  rawNumIterations :: int
  numIterations :: u32

definition loopOriginTag :: "loop_env \<Rightarrow> loop_id \<Rightarrow> string \<Rightarrow> string" where
  "loopOriginTag env L reason =
     (let header = getHeader (le_LI env) L
      in ''loop-'' @ reason @ ''['' @ (if header \<noteq> nullptr then le_bbName env header else ''<unknown>'') @ '']'')"

section \<open>Boundary blocks\<close>

definition createLoopBoundaryBlocks :: "loop_env \<Rightarrow> loop_id \<Rightarrow> SchematicGraph \<Rightarrow> LoopBoundaryBlocks \<times> SchematicGraph" where
  "createLoopBoundaryBlocks env L g =
     (let header = getHeader (le_LI env) L;
          latch = getLoopLatch (le_LI env) L;
          (hb, g1) = getOrCreate (le_bbName env) header g;
          (lb, g2) = (if latch \<noteq> nullptr then getOrCreate (le_bbName env) latch g1 else (nullptr, g1));
          (ss, g3) = createSynthetic kStartLoopName g2;
          (es, g4) = createSynthetic kEndLoopName g3
      in (\<lparr>lb_header = header, lb_latch = latch, headerBlock = hb, latchBlock = lb, startSynth = ss, endSynth = es\<rparr>, g4))"

definition eraseSyntheticLoopBoundaryState :: "LoopBoundaryBlocks \<Rightarrow> SchematicSolution \<Rightarrow> SchematicSolution" where
  "eraseSyntheticLoopBoundaryState blocks sol =
     sol\<lparr>blockMeta := omap_erase (endSynth blocks) (omap_erase (startSynth blocks) (blockMeta sol)),
        decidedPlacements := omap_erase (endSynth blocks) (omap_erase (startSynth blocks) (decidedPlacements sol)),
        blockAllocation := omap_erase (endSynth blocks) (omap_erase (startSynth blocks) (blockAllocation sol))\<rparr>"

definition computeLoopEntryEnergyLeft :: "RegionAllocation \<Rightarrow> SchematicStateAnalysis \<Rightarrow> SchematicParams \<Rightarrow> double" where
  "computeLoopEntryEnergyLeft alloc st params =
     foldl (\<lambda>e (gv, va). if placement va = VM then e - memRestoreEnergyPerByte params * u2r (getVarSizeBytes st gv) else e)
       (capacity params - E_pro params - u2r (N_reg params) * regRestoreEnergy params) (vars alloc)"

definition computeLoopExitEnergyToLeave ::
  "RegionAllocation \<Rightarrow> SchematicStateAnalysis \<Rightarrow> SchematicParams \<Rightarrow> bool \<Rightarrow> double" where
  "computeLoopExitEnergyToLeave alloc st params includeLoopIncrementCost =
     foldl (\<lambda>e (gv, va). if placement va = VM then e + memStoreEnergyPerByte params * u2r (getVarSizeBytes st gv) else e)
       (E_epi params + u2r (N_reg params) * regStoreEnergy params +
          (if includeLoopIncrementCost then loopIncrementCostNvm params else 0)) (vars alloc)"

definition initializeSyntheticLoopBoundaryState ::
  "SchematicStateAnalysis \<Rightarrow> SchematicParams \<Rightarrow> LoopBoundaryBlocks \<Rightarrow> SchematicSolution \<Rightarrow> SchematicSolution" where
  "initializeSyntheticLoopBoundaryState st params blocks sol =
     (let ss = startSynth blocks; es = endSynth blocks;
          sol1 = setMeta ss ((metaOf sol ss)\<lparr>E_left := computeLoopEntryEnergyLeft emptyAllocation st params, analyzed := True\<rparr>) sol;
          sol2 = sol1\<lparr>decidedPlacements := omap_put ss [] (decidedPlacements sol1)\<rparr>;
          sol3 = setMeta es ((metaOf sol2 es)\<lparr>E_to_leave := computeLoopExitEnergyToLeave emptyAllocation st params False,
                   analyzed := True\<rparr>) sol2
      in sol3\<lparr>decidedPlacements := omap_put es [] (decidedPlacements sol3)\<rparr>)"

section \<open>Loop traces and their coverage\<close>

definition findLoadedLoopTraceForHeader :: "block_ptr \<Rightarrow> LoadedLoopTrace list \<Rightarrow> LoadedLoopTrace option" where
  "findLoadedLoopTraceForHeader hb traces = find (\<lambda>lt. lt_header lt = hb) traces"

definition collectLoopBodyPaths :: "LoadedLoopTrace \<Rightarrow> block_ptr list list" where
  "collectLoopBodyPaths lt = filter (\<lambda>p. p \<noteq> []) (map ep_blocks (iterationPaths lt))"

definition tracedLoopContainsBlock :: "LoadedLoopTrace \<Rightarrow> block_ptr \<Rightarrow> bool" where
  "tracedLoopContainsBlock lt block \<longleftrightarrow> list_ex (\<lambda>m. m = block) (lt_members lt)"

definition blockCoveredByNestedTracedLoop :: "loop_env \<Rightarrow> LoadedLoopTrace \<Rightarrow> block_ptr \<Rightarrow> bool" where
  "blockCoveredByNestedTracedLoop env parent block \<longleftrightarrow>
     (case lt_loop parent of
        None \<Rightarrow> False
      | Some P \<Rightarrow> list_ex (\<lambda>c. case lt_loop c of
            None \<Rightarrow> False
          | Some C \<Rightarrow> C \<noteq> P \<and> containsLoop env P C \<and> tracedLoopContainsBlock c block) (loadedLoopTraces env))"

definition collectUnexplainedUncoveredLoopMembers :: "loop_env \<Rightarrow> LoadedLoopTrace \<Rightarrow> block_ptr list" where
  "collectUnexplainedUncoveredLoopMembers env lt =
     (let covered = set (concat (map ep_blocks (iterationPaths lt)))
      in filter (\<lambda>m. m \<notin> covered \<and> \<not> blockCoveredByNestedTracedLoop env lt m) (lt_members lt))"

datatype coverage_error = UncoveredMembers block_ptr "block_ptr list" | NoDedicatedTrace bb_ptr bb_ptr

fun firstTracedAncestor :: "loop_env \<Rightarrow> loop_id list \<Rightarrow> SchematicGraph \<Rightarrow> loop_id option \<times> SchematicGraph" where
  "firstTracedAncestor env [] g = (None, g)"
| "firstTracedAncestor env (parent # ps) g =
     (let (hb, g1) = getOrCreate (le_bbName env) (getHeader (le_LI env) parent) g
      in if findLoadedLoopTraceForHeader hb (loadedLoopTraces env) \<noteq> None then (Some parent, g1)
         else firstTracedAncestor env ps g1)"

fun untracedLoopErrors ::
  "loop_env \<Rightarrow> loop_id list \<Rightarrow> coverage_error list \<Rightarrow> SchematicGraph \<Rightarrow> coverage_error list \<times> SchematicGraph" where
  "untracedLoopErrors env [] errors g = (errors, g)"
| "untracedLoopErrors env (L # Ls) errors g =
     (let (hb, g1) = getOrCreate (le_bbName env) (getHeader (le_LI env) L) g
      in if findLoadedLoopTraceForHeader hb (loadedLoopTraces env) \<noteq> None then untracedLoopErrors env Ls errors g1
         else
           let (anc, g2) = firstTracedAncestor env (parentLoops env L) g1
           in case anc of
                None \<Rightarrow> untracedLoopErrors env Ls errors g2
              | Some a \<Rightarrow> untracedLoopErrors env Ls
                  (errors @ [NoDedicatedTrace (getHeader (le_LI env) L) (getHeader (le_LI env) a)]) g2)"

definition collectLoopTraceCoverageErrors :: "loop_env \<Rightarrow> SchematicGraph \<Rightarrow> coverage_error list \<times> SchematicGraph" where
  "collectLoopTraceCoverageErrors env g =
     (let errors = concat (map (\<lambda>lt.
             let uncovered = collectUnexplainedUncoveredLoopMembers env lt
             in if uncovered = [] then [] else [UncoveredMembers (lt_header lt) uncovered]) (loadedLoopTraces env))
      in untracedLoopErrors env (loopsInPreorder env) errors g)"

section \<open>Body paths\<close>

fun analyzeLoopBodyPaths ::
  "loop_env \<Rightarrow> loop_id \<Rightarrow> LoopBoundaryBlocks \<Rightarrow> block_ptr list list \<Rightarrow> trace_state \<Rightarrow> analyze_error option \<times> trace_state" where
  "analyzeLoopBodyPaths env L blocks [] ts = (None, ts)"
| "analyzeLoopBodyPaths env L blocks (p # ps) ts =
     (let path = startSynth blocks # p @ [endSynth blocks];
          ts1 = ts\<lparr>ts_graph := addTraceEdges path (ts_graph ts)\<rparr>
      in case analyzeTrace (traceEnv env (Some L)) path ts1 of
           (Some e, ts2) \<Rightarrow> (Some e, ts2)
         | (None, ts2) \<Rightarrow> analyzeLoopBodyPaths env L blocks ps ts2)"

section \<open>Boundary placements\<close>

definition boundaryPlacementsDiffer :: "(value_ptr, Placement) omap \<Rightarrow> (value_ptr, Placement) omap \<Rightarrow> bool" where
  "boundaryPlacementsDiffer headerA latchA \<longleftrightarrow>
     list_ex (\<lambda>(gv, place). case map_of latchA gv of Some p \<Rightarrow> p \<noteq> place | None \<Rightarrow> place = VM) headerA \<or>
     list_ex (\<lambda>(gv, place). map_of headerA gv = None \<and> place = VM) latchA"

definition addMissing :: "(value_ptr, Placement) omap \<Rightarrow> (value_ptr, Placement) omap \<Rightarrow> (value_ptr, Placement) omap" where
  "addMissing target source =
     foldl (\<lambda>t (gv, place). if map_of t gv = None then omap_put gv place t else t) target source"

definition mergeBoundaryPlacements ::
  "(value_ptr, Placement) omap \<Rightarrow> (value_ptr, Placement) omap
     \<Rightarrow> (value_ptr, Placement) omap \<times> (value_ptr, Placement) omap" where
  "mergeBoundaryPlacements headerA latchA =
     (let header' = addMissing headerA latchA in (header', addMissing latchA header'))"

definition resolveLoopBoundaryPlacements ::
  "LoopBoundaryBlocks \<Rightarrow> SchematicSolution \<Rightarrow> LoopBoundaryPlacements \<times> SchematicSolution" where
  "resolveLoopBoundaryPlacements blocks sol =
     (let headerA = placementsOf sol (headerBlock blocks);
          latchA = (if latchBlock blocks \<noteq> nullptr then placementsOf sol (latchBlock blocks) else [])
      in if boundaryPlacementsDiffer headerA latchA
         then (\<lparr>headerAlloc = headerA, latchAlloc = latchA, allocationsDiffer = True\<rparr>, sol)
         else
           let (headerA', latchA') = mergeBoundaryPlacements headerA latchA;
               sol1 = sol\<lparr>decidedPlacements := omap_put (headerBlock blocks) headerA' (decidedPlacements sol)\<rparr>;
               sol2 = (if latchBlock blocks \<noteq> nullptr
                       then sol1\<lparr>decidedPlacements := omap_put (latchBlock blocks) latchA' (decidedPlacements sol1)\<rparr> else sol1)
           in (\<lparr>headerAlloc = headerA', latchAlloc = latchA', allocationsDiffer = False\<rparr>, sol2))"

definition copyLoopBoundaryEnergyToSyntheticBlocks :: "LoopBoundaryBlocks \<Rightarrow> SchematicSolution \<Rightarrow> SchematicSolution" where
  "copyLoopBoundaryEnergyToSyntheticBlocks blocks sol =
     (let ss = startSynth blocks; es = endSynth blocks; hb = headerBlock blocks; lb = latchBlock blocks;
          sol0 = setMeta hb (metaOf sol hb) sol;
          sol1 = setMeta ss ((metaOf sol0 ss)\<lparr>E_to_leave := E_to_leave (metaOf sol0 hb)\<rparr>) sol0;
          sol2 = setMeta ss ((metaOf sol1 ss)\<lparr>E_left := E_left (metaOf sol1 hb)\<rparr>) sol1
      in if lb \<noteq> nullptr
         then let sol3 = setMeta lb (metaOf sol2 lb) sol2
              in setMeta es ((metaOf sol3 es)\<lparr>E_left := E_left (metaOf sol3 lb)\<rparr>) sol3
         else sol2)"

section \<open>The iteration budget\<close>

definition iterationsFor :: "double \<Rightarrow> double \<Rightarrow> int" where
  "iterationsFor available eloop = \<lfloor>available / eloop\<rfloor> - 1"

definition readLoopIterationBudget ::
  "LoopBoundaryBlocks \<Rightarrow> RegionAllocation \<Rightarrow> SchematicStateAnalysis \<Rightarrow> SchematicParams \<Rightarrow> SchematicSolution \<Rightarrow> LoopIterationBudget" where
  "readLoopIterationBudget blocks bodyAlloc st params sol =
     (let s = E_to_leave (metaOf sol (startSynth blocks));
          e = E_to_leave (metaOf sol (endSynth blocks));
          eloop = s - e + loopIncrementCostNvm params;
          avail = computeLoopEntryEnergyLeft bodyAlloc st params - e;
          raw = (if eloop > 0 then iterationsFor avail eloop else 0)
      in \<lparr>startEToLeave = s, endEToLeave = e, ELoop = eloop, availableEnergy = avail,
          rawNumIterations = raw, numIterations = word_of_int (max raw 0)\<rparr>)"

definition hasEnabledCheckpointsInLoop :: "loop_env \<Rightarrow> loop_id \<Rightarrow> SchematicGraph \<Rightarrow> SchematicSolution \<Rightarrow> bool" where
  "hasEnabledCheckpointsInLoop env L g sol \<longleftrightarrow>
     (\<exists>ckpt \<in> enabledCheckpoints sol.
        getLLVMBlock g (src ckpt) \<noteq> nullptr \<and> loopContains (le_LI env) L (getLLVMBlock g (src ckpt)) \<and>
        getLLVMBlock g (dst ckpt) \<noteq> nullptr \<and> loopContains (le_LI env) L (getLLVMBlock g (dst ckpt)))"

fun bodyEdgesDisabled ::
  "loop_env \<Rightarrow> loop_id \<Rightarrow> SchematicSolution \<Rightarrow> (bb_ptr \<times> bb_ptr) list \<Rightarrow> SchematicGraph \<Rightarrow> bool \<times> SchematicGraph" where
  "bodyEdgesDisabled env L sol [] g = (True, g)"
| "bodyEdgesDisabled env L sol ((s, d) # es) g =
     (if \<not> loopContains (le_LI env) L s \<or> \<not> loopContains (le_LI env) L d then bodyEdgesDisabled env L sol es g
      else if s = getLoopLatch (le_LI env) L \<and> d = getHeader (le_LI env) L then bodyEdgesDisabled env L sol es g
      else
        let (sb, g1) = getOrCreate (le_bbName env) s g;
            (db, g2) = getOrCreate (le_bbName env) d g1
        in if \<not> isDisabledCheckpoint g2 sol (CFGEdge sb db) then (False, g2)
           else bodyEdgesDisabled env L sol es g2)"

definition hasOnlyDisabledCheckpointsInLoop ::
  "loop_env \<Rightarrow> loop_id \<Rightarrow> LoopBoundaryBlocks \<Rightarrow> SchematicGraph \<Rightarrow> SchematicSolution \<Rightarrow> bool \<times> SchematicGraph" where
  "hasOnlyDisabledCheckpointsInLoop env L blocks g sol =
     (let (body, g1) = bodyEdgesDisabled env L sol (cfg_edges (le_cfg env)) g;
          inLoop = (\<lambda>b. b \<noteq> nullptr \<and> getLLVMBlock g1 b \<noteq> nullptr \<and> loopContains (le_LI env) L (getLLVMBlock g1 b))
      in (body \<and>
          list_all (\<lambda>succ. inLoop succ \<longrightarrow> isDisabledCheckpoint g1 sol (CFGEdge (startSynth blocks) succ))
            (successors g1 (startSynth blocks)) \<and>
          list_all (\<lambda>pred. inLoop pred \<longrightarrow> isDisabledCheckpoint g1 sol (CFGEdge pred (endSynth blocks)))
            (predecessors g1 (endSynth blocks)), g1))"

text \<open>Blocks of a loop, with the nodes \<open>getOrCreate\<close> finds or makes for them, in loop order.\<close>

fun loopNodes :: "loop_env \<Rightarrow> bb_ptr list \<Rightarrow> SchematicGraph \<Rightarrow> block_ptr list \<times> SchematicGraph" where
  "loopNodes env [] g = ([], g)"
| "loopNodes env (BB # BBs) g =
     (let (b, g1) = getOrCreate (le_bbName env) BB g; (bs, g2) = loopNodes env BBs g1 in (b # bs, g2))"

definition collectLoopMemoryAllocations ::
  "loop_env \<Rightarrow> loop_id \<Rightarrow> SchematicSolution \<Rightarrow> SchematicGraph \<Rightarrow> nat list \<times> SchematicGraph" where
  "collectLoopMemoryAllocations env L sol g =
     (let (bs, g1) = loopNodes env (getLoopBlocks (le_LI env) L) g
      in (foldl (\<lambda>refs b. case map_of (blockAllocation sol) b of
             None \<Rightarrow> refs | Some r \<Rightarrow> if r \<in> set refs then refs else refs @ [r]) [] bs, g1))"

section \<open>Energy of the boundary and of the body\<close>

definition propEnvL :: "loop_env \<Rightarrow> loop_id \<Rightarrow> SchematicGraph \<Rightarrow> prop_env" where
  "propEnvL env L g = propEnv (traceEnv env (Some L)) g"

definition propagateMandatoryLoopBoundary ::
  "loop_env \<Rightarrow> loop_id \<Rightarrow> LoopBoundaryBlocks \<Rightarrow> RegionAllocation \<Rightarrow> SchematicGraph \<Rightarrow> SchematicSolution \<Rightarrow> SchematicSolution" where
  "propagateMandatoryLoopBoundary env L blocks bodyAlloc g sol =
     (let ss = startSynth blocks; es = endSynth blocks;
          energyLeftStart = computeLoopEntryEnergyLeft bodyAlloc (le_state env) (le_params env);
          sol1 = (case successors g ss of
                    [] \<Rightarrow> sol
                  | fwdDst # _ \<Rightarrow> propagateEnergyLeft (propEnvL env L g) (CFGEdge ss fwdDst) energyLeftStart sol);
          eToLeave = computeLoopExitEnergyToLeave bodyAlloc (le_state env) (le_params env) True;
          sol2 = (case predecessors g es of
                    [] \<Rightarrow> sol1
                  | bwdSrc # _ \<Rightarrow> propagateEnergyToLeave (propEnvL env L g) (CFGEdge bwdSrc es) eToLeave sol1);
          sol3 = setMeta (headerBlock blocks) (metaOf sol2 (headerBlock blocks)) sol2;
          sol4 = setMeta ss ((metaOf sol3 ss)\<lparr>E_to_leave := E_to_leave (metaOf sol3 (headerBlock blocks)),
                   E_left := energyLeftStart\<rparr>) sol3
      in setMeta es ((metaOf sol4 es)\<lparr>E_to_leave := eToLeave\<rparr>) sol4)"

definition applyLoopIterationAdjustment ::
  "loop_env \<Rightarrow> loop_id \<Rightarrow> u32 \<Rightarrow> LoopCheckpointDecision \<Rightarrow> double \<Rightarrow> SchematicGraph \<times> SchematicSolution
     \<Rightarrow> SchematicGraph \<times> SchematicSolution" where
  "applyLoopIterationAdjustment env L maxTripCount decision eloop gs =
     (if numIterationsPerCharge decision \<le> 1 then gs
      else
        let adjIter = (if loopFitsEntirely decision then maxTripCount else numIterationsPerCharge decision);
            mark = \<lparr>lm_loop = L, nbIter = adjIter, costOneIt = eloop\<rparr>;
            adjustment = u2r (adjIter - 1) * eloop
        in foldl (\<lambda>(g, sol) BB.
             let (b, g1) = getOrCreate (le_bbName env) BB g; m = metaOf sol b
             in (g1, setMeta b (m\<lparr>meta_loop := Some mark, E_to_leave := E_to_leave m + adjustment,
                       E_left := E_left m - adjustment\<rparr>) sol))
           gs (getLoopBlocks (le_LI env) L))"

definition resetLoopBlock :: "RegionAllocation \<Rightarrow> nat \<Rightarrow> SchematicSolution \<Rightarrow> block_ptr \<Rightarrow> SchematicSolution" where
  "resetLoopBlock bodyAlloc sharedAlloc sol block =
     (let sol1 = setMeta block ((metaOf sol block)\<lparr>analyzed := True, E_left := DBL_MAX, E_to_leave := 0\<rparr>) sol;
          sol2 = sol1\<lparr>decidedPlacements := omap_put block
                   (foldl (\<lambda>ps (gv, va). omap_put gv (placement va) ps) (placementsOf sol1 block) (vars bodyAlloc))
                   (decidedPlacements sol1)\<rparr>
      in case map_of (blockAllocation sol2) block of
           Some r \<Rightarrow> setAllocAt r (extendsAllocation (allocAt sol2 r) (allocAt sol2 sharedAlloc)) sol2
         | None \<Rightarrow> sol2\<lparr>blockAllocation := omap_put block sharedAlloc (blockAllocation sol2)\<rparr>)"

definition recomputeLoopBodyEnergyOnCFG ::
  "loop_env \<Rightarrow> loop_id \<Rightarrow> LoopBoundaryBlocks \<Rightarrow> RegionAllocation \<Rightarrow> SchematicGraph \<times> SchematicSolution
     \<Rightarrow> SchematicGraph \<times> SchematicSolution" where
  "recomputeLoopBodyEnergyOnCFG env L blocks bodyAlloc gs =
     (let ss = startSynth blocks; es = endSynth blocks; hb = headerBlock blocks; lb = latchBlock blocks;
          (sharedAlloc, sol0) = makeShared bodyAlloc (snd gs);
          (nodes, g) = loopNodes env (getLoopBlocks (le_LI env) L) (fst gs);
          sol1 = foldl (resetLoopBlock bodyAlloc sharedAlloc) sol0 (sorted_list_of_set (set nodes));
          energyLeftStart = computeLoopEntryEnergyLeft bodyAlloc (le_state env) (le_params env);
          eToLeave = computeLoopExitEnergyToLeave bodyAlloc (le_state env) (le_params env) True;
          sol2 = propagateEnergyLeft (propEnvL env L g) (CFGEdge ss hb) energyLeftStart sol1;
          sol3 = propagateEnergyToLeave (propEnvL env L g) (CFGEdge lb es) eToLeave sol2;
          sol4 = setMeta ss ((metaOf sol3 ss)\<lparr>E_left := energyLeftStart\<rparr>) sol3;
          sol5 = setMeta hb (metaOf sol4 hb) sol4;
          sol6 = setMeta ss ((metaOf sol5 ss)\<lparr>E_to_leave := E_to_leave (metaOf sol5 hb)\<rparr>) sol5;
          sol7 = (if lb \<noteq> nullptr
                  then let sol' = setMeta lb (metaOf sol6 lb) sol6
                       in setMeta es ((metaOf sol' es)\<lparr>E_left := E_left (metaOf sol' lb)\<rparr>) sol'
                  else sol6);
          sol8 = setMeta es ((metaOf sol7 es)\<lparr>E_to_leave := eToLeave\<rparr>) sol7
      in (g, case map_of (decidedPlacements sol8) hb of
               None \<Rightarrow> sol8
             | Some ps \<Rightarrow> sol8\<lparr>decidedPlacements := omap_put es ps (omap_put ss ps (decidedPlacements sol8))\<rparr>))"

section \<open>Access estimates of a loop body\<close>

text \<open>\<open>std::llround\<close> rounds halves away from zero; the weighted counts are not negative.\<close>

definition llround :: "double \<Rightarrow> int" where
  "llround x = (if x < 0 then - \<lfloor>1 / 2 - x\<rfloor> else \<lfloor>x + 1 / 2\<rfloor>)"

definition totalExecutions :: "LoadedLoopTrace \<Rightarrow> u64" where
  "totalExecutions lt = foldl (\<lambda>n p. n + ucast (ep_count p)) 0 (iterationPaths lt)"

definition pathFrequency :: "LoadedLoopTrace \<Rightarrow> EnumeratedPath \<Rightarrow> double" where
  "pathFrequency lt path =
     (if totalExecutions lt = 0 then (if iterationPaths lt = [] then 0 else 1 / real (length (iterationPaths lt)))
      else u2r (ep_count path) / real (unat (totalExecutions lt)))"

type_synonym access_totals = "(value_ptr, double) omap \<times> (value_ptr, bool) omap"

definition countAccess ::
  "SchematicStateAnalysis \<Rightarrow> bb_ptr \<Rightarrow> double \<Rightarrow> u64 \<Rightarrow> access_totals \<Rightarrow> value_ptr \<Rightarrow> access_totals" where
  "countAccess st BB freq n acc v =
     (let (expected, needR) = acc; accesses = getLoadCount st BB v + getStoreCount st BB v
      in if accesses = 0 then acc
         else (omap_put v (omap_get 0 expected v + u2r accesses * freq * real (unat n)) expected,
               if omap_count needR v then needR
               else case getFirstOpIsLoad st BB v of None \<Rightarrow> needR | Some b \<Rightarrow> omap_put v b needR))"

definition countBlockAccesses ::
  "SchematicGraph \<Rightarrow> SchematicStateAnalysis \<Rightarrow> double \<Rightarrow> u64 \<Rightarrow> access_totals \<Rightarrow> block_ptr \<Rightarrow> access_totals" where
  "countBlockAccesses g st freq n acc block =
     (let BB = getLLVMBlock g block
      in if BB = nullptr then acc else foldl (countAccess st BB freq n) acc (sa_candidates st))"

definition estimateLoopVariableAccess ::
  "SchematicGraph \<Rightarrow> LoadedLoopTrace \<Rightarrow> SchematicStateAnalysis \<Rightarrow> u64 \<Rightarrow> access_map" where
  "estimateLoopVariableAccess g lt st n =
     (let (expected, needR) =
            foldl (\<lambda>acc path. foldl (countBlockAccesses g st (pathFrequency lt path) n) acc (ep_blocks path))
              ([], []) (iterationPaths lt)
      in map (\<lambda>(v, w). (v, \<lparr>accessCount = max 1 (word_of_int (llround w)),
                            est_needRestore = omap_get False needR v, est_needSave = True\<rparr>)) expected)"

section \<open>Convergence of the budget\<close>

record conv_state =
  cv_ts :: trace_state
  cv_budget :: LoopIterationBudget
  cv_alloc :: RegionAllocation
  cv_decision :: LoopCheckpointDecision

definition refreshInLoop :: "loop_env \<Rightarrow> loop_id \<Rightarrow> SchematicGraph \<times> SchematicSolution \<Rightarrow> SchematicGraph \<times> SchematicSolution" where
  "refreshInLoop env L gs = snd (refreshDisabledCheckpointEnergy (traceEnv env (Some L)) gs)"

text \<open>One round: a new body allocation for the iterations of the last budget, the energies of the body
  under it, and the budget they give. The flag tells whether the loop goes on.\<close>

definition convergenceRound ::
  "loop_env \<Rightarrow> loop_id \<Rightarrow> LoadedLoopTrace \<Rightarrow> u64 \<Rightarrow> LoopBoundaryBlocks \<Rightarrow> nat list \<Rightarrow> conv_state \<Rightarrow> bool \<times> conv_state" where
  "convergenceRound env L lt maxTrip blocks refs cs =
     (let ts = cv_ts cs;
          scaled = (ucast (min (ucast (numIterations (cv_budget cs))) maxTrip) :: u32);
          accesses = estimateLoopVariableAccess (ts_graph ts) lt (le_state env) (ucast scaled);
          (newAlloc, gain, tracker) = chooseFromAccesses accesses (le_state env) (le_params env) None None
             (map (allocAt (ts_sol ts)) refs) (ts_tracker ts);
          (g, sol) = refreshInLoop env L (recomputeLoopBodyEnergyOnCFG env L blocks newAlloc (ts_graph ts, ts_sol ts));
          b = readLoopIterationBudget blocks newAlloc (le_state env) (le_params env) sol;
          d = (cv_decision cs)\<lparr>E_loop := ELoop b, bodyAllocation := newAlloc\<rparr>;
          ts' = \<lparr>ts_graph = g, ts_sol = sol, ts_tracker = tracker\<rparr>
      in if ELoop b \<le> 0 then (False, \<lparr>cv_ts = ts', cv_budget = b, cv_alloc = newAlloc, cv_decision = d\<rparr>)
         else
           let avail = computeLoopEntryEnergyLeft newAlloc (le_state env) (le_params env) - startEToLeave b;
               b1 = b\<lparr>availableEnergy := avail\<rparr>
           in if avail \<le> 0 then (False, \<lparr>cv_ts = ts', cv_budget = b1, cv_alloc = newAlloc, cv_decision = d\<rparr>)
              else
                let raw = iterationsFor avail (ELoop b)
                in (True, \<lparr>cv_ts = ts',
                     cv_budget = b1\<lparr>rawNumIterations := raw, numIterations := word_of_int (max raw 0)\<rparr>,
                     cv_alloc = newAlloc, cv_decision = d\<rparr>))"

fun convergenceLoop ::
  "loop_env \<Rightarrow> loop_id \<Rightarrow> LoadedLoopTrace \<Rightarrow> u64 \<Rightarrow> LoopBoundaryBlocks \<Rightarrow> nat list \<Rightarrow> nat \<Rightarrow> u32 \<Rightarrow> u32 \<Rightarrow> conv_state \<Rightarrow> conv_state" where
  "convergenceLoop env L lt maxTrip blocks refs 0 iter prev cs = cs"
| "convergenceLoop env L lt maxTrip blocks refs (Suc k) iter prev cs =
     (let cs1 = cs\<lparr>cv_decision := (cv_decision cs)\<lparr>convergenceIterations := iter + 1\<rparr>\<rparr>
      in if prev \<noteq> 0 \<and> numIterations (cv_budget cs1) \<ge> prev then cs1
         else let (go, cs2) = convergenceRound env L lt maxTrip blocks refs cs1
              in if go then convergenceLoop env L lt maxTrip blocks refs k (iter + 1) (numIterations (cv_budget cs1)) cs2
                 else cs2)"

definition refineLoopBudgetWithConvergence ::
  "loop_env \<Rightarrow> loop_id \<Rightarrow> LoadedLoopTrace \<Rightarrow> u64 \<Rightarrow> LoopBoundaryBlocks \<Rightarrow> conv_state \<Rightarrow> conv_state" where
  "refineLoopBudgetWithConvergence env L lt maxTrip blocks cs =
     (let ts = cv_ts cs;
          hasEnabled = hasEnabledCheckpointsInLoop env L (ts_graph ts) (ts_sol ts);
          (onlyDisabled, g1) = hasOnlyDisabledCheckpointsInLoop env L blocks (ts_graph ts) (ts_sol ts);
          cs1 = cs\<lparr>cv_ts := ts\<lparr>ts_graph := g1\<rparr>,
                  cv_decision := (cv_decision cs)\<lparr>hadEnabledCheckpoints := hasEnabled\<rparr>\<rparr>
      in if \<not> onlyDisabled \<or> numIterations (cv_budget cs) \<le> 1 then cs1
         else
           let (refs, g2) = collectLoopMemoryAllocations env L (ts_sol ts) g1;
               cs2 = cs1\<lparr>cv_ts := (cv_ts cs1)\<lparr>ts_graph := g2\<rparr>,
                       cv_decision := (cv_decision cs1)\<lparr>convergenceApplied := True\<rparr>\<rparr>
           in convergenceLoop env L lt maxTrip blocks refs 15 0 0 cs2)"

section \<open>Policy and driver\<close>

definition firstFixedEdge :: "SchematicSolution \<Rightarrow> block_ptr list \<Rightarrow> CFGEdge option" where
  "firstFixedEdge sol path =
     map_option (\<lambda>(a, b). CFGEdge a b) (find (\<lambda>(a, b). isAnalyzed sol b) (zip path (tl path)))"

fun splitLoopBodyAtFixedBoundary ::
  "loop_env \<Rightarrow> loop_id \<Rightarrow> SchematicGraph \<Rightarrow> block_ptr list list \<Rightarrow> SchematicSolution \<Rightarrow> bool \<times> SchematicSolution" where
  "splitLoopBodyAtFixedBoundary env L g [] sol = (True, sol)"
| "splitLoopBodyAtFixedBoundary env L g (path # paths) sol =
     (case firstFixedEdge sol path of
        None \<Rightarrow> (False, sol)
      | Some e \<Rightarrow> splitLoopBodyAtFixedBoundary env L g paths
          (enableCheckpoint g e (loopOriginTag env L ''body-does-not-fit'') sol))"

definition backEdge :: "LoopBoundaryBlocks \<Rightarrow> CFGEdge" where
  "backEdge blocks = CFGEdge (latchBlock blocks) (headerBlock blocks)"

definition applyLoopCheckpointPolicy ::
  "loop_env \<Rightarrow> loop_id \<Rightarrow> u32 \<Rightarrow> LoopBoundaryBlocks \<Rightarrow> LoopIterationBudget \<Rightarrow> SchematicGraph
     \<Rightarrow> SchematicSolution \<times> LoopCheckpointDecision \<Rightarrow> SchematicSolution \<times> LoopCheckpointDecision" where
  "applyLoopCheckpointPolicy env L maxTripCount blocks budget g sd =
     (let (sol, d) = sd; hasLatch = (latchBlock blocks \<noteq> nullptr)
      in if numIterations budget > maxTripCount then
           (if hasLatch then disableCheckpoint g (backEdge blocks) sol else sol,
            d\<lparr>numIterationsPerCharge := maxTripCount, loopFitsEntirely := True\<rparr>)
         else if numIterations budget < 3 then
           (if hasLatch then enableCheckpoint g (backEdge blocks) (loopOriginTag env L ''mandatory-backedge'') sol else sol,
            d\<lparr>mandatoryBackEdge := True, numIterationsPerCharge := 1\<rparr>)
         else
           (if hasLatch then setLoopLatchCheckpoint g (backEdge blocks) sol else sol,
            d\<lparr>numIterationsPerCharge := numIterations budget\<rparr>))"

definition getMaxTripCount :: "loop_env \<Rightarrow> loop_id \<Rightarrow> u64 option" where
  "getMaxTripCount env L =
     (case getMarkerTripCount env L of
        Some tc \<Rightarrow> Some tc
      | None \<Rightarrow> let tc = getSmallConstantMaxTripCount env L in if tc > 0 then Some (ucast tc) else None)"

definition buildBoundaryAllocation :: "SchematicStateAnalysis \<Rightarrow> (value_ptr, Placement) omap \<Rightarrow> RegionAllocation" where
  "buildBoundaryAllocation st placements =
     foldl (\<lambda>alloc (gv, place).
         let a1 = alloc\<lparr>vars := omap_put gv \<lparr>placement = place, rawNeedRestore = True, rawNeedSave = True\<rparr> (vars alloc)\<rparr>
         in if place = VM
            then a1\<lparr>vmOffsets := omap_put gv (vmBytesUsed a1) (vmOffsets a1),
                    vmBytesUsed := vmBytesUsed a1 + getVarSizeBytes st gv\<rparr>
            else a1)
       emptyAllocation placements"

datatype loop_error = NoBodyPaths | BodyInfeasible analyze_error | UncoveredInfeasible analyze_error
  | DoesNotFit | StillDoesNotFit | CoverageErrors "coverage_error list"

definition recordDecision :: "LoopBoundaryBlocks \<Rightarrow> LoopCheckpointDecision \<Rightarrow> SchematicSolution \<Rightarrow> SchematicSolution" where
  "recordDecision blocks d sol = sol\<lparr>loopDecisions := omap_put (headerBlock blocks) d (loopDecisions sol)\<rparr>"

definition enableBackEdge :: "loop_env \<Rightarrow> loop_id \<Rightarrow> LoopBoundaryBlocks \<Rightarrow> string \<Rightarrow> SchematicGraph \<Rightarrow> SchematicSolution \<Rightarrow> SchematicSolution" where
  "enableBackEdge env L blocks reason g sol =
     (if latchBlock blocks \<noteq> nullptr then enableCheckpoint g (backEdge blocks) (loopOriginTag env L reason) sol else sol)"

text \<open>The steps from line 767 on, in the order of the source: a mismatch of the boundary placements;\<close>

definition mismatchLoop ::
  "loop_env \<Rightarrow> loop_id \<Rightarrow> LoopBoundaryBlocks \<Rightarrow> LoopBoundaryPlacements \<Rightarrow> LoopCheckpointDecision \<Rightarrow> trace_state \<Rightarrow> trace_state" where
  "mismatchLoop env L blocks placements decision ts =
     (let d = decision\<lparr>mandatoryBackEdge := True, numIterationsPerCharge := 1, E_loop := 0,
                bodyAllocation := buildBoundaryAllocation (le_state env) (headerAlloc placements)\<rparr>;
          sol1 = recordDecision blocks d (ts_sol ts);
          sol2 = propagateMandatoryLoopBoundary env L blocks (bodyAllocation d) (ts_graph ts) sol1
      in ts\<lparr>ts_sol := enableBackEdge env L blocks ''alloc-mismatch-backedge'' (ts_graph ts) sol2\<rparr>)"

text \<open>splitting a body that does not fit (lines 845-862);\<close>

definition splitBody ::
  "loop_env \<Rightarrow> loop_id \<Rightarrow> LoopBoundaryBlocks \<Rightarrow> block_ptr list list \<Rightarrow> conv_state \<Rightarrow> loop_error option \<times> conv_state" where
  "splitBody env L blocks bodyPaths cs =
     (if rawNumIterations (cv_budget cs) \<ge> 0 then (None, cs)
      else
        let ts = cv_ts cs; (ok, sol) = splitLoopBodyAtFixedBoundary env L (ts_graph ts) bodyPaths (ts_sol ts)
        in if \<not> ok then (Some DoesNotFit, cs\<lparr>cv_ts := ts\<lparr>ts_sol := sol\<rparr>\<rparr>)
           else
             let (g2, sol2) = refreshInLoop env L (recomputeLoopBodyEnergyOnCFG env L blocks (cv_alloc cs) (ts_graph ts, sol));
                 b = readLoopIterationBudget blocks (cv_alloc cs) (le_state env) (le_params env) sol2;
                 cs' = cs\<lparr>cv_ts := ts\<lparr>ts_graph := g2, ts_sol := sol2\<rparr>, cv_budget := b,
                          cv_decision := (cv_decision cs)\<lparr>E_loop := ELoop b\<rparr>\<rparr>
             in if rawNumIterations b < 0 then (Some StillDoesNotFit, cs') else (None, cs'))"

text \<open>the policy, the decision record and the iteration adjustment (lines 864-879);\<close>

definition finishLoop ::
  "loop_env \<Rightarrow> loop_id \<Rightarrow> u64 \<Rightarrow> LoopBoundaryBlocks \<Rightarrow> conv_state \<Rightarrow> trace_state" where
  "finishLoop env L maxTrip blocks cs =
     (let ts = cv_ts cs; b = cv_budget cs;
          d0 = (cv_decision cs)\<lparr>finalStartEToLeave := startEToLeave b, finalEndEToLeave := endEToLeave b,
                 finalAvailableEnergy := availableEnergy b, finalRawNumIterations := rawNumIterations b\<rparr>;
          (sol1, d) = applyLoopCheckpointPolicy env L (ucast maxTrip) blocks b (ts_graph ts) (ts_sol ts, d0);
          (g, sol2) = applyLoopIterationAdjustment env L (ucast maxTrip) d (ELoop b)
                        (ts_graph ts, recordDecision blocks d sol1)
      in ts\<lparr>ts_graph := g, ts_sol := sol2\<rparr>)"

text \<open>and the budget with its early returns (lines 787-843).\<close>

definition budgetLoop ::
  "loop_env \<Rightarrow> loop_id \<Rightarrow> LoadedLoopTrace \<Rightarrow> u64 \<Rightarrow> LoopBoundaryBlocks \<Rightarrow> block_ptr list list \<Rightarrow> LoopBoundaryPlacements
     \<Rightarrow> LoopCheckpointDecision \<Rightarrow> trace_state \<Rightarrow> loop_error option \<times> trace_state" where
  "budgetLoop env L lt maxTrip blocks bodyPaths placements decision ts =
     (let bodyAlloc = buildBoundaryAllocation (le_state env) (headerAlloc placements);
          sol1 = copyLoopBoundaryEnergyToSyntheticBlocks blocks (ts_sol ts);
          b = readLoopIterationBudget blocks bodyAlloc (le_state env) (le_params env) sol1;
          d1 = decision\<lparr>initialStartEToLeave := startEToLeave b, initialEndEToLeave := endEToLeave b,
                 initialELoop := ELoop b, E_loop := ELoop b, bodyAllocation := bodyAlloc\<rparr>;
          ts1 = ts\<lparr>ts_sol := sol1\<rparr>
      in if ELoop b \<le> 0 then (None, ts1\<lparr>ts_sol := recordDecision blocks (d1\<lparr>numIterationsPerCharge := 0\<rparr>) sol1\<rparr>)
         else if availableEnergy b \<le> 0 then
           let d2 = d1\<lparr>initialAvailableEnergy := availableEnergy b, mandatoryBackEdge := True,
                   numIterationsPerCharge := 1, finalStartEToLeave := startEToLeave b,
                   finalEndEToLeave := endEToLeave b, finalAvailableEnergy := availableEnergy b\<rparr>
           in (None, ts1\<lparr>ts_sol := enableBackEdge env L blocks ''nonpositive-available-energy'' (ts_graph ts1)
                                  (recordDecision blocks d2 sol1)\<rparr>)
         else
           let d2 = d1\<lparr>initialAvailableEnergy := availableEnergy b, initialRawNumIterations := rawNumIterations b\<rparr>;
               cs = refineLoopBudgetWithConvergence env L lt maxTrip blocks
                      \<lparr>cv_ts = ts1, cv_budget = b, cv_alloc = bodyAlloc, cv_decision = d2\<rparr>
           in case splitBody env L blocks bodyPaths cs of
                (Some e, cs') \<Rightarrow> (Some e, cv_ts cs')
              | (None, cs') \<Rightarrow> (None, finishLoop env L maxTrip blocks cs'))"

definition analyzeLoopBody ::
  "loop_env \<Rightarrow> loop_id \<Rightarrow> LoadedLoopTrace \<Rightarrow> u64 \<Rightarrow> LoopBoundaryBlocks \<Rightarrow> block_ptr list list \<Rightarrow> trace_state
     \<Rightarrow> loop_error option \<times> trace_state" where
  "analyzeLoopBody env L lt maxTrip blocks bodyPaths ts =
     (let te = traceEnv env (Some L);
          ts1 = ts\<lparr>ts_sol := initializeSyntheticLoopBoundaryState (le_state env) (le_params env) blocks (ts_sol ts)\<rparr>
      in case analyzeLoopBodyPaths env L blocks bodyPaths ts1 of
           (Some e, ts2) \<Rightarrow> (Some (BodyInfeasible e), ts2)
         | (None, ts2) \<Rightarrow>
             (case findAndAnalyzeNotFixedPaths te ts2 of
                (Some e, ts3) \<Rightarrow> (Some (UncoveredInfeasible e), ts3)
              | (None, ts3) \<Rightarrow>
                  let (g4, sol4) = refreshInLoop env L (removePotentialCheckpointsBetweenFixedBBs te (ts_graph ts3, ts_sol ts3));
                      (placements, sol5) = resolveLoopBoundaryPlacements blocks sol4;
                      ts5 = ts3\<lparr>ts_graph := g4, ts_sol := sol5\<rparr>;
                      d = defaultDecision\<lparr>dec_loop := Some L, bodyPathCount := of_nat (length bodyPaths)\<rparr>
                  in if allocationsDiffer placements then (None, mismatchLoop env L blocks placements d ts5)
                     else budgetLoop env L lt maxTrip blocks bodyPaths placements d ts5))"

definition analyzeLoop :: "loop_env \<Rightarrow> loop_id \<Rightarrow> trace_state \<Rightarrow> loop_error option \<times> trace_state" where
  "analyzeLoop env L ts =
     (let (blocks, g1) = createLoopBoundaryBlocks env L (ts_graph ts);
          ts1 = ts\<lparr>ts_graph := g1\<rparr>;
          maxTrip = (case getMaxTripCount env L of Some tc \<Rightarrow> tc | None \<Rightarrow> ucast (- 1 :: u32));
          (err, ts2) =
            (case findLoadedLoopTraceForHeader (headerBlock blocks) (loadedLoopTraces env) of
               None \<Rightarrow> (Some NoBodyPaths, ts1)
             | Some lt \<Rightarrow>
                 if collectLoopBodyPaths lt = [] then (Some NoBodyPaths, ts1)
                 else analyzeLoopBody env L lt maxTrip blocks (collectLoopBodyPaths lt) ts1)
      in (err, ts2\<lparr>ts_sol := eraseSyntheticLoopBoundaryState blocks (ts_sol ts2)\<rparr>))"

fun analyzeSortedLoops :: "loop_env \<Rightarrow> LoadedLoopTrace list \<Rightarrow> trace_state \<Rightarrow> loop_error option \<times> trace_state" where
  "analyzeSortedLoops env [] ts = (None, ts)"
| "analyzeSortedLoops env (lt # lts) ts =
     (case lt_loop lt of
        None \<Rightarrow> analyzeSortedLoops env lts ts
      | Some L \<Rightarrow>
          (case analyzeLoop env L ts of
             (Some e, ts1) \<Rightarrow> (Some e, ts1)
           | (None, ts1) \<Rightarrow> analyzeSortedLoops env lts ts1))"

definition analyzeLoops :: "loop_env \<Rightarrow> trace_state \<Rightarrow> loop_error option \<times> trace_state" where
  "analyzeLoops env ts =
     (let (errors, g1) = collectLoopTraceCoverageErrors env (ts_graph ts); ts1 = ts\<lparr>ts_graph := g1\<rparr>
      in if errors \<noteq> [] then (Some (CoverageErrors errors), ts1)
         else analyzeSortedLoops env (sort_key (\<lambda>lt. - int (unat (lt_depth lt))) (loadedLoopTraces env)) ts1)"


section \<open>Boundary placements\<close>

definition placementIn :: "(value_ptr, Placement) omap \<Rightarrow> value_ptr \<Rightarrow> Placement" where
  "placementIn m v = omap_get NVM m v"

lemma boundaryPlacementsDiffer_iff:
  assumes "omap_wf h" and "omap_wf l"
  shows "boundaryPlacementsDiffer h l \<longleftrightarrow> (\<exists>v. placementIn h v \<noteq> placementIn l v)"
proof -
  have in_map: "(v, p) \<in> set m \<longleftrightarrow> map_of m v = Some p" if "omap_wf m" for m v and p :: Placement
    using that by (auto simp: omap_wf_map_of_eq dest: map_of_SomeD)
  have nvm: "p \<noteq> NVM \<longleftrightarrow> p = VM" for p by (cases p) auto
  have pointwise: "placementIn h v \<noteq> placementIn l v \<longleftrightarrow>
      (\<exists>p. map_of h v = Some p \<and> (case map_of l v of Some q \<Rightarrow> q \<noteq> p | None \<Rightarrow> p = VM)) \<or>
      (\<exists>p. map_of l v = Some p \<and> map_of h v = None \<and> p = VM)" for v
    by (cases "map_of h v"; cases "map_of l v") (auto simp: placementIn_def omap_get_def nvm eq_commute [of NVM])
  show ?thesis
    unfolding boundaryPlacementsDiffer_def list_ex_iff Bex_def split_paired_Ex
      in_map [OF assms(1)] in_map [OF assms(2)] prod.case pointwise ex_disj_distrib ..
qed

lemma map_of_addMissing: "map_of (addMissing t s) = map_of s ++ map_of t" if "distinct (map fst s)"
  using that
proof (induction s arbitrary: t)
  case (Cons p s)
  obtain gv pl where p: "p = (gv, pl)" by (cases p)
  have notin: "map_of s gv = None" using Cons.prems p by (auto simp: map_of_eq_None_iff)
  show ?case
    using Cons notin p by (auto simp: addMissing_def fun_eq_iff map_add_def split: option.splits)
qed (simp add: addMissing_def)

lemma omap_wf_addMissing: "omap_wf t \<Longrightarrow> omap_wf (addMissing t s)"
  unfolding addMissing_def by (rule foldl_invariant) auto


section \<open>The iteration budget\<close>

lemma iterationsFor_covers:
  assumes "0 < eloop" and "0 \<le> iterationsFor avail eloop"
  shows "(real_of_int (iterationsFor avail eloop) + 1) * eloop \<le> avail"
proof -
  have "real_of_int (iterationsFor avail eloop) + 1 \<le> avail / eloop" by (simp add: iterationsFor_def)
  with assms(1) show ?thesis by (simp add: pos_le_divide_eq)
qed

lemma unat_word_of_int_le: "unat (word_of_int (max raw 0) :: u32) \<le> nat (max raw 0)"
proof -
  have "unat (word_of_int (max raw 0) :: u32) = nat (max raw 0 mod 2 ^ 32)"
    by (simp add: unat_eq_nat_uint uint_word_of_int)
  also have "\<dots> \<le> nat (max raw 0)" by (rule nat_mono) (rule zmod_le_nonneg_dividend, simp)
  finally show ?thesis .
qed

text \<open>What every budget of the analysis satisfies: the iterations it allows and one more fit between
  the entry of the body and the reserve for leaving it.\<close>

definition budget_ok :: "loop_env \<Rightarrow> RegionAllocation \<Rightarrow> LoopIterationBudget \<Rightarrow> bool" where
  "budget_ok env alloc b \<longleftrightarrow>
     ELoop b = startEToLeave b - endEToLeave b + loopIncrementCostNvm (le_params env) \<and>
     numIterations b = word_of_int (max (rawNumIterations b) 0) \<and>
     (0 < ELoop b \<and> 0 \<le> rawNumIterations b \<and> endEToLeave b \<le> startEToLeave b \<longrightarrow>
        (rawNumIterations b + 1) * ELoop b \<le> computeLoopEntryEnergyLeft alloc (le_state env) (le_params env) - endEToLeave b)"

definition conv_ok :: "loop_env \<Rightarrow> conv_state \<Rightarrow> bool" where
  "conv_ok env cs \<longleftrightarrow> budget_ok env (cv_alloc cs) (cv_budget cs) \<and>
     bodyAllocation (cv_decision cs) = cv_alloc cs \<and> E_loop (cv_decision cs) = ELoop (cv_budget cs) \<and>
     \<not> loopFitsEntirely (cv_decision cs) \<and> \<not> mandatoryBackEdge (cv_decision cs)"

lemma readLoopIterationBudget_ok: "budget_ok env alloc (readLoopIterationBudget blocks alloc (le_state env) (le_params env) sol)"
  unfolding budget_ok_def readLoopIterationBudget_def Let_def using iterationsFor_covers by auto

lemma convergenceRound_ok:
  assumes "conv_ok env cs" and "convergenceRound env L lt maxTrip blocks refs cs = (go, cs')"
  shows "conv_ok env cs'"
proof -
  let ?st = "le_state env" and ?p = "le_params env"
  obtain newAlloc gain tr where c: "chooseFromAccesses (estimateLoopVariableAccess (ts_graph (cv_ts cs)) lt ?st
        (ucast (ucast (min (ucast (numIterations (cv_budget cs))) maxTrip) :: u32))) ?st ?p None None
        (map (allocAt (ts_sol (cv_ts cs))) refs) (ts_tracker (cv_ts cs)) = (newAlloc, gain, tr)"
    by (metis prod_cases3)
  obtain g sol where gs: "refreshInLoop env L (recomputeLoopBodyEnergyOnCFG env L blocks newAlloc (ts_graph (cv_ts cs), ts_sol (cv_ts cs))) = (g, sol)"
    by fastforce
  define b where "b = readLoopIterationBudget blocks newAlloc ?st ?p sol"
  have ok: "budget_ok env newAlloc b" unfolding b_def by (rule readLoopIterationBudget_ok)
  define avail where "avail = computeLoopEntryEnergyLeft newAlloc ?st ?p - startEToLeave b"
  have E: "ELoop b = startEToLeave b - endEToLeave b + loopIncrementCostNvm ?p" using ok by (simp add: budget_ok_def)
  have later: "(iterationsFor avail (ELoop b) + 1) * ELoop b \<le> computeLoopEntryEnergyLeft newAlloc ?st ?p - endEToLeave b"
    if "0 < ELoop b" "0 \<le> iterationsFor avail (ELoop b)" "endEToLeave b \<le> startEToLeave b"
    using iterationsFor_covers [OF that(1,2)] that(3) unfolding avail_def by simp
  define d where "d = (cv_decision cs)\<lparr>E_loop := ELoop b, bodyAllocation := newAlloc\<rparr>"
  define ts' where "ts' = \<lparr>ts_graph = g, ts_sol = sol, ts_tracker = tr\<rparr>"
  have "(go, cs') =
      (if ELoop b \<le> 0 then (False, \<lparr>cv_ts = ts', cv_budget = b, cv_alloc = newAlloc, cv_decision = d\<rparr>)
       else if avail \<le> 0 then (False, \<lparr>cv_ts = ts', cv_budget = b\<lparr>availableEnergy := avail\<rparr>, cv_alloc = newAlloc, cv_decision = d\<rparr>)
       else (True, \<lparr>cv_ts = ts', cv_budget = b\<lparr>availableEnergy := avail, rawNumIterations := iterationsFor avail (ELoop b),
                numIterations := word_of_int (max (iterationsFor avail (ELoop b)) 0)\<rparr>, cv_alloc = newAlloc, cv_decision = d\<rparr>))"
    unfolding assms(2) [symmetric] convergenceRound_def Let_def c prod.case gs b_def avail_def d_def ts'_def ..
  moreover have "\<not> loopFitsEntirely d" "\<not> mandatoryBackEdge d" "bodyAllocation d = newAlloc" "E_loop d = ELoop b"
    using assms(1) by (simp_all add: d_def conv_ok_def)
  ultimately show ?thesis using ok later by (auto simp: conv_ok_def budget_ok_def split: if_splits)
qed

lemma convergenceLoop_ok:
  "conv_ok env cs \<Longrightarrow> conv_ok env (convergenceLoop env L lt maxTrip blocks refs k iter prev cs)"
proof (induction k arbitrary: iter prev cs)
  case (Suc k)
  define cs1 where "cs1 = cs\<lparr>cv_decision := (cv_decision cs)\<lparr>convergenceIterations := iter + 1\<rparr>\<rparr>"
  have ok: "conv_ok env cs1" using Suc.prems by (simp add: conv_ok_def cs1_def)
  obtain go cs2 where r: "convergenceRound env L lt maxTrip blocks refs cs1 = (go, cs2)" by fastforce
  from convergenceRound_ok [OF ok r] ok Suc.IH r show ?case
    by (simp add: Let_def cs1_def [symmetric])
qed simp

lemma refineLoopBudget_ok: "conv_ok env cs \<Longrightarrow> conv_ok env (refineLoopBudgetWithConvergence env L lt maxTrip blocks cs)"
  unfolding refineLoopBudgetWithConvergence_def Let_def case_prod_unfold
  by (simp only: split: if_split, intro conjI impI convergenceLoop_ok) (simp_all add: conv_ok_def)

lemma splitBody_ok:
  assumes "conv_ok env cs" and "splitBody env L blocks bodyPaths cs = (None, cs')"
  shows "conv_ok env cs' \<and> 0 \<le> rawNumIterations (cv_budget cs')"
  using assms unfolding splitBody_def Let_def case_prod_unfold
  by (auto simp: conv_ok_def readLoopIterationBudget_ok split: if_splits)

lemma loopDecisions_frame [frame_simps, simp]:
  "loopDecisions (setMeta b m sol) = loopDecisions sol"
  "loopDecisions (setCheckpointState g e st origin sol) = loopDecisions sol"
  "loopDecisions (eraseSyntheticLoopBoundaryState blocks sol) = loopDecisions sol"
  by (simp_all add: setMeta_def setCheckpointState_def eraseSyntheticLoopBoundaryState_def addOrigin_def Let_def)

lemma loopDecisions_propagate [frame_simps, simp]:
  "loopDecisions (propagateEnergyToLeave env seed e sol) = loopDecisions sol"
  "loopDecisions (propagateEnergyLeft env seed e sol) = loopDecisions sol"
proof -
  have *: "loopDecisions sol' = loopDecisions sol" if "same_but_meta sol sol'" for sol sol'
    using that unfolding same_but_meta_def by (auto dest: arg_cong [where f = loopDecisions])
  show "loopDecisions (propagateEnergyToLeave env seed e sol) = loopDecisions sol"
    using to_leave_only_raises [of sol env seed e] * by (simp add: only_raises_def)
  show "loopDecisions (propagateEnergyLeft env seed e sol) = loopDecisions sol"
    using left_only_lowers [of sol env seed e] * by (simp add: only_lowers_def)
qed

lemma loopDecisions_adjust:
  "loopDecisions (snd (applyLoopIterationAdjustment env L mt d e gs)) = loopDecisions (snd gs)"
proof (cases "numIterationsPerCharge d \<le> 1")
  case False
  then show ?thesis unfolding applyLoopIterationAdjustment_def Let_def
    by (simp only: if_False) (rule foldl_invariant [where P = "\<lambda>x. loopDecisions (snd x) = loopDecisions (snd gs)"],
      auto split: prod.splits)
qed (simp add: applyLoopIterationAdjustment_def)

lemma loopDecisions_boundary:
  "loopDecisions (propagateMandatoryLoopBoundary env L blocks a g sol) = loopDecisions sol"
  by (simp add: propagateMandatoryLoopBoundary_def Let_def split: list.split)

definition fits_charge :: "loop_env \<Rightarrow> LoopCheckpointDecision \<Rightarrow> bool" where
  "fits_charge env d \<longleftrightarrow>
     u2r (numIterationsPerCharge d) * E_loop d
       \<le> computeLoopEntryEnergyLeft (bodyAllocation d) (le_state env) (le_params env) - finalEndEToLeave d"

definition decision_ok :: "loop_env \<Rightarrow> u64 \<Rightarrow> LoopCheckpointDecision \<Rightarrow> bool" where
  "decision_ok env maxTrip d \<longleftrightarrow>
     (0 < E_loop d \<and> finalEndEToLeave d \<le> finalStartEToLeave d \<longrightarrow>
        fits_charge env d \<or> mandatoryBackEdge d \<and> finalAvailableEnergy d \<le> 0) \<and>
     (loopFitsEntirely d \<longrightarrow> numIterationsPerCharge d = ucast maxTrip \<and> (ucast maxTrip :: u32) \<noteq> - 1)"

lemma applyLoopCheckpointPolicy_ok:
  assumes b: "budget_ok env (bodyAllocation d) b" and raw: "0 \<le> rawNumIterations b"
    and d: "E_loop d = ELoop b" "finalEndEToLeave d = endEToLeave b" "finalStartEToLeave d = startEToLeave b"
      "\<not> loopFitsEntirely d"
    and p: "applyLoopCheckpointPolicy env L (ucast maxTrip) blocks b g (sol, d) = (sol', d')"
  shows "decision_ok env maxTrip d' \<and> loopDecisions sol' = loopDecisions sol"
proof -
  let ?n = "numIterations b"
  have n: "real (unat ?n) \<le> rawNumIterations b"
  proof -
    have "numIterations b = word_of_int (max (rawNumIterations b) 0)" using b by (simp add: budget_ok_def)
    then have "unat ?n \<le> nat (rawNumIterations b)"
      using raw unat_word_of_int_le [of "rawNumIterations b"] by (simp only: max_absorb1)
    then have "real (unat ?n) \<le> real (nat (rawNumIterations b))" by (simp only: of_nat_le_iff)
    then show ?thesis using raw by (simp only: of_nat_nat)
  qed
  have step: "u2r k * ELoop b \<le> computeLoopEntryEnergyLeft (bodyAllocation d) (le_state env) (le_params env) - endEToLeave b"
    if "real (unat k) \<le> rawNumIterations b + 1" "0 < ELoop b" "endEToLeave b \<le> startEToLeave b" for k :: u32
  proof -
    have "u2r k * ELoop b \<le> (rawNumIterations b + 1) * ELoop b"
      by (rule mult_right_mono [OF that(1) less_imp_le [OF that(2)]])
    also have "\<dots> \<le> computeLoopEntryEnergyLeft (bodyAllocation d) (le_state env) (le_params env) - endEToLeave b"
      using b raw that(2,3) unfolding budget_ok_def by blast
    finally show ?thesis .
  qed
  have le: "unat k \<le> unat ?n" if "k < ?n" for k :: u32 using that by (simp add: word_less_nat_alt)
  have fe: "decision_ok env maxTrip d'" if big: "?n > ucast maxTrip"
  proof -
    have "d' = d\<lparr>numIterationsPerCharge := ucast maxTrip, loopFitsEntirely := True\<rparr>"
      using p big by (simp add: applyLoopCheckpointPolicy_def)
    moreover have "(ucast maxTrip :: u32) \<noteq> - 1" using big by (metis word_not_simps(3))
    moreover have "real (unat (ucast maxTrip :: u32)) \<le> rawNumIterations b + 1" using le [OF big] n by linarith
    ultimately show ?thesis using d step by (simp add: decision_ok_def fits_charge_def)
  qed
  have "decision_ok env maxTrip d'" if "\<not> ?n > ucast maxTrip" "?n < 3"
  proof -
    have "d' = d\<lparr>mandatoryBackEdge := True, numIterationsPerCharge := 1\<rparr>"
      using p that by (simp add: applyLoopCheckpointPolicy_def)
    with d raw step [of 1] show ?thesis by (simp add: decision_ok_def fits_charge_def)
  qed
  moreover have "decision_ok env maxTrip d'" if "\<not> ?n > ucast maxTrip" "\<not> ?n < 3"
  proof -
    have "d' = d\<lparr>numIterationsPerCharge := ?n\<rparr>" using p that by (simp add: applyLoopCheckpointPolicy_def)
    with d n step [of ?n] show ?thesis by (simp add: decision_ok_def fits_charge_def)
  qed
  moreover have "loopDecisions sol' = loopDecisions sol"
    using p by (auto simp: applyLoopCheckpointPolicy_def Let_def enableCheckpoint_def disableCheckpoint_def setLoopLatchCheckpoint_def split: if_splits)
  ultimately show ?thesis using fe by blast
qed

lemma finishLoop_ok:
  assumes "conv_ok env cs" and "0 \<le> rawNumIterations (cv_budget cs)"
  shows "\<exists>d. loopDecisions (ts_sol (finishLoop env L maxTrip blocks cs)) =
            omap_put (headerBlock blocks) d (loopDecisions (ts_sol (cv_ts cs))) \<and> decision_ok env maxTrip d"
proof -
  let ?b = "cv_budget cs"
  define d0 where "d0 = (cv_decision cs)\<lparr>finalStartEToLeave := startEToLeave ?b, finalEndEToLeave := endEToLeave ?b,
                 finalAvailableEnergy := availableEnergy ?b, finalRawNumIterations := rawNumIterations ?b\<rparr>"
  obtain sol1 d where p: "applyLoopCheckpointPolicy env L (ucast maxTrip) blocks ?b (ts_graph (cv_ts cs)) (ts_sol (cv_ts cs), d0) = (sol1, d)"
    by fastforce
  have "decision_ok env maxTrip d \<and> loopDecisions sol1 = loopDecisions (ts_sol (cv_ts cs))"
    by (rule applyLoopCheckpointPolicy_ok [OF _ assms(2) _ _ _ _ p]) (use assms(1) in \<open>simp_all add: conv_ok_def d0_def\<close>)
  moreover have "loopDecisions (ts_sol (finishLoop env L maxTrip blocks cs)) = omap_put (headerBlock blocks) d (loopDecisions sol1)"
    by (simp add: finishLoop_def Let_def d0_def [symmetric] p case_prod_unfold loopDecisions_adjust recordDecision_def)
  ultimately show ?thesis by auto
qed

lemma budgetLoop_ok:
  assumes "budgetLoop env L lt maxTrip blocks bodyPaths pl d0 ts = (None, ts')"
    and "\<not> loopFitsEntirely d0" and "\<not> mandatoryBackEdge d0"
  shows "\<exists>d. map_of (loopDecisions (ts_sol ts')) (headerBlock blocks) = Some d \<and> decision_ok env maxTrip d"
proof -
  define alloc where "alloc = buildBoundaryAllocation (le_state env) (headerAlloc pl)"
  define sol1 where "sol1 = copyLoopBoundaryEnergyToSyntheticBlocks blocks (ts_sol ts)"
  define b where "b = readLoopIterationBudget blocks alloc (le_state env) (le_params env) sol1"
  define d1 where "d1 = d0\<lparr>initialStartEToLeave := startEToLeave b, initialEndEToLeave := endEToLeave b,
                 initialELoop := ELoop b, E_loop := ELoop b, bodyAllocation := alloc\<rparr>"
  define d2 where "d2 = d1\<lparr>initialAvailableEnergy := availableEnergy b, initialRawNumIterations := rawNumIterations b\<rparr>"
  define cs where "cs = refineLoopBudgetWithConvergence env L lt maxTrip blocks
                      \<lparr>cv_ts = ts\<lparr>ts_sol := sol1\<rparr>, cv_budget = b, cv_alloc = alloc, cv_decision = d2\<rparr>"
  have ok: "conv_ok env cs" unfolding cs_def
    by (rule refineLoopBudget_ok) (use assms(2,3) readLoopIterationBudget_ok in \<open>auto simp: conv_ok_def d1_def d2_def b_def\<close>)
  note unf = budgetLoop_def Let_def alloc_def [symmetric] sol1_def [symmetric] b_def [symmetric] d1_def [symmetric]
    d2_def [symmetric] cs_def [symmetric]
  consider "ELoop b \<le> 0" | "0 < ELoop b" "availableEnergy b \<le> 0" | "0 < ELoop b" "0 < availableEnergy b" by linarith
  then show ?thesis
  proof cases
    case 1
    with assms show ?thesis by (auto simp: unf recordDecision_def decision_ok_def) (simp_all add: d1_def)
  next
    case 2
    with assms show ?thesis
      by (auto simp: unf recordDecision_def decision_ok_def enableBackEdge_def enableCheckpoint_def) (simp_all add: d1_def)
  next
    case 3
    then obtain cs' where s: "splitBody env L blocks bodyPaths cs = (None, cs')" "ts' = finishLoop env L maxTrip blocks cs'"
      using assms(1) by (auto simp: unf split: prod.splits option.splits)
    from splitBody_ok [OF ok s(1)] finishLoop_ok [of env cs' L maxTrip blocks] show ?thesis unfolding s(2) by auto
  qed
qed

lemma mismatchLoop_ok:
  "\<exists>d. map_of (loopDecisions (ts_sol (mismatchLoop env L blocks pl d0 ts))) (headerBlock blocks) = Some d \<and>
     (\<not> loopFitsEntirely d0 \<longrightarrow> decision_ok env maxTrip d)"
  by (simp add: mismatchLoop_def Let_def enableBackEdge_def enableCheckpoint_def loopDecisions_boundary recordDecision_def decision_ok_def)

definition tripBound :: "loop_env \<Rightarrow> loop_id \<Rightarrow> u64" where
  "tripBound env L = (case getMaxTripCount env L of Some tc \<Rightarrow> tc | None \<Rightarrow> ucast (- 1 :: u32))"

lemma ucast_ucast_u32: "(ucast (ucast (w :: u32) :: u64) :: u32) = w"
  by (rule bit_word_eqI) (simp add: bit_ucast_iff)

lemma analyzeLoop_decision:
  assumes "analyzeLoop env L ts = (None, ts')" and "createLoopBoundaryBlocks env L (ts_graph ts) = (blocks, g)"
  shows "\<exists>d. map_of (loopDecisions (ts_sol ts')) (headerBlock blocks) = Some d \<and> decision_ok env (tripBound env L) d"
proof -
  obtain lt ts2 where body: "analyzeLoopBody env L lt (tripBound env L) blocks (collectLoopBodyPaths lt) (ts\<lparr>ts_graph := g\<rparr>) = (None, ts2)"
      and ts': "ts' = ts2\<lparr>ts_sol := eraseSyntheticLoopBoundaryState blocks (ts_sol ts2)\<rparr>"
    using assms unfolding analyzeLoop_def Let_def tripBound_def
    by (auto split: option.splits if_splits prod.splits)
  have "\<exists>d. map_of (loopDecisions (ts_sol ts2)) (headerBlock blocks) = Some d \<and> decision_ok env (tripBound env L) d"
    using body unfolding analyzeLoopBody_def Let_def
    by (auto split: prod.splits option.splits if_splits intro: budgetLoop_ok simp: defaultDecision_def
        dest!: sym [of "mismatchLoop _ _ _ _ _ _"]) (use mismatchLoop_ok in fastforce)+
  then show ?thesis by (simp add: ts')
qed


section \<open>Properties\<close>

text \<open>The test that decides whether header and latch of a loop agree is the comparison of their
  placements where a variable without an entry counts as placed in NVM; when they agree, the two
  merged maps are the same map.\<close>

theorem resolveLoopBoundaryPlacements_agree:
  assumes "omap_wf (placementsOf sol (headerBlock blocks))" and "omap_wf (placementsOf sol (latchBlock blocks))"
    and "latchBlock blocks \<noteq> nullptr"
    and "resolveLoopBoundaryPlacements blocks sol = (pl, sol')"
  shows "(allocationsDiffer pl \<longleftrightarrow>
            (\<exists>v. placementIn (placementsOf sol (headerBlock blocks)) v \<noteq> placementIn (placementsOf sol (latchBlock blocks)) v)) \<and>
         (allocationsDiffer pl \<and> sol' = sol \<or>
          map_of (placementsOf sol' (headerBlock blocks)) = map_of (placementsOf sol' (latchBlock blocks)) \<and>
          placementIn (placementsOf sol' (headerBlock blocks)) = placementIn (placementsOf sol (headerBlock blocks)))"
proof (cases "boundaryPlacementsDiffer (placementsOf sol (headerBlock blocks)) (placementsOf sol (latchBlock blocks))")
  case True
  with assms(3,4) have "allocationsDiffer pl" "sol' = sol"
    by (auto simp: resolveLoopBoundaryPlacements_def)
  with True show ?thesis by (simp add: boundaryPlacementsDiffer_iff [OF assms(1,2)])
next
  case False
  let ?h = "placementsOf sol (headerBlock blocks)" and ?l = "placementsOf sol (latchBlock blocks)"
  define h' where "h' = addMissing ?h ?l"
  define l' where "l' = addMissing ?l h'"
  have wf: "omap_wf h'" unfolding h'_def by (rule omap_wf_addMissing [OF assms(1)])
  have same: "placementIn ?h v = placementIn ?l v" for v
    using False boundaryPlacementsDiffer_iff [OF assms(1,2)] by blast
  have h: "map_of h' = map_of ?l ++ map_of ?h"
    unfolding h'_def by (rule map_of_addMissing [OF omap_wf_distinct [OF assms(2)]])
  have l: "map_of l' = map_of h' ++ map_of ?l"
    unfolding l'_def by (rule map_of_addMissing [OF omap_wf_distinct [OF wf]])
  have eq: "map_of l' = map_of h'"
  proof
    fix v show "map_of l' v = map_of h' v"
      unfolding l h using same [of v] by (auto simp: map_add_def placementIn_def omap_get_def split: option.splits)
  qed
  have keep: "placementIn h' = placementIn ?h"
  proof
    fix v show "placementIn h' v = placementIn ?h v"
      using same [of v] by (auto simp: h map_add_def placementIn_def omap_get_def split: option.splits)
  qed
  have pl: "pl = \<lparr>headerAlloc = h', latchAlloc = l', allocationsDiffer = False\<rparr>"
      and ps: "placementsOf sol' (headerBlock blocks) = (if headerBlock blocks = latchBlock blocks then l' else h')"
        "placementsOf sol' (latchBlock blocks) = l'"
    using assms(3,4) False
    by (auto simp: resolveLoopBoundaryPlacements_def mergeBoundaryPlacements_def Let_def h'_def l'_def placementsOf_def)
  have "placementIn l' = placementIn ?h"
    unfolding keep [symmetric] placementIn_def omap_get_def eq ..
  with eq keep show ?thesis unfolding pl ps using same by auto
qed

definition sample_placements :: SchematicSolution where
  "sample_placements = emptySolution\<lparr>decidedPlacements := [(1, [(7, VM)]), (2, [(7, VM), (8, NVM)])]\<rparr>"

theorem resolveLoopBoundaryPlacements_agree_witness:
  "\<exists>pl sol'. resolveLoopBoundaryPlacements
       \<lparr>lb_header = 1, lb_latch = 2, headerBlock = 1, latchBlock = 2, startSynth = 3, endSynth = 4\<rparr> sample_placements = (pl, sol') \<and>
     \<not> allocationsDiffer pl \<and> map_of (placementsOf sol' 1) = map_of (placementsOf sol' 2)"
proof -
  let ?b = "\<lparr>lb_header = 1, lb_latch = 2, headerBlock = 1, latchBlock = 2, startSynth = 3, endSynth = 4\<rparr>"
  obtain pl sol' where r: "resolveLoopBoundaryPlacements ?b sample_placements = (pl, sol')" by fastforce
  have "\<not> allocationsDiffer pl"
    using r by (auto simp: resolveLoopBoundaryPlacements_def boundaryPlacementsDiffer_def mergeBoundaryPlacements_def addMissing_def
        sample_placements_def placementsOf_def omap_get_def Let_def)
  with resolveLoopBoundaryPlacements_agree [OF _ _ _ r] r show ?thesis
    by (auto simp: sample_placements_def placementsOf_def omap_get_def omap_wf_def)
qed


definition sample_LI :: loop_info where
  "sample_LI = \<lparr>getLoopFor = (\<lambda>b. if b = 1 then Some 1 else None), getHeader = (\<lambda>_. 1), getLoopLatch = (\<lambda>_. 1), getLoopBlocks = (\<lambda>_. [1])\<rparr>"

definition sample_loop_env :: loop_env where
  "sample_loop_env = \<lparr>le_LI = sample_LI, le_cfg = \<lparr>cfg_blocks = [1], cfg_blockInfo = [(1, \<lparr>bi_name = ''a'', energyCost = 10\<rparr>)],
     cfg_edges = [], cfg_entryBlock = 1, cfg_exitBlocks = []\<rparr>, le_state = sample_state0, le_params = sample_params\<lparr>capacity := 150\<rparr>,
     le_bbName = (\<lambda>_. ''a''), loadedLoopTraces = [\<lparr>lt_loop = Some 1, lt_header = 1, lt_members = [1], lt_latch = 1, lt_depth = 1,
       iterationPaths = [\<lparr>ep_blocks = [1], ep_count = 3\<rparr>]\<rparr>],
     getMarkerTripCount = (\<lambda>_. None), getSmallConstantMaxTripCount = (\<lambda>_. 0), parentLoops = (\<lambda>_. []), loopsInPreorder = [1],
     containsLoop = (\<lambda>_ _. False)\<rparr>"

definition sample_loop_ts :: trace_state where
  "sample_loop_ts = \<lparr>ts_graph = \<lparr>graphBlocks = [(1, sample_block 1 [] [])], realBlocks = [(1, 1)], syntheticBlocks = [], graphNext = 2\<rparr>,
     ts_sol = emptySolution\<lparr>blockMeta := [(1, defaultMetadata\<lparr>analyzed := True, E_left := 100, E_to_leave := 20\<rparr>)]\<rparr>, ts_tracker = None\<rparr>"


lemma analyzeTrace_settled: "list_all (isAnalyzed (ts_sol ts)) p \<Longrightarrow> analyzeTrace te p ts = (None, ts)"
  by (simp add: analyzeTrace_def)

lemma energySnapshotsDiffer_refl: "\<not> energySnapshotsDiffer s s"
  by (auto simp: energySnapshotsDiffer_def list_ex_iff snapshot_eps_def in_set_zip)

lemma refreshInLoop_no_edges: "cfg_edges (le_cfg env) = [] \<Longrightarrow> refreshInLoop env L gs = gs"
  by (simp add: refreshInLoop_def refreshDisabledCheckpointEnergy_def traceEnv_def energySnapshotsDiffer_refl Let_def)

definition sample_loop_blocks :: LoopBoundaryBlocks where
  "sample_loop_blocks = \<lparr>lb_header = 1, lb_latch = 1, headerBlock = 1, latchBlock = 1, startSynth = 2, endSynth = 3\<rparr>"

definition sample_loop_graph :: SchematicGraph where
  "sample_loop_graph = snd (createLoopBoundaryBlocks sample_loop_env 1 (ts_graph sample_loop_ts))"

lemma sample_loop_created: "createLoopBoundaryBlocks sample_loop_env 1 (ts_graph sample_loop_ts) = (sample_loop_blocks, sample_loop_graph)"
  unfolding sample_loop_graph_def
  by (simp add: createLoopBoundaryBlocks_def sample_loop_env_def sample_loop_ts_def sample_LI_def getOrCreate_def createSynthetic_def sample_loop_blocks_def)

definition sample_loop_graph1 :: SchematicGraph where
  "sample_loop_graph1 = addTraceEdges [2, 1, 3] sample_loop_graph"

lemma sample_loop_graph_facts:
  "map_of (realBlocks sample_loop_graph1) 1 = Some 1" "successors sample_loop_graph1 2 = [1]" "getLLVMBlock sample_loop_graph1 1 = 1"
  "successors sample_loop_graph1 1 = [3]"
  by (simp_all add: sample_loop_graph1_def sample_loop_graph_def createLoopBoundaryBlocks_def sample_loop_env_def sample_loop_ts_def
     sample_LI_def getOrCreate_def createSynthetic_def addEdge_def updateBlock_def blockAt_def omap_get_def sample_block_def
     addSuccessor_def addPredecessor_def successors_def getLLVMBlock_def)

definition sample_loop_sol :: SchematicSolution where
  "sample_loop_sol = initializeSyntheticLoopBoundaryState (le_state sample_loop_env) (le_params sample_loop_env) sample_loop_blocks (ts_sol sample_loop_ts)"

lemma sample_loop_meta:
  "isAnalyzed sample_loop_sol 1" "isAnalyzed sample_loop_sol 2" "isAnalyzed sample_loop_sol 3"
  "E_to_leave (metaOf sample_loop_sol 1) = 20" "E_to_leave (metaOf sample_loop_sol 3) = 11" "placementsOf sample_loop_sol 1 = []"
  "checkpointStates sample_loop_sol = []"
  by (simp_all add: sample_loop_sol_def initializeSyntheticLoopBoundaryState_def sample_loop_env_def sample_loop_blocks_def sample_loop_ts_def
     setMeta_def metaOf_def omap_get_def emptySolution_def defaultMetadata_def isAnalyzed_def computeLoopExitEnergyToLeave_def
     emptyAllocation_def sample_params_def placementsOf_def)

lemma sample_loop_body:
  "\<exists>ts'. analyzeLoopBody sample_loop_env 1 lt maxTrip sample_loop_blocks [[1]] (sample_loop_ts\<lparr>ts_graph := sample_loop_graph\<rparr>) = (None, ts')"
proof -
  let ?env = sample_loop_env and ?bl = sample_loop_blocks
  note facts = sample_loop_graph_facts [unfolded One_nat_def] sample_loop_meta [unfolded One_nat_def]
  define ts1 where "ts1 = sample_loop_ts\<lparr>ts_graph := sample_loop_graph1, ts_sol := sample_loop_sol\<rparr>"
  have ts1: "ts_sol ts1 = sample_loop_sol" "ts_graph ts1 = sample_loop_graph1" by (simp_all add: ts1_def)
  have env: "cfg_edges (le_cfg ?env) = []" "cfg_blocks (le_cfg ?env) = [1]" "getLoopBlocks (le_LI ?env) (Suc 0) = [1]"
    "le_params ?env = sample_params\<lparr>capacity := 150\<rparr>" "le_state ?env = sample_state0"
    by (simp_all add: sample_loop_env_def sample_LI_def)
  have bl: "startSynth ?bl = 2" "endSynth ?bl = 3" "headerBlock ?bl = 1" "latchBlock ?bl = 1"
    by (simp_all add: sample_loop_blocks_def)
  have g1: "addTraceEdges [2, Suc 0, 3] sample_loop_graph = sample_loop_graph1" by (simp add: sample_loop_graph1_def)
  have ts1_eq: "sample_loop_ts\<lparr>ts_sol := sample_loop_sol, ts_graph := sample_loop_graph1\<rparr> = ts1" by (simp add: ts1_def)
  have paths: "analyzeLoopBodyPaths ?env 1 ?bl [[1]] (sample_loop_ts\<lparr>ts_graph := sample_loop_graph, ts_sol := sample_loop_sol\<rparr>) = (None, ts1)"
    using analyzeTrace_settled [of ts1 "[2, 1, 3]"] facts bl
    by (simp add: ts1 g1 ts1_eq Let_def del: addTraceEdges.simps)
  have cover: "findAndAnalyzeNotFixedPaths (traceEnv ?env (Some 1)) ts1 = (None, ts1)"
    by (simp add: findAndAnalyzeNotFixedPaths_def traceEnv_def env loopContains_def getOrCreate_def ts1 ts1_def facts Let_def)
  obtain sol5 where res: "resolveLoopBoundaryPlacements ?bl sample_loop_sol = (\<lparr>headerAlloc = [], latchAlloc = [], allocationsDiffer = False\<rparr>, sol5)"
      and sol5: "metaOf sol5 = metaOf sample_loop_sol" "checkpointStates sol5 = []"
    by (simp add: resolveLoopBoundaryPlacements_def bl facts boundaryPlacementsDiffer_def mergeBoundaryPlacements_def addMissing_def
        metaOf_def fun_eq_iff)
  define ts5 where "ts5 = ts1\<lparr>ts_sol := sol5\<rparr>"
  define sol6 where "sol6 = copyLoopBoundaryEnergyToSyntheticBlocks ?bl sol5"
  define b where "b = readLoopIterationBudget ?bl emptyAllocation (le_state ?env) (le_params ?env) sol6"
  have meta6: "E_to_leave (metaOf sol6 2) = 20" "E_to_leave (metaOf sol6 3) = 11" "checkpointStates sol6 = []"
    by (simp_all add: sol6_def copyLoopBoundaryEnergyToSyntheticBlocks_def bl sol5 facts Let_def)
      (simp_all add: setMeta_def sol5)
  have b: "ELoop b = 15" "availableEnergy b = 131" "rawNumIterations b = 7"
    by (simp_all add: b_def readLoopIterationBudget_def bl meta6 env computeLoopEntryEnergyLeft_def emptyAllocation_def sample_params_def
        iterationsFor_def Let_def floor_eq_iff)
  have no: "\<not> fst (hasOnlyDisabledCheckpointsInLoop ?env 1 ?bl sample_loop_graph1 sol6)"
    by (simp add: hasOnlyDisabledCheckpointsInLoop_def env bl facts isDisabledCheckpoint_def getCheckpointState_def meta6
       omap_get_def loopContains_def)
  define cs where "cs d = refineLoopBudgetWithConvergence ?env (Suc 0) lt maxTrip ?bl
        \<lparr>cv_ts = ts5\<lparr>ts_sol := sol6\<rparr>, cv_budget = b, cv_alloc = emptyAllocation, cv_decision = d\<rparr>" for d
  have "cv_budget (cs d) = b" for d
    using no by (simp add: cs_def refineLoopBudgetWithConvergence_def case_prod_unfold Let_def ts5_def ts1)
  then have split: "splitBody ?env 1 ?bl [[1]] (cs d) = (None, cs d)" for d by (simp add: splitBody_def b)
  have "\<exists>ts'. budgetLoop ?env 1 lt maxTrip ?bl [[1]] \<lparr>headerAlloc = [], latchAlloc = [], allocationsDiffer = False\<rparr> d ts5 = (None, ts')" for d
  proof -
    have "buildBoundaryAllocation (le_state ?env) [] = emptyAllocation" by (simp add: buildBoundaryAllocation_def)
    moreover have "copyLoopBoundaryEnergyToSyntheticBlocks ?bl (ts_sol ts5) = sol6" by (simp add: sol6_def ts5_def)
    ultimately show ?thesis
      using split by (simp add: budgetLoop_def Let_def b_def [symmetric] b cs_def [symmetric])
  qed
  moreover have "refreshInLoop ?env 1 (removePotentialCheckpointsBetweenFixedBBs (traceEnv ?env (Some 1)) gs) = gs" for gs
    by (simp add: refreshInLoop_no_edges env removePotentialCheckpointsBetweenFixedBBs_def traceEnv_def)
  ultimately show ?thesis
    using paths cover res
    by (simp add: analyzeLoopBody_def Let_def sample_loop_sol_def [symmetric] ts1 ts5_def [symmetric])
       (simp add: ts1_def ts5_def)?
qed

lemma sample_analyzeLoop: "\<exists>ts'. analyzeLoop sample_loop_env 1 sample_loop_ts = (None, ts')"
proof -
  obtain lt where lt: "findLoadedLoopTraceForHeader (headerBlock sample_loop_blocks) (loadedLoopTraces sample_loop_env) = Some lt"
      and paths: "collectLoopBodyPaths lt = [[1]]"
    by (simp add: findLoadedLoopTraceForHeader_def sample_loop_env_def sample_loop_blocks_def collectLoopBodyPaths_def)
  show ?thesis
    unfolding analyzeLoop_def sample_loop_created Let_def prod.case lt option.case paths
    using sample_loop_body [of lt "case getMaxTripCount sample_loop_env 1 of None \<Rightarrow> ucast (- 1 :: u32) | Some tc \<Rightarrow> tc"]
    by (auto split: prod.split)
qed


end
