(* ===== verification/TraceCoverage.thy ===== *)
theory TraceCoverage
  imports LoopAnalyzer
begin

text \<open>
  The loader and the loop analysis together. Before it analyses anything, the loop analysis checks that the
  loaded traces explain every block of every loop (\<open>collectLoopTraceCoverageErrors\<close> in
  \<open>schematic/LoopAnalyzer.cpp\<close>). Shown: on the traces the loader returns the check finds nothing to report
  and leaves the block graph as it is.
\<close>

text \<open>The two components look at the same loops; an inner block of a loop belongs to a loop inside it.\<close>

definition same_loops :: "loop_forest \<Rightarrow> loop_env \<Rightarrow> bool" where
  "same_loops E env \<longleftrightarrow>
     le_LI env = lf_LI E \<and> le_bbName env = lf_bbName E \<and> loopsInPreorder env = lf_preorder E
     \<and> (\<forall>L \<in> set (lf_preorder E). \<forall>b \<in> set (getLoopBlocks (lf_LI E) L). getLoopFor (lf_LI E) b \<noteq> Some L \<longrightarrow>
           (\<exists>C \<in> set (lf_preorder E). C \<noteq> L \<and> containsLoop env L C \<and> b \<in> set (getLoopBlocks (lf_LI E) C)))"

lemma node_is_member:
  assumes "trace_frame E g L tr" "b \<in> set (getLoopBlocks (lf_LI E) L)" "map_of (realBlocks g) b = Some m"
  shows "m \<in> set (lt_members tr)"
proof -
  have l2: "list_all2 (\<lambda>BB b. map_of (realBlocks g) BB = Some b) (getLoopBlocks (lf_LI E) L) (lt_members tr)"
    using assms(1) by (simp add: trace_frame_def)
  from assms(2) obtain i where i: "i < length (getLoopBlocks (lf_LI E) L)" "getLoopBlocks (lf_LI E) L ! i = b"
    by (auto simp: in_set_conv_nth)
  from list_all2_nthD [OF l2 i(1)] i(2) assms(3) have "lt_members tr ! i = m" by simp
  with i(1) list_all2_lengthD [OF l2] show ?thesis by auto
qed

lemma no_unexplained_members:
  assumes same: "same_loops E env" and ok: "graph_ok g" and hdr: "header_ok E L" and L: "L \<in> set (lf_preorder E)" and tr: "loop_complete E g L tr"
    and all: "\<forall>C \<in> set (lf_preorder E). \<exists>c \<in> set (loadedLoopTraces env). loop_complete E g C c"
  shows "collectUnexplainedUncoveredLoopMembers env tr = []"
proof -
  have fr: "trace_frame E g L tr" and cov: "coversAllDirectMembers E g tr" and lt: "lt_loop tr = Some L"
    using tr by (auto simp: loop_complete_def trace_frame_def)
  have "m \<in> set (concat (map ep_blocks (iterationPaths tr))) \<or> blockCoveredByNestedTracedLoop env tr m"
    if m: "m \<in> set (lt_members tr)" for m
  proof (cases "getLoopFor (lf_LI E) (getLLVMBlock g m) = Some L")
    case True
    note node = member_node [OF fr ok m]
    have "getLLVMBlock g m \<noteq> nullptr"
      using hdr node(3) unfolding header_ok_def by metis
    then have "isDirectMember E g (lt_loop tr) m" using True node(2) lt by (simp add: isDirectMember_def)
    then show ?thesis using cov m by (auto simp: coversAllDirectMembers_def list_all_iff coveredByPaths_def list_ex_iff)
  next
    case False
    note node = member_node [OF fr ok m]
    from same L node(3) False obtain C where C: "C \<in> set (lf_preorder E)" "C \<noteq> L" "containsLoop env L C"
      "getLLVMBlock g m \<in> set (getLoopBlocks (lf_LI E) C)" unfolding same_loops_def by blast
    from all C(1) obtain c where c: "c \<in> set (loadedLoopTraces env)" "trace_frame E g C c"
      by (auto simp: loop_complete_def)
    have "m \<in> set (lt_members c)" by (rule node_is_member [OF c(2) C(4) node(1)])
    moreover have "lt_loop c = Some C" using c(2) by (simp add: trace_frame_def)
    ultimately have "blockCoveredByNestedTracedLoop env tr m"
      using c(1) C(2,3) lt by (auto simp: blockCoveredByNestedTracedLoop_def list_ex_iff tracedLoopContainsBlock_def intro!: bexI [of _ c])
    then show ?thesis ..
  qed
  then show ?thesis unfolding collectUnexplainedUncoveredLoopMembers_def Let_def by (metis (mono_tags, lifting) filter_False)
qed

lemma no_untraced_loops:
  assumes same: "same_loops E env" and "set Ls \<subseteq> set (lf_preorder E)"
    and all: "\<forall>C \<in> set (lf_preorder E). \<exists>c \<in> set (loadedLoopTraces env). loop_complete E g C c"
  shows "untracedLoopErrors env Ls errs g = (errs, g)"
  using assms(2)
proof (induction Ls)
  case (Cons L Ls)
  then obtain c where c: "c \<in> set (loadedLoopTraces env)" "trace_frame E g L c" using all by (auto simp: loop_complete_def)
  from c(2) have "getOrCreate (le_bbName env) (getHeader (le_LI env) L) g = (lt_header c, g)"
    using same by (simp add: trace_frame_def getOrCreate_def same_loops_def)
  moreover have "findLoadedLoopTraceForHeader (lt_header c) (loadedLoopTraces env) \<noteq> None"
    using c(1) by (auto simp: findLoadedLoopTraceForHeader_def find_None_iff)
  ultimately show ?case using Cons by simp
qed simp

lemma loaded_traces_covered:
  assumes "forest_ok E" and "graph_ok g" and "loadTraces E names funcName doc g = Inr (lt, g')"
    and "same_loops E env" and "loadedLoopTraces env = loopTraces lt"
  shows "collectLoopTraceCoverageErrors env g' = ([], g')"
proof -
  from loadTraces_cases [OF assms(1,2), of doc funcName names] assms(3)
  have m: "mset (map lt_loop (loopTraces lt)) = mset (map Some (lf_preorder E))" and ok: "graph_ok g'"
    and c: "\<forall>tr \<in> set (loopTraces lt). \<exists>L \<in> set (lf_preorder E). loop_complete E g' L tr" by auto
  have all: "\<forall>C \<in> set (lf_preorder E). \<exists>t \<in> set (loadedLoopTraces env). loop_complete E g' C t"
  proof
    fix C assume "C \<in> set (lf_preorder E)"
    then have "Some C \<in> set (map lt_loop (loopTraces lt))" using mset_eq_setD [OF m] by simp
    then obtain t where t: "t \<in> set (loopTraces lt)" "lt_loop t = Some C" by auto
    with c obtain L where "loop_complete E g' L t" by blast
    moreover from this t(2) have "L = C" by (simp add: loop_complete_def trace_frame_def)
    ultimately show "\<exists>t \<in> set (loadedLoopTraces env). loop_complete E g' C t" using t(1) assms(5) by auto
  qed
  have pre: "loopsInPreorder env = lf_preorder E" using assms(4) by (simp add: same_loops_def)
  have none: "collectUnexplainedUncoveredLoopMembers env tr = []" if "tr \<in> set (loadedLoopTraces env)" for tr
    using that c no_unexplained_members [OF assms(4) ok _ _ _ all] assms(1,5) by (fastforce simp: forest_ok_def)
  have "collectLoopTraceCoverageErrors env g' = untracedLoopErrors env (lf_preorder E) [] g'"
    unfolding collectLoopTraceCoverageErrors_def Let_def pre using none by (simp add: map_replicate_const cong: map_cong)
  with no_untraced_loops [OF assms(4) subset_refl all] show ?thesis by simp
qed

text \<open>The traces the loader returns pass the coverage check of the loop analysis: it reports no error,
  neither an unexplained block nor a loop without a trace of its own, and does not touch the block graph.
  The hypotheses on the loops are those of the loader, and that both components are given the same loops.\<close>

theorem loaded_traces_pass_coverage:
  assumes "forest_ok E" and "graph_ok g" and "loadTraces E names funcName doc g = Inr (lt, g')"
    and "same_loops E env" and "loadedLoopTraces env = loopTraces lt"
  shows "collectLoopTraceCoverageErrors env g' = ([], g')"
  using assms by (rule loaded_traces_covered)

definition sample_coverage_env :: loop_env where
  "sample_coverage_env = sample_loop_env
     \<lparr>le_LI := lf_LI (sample_forest [3]), le_bbName := lf_bbName (sample_forest [3]), loopsInPreorder := [0],
      loadedLoopTraces := [\<lparr>lt_loop = Some 0, lt_header = 1, lt_members = [1, 2, 3], lt_latch = 3, lt_depth = 1,
        iterationPaths = [\<lparr>ep_blocks = [1, 3], ep_count = 5\<rparr>, \<lparr>ep_blocks = [1, 2, 3], ep_count = 1\<rparr>]\<rparr>]\<rparr>"

theorem loaded_traces_pass_coverage_witness:
  "collectLoopTraceCoverageErrors sample_coverage_env sample_loader_graph = ([], sample_loader_graph)"
proof (rule loaded_traces_pass_coverage [OF sample_forest_ok sample_loader_graph_ok sample_load])
  show "same_loops (sample_forest [3]) sample_coverage_env"
    by (simp add: same_loops_def sample_coverage_env_def sample_forest_def)
qed (simp add: sample_coverage_env_def)

end
