(* ===== verification/IRFunction.thy ===== *)
theory IRFunction
  imports Prelude
begin

text \<open>
  The view of LLVM functions that the analyses of the middle-end passes share. A function is its name
  and its blocks in order, each with its instructions and its successors; an instruction is a value with
  its kind, its operands and what the analyses ask of its type. What LLVM computes about pointers (alias
  analysis, underlying objects, stripped casts) is the record \<open>ir_env\<close>, an argument of the analyses.
\<close>

section \<open>Instructions, blocks and functions\<close>

record call_info =
  cbInlineAsm :: bool
  cbCallee :: "(string \<times> bool \<times> bool) option"
  cbDoesNotAccessMemory :: bool
  cbOnlyReadsMemory :: bool

record alloca_info =
  aiArraySize :: "u64 option"
  aiSized :: bool
  aiElemAllocSize :: u64
  aiElemStoreSize :: u64

text \<open>The constructors name what \<open>dyn_cast\<close> distinguishes: \<open>MemTransferInst\<close> and \<open>MemSetInst\<close> are the
  memory intrinsics with destination, source and constant length, if it is one.\<close>

datatype inst_kind =
    LoadInst value_ptr
  | StoreInst value_ptr u64
  | MemTransferInst value_ptr value_ptr "u64 option"
  | MemSetInst value_ptr "u64 option"
  | CallInst call_info
  | InvokeInst call_info
  | AllocaInst alloca_info
  | PHINode "(value_ptr \<times> bb_ptr) list"
  | GetElementPtrInst
  | BitCastInst
  | OtherInst bool

record ir_inst =
  inId :: value_ptr
  inKind :: inst_kind
  inOperands :: "value_ptr list"
  inVoid :: bool
  inSized :: bool
  inAllocSize :: u64

record ir_function =
  ifName :: string
  ifBlocks :: "(bb_ptr \<times> ir_inst list) list"
  ifSuccs :: "bb_ptr \<Rightarrow> bb_ptr list"

record global_info =
  gvName :: string
  gvDeclaration :: bool
  gvConstant :: bool
  gvSized :: bool
  gvAllocSize :: u64
  gvStoreSize :: u64
  gvPromotedAlloca :: bool
  gvAggregate :: bool

record ir_env =
  globalOf :: "value_ptr \<Rightarrow> global_info option"
  getUnderlyingObjects :: "value_ptr \<Rightarrow> value_ptr list"
  getUnderlyingObject :: "value_ptr \<Rightarrow> value_ptr"
  stripPointerCasts :: "value_ptr \<Rightarrow> value_ptr"
  isRefSet :: "ir_inst \<Rightarrow> value_ptr \<Rightarrow> bool"
  isModSet :: "ir_inst \<Rightarrow> value_ptr \<Rightarrow> bool"

definition irBlocks :: "ir_function \<Rightarrow> bb_ptr list" where
  "irBlocks F = map fst (ifBlocks F)"

definition instsOf :: "ir_function \<Rightarrow> bb_ptr \<Rightarrow> ir_inst list" where
  "instsOf F b = omap_get [] (ifBlocks F) b"

definition irInsts :: "ir_function \<Rightarrow> ir_inst list" where
  "irInsts F = concat (map snd (ifBlocks F))"

definition irEntry :: "ir_function \<Rightarrow> bb_ptr" where
  "irEntry F = hd (irBlocks F)"

text \<open>The instructions that use a value, with the block they are in.\<close>

definition usersOf :: "ir_function \<Rightarrow> value_ptr \<Rightarrow> (bb_ptr \<times> ir_inst) list" where
  "usersOf F v = filter (\<lambda>(b, i). v \<in> set (inOperands i)) (concat (map (\<lambda>(b, is). map (Pair b) is) (ifBlocks F)))"

definition instAt :: "ir_function \<Rightarrow> value_ptr \<Rightarrow> (bb_ptr \<times> ir_inst) option" where
  "instAt F v = find (\<lambda>(b, i). inId i = v) (concat (map (\<lambda>(b, is). map (Pair b) is) (ifBlocks F)))"

definition isPHINode :: "ir_inst \<Rightarrow> bool" where
  "isPHINode i = (case inKind i of PHINode _ \<Rightarrow> True | _ \<Rightarrow> False)"

definition isAlloca :: "ir_inst \<Rightarrow> bool" where
  "isAlloca i = (case inKind i of AllocaInst _ \<Rightarrow> True | _ \<Rightarrow> False)"

definition isAllocaValue :: "ir_function \<Rightarrow> value_ptr \<Rightarrow> bool" where
  "isAllocaValue F v = (case instAt F v of Some (b, i) \<Rightarrow> isAlloca i | None \<Rightarrow> False)"

text \<open>A path of blocks.\<close>

fun ir_path :: "ir_function \<Rightarrow> bb_ptr list \<Rightarrow> bool" where
  "ir_path F [] = False"
| "ir_path F [b] = (b \<in> set (irBlocks F))"
| "ir_path F (b # c # bs) = (b \<in> set (irBlocks F) \<and> c \<in> set (ifSuccs F b) \<and> ir_path F (c # bs))"

end
