(* ===== verification/Rounds.thy ===== *)
theory Rounds
  imports Prelude "HOL-Library.While_Combinator"
begin

text \<open>
  The iteration scheme of the data-flow analyses: rounds over a list of items that are repeated while
  the last round changed something (\<open>while (changed)\<close>). The locale \<open>block_rounds\<close> states what an analysis
  promises of one visit and gives termination and stability of the result; it is interpreted for the
  register liveness and the slot analysis of RockClimb and for the liveness analyses of the MILP pass.
\<close>

section \<open>Rounds that run until nothing changes\<close>

text \<open>Rounds are repeated while the last one changed something; the result would be \<open>None\<close> if that
  never ended.\<close>

definition untilStable :: "('s \<Rightarrow> bool \<times> 's) \<Rightarrow> 's \<Rightarrow> 's option" where
  "untilStable rnd s = map_option snd (while_option fst (\<lambda>p. rnd (snd p)) (True, s))"

lemma untilStable_step:
  "untilStable rnd s = (if fst (rnd s) then untilStable rnd (snd (rnd s)) else Some (snd (rnd s)))"
proof -
  have flag: "while_option fst (\<lambda>p. rnd (snd p)) (rnd s) = while_option fst (\<lambda>p. rnd (snd p)) (True, snd (rnd s))"
    if "fst (rnd s)" using that by (metis prod.collapse)
  show ?thesis
    unfolding untilStable_def
    by (subst while_option_unfold) (use flag in \<open>auto simp: while_option_unfold [of _ _ "rnd s"]\<close>)
qed

text \<open>The contract of a data-flow loop: a round visits a list of items, each visit keeps the invariant,
  raises the flag exactly when it changes the state, and a change lowers a rank.\<close>

locale block_rounds =
  fixes visit :: "bool \<times> 's \<Rightarrow> 'b \<Rightarrow> bool \<times> 's"
    and items :: "'b list"
    and inv :: "'s \<Rightarrow> bool"
    and rank :: "'s \<Rightarrow> nat"
  assumes visit_flag: "fst (visit (c, s) b) \<longleftrightarrow> c \<or> snd (visit (c, s) b) \<noteq> s"
    and visit_inv: "b \<in> set items \<Longrightarrow> inv s \<Longrightarrow> inv (snd (visit (c, s) b))"
    and visit_rank: "b \<in> set items \<Longrightarrow> inv s \<Longrightarrow> snd (visit (c, s) b) \<noteq> s
      \<Longrightarrow> rank (snd (visit (c, s) b)) < rank s"
begin

lemma visits:
  assumes "set bs \<subseteq> set items" and "inv s"
  shows "inv (snd (foldl visit (c, s) bs))
    \<and> (fst (foldl visit (c, s) bs) \<longrightarrow> c \<or> rank (snd (foldl visit (c, s) bs)) < rank s)
    \<and> rank (snd (foldl visit (c, s) bs)) \<le> rank s
    \<and> (\<not> fst (foldl visit (c, s) bs) \<longrightarrow> \<not> c \<and> (\<forall>b \<in> set bs. visit (False, s) b = (False, s))
        \<and> foldl visit (c, s) bs = (False, s))"
  using assms
proof (induction bs arbitrary: c s)
  case (Cons b bs)
  obtain c' s' where v: "visit (c, s) b = (c', s')" by fastforce
  have flag: "c' \<longleftrightarrow> c \<or> s' \<noteq> s" using visit_flag [of c s b] v by simp
  have inv': "inv s'" using visit_inv [of b s c] Cons.prems v by simp
  have rank': "s' \<noteq> s \<Longrightarrow> rank s' < rank s" using visit_rank [of b s c] Cons.prems v by simp
  note IH = Cons.IH [OF _ inv', of c'] 
  have sub: "set bs \<subseteq> set items" using Cons.prems by simp
  have unch: "visit (False, s) b = (False, s)" if "\<not> c'"
    using v flag that by simp
  show ?case
    using IH [OF sub] flag rank' v unch by (cases "s' = s") (auto simp: less_imp_le)
qed auto

lemma round_result:
  assumes "inv s"
  shows "\<exists>s'. untilStable (\<lambda>s. foldl visit (False, s) items) s = Some s' \<and> inv s'
    \<and> (\<forall>b \<in> set items. visit (False, s') b = (False, s'))"
  using assms
proof (induction "rank s" arbitrary: s rule: less_induct)
  case less
  define rnd where "rnd = (\<lambda>s. foldl visit (False, s) items)"
  note v = visits [of items s False, OF order_refl less.prems]
  show ?case
  proof (cases "fst (rnd s)")
    case True
    with v have "rank (snd (rnd s)) < rank s" "inv (snd (rnd s))" by (auto simp: rnd_def)
    from less.hyps [OF this] untilStable_step [of rnd s] True show ?thesis by (simp add: rnd_def)
  next
    case False
    with v less.prems untilStable_step [of rnd s] show ?thesis by (auto simp: rnd_def)
  qed
qed

end

end
