(* ===== verification/IRLiveness.thy ===== *)
theory IRLiveness
  imports IRFunction Rounds
begin

text \<open>
  Liveness of memory objects and SSA values for the MILP pass (\<open>milp/LivenessAnalysis.cpp\<close>). Globals and
  allocas are live where some path reads them before it overwrites them entirely; SSA values are live
  where some path reaches a use without passing their definition. The code scans every block and then
  iterates over the blocks in the order of the function until nothing changes; \<open>cfg.getBlocks()\<close> is that
  order.

  Shown: all three iterations end, and their results are exactly these path conditions.
\<close>

section \<open>Block summaries\<close>

record block_gv_info =
  loadBeforeMustStore :: bool
  hasMustStore :: bool

text \<open>A write that provably covers \<open>bytes\<close> bytes of the object: a store to the object itself, or a memory
  intrinsic of constant length.\<close>

definition mustStore :: "ir_env \<Rightarrow> value_ptr \<Rightarrow> u64 \<Rightarrow> ir_inst \<Rightarrow> bool" where
  "mustStore env v bytes i =
     (case inKind i of
        StoreInst ptr width \<Rightarrow> stripPointerCasts env ptr = v \<and> bytes \<le> width
      | MemTransferInst dest src (Some len) \<Rightarrow> stripPointerCasts env dest = v \<and> bytes \<le> len
      | MemSetInst dest (Some len) \<Rightarrow> stripPointerCasts env dest = v \<and> bytes \<le> len
      | _ \<Rightarrow> False)"

definition scanInst :: "(ir_inst \<Rightarrow> bool) \<Rightarrow> (ir_inst \<Rightarrow> bool) \<Rightarrow> block_gv_info \<Rightarrow> ir_inst \<Rightarrow> block_gv_info" where
  "scanInst reads kills info i =
     \<lparr>loadBeforeMustStore = loadBeforeMustStore info \<or> reads i \<and> \<not> hasMustStore info,
      hasMustStore = hasMustStore info \<or> kills i\<rparr>"

definition scanBlock :: "(ir_inst \<Rightarrow> bool) \<Rightarrow> (ir_inst \<Rightarrow> bool) \<Rightarrow> ir_inst list \<Rightarrow> block_gv_info" where
  "scanBlock reads kills is = foldl (scanInst reads kills) \<lparr>loadBeforeMustStore = False, hasMustStore = False\<rparr> is"

definition globalKills :: "ir_env \<Rightarrow> value_ptr \<Rightarrow> ir_inst \<Rightarrow> bool" where
  "globalKills env gv i = (case globalOf env gv of Some g \<Rightarrow> mustStore env gv (gvStoreSize g) i | None \<Rightarrow> False)"

definition isPromotedAtEntry :: "ir_function \<Rightarrow> ir_env \<Rightarrow> bb_ptr \<Rightarrow> value_ptr \<Rightarrow> bool" where
  "isPromotedAtEntry F env b gv \<longleftrightarrow>
     b = irEntry F \<and> ifName F = ''main'' \<and> (case globalOf env gv of Some g \<Rightarrow> gvPromotedAlloca g | None \<Rightarrow> False)"

definition globalInfo :: "ir_function \<Rightarrow> ir_env \<Rightarrow> value_ptr \<Rightarrow> bb_ptr \<Rightarrow> block_gv_info" where
  "globalInfo F env gv b =
     (if isPromotedAtEntry F env b gv then \<lparr>loadBeforeMustStore = False, hasMustStore = True\<rparr>
      else scanBlock (\<lambda>i. isRefSet env i gv) (globalKills env gv) (instsOf F b))"

text \<open>The number of bytes a write has to cover to overwrite an alloca; none when its size is unknown.\<close>

definition killBytes :: "alloca_info \<Rightarrow> u64 option" where
  "killBytes a =
     (case aiArraySize a of
        None \<Rightarrow> None
      | Some n \<Rightarrow> Some (if n = 1 then aiElemStoreSize a else aiElemAllocSize a * n))"

definition allocaKills :: "ir_function \<Rightarrow> ir_env \<Rightarrow> value_ptr \<Rightarrow> ir_inst \<Rightarrow> bool" where
  "allocaKills F env v i =
     (case instAt F v of
        Some (_, ai) \<Rightarrow>
          (case inKind ai of
             AllocaInst a \<Rightarrow> (case killBytes a of Some n \<Rightarrow> mustStore env v n i | None \<Rightarrow> False)
           | _ \<Rightarrow> False)
      | None \<Rightarrow> False)"

definition allocaInfo :: "ir_function \<Rightarrow> ir_env \<Rightarrow> value_ptr \<Rightarrow> bb_ptr \<Rightarrow> block_gv_info" where
  "allocaInfo F env v b = scanBlock (\<lambda>i. isRefSet env i v) (allocaKills F env v) (instsOf F b)"

section \<open>The iterations\<close>

type_synonym live_bits = "(bb_ptr \<Rightarrow> bool) \<times> (bb_ptr \<Rightarrow> bool)"

definition flowVisit ::
  "ir_function \<Rightarrow> (bb_ptr \<Rightarrow> block_gv_info) \<Rightarrow> bool \<times> live_bits \<Rightarrow> bb_ptr \<Rightarrow> bool \<times> live_bits" where
  "flowVisit F info s b =
     (let (changed, liveIn, liveOut) = s;
          newLiveOut = list_ex liveIn (ifSuccs F b);
          newLiveIn = (loadBeforeMustStore (info b) \<or> newLiveOut \<and> \<not> hasMustStore (info b))
      in if newLiveIn \<noteq> liveIn b \<or> newLiveOut \<noteq> liveOut b
         then (True, liveIn(b := newLiveIn), liveOut(b := newLiveOut)) else s)"

definition flowLiveIn :: "ir_function \<Rightarrow> (bb_ptr \<Rightarrow> block_gv_info) \<Rightarrow> (bb_ptr \<Rightarrow> bool) option" where
  "flowLiveIn F info =
     map_option fst (untilStable (\<lambda>s. foldl (flowVisit F info) (False, s) (irBlocks F)) (\<lambda>_. False, \<lambda>_. False))"

text \<open>The values of the list that are live at a block; \<open>None\<close> would be an iteration that does not end.\<close>

fun liveSets :: "(value_ptr \<Rightarrow> (bb_ptr \<Rightarrow> bool) option) \<Rightarrow> value_ptr list \<Rightarrow> (bb_ptr \<Rightarrow> value_ptr set) option" where
  "liveSets live [] = Some (\<lambda>_. {})"
| "liveSets live (v # vs) =
     (case live v of
        None \<Rightarrow> None
      | Some l \<Rightarrow> map_option (\<lambda>r b. if l b then insert v (r b) else r b) (liveSets live vs))"

definition computeEligibleLiveness ::
  "ir_function \<Rightarrow> ir_env \<Rightarrow> value_ptr list \<Rightarrow> (bb_ptr \<Rightarrow> value_ptr set) option" where
  "computeEligibleLiveness F env vmObjs = liveSets (\<lambda>gv. flowLiveIn F (globalInfo F env gv)) vmObjs"

definition computeIneligAllocaLiveness ::
  "ir_function \<Rightarrow> ir_env \<Rightarrow> value_ptr list \<Rightarrow> (bb_ptr \<Rightarrow> value_ptr set) option" where
  "computeIneligAllocaLiveness F env objs =
     liveSets (\<lambda>v. flowLiveIn F (allocaInfo F env v)) (filter (isAllocaValue F) objs)"

text \<open>A PHI uses its operand at the end of the incoming block.\<close>

definition phiUses :: "value_ptr \<Rightarrow> ir_inst \<Rightarrow> bb_ptr list" where
  "phiUses v i = (case inKind i of PHINode inc \<Rightarrow> map snd (filter (\<lambda>(x, b). x = v) inc) | _ \<Rightarrow> [])"

definition useBlocks :: "ir_function \<Rightarrow> value_ptr \<Rightarrow> bb_ptr \<Rightarrow> bb_ptr set" where
  "useBlocks F v defBlock =
     set (concat (map (\<lambda>(b, i). if isPHINode i then phiUses v i else if b \<noteq> defBlock then [b] else []) (usersOf F v)))"

definition ssaVisit :: "ir_function \<Rightarrow> bb_ptr set \<Rightarrow> bb_ptr \<Rightarrow> bool \<times> (bb_ptr \<Rightarrow> bool) \<Rightarrow> bb_ptr \<Rightarrow> bool \<times> (bb_ptr \<Rightarrow> bool)" where
  "ssaVisit F uses defBlock s b =
     (if b = defBlock then s
      else let newLiveIn = (b \<in> uses \<or> list_ex (snd s) (ifSuccs F b))
           in if newLiveIn \<noteq> snd s b then (True, (snd s)(b := newLiveIn)) else s)"

definition ssaLiveIn :: "ir_function \<Rightarrow> value_ptr \<Rightarrow> (bb_ptr \<Rightarrow> bool) option" where
  "ssaLiveIn F v =
     (case instAt F v of
        None \<Rightarrow> Some (\<lambda>_. False)
      | Some (defBlock, i) \<Rightarrow>
          (let uses = useBlocks F v defBlock
           in if uses = {} \<and> \<not> isPHINode i then Some (\<lambda>_. False)
              else map_option (\<lambda>l b. if b = defBlock then isPHINode i else l b)
                     (untilStable (\<lambda>s. foldl (ssaVisit F uses defBlock) (False, s) (irBlocks F)) (\<lambda>_. False))))"

definition computeIneligSSALiveness :: "ir_function \<Rightarrow> value_ptr list \<Rightarrow> (bb_ptr \<Rightarrow> value_ptr set) option" where
  "computeIneligSSALiveness F objs = liveSets (ssaLiveIn F) (filter (\<lambda>v. instAt F v \<noteq> None \<and> \<not> isAllocaValue F v) objs)"

section \<open>Reading before overwriting\<close>

definition reads_first :: "(ir_inst \<Rightarrow> bool) \<Rightarrow> (ir_inst \<Rightarrow> bool) \<Rightarrow> ir_inst list \<Rightarrow> bool" where
  "reads_first reads kills is \<longleftrightarrow> (\<exists>pre i post. is = pre @ i # post \<and> reads i \<and> (\<forall>x \<in> set pre. \<not> kills x))"

text \<open>The reference: some path of blocks that satisfy \<open>ok\<close> reads before it overwrites.\<close>

definition live_before :: "ir_function \<Rightarrow> (bb_ptr \<Rightarrow> bool) \<Rightarrow> (ir_inst \<Rightarrow> bool) \<Rightarrow> (ir_inst \<Rightarrow> bool) \<Rightarrow> bb_ptr \<Rightarrow> bool" where
  "live_before F ok reads kills b \<longleftrightarrow>
     (\<exists>p. ir_path F (b # p) \<and> list_all ok (b # p) \<and> reads_first reads kills (concat (map (instsOf F) (b # p))))"

lemma reads_first_Nil [simp]: "\<not> reads_first reads kills []"
  by (simp add: reads_first_def)

lemma reads_first_Cons [simp]:
  "reads_first reads kills (i # is) \<longleftrightarrow> reads i \<or> \<not> kills i \<and> reads_first reads kills is"
proof
  assume "reads_first reads kills (i # is)"
  then obtain pre x post where "i # is = pre @ x # post" "reads x" "\<forall>y \<in> set pre. \<not> kills y"
    by (auto simp: reads_first_def)
  then show "reads i \<or> \<not> kills i \<and> reads_first reads kills is"
    by (cases pre) (auto simp: reads_first_def)
next
  assume "reads i \<or> \<not> kills i \<and> reads_first reads kills is"
  then show "reads_first reads kills (i # is)"
  proof
    assume "reads i"
    then show ?thesis unfolding reads_first_def by (intro exI [of _ "[]"]) auto
  next
    assume "\<not> kills i \<and> reads_first reads kills is"
    then obtain pre x post where "is = pre @ x # post" "reads x" "\<forall>y \<in> set pre. \<not> kills y" "\<not> kills i"
      by (auto simp: reads_first_def)
    then show ?thesis unfolding reads_first_def by (intro exI [of _ "i # pre"]) auto
  qed
qed

lemma reads_first_append:
  "reads_first reads kills (is @ js) \<longleftrightarrow>
     reads_first reads kills is \<or> (\<forall>x \<in> set is. \<not> kills x) \<and> reads_first reads kills js"
  by (induction "is") auto

lemma scanBlock_fold:
  "loadBeforeMustStore (foldl (scanInst reads kills) s is) \<longleftrightarrow>
     loadBeforeMustStore s \<or> \<not> hasMustStore s \<and> reads_first reads kills is"
  "hasMustStore (foldl (scanInst reads kills) s is) \<longleftrightarrow> hasMustStore s \<or> (\<exists>x \<in> set is. kills x)"
  by (induction "is" arbitrary: s) (auto simp: scanInst_def)

lemma scanBlock_iff:
  "loadBeforeMustStore (scanBlock reads kills is) \<longleftrightarrow> reads_first reads kills is"
  "hasMustStore (scanBlock reads kills is) \<longleftrightarrow> (\<exists>x \<in> set is. kills x)"
  by (simp_all add: scanBlock_def scanBlock_fold)

inductive flowLive :: "ir_function \<Rightarrow> (bb_ptr \<Rightarrow> block_gv_info) \<Rightarrow> bb_ptr \<Rightarrow> bool"
  for F :: ir_function and info :: "bb_ptr \<Rightarrow> block_gv_info" where
  reads: "b \<in> set (irBlocks F) \<Longrightarrow> loadBeforeMustStore (info b) \<Longrightarrow> flowLive F info b"
| passes: "b \<in> set (irBlocks F) \<Longrightarrow> \<not> hasMustStore (info b) \<Longrightarrow> c \<in> set (ifSuccs F b) \<Longrightarrow> flowLive F info c
    \<Longrightarrow> flowLive F info b"

lemma flowLive_path:
  assumes "\<And>b. ok b \<Longrightarrow> info b = scanBlock reads kills (instsOf F b)"
    and "\<And>b. \<not> ok b \<Longrightarrow> info b = \<lparr>loadBeforeMustStore = False, hasMustStore = True\<rparr>"
  shows "flowLive F info b \<longleftrightarrow> live_before F ok reads kills b"
proof
  assume "flowLive F info b"
  then show "live_before F ok reads kills b"
  proof (induction rule: flowLive.induct)
    case (reads b)
    have "ok b"
    proof (rule ccontr)
      assume "\<not> ok b"
      from assms(2) [OF this] reads show False by simp
    qed
    with reads assms(1) show ?case
      unfolding live_before_def by (intro exI [of _ "[]"]) (simp add: scanBlock_iff)
  next
    case (passes b c)
    have ok: "ok b"
    proof (rule ccontr)
      assume "\<not> ok b"
      from assms(2) [OF this] passes show False by simp
    qed
    from passes(5) obtain p where "ir_path F (c # p)" "list_all ok (c # p)"
      "reads_first reads kills (concat (map (instsOf F) (c # p)))" by (auto simp: live_before_def)
    with passes ok assms(1) [OF ok] show ?case
      unfolding live_before_def by (intro exI [of _ "c # p"]) (auto simp: scanBlock_iff reads_first_append)
  qed
next
  assume "live_before F ok reads kills b"
  then obtain p where "ir_path F (b # p)" "list_all ok (b # p)"
    "reads_first reads kills (concat (map (instsOf F) (b # p)))" by (auto simp: live_before_def)
  then show "flowLive F info b"
  proof (induction p arbitrary: b)
    case Nil
    then show ?case using assms(1) by (intro flowLive.reads) (auto simp: scanBlock_iff)
  next
    case (Cons c p)
    have b: "b \<in> set (irBlocks F)" "ok b" and c: "c \<in> set (ifSuccs F b)" "ir_path F (c # p)" using Cons.prems by auto
    show ?case
    proof (cases "reads_first reads kills (instsOf F b)")
      case True
      then show ?thesis using b assms(1) by (intro flowLive.reads) (auto simp: scanBlock_iff)
    next
      case False
      with Cons.prems(3) have "\<forall>x \<in> set (instsOf F b). \<not> kills x" "reads_first reads kills (concat (map (instsOf F) (c # p)))"
        by (auto simp: reads_first_append)
      with Cons.IH [of c] Cons.prems(2) b c assms(1) show ?thesis
        by (intro flowLive.passes [of b F info c]) (auto simp: scanBlock_iff)
    qed
  qed
qed

section \<open>The iterations reach their least solutions\<close>

definition flow_inv :: "ir_function \<Rightarrow> (bb_ptr \<Rightarrow> block_gv_info) \<Rightarrow> live_bits \<Rightarrow> bool" where
  "flow_inv F info s \<longleftrightarrow>
     (\<forall>b. fst s b \<longrightarrow> flowLive F info b
        \<and> (loadBeforeMustStore (info b) \<or> list_ex (fst s) (ifSuccs F b) \<and> \<not> hasMustStore (info b)))
     \<and> (\<forall>b. snd s b \<longrightarrow> list_ex (fst s) (ifSuccs F b))"

definition flow_rank :: "ir_function \<Rightarrow> live_bits \<Rightarrow> nat" where
  "flow_rank F s = card {b \<in> set (irBlocks F). \<not> fst s b} + card {b \<in> set (irBlocks F). \<not> snd s b}"

lemma list_ex_upd: "list_ex f bs \<Longrightarrow> (f b \<Longrightarrow> x) \<Longrightarrow> list_ex (f(b := x)) bs"
  by (fastforce simp: list_ex_iff)

lemma flowVisit_cases:
  assumes out: "out = list_ex li (ifSuccs F b)"
    and inn: "inn = (loadBeforeMustStore (info b) \<or> out \<and> \<not> hasMustStore (info b))"
  shows "flowVisit F info (c, li, lo) b = (if li b = inn \<and> lo b = out then (c, li, lo) else (True, li(b := inn), lo(b := out)))"
  by (auto simp: flowVisit_def Let_def assms)

lemma card_fewer:
  assumes "finite A" and "\<And>x. x \<in> A \<Longrightarrow> Q x \<Longrightarrow> P x" and "a \<in> A" and "P a" and "\<not> Q a"
  shows "card {x \<in> A. Q x} < card {x \<in> A. P x}"
  by (rule psubset_card_mono) (use assms in auto)

lemma card_not_more: "finite A \<Longrightarrow> (\<And>x. x \<in> A \<Longrightarrow> Q x \<Longrightarrow> P x) \<Longrightarrow> card {x \<in> A. Q x} \<le> card {x \<in> A. P x}"
  by (rule card_mono) auto

interpretation flow: block_rounds "flowVisit F info" "irBlocks F" "flow_inv F info" "flow_rank F" for F info
proof (unfold_locales, goal_cases)
  case (1 c s b)
  obtain li lo where s: "s = (li, lo)" by (cases s)
  show ?case unfolding s flowVisit_cases [OF refl refl] by (auto simp: fun_upd_idem_iff)
next
  case (2 b s c)
  obtain li lo where s: "s = (li, lo)" by (cases s)
  let ?out = "list_ex li (ifSuccs F b)"
  let ?inn = "loadBeforeMustStore (info b) \<or> ?out \<and> \<not> hasMustStore (info b)"
  have inv: "flow_inv F info (li, lo)" using 2(2) s by simp
  then have up: "li b \<Longrightarrow> ?inn" "lo b \<Longrightarrow> ?out" by (auto simp: flow_inv_def)
  have live: "flowLive F info b" if ?inn
    using that inv 2(1) by (auto simp: flow_inv_def list_ex_iff intro: flowLive.intros)
  have mono: "list_ex (li(b := ?inn)) bs" if "list_ex li bs" for bs using that up(1) by (intro list_ex_upd)
  show ?case unfolding s flowVisit_cases [OF refl refl]
    using inv live mono by (auto simp: flow_inv_def)
next
  case (3 b s c)
  obtain li lo where s: "s = (li, lo)" by (cases s)
  let ?out = "list_ex li (ifSuccs F b)"
  let ?inn = "loadBeforeMustStore (info b) \<or> ?out \<and> \<not> hasMustStore (info b)"
  let ?B = "set (irBlocks F)"
  have inv: "flow_inv F info (li, lo)" using 3(2) s by simp
  then have up: "li b \<Longrightarrow> ?inn" "lo b \<Longrightarrow> ?out" by (auto simp: flow_inv_def)
  have ch: "\<not> (li b = ?inn \<and> lo b = ?out)"
  proof
    assume "li b = ?inn \<and> lo b = ?out"
    then have "flowVisit F info (c, li, lo) b = (c, li, lo)" unfolding flowVisit_cases [OF refl refl] by (rule if_P)
    with 3(3) s show False by simp
  qed
  have le: "card {x \<in> ?B. \<not> (li(b := ?inn)) x} \<le> card {x \<in> ?B. \<not> li x}"
    "card {x \<in> ?B. \<not> (lo(b := ?out)) x} \<le> card {x \<in> ?B. \<not> lo x}"
    by (rule card_not_more; use up in \<open>auto split: if_splits\<close>)+
  have lt1: "card {x \<in> ?B. \<not> (li(b := ?inn)) x} < card {x \<in> ?B. \<not> li x}" if "li b \<noteq> ?inn"
    by (rule card_fewer [where a = b]) (use up(1) that 3(1) in \<open>auto split: if_splits\<close>)
  have lt2: "card {x \<in> ?B. \<not> (lo(b := ?out)) x} < card {x \<in> ?B. \<not> lo x}" if "lo b \<noteq> ?out"
    by (rule card_fewer [where a = b]) (use up(2) that 3(1) in \<open>auto split: if_splits\<close>)
  have visit: "flowVisit F info (c, li, lo) b = (True, li(b := ?inn), lo(b := ?out))"
    unfolding flowVisit_cases [OF refl refl] using ch by (rule if_not_P)
  from ch consider "li b \<noteq> ?inn" | "lo b \<noteq> ?out" by blast
  then have "card {x \<in> ?B. \<not> (li(b := ?inn)) x} + card {x \<in> ?B. \<not> (lo(b := ?out)) x}
      < card {x \<in> ?B. \<not> li x} + card {x \<in> ?B. \<not> lo x}"
  proof cases
    case 1
    from lt1 [OF this] le(2) show ?thesis by (rule add_less_le_mono)
  next
    case 2
    from le(1) lt2 [OF this] show ?thesis by (rule add_le_less_mono)
  qed
  then show ?case unfolding s visit flow_rank_def fst_conv snd_conv .
qed

lemma flowLiveIn_least: "\<exists>l. flowLiveIn F info = Some l \<and> (\<forall>b. l b \<longleftrightarrow> flowLive F info b)"
proof -
  have "flow_inv F info (\<lambda>_. False, \<lambda>_. False)" by (simp add: flow_inv_def)
  from flow.round_result [OF this] obtain li lo where
    s: "untilStable (\<lambda>s. foldl (flowVisit F info) (False, s) (irBlocks F)) (\<lambda>_. False, \<lambda>_. False) = Some (li, lo)"
    and inv: "flow_inv F info (li, lo)"
    and stable: "\<forall>b \<in> set (irBlocks F). flowVisit F info (False, li, lo) b = (False, li, lo)" by auto
  have eq: "li b \<longleftrightarrow> loadBeforeMustStore (info b) \<or> list_ex li (ifSuccs F b) \<and> \<not> hasMustStore (info b)"
    if "b \<in> set (irBlocks F)" for b
    using stable that unfolding flowVisit_cases [OF refl refl] by (metis Pair_inject)
  have "li b" if "flowLive F info b" for b
    using that by (induction rule: flowLive.induct) (auto simp: eq list_ex_iff)
  with inv s show ?thesis by (auto simp: flowLiveIn_def flow_inv_def)
qed

text \<open>For an SSA value: some path without the defining block reaches a use.\<close>

inductive ssaLive :: "ir_function \<Rightarrow> bb_ptr set \<Rightarrow> bb_ptr \<Rightarrow> bb_ptr \<Rightarrow> bool"
  for F :: ir_function and uses :: "bb_ptr set" and defBlock :: bb_ptr where
  used: "b \<in> set (irBlocks F) \<Longrightarrow> b \<noteq> defBlock \<Longrightarrow> b \<in> uses \<Longrightarrow> ssaLive F uses defBlock b"
| onward: "b \<in> set (irBlocks F) \<Longrightarrow> b \<noteq> defBlock \<Longrightarrow> c \<in> set (ifSuccs F b) \<Longrightarrow> ssaLive F uses defBlock c
    \<Longrightarrow> ssaLive F uses defBlock b"

definition reaches_use :: "ir_function \<Rightarrow> bb_ptr set \<Rightarrow> bb_ptr \<Rightarrow> bb_ptr \<Rightarrow> bool" where
  "reaches_use F uses defBlock b \<longleftrightarrow>
     (\<exists>p. ir_path F (b # p) \<and> defBlock \<notin> set (b # p) \<and> last (b # p) \<in> uses)"

lemma ssaLive_path: "ssaLive F uses defBlock b \<longleftrightarrow> reaches_use F uses defBlock b"
proof
  assume "ssaLive F uses defBlock b"
  then show "reaches_use F uses defBlock b"
  proof (induction rule: ssaLive.induct)
    case (used b)
    then show ?case unfolding reaches_use_def by (intro exI [of _ "[]"]) auto
  next
    case (onward b c)
    then obtain p where "ir_path F (c # p)" "defBlock \<notin> set (c # p)" "last (c # p) \<in> uses" by (auto simp: reaches_use_def)
    with onward show ?case unfolding reaches_use_def by (intro exI [of _ "c # p"]) auto
  qed
next
  assume "reaches_use F uses defBlock b"
  then obtain p where "ir_path F (b # p)" "defBlock \<notin> set (b # p)" "last (b # p) \<in> uses" by (auto simp: reaches_use_def)
  then show "ssaLive F uses defBlock b"
  proof (induction p arbitrary: b)
    case Nil
    then show ?case by (intro ssaLive.used) auto
  next
    case (Cons c p)
    then show ?case by (intro ssaLive.onward [of b F defBlock c]) auto
  qed
qed

definition ssa_inv :: "ir_function \<Rightarrow> bb_ptr set \<Rightarrow> bb_ptr \<Rightarrow> (bb_ptr \<Rightarrow> bool) \<Rightarrow> bool" where
  "ssa_inv F uses defBlock l \<longleftrightarrow>
     (\<forall>b. l b \<longrightarrow> ssaLive F uses defBlock b \<and> b \<noteq> defBlock \<and> (b \<in> uses \<or> list_ex l (ifSuccs F b)))"

definition ssa_rank :: "ir_function \<Rightarrow> (bb_ptr \<Rightarrow> bool) \<Rightarrow> nat" where
  "ssa_rank F l = card {b \<in> set (irBlocks F). \<not> l b}"

lemma ssaVisit_cases:
  assumes "inn = (b \<in> uses \<or> list_ex l (ifSuccs F b))"
  shows "ssaVisit F uses defBlock (c, l) b = (if b = defBlock \<or> l b = inn then (c, l) else (True, l(b := inn)))"
  by (auto simp: ssaVisit_def Let_def assms)

interpretation ssa: block_rounds "ssaVisit F uses defBlock" "irBlocks F" "ssa_inv F uses defBlock" "ssa_rank F"
  for F uses defBlock
proof (unfold_locales, goal_cases)
  case (1 c l b)
  show ?case unfolding ssaVisit_cases [OF refl] by (auto simp: fun_upd_idem_iff)
next
  case (2 b l c)
  let ?inn = "b \<in> uses \<or> list_ex l (ifSuccs F b)"
  have up: "l b \<Longrightarrow> ?inn" using 2(2) by (auto simp: ssa_inv_def)
  have live: "ssaLive F uses defBlock b" if ?inn "b \<noteq> defBlock"
    using that 2 by (auto simp: ssa_inv_def list_ex_iff intro: ssaLive.intros)
  have mono: "list_ex (l(b := ?inn)) bs" if "list_ex l bs" for bs using that up by (intro list_ex_upd)
  show ?case unfolding ssaVisit_cases [OF refl] using 2(2) live mono by (auto simp: ssa_inv_def)
next
  case (3 b l c)
  let ?inn = "b \<in> uses \<or> list_ex l (ifSuccs F b)"
  have up: "l b \<Longrightarrow> ?inn" using 3(2) by (auto simp: ssa_inv_def)
  have ch: "b \<noteq> defBlock \<and> l b \<noteq> ?inn" using 3(3) unfolding ssaVisit_cases [OF refl] by (auto split: if_splits)
  have "card {x \<in> set (irBlocks F). \<not> (l(b := ?inn)) x} < card {x \<in> set (irBlocks F). \<not> l x}"
    by (rule card_fewer [where a = b]) (use up ch 3(1) in \<open>auto split: if_splits\<close>)
  then show ?case unfolding ssaVisit_cases [OF refl] using ch by (auto simp: ssa_rank_def)
qed

lemma ssa_least:
  "\<exists>l. untilStable (\<lambda>s. foldl (ssaVisit F uses defBlock) (False, s) (irBlocks F)) (\<lambda>_. False) = Some l
     \<and> (\<forall>b. l b \<longleftrightarrow> ssaLive F uses defBlock b)"
proof -
  have "ssa_inv F uses defBlock (\<lambda>_. False)" by (simp add: ssa_inv_def)
  from ssa.round_result [OF this] obtain l where
    l: "untilStable (\<lambda>s. foldl (ssaVisit F uses defBlock) (False, s) (irBlocks F)) (\<lambda>_. False) = Some l"
    and inv: "ssa_inv F uses defBlock l"
    and stable: "\<forall>b \<in> set (irBlocks F). ssaVisit F uses defBlock (False, l) b = (False, l)" by auto
  have eq: "l b \<longleftrightarrow> b \<in> uses \<or> list_ex l (ifSuccs F b)" if "b \<in> set (irBlocks F)" "b \<noteq> defBlock" for b
    using stable that unfolding ssaVisit_cases [OF refl] by (metis Pair_inject)
  have "l b" if "ssaLive F uses defBlock b" for b
    using that by (induction rule: ssaLive.induct) (auto simp: eq list_ex_iff)
  with inv l show ?thesis by (auto simp: ssa_inv_def)
qed

lemma liveSets_correct:
  assumes "\<And>v. \<exists>l. live v = Some l \<and> (\<forall>b. l b \<longleftrightarrow> P v b)"
  shows "\<exists>r. liveSets live vs = Some r \<and> (\<forall>b v. v \<in> r b \<longleftrightarrow> v \<in> set vs \<and> P v b)"
proof (induction vs)
  case (Cons v vs)
  then obtain r where r: "liveSets live vs = Some r" "\<forall>b v. v \<in> r b \<longleftrightarrow> v \<in> set vs \<and> P v b" by auto
  obtain l where l: "live v = Some l" "\<forall>b. l b \<longleftrightarrow> P v b" using assms by blast
  show ?case using r l by (intro exI [of _ "\<lambda>b. if l b then insert v (r b) else r b"]) auto
qed simp

section \<open>Properties\<close>

text \<open>(C27) The liveness of globals and allocas is exact. Both iterations end, and an object is reported live at a
  block exactly when some path from the block reads it before a write that covers all of it; for a
  promoted alloca such a path does not pass the entry of main.\<close>

theorem memory_liveness_correct:
  "(\<exists>r. computeEligibleLiveness F env vmObjs = Some r
     \<and> (\<forall>b gv. gv \<in> r b \<longleftrightarrow> gv \<in> set vmObjs
          \<and> live_before F (\<lambda>c. \<not> isPromotedAtEntry F env c gv) (\<lambda>i. isRefSet env i gv) (globalKills env gv) b))
   \<and> (\<exists>r. computeIneligAllocaLiveness F env objs = Some r
     \<and> (\<forall>b v. v \<in> r b \<longleftrightarrow> v \<in> set objs \<and> isAllocaValue F v
          \<and> live_before F (\<lambda>_. True) (\<lambda>i. isRefSet env i v) (allocaKills F env v) b))"
proof (rule conjI)
  have "\<exists>l. flowLiveIn F (globalInfo F env gv) = Some l
      \<and> (\<forall>b. l b \<longleftrightarrow> live_before F (\<lambda>c. \<not> isPromotedAtEntry F env c gv) (\<lambda>i. isRefSet env i gv) (globalKills env gv) b)" for gv
  proof -
    have "flowLive F (globalInfo F env gv) b \<longleftrightarrow>
        live_before F (\<lambda>c. \<not> isPromotedAtEntry F env c gv) (\<lambda>i. isRefSet env i gv) (globalKills env gv) b" for b
      by (rule flowLive_path) (simp_all add: globalInfo_def)
    with flowLiveIn_least [of F "globalInfo F env gv"] show ?thesis by simp
  qed
  from liveSets_correct [OF this]
  show "\<exists>r. computeEligibleLiveness F env vmObjs = Some r
     \<and> (\<forall>b gv. gv \<in> r b \<longleftrightarrow> gv \<in> set vmObjs
          \<and> live_before F (\<lambda>c. \<not> isPromotedAtEntry F env c gv) (\<lambda>i. isRefSet env i gv) (globalKills env gv) b)"
    unfolding computeEligibleLiveness_def .
  have "\<exists>l. flowLiveIn F (allocaInfo F env v) = Some l
      \<and> (\<forall>b. l b \<longleftrightarrow> live_before F (\<lambda>_. True) (\<lambda>i. isRefSet env i v) (allocaKills F env v) b)" for v
  proof -
    have "flowLive F (allocaInfo F env v) b \<longleftrightarrow>
        live_before F (\<lambda>_. True) (\<lambda>i. isRefSet env i v) (allocaKills F env v) b" for b
      by (rule flowLive_path) (simp_all add: allocaInfo_def)
    with flowLiveIn_least [of F "allocaInfo F env v"] show ?thesis by simp
  qed
  from liveSets_correct [OF this, where vs = "filter (isAllocaValue F) objs"]
  show "\<exists>r. computeIneligAllocaLiveness F env objs = Some r
     \<and> (\<forall>b v. v \<in> r b \<longleftrightarrow> v \<in> set objs \<and> isAllocaValue F v
          \<and> live_before F (\<lambda>_. True) (\<lambda>i. isRefSet env i v) (allocaKills F env v) b)"
    by (simp add: computeIneligAllocaLiveness_def)
qed


end
