(* ===== verification/MILPState.thy ===== *)
theory MILPState
  imports IRLiveness
begin

text \<open>
  The state analysis of the MILP pass (\<open>milp/StateAnalysis.cpp\<close>): which globals may be moved to VM, which
  allocas and SSA values have to be saved, where they are live and defined, and how often globals are
  accessed. The fatal errors are \<open>state_error\<close>; the diagnostics for unresolved calls are the blocks and
  instructions they name, not their text. Sets that are only tested for membership are sets.

  Shown: the analysis ends with an error exactly for a dynamic or an oversized alloca; a candidate global
  is never reached through an unresolved pointer; live-in sets hold only tracked objects; definition
  indicators and access counts follow the alias analysis.
\<close>

section \<open>Candidate globals\<close>

definition startsWith :: "string \<Rightarrow> string \<Rightarrow> bool" where
  "startsWith s pre \<longleftrightarrow> take (length pre) s = pre"

definition isWhitelistedHelperName :: "string \<Rightarrow> bool" where
  "isWhitelistedHelperName n \<longleftrightarrow>
     startsWith n ''__mspabi_'' \<or> startsWith n ''__aeabi_'' \<or> startsWith n ''__div'' \<or>
     startsWith n ''__udiv'' \<or> startsWith n ''__mul'' \<or> startsWith n ''__mod''"

definition isEligibleGlobal :: "global_info \<Rightarrow> bool" where
  "isEligibleGlobal g \<longleftrightarrow>
     \<not> gvDeclaration g \<and> \<not> gvConstant g \<and> gvSized g \<and> \<not> startsWith (gvName g) ''llvm.'' \<and>
     \<not> startsWith (gvName g) ''__nvm_'' \<and> \<not> startsWith (gvName g) ''__vm_shadow_''"

definition resolveUniqueUnderlyingGlobal :: "ir_env \<Rightarrow> value_ptr \<Rightarrow> value_ptr option" where
  "resolveUniqueUnderlyingGlobal env ptr =
     (case getUnderlyingObjects env ptr of
        [v] \<Rightarrow> (if globalOf env v = None then None else Some v)
      | _ \<Rightarrow> None)"

definition eligibleAccessTarget :: "ir_env \<Rightarrow> ir_inst \<Rightarrow> value_ptr option" where
  "eligibleAccessTarget env i =
     (case (case inKind i of LoadInst ptr \<Rightarrow> Some ptr | StoreInst ptr _ \<Rightarrow> Some ptr | _ \<Rightarrow> None) of
        None \<Rightarrow> None
      | Some ptr \<Rightarrow>
          (case resolveUniqueUnderlyingGlobal env ptr of
             None \<Rightarrow> None
           | Some gv \<Rightarrow> (case globalOf env gv of
                            Some g \<Rightarrow> if isEligibleGlobal g then Some gv else None
                          | None \<Rightarrow> None)))"

definition unresolvedPtr :: "ir_env \<Rightarrow> value_ptr \<Rightarrow> bool" where
  "unresolvedPtr env ptr \<longleftrightarrow> resolveUniqueUnderlyingGlobal env ptr = None"

definition mayAccessThroughUnresolvedPointer :: "ir_env \<Rightarrow> ir_inst \<Rightarrow> value_ptr \<Rightarrow> bool" where
  "mayAccessThroughUnresolvedPointer env i gv \<longleftrightarrow>
     (isRefSet env i gv \<or> isModSet env i gv) \<and>
     (case inKind i of
        LoadInst ptr \<Rightarrow> unresolvedPtr env ptr \<and> isRefSet env i gv
      | StoreInst ptr _ \<Rightarrow> unresolvedPtr env ptr \<and> isModSet env i gv
      | MemTransferInst dest src _ \<Rightarrow>
          unresolvedPtr env dest \<and> isModSet env i gv \<or> unresolvedPtr env src \<and> isRefSet env i gv
      | MemSetInst dest _ \<Rightarrow> unresolvedPtr env dest \<and> isModSet env i gv
      | CallInst _ \<Rightarrow> False
      | InvokeInst _ \<Rightarrow> False
      | AllocaInst _ \<Rightarrow> False
      | PHINode _ \<Rightarrow> False
      | GetElementPtrInst \<Rightarrow> False
      | BitCastInst \<Rightarrow> False
      | OtherInst mayReadOrWrite \<Rightarrow> mayReadOrWrite)"

definition directlyAccessedGlobals :: "ir_function \<Rightarrow> ir_env \<Rightarrow> value_ptr list" where
  "directlyAccessedGlobals F env =
     foldl (\<lambda>gs i. case eligibleAccessTarget env i of
                     Some gv \<Rightarrow> if gv \<in> set gs then gs else gs @ [gv]
                   | None \<Rightarrow> gs) [] (irInsts F)"

definition aliasedByUnresolved :: "ir_function \<Rightarrow> ir_env \<Rightarrow> value_ptr \<Rightarrow> bool" where
  "aliasedByUnresolved F env gv \<longleftrightarrow> list_ex (\<lambda>i. mayAccessThroughUnresolvedPointer env i gv) (irInsts F)"

text \<open>The candidates and the globals that stay in NVM.\<close>

definition identifyVMObjs :: "ir_function \<Rightarrow> ir_env \<Rightarrow> value_ptr list \<times> value_ptr list" where
  "identifyVMObjs F env =
     (let accessed = directlyAccessedGlobals F env
      in (filter (\<lambda>gv. \<not> aliasedByUnresolved F env gv) accessed, sort (filter (aliasedByUnresolved F env) accessed)))"

definition globalSize :: "ir_env \<Rightarrow> value_ptr \<Rightarrow> u32" where
  "globalSize env gv = (case globalOf env gv of Some g \<Rightarrow> ucast (gvAllocSize g) | None \<Rightarrow> 0)"

section \<open>Objects that must be saved\<close>

datatype state_error = DynamicAlloca value_ptr | AllocaTooLarge value_ptr | LivenessDiverges

definition allocaEntry :: "ir_inst \<Rightarrow> state_error + (value_ptr \<times> u32) list" where
  "allocaEntry i =
     (case inKind i of
        AllocaInst a \<Rightarrow>
          (case aiArraySize a of
             None \<Rightarrow> Inl (DynamicAlloca (inId i))
           | Some n \<Rightarrow>
               (if \<not> aiSized a then Inr []
                else let totalBytes = aiElemAllocSize a * n
                     in if 0xFFFFFFFF < totalBytes then Inl (AllocaTooLarge (inId i))
                        else Inr [(inId i, ucast totalBytes)]))
      | _ \<Rightarrow> Inr [])"

fun identifyIneligibleObjs :: "ir_inst list \<Rightarrow> state_error + (value_ptr \<times> u32) list" where
  "identifyIneligibleObjs [] = Inr []"
| "identifyIneligibleObjs (i # is) =
     bindE (allocaEntry i) (\<lambda>a. bindE (identifyIneligibleObjs is) (\<lambda>as. Inr (a @ as)))"

definition needsTracking :: "ir_function \<Rightarrow> bb_ptr \<Rightarrow> ir_inst \<Rightarrow> bool" where
  "needsTracking F b i \<longleftrightarrow>
     (if isPHINode i then usersOf F (inId i) \<noteq> []
      else list_ex (\<lambda>(c, u). isPHINode u \<or> c \<noteq> b) (usersOf F (inId i)))"

definition identifyIneligibleSSAValues :: "ir_function \<Rightarrow> (value_ptr \<times> u32) list" where
  "identifyIneligibleSSAValues F =
     map (\<lambda>(b, i). (inId i, ucast (inAllocSize i)))
       (filter (\<lambda>(b, i). \<not> inVoid i \<and> \<not> isAlloca i \<and> inSized i \<and> needsTracking F b i)
         (concat (map (\<lambda>(b, is). map (Pair b) is) (ifBlocks F))))"

section \<open>Calls\<close>

definition isAllowedDirectCall :: "call_info \<Rightarrow> bool" where
  "isAllowedDirectCall cb =
     (if cbInlineAsm cb then False
      else case cbCallee cb of
             None \<Rightarrow> False
           | Some (name, isIntrinsic, isDeclaration) \<Rightarrow>
               isIntrinsic \<or> name = ''__loop_tripcount'' \<or>
               name = ''debug_init'' \<or> name = ''debug_exit'' \<or> name = ''bench_halt'' \<or> name = ''bench_commit_result'' \<or>
               startsWith name ''timing_gpio_'' \<or> isWhitelistedHelperName name \<or>
               (isDeclaration \<and> (cbDoesNotAccessMemory cb \<or> cbOnlyReadsMemory cb)))"

definition callAllowed :: "ir_inst \<Rightarrow> bool" where
  "callAllowed i = (case inKind i of CallInst cb \<Rightarrow> isAllowedDirectCall cb | InvokeInst cb \<Rightarrow> isAllowedDirectCall cb | _ \<Rightarrow> True)"

text \<open>The diagnostics, as block and instruction.\<close>

definition validateCalls :: "ir_function \<Rightarrow> value_ptr list \<Rightarrow> (bb_ptr \<times> value_ptr) list" where
  "validateCalls F vmObjs =
     (if vmObjs = [] then []
      else concat (map (\<lambda>(b, is). map (\<lambda>i. (b, inId i)) (filter (\<lambda>i. \<not> callAllowed i) is)) (ifBlocks F)))"

section \<open>Access maps\<close>

record state_analysis =
  saVMObjs :: "value_ptr list"
  saNVMKept :: "value_ptr list"
  saErrors :: "(bb_ptr \<times> value_ptr) list"
  saIneligible :: "value_ptr list"
  saSizes :: "(value_ptr, u32) omap"
  saLoads :: "bb_ptr \<Rightarrow> value_ptr \<Rightarrow> u32"
  saStores :: "bb_ptr \<Rightarrow> value_ptr \<Rightarrow> u32"
  saEligDef :: "bb_ptr \<Rightarrow> value_ptr set"
  saIneligDef :: "bb_ptr \<Rightarrow> value_ptr set"
  saEligLiveIn :: "bb_ptr \<Rightarrow> value_ptr set"
  saIneligLiveIn :: "bb_ptr \<Rightarrow> value_ptr set"

definition countAccesses :: "ir_function \<Rightarrow> value_ptr list \<Rightarrow> (ir_inst \<Rightarrow> value_ptr \<Rightarrow> bool) \<Rightarrow> bb_ptr \<Rightarrow> value_ptr \<Rightarrow> u32" where
  "countAccesses F vmObjs accesses b gv =
     (if gv \<in> set vmObjs then of_nat (length (filter (\<lambda>i. accesses i gv) (instsOf F b))) else 0)"

definition eligDefs :: "ir_function \<Rightarrow> ir_env \<Rightarrow> value_ptr list \<Rightarrow> bb_ptr \<Rightarrow> value_ptr set" where
  "eligDefs F env vmObjs b = {gv \<in> set vmObjs. list_ex (\<lambda>i. isModSet env i gv) (instsOf F b)}"

definition ineligDefs :: "ir_function \<Rightarrow> ir_env \<Rightarrow> value_ptr list \<Rightarrow> bb_ptr \<Rightarrow> value_ptr set" where
  "ineligDefs F env objs b =
     {v \<in> set objs. if isAllocaValue F v then list_ex (\<lambda>i. isModSet env i v) (instsOf F b)
                     else (case instAt F v of Some (defBlock, i) \<Rightarrow> b = defBlock | None \<Rightarrow> False)}"

definition sizeMap :: "(value_ptr \<times> u32) list \<Rightarrow> (value_ptr, u32) omap" where
  "sizeMap xs = foldl (\<lambda>m (v, n). omap_put v n m) [] xs"

definition live_or_error :: "'a option \<Rightarrow> state_error + 'a" where
  "live_or_error r = (case r of Some x \<Rightarrow> Inr x | None \<Rightarrow> Inl LivenessDiverges)"

text \<open>The constructor: candidates, calls, objects that must be saved, access maps and the three liveness
  analyses.\<close>

definition runStateAnalysis :: "ir_function \<Rightarrow> ir_env \<Rightarrow> state_error + state_analysis" where
  "runStateAnalysis F env =
     (let (vmObjs, kept) = identifyVMObjs F env; errors = validateCalls F vmObjs
      in bindE (identifyIneligibleObjs (irInsts F)) (\<lambda>allocas.
         let tracked = allocas @ identifyIneligibleSSAValues F; objs = map fst tracked
         in bindE (live_or_error (computeEligibleLiveness F env vmObjs)) (\<lambda>eligLive.
            bindE (live_or_error (computeIneligAllocaLiveness F env objs)) (\<lambda>allocaLive.
            bindE (live_or_error (computeIneligSSALiveness F objs)) (\<lambda>ssaLive.
            Inr \<lparr>saVMObjs = vmObjs, saNVMKept = kept, saErrors = errors, saIneligible = objs,
                 saSizes = sizeMap (map (\<lambda>gv. (gv, globalSize env gv)) vmObjs @ tracked),
                 saLoads = countAccesses F vmObjs (isRefSet env), saStores = countAccesses F vmObjs (isModSet env),
                 saEligDef = eligDefs F env vmObjs, saIneligDef = ineligDefs F env objs,
                 saEligLiveIn = eligLive, saIneligLiveIn = (\<lambda>b. allocaLive b \<union> ssaLive b)\<rparr>)))))"

definition saVarSize :: "state_analysis \<Rightarrow> value_ptr \<Rightarrow> u32" where
  "saVarSize sa v = omap_get 0 (saSizes sa) v"

section \<open>What the analysis returns\<close>

text \<open>The error of a single instruction.\<close>

definition allocaFault :: "ir_inst \<Rightarrow> state_error option" where
  "allocaFault i =
     (case inKind i of
        AllocaInst a \<Rightarrow>
          (case aiArraySize a of
             None \<Rightarrow> Some (DynamicAlloca (inId i))
           | Some n \<Rightarrow> if aiSized a \<and> 0xFFFFFFFF < aiElemAllocSize a * n then Some (AllocaTooLarge (inId i)) else None)
      | _ \<Rightarrow> None)"

lemma allocaEntry_fault: "case_sum Some (\<lambda>_. None) (allocaEntry i) = allocaFault i"
  by (auto simp: allocaEntry_def allocaFault_def Let_def split: inst_kind.splits option.splits)

lemma identifyIneligibleObjs_fault:
  "case_sum Some (\<lambda>_. None) (identifyIneligibleObjs is) = (case List.map_filter allocaFault is of [] \<Rightarrow> None | e # _ \<Rightarrow> Some e)"
proof (induction "is")
  case (Cons i "is")
  show ?case
  proof (cases "allocaEntry i")
    case (Inl e)
    then have "allocaFault i = Some e" using allocaEntry_fault [of i] by simp
    then show ?thesis using Inl by (simp add: List.map_filter_simps)
  next
    case (Inr a)
    then have "allocaFault i = None" using allocaEntry_fault [of i] by simp
    then show ?thesis using Inr Cons.IH by (cases "identifyIneligibleObjs is") (simp_all add: List.map_filter_simps)
  qed
qed (simp add: List.map_filter_simps)

lemma live_or_error_Some [simp]: "live_or_error (Some x) = Inr x"
  by (simp add: live_or_error_def)

lemma liveness_total:
  obtains el al sl where "computeEligibleLiveness F env vmObjs = Some el" "computeIneligAllocaLiveness F env objs = Some al"
    "computeIneligSSALiveness F objs = Some sl" "\<forall>b. el b \<subseteq> set vmObjs" "\<forall>b. al b \<subseteq> set objs" "\<forall>b. sl b \<subseteq> set objs"
proof -
  have 1: "\<exists>r. computeEligibleLiveness F env vmObjs = Some r \<and> (\<forall>b. r b \<subseteq> set vmObjs)"
    using liveSets_correct [of "\<lambda>gv. flowLiveIn F (globalInfo F env gv)" "\<lambda>gv. flowLive F (globalInfo F env gv)", OF flowLiveIn_least]
    by (fastforce simp: computeEligibleLiveness_def)
  have 2: "\<exists>r. computeIneligAllocaLiveness F env objs = Some r \<and> (\<forall>b. r b \<subseteq> set objs)"
    using liveSets_correct [of "\<lambda>v. flowLiveIn F (allocaInfo F env v)" "\<lambda>v. flowLive F (allocaInfo F env v)", OF flowLiveIn_least]
    by (fastforce simp: computeIneligAllocaLiveness_def)
  have "\<exists>l. ssaLiveIn F v = Some l" for v
    using ssa_least [of F "useBlocks F v _"] by (fastforce simp: ssaLiveIn_def Let_def split: option.split)
  then have "\<exists>l. ssaLiveIn F v = Some l \<and> (\<forall>b. l b \<longleftrightarrow> the (ssaLiveIn F v) b)" for v by (metis option.sel)
  from liveSets_correct [of "ssaLiveIn F", OF this]
  have 3: "\<exists>r. computeIneligSSALiveness F objs = Some r \<and> (\<forall>b. r b \<subseteq> set objs)"
    by (fastforce simp: computeIneligSSALiveness_def)
  from 1 2 3 that show thesis by blast
qed

lemma runStateAnalysis_facts:
  assumes "runStateAnalysis F env = Inr sa"
  shows "saVMObjs sa = filter (\<lambda>gv. \<not> aliasedByUnresolved F env gv) (directlyAccessedGlobals F env)"
    and "\<exists>allocas. identifyIneligibleObjs (irInsts F) = Inr allocas
      \<and> saIneligible sa = map fst (allocas @ identifyIneligibleSSAValues F)"
    and "saEligLiveIn sa b \<subseteq> set (saVMObjs sa)" and "saIneligLiveIn sa b \<subseteq> set (saIneligible sa)"
proof -
  from assms obtain allocas where a: "identifyIneligibleObjs (irInsts F) = Inr allocas"
    by (auto simp: runStateAnalysis_def bindE_eq_Inr Let_def split: prod.splits)
  obtain vm kept where vm: "identifyVMObjs F env = (vm, kept)" by fastforce
  let ?objs = "map fst (allocas @ identifyIneligibleSSAValues F)"
  obtain el al sl where l: "computeEligibleLiveness F env vm = Some el" "computeIneligAllocaLiveness F env ?objs = Some al"
    "computeIneligSSALiveness F ?objs = Some sl" "\<forall>b. el b \<subseteq> set vm" "\<forall>b. al b \<subseteq> set ?objs" "\<forall>b. sl b \<subseteq> set ?objs"
    by (rule liveness_total)
  from assms have sa: "saVMObjs sa = vm" "saIneligible sa = ?objs" "saEligLiveIn sa = el" "saIneligLiveIn sa = (\<lambda>b. al b \<union> sl b)"
    using l(1-3) by (auto simp: runStateAnalysis_def a vm Let_def)
  show "saVMObjs sa = filter (\<lambda>gv. \<not> aliasedByUnresolved F env gv) (directlyAccessedGlobals F env)"
    using sa(1) vm by (auto simp: identifyVMObjs_def Let_def)
  show "\<exists>allocas. identifyIneligibleObjs (irInsts F) = Inr allocas
      \<and> saIneligible sa = map fst (allocas @ identifyIneligibleSSAValues F)" using a sa(2) by blast
  show "saEligLiveIn sa b \<subseteq> set (saVMObjs sa)" "saIneligLiveIn sa b \<subseteq> set (saIneligible sa)" using sa l(4-6) by auto
qed

lemma directlyAccessed_globals:
  "gv \<in> set (directlyAccessedGlobals F env) \<Longrightarrow> globalOf env gv \<noteq> None"
proof -
  have "\<forall>gv \<in> set (directlyAccessedGlobals F env). globalOf env gv \<noteq> None"
    unfolding directlyAccessedGlobals_def
    by (rule foldl_invariant) (auto simp: eligibleAccessTarget_def split: option.splits if_splits inst_kind.splits)
  then show "gv \<in> set (directlyAccessedGlobals F env) \<Longrightarrow> globalOf env gv \<noteq> None" by blast
qed

lemma ineligible_insts:
  assumes "runStateAnalysis F env = Inr sa" and "v \<in> set (saIneligible sa)"
  shows "v \<in> inId ` set (irInsts F)"
proof -
  have allocas: "identifyIneligibleObjs is = Inr as \<Longrightarrow> fst ` set as \<subseteq> inId ` set is" for "is" as
  proof (induction "is" arbitrary: as)
    case (Cons i "is")
    have "allocaEntry i = Inr a \<Longrightarrow> fst ` set a \<subseteq> {inId i}" for a
      by (auto simp: allocaEntry_def Let_def split: inst_kind.splits option.splits if_splits)
    with Cons show ?case by (fastforce simp: bindE_eq_Inr)
  qed simp
  have "fst ` set (identifyIneligibleSSAValues F) \<subseteq> inId ` set (irInsts F)"
    by (fastforce simp: identifyIneligibleSSAValues_def irInsts_def)
  with runStateAnalysis_facts(2) [OF assms(1)] allocas assms(2) show ?thesis by fastforce
qed

section \<open>Properties\<close>

text \<open>The state analysis always ends, and it ends with an error exactly when some alloca is dynamic or too
  large, naming the first one in program order; the liveness iterations never fail.\<close>

theorem runStateAnalysis_error:
  "case_sum Some (\<lambda>_. None) (runStateAnalysis F env) =
     (case List.map_filter allocaFault (irInsts F) of [] \<Rightarrow> None | e # _ \<Rightarrow> Some e)"
proof (cases "identifyIneligibleObjs (irInsts F)")
  case (Inl e)
  then show ?thesis using identifyIneligibleObjs_fault [of "irInsts F"]
    by (cases "identifyVMObjs F env") (auto simp: runStateAnalysis_def Let_def)
next
  case (Inr allocas)
  obtain vm kept where vm: "identifyVMObjs F env = (vm, kept)" by fastforce
  obtain el al sl where "computeEligibleLiveness F env vm = Some el"
    "computeIneligAllocaLiveness F env (map fst (allocas @ identifyIneligibleSSAValues F)) = Some al"
    "computeIneligSSALiveness F (map fst (allocas @ identifyIneligibleSSAValues F)) = Some sl"
    by (rule liveness_total)
  then show ?thesis using Inr vm identifyIneligibleObjs_fault [of "irInsts F"]
    by (auto simp: runStateAnalysis_def Let_def)
qed

end
