(* ===== verification/CallIsolation.thy ===== *)
theory CallIsolation
  imports MILPState "HOL-Library.AList" "HOL-Library.Sublist"
begin

text \<open>
  Call isolation (\<open>schematic/CallIsolation.cpp\<close>, \<open>common/FunctionFilters.h\<close>): recursion is rejected, and every
  direct call of a defined function that is not a helper gets a block of its own, followed by an empty block.
  The two are marked by metadata with a common group number, from which the solver pass finds them again.

  Functions are identified by their names, which are unique in a module. Metadata is a table by instruction,
  as in LLVM. The containers that are keyed by pointers have no fixed order of iteration; it is the argument
  \<open>ord\<close>; the table by group number is iterated in the order of its keys, which only the order of the collected
  calls depends on. \<open>splitBasicBlock\<close> and \<open>SplitEdge\<close> belong to LLVM: their effect on the list of blocks, the successors
  and the PHI nodes is written out as documented. Addresses of new blocks and instructions are fresh.

  Shown: recursion is reported exactly when the graph of calls has a cycle; the loop that splits calls ends;
  afterwards every isolatable call stands alone between its two blocks, the instructions follow each other as
  before, and the calls that the solver pass collects are exactly those that were isolated.
\<close>

section \<open>Which calls are isolated\<close>

definition isBenchmarkInfrastructureFunction :: "string \<Rightarrow> bool" where
  "isBenchmarkInfrastructureFunction n \<longleftrightarrow>
     startsWith n ''timing_gpio'' \<or> startsWith n ''_timing_delay'' \<or> startsWith n ''debug_'' \<or> startsWith n ''uart_''"

definition isSchematicHelperCallee :: "string \<Rightarrow> bool \<Rightarrow> bool" where
  "isSchematicHelperCallee n isIntrinsic \<longleftrightarrow>
     isIntrinsic \<or> n = ''__loop_tripcount'' \<or> n = ''bench_halt'' \<or> n = ''bench_commit_result'' \<or>
     isBenchmarkInfrastructureFunction n \<or>
     startsWith n ''__mspabi_'' \<or> startsWith n ''__aeabi_'' \<or> startsWith n ''__div'' \<or>
     startsWith n ''__udiv'' \<or> startsWith n ''__mul'' \<or> startsWith n ''__mod''"

definition isIsolatableCall :: "call_info \<Rightarrow> bool" where
  "isIsolatableCall cb =
     (if cbInlineAsm cb then False
      else case cbCallee cb of
             None \<Rightarrow> False
           | Some (n, isIntrinsic, isDeclaration) \<Rightarrow> \<not> isDeclaration \<and> \<not> isSchematicHelperCallee n isIntrinsic)"

definition getCallBase :: "ir_inst \<Rightarrow> call_info option" where
  "getCallBase i = (case inKind i of CallInst cb \<Rightarrow> Some cb | InvokeInst cb \<Rightarrow> Some cb | _ \<Rightarrow> None)"

record ir_metadata =
  callEntryMD :: "(value_ptr, u32) omap"
  callExitMD :: "(value_ptr, u32) omap"

definition isIsolatedCallEntry :: "ir_metadata \<Rightarrow> ir_inst \<Rightarrow> bool" where
  "isIsolatedCallEntry md i \<longleftrightarrow> getCallBase i \<noteq> None \<and> map_of (callEntryMD md) (inId i) \<noteq> None"

section \<open>Recursion\<close>

definition definedCallee :: "ir_inst \<Rightarrow> string option" where
  "definedCallee i =
     (case getCallBase i of
        None \<Rightarrow> None
      | Some cb \<Rightarrow> (case cbCallee cb of
                      None \<Rightarrow> None
                    | Some (n, _, isDeclaration) \<Rightarrow> if isDeclaration then None else Some n))"

type_synonym call_graph = "(string \<times> string list) list"

definition addCall :: "string \<Rightarrow> call_graph \<Rightarrow> ir_inst \<Rightarrow> call_graph" where
  "addCall f g i =
     (case definedCallee i of
        None \<Rightarrow> g
      | Some c \<Rightarrow> (case map_of g f of
                     None \<Rightarrow> g @ [(f, [c])]
                   | Some cs \<Rightarrow> if c \<in> set cs then g else AList.update f (cs @ [c]) g))"

definition buildCallGraph :: "ir_function list \<Rightarrow> call_graph" where
  "buildCallGraph M = foldl (\<lambda>g F. foldl (addCall (ifName F)) g (irInsts F)) [] M"

definition callees :: "(string list \<Rightarrow> string list) \<Rightarrow> call_graph \<Rightarrow> string \<Rightarrow> string list" where
  "callees ord g f = (case map_of g f of None \<Rightarrow> [] | Some cs \<Rightarrow> ord cs)"

datatype color = White | Gray | Black

text \<open>The loop over the callees of \<open>f\<close>, after \<open>f\<close> was coloured gray. The result is the edge that closes a
  cycle, if there is one, and the colours.\<close>

partial_function (option) dfsCallees ::
  "(string \<Rightarrow> string list) \<Rightarrow> string \<Rightarrow> string list \<Rightarrow> (string \<Rightarrow> color) \<Rightarrow> ((string \<times> string) option \<times> (string \<Rightarrow> color)) option" where
  "dfsCallees succ f cs color =
     (case cs of
        [] \<Rightarrow> Some (None, color(f := Black))
      | c # cs' \<Rightarrow>
          (if color c = Gray then Some (Some (f, c), color)
           else if color c = White then
             Option.bind (dfsCallees succ c (succ c) (color(c := Gray))) (\<lambda>(r, color').
               case r of Some e \<Rightarrow> Some (Some e, color') | None \<Rightarrow> dfsCallees succ f cs' color')
           else dfsCallees succ f cs' color))"

definition dfsCycle ::
  "(string \<Rightarrow> string list) \<Rightarrow> string \<Rightarrow> (string \<Rightarrow> color) \<Rightarrow> ((string \<times> string) option \<times> (string \<Rightarrow> color)) option" where
  "dfsCycle succ f color = dfsCallees succ f (succ f) (color(f := Gray))"

fun detectFrom ::
  "(string \<Rightarrow> string list) \<Rightarrow> string list \<Rightarrow> (string \<Rightarrow> color) \<Rightarrow> (string \<times> string) option option" where
  "detectFrom succ [] color = Some None"
| "detectFrom succ (f # fs) color =
     (if color f = White then
        Option.bind (dfsCycle succ f color) (\<lambda>(r, color').
          case r of Some e \<Rightarrow> Some (Some e) | None \<Rightarrow> detectFrom succ fs color')
      else detectFrom succ fs color)"

definition detectRecursion :: "(string list \<Rightarrow> string list) \<Rightarrow> ir_function list \<Rightarrow> (string \<times> string) option option" where
  "detectRecursion ord M =
     (let g = buildCallGraph M in detectFrom (callees ord g) (ord (map fst g)) (\<lambda>_. White))"

text \<open>The functions of the module call each other directly.\<close>

definition calls :: "ir_function list \<Rightarrow> (string \<times> string) set" where
  "calls M = {(f, c). \<exists>F \<in> set M. ifName F = f \<and> (\<exists>i \<in> set (irInsts F). definedCallee i = Some c)}"

section \<open>The search finds the cycles of a graph\<close>

lemma graph_addCall:
  "c \<in> set (callees (\<lambda>x. x) (addCall f g i) h) \<longleftrightarrow> c \<in> set (callees (\<lambda>x. x) g h) \<or> h = f \<and> definedCallee i = Some c"
  by (auto simp: addCall_def callees_def update_conv map_add_def split: option.splits if_splits)

lemma graph_addCalls:
  "c \<in> set (callees (\<lambda>x. x) (foldl (addCall f) g is) h) \<longleftrightarrow>
     c \<in> set (callees (\<lambda>x. x) g h) \<or> h = f \<and> (\<exists>i \<in> set is. definedCallee i = Some c)"
  by (induction "is" arbitrary: g) (auto simp: graph_addCall)

lemma graph_buildCallGraph: "c \<in> set (callees (\<lambda>x. x) (buildCallGraph M) h) \<longleftrightarrow> (h, c) \<in> calls M"
proof -
  have "c \<in> set (callees (\<lambda>x. x) (foldl (\<lambda>g F. foldl (addCall (ifName F)) g (irInsts F)) g M) h) \<longleftrightarrow>
      c \<in> set (callees (\<lambda>x. x) g h) \<or> (h, c) \<in> calls M" for g
    by (induction M arbitrary: g) (auto simp: graph_addCalls calls_def)
  then show ?thesis by (auto simp: buildCallGraph_def callees_def)
qed

lemma map_of_fst_callees: "c \<in> set (callees (\<lambda>x. x) g h) \<Longrightarrow> h \<in> set (map fst g)"
  by (cases "map_of g h") (auto simp: callees_def map_of_eq_None_iff domIff dest: map_of_SomeD intro: rev_image_eqI)

text \<open>During the search of \<open>f\<close>: gray nodes reach \<open>f\<close>, black nodes have black successors only and are on no cycle.\<close>

definition succ_rel :: "('a \<Rightarrow> 'a list) \<Rightarrow> ('a \<times> 'a) set" where
  "succ_rel succ = {(a, b). b \<in> set (succ a)}"

definition black_ok :: "(string \<Rightarrow> string list) \<Rightarrow> (string \<Rightarrow> color) \<Rightarrow> bool" where
  "black_ok succ color \<longleftrightarrow> (\<forall>a. color a = Black \<longrightarrow> (\<forall>b \<in> set (succ a). color b = Black) \<and> (a, a) \<notin> (succ_rel succ)\<^sup>+)"

lemma black_closed:
  assumes "(a, b) \<in> (succ_rel succ)\<^sup>*" "black_ok succ color" "color a = Black"
  shows "color b = Black"
  using assms by (induction rule: rtrancl_induct) (auto simp: black_ok_def succ_rel_def)

lemma black_ok_blacken:
  assumes "black_ok succ color" "\<forall>b \<in> set (succ f). color b = Black" "color f \<noteq> Black"
  shows "black_ok succ (color(f := Black))"
proof -
  have "(f, f) \<notin> (succ_rel succ)\<^sup>+"
  proof
    assume "(f, f) \<in> (succ_rel succ)\<^sup>+"
    then obtain b where "(f, b) \<in> succ_rel succ" "(b, f) \<in> (succ_rel succ)\<^sup>*" by (metis tranclD)
    with assms black_closed [of b f succ color] show False by (auto simp: succ_rel_def)
  qed
  with assms show ?thesis by (auto simp: black_ok_def)
qed

definition dfs_post :: "(string \<Rightarrow> string list) \<Rightarrow> string \<Rightarrow> (string \<Rightarrow> color) \<Rightarrow> (string \<times> string) option \<Rightarrow> (string \<Rightarrow> color) \<Rightarrow> bool" where
  "dfs_post succ f color r color' \<longleftrightarrow>
     (if r = None
      then black_ok succ color' \<and> color' f = Black \<and> (\<forall>a. color' a = Gray \<longleftrightarrow> color a = Gray \<and> a \<noteq> f)
           \<and> (\<forall>a. color a = Black \<longrightarrow> color' a = Black)
      else \<not> acyclic (succ_rel succ))"

definition dfs_pre :: "(string \<Rightarrow> string list) \<Rightarrow> string \<Rightarrow> string list \<Rightarrow> (string \<Rightarrow> color) \<Rightarrow> bool" where
  "dfs_pre succ f cs color \<longleftrightarrow>
     set cs \<subseteq> set (succ f) \<and> (\<forall>b \<in> set (succ f) - set cs. color b = Black) \<and> color f = Gray
     \<and> (\<forall>a. color a = Gray \<longrightarrow> (a, f) \<in> (succ_rel succ)\<^sup>*) \<and> black_ok succ color"

lemma dfs_pre_child:
  assumes "dfs_pre succ f (c # cs) color" "color c = White"
  shows "dfs_pre succ c (succ c) (color(c := Gray))"
proof -
  have edge: "(f, c) \<in> succ_rel succ" using assms by (auto simp: dfs_pre_def succ_rel_def)
  have "black_ok succ (color(c := Gray))" using assms by (auto simp: dfs_pre_def black_ok_def)
  moreover have "(a, c) \<in> (succ_rel succ)\<^sup>*" if "color a = Gray" for a
    using that assms edge by (auto simp: dfs_pre_def intro: rtrancl_into_rtrancl)
  ultimately show ?thesis by (auto simp: dfs_pre_def)
qed

lemma dfs_pre_continue:
  assumes "dfs_pre succ f (c # cs) color" "color c = White" "dfs_post succ c (color(c := Gray)) None color'"
  shows "dfs_pre succ f cs color'"
  using assms by (auto simp: dfs_pre_def dfs_post_def split: if_splits)

lemma dfs_post_continue:
  assumes "dfs_pre succ f (c # cs) color" "color c = White" "dfs_post succ c (color(c := Gray)) None color'"
    "dfs_post succ f color' r color''"
  shows "dfs_post succ f color r color''"
  using assms by (auto simp: dfs_pre_def dfs_post_def split: if_splits)

lemma dfs_white_less:
  assumes "finite U" "c \<in> U" "color c = White"
  shows "card {a \<in> U. (color(c := Gray)) a = White} < card {a \<in> U. color a = White}"
  using assms by (intro psubset_card_mono) auto

lemma dfs_white_le:
  assumes "finite U" "dfs_post succ c (color(c := Gray)) None color'" 
  shows "card {a \<in> U. color' a = White} \<le> card {a \<in> U. color a = White}"
proof (rule card_mono)
  show "{a \<in> U. color' a = White} \<subseteq> {a \<in> U. color a = White}"
  proof clarify
    fix a assume a: "color' a = White"
    with assms(2) have "color a \<noteq> Black" "\<not> ((color(c := Gray)) a = Gray \<and> a \<noteq> c)" "a \<noteq> c"
      by (auto simp: dfs_post_def split: if_splits)
    then show "color a = White" by (cases "color a") auto
  qed
qed (use assms in simp)

lemma dfsCallees_correct:
  assumes U: "finite U" "\<forall>a \<in> U. set (succ a) \<subseteq> U"
    and "f \<in> U" "dfs_pre succ f cs color" "card {a \<in> U. color a = White} \<le> n"
  shows "\<exists>r color'. dfsCallees succ f cs color = Some (r, color') \<and> dfs_post succ f color r color'"
  using assms(3-)
proof (induction n arbitrary: f cs color rule: less_induct)
  case (less n)
  show ?case using less.prems
  proof (induction cs arbitrary: color)
    case Nil
    then show ?case using black_ok_blacken [of succ color f]
      by (subst dfsCallees.simps) (auto simp: dfs_pre_def dfs_post_def)
  next
    case (Cons c cs)
    have edge: "(f, c) \<in> succ_rel succ" and cU: "c \<in> U"
      using Cons.prems U by (auto simp: dfs_pre_def succ_rel_def)
    show ?case
    proof (cases "color c")
      case Gray
      with Cons.prems edge have "(c, c) \<in> (succ_rel succ)\<^sup>+" by (auto simp: dfs_pre_def intro: rtrancl_into_trancl1)
      with Gray show ?thesis by (subst dfsCallees.simps) (auto simp: dfs_post_def acyclic_def)
    next
      case Black
      with Cons.prems have "dfs_pre succ f cs color" by (auto simp: dfs_pre_def)
      from Cons.IH [OF Cons.prems(1) this Cons.prems(3)] Black show ?thesis by (subst dfsCallees.simps) auto
    next
      case White
      let ?m = "card {a \<in> U. (color(c := Gray)) a = White}"
      have "?m < n" using dfs_white_less [of U c color, OF U(1) cU White] Cons.prems(3) by linarith
      from less.IH [OF this cU dfs_pre_child [OF Cons.prems(2) White] order_refl]
      obtain r color' where r: "dfsCallees succ c (succ c) (color(c := Gray)) = Some (r, color')"
        "dfs_post succ c (color(c := Gray)) r color'" by blast
      show ?thesis
      proof (cases r)
        case (Some e)
        with r White show ?thesis by (subst dfsCallees.simps) (simp add: dfs_post_def)
      next
        case None
        note post = r(2) [unfolded None]
        have "card {a \<in> U. color' a = White} \<le> n" using dfs_white_le [OF U(1) post] Cons.prems(3) by linarith
        from Cons.IH [OF Cons.prems(1) dfs_pre_continue [OF Cons.prems(2) White post] this]
        obtain r2 color2 where "dfsCallees succ f cs color' = Some (r2, color2)" "dfs_post succ f color' r2 color2" by blast
        with r None White dfs_post_continue [OF Cons.prems(2) White post] show ?thesis
          by (subst dfsCallees.simps) auto
      qed
    qed
  qed
qed

lemma detectFrom_correct:
  assumes U: "finite U" "succ_rel succ \<subseteq> U \<times> U" and "set fs \<subseteq> U"
    "black_ok succ color" "\<forall>a. color a \<noteq> Gray" "\<forall>a. succ a \<noteq> [] \<longrightarrow> a \<in> set fs \<or> color a = Black"
  shows "\<exists>r. detectFrom succ fs color = Some r \<and> (r = None \<longleftrightarrow> acyclic (succ_rel succ))"
  using assms(3-)
proof (induction fs arbitrary: color)
  case Nil
  have "acyclic (succ_rel succ)"
  proof (rule acyclicI, intro allI notI)
    fix a assume a: "(a, a) \<in> (succ_rel succ)\<^sup>+"
    then have "succ a \<noteq> []" by (auto simp: succ_rel_def dest: tranclD)
    with a show False using Nil by (auto simp: black_ok_def)
  qed
  then show ?case by simp
next
  case (Cons f fs)
  show ?case
  proof (cases "color f = White")
    case False
    with Cons.prems have "color f = Black" by (cases "color f") auto
    with Cons show ?thesis by auto
  next
    case True
    have "dfs_pre succ f (succ f) (color(f := Gray))" using Cons.prems True by (auto simp: dfs_pre_def black_ok_def)
    moreover have "\<forall>a \<in> U. set (succ a) \<subseteq> U" "f \<in> U" using U(2) Cons.prems by (auto simp: succ_rel_def)
    ultimately
    obtain r color' where r: "dfsCallees succ f (succ f) (color(f := Gray)) = Some (r, color')"
      "dfs_post succ f (color(f := Gray)) r color'" using dfsCallees_correct [OF U(1) _ _ _ order_refl] by blast
    show ?thesis
    proof (cases r)
      case (Some e)
      with Some r True show ?thesis by (simp add: dfsCycle_def dfs_post_def)
    next
      case None
      note post = r(2) [unfolded None dfs_post_def, simplified]
      have black: "color' a = Black" if "succ a \<noteq> []" "a \<notin> set fs" for a
        using Cons.prems(4) that post by (cases "a = f") auto
      have gray: "color' a \<noteq> Gray" for a using post Cons.prems(3) by (cases "a = f") auto
      have "\<exists>r. detectFrom succ fs color' = Some r \<and> (r = None \<longleftrightarrow> acyclic (succ_rel succ))"
      proof (rule Cons.IH)
        show "set fs \<subseteq> U" using Cons.prems(1) by simp
        show "black_ok succ color'" using post by blast
        show "\<forall>a. color' a \<noteq> Gray" using gray by blast
        show "\<forall>a. succ a \<noteq> [] \<longrightarrow> a \<in> set fs \<or> color' a = Black" using black by blast
      qed
      with r None True show ?thesis by (simp add: dfsCycle_def)
    qed
  qed
qed

text \<open>(C16) Recursion is rejected exactly when some function reaches itself through direct calls of defined
  functions, in whatever order the hash containers are iterated; the search always ends.\<close>

theorem detectRecursion_correct:
  assumes "\<forall>xs. set (ord xs) = set xs"
  shows "\<exists>r. detectRecursion ord M = Some r \<and> (r \<noteq> None \<longleftrightarrow> (\<exists>f. (f, f) \<in> (calls M)\<^sup>+))"
proof -
  let ?g = "buildCallGraph M" let ?s = "callees ord ?g" let ?k = "set (ord (map fst ?g))"
  have s: "set (?s a) = set (callees (\<lambda>x. x) ?g a)" for a using assms by (simp add: callees_def split: option.split)
  then have rel: "succ_rel ?s = calls M" by (auto simp: succ_rel_def graph_buildCallGraph)
  let ?U = "?k \<union> (\<Union>a \<in> ?k. set (?s a))"
  have keys: "a \<in> ?k" if "?s a \<noteq> []" for a
  proof (cases "map_of ?g a")
    case (Some cs)
    then have "a \<in> set (map fst ?g)" by (metis map_of_SomeD fst_conv image_eqI set_map)
    with assms show ?thesis by simp
  qed (use that in \<open>simp add: callees_def\<close>)
  have "succ_rel ?s \<subseteq> ?U \<times> ?U"
  proof (rule subrelI)
    fix a b assume "(a, b) \<in> succ_rel ?s"
    then have "b \<in> set (?s a)" by (simp add: succ_rel_def)
    moreover from this have "a \<in> ?k" using keys [of a] by force
    ultimately show "(a, b) \<in> ?U \<times> ?U" by blast
  qed
  then have "\<exists>r. detectFrom ?s (ord (map fst ?g)) (\<lambda>_. White) = Some r \<and> (r = None \<longleftrightarrow> acyclic (succ_rel ?s))"
    using keys by (intro detectFrom_correct) (auto simp: black_ok_def)
  then show ?thesis by (auto simp: detectRecursion_def Let_def rel acyclic_def)
qed

definition sample_call :: "nat \<Rightarrow> string \<Rightarrow> ir_inst" where
  "sample_call n f = \<lparr>inId = n, inKind = CallInst \<lparr>cbInlineAsm = False, cbCallee = Some (f, False, False),
     cbDoesNotAccessMemory = False, cbOnlyReadsMemory = False\<rparr>, inOperands = [], inVoid = True, inSized = False, inAllocSize = 0\<rparr>"

definition sample_caller :: "string \<Rightarrow> ir_inst list \<Rightarrow> ir_function" where
  "sample_caller f is = \<lparr>ifName = f, ifBlocks = [(1, is)], ifSuccs = \<lambda>_. []\<rparr>"

theorem detectRecursion_correct_witness:
  "detectRecursion (\<lambda>xs. xs) [sample_caller ''f'' [sample_call 2 ''g''], sample_caller ''g'' [sample_call 3 ''f'']] = Some (Some (''g'', ''f''))
   \<and> (\<exists>f. (f, f) \<in> (calls [sample_caller ''f'' [sample_call 2 ''g''], sample_caller ''g'' [sample_call 3 ''f'']])\<^sup>+)"
proof -
  let ?M = "[sample_caller ''f'' [sample_call 2 ''g''], sample_caller ''g'' [sample_call 3 ''f'']]"
  have "detectRecursion (\<lambda>xs. xs) ?M = Some (Some (''g'', ''f''))"
    by (simp add: detectRecursion_def buildCallGraph_def addCall_def definedCallee_def getCallBase_def sample_caller_def sample_call_def
      irInsts_def callees_def dfsCycle_def dfsCallees.simps Let_def)
  with detectRecursion_correct [of "\<lambda>xs. xs" ?M] show ?thesis by simp
qed

section \<open>Splitting blocks\<close>

type_synonym ir_blocks = "(bb_ptr \<times> ir_inst list) list"

text \<open>LLVM's unconditional branch, its renaming of a predecessor in a PHI node, \<open>splitBasicBlock\<close> at position \<open>k\<close>
  of block \<open>pre\<close>, and \<open>SplitEdge\<close> for an edge to a block with a single predecessor.\<close>

definition branchInst :: "value_ptr \<Rightarrow> ir_inst" where
  "branchInst v = \<lparr>inId = v, inKind = OtherInst False, inOperands = [], inVoid = True, inSized = False, inAllocSize = 0\<rparr>"

definition replacePhiPred :: "bb_ptr \<Rightarrow> bb_ptr \<Rightarrow> ir_inst \<Rightarrow> ir_inst" where
  "replacePhiPred a b i =
     (case inKind i of
        PHINode inc \<Rightarrow> i\<lparr>inKind := PHINode (map (\<lambda>(v, p). (v, if p = a then b else p)) inc)\<rparr>
      | _ \<Rightarrow> i)"

definition updatePhis :: "bb_ptr set \<Rightarrow> bb_ptr \<Rightarrow> bb_ptr \<Rightarrow> ir_blocks \<Rightarrow> ir_blocks" where
  "updatePhis S a b bs = map (\<lambda>(c, is). (c, if c \<in> S then map (replacePhiPred a b) is else is)) bs"

fun splitBlockList :: "bb_ptr \<Rightarrow> nat \<Rightarrow> bb_ptr \<Rightarrow> ir_inst \<Rightarrow> ir_blocks \<Rightarrow> ir_blocks" where
  "splitBlockList pre k nb br [] = []"
| "splitBlockList pre k nb br ((b, is) # bs) =
     (if b = pre then (b, take k is @ [br]) # (nb, drop k is) # bs else (b, is) # splitBlockList pre k nb br bs)"

definition splitBasicBlock :: "bb_ptr \<Rightarrow> nat \<Rightarrow> bb_ptr \<Rightarrow> value_ptr \<Rightarrow> ir_function \<Rightarrow> ir_function" where
  "splitBasicBlock pre k nb br F =
     F\<lparr>ifBlocks := updatePhis (set (ifSuccs F pre)) pre nb (splitBlockList pre k nb (branchInst br) (ifBlocks F)),
       ifSuccs := (ifSuccs F)(nb := ifSuccs F pre, pre := [nb])\<rparr>"

fun insertBlockBefore :: "bb_ptr \<Rightarrow> bb_ptr \<times> ir_inst list \<Rightarrow> ir_blocks \<Rightarrow> ir_blocks" where
  "insertBlockBefore post x [] = []"
| "insertBlockBefore post x (b # bs) = (if fst b = post then x # b # bs else b # insertBlockBefore post x bs)"

definition splitEdge :: "bb_ptr \<Rightarrow> bb_ptr \<Rightarrow> bb_ptr \<Rightarrow> value_ptr \<Rightarrow> ir_function \<Rightarrow> ir_function" where
  "splitEdge from post x br F =
     F\<lparr>ifBlocks := insertBlockBefore post (x, [branchInst br]) (updatePhis {post} from x (ifBlocks F)),
       ifSuccs := (ifSuccs F)(x := [post], from := map (\<lambda>s. if s = post then x else s) (ifSuccs F from))\<rparr>"

section \<open>Isolating the calls of a function\<close>

text \<open>The function under transformation, the metadata, the next group number and the next fresh address.\<close>

record iso_state =
  isoFun :: ir_function
  isoMD :: ir_metadata
  isoGid :: u32
  isoFresh :: nat

definition splitOneCall :: "bb_ptr \<Rightarrow> nat \<Rightarrow> ir_inst \<Rightarrow> iso_state \<Rightarrow> iso_state" where
  "splitOneCall pre k CI s =
     (let gid = isoGid s; n = isoFresh s; from = n; post = n + 2; x = n + 4;
          F1 = splitBasicBlock pre k from (n + 1) (isoFun s);
          F2 = splitBasicBlock from 1 post (n + 3) F1;
          F3 = splitEdge from post x (n + 5) F2
      in s\<lparr>isoFun := F3,
           isoMD := (isoMD s)\<lparr>callEntryMD := omap_put (inId CI) gid (callEntryMD (isoMD s)),
                              callExitMD := omap_put (n + 5) gid (callExitMD (isoMD s))\<rparr>,
           isoGid := gid + 1, isoFresh := n + 6\<rparr>)"

definition needsIsolation :: "ir_metadata \<Rightarrow> ir_inst \<Rightarrow> bool" where
  "needsIsolation md i \<longleftrightarrow>
     (case inKind i of
        CallInst cb \<Rightarrow> map_of (callEntryMD md) (inId i) = None \<and> isIsolatableCall cb
      | _ \<Rightarrow> False)"

fun scanForCall :: "ir_metadata \<Rightarrow> ir_inst list \<Rightarrow> (nat \<times> ir_inst) option" where
  "scanForCall md [] = None"
| "scanForCall md (i # is) =
     (if needsIsolation md i then Some (0, i) else map_option (\<lambda>(k, j). (Suc k, j)) (scanForCall md is))"

fun findCall :: "ir_metadata \<Rightarrow> ir_blocks \<Rightarrow> (bb_ptr \<times> nat \<times> ir_inst) option" where
  "findCall md [] = None"
| "findCall md ((b, is) # bs) =
     (case scanForCall md is of Some (k, i) \<Rightarrow> Some (b, k, i) | None \<Rightarrow> findCall md bs)"

lemma scanForCall_Some:
  "scanForCall md is = Some (k, i) \<Longrightarrow> needsIsolation md i \<and> (\<exists>xs ys. is = xs @ i # ys \<and> length xs = k)"
proof (induction "is" arbitrary: k)
  case (Cons a "is")
  show ?case
  proof (cases "needsIsolation md a")
    case False
    with Cons.prems obtain k' where k: "scanForCall md is = Some (k', i)" "k = Suc k'" by auto
    from Cons.IH [OF k(1)] obtain xs ys where "needsIsolation md i" "is = xs @ i # ys" "length xs = k'" by blast
    with k(2) have "a # is = (a # xs) @ i # ys" "length (a # xs) = k" by simp_all
    with \<open>needsIsolation md i\<close> show ?thesis by blast
  qed (use Cons.prems in \<open>force intro: exI [of _ "[]"]\<close>)
qed simp

lemma findCall_Some:
  assumes "findCall md bs = Some (b, k, i)"
  shows "needsIsolation md i \<and> (\<exists>bs1 xs ys bs2. bs = bs1 @ (b, xs @ i # ys) # bs2 \<and> length xs = k)"
  using assms
proof (induction bs)
  case (Cons a bs)
  obtain c "is" where a: "a = (c, is)" by fastforce
  show ?case
  proof (cases "scanForCall md is")
    case None
    with Cons a obtain bs1 xs ys bs2 where "needsIsolation md i" "bs = bs1 @ (b, xs @ i # ys) # bs2" "length xs = k" by auto
    then have "needsIsolation md i" "a # bs = (a # bs1) @ (b, xs @ i # ys) # bs2" "length xs = k" by simp_all
    then show ?thesis by blast
  next
    case (Some p)
    with Cons.prems a scanForCall_Some [of md "is" k i] show ?thesis by (cases p) force
  qed
qed simp

lemma scanForCall_None: "scanForCall md is = None \<Longrightarrow> i \<in> set is \<Longrightarrow> \<not> needsIsolation md i"
  by (induction "is") (auto split: if_splits)

lemma findCall_None: "findCall md bs = None \<Longrightarrow> (b, is) \<in> set bs \<Longrightarrow> i \<in> set is \<Longrightarrow> \<not> needsIsolation md i"
  by (induction md bs rule: findCall.induct) (auto split: option.splits dest: scanForCall_None)

text \<open>Splitting keeps the calls, so each round leaves fewer of them without a mark.\<close>

definition callsOf :: "ir_blocks \<Rightarrow> ir_inst list" where
  "callsOf bs = filter (\<lambda>i. \<exists>cb. inKind i = CallInst cb) (concat (map snd bs))"

lemma replacePhiPred_id [simp]: "inId (replacePhiPred a b i) = inId i"
  by (simp add: replacePhiPred_def split: inst_kind.splits)

lemma replacePhiPred_other: "\<not> isPHINode i \<Longrightarrow> replacePhiPred a b i = i"
  by (simp add: replacePhiPred_def isPHINode_def split: inst_kind.splits)

lemma replacePhiPred_phi [simp]: "isPHINode (replacePhiPred a b i) = isPHINode i"
  by (simp add: replacePhiPred_def isPHINode_def split: inst_kind.splits)

lemma filter_calls_rename: "filter (\<lambda>i. \<exists>cb. inKind i = CallInst cb) (map (replacePhiPred a b) is) = filter (\<lambda>i. \<exists>cb. inKind i = CallInst cb) is"
  by (induction "is") (auto simp: replacePhiPred_def split: inst_kind.splits)

lemma callsOf_updatePhis [simp]: "callsOf (updatePhis S a b bs) = callsOf bs"
  by (induction bs) (auto simp: callsOf_def updatePhis_def filter_calls_rename)

lemma callsOf_Cons: "callsOf (b # bs) = filter (\<lambda>i. \<exists>cb. inKind i = CallInst cb) (snd b) @ callsOf bs"
  by (simp add: callsOf_def)

lemma branchInst_simps [simp]: "inKind (branchInst v) = OtherInst False" "inId (branchInst v) = v" "\<not> isPHINode (branchInst v)"
  by (simp_all add: branchInst_def isPHINode_def)

lemma callsOf_splitBlockList: "inKind br = OtherInst x \<Longrightarrow> callsOf (splitBlockList pre k nb br bs) = callsOf bs"
proof (induction pre k nb br bs rule: splitBlockList.induct)
  case (2 pre k nb br b "is" bs)
  let ?c = "filter (\<lambda>i. \<exists>cb. inKind i = CallInst cb)"
  have "?c (take k is) @ ?c (drop k is) = ?c is" by (metis append_take_drop_id filter_append)
  with 2 show ?case by (auto simp: callsOf_Cons simp flip: append_assoc)
qed simp

lemma callsOf_insertBlockBefore [simp]: "callsOf (insertBlockBefore post (x, [branchInst v]) bs) = callsOf bs"
  by (induction bs) (auto simp: callsOf_Cons)

lemma callsOf_splitOneCall: "callsOf (ifBlocks (isoFun (splitOneCall pre k CI s))) = callsOf (ifBlocks (isoFun s))"
  by (simp add: splitOneCall_def splitEdge_def splitBasicBlock_def Let_def callsOf_splitBlockList [OF branchInst_simps(1)])


lemma callEntryMD_splitOneCall:
  "callEntryMD (isoMD (splitOneCall pre k CI s)) = omap_put (inId CI) (isoGid s) (callEntryMD (isoMD s))"
  by (simp add: splitOneCall_def Let_def)

definition openCalls :: "iso_state \<Rightarrow> ir_inst list" where
  "openCalls s = filter (needsIsolation (isoMD s)) (callsOf (ifBlocks (isoFun s)))"

lemma length_filter_strict:
  assumes "\<And>x. Q x \<Longrightarrow> P x" "x \<in> set xs" "P x" "\<not> Q x"
  shows "length (filter Q xs) < length (filter P xs)"
proof -
  have "filter Q xs = filter Q (filter P xs)" using assms(1) by (auto intro: filter_cong)
  moreover have "length (filter Q (filter P xs)) < length (filter P xs)"
    using assms by (intro length_filter_less [of x]) auto
  ultimately show ?thesis by simp
qed

lemma openCalls_less:
  assumes "i \<in> set (callsOf (ifBlocks (isoFun s)))" "needsIsolation (isoMD s) i"
  shows "length (openCalls (splitOneCall b k i s)) < length (openCalls s)"
proof -
  have "needsIsolation (isoMD (splitOneCall b k i s)) j \<Longrightarrow> needsIsolation (isoMD s) j" for j
    by (auto simp: needsIsolation_def callEntryMD_splitOneCall map_of_omap_put split: inst_kind.splits if_splits)
  moreover have "\<not> needsIsolation (isoMD (splitOneCall b k i s)) i"
    by (auto simp: needsIsolation_def callEntryMD_splitOneCall map_of_omap_put split: inst_kind.splits)
  ultimately show ?thesis unfolding openCalls_def callsOf_splitOneCall using assms by (intro length_filter_strict)
qed

lemma openCalls_splitOneCall:
  assumes "findCall (isoMD s) (ifBlocks (isoFun s)) = Some (b, k, i)"
  shows "length (openCalls (splitOneCall b k i s)) < length (openCalls s)"
proof -
  from findCall_Some [OF assms] obtain bs1 xs ys bs2 where n: "needsIsolation (isoMD s) i"
    and b: "ifBlocks (isoFun s) = bs1 @ (b, xs @ i # ys) # bs2" by blast
  have "i \<in> set (callsOf (ifBlocks (isoFun s)))" using n b by (auto simp: callsOf_def needsIsolation_def split: inst_kind.splits)
  then show ?thesis using n by (rule openCalls_less)
qed

text \<open>The scan starts again after each split.\<close>

function isolateInFunction :: "iso_state \<Rightarrow> u32 \<Rightarrow> u32 \<times> iso_state" where
  "isolateInFunction s count =
     (case findCall (isoMD s) (ifBlocks (isoFun s)) of
        Some (b, k, i) \<Rightarrow> isolateInFunction (splitOneCall b k i s) (count + 1)
      | None \<Rightarrow> (count, s))"
  by auto
termination
  by (relation "measure (\<lambda>(s, count). length (openCalls s))") (simp_all add: openCalls_splitOneCall)

declare isolateInFunction.simps [simp del]

section \<open>The pass\<close>

datatype isolation_error = RecursionUnsupported string string | RecursionSearchDiverges

record iso_module =
  imFuns :: "ir_function list"
  imMD :: ir_metadata
  imGid :: u32
  imFresh :: nat
  imChanged :: bool

definition isolateNext :: "iso_module \<Rightarrow> ir_function \<Rightarrow> iso_module" where
  "isolateNext m F =
     (if isBenchmarkInfrastructureFunction (ifName F) then m\<lparr>imFuns := imFuns m @ [F]\<rparr>
      else let (count, s) = isolateInFunction \<lparr>isoFun = F, isoMD = imMD m, isoGid = imGid m, isoFresh = imFresh m\<rparr> 0
           in \<lparr>imFuns = imFuns m @ [isoFun s], imMD = isoMD s, imGid = isoGid s, imFresh = isoFresh s,
               imChanged = (imChanged m \<or> 0 < count)\<rparr>)"

definition runCallIsolation ::
  "(string list \<Rightarrow> string list) \<Rightarrow> ir_metadata \<Rightarrow> nat \<Rightarrow> ir_function list \<Rightarrow> isolation_error + iso_module" where
  "runCallIsolation ord md n M =
     (case detectRecursion ord M of
        None \<Rightarrow> Inl RecursionSearchDiverges
      | Some (Some (f, c)) \<Rightarrow> Inl (RecursionUnsupported f c)
      | Some None \<Rightarrow> Inr (foldl isolateNext \<lparr>imFuns = [], imMD = md, imGid = 0, imFresh = n, imChanged = False\<rparr> M))"

section \<open>Finding the isolated calls again\<close>

record IsolatedCall =
  icEntry :: bb_ptr
  icExit :: bb_ptr
  icCallee :: "string option"
  icCall :: value_ptr

definition emptyIsolatedCall :: IsolatedCall where
  "emptyIsolatedCall = \<lparr>icEntry = nullptr, icExit = nullptr, icCallee = None, icCall = nullptr\<rparr>"

definition calledFunction :: "ir_inst \<Rightarrow> string option" where
  "calledFunction i = (case getCallBase i of Some cb \<Rightarrow> map_option fst (cbCallee cb) | None \<Rightarrow> None)"

definition collectInst ::
  "ir_metadata \<Rightarrow> (u32, IsolatedCall) omap \<Rightarrow> bb_ptr \<times> ir_inst \<Rightarrow> (u32, IsolatedCall) omap" where
  "collectInst md byGid bi =
     (let (BB, i) = bi;
          byGid1 = (case map_of (callEntryMD md) (inId i) of
                      Some gid \<Rightarrow> omap_put gid ((omap_get emptyIsolatedCall byGid gid)
                        \<lparr>icEntry := BB, icCall := inId i, icCallee := calledFunction i\<rparr>) byGid
                    | None \<Rightarrow> byGid)
      in case map_of (callExitMD md) (inId i) of
           Some gid \<Rightarrow> omap_put gid ((omap_get emptyIsolatedCall byGid1 gid)\<lparr>icExit := BB\<rparr>) byGid1
         | None \<Rightarrow> byGid1)"

definition getSingleSuccessor :: "ir_function \<Rightarrow> bb_ptr \<Rightarrow> bb_ptr" where
  "getSingleSuccessor F b = (case ifSuccs F b of [s] \<Rightarrow> s | _ \<Rightarrow> nullptr)"

definition completeCall :: "ir_function \<Rightarrow> IsolatedCall \<Rightarrow> IsolatedCall" where
  "completeCall F ic =
     (if icEntry ic \<noteq> nullptr \<and> icExit ic = nullptr then ic\<lparr>icExit := getSingleSuccessor F (icEntry ic)\<rparr> else ic)"

definition blockInsts :: "ir_function \<Rightarrow> (bb_ptr \<times> ir_inst) list" where
  "blockInsts F = concat (map (\<lambda>(b, is). map (Pair b) is) (ifBlocks F))"

definition collectIsolatedCalls :: "ir_metadata \<Rightarrow> ir_function \<Rightarrow> IsolatedCall list" where
  "collectIsolatedCalls md F =
     filter (\<lambda>ic. icEntry ic \<noteq> nullptr \<and> icExit ic \<noteq> nullptr \<and> icCallee ic \<noteq> None)
       (map (\<lambda>kv. completeCall F (snd kv)) (foldl (collectInst md) [] (blockInsts F)))"

section \<open>What one split does\<close>

text \<open>Instructions that differ at most in the predecessors named by a PHI node.\<close>

definition same_inst :: "ir_inst \<Rightarrow> ir_inst \<Rightarrow> bool" where
  "same_inst i j \<longleftrightarrow> inId j = inId i \<and> isPHINode j = isPHINode i \<and> (\<not> isPHINode i \<longrightarrow> j = i)"

definition same_blocks :: "ir_blocks \<Rightarrow> ir_blocks \<Rightarrow> bool" where
  "same_blocks bs cs \<longleftrightarrow> list_all2 (\<lambda>b c. fst c = fst b \<and> list_all2 same_inst (snd b) (snd c)) bs cs"

lemma same_inst_refl [simp]: "same_inst i i"
  by (simp add: same_inst_def)

lemma same_inst_trans: "same_inst i j \<Longrightarrow> same_inst j k \<Longrightarrow> same_inst i k"
  by (auto simp: same_inst_def)

lemma same_insts_refl [simp]: "list_all2 same_inst is is"
  by (simp add: list_all2_refl)

lemma same_blocks_refl [simp]: "same_blocks bs bs"
  by (simp add: same_blocks_def list_all2_refl)

lemma same_blocks_trans: "same_blocks bs cs \<Longrightarrow> same_blocks cs ds \<Longrightarrow> same_blocks bs ds"
  unfolding same_blocks_def by (erule (1) list_all2_trans [rotated]) (auto intro: list_all2_trans [OF same_inst_trans])

lemma same_blocks_updatePhis: "same_blocks bs (updatePhis S a b bs)"
proof -
  have "same_inst i (replacePhiPred a b i)" for i by (auto simp: same_inst_def replacePhiPred_other)
  then show ?thesis
    by (auto simp: same_blocks_def updatePhis_def list_all2_map2 split_beta intro!: list_all2_refl)
qed

lemma same_blocks_splitBlockList:
  "same_blocks bs cs \<Longrightarrow> same_blocks (splitBlockList pre k nb br bs) (splitBlockList pre k nb br cs)"
proof (induction bs arbitrary: cs)
  case (Cons b bs)
  from Cons.prems obtain c cs' where c: "cs = c # cs'" "fst c = fst b" "list_all2 same_inst (snd b) (snd c)" "same_blocks bs cs'"
    by (auto simp: same_blocks_def list_all2_Cons1)
  from Cons.IH [OF c(4)] c show ?case
    by (cases b; cases c) (auto simp: same_blocks_def intro: list_all2_appendI)
qed (simp add: same_blocks_def)

lemma same_blocks_insertBlockBefore:
  "same_blocks bs cs \<Longrightarrow> same_blocks (insertBlockBefore post x bs) (insertBlockBefore post x cs)"
proof (induction bs arbitrary: cs)
  case (Cons b bs)
  from Cons.prems obtain c cs' where c: "cs = c # cs'" "fst c = fst b" "list_all2 same_inst (snd b) (snd c)" "same_blocks bs cs'"
    by (auto simp: same_blocks_def list_all2_Cons1)
  from Cons.IH [OF c(4)] c show ?case by (auto simp: same_blocks_def)
qed (simp add: same_blocks_def)

lemma same_blocks_split:
  "same_blocks bs cs \<Longrightarrow> same_blocks (splitBlockList pre k nb br bs) (updatePhis S a b (splitBlockList pre k nb br cs))"
  using same_blocks_trans [OF same_blocks_splitBlockList same_blocks_updatePhis] .

lemma splitBlockList_at:
  "b \<notin> fst ` set bs1 \<Longrightarrow> splitBlockList b (length xs) nb br (bs1 @ (b, xs @ ys) # bs2) = bs1 @ (b, xs @ [br]) # (nb, ys) # bs2"
  by (induction bs1) auto

lemma insertBlockBefore_at:
  "b \<notin> fst ` set bs1 \<Longrightarrow> insertBlockBefore b x (bs1 @ (b, ys) # bs2) = bs1 @ x # (b, ys) # bs2"
  by (induction bs1) auto

text \<open>The blocks of a function after the call \<open>i\<close> of block \<open>b\<close> was isolated.\<close>

definition isolatedBlocks :: "ir_blocks \<Rightarrow> bb_ptr \<Rightarrow> ir_inst list \<Rightarrow> ir_inst \<Rightarrow> ir_inst list \<Rightarrow> ir_blocks \<Rightarrow> nat \<Rightarrow> ir_blocks" where
  "isolatedBlocks bs1 b xs i ys bs2 n =
     bs1 @ (b, xs @ [branchInst (n + 1)]) # (n, [i, branchInst (n + 3)]) # (n + 4, [branchInst (n + 5)]) # (n + 2, ys) # bs2"

lemma splitOneCall_form:
  assumes "ifBlocks (isoFun s) = bs1 @ (b, xs @ i # ys) # bs2" "b \<notin> fst ` set bs1"
    "\<forall>c \<in> fst ` set (ifBlocks (isoFun s)). c < isoFresh s"
  shows "same_blocks (isolatedBlocks bs1 b xs i ys bs2 (isoFresh s)) (ifBlocks (isoFun (splitOneCall b (length xs) i s)))"
    and "ifSuccs (isoFun (splitOneCall b (length xs) i s)) = (ifSuccs (isoFun s))(b := [isoFresh s], isoFresh s := [isoFresh s + 4],
      isoFresh s + 4 := [isoFresh s + 2], isoFresh s + 2 := ifSuccs (isoFun s) b)"
proof -
  let ?n = "isoFresh s" let ?F = "isoFun s"
  let ?F1 = "splitBasicBlock b (length xs) ?n (?n + 1) ?F"
  let ?F2 = "splitBasicBlock ?n 1 (?n + 2) (?n + 3) ?F1"
  have lt: "c < ?n" if "(c, is) \<in> set bs1 \<or> c = b \<or> (c, is) \<in> set bs2" for c "is" using assms(1,3) that by force
  have new: "?n + k \<notin> fst ` set bs1" "?n + k \<noteq> b" for k using lt [of "?n + k"] by force+
  let ?b1 = "bs1 @ (b, xs @ [branchInst (?n + 1)]) # (?n, [] @ i # ys) # bs2"
  let ?b2 = "bs1 @ (b, xs @ [branchInst (?n + 1)]) # (?n, [i] @ [branchInst (?n + 3)]) # (?n + 2, ys) # bs2"
  have 1: "same_blocks ?b1 (ifBlocks ?F1)"
    using same_blocks_updatePhis splitBlockList_at [OF assms(2), of xs ?n "branchInst (?n + 1)" "i # ys" bs2] assms(1)
    by (simp add: splitBasicBlock_def)
  have s2: "splitBlockList ?n 1 (?n + 2) (branchInst (?n + 3)) ?b1 = ?b2"
    using splitBlockList_at [of ?n "bs1 @ [(b, xs @ [branchInst (?n + 1)])]" "[i]" "?n + 2" "branchInst (?n + 3)" ys bs2] new(1,2) [of 0]
    by simp
  have 2: "same_blocks ?b2 (ifBlocks ?F2)"
    using same_blocks_split [OF 1, of ?n 1 "?n + 2" "branchInst (?n + 3)"] s2 by (simp add: splitBasicBlock_def)
  have s3: "insertBlockBefore (?n + 2) (?n + 4, [branchInst (?n + 5)]) ?b2 = isolatedBlocks bs1 b xs i ys bs2 ?n"
    using insertBlockBefore_at [of "?n + 2" "bs1 @ [(b, xs @ [branchInst (?n + 1)]), (?n, [i, branchInst (?n + 3)])]" "(?n + 4, [branchInst (?n + 5)])" ys bs2]
      new(1,2) [of 2] by (simp add: isolatedBlocks_def)
  show "same_blocks (isolatedBlocks bs1 b xs i ys bs2 ?n) (ifBlocks (isoFun (splitOneCall b (length xs) i s)))"
    using same_blocks_insertBlockBefore [OF same_blocks_trans [OF 2 same_blocks_updatePhis], of "?n + 2" "(?n + 4, [branchInst (?n + 5)])"] s3
    by (simp add: splitOneCall_def splitEdge_def Let_def)
  have ne: "b \<noteq> ?n" "b \<noteq> ?n + 2" "b \<noteq> ?n + 4" using new(2) [of 0] new(2) [of 2] new(2) [of 4] by simp_all
  show "ifSuccs (isoFun (splitOneCall b (length xs) i s)) = (ifSuccs ?F)(b := [?n], ?n := [?n + 4], ?n + 4 := [?n + 2], ?n + 2 := ifSuccs ?F b)"
    using ne by (auto simp: splitOneCall_def splitEdge_def splitBasicBlock_def Let_def fun_eq_iff)
qed

lemma list_all2_right: "list_all2 P xs ys \<Longrightarrow> y \<in> set ys \<Longrightarrow> \<exists>x \<in> set xs. P x y"
  by (induction rule: list_all2_induct) auto

lemma list_all2_left: "list_all2 P xs ys \<Longrightarrow> x \<in> set xs \<Longrightarrow> \<exists>y \<in> set ys. P x y"
  by (induction rule: list_all2_induct) auto

lemma same_blocksD:
  assumes "same_blocks bs cs" "(c, js) \<in> set cs"
  obtains "is" where "(c, is) \<in> set bs" "list_all2 same_inst is js"
  using list_all2_right [OF assms(1) [unfolded same_blocks_def] assms(2)] by auto

lemma same_blocksI:
  assumes "same_blocks bs cs" "(c, is) \<in> set bs" "\<forall>i \<in> set is. \<not> isPHINode i"
  shows "(c, is) \<in> set cs"
proof -
  obtain js where js: "(c, js) \<in> set cs" "list_all2 same_inst is js"
    using list_all2_left [OF assms(1) [unfolded same_blocks_def] assms(2)] by auto
  moreover have "js = is" using js(2) assms(3) by (intro nth_equalityI) (auto simp: list_all2_conv_all_nth same_inst_def)
  ultimately show ?thesis by simp
qed

lemma same_blocks_ids: "same_blocks bs cs \<Longrightarrow> map (\<lambda>(b, is). (b, map inId is)) cs = map (\<lambda>(b, is). (b, map inId is)) bs"
proof (induction bs arbitrary: cs)
  case (Cons b bs)
  from Cons.prems obtain c cs' where c: "cs = c # cs'" "fst c = fst b" "list_all2 same_inst (snd b) (snd c)" "same_blocks bs cs'"
    by (auto simp: same_blocks_def list_all2_Cons1)
  have "map inId (snd c) = map inId (snd b)" using c(3) by (intro nth_equalityI) (auto simp: list_all2_conv_all_nth same_inst_def)
  with Cons.IH [OF c(4)] c show ?case by (simp add: split_beta)
qed (simp add: same_blocks_def)

section \<open>Isolated calls stay isolated\<close>

text \<open>A marked call stands in a block with a branch to a block that holds a branch with the same mark.\<close>

definition isolated :: "ir_metadata \<Rightarrow> ir_function \<Rightarrow> bb_ptr \<Rightarrow> ir_inst \<Rightarrow> bool" where
  "isolated md F b i \<longleftrightarrow>
     (\<exists>cb br x br2 p. inKind i = CallInst cb \<and> isIsolatableCall cb \<and> inKind br = OtherInst False \<and> inKind br2 = OtherInst False
       \<and> (b, [i, br]) \<in> set (ifBlocks F) \<and> ifSuccs F b = [x] \<and> (x, [br2]) \<in> set (ifBlocks F) \<and> ifSuccs F x = [p]
       \<and> map_of (callExitMD md) (inId br2) = map_of (callEntryMD md) (inId i))"

definition iso_wf :: "iso_state \<Rightarrow> bool" where
  "iso_wf s \<longleftrightarrow>
     distinct (irBlocks (isoFun s)) \<and> distinct (map inId (irInsts (isoFun s)))
     \<and> (\<forall>b \<in> set (irBlocks (isoFun s)). 0 < b \<and> b < isoFresh s) \<and> (\<forall>i \<in> set (irInsts (isoFun s)). inId i < isoFresh s)
     \<and> (\<forall>v \<in> dom (map_of (callEntryMD (isoMD s))) \<union> dom (map_of (callExitMD (isoMD s))). v < isoFresh s)"

definition marks_isolated :: "iso_state \<Rightarrow> bool" where
  "marks_isolated s \<longleftrightarrow>
     (\<forall>(b, is) \<in> set (ifBlocks (isoFun s)). \<forall>i \<in> set is. map_of (callEntryMD (isoMD s)) (inId i) \<noteq> None \<longrightarrow>
        isolated (isoMD s) (isoFun s) b i)"

text \<open>The state in which the scan found a call, taken apart.\<close>

definition found_call :: "iso_state \<Rightarrow> ir_blocks \<Rightarrow> bb_ptr \<Rightarrow> ir_inst list \<Rightarrow> ir_inst \<Rightarrow> ir_inst list \<Rightarrow> ir_blocks \<Rightarrow> bool" where
  "found_call s bs1 b xs i ys bs2 \<longleftrightarrow>
     ifBlocks (isoFun s) = bs1 @ (b, xs @ i # ys) # bs2 \<and> b \<notin> fst ` set (bs1 @ bs2) \<and> needsIsolation (isoMD s) i
     \<and> inId i \<notin> inId ` (set (concat (map snd bs1)) \<union> set xs \<union> set ys \<union> set (concat (map snd bs2)))"

lemma found_callI:
  assumes "findCall (isoMD s) (ifBlocks (isoFun s)) = Some (b, k, i)" "iso_wf s"
  obtains bs1 xs ys bs2 where "found_call s bs1 b xs i ys bs2" "length xs = k"
proof -
  from findCall_Some [OF assms(1)] obtain bs1 xs ys bs2
    where f: "needsIsolation (isoMD s) i" "ifBlocks (isoFun s) = bs1 @ (b, xs @ i # ys) # bs2" "length xs = k" by blast
  have "b \<notin> fst ` set (bs1 @ bs2)" using assms(2) f(2) by (auto simp: iso_wf_def irBlocks_def)
  moreover have "inId i \<notin> inId ` (set (concat (map snd bs1)) \<union> set xs \<union> set ys \<union> set (concat (map snd bs2)))"
    using assms(2) f(2) by (auto simp: iso_wf_def irInsts_def image_iff)
  ultimately have "found_call s bs1 b xs i ys bs2" using f by (simp add: found_call_def)
  with f(3) that show thesis by blast
qed

lemma same_blocks_fst: "same_blocks bs cs \<Longrightarrow> map fst cs = map fst bs"
  using arg_cong [OF same_blocks_ids, of bs cs "map fst"] by (simp add: split_beta comp_def)

lemma same_blocks_all_ids: "same_blocks bs cs \<Longrightarrow> map inId (concat (map snd cs)) = map inId (concat (map snd bs))"
  using arg_cong [OF same_blocks_ids, of bs cs "concat \<circ> map snd"] by (simp add: split_beta comp_def map_concat)

lemma splitOneCall_fields [simp]:
  "isoFresh (splitOneCall b k i s) = isoFresh s + 6" "isoGid (splitOneCall b k i s) = isoGid s + 1"
  "callExitMD (isoMD (splitOneCall b k i s)) = omap_put (isoFresh s + 5) (isoGid s) (callExitMD (isoMD s))"
  by (simp_all add: splitOneCall_def Let_def)

lemma found_call_form:
  assumes "found_call s bs1 b xs i ys bs2" "iso_wf s"
  shows "same_blocks (isolatedBlocks bs1 b xs i ys bs2 (isoFresh s)) (ifBlocks (isoFun (splitOneCall b (length xs) i s)))"
    and "ifSuccs (isoFun (splitOneCall b (length xs) i s)) = (ifSuccs (isoFun s))(b := [isoFresh s], isoFresh s := [isoFresh s + 4],
      isoFresh s + 4 := [isoFresh s + 2], isoFresh s + 2 := ifSuccs (isoFun s) b)"
proof -
  have "ifBlocks (isoFun s) = bs1 @ (b, xs @ i # ys) # bs2" "b \<notin> fst ` set bs1" using assms(1) by (auto simp: found_call_def)
  moreover have "\<forall>c \<in> fst ` set (ifBlocks (isoFun s)). c < isoFresh s" using assms(2) by (simp add: iso_wf_def irBlocks_def)
  ultimately show "same_blocks (isolatedBlocks bs1 b xs i ys bs2 (isoFresh s)) (ifBlocks (isoFun (splitOneCall b (length xs) i s)))"
    and "ifSuccs (isoFun (splitOneCall b (length xs) i s)) = (ifSuccs (isoFun s))(b := [isoFresh s], isoFresh s := [isoFresh s + 4],
      isoFresh s + 4 := [isoFresh s + 2], isoFresh s + 2 := ifSuccs (isoFun s) b)"
    by (rule splitOneCall_form)+
qed

lemma iso_wf_splitOneCall:
  assumes f: "found_call s bs1 b xs i ys bs2" and wf: "iso_wf s"
  shows "iso_wf (splitOneCall b (length xs) i s)"
proof -
  let ?s = "splitOneCall b (length xs) i s" let ?n = "isoFresh s"
  note same = found_call_form(1) [OF f wf]
  have bs: "ifBlocks (isoFun s) = bs1 @ (b, xs @ i # ys) # bs2" using f by (simp add: found_call_def)
  have blocks: "irBlocks (isoFun ?s) = map fst bs1 @ [b, ?n, ?n + 4, ?n + 2] @ map fst bs2"
    using same_blocks_fst [OF same] by (simp add: irBlocks_def isolatedBlocks_def)
  have old: "irBlocks (isoFun s) = map fst bs1 @ b # map fst bs2" using bs by (simp add: irBlocks_def)
  have ids: "map inId (irInsts (isoFun ?s)) = map inId (concat (map snd bs1)) @ map inId xs @ [?n + 1, inId i, ?n + 3, ?n + 5]
      @ map inId ys @ map inId (concat (map snd bs2))"
    using same_blocks_all_ids [OF same] by (simp add: irInsts_def isolatedBlocks_def)
  have oldids: "map inId (irInsts (isoFun s)) = map inId (concat (map snd bs1)) @ map inId xs @ inId i # map inId ys @ map inId (concat (map snd bs2))"
    using bs by (simp add: irInsts_def)
  have lt: "\<forall>c \<in> set (irBlocks (isoFun s)). 0 < c \<and> c < ?n" "\<forall>v \<in> set (map inId (irInsts (isoFun s))). v < ?n"
    using wf by (auto simp: iso_wf_def)
  have new: "?n + k \<notin> set (irBlocks (isoFun s))" "?n + k \<notin> set (map inId (irInsts (isoFun s)))" for k
    using lt(1) [rule_format, of "?n + k"] lt(2) [rule_format, of "?n + k"] by auto
  have "distinct (irBlocks (isoFun ?s))"
  proof -
    have "distinct (map fst bs1 @ [b] @ map fst bs2)" using wf old by (simp add: iso_wf_def)
    moreover have "?n + k \<notin> set (map fst bs1) \<union> {b} \<union> set (map fst bs2)" for k using new(1) [of k] old by simp
    from this [of 0] this [of 2] this [of 4] have "set [?n, ?n + 4, ?n + 2] \<inter> (set (map fst bs1) \<union> {b} \<union> set (map fst bs2)) = {}" by simp
    ultimately show ?thesis unfolding blocks by (simp add: disjoint_iff) metis
  qed
  moreover have "\<forall>c \<in> set (irBlocks (isoFun ?s)). 0 < c \<and> c < ?n + 6"
  proof
    fix c assume "c \<in> set (irBlocks (isoFun ?s))"
    then have "c \<in> set (irBlocks (isoFun s)) \<or> c = ?n \<or> c = ?n + 4 \<or> c = ?n + 2" unfolding blocks old by auto
    with lt(1) show "0 < c \<and> c < ?n + 6" using lt(1) [rule_format, of b] old by fastforce
  qed
  moreover have "distinct (map inId (irInsts (isoFun ?s)))" "\<forall>v \<in> set (map inId (irInsts (isoFun ?s))). v < ?n + 6"
  proof -
    have d: "distinct (map inId (irInsts (isoFun s)))" using wf by (simp add: iso_wf_def)
    have "?n + k \<notin> inId ` (set (concat (map snd bs1)) \<union> set xs \<union> {i} \<union> set ys \<union> set (concat (map snd bs2)))" for k
      using new(2) [of k] unfolding oldids by auto
    from this [of 1] this [of 3] this [of 5] show "distinct (map inId (irInsts (isoFun ?s)))"
      using d unfolding ids oldids by auto
    show "\<forall>v \<in> set (map inId (irInsts (isoFun ?s))). v < ?n + 6"
    proof
      fix v assume "v \<in> set (map inId (irInsts (isoFun ?s)))"
      then have "v \<in> set (map inId (irInsts (isoFun s))) \<or> v = ?n + 1 \<or> v = ?n + 3 \<or> v = ?n + 5" unfolding ids oldids by auto
      with lt(2) show "v < ?n + 6" by fastforce
    qed
  qed
  moreover have "\<forall>v \<in> dom (map_of (callEntryMD (isoMD ?s))) \<union> dom (map_of (callExitMD (isoMD ?s))). v < ?n + 6"
  proof -
    have "inId i < ?n" using lt(2) oldids by simp
    moreover have "v < ?n" if "v \<in> dom (map_of (callEntryMD (isoMD s))) \<or> v \<in> dom (map_of (callExitMD (isoMD s)))" for v
      using wf that by (auto simp: iso_wf_def)
    moreover have "dom (map_of (callEntryMD (isoMD ?s))) = insert (inId i) (dom (map_of (callEntryMD (isoMD s))))"
      "dom (map_of (callExitMD (isoMD ?s))) = insert (?n + 5) (dom (map_of (callExitMD (isoMD s))))"
      by (auto simp: callEntryMD_splitOneCall map_of_omap_put split: if_splits)
    ultimately show ?thesis by (auto simp: trans_less_add1)
  qed
  ultimately show ?thesis by (simp add: iso_wf_def)
qed

lemma isolated_kind: "isolated md F b i \<Longrightarrow> \<not> isPHINode i"
  by (auto simp: isolated_def isPHINode_def)

lemma isolated_mono:
  assumes "isolated md F b i"
    and "\<And>c is. (c, is) \<in> set (ifBlocks F) \<Longrightarrow> \<forall>j \<in> set is. \<not> isPHINode j \<and> (j = i \<or> inKind j = OtherInst False) \<Longrightarrow>
      (c, is) \<in> set (ifBlocks F') \<and> ifSuccs F' c = ifSuccs F c"
    and "map_of (callEntryMD md') (inId i) = map_of (callEntryMD md) (inId i)"
    and "\<And>c is j. (c, is) \<in> set (ifBlocks F) \<Longrightarrow> j \<in> set is \<Longrightarrow> map_of (callExitMD md') (inId j) = map_of (callExitMD md) (inId j)"
  shows "isolated md' F' b i"
proof -
  from assms(1) obtain cb br x br2 p where i: "inKind i = CallInst cb" "isIsolatableCall cb" "inKind br = OtherInst False"
    "inKind br2 = OtherInst False" and F: "(b, [i, br]) \<in> set (ifBlocks F)" "ifSuccs F b = [x]" "(x, [br2]) \<in> set (ifBlocks F)" "ifSuccs F x = [p]"
    and m: "map_of (callExitMD md) (inId br2) = map_of (callEntryMD md) (inId i)" by (auto simp: isolated_def)
  have "(b, [i, br]) \<in> set (ifBlocks F') \<and> ifSuccs F' b = ifSuccs F b" using i by (intro assms(2) F(1)) (auto simp: isPHINode_def)
  moreover have "(x, [br2]) \<in> set (ifBlocks F') \<and> ifSuccs F' x = ifSuccs F x" using i by (intro assms(2) F(3)) (auto simp: isPHINode_def)
  moreover have "map_of (callExitMD md') (inId br2) = map_of (callEntryMD md') (inId i)"
    using m assms(3) assms(4) [OF F(3)] by simp
  ultimately show ?thesis using i F by (auto simp: isolated_def)
qed

lemma marks_isolated_splitOneCall:
  assumes f: "found_call s bs1 b xs i ys bs2" and wf: "iso_wf s" and inv: "marks_isolated s"
  shows "marks_isolated (splitOneCall b (length xs) i s)"
proof -
  let ?s = "splitOneCall b (length xs) i s" let ?n = "isoFresh s" let ?E = "map_of (callEntryMD (isoMD s))"
  note same = found_call_form(1) [OF f wf] note succs = found_call_form(2) [OF f wf]
  have bs: "ifBlocks (isoFun s) = bs1 @ (b, xs @ i # ys) # bs2" "b \<notin> fst ` set (bs1 @ bs2)"
    and need: "needsIsolation (isoMD s) i"
    and ids: "inId i \<notin> inId ` (set (concat (map snd bs1)) \<union> set xs \<union> set ys \<union> set (concat (map snd bs2)))"
    using f by (simp_all add: found_call_def)
  from need obtain cb where cb: "inKind i = CallInst cb" "isIsolatableCall cb" "?E (inId i) = None"
    by (auto simp: needsIsolation_def split: inst_kind.splits)
  have E: "map_of (callEntryMD (isoMD ?s)) = ?E(inId i \<mapsto> isoGid s)"
    by (simp add: callEntryMD_splitOneCall map_of_omap_put fun_eq_iff)
  have X: "map_of (callExitMD (isoMD ?s)) = (map_of (callExitMD (isoMD s)))(?n + 5 \<mapsto> isoGid s)"
    by (simp add: map_of_omap_put fun_eq_iff)
  have ltb: "c < ?n" if "(c, is) \<in> set (ifBlocks (isoFun s))" for c "is" using wf that by (force simp: iso_wf_def irBlocks_def)
  have lti: "inId j < ?n" if "(c, is) \<in> set (ifBlocks (isoFun s))" "j \<in> set is" for c "is" j
    using wf that by (force simp: iso_wf_def irInsts_def)
  have ltE: "v < ?n" if "?E v \<noteq> None" for v using wf that by (auto simp: iso_wf_def dom_def)
  have keep: "isolated (isoMD ?s) (isoFun ?s) c j" if "isolated (isoMD s) (isoFun s) c j" "inId j \<noteq> inId i" for c j
  proof (rule isolated_mono [OF that(1)])
    fix d "is" assume d: "(d, is) \<in> set (ifBlocks (isoFun s))" "\<forall>k \<in> set is. \<not> isPHINode k \<and> (k = j \<or> inKind k = OtherInst False)"
    have "i \<notin> set is" using d(2) that(2) cb(1) by auto
    with d(1) bs have db: "(d, is) \<in> set bs1 \<or> (d, is) \<in> set bs2" by auto
    then have "d \<noteq> b" using bs(2) by force
    moreover have "(d, is) \<in> set (isolatedBlocks bs1 b xs i ys bs2 ?n)" using db by (auto simp: isolatedBlocks_def)
    from same_blocksI [OF same this] d(2) have "(d, is) \<in> set (ifBlocks (isoFun ?s))" by blast
    ultimately show "(d, is) \<in> set (ifBlocks (isoFun ?s)) \<and> ifSuccs (isoFun ?s) d = ifSuccs (isoFun s) d"
      using ltb [OF d(1)] by (simp add: succs)
  next
    fix d "is" k assume "(d, is) \<in> set (ifBlocks (isoFun s))" "k \<in> set is"
    from lti [OF this] show "map_of (callExitMD (isoMD ?s)) (inId k) = map_of (callExitMD (isoMD s)) (inId k)" by (simp add: X)
  qed (use that(2) in \<open>simp add: E\<close>)
  have old: "isolated (isoMD ?s) (isoFun ?s) c j" if "(c, is) \<in> set (ifBlocks (isoFun s))" "j \<in> set is" "?E (inId j) \<noteq> None" for c "is" j
  proof (rule keep)
    show "isolated (isoMD s) (isoFun s) c j" using inv that by (force simp: marks_isolated_def)
    show "inId j \<noteq> inId i" using that(3) cb(3) by auto
  qed
  have apart: "?E (inId j) = None" if "j \<in> set (xs @ ys)" for j
  proof (rule ccontr)
    assume m: "?E (inId j) \<noteq> None"
    have "isolated (isoMD s) (isoFun s) b j" using inv bs(1) that m by (auto simp: marks_isolated_def split_beta)
    then obtain br where br: "inKind br = OtherInst False" "(b, [j, br]) \<in> set (ifBlocks (isoFun s))" by (auto simp: isolated_def)
    have "distinct (map fst (ifBlocks (isoFun s)))" using wf by (simp add: iso_wf_def irBlocks_def)
    with br(2) bs(1) have "xs @ i # ys = [j, br]" by (force simp: eq_key_imp_eq_value)
    then have "i \<in> set [j, br]" by (metis in_set_conv_decomp)
    with br(1) cb m show False by auto
  qed
  show ?thesis unfolding marks_isolated_def
  proof clarify
    fix c js j g assume c: "(c, js) \<in> set (ifBlocks (isoFun ?s))" "j \<in> set js" "map_of (callEntryMD (isoMD ?s)) (inId j) = Some g"
    from same_blocksD [OF same c(1)] obtain "is" where raw: "(c, is) \<in> set (isolatedBlocks bs1 b xs i ys bs2 ?n)" "list_all2 same_inst is js" .
    from list_all2_right [OF raw(2) c(2)] obtain j0 where j0: "j0 \<in> set is" "same_inst j0 j" by blast
    then have id: "inId j0 = inId j" by (simp add: same_inst_def)
    consider (side) "(c, is) \<in> set bs1 \<or> (c, is) \<in> set bs2" | (same) "j0 \<in> set (xs @ ys)" | (branch) "j0 = branchInst (?n + 1) \<or> j0 = branchInst (?n + 3) \<or> j0 = branchInst (?n + 5)"
      | (call) "c = ?n" "j0 = i"
      using raw(1) j0(1) by (auto simp: isolatedBlocks_def)
    then show "isolated (isoMD ?s) (isoFun ?s) c j"
    proof cases
      case side
      then have "j0 \<in> set (concat (map snd bs1)) \<union> set (concat (map snd bs2))" using j0(1) by force
      then have "inId j0 \<noteq> inId i" using ids by (blast intro: rev_image_eqI dest: sym)
      then have o: "(c, is) \<in> set (ifBlocks (isoFun s))" "inId j0 \<noteq> inId i" using side bs(1) by auto
      then have "?E (inId j0) \<noteq> None" using c(3) id by (simp add: E)
      from old [OF o(1) j0(1) this] have iso: "isolated (isoMD ?s) (isoFun ?s) c j0" .
      with j0(2) have "j = j0" using isolated_kind by (auto simp: same_inst_def)
      with iso show ?thesis by simp
    next
      case same
      then have "inId j0 \<noteq> inId i" using ids unfolding set_append by (blast intro: rev_image_eqI dest: sym)
      with apart [OF same] c(3) id show ?thesis by (simp add: E)
    next
      case branch
      then have "\<not> inId j0 < ?n" by auto
      moreover from this have "?E (inId j0) = None" using ltE by blast
      ultimately have "?E (inId j0) = None" "inId j0 \<noteq> inId i" using lti [of b "xs @ i # ys" i] bs(1) by auto
      with c(3) id show ?thesis by (simp add: E)
    next
      case call
      have j: "j = i" using call j0(2) cb(1) by (simp add: same_inst_def isPHINode_def)
      have "(?n, [i, branchInst (?n + 3)]) \<in> set (ifBlocks (isoFun ?s))" "(?n + 4, [branchInst (?n + 5)]) \<in> set (ifBlocks (isoFun ?s))"
        using cb(1) by (intro same_blocksI [OF same]; simp add: isolatedBlocks_def isPHINode_def)+
      moreover have "ifSuccs (isoFun ?s) ?n = [?n + 4]" "ifSuccs (isoFun ?s) (?n + 4) = [?n + 2]" by (simp_all add: succs)
      moreover have "map_of (callExitMD (isoMD ?s)) (inId (branchInst (?n + 5))) = map_of (callEntryMD (isoMD ?s)) (inId i)"
        by (simp add: X E)
      ultimately show ?thesis unfolding isolated_def call(1) j
        using cb by (intro exI [of _ cb] exI [of _ "branchInst (?n + 3)"] exI [of _ "?n + 4"] exI [of _ "branchInst (?n + 5)"] exI [of _ "?n + 2"]) simp
    qed
  qed
qed

text \<open>An invariant of the splits is an invariant of the loop.\<close>

lemma isolateInFunction_invariant:
  assumes "iso_wf s" "P s"
    and step: "\<And>s bs1 b xs i ys bs2. iso_wf s \<Longrightarrow> P s \<Longrightarrow> found_call s bs1 b xs i ys bs2 \<Longrightarrow> P (splitOneCall b (length xs) i s)"
  shows "iso_wf (snd (isolateInFunction s c)) \<and> P (snd (isolateInFunction s c))"
  using assms(1,2)
proof (induction s c rule: isolateInFunction.induct)
  case (1 s c)
  show ?case
  proof (cases "findCall (isoMD s) (ifBlocks (isoFun s))")
    case None
    with 1 show ?thesis by (simp add: isolateInFunction.simps)
  next
    case (Some r)
    obtain b k i where r: "r = (b, k, i)" by (cases r)
    with Some have f: "findCall (isoMD s) (ifBlocks (isoFun s)) = Some (b, k, i)" by simp
    from found_callI [OF this 1(2)] obtain bs1 xs ys bs2 where fc: "found_call s bs1 b xs i ys bs2" "length xs = k" .
    then have "iso_wf (splitOneCall b k i s)" "P (splitOneCall b k i s)"
      using iso_wf_splitOneCall [OF fc(1) 1(2)] step [OF 1(2,3) fc(1)] by auto
    with 1(1) [OF f refl refl] f show ?thesis by (simp add: isolateInFunction.simps [of s])
  qed
qed

lemma isolateInFunction_stops: "\<not> needsIsolation (isoMD (snd (isolateInFunction s c))) i"
  if "(b, is) \<in> set (ifBlocks (isoFun (snd (isolateInFunction s c))))" "i \<in> set is"
  using that
proof (induction s c rule: isolateInFunction.induct)
  case (1 s c)
  show ?case
  proof (cases "findCall (isoMD s) (ifBlocks (isoFun s))")
    case None
    with 1(2,3) show ?thesis using findCall_None [OF None] by (simp add: isolateInFunction.simps)
  next
    case (Some r)
    then obtain b k i where f: "findCall (isoMD s) (ifBlocks (isoFun s)) = Some (b, k, i)" by (cases r) auto
    with 1(1) [OF f refl refl] 1(2,3) show ?thesis by (simp add: isolateInFunction.simps [of s])
  qed
qed

lemma callsOf_isolateInFunction: "callsOf (ifBlocks (isoFun (snd (isolateInFunction s c)))) = callsOf (ifBlocks (isoFun s))"
proof (induction s c rule: isolateInFunction.induct)
  case (1 s c)
  then show ?case by (subst isolateInFunction.simps) (auto simp: callsOf_splitOneCall split: option.splits)
qed

text \<open>The function carries no marks yet.\<close>

definition noMarks :: "iso_state \<Rightarrow> bool" where
  "noMarks s \<longleftrightarrow> (\<forall>i \<in> set (irInsts (isoFun s)). map_of (callEntryMD (isoMD s)) (inId i) = None)"

lemma isolateInFunction_marks:
  assumes "iso_wf s" "noMarks s"
  shows "iso_wf (snd (isolateInFunction s c)) \<and> marks_isolated (snd (isolateInFunction s c))"
proof (rule isolateInFunction_invariant [OF assms(1)])
  show "marks_isolated s" using assms(2) by (fastforce simp: marks_isolated_def noMarks_def irInsts_def)
qed (rule marks_isolated_splitOneCall)

text \<open>After the pass went over a function, every direct call of a defined function that is not a helper
  stands alone in its block with a branch to a block that holds nothing but a branch; both carry the same mark.\<close>

lemma isolateInFunction_isolates:
  assumes "iso_wf s" "noMarks s" "isolateInFunction s 0 = (count, s')"
    and "(b, is) \<in> set (ifBlocks (isoFun s'))" "i \<in> set is" "inKind i = CallInst cb" "isIsolatableCall cb"
  shows "isolated (isoMD s') (isoFun s') b i"
proof -
  have s': "s' = snd (isolateInFunction s 0)" using assms(3) by simp
  have "map_of (callEntryMD (isoMD s')) (inId i) \<noteq> None"
    using isolateInFunction_stops [of b "is" s 0 i] assms(4-7) by (auto simp: needsIsolation_def s')
  then show ?thesis using isolateInFunction_marks [OF assms(1,2), of 0] assms(4,5) unfolding s' marks_isolated_def by blast
qed

section \<open>The collected calls are the isolated ones\<close>

text \<open>Group numbers are given out once, as long as they do not wrap around.\<close>

definition gid_wf :: "iso_state \<Rightarrow> bool" where
  "gid_wf s \<longleftrightarrow>
     (\<forall>v g. map_of (callEntryMD (isoMD s)) v = Some g \<or> map_of (callExitMD (isoMD s)) v = Some g \<longrightarrow> g < isoGid s)
     \<and> inj_on (map_of (callEntryMD (isoMD s))) (dom (map_of (callEntryMD (isoMD s))))
     \<and> inj_on (map_of (callExitMD (isoMD s))) (dom (map_of (callExitMD (isoMD s))))
     \<and> unat (isoGid s) + length (openCalls s) < 2 ^ 32"

lemma inj_on_new_value:
  assumes "inj_on m (dom m)" "\<forall>v. m v \<noteq> Some g"
  shows "inj_on (m(v \<mapsto> g)) (dom (m(v \<mapsto> g)))"
  using assms unfolding inj_on_def by (auto simp: dom_def split: if_splits)

lemma gid_wf_splitOneCall:
  assumes f: "found_call s bs1 b xs i ys bs2" and g: "gid_wf s"
  shows "gid_wf (splitOneCall b (length xs) i s)"
proof -
  let ?s = "splitOneCall b (length xs) i s" let ?E = "map_of (callEntryMD (isoMD s))" let ?X = "map_of (callExitMD (isoMD s))"
  have E: "map_of (callEntryMD (isoMD ?s)) = ?E(inId i \<mapsto> isoGid s)"
    by (simp add: callEntryMD_splitOneCall map_of_omap_put fun_eq_iff)
  have X: "map_of (callExitMD (isoMD ?s)) = ?X(isoFresh s + 5 \<mapsto> isoGid s)"
    by (simp add: map_of_omap_put fun_eq_iff)
  have less: "length (openCalls ?s) < length (openCalls s)"
    using f by (intro openCalls_less) (auto simp: found_call_def callsOf_def needsIsolation_def split: inst_kind.splits)
  have bound: "unat (isoGid s) + 1 < 2 ^ 32" using g less by (simp add: gid_wf_def)
  then have gid: "unat (isoGid s + 1) = unat (isoGid s) + 1" by (simp add: unat_add_u32)
  then have lt: "isoGid s < isoGid s + 1" by (simp add: word_less_nat_alt)
  have old: "\<forall>v g. ?E v = Some g \<or> ?X v = Some g \<longrightarrow> g < isoGid s" using g by (simp add: gid_wf_def)
  then have "\<forall>v. ?E v \<noteq> Some (isoGid s)" "\<forall>v. ?X v \<noteq> Some (isoGid s)" by (metis less_irrefl)+
  then have "inj_on (?E(inId i \<mapsto> isoGid s)) (dom (?E(inId i \<mapsto> isoGid s)))"
    "inj_on (?X(isoFresh s + 5 \<mapsto> isoGid s)) (dom (?X(isoFresh s + 5 \<mapsto> isoGid s)))"
    using g unfolding gid_wf_def by (blast intro: inj_on_new_value)+
  moreover have "g < isoGid s + 1"
    if "(?E(inId i \<mapsto> isoGid s)) v = Some g \<or> (?X(isoFresh s + 5 \<mapsto> isoGid s)) v = Some g" for v g
    using that old lt by (auto split: if_splits intro: less_trans)
  ultimately show ?thesis using g less gid unfolding gid_wf_def E X splitOneCall_fields by auto
qed

text \<open>The table by group number after the scan: the last entry and the last exit of each group.\<close>

definition entryOf :: "ir_metadata \<Rightarrow> u32 \<Rightarrow> (bb_ptr \<times> ir_inst) list \<Rightarrow> (bb_ptr \<times> ir_inst) option" where
  "entryOf md g L = find (\<lambda>(b, i). map_of (callEntryMD md) (inId i) = Some g) (rev L)"

definition exitOf :: "ir_metadata \<Rightarrow> u32 \<Rightarrow> (bb_ptr \<times> ir_inst) list \<Rightarrow> (bb_ptr \<times> ir_inst) option" where
  "exitOf md g L = find (\<lambda>(b, i). map_of (callExitMD md) (inId i) = Some g) (rev L)"

definition groupCall :: "(bb_ptr \<times> ir_inst) option \<Rightarrow> (bb_ptr \<times> ir_inst) option \<Rightarrow> IsolatedCall" where
  "groupCall e x = \<lparr>icEntry = case_option nullptr fst e, icExit = case_option nullptr fst x,
     icCallee = case_option None (calledFunction \<circ> snd) e, icCall = case_option nullptr (inId \<circ> snd) e\<rparr>"

lemma entryOf_snoc:
  "entryOf md g (L @ [(b, i)]) = (if map_of (callEntryMD md) (inId i) = Some g then Some (b, i) else entryOf md g L)"
  by (simp add: entryOf_def)

lemma exitOf_snoc:
  "exitOf md g (L @ [(b, i)]) = (if map_of (callExitMD md) (inId i) = Some g then Some (b, i) else exitOf md g L)"
  by (simp add: exitOf_def)

definition groupEntry :: "ir_metadata \<Rightarrow> u32 \<Rightarrow> (bb_ptr \<times> ir_inst) list \<Rightarrow> IsolatedCall option" where
  "groupEntry md g L =
     (if entryOf md g L = None \<and> exitOf md g L = None then None else Some (groupCall (entryOf md g L) (exitOf md g L)))"

lemma groupCall_update:
  "(groupCall e x)\<lparr>icEntry := b, icCall := inId i, icCallee := calledFunction i\<rparr> = groupCall (Some (b, i)) x"
  "(groupCall e x)\<lparr>icExit := b\<rparr> = groupCall e (Some (b, i))"
  by (simp_all add: groupCall_def)

lemma groupEntry_get: "case_option emptyIsolatedCall (\<lambda>ic. ic) (groupEntry md g L) = groupCall (entryOf md g L) (exitOf md g L)"
  by (simp add: groupEntry_def groupCall_def emptyIsolatedCall_def)

lemma collect_table: "map_of (foldl (collectInst md) [] L) g = groupEntry md g L"
proof (induction L arbitrary: g rule: rev_induct)
  case Nil
  then show ?case by (simp add: groupEntry_def entryOf_def exitOf_def)
next
  case (snoc p L)
  obtain b i where p: "p = (b, i)" by (cases p)
  let ?t = "foldl (collectInst md) [] L"
  have fetch: "omap_get emptyIsolatedCall ?t g = groupCall (entryOf md g L) (exitOf md g L)" for g
    unfolding omap_get_def snoc.IH using groupEntry_get [of md g L] by (simp split: option.splits)
  let ?t1 = "case map_of (callEntryMD md) (inId i) of
      Some gid \<Rightarrow> omap_put gid ((omap_get emptyIsolatedCall ?t gid)\<lparr>icEntry := b, icCall := inId i, icCallee := calledFunction i\<rparr>) ?t
    | None \<Rightarrow> ?t"
  have t1: "map_of ?t1 g = (if map_of (callEntryMD md) (inId i) = Some g then Some (groupCall (Some (b, i)) (exitOf md g L)) else groupEntry md g L)" for g
    by (cases "map_of (callEntryMD md) (inId i)") (auto simp: map_of_omap_put snoc.IH fetch groupCall_update)
  then have fetch1: "omap_get emptyIsolatedCall ?t1 g = groupCall (entryOf md g (L @ [(b, i)])) (exitOf md g L)" for g
    using groupEntry_get [of md g L] unfolding omap_get_def t1 entryOf_snoc by (simp split: option.splits)
  have "map_of (foldl (collectInst md) [] (L @ [p])) g =
      (if map_of (callExitMD md) (inId i) = Some g then Some (groupCall (entryOf md g (L @ [(b, i)])) (Some (b, i))) else map_of ?t1 g)"
    unfolding p foldl_append foldl.simps collectInst_def [of md ?t "(b, i)"] Let_def prod.case
    by (cases "map_of (callExitMD md) (inId i)") (auto simp: map_of_omap_put fetch1 groupCall_update)
  then show ?case unfolding p groupEntry_def entryOf_snoc exitOf_snoc t1 by simp
qed

lemma collect_omap_wf: "omap_wf (foldl (collectInst md) [] L)"
  by (rule foldl_invariant) (auto simp: collectInst_def Let_def omap_wf_put split: option.splits)

lemma collect_values: "snd ` set (foldl (collectInst md) [] L) = {ic. \<exists>g. groupEntry md g L = Some ic}"
proof -
  have "distinct (map fst (foldl (collectInst md) [] L))" by (rule omap_wf_distinct [OF collect_omap_wf])
  then have "(g, ic) \<in> set (foldl (collectInst md) [] L) \<longleftrightarrow> groupEntry md g L = Some ic" for g ic
    by (metis collect_table map_of_eq_Some_iff)
  then show ?thesis by (force simp: image_iff)
qed

text \<open>What the collection returns for a function whose marks are isolated: one entry for each marked call.\<close>

lemma find_unique_inst:
  assumes "x \<in> set xs" "P x" "\<And>y. y \<in> set xs \<Longrightarrow> P y \<Longrightarrow> y = x"
  shows "find P xs = Some x"
proof -
  obtain y where y: "find P xs = Some y" using assms(1,2) by (fastforce simp: find_None_iff)
  with find_someD [OF this] assms(3) show ?thesis by auto
qed

lemma blockInsts_iff: "(b, i) \<in> set (blockInsts F) \<longleftrightarrow> (\<exists>is. (b, is) \<in> set (ifBlocks F) \<and> i \<in> set is)"
  by (auto simp: blockInsts_def)

lemma blockInsts_snd: "map snd (blockInsts F) = irInsts F"
  by (simp add: blockInsts_def irInsts_def map_concat comp_def split_beta)

lemma blockInsts_unique:
  assumes "iso_wf s" "(b, i) \<in> set (blockInsts (isoFun s))" "(c, j) \<in> set (blockInsts (isoFun s))" "inId i = inId j"
  shows "(b, i) = (c, j)"
proof -
  have "map inId (irInsts (isoFun s)) = map (inId \<circ> snd) (blockInsts (isoFun s))" by (simp flip: blockInsts_snd)
  with assms(1) have "distinct (map (inId \<circ> snd) (blockInsts (isoFun s)))" by (simp add: iso_wf_def)
  then have "inj_on (inId \<circ> snd) (set (blockInsts (isoFun s)))" by (simp add: distinct_map)
  from inj_onD [OF this _ assms(2,3)] assms(4) show ?thesis by simp
qed

definition callSite :: "ir_function \<Rightarrow> bb_ptr \<Rightarrow> ir_inst \<Rightarrow> IsolatedCall" where
  "callSite F b i = \<lparr>icEntry = b, icExit = getSingleSuccessor F b, icCallee = calledFunction i, icCall = inId i\<rparr>"

lemma marked_group:
  assumes wf: "iso_wf s" and m: "marks_isolated s" and g: "gid_wf s"
    and i: "(b, i) \<in> set (blockInsts (isoFun s))" "map_of (callEntryMD (isoMD s)) (inId i) = Some h"
  shows "\<exists>ic. groupEntry (isoMD s) h (blockInsts (isoFun s)) = Some ic \<and> completeCall (isoFun s) ic = callSite (isoFun s) b i
    \<and> b \<noteq> nullptr \<and> getSingleSuccessor (isoFun s) b \<noteq> nullptr \<and> calledFunction i \<noteq> None"
proof -
  let ?F = "isoFun s" let ?L = "blockInsts ?F" let ?md = "isoMD s"
  have "isolated ?md ?F b i" using m i by (fastforce simp: marks_isolated_def blockInsts_iff)
  then obtain cb br x br2 p where d: "inKind i = CallInst cb" "isIsolatableCall cb" "ifSuccs ?F b = [x]" "(x, [br2]) \<in> set (ifBlocks ?F)"
    "map_of (callExitMD ?md) (inId br2) = map_of (callEntryMD ?md) (inId i)" by (auto simp: isolated_def)
  have x: "(x, br2) \<in> set ?L" using d(4) by (auto simp: blockInsts_iff)
  have inj: "inj_on (map_of (callEntryMD ?md)) (dom (map_of (callEntryMD ?md)))" "inj_on (map_of (callExitMD ?md)) (dom (map_of (callExitMD ?md)))"
    using g by (simp_all add: gid_wf_def)
  have "entryOf ?md h ?L = Some (b, i)" unfolding entryOf_def
  proof (rule find_unique_inst)
    fix y assume y: "y \<in> set (rev ?L)" "case y of (b, i) \<Rightarrow> map_of (callEntryMD ?md) (inId i) = Some h"
    obtain c j where "y = (c, j)" by (cases y)
    with y have "map_of (callEntryMD ?md) (inId j) = Some h" "(c, j) \<in> set ?L" by auto
    moreover from this i(2) have "inId j = inId i" using inj_onD [OF inj(1)] by (metis domI)
    ultimately show "y = (b, i)" using blockInsts_unique [OF wf, of c j b i] i(1) \<open>y = (c, j)\<close> by simp
  qed (use i in auto)
  moreover have "exitOf ?md h ?L = Some (x, br2)" unfolding exitOf_def
  proof (rule find_unique_inst)
    fix y assume y: "y \<in> set (rev ?L)" "case y of (b, i) \<Rightarrow> map_of (callExitMD ?md) (inId i) = Some h"
    obtain c j where "y = (c, j)" by (cases y)
    with y have "map_of (callExitMD ?md) (inId j) = Some h" "(c, j) \<in> set ?L" by auto
    moreover from this i(2) d(5) have "inId j = inId br2" using inj_onD [OF inj(2)] by (metis domI)
    ultimately show "y = (x, br2)" using blockInsts_unique [OF wf, of c j x br2] x \<open>y = (c, j)\<close> by simp
  qed (use x d(5) i(2) in auto)
  moreover have "b \<noteq> nullptr" "x \<noteq> nullptr" using wf i(1) d(4) by (force simp: iso_wf_def irBlocks_def blockInsts_iff)+
  moreover have "calledFunction i \<noteq> None" using d(1,2) by (auto simp: calledFunction_def getCallBase_def isIsolatableCall_def split: if_splits option.splits)
  ultimately show ?thesis using d(3)
    by (simp add: groupEntry_def groupCall_def completeCall_def callSite_def getSingleSuccessor_def)
qed

lemma collect_marked:
  assumes wf: "iso_wf s" and m: "marks_isolated s" and g: "gid_wf s"
  shows "set (collectIsolatedCalls (isoMD s) (isoFun s)) =
    {callSite (isoFun s) b i | b i. (b, i) \<in> set (blockInsts (isoFun s)) \<and> map_of (callEntryMD (isoMD s)) (inId i) \<noteq> None}" (is "?C = ?S")
proof
  let ?F = "isoFun s" let ?md = "isoMD s" let ?L = "blockInsts ?F"
  have "?C = {ic \<in> completeCall ?F ` snd ` set (foldl (collectInst ?md) [] ?L). icEntry ic \<noteq> nullptr \<and> icExit ic \<noteq> nullptr \<and> icCallee ic \<noteq> None}"
    by (auto simp: collectIsolatedCalls_def)
  then have C: "?C = {ic. (\<exists>g ic0. groupEntry ?md g ?L = Some ic0 \<and> ic = completeCall ?F ic0) \<and> icEntry ic \<noteq> nullptr \<and> icExit ic \<noteq> nullptr \<and> icCallee ic \<noteq> None}"
    unfolding collect_values by auto
  show "?C \<subseteq> ?S"
  proof
    fix ic assume "ic \<in> ?C"
    then obtain h ic0 where ic0: "groupEntry ?md h ?L = Some ic0" "ic = completeCall ?F ic0" "icEntry ic \<noteq> nullptr" unfolding C by blast
    then have "icEntry ic0 \<noteq> nullptr" by (auto simp: completeCall_def split: if_splits)
    with ic0(1) obtain b i where e: "entryOf ?md h ?L = Some (b, i)"
      by (cases "entryOf ?md h ?L") (auto simp: groupEntry_def groupCall_def split: if_splits)
    then have bi: "(b, i) \<in> set ?L" "map_of (callEntryMD ?md) (inId i) = Some h"
      using find_someD [OF e [unfolded entryOf_def]] by auto
    from marked_group [OF wf m g this] ic0 have "ic = callSite ?F b i" by auto
    with bi show "ic \<in> ?S" by auto
  qed
  show "?S \<subseteq> ?C"
  proof
    fix ic assume "ic \<in> ?S"
    then obtain b i h where i: "ic = callSite ?F b i" "(b, i) \<in> set ?L" "map_of (callEntryMD ?md) (inId i) = Some h" by auto
    from marked_group [OF wf m g i(2,3)] obtain ic0 where ic0: "groupEntry ?md h ?L = Some ic0" "completeCall ?F ic0 = callSite ?F b i"
      "b \<noteq> nullptr" "getSingleSuccessor ?F b \<noteq> nullptr" "calledFunction i \<noteq> None" by blast
    have "\<exists>g ic0. groupEntry ?md g ?L = Some ic0 \<and> ic = completeCall ?F ic0"
      using ic0(1,2) i(1) by (intro exI [of _ h] exI [of _ ic0]) simp
    with ic0(3-5) i(1) show "ic \<in> ?C" unfolding C by (simp add: callSite_def)
  qed
qed

section \<open>Isolation does not change what is executed\<close>

definition idsOf :: "ir_function \<Rightarrow> bb_ptr \<Rightarrow> value_ptr list" where
  "idsOf F b = map inId (instsOf F b)"

text \<open>The instructions that can be executed from block \<open>b\<close> on, up to any point of any path.\<close>

definition partialRuns :: "ir_function \<Rightarrow> bb_ptr \<Rightarrow> value_ptr list set" where
  "partialRuns F b = {t. \<exists>p. ir_path F (b # p) \<and> prefix t (concat (map (idsOf F) (b # p)))}"

definition succs_closed :: "ir_function \<Rightarrow> bool" where
  "succs_closed F \<longleftrightarrow> (\<forall>b \<in> set (irBlocks F). set (ifSuccs F b) \<subseteq> set (irBlocks F))"

text \<open>A split of block \<open>b\<close> as the paths see it: \<open>us\<close> are the instructions before the call \<open>v\<close>, \<open>ws\<close> those after it.\<close>

definition path_split ::
  "ir_function \<Rightarrow> ir_function \<Rightarrow> bb_ptr \<Rightarrow> nat \<Rightarrow> value_ptr list \<Rightarrow> value_ptr \<Rightarrow> value_ptr list \<Rightarrow> bool" where
  "path_split F F' b n us v ws \<longleftrightarrow>
     succs_closed F \<and> b \<in> set (irBlocks F) \<and> (\<forall>c \<in> set (irBlocks F). c < n \<and> (\<forall>w \<in> set (idsOf F c). w < n))
     \<and> set (irBlocks F') = set (irBlocks F) \<union> {n, n + 4, n + 2}
     \<and> ifSuccs F' = (ifSuccs F)(b := [n], n := [n + 4], n + 4 := [n + 2], n + 2 := ifSuccs F b)
     \<and> idsOf F b = us @ v # ws \<and> idsOf F' b = us @ [n + 1] \<and> idsOf F' n = [v, n + 3] \<and> idsOf F' (n + 4) = [n + 5] \<and> idsOf F' (n + 2) = ws
     \<and> (\<forall>c \<in> set (irBlocks F) - {b}. idsOf F' c = idsOf F c)"

definition expandBlock :: "bb_ptr \<Rightarrow> nat \<Rightarrow> bb_ptr \<Rightarrow> bb_ptr list" where
  "expandBlock b n c = (if c = b then [b, n, n + 4, n + 2] else [c])"

lemma path_split_ids:
  assumes "path_split F F' b n us v ws" "c \<in> set (irBlocks F)"
  shows "filter (\<lambda>w. w < n) (concat (map (idsOf F') (expandBlock b n c))) = idsOf F c"
proof -
  have lt: "\<forall>w \<in> set (idsOf F c). w < n" using assms by (auto simp: path_split_def)
  then have "filter (\<lambda>w. w < n) (idsOf F c) = idsOf F c" by (simp add: filter_id_conv)
  moreover have "filter (\<lambda>w. w < n) us = us \<and> v < n \<and> filter (\<lambda>w. w < n) ws = ws" if "c = b"
    using lt assms that by (auto simp: path_split_def filter_id_conv)
  ultimately show ?thesis using assms by (auto simp: path_split_def expandBlock_def)
qed

lemma path_split_block:
  assumes "path_split F F' b n us v ws" "c \<in> set (irBlocks F)" "ir_path F' (d # q)" "d \<in> set (ifSuccs F c)"
  shows "ir_path F' (expandBlock b n c @ d # q)"
proof -
  have ne: "c \<noteq> n" "c \<noteq> n + 4" "c \<noteq> n + 2" "b \<noteq> n" "b \<noteq> n + 4" "b \<noteq> n + 2"
    using assms by (auto simp: path_split_def)
  show ?thesis using assms ne by (auto simp: path_split_def expandBlock_def)
qed

lemma path_split_last:
  assumes "path_split F F' b n us v ws" "c \<in> set (irBlocks F)"
  shows "ir_path F' (expandBlock b n c)"
proof -
  have ne: "c \<noteq> n" "c \<noteq> n + 4" "c \<noteq> n + 2" "b \<noteq> n" "b \<noteq> n + 4" "b \<noteq> n + 2"
    using assms by (auto simp: path_split_def)
  show ?thesis using assms ne by (auto simp: path_split_def expandBlock_def)
qed

lemma expand_head: "p \<noteq> [] \<Longrightarrow> \<exists>q. concat (map (expandBlock b n) p) = hd p # q"
  by (cases p) (auto simp: expandBlock_def)

lemma path_split_expand:
  assumes "path_split F F' b n us v ws" "ir_path F p"
  shows "ir_path F' (concat (map (expandBlock b n) p))
    \<and> filter (\<lambda>w. w < n) (concat (map (idsOf F') (concat (map (expandBlock b n) p)))) = concat (map (idsOf F) p)"
  using assms(2)
proof (induction p)
  case (Cons c p)
  show ?case
  proof (cases p)
    case Nil
    with Cons path_split_last [OF assms(1)] path_split_ids [OF assms(1)] show ?thesis by simp
  next
    case (Cons d p')
    with \<open>ir_path F (c # p)\<close> have c: "c \<in> set (irBlocks F)" "d \<in> set (ifSuccs F c)" "ir_path F p" by auto
    from expand_head [of p b n] Cons obtain q where q: "concat (map (expandBlock b n) p) = d # q" by auto
    note IH = Cons.IH [OF c(3)]
    have "ir_path F' (expandBlock b n c @ d # q)" using IH q c by (intro path_split_block [OF assms(1)]) auto
    with IH q path_split_ids [OF assms(1) c(1)] show ?thesis by simp
  qed
qed simp

lemma path_split_contract:
  assumes sp: "path_split F F' b n us v ws" and "ir_path F' (c # p)" "c \<in> set (irBlocks F)"
  shows "\<exists>q. ir_path F (c # q) \<and> prefix (filter (\<lambda>w. w < n) (concat (map (idsOf F') (c # p)))) (concat (map (idsOf F) (c # q)))"
  using assms(2,3)
proof (induction p arbitrary: c rule: length_induct)
  case (1 p)
  note step = path_split_ids [OF sp 1(3), unfolded expandBlock_def]
  have closed: "d \<in> set (irBlocks F)" if "d \<in> set (ifSuccs F c)" for d using that 1(3) sp by (auto simp: path_split_def succs_closed_def)
  have continue: ?case if "prefix (filter (\<lambda>w. w < n) (concat (map (idsOf F') (c # p)))) (idsOf F c)"
    using that 1(3) by (intro exI [of _ "[]"]) simp
  have go: ?case if p: "p = p1 @ d # r" "d \<in> set (ifSuccs F c)" "ir_path F' (d # r)"
    "filter (\<lambda>w. w < n) (concat (map (idsOf F') (c # p1))) = idsOf F c" for p1 d r
  proof -
    have "length r < length p" using p(1) by simp
    from 1(1) [rule_format, OF this p(3) closed [OF p(2)]] obtain q where "ir_path F (d # q)"
      "prefix (filter (\<lambda>w. w < n) (concat (map (idsOf F') (d # r)))) (concat (map (idsOf F) (d # q)))" by blast
    moreover have "filter (\<lambda>w. w < n) (concat (map (idsOf F') (c # p))) =
        idsOf F c @ filter (\<lambda>w. w < n) (concat (map (idsOf F') (d # r)))"
      unfolding p(4) [symmetric] p(1) by simp
    ultimately show ?thesis using p(2) 1(3) by (intro exI [of _ "d # q"]) auto
  qed
  show ?case
  proof (cases "c = b")
    case False
    then have "filter (\<lambda>w. w < n) (idsOf F' c) = idsOf F c" using step by simp
    moreover have "ifSuccs F' c = ifSuccs F c" using False 1(3) sp by (auto simp: path_split_def)
    ultimately show ?thesis using 1(2) go [of "[]"] continue by (cases p) auto
  next
    case True
    have ne: "b \<noteq> n" "b \<noteq> n + 4" "b \<noteq> n + 2" using sp by (auto simp: path_split_def)
    have S: "ifSuccs F' b = [n]" "ifSuccs F' n = [n + 4]" "ifSuccs F' (n + 4) = [n + 2]" "ifSuccs F' (n + 2) = ifSuccs F b"
      using sp ne by (auto simp: path_split_def)
    have I: "idsOf F b = us @ v # ws" "idsOf F' b = us @ [n + 1]" "idsOf F' n = [v, n + 3]" "idsOf F' (n + 4) = [n + 5]" "idsOf F' (n + 2) = ws"
      and lt: "\<forall>w \<in> set us. w < n" "v < n" "\<forall>w \<in> set ws. w < n"
      using sp by (auto simp: path_split_def)
    then have keep: "filter (\<lambda>w. w < n) us = us" "filter (\<lambda>w. w < n) ws = ws" by (simp_all add: filter_id_conv)
    show ?thesis
    proof (cases "drop 3 p")
      case (Cons d r)
      then have "length p - 3 = Suc (length r)" by (metis length_drop length_Cons)
      then have "length p = Suc (Suc (Suc (length (d # r))))" by simp
      then obtain e1 e2 e3 where p: "p = e1 # e2 # e3 # d # r" using Cons by (auto simp: length_Suc_conv numeral_3_eq_3)
      with 1(2) \<open>c = b\<close> S have "e1 = n" "e2 = n + 4" "e3 = n + 2" "d \<in> set (ifSuccs F b)" "ir_path F' (d # r)" by auto
      with p \<open>c = b\<close> show ?thesis using I keep lt(2) by (intro go [of "[n, n + 4, n + 2]" d r]) auto
    next
      case Nil
      then have "length p \<le> 3" by simp
      then have "length p = 0 \<or> length p = Suc 0 \<or> length p = Suc (Suc 0) \<or> length p = Suc (Suc (Suc 0))" by arith
      then have "p = [] \<or> (\<exists>e1. p = [e1]) \<or> (\<exists>e1 e2. p = [e1, e2]) \<or> (\<exists>e1 e2 e3. p = [e1, e2, e3])" by (auto simp: length_Suc_conv)
      with 1(2) \<open>c = b\<close> S have "p = [] \<or> p = [n] \<or> p = [n, n + 4] \<or> p = [n, n + 4, n + 2]" by auto
      then show ?thesis using I keep lt(2) \<open>c = b\<close> by (intro continue) auto
    qed
  qed
qed

lemma prefix_filter: "prefix t (filter P xs) \<Longrightarrow> \<exists>t'. prefix t' xs \<and> filter P t' = t"
proof (induction xs arbitrary: t)
  case (Cons x xs)
  show ?case
  proof (cases "P x")
    case True
    show ?thesis
    proof (cases t)
      case (Cons y t2)
      with Cons.prems True have "y = x" "prefix t2 (filter P xs)" by auto
      from Cons.IH [OF this(2)] obtain t' where "prefix t' xs" "filter P t' = t2" by blast
      with Cons True \<open>y = x\<close> show ?thesis by (intro exI [of _ "x # t'"]) simp
    qed (auto intro: exI [of _ "[]"])
  next
    case False
    with Cons obtain t' where "prefix t' xs" "filter P t' = t" by auto
    with False show ?thesis by (intro exI [of _ "x # t'"]) simp
  qed
qed (auto intro: exI [of _ "[]"])

lemma path_split_runs:
  assumes sp: "path_split F F' b n us v ws" and c: "c \<in> set (irBlocks F)"
  shows "partialRuns F c = filter (\<lambda>w. w < n) ` partialRuns F' c"
proof
  show "partialRuns F c \<subseteq> filter (\<lambda>w. w < n) ` partialRuns F' c"
  proof
    fix t assume "t \<in> partialRuns F c"
    then obtain p where p: "ir_path F (c # p)" "prefix t (concat (map (idsOf F) (c # p)))" by (auto simp: partialRuns_def)
    from expand_head [of "c # p" b n] obtain q where q: "concat (map (expandBlock b n) (c # p)) = c # q" by auto
    note e = path_split_expand [OF sp p(1), unfolded q]
    from p(2) e have "prefix t (filter (\<lambda>w. w < n) (concat (map (idsOf F') (c # q))))" by simp
    from prefix_filter [OF this] obtain t' where "prefix t' (concat (map (idsOf F') (c # q)))" "filter (\<lambda>w. w < n) t' = t" by blast
    with e show "t \<in> filter (\<lambda>w. w < n) ` partialRuns F' c" by (auto simp: partialRuns_def)
  qed
  show "filter (\<lambda>w. w < n) ` partialRuns F' c \<subseteq> partialRuns F c"
  proof clarify
    fix t assume "t \<in> partialRuns F' c"
    then obtain p where p: "ir_path F' (c # p)" "prefix t (concat (map (idsOf F') (c # p)))" by (auto simp: partialRuns_def)
    from path_split_contract [OF sp p(1) c] obtain q where "ir_path F (c # q)"
      "prefix (filter (\<lambda>w. w < n) (concat (map (idsOf F') (c # p)))) (concat (map (idsOf F) (c # q)))" by blast
    moreover have "prefix (filter (\<lambda>w. w < n) t) (filter (\<lambda>w. w < n) (concat (map (idsOf F') (c # p))))"
      using p(2) by (metis filter_append prefix_def)
    ultimately show "filter (\<lambda>w. w < n) t \<in> partialRuns F c" unfolding partialRuns_def by (blast intro: prefix_order.trans)
  qed
qed

lemma found_call_path_split:
  assumes f: "found_call s bs1 b xs i ys bs2" and wf: "iso_wf s" and cl: "succs_closed (isoFun s)"
  shows "path_split (isoFun s) (isoFun (splitOneCall b (length xs) i s)) b (isoFresh s) (map inId xs) (inId i) (map inId ys)"
proof -
  let ?s = "splitOneCall b (length xs) i s" let ?n = "isoFresh s" let ?F = "isoFun s"
  note same = found_call_form(1) [OF f wf] note succs = found_call_form(2) [OF f wf]
  have bs: "ifBlocks ?F = bs1 @ (b, xs @ i # ys) # bs2" using f by (simp add: found_call_def)
  have look: "idsOf F c = map inId is" if "distinct (irBlocks F)" "(c, is) \<in> set (ifBlocks F)" for F c "is"
    using that by (simp add: idsOf_def instsOf_def omap_get_def irBlocks_def)
  have d: "distinct (irBlocks ?F)" "distinct (irBlocks (isoFun ?s))"
    using wf iso_wf_splitOneCall [OF f wf] by (simp_all add: iso_wf_def)
  have look': "idsOf (isoFun ?s) c = map inId is" if "(c, is) \<in> set (isolatedBlocks bs1 b xs i ys bs2 ?n)" for c "is"
  proof -
    have "(c, map inId is) \<in> set (map (\<lambda>(b, is). (b, map inId is)) (ifBlocks (isoFun ?s)))"
      using that unfolding same_blocks_ids [OF same] by force
    then obtain js where "(c, js) \<in> set (ifBlocks (isoFun ?s))" "map inId js = map inId is" by auto
    with look [OF d(2)] show ?thesis by simp
  qed
  have lt: "c < ?n \<and> (\<forall>w \<in> set (idsOf ?F c). w < ?n)" if "c \<in> set (irBlocks ?F)" for c
  proof -
    from that obtain "is" where c: "(c, is) \<in> set (ifBlocks ?F)" by (auto simp: irBlocks_def)
    with look [OF d(1) c] wf that show ?thesis by (force simp: iso_wf_def irInsts_def)
  qed
  have blocks: "irBlocks (isoFun ?s) = map fst bs1 @ [b, ?n, ?n + 4, ?n + 2] @ map fst bs2"
    using same_blocks_fst [OF same] by (simp add: irBlocks_def isolatedBlocks_def)
  have others: "idsOf (isoFun ?s) c = idsOf ?F c" if "c \<in> set (irBlocks ?F) - {b}" for c
  proof -
    from that obtain "is" where c: "(c, is) \<in> set (ifBlocks ?F)" "c \<noteq> b" by (auto simp: irBlocks_def)
    then have "(c, is) \<in> set (isolatedBlocks bs1 b xs i ys bs2 ?n)" using bs by (auto simp: isolatedBlocks_def)
    from look' [OF this] look [OF d(1) c(1)] show ?thesis by simp
  qed
  have new: "idsOf (isoFun ?s) b = map inId xs @ [?n + 1]" "idsOf (isoFun ?s) ?n = [inId i, ?n + 3]"
    "idsOf (isoFun ?s) (?n + 4) = [?n + 5]" "idsOf (isoFun ?s) (?n + 2) = map inId ys"
    using look' [of b "xs @ [branchInst (?n + 1)]"] look' [of ?n "[i, branchInst (?n + 3)]"] look' [of "?n + 4" "[branchInst (?n + 5)]"]
      look' [of "?n + 2" ys] by (simp_all add: isolatedBlocks_def)
  have old: "idsOf ?F b = map inId xs @ inId i # map inId ys" using look [OF d(1), of b "xs @ i # ys"] bs by simp
  show ?thesis unfolding path_split_def succs using cl lt others new old blocks bs by (auto simp: irBlocks_def)
qed

lemma succs_closed_splitOneCall:
  assumes "path_split F F' b n us v ws"
  shows "succs_closed F'"
  using assms by (auto simp: path_split_def succs_closed_def)

text \<open>(C17) Isolating the calls of a function leaves the sequences of instructions that can be executed from
  any of its blocks unchanged, up to the branches that were added.\<close>

theorem isolateInFunction_preserves_runs:
  assumes "iso_wf s" "succs_closed (isoFun s)" "isolateInFunction s 0 = (count, s')" "b \<in> set (irBlocks (isoFun s))"
  shows "partialRuns (isoFun s) b = filter (\<lambda>v. v < isoFresh s) ` partialRuns (isoFun s') b"
proof -
  let ?P = "\<lambda>r. succs_closed (isoFun r) \<and> isoFresh s \<le> isoFresh r \<and> b \<in> set (irBlocks (isoFun r))
    \<and> partialRuns (isoFun s) b = filter (\<lambda>v. v < isoFresh s) ` partialRuns (isoFun r) b"
  have "?P (snd (isolateInFunction s 0))"
  proof (rule isolateInFunction_invariant [OF assms(1), THEN conjunct2])
    have "t \<in> partialRuns (isoFun s) b \<Longrightarrow> filter (\<lambda>v. v < isoFresh s) t = t" for t
    proof -
      assume "t \<in> partialRuns (isoFun s) b"
      then obtain p where p: "ir_path (isoFun s) (b # p)" "prefix t (concat (map (idsOf (isoFun s)) (b # p)))" by (auto simp: partialRuns_def)
      have "w < isoFresh s" if w: "w \<in> set (idsOf (isoFun s) c)" for w c
      proof (cases "map_of (ifBlocks (isoFun s)) c")
        case (Some "is")
        then have "(c, is) \<in> set (ifBlocks (isoFun s))" by (rule map_of_SomeD)
        then have "set is \<subseteq> set (irInsts (isoFun s))" by (force simp: irInsts_def)
        moreover obtain i where "i \<in> set is" "w = inId i" using w Some by (auto simp: idsOf_def instsOf_def omap_get_def)
        ultimately show ?thesis using assms(1) by (auto simp: iso_wf_def)
      qed (use w in \<open>simp add: idsOf_def instsOf_def omap_get_def\<close>)
      then have "\<forall>w \<in> set t. w < isoFresh s" using set_mono_prefix [OF p(2)] by auto
      then show ?thesis by (simp add: filter_id_conv)
    qed
    then show "?P s" using assms(2,4) by (auto simp: image_def)
  next
    fix r bs1 c xs i ys bs2 assume r: "iso_wf r" "?P r" "found_call r bs1 c xs i ys bs2"
    let ?r = "splitOneCall c (length xs) i r"
    have sp: "path_split (isoFun r) (isoFun ?r) c (isoFresh r) (map inId xs) (inId i) (map inId ys)"
      using found_call_path_split [OF r(3,1)] r(2) by simp
    have "partialRuns (isoFun r) b = filter (\<lambda>w. w < isoFresh r) ` partialRuns (isoFun ?r) b"
      using path_split_runs [OF sp] r(2) by simp
    moreover have "filter (\<lambda>v. v < isoFresh s) (filter (\<lambda>w. w < isoFresh r) t) = filter (\<lambda>v. v < isoFresh s) t" for t
      using r(2) by (auto intro: filter_cong)
    ultimately have "partialRuns (isoFun s) b = filter (\<lambda>v. v < isoFresh s) ` partialRuns (isoFun ?r) b"
      using r(2) by (simp add: image_image)
    moreover have "b \<in> set (irBlocks (isoFun ?r))" using sp r(2) by (auto simp: path_split_def)
    ultimately show "?P ?r" using r(2) succs_closed_splitOneCall [OF sp] by simp
  qed
  with assms(3) show ?thesis by simp
qed

section \<open>Isolating and collecting together\<close>

lemma isolateInFunction_state:
  assumes "iso_wf s" "noMarks s" "gid_wf s" "isolateInFunction s 0 = (count, s')"
  shows "iso_wf s'" "marks_isolated s'" "gid_wf s'"
proof -
  have s': "s' = snd (isolateInFunction s 0)" using assms(4) by simp
  show "iso_wf s'" "marks_isolated s'" using isolateInFunction_marks [OF assms(1,2), of 0] by (simp_all add: s')
  show "gid_wf s'" unfolding s'
    by (rule isolateInFunction_invariant [of s gid_wf, OF assms(1,3), THEN conjunct2]) (rule gid_wf_splitOneCall)
qed

lemma marked_iff_isolatable:
  assumes "iso_wf s" "noMarks s" "gid_wf s" "isolateInFunction s 0 = (count, s')" "(b, i) \<in> set (blockInsts (isoFun s'))"
  shows "map_of (callEntryMD (isoMD s')) (inId i) \<noteq> None \<longleftrightarrow> (\<exists>cb. inKind i = CallInst cb \<and> isIsolatableCall cb)"
proof -
  obtain "is" where b: "(b, is) \<in> set (ifBlocks (isoFun s'))" "i \<in> set is" using assms(5) by (auto simp: blockInsts_iff)
  have "isolated (isoMD s') (isoFun s') b i" if "map_of (callEntryMD (isoMD s')) (inId i) \<noteq> None"
    using isolateInFunction_state(2) [OF assms(1-4)] b that by (fastforce simp: marks_isolated_def)
  moreover have "\<not> needsIsolation (isoMD s') i" using isolateInFunction_stops [of b "is" s 0 i] b assms(4) by simp
  ultimately show ?thesis by (auto simp: needsIsolation_def isolated_def)
qed

lemma callsOf_iff: "i \<in> set (callsOf (ifBlocks F)) \<longleftrightarrow> i \<in> set (irInsts F) \<and> (\<exists>cb. inKind i = CallInst cb)"
  by (auto simp: callsOf_def irInsts_def)

text \<open>(C18) The call sites that the solver pass collects from an isolated function are exactly the direct calls of
  defined functions that are not helpers. The block of each of them holds the call and a branch to the collected
  exit block, which holds nothing but a branch.\<close>

theorem collectIsolatedCalls_complete:
  assumes "iso_wf s" "noMarks s" "gid_wf s" "isolateInFunction s 0 = (count, s')"
  shows "(\<lambda>ic. (icCall ic, icCallee ic)) ` set (collectIsolatedCalls (isoMD s') (isoFun s')) =
      {(inId i, calledFunction i) | i cb. i \<in> set (irInsts (isoFun s)) \<and> inKind i = CallInst cb \<and> isIsolatableCall cb}
    \<and> (\<forall>ic \<in> set (collectIsolatedCalls (isoMD s') (isoFun s')). \<exists>i br br2.
         instsOf (isoFun s') (icEntry ic) = [i, br] \<and> inId i = icCall ic \<and> ifSuccs (isoFun s') (icEntry ic) = [icExit ic]
         \<and> instsOf (isoFun s') (icExit ic) = [br2] \<and> inKind br = OtherInst False \<and> inKind br2 = OtherInst False)"
proof -
  note st = isolateInFunction_state [OF assms]
  let ?F = "isoFun s'" let ?md = "isoMD s'"
  have C: "set (collectIsolatedCalls ?md ?F) =
      {callSite ?F b i | b i. (b, i) \<in> set (blockInsts ?F) \<and> (\<exists>cb. inKind i = CallInst cb \<and> isIsolatableCall cb)}"
    unfolding collect_marked [OF st] using marked_iff_isolatable [OF assms] by blast
  have insts: "(\<exists>b. (b, i) \<in> set (blockInsts ?F)) \<longleftrightarrow> i \<in> set (irInsts ?F)" for i
    using arg_cong [OF blockInsts_snd [of ?F], of set] by force
  have "callsOf (ifBlocks ?F) = callsOf (ifBlocks (isoFun s))" using callsOf_isolateInFunction [of s 0] assms(4) by simp
  then have same: "i \<in> set (irInsts ?F) \<longleftrightarrow> i \<in> set (irInsts (isoFun s))" if "inKind i = CallInst cb" for i cb
    using callsOf_iff [of i ?F] callsOf_iff [of i "isoFun s"] that by simp
  have "(\<lambda>ic. (icCall ic, icCallee ic)) ` set (collectIsolatedCalls ?md ?F) =
      {(inId i, calledFunction i) | i cb. i \<in> set (irInsts ?F) \<and> inKind i = CallInst cb \<and> isIsolatableCall cb}"
  proof -
    have "(\<lambda>ic. (icCall ic, icCallee ic)) ` {callSite ?F b i | b i. (b, i) \<in> set (blockInsts ?F) \<and> P i} =
        {(inId i, calledFunction i) | i. i \<in> set (irInsts ?F) \<and> P i}" for P
    proof -
      have "(\<lambda>ic. (icCall ic, icCallee ic)) ` {callSite ?F b i | b i. (b, i) \<in> set (blockInsts ?F) \<and> P i} =
          (\<lambda>(b, i). (icCall (callSite ?F b i), icCallee (callSite ?F b i))) ` {(b, i). (b, i) \<in> set (blockInsts ?F) \<and> P i}"
        by (auto simp: image_iff)
      also have "\<dots> = {(inId i, calledFunction i) | i. i \<in> set (irInsts ?F) \<and> P i}"
        unfolding insts [symmetric] by (auto simp: callSite_def image_iff)
      finally show ?thesis .
    qed
    from this [of "\<lambda>i. \<exists>cb. inKind i = CallInst cb \<and> isIsolatableCall cb"] show ?thesis unfolding C by auto
  qed
  also have "\<dots> = {(inId i, calledFunction i) | i cb. i \<in> set (irInsts (isoFun s)) \<and> inKind i = CallInst cb \<and> isIsolatableCall cb}"
    using same by blast
  finally have 1: "(\<lambda>ic. (icCall ic, icCallee ic)) ` set (collectIsolatedCalls ?md ?F) = \<dots>" .
  have look: "instsOf ?F c = is" if "(c, is) \<in> set (ifBlocks ?F)" for c "is"
    using that st(1) by (simp add: instsOf_def omap_get_def iso_wf_def irBlocks_def)
  have 2: "\<exists>i br br2. instsOf ?F (icEntry ic) = [i, br] \<and> inId i = icCall ic \<and> ifSuccs ?F (icEntry ic) = [icExit ic]
      \<and> instsOf ?F (icExit ic) = [br2] \<and> inKind br = OtherInst False \<and> inKind br2 = OtherInst False"
    if ic: "ic \<in> set (collectIsolatedCalls ?md ?F)" for ic
  proof -
    from ic obtain b i where i: "ic = callSite ?F b i" "(b, i) \<in> set (blockInsts ?F)" "map_of (callEntryMD ?md) (inId i) \<noteq> None"
      unfolding collect_marked [OF st] by auto
    then have "isolated ?md ?F b i" using st(2) by (fastforce simp: marks_isolated_def blockInsts_iff)
    then obtain br x br2 where "inKind br = OtherInst False" "inKind br2 = OtherInst False" "(b, [i, br]) \<in> set (ifBlocks ?F)"
      "ifSuccs ?F b = [x]" "(x, [br2]) \<in> set (ifBlocks ?F)" by (auto simp: isolated_def)
    then show ?thesis using i(1) look by (auto simp: callSite_def getSingleSuccessor_def)
  qed
  from 1 2 show ?thesis by blast
qed

text \<open>A function with a helper call and two calls of defined functions in a loop.\<close>

definition sample_iso :: iso_state where
  "sample_iso = \<lparr>isoFun = \<lparr>ifName = ''f'', ifBlocks = [(1, [sample_call 2 ''uart_put'', sample_call 3 ''g'', sample_call 4 ''h'', branchInst 5]), (6, [branchInst 7])],
     ifSuccs = (\<lambda>b. if b = 1 then [1, 6] else [])\<rparr>, isoMD = \<lparr>callEntryMD = [], callExitMD = []\<rparr>, isoGid = 0, isoFresh = 10\<rparr>"

lemma sample_iso_ok: "iso_wf sample_iso" "noMarks sample_iso" "gid_wf sample_iso" "succs_closed (isoFun sample_iso)"
proof -
  show "iso_wf sample_iso" "noMarks sample_iso" "succs_closed (isoFun sample_iso)"
    by (auto simp: iso_wf_def noMarks_def succs_closed_def sample_iso_def irBlocks_def irInsts_def sample_call_def branchInst_def)
  have "length (openCalls sample_iso) = 2"
    by (simp add: openCalls_def callsOf_def needsIsolation_def sample_iso_def sample_call_def isIsolatableCall_def isSchematicHelperCallee_def
      isBenchmarkInfrastructureFunction_def startsWith_def)
  then show "gid_wf sample_iso" by (simp add: gid_wf_def) (simp add: sample_iso_def)
qed

theorem collectIsolatedCalls_complete_witness:
  "let s' = snd (isolateInFunction sample_iso 0)
   in map (\<lambda>ic. (icEntry ic, icExit ic, icCallee ic)) (collectIsolatedCalls (isoMD s') (isoFun s')) = [(10, 14, Some ''g''), (16, 20, Some ''h'')]
    \<and> (\<lambda>ic. (icCall ic, icCallee ic)) ` set (collectIsolatedCalls (isoMD s') (isoFun s')) =
      {(inId i, calledFunction i) | i cb. i \<in> set (irInsts (isoFun sample_iso)) \<and> inKind i = CallInst cb \<and> isIsolatableCall cb}"
proof -
  obtain c s' where s': "isolateInFunction sample_iso 0 = (c, s')" by fastforce
  have "map (\<lambda>ic. (icEntry ic, icExit ic, icCallee ic)) (collectIsolatedCalls (isoMD (snd (isolateInFunction sample_iso 0)))
      (isoFun (snd (isolateInFunction sample_iso 0)))) = [(10, 14, Some ''g''), (16, 20, Some ''h'')]" by code_simp
  with collectIsolatedCalls_complete [OF sample_iso_ok(1-3) s'] s' show ?thesis by simp
qed

theorem isolateInFunction_preserves_runs_witness:
  "[2, 3, 4, 5, 2] \<in> partialRuns (isoFun sample_iso) 1
   \<and> partialRuns (isoFun sample_iso) 1 = filter (\<lambda>v. v < 10) ` partialRuns (isoFun (snd (isolateInFunction sample_iso 0))) 1"
proof -
  obtain c s' where s': "isolateInFunction sample_iso 0 = (c, s')" by fastforce
  have "ir_path (isoFun sample_iso) (1 # [1]) \<and> prefix [2, 3, 4, 5, 2] (concat (map (idsOf (isoFun sample_iso)) (1 # [1])))" by code_simp
  then have "[2, 3, 4, 5, 2] \<in> partialRuns (isoFun sample_iso) 1" unfolding partialRuns_def by blast
  moreover have "1 \<in> set (irBlocks (isoFun sample_iso))" "isoFresh sample_iso = 10" by (simp_all add: sample_iso_def irBlocks_def)
  ultimately show ?thesis using isolateInFunction_preserves_runs [OF sample_iso_ok(1,4) s', of 1] s' by simp
qed

end
