(* ===== verification/SchematicState.thy ===== *)
theory SchematicState
  imports CallIsolation SchematicSolution "HOL-Library.Product_Lexorder"
begin

text \<open>
  The state analysis of the SCHEMATIC pass (\<open>schematic/SchematicStateAnalysis.cpp\<close>): the placement candidates
  (globals and static allocas) with their sizes, the calls whose effects are unknown, and how often and how
  first each block accesses each candidate. The tables it fills are the record \<open>SchematicStateAnalysis\<close>.

  Loads and stores of an alloca are found by following its uses through GEP and bitcast instructions with a
  worklist; a user appears once for each of its operands that is the value, as in LLVM, and the order of users
  does not matter. The worklist loop is an option, and it is shown to end when no pointer is derived from
  itself. Diagnostics are the block and the instruction they name.

  Shown: the counts and the kind of the first access are those of the instructions of the block; the calls
  that were isolated are accepted, so that the diagnostics name only calls that cannot be isolated.
\<close>

section \<open>Candidates\<close>

record candidate_set =
  cs_candidates :: "value_ptr list"
  cs_globals :: "value_ptr list"
  cs_sizes :: "(value_ptr, u32) omap"
  cs_seen :: "value_ptr list"

definition accessPointer :: "ir_inst \<Rightarrow> value_ptr option" where
  "accessPointer i = (case inKind i of LoadInst ptr \<Rightarrow> Some ptr | StoreInst ptr _ \<Rightarrow> Some ptr | _ \<Rightarrow> None)"

definition allocaOf :: "ir_function \<Rightarrow> value_ptr \<Rightarrow> alloca_info option" where
  "allocaOf F v =
     (case instAt F v of
        None \<Rightarrow> None
      | Some (_, i) \<Rightarrow> (case inKind i of AllocaInst a \<Rightarrow> Some a | _ \<Rightarrow> None))"

definition considerGlobal :: "value_ptr \<Rightarrow> global_info \<Rightarrow> candidate_set \<Rightarrow> candidate_set" where
  "considerGlobal GV g cs =
     (if gvDeclaration g then cs
      else if gvConstant g then cs
      else if startsWith (gvName g) ''llvm.'' then cs
      else if startsWith (gvName g) ''__nvm_'' then cs
      else if startsWith (gvName g) ''__vm_shadow_'' then cs
      else if \<not> gvSized g then cs
      else if GV \<in> set (cs_seen cs) then cs
      else cs\<lparr>cs_seen := GV # cs_seen cs, cs_candidates := cs_candidates cs @ [GV], cs_globals := cs_globals cs @ [GV],
              cs_sizes := omap_put GV (ucast (gvAllocSize g)) (cs_sizes cs)\<rparr>)"

definition considerAlloca :: "value_ptr \<Rightarrow> alloca_info \<Rightarrow> candidate_set \<Rightarrow> candidate_set" where
  "considerAlloca AI a cs =
     (case aiArraySize a of
        None \<Rightarrow> cs
      | Some elemCount \<Rightarrow>
          (if \<not> aiSized a then cs
           else if AI \<in> set (cs_seen cs) then cs
           else let totalBytes = aiElemAllocSize a * elemCount; cs1 = cs\<lparr>cs_seen := AI # cs_seen cs\<rparr>
                in if 0xFFFFFFFF < totalBytes then cs1
                   else cs1\<lparr>cs_candidates := cs_candidates cs @ [AI], cs_sizes := omap_put AI (ucast totalBytes) (cs_sizes cs)\<rparr>))"

definition considerAccess :: "ir_function \<Rightarrow> ir_env \<Rightarrow> candidate_set \<Rightarrow> ir_inst \<Rightarrow> candidate_set" where
  "considerAccess F env cs i =
     (case accessPointer i of
        None \<Rightarrow> cs
      | Some ptr \<Rightarrow>
          let obj = getUnderlyingObject env (stripPointerCasts env ptr)
          in case globalOf env obj of
               Some g \<Rightarrow> considerGlobal obj g cs
             | None \<Rightarrow> (case allocaOf F obj of Some a \<Rightarrow> considerAlloca obj a cs | None \<Rightarrow> cs))"

definition identifyCandidates :: "ir_function \<Rightarrow> ir_env \<Rightarrow> candidate_set" where
  "identifyCandidates F env =
     foldl (considerAccess F env) \<lparr>cs_candidates = [], cs_globals = [], cs_sizes = [], cs_seen = []\<rparr> (irInsts F)"

section \<open>Calls\<close>

definition isHelperName :: "string \<Rightarrow> bool" where
  "isHelperName n \<longleftrightarrow>
     startsWith n ''__mspabi_'' \<or> startsWith n ''__aeabi_'' \<or> startsWith n ''__div'' \<or>
     startsWith n ''__udiv'' \<or> startsWith n ''__mul'' \<or> startsWith n ''__mod''"

definition allowsDirectCall :: "ir_metadata \<Rightarrow> ir_inst \<Rightarrow> call_info \<Rightarrow> bool" where
  "allowsDirectCall md i cb =
     (if cbInlineAsm cb then False
      else case cbCallee cb of
             None \<Rightarrow> False
           | Some (n, isIntrinsic, isDeclaration) \<Rightarrow>
               if isIntrinsic then True
               else if n = ''__loop_tripcount'' then True
               else if n = ''bench_halt'' \<or> n = ''bench_commit_result'' then True
               else if isBenchmarkInfrastructureFunction n then True
               else if isHelperName n then True
               else if \<not> isDeclaration then isIsolatedCallEntry md i
               else cbDoesNotAccessMemory cb \<or> cbOnlyReadsMemory cb)"

definition unresolvedCall :: "ir_metadata \<Rightarrow> ir_inst \<Rightarrow> bool" where
  "unresolvedCall md i = (case getCallBase i of None \<Rightarrow> False | Some cb \<Rightarrow> \<not> allowsDirectCall md i cb)"

definition findUnresolvedCalls :: "ir_metadata \<Rightarrow> ir_function \<Rightarrow> (bb_ptr \<times> value_ptr) list" where
  "findUnresolvedCalls md F = map (\<lambda>(b, i). (b, inId i)) (filter (\<lambda>(b, i). unresolvedCall md i) (blockInsts F))"

section \<open>Access maps\<close>

type_synonym access_key = "bb_ptr \<times> value_ptr"

record access_maps =
  am_loads :: "(access_key, u32) omap"
  am_stores :: "(access_key, u32) omap"
  am_first :: "(access_key, bool) omap"

definition bumpCount :: "access_key \<Rightarrow> (access_key, u32) omap \<Rightarrow> (access_key, u32) omap" where
  "bumpCount k m = omap_put k (omap_get 0 m k + 1) m"

definition accessGlobal :: "ir_env \<Rightarrow> bb_ptr \<Rightarrow> ir_inst \<Rightarrow> access_maps \<Rightarrow> value_ptr \<Rightarrow> access_maps" where
  "accessGlobal env BB i m GV =
     (let key = (BB, GV); isRef = isRefSet env i GV; isMod = isModSet env i GV;
          m1 = (if isRef then m\<lparr>am_loads := bumpCount key (am_loads m)\<rparr> else m);
          m2 = (if isMod then m1\<lparr>am_stores := bumpCount key (am_stores m1)\<rparr> else m1)
      in if (isRef \<or> isMod) \<and> map_of (am_first m2) key = None then m2\<lparr>am_first := omap_put key isRef (am_first m2)\<rparr> else m2)"

definition accessGlobals :: "ir_metadata \<Rightarrow> ir_env \<Rightarrow> value_ptr list \<Rightarrow> access_maps \<Rightarrow> bb_ptr \<times> ir_inst \<Rightarrow> access_maps" where
  "accessGlobals md env globals m bi =
     (let (BB, i) = bi in if isIsolatedCallEntry md i then m else foldl (accessGlobal env BB i) m globals)"

text \<open>The users of a value, once for each operand.\<close>

definition useList :: "ir_function \<Rightarrow> value_ptr \<Rightarrow> (bb_ptr \<times> ir_inst) list" where
  "useList F v = concat (map (\<lambda>(b, i). replicate (count_list (inOperands i) v) (b, i)) (blockInsts F))"

record alloca_scan =
  as_maps :: access_maps
  as_info :: "(value_ptr \<times> bool) list"
  as_work :: "value_ptr list"

definition scanUser :: "value_ptr \<Rightarrow> value_ptr \<Rightarrow> alloca_scan \<Rightarrow> bb_ptr \<times> ir_inst \<Rightarrow> alloca_scan" where
  "scanUser AI cur s bu =
     (let (BB, U) = bu; m = as_maps s in
      case inKind U of
        LoadInst _ \<Rightarrow> s\<lparr>as_maps := m\<lparr>am_loads := bumpCount (BB, AI) (am_loads m)\<rparr>, as_info := as_info s @ [(inId U, True)]\<rparr>
      | StoreInst ptr _ \<Rightarrow>
          (if ptr = cur then s\<lparr>as_maps := m\<lparr>am_stores := bumpCount (BB, AI) (am_stores m)\<rparr>, as_info := as_info s @ [(inId U, False)]\<rparr> else s)
      | GetElementPtrInst \<Rightarrow> s\<lparr>as_work := as_work s @ [inId U]\<rparr>
      | BitCastInst \<Rightarrow> s\<lparr>as_work := as_work s @ [inId U]\<rparr>
      | _ \<Rightarrow> s)"

partial_function (option) scanUses :: "ir_function \<Rightarrow> value_ptr \<Rightarrow> alloca_scan \<Rightarrow> alloca_scan option" where
  "scanUses F AI s =
     (if as_work s = [] then Some s
      else let cur = last (as_work s)
           in scanUses F AI (foldl (scanUser AI cur) (s\<lparr>as_work := butlast (as_work s)\<rparr>) (useList F cur)))"

declare scanUses.simps [code]

definition firstAccess :: "(value_ptr \<times> bool) list \<Rightarrow> ir_inst list \<Rightarrow> bool option" where
  "firstAccess info is =
     (case find (\<lambda>i. map_of info (inId i) \<noteq> None) is of None \<Rightarrow> None | Some i \<Rightarrow> map_of info (inId i))"

definition recordFirst :: "value_ptr \<Rightarrow> (value_ptr \<times> bool) list \<Rightarrow> access_maps \<Rightarrow> bb_ptr \<times> ir_inst list \<Rightarrow> access_maps" where
  "recordFirst AI info m blk =
     (let (BB, is) = blk; key = (BB, AI) in
      if map_of (am_loads m) key = None \<and> map_of (am_stores m) key = None then m
      else if map_of (am_first m) key \<noteq> None then m
      else case firstAccess info is of Some l \<Rightarrow> m\<lparr>am_first := omap_put key l (am_first m)\<rparr> | None \<Rightarrow> m)"

definition accessAlloca :: "ir_function \<Rightarrow> access_maps \<Rightarrow> value_ptr \<Rightarrow> access_maps option" where
  "accessAlloca F m V =
     (if allocaOf F V = None then Some m
      else map_option (\<lambda>s. foldl (recordFirst V (as_info s)) (as_maps s) (ifBlocks F))
             (scanUses F V \<lparr>as_maps = m, as_info = [], as_work = [V]\<rparr>))"

definition computeAccessMaps :: "ir_metadata \<Rightarrow> ir_function \<Rightarrow> ir_env \<Rightarrow> candidate_set \<Rightarrow> access_maps option" where
  "computeAccessMaps md F env cs =
     foldM (accessAlloca F) (foldl (accessGlobals md env (cs_globals cs)) \<lparr>am_loads = [], am_stores = [], am_first = []\<rparr> (blockInsts F))
       (cs_candidates cs)"

text \<open>The constructor. The second component is \<open>analysisErrors_\<close>.\<close>

definition analyzeSchematicState ::
  "ir_metadata \<Rightarrow> ir_function \<Rightarrow> ir_env \<Rightarrow> (value_ptr \<Rightarrow> bool) \<Rightarrow> (SchematicStateAnalysis \<times> (bb_ptr \<times> value_ptr) list) option" where
  "analyzeSchematicState md F env isPtr =
     (let cs = identifyCandidates F env; errors = findUnresolvedCalls md F
      in map_option (\<lambda>m. (\<lparr>sa_candidates = cs_candidates cs, sa_varSizeBytes = cs_sizes cs, sa_loadCounts = am_loads m,
                           sa_storeCounts = am_stores m, sa_firstOpIsLoad = am_first m, isPointerType = isPtr\<rparr>, errors))
           (computeAccessMaps md F env cs))"

section \<open>Candidates are found once\<close>

lemma considerAccess_cases:
  obtains (skip) seen where "considerAccess F env cs i = cs\<lparr>cs_seen := seen\<rparr>" "set (cs_seen cs) \<subseteq> set seen"
  | (global) v g where "considerAccess F env cs i = cs\<lparr>cs_seen := v # cs_seen cs, cs_candidates := cs_candidates cs @ [v],
      cs_globals := cs_globals cs @ [v], cs_sizes := omap_put v (ucast (gvAllocSize g)) (cs_sizes cs)\<rparr>" "v \<notin> set (cs_seen cs)" "globalOf env v = Some g"
  | (alloca) v a n where "considerAccess F env cs i = cs\<lparr>cs_seen := v # cs_seen cs, cs_candidates := cs_candidates cs @ [v],
      cs_sizes := omap_put v (ucast (aiElemAllocSize a * n)) (cs_sizes cs)\<rparr>" "v \<notin> set (cs_seen cs)" "globalOf env v = None" "allocaOf F v = Some a"
proof -
  show thesis
  proof (cases "accessPointer i")
    case None
    then show thesis using skip [of "cs_seen cs"] by (simp add: considerAccess_def)
  next
    case (Some ptr)
    let ?v = "getUnderlyingObject env (stripPointerCasts env ptr)"
    show thesis
    proof (cases "globalOf env ?v")
      case (Some g)
      with \<open>accessPointer i = Some ptr\<close> have e: "considerAccess F env cs i = considerGlobal ?v g cs" by (simp add: considerAccess_def Let_def)
      show thesis
      proof (cases "considerGlobal ?v g cs = cs")
        case True
        then show thesis using skip [of "cs_seen cs"] e by simp
      next
        case False
        then show thesis using global [of ?v g] e Some by (auto simp: considerGlobal_def split: if_splits)
      qed
    next
      case None
      show thesis
      proof (cases "allocaOf F ?v")
        case None
        then show thesis using skip [of "cs_seen cs"] \<open>accessPointer i = Some ptr\<close> \<open>globalOf env ?v = None\<close> by (simp add: considerAccess_def Let_def)
      next
        case (Some a)
        with \<open>accessPointer i = Some ptr\<close> None have e: "considerAccess F env cs i = considerAlloca ?v a cs" by (simp add: considerAccess_def Let_def)
        consider "considerAlloca ?v a cs = cs" | n where "aiArraySize a = Some n" "?v \<notin> set (cs_seen cs)" "considerAlloca ?v a cs \<noteq> cs"
          by (cases "aiArraySize a"; cases "?v \<in> set (cs_seen cs)") (auto simp: considerAlloca_def)
        then show thesis
        proof cases
          case 1
          then show thesis using skip [of "cs_seen cs"] e by simp
        next
          case (2 n)
          then show thesis using e skip [of "?v # cs_seen cs"] alloca [of ?v a n] None Some
            by (auto simp: considerAlloca_def Let_def split: if_splits)
        qed
      qed
    qed
  qed
qed

definition candidates_ok :: "ir_function \<Rightarrow> ir_env \<Rightarrow> candidate_set \<Rightarrow> bool" where
  "candidates_ok F env cs \<longleftrightarrow>
     distinct (cs_candidates cs) \<and> set (cs_candidates cs) \<subseteq> set (cs_seen cs)
     \<and> cs_globals cs = filter (\<lambda>v. globalOf env v \<noteq> None) (cs_candidates cs)
     \<and> (\<forall>v \<in> set (cs_candidates cs). globalOf env v = None \<longrightarrow> allocaOf F v \<noteq> None)"

lemma candidates_ok_consider:
  assumes "candidates_ok F env cs"
  shows "candidates_ok F env (considerAccess F env cs i)"
  by (rule considerAccess_cases [of F env cs i]) (use assms in \<open>auto simp: candidates_ok_def\<close>)

lemma identifyCandidates_ok: "candidates_ok F env (identifyCandidates F env)"
  unfolding identifyCandidates_def
proof (rule foldl_invariant)
  show "candidates_ok F env \<lparr>cs_candidates = [], cs_globals = [], cs_sizes = [], cs_seen = []\<rparr>" by (simp add: candidates_ok_def)
qed (rule candidates_ok_consider)

section \<open>The tables of globals\<close>

text \<open>The tables at one key.\<close>

abbreviation loadsAt :: "access_maps \<Rightarrow> access_key \<Rightarrow> u32" where "loadsAt m k \<equiv> omap_get 0 (am_loads m) k"
abbreviation storesAt :: "access_maps \<Rightarrow> access_key \<Rightarrow> u32" where "storesAt m k \<equiv> omap_get 0 (am_stores m) k"
abbreviation firstAt :: "access_maps \<Rightarrow> access_key \<Rightarrow> bool option" where "firstAt m k \<equiv> map_of (am_first m) k"

lemma bump_get [simp]: "omap_get 0 (bumpCount k m) k' = (if k' = k then omap_get 0 m k + 1 else omap_get 0 m k')"
  by (simp add: bumpCount_def omap_get_put)

lemma accessGlobal_at:
  "loadsAt (accessGlobal env b i m v) k = loadsAt m k + (if k = (b, v) \<and> isRefSet env i v then 1 else 0)"
  "storesAt (accessGlobal env b i m v) k = storesAt m k + (if k = (b, v) \<and> isModSet env i v then 1 else 0)"
  "firstAt (accessGlobal env b i m v) k =
     (if k = (b, v) \<and> firstAt m k = None \<and> (isRefSet env i v \<or> isModSet env i v) then Some (isRefSet env i v) else firstAt m k)"
  by (auto simp: accessGlobal_def Let_def map_of_omap_put)

lemma accessGlobal_fold:
  assumes "distinct vs"
  shows "loadsAt (foldl (accessGlobal env b i) m vs) (c, v) = loadsAt m (c, v) + (if c = b \<and> v \<in> set vs \<and> isRefSet env i v then 1 else 0)"
    and "storesAt (foldl (accessGlobal env b i) m vs) (c, v) = storesAt m (c, v) + (if c = b \<and> v \<in> set vs \<and> isModSet env i v then 1 else 0)"
    and "firstAt (foldl (accessGlobal env b i) m vs) (c, v) =
     (if c = b \<and> v \<in> set vs \<and> firstAt m (c, v) = None \<and> (isRefSet env i v \<or> isModSet env i v) then Some (isRefSet env i v) else firstAt m (c, v))"
  using assms by (induction vs arbitrary: m) (auto simp: accessGlobal_at)

definition globalRef :: "ir_metadata \<Rightarrow> ir_env \<Rightarrow> value_ptr \<Rightarrow> ir_inst \<Rightarrow> bool" where
  "globalRef md env v i \<longleftrightarrow> \<not> isIsolatedCallEntry md i \<and> isRefSet env i v"

definition globalMod :: "ir_metadata \<Rightarrow> ir_env \<Rightarrow> value_ptr \<Rightarrow> ir_inst \<Rightarrow> bool" where
  "globalMod md env v i \<longleftrightarrow> \<not> isIsolatedCallEntry md i \<and> isModSet env i v"

lemma accessGlobals_at:
  assumes "distinct vs"
  shows "loadsAt (accessGlobals md env vs m (b, i)) (c, v) = loadsAt m (c, v) + (if b = c \<and> v \<in> set vs \<and> globalRef md env v i then 1 else 0)"
    and "storesAt (accessGlobals md env vs m (b, i)) (c, v) = storesAt m (c, v) + (if b = c \<and> v \<in> set vs \<and> globalMod md env v i then 1 else 0)"
    and "firstAt (accessGlobals md env vs m (b, i)) (c, v) =
      (if b = c \<and> v \<in> set vs \<and> firstAt m (c, v) = None \<and> (globalRef md env v i \<or> globalMod md env v i)
       then Some (globalRef md env v i) else firstAt m (c, v))"
  by (auto simp: accessGlobals_def accessGlobal_fold [OF assms] globalRef_def globalMod_def)

lemma accessGlobals_counts:
  assumes "distinct vs" "v \<in> set vs"
  shows "loadsAt (foldl (accessGlobals md env vs) m L) (c, v) = loadsAt m (c, v) + of_nat (length (filter (\<lambda>(b, i). b = c \<and> globalRef md env v i) L))"
    and "storesAt (foldl (accessGlobals md env vs) m L) (c, v) = storesAt m (c, v) + of_nat (length (filter (\<lambda>(b, i). b = c \<and> globalMod md env v i) L))"
  using assms(2) by (induction L arbitrary: m) (auto simp: accessGlobals_at [OF assms(1)] split: if_splits)

lemma accessGlobals_first:
  assumes "distinct vs" "v \<in> set vs"
  shows "firstAt (foldl (accessGlobals md env vs) m L) (c, v) =
      (case firstAt m (c, v) of Some x \<Rightarrow> Some x
       | None \<Rightarrow> map_option (\<lambda>(b, i). globalRef md env v i) (find (\<lambda>(b, i). b = c \<and> (globalRef md env v i \<or> globalMod md env v i)) L))"
proof (induction L arbitrary: m)
  case (Cons p L)
  obtain b i where p: "p = (b, i)" by (cases p)
  show ?case unfolding p foldl.simps Cons.IH accessGlobals_at(3) [OF assms(1)] using assms(2) by (auto split: option.splits)
qed (simp split: option.split)

lemma accessGlobals_other:
  assumes "distinct vs" "v \<notin> set vs"
  shows "loadsAt (foldl (accessGlobals md env vs) m L) (c, v) = loadsAt m (c, v)"
    and "storesAt (foldl (accessGlobals md env vs) m L) (c, v) = storesAt m (c, v)"
    and "firstAt (foldl (accessGlobals md env vs) m L) (c, v) = firstAt m (c, v)"
  using assms(2) by (induction L arbitrary: m) (auto simp: accessGlobals_at [OF assms(1)])

section \<open>The tables of an alloca\<close>

text \<open>The pointers derived from a value by address computations and casts.\<close>

definition derivesPtr :: "ir_inst \<Rightarrow> bool" where
  "derivesPtr i \<longleftrightarrow> inKind i = GetElementPtrInst \<or> inKind i = BitCastInst"

inductive derived :: "ir_function \<Rightarrow> value_ptr \<Rightarrow> value_ptr \<Rightarrow> bool" for F AI where
  base: "derived F AI AI"
| step: "derived F AI p \<Longrightarrow> (b, u) \<in> set (blockInsts F) \<Longrightarrow> derivesPtr u \<Longrightarrow> p \<in> set (inOperands u) \<Longrightarrow> derived F AI (inId u)"

text \<open>What LLVM guarantees: instruction addresses are unique, loads and stores name their pointer once among their
  operands, and an address computation or cast has one pointer operand.\<close>

definition uses_ok :: "ir_function \<Rightarrow> bool" where
  "uses_ok F \<longleftrightarrow>
     distinct (irBlocks F) \<and> distinct (map inId (irInsts F))
     \<and> (\<forall>i \<in> set (irInsts F). \<forall>p. inKind i = LoadInst p \<longrightarrow> inOperands i = [p])
     \<and> (\<forall>i \<in> set (irInsts F). \<forall>p a. inKind i = StoreInst p a \<longrightarrow> count_list (inOperands i) p = 1)"

definition single_base :: "ir_function \<Rightarrow> value_ptr \<Rightarrow> bool" where
  "single_base F AI \<longleftrightarrow> (\<forall>u \<in> set (irInsts F). derivesPtr u \<longrightarrow> length (filter (derived F AI) (inOperands u)) \<le> 1)"

lemma scanUser_other:
  assumes "k = 0 \<or> \<not> (\<exists>p. inKind u = LoadInst p) \<and> \<not> (\<exists>a. inKind u = StoreInst cur a) \<and> \<not> derivesPtr u"
  shows "foldl (scanUser AI cur) s (replicate k (b, u)) = s"
  using assms by (induction k arbitrary: s) (auto simp: scanUser_def derivesPtr_def Let_def split: inst_kind.split)

definition usesOnce :: "value_ptr \<Rightarrow> ir_inst \<Rightarrow> bool" where
  "usesOnce cur u \<longleftrightarrow> (\<forall>p. inKind u = LoadInst p \<longrightarrow> inOperands u = [p])
     \<and> (\<forall>a. inKind u = StoreInst cur a \<longrightarrow> count_list (inOperands u) cur = 1)
     \<and> (derivesPtr u \<longrightarrow> count_list (inOperands u) cur \<le> 1)"

definition isLoadOf :: "value_ptr \<Rightarrow> ir_inst \<Rightarrow> bool" where
  "isLoadOf p i \<longleftrightarrow> inKind i = LoadInst p"

definition isStoreTo :: "value_ptr \<Rightarrow> ir_inst \<Rightarrow> bool" where
  "isStoreTo p i \<longleftrightarrow> (\<exists>a. inKind i = StoreInst p a)"

text \<open>What the users of one pointer add.\<close>

lemma scanUser_step:
  assumes "usesOnce cur u" and s'_def: "s' = foldl (scanUser AI cur) s (replicate (count_list (inOperands u) cur) (b, u))"
  shows "loadsAt (as_maps s') k = loadsAt (as_maps s) k + (if k = (b, AI) \<and> isLoadOf cur u then 1 else 0)"
    and "storesAt (as_maps s') k = storesAt (as_maps s) k + (if k = (b, AI) \<and> isStoreTo cur u then 1 else 0)"
    and "am_first (as_maps s') = am_first (as_maps s)"
    and "map_of (am_loads (as_maps s')) k \<noteq> None \<longleftrightarrow> map_of (am_loads (as_maps s)) k \<noteq> None \<or> k = (b, AI) \<and> isLoadOf cur u"
    and "map_of (am_stores (as_maps s')) k \<noteq> None \<longleftrightarrow> map_of (am_stores (as_maps s)) k \<noteq> None \<or> k = (b, AI) \<and> isStoreTo cur u"
    and "as_info s' = as_info s @ (if isLoadOf cur u then [(inId u, True)] else if isStoreTo cur u then [(inId u, False)] else [])"
    and "as_work s' = as_work s @ (if derivesPtr u \<and> cur \<in> set (inOperands u) then [inId u] else [])"
proof -
  have c0: "count_list (inOperands u) cur = 0 \<longleftrightarrow> cur \<notin> set (inOperands u)" by (simp add: count_list_0_iff)
  consider (load) "isLoadOf cur u" "count_list (inOperands u) cur = 1"
    | (store) "isStoreTo cur u" "count_list (inOperands u) cur = 1"
    | (derive) "derivesPtr u" "count_list (inOperands u) cur = 1"
    | (other) "s' = s" "\<not> isLoadOf cur u" "\<not> isStoreTo cur u" "\<not> (derivesPtr u \<and> cur \<in> set (inOperands u))"
  proof (cases "count_list (inOperands u) cur = 0")
    case True
    then have "s' = s" by (simp add: s'_def)
    moreover have "\<not> isLoadOf cur u" "\<not> isStoreTo cur u" using True assms(1) by (fastforce simp: usesOnce_def isLoadOf_def isStoreTo_def)+
    ultimately show thesis using True c0 other by blast
  next
    case False
    show thesis
    proof (cases "inKind u")
      case (LoadInst p)
      with assms(1) False have "p = cur" by (auto simp: usesOnce_def split: if_splits)
      with LoadInst assms(1) show thesis by (intro load) (auto simp: usesOnce_def isLoadOf_def)
    next
      case (StoreInst p a)
      show thesis
      proof (cases "p = cur")
        case True
        with StoreInst assms(1) show thesis by (intro store) (auto simp: usesOnce_def isStoreTo_def)
      next
        case False
        with StoreInst have "s' = s" unfolding s'_def by (intro scanUser_other) (auto simp: derivesPtr_def)
        with StoreInst False show thesis by (intro other) (auto simp: isLoadOf_def isStoreTo_def derivesPtr_def)
      qed
    next
      case GetElementPtrInst
      with False assms(1) show thesis by (intro derive) (auto simp: usesOnce_def derivesPtr_def)
    next
      case BitCastInst
      with False assms(1) show thesis by (intro derive) (auto simp: usesOnce_def derivesPtr_def)
    qed (rule other; (unfold s'_def, rule scanUser_other)?; simp add: isLoadOf_def isStoreTo_def derivesPtr_def)+
  qed
  note cs = this
  show "loadsAt (as_maps s') k = loadsAt (as_maps s) k + (if k = (b, AI) \<and> isLoadOf cur u then 1 else 0)"
    by (rule cs) (auto simp: s'_def Let_def scanUser_def isLoadOf_def isStoreTo_def derivesPtr_def)
  show "storesAt (as_maps s') k = storesAt (as_maps s) k + (if k = (b, AI) \<and> isStoreTo cur u then 1 else 0)"
    by (rule cs) (auto simp: s'_def Let_def scanUser_def isLoadOf_def isStoreTo_def derivesPtr_def)
  show "am_first (as_maps s') = am_first (as_maps s)"
    by (rule cs) (auto simp: s'_def Let_def scanUser_def isLoadOf_def isStoreTo_def derivesPtr_def)
  show "map_of (am_loads (as_maps s')) k \<noteq> None \<longleftrightarrow> map_of (am_loads (as_maps s)) k \<noteq> None \<or> k = (b, AI) \<and> isLoadOf cur u"
    by (rule cs) (auto simp: s'_def Let_def scanUser_def isLoadOf_def isStoreTo_def derivesPtr_def bumpCount_def map_of_omap_put)
  show "map_of (am_stores (as_maps s')) k \<noteq> None \<longleftrightarrow> map_of (am_stores (as_maps s)) k \<noteq> None \<or> k = (b, AI) \<and> isStoreTo cur u"
    by (rule cs) (auto simp: s'_def Let_def scanUser_def isLoadOf_def isStoreTo_def derivesPtr_def bumpCount_def map_of_omap_put)
  show "as_info s' = as_info s @ (if isLoadOf cur u then [(inId u, True)] else if isStoreTo cur u then [(inId u, False)] else [])"
    by (rule cs) (auto simp: s'_def Let_def scanUser_def isLoadOf_def isStoreTo_def derivesPtr_def)
  show "as_work s' = as_work s @ (if derivesPtr u \<and> cur \<in> set (inOperands u) then [inId u] else [])"
    by (rule cs) (auto simp: s'_def Let_def scanUser_def isLoadOf_def isStoreTo_def derivesPtr_def count_list_0_iff)
qed

definition usersFrom :: "value_ptr \<Rightarrow> (bb_ptr \<times> ir_inst) list \<Rightarrow> (bb_ptr \<times> ir_inst) list" where
  "usersFrom v L = concat (map (\<lambda>(b, i). replicate (count_list (inOperands i) v) (b, i)) L)"

lemma scan_users_all:
  assumes "\<forall>(b, u) \<in> set L. usesOnce cur u" and "s' = foldl (scanUser AI cur) s (usersFrom cur L)"
  shows "loadsAt (as_maps s') (c, v) = loadsAt (as_maps s) (c, v) + (if v = AI then of_nat (length (filter (\<lambda>(b, i). b = c \<and> isLoadOf cur i) L)) else 0)
    \<and> storesAt (as_maps s') (c, v) = storesAt (as_maps s) (c, v) + (if v = AI then of_nat (length (filter (\<lambda>(b, i). b = c \<and> isStoreTo cur i) L)) else 0)
    \<and> am_first (as_maps s') = am_first (as_maps s)
    \<and> (map_of (am_loads (as_maps s')) (c, v) \<noteq> None \<longleftrightarrow>
      map_of (am_loads (as_maps s)) (c, v) \<noteq> None \<or> v = AI \<and> (\<exists>i. (c, i) \<in> set L \<and> isLoadOf cur i))
    \<and> (map_of (am_stores (as_maps s')) (c, v) \<noteq> None \<longleftrightarrow>
      map_of (am_stores (as_maps s)) (c, v) \<noteq> None \<or> v = AI \<and> (\<exists>i. (c, i) \<in> set L \<and> isStoreTo cur i))
    \<and> set (as_info s') = set (as_info s) \<union> {(inId i, True) | b i. (b, i) \<in> set L \<and> isLoadOf cur i} \<union> {(inId i, False) | b i. (b, i) \<in> set L \<and> isStoreTo cur i}
    \<and> as_work s' = as_work s @ map (inId \<circ> snd) (filter (\<lambda>(b, i). derivesPtr i \<and> cur \<in> set (inOperands i)) L)"
  using assms
  proof (induction L arbitrary: s s')
    case (Cons p L)
    obtain b u where p: "p = (b, u)" by (cases p)
    let ?t = "foldl (scanUser AI cur) s (replicate (count_list (inOperands u) cur) (b, u))"
    have u: "usesOnce cur u" using Cons.prems p by simp
    note step = scanUser_step [OF u refl, where s = s and AI = AI and b = b]
    have excl: "\<not> (isLoadOf cur u \<and> isStoreTo cur u)" by (auto simp: isLoadOf_def isStoreTo_def)
    have "s' = foldl (scanUser AI cur) ?t (usersFrom cur L)" using Cons.prems(2) p by (simp add: usersFrom_def)
    from Cons.IH [OF _ this] Cons.prems(1)
    have IH: "loadsAt (as_maps s') (c, v) = loadsAt (as_maps ?t) (c, v) + (if v = AI then of_nat (length (filter (\<lambda>(b, i). b = c \<and> isLoadOf cur i) L)) else 0)"
      "storesAt (as_maps s') (c, v) = storesAt (as_maps ?t) (c, v) + (if v = AI then of_nat (length (filter (\<lambda>(b, i). b = c \<and> isStoreTo cur i) L)) else 0)"
      "am_first (as_maps s') = am_first (as_maps ?t)"
      "map_of (am_loads (as_maps s')) (c, v) \<noteq> None \<longleftrightarrow>
        map_of (am_loads (as_maps ?t)) (c, v) \<noteq> None \<or> v = AI \<and> (\<exists>i. (c, i) \<in> set L \<and> isLoadOf cur i)"
      "map_of (am_stores (as_maps s')) (c, v) \<noteq> None \<longleftrightarrow>
        map_of (am_stores (as_maps ?t)) (c, v) \<noteq> None \<or> v = AI \<and> (\<exists>i. (c, i) \<in> set L \<and> isStoreTo cur i)"
      "set (as_info s') = set (as_info ?t) \<union> {(inId i, True) | b i. (b, i) \<in> set L \<and> isLoadOf cur i} \<union> {(inId i, False) | b i. (b, i) \<in> set L \<and> isStoreTo cur i}"
      "as_work s' = as_work ?t @ map (inId \<circ> snd) (filter (\<lambda>(b, i). derivesPtr i \<and> cur \<in> set (inOperands i)) L)"
      by auto
    show ?case
    proof (intro conjI)
      show "loadsAt (as_maps s') (c, v) = loadsAt (as_maps s) (c, v) + (if v = AI then of_nat (length (filter (\<lambda>(b, i). b = c \<and> isLoadOf cur i) (p # L))) else 0)"
        unfolding IH(1) step(1) p by auto
      show "storesAt (as_maps s') (c, v) = storesAt (as_maps s) (c, v) + (if v = AI then of_nat (length (filter (\<lambda>(b, i). b = c \<and> isStoreTo cur i) (p # L))) else 0)"
        unfolding IH(2) step(2) p by auto
      show "am_first (as_maps s') = am_first (as_maps s)" unfolding IH(3) step(3) ..
      show "map_of (am_loads (as_maps s')) (c, v) \<noteq> None \<longleftrightarrow>
        map_of (am_loads (as_maps s)) (c, v) \<noteq> None \<or> v = AI \<and> (\<exists>i. (c, i) \<in> set (p # L) \<and> isLoadOf cur i)"
        unfolding IH(4) step(4) p by auto
      show "map_of (am_stores (as_maps s')) (c, v) \<noteq> None \<longleftrightarrow>
        map_of (am_stores (as_maps s)) (c, v) \<noteq> None \<or> v = AI \<and> (\<exists>i. (c, i) \<in> set (p # L) \<and> isStoreTo cur i)"
        unfolding IH(5) step(5) p by auto
      show "set (as_info s') = set (as_info s) \<union> {(inId i, True) | b i. (b, i) \<in> set (p # L) \<and> isLoadOf cur i}
          \<union> {(inId i, False) | b i. (b, i) \<in> set (p # L) \<and> isStoreTo cur i}"
        unfolding IH(6) step(6) p using excl by (cases "isLoadOf cur u"; cases "isStoreTo cur u") auto
      show "as_work s' = as_work s @ map (inId \<circ> snd) (filter (\<lambda>(b, i). derivesPtr i \<and> cur \<in> set (inOperands i)) (p # L))"
        unfolding IH(7) step(7) p by simp
    qed
  qed (simp add: usersFrom_def)

lemmas scan_users =
  scan_users_all [THEN conjunct1] scan_users_all [THEN conjunct2, THEN conjunct1]
  scan_users_all [THEN conjunct2, THEN conjunct2, THEN conjunct1]
  scan_users_all [THEN conjunct2, THEN conjunct2, THEN conjunct2, THEN conjunct1]
  scan_users_all [THEN conjunct2, THEN conjunct2, THEN conjunct2, THEN conjunct2, THEN conjunct1]
  scan_users_all [THEN conjunct2, THEN conjunct2, THEN conjunct2, THEN conjunct2, THEN conjunct2, THEN conjunct1]
  scan_users_all [THEN conjunct2, THEN conjunct2, THEN conjunct2, THEN conjunct2, THEN conjunct2, THEN conjunct2]

definition accessTally :: "ir_function \<Rightarrow> (ir_inst \<Rightarrow> bool) \<Rightarrow> bb_ptr \<Rightarrow> nat" where
  "accessTally F P c = length (filter (\<lambda>(b, i). b = c \<and> P i) (blockInsts F))"

definition loadsFrom :: "value_ptr set \<Rightarrow> ir_inst \<Rightarrow> bool" where
  "loadsFrom D i \<longleftrightarrow> (\<exists>p \<in> D. isLoadOf p i)"

definition storesTo :: "value_ptr set \<Rightarrow> ir_inst \<Rightarrow> bool" where
  "storesTo D i \<longleftrightarrow> (\<exists>p \<in> D. isStoreTo p i)"

text \<open>The tables after the users of the pointers \<open>D\<close> were scanned.\<close>

definition scan_tables :: "ir_function \<Rightarrow> value_ptr \<Rightarrow> access_maps \<Rightarrow> value_ptr set \<Rightarrow> alloca_scan \<Rightarrow> bool" where
  "scan_tables F AI m0 D s \<longleftrightarrow>
     (\<forall>c v. loadsAt (as_maps s) (c, v) = loadsAt m0 (c, v) + (if v = AI then of_nat (accessTally F (loadsFrom D) c) else 0))
     \<and> (\<forall>c v. storesAt (as_maps s) (c, v) = storesAt m0 (c, v) + (if v = AI then of_nat (accessTally F (storesTo D) c) else 0))
     \<and> am_first (as_maps s) = am_first m0
     \<and> (\<forall>c i. (c, i) \<in> set (blockInsts F) \<and> loadsFrom D i \<longrightarrow> map_of (am_loads (as_maps s)) (c, AI) \<noteq> None)
     \<and> (\<forall>c i. (c, i) \<in> set (blockInsts F) \<and> storesTo D i \<longrightarrow> map_of (am_stores (as_maps s)) (c, AI) \<noteq> None)
     \<and> set (as_info s) = {(inId i, True) | b i. (b, i) \<in> set (blockInsts F) \<and> loadsFrom D i} \<union> {(inId i, False) | b i. (b, i) \<in> set (blockInsts F) \<and> storesTo D i}"

lemma accessTally_split:
  assumes "\<And>i. P i \<longleftrightarrow> Q i \<or> R i" "\<And>i. \<not> (Q i \<and> R i)"
  shows "accessTally F P c = accessTally F Q c + accessTally F R c"
proof -
  have "length (filter (\<lambda>(b, i). b = c \<and> P i) L) = length (filter (\<lambda>(b, i). b = c \<and> Q i) L) + length (filter (\<lambda>(b, i). b = c \<and> R i) L)" for L
    using assms by (induction L) auto
  then show ?thesis by (simp add: accessTally_def)
qed

lemma access_insert:
  "loadsFrom (insert p D) i \<longleftrightarrow> loadsFrom D i \<or> isLoadOf p i" "storesTo (insert p D) i \<longleftrightarrow> storesTo D i \<or> isStoreTo p i"
  by (auto simp: loadsFrom_def storesTo_def)

lemma access_disjoint: "p \<notin> D \<Longrightarrow> \<not> (loadsFrom D i \<and> isLoadOf p i)" "p \<notin> D \<Longrightarrow> \<not> (storesTo D i \<and> isStoreTo p i)"
  by (auto simp: loadsFrom_def storesTo_def isLoadOf_def isStoreTo_def)

lemma scan_tables_step:
  assumes t: "scan_tables F AI m0 D s" and p: "p \<notin> D" and u: "\<forall>(b, u) \<in> set (blockInsts F). usesOnce p u"
  shows "scan_tables F AI m0 (insert p D) (foldl (scanUser AI p) (s\<lparr>as_work := w\<rparr>) (usersFrom p (blockInsts F)))"
proof -
  let ?s = "foldl (scanUser AI p) (s\<lparr>as_work := w\<rparr>) (usersFrom p (blockInsts F))"
  note facts = scan_users [OF u refl, of AI "s\<lparr>as_work := w\<rparr>"]
  have l: "accessTally F (loadsFrom (insert p D)) c = accessTally F (loadsFrom D) c + accessTally F (isLoadOf p) c" for c
    using access_insert(1) access_disjoint(1) [OF p] by (rule accessTally_split)
  have r: "accessTally F (storesTo (insert p D)) c = accessTally F (storesTo D) c + accessTally F (isStoreTo p) c" for c
    using access_insert(2) access_disjoint(2) [OF p] by (rule accessTally_split)
  show ?thesis unfolding scan_tables_def
  proof (intro conjI allI impI)
    fix c v
    show "loadsAt (as_maps ?s) (c, v) = loadsAt m0 (c, v) + (if v = AI then of_nat (accessTally F (loadsFrom (insert p D)) c) else 0)"
      using t unfolding facts(1) l scan_tables_def by (auto simp: accessTally_def)
    show "storesAt (as_maps ?s) (c, v) = storesAt m0 (c, v) + (if v = AI then of_nat (accessTally F (storesTo (insert p D)) c) else 0)"
      using t unfolding facts(2) r scan_tables_def by (auto simp: accessTally_def)
  next
    show "am_first (as_maps ?s) = am_first m0" using t by (simp add: facts(3) scan_tables_def)
  next
    fix c i assume "(c, i) \<in> set (blockInsts F) \<and> loadsFrom (insert p D) i"
    then show "map_of (am_loads (as_maps ?s)) (c, AI) \<noteq> None" using t unfolding facts(4) access_insert scan_tables_def by auto
  next
    fix c i assume "(c, i) \<in> set (blockInsts F) \<and> storesTo (insert p D) i"
    then show "map_of (am_stores (as_maps ?s)) (c, AI) \<noteq> None" using t unfolding facts(5) access_insert scan_tables_def by auto
  next
    have "set (as_info s) = {(inId i, True) | b i. (b, i) \<in> set (blockInsts F) \<and> loadsFrom D i} \<union> {(inId i, False) | b i. (b, i) \<in> set (blockInsts F) \<and> storesTo D i}"
      using t by (simp add: scan_tables_def)
    then show "set (as_info ?s) = {(inId i, True) | b i. (b, i) \<in> set (blockInsts F) \<and> loadsFrom (insert p D) i}
        \<union> {(inId i, False) | b i. (b, i) \<in> set (blockInsts F) \<and> storesTo (insert p D) i}"
      unfolding facts(6) access_insert by auto
  qed
qed

definition scan_inv :: "ir_function \<Rightarrow> value_ptr \<Rightarrow> value_ptr set \<Rightarrow> value_ptr list \<Rightarrow> bool" where
  "scan_inv F AI D W \<longleftrightarrow>
     (\<forall>p \<in> D \<union> set W. derived F AI p) \<and> distinct W \<and> D \<inter> set W = {} \<and> AI \<in> D \<union> set W
     \<and> (\<forall>(b, u) \<in> set (blockInsts F). derivesPtr u \<and> set (inOperands u) \<inter> D \<noteq> {} \<longrightarrow> inId u \<in> D \<union> set W)
     \<and> (\<forall>q \<in> (D \<union> set W) - {AI}. \<exists>b u. (b, u) \<in> set (blockInsts F) \<and> inId u = q \<and> derivesPtr u \<and> set (inOperands u) \<inter> D \<noteq> {})"

lemma blockInsts_in: "(b, u) \<in> set (blockInsts F) \<Longrightarrow> u \<in> set (irInsts F)"
  using arg_cong [OF blockInsts_snd [of F], of set] by force

lemma blockInsts_inj:
  assumes "distinct (map inId (irInsts F))" "(b, i) \<in> set (blockInsts F)" "(c, j) \<in> set (blockInsts F)" "inId i = inId j"
  shows "b = c \<and> i = j"
proof -
  have "distinct (map (inId \<circ> snd) (blockInsts F))" using assms(1) by (simp flip: blockInsts_snd)
  then have "inj_on (inId \<circ> snd) (set (blockInsts F))" by (simp add: distinct_map)
  from inj_onD [OF this _ assms(2,3)] assms(4) show ?thesis by simp
qed

lemma two_derived_operands:
  assumes "single_base F AI" "(b, u) \<in> set (blockInsts F)" "derivesPtr u" "p \<in> set (inOperands u)" "q \<in> set (inOperands u)"
    "derived F AI p" "derived F AI q"
  shows "p = q"
proof (rule ccontr)
  assume "p \<noteq> q"
  have "{p, q} \<subseteq> set (filter (derived F AI) (inOperands u))" using assms by auto
  then have "card {p, q} \<le> length (filter (derived F AI) (inOperands u))" by (metis card_length card_mono finite_set order_trans)
  moreover have "length (filter (derived F AI) (inOperands u)) \<le> 1" using assms(1,3) blockInsts_in [OF assms(2)] by (auto simp: single_base_def)
  ultimately show False using \<open>p \<noteq> q\<close> by simp
qed

lemma allocaOf_inst:
  assumes "allocaOf F AI = Some a"
  obtains b i where "(b, i) \<in> set (blockInsts F)" "inId i = AI" "\<not> derivesPtr i"
proof -
  from assms obtain b i where "instAt F AI = Some (b, i)" "inKind i = AllocaInst a"
    by (auto simp: allocaOf_def split: option.splits inst_kind.splits)
  then have "(b, i) \<in> set (blockInsts F)" "inId i = AI" "\<not> derivesPtr i"
    using find_someD [of _ "blockInsts F" "(b, i)"] by (auto simp: instAt_def blockInsts_def derivesPtr_def)
  then show thesis by (rule that)
qed

lemma scan_inv_step:
  assumes inv: "scan_inv F AI D (W @ [p])" and F: "uses_ok F" "single_base F AI" "allocaOf F AI \<noteq> None"
  shows "scan_inv F AI (insert p D) (W @ map (inId \<circ> snd) (filter (\<lambda>(b, i). derivesPtr i \<and> p \<in> set (inOperands i)) (blockInsts F)))"
    (is "scan_inv F AI _ (W @ ?N)")
proof -
  have ids: "distinct (map inId (irInsts F))" using F(1) by (simp add: uses_ok_def)
  have N: "q \<in> set ?N \<longleftrightarrow> (\<exists>b u. (b, u) \<in> set (blockInsts F) \<and> inId u = q \<and> derivesPtr u \<and> p \<in> set (inOperands u))" for q by force
  have dp: "derived F AI p" and dW: "\<forall>q \<in> D \<union> set W. derived F AI q" and pD: "p \<notin> D" "p \<notin> set W" and W: "distinct W" "D \<inter> set W = {}"
    and A: "AI \<in> D \<union> set W \<union> {p}" using inv by (auto simp: scan_inv_def)
  have dN: "derived F AI q" if "q \<in> set ?N" for q using that dp derived.step unfolding N by blast
  have new: "q \<notin> D \<union> set W \<union> {p}" if "q \<in> set ?N" for q
  proof
    assume q: "q \<in> D \<union> set W \<union> {p}"
    from that obtain b u where u: "(b, u) \<in> set (blockInsts F)" "inId u = q" "derivesPtr u" "p \<in> set (inOperands u)" unfolding N by blast
    show False
    proof (cases "q = AI")
      case True
      from F(3) obtain a where "allocaOf F AI = Some a" by blast
      then obtain c i where "(c, i) \<in> set (blockInsts F)" "inId i = AI" "\<not> derivesPtr i" by (rule allocaOf_inst)
      with blockInsts_inj [OF ids, of b u c i] u True show False by simp
    next
      case False
      with q have "q \<in> (D \<union> set (W @ [p])) - {AI}" by auto
      then obtain c v where v: "(c, v) \<in> set (blockInsts F)" "inId v = q" "derivesPtr v" "set (inOperands v) \<inter> D \<noteq> {}"
        using inv unfolding scan_inv_def by blast
      then obtain r where r: "r \<in> set (inOperands v)" "r \<in> D" by blast
      from blockInsts_inj [OF ids u(1) v(1)] u(2) v(2) have "v = u" by simp
      with two_derived_operands [OF F(2) u(1,3), of p r] u(4) r dp dW pD(1) show False by blast
    qed
  qed
  have "distinct (map (inId \<circ> snd) (blockInsts F))" using ids by (simp flip: blockInsts_snd)
  then have "distinct ?N" by (simp add: distinct_map_filter)
  moreover have "inId u \<in> insert p D \<union> set (W @ ?N)"
    if u: "(b, u) \<in> set (blockInsts F)" "derivesPtr u" "set (inOperands u) \<inter> insert p D \<noteq> {}" for b u
  proof (cases "p \<in> set (inOperands u)")
    case True
    then have "inId u \<in> set ?N" using u unfolding N by blast
    then show ?thesis by simp
  next
    case False
    then have "set (inOperands u) \<inter> D \<noteq> {}" using u(3) by auto
    then have "inId u \<in> D \<union> set (W @ [p])" using inv u(1,2) unfolding scan_inv_def by blast
    then show ?thesis by auto
  qed
  moreover have "\<exists>b u. (b, u) \<in> set (blockInsts F) \<and> inId u = q \<and> derivesPtr u \<and> set (inOperands u) \<inter> insert p D \<noteq> {}"
    if q: "q \<in> insert p D \<union> set (W @ ?N)" "q \<noteq> AI" for q
  proof (cases "q \<in> set ?N")
    case True
    then show ?thesis unfolding N by blast
  next
    case False
    then have "q \<in> (D \<union> set (W @ [p])) - {AI}" using q by auto
    then show ?thesis using inv unfolding scan_inv_def by blast
  qed
  moreover have "\<forall>q \<in> insert p D \<union> set (W @ ?N). derived F AI q" using dp dW dN by (auto simp del: set_map)
  moreover have "distinct (W @ ?N)" "insert p D \<inter> set (W @ ?N) = {}" "AI \<in> insert p D \<union> set (W @ ?N)"
    using W new pD A \<open>distinct ?N\<close> by (auto simp del: set_map)
  ultimately show ?thesis unfolding scan_inv_def by blast
qed

lemma finite_derived: "finite {p. derived F AI p}"
proof (rule finite_subset)
  show "{p. derived F AI p} \<subseteq> insert AI (inId ` set (irInsts F))"
    by (auto elim: derived.cases dest: blockInsts_in)
qed simp

lemma uses_once:
  assumes "uses_ok F" "single_base F AI" "derived F AI p" "(b, u) \<in> set (blockInsts F)"
  shows "usesOnce p u"
proof -
  have u: "u \<in> set (irInsts F)" using assms(4) by (rule blockInsts_in)
  have "count_list (inOperands u) p \<le> 1" if "derivesPtr u"
  proof -
    have "count_list (inOperands u) p = length (filter (\<lambda>x. p = x) (inOperands u))" by (simp add: count_list_eq_length_filter)
    also have "\<dots> \<le> length (filter (derived F AI) (inOperands u))" using assms(3) by (induction "inOperands u") (auto simp: length_filter_conv_card intro!: card_mono)
    also have "\<dots> \<le> 1" using assms(2) that u by (simp add: single_base_def)
    finally show ?thesis .
  qed
  with assms(1) u show ?thesis by (auto simp: usesOnce_def uses_ok_def)
qed

lemma scanUses_inv:
  assumes F: "uses_ok F" "single_base F AI" "allocaOf F AI \<noteq> None"
    and "scan_inv F AI D (as_work s)" "scan_tables F AI m0 D s" "card ({p. derived F AI p} - D) = n"
  shows "\<exists>s'. scanUses F AI s = Some s' \<and> scan_tables F AI m0 {p. derived F AI p} s'"
  using assms(4-)
proof (induction n arbitrary: D s rule: less_induct)
  case (less n)
  show ?case
  proof (cases "as_work s = []")
    case True
    have "p \<in> D" if "derived F AI p" for p
      using that
    proof induction
      case base
      then show ?case using less.prems(1) True by (simp add: scan_inv_def)
    next
      case (step p b u)
      then have "set (inOperands u) \<inter> D \<noteq> {}" by blast
      with step less.prems(1) True show ?case unfolding scan_inv_def by fastforce
    qed
    moreover have "\<forall>p \<in> D. derived F AI p" using less.prems(1) by (simp add: scan_inv_def)
    ultimately have "D = {p. derived F AI p}" by blast
    with True less.prems(2) show ?thesis by (simp add: scanUses.simps)
  next
    case False
    then obtain W p where W: "as_work s = W @ [p]" by (metis rev_exhaust)
    let ?s = "foldl (scanUser AI p) (s\<lparr>as_work := W\<rparr>) (usersFrom p (blockInsts F))"
    have p: "p \<notin> D" "derived F AI p" using less.prems(1) W by (auto simp: scan_inv_def)
    have u: "\<forall>(b, u) \<in> set (blockInsts F). usesOnce p u" using uses_once [OF F(1,2) p(2)] by blast
    have "as_work ?s = W @ map (inId \<circ> snd) (filter (\<lambda>(b, i). derivesPtr i \<and> p \<in> set (inOperands i)) (blockInsts F))"
      using scan_users(7) [OF u refl] by simp
    then have inv: "scan_inv F AI (insert p D) (as_work ?s)" using scan_inv_step [OF _ F] less.prems(1) W by simp
    have "{q. derived F AI q} - insert p D \<subset> {q. derived F AI q} - D" using p by blast
    then have "card ({q. derived F AI q} - insert p D) < n"
      using less.prems(3) psubset_card_mono [of "{q. derived F AI q} - D"] finite_derived by auto
    from less.IH [OF this inv scan_tables_step [OF less.prems(2) p(1) u] refl]
    show ?thesis using W by (subst scanUses.simps) (simp add: useList_def usersFrom_def)
  qed
qed

section \<open>All tables together\<close>

lemma recordFirst_counts [simp]:
  "am_loads (foldl (recordFirst V info) m bs) = am_loads m" "am_stores (foldl (recordFirst V info) m bs) = am_stores m"
  by (induction bs arbitrary: m) (auto simp: recordFirst_def Let_def split: option.splits prod.splits)

lemma recordFirst_other: "v \<noteq> V \<or> c \<notin> fst ` set bs \<Longrightarrow> firstAt (foldl (recordFirst V info) m bs) (c, v) = firstAt m (c, v)"
proof (induction bs arbitrary: m)
  case (Cons b bs)
  have "firstAt (recordFirst V info m b) (c, v) = firstAt m (c, v)"
    using Cons.prems by (cases b) (auto simp: recordFirst_def Let_def map_of_omap_put split: option.splits)
  with Cons show ?case by auto
qed simp

lemma recordFirst_block:
  assumes "distinct (map fst bs)" "(c, is) \<in> set bs" "firstAt m (c, V) = None"
    and "firstAccess info is \<noteq> None \<Longrightarrow> map_of (am_loads m) (c, V) \<noteq> None \<or> map_of (am_stores m) (c, V) \<noteq> None"
  shows "firstAt (foldl (recordFirst V info) m bs) (c, V) = firstAccess info is"
  using assms
proof (induction bs arbitrary: m)
  case (Cons b bs)
  show ?case
  proof (cases "b = (c, is)")
    case True
    have "firstAt (recordFirst V info m b) (c, V) = firstAccess info is"
      using Cons.prems(3,4) True by (cases "firstAccess info is") (auto simp: recordFirst_def Let_def map_of_omap_put)
    moreover have "c \<notin> fst ` set bs" using Cons.prems(1) True by simp
    ultimately show ?thesis by (simp add: recordFirst_other)
  next
    case False
    then have c1: "(c, is) \<in> set bs" using Cons.prems(2) by auto
    then have "c \<in> fst ` set bs" by force
    with c1 have c: "(c, is) \<in> set bs" "fst b \<noteq> c" using Cons.prems(1) by auto
    have "firstAt (recordFirst V info m b) (c, V) = firstAt m (c, V)" using c(2)
      using recordFirst_other [of V V c "[b]" info m] by simp
    moreover have "am_loads (recordFirst V info m b) = am_loads m" "am_stores (recordFirst V info m b) = am_stores m"
      using recordFirst_counts [of V info m "[b]"] by simp_all
    ultimately show ?thesis using Cons.IH [of "recordFirst V info m b"] Cons.prems c by simp
  qed
qed simp

lemma blockInsts_filter:
  assumes "distinct (irBlocks F)"
  shows "filter (\<lambda>(b, i). b = c \<and> P i) (blockInsts F) = map (Pair c) (filter P (instsOf F c))"
proof -
  have none: "filter (\<lambda>(b, i). b = c \<and> P i) (concat (map (\<lambda>(b, is). map (Pair b) is) bs)) = []" if "c \<notin> fst ` set bs" for bs
    using that by (force simp: filter_empty_conv)
  have "filter (\<lambda>(b, i). b = c \<and> P i) (concat (map (\<lambda>(b, is). map (Pair b) is) bs)) = map (Pair c) (filter P (omap_get [] bs c))"
    if "distinct (map fst bs)" for bs
    using that
  proof (induction bs)
    case (Cons b bs)
    obtain d "is" where b: "b = (d, is)" by (cases b)
    have "filter (\<lambda>(b, i). b = c \<and> P i) (map (Pair d) is) = (if d = c then map (Pair c) (filter P is) else [])"
      by (induction "is") auto
    with Cons b none [of bs] show ?case by (auto simp: omap_get_def)
  qed (simp add: omap_get_def)
  with assms show ?thesis by (simp add: blockInsts_def instsOf_def irBlocks_def)
qed

lemma accessTally_block: "distinct (irBlocks F) \<Longrightarrow> accessTally F P c = length (filter P (instsOf F c))"
  by (simp add: accessTally_def blockInsts_filter)

lemma find_filter: "find P xs = (case filter P xs of [] \<Rightarrow> None | x # _ \<Rightarrow> Some x)"
  by (induction xs) auto

lemma find_block:
  assumes "distinct (irBlocks F)"
  shows "map_option (\<lambda>(b, i). f i) (find (\<lambda>(b, i). b = c \<and> P i) (blockInsts F)) = map_option f (find P (instsOf F c))"
  unfolding find_filter blockInsts_filter [OF assms] by (simp split: list.split)

lemma scan_info:
  assumes "scan_tables F AI m D s" "distinct (map inId (irInsts F))" "(b, i) \<in> set (blockInsts F)"
  shows "map_of (as_info s) (inId i) = (if loadsFrom D i then Some True else if storesTo D i then Some False else None)"
proof -
  have set: "set (as_info s) = {(inId i, True) | b i. (b, i) \<in> set (blockInsts F) \<and> loadsFrom D i} \<union> {(inId i, False) | b i. (b, i) \<in> set (blockInsts F) \<and> storesTo D i}"
    using assms(1) by (simp add: scan_tables_def)
  have T: "(inId i, True) \<in> set (as_info s) \<longleftrightarrow> loadsFrom D i" and S: "(inId i, False) \<in> set (as_info s) \<longleftrightarrow> storesTo D i"
    using blockInsts_inj [OF assms(2,3)] assms(3) unfolding set by blast+
  have excl: "\<not> (loadsFrom D i \<and> storesTo D i)" by (auto simp: loadsFrom_def storesTo_def isLoadOf_def isStoreTo_def)
  show ?thesis
  proof (cases "map_of (as_info s) (inId i)")
    case None
    then have "(inId i, x) \<notin> set (as_info s)" for x by (metis domIff map_of_eq_None_iff fst_conv image_eqI)
    then show ?thesis using T S None by simp
  next
    case (Some x)
    from map_of_SomeD [OF this] show ?thesis using T S Some excl by (cases x) auto
  qed
qed

lemma firstAccess_block:
  assumes "scan_tables F AI m D s" "distinct (map inId (irInsts F))" "(c, is) \<in> set (ifBlocks F)"
  shows "firstAccess (as_info s) is = map_option (loadsFrom D) (find (\<lambda>i. loadsFrom D i \<or> storesTo D i) is)"
proof -
  have m: "map_of (as_info s) (inId i) = (if loadsFrom D i then Some True else if storesTo D i then Some False else None)" if "i \<in> set is" for i
  proof -
    have "(c, i) \<in> set (blockInsts F)" using assms(3) that by (auto simp: blockInsts_iff)
    then show ?thesis by (rule scan_info [OF assms(1,2)])
  qed
  then have "find (\<lambda>i. map_of (as_info s) (inId i) \<noteq> None) is = find (\<lambda>i. loadsFrom D i \<or> storesTo D i) is"
    by (intro find_cong) auto
  moreover have "map_of (as_info s) (inId i) = Some (loadsFrom D i)" if "find (\<lambda>i. loadsFrom D i \<or> storesTo D i) is = Some i" for i
    using m [of i] find_someD [OF that] by auto
  ultimately show ?thesis unfolding firstAccess_def by (auto split: option.split)
qed

lemma accessAlloca_correct:
  assumes F: "uses_ok F" "single_base F V" "allocaOf F V \<noteq> None"
    and m: "\<forall>c. loadsAt m (c, V) = 0 \<and> storesAt m (c, V) = 0 \<and> firstAt m (c, V) = None"
  defines "D \<equiv> {p. derived F V p}"
  shows "\<exists>m'. accessAlloca F m V = Some m'
    \<and> (\<forall>c \<in> set (irBlocks F). loadsAt m' (c, V) = of_nat (length (filter (loadsFrom D) (instsOf F c)))
        \<and> storesAt m' (c, V) = of_nat (length (filter (storesTo D) (instsOf F c)))
        \<and> firstAt m' (c, V) = map_option (loadsFrom D) (find (\<lambda>i. loadsFrom D i \<or> storesTo D i) (instsOf F c)))
    \<and> (\<forall>c v. v \<noteq> V \<longrightarrow> loadsAt m' (c, v) = loadsAt m (c, v) \<and> storesAt m' (c, v) = storesAt m (c, v) \<and> firstAt m' (c, v) = firstAt m (c, v))"
proof -
  let ?s0 = "\<lparr>as_maps = m, as_info = [], as_work = [V]\<rparr>"
  have d: "distinct (irBlocks F)" "distinct (map inId (irInsts F))" using F(1) by (simp_all add: uses_ok_def)
  have "scan_inv F V {} (as_work ?s0)" by (simp add: scan_inv_def derived.base)
  moreover have "scan_tables F V m {} ?s0" by (simp add: scan_tables_def loadsFrom_def storesTo_def accessTally_def)
  ultimately obtain s where s: "scanUses F V ?s0 = Some s" "scan_tables F V m D s"
    using scanUses_inv [OF F _ _ refl, of "{}" ?s0 m] unfolding D_def by blast
  let ?m = "foldl (recordFirst V (as_info s)) (as_maps s) (ifBlocks F)"
  have "accessAlloca F m V = Some ?m" using s(1) F(3) by (auto simp: accessAlloca_def)
  moreover have "loadsAt ?m (c, V) = of_nat (length (filter (loadsFrom D) (instsOf F c)))
      \<and> storesAt ?m (c, V) = of_nat (length (filter (storesTo D) (instsOf F c)))
      \<and> firstAt ?m (c, V) = map_option (loadsFrom D) (find (\<lambda>i. loadsFrom D i \<or> storesTo D i) (instsOf F c))"
    if "c \<in> set (irBlocks F)" for c
  proof -
    from that obtain "is" where c: "(c, is) \<in> set (ifBlocks F)" by (auto simp: irBlocks_def)
    have "is": "instsOf F c = is" using c d(1) by (simp add: instsOf_def omap_get_def irBlocks_def)
    note fa = firstAccess_block [OF s(2) d(2) c]
    have "firstAt ?m (c, V) = firstAccess (as_info s) is"
    proof (rule recordFirst_block)
      show "distinct (map fst (ifBlocks F))" using d(1) by (simp add: irBlocks_def)
      show "(c, is) \<in> set (ifBlocks F)" by (rule c)
      show "firstAt (as_maps s) (c, V) = None" using s(2) m by (simp add: scan_tables_def)
      assume "firstAccess (as_info s) is \<noteq> None"
      then obtain i where "i \<in> set is" "loadsFrom D i \<or> storesTo D i" unfolding fa by (auto dest: find_someD)
      then show "map_of (am_loads (as_maps s)) (c, V) \<noteq> None \<or> map_of (am_stores (as_maps s)) (c, V) \<noteq> None"
        using s(2) c unfolding scan_tables_def blockInsts_iff by blast
    qed
    moreover have "loadsAt ?m (c, V) = of_nat (accessTally F (loadsFrom D) c)" "storesAt ?m (c, V) = of_nat (accessTally F (storesTo D) c)"
      using s(2) m by (simp_all add: scan_tables_def)
    ultimately show ?thesis using fa "is" by (simp add: accessTally_block [OF d(1)])
  qed
  moreover have "loadsAt ?m (c, v) = loadsAt m (c, v) \<and> storesAt ?m (c, v) = storesAt m (c, v) \<and> firstAt ?m (c, v) = firstAt m (c, v)"
    if "v \<noteq> V" for c v
    using that s(2) by (simp add: scan_tables_def recordFirst_other)
  ultimately show ?thesis by blast
qed

text \<open>The instructions that read and write a candidate.\<close>

definition readsVar :: "ir_metadata \<Rightarrow> ir_function \<Rightarrow> ir_env \<Rightarrow> value_ptr \<Rightarrow> ir_inst \<Rightarrow> bool" where
  "readsVar md F env v i = (if globalOf env v \<noteq> None then globalRef md env v i else loadsFrom {p. derived F v p} i)"

definition writesVar :: "ir_metadata \<Rightarrow> ir_function \<Rightarrow> ir_env \<Rightarrow> value_ptr \<Rightarrow> ir_inst \<Rightarrow> bool" where
  "writesVar md F env v i = (if globalOf env v \<noteq> None then globalMod md env v i else storesTo {p. derived F v p} i)"

definition tables_ok :: "ir_metadata \<Rightarrow> ir_function \<Rightarrow> ir_env \<Rightarrow> access_maps \<Rightarrow> value_ptr \<Rightarrow> bool" where
  "tables_ok md F env m v \<longleftrightarrow> (\<forall>c \<in> set (irBlocks F).
     loadsAt m (c, v) = of_nat (length (filter (readsVar md F env v) (instsOf F c)))
     \<and> storesAt m (c, v) = of_nat (length (filter (writesVar md F env v) (instsOf F c)))
     \<and> firstAt m (c, v) = map_option (readsVar md F env v) (find (\<lambda>i. readsVar md F env v i \<or> writesVar md F env v i) (instsOf F c)))"

lemma tables_ok_cong:
  assumes "\<forall>c. loadsAt m' (c, v) = loadsAt m (c, v) \<and> storesAt m' (c, v) = storesAt m (c, v) \<and> firstAt m' (c, v) = firstAt m (c, v)"
  shows "tables_ok md F env m' v \<longleftrightarrow> tables_ok md F env m v"
  using assms by (simp add: tables_ok_def)

lemma accessAllocas_correct:
  assumes F: "uses_ok F" "\<forall>v. allocaOf F v \<noteq> None \<longrightarrow> single_base F v" "\<forall>v. globalOf env v \<noteq> None \<longrightarrow> allocaOf F v = None"
    and vs: "distinct vs" "\<forall>v \<in> set vs. globalOf env v = None \<longrightarrow> allocaOf F v \<noteq> None"
    and m: "\<forall>v \<in> set vs. globalOf env v = None \<longrightarrow> (\<forall>c. loadsAt m (c, v) = 0 \<and> storesAt m (c, v) = 0 \<and> firstAt m (c, v) = None)"
    and ok: "\<forall>v. globalOf env v \<noteq> None \<and> v \<in> G \<longrightarrow> tables_ok md F env m v"
    and old: "\<forall>v \<in> W. tables_ok md F env m v" "W \<inter> set vs = {}"
  shows "\<exists>m'. foldM (accessAlloca F) m vs = Some m' \<and> (\<forall>v. globalOf env v \<noteq> None \<and> v \<in> G \<longrightarrow> tables_ok md F env m' v)
    \<and> (\<forall>v \<in> W. tables_ok md F env m' v) \<and> (\<forall>v \<in> set vs. globalOf env v = None \<longrightarrow> tables_ok md F env m' v)"
  using vs m ok old
proof (induction vs arbitrary: m W)
  case (Cons v vs)
  show ?case
  proof (cases "globalOf env v = None")
    case False
    with F(3) have "accessAlloca F m v = Some m" by (simp add: accessAlloca_def)
    moreover have "\<exists>m'. foldM (accessAlloca F) m vs = Some m' \<and> (\<forall>v. globalOf env v \<noteq> None \<and> v \<in> G \<longrightarrow> tables_ok md F env m' v)
        \<and> (\<forall>v \<in> W. tables_ok md F env m' v) \<and> (\<forall>v \<in> set vs. globalOf env v = None \<longrightarrow> tables_ok md F env m' v)"
      using Cons.prems by (intro Cons.IH) auto
    ultimately show ?thesis using False by auto
  next
    case True
    then have a: "allocaOf F v \<noteq> None" "single_base F v" using Cons.prems(2) F(2) by auto
    from accessAlloca_correct [OF F(1) a(2,1), of m] Cons.prems(3) True obtain m1 where m1: "accessAlloca F m v = Some m1"
      "\<forall>c \<in> set (irBlocks F). loadsAt m1 (c, v) = of_nat (length (filter (loadsFrom {p. derived F v p}) (instsOf F c)))
        \<and> storesAt m1 (c, v) = of_nat (length (filter (storesTo {p. derived F v p}) (instsOf F c)))
        \<and> firstAt m1 (c, v) = map_option (loadsFrom {p. derived F v p}) (find (\<lambda>i. loadsFrom {p. derived F v p} i \<or> storesTo {p. derived F v p} i) (instsOf F c))"
      and keep: "\<forall>c w. w \<noteq> v \<longrightarrow> loadsAt m1 (c, w) = loadsAt m (c, w) \<and> storesAt m1 (c, w) = storesAt m (c, w) \<and> firstAt m1 (c, w) = firstAt m (c, w)"
      by auto
    have okv: "tables_ok md F env m1 v" using m1(2) True
      by (simp add: tables_ok_def readsVar_def [abs_def] writesVar_def [abs_def])
    have okw: "tables_ok md F env m1 w \<longleftrightarrow> tables_ok md F env m w" if "w \<noteq> v" for w using keep that by (intro tables_ok_cong) blast
    have "\<exists>m'. foldM (accessAlloca F) m1 vs = Some m' \<and> (\<forall>v. globalOf env v \<noteq> None \<and> v \<in> G \<longrightarrow> tables_ok md F env m' v)
        \<and> (\<forall>w \<in> insert v W. tables_ok md F env m' w) \<and> (\<forall>v \<in> set vs. globalOf env v = None \<longrightarrow> tables_ok md F env m' v)"
    proof (rule Cons.IH)
      show "distinct vs" "\<forall>v \<in> set vs. globalOf env v = None \<longrightarrow> allocaOf F v \<noteq> None" "insert v W \<inter> set vs = {}" using Cons.prems by auto
      show "\<forall>w \<in> set vs. globalOf env w = None \<longrightarrow> (\<forall>c. loadsAt m1 (c, w) = 0 \<and> storesAt m1 (c, w) = 0 \<and> firstAt m1 (c, w) = None)"
      proof (intro ballI impI allI)
        fix w c assume w: "w \<in> set vs" "globalOf env w = None"
        then have "w \<noteq> v" using Cons.prems(1) by auto
        moreover have "loadsAt m (c, w) = 0 \<and> storesAt m (c, w) = 0 \<and> firstAt m (c, w) = None" using Cons.prems(3) w by simp
        ultimately show "loadsAt m1 (c, w) = 0 \<and> storesAt m1 (c, w) = 0 \<and> firstAt m1 (c, w) = None" using keep by simp
      qed
      show "\<forall>w. globalOf env w \<noteq> None \<and> w \<in> G \<longrightarrow> tables_ok md F env m1 w" using Cons.prems(4) okw True by metis
      show "\<forall>w \<in> insert v W. tables_ok md F env m1 w" using okv okw Cons.prems(5,6) by (metis disjoint_iff insert_iff list.set_intros(1))
    qed
    with m1(1) show ?thesis by auto
  qed
qed simp


section \<open>Isolated calls are accepted\<close>

text \<open>The three lists of helper names agree: after a function was isolated, no direct call of a defined function
  is among the diagnostics, whatever it is called. What remains are inline assembly, indirect calls, invokes and
  calls of declared functions that may write memory.\<close>

theorem isolated_calls_accepted:
  assumes "iso_wf s" "noMarks s" "gid_wf s" "isolateInFunction s 0 = (count, s')"
    and "(b, is) \<in> set (ifBlocks (isoFun s'))" "i \<in> set is" "inKind i = CallInst cb" "\<not> cbInlineAsm cb" "cbCallee cb = Some (n, isIntrinsic, False)"
  shows "(b, inId i) \<notin> set (findUnresolvedCalls (isoMD s') (isoFun s'))"
proof
  assume "(b, inId i) \<in> set (findUnresolvedCalls (isoMD s') (isoFun s'))"
  then obtain j where j: "(b, j) \<in> set (blockInsts (isoFun s'))" "unresolvedCall (isoMD s') j" "inId j = inId i"
    by (auto simp: findUnresolvedCalls_def)
  have i: "(b, i) \<in> set (blockInsts (isoFun s'))" using assms(5,6) by (auto simp: blockInsts_iff)
  have "j = i" using blockInsts_unique [OF isolateInFunction_state(1) [OF assms(1-4)] j(1) i j(3)] by simp
  then have un: "\<not> allowsDirectCall (isoMD s') i cb" using j(2) assms(7) by (simp add: unresolvedCall_def getCallBase_def)
  then have "isIsolatableCall cb" using assms(8,9)
    by (auto simp: allowsDirectCall_def isIsolatableCall_def isSchematicHelperCallee_def isHelperName_def split: if_splits)
  then have "map_of (callEntryMD (isoMD s')) (inId i) \<noteq> None"
    using marked_iff_isolatable [OF assms(1-4) i] assms(7) by blast
  then have "isIsolatedCallEntry (isoMD s') i" using assms(7) by (simp add: isIsolatedCallEntry_def getCallBase_def)
  with un assms(8,9) show False by (auto simp: allowsDirectCall_def split: if_splits)
qed

theorem isolated_calls_accepted_witness:
  "(16, 4) \<notin> set (findUnresolvedCalls (isoMD (snd (isolateInFunction sample_iso 0))) (isoFun (snd (isolateInFunction sample_iso 0))))
   \<and> (1, 4) \<in> set (findUnresolvedCalls (isoMD sample_iso) (isoFun sample_iso))"
proof -
  obtain c s' where s': "isolateInFunction sample_iso 0 = (c, s')" by fastforce
  have "map_of (ifBlocks (isoFun (snd (isolateInFunction sample_iso 0)))) 16 = Some [sample_call 4 ''h'', branchInst 19]" by code_simp
  then have "(16, [sample_call 4 ''h'', branchInst 19]) \<in> set (ifBlocks (isoFun s'))" using s' by (simp add: map_of_SomeD)
  note b = this
  have k: "inKind (sample_call 4 ''h'') = CallInst \<lparr>cbInlineAsm = False, cbCallee = Some (''h'', False, False),
      cbDoesNotAccessMemory = False, cbOnlyReadsMemory = False\<rparr>" by (simp add: sample_call_def)
  have "(16, inId (sample_call 4 ''h'')) \<notin> set (findUnresolvedCalls (isoMD s') (isoFun s'))"
    by (rule isolated_calls_accepted [OF sample_iso_ok(1-3) s' b _ k, of "''h''" False]) simp_all
  then have "(16, 4) \<notin> set (findUnresolvedCalls (isoMD s') (isoFun s'))" by (simp add: sample_call_def)
  moreover have "(1, 4) \<in> set (findUnresolvedCalls (isoMD sample_iso) (isoFun sample_iso))" by code_simp
  ultimately show ?thesis using s' by simp
qed

text \<open>A function with a global 50 and an array alloca 2, which is stored through an element pointer and loaded.\<close>

definition sample_inst :: "nat \<Rightarrow> inst_kind \<Rightarrow> nat list \<Rightarrow> ir_inst" where
  "sample_inst v k ops = \<lparr>inId = v, inKind = k, inOperands = ops, inVoid = False, inSized = True, inAllocSize = 2\<rparr>"

definition sample_fun :: ir_function where
  "sample_fun = \<lparr>ifName = ''f'', ifBlocks =
     [(1, [sample_inst 2 (AllocaInst \<lparr>aiArraySize = Some 4, aiSized = True, aiElemAllocSize = 2, aiElemStoreSize = 2\<rparr>) [],
           sample_inst 3 GetElementPtrInst [2], sample_inst 4 (StoreInst 3 2) [9, 3], sample_inst 5 (LoadInst 2) [2],
           sample_inst 6 (LoadInst 50) [50], branchInst 7])], ifSuccs = (\<lambda>_. [])\<rparr>"

definition sample_state_env :: ir_env where
  "sample_state_env = \<lparr>globalOf = (\<lambda>v. if v = 50 then Some \<lparr>gvName = ''x'', gvDeclaration = False, gvConstant = False, gvSized = True,
       gvAllocSize = 2, gvStoreSize = 2, gvPromotedAlloca = False, gvAggregate = False\<rparr> else None),
     getUnderlyingObjects = (\<lambda>v. [if v = 3 then 2 else v]), getUnderlyingObject = (\<lambda>v. if v = 3 then 2 else v), stripPointerCasts = (\<lambda>v. v),
     isRefSet = (\<lambda>i v. inId i = 6 \<and> v = 50), isModSet = (\<lambda>i v. False)\<rparr>"

lemma sample_fun_uses: "uses_ok sample_fun" "allocaOf sample_fun v \<noteq> None \<Longrightarrow> v = 2 \<and> single_base sample_fun v"
proof -
  show "uses_ok sample_fun"
    by (simp add: uses_ok_def sample_fun_def irBlocks_def irInsts_def sample_inst_def branchInst_def)
  assume "allocaOf sample_fun v \<noteq> None"
  then show "v = 2 \<and> single_base sample_fun v"
    by (auto simp: allocaOf_def instAt_def sample_fun_def sample_inst_def branchInst_def single_base_def irInsts_def derivesPtr_def split: if_splits)
qed


end
