(* ===== verification/SchematicDriver.thy ===== *)
theory SchematicDriver
  imports TraceCoverage SchematicState
begin

text \<open>
  The driver of the SCHEMATIC pass (\<open>schematic/SchematicPass.cpp\<close>, \<open>CallFold.cpp\<close>, \<open>CallSummary.h\<close>,
  \<open>milp/CheckpointContext.h\<close>): functions are solved bottom-up over the call graph. For each, static allocas are
  hoisted, block costs are computed and raised by the cost of NVM accesses, the summaries of its callees are folded
  onto its isolated call sites, traces are loaded, loops and paths are analysed, and a summary is taken for its
  callers.

  A function is described by \<open>fun_input\<close>: its code and what LLVM knows about its loops, pointers and trip counts.
  The energy estimator and the order of functions that LLVM's iterator over the call graph gives are arguments.
  Errors end the work on one function, the fatal ones end the pass. The instrumentation of a solved function, which
  changes neither the solution nor the summaries, and the statistics are not modelled.

  Shown: a solved function has an analysed node for every block, a consistent checkpoint table and no undecided
  edge between fixed blocks; the traces that were loaded never fail the coverage test of the loop analysis;
  summaries speak about globals only; a function is solved only after all its isolated callees.
\<close>

section \<open>Folding a call\<close>

datatype FoldRegime = FoldDisabled | FoldVirtual

record FoldedCallCosts =
  fc_regime :: FoldRegime
  entryCost :: double
  exitCost :: double
  entryEToLeave :: double
  entryELeft :: double
  exitEToLeave :: double
  exitELeft :: double

definition computeFoldedCallCosts ::
  "double \<Rightarrow> double \<Rightarrow> double \<Rightarrow> double \<Rightarrow> double \<Rightarrow> double \<Rightarrow> double \<Rightarrow> bool \<Rightarrow> FoldedCallCosts" where
  "computeFoldedCallCosts c0 cx0 sEToLeave sELeft eEToLeave eELeft cap checkpointIn =
     (if checkpointIn
      then \<lparr>fc_regime = FoldVirtual, entryCost = sEToLeave + c0, exitCost = cap - eELeft + cx0,
            entryEToLeave = sEToLeave + c0, entryELeft = sELeft, exitEToLeave = eEToLeave, exitELeft = eELeft\<rparr>
      else \<lparr>fc_regime = FoldDisabled, entryCost = c0 + sEToLeave - eEToLeave, exitCost = cx0,
            entryEToLeave = 0, entryELeft = 0, exitEToLeave = 0, exitELeft = 0\<rparr>)"

record CallSummary =
  sm_feasible :: bool
  checkpointInFunction :: bool
  sfEToLeave :: double
  sfELeft :: double
  efEToLeave :: double
  efELeft :: double
  sfAllocation :: RegionAllocation
  efAllocation :: RegionAllocation
  sfPlacements :: "(value_ptr, Placement) omap"
  efPlacements :: "(value_ptr, Placement) omap"

type_synonym call_summaries = "(string \<times> CallSummary) list"

section \<open>What is known of a function\<close>

record fun_input =
  fi_fun :: ir_function
  fi_md :: ir_metadata
  fi_env :: ir_env
  fi_isPointer :: "value_ptr \<Rightarrow> bool"
  fi_forest :: loop_forest
  fi_markerTrip :: "loop_id \<Rightarrow> u64 option"
  fi_constantTrip :: "loop_id \<Rightarrow> u32"
  fi_containsLoop :: "loop_id \<Rightarrow> loop_id \<Rightarrow> bool"

record pass_options =
  po_energyConfig :: string
  po_estimator :: "string \<Rightarrow> (ir_function \<Rightarrow> bb_ptr \<Rightarrow> double) option"
  po_schematicConfig :: "json option"
  po_tracePath :: string
  po_traceDoc :: "json option"
  po_addDebugMarkers :: bool

text \<open>Static allocas outside the entry block move to its first insertion point, each before the one moved last.\<close>

definition hoistable :: "ir_inst \<Rightarrow> bool" where
  "hoistable i = (case inKind i of AllocaInst a \<Rightarrow> aiArraySize a \<noteq> None | _ \<Rightarrow> False)"

definition hoistAllocas :: "ir_function \<Rightarrow> ir_function" where
  "hoistAllocas F =
     (case ifBlocks F of
        [] \<Rightarrow> F
      | (entryBB, is) # bs \<Rightarrow>
          let moved = filter hoistable (concat (map snd bs))
          in F\<lparr>ifBlocks := (entryBB, takeWhile isPHINode is @ rev moved @ dropWhile isPHINode is)
                 # map (\<lambda>(b, js). (b, filter (\<lambda>i. \<not> hoistable i) js)) bs\<rparr>)"

datatype context_error = MissingConfig | EstimatorFailed | IsDeclaration

definition createCheckpointContext ::
  "string \<Rightarrow> (string \<Rightarrow> (ir_function \<Rightarrow> bb_ptr \<Rightarrow> double) option) \<Rightarrow> (bb_ptr \<Rightarrow> string) \<Rightarrow> ir_function \<Rightarrow> context_error + CFGAnalysis" where
  "createCheckpointContext configPath factory blockName F =
     (if configPath = [] then Inl MissingConfig
      else case factory configPath of
             None \<Rightarrow> Inl EstimatorFailed
           | Some estimator \<Rightarrow>
               if ifBlocks F = [] then Inl IsDeclaration
               else Inr (analyzeCFG blockName (ifSuccs F) (estimator F) (irEntry F) (irBlocks F)))"

text \<open>From the cost with every candidate in VM to the cost with every global in NVM.\<close>

definition nvmPenalty :: "SchematicParams \<Rightarrow> ir_env \<Rightarrow> SchematicStateAnalysis \<Rightarrow> bb_ptr \<Rightarrow> double" where
  "nvmPenalty params env st BB =
     foldl (\<lambda>p v. if globalOf env v = None then p
                   else p + nvmAccessPenalty params * u2r (getLoadCount st BB v + getStoreCount st BB v)) 0 (sa_candidates st)"

definition chargeNVMAccesses :: "SchematicParams \<Rightarrow> ir_env \<Rightarrow> SchematicStateAnalysis \<Rightarrow> bb_ptr list \<Rightarrow> CFGAnalysis \<Rightarrow> CFGAnalysis" where
  "chargeNVMAccesses params env st F cfg =
     foldl (\<lambda>cfg BB. setBlockEnergyCost BB (energyCost (getBlockInfo cfg BB) + nvmPenalty params env st BB) cfg) cfg F"

section \<open>Folding the summaries of the callees\<close>

record fold_state =
  fs_graph :: SchematicGraph
  fs_cfg :: CFGAnalysis
  fs_sol :: SchematicSolution

definition setAllocation :: "block_ptr \<Rightarrow> RegionAllocation \<Rightarrow> SchematicSolution \<Rightarrow> SchematicSolution" where
  "setAllocation b a sol =
     (let (r, sol1) = makeShared a sol in sol1\<lparr>blockAllocation := omap_put b r (blockAllocation sol1)\<rparr>)"

definition foldCall :: "(bb_ptr \<Rightarrow> string) \<Rightarrow> SchematicParams \<Rightarrow> CallSummary \<Rightarrow> IsolatedCall \<Rightarrow> fold_state \<Rightarrow> fold_state" where
  "foldCall bbName params S ic fs =
     (let (ceB, g1) = getOrCreate bbName (icEntry ic) (fs_graph fs);
          (cxB, g) = getOrCreate bbName (icExit ic) g1;
          cfg = fs_cfg fs; sol = fs_sol fs;
          c0 = energyCost (getBlockInfo cfg (icEntry ic));
          cx0 = energyCost (getBlockInfo cfg (icExit ic));
          sol1 = sol\<lparr>functionCallBlocks := insert cxB (insert ceB (functionCallBlocks sol))\<rparr>;
          sol2 = setAllocation cxB (efAllocation S) (setAllocation ceB (sfAllocation S) sol1);
          sol3 = sol2\<lparr>decidedPlacements := omap_put cxB (efPlacements S) (omap_put ceB (sfPlacements S) (decidedPlacements sol2))\<rparr>;
          fc = computeFoldedCallCosts c0 cx0 (sfEToLeave S) (sfELeft S) (efEToLeave S) (efELeft S) (capacity params) (checkpointInFunction S);
          cfg1 = setBlockEnergyCost (icExit ic) (exitCost fc) (setBlockEnergyCost (icEntry ic) (entryCost fc) cfg)
      in if fc_regime fc = FoldVirtual then
           let sol4 = setMeta ceB ((metaOf sol3 ceB)\<lparr>analyzed := True, E_left := entryELeft fc, E_to_leave := entryEToLeave fc\<rparr>) sol3;
               sol5 = setMeta cxB ((metaOf sol4 cxB)\<lparr>analyzed := True, E_left := exitELeft fc, E_to_leave := exitEToLeave fc\<rparr>) sol4
           in \<lparr>fs_graph = g, fs_cfg = cfg1, fs_sol = setCheckpointState g (CFGEdge ceB cxB) Virtual [] sol5\<rparr>
         else \<lparr>fs_graph = g, fs_cfg = cfg1, fs_sol = disableCheckpoint g (CFGEdge ceB cxB) sol3\<rparr>)"

fun foldCalleeSummaries ::
  "(bb_ptr \<Rightarrow> string) \<Rightarrow> SchematicParams \<Rightarrow> call_summaries \<Rightarrow> IsolatedCall list \<Rightarrow> fold_state \<Rightarrow> string + fold_state" where
  "foldCalleeSummaries bbName params summaries [] fs = Inr fs"
| "foldCalleeSummaries bbName params summaries (ic # ics) fs =
     (case map_of summaries (the (icCallee ic)) of
        None \<Rightarrow> Inl (the (icCallee ic))
      | Some S \<Rightarrow> if \<not> sm_feasible S then Inl (the (icCallee ic))
                  else foldCalleeSummaries bbName params summaries ics (foldCall bbName params S ic fs))"

section \<open>The summary of a solved function\<close>

definition isGlobalIn :: "ir_env \<Rightarrow> value_ptr \<Rightarrow> bool" where
  "isGlobalIn env v \<longleftrightarrow> globalOf env v \<noteq> None"

definition globalsOnly :: "ir_env \<Rightarrow> (value_ptr, 'a) omap \<Rightarrow> (value_ptr, 'a) omap" where
  "globalsOnly env m = foldl (\<lambda>g (v, x). if isGlobalIn env v then omap_put v x g else g) [] m"

definition allocOr :: "ir_env \<Rightarrow> SchematicSolution \<Rightarrow> block_ptr \<Rightarrow> RegionAllocation" where
  "allocOr env sol b =
     (let a = (case findAllocation sol b of Some a \<Rightarrow> a | None \<Rightarrow> emptyAllocation)
      in \<lparr>vars = globalsOnly env (vars a), vmOffsets = globalsOnly env (vmOffsets a), vmBytesUsed = vmBytesUsed a,
          intervalEnergy = intervalEnergy a\<rparr>)"

definition captureCallSummary :: "ir_env \<Rightarrow> SchematicSolution \<Rightarrow> block_ptr \<Rightarrow> block_ptr \<Rightarrow> CallSummary" where
  "captureCallSummary env sol startFunc endFunc =
     \<lparr>sm_feasible = True, checkpointInFunction = hasNonDisabledCheckpoint sol,
      sfEToLeave = E_to_leave (metaOf sol startFunc), sfELeft = E_left (metaOf sol startFunc),
      efEToLeave = E_to_leave (metaOf sol endFunc), efELeft = E_left (metaOf sol endFunc),
      sfAllocation = allocOr env sol startFunc, efAllocation = allocOr env sol endFunc,
      sfPlacements = globalsOnly env (placementsOf sol startFunc), efPlacements = globalsOnly env (placementsOf sol endFunc)\<rparr>"

section \<open>Solving a function\<close>

datatype solve_error = ContextFailed context_error | StateDiverges | UnresolvedEffects "(bb_ptr \<times> value_ptr) list"
  | NoCalleeSummary string | NoTraceFile | TraceLoadFailed trace_error | NoFunctionTraces
  | LoopAnalysisFailed loop_error | PathInfeasible u32 analyze_error | UncoveredBlocksInfeasible analyze_error

definition loopEnvOf :: "fun_input \<Rightarrow> CFGAnalysis \<Rightarrow> SchematicStateAnalysis \<Rightarrow> SchematicParams \<Rightarrow> LoadedLoopTrace list \<Rightarrow> loop_env" where
  "loopEnvOf fi cfg st params traces =
     \<lparr>le_LI = lf_LI (fi_forest fi), le_cfg = cfg, le_state = st, le_params = params, le_bbName = lf_bbName (fi_forest fi),
      loadedLoopTraces = traces, getMarkerTripCount = fi_markerTrip fi, getSmallConstantMaxTripCount = fi_constantTrip fi,
      parentLoops = lf_parents (fi_forest fi), loopsInPreorder = lf_preorder (fi_forest fi), containsLoop = fi_containsLoop fi\<rparr>"

text \<open>The boundary nodes of the function, analysed from the start.\<close>

definition initFunctionBoundary :: "SchematicParams \<Rightarrow> block_ptr \<Rightarrow> block_ptr \<Rightarrow> SchematicSolution \<Rightarrow> SchematicSolution" where
  "initFunctionBoundary params startFunc endFunc sol =
     (let sol1 = setMeta startFunc ((metaOf sol startFunc)\<lparr>E_left := capacity params - E_pro params - u2r (N_reg params) * regRestoreEnergy params,
                   analyzed := True\<rparr>) sol;
          sol2 = sol1\<lparr>decidedPlacements := omap_put startFunc [] (decidedPlacements sol1)\<rparr>;
          sol3 = setMeta endFunc ((metaOf sol2 endFunc)\<lparr>E_to_leave := E_epi params + u2r (N_reg params) * regStoreEnergy params,
                   analyzed := True\<rparr>) sol2
      in sol3\<lparr>decidedPlacements := omap_put endFunc [] (decidedPlacements sol3)\<rparr>)"

fun analyzeFunctionPaths ::
  "trace_env \<Rightarrow> block_ptr \<Rightarrow> block_ptr \<Rightarrow> EnumeratedPath list \<Rightarrow> trace_state \<Rightarrow> (u32 \<times> analyze_error) option \<times> trace_state" where
  "analyzeFunctionPaths te startFunc endFunc [] ts = (None, ts)"
| "analyzeFunctionPaths te startFunc endFunc (ep # eps) ts =
     (let tracePath = startFunc # ep_blocks ep @ [endFunc];
          ts1 = ts\<lparr>ts_sol := (ts_sol ts)\<lparr>pathsAnalyzed := pathsAnalyzed (ts_sol ts) + 1\<rparr>,
                   ts_graph := addTraceEdges tracePath (ts_graph ts)\<rparr>
      in case analyzeTrace te tracePath ts1 of
           (Some e, ts2) \<Rightarrow> (Some (pathsAnalyzed (ts_sol ts2), e), ts2)
         | (None, ts2) \<Rightarrow> analyzeFunctionPaths te startFunc endFunc eps ts2)"

definition countPlacements :: "SchematicSolution \<Rightarrow> SchematicSolution" where
  "countPlacements sol =
     foldl (\<lambda>sol r. foldl (\<lambda>sol (gv, va).
         if placement va = VM then sol\<lparr>totalVmVariables := totalVmVariables sol + 1\<rparr>
         else sol\<lparr>totalNvmVariables := totalNvmVariables sol + 1\<rparr>) sol (vars (allocation r))) sol (regions sol)"

record solved =
  sv_te :: trace_env
  sv_graph :: SchematicGraph
  sv_sol :: SchematicSolution
  sv_start :: block_ptr
  sv_end :: block_ptr

text \<open>From loaded traces to the solution that is handed to the instrumenter.\<close>

definition solveLoaded ::
  "fun_input \<Rightarrow> SchematicParams \<Rightarrow> CFGAnalysis \<Rightarrow> SchematicStateAnalysis \<Rightarrow> LoadedTraces \<Rightarrow> trace_state
     \<Rightarrow> (solve_error + solved) \<times> VMAddressTracker option" where
  "solveLoaded fi params cfg st lt ts =
     (case analyzeLoops (loopEnvOf fi cfg st params (loopTraces lt)) ts of
        (Some e, ts1) \<Rightarrow> (Inl (LoopAnalysisFailed e), ts_tracker ts1)
      | (None, ts1) \<Rightarrow>
          let (startFunc, g1) = createSynthetic kStartFuncName (ts_graph ts1);
              (endFunc, g2) = createSynthetic kEndFuncName g1;
              te = traceEnv (loopEnvOf fi cfg st params (loopTraces lt)) None;
              ts2 = ts1\<lparr>ts_graph := g2, ts_sol := initFunctionBoundary params startFunc endFunc (ts_sol ts1)\<rparr>
          in case analyzeFunctionPaths te startFunc endFunc (functionPaths lt) ts2 of
               (Some (n, e), ts3) \<Rightarrow> (Inl (PathInfeasible n e), ts_tracker ts3)
             | (None, ts3) \<Rightarrow>
                 (case findAndAnalyzeNotFixedPaths te ts3 of
                    (Some e, ts4) \<Rightarrow> (Inl (UncoveredBlocksInfeasible e), ts_tracker ts4)
                  | (None, ts4) \<Rightarrow>
                      let (g, sol) = removePotentialCheckpointsBetweenFixedBBs te (ts_graph ts4, ts_sol ts4)
                      in (Inr \<lparr>sv_te = te, sv_graph = g, sv_sol = countPlacements sol, sv_start = startFunc, sv_end = endFunc\<rparr>,
                          ts_tracker ts4)))"

text \<open>Everything up to the instrumenter.\<close>

definition prepareSolution ::
  "pass_options \<Rightarrow> SchematicParams \<Rightarrow> fun_input \<Rightarrow> call_summaries \<Rightarrow> VMAddressTracker option
     \<Rightarrow> (solve_error + solved) \<times> VMAddressTracker option" where
  "prepareSolution opts params fi summaries tracker =
     (let F = hoistAllocas (fi_fun fi); E = fi_forest fi; bbName = lf_bbName E
      in case createCheckpointContext (po_energyConfig opts) (po_estimator opts) bbName F of
           Inl e \<Rightarrow> (Inl (ContextFailed e), tracker)
         | Inr cfg0 \<Rightarrow>
      (case analyzeSchematicState (fi_md fi) F (fi_env fi) (fi_isPointer fi) of
         None \<Rightarrow> (Inl StateDiverges, tracker)
       | Some (st, errors) \<Rightarrow>
           if errors \<noteq> [] then (Inl (UnresolvedEffects errors), tracker)
           else
             let cfg1 = chargeNVMAccesses params (fi_env fi) st (irBlocks F) cfg0;
                 g0 = addCFGEdges bbName (irBlocks F) (ifSuccs F) emptyGraph
             in case foldCalleeSummaries bbName params summaries (collectIsolatedCalls (fi_md fi) F)
                       \<lparr>fs_graph = g0, fs_cfg = cfg1, fs_sol = emptySolution\<rparr> of
                  Inl callee \<Rightarrow> (Inl (NoCalleeSummary callee), tracker)
                | Inr fs \<Rightarrow>
                    if po_tracePath opts = [] then (Inl NoTraceFile, tracker)
                    else
                      let (names, g1) = traceLoaderNames E (irBlocks F) (fs_graph fs)
                      in case loadTraces E names (ifName F) (po_traceDoc opts) g1 of
                           Inl e \<Rightarrow> (Inl (TraceLoadFailed e), tracker)
                         | Inr (lt, g2) \<Rightarrow>
                             if functionPaths lt = [] then (Inl NoFunctionTraces, tracker)
                             else solveLoaded fi params (fs_cfg fs) st lt \<lparr>ts_graph = g2, ts_sol = fs_sol fs, ts_tracker = tracker\<rparr>))"

definition solveFunction ::
  "pass_options \<Rightarrow> SchematicParams \<Rightarrow> fun_input \<Rightarrow> call_summaries \<Rightarrow> VMAddressTracker option
     \<Rightarrow> (solve_error + CallSummary) \<times> VMAddressTracker option" where
  "solveFunction opts params fi summaries tracker =
     (case prepareSolution opts params fi summaries tracker of
        (Inl e, tracker') \<Rightarrow> (Inl e, tracker')
      | (Inr sv, tracker') \<Rightarrow> (Inr (captureCallSummary (fi_env fi) (sv_sol sv) (sv_start sv) (sv_end sv)), tracker'))"

section \<open>The pass\<close>

definition fatalAnalysis :: "analyze_error \<Rightarrow> bool" where
  "fatalAnalysis e = (case e of Infeasible _ \<Rightarrow> False | _ \<Rightarrow> True)"

definition isFatalError :: "solve_error \<Rightarrow> bool" where
  "isFatalError e =
     (case e of
        NoTraceFile \<Rightarrow> True | TraceLoadFailed _ \<Rightarrow> True | NoFunctionTraces \<Rightarrow> True
      | LoopAnalysisFailed (BodyInfeasible a) \<Rightarrow> fatalAnalysis a
      | LoopAnalysisFailed (UncoveredInfeasible a) \<Rightarrow> fatalAnalysis a
      | PathInfeasible _ a \<Rightarrow> fatalAnalysis a
      | UncoveredBlocksInfeasible a \<Rightarrow> fatalAnalysis a
      | _ \<Rightarrow> False)"

text \<open>The nodes of the call graph in the order of its iterator; a node without a function is \<open>None\<close>, a declaration
  has no blocks.\<close>

fun solveModule ::
  "pass_options \<Rightarrow> SchematicParams \<Rightarrow> fun_input option list \<Rightarrow> call_summaries \<Rightarrow> VMAddressTracker option
     \<Rightarrow> solve_error + call_summaries" where
  "solveModule opts params [] summaries tracker = Inr summaries"
| "solveModule opts params (node # nodes) summaries tracker =
     (case node of
        None \<Rightarrow> solveModule opts params nodes summaries tracker
      | Some fi \<Rightarrow>
          if ifBlocks (fi_fun fi) = [] \<or> isBenchmarkInfrastructureFunction (ifName (fi_fun fi))
          then solveModule opts params nodes summaries tracker
          else (case solveFunction opts params fi summaries tracker of
                  (Inl e, tracker') \<Rightarrow> if isFatalError e then Inl e else solveModule opts params nodes summaries tracker'
                | (Inr S, tracker') \<Rightarrow> solveModule opts params nodes ((ifName (fi_fun fi), S) # summaries) tracker'))"

definition runSchematicPass :: "pass_options \<Rightarrow> fun_input option list \<Rightarrow> solve_error + call_summaries" where
  "runSchematicPass opts nodes =
     (case parseSchematicParams (po_schematicConfig opts) of
        Inl _ \<Rightarrow> Inr []
      | Inr params \<Rightarrow>
          solveModule opts (if po_addDebugMarkers opts then params\<lparr>addDebugMarkers := True\<rparr> else params) nodes [] (Some resetTracker))"

section \<open>The checkpoint table stays consistent\<close>

lemma ckpt_wf_fields [simp]:
  "ckpt_wf (sol\<lparr>blockMeta := a\<rparr>) = ckpt_wf sol" "ckpt_wf (sol\<lparr>decidedPlacements := b\<rparr>) = ckpt_wf sol"
  "ckpt_wf (sol\<lparr>blockAllocation := c\<rparr>) = ckpt_wf sol" "ckpt_wf (sol\<lparr>allocHeap := d\<rparr>) = ckpt_wf sol"
  "ckpt_wf (sol\<lparr>allocNext := e\<rparr>) = ckpt_wf sol" "ckpt_wf (sol\<lparr>loopDecisions := f\<rparr>) = ckpt_wf sol"
  "ckpt_wf (sol\<lparr>functionCallBlocks := h\<rparr>) = ckpt_wf sol" "ckpt_wf (sol\<lparr>pathsAnalyzed := n\<rparr>) = ckpt_wf sol"
  "ckpt_wf (sol\<lparr>totalVmVariables := n\<rparr>) = ckpt_wf sol" "ckpt_wf (sol\<lparr>totalNvmVariables := n\<rparr>) = ckpt_wf sol"
  by (simp_all add: ckpt_wf_def)

lemma ckpt_wf_helpers [simp]:
  "ckpt_wf (setMeta x m sol) = ckpt_wf sol" "ckpt_wf (setAllocAt r a sol) = ckpt_wf sol"
  "ckpt_wf (propagateEnergyToLeave env seed e sol) = ckpt_wf sol" "ckpt_wf (propagateEnergyLeft env seed e sol) = ckpt_wf sol"
  by (simp add: setMeta_def) (simp_all add: same_table_ckpt_wf)

lemma ckpt_wf_table: "ckpt_wf sol \<Longrightarrow> ckpt_wf (enableCheckpoint g e origin sol)"
  "ckpt_wf sol \<Longrightarrow> ckpt_wf (disableCheckpoint g e sol)" "ckpt_wf sol \<Longrightarrow> ckpt_wf (setLoopLatchCheckpoint g e sol)"
  by (auto simp: enableCheckpoint_def disableCheckpoint_def setLoopLatchCheckpoint_def)

lemma ckpt_wf_decideFixedEdge:
  assumes "ckpt_wf (snd gs)"
  shows "ckpt_wf (snd (decideFixedEdge te gs p))"
  using assms by (auto simp: decideFixedEdge_def enableFixedEdgeCheckpoint_def disableFixedEdgeCheckpointAndPropagate_def
      propagateAcross_def Let_def intro: ckpt_wf_table split: prod.split option.split)

lemma ckpt_wf_removePotential: "ckpt_wf (snd gs) \<Longrightarrow> ckpt_wf (snd (removePotentialCheckpointsBetweenFixedBBs te gs))"
  unfolding removePotentialCheckpointsBetweenFixedBBs_def
  by (rule foldl_invariant [of "\<lambda>x. ckpt_wf (snd x)"]) (auto intro: ckpt_wf_decideFixedEdge)

lemma ckpt_wf_refresh [simp]: "ckpt_wf (snd (refreshInLoop env L gs)) = ckpt_wf (snd gs)"
proof -
  obtain c gs' where r: "refreshDisabledCheckpointEnergy (traceEnv env (Some L)) gs = (c, gs')" by (cases "refreshDisabledCheckpointEnergy (traceEnv env (Some L)) gs")
  then have "same_table (snd gs) (snd gs')" using refreshLoop_correct by (simp add: refreshDisabledCheckpointEnergy_def)
  then show ?thesis by (simp add: refreshInLoop_def r same_table_ckpt_wf)
qed

lemma ckpt_wf_resetLoopBlock [simp]: "ckpt_wf (resetLoopBlock a r sol b) = ckpt_wf sol"
  by (simp add: resetLoopBlock_def Let_def split: option.split)

text \<open>Stepping through a chain of bindings without copying them.\<close>

lemma ckpt_wf_Let: "P t \<Longrightarrow> (\<And>x. P x \<Longrightarrow> ckpt_wf (snd (f x)) = c) \<Longrightarrow> ckpt_wf (snd (Let t f)) = c"
  by (simp add: Let_def)

lemmas ckpt_wf_skip = ckpt_wf_Let [where P = "\<lambda>_. True", OF TrueI]

lemma ckpt_wf_recompute [simp]: "ckpt_wf (snd (recomputeLoopBodyEnergyOnCFG env L blocks a gs)) = ckpt_wf (snd gs)"
proof -
  let ?K = "\<lambda>sol. ckpt_wf sol = ckpt_wf (snd gs)"
  have reset: "ckpt_wf (foldl (resetLoopBlock a r) sol bs) = ckpt_wf sol" for r sol bs by (induction bs arbitrary: sol) auto
  note keep = ckpt_wf_Let [where P = ?K]
  show ?thesis unfolding recomputeLoopBodyEnergyOnCFG_def makeShared_def case_prod_unfold
    apply (rule ckpt_wf_skip, rule ckpt_wf_skip, rule ckpt_wf_skip, rule ckpt_wf_skip)
    apply (rule ckpt_wf_Let [where P = "\<lambda>p. ?K (snd p)"], simp, rule ckpt_wf_skip)
    apply (rule keep, simp add: reset)
    apply (rule ckpt_wf_skip, rule ckpt_wf_skip)
    apply (rule keep, simp, rule keep, simp, rule keep, simp, rule keep, simp, rule keep, simp)
    apply (rule keep, simp add: Let_def, rule keep, simp)
    by (simp split: option.split)
qed

lemma ckpt_wf_adjust [simp]: "ckpt_wf (snd (applyLoopIterationAdjustment env L mt d e gs)) = ckpt_wf (snd gs)"
proof (cases "numIterationsPerCharge d \<le> 1")
  case False
  then show ?thesis unfolding applyLoopIterationAdjustment_def Let_def
    by (simp only: if_False) (rule foldl_invariant [where P = "\<lambda>x. ckpt_wf (snd x) = ckpt_wf (snd gs)"], auto split: prod.splits)
qed (simp add: applyLoopIterationAdjustment_def)

lemma ckpt_wf_boundary [simp]:
  "ckpt_wf (propagateMandatoryLoopBoundary env L blocks a g sol) = ckpt_wf sol"
  "ckpt_wf (initializeSyntheticLoopBoundaryState st params blocks sol) = ckpt_wf sol"
  "ckpt_wf (eraseSyntheticLoopBoundaryState blocks sol) = ckpt_wf sol"
  "ckpt_wf (copyLoopBoundaryEnergyToSyntheticBlocks blocks sol) = ckpt_wf sol"
  "ckpt_wf (snd (resolveLoopBoundaryPlacements blocks sol)) = ckpt_wf sol"
  "ckpt_wf (recordDecision blocks d sol) = ckpt_wf sol"
  by (simp_all add: propagateMandatoryLoopBoundary_def initializeSyntheticLoopBoundaryState_def eraseSyntheticLoopBoundaryState_def
      copyLoopBoundaryEnergyToSyntheticBlocks_def resolveLoopBoundaryPlacements_def recordDecision_def Let_def split: list.split prod.split)

lemma ckpt_wf_split: "ckpt_wf sol \<Longrightarrow> ckpt_wf (snd (splitLoopBodyAtFixedBoundary env L g ps sol))"
  by (induction env L g ps sol rule: splitLoopBodyAtFixedBoundary.induct) (auto intro: ckpt_wf_table split: option.split)

lemma ckpt_wf_policy:
  "ckpt_wf (fst sd) \<Longrightarrow> ckpt_wf (fst (applyLoopCheckpointPolicy env L mt blocks b g sd))"
  by (auto simp: applyLoopCheckpointPolicy_def Let_def intro: ckpt_wf_table split: prod.split)

lemma ckpt_wf_convergenceRound:
  "ckpt_wf (ts_sol (cv_ts (snd (convergenceRound env L lt mt blocks refs cs)))) = ckpt_wf (ts_sol (cv_ts cs))"
proof -
  let ?ts = "cv_ts cs"
  have "ckpt_wf (snd (refreshInLoop env L (recomputeLoopBodyEnergyOnCFG env L blocks a (ts_graph ?ts, ts_sol ?ts)))) = ckpt_wf (ts_sol ?ts)" for a by simp
  then show ?thesis unfolding convergenceRound_def Let_def case_prod_unfold by (simp split: if_split)
qed

lemma ckpt_wf_convergenceLoop:
  "ckpt_wf (ts_sol (cv_ts (convergenceLoop env L lt mt blocks refs k iter prev cs))) = ckpt_wf (ts_sol (cv_ts cs))"
proof (induction k arbitrary: iter prev cs)
  case (Suc k)
  show ?case unfolding convergenceLoop.simps Let_def case_prod_unfold
    using Suc.IH by (simp add: ckpt_wf_convergenceRound split: if_split)
qed simp

lemma ckpt_wf_refine:
  "ckpt_wf (ts_sol (cv_ts (refineLoopBudgetWithConvergence env L lt mt blocks cs))) = ckpt_wf (ts_sol (cv_ts cs))"
  unfolding refineLoopBudgetWithConvergence_def Let_def case_prod_unfold by (simp add: ckpt_wf_convergenceLoop split: if_split)

lemma ckpt_wf_splitBody:
  "ckpt_wf (ts_sol (cv_ts cs)) \<Longrightarrow> ckpt_wf (ts_sol (cv_ts (snd (splitBody env L blocks ps cs))))"
  unfolding splitBody_def Let_def case_prod_unfold by (simp add: ckpt_wf_split split: if_split)

lemma ckpt_wf_finishLoop: "ckpt_wf (ts_sol (cv_ts cs)) \<Longrightarrow> ckpt_wf (ts_sol (finishLoop env L mt blocks cs))"
  unfolding finishLoop_def Let_def case_prod_unfold by (simp add: ckpt_wf_policy)

lemma ckpt_wf_enableBackEdge: "ckpt_wf sol \<Longrightarrow> ckpt_wf (enableBackEdge env L blocks reason g sol)"
  by (simp add: enableBackEdge_def ckpt_wf_table)

lemma ckpt_wf_budgetLoop:
  assumes "ckpt_wf (ts_sol ts)"
  shows "ckpt_wf (ts_sol (snd (budgetLoop env L lt mt blocks ps pl d ts)))"
proof -
  have "ckpt_wf (ts_sol (snd (case splitBody env L blocks ps (refineLoopBudgetWithConvergence env L lt mt blocks cs) of
      (Some e, cs') \<Rightarrow> (Some e, cv_ts cs') | (None, cs') \<Rightarrow> (None, finishLoop env L mt blocks cs'))))" if "ckpt_wf (ts_sol (cv_ts cs))" for cs
    using ckpt_wf_splitBody [of "refineLoopBudgetWithConvergence env L lt mt blocks cs" env L blocks ps] that
    by (auto simp: ckpt_wf_refine ckpt_wf_finishLoop split: prod.split option.split)
  with assms show ?thesis unfolding budgetLoop_def Let_def by (simp add: ckpt_wf_enableBackEdge split: if_split)
qed

lemma ckpt_wf_bodyPaths:
  "ckpt_wf (ts_sol ts) \<Longrightarrow> ckpt_wf (ts_sol (snd (analyzeLoopBodyPaths env L blocks ps ts)))"
proof (induction env L blocks ps ts rule: analyzeLoopBodyPaths.induct)
  case (2 env L blocks p ps ts)
  let ?path = "startSynth blocks # p @ [endSynth blocks]" let ?ts = "ts\<lparr>ts_graph := addTraceEdges ?path (ts_graph ts)\<rparr>"
  obtain e ts2 where a: "analyzeTrace (traceEnv env (Some L)) ?path ?ts = (e, ts2)" by fastforce
  with analyzeTrace_correct [OF a] 2 show ?case by (cases e) (simp_all add: Let_def)
qed simp

lemma ckpt_wf_analyzeLoopBody:
  assumes "ckpt_wf (ts_sol ts)"
  shows "ckpt_wf (ts_sol (snd (analyzeLoopBody env L lt mt blocks ps ts)))"
proof -
  let ?te = "traceEnv env (Some L)"
  let ?ts1 = "ts\<lparr>ts_sol := initializeSyntheticLoopBoundaryState (le_state env) (le_params env) blocks (ts_sol ts)\<rparr>"
  obtain e2 ts2 where 2: "analyzeLoopBodyPaths env L blocks ps ?ts1 = (e2, ts2)" by fastforce
  have w2: "ckpt_wf (ts_sol ts2)" using ckpt_wf_bodyPaths [of ?ts1 env L blocks ps] assms 2 by simp
  obtain e3 ts3 where 3: "findAndAnalyzeNotFixedPaths ?te ts2 = (e3, ts3)" by fastforce
  have w3: "ckpt_wf (ts_sol ts3)" using analyzeBlocks_correct [of ?te _ ts2 e3 ts3] w2 3 by (simp add: findAndAnalyzeNotFixedPaths_def)
  let ?r = "refreshInLoop env L (removePotentialCheckpointsBetweenFixedBBs ?te (ts_graph ts3, ts_sol ts3))"
  have w4: "ckpt_wf (snd ?r)" using ckpt_wf_removePotential [of "(ts_graph ts3, ts_sol ts3)" ?te] w3 by simp
  have w5: "ckpt_wf (snd (resolveLoopBoundaryPlacements blocks (snd ?r)))" using w4 by simp
  show ?thesis
    unfolding analyzeLoopBody_def Let_def 2 using w2 w3 w5
    by (cases e2; cases e3) (auto simp: 3 case_prod_unfold mismatchLoop_def Let_def intro!: ckpt_wf_enableBackEdge ckpt_wf_budgetLoop)
qed

lemma ckpt_wf_analyzeLoop: "ckpt_wf (ts_sol ts) \<Longrightarrow> ckpt_wf (ts_sol (snd (analyzeLoop env L ts)))"
  unfolding analyzeLoop_def Let_def case_prod_unfold by (simp add: ckpt_wf_analyzeLoopBody split: option.split)

lemma ckpt_wf_analyzeSortedLoops: "ckpt_wf (ts_sol ts) \<Longrightarrow> ckpt_wf (ts_sol (snd (analyzeSortedLoops env lts ts)))"
proof (induction env lts ts rule: analyzeSortedLoops.induct)
  case (2 env lt lts ts)
  then show ?case
  proof (cases "lt_loop lt")
    case (Some L)
    obtain e ts1 where a: "analyzeLoop env L ts = (e, ts1)" by fastforce
    then have "ckpt_wf (ts_sol ts1)" using ckpt_wf_analyzeLoop [OF 2(3), of env L] by simp
    with 2 Some a show ?thesis by (cases e) auto
  qed auto
qed simp

lemma ckpt_wf_analyzeLoops: "ckpt_wf (ts_sol ts) \<Longrightarrow> ckpt_wf (ts_sol (snd (analyzeLoops env ts)))"
  unfolding analyzeLoops_def Let_def case_prod_unfold by (simp add: ckpt_wf_analyzeSortedLoops)

section \<open>A solved function\<close>

lemma setBlockEnergyCost_shape [simp]:
  "cfg_blocks (setBlockEnergyCost BB c cfg) = cfg_blocks cfg" "cfg_edges (setBlockEnergyCost BB c cfg) = cfg_edges cfg"
  by (simp_all add: setBlockEnergyCost_def)

lemma chargeNVMAccesses_shape [simp]:
  "cfg_blocks (chargeNVMAccesses params env st F cfg) = cfg_blocks cfg"
  "cfg_edges (chargeNVMAccesses params env st F cfg) = cfg_edges cfg"
proof -
  have "cfg_blocks (chargeNVMAccesses params env st F cfg) = cfg_blocks cfg \<and> cfg_edges (chargeNVMAccesses params env st F cfg) = cfg_edges cfg"
    unfolding chargeNVMAccesses_def by (rule foldl_invariant) simp_all
  then show "cfg_blocks (chargeNVMAccesses params env st F cfg) = cfg_blocks cfg"
    "cfg_edges (chargeNVMAccesses params env st F cfg) = cfg_edges cfg" by auto
qed

lemma analyzeCFG_shape:
  "cfg_blocks (analyzeCFG nm succs est entry F) = F"
  "cfg_edges (analyzeCFG nm succs est entry F) = concat (map (\<lambda>BB. map (Pair BB) (succs BB)) F)"
  unfolding analyzeCFG_def by (induction F rule: rev_induct) (simp_all add: analyzeBlock_def)

lemma hoistAllocas_shape [simp]:
  "irBlocks (hoistAllocas F) = irBlocks F" "ifSuccs (hoistAllocas F) = ifSuccs F" "ifName (hoistAllocas F) = ifName F"
  by (auto simp: hoistAllocas_def irBlocks_def Let_def split: list.split)

lemma ckpt_wf_setAllocation [simp]: "ckpt_wf (setAllocation b a sol) = ckpt_wf sol"
  by (simp add: setAllocation_def makeShared_def Let_def)

lemma foldCall_shape:
  "ckpt_wf (fs_sol fs) \<Longrightarrow> ckpt_wf (fs_sol (foldCall nm params S ic fs))"
  "cfg_blocks (fs_cfg (foldCall nm params S ic fs)) = cfg_blocks (fs_cfg fs)"
  "cfg_edges (fs_cfg (foldCall nm params S ic fs)) = cfg_edges (fs_cfg fs)"
  by (auto simp: foldCall_def Let_def intro: ckpt_wf_table split: prod.split)

lemma foldCalleeSummaries_shape:
  "foldCalleeSummaries nm params smry ics fs = Inr fs' \<Longrightarrow>
     (ckpt_wf (fs_sol fs) \<longrightarrow> ckpt_wf (fs_sol fs')) \<and> cfg_blocks (fs_cfg fs') = cfg_blocks (fs_cfg fs) \<and> cfg_edges (fs_cfg fs') = cfg_edges (fs_cfg fs) \<and>
     (\<forall>ic \<in> set ics. \<exists>S. map_of smry (the (icCallee ic)) = Some S \<and> sm_feasible S)"
  by (induction nm params smry ics fs rule: foldCalleeSummaries.induct) (auto simp: foldCall_shape split: option.splits if_splits)

lemma sol_le_analyzed: "sol_le sol sol' \<Longrightarrow> isAnalyzed sol b \<Longrightarrow> isAnalyzed sol' b"
  by (auto simp: isAnalyzed_metaOf sol_le_def)

lemma analyzeFunctionPaths_correct:
  assumes "analyzeFunctionPaths te s d eps ts = (e, ts')" and "isAnalyzed (ts_sol ts) s" "isAnalyzed (ts_sol ts) d"
  shows "sol_le (ts_sol ts) (ts_sol ts') \<and> (ckpt_wf (ts_sol ts) \<longrightarrow> ckpt_wf (ts_sol ts')) \<and>
    (\<forall>n a. e = Some (n, a) \<longrightarrow> (\<exists>msg. a = Infeasible msg)) \<and>
    (e = None \<longrightarrow> (\<forall>ep \<in> set eps. \<forall>b \<in> set (ep_blocks ep). isAnalyzed (ts_sol ts') b))"
  using assms
proof (induction eps arbitrary: ts)
  case (Cons ep eps)
  let ?path = "s # ep_blocks ep @ [d]"
  let ?ts1 = "ts\<lparr>ts_sol := (ts_sol ts)\<lparr>pathsAnalyzed := pathsAnalyzed (ts_sol ts) + 1\<rparr>, ts_graph := addTraceEdges ?path (ts_graph ts)\<rparr>"
  obtain e2 ts2 where a: "analyzeTrace te ?path ?ts1 = (e2, ts2)" by fastforce
  have same: "sol_le (ts_sol ts) (ts_sol ?ts1)" "ckpt_wf (ts_sol ?ts1) = ckpt_wf (ts_sol ts)"
      "isAnalyzed (ts_sol ?ts1) = isAnalyzed (ts_sol ts)"
    by (simp_all add: sol_le_def metaOf_def placementsOf_def isAnalyzed_def fun_eq_iff)
  from analyzeTrace_correct [OF a] Cons.prems(2,3) same
  have A: "sol_le (ts_sol ts) (ts_sol ts2)" "ckpt_wf (ts_sol ts) \<longrightarrow> ckpt_wf (ts_sol ts2)"
    "e2 = None \<longrightarrow> (\<forall>b \<in> set ?path. isAnalyzed (ts_sol ts2) b)" "e2 = None \<or> (\<exists>msg. e2 = Some (Infeasible msg))"
    by (auto intro: sol_le_trans)
  show ?case
  proof (cases e2)
    case None
    with Cons.prems(1) a have rest: "analyzeFunctionPaths te s d eps ts2 = (e, ts')" by (simp add: Let_def)
    with Cons.IH [OF rest] A None Cons.prems(2,3) sol_le_analyzed sol_le_trans show ?thesis by auto
  next
    case (Some x)
    with Cons.prems(1) a A show ?thesis by (auto simp: Let_def)
  qed
qed (simp add: sol_le_def)

lemma countPlacements_same:
  "ckpt_wf (countPlacements sol) = ckpt_wf sol \<and> metaOf (countPlacements sol) = metaOf sol \<and> findAllocation (countPlacements sol) = findAllocation sol
   \<and> getCheckpointState g (countPlacements sol) = getCheckpointState g sol"
proof -
  let ?P = "\<lambda>s. ckpt_wf s = ckpt_wf sol \<and> metaOf s = metaOf sol \<and> findAllocation s = findAllocation sol \<and> getCheckpointState g s = getCheckpointState g sol"
  have upd: "?P (s\<lparr>totalVmVariables := n\<rparr>)" "?P (s\<lparr>totalNvmVariables := n\<rparr>)" if "?P s" for s n
    using that by (simp_all add: fun_eq_iff metaOf_def findAllocation_def allocAt_def [abs_def] getCheckpointState_def)
  show ?thesis unfolding countPlacements_def
    by (rule foldl_invariant [of ?P]) (simp, rule foldl_invariant [of ?P], simp, use upd in \<open>auto split: prod.split\<close>)
qed

lemma initFunctionBoundary_meta:
  assumes "s \<noteq> d"
  shows "isAnalyzed (initFunctionBoundary params s d sol) s" "isAnalyzed (initFunctionBoundary params s d sol) d"
    "E_left (metaOf (initFunctionBoundary params s d sol) s) = capacity params - E_pro params - u2r (N_reg params) * regRestoreEnergy params"
    "E_to_leave (metaOf (initFunctionBoundary params s d sol) d) = E_epi params + u2r (N_reg params) * regStoreEnergy params"
    "ckpt_wf (initFunctionBoundary params s d sol) = ckpt_wf sol"
  using assms by (simp_all add: initFunctionBoundary_def Let_def isAnalyzed_metaOf metaOf_def setMeta_def omap_get_def)

text \<open>What holds of the result handed to the instrumenter.\<close>

definition solution_ok :: "SchematicParams \<Rightarrow> bb_ptr list \<Rightarrow> (bb_ptr \<times> bb_ptr) list \<Rightarrow> solved \<Rightarrow> bool" where
  "solution_ok params blocks edges sv \<longleftrightarrow>
     ckpt_wf (sv_sol sv)
     \<and> (\<forall>BB \<in> set blocks. \<exists>b. map_of (realBlocks (sv_graph sv)) BB = Some b \<and> isAnalyzed (sv_sol sv) b)
     \<and> isAnalyzed (sv_sol sv) (sv_start sv) \<and> isAnalyzed (sv_sol sv) (sv_end sv)
     \<and> E_left (metaOf (sv_sol sv) (sv_start sv)) \<le> capacity params - E_pro params - u2r (N_reg params) * regRestoreEnergy params
     \<and> E_epi params + u2r (N_reg params) * regStoreEnergy params \<le> E_to_leave (metaOf (sv_sol sv) (sv_end sv))
     \<and> (\<forall>(s, d) \<in> set edges.
          \<not> isLoopBackEdge (ta_LI (sv_te sv)) s d \<and> findAllocation (sv_sol sv) (blockOf (sv_graph sv) s) \<noteq> None
            \<and> findAllocation (sv_sol sv) (blockOf (sv_graph sv) d) \<noteq> None
          \<longrightarrow> getCheckpointState (sv_graph sv) (sv_sol sv) (edgeOf (sv_graph sv) (s, d)) \<noteq> Potential)"

lemma solveLoaded_correct:
  assumes run: "solveLoaded fi params cfg st lt ts = (Inr sv, tr)" and wf: "ckpt_wf (ts_sol ts)"
    and closed: "\<forall>p \<in> set (cfg_edges cfg). fst p \<in> set (cfg_blocks cfg) \<and> snd p \<in> set (cfg_blocks cfg)"
  shows "solution_ok params (cfg_blocks cfg) (cfg_edges cfg) sv"
proof -
  let ?env = "loopEnvOf fi cfg st params (loopTraces lt)"
  let ?te = "traceEnv ?env None"
  obtain e1 ts1 where 1: "analyzeLoops ?env ts = (e1, ts1)" by fastforce
  have e1: "e1 = None" using run 1 by (cases e1) (simp_all add: solveLoaded_def)
  have w1: "ckpt_wf (ts_sol ts1)" using ckpt_wf_analyzeLoops [OF wf, of ?env] 1 by simp
  obtain s g1 where s: "createSynthetic kStartFuncName (ts_graph ts1) = (s, g1)" by fastforce
  obtain d g2 where d: "createSynthetic kEndFuncName g1 = (d, g2)" by fastforce
  have sd: "s \<noteq> d" using s d by (auto simp: createSynthetic_def Let_def)
  note I = initFunctionBoundary_meta [OF sd]
  let ?ts2 = "ts1\<lparr>ts_graph := g2, ts_sol := initFunctionBoundary params s d (ts_sol ts1)\<rparr>"
  obtain e3 ts3 where 3: "analyzeFunctionPaths ?te s d (functionPaths lt) ?ts2 = (e3, ts3)" by fastforce
  have e3: "e3 = None" using run 1 e1 s d 3 by (cases e3) (simp_all add: solveLoaded_def split: prod.splits)
  have P: "sol_le (ts_sol ?ts2) (ts_sol ts3)" "ckpt_wf (ts_sol ts3)"
    using analyzeFunctionPaths_correct [OF 3] I w1 by auto
  obtain e4 ts4 where 4: "findAndAnalyzeNotFixedPaths ?te ts3 = (e4, ts4)" by fastforce
  have e4: "e4 = None" using run 1 e1 s d 3 e3 4 by (cases e4) (simp_all add: solveLoaded_def)
  have te: "ta_cfg ?te = cfg" "ta_scope ?te = None" by (simp_all add: traceEnv_def loopEnvOf_def)
  from analyzeBlocks_correct [OF 4 [unfolded findAndAnalyzeNotFixedPaths_def]] e4 P(2) te
  have B: "sol_le (ts_sol ts3) (ts_sol ts4)" "ckpt_wf (ts_sol ts4)"
    "\<forall>BB \<in> set (cfg_blocks cfg). \<exists>b. map_of (realBlocks (ts_graph ts4)) BB = Some b \<and> isAnalyzed (ts_sol ts4) b"
    by (auto simp: in_scope_def)
  have gc: "graph_complete (ts_graph ts4) (ta_cfg ?te)"
    using closed B(3) unfolding graph_complete_def list_all_iff te by fastforce
  obtain g sol where 5: "removePotentialCheckpointsBetweenFixedBBs ?te (ts_graph ts4, ts_sol ts4) = (g, sol)" by fastforce
  from removePotential_inv [OF gc 5] have g: "g = ts_graph ts4" and D: "decided_inv ?te g (ts_sol ts4) (set (cfg_edges cfg)) sol"
    unfolding te by auto
  have sv: "sv = \<lparr>sv_te = ?te, sv_graph = g, sv_sol = countPlacements sol, sv_start = s, sv_end = d\<rparr>"
    using run 1 e1 s d 3 e3 4 e4 5 by (simp add: solveLoaded_def)
  note C = countPlacements_same [of sol]
  have an: "isAnalyzed (countPlacements sol) b = isAnalyzed sol b" for b using C by (simp add: isAnalyzed_metaOf)
  have le: "sol_le (ts_sol ?ts2) sol" using P(1) B(1) D by (auto simp: decided_inv_def intro: sol_le_trans)
  have fixed: "fixed_edge ?te g (ts_sol ts4) (a, b)" if "(a, b) \<in> set (cfg_edges cfg)" "\<not> isLoopBackEdge (ta_LI ?te) a b"
      "findAllocation sol (blockOf g a) \<noteq> None" "findAllocation sol (blockOf g b) \<noteq> None" for a b
  proof -
    have "isAnalyzed (ts_sol ts4) (blockOf g a)" "isAnalyzed (ts_sol ts4) (blockOf g b)"
      using closed B(3) that(1) g by (fastforce simp: blockOf_def omap_get_def)+
    with that D te(2) show ?thesis by (simp add: fixed_edge_def isEdgeOutsideLoopScope_def decided_inv_def)
  qed
  show ?thesis unfolding solution_ok_def sv solved.simps
  proof (intro conjI)
    show "ckpt_wf (countPlacements sol)" using C D B(2) by (simp add: decided_inv_def)
    show "\<forall>BB \<in> set (cfg_blocks cfg). \<exists>b. map_of (realBlocks g) BB = Some b \<and> isAnalyzed (countPlacements sol) b"
      using B(3) D g by (auto simp: an decided_inv_def)
    show "isAnalyzed (countPlacements sol) s" "isAnalyzed (countPlacements sol) d"
      using sol_le_analyzed [OF le] I by (auto simp: an)
    show "E_left (metaOf (countPlacements sol) s) \<le> capacity params - E_pro params - u2r (N_reg params) * regRestoreEnergy params"
      "E_epi params + u2r (N_reg params) * regStoreEnergy params \<le> E_to_leave (metaOf (countPlacements sol) d)"
      using le I(3,4) C by (simp_all add: sol_le_def) metis+
    show "\<forall>(a, b) \<in> set (cfg_edges cfg). \<not> isLoopBackEdge (ta_LI ?te) a b \<and> findAllocation (countPlacements sol) (blockOf g a) \<noteq> None
        \<and> findAllocation (countPlacements sol) (blockOf g b) \<noteq> None \<longrightarrow> getCheckpointState g (countPlacements sol) (edgeOf g (a, b)) \<noteq> Potential"
      using fixed D countPlacements_same [of sol g] by (auto simp: decided_inv_def)
  qed
qed

text \<open>The block graph of the driver.\<close>

lemma updateBlock_ok:
  assumes "graph_ok g" "b < graphNext g" "\<And>blk. blk_bb (f blk) = blk_bb blk"
  shows "graph_ok (updateBlock f b g)"
proof -
  have "getLLVMBlock (updateBlock f b g) x = getLLVMBlock g x" for x
    using assms(3) by (simp add: getLLVMBlock_def blockAt_def updateBlock_def omap_get_def)
  with assms(1,2) show ?thesis by (auto simp: graph_ok_def updateBlock_def fst_set_omap_put)
qed

lemma addEdge_ok: "graph_ok g \<Longrightarrow> a < graphNext g \<Longrightarrow> b < graphNext g \<Longrightarrow> graph_ok (addEdge a b g)"
  unfolding addEdge_def
  by (intro updateBlock_ok) (auto simp: addSuccessor_def addPredecessor_def updateBlock_def)

lemma getOrCreate_below: "graph_ok g \<Longrightarrow> getOrCreate nm BB g = (b, g') \<Longrightarrow> graph_ok g' \<and> b < graphNext g' \<and> graphNext g \<le> graphNext g'"
  using getOrCreate_ok [of g nm BB b g'] by (auto simp: graph_ok_def getOrCreate_def Let_def split: option.splits)

lemma addCFGEdges_ok:
  assumes "graph_ok g"
  shows "graph_ok (addCFGEdges nm F succs g)"
  unfolding addCFGEdges_def
proof (rule foldl_invariant [of graph_ok, OF assms])
  fix h BB assume h: "graph_ok h"
  obtain b h1 where b: "getOrCreate nm BB h = (b, h1)" by fastforce
  note B = getOrCreate_below [OF h b]
  have "graph_ok (foldl (\<lambda>g succ. let (sblk, g2) = getOrCreate nm succ g in addEdge b sblk g2) h1 (succs BB)) \<and>
      b < graphNext (foldl (\<lambda>g succ. let (sblk, g2) = getOrCreate nm succ g in addEdge b sblk g2) h1 (succs BB))"
  proof (rule foldl_invariant [of "\<lambda>g. graph_ok g \<and> b < graphNext g"])
    fix k X assume k: "graph_ok k \<and> b < graphNext k"
    obtain c k1 where c: "getOrCreate nm X k = (c, k1)" by fastforce
    from getOrCreate_below [OF _ c] k addEdge_ok [of k1 b c]
    show "graph_ok (let (sblk, g2) = getOrCreate nm X k in addEdge b sblk g2) \<and> b < graphNext (let (sblk, g2) = getOrCreate nm X k in addEdge b sblk g2)"
      by (auto simp: c addEdge_def updateBlock_def)
  qed (use B in auto)
  then show "graph_ok (let (blk, g1) = getOrCreate nm BB h in foldl (\<lambda>g succ. let (sblk, g2) = getOrCreate nm succ g in addEdge blk sblk g2) g1 (succs BB))"
    by (simp add: b)
qed

lemma foldCall_ok: "graph_ok (fs_graph fs) \<Longrightarrow> graph_ok (fs_graph (foldCall nm params S ic fs))"
  by (auto simp: foldCall_def Let_def split: prod.split dest: getOrCreate_ok(1))

lemma foldCalleeSummaries_ok:
  "foldCalleeSummaries nm params smry ics fs = Inr fs' \<Longrightarrow> graph_ok (fs_graph fs) \<Longrightarrow> graph_ok (fs_graph fs')"
  by (induction nm params smry ics fs rule: foldCalleeSummaries.induct) (auto simp: foldCall_ok split: option.splits if_splits)

text \<open>The ways a run of the driver up to the instrumenter reaches the analyses.\<close>

lemma prepareSolution_stages:
  assumes "prepareSolution opts params fi smry tracker = (r, tracker')"
    and "r = Inr sv \<or> r = Inl (LoopAnalysisFailed le) \<or> r = Inl (PathInfeasible n a) \<or> r = Inl (UncoveredBlocksInfeasible u)"
  obtains cfg st lt ts names g1 where "solveLoaded fi params cfg st lt ts = (r, tracker')"
    and "ckpt_wf (ts_sol ts)" and "cfg_blocks cfg = irBlocks (fi_fun fi)"
    and "cfg_edges cfg = concat (map (\<lambda>BB. map (Pair BB) (ifSuccs (fi_fun fi) BB)) (irBlocks (fi_fun fi)))"
    and "graph_ok g1" and "loadTraces (fi_forest fi) names (ifName (fi_fun fi)) (po_traceDoc opts) g1 = Inr (lt, ts_graph ts)"
    and "\<forall>ic \<in> set (collectIsolatedCalls (fi_md fi) (hoistAllocas (fi_fun fi))). \<exists>S. map_of smry (the (icCallee ic)) = Some S \<and> sm_feasible S"
proof -
  let ?F = "hoistAllocas (fi_fun fi)" and ?E = "fi_forest fi" and ?nm = "lf_bbName (fi_forest fi)"
  have r: "r \<noteq> Inl (ContextFailed c)" "r \<noteq> Inl StateDiverges" "r \<noteq> Inl (UnresolvedEffects us)" "r \<noteq> Inl (NoCalleeSummary cn)"
    "r \<noteq> Inl NoTraceFile" "r \<noteq> Inl (TraceLoadFailed tf)" "r \<noteq> Inl NoFunctionTraces" for c us cn tf using assms(2) by auto
  obtain cfg0 where 1: "createCheckpointContext (po_energyConfig opts) (po_estimator opts) ?nm ?F = Inr cfg0"
    using assms(1) r(1) by (cases "createCheckpointContext (po_energyConfig opts) (po_estimator opts) ?nm ?F") (auto simp: prepareSolution_def)
  obtain st errors where 2: "analyzeSchematicState (fi_md fi) ?F (fi_env fi) (fi_isPointer fi) = Some (st, errors)"
    using assms(1) r(2) 1 by (cases "analyzeSchematicState (fi_md fi) ?F (fi_env fi) (fi_isPointer fi)") (auto simp: prepareSolution_def)
  have 3: "errors = []" using assms(1) r(3) 1 2 by (auto simp: prepareSolution_def Let_def split: if_splits)
  let ?cfg1 = "chargeNVMAccesses params (fi_env fi) st (irBlocks ?F) cfg0"
  let ?fs0 = "\<lparr>fs_graph = addCFGEdges ?nm (irBlocks ?F) (ifSuccs ?F) emptyGraph, fs_cfg = ?cfg1, fs_sol = emptySolution\<rparr>"
  obtain fs where 4: "foldCalleeSummaries ?nm params smry (collectIsolatedCalls (fi_md fi) ?F) ?fs0 = Inr fs"
    using assms(1) r(4) 1 2 3 by (cases "foldCalleeSummaries ?nm params smry (collectIsolatedCalls (fi_md fi) ?F) ?fs0") (auto simp: prepareSolution_def Let_def)
  have 5: "po_tracePath opts \<noteq> []" using assms(1) r(5) 1 2 3 4 by (auto simp: prepareSolution_def Let_def)
  obtain names g1 where 6: "traceLoaderNames ?E (irBlocks ?F) (fs_graph fs) = (names, g1)" by fastforce
  obtain lt g2 where 7: "loadTraces ?E names (ifName ?F) (po_traceDoc opts) g1 = Inr (lt, g2)"
    using assms(1) r(6) 1 2 3 4 5 6 by (cases "loadTraces ?E names (ifName ?F) (po_traceDoc opts) g1") (auto simp: prepareSolution_def Let_def)
  have 8: "functionPaths lt \<noteq> []" using assms(1) r(7) 1 2 3 4 5 6 7 by (auto simp: prepareSolution_def Let_def)
  have run: "solveLoaded fi params (fs_cfg fs) st lt \<lparr>ts_graph = g2, ts_sol = fs_sol fs, ts_tracker = tracker\<rparr> = (r, tracker')"
    using assms(1) 1 2 3 4 5 6 7 8 by (simp add: prepareSolution_def Let_def)
  have cfg0: "cfg0 = analyzeCFG ?nm (ifSuccs ?F) (the (po_estimator opts (po_energyConfig opts)) ?F) (irEntry ?F) (irBlocks ?F)"
    using 1 by (auto simp: createCheckpointContext_def split: if_splits option.splits)
  note S = foldCalleeSummaries_shape [OF 4]
  have "ckpt_wf emptySolution" by (simp add: ckpt_wf_def emptySolution_def)
  moreover have "graph_ok g1" using traceLoaderNames_graph [of "fs_graph fs" ?E "irBlocks ?F"]
      foldCalleeSummaries_ok [OF 4] addCFGEdges_ok [OF graph_ok_empty] 6 by simp
  ultimately show ?thesis using that [OF run] S 7 by (simp add: cfg0 analyzeCFG_shape)
qed

text \<open>(C13) A function the driver solves is solved completely: the checkpoint table is consistent, every block of the
  function has a node and is analysed, and so are the two boundary nodes; on entry no more energy is promised than a
  full capacitor leaves after the prologue and the registers are restored, at the exit at least the epilogue and the
  registers are reserved; and no edge of the function that is not the back edge of a loop and joins two allocated
  blocks is left undecided. The hypothesis is that branches go to blocks of the function.\<close>

theorem prepareSolution_complete:
  assumes "prepareSolution opts params fi smry tracker = (Inr sv, tracker')"
    and "\<forall>s \<in> set (irBlocks (fi_fun fi)). set (ifSuccs (fi_fun fi) s) \<subseteq> set (irBlocks (fi_fun fi))"
  shows "solution_ok params (irBlocks (fi_fun fi)) [(s, d). s \<leftarrow> irBlocks (fi_fun fi), d \<leftarrow> ifSuccs (fi_fun fi) s] sv"
proof (rule prepareSolution_stages [OF assms(1), of sv], simp)
  fix cfg st lt ts
  assume run: "solveLoaded fi params cfg st lt ts = (Inr sv, tracker')" and "ckpt_wf (ts_sol ts)"
    and shape: "cfg_blocks cfg = irBlocks (fi_fun fi)"
      "cfg_edges cfg = concat (map (\<lambda>BB. map (Pair BB) (ifSuccs (fi_fun fi) BB)) (irBlocks (fi_fun fi)))"
  with solveLoaded_correct [OF run] assms(2) have "solution_ok params (cfg_blocks cfg) (cfg_edges cfg) sv" by auto
  then show ?thesis using shape by simp
qed

section \<open>What can go wrong\<close>

lemma analyzeLoopBodyPaths_errors:
  assumes "analyzeLoopBodyPaths env L blocks ps ts = (Some e, ts')"
    and "isAnalyzed (ts_sol ts) (startSynth blocks)" "isAnalyzed (ts_sol ts) (endSynth blocks)"
  shows "\<exists>msg. e = Infeasible msg"
  using assms
proof (induction ps arbitrary: ts)
  case (Cons p ps)
  let ?path = "startSynth blocks # p @ [endSynth blocks]" let ?ts1 = "ts\<lparr>ts_graph := addTraceEdges ?path (ts_graph ts)\<rparr>"
  obtain e2 ts2 where a: "analyzeTrace (traceEnv env (Some L)) ?path ?ts1 = (e2, ts2)" by fastforce
  from analyzeTrace_correct [OF a] Cons.prems(2,3)
  have A: "sol_le (ts_sol ts) (ts_sol ts2)" "e2 = None \<or> (\<exists>msg. e2 = Some (Infeasible msg))" by auto
  with Cons a sol_le_analyzed [OF A(1)] show ?case by (cases e2) (auto simp: Let_def)
qed simp

lemma initializeSynthetic_analyzed:
  "isAnalyzed (initializeSyntheticLoopBoundaryState st params blocks sol) (startSynth blocks)"
  "isAnalyzed (initializeSyntheticLoopBoundaryState st params blocks sol) (endSynth blocks)"
  by (simp_all add: initializeSyntheticLoopBoundaryState_def Let_def isAnalyzed_metaOf metaOf_def setMeta_def omap_get_def)

definition loop_failure :: "loop_error \<Rightarrow> bool" where
  "loop_failure e \<longleftrightarrow> e \<in> {NoBodyPaths, DoesNotFit, StillDoesNotFit} \<or> (\<exists>msg. e = BodyInfeasible (Infeasible msg))
     \<or> (\<exists>a. e = UncoveredInfeasible a)"

lemma budgetLoop_errors: "fst (budgetLoop env L lt mt blocks ps pl d ts) \<in> {None, Some DoesNotFit, Some StillDoesNotFit}"
  unfolding budgetLoop_def splitBody_def Let_def case_prod_unfold by (simp split: if_split option.split)

lemma analyzeLoopBody_errors:
  assumes "analyzeLoopBody env L lt mt blocks ps ts = (Some e, ts')"
  shows "loop_failure e"
proof -
  let ?ts1 = "ts\<lparr>ts_sol := initializeSyntheticLoopBoundaryState (le_state env) (le_params env) blocks (ts_sol ts)\<rparr>"
  obtain e2 ts2 where 2: "analyzeLoopBodyPaths env L blocks ps ?ts1 = (e2, ts2)" by fastforce
  obtain e3 ts3 where 3: "findAndAnalyzeNotFixedPaths (traceEnv env (Some L)) ts2 = (e3, ts3)" by fastforce
  show ?thesis
  proof (cases e2)
    case (Some x)
    with analyzeLoopBodyPaths_errors [of env L blocks ps ?ts1 x ts2] 2 assms initializeSynthetic_analyzed show ?thesis
      by (auto simp: analyzeLoopBody_def loop_failure_def)
  next
    case None
    have b: "loop_failure e" if "budgetLoop env L lt mt blocks ps pl d ts0 = (Some e, ts')" for pl d ts0
      using budgetLoop_errors [of env L lt mt blocks ps pl d ts0] that by (auto simp: loop_failure_def)
    show ?thesis
    proof (cases e3)
      case (Some x)
      with assms 2 3 None show ?thesis by (auto simp: analyzeLoopBody_def loop_failure_def)
    next
      case e3: None
      from assms 2 3 None e3 b show ?thesis by (auto simp: analyzeLoopBody_def Let_def split: prod.splits if_splits)
    qed
  qed
qed

lemma analyzeLoop_errors: "analyzeLoop env L ts = (Some e, ts') \<Longrightarrow> loop_failure e"
  by (auto simp: analyzeLoop_def Let_def loop_failure_def [of NoBodyPaths] split: prod.splits option.splits if_splits
      dest: analyzeLoopBody_errors)

lemma analyzeSortedLoops_errors: "analyzeSortedLoops env lts ts = (Some e, ts') \<Longrightarrow> loop_failure e"
  by (induction env lts ts rule: analyzeSortedLoops.induct) (auto split: prod.splits option.splits dest: analyzeLoop_errors)

text \<open>LLVM's loops nest: a block of a loop that does not lie directly in it belongs to a loop inside it.\<close>

definition nesting_ok :: "fun_input \<Rightarrow> bool" where
  "nesting_ok fi \<longleftrightarrow>
     (\<forall>L \<in> set (lf_preorder (fi_forest fi)). \<forall>b \<in> set (getLoopBlocks (lf_LI (fi_forest fi)) L).
        getLoopFor (lf_LI (fi_forest fi)) b \<noteq> Some L \<longrightarrow>
        (\<exists>C \<in> set (lf_preorder (fi_forest fi)). C \<noteq> L \<and> fi_containsLoop fi L C \<and> b \<in> set (getLoopBlocks (lf_LI (fi_forest fi)) C)))"

lemma solveLoaded_errors:
  assumes run: "solveLoaded fi params cfg st lt ts = (Inl e, tr)" and forest: "forest_ok (fi_forest fi)" "nesting_ok fi"
    and load: "graph_ok g" "loadTraces (fi_forest fi) names f doc g = Inr (lt, ts_graph ts)"
  shows "(\<exists>le. e = LoopAnalysisFailed le \<and> loop_failure le) \<or> (\<exists>n msg. e = PathInfeasible n (Infeasible msg)) \<or> (\<exists>a. e = UncoveredBlocksInfeasible a)"
proof -
  let ?env = "loopEnvOf fi cfg st params (loopTraces lt)"
  have "same_loops (fi_forest fi) ?env" using forest(2) by (simp add: same_loops_def loopEnvOf_def nesting_ok_def)
  then have "collectLoopTraceCoverageErrors ?env (ts_graph ts) = ([], ts_graph ts)"
    by (rule loaded_traces_covered [OF forest(1) load]) (simp add: loopEnvOf_def)
  then obtain lts ts0 where loops: "analyzeLoops ?env ts = analyzeSortedLoops ?env lts ts0" by (simp add: analyzeLoops_def)
  obtain e1 ts1 where 1: "analyzeLoops ?env ts = (e1, ts1)" by fastforce
  show ?thesis
  proof (cases e1)
    case (Some le)
    with 1 loops analyzeSortedLoops_errors [of ?env lts ts0 le ts1] run show ?thesis by (auto simp: solveLoaded_def)
  next
    case e1: None
    obtain s g1 where s: "createSynthetic kStartFuncName (ts_graph ts1) = (s, g1)" by fastforce
    obtain d g2 where d: "createSynthetic kEndFuncName g1 = (d, g2)" by fastforce
    have sd: "s \<noteq> d" using s d by (auto simp: createSynthetic_def Let_def)
    let ?ts2 = "ts1\<lparr>ts_graph := g2, ts_sol := initFunctionBoundary params s d (ts_sol ts1)\<rparr>"
    obtain e3 ts3 where 3: "analyzeFunctionPaths (traceEnv ?env None) s d (functionPaths lt) ?ts2 = (e3, ts3)" by fastforce
    note P = analyzeFunctionPaths_correct [OF 3, simplified, OF initFunctionBoundary_meta(1,2) [OF sd]]
    show ?thesis
    proof (cases e3)
      case (Some x)
      with P run 1 e1 s d 3 show ?thesis by (cases x) (auto simp: solveLoaded_def)
    next
      case None
      with run 1 e1 s d 3 show ?thesis by (auto simp: solveLoaded_def Let_def split: prod.splits option.splits)
    qed
  qed
qed


section \<open>Summaries\<close>

lemma globalsOnly_keys: "fst ` set (globalsOnly env (m :: (value_ptr, 'a) omap)) \<subseteq> {v. isGlobalIn env v}"
  unfolding globalsOnly_def
proof (rule foldl_invariant [of "\<lambda>g. fst ` set g \<subseteq> {v. isGlobalIn env v}"], simp)
  fix g :: "(value_ptr, 'a) omap" and x :: "value_ptr \<times> 'a" assume g: "fst ` set g \<subseteq> {v. isGlobalIn env v}"
  obtain v y where x: "x = (v, y)" by (cases x)
  show "fst ` set (case x of (v, y) \<Rightarrow> if isGlobalIn env v then omap_put v y g else g) \<subseteq> {v. isGlobalIn env v}"
    using g by (simp only: x prod.case fst_set_omap_put split: if_split) simp
qed

definition summary_ok :: "ir_env \<Rightarrow> CallSummary \<Rightarrow> bool" where
  "summary_ok env S \<longleftrightarrow> sm_feasible S \<and>
     (\<forall>m \<in> {vars (sfAllocation S), vars (efAllocation S)}. fst ` set m \<subseteq> {v. isGlobalIn env v}) \<and>
     (\<forall>m \<in> {vmOffsets (sfAllocation S), vmOffsets (efAllocation S)}. fst ` set m \<subseteq> {v. isGlobalIn env v}) \<and>
     (\<forall>m \<in> {sfPlacements S, efPlacements S}. fst ` set m \<subseteq> {v. isGlobalIn env v})"

lemma captureCallSummary_ok: "summary_ok env (captureCallSummary env sol s d)"
  by (simp add: summary_ok_def captureCallSummary_def allocOr_def Let_def globalsOnly_keys)

text \<open>The summaries, youngest first: each is of a function of the module, speaks about globals, and was taken when all
  isolated callees of its function already had one.\<close>

definition summaries_ok :: "fun_input option list \<Rightarrow> call_summaries \<Rightarrow> bool" where
  "summaries_ok nodes smry \<longleftrightarrow>
     (\<forall>later f S earlier. smry = later @ (f, S) # earlier \<longrightarrow>
        (\<exists>fi. Some fi \<in> set nodes \<and> ifName (fi_fun fi) = f \<and> summary_ok (fi_env fi) S \<and>
           (\<forall>ic \<in> set (collectIsolatedCalls (fi_md fi) (hoistAllocas (fi_fun fi))).
              \<exists>S'. map_of earlier (the (icCallee ic)) = Some S' \<and> sm_feasible S')))"

lemma summaries_ok_Cons:
  assumes "summaries_ok nodes smry" and "Some fi \<in> set nodes" "summary_ok (fi_env fi) S"
    and "\<forall>ic \<in> set (collectIsolatedCalls (fi_md fi) (hoistAllocas (fi_fun fi))). \<exists>S'. map_of smry (the (icCallee ic)) = Some S' \<and> sm_feasible S'"
  shows "summaries_ok nodes ((ifName (fi_fun fi), S) # smry)"
  unfolding summaries_ok_def
proof (intro allI impI)
  fix later f S' earlier assume eq: "(ifName (fi_fun fi), S) # smry = later @ (f, S') # earlier"
  show "\<exists>fi. Some fi \<in> set nodes \<and> ifName (fi_fun fi) = f \<and> summary_ok (fi_env fi) S' \<and>
      (\<forall>ic \<in> set (collectIsolatedCalls (fi_md fi) (hoistAllocas (fi_fun fi))). \<exists>S'. map_of earlier (the (icCallee ic)) = Some S' \<and> sm_feasible S')"
  proof (cases later)
    case Nil
    with eq assms(2-) show ?thesis by auto
  next
    case (Cons x later')
    with eq have "smry = later' @ (f, S') # earlier" by simp
    with assms(1) show ?thesis unfolding summaries_ok_def by blast
  qed
qed

lemma solveFunction_summary:
  assumes "solveFunction opts params fi smry tracker = (Inr S, tracker')"
  shows "summary_ok (fi_env fi) S \<and>
    (\<forall>ic \<in> set (collectIsolatedCalls (fi_md fi) (hoistAllocas (fi_fun fi))). \<exists>S'. map_of smry (the (icCallee ic)) = Some S' \<and> sm_feasible S')"
proof -
  from assms obtain sv where sv: "prepareSolution opts params fi smry tracker = (Inr sv, tracker')"
    "S = captureCallSummary (fi_env fi) (sv_sol sv) (sv_start sv) (sv_end sv)"
    by (auto simp: solveFunction_def split: prod.splits sum.splits)
  show ?thesis using captureCallSummary_ok by (rule_tac prepareSolution_stages [OF sv(1), of sv]) (auto simp: sv(2))
qed

lemma solveModule_summaries_ok:
  assumes "solveModule opts params ns smry tracker = Inr smry'" and "set ns \<subseteq> set nodes" and "summaries_ok nodes smry"
  shows "summaries_ok nodes smry'"
  using assms
proof (induction opts params ns smry tracker rule: solveModule.induct)
  case (2 opts params node ns smry tracker)
  show ?case
  proof (cases node)
    case (Some fi)
    obtain r tr where r: "solveFunction opts params fi smry tracker = (r, tr)" by fastforce
    show ?thesis
    proof (cases "ifBlocks (fi_fun fi) = [] \<or> isBenchmarkInfrastructureFunction (ifName (fi_fun fi))")
      case False
      show ?thesis
      proof (cases r)
        case (Inr S)
        with solveFunction_summary r have "summaries_ok nodes ((ifName (fi_fun fi), S) # smry)"
          using 2(6,7) Some by (intro summaries_ok_Cons) auto
        with 2 False r Inr Some show ?thesis by auto
      qed (use 2 False r Some in \<open>auto split: if_splits\<close>)
    qed (use 2 Some in auto)
  qed (use 2 in auto)
qed simp

text \<open>(C15) The pass works bottom-up and its summaries are closed: whenever a function has a summary, it is a function
  of the module, the summary is feasible and speaks about globals only, and each isolated call of the function goes
  to a function that had a feasible summary before. So, names being unique in a module, no function on a cycle of
  isolated calls is given a summary.\<close>

theorem runSchematicPass_bottom_up:
  assumes "runSchematicPass opts nodes = Inr smry"
  shows "summaries_ok nodes smry"
proof (cases "parseSchematicParams (po_schematicConfig opts)")
  case (Inr params)
  have "summaries_ok nodes []" by (simp add: summaries_ok_def)
  with assms Inr show ?thesis unfolding runSchematicPass_def by (auto intro: solveModule_summaries_ok)
qed (use assms in \<open>simp add: runSchematicPass_def summaries_ok_def\<close>)

section \<open>A module with one function\<close>

text \<open>One block that returns, named in the trace file.\<close>

definition sample_leaf :: ir_function where
  "sample_leaf = \<lparr>ifName = ''f'',
     ifBlocks = [(1, [\<lparr>inId = 10, inKind = OtherInst True, inOperands = [], inVoid = True, inSized = False, inAllocSize = 0\<rparr>])],
     ifSuccs = (\<lambda>_. [])\<rparr>"

definition sample_leaf_forest :: loop_forest where
  "sample_leaf_forest = \<lparr>lf_LI = no_loops, lf_bbName = (\<lambda>_. ''a''), lf_succs = (\<lambda>_. []), lf_parents = (\<lambda>_. []),
     lf_exitBlocks = (\<lambda>_. []), lf_depth = (\<lambda>_. 0), lf_preorder = []\<rparr>"

definition sample_fi :: fun_input where
  "sample_fi = \<lparr>fi_fun = sample_leaf, fi_md = \<lparr>callEntryMD = [], callExitMD = []\<rparr>,
     fi_env = \<lparr>globalOf = (\<lambda>_. None), getUnderlyingObjects = (\<lambda>_. []), getUnderlyingObject = (\<lambda>v. v), stripPointerCasts = (\<lambda>v. v),
       isRefSet = (\<lambda>_ _. False), isModSet = (\<lambda>_ _. False)\<rparr>,
     fi_isPointer = (\<lambda>_. False), fi_forest = sample_leaf_forest, fi_markerTrip = (\<lambda>_. None), fi_constantTrip = (\<lambda>_. 0),
     fi_containsLoop = (\<lambda>_ _. False)\<rparr>"

definition sample_opts :: "string \<Rightarrow> pass_options" where
  "sample_opts traces = \<lparr>po_energyConfig = ''e.json'', po_estimator = (\<lambda>_. Some (\<lambda>_ _. 10)),
     po_schematicConfig = Some (schematicConfigDoc sample_params), po_tracePath = traces,
     po_traceDoc = Some (JObject [(''f'', JObject [(''traces'', JArray [JObject [(''path'', JArray [JString ''a'']), (''count'', JUnsigned 1)]])])]),
     po_addDebugMarkers = False\<rparr>"

definition sample_leaf_cfg :: CFGAnalysis where
  "sample_leaf_cfg = \<lparr>cfg_blocks = [1], cfg_blockInfo = [(1, \<lparr>bi_name = ''a'', energyCost = 10\<rparr>)], cfg_edges = [], cfg_entryBlock = 1, cfg_exitBlocks = [1]\<rparr>"

definition sample_leaf_state :: SchematicStateAnalysis where
  "sample_leaf_state = \<lparr>sa_candidates = [], sa_varSizeBytes = [], sa_loadCounts = [], sa_storeCounts = [], sa_firstOpIsLoad = [], isPointerType = (\<lambda>_. False)\<rparr>"

definition sample_leaf_graph :: SchematicGraph where
  "sample_leaf_graph = snd (getOrCreate (\<lambda>_. ''a'') 1 emptyGraph)"

lemma sample_leaf_context:
  "hoistAllocas sample_leaf = sample_leaf"
  "createCheckpointContext ''e.json'' (\<lambda>_. Some (\<lambda>_ _. 10)) (\<lambda>_. ''a'') sample_leaf = Inr sample_leaf_cfg"
  "analyzeSchematicState (fi_md sample_fi) sample_leaf (fi_env sample_fi) (\<lambda>_. False) = Some (sample_leaf_state, [])"
  "chargeNVMAccesses params env sample_leaf_state [1] sample_leaf_cfg = sample_leaf_cfg"
  by (simp_all add: hoistAllocas_def sample_leaf_def isPHINode_def createCheckpointContext_def analyzeCFG_def analyzeBlock_def irBlocks_def
      irEntry_def sample_leaf_cfg_def sample_fi_def analyzeSchematicState_def identifyCandidates_def irInsts_def considerAccess_def accessPointer_def
      findUnresolvedCalls_def blockInsts_def unresolvedCall_def getCallBase_def computeAccessMaps_def accessGlobals_def sample_leaf_state_def
      chargeNVMAccesses_def nvmPenalty_def setBlockEnergyCost_def getBlockInfo_def omap_get_def
      isIsolatedCallEntry_def Let_def)

lemma sample_leaf_load:
  "irBlocks sample_leaf = [1]" "ifSuccs sample_leaf = (\<lambda>_. [])" "ifName sample_leaf = ''f''"
  "collectIsolatedCalls (fi_md sample_fi) sample_leaf = []"
  "addCFGEdges (\<lambda>_. ''a'') [1] (\<lambda>_. []) emptyGraph = sample_leaf_graph"
  "traceLoaderNames sample_leaf_forest [1] sample_leaf_graph = ([(''a'', 1)], sample_leaf_graph)"
  "loadTraces sample_leaf_forest [(''a'', 1)] ''f'' (po_traceDoc (sample_opts t)) sample_leaf_graph =
     Inr (\<lparr>functionPaths = [\<lparr>ep_blocks = [1], ep_count = 1\<rparr>], loopTraces = []\<rparr>, sample_leaf_graph)"
  subgoal by code_simp
  subgoal by (simp add: sample_leaf_def)
  subgoal by code_simp
  subgoal by code_simp
  subgoal by code_simp
  subgoal by code_simp
  subgoal by (simp add: sample_opts_def) code_simp
  done

text \<open>The trace state after the boundary nodes are made.\<close>

definition sample_leaf_te :: "SchematicParams \<Rightarrow> trace_env" where
  "sample_leaf_te params = traceEnv (loopEnvOf sample_fi sample_leaf_cfg sample_leaf_state params []) None"

definition sample_leaf_graph3 :: SchematicGraph where
  "sample_leaf_graph3 = snd (createSynthetic kEndFuncName (snd (createSynthetic kStartFuncName sample_leaf_graph)))"

definition sample_leaf_ts :: "trace_state" where
  "sample_leaf_ts = \<lparr>ts_graph = addTraceEdges [2, 1, 3] sample_leaf_graph3,
     ts_sol = (initFunctionBoundary sample_params 2 3 emptySolution)\<lparr>pathsAnalyzed := 1\<rparr>, ts_tracker = Some resetTracker\<rparr>"

lemma sample_leaf_meta:
  "blockMeta (ts_sol sample_leaf_ts) = [(2, defaultMetadata\<lparr>E_left := 492, analyzed := True\<rparr>), (3, defaultMetadata\<lparr>E_to_leave := 11, analyzed := True\<rparr>)]"
  "blockAllocation (ts_sol sample_leaf_ts) = []" "functionCallBlocks (ts_sol sample_leaf_ts) = {}"
  by (simp_all add: sample_leaf_ts_def initFunctionBoundary_def Let_def setMeta_def metaOf_def emptySolution_def omap_get_def sample_params_def)

lemma sample_leaf_graph3_eq: "ts_graph sample_leaf_ts =
  \<lparr>graphBlocks = [(1, \<lparr>blk_bb = 1, blk_name = ''a'', blk_preds = [2], blk_succs = [3]\<rparr>),
      (2, \<lparr>blk_bb = 0, blk_name = kStartFuncName, blk_preds = [], blk_succs = [1]\<rparr>),
      (3, \<lparr>blk_bb = 0, blk_name = kEndFuncName, blk_preds = [1], blk_succs = []\<rparr>)],
    realBlocks = [(1, 1)], syntheticBlocks = [2, 3], graphNext = 4\<rparr>"
  by code_simp

definition sample_leaf_env :: rcg_env where
  "sample_leaf_env = \<lparr>pathBlocks = [2, 1, 3], rc_graph = ts_graph sample_leaf_ts, rc_state = sample_leaf_state, rc_cfg = sample_leaf_cfg, rc_params = sample_params,
     existingMeta = blockMeta (ts_sol sample_leaf_ts), rc_blockAllocation = (\<lambda>_. None), callBlocks = {}\<rparr>"

definition sample_leaf_nodes :: "Node list" where
  "sample_leaf_nodes = [\<lparr>kind = Start, node_edge = CFGEdge 0 0, blockIndex = 0\<rparr>,
     \<lparr>kind = CandidateEdge, node_edge = CFGEdge 2 1, blockIndex = 1\<rparr>,
     \<lparr>kind = CandidateEdge, node_edge = CFGEdge 1 3, blockIndex = 2\<rparr>,
     \<lparr>kind = End, node_edge = CFGEdge 0 0, blockIndex = 3\<rparr>]"

lemma sample_leaf_checkpoints: "getCheckpointsFromTrace sample_leaf_env = sample_leaf_nodes"
  by (simp add: getCheckpointsFromTrace_def isCallBlock_def sample_leaf_env_def sample_leaf_nodes_def upt_rec)

lemma sample_leaf_rcg: "createReachableCheckpointGraph sample_leaf_env sample_leaf_nodes (Some resetTracker) = Inr
  \<lparr>adj = [[sample_edge 0 1 11 [], sample_edge 0 2 21 [1], sample_edge 0 3 10 [1]], [sample_edge 1 2 29 [1], sample_edge 1 3 18 [1]], [sample_edge 2 3 8 []], []],
   minRejected = None, rc_tracker = Some resetTracker\<rparr>"
  by (simp add: rcg_graph_eval memalloc_eval sample_leaf_env_def sample_leaf_graph3_eq sample_leaf_cfg_def sample_leaf_state_def
     sample_params_def sample_leaf_meta sample_leaf_nodes_def sample_edge_def upt_rec)

lemma sample_leaf_solve:
  "\<exists>result. solve (solverEnv (sample_leaf_te sample_params) sample_leaf_ts [2, 1, 3]) (Some resetTracker) = Inr (result, Some resetTracker) \<and> feasible result"
proof -
  have env: "solverEnv (sample_leaf_te sample_params) sample_leaf_ts [2, 1, 3] = sample_leaf_env"
    by (simp add: solverEnv_def sample_leaf_env_def sample_leaf_te_def traceEnv_def loopEnvOf_def fun_eq_iff findAllocation_def sample_leaf_meta)
  have ne: "pathBlocks sample_leaf_env \<noteq> []" by (simp add: sample_leaf_env_def)
  have "\<exists>r. getShortestPathInRCG sample_leaf_nodes \<lparr>adj = [[sample_edge 0 1 11 [], sample_edge 0 2 21 [1], sample_edge 0 3 10 [1]], [sample_edge 1 2 29 [1], sample_edge 1 3 18 [1]], [sample_edge 2 3 8 []], []],
      minRejected = None, rc_tracker = Some resetTracker\<rparr> = Inr r \<and> feasible r"
    by (simp add: rcg_path_eval sample_leaf_nodes_def sample_edge_def upt_rec)
  then show ?thesis using ne unfolding env solve_def by (auto simp: sample_leaf_checkpoints sample_leaf_rcg)
qed

lemma sample_leaf_trace: "\<exists>ts'. analyzeTrace (sample_leaf_te sample_params) [2, 1, 3] sample_leaf_ts = (None, ts') \<and> ts_tracker ts' = Some resetTracker"
proof -
  let ?te = "sample_leaf_te sample_params" and ?sol = "ts_sol sample_leaf_ts"
  have an: "isAnalyzed ?sol b \<longleftrightarrow> b = 2 \<or> b = 3" for b by (simp add: isAnalyzed_def sample_leaf_meta defaultMetadata_def)
  have ext: "extractNotFixedBBPaths [2, 1, 3] ?sol = [[2, 1, 3]]"
    by (simp add: extractNotFixedBBPaths_def cutTrace_def cutStep_def cutInit_def registerBlock_def openPath_def Let_def an)
  obtain result where s: "solve (solverEnv ?te sample_leaf_ts [2, 1, 3]) (Some resetTracker) = Inr (result, Some resetTracker)" "feasible result"
    using sample_leaf_solve by blast
  obtain sol' where app: "applyMemoryAllocation (propEnv ?te (ts_graph sample_leaf_ts)) result [2, 1, 3]
      (describeTraceOrigin ?te (ts_graph sample_leaf_ts) [2, 1, 3]) ?sol = Inr sol'"
    using applyMemoryAllocation_returns [of "[2, 1, 3]" "propEnv ?te (ts_graph sample_leaf_ts)" result
        "describeTraceOrigin ?te (ts_graph sample_leaf_ts) [2, 1, 3]" ?sol] by auto
  have tr: "ts_tracker sample_leaf_ts = Some resetTracker" by (simp add: sample_leaf_ts_def)
  have "analyzeSubPaths ?te [[2, 1, 3]] sample_leaf_ts = (None, sample_leaf_ts\<lparr>ts_tracker := Some resetTracker, ts_sol := sol'\<rparr>)"
    using s app tr by (simp only: analyzeSubPaths.simps sum.case prod.case Let_def if_False not_True_eq_False refl if_True simp_thms)
  with an ext show ?thesis by (simp add: analyzeTrace_def)
qed

lemma sample_leaf_solved:
  "\<exists>sv. solveLoaded sample_fi sample_params sample_leaf_cfg sample_leaf_state \<lparr>functionPaths = [\<lparr>ep_blocks = [1], ep_count = 1\<rparr>], loopTraces = []\<rparr>
     \<lparr>ts_graph = sample_leaf_graph, ts_sol = emptySolution, ts_tracker = Some resetTracker\<rparr> = (Inr sv, Some resetTracker)"
proof -
  let ?env = "loopEnvOf sample_fi sample_leaf_cfg sample_leaf_state sample_params []" and ?te = "sample_leaf_te sample_params"
  let ?ts = "\<lparr>ts_graph = sample_leaf_graph, ts_sol = emptySolution, ts_tracker = Some resetTracker\<rparr>"
  have env: "loadedLoopTraces ?env = []" "loopsInPreorder ?env = []" by (simp_all add: loopEnvOf_def sample_fi_def sample_leaf_forest_def)
  have loops: "analyzeLoops ?env ?ts = (None, ?ts)"
    by (simp add: analyzeLoops_def collectLoopTraceCoverageErrors_def env)
  have synth: "fst (createSynthetic kStartFuncName sample_leaf_graph) = 2"
      "fst (createSynthetic kEndFuncName (snd (createSynthetic kStartFuncName sample_leaf_graph))) = 3"
    by code_simp+
  obtain ts1 where t1: "analyzeTrace ?te [2, 1, 3] sample_leaf_ts = (None, ts1)" "ts_tracker ts1 = Some resetTracker" using sample_leaf_trace by blast
  from analyzeTrace_correct [OF t1(1)] have T: "isAnalyzed (ts_sol ts1) 1" "ts_graph ts1 = ts_graph sample_leaf_ts" by auto
  have n: "pathsAnalyzed (initFunctionBoundary sample_params 2 3 emptySolution) = 0" by (simp add: initFunctionBoundary_def Let_def setMeta_def emptySolution_def)
  have paths: "analyzeFunctionPaths ?te 2 3 [\<lparr>ep_blocks = [1], ep_count = 1\<rparr>]
      \<lparr>ts_graph = sample_leaf_graph3, ts_sol = initFunctionBoundary sample_params 2 3 emptySolution, ts_tracker = Some resetTracker\<rparr> = (None, ts1)"
    using t1 by (simp add: Let_def sample_leaf_ts_def n)
  have te: "cfg_blocks (ta_cfg ?te) = [1]" "cfg_edges (ta_cfg ?te) = []" "ta_scope ?te = None"
    by (simp_all add: sample_leaf_te_def traceEnv_def loopEnvOf_def sample_leaf_cfg_def)
  have "getOrCreate nm 1 (ts_graph ts1) = (1, ts_graph ts1)" for nm by (simp add: getOrCreate_def T sample_leaf_graph3_eq)
  moreover have "ts1\<lparr>ts_graph := ts_graph sample_leaf_ts\<rparr> = ts1" using T by (cases ts1) simp
  ultimately have rest: "findAndAnalyzeNotFixedPaths ?te ts1 = (None, ts1)"
    using T by (simp add: findAndAnalyzeNotFixedPaths_def te)
  obtain s g1 where s: "createSynthetic kStartFuncName sample_leaf_graph = (s, g1)" by fastforce
  obtain d g2 where d: "createSynthetic kEndFuncName g1 = (d, g2)" by fastforce
  have sd: "s = 2" "d = 3" "g2 = sample_leaf_graph3" using synth s d by (simp_all add: sample_leaf_graph3_def)
  show ?thesis
    using loops s d sd paths [unfolded sample_leaf_te_def] rest [unfolded sample_leaf_te_def] t1(2) te [unfolded sample_leaf_te_def]
    by (simp add: solveLoaded_def removePotentialCheckpointsBetweenFixedBBs_def)
qed

lemma sample_leaf_prepared:
  "\<exists>sv. prepareSolution (sample_opts ''t.json'') sample_params sample_fi [] (Some resetTracker) = (Inr sv, Some resetTracker)"
  "prepareSolution (sample_opts []) sample_params sample_fi [] (Some resetTracker) = (Inl NoTraceFile, Some resetTracker)"
proof -
  have fi: "fi_fun sample_fi = sample_leaf" "fi_forest sample_fi = sample_leaf_forest" "lf_bbName sample_leaf_forest = (\<lambda>_. ''a'')"
    "fi_isPointer sample_fi = (\<lambda>_. False)" by (simp_all add: sample_fi_def sample_leaf_forest_def)
  have opts: "po_energyConfig (sample_opts t) = ''e.json''" "po_estimator (sample_opts t) = (\<lambda>_. Some (\<lambda>_ _. 10))" "po_tracePath (sample_opts t) = t" for t
    by (simp_all add: sample_opts_def)
  note run = prepareSolution_def Let_def fi opts sample_leaf_context sample_leaf_load
  show "\<exists>sv. prepareSolution (sample_opts ''t.json'') sample_params sample_fi [] (Some resetTracker) = (Inr sv, Some resetTracker)"
    using sample_leaf_solved by (simp add: run del: One_nat_def)
  show "prepareSolution (sample_opts []) sample_params sample_fi [] (Some resetTracker) = (Inl NoTraceFile, Some resetTracker)"
    by (simp add: run)
qed

theorem prepareSolution_complete_witness:
  "\<exists>sv. prepareSolution (sample_opts ''t.json'') sample_params sample_fi [] (Some resetTracker) = (Inr sv, Some resetTracker) \<and>
     E_left (metaOf (sv_sol sv) (sv_start sv)) \<le> 492 \<and> (\<exists>b. map_of (realBlocks (sv_graph sv)) 1 = Some b \<and> isAnalyzed (sv_sol sv) b)"
proof -
  obtain sv where sv: "prepareSolution (sample_opts ''t.json'') sample_params sample_fi [] (Some resetTracker) = (Inr sv, Some resetTracker)"
    using sample_leaf_prepared(1) by blast
  have "solution_ok sample_params (irBlocks (fi_fun sample_fi)) [(s, d). s \<leftarrow> irBlocks (fi_fun sample_fi), d \<leftarrow> ifSuccs (fi_fun sample_fi) s] sv"
    by (rule prepareSolution_complete [OF sv]) (simp add: sample_fi_def sample_leaf_def)
  with sv show ?thesis by (auto simp: solution_ok_def sample_fi_def sample_leaf_load sample_params_def)
qed


theorem runSchematicPass_bottom_up_witness:
  "\<exists>S. runSchematicPass (sample_opts ''t.json'') [None, Some sample_fi] = Inr [(''f'', S)] \<and> summaries_ok [None, Some sample_fi] [(''f'', S)]"
proof -
  obtain sv where sv: "prepareSolution (sample_opts ''t.json'') sample_params sample_fi [] (Some resetTracker) = (Inr sv, Some resetTracker)"
    using sample_leaf_prepared(1) by blast
  have opts: "parseSchematicParams (po_schematicConfig (sample_opts ''t.json'')) = Inr sample_params" "\<not> po_addDebugMarkers (sample_opts ''t.json'')"
    by (simp_all add: sample_opts_def schematic_roundtrip)
  have fi: "fi_fun sample_fi = sample_leaf" "ifBlocks sample_leaf \<noteq> []" "\<not> isBenchmarkInfrastructureFunction ''f''"
    by (simp_all add: sample_fi_def sample_leaf_def isBenchmarkInfrastructureFunction_def startsWith_def)
  have "\<exists>S. runSchematicPass (sample_opts ''t.json'') [None, Some sample_fi] = Inr [(''f'', S)]"
    using opts fi by (simp add: runSchematicPass_def solveFunction_def sv sample_leaf_load)
  with runSchematicPass_bottom_up show ?thesis by blast
qed

end
