(* ===== verification/TextScan.thy ===== *)
theory TextScan
  imports Prelude
begin

text \<open>
  The parts of the C++ string library the text-processing code uses: character classes, trimming,
  splitting a text into lines, \<open>std::stoul\<close> and its variants, \<open>std::to_string\<close>, and the printing of
  hexadecimal numbers that round trips through them.
\<close>

section \<open>Character classes\<close>

abbreviation TAB :: char where "TAB \<equiv> CHR 0x09"
abbreviation NEWLINE :: char where "NEWLINE \<equiv> CHR 0x0A"

definition code :: "char \<Rightarrow> nat" where
  "code c = of_char c"

definition toLower :: "char \<Rightarrow> char" where
  "toLower c = (if 65 \<le> code c \<and> code c \<le> 90 then char_of (code c + 32) else c)"

definition isDigit :: "char \<Rightarrow> bool" where
  "isDigit c \<longleftrightarrow> 48 \<le> code c \<and> code c \<le> 57"

definition isUpper :: "char \<Rightarrow> bool" where
  "isUpper c \<longleftrightarrow> 65 \<le> code c \<and> code c \<le> 90"

definition isHex :: "char \<Rightarrow> bool" where
  "isHex c \<longleftrightarrow> isDigit c \<or> 65 \<le> code c \<and> code c \<le> 70 \<or> 97 \<le> code c \<and> code c \<le> 102"

definition isWord :: "char \<Rightarrow> bool" where
  "isWord c \<longleftrightarrow> isDigit c \<or> isUpper c \<or> 97 \<le> code c \<and> code c \<le> 122 \<or> c = CHR ''_''"

text \<open>The class \<open>\s\<close>: space, and the controls from horizontal tab to carriage return.\<close>

definition isSpace :: "char \<Rightarrow> bool" where
  "isSpace c \<longleftrightarrow> code c = 32 \<or> 9 \<le> code c \<and> code c \<le> 13"

definition isBlank :: "char \<Rightarrow> bool" where
  "isBlank c \<longleftrightarrow> c = CHR '' '' \<or> c = TAB"

definition isLineBreak :: "char \<Rightarrow> bool" where
  "isLineBreak c \<longleftrightarrow> code c = 10 \<or> code c = 13"

definition trimLeft :: "string \<Rightarrow> string" where
  "trimLeft s = dropWhile isBlank s"

definition trimBlank :: "string \<Rightarrow> string" where
  "trimBlank s = rev (dropWhile isBlank (rev (dropWhile isBlank s)))"

text \<open>\<open>std::getline\<close> until the end of the text: a final line without a line break counts, an empty
  rest does not.\<close>

fun getLines :: "string \<Rightarrow> string list" where
  "getLines [] = []"
| "getLines (c # cs) =
     (if c = NEWLINE then [] # getLines cs
      else case getLines cs of
             [] \<Rightarrow> [[c]]
           | l # ls \<Rightarrow> (c # l) # ls)"

section \<open>Numbers\<close>

definition digitVal :: "char \<Rightarrow> nat" where
  "digitVal c =
     (if isDigit c then code c - 48
      else if 97 \<le> code c \<and> code c \<le> 122 then code c - 87
      else if isUpper c then code c - 55 else 99)"

definition numVal :: "nat \<Rightarrow> string \<Rightarrow> nat" where
  "numVal base s = foldl (\<lambda>n c. n * base + digitVal c) 0 s"

datatype conv_error = InvalidArgument | OutOfRange

text \<open>\<open>std::stoull(s, nullptr, 16)\<close> on a text of hexadecimal digits.\<close>

definition stoullHex :: "string \<Rightarrow> conv_error + u64" where
  "stoullHex s = (if numVal 16 s < 2 ^ 64 then Inr (of_nat (numVal 16 s)) else Inl OutOfRange)"

text \<open>\<open>std::stoul(s, nullptr, 0)\<close>: white space, a sign, a prefix that selects the base, then as many
  digits as there are. A negative number is negated modulo the word size.\<close>

definition stoullAuto :: "string \<Rightarrow> conv_error + u64" where
  "stoullAuto s =
     (let s1 = dropWhile isSpace s;
          neg = (s1 \<noteq> [] \<and> hd s1 = CHR ''-'');
          s2 = (if s1 \<noteq> [] \<and> (hd s1 = CHR ''-'' \<or> hd s1 = CHR ''+'') then tl s1 else s1);
          hexPrefix = (take 2 s2 = ''0x'' \<or> take 2 s2 = ''0X'') \<and> s2 \<noteq> [] \<and> drop 2 s2 \<noteq> [] \<and> isHex (hd (drop 2 s2));
          base = (if hexPrefix then 16 else if take 1 s2 = ''0'' then 8 else 10);
          digits = takeWhile (\<lambda>c. digitVal c < base) (if hexPrefix then drop 2 s2 else s2)
      in if digits = [] then Inl InvalidArgument
         else if 2 ^ 64 \<le> numVal base digits then Inl OutOfRange
         else Inr (if neg then - of_nat (numVal base digits) else of_nat (numVal base digits)))"

definition stoulDec :: "string \<Rightarrow> conv_error + u64" where
  "stoulDec s = (if numVal 10 s < 2 ^ 64 then Inr (of_nat (numVal 10 s)) else Inl OutOfRange)"

text \<open>For evaluation the bound is compared as an integer, whose literals are binary.\<close>

lemma below_u64_code: "n < 2 ^ 64 \<longleftrightarrow> int n < 18446744073709551616"
  by simp

lemmas stoullHex_code [code] = stoullHex_def [unfolded below_u64_code]

lemmas stoulDec_code [code] = stoulDec_def [unfolded below_u64_code]

lemmas stoullAuto_code [code] = stoullAuto_def [unfolded not_less [symmetric] below_u64_code]

definition digitChar :: "nat \<Rightarrow> char" where
  "digitChar r = char_of (if r < 10 then r + 48 else r + 87)"

fun digitsOf :: "nat \<Rightarrow> nat \<Rightarrow> string" where
  "digitsOf base n =
     (if n < base \<or> base < 2 then [digitChar (n mod base)]
      else digitsOf base (n div base) @ [digitChar (n mod base)])"

declare digitsOf.simps [simp del]

definition to_string :: "nat \<Rightarrow> string" where
  "to_string n = digitsOf 10 n"

section \<open>Printing and reading numbers\<close>

lemma code_char_of [simp]: "n < 256 \<Longrightarrow> code (char_of n) = n"
  by (simp add: code_def)

lemma digit_char:
  assumes "r < 16"
  shows "digitVal (digitChar r) = r"
    and "isHex (digitChar r)"
  using assms by (auto simp: digitChar_def digitVal_def isHex_def isDigit_def isUpper_def)

lemma numVal_snoc: "numVal base (s @ [c]) = numVal base s * base + digitVal c"
  by (simp add: numVal_def)

lemma numVal_digitsOf:
  assumes "2 \<le> base" and "base \<le> 16"
  shows "numVal base (digitsOf base n) = n"
  using assms(1)
proof (induction n rule: less_induct)
  case (less n)
  have d: "digitVal (digitChar (n mod base)) = n mod base"
    using assms mod_less_divisor [of base n] by (intro digit_char(1)) linarith
  show ?case
  proof (cases "n < base")
    case True
    then show ?thesis using d assms by (subst digitsOf.simps) (simp add: numVal_def Let_def)
  next
    case False
    with assms have "n div base < n" by (intro div_less_dividend) auto
    with less False d assms show ?thesis
      by (subst digitsOf.simps) (simp add: numVal_snoc Let_def)
  qed
qed

lemma digitsOf_hex: "2 \<le> base \<Longrightarrow> base \<le> 16 \<Longrightarrow> list_all isHex (digitsOf base n)"
proof (induction n rule: less_induct)
  case (less n)
  have d: "isHex (digitChar (n mod base))"
    using less.prems mod_less_divisor [of base n] by (intro digit_char(2)) linarith
  show ?case
  proof (cases "n < base")
    case True
    then show ?thesis using d less.prems by (subst digitsOf.simps) (simp add: Let_def)
  next
    case False
    with less.prems have "n div base < n" by (intro div_less_dividend) auto
    with less False d show ?thesis by (subst digitsOf.simps) (simp add: Let_def)
  qed
qed

lemma digitsOf_nonempty [simp]: "digitsOf base n \<noteq> []"
  by (subst digitsOf.simps) (simp add: Let_def)

lemma stoullHex_digitsOf: "stoullHex (digitsOf 16 (unat w)) = Inr w" for w :: u64
  using unsigned_less [of w] by (simp add: stoullHex_def numVal_digitsOf)

lemma getLines_unlines:
  "list_all (\<lambda>l. NEWLINE \<notin> set l) ls \<Longrightarrow> getLines (concat (map (\<lambda>l. l @ [NEWLINE]) ls)) = ls"
proof (induction ls)
  case (Cons l ls)
  have "NEWLINE \<notin> set l \<Longrightarrow> getLines (l @ NEWLINE # rest) = l # getLines rest" for rest
    by (induction l) auto
  with Cons show ?case by simp
qed simp

lemma hex_not_space: "isHex c \<Longrightarrow> \<not> isSpace c"
  by (auto simp: isHex_def isDigit_def isSpace_def)

end
