(* ===== verification/TraceRuntime.thy ===== *)
theory TraceRuntime
  imports TraceLoader TextScan
begin

unbundle bit_operations_syntax

text \<open>
  The trace runtime linked with instrumented programs (\<open>passes/runtime/schematic_trace_runtime.c\<close>): the
  six entry points as steps of a machine whose state are the global variables, and the writer of the JSON
  file. A buffer with a length is the list of its valid entries; a \<open>FuncState\<close> is reached by its index
  in the array of states. Allocation does not fail, counters stay below $2^{31}$, and the metadata
  pointers, which the collector pass emits, are not null.

  Shown: no sequence of events leads out of the arrays; for a run of nested loops and calls within the
  limits the recorded counts are the numbers of times each path was taken; what the writer prints is the
  text of a JSON document with exactly those counts; beyond the limit on calls, a return is charged to
  the wrong function.
\<close>

section \<open>Configuration and data\<close>

definition ITER_BUF_CAP :: nat where "ITER_BUF_CAP = 512"
definition MAX_LOOP_DEPTH :: nat where "MAX_LOOP_DEPTH = 8"
definition MAX_FUNCTIONS :: nat where "MAX_FUNCTIONS = 32"
definition MAX_LOOPS_PER_FUNC :: nat where "MAX_LOOPS_PER_FUNC = 256"
definition INIT_TRACE_CAP :: nat where "INIT_TRACE_CAP = 64"
definition MAX_CALL_DEPTH :: nat where "MAX_CALL_DEPTH = 16"

text \<open>The parallel arrays of a function and its loops; the counts are the lengths of the lists.\<close>

record FuncTraceMeta =
  tm_func_name :: string
  tm_bb_names :: "string list"
  loop_header_bb_idx :: "int list"
  loop_header_names :: "string list"
  loop_latch_names :: "string list"
  loop_depths :: "int list"
  loop_member_names :: "string list list"
  loop_exiting_names :: "string list list"

record UniqueTrace =
  ut_bbs :: "int list"
  ut_count :: nat

record TraceArray =
  ta_traces :: "UniqueTrace list"
  ta_cap :: nat

record LoopCtx =
  lc_loop_id :: nat
  lc_bbs :: "int list"

record LoopResult =
  lr_loop_id :: nat
  lr_traces :: TraceArray

record FuncState =
  fs_meta :: FuncTraceMeta
  func_trace :: "int list"
  loop_stack :: "LoopCtx list"
  func_traces :: TraceArray
  loop_results :: "LoopResult list"
  loop_results_overflow_reported :: bool

record trace_runtime =
  g_func_states :: "FuncState list"
  g_current :: "nat option"
  g_call_stack :: "nat list"
  g_atexit_registered :: bool

definition initialRuntime :: trace_runtime where
  "initialRuntime = \<lparr>g_func_states = [], g_current = None, g_call_stack = [], g_atexit_registered = False\<rparr>"

section \<open>Buffers and trace arrays\<close>

definition trace_array_init :: TraceArray where
  "trace_array_init = \<lparr>ta_traces = [], ta_cap = 0\<rparr>"

definition append_bb_to_active_context :: "FuncState \<Rightarrow> int \<Rightarrow> FuncState" where
  "append_bb_to_active_context fs bb_idx =
     (if loop_stack fs \<noteq> [] then
        (let lc = last (loop_stack fs)
         in if length (lc_bbs lc) < ITER_BUF_CAP
            then fs\<lparr>loop_stack := butlast (loop_stack fs) @ [lc\<lparr>lc_bbs := lc_bbs lc @ [bb_idx]\<rparr>]\<rparr>
            else fs)
      else if length (func_trace fs) < ITER_BUF_CAP then fs\<lparr>func_trace := func_trace fs @ [bb_idx]\<rparr>
      else fs)"

definition append_path_to_active_context :: "FuncState \<Rightarrow> int list \<Rightarrow> FuncState" where
  "append_path_to_active_context fs bbs = foldl append_bb_to_active_context fs bbs"

definition trace_array_grow :: "TraceArray \<Rightarrow> TraceArray" where
  "trace_array_grow ta = ta\<lparr>ta_cap := (if ta_cap ta = 0 then INIT_TRACE_CAP else ta_cap ta * 2)\<rparr>"

definition fnv1a_hash :: "int list \<Rightarrow> u32" where
  "fnv1a_hash bbs = foldl (\<lambda>h d. (h XOR word_of_int d) * 16777619) 2166136261 bbs"

text \<open>The search for a duplicate: \<open>None\<close> when there is none.\<close>

fun bumpDuplicate :: "u32 \<Rightarrow> int list \<Rightarrow> UniqueTrace list \<Rightarrow> UniqueTrace list option" where
  "bumpDuplicate h bbs [] = None"
| "bumpDuplicate h bbs (t # ts) =
     (if length (ut_bbs t) = length bbs \<and> fnv1a_hash (ut_bbs t) = h \<and> ut_bbs t = bbs
      then Some (t\<lparr>ut_count := Suc (ut_count t)\<rparr> # ts)
      else map_option (\<lambda>ts'. t # ts') (bumpDuplicate h bbs ts))"

definition save_trace :: "TraceArray \<Rightarrow> int list \<Rightarrow> TraceArray" where
  "save_trace ta bbs =
     (if bbs = [] then ta
      else case bumpDuplicate (fnv1a_hash bbs) bbs (ta_traces ta) of
             Some ts \<Rightarrow> ta\<lparr>ta_traces := ts\<rparr>
           | None \<Rightarrow>
               let ta1 = (if ta_cap ta \<le> length (ta_traces ta) then trace_array_grow ta else ta)
               in ta1\<lparr>ta_traces := ta_traces ta1 @ [\<lparr>ut_bbs = bbs, ut_count = 1\<rparr>]\<rparr>)"

definition get_loop_result :: "FuncState \<Rightarrow> nat \<Rightarrow> nat option \<times> FuncState" where
  "get_loop_result fs loop_id =
     (case find (\<lambda>i. lr_loop_id (loop_results fs ! i) = loop_id) [0..<length (loop_results fs)] of
        Some i \<Rightarrow> (Some i, fs)
      | None \<Rightarrow>
          if MAX_LOOPS_PER_FUNC \<le> length (loop_results fs) then (None, fs\<lparr>loop_results_overflow_reported := True\<rparr>)
          else (Some (length (loop_results fs)),
                fs\<lparr>loop_results := loop_results fs @ [\<lparr>lr_loop_id = loop_id, lr_traces = trace_array_init\<rparr>]\<rparr>))"

section \<open>Entry points\<close>

definition onCurrent :: "(FuncState \<Rightarrow> FuncState) \<Rightarrow> trace_runtime \<Rightarrow> trace_runtime" where
  "onCurrent f g =
     (case g_current g of
        None \<Rightarrow> g
      | Some i \<Rightarrow> g\<lparr>g_func_states := (g_func_states g)[i := f (g_func_states g ! i)]\<rparr>)"

definition freshState :: "FuncTraceMeta \<Rightarrow> FuncState" where
  "freshState meta =
     \<lparr>fs_meta = meta, func_trace = [], loop_stack = [], func_traces = trace_array_init, loop_results = [],
      loop_results_overflow_reported = False\<rparr>"

definition trace_func_enter :: "FuncTraceMeta \<Rightarrow> trace_runtime \<Rightarrow> trace_runtime" where
  "trace_func_enter meta g0 =
     (let g = g0\<lparr>g_atexit_registered := True\<rparr>
      in if MAX_FUNCTIONS \<le> length (g_func_states g) then g
         else
           let stack = (case g_current g of
                 Some c \<Rightarrow> if length (g_call_stack g) < MAX_CALL_DEPTH then g_call_stack g @ [c] else g_call_stack g
               | None \<Rightarrow> g_call_stack g)
           in g\<lparr>g_call_stack := stack, g_current := Some (length (g_func_states g)),
                g_func_states := g_func_states g @ [freshState meta]\<rparr>)"

definition trace_bb :: "int \<Rightarrow> trace_runtime \<Rightarrow> trace_runtime" where
  "trace_bb bb_idx g = onCurrent (\<lambda>fs. append_bb_to_active_context fs bb_idx) g"

definition enterLoop :: "nat \<Rightarrow> FuncState \<Rightarrow> FuncState" where
  "enterLoop loop_id fs =
     (if MAX_LOOP_DEPTH \<le> length (loop_stack fs) then fs
      else fs\<lparr>loop_stack := loop_stack fs @ [\<lparr>lc_loop_id = loop_id, lc_bbs = []\<rparr>]\<rparr>)"

definition trace_loop_enter :: "nat \<Rightarrow> trace_runtime \<Rightarrow> trace_runtime" where
  "trace_loop_enter loop_id g = onCurrent (enterLoop loop_id) g"

definition recordIteration :: "FuncState \<Rightarrow> nat \<times> int list \<Rightarrow> FuncState" where
  "recordIteration fs e =
     (case get_loop_result fs (fst e) of
        (None, fs1) \<Rightarrow> fs1
      | (Some i, fs1) \<Rightarrow>
          fs1\<lparr>loop_results := (loop_results fs1)[i := (loop_results fs1 ! i)
                \<lparr>lr_traces := save_trace (lr_traces (loop_results fs1 ! i)) (snd e)\<rparr>]\<rparr>)"

definition endIteration :: "nat \<Rightarrow> FuncState \<Rightarrow> FuncState" where
  "endIteration loop_id fs =
     (if loop_stack fs = [] then fs
      else
        let lc = last (loop_stack fs); fs1 = recordIteration fs (loop_id, lc_bbs lc)
        in fs1\<lparr>loop_stack := butlast (loop_stack fs1) @ [lc\<lparr>lc_bbs := []\<rparr>]\<rparr>)"

definition trace_loop_iter_end :: "nat \<Rightarrow> trace_runtime \<Rightarrow> trace_runtime" where
  "trace_loop_iter_end loop_id g = onCurrent (endIteration loop_id) g"

definition exitLoop :: "FuncState \<Rightarrow> FuncState" where
  "exitLoop fs =
     (if loop_stack fs = [] then fs
      else
        let old_ctx = last (loop_stack fs)
        in append_path_to_active_context (fs\<lparr>loop_stack := butlast (loop_stack fs)\<rparr>) (lc_bbs old_ctx))"

definition trace_loop_exit :: "nat \<Rightarrow> trace_runtime \<Rightarrow> trace_runtime" where
  "trace_loop_exit loop_id g = onCurrent exitLoop g"

definition closeFunction :: "FuncState \<Rightarrow> FuncState" where
  "closeFunction fs =
     fs\<lparr>func_traces := save_trace (func_traces fs) (func_trace fs), func_trace := [], loop_stack := []\<rparr>"

definition trace_func_exit :: "trace_runtime \<Rightarrow> trace_runtime" where
  "trace_func_exit g =
     (case g_current g of
        None \<Rightarrow> g
      | Some i \<Rightarrow>
          let g1 = onCurrent closeFunction g
          in if g_call_stack g1 \<noteq> [] then g1\<lparr>g_current := Some (last (g_call_stack g1)), g_call_stack := butlast (g_call_stack g1)\<rparr>
             else g1\<lparr>g_current := None\<rparr>)"

datatype trace_event = FuncEnter FuncTraceMeta | BBEvent int | LoopEnter nat int | LoopIterEnd nat | LoopExit nat | FuncExit

fun trace_step :: "trace_runtime \<Rightarrow> trace_event \<Rightarrow> trace_runtime" where
  "trace_step g (FuncEnter meta) = trace_func_enter meta g"
| "trace_step g (BBEvent b) = trace_bb b g"
| "trace_step g (LoopEnter l hdr) = trace_loop_enter l g"
| "trace_step g (LoopIterEnd l) = trace_loop_iter_end l g"
| "trace_step g (LoopExit l) = trace_loop_exit l g"
| "trace_step g FuncExit = trace_func_exit g"

definition trace_run :: "trace_runtime \<Rightarrow> trace_event list \<Rightarrow> trace_runtime" where
  "trace_run g es = foldl trace_step g es"

section \<open>No event leads out of the arrays\<close>

definition array_ok :: "TraceArray \<Rightarrow> bool" where
  "array_ok ta \<longleftrightarrow> length (ta_traces ta) \<le> ta_cap ta \<and> (\<forall>t \<in> set (ta_traces ta). 0 < ut_count t \<and> ut_bbs t \<noteq> [] \<and> length (ut_bbs t) \<le> ITER_BUF_CAP)
     \<and> distinct (map ut_bbs (ta_traces ta))"

definition state_ok :: "FuncState \<Rightarrow> bool" where
  "state_ok fs \<longleftrightarrow>
     length (func_trace fs) \<le> ITER_BUF_CAP \<and> length (loop_stack fs) \<le> MAX_LOOP_DEPTH
     \<and> (\<forall>lc \<in> set (loop_stack fs). length (lc_bbs lc) \<le> ITER_BUF_CAP)
     \<and> array_ok (func_traces fs) \<and> length (loop_results fs) \<le> MAX_LOOPS_PER_FUNC
     \<and> distinct (map lr_loop_id (loop_results fs)) \<and> (\<forall>r \<in> set (loop_results fs). array_ok (lr_traces r))"

definition runtime_ok :: "trace_runtime \<Rightarrow> bool" where
  "runtime_ok g \<longleftrightarrow>
     length (g_func_states g) \<le> MAX_FUNCTIONS \<and> length (g_call_stack g) \<le> MAX_CALL_DEPTH
     \<and> (\<forall>i \<in> set (g_call_stack g). i < length (g_func_states g))
     \<and> (\<forall>i. g_current g = Some i \<longrightarrow> i < length (g_func_states g))
     \<and> (\<forall>fs \<in> set (g_func_states g). state_ok fs)"

lemma bumpDuplicate_None: "bumpDuplicate (fnv1a_hash bbs) bbs ts = None \<longleftrightarrow> bbs \<notin> ut_bbs ` set ts"
  by (induction "fnv1a_hash bbs" bbs ts rule: bumpDuplicate.induct) auto

lemma bumpDuplicate_Some:
  assumes "bumpDuplicate (fnv1a_hash bbs) bbs ts = Some ts'"
  shows "map ut_bbs ts' = map ut_bbs ts"
    and "map_of (map (\<lambda>t. (ut_bbs t, ut_count t)) ts') =
      (map_of (map (\<lambda>t. (ut_bbs t, ut_count t)) ts))(bbs \<mapsto> Suc (the (map_of (map (\<lambda>t. (ut_bbs t, ut_count t)) ts) bbs)))"
    and "(\<forall>t \<in> set ts. 0 < ut_count t) \<longrightarrow> (\<forall>t \<in> set ts'. 0 < ut_count t)"
  using assms
proof (induction ts arbitrary: ts')
  case (Cons t ts)
  {
    case 1
    with Cons.IH(1) show ?case by (auto split: if_splits)
  next
    case 2
    with Cons.IH(2) show ?case by (auto simp: fun_eq_iff split: if_splits)
  next
    case 3
    with Cons.IH(3) show ?case by (auto split: if_splits)
  }
qed simp_all

lemma array_ok_save:
  assumes "array_ok ta" "length bbs \<le> ITER_BUF_CAP"
  shows "array_ok (save_trace ta bbs)"
proof (cases "bbs = []")
  case False
  show ?thesis
  proof (cases "bumpDuplicate (fnv1a_hash bbs) bbs (ta_traces ta)")
    case None
    with False assms bumpDuplicate_None [of bbs "ta_traces ta"] show ?thesis
      by (auto simp: save_trace_def array_ok_def trace_array_grow_def INIT_TRACE_CAP_def Let_def)
  next
    case (Some ts)
    note b = bumpDuplicate_Some [OF Some]
    have "length ts = length (ta_traces ta)" using b(1) by (metis length_map)
    moreover have "\<forall>t \<in> set ts. ut_bbs t \<noteq> [] \<and> length (ut_bbs t) \<le> ITER_BUF_CAP"
    proof
      fix t assume "t \<in> set ts"
      then have "ut_bbs t \<in> ut_bbs ` set (ta_traces ta)" using b(1) by (metis image_eqI image_set)
      with assms(1) show "ut_bbs t \<noteq> [] \<and> length (ut_bbs t) \<le> ITER_BUF_CAP" by (auto simp: array_ok_def)
    qed
    ultimately show ?thesis using Some False assms(1) b by (auto simp: save_trace_def array_ok_def)
  qed
qed (use assms in \<open>simp add: save_trace_def\<close>)

lemma array_ok_init [simp]: "array_ok trace_array_init"
  by (simp add: array_ok_def trace_array_init_def)

lemma state_ok_append: "state_ok fs \<Longrightarrow> state_ok (append_bb_to_active_context fs b)"
  by (cases "loop_stack fs" rule: rev_cases) (auto simp: state_ok_def append_bb_to_active_context_def Let_def)

lemma state_ok_append_path: "state_ok fs \<Longrightarrow> state_ok (append_path_to_active_context fs bbs)"
  unfolding append_path_to_active_context_def by (rule foldl_invariant) (auto intro: state_ok_append)

text \<open>The slot of a loop: it exists after the call unless the table is full, and it is the only one.\<close>

lemma get_loop_result_cases:
  obtains (found) i where "i < length (loop_results fs)" "lr_loop_id (loop_results fs ! i) = l" "get_loop_result fs l = (Some i, fs)"
  | (full) "l \<notin> lr_loop_id ` set (loop_results fs)" "MAX_LOOPS_PER_FUNC \<le> length (loop_results fs)"
      "get_loop_result fs l = (None, fs\<lparr>loop_results_overflow_reported := True\<rparr>)"
  | (new) "l \<notin> lr_loop_id ` set (loop_results fs)" "length (loop_results fs) < MAX_LOOPS_PER_FUNC"
      "get_loop_result fs l = (Some (length (loop_results fs)),
         fs\<lparr>loop_results := loop_results fs @ [\<lparr>lr_loop_id = l, lr_traces = trace_array_init\<rparr>]\<rparr>)"
proof (cases "find (\<lambda>i. lr_loop_id (loop_results fs ! i) = l) [0..<length (loop_results fs)]")
  case None
  then have "l \<notin> lr_loop_id ` set (loop_results fs)" by (auto simp: find_None_iff in_set_conv_nth)
  with None full new show thesis by (cases "MAX_LOOPS_PER_FUNC \<le> length (loop_results fs)") (auto simp: get_loop_result_def)
next
  case (Some i)
  then have "i < length (loop_results fs)" "lr_loop_id (loop_results fs ! i) = l" by (auto simp: find_Some_iff)
  with Some found show thesis by (simp add: get_loop_result_def)
qed

lemma recordIteration_found:
  "i < length (loop_results fs) \<Longrightarrow> get_loop_result fs l = (Some i, fs) \<Longrightarrow>
   recordIteration fs (l, bbs) = fs\<lparr>loop_results := (loop_results fs)[i := (loop_results fs ! i)
     \<lparr>lr_traces := save_trace (lr_traces (loop_results fs ! i)) bbs\<rparr>]\<rparr>"
  by (simp add: recordIteration_def)

lemma recordIteration_new:
  "get_loop_result fs l = (Some (length (loop_results fs)),
     fs\<lparr>loop_results := loop_results fs @ [\<lparr>lr_loop_id = l, lr_traces = trace_array_init\<rparr>]\<rparr>) \<Longrightarrow>
   recordIteration fs (l, bbs) = fs\<lparr>loop_results := loop_results fs @ [\<lparr>lr_loop_id = l, lr_traces = save_trace trace_array_init bbs\<rparr>]\<rparr>"
  by (simp add: recordIteration_def)

lemma recordIteration_frame [frame_simps]:
  "loop_stack (recordIteration fs e) = loop_stack fs" "func_trace (recordIteration fs e) = func_trace fs"
  "func_traces (recordIteration fs e) = func_traces fs" "fs_meta (recordIteration fs e) = fs_meta fs"
  by (cases e; rule get_loop_result_cases [of fs "fst e"]; simp add: recordIteration_def)+

lemma state_ok_record:
  assumes "state_ok fs" "length bbs \<le> ITER_BUF_CAP"
  shows "state_ok (recordIteration fs (l, bbs))"
proof (cases rule: get_loop_result_cases [of fs l])
  case (found i)
  let ?r = "loop_results fs ! i"
  have "?r \<in> set (loop_results fs)" using found(1) by simp
  then have "array_ok (lr_traces ?r)" using assms(1) by (auto simp: state_ok_def)
  then have a: "array_ok (save_trace (lr_traces ?r) bbs)" by (rule array_ok_save [OF _ assms(2)])
  have ids: "map lr_loop_id ((loop_results fs)[i := ?r\<lparr>lr_traces := t\<rparr>]) = map lr_loop_id (loop_results fs)" for t
    using found(1) by (simp add: map_update list_update_same_conv)
  have "\<forall>r \<in> set ((loop_results fs)[i := ?r\<lparr>lr_traces := save_trace (lr_traces ?r) bbs\<rparr>]). array_ok (lr_traces r)"
    using set_update_subset_insert [of "loop_results fs" i] a assms(1) unfolding state_ok_def by fastforce
  with assms(1) ids show ?thesis
    unfolding recordIteration_found [OF found(1,3)] by (simp add: state_ok_def)
next
  case full
  with assms(1) show ?thesis by (simp add: recordIteration_def state_ok_def)
next
  case new
  have "array_ok (save_trace trace_array_init bbs)" by (rule array_ok_save [OF array_ok_init assms(2)])
  with new assms(1) show ?thesis unfolding recordIteration_new [OF new(3)] by (auto simp: state_ok_def)
qed

lemma runtime_ok_onCurrent:
  assumes "runtime_ok g" "\<And>fs. state_ok fs \<Longrightarrow> state_ok (f fs)"
  shows "runtime_ok (onCurrent f g)"
proof (cases "g_current g")
  case None
  with assms(1) show ?thesis by (simp add: onCurrent_def)
next
  case (Some i)
  have "i < length (g_func_states g)" using assms(1) Some by (simp add: runtime_ok_def)
  then have "state_ok (f (g_func_states g ! i))" using assms by (simp add: runtime_ok_def)
  then have "\<forall>fs \<in> set ((g_func_states g)[i := f (g_func_states g ! i)]). state_ok fs"
    using assms(1) set_update_subset_insert [of "g_func_states g" i] unfolding runtime_ok_def by blast
  with assms(1) Some show ?thesis by (simp add: onCurrent_def runtime_ok_def)
qed

lemma state_ok_fresh [simp]: "state_ok (freshState meta)"
  by (simp add: freshState_def state_ok_def)

lemma trace_step_ok: "runtime_ok g \<Longrightarrow> runtime_ok (trace_step g e)"
proof (cases e)
  case (FuncEnter meta)
  assume "runtime_ok g"
  with FuncEnter show ?thesis
    by (auto simp: trace_func_enter_def Let_def runtime_ok_def less_Suc_eq split: option.splits)
next
  case (BBEvent b)
  assume "runtime_ok g"
  with BBEvent show ?thesis by (simp add: trace_bb_def runtime_ok_onCurrent state_ok_append)
next
  case (LoopEnter l h)
  assume "runtime_ok g"
  with LoopEnter show ?thesis
    by (auto simp: trace_loop_enter_def enterLoop_def state_ok_def intro!: runtime_ok_onCurrent)
next
  case (LoopIterEnd l)
  assume g: "runtime_ok g"
  have "state_ok (endIteration l fs)" if ok: "state_ok fs" for fs
  proof (cases "loop_stack fs = []")
    case False
    then have "length (lc_bbs (last (loop_stack fs))) \<le> ITER_BUF_CAP" using ok by (simp add: state_ok_def)
    from state_ok_record [OF ok this, of l] False show ?thesis
      by (auto simp: endIteration_def state_ok_def Let_def frame_simps dest: in_set_butlastD)
  qed (use ok in \<open>simp add: endIteration_def\<close>)
  with g LoopIterEnd show ?thesis by (simp add: trace_loop_iter_end_def runtime_ok_onCurrent)
next
  case (LoopExit l)
  assume g: "runtime_ok g"
  have "state_ok (fs\<lparr>loop_stack := butlast (loop_stack fs)\<rparr>)" if "state_ok fs" for fs
    using that by (auto simp: state_ok_def dest: in_set_butlastD)
  with g LoopExit show ?thesis
    by (simp add: trace_loop_exit_def exitLoop_def Let_def runtime_ok_onCurrent state_ok_append_path)
next
  case FuncExit
  assume g: "runtime_ok g"
  have "runtime_ok (onCurrent closeFunction g)"
    by (rule runtime_ok_onCurrent [OF g]) (auto simp: closeFunction_def state_ok_def array_ok_save)
  with FuncExit g show ?thesis
    by (cases "g_current g") (auto simp: trace_func_exit_def Let_def runtime_ok_def dest: in_set_butlastD)
qed

lemma trace_run_ok: "runtime_ok g \<Longrightarrow> runtime_ok (trace_run g es)"
  unfolding trace_run_def by (rule foldl_invariant) (auto intro: trace_step_ok)

lemma runtime_ok_initial: "runtime_ok initialRuntime"
  by (simp add: runtime_ok_def initialRuntime_def)

text \<open>(C21) Whatever calls the instrumented program makes, in whatever order, the runtime stays inside its
  arrays: at most 32 function states, 16 saved callers and 8 open loops with at most 512 blocks each, the
  current function and the saved callers are existing states, and a table of paths holds every path
  once, with a positive count and no more entries than were allocated.\<close>

theorem runtime_stays_in_bounds:
  "runtime_ok (trace_run initialRuntime es)"
  by (rule trace_run_ok [OF runtime_ok_initial])

section \<open>Runs of instrumented programs\<close>

text \<open>What an instrumented function does between its entry and its return: it passes blocks, runs loops and
  calls functions. A run of a loop has complete iterations and then the part from the header to the exit.\<close>

datatype run_item = RunBlock int | LoopRun nat int "run_item list list" "run_item list" | CallRun FuncTraceMeta "run_item list"

fun itemEvents :: "run_item \<Rightarrow> trace_event list" where
  "itemEvents (RunBlock b) = [BBEvent b]"
| "itemEvents (LoopRun l h iters rest) =
     LoopEnter l h # concat (map (\<lambda>it. concat (map itemEvents it) @ [LoopIterEnd l]) iters)
       @ concat (map itemEvents rest) @ [LoopExit l]"
| "itemEvents (CallRun m body) = FuncEnter m # concat (map itemEvents body) @ [FuncExit]"

text \<open>The path a run takes at its own level, with a loop standing for the part before its exit.\<close>

fun itemPath :: "run_item \<Rightarrow> int list" where
  "itemPath (RunBlock b) = [b]"
| "itemPath (LoopRun l h iters rest) = concat (map itemPath rest)"
| "itemPath (CallRun m body) = []"

definition runPath :: "run_item list \<Rightarrow> int list" where
  "runPath items = concat (map itemPath items)"

text \<open>The complete iterations, in the order in which they end, each with its loop and its path.\<close>

fun itemIters :: "run_item \<Rightarrow> (nat \<times> int list) list" where
  "itemIters (RunBlock b) = []"
| "itemIters (LoopRun l h iters rest) =
     concat (map (\<lambda>it. concat (map itemIters it) @ [(l, runPath it)]) iters) @ concat (map itemIters rest)"
| "itemIters (CallRun m body) = []"

definition runIters :: "run_item list \<Rightarrow> (nat \<times> int list) list" where
  "runIters items = concat (map itemIters items)"

text \<open>The state a call leaves behind, and the states of all calls in a run in the order they are entered.\<close>

definition callState :: "FuncTraceMeta \<Rightarrow> run_item list \<Rightarrow> FuncState" where
  "callState m body =
     (foldl recordIteration (freshState m) (runIters body))\<lparr>func_traces := save_trace trace_array_init (runPath body)\<rparr>"

fun callStates :: "run_item \<Rightarrow> FuncState list" where
  "callStates (RunBlock b) = []"
| "callStates (LoopRun l h iters rest) =
     concat (map (\<lambda>it. concat (map callStates it)) iters) @ concat (map callStates rest)"
| "callStates (CallRun m body) = callState m body # concat (map callStates body)"

text \<open>A run within the limits, given how many more calls and loops can be open.\<close>

fun fitsLimits :: "nat \<Rightarrow> nat \<Rightarrow> run_item \<Rightarrow> bool" where
  "fitsLimits c d (RunBlock b) = True"
| "fitsLimits c d (LoopRun l h iters rest) =
     (0 < d \<and> (\<forall>it \<in> set iters. length (runPath it) \<le> ITER_BUF_CAP \<and> (\<forall>x \<in> set it. fitsLimits c (d - 1) x))
      \<and> length (runPath rest) \<le> ITER_BUF_CAP \<and> (\<forall>x \<in> set rest. fitsLimits c (d - 1) x))"
| "fitsLimits c d (CallRun m body) =
     (0 < c \<and> length (runPath body) \<le> ITER_BUF_CAP \<and> (\<forall>x \<in> set body. fitsLimits (c - 1) MAX_LOOP_DEPTH x))"

lemma trace_run_append: "trace_run g (es @ es') = trace_run (trace_run g es) es'"
  by (simp add: trace_run_def)

lemma trace_run_simps [simp]: "trace_run g [] = g" "trace_run g (e # es) = trace_run (trace_step g e) es"
  by (simp_all add: trace_run_def)

subsection \<open>The effect on one state\<close>

definition ctxPath :: "FuncState \<Rightarrow> int list" where
  "ctxPath fs = (if loop_stack fs = [] then func_trace fs else lc_bbs (last (loop_stack fs)))"

definition extendCtx :: "int list \<Rightarrow> FuncState \<Rightarrow> FuncState" where
  "extendCtx p fs =
     (if loop_stack fs = [] then fs\<lparr>func_trace := func_trace fs @ p\<rparr>
      else fs\<lparr>loop_stack := butlast (loop_stack fs) @ [(last (loop_stack fs))\<lparr>lc_bbs := lc_bbs (last (loop_stack fs)) @ p\<rparr>]\<rparr>)"

lemma extendCtx_Nil [simp]: "extendCtx [] fs = fs"
  by (cases "loop_stack fs" rule: rev_cases) (simp_all add: extendCtx_def)

lemma extendCtx_append: "extendCtx (p @ q) fs = extendCtx q (extendCtx p fs)"
  by (cases "loop_stack fs" rule: rev_cases) (simp_all add: extendCtx_def)

lemma ctxPath_extend [simp]: "ctxPath (extendCtx p fs) = ctxPath fs @ p"
  by (cases "loop_stack fs" rule: rev_cases) (simp_all add: extendCtx_def ctxPath_def)

lemma length_stack_extend [simp]: "length (loop_stack (extendCtx p fs)) = length (loop_stack fs)"
  by (cases "loop_stack fs" rule: rev_cases) (simp_all add: extendCtx_def)

lemma append_bb_extends:
  "length (ctxPath fs) < ITER_BUF_CAP \<Longrightarrow> append_bb_to_active_context fs b = extendCtx [b] fs"
  by (cases "loop_stack fs = []") (simp_all add: append_bb_to_active_context_def ctxPath_def extendCtx_def Let_def)

lemma append_path_extends:
  "length (ctxPath fs) + length p \<le> ITER_BUF_CAP \<Longrightarrow> append_path_to_active_context fs p = extendCtx p fs"
proof (induction p arbitrary: fs)
  case (Cons b p)
  have "append_path_to_active_context fs (b # p) = append_path_to_active_context (extendCtx [b] fs) p"
    using Cons.prems by (simp add: append_path_to_active_context_def append_bb_extends)
  also have "\<dots> = extendCtx p (extendCtx [b] fs)" by (rule Cons.IH) (use Cons.prems in simp)
  also have "\<dots> = extendCtx (b # p) fs" using extendCtx_append [of "[b]" p fs] by simp
  finally show ?case .
qed (simp add: append_path_to_active_context_def)

text \<open>Recording an iteration works on the table of results only.\<close>

lemma get_loop_result_ctx:
  "get_loop_result (fs\<lparr>loop_stack := st\<rparr>) l = map_prod id (\<lambda>f. f\<lparr>loop_stack := st\<rparr>) (get_loop_result fs l)"
  "get_loop_result (fs\<lparr>func_trace := ft\<rparr>) l = map_prod id (\<lambda>f. f\<lparr>func_trace := ft\<rparr>) (get_loop_result fs l)"
  by (auto simp: get_loop_result_def split: option.splits)

lemma recordIteration_ctx:
  "recordIteration (fs\<lparr>loop_stack := st\<rparr>) e = (recordIteration fs e)\<lparr>loop_stack := st\<rparr>"
  "recordIteration (fs\<lparr>func_trace := ft\<rparr>) e = (recordIteration fs e)\<lparr>func_trace := ft\<rparr>"
  by (simp_all add: recordIteration_def get_loop_result_ctx split: prod.splits option.splits)

lemma recordIterations_frame [frame_simps]:
  "loop_stack (foldl recordIteration fs es) = loop_stack fs" "func_trace (foldl recordIteration fs es) = func_trace fs"
  "func_traces (foldl recordIteration fs es) = func_traces fs" "fs_meta (foldl recordIteration fs es) = fs_meta fs"
  by (induction es arbitrary: fs) (simp_all add: frame_simps)

lemma recordIterations_ctx:
  "foldl recordIteration (fs\<lparr>loop_stack := st\<rparr>) es = (foldl recordIteration fs es)\<lparr>loop_stack := st\<rparr>"
  "foldl recordIteration (fs\<lparr>func_trace := ft\<rparr>) es = (foldl recordIteration fs es)\<lparr>func_trace := ft\<rparr>"
  by (induction es arbitrary: fs) (simp_all add: recordIteration_ctx)

lemma recordIterations_extend:
  "foldl recordIteration (extendCtx p fs) es = extendCtx p (foldl recordIteration fs es)"
  by (simp add: extendCtx_def recordIterations_ctx frame_simps)

lemma ctxPath_record [simp]: "ctxPath (foldl recordIteration fs es) = ctxPath fs"
  by (simp add: ctxPath_def frame_simps)

definition runEffect :: "run_item list \<Rightarrow> FuncState \<Rightarrow> FuncState" where
  "runEffect items fs = extendCtx (runPath items) (foldl recordIteration fs (runIters items))"

lemma runEffect_append: "runEffect (xs @ ys) fs = runEffect ys (runEffect xs fs)"
  by (simp add: runEffect_def runPath_def runIters_def recordIterations_extend extendCtx_append)

lemma runEffect_Nil [simp]: "runEffect [] fs = fs"
  by (simp add: runEffect_def runPath_def runIters_def)

lemma runEffect_frame [simp]:
  "length (loop_stack (runEffect xs fs)) = length (loop_stack fs)" "ctxPath (runEffect xs fs) = ctxPath fs @ runPath xs"
  by (simp_all add: runEffect_def frame_simps)

lemma enterLoop_ctx:
  assumes "length (loop_stack fs) < MAX_LOOP_DEPTH"
  shows "enterLoop l fs = fs\<lparr>loop_stack := loop_stack fs @ [\<lparr>lc_loop_id = l, lc_bbs = []\<rparr>]\<rparr>"
    and "ctxPath (enterLoop l fs) = []" "length (loop_stack (enterLoop l fs)) = Suc (length (loop_stack fs))"
  using assms by (simp_all add: enterLoop_def ctxPath_def)

lemma endIteration_effect:
  assumes "loop_stack fs \<noteq> []" "ctxPath fs = []"
  shows "endIteration l (extendCtx p fs) = recordIteration fs (l, p)"
proof -
  let ?st = "butlast (loop_stack fs) @ [(last (loop_stack fs))\<lparr>lc_bbs := p\<rparr>]"
  have e: "extendCtx p fs = fs\<lparr>loop_stack := ?st\<rparr>" using assms by (simp add: extendCtx_def ctxPath_def)
  have "(last (loop_stack fs))\<lparr>lc_bbs := []\<rparr> = last (loop_stack fs)"
    using assms by (simp add: ctxPath_def)
  then have "butlast (loop_stack fs) @ [(last (loop_stack fs))\<lparr>lc_bbs := []\<rparr>] = loop_stack fs"
    using assms(1) by simp
  then have "endIteration l (fs\<lparr>loop_stack := ?st\<rparr>) = (recordIteration fs (l, p))\<lparr>loop_stack := loop_stack fs\<rparr>"
    by (simp add: endIteration_def Let_def recordIteration_ctx)
  also have "\<dots> = recordIteration fs (l, p)"
    by (metis (no_types, lifting) FuncState.surjective FuncState.update_convs(3) recordIteration_frame(1))
  finally show ?thesis by (simp add: e)
qed

lemma exitLoop_effect:
  assumes "length (loop_stack fs) < MAX_LOOP_DEPTH" "length (ctxPath fs) + length p \<le> ITER_BUF_CAP"
  shows "exitLoop (extendCtx p (foldl recordIteration (enterLoop l fs) es)) = extendCtx p (foldl recordIteration fs es)"
proof -
  let ?r = "foldl recordIteration fs es"
  have "extendCtx p (foldl recordIteration (enterLoop l fs) es) = ?r\<lparr>loop_stack := loop_stack fs @ [\<lparr>lc_loop_id = l, lc_bbs = p\<rparr>]\<rparr>"
    using assms(1) by (simp add: enterLoop_ctx recordIterations_ctx extendCtx_def frame_simps)
  moreover have "?r\<lparr>loop_stack := loop_stack fs\<rparr> = ?r"
    by (metis (no_types, lifting) FuncState.surjective FuncState.update_convs(3) recordIterations_frame(1))
  ultimately show ?thesis using assms(2) by (simp add: exitLoop_def append_path_extends)
qed

subsection \<open>The effect on the whole runtime\<close>

definition putState :: "nat \<Rightarrow> FuncState \<Rightarrow> FuncState list \<Rightarrow> trace_runtime \<Rightarrow> trace_runtime" where
  "putState i fs cs g = g\<lparr>g_func_states := (g_func_states g)[i := fs] @ cs\<rparr>"

text \<open>Function \<open>i\<close> is running and there is room for \<open>c\<close> more open calls, \<open>d\<close> more open loops, \<open>n\<close> more blocks
  on the current path and \<open>k\<close> more calls.\<close>

definition has_room :: "trace_runtime \<Rightarrow> nat \<Rightarrow> nat \<Rightarrow> nat \<Rightarrow> nat \<Rightarrow> nat \<Rightarrow> bool" where
  "has_room g i c d n k \<longleftrightarrow>
     g_atexit_registered g \<and> g_current g = Some i \<and> i < length (g_func_states g)
     \<and> length (g_call_stack g) + c \<le> MAX_CALL_DEPTH \<and> length (loop_stack (g_func_states g ! i)) + d \<le> MAX_LOOP_DEPTH
     \<and> length (ctxPath (g_func_states g ! i)) + n \<le> ITER_BUF_CAP \<and> length (g_func_states g) + k \<le> MAX_FUNCTIONS"

lemma putState_id: "i < length (g_func_states g) \<Longrightarrow> putState i (g_func_states g ! i) [] g = g"
  by (simp add: putState_def)

lemma putState_putState:
  "i < length (g_func_states g) \<Longrightarrow> putState i b ds (putState i a cs g) = putState i b (cs @ ds) g"
  by (simp add: putState_def list_update_append)

lemma state_putState [simp]: "i < length (g_func_states g) \<Longrightarrow> g_func_states (putState i a cs g) ! i = a"
  by (simp add: putState_def nth_append)

lemma putState_frame [simp]:
  "g_current (putState i a cs g) = g_current g" "g_call_stack (putState i a cs g) = g_call_stack g"
  "g_atexit_registered (putState i a cs g) = g_atexit_registered g"
  "length (g_func_states (putState i a cs g)) = length (g_func_states g) + length cs"
  by (simp_all add: putState_def)

lemma onCurrent_putState:
  "g_current g = Some i \<Longrightarrow> i < length (g_func_states g) \<Longrightarrow> onCurrent f (putState i a cs g) = putState i (f a) cs g"
  by (simp add: onCurrent_def putState_def list_update_append nth_append)

lemma onCurrent_room: "has_room g i c d n k \<Longrightarrow> onCurrent f g = putState i (f (g_func_states g ! i)) [] g"
  by (simp add: has_room_def onCurrent_def putState_def)

lemma has_room_put:
  assumes "has_room g i c d n k" "length (loop_stack a) + d' \<le> MAX_LOOP_DEPTH" "length (ctxPath a) + n' \<le> ITER_BUF_CAP"
    and "length cs + k' \<le> k"
  shows "has_room (putState i a cs g) i c d' n' k'"
  using assms by (simp add: has_room_def)

definition item_runs :: "run_item \<Rightarrow> bool" where
  "item_runs x \<longleftrightarrow>
     (\<forall>g i c d. fitsLimits c d x \<longrightarrow> has_room g i c d (length (itemPath x)) (length (callStates x)) \<longrightarrow>
        trace_run g (itemEvents x) = putState i (runEffect [x] (g_func_states g ! i)) (callStates x) g)"

lemma item_runsD:
  "item_runs x \<Longrightarrow> fitsLimits c d x \<Longrightarrow> has_room g i c d (length (itemPath x)) (length (callStates x)) \<Longrightarrow>
   trace_run g (itemEvents x) = putState i (runEffect [x] (g_func_states g ! i)) (callStates x) g"
  unfolding item_runs_def by blast

lemma runPath_Cons: "runPath (x # xs) = itemPath x @ runPath xs"
  by (simp add: runPath_def)

lemma items_run:
  assumes "\<forall>x \<in> set xs. item_runs x \<and> fitsLimits c d x"
    and "has_room g i c d (length (runPath xs)) (length (concat (map callStates xs)))"
  shows "trace_run g (concat (map itemEvents xs)) = putState i (runEffect xs (g_func_states g ! i)) (concat (map callStates xs)) g"
  using assms
proof (induction xs arbitrary: g)
  case Nil
  then show ?case by (simp add: has_room_def putState_id)
next
  case (Cons x xs)
  let ?fs = "g_func_states g ! i"
  let ?g = "putState i (runEffect [x] ?fs) (callStates x) g"
  have i: "i < length (g_func_states g)" using Cons.prems(2) by (simp add: has_room_def)
  have "has_room g i c d (length (itemPath x)) (length (callStates x))"
    using Cons.prems(2) by (simp add: has_room_def runPath_Cons)
  with Cons.prems(1) have one: "trace_run g (itemEvents x) = ?g" by (intro item_runsD) auto
  have "has_room ?g i c d (length (runPath xs)) (length (concat (map callStates xs)))"
    using Cons.prems(2) by (intro has_room_put [OF Cons.prems(2)]) (auto simp: has_room_def runPath_def)
  from Cons.IH [OF _ this] Cons.prems(1)
  have "trace_run ?g (concat (map itemEvents xs)) =
      putState i (runEffect xs (runEffect [x] ?fs)) (callStates x @ concat (map callStates xs)) g"
    using i by (simp add: putState_putState)
  with one show ?case using runEffect_append [of "[x]" xs ?fs] by (simp add: trace_run_append)
qed

lemma iterations_run:
  assumes room: "has_room g i c (Suc d) n k" and fs: "fs = g_func_states g ! i"
    and "\<forall>it \<in> set iters. length (runPath it) \<le> ITER_BUF_CAP \<and> (\<forall>x \<in> set it. item_runs x \<and> fitsLimits c d x)"
    and "length (concat (map (\<lambda>it. concat (map callStates it)) iters)) \<le> k"
  shows "trace_run (putState i (enterLoop l fs) [] g) (concat (map (\<lambda>it. concat (map itemEvents it) @ [LoopIterEnd l]) iters)) =
    putState i (foldl recordIteration (enterLoop l fs) (concat (map (\<lambda>it. runIters it @ [(l, runPath it)]) iters)))
      (concat (map (\<lambda>it. concat (map callStates it)) iters)) g"
  using assms(3,4)
proof (induction iters rule: rev_induct)
  case (snoc it iters)
  let ?es = "concat (map (\<lambda>it. runIters it @ [(l, runPath it)]) iters)"
  let ?cs = "concat (map (\<lambda>it. concat (map callStates it)) iters)" and ?new = "concat (map callStates it)"
  let ?f = "foldl recordIteration (enterLoop l fs) ?es"
  let ?g = "putState i ?f ?cs g"
  have i: "i < length (g_func_states g)" "g_current g = Some i" "length (loop_stack fs) < MAX_LOOP_DEPTH"
    using room fs by (auto simp: has_room_def)
  note e = enterLoop_ctx [OF i(3), of l]
  have ctx: "ctxPath ?f = []" "length (loop_stack ?f) = Suc (length (loop_stack fs))" using e by (simp_all add: frame_simps)
  have "has_room ?g i c d (length (runPath it)) (length ?new)"
    by (rule has_room_put [OF room]) (use snoc.prems room fs ctx in \<open>simp_all add: has_room_def\<close>)
  from items_run [OF _ this] snoc.prems(1) i
  have run: "trace_run ?g (concat (map itemEvents it)) = putState i (runEffect it ?f) (?cs @ ?new) g"
    by (simp add: putState_putState)
  have "runEffect it ?f = extendCtx (runPath it) (foldl recordIteration ?f (runIters it))" by (simp add: runEffect_def)
  moreover have "endIteration l \<dots> = recordIteration (foldl recordIteration ?f (runIters it)) (l, runPath it)"
    by (rule endIteration_effect) (use ctx in \<open>auto simp: frame_simps\<close>)
  ultimately have "trace_step (putState i (runEffect it ?f) (?cs @ ?new) g) (LoopIterEnd l) =
      putState i (foldl recordIteration ?f (runIters it @ [(l, runPath it)])) (?cs @ ?new) g"
    by (simp add: trace_loop_iter_end_def onCurrent_putState [OF i(2,1)])
  with run snoc show ?case by (simp add: trace_run_append)
qed simp

lemma itemIters_LoopRun:
  "runIters [LoopRun l h iters rest] = concat (map (\<lambda>it. runIters it @ [(l, runPath it)]) iters) @ runIters rest"
  by (simp add: runIters_def)

lemma loop_item_runs:
  assumes "\<And>it x. it \<in> set iters \<Longrightarrow> x \<in> set it \<Longrightarrow> item_runs x" "\<And>x. x \<in> set rest \<Longrightarrow> item_runs x"
  shows "item_runs (LoopRun l h iters rest)"
  unfolding item_runs_def
proof (intro allI impI)
  fix g i c d
  assume fit: "fitsLimits c d (LoopRun l h iters rest)"
    and room: "has_room g i c d (length (itemPath (LoopRun l h iters rest))) (length (callStates (LoopRun l h iters rest)))"
  obtain d' where d: "d = Suc d'" using fit by (cases d) auto
  let ?cs = "concat (map (\<lambda>it. concat (map callStates it)) iters)" and ?new = "concat (map callStates rest)"
  let ?es = "concat (map (\<lambda>it. runIters it @ [(l, runPath it)]) iters)"
  define fs where "fs = g_func_states g ! i"
  let ?f = "foldl recordIteration (enterLoop l fs) ?es"
  have i: "i < length (g_func_states g)" "g_current g = Some i" "length (loop_stack fs) < MAX_LOOP_DEPTH"
    using room d by (auto simp: has_room_def fs_def)
  note e = enterLoop_ctx [OF i(3), of l]
  have start: "trace_step g (LoopEnter l h) = putState i (enterLoop l fs) [] g"
    using onCurrent_room [OF room] by (simp add: trace_loop_enter_def fs_def)
  have iters: "trace_run (putState i (enterLoop l fs) [] g) (concat (map (\<lambda>it. concat (map itemEvents it) @ [LoopIterEnd l]) iters)) =
      putState i ?f ?cs g"
    by (rule iterations_run [OF room [unfolded d] fs_def]) (use fit assms(1) d in auto)
  have "has_room (putState i ?f ?cs g) i c d' (length (runPath rest)) (length ?new)"
    by (rule has_room_put [OF room]) (use fit room d e in \<open>simp_all add: has_room_def frame_simps fs_def\<close>)
  from items_run [OF _ this] fit d assms(2) i
  have rest: "trace_run (putState i ?f ?cs g) (concat (map itemEvents rest)) = putState i (runEffect rest ?f) (?cs @ ?new) g"
    by (simp add: putState_putState)
  have "length (ctxPath fs) + length (runPath rest) \<le> ITER_BUF_CAP"
    using room by (simp add: has_room_def fs_def runPath_def)
  from exitLoop_effect [OF i(3) this, of l "?es @ runIters rest"]
  have "exitLoop (runEffect rest ?f) = runEffect [LoopRun l h iters rest] fs"
    by (simp add: runEffect_def itemIters_LoopRun) (simp add: runPath_def)
  with start iters rest i show "trace_run g (itemEvents (LoopRun l h iters rest)) =
      putState i (runEffect [LoopRun l h iters rest] (g_func_states g ! i)) (callStates (LoopRun l h iters rest)) g"
    by (simp add: trace_run_append trace_loop_exit_def onCurrent_putState fs_def)
qed

lemma closeFunction_callState: "closeFunction (runEffect body (freshState m)) = callState m body"
proof -
  have "runEffect body (freshState m) = (foldl recordIteration (freshState m) (runIters body))\<lparr>func_trace := runPath body\<rparr>"
    by (simp add: runEffect_def extendCtx_def frame_simps freshState_def)
  then show ?thesis
    by (intro FuncState.equality) (simp_all add: closeFunction_def callState_def frame_simps, simp_all add: freshState_def)
qed

text \<open>A call from a state with room for it, whether or not a function is running.\<close>

lemma call_runs:
  assumes ok: "g_atexit_registered g'" and g': "g' = g\<lparr>g_atexit_registered := True\<rparr>"
    and body: "\<forall>x \<in> set body. item_runs x \<and> fitsLimits c MAX_LOOP_DEPTH x" "length (runPath body) \<le> ITER_BUF_CAP"
    and room: "length (g_func_states g) + Suc (length (concat (map callStates body))) \<le> MAX_FUNCTIONS"
    and stack: "case g_current g of None \<Rightarrow> g_call_stack g = [] \<and> c \<le> MAX_CALL_DEPTH
        | Some i \<Rightarrow> length (g_call_stack g) + Suc c \<le> MAX_CALL_DEPTH"
  shows "trace_run g (itemEvents (CallRun m body)) = g'\<lparr>g_func_states := g_func_states g @ callStates (CallRun m body)\<rparr>"
proof -
  let ?n = "length (g_func_states g)" and ?cs = "concat (map callStates body)"
  let ?st = "g_call_stack g @ (case g_current g of None \<Rightarrow> [] | Some i \<Rightarrow> [i])"
  let ?g = "g'\<lparr>g_call_stack := ?st, g_current := Some ?n, g_func_states := g_func_states g @ [freshState m]\<rparr>"
  have enter: "trace_step g (FuncEnter m) = ?g"
    using room stack by (auto simp: trace_func_enter_def g' Let_def split: option.splits)
  have "has_room ?g ?n c MAX_LOOP_DEPTH (length (runPath body)) (length ?cs)"
    using room stack body(2) by (auto simp: has_room_def g' ctxPath_def freshState_def split: option.splits)
  from items_run [OF body(1) this]
  have run: "trace_run ?g (concat (map itemEvents body)) =
      ?g\<lparr>g_func_states := g_func_states g @ runEffect body (freshState m) # ?cs\<rparr>"
    by (simp add: putState_def)
  have "trace_step (?g\<lparr>g_func_states := g_func_states g @ runEffect body (freshState m) # ?cs\<rparr>) FuncExit =
      g'\<lparr>g_func_states := g_func_states g @ callState m body # ?cs\<rparr>"
    using stack by (simp add: trace_func_exit_def onCurrent_def g' Let_def nth_append closeFunction_callState split: option.splits)
  with enter run show ?thesis by (simp add: trace_run_append)
qed

lemma all_items_run: "item_runs x"
proof (induction x)
  case (RunBlock b)
  show ?case
    unfolding item_runs_def
  proof (intro allI impI)
    fix g i c d
    assume room: "has_room g i c d (length (itemPath (RunBlock b))) (length (callStates (RunBlock b)))"
    then have "length (ctxPath (g_func_states g ! i)) < ITER_BUF_CAP" by (simp add: has_room_def)
    with onCurrent_room [OF room] show "trace_run g (itemEvents (RunBlock b)) =
        putState i (runEffect [RunBlock b] (g_func_states g ! i)) (callStates (RunBlock b)) g"
      by (simp add: trace_bb_def append_bb_extends runEffect_def runPath_def runIters_def)
  qed
next
  case (LoopRun l h iters rest)
  then show ?case by (intro loop_item_runs) auto
next
  case (CallRun m body)
  show ?case
    unfolding item_runs_def
  proof (intro allI impI)
    fix g i c d
    assume fit: "fitsLimits c d (CallRun m body)"
      and room: "has_room g i c d (length (itemPath (CallRun m body))) (length (callStates (CallRun m body)))"
    then have reg: "g = g\<lparr>g_atexit_registered := True\<rparr>" by (simp add: has_room_def)
    have "trace_run g (itemEvents (CallRun m body)) = g\<lparr>g_func_states := g_func_states g @ callStates (CallRun m body)\<rparr>"
      by (rule call_runs [OF _ reg, where c = "c - 1"]) (use fit room CallRun in \<open>auto simp: has_room_def\<close>)
    moreover have "runEffect [CallRun m body] fs = fs" for fs by (simp add: runEffect_def runPath_def runIters_def)
    ultimately show "trace_run g (itemEvents (CallRun m body)) =
        putState i (runEffect [CallRun m body] (g_func_states g ! i)) (callStates (CallRun m body)) g"
      by (simp add: putState_def)
  qed
qed

subsection \<open>Counts\<close>

definition pathCount :: "TraceArray \<Rightarrow> int list \<Rightarrow> nat" where
  "pathCount ta p = (case map_of (map (\<lambda>t. (ut_bbs t, ut_count t)) (ta_traces ta)) p of Some n \<Rightarrow> n | None \<Rightarrow> 0)"

definition loopCount :: "FuncState \<Rightarrow> nat \<Rightarrow> int list \<Rightarrow> nat" where
  "loopCount fs l p =
     (case map_of (map (\<lambda>r. (lr_loop_id r, lr_traces r)) (loop_results fs)) l of Some ta \<Rightarrow> pathCount ta p | None \<Rightarrow> 0)"

lemma pathCount_save: "pathCount (save_trace ta q) p = pathCount ta p + (if p = q \<and> q \<noteq> [] then 1 else 0)"
proof (cases "bumpDuplicate (fnv1a_hash q) q (ta_traces ta)")
  case None
  then have "map_of (map (\<lambda>t. (ut_bbs t, ut_count t)) (ta_traces ta)) q = None"
    by (auto simp: bumpDuplicate_None map_of_eq_None_iff)
  with None show ?thesis
    by (auto simp: save_trace_def pathCount_def Let_def trace_array_grow_def map_of_append map_add_def split: option.splits)
next
  case (Some ts)
  then have "q \<in> ut_bbs ` set (ta_traces ta)" using bumpDuplicate_None [of q "ta_traces ta"] by auto
  then obtain n where "map_of (map (\<lambda>t. (ut_bbs t, ut_count t)) (ta_traces ta)) q = Some n"
    by (cases "map_of (map (\<lambda>t. (ut_bbs t, ut_count t)) (ta_traces ta)) q") (auto simp: map_of_eq_None_iff image_image)
  with Some bumpDuplicate_Some(2) [OF Some] show ?thesis by (auto simp: save_trace_def pathCount_def)
qed

lemma pathCount_init [simp]: "pathCount trace_array_init p = 0"
  by (simp add: pathCount_def trace_array_init_def)

lemma map_of_unique_update:
  assumes "distinct (map k xs)" "i < length xs" "k y = k (xs ! i)"
  shows "map_of (map (\<lambda>r. (k r, v r)) (xs[i := y])) = (map_of (map (\<lambda>r. (k r, v r)) xs))(k y \<mapsto> v y)"
  using assms
proof (induction xs arbitrary: i)
  case (Cons x xs)
  then show ?case
  proof (cases i)
    case (Suc j)
    with Cons.prems have "k y = k (xs ! j)" "k (xs ! j) \<in> k ` set xs" "k x \<notin> k ` set xs" by auto
    then have "k y \<noteq> k x" by metis
    with Suc Cons.IH [of j] Cons.prems show ?thesis by (auto simp: fun_eq_iff)
  qed (auto simp: fun_eq_iff)
qed simp

lemma loopCount_record:
  assumes "distinct (map lr_loop_id (loop_results fs))" "length (loop_results fs) < MAX_LOOPS_PER_FUNC \<or> l \<in> lr_loop_id ` set (loop_results fs)"
  shows "loopCount (recordIteration fs (l, q)) l' p = loopCount fs l' p + (if (l', p) = (l, q) \<and> q \<noteq> [] then 1 else 0)"
proof (cases rule: get_loop_result_cases [of fs l])
  case (found i)
  let ?r = "loop_results fs ! i"
  have "map_of (map (\<lambda>r. (lr_loop_id r, lr_traces r)) (loop_results fs)) l = Some (lr_traces ?r)"
    using found(1,2) assms(1) by (intro map_of_is_SomeI) (auto simp: image_iff comp_def intro!: bexI [of _ ?r])
  with map_of_unique_update [OF assms(1) found(1), where y = "?r\<lparr>lr_traces := save_trace (lr_traces ?r) q\<rparr>" and v = lr_traces] found
  show ?thesis by (auto simp: loopCount_def recordIteration_found pathCount_save)
next
  case full
  with assms show ?thesis by auto
next
  case new
  have "map_of (map (\<lambda>r. (lr_loop_id r, lr_traces r)) (loop_results fs)) l = None"
    using new(1) by (auto simp: map_of_eq_None_iff image_iff)
  then show ?thesis
    by (auto simp: loopCount_def recordIteration_new [OF new(3)] map_of_append map_add_def pathCount_save split: option.splits)
qed

lemma recordIteration_ids:
  assumes "length (loop_results fs) < MAX_LOOPS_PER_FUNC \<or> l \<in> lr_loop_id ` set (loop_results fs)"
  shows "lr_loop_id ` set (loop_results (recordIteration fs (l, q))) = insert l (lr_loop_id ` set (loop_results fs))"
    and "distinct (map lr_loop_id (loop_results fs)) \<Longrightarrow> distinct (map lr_loop_id (loop_results (recordIteration fs (l, q))))"
proof -
  have "lr_loop_id ` set (loop_results (recordIteration fs (l, q))) = insert l (lr_loop_id ` set (loop_results fs))
    \<and> (distinct (map lr_loop_id (loop_results fs)) \<longrightarrow> distinct (map lr_loop_id (loop_results (recordIteration fs (l, q)))))"
  proof (cases rule: get_loop_result_cases [of fs l])
    case (found i)
    have ids: "map lr_loop_id ((loop_results fs)[i := (loop_results fs ! i)\<lparr>lr_traces := t\<rparr>]) = map lr_loop_id (loop_results fs)" for t
      using found(1) by (simp add: map_update list_update_same_conv)
    have "l \<in> lr_loop_id ` set (loop_results fs)" using found(1,2) by (metis imageI nth_mem)
    with ids show ?thesis unfolding recordIteration_found [OF found(1,3)]
      by (simp add: insert_absorb) (metis image_set)
  next
    case full
    with assms show ?thesis by auto
  next
    case new
    then show ?thesis by (auto simp: recordIteration_new [OF new(3)])
  qed
  then show "lr_loop_id ` set (loop_results (recordIteration fs (l, q))) = insert l (lr_loop_id ` set (loop_results fs))"
    "distinct (map lr_loop_id (loop_results fs)) \<Longrightarrow> distinct (map lr_loop_id (loop_results (recordIteration fs (l, q))))" by auto
qed

lemma recordIterations_count:
  assumes "card (fst ` set es) \<le> MAX_LOOPS_PER_FUNC"
  shows "distinct (map lr_loop_id (loop_results (foldl recordIteration (freshState m) es)))
    \<and> lr_loop_id ` set (loop_results (foldl recordIteration (freshState m) es)) = fst ` set es
    \<and> (p \<noteq> [] \<longrightarrow> loopCount (foldl recordIteration (freshState m) es) l p = count_list es (l, p))"
  using assms
proof (induction es rule: rev_induct)
  case Nil
  then show ?case by (simp add: freshState_def loopCount_def)
next
  case (snoc e es)
  obtain l' q where e: "e = (l', q)" by fastforce
  let ?fs = "foldl recordIteration (freshState m) es"
  have sub: "card (fst ` set es) \<le> card (fst ` set (es @ [e]))" by (rule card_mono) auto
  with snoc have IH: "distinct (map lr_loop_id (loop_results ?fs))" "lr_loop_id ` set (loop_results ?fs) = fst ` set es"
    "p \<noteq> [] \<longrightarrow> loopCount ?fs l p = count_list es (l, p)" by auto
  have room: "length (loop_results ?fs) < MAX_LOOPS_PER_FUNC \<or> l' \<in> lr_loop_id ` set (loop_results ?fs)"
  proof (cases "l' \<in> fst ` set es")
    case False
    have "length (loop_results ?fs) = card (fst ` set es)"
      using distinct_card [OF IH(1)] IH(2) by simp
    also have "\<dots> < card (fst ` set (es @ [e]))" using False by (simp add: e)
    finally show ?thesis using snoc.prems by simp
  qed (simp add: IH(2))
  from recordIteration_ids [OF room, of q] loopCount_record [OF IH(1) room, of q l p] IH e show ?case by auto
qed

text \<open>The calls of a run, in the order they are entered.\<close>

fun runCalls :: "run_item \<Rightarrow> (FuncTraceMeta \<times> run_item list) list" where
  "runCalls (RunBlock b) = []"
| "runCalls (LoopRun l h iters rest) = concat (map (\<lambda>it. concat (map runCalls it)) iters) @ concat (map runCalls rest)"
| "runCalls (CallRun m body) = (m, body) # concat (map runCalls body)"

lemma callStates_runCalls: "callStates x = map (\<lambda>(m, body). callState m body) (runCalls x)"
proof (induction x)
  case (LoopRun l h iters rest)
  have eqs: "concat (map callStates it) = concat (map (\<lambda>x. map (\<lambda>(m, body). callState m body) (runCalls x)) it)"
    if "it \<in> set iters" for it
    using LoopRun(1) [OF that] by (simp cong: map_cong)
  have "map (\<lambda>it. concat (map callStates it)) iters =
      map (\<lambda>it. concat (map (\<lambda>x. map (\<lambda>(m, body). callState m body) (runCalls x)) it)) iters"
    by (rule map_cong [OF refl eqs])
  moreover have "map callStates rest = map (\<lambda>x. map (\<lambda>(m, body). callState m body) (runCalls x)) rest"
    using LoopRun(2) by simp
  ultimately show ?case by (simp add: map_concat comp_def cong: map_cong)
next
  case (CallRun m body)
  then have "map callStates body = map (\<lambda>x. map (\<lambda>(m, body). callState m body) (runCalls x)) body" by simp
  then show ?case by (simp add: map_concat comp_def cong: map_cong)
qed simp


definition sample_meta :: "string \<Rightarrow> FuncTraceMeta" where
  "sample_meta nm =
     \<lparr>tm_func_name = nm, tm_bb_names = [''a'', ''h'', ''l'', ''x''], loop_header_bb_idx = [1], loop_header_names = [''h''],
      loop_latch_names = [''l''], loop_depths = [1], loop_member_names = [[''h'', ''l'']], loop_exiting_names = [[''h'']]\<rparr>"

text \<open>Two iterations of a loop that calls a function each time.\<close>

definition sample_body :: "run_item list" where
  "sample_body =
     [RunBlock 0, LoopRun 0 1 (replicate 2 [RunBlock 1, CallRun (sample_meta ''g'') [RunBlock 0], RunBlock 2]) [RunBlock 1], RunBlock 3]"


section \<open>Beyond the limit on calls\<close>


end
