(* ===== verification/TraceFile.thy ===== *)
theory TraceFile
  imports TraceRuntime
begin

text \<open>
  The trace file: the JSON writer of the trace runtime (\<open>__trace_write_json\<close> in
  \<open>passes/runtime/schematic_trace_runtime.c\<close>), character by character, and what the trace loader reads back
  from it. Text outside of strings may contain white space in JSON; \<open>stripJson\<close> removes it.

  Shown: the file is the text of the document that lists the recorded paths with their counts, and the
  loader reads from that document exactly the recorded paths of a function.
\<close>

section \<open>The writer\<close>

abbreviation DQUOTE :: char where "DQUOTE \<equiv> CHR 0x22"
abbreviation BACKSLASH :: char where "BACKSLASH \<equiv> CHR 0x5C"

definition escapeChar :: "char \<Rightarrow> string" where
  "escapeChar c =
     (if c = DQUOTE then [BACKSLASH, DQUOTE]
      else if c = BACKSLASH then [BACKSLASH, BACKSLASH]
      else if c = NEWLINE then [BACKSLASH, CHR ''n'']
      else if c = TAB then [BACKSLASH, CHR ''t'']
      else [c])"

definition write_escaped_string :: "string \<Rightarrow> string" where
  "write_escaped_string s = DQUOTE # concat (map escapeChar s) @ [DQUOTE]"

definition write_indent :: "nat \<Rightarrow> string" where
  "write_indent depth = concat (replicate depth ''  '')"

definition printInt :: "int \<Rightarrow> string" where
  "printInt i = (if i < 0 then CHR ''-'' # to_string (nat (- i)) else to_string (nat i))"

definition writeBlockName :: "FuncTraceMeta \<Rightarrow> int \<Rightarrow> string" where
  "writeBlockName meta idx =
     (if 0 \<le> idx \<and> idx < int (length (tm_bb_names meta)) then write_escaped_string (tm_bb_names meta ! nat idx)
      else DQUOTE # ''bb_'' @ printInt idx @ [DQUOTE])"

text \<open>Elements on one line, separated by a comma before every element but the first, and elements on lines
  of their own, with a comma after every element but the last.\<close>

fun writeInline :: "string list \<Rightarrow> string" where
  "writeInline [] = []"
| "writeInline [x] = x"
| "writeInline (x # y # xs) = x @ '', '' @ writeInline (y # xs)"

fun writeLines :: "string list \<Rightarrow> string" where
  "writeLines [] = []"
| "writeLines [x] = x @ [NEWLINE]"
| "writeLines (x # y # xs) = x @ '','' @ [NEWLINE] @ writeLines (y # xs)"

definition writeKey :: "string \<Rightarrow> string" where
  "writeKey k = DQUOTE # k @ [DQUOTE] @ '': ''"

definition writeTrace :: "FuncTraceMeta \<Rightarrow> nat \<Rightarrow> UniqueTrace \<Rightarrow> string" where
  "writeTrace meta depth t =
     write_indent depth @ ''{'' @ writeKey ''path'' @ ''['' @ writeInline (map (writeBlockName meta) (ut_bbs t))
     @ ''], '' @ writeKey ''count'' @ to_string (ut_count t) @ ''}''"

text \<open>The entries of a loop the metadata does not know are empty.\<close>

definition metaEntry :: "'a list \<Rightarrow> nat \<Rightarrow> 'a \<Rightarrow> 'a" where
  "metaEntry xs i d = (if i < length xs then xs ! i else d)"

definition writeLoop :: "FuncTraceMeta \<Rightarrow> LoopResult \<Rightarrow> string" where
  "writeLoop meta lr =
     (let l = lr_loop_id lr; header_name = metaEntry (loop_header_names meta) l ''unknown''
      in write_indent 3 @ write_escaped_string header_name @ '': {'' @ [NEWLINE]
         @ write_indent 4 @ writeKey ''loop'' @ ''{'' @ [NEWLINE]
         @ write_indent 5 @ writeKey ''header'' @ write_escaped_string header_name @ '','' @ [NEWLINE]
         @ write_indent 5 @ writeKey ''exiting'' @ ''['' @ writeInline (map write_escaped_string (metaEntry (loop_exiting_names meta) l [])) @ ''],'' @ [NEWLINE]
         @ write_indent 5 @ writeKey ''basic_blocks'' @ ''['' @ writeInline (map write_escaped_string (metaEntry (loop_member_names meta) l [])) @ ''],'' @ [NEWLINE]
         @ write_indent 5 @ writeKey ''latch'' @ ''[''
         @ (if l < length (loop_latch_names meta) then write_escaped_string (loop_latch_names meta ! l) else []) @ ''],'' @ [NEWLINE]
         @ write_indent 5 @ writeKey ''depth'' @ printInt (metaEntry (loop_depths meta) l 0) @ [NEWLINE]
         @ write_indent 4 @ ''},'' @ [NEWLINE]
         @ write_indent 4 @ writeKey ''traces'' @ ''['' @ [NEWLINE]
         @ writeLines (map (writeTrace meta 5) (ta_traces (lr_traces lr)))
         @ write_indent 4 @ '']'' @ [NEWLINE] @ write_indent 3 @ ''}'')"

definition writeFunction :: "FuncState \<Rightarrow> string" where
  "writeFunction fs =
     write_indent 1 @ write_escaped_string (tm_func_name (fs_meta fs)) @ '': {'' @ [NEWLINE]
     @ write_indent 2 @ writeKey ''traces'' @ ''['' @ [NEWLINE]
     @ writeLines (map (writeTrace (fs_meta fs) 3) (ta_traces (func_traces fs)))
     @ write_indent 2 @ ''],'' @ [NEWLINE]
     @ write_indent 2 @ writeKey ''loop_traces'' @ ''{'' @ [NEWLINE]
     @ writeLines (map (writeLoop (fs_meta fs)) (loop_results fs))
     @ write_indent 2 @ ''}'' @ [NEWLINE] @ write_indent 1 @ ''}''"

definition trace_write_json :: "trace_runtime \<Rightarrow> string" where
  "trace_write_json g = ''{'' @ [NEWLINE] @ writeLines (map writeFunction (g_func_states g)) @ ''}'' @ [NEWLINE]"

section \<open>The document\<close>

definition blockDoc :: "FuncTraceMeta \<Rightarrow> int \<Rightarrow> json" where
  "blockDoc meta idx =
     JString (if 0 \<le> idx \<and> idx < int (length (tm_bb_names meta)) then tm_bb_names meta ! nat idx else ''bb_'' @ printInt idx)"

definition traceDoc :: "FuncTraceMeta \<Rightarrow> UniqueTrace \<Rightarrow> json" where
  "traceDoc meta t = JObject [(''path'', JArray (map (blockDoc meta) (ut_bbs t))), (''count'', JUnsigned (of_nat (ut_count t)))]"

definition loopDoc :: "FuncTraceMeta \<Rightarrow> LoopResult \<Rightarrow> string \<times> json" where
  "loopDoc meta lr =
     (let l = lr_loop_id lr; header_name = metaEntry (loop_header_names meta) l ''unknown'';
          d = metaEntry (loop_depths meta) l 0
      in (header_name, JObject
          [(''loop'', JObject
              [(''header'', JString header_name),
               (''exiting'', JArray (map JString (metaEntry (loop_exiting_names meta) l []))),
               (''basic_blocks'', JArray (map JString (metaEntry (loop_member_names meta) l []))),
               (''latch'', JArray (if l < length (loop_latch_names meta) then [JString (loop_latch_names meta ! l)] else [])),
               (''depth'', if d < 0 then JInteger d else JUnsigned (of_int d))]),
           (''traces'', JArray (map (traceDoc meta) (ta_traces (lr_traces lr))))]))"

definition functionDoc :: "FuncState \<Rightarrow> string \<times> json" where
  "functionDoc fs =
     (tm_func_name (fs_meta fs), JObject
        [(''traces'', JArray (map (traceDoc (fs_meta fs)) (ta_traces (func_traces fs)))),
         (''loop_traces'', JObject (map (loopDoc (fs_meta fs)) (loop_results fs)))])"

definition traceDocument :: "trace_runtime \<Rightarrow> json" where
  "traceDocument g = JObject (map functionDoc (g_func_states g))"

text \<open>The text of a document without white space, for the values the writer uses.\<close>

fun joinComma :: "string list \<Rightarrow> string" where
  "joinComma [] = []"
| "joinComma [x] = x"
| "joinComma (x # y # xs) = x @ '','' @ joinComma (y # xs)"

fun printJson :: "json \<Rightarrow> string" where
  "printJson (JString s) = write_escaped_string s"
| "printJson (JUnsigned n) = to_string (unat n)"
| "printJson (JInteger i) = printInt i"
| "printJson (JArray vs) = ''['' @ joinComma (map printJson vs) @ '']''"
| "printJson (JObject kvs) = ''{'' @ joinComma (map (\<lambda>(k, v). write_escaped_string k @ '':'' @ printJson v) kvs) @ ''}''"
| "printJson (JBool b) = (if b then ''true'' else ''false'')"
| "printJson JNull = ''null''"
| "printJson (JFloat d) = []"

text \<open>White space outside of strings is removed; in a string a backslash protects the next character.\<close>

fun stripJson :: "bool \<Rightarrow> string \<Rightarrow> string" where
  "stripJson q [] = []"
| "stripJson False (c # cs) =
     (if c = CHR '' '' \<or> c = NEWLINE \<or> c = TAB then stripJson False cs
      else if c = DQUOTE then c # stripJson True cs
      else c # stripJson False cs)"
| "stripJson True (c # cs) =
     (if c = DQUOTE then c # stripJson False cs
      else if c = BACKSLASH then (case cs of [] \<Rightarrow> [c] | e # es \<Rightarrow> c # e # stripJson True es)
      else c # stripJson True cs)"

section \<open>The file is the text of the document\<close>

text \<open>The pieces of the text, each followed by the rest of the file.\<close>

named_theorems strip_simps

lemma strip_blank [strip_simps]:
  "stripJson False (CHR '' '' # cs) = stripJson False cs" "stripJson False (NEWLINE # cs) = stripJson False cs"
  by simp_all

lemma strip_indent [strip_simps]: "stripJson False (write_indent d @ rest) = stripJson False rest"
  by (induction d) (simp_all add: write_indent_def)

lemma strip_plain:
  assumes "\<forall>c \<in> set s. c \<noteq> DQUOTE \<and> c \<noteq> BACKSLASH"
  shows "stripJson True (s @ rest) = s @ stripJson True rest"
  using assms by (induction s) simp_all

lemma strip_escapeChar: "stripJson True (escapeChar c @ rest) = escapeChar c @ stripJson True rest"
  by (simp add: escapeChar_def)

lemma strip_escaped: "stripJson True (concat (map escapeChar s) @ rest) = concat (map escapeChar s) @ stripJson True rest"
  by (induction s) (simp_all add: strip_escapeChar)

lemma strip_string [strip_simps]:
  "stripJson False (write_escaped_string s @ rest) = write_escaped_string s @ stripJson False rest"
  by (simp add: write_escaped_string_def strip_escaped)

lemma digitChar_plain: "n < 10 \<Longrightarrow> digitChar n \<notin> {CHR '' '', NEWLINE, TAB, DQUOTE, BACKSLASH}"
proof -
  assume "n < 10"
  then have "n \<in> {0, 1, 2, 3, 4, 5, 6, 7, 8, 9}" by auto
  then show ?thesis by (auto simp: digitChar_def char_of_def)
qed

lemma digits_plain: "c \<in> set (to_string n) \<Longrightarrow> c \<notin> {CHR '' '', NEWLINE, TAB, DQUOTE, BACKSLASH}"
  unfolding to_string_def
proof (induction "10 :: nat" n rule: digitsOf.induct)
  case (1 n)
  show ?case
  proof (cases "n < 10")
    case True
    with 1(2) digitChar_plain [of n] show ?thesis by (subst (asm) digitsOf.simps) simp
  next
    case False
    with 1(2) have "c \<in> set (digitsOf 10 (n div 10)) \<or> c = digitChar (n mod 10)" by (subst (asm) digitsOf.simps) auto
    with False 1(1) digitChar_plain [of "n mod 10"] show ?thesis by auto
  qed
qed

lemma strip_outside:
  assumes "\<forall>c \<in> set s. c \<notin> {CHR '' '', NEWLINE, TAB, DQUOTE, BACKSLASH}"
  shows "stripJson False (s @ rest) = s @ stripJson False rest"
  using assms by (induction s) simp_all

lemma strip_number [strip_simps]:
  "stripJson False (to_string n @ rest) = to_string n @ stripJson False rest"
  "stripJson False (printInt i @ rest) = printInt i @ stripJson False rest"
proof -
  show num: "stripJson False (to_string n @ rest) = to_string n @ stripJson False rest" for n
    by (rule strip_outside) (use digits_plain in blast)
  show "stripJson False (printInt i @ rest) = printInt i @ stripJson False rest"
    using num by (simp add: printInt_def)
qed

lemma printInt_plain: "c \<in> set (printInt i) \<Longrightarrow> c \<notin> {NEWLINE, TAB, DQUOTE, BACKSLASH}"
  using digits_plain [of c] by (auto simp: printInt_def split: if_splits)

lemma escape_plain:
  assumes "\<forall>c \<in> set s. c \<notin> {NEWLINE, TAB, DQUOTE, BACKSLASH}"
  shows "write_escaped_string s = DQUOTE # s @ [DQUOTE]"
  using assms by (induction s) (auto simp: write_escaped_string_def escapeChar_def)

lemma strip_key [strip_simps]:
  assumes "\<forall>c \<in> set k. c \<notin> {NEWLINE, TAB, DQUOTE, BACKSLASH}"
  shows "stripJson False (writeKey k @ rest) = write_escaped_string k @ CHR '':'' # stripJson False rest"
  using strip_plain [of k] assms by (simp add: writeKey_def escape_plain)

lemma writeBlockName_doc: "writeBlockName meta idx = printJson (blockDoc meta idx)"
proof (cases "0 \<le> idx \<and> idx < int (length (tm_bb_names meta))")
  case False
  have "\<forall>c \<in> set (''bb_'' @ printInt idx). c \<notin> {NEWLINE, TAB, DQUOTE, BACKSLASH}" using printInt_plain [of _ idx] by auto
  from escape_plain [OF this] False show ?thesis by (auto simp: writeBlockName_def blockDoc_def)
qed (simp add: writeBlockName_def blockDoc_def)

lemma strip_inline:
  assumes "\<And>x rest. x \<in> set xs \<Longrightarrow> stripJson False (f x @ rest) = h x @ stripJson False rest"
  shows "stripJson False (writeInline (map f xs) @ rest) = joinComma (map h xs) @ stripJson False rest"
  using assms by (induction xs rule: induct_list012) simp_all

lemma strip_lines:
  assumes "\<And>x rest. x \<in> set xs \<Longrightarrow> stripJson False (f x @ rest) = h x @ stripJson False rest"
  shows "stripJson False (writeLines (map f xs) @ rest) = joinComma (map h xs) @ stripJson False rest"
  using assms by (induction xs rule: induct_list012) simp_all

lemma strip_names [strip_simps]:
  "stripJson False (writeInline (map write_escaped_string xs) @ rest) = joinComma (map (\<lambda>s. printJson (JString s)) xs) @ stripJson False rest"
  by (rule strip_inline) (simp add: strip_simps)

lemma strip_blocks [strip_simps]:
  "stripJson False (writeInline (map (writeBlockName meta) xs) @ rest) = joinComma (map (\<lambda>b. printJson (blockDoc meta b)) xs) @ stripJson False rest"
  by (rule strip_inline) (simp add: writeBlockName_doc, simp add: blockDoc_def strip_simps)

text \<open>The counters of the runtime are C integers.\<close>

definition counts_fit :: "TraceArray \<Rightarrow> bool" where
  "counts_fit ta \<longleftrightarrow> (\<forall>t \<in> set (ta_traces ta). ut_count t < 2 ^ 31)"

definition ints_fit :: "trace_runtime \<Rightarrow> bool" where
  "ints_fit g \<longleftrightarrow> (\<forall>fs \<in> set (g_func_states g). counts_fit (func_traces fs) \<and> (\<forall>d \<in> set (loop_depths (fs_meta fs)). d < 2 ^ 31)
     \<and> (\<forall>r \<in> set (loop_results fs). counts_fit (lr_traces r)))"

lemma unat_count: "n < 2 ^ 31 \<Longrightarrow> unat (of_nat n :: u64) = n"
  by (simp add: unat_of_nat take_bit_nat_eq_self)

lemma strip_trace:
  assumes "ut_count t < 2 ^ 31"
  shows "stripJson False (writeTrace meta d t @ rest) = printJson (traceDoc meta t) @ stripJson False rest"
  using unat_count [OF assms] by (simp add: writeTrace_def traceDoc_def strip_simps comp_def)

lemma strip_traces:
  assumes "counts_fit ta"
  shows "stripJson False (writeLines (map (writeTrace meta d) (ta_traces ta)) @ rest) =
    joinComma (map (\<lambda>t. printJson (traceDoc meta t)) (ta_traces ta)) @ stripJson False rest"
  by (rule strip_lines) (use assms strip_trace in \<open>simp add: counts_fit_def\<close>)

lemma printInt_doc:
  assumes "i < 2 ^ 31"
  shows "printJson (if i < 0 then JInteger i else JUnsigned (of_int i)) = printInt i"
proof (cases "i < 0")
  case False
  then have "unat (of_int i :: u64) = nat i"
    using unat_count [of "nat i"] assms by (simp add: nat_less_iff)
  with False show ?thesis by (simp add: printInt_def)
qed (simp add: printInt_def)

lemma strip_loop:
  assumes "counts_fit (lr_traces lr)" "\<forall>d \<in> set (loop_depths meta). d < 2 ^ 31"
  shows "stripJson False (writeLoop meta lr @ rest) =
    write_escaped_string (fst (loopDoc meta lr)) @ '':'' @ printJson (snd (loopDoc meta lr)) @ stripJson False rest"
proof -
  let ?d = "metaEntry (loop_depths meta) (lr_loop_id lr) 0"
  have "?d < 2 ^ 31" using assms(2) by (simp add: metaEntry_def)
  note depth = printInt_doc [OF this]
  show ?thesis
    unfolding writeLoop_def loopDoc_def Let_def fst_conv snd_conv
    by (simp add: strip_simps strip_traces [OF assms(1)] depth comp_def del: printJson.simps(2,3))
qed

lemma strip_function:
  assumes "counts_fit (func_traces fs)" "\<forall>d \<in> set (loop_depths (fs_meta fs)). d < 2 ^ 31" "\<forall>r \<in> set (loop_results fs). counts_fit (lr_traces r)"
  shows "stripJson False (writeFunction fs @ rest) =
    write_escaped_string (fst (functionDoc fs)) @ '':'' @ printJson (snd (functionDoc fs)) @ stripJson False rest"
proof -
  have loops: "stripJson False (writeLines (map (writeLoop (fs_meta fs)) (loop_results fs)) @ rest) =
      joinComma (map (\<lambda>r. write_escaped_string (fst (loopDoc (fs_meta fs) r)) @ '':'' @ printJson (snd (loopDoc (fs_meta fs) r))) (loop_results fs))
      @ stripJson False rest" for rest
    by (rule strip_lines) (use assms strip_loop in simp)
  show ?thesis
    unfolding writeFunction_def functionDoc_def fst_conv snd_conv
    by (simp add: strip_simps strip_traces [OF assms(1)] loops comp_def case_prod_beta)
qed

lemma strip_file:
  assumes "ints_fit g"
  shows "stripJson False (trace_write_json g) = printJson (traceDocument g)"
proof -
  have "stripJson False (writeLines (map writeFunction (g_func_states g)) @ rest) =
      joinComma (map (\<lambda>fs. write_escaped_string (fst (functionDoc fs)) @ '':'' @ printJson (snd (functionDoc fs))) (g_func_states g))
      @ stripJson False rest" for rest
    by (rule strip_lines) (use assms strip_function in \<open>simp add: ints_fit_def\<close>)
  then show ?thesis by (simp add: trace_write_json_def traceDocument_def comp_def case_prod_beta)
qed

section \<open>The loader reads the recorded paths\<close>

text \<open>The loader resolves the name of a block to the node of the block.\<close>

definition names_resolve :: "name_map \<Rightarrow> FuncTraceMeta \<Rightarrow> (int \<Rightarrow> block_ptr) \<Rightarrow> bool" where
  "names_resolve names meta node \<longleftrightarrow>
     (\<forall>i. 0 \<le> i \<and> i < int (length (tm_bb_names meta)) \<longrightarrow> map_of names (tm_bb_names meta ! nat i) = Some (node i))"

definition blocks_known :: "FuncTraceMeta \<Rightarrow> TraceArray \<Rightarrow> bool" where
  "blocks_known meta ta \<longleftrightarrow> (\<forall>t \<in> set (ta_traces ta). \<forall>b \<in> set (ut_bbs t). 0 \<le> b \<and> b < int (length (tm_bb_names meta)))"

definition loadedPath :: "(int \<Rightarrow> block_ptr) \<Rightarrow> UniqueTrace \<Rightarrow> EnumeratedPath" where
  "loadedPath node t = \<lparr>ep_blocks = map node (ut_bbs t), ep_count = of_nat (ut_count t)\<rparr>"

lemma resolveNames_doc:
  assumes "names_resolve names meta node" "\<forall>b \<in> set bs. 0 \<le> b \<and> b < int (length (tm_bb_names meta))"
  shows "resolveNames names (map (blockDoc meta) bs) = Some (map node bs)"
  using assms(2) by (induction bs) (use assms(1) in \<open>simp_all add: blockDoc_def names_resolve_def\<close>)

lemma parseTraceEntry_doc:
  assumes "names_resolve names meta node" "\<forall>b \<in> set (ut_bbs t). 0 \<le> b \<and> b < int (length (tm_bb_names meta))" "ut_count t < 2 ^ 31"
  shows "parseTraceEntry names (traceDoc meta t) = Some (loadedPath node t)"
proof -
  have "(ucast (of_nat (ut_count t) :: u64) :: u32) = of_nat (ut_count t)"
    using of_nat_unat [of "of_nat (ut_count t) :: u64"] unat_count [OF assms(3)] by metis
  with resolveNames_doc [OF assms(1,2)] show ?thesis
    by (simp add: parseTraceEntry_def traceDoc_def keyOr_def jsonAt_def loadedPath_def)
qed

lemma parseTraces_doc:
  assumes "names_resolve names meta node" "blocks_known meta ta" "counts_fit ta"
  shows "parseTraces names (Some (JArray (map (traceDoc meta) (ta_traces ta)))) =
    sort_key (\<lambda>p. - uint (ep_count p)) (map (loadedPath node) (ta_traces ta))"
proof -
  have "List.map_filter (parseTraceEntry names) (map (traceDoc meta) ts) = map (loadedPath node) ts"
    if "set ts \<subseteq> set (ta_traces ta)" for ts
    using that
  proof (induction ts)
    case (Cons t ts)
    then have t: "t \<in> set (ta_traces ta)" by simp
    have "parseTraceEntry names (traceDoc meta t) = Some (loadedPath node t)"
      by (rule parseTraceEntry_doc [OF assms(1)]) (use t assms(2,3) in \<open>auto simp: blocks_known_def counts_fit_def\<close>)
    with Cons show ?case by (simp add: map_filter_simps)
  qed (simp add: map_filter_simps)
  then show ?thesis by (simp add: parseTraces_def)
qed



definition sample_recorded :: trace_runtime where
  "sample_recorded = trace_run initialRuntime (itemEvents (CallRun (sample_meta ''f'')
     [RunBlock 0, LoopRun 0 1 [[RunBlock 1, RunBlock 2], [RunBlock 1, RunBlock 2]] [RunBlock 1], RunBlock 3]))"

definition sample_func_state :: FuncState where
  "sample_func_state = \<lparr>fs_meta = sample_meta ''f'', func_trace = [], loop_stack = [],
     func_traces = \<lparr>ta_traces = [\<lparr>ut_bbs = [0, 1, 3], ut_count = 1\<rparr>], ta_cap = 64\<rparr>,
     loop_results = [\<lparr>lr_loop_id = 0, lr_traces = \<lparr>ta_traces = [\<lparr>ut_bbs = [1, 2], ut_count = 2\<rparr>], ta_cap = 64\<rparr>\<rparr>],
     loop_results_overflow_reported = False\<rparr>"

lemma sample_recorded_states: "g_func_states sample_recorded = [sample_func_state]"
  by code_simp


end
