(* ===== verification/MILPSoundness.thy ===== *)
theory MILPSoundness
  imports MILPOptimizer
begin

text \<open>
  Soundness of the MILP checkpoint optimizer. The abstract notion is execution by regions: a region starts
  at a block of the extracted set, costs a prologue and its restores, the energy of its blocks under the
  extracted placements, and ends with the epilogue and the saves of the next region start. A variable is dirty
  from its definition to the next region start (\<open>dirty_at_end\<close>).

  What the theorems rely on of Gurobi is \<open>solver_sound\<close>: an assignment it reports satisfies the bounds, the
  integrality and the constraints of the model, exactly and without tolerance. What they rely on of the views is \<open>view_ok\<close>.

  The extraction rounds variables that are continuous in the model. The lemmas \<open>d_exact\<close> and \<open>s_exact\<close> show that
  they are 0 or 1 in every feasible assignment: the accumulated energy grows along edges inside a region, so
  a region has no cycle and the dirty flags are determined from definitions and region starts onwards.

  Results: every path through a region fits the energy buffer, state that is live and dirty at a
  boundary is saved and state live at a region start is restored, placements are constant inside a region
  and fit the VM, the reachability sets are the forward closure of the definition sites, and every failure
  is reported with its cause.
\<close>

section \<open>Evaluation of expressions\<close>

lemma evalLin_const [simp]: "evalLin X (linConst c) = c"
  by (simp add: evalLin_def linConst_def)

lemma evalLin_var [simp]: "evalLin X (linVar x) = X x"
  by (simp add: evalLin_def linVar_def)

lemma evalLin_add [simp]: "evalLin X (linAdd e f) = evalLin X e + evalLin X f"
  by (simp add: evalLin_def linAdd_def)

lemma evalLin_scale [simp]: "evalLin X (linScale k e) = k * evalLin X e"
proof -
  have "(\<Sum>(a, x) \<leftarrow> map (\<lambda>(a, x). (k * a, x)) ts. a * X x) = k * (\<Sum>(a, x) \<leftarrow> ts. a * X x)" for ts
    by (induction ts) (auto simp: algebra_simps)
  then show ?thesis by (simp add: evalLin_def linScale_def algebra_simps)
qed

lemma evalLin_sub [simp]: "evalLin X (linSub e f) = evalLin X e - evalLin X f"
  by (simp add: linSub_def)

lemma evalLin_foldl:
  assumes "\<And>e x. x \<in> set xs \<Longrightarrow> evalLin X (f e x) = evalLin X e + g x"
  shows "evalLin X (foldl f e xs) = evalLin X e + (\<Sum>x \<leftarrow> xs. g x)"
  using assms by (induction xs arbitrary: e) (auto simp: algebra_simps)

lemma evalLin_EBlk:
  "evalLin X (buildEBlk C b) = getEBase (cx_view C) b + (\<Sum>v \<leftarrow> orderedVmObjs C. getENvm (cx_view C) b v * (1 - X (placeVar C b v)))"
  unfolding buildEBlk_def Let_def by (subst evalLin_foldl) (auto simp: algebra_simps)

lemma evalLin_EStart:
  "evalLin X (buildEStart C b) = mp_E_pro (getParams (cx_view C)) * X (VarR b)
     + (\<Sum>k \<leftarrow> rHatKeys C. if fst k = b \<and> getERestore (cx_view C) (snd k) > 0 then getERestore (cx_view C) (snd k) * X (VarRHat b (snd k)) else 0)
     + (\<Sum>v \<leftarrow> collectSortedValues (cx_view C) (getIneligLiveIn (cx_view C) b). if getERestore (cx_view C) v > 0 then getERestore (cx_view C) v * X (VarR b) else 0)"
  unfolding buildEStart_def Let_def
  by (subst evalLin_foldl [where g = "\<lambda>v. if getERestore (cx_view C) v > 0 then getERestore (cx_view C) v * X (VarR b) else 0"], simp,
      subst evalLin_foldl [where g = "\<lambda>k. if fst k = b \<and> getERestore (cx_view C) (snd k) > 0 then getERestore (cx_view C) (snd k) * X (VarRHat b (snd k)) else 0"])
    (auto split: prod.splits)

lemma evalLin_EEnd:
  "evalLin X (buildEEnd C b) = mp_E_epi (getParams (cx_view C)) * X (VarR b)
     + (\<Sum>k \<leftarrow> sKeys C. if fst k = b \<and> getESave (cx_view C) (snd k) > 0 then getESave (cx_view C) (snd k) * X (VarS b (snd k)) else 0)"
  unfolding buildEEnd_def Let_def
  by (subst evalLin_foldl [where g = "\<lambda>k. if fst k = b \<and> getESave (cx_view C) (snd k) > 0 then getESave (cx_view C) (snd k) * X (VarS b (snd k)) else 0"])
    (auto split: prod.splits)

lemma evalLin_vmUsage:
  "evalLin X (vmUsage C b) = (\<Sum>v \<leftarrow> orderedVmObjs C. if getVarSize (cx_view C) v \<le> 0 then 0 else real_of_int (getVarSize (cx_view C) v) * X (placeVar C b v))"
  unfolding vmUsage_def Let_def by (subst evalLin_foldl) auto

lemma evalLin_predDirtySum: "evalLin X (predDirtySum C b v) = (\<Sum>p \<leftarrow> predsOf C b. if hasD C p v then X (VarD p v) else 0)"
  unfolding predDirtySum_def by (subst evalLin_foldl) auto

lemma evalLin_predPlaceSum: "evalLin X (predPlaceSum C b v) = (\<Sum>p \<leftarrow> predsOf C b. X (VarM p v))"
  unfolding predPlaceSum_def by (subst evalLin_foldl) auto

section \<open>Structure of the context\<close>

lemma set_stableSort [simp]: "set (stableSortAndUniqueValues I vs) = set vs"
  by (simp add: stableSortAndUniqueValues_def)

lemma set_collectSorted [simp]: "set (collectSortedValues I vs) = set vs"
  by (simp add: collectSortedValues_def)

lemma set_liveIn [simp]: "set (collectSortedLiveInValues I b) = set (getEligLiveIn I b) \<union> set (getIneligLiveIn I b)"
  by (simp add: collectSortedLiveInValues_def)

lemma buildContext_simps [simp]:
  "cx_view (buildContext c I) = I" "cx_coarse (buildContext c I) = c"
  "cx_preds (buildContext c I) = buildPredecessorMap I"
  "orderedVmObjs (buildContext c I) = collectSortedValues I (getVMObjs I)"
  "set (orderedTrackedValues (buildContext c I)) = set (getVMObjs I) \<union> set (getIneligibleObjs I)"
  "rHatKeys (buildContext c I) = rHatKeysOf I"
  by (simp_all add: buildContext_def Let_def)

lemma omap_get_grow:
  "omap_get [] (foldl (\<lambda>m (s, d). omap_put d (omap_get [] m d @ [s]) m) m es) b = omap_get [] m b @ map fst (filter (\<lambda>(s, d). d = b) es)"
  by (induction es arbitrary: m) auto

lemma omap_get_init: "omap_get [] (foldl (\<lambda>m b. omap_put b [] m) m bs) b = (if b \<in> set bs then [] else omap_get [] m b)"
  by (induction bs arbitrary: m) auto

lemma predsOf_eq: "predsOf (buildContext c I) b = map fst (filter (\<lambda>(s, d). d = b) (getEdges I))"
  by (simp add: predsOf_def buildPredecessorMap_def omap_get_grow omap_get_init)

lemma set_predsOf [simp]: "p \<in> set (predsOf (buildContext c I) b) \<longleftrightarrow> (p, b) \<in> set (getEdges I)"
proof -
  have "set (map fst (filter (\<lambda>(s, d). d = b) es)) = {s. (s, b) \<in> set es}" for es
    by (induction es) auto
  from this [of "getEdges I"] show ?thesis by (simp only: predsOf_eq mem_Collect_eq)
qed

lemma set_rHatKeysOf: "(b, v) \<in> set (rHatKeysOf I) \<longleftrightarrow> b \<in> set (getBlocks I) \<and> v \<in> set (getEligLiveIn I b)"
  by (auto simp: rHatKeysOf_def)

lemma hasD_sKeys [simp]: "hasD (C\<lparr>sKeys := ks\<rparr>) = hasD C" "predsOf (C\<lparr>sKeys := ks\<rparr>) = predsOf C"
  by (simp_all add: hasD_def predsOf_def fun_eq_iff)

lemma set_sKeys:
  "(b, v) \<in> set (sKeys (buildContext c I)) \<longleftrightarrow> b \<in> set (getBlocks I) \<and> b \<noteq> getEntryBlock I \<and>
     v \<in> set (getEligLiveIn I b) \<union> set (getIneligLiveIn I b) \<and> (\<exists>p. (p, b) \<in> set (getEdges I) \<and> hasD (buildContext c I) p v)"
proof -
  define C where "C = \<lparr>cx_view = I, cx_coarse = c, cx_preds = buildPredecessorMap I, orderedVmObjs = collectSortedValues I (getVMObjs I),
       orderedTrackedValues = stableSortAndUniqueValues I (collectSortedValues I (getVMObjs I) @ getIneligibleObjs I),
       reachableDefs = computeReachableDefs I (stableSortAndUniqueValues I (collectSortedValues I (getVMObjs I) @ getIneligibleObjs I)) (buildSuccessorMap I),
       rHatKeys = rHatKeysOf I, sKeys = []\<rparr>"
  have C: "buildContext c I = C\<lparr>sKeys := sKeysOf C\<rparr>" by (simp add: buildContext_def Let_def C_def)
  have "set (predsOf C b) = {p. (p, b) \<in> set (getEdges I)}" using set_predsOf [of _ c I b] by (auto simp: C)
  moreover have "hasD (buildContext c I) = hasD C" by (simp add: C)
  ultimately show ?thesis
    unfolding C by (auto simp: sKeysOf_def list_ex_iff C_def)
qed

section \<open>Reachable definitions\<close>

lemma reachLoop_closure:
  assumes "set w \<subseteq> reached" and "\<And>b s. b \<in> reached - set w \<Longrightarrow> (b, s) \<in> E \<Longrightarrow> s \<in> reached"
    and "\<And>b s. (b, s) \<in> E \<longleftrightarrow> (\<exists>ss. map_of succs b = Some ss \<and> s \<in> set ss)"
  shows "reachLoop succs w reached = E\<^sup>* `` reached"
  using assms
proof (induction succs w reached rule: reachLoop.induct)
  case (1 succs reached)
  have "b \<in> reached" if "(a, b) \<in> E\<^sup>*" "a \<in> reached" for a b
    using that by (induction rule: rtrancl_induct) (use 1(2) in auto)
  then show ?case by auto
next
  case (2 succs x xs reached)
  let ?w = "x # xs" and ?cur = "last (x # xs)"
  have w: "set ?w = insert ?cur (set (butlast ?w))" by (metis append_butlast_last_id list.distinct(1) set_append Un_insert_right list.simps(15) empty_set sup_bot.right_neutral)
  show ?case
  proof (cases "map_of succs ?cur")
    case None
    have "\<And>b s. b \<in> reached - set (butlast ?w) \<Longrightarrow> (b, s) \<in> E \<Longrightarrow> s \<in> reached"
      using "2.prems" None w by (metis Diff_iff insertE option.distinct(1))
    moreover have "set (butlast ?w) \<subseteq> reached" using "2.prems"(1) w by auto
    ultimately have "reachLoop succs (butlast ?w) reached = E\<^sup>* `` reached"
      using "2.IH"(1) [OF refl refl None] "2.prems"(3) by blast
    with None show ?thesis by simp
  next
    case (Some ss)
    define st where "st = foldl pushNew (reached, butlast ?w) ss"
    have st: "fst st = reached \<union> set ss" "set (snd st) = set (butlast ?w) \<union> (set ss - reached)"
      unfolding st_def by (rule pushNew_reached)+
    have cur: "?cur \<in> reached" using "2.prems"(1) by auto
    have "\<And>b s. b \<in> fst st - set (snd st) \<Longrightarrow> (b, s) \<in> E \<Longrightarrow> s \<in> fst st"
    proof -
      fix b s assume b: "b \<in> fst st - set (snd st)" and e: "(b, s) \<in> E"
      then have "b \<in> reached" "b \<notin> set (butlast ?w)" using st by auto
      then show "s \<in> fst st"
        using "2.prems"(2) [of b s] e Some "2.prems"(3) [of b s] w st(1) by (cases "b = ?cur") auto
    qed
    moreover have "set (snd st) \<subseteq> fst st" using st "2.prems"(1) w by auto
    ultimately have "reachLoop succs (snd st) (fst st) = E\<^sup>* `` fst st"
      using "2.IH"(2) [OF refl refl Some st_def] "2.prems"(3) by blast
    moreover have "E\<^sup>* `` fst st = E\<^sup>* `` reached"
    proof -
      have "(?cur, s) \<in> E" if "s \<in> set ss" for s using that Some "2.prems"(3) by blast
      then show ?thesis unfolding st(1) using cur by (auto intro: converse_rtrancl_into_rtrancl)
    qed
    ultimately show ?thesis using Some by (simp add: st_def Let_def)
  qed
qed

lemma map_of_successorMap:
  "(\<exists>ss. map_of (buildSuccessorMap I) b = Some ss \<and> s \<in> set ss) \<longleftrightarrow> (b, s) \<in> set (getEdges I)"
proof -
  have get: "omap_get [] (foldl (\<lambda>m (s, d). omap_put s (omap_get [] m s @ [d]) m) m es) b = omap_get [] m b @ map snd (filter (\<lambda>(s, d). s = b) es)" for m es
    by (induction es arbitrary: m) auto
  have "set (omap_get [] (buildSuccessorMap I) b) = {s. (b, s) \<in> set (getEdges I)}"
  proof -
    have "omap_get [] (buildSuccessorMap I) b = map snd (filter (\<lambda>(s, d). s = b) (getEdges I))"
      by (simp add: buildSuccessorMap_def get omap_get_init)
    moreover have "set (map snd (filter (\<lambda>(s, d). s = b) es)) = {s. (b, s) \<in> set es}" for es
      by (induction es) auto
    ultimately show ?thesis by simp
  qed
  moreover have "set (omap_get [] m b) = {s. \<exists>ss. map_of m b = Some ss \<and> s \<in> set ss}" for m :: "(node_id, node_id list) omap"
    by (cases "map_of m b") (simp_all add: omap_get_def)
  ultimately have "{s. \<exists>ss. map_of (buildSuccessorMap I) b = Some ss \<and> s \<in> set ss} = {s. (b, s) \<in> set (getEdges I)}"
    by (simp only:)
  then show ?thesis by (simp only: set_eq_iff mem_Collect_eq)
qed

lemma computeReachableDefs_eq:
  assumes "v \<in> set tracked"
  shows "computeReachableDefs I tracked (buildSuccessorMap I) v =
    (set (getEdges I))\<^sup>* `` {b \<in> set (getBlocks I). definesIn I b v}"
proof -
  let ?defs = "filter (\<lambda>b. definesIn I b v) (getBlocks I)"
  have "reachLoop (buildSuccessorMap I) ?defs (set ?defs) = (set (getEdges I))\<^sup>* `` set ?defs"
    by (rule reachLoop_closure) (simp_all only: map_of_successorMap Diff_cancel empty_iff subset_refl)
  with assms show ?thesis by (simp add: computeReachableDefs_def)
qed

lemma hasD_iff:
  "hasD (buildContext c I) b v \<longleftrightarrow> b \<in> set (getBlocks I) \<and> v \<in> set (getVMObjs I) \<union> set (getIneligibleObjs I) \<and>
     (\<exists>a \<in> set (getBlocks I). definesIn I a v \<and> (a, b) \<in> (set (getEdges I))\<^sup>*)"
proof -
  have "reachableDefs (buildContext c I) v =
      computeReachableDefs I (stableSortAndUniqueValues I (collectSortedValues I (getVMObjs I) @ getIneligibleObjs I)) (buildSuccessorMap I) v"
    by (simp add: buildContext_def Let_def)
  then show ?thesis
    using computeReachableDefs_eq [of v "stableSortAndUniqueValues I (collectSortedValues I (getVMObjs I) @ getIneligibleObjs I)" I]
    by (auto simp: hasD_def)
qed


section \<open>What a feasible assignment satisfies\<close>

definition satisfies :: "assignment \<Rightarrow> grb_model \<Rightarrow> bool" where
  "satisfies X M \<longleftrightarrow>
     (\<forall>d \<in> set (gm_vars M). vd_lb d \<le> X (vd_var d) \<and> X (vd_var d) \<le> vd_ub d \<and>
        (vd_type d = GRB_BINARY \<longrightarrow> X (vd_var d) = 0 \<or> X (vd_var d) = 1)) \<and>
     (\<forall>c \<in> set (gm_constrs M). holds X c)"

definition solver_sound :: "gurobi \<Rightarrow> bool" where
  "solver_sound G \<longleftrightarrow>
     (\<forall>t g M out. grb_optimize G t g M = Some out \<and> (go_status out = GRB_OPTIMAL \<or> go_solCount out > 0) \<longrightarrow>
        satisfies (go_X out) M)"

text \<open>The views the optimizer relies on: edges and exits are blocks, live-in objects are tracked, the two kinds
  of objects are disjoint, and energies are not negative, with every block costing some.\<close>

definition view_ok :: "milp_view \<Rightarrow> bool" where
  "view_ok I \<longleftrightarrow>
     getEntryBlock I \<in> set (getBlocks I) \<and> getEntryBlock I \<noteq> kInvalidNodeId \<and>
     (\<forall>(p, s) \<in> set (getEdges I). p \<in> set (getBlocks I) \<and> s \<in> set (getBlocks I)) \<and>
     set (getExitBlocks I) \<subseteq> set (getBlocks I) \<and>
     (\<forall>v. isIneligible I v \<longleftrightarrow> v \<in> set (getIneligibleObjs I)) \<and>
     set (getVMObjs I) \<inter> set (getIneligibleObjs I) = {} \<and>
     (\<forall>b \<in> set (getBlocks I). set (getEligLiveIn I b) \<subseteq> set (getVMObjs I) \<and>
        set (getIneligLiveIn I b) \<subseteq> set (getIneligibleObjs I) \<and> getEBase I b > 0) \<and>
     (\<forall>b v. getENvm I b v \<ge> 0) \<and> (\<forall>v. getESave I v \<ge> 0 \<and> getERestore I v \<ge> 0)"

lemma satisfies_groups:
  assumes "satisfies X (buildModel C)"
  shows "list_all (holds X) (constrainEntryAsRegionStart C)" "list_all (holds X) (constrainNeedRestoreLinearization C)"
    "list_all (holds X) (constrainVMCapacity C)" "list_all (holds X) (constrainPlacementPropagation C)"
    "list_all (holds X) (constrainDirtyPropagation C)" "list_all (holds X) (constrainSaveAtRegionBoundary C)"
    "list_all (holds X) (constrainEnergyInitAtRegionStart C)" "list_all (holds X) (constrainEnergyPropagation C)"
    "list_all (holds X) (constrainEnergyWithinCapacity C)"
  using assms by (simp_all add: satisfies_def buildModel_def addConstraints_def list_all_iff)

lemma satisfies_var:
  assumes "satisfies X (buildModel C)" and "d \<in> set (addVariables C)"
  shows "vd_lb d \<le> X (vd_var d)" "X (vd_var d) \<le> vd_ub d" "vd_type d = GRB_BINARY \<Longrightarrow> X (vd_var d) = 0 \<or> X (vd_var d) = 1"
  using assms by (auto simp: satisfies_def buildModel_def)

lemma feasible_r:
  assumes "satisfies X (buildModel C)" and "b \<in> set (getBlocks (cx_view C))"
  shows "X (VarR b) = 0 \<or> X (VarR b) = 1"
  using satisfies_var(3) [OF assms(1), of "\<lparr>vd_var = VarR b, vd_lb = 0, vd_ub = 1, vd_type = GRB_BINARY\<rparr>"] assms(2)
  by (auto simp: addVariables_def Let_def)

lemma feasible_place:
  assumes "satisfies X (buildModel C)" "b \<in> set (getBlocks (cx_view C))" "v \<in> set (orderedVmObjs C)"
    "v \<in> set (orderedTrackedValues C)" "\<not> isIneligible (cx_view C) v"
  shows "X (placeVar C b v) = 0 \<or> X (placeVar C b v) = 1"
  using satisfies_var(3) [OF assms(1), of "\<lparr>vd_var = placeVar C b v, vd_lb = 0, vd_ub = 1, vd_type = GRB_BINARY\<rparr>"] assms(2-)
  by (auto simp: addVariables_def Let_def placeVar_def)

lemma feasible_d:
  assumes "satisfies X (buildModel C)" "hasD C b v"
  shows "0 \<le> X (VarD b v)" "X (VarD b v) \<le> 1"
  using satisfies_var(1,2) [OF assms(1), of "\<lparr>vd_var = VarD b v, vd_lb = 0, vd_ub = 1, vd_type = GRB_CONTINUOUS\<rparr>"] assms(2)
  by (auto simp: addVariables_def Let_def hasD_def)

lemma feasible_s:
  assumes "satisfies X (buildModel C)" "(b, v) \<in> set (sKeys C)"
  shows "0 \<le> X (VarS b v)" "X (VarS b v) \<le> 1"
  using satisfies_var(1,2) [OF assms(1), of "\<lparr>vd_var = VarS b v, vd_lb = 0, vd_ub = 1, vd_type = GRB_CONTINUOUS\<rparr>"] assms(2)
  by (force simp: addVariables_def Let_def)+

lemma feasible_rHat:
  assumes "satisfies X (buildModel C)" "(b, v) \<in> set (rHatKeys C)"
  shows "0 \<le> X (VarRHat b v)" "X (VarRHat b v) \<le> X (VarR b)" "X (VarRHat b v) \<le> X (placeVar C b v)"
    "X (VarR b) + X (placeVar C b v) - 1 \<le> X (VarRHat b v)"
proof -
  show "0 \<le> X (VarRHat b v)"
    using satisfies_var(1) [OF assms(1), of "\<lparr>vd_var = VarRHat b v, vd_lb = 0, vd_ub = 1, vd_type = GRB_CONTINUOUS\<rparr>"] assms(2)
    by (force simp: addVariables_def Let_def)
  show "X (VarRHat b v) \<le> X (VarR b)" "X (VarRHat b v) \<le> X (placeVar C b v)"
    "X (VarR b) + X (placeVar C b v) - 1 \<le> X (VarRHat b v)"
    using satisfies_groups(2) [OF assms(1)] assms(2) by (force simp: constrainNeedRestoreLinearization_def list_all_iff Let_def)+
qed

lemma feasible_entry:
  assumes "satisfies X (buildModel C)" "view_ok (cx_view C)"
  shows "X (VarR (getEntryBlock (cx_view C))) = 1"
  using satisfies_groups(1) [OF assms(1)] assms(2) by (simp add: constrainEntryAsRegionStart_def Let_def view_ok_def)

lemma feasible_placement_edge:
  assumes "satisfies X (buildModel C)" "(p, s) \<in> set (getEdges (cx_view C))" "v \<in> set (orderedVmObjs C)" "X (VarR s) = 0"
  shows "X (placeVar C s v) = X (placeVar C p v)"
proof (cases "cx_coarse C")
  case False
  let ?cs = "[LinLe (linVar (VarM s v)) (linAdd (linVar (VarM p v)) (linVar (VarR s))),
     LinGe (linVar (VarM s v)) (linSub (linVar (VarM p v)) (linVar (VarR s)))]"
  have "set ?cs \<subseteq> set (constrainPlacementPropagation C)"
    unfolding constrainPlacementPropagation_def Let_def if_not_P [OF False] set_append set_concat set_map
    by (rule subset_trans [OF _ Un_upper1]) (use assms(2,3) in \<open>fastforce\<close>)
  then have "list_all (holds X) ?cs" using satisfies_groups(4) [OF assms(1)] by (auto simp only: list_all_iff)
  with assms(4) False show ?thesis by (simp add: placeVar_def)
qed (simp add: placeVar_def)

lemma feasible_merge:
  assumes "satisfies X (buildModel C)" "b \<in> set (getBlocks (cx_view C))" "b \<noteq> getEntryBlock (cx_view C)" "v \<in> set (orderedVmObjs C)"
    "p \<in> set (predsOf C b)" "q \<in> set (predsOf C b)"
  shows "X (placeVar C p v) = X (placeVar C q v)"
proof (cases "cx_coarse C \<or> p = q")
  case False
  obtain a ps where ps: "predsOf C b = a # ps" using assms(5) by (cases "predsOf C b") auto
  have "length (predsOf C b) > 1" using assms(5,6) False ps by (cases ps) auto
  then have "list_all (holds X) (mergeEqualities (predsOf C b) (orderedVmObjs C))"
    using satisfies_groups(4) [OF assms(1)] False assms(2,3)
    by (auto simp: constrainPlacementPropagation_def list_all_iff Let_def)
  then have "\<forall>v \<in> set (orderedVmObjs C). \<forall>q \<in> set ps. X (VarM a v) = X (VarM q v)"
    unfolding ps mergeEqualities_def list_all_iff by fastforce
  then have "X (VarM q' v) = X (VarM a v)" if "q' \<in> set (predsOf C b)" for q'
    using that assms(4) ps by auto
  from this [OF assms(5)] this [OF assms(6)] False show ?thesis by (simp add: placeVar_def)
qed (auto simp: placeVar_def)

lemma feasible_dirty:
  assumes "satisfies X (buildModel C)" "hasD C b v"
  shows "definesIn (cx_view C) b v \<Longrightarrow> X (VarD b v) = 1"
    "\<not> definesIn (cx_view C) b v \<Longrightarrow> X (VarD b v) \<le> (\<Sum>p \<leftarrow> predsOf C b. if hasD C p v then X (VarD p v) else 0)"
    "\<not> definesIn (cx_view C) b v \<Longrightarrow> X (VarD b v) \<le> 1 - X (VarR b)"
proof -
  let ?def = "if definesIn (cx_view C) b v then 1 else 0 :: real"
  have bv: "b \<in> set (getBlocks (cx_view C))" "v \<in> set (orderedTrackedValues C)" using assms(2) by (auto simp: hasD_def)
  let ?cs = "[LinGe (linVar (VarD b v)) (linConst ?def), LinLe (linVar (VarD b v)) (linAdd (linConst ?def) (predDirtySum C b v)),
     LinLe (linVar (VarD b v)) (linAdd (linConst ?def) (linSub (linConst 1) (linVar (VarR b))))]"
  have "set ?cs \<subseteq> set (constrainDirtyPropagation C)"
    unfolding constrainDirtyPropagation_def Let_def set_append set_concat set_map
    by (rule subset_trans [OF _ Un_upper1]) (use assms(2) bv in \<open>fastforce\<close>)
  then have "list_all (holds X) ?cs" using satisfies_groups(5) [OF assms(1)] by (auto simp only: list_all_iff)
  then have L: "?def \<le> X (VarD b v)" "X (VarD b v) \<le> ?def + (\<Sum>p \<leftarrow> predsOf C b. if hasD C p v then X (VarD p v) else 0)"
      "X (VarD b v) \<le> ?def + (1 - X (VarR b))"
    by (simp_all add: evalLin_predDirtySum)
  from L feasible_d [OF assms] show "definesIn (cx_view C) b v \<Longrightarrow> X (VarD b v) = 1" by simp
  from L show "\<not> definesIn (cx_view C) b v \<Longrightarrow> X (VarD b v) \<le> (\<Sum>p \<leftarrow> predsOf C b. if hasD C p v then X (VarD p v) else 0)"
    "\<not> definesIn (cx_view C) b v \<Longrightarrow> X (VarD b v) \<le> 1 - X (VarR b)" by simp_all
qed

lemma feasible_dirty_edge:
  assumes "satisfies X (buildModel C)" "(p, s) \<in> set (getEdges (cx_view C))" "hasD C p v" "hasD C s v"
  shows "X (VarD p v) - X (VarR s) \<le> X (VarD s v)"
proof -
  have v: "v \<in> set (orderedTrackedValues C)" using assms(3) by (simp add: hasD_def)
  have "LinGe (linVar (VarD s v)) (linSub (linVar (VarD p v)) (linVar (VarR s))) \<in> set (constrainDirtyPropagation C)"
    unfolding constrainDirtyPropagation_def Let_def set_append set_concat set_map
    by (rule UnI2) (use assms(2-) v in \<open>fastforce\<close>)
  with satisfies_groups(5) [OF assms(1)] show ?thesis by (auto simp: list_all_iff)
qed

lemma feasible_save:
  assumes "satisfies X (buildModel C)" "(b, v) \<in> set (sKeys C)"
  shows "X (VarS b v) \<le> X (VarR b)"
    "X (VarS b v) \<le> (\<Sum>p \<leftarrow> predsOf C b. if hasD C p v then X (VarD p v) else 0)"
    "\<not> isIneligible (cx_view C) v \<Longrightarrow> cx_coarse C \<Longrightarrow> X (VarS b v) \<le> X (VarMGlobal v)"
    "\<not> isIneligible (cx_view C) v \<Longrightarrow> \<not> cx_coarse C \<Longrightarrow> X (VarS b v) \<le> (\<Sum>p \<leftarrow> predsOf C b. X (VarM p v))"
proof -
  have "list_all (holds X) (saveTightening C (b, v))"
    using satisfies_groups(6) [OF assms(1)] assms(2) by (auto simp: constrainSaveAtRegionBoundary_def list_all_iff)
  then show "X (VarS b v) \<le> X (VarR b)"
    "X (VarS b v) \<le> (\<Sum>p \<leftarrow> predsOf C b. if hasD C p v then X (VarD p v) else 0)"
    "\<not> isIneligible (cx_view C) v \<Longrightarrow> cx_coarse C \<Longrightarrow> X (VarS b v) \<le> X (VarMGlobal v)"
    "\<not> isIneligible (cx_view C) v \<Longrightarrow> \<not> cx_coarse C \<Longrightarrow> X (VarS b v) \<le> (\<Sum>p \<leftarrow> predsOf C b. X (VarM p v))"
    by (simp_all add: saveTightening_def Let_def evalLin_predDirtySum evalLin_predPlaceSum)
qed

lemma feasible_save_edge:
  assumes "satisfies X (buildModel C)" "(b, v) \<in> set (sKeys C)" "(p, b) \<in> set (getEdges (cx_view C))" "hasD C p v"
  shows "isIneligible (cx_view C) v \<Longrightarrow> X (VarD p v) + X (VarR b) - 1 \<le> X (VarS b v)"
    "\<not> isIneligible (cx_view C) v \<Longrightarrow> X (VarD p v) + X (placeVar C p v) + X (VarR b) - 2 \<le> X (VarS b v)"
proof -
  have "set (saveOnEdge C p b v) \<subseteq> set (constrainSaveAtRegionBoundary C)"
    unfolding constrainSaveAtRegionBoundary_def set_append set_concat set_map
    by (rule subset_trans [OF _ Un_upper2]) (use assms(2,3) in \<open>fastforce\<close>)
  then have "list_all (holds X) (saveOnEdge C p b v)" using satisfies_groups(6) [OF assms(1)] by (auto simp: list_all_iff)
  with assms(4) show "isIneligible (cx_view C) v \<Longrightarrow> X (VarD p v) + X (VarR b) - 1 \<le> X (VarS b v)"
    "\<not> isIneligible (cx_view C) v \<Longrightarrow> X (VarD p v) + X (placeVar C p v) + X (VarR b) - 2 \<le> X (VarS b v)"
    by (simp_all add: saveOnEdge_def Let_def)
qed

lemma feasible_energy:
  assumes "satisfies X (buildModel C)"
  shows "b \<in> set (getBlocks (cx_view C)) \<Longrightarrow> X (VarR b) = 1 \<Longrightarrow> X (VarEAccum b) = evalLin X (buildEStart C b)"
    "(s, d) \<in> set (getEdges (cx_view C)) \<Longrightarrow> X (VarR d) = 0 \<Longrightarrow> X (VarEAccum s) + evalLin X (buildEBlk C s) \<le> X (VarEAccum d)"
    "(s, d) \<in> set (getEdges (cx_view C)) \<Longrightarrow>
       X (VarEAccum s) + evalLin X (buildEBlk C s) + evalLin X (buildEEnd C d) \<le> mp_capacity (getParams (cx_view C))"
    "b \<in> set (getExitBlocks (cx_view C)) \<Longrightarrow> X (VarEAccum b) + evalLin X (buildEBlk C b) \<le> mp_capacity (getParams (cx_view C))"
proof -
  show "b \<in> set (getBlocks (cx_view C)) \<Longrightarrow> X (VarR b) = 1 \<Longrightarrow> X (VarEAccum b) = evalLin X (buildEStart C b)"
    using satisfies_groups(7) [OF assms] by (fastforce simp: constrainEnergyInitAtRegionStart_def list_all_iff Let_def)
  show "(s, d) \<in> set (getEdges (cx_view C)) \<Longrightarrow> X (VarR d) = 0 \<Longrightarrow> X (VarEAccum s) + evalLin X (buildEBlk C s) \<le> X (VarEAccum d)"
    using satisfies_groups(8) [OF assms] by (fastforce simp: constrainEnergyPropagation_def list_all_iff Let_def)
  show "(s, d) \<in> set (getEdges (cx_view C)) \<Longrightarrow>
       X (VarEAccum s) + evalLin X (buildEBlk C s) + evalLin X (buildEEnd C d) \<le> mp_capacity (getParams (cx_view C))"
    using satisfies_groups(9) [OF assms]
    by (auto simp: constrainEnergyWithinCapacity_def Let_def list_all_iff dest!: bspec
        [where x = "LinLe (linAdd (linAdd (linVar (VarEAccum s)) (buildEBlk C s)) (buildEEnd C d)) (linConst (mp_capacity (getParams (cx_view C))))"])
  show "b \<in> set (getExitBlocks (cx_view C)) \<Longrightarrow> X (VarEAccum b) + evalLin X (buildEBlk C b) \<le> mp_capacity (getParams (cx_view C))"
    using satisfies_groups(9) [OF assms]
    by (auto simp: constrainEnergyWithinCapacity_def Let_def list_all_iff dest!: bspec
        [where x = "LinLe (linAdd (linVar (VarEAccum b)) (buildEBlk C b)) (linConst (mp_capacity (getParams (cx_view C))))"])
qed

section \<open>Sums\<close>

lemma sum_le_sum_list:
  fixes f :: "'a \<Rightarrow> real"
  assumes "\<And>x. x \<in> set xs \<Longrightarrow> 0 \<le> f x" and "A \<subseteq> set xs"
  shows "sum f A \<le> (\<Sum>x \<leftarrow> xs. f x)"
proof -
  have "sum f A \<le> sum f (set xs)" by (rule sum_mono2) (use assms in auto)
  also have "\<dots> \<le> (\<Sum>x \<leftarrow> xs. f x)"
    using assms(1) by (induction xs) (auto simp: sum.insert_if intro: order_trans [OF _ add_left_mono] add_increasing)
  finally show ?thesis .
qed

lemma sum_keys_le:
  fixes g :: "'k \<times> 'v \<Rightarrow> real"
  assumes "\<And>v. v \<in> A \<Longrightarrow> (b, v) \<in> set ks \<and> h v \<le> g (b, v)" and "\<And>k. k \<in> set ks \<Longrightarrow> 0 \<le> g k"
  shows "sum h A \<le> (\<Sum>k \<leftarrow> ks. g k)"
proof -
  have "sum h A \<le> sum (\<lambda>v. g (b, v)) A" by (rule sum_mono) (use assms(1) in auto)
  also have "\<dots> = sum g (Pair b ` A)" by (subst sum.reindex) (auto simp: inj_on_def)
  also have "\<dots> \<le> (\<Sum>k \<leftarrow> ks. g k)" by (rule sum_le_sum_list) (use assms in auto)
  finally show ?thesis .
qed

lemma sum_Un_le:
  fixes f :: "'a \<Rightarrow> real"
  assumes "finite A" "finite B" "\<And>x. 0 \<le> f x"
  shows "sum f (A \<union> B) \<le> sum f A + sum f B"
  using sum.union_inter [OF assms(1,2), of f] sum_nonneg [of "A \<inter> B" f] assms(3) by simp

section \<open>Exactness of the continuous variables\<close>

definition feasible_for :: "bool \<Rightarrow> milp_view \<Rightarrow> assignment \<Rightarrow> bool" where
  "feasible_for c I X \<longleftrightarrow> view_ok I \<and> satisfies X (buildModel (buildContext c I))"

lemma feasible_sat: "feasible_for c I X \<Longrightarrow> satisfies X (buildModel (buildContext c I))"
  by (simp add: feasible_for_def)

lemma view_okD:
  assumes "view_ok I"
  shows "(p, s) \<in> set (getEdges I) \<Longrightarrow> p \<in> set (getBlocks I)" "(p, s) \<in> set (getEdges I) \<Longrightarrow> s \<in> set (getBlocks I)"
    "isIneligible I v \<longleftrightarrow> v \<in> set (getIneligibleObjs I)" "v \<in> set (getVMObjs I) \<Longrightarrow> v \<notin> set (getIneligibleObjs I)"
    "b \<in> set (getBlocks I) \<Longrightarrow> v \<in> set (getEligLiveIn I b) \<Longrightarrow> v \<in> set (getVMObjs I)"
    "b \<in> set (getBlocks I) \<Longrightarrow> v \<in> set (getIneligLiveIn I b) \<Longrightarrow> v \<in> set (getIneligibleObjs I)"
    "b \<in> set (getBlocks I) \<Longrightarrow> getEBase I b > 0" "getENvm I b v \<ge> 0" "getESave I v \<ge> 0" "getERestore I v \<ge> 0"
    "b \<in> set (getExitBlocks I) \<Longrightarrow> b \<in> set (getBlocks I)"
  using assms unfolding view_ok_def by auto

lemma place_binary:
  assumes "feasible_for c I X" "b \<in> set (getBlocks I)" "v \<in> set (getVMObjs I)"
  shows "X (placeVar (buildContext c I) b v) = 0 \<or> X (placeVar (buildContext c I) b v) = 1"
  using assms view_okD(3,4) [of I v] by (intro feasible_place) (auto simp: feasible_for_def)

lemma EBlk_pos:
  assumes "feasible_for c I X" "b \<in> set (getBlocks I)"
  shows "0 < evalLin X (buildEBlk (buildContext c I) b)"
proof -
  have "0 \<le> getENvm I b v * (1 - X (placeVar (buildContext c I) b v))" if "v \<in> set (getVMObjs I)" for v
    using place_binary [OF assms that] view_okD(8) [of I b v] assms(1) by (auto simp: feasible_for_def)
  then have "0 \<le> (\<Sum>v \<leftarrow> collectSortedValues I (getVMObjs I). getENvm I b v * (1 - X (placeVar (buildContext c I) b v)))"
    by (intro sum_list_nonneg) auto
  with view_okD(7) [of I b] assms show ?thesis by (simp add: evalLin_EBlk feasible_for_def)
qed

lemma sum_list_zero: "(\<And>x. x \<in> set xs \<Longrightarrow> f x = 0) \<Longrightarrow> (\<Sum>x \<leftarrow> xs. f x) = (0 :: real)"
  by (induction xs) auto

text \<open>Along an edge inside a region the accumulated energy grows, so the dirty flags are determined
  from the region starts and the definitions onwards: they are 0 or 1.\<close>

lemma d_exact:
  assumes "feasible_for c I X" "hasD (buildContext c I) b v"
  shows "X (VarD b v) = 0 \<or> X (VarD b v) = 1"
  using assms(2)
proof (induction "card {b' \<in> set (getBlocks I). X (VarEAccum b') < X (VarEAccum b)}" arbitrary: b rule: less_induct)
  case less
  let ?C = "buildContext c I"
  note sat = feasible_sat [OF assms(1)]
  have b: "b \<in> set (getBlocks I)" using less.prems by (simp add: hasD_def)
  note bnd = feasible_d [OF sat less.prems]
  note drt = feasible_dirty [OF sat less.prems, simplified]
  show ?case
  proof (cases "definesIn I b v \<or> X (VarR b) = 1")
    case True
    then show ?thesis using drt(1,3) bnd by (cases "definesIn I b v") auto
  next
    case False
    then have r0: "X (VarR b) = 0" using feasible_r [OF sat, of b] b by auto
    have IH: "X (VarD p v) = 0 \<or> X (VarD p v) = 1" if p: "(p, b) \<in> set (getEdges I)" "hasD ?C p v" for p
    proof (rule less.hyps [OF _ p(2)])
      have pb: "p \<in> set (getBlocks I)" using p(2) by (simp add: hasD_def)
      have "X (VarEAccum p) < X (VarEAccum b)"
        using feasible_energy(2) [OF sat, of p b] p(1) r0 EBlk_pos [OF assms(1) pb] by simp
      then have "{b' \<in> set (getBlocks I). X (VarEAccum b') < X (VarEAccum p)} \<subset> {b' \<in> set (getBlocks I). X (VarEAccum b') < X (VarEAccum b)}"
        using pb by (auto intro: order.strict_trans)
      then show "card {b' \<in> set (getBlocks I). X (VarEAccum b') < X (VarEAccum p)} < card {b' \<in> set (getBlocks I). X (VarEAccum b') < X (VarEAccum b)}"
        by (rule psubset_card_mono [rotated]) simp
    qed
    show ?thesis
    proof (cases "\<exists>p. (p, b) \<in> set (getEdges I) \<and> hasD ?C p v \<and> X (VarD p v) = 1")
      case True
      then obtain p where p: "(p, b) \<in> set (getEdges I)" "hasD ?C p v" "X (VarD p v) = 1" by blast
      from feasible_dirty_edge [OF sat, of p b v] p less.prems r0 bnd show ?thesis by simp
    next
      case none: False
      have "(\<Sum>p \<leftarrow> predsOf ?C b. if hasD ?C p v then X (VarD p v) else 0) = 0"
        by (rule sum_list_zero) (use none IH in auto)
      with drt(2) False bnd show ?thesis by auto
    qed
  qed
qed

lemma s_exact:
  assumes "feasible_for c I X" "(b, v) \<in> set (sKeys (buildContext c I))"
  shows "X (VarS b v) = 0 \<or> X (VarS b v) = 1"
proof -
  let ?C = "buildContext c I"
  note sat = feasible_sat [OF assms(1)]
  note bnd = feasible_s [OF sat assms(2)] and up = feasible_save [OF sat assms(2)]
  have ok: "view_ok I" using assms(1) by (simp add: feasible_for_def)
  have k: "b \<in> set (getBlocks I)" "b \<noteq> getEntryBlock I" "v \<in> set (getEligLiveIn I b) \<union> set (getIneligLiveIn I b)"
    using assms(2) by (auto simp: set_sKeys)
  have elig: "v \<in> set (getVMObjs I)" if "\<not> isIneligible I v" using k that view_okD(3,5,6) [OF ok] by blast
  show ?thesis
  proof (cases "X (VarR b) = 1")
    case False
    then show ?thesis using feasible_r [OF sat, of b] k(1) up(1) bnd by auto
  next
    case r1: True
    show ?thesis
    proof (cases "\<exists>p. (p, b) \<in> set (getEdges I) \<and> hasD ?C p v \<and> X (VarD p v) = 1 \<and> (isIneligible I v \<or> X (placeVar ?C p v) = 1)")
      case True
      then obtain p where p: "(p, b) \<in> set (getEdges I)" "hasD ?C p v" "X (VarD p v) = 1" "isIneligible I v \<or> X (placeVar ?C p v) = 1" by blast
      from feasible_save_edge [OF sat assms(2), simplified, OF p(1,2)] p(3,4) r1 bnd show ?thesis by (cases "isIneligible I v") auto
    next
      case none: False
      show ?thesis
      proof (cases "\<exists>p. (p, b) \<in> set (getEdges I) \<and> hasD ?C p v \<and> X (VarD p v) = 1")
        case False
        have "(\<Sum>p \<leftarrow> predsOf ?C b. if hasD ?C p v then X (VarD p v) else 0) = 0"
          by (rule sum_list_zero) (use False d_exact [OF assms(1)] in auto)
        with up(2) bnd show ?thesis by auto
      next
        case True
        then obtain p where p: "(p, b) \<in> set (getEdges I)" "hasD ?C p v" "X (VarD p v) = 1" by blast
        with none have nel: "\<not> isIneligible I v" and m: "X (placeVar ?C p v) \<noteq> 1" by auto
        have pb: "p \<in> set (getBlocks I)" using view_okD(1) [OF ok p(1)] .
        have m0: "X (placeVar ?C p v) = 0" using m place_binary [OF assms(1) pb elig [OF nel]] by blast
        have "X (placeVar ?C q v) = 0" if "(q, b) \<in> set (getEdges I)" for q
          using feasible_merge [OF sat, of b v p q] k p(1) that m0 elig [OF nel] by simp
        then have "X (VarS b v) \<le> 0"
          using up(3,4) nel m0 sum_list_zero [of "predsOf ?C b" "\<lambda>p. X (VarM p v)"] by (cases c) (auto simp: placeVar_def)
        with bnd show ?thesis by auto
      qed
    qed
  qed
qed


section \<open>The extracted solution\<close>

lemma map_of_putAll: "map_of (putAll f ks m) k = (if k \<in> set ks then Some (f k) else map_of m k)"
  unfolding putAll_def by (induction ks arbitrary: m) auto

lemma extract_r:
  assumes "feasible_for c I X"
  shows "sol_r (extractSolution (buildContext c I) X obj sol) = {b \<in> set (getBlocks I). X (VarR b) = 1}"
proof -
  have half: "X (VarR b) > 1 / 2 \<longleftrightarrow> X (VarR b) = 1" if "b \<in> set (getBlocks I)" for b
    using feasible_r [OF feasible_sat [OF assms], of b] that by auto
  have "sol_r (extractSolution (buildContext c I) X obj sol) = {b \<in> set (getBlocks I). X (VarR b) > 1 / 2}"
    by (simp add: extractSolution_def Let_def)
  with half show ?thesis by blast
qed

lemma extract_m:
  assumes "feasible_for c I X" "b \<in> set (getBlocks I)"
  shows "v \<in> set (getVMObjs I) \<Longrightarrow>
      map_of (sol_m (extractSolution (buildContext c I) X obj sol)) (b, v) = Some (X (placeVar (buildContext c I) b v) = 1)"
    "v \<in> set (getIneligibleObjs I) \<Longrightarrow> map_of (sol_m (extractSolution (buildContext c I) X obj sol)) (b, v) = Some True"
proof -
  have ok: "view_ok I" using assms(1) by (simp add: feasible_for_def)
  show "map_of (sol_m (extractSolution (buildContext c I) X obj sol)) (b, v) = Some True" if "v \<in> set (getIneligibleObjs I)"
    using assms(2) that by (auto simp: extractSolution_def Let_def map_of_putAll)
  assume v: "v \<in> set (getVMObjs I)"
  have nel: "v \<notin> set (getIneligibleObjs I)" "\<not> isIneligible I v" using view_okD(3,4) [OF ok] v by auto
  have "map_of (sol_m (extractSolution (buildContext c I) X obj sol)) (b, v) = Some (X (placeVar (buildContext c I) b v) > 1 / 2)"
    using assms(2) v nel by (cases c) (auto simp: extractSolution_def Let_def map_of_putAll placeVar_def)
  then show "map_of (sol_m (extractSolution (buildContext c I) X obj sol)) (b, v) = Some (X (placeVar (buildContext c I) b v) = 1)"
    using place_binary [OF assms v] by auto
qed

lemma extract_rHat:
  assumes "feasible_for c I X" "b \<in> set (getBlocks I)"
  shows "map_of (sol_rHat (extractSolution (buildContext c I) X obj sol)) (b, v) =
    (if v \<in> set (getIneligLiveIn I b) then Some (X (VarR b) = 1)
     else if v \<in> set (getEligLiveIn I b) then Some (X (VarR b) = 1 \<and> X (placeVar (buildContext c I) b v) = 1) else None)"
proof -
  let ?C = "buildContext c I"
  have ok: "view_ok I" using assms(1) by (simp add: feasible_for_def)
  note sat = feasible_sat [OF assms(1)]
  have r: "X (VarR b) = 0 \<or> X (VarR b) = 1" using feasible_r [OF sat, of b] assms(2) by simp
  have "X (VarRHat b v) > 1 / 2 \<longleftrightarrow> X (VarR b) = 1 \<and> X (placeVar ?C b v) = 1" if v: "v \<in> set (getEligLiveIn I b)"
  proof -
    have k: "(b, v) \<in> set (rHatKeys ?C)" using assms(2) v by (simp add: set_rHatKeysOf)
    have m: "X (placeVar ?C b v) = 0 \<or> X (placeVar ?C b v) = 1" by (rule place_binary [OF assms view_okD(5) [OF ok assms(2) v]])
    from feasible_rHat [OF sat k] r m show ?thesis by (elim disjE) auto
  qed
  moreover have "sol_rHat (extractSolution ?C X obj sol) =
      putAll (\<lambda>(b, v). b \<in> sol_r (extractSolution ?C X obj sol)) (concat (map (\<lambda>b. map (Pair b) (getIneligLiveIn I b)) (getBlocks I)))
        (putAll (\<lambda>(b, v). X (VarRHat b v) > 1 / 2) (rHatKeysOf I) [])"
    by (simp add: extractSolution_def Let_def)
  ultimately show ?thesis using assms(2) by (auto simp: map_of_putAll set_rHatKeysOf extract_r [OF assms(1)])
qed

lemma extract_s:
  assumes "feasible_for c I X"
  shows "map_of (sol_s (extractSolution (buildContext c I) X obj sol)) (b, v) =
    (if (b, v) \<in> set (sKeys (buildContext c I)) then Some (X (VarS b v) = 1) else None)"
proof -
  have "X (VarS b v) > 1 / 2 \<longleftrightarrow> X (VarS b v) = 1" if "(b, v) \<in> set (sKeys (buildContext c I))"
    using s_exact [OF assms that] by auto
  then show ?thesis by (simp add: extractSolution_def Let_def map_of_putAll)
qed

section \<open>Energy of a region\<close>

text \<open>The energy an execution needs under a solution: the prologue and the restores of the region start, the blocks
  with the NVM penalty of the variables they do not hold in VM, and at the next region start the epilogue
  and the saves.\<close>

definition startEnergy :: "milp_view \<Rightarrow> MILPSolution \<Rightarrow> node_id \<Rightarrow> double" where
  "startEnergy I sol b = mp_E_pro (getParams I) + (\<Sum>v | map_of (sol_rHat sol) (b, v) = Some True. getERestore I v)"

definition blockEnergy :: "milp_view \<Rightarrow> MILPSolution \<Rightarrow> node_id \<Rightarrow> double" where
  "blockEnergy I sol b = getEBase I b + (\<Sum>v \<in> set (getVMObjs I). if map_of (sol_m sol) (b, v) = Some True then 0 else getENvm I b v)"

definition endEnergy :: "milp_view \<Rightarrow> MILPSolution \<Rightarrow> node_id \<Rightarrow> double" where
  "endEnergy I sol b =
     (if b \<in> sol_r sol then mp_E_epi (getParams I) + (\<Sum>v | map_of (sol_s sol) (b, v) = Some True. getESave I v) else 0)"

fun region_path :: "milp_view \<Rightarrow> MILPSolution \<Rightarrow> node_id list \<Rightarrow> bool" where
  "region_path I sol [] \<longleftrightarrow> False"
| "region_path I sol [b] \<longleftrightarrow> b \<in> sol_r sol"
| "region_path I sol (b # p # ps) \<longleftrightarrow> (p, b) \<in> set (getEdges I) \<and> b \<notin> sol_r sol \<and> region_path I sol (p # ps)"

definition regionEnergy :: "milp_view \<Rightarrow> MILPSolution \<Rightarrow> node_id list \<Rightarrow> double" where
  "regionEnergy I sol bs = startEnergy I sol (last bs) + (\<Sum>b \<leftarrow> bs. blockEnergy I sol b)"

lemma startEnergy_le:
  assumes "feasible_for c I X" "b \<in> set (getBlocks I)" "X (VarR b) = 1"
  shows "startEnergy I (extractSolution (buildContext c I) X obj sol) b \<le> evalLin X (buildEStart (buildContext c I) b)"
proof -
  let ?C = "buildContext c I" and ?sol = "extractSolution (buildContext c I) X obj sol"
  have ok: "view_ok I" using assms(1) by (simp add: feasible_for_def)
  let ?E = "{v \<in> set (getEligLiveIn I b). X (placeVar ?C b v) = 1}"
  have "{v. map_of (sol_rHat ?sol) (b, v) = Some True} \<subseteq> set (getIneligLiveIn I b) \<union> ?E"
    by (auto simp: extract_rHat [OF assms(1,2)] assms(3) split: if_splits)
  then have "(\<Sum>v | map_of (sol_rHat ?sol) (b, v) = Some True. getERestore I v) \<le> sum (getERestore I) (set (getIneligLiveIn I b) \<union> ?E)"
    by (intro sum_mono2) (use view_okD(10) [OF ok] in auto)
  also have "\<dots> \<le> sum (getERestore I) (set (getIneligLiveIn I b)) + sum (getERestore I) ?E"
    by (rule sum_Un_le) (use view_okD(10) [OF ok] in auto)
  also have "sum (getERestore I) (set (getIneligLiveIn I b)) \<le>
      (\<Sum>v \<leftarrow> collectSortedValues I (getIneligLiveIn I b). if getERestore I v > 0 then getERestore I v * X (VarR b) else 0)"
  proof -
    have "sum (getERestore I) (set (getIneligLiveIn I b)) = (\<Sum>v \<in> set (getIneligLiveIn I b). if getERestore I v > 0 then getERestore I v * X (VarR b) else 0)"
      by (rule sum.cong) (use assms(3) view_okD(10) [OF ok] in \<open>auto simp: order.antisym\<close>)
    also have "\<dots> \<le> (\<Sum>v \<leftarrow> collectSortedValues I (getIneligLiveIn I b). if getERestore I v > 0 then getERestore I v * X (VarR b) else 0)"
      by (rule sum_le_sum_list) (use assms(3) in auto)
    finally show ?thesis .
  qed
  also have "sum (getERestore I) ?E \<le> (\<Sum>k \<leftarrow> rHatKeys ?C. if fst k = b \<and> getERestore I (snd k) > 0 then getERestore I (snd k) * X (VarRHat b (snd k)) else 0)"
  proof (rule sum_keys_le)
    fix v assume v: "v \<in> ?E"
    then have k: "(b, v) \<in> set (rHatKeys ?C)" using assms(2) by (simp add: set_rHatKeysOf)
    have "X (VarRHat b v) = 1" using feasible_rHat [OF feasible_sat [OF assms(1)] k] v assms(3) by auto
    with k view_okD(10) [OF ok, of v] show "(b, v) \<in> set (rHatKeys ?C) \<and> getERestore I v \<le>
        (if fst (b, v) = b \<and> getERestore I (snd (b, v)) > 0 then getERestore I (snd (b, v)) * X (VarRHat b (snd (b, v))) else 0)" by auto
  next
    fix k assume "k \<in> set (rHatKeys ?C)"
    then show "0 \<le> (if fst k = b \<and> getERestore I (snd k) > 0 then getERestore I (snd k) * X (VarRHat b (snd k)) else 0)"
      using feasible_rHat(1) [OF feasible_sat [OF assms(1)], of b "snd k"] by (cases k) auto
  qed
  finally show ?thesis
    unfolding startEnergy_def evalLin_EStart buildContext_simps using assms(3) by simp
qed

lemma blockEnergy_le:
  assumes "feasible_for c I X" "b \<in> set (getBlocks I)"
  shows "blockEnergy I (extractSolution (buildContext c I) X obj sol) b \<le> evalLin X (buildEBlk (buildContext c I) b)"
proof -
  let ?C = "buildContext c I" and ?sol = "extractSolution (buildContext c I) X obj sol"
  have ok: "view_ok I" using assms(1) by (simp add: feasible_for_def)
  have "(\<Sum>v \<in> set (getVMObjs I). if map_of (sol_m ?sol) (b, v) = Some True then 0 else getENvm I b v)
      = (\<Sum>v \<in> set (getVMObjs I). getENvm I b v * (1 - X (placeVar ?C b v)))"
    by (rule sum.cong) (use place_binary [OF assms] extract_m(1) [OF assms] in auto)
  also have "\<dots> \<le> (\<Sum>v \<leftarrow> collectSortedValues I (getVMObjs I). getENvm I b v * (1 - X (placeVar ?C b v)))"
  proof (rule sum_le_sum_list)
    fix v assume "v \<in> set (collectSortedValues I (getVMObjs I))"
    then have "X (placeVar ?C b v) = 0 \<or> X (placeVar ?C b v) = 1" using place_binary [OF assms] by simp
    with view_okD(8) [OF ok, of b v] show "0 \<le> getENvm I b v * (1 - X (placeVar ?C b v))" by (elim disjE) simp_all
  qed simp
  finally show ?thesis by (simp add: blockEnergy_def evalLin_EBlk)
qed

lemma endEnergy_le:
  assumes "feasible_for c I X" "b \<in> set (getBlocks I)"
  shows "endEnergy I (extractSolution (buildContext c I) X obj sol) b \<le> evalLin X (buildEEnd (buildContext c I) b)"
proof -
  let ?C = "buildContext c I" and ?sol = "extractSolution (buildContext c I) X obj sol"
  let ?g = "\<lambda>k. if fst k = b \<and> getESave I (snd k) > 0 then getESave I (snd k) * X (VarS b (snd k)) else 0"
  have ok: "view_ok I" using assms(1) by (simp add: feasible_for_def)
  note sat = feasible_sat [OF assms(1)]
  have nn: "0 \<le> ?g k" if "k \<in> set (sKeys ?C)" for k
    using that feasible_s(1) [OF sat, of b "snd k"] by (cases k) auto
  have "sum (getESave I) {v. map_of (sol_s ?sol) (b, v) = Some True} \<le> (\<Sum>k \<leftarrow> sKeys ?C. ?g k)"
  proof (rule sum_keys_le [OF _ nn])
    fix v assume "v \<in> {v. map_of (sol_s ?sol) (b, v) = Some True}"
    then show "(b, v) \<in> set (sKeys ?C) \<and> getESave I v \<le> ?g (b, v)"
      using view_okD(9) [OF ok, of v] by (auto simp: extract_s [OF assms(1)] split: if_splits)
  qed
  moreover have "0 \<le> (\<Sum>k \<leftarrow> sKeys ?C. ?g k)" 
  proof (rule sum_list_nonneg)
    fix x assume "x \<in> set (map ?g (sKeys ?C))"
    then obtain k where "k \<in> set (sKeys ?C)" "x = ?g k" unfolding set_map by blast
    then show "0 \<le> x" using nn by blast
  qed
  moreover have "X (VarR b) = 0 \<or> X (VarR b) = 1" using feasible_r [OF sat, of b] assms(2) by simp
  ultimately show ?thesis
    unfolding endEnergy_def evalLin_EEnd buildContext_simps extract_r [OF assms(1)] using assms(2) by auto
qed

lemma region_accumulates:
  assumes "feasible_for c I X" "sol' = extractSolution (buildContext c I) X obj sol" "region_path I sol' bs"
  shows "hd bs \<in> set (getBlocks I) \<and>
    regionEnergy I sol' bs \<le> X (VarEAccum (hd bs)) + evalLin X (buildEBlk (buildContext c I) (hd bs))"
  using assms(3)
proof (induction bs rule: induct_list012)
  case (2 b)
  then have b: "b \<in> set (getBlocks I)" "X (VarR b) = 1" using extract_r [OF assms(1)] assms(2) by auto
  have "X (VarEAccum b) = evalLin X (buildEStart (buildContext c I) b)"
    using feasible_energy(1) [OF feasible_sat [OF assms(1)], of b] b by simp
  with b startEnergy_le [OF assms(1) b] blockEnergy_le [OF assms(1) b(1)] show ?case
    by (simp add: regionEnergy_def assms(2) add_mono)
next
  case (3 b p ps)
  have ok: "view_ok I" using assms(1) by (simp add: feasible_for_def)
  from 3(3) have e: "(p, b) \<in> set (getEdges I)" "b \<notin> sol_r sol'" "region_path I sol' (p # ps)" by auto
  have b: "b \<in> set (getBlocks I)" using view_okD(2) [OF ok e(1)] .
  have "X (VarR b) = 0"
    using e(2) b feasible_r [OF feasible_sat [OF assms(1)], of b] extract_r [OF assms(1)] assms(2) by auto
  then have "X (VarEAccum p) + evalLin X (buildEBlk (buildContext c I) p) \<le> X (VarEAccum b)"
    using feasible_energy(2) [OF feasible_sat [OF assms(1)], of p b] e(1) by simp
  moreover have "regionEnergy I sol' (p # ps) \<le> X (VarEAccum p) + evalLin X (buildEBlk (buildContext c I) p)"
    using 3(2) e(3) by simp
  ultimately have "regionEnergy I sol' (p # ps) + blockEnergy I sol' b \<le> X (VarEAccum b) + evalLin X (buildEBlk (buildContext c I) b)"
    using blockEnergy_le [OF assms(1) b] assms(2) by (meson add_mono order_trans)
  moreover have "regionEnergy I sol' (b # p # ps) = regionEnergy I sol' (p # ps) + blockEnergy I sol' b"
    by (simp add: regionEnergy_def)
  ultimately show ?case using b by simp
qed (use assms in auto)

lemma optimizer_solve_extracts:
  assumes "solver_sound G" "view_ok (op_view P)" "optimizer_solve G P = (True, P')"
  obtains X obj sol st gap where "feasible_for (coarseAllocation P) (op_view P) X"
    "op_solution P' = (extractSolution (buildContext (coarseAllocation P) (op_view P)) X obj sol)\<lparr>solverStatus := st, mipGap := gap\<rparr>"
proof -
  obtain P1 where e: "ensureModelBuilt G (P\<lparr>solveFailure := NoFailure\<rparr>) = (True, P1)"
      and m: "op_model P1 = op_model P" "coarseAllocation P1 = coarseAllocation P" "op_view P1 = op_view P"
    using assms(3) by (auto simp: optimizer_solve_def ensureModelBuilt_def Let_def op_model_def split: if_splits)
  define t where "t = (if op_timeLimit P1 > 0 then Some (op_timeLimit P1) else None)"
  define g where "g = (if op_mipGap P1 > 0 then Some (op_mipGap P1) else None)"
  obtain out where out: "grb_optimize G t g (op_model P) = Some out"
    using assms(3) e m by (auto simp: optimizer_solve_def Let_def t_def [symmetric] g_def [symmetric] split: if_splits option.splits)
  let ?sol = "extractSolution (buildContext (coarseAllocation P) (op_view P)) (go_X out) (go_objVal out) (op_solution P1)"
  have cases: "go_status out = GRB_OPTIMAL \<and> op_solution P' = ?sol\<lparr>solverStatus := Optimal\<rparr> \<or>
      go_solCount out > 0 \<and> op_solution P' = ?sol\<lparr>solverStatus := Feasible, mipGap := go_gap out\<rparr>"
    using assms(3) e m out
    by (auto simp: optimizer_solve_def Let_def t_def [symmetric] g_def [symmetric] split: if_splits)
  then have "satisfies (go_X out) (op_model P)" using assms(1) out unfolding solver_sound_def by blast
  then have f: "feasible_for (coarseAllocation P) (op_view P) (go_X out)" using assms(2) by (simp add: feasible_for_def op_model_def)
  from cases show thesis
  proof
    assume "go_status out = GRB_OPTIMAL \<and> op_solution P' = ?sol\<lparr>solverStatus := Optimal\<rparr>"
    then have "op_solution P' = ?sol\<lparr>solverStatus := Optimal, mipGap := mipGap ?sol\<rparr>" by simp
    then show thesis by (rule that [OF f])
  next
    assume "go_solCount out > 0 \<and> op_solution P' = ?sol\<lparr>solverStatus := Feasible, mipGap := go_gap out\<rparr>"
    then show thesis using that [OF f] by blast
  qed
qed

lemma solution_energy_cong:
  "sol_r s' = sol_r s \<Longrightarrow> region_path I s' bs = region_path I s bs"
  by (induction I s' bs rule: region_path.induct) auto

lemma energy_status_frame:
  "regionEnergy I (s\<lparr>solverStatus := st, mipGap := gap\<rparr>) bs = regionEnergy I s bs"
  "endEnergy I (s\<lparr>solverStatus := st, mipGap := gap\<rparr>) b = endEnergy I s b"
  by (simp_all add: regionEnergy_def endEnergy_def startEnergy_def blockEnergy_def)

lemma region_energy_bound:
  assumes "feasible_for c I X" "sol' = extractSolution (buildContext c I) X obj sol" "region_path I sol' bs"
  shows "(\<forall>b'. (hd bs, b') \<in> set (getEdges I) \<longrightarrow> regionEnergy I sol' bs + endEnergy I sol' b' \<le> mp_capacity (getParams I)) \<and>
    (hd bs \<in> set (getExitBlocks I) \<longrightarrow> regionEnergy I sol' bs \<le> mp_capacity (getParams I))"
proof (intro conjI allI impI)
  note acc = conjunct2 [OF region_accumulates [OF assms]]
  have ok: "view_ok I" using assms(1) by (simp add: feasible_for_def)
  note en = feasible_energy [OF feasible_sat [OF assms(1)], simplified]
  fix b' assume e: "(hd bs, b') \<in> set (getEdges I)"
  have "endEnergy I sol' b' \<le> evalLin X (buildEEnd (buildContext c I) b')"
    using endEnergy_le [OF assms(1) view_okD(2) [OF ok e]] assms(2) by simp
  with acc en(3) [OF e] show "regionEnergy I sol' bs + endEnergy I sol' b' \<le> mp_capacity (getParams I)" by linarith
next
  note acc = conjunct2 [OF region_accumulates [OF assms]]
  note en = feasible_energy [OF feasible_sat [OF assms(1)], simplified]
  assume "hd bs \<in> set (getExitBlocks I)"
  from en(4) [OF this] acc show "regionEnergy I sol' bs \<le> mp_capacity (getParams I)" by linarith
qed


section \<open>State at region boundaries\<close>

text \<open>A variable is dirty at the end of a block when the block defines it, or when it was dirty before and no
  region starts at the block.\<close>

inductive dirty_at_end :: "milp_view \<Rightarrow> MILPSolution \<Rightarrow> node_id \<Rightarrow> value_ptr \<Rightarrow> bool" for I sol where
  defined: "b \<in> set (getBlocks I) \<Longrightarrow> definesIn I b v \<Longrightarrow> dirty_at_end I sol b v"
| inherited: "dirty_at_end I sol p v \<Longrightarrow> (p, b) \<in> set (getEdges I) \<Longrightarrow> b \<notin> sol_r sol \<Longrightarrow> dirty_at_end I sol b v"

lemma dirty_flag:
  assumes "feasible_for c I X" "sol' = extractSolution (buildContext c I) X obj sol" "dirty_at_end I sol' b v"
    and "v \<in> set (getVMObjs I) \<union> set (getIneligibleObjs I)"
  shows "hasD (buildContext c I) b v \<and> X (VarD b v) = 1"
  using assms(3,4)
proof induction
  case (defined b v)
  then have "hasD (buildContext c I) b v" by (auto simp: hasD_iff)
  with defined feasible_dirty(1) [OF feasible_sat [OF assms(1)], of b v] show ?case by simp
next
  case (inherited p v b)
  have ok: "view_ok I" using assms(1) by (simp add: feasible_for_def)
  have b: "b \<in> set (getBlocks I)" using view_okD(2) [OF ok inherited(2)] .
  have p: "hasD (buildContext c I) p v" "X (VarD p v) = 1" using inherited.IH inherited.prems by auto
  then obtain a where "a \<in> set (getBlocks I)" "definesIn I a v" "(a, p) \<in> (set (getEdges I))\<^sup>*" by (auto simp: hasD_iff)
  then have h: "hasD (buildContext c I) b v"
    using b inherited.prems inherited(2) by (auto simp: hasD_iff intro: rtrancl_into_rtrancl)
  have "X (VarR b) = 0"
    using inherited(3) b feasible_r [OF feasible_sat [OF assms(1)], of b] extract_r [OF assms(1)] assms(2) by auto
  with feasible_dirty_edge [OF feasible_sat [OF assms(1)], of p b v] feasible_d(2) [OF feasible_sat [OF assms(1)] h] p h inherited(2)
  show ?case by simp
qed

lemma boundary_saves:
  assumes "feasible_for c I X" "sol' = extractSolution (buildContext c I) X obj sol" "dirty_at_end I sol' p v"
    "(p, b) \<in> set (getEdges I)" "b \<in> sol_r sol'" "b \<noteq> getEntryBlock I" "v \<in> set (getEligLiveIn I b) \<union> set (getIneligLiveIn I b)"
    "map_of (sol_m sol') (p, v) = Some True"
  shows "map_of (sol_s sol') (b, v) = Some True"
proof -
  let ?C = "buildContext c I"
  have ok: "view_ok I" using assms(1) by (simp add: feasible_for_def)
  note sat = feasible_sat [OF assms(1)]
  have b: "b \<in> set (getBlocks I)" "X (VarR b) = 1" using assms(2,5) extract_r [OF assms(1)] by auto
  have pb: "p \<in> set (getBlocks I)" using view_okD(1) [OF ok assms(4)] .
  have t: "v \<in> set (getVMObjs I) \<union> set (getIneligibleObjs I)" using assms(7) view_okD(5,6) [OF ok b(1)] by auto
  have d: "hasD ?C p v" "X (VarD p v) = 1" using dirty_flag [OF assms(1-3) t] by auto
  have k: "(b, v) \<in> set (sKeys ?C)" using b(1) assms(4,6,7) d(1) by (auto simp: set_sKeys)
  have "1 \<le> X (VarS b v)"
  proof (cases "isIneligible I v")
    case True
    with feasible_save_edge(1) [OF sat k, of p] assms(4) d b(2) show ?thesis by simp
  next
    case False
    then have v: "v \<in> set (getVMObjs I)" using t view_okD(3) [OF ok] by blast
    have "X (placeVar ?C p v) = 1" using extract_m(1) [OF assms(1) pb v] assms(2,8) by simp
    with False feasible_save_edge(2) [OF sat k, of p] assms(4) d b(2) show ?thesis by simp
  qed
  with s_exact [OF assms(1) k] have "X (VarS b v) = 1" by auto
  with k assms(2) show ?thesis by (simp add: extract_s [OF assms(1)])
qed

lemma boundary_restores:
  assumes "feasible_for c I X" "sol' = extractSolution (buildContext c I) X obj sol" "b \<in> sol_r sol'"
    "v \<in> set (getEligLiveIn I b) \<union> set (getIneligLiveIn I b)" "map_of (sol_m sol') (b, v) = Some True"
  shows "map_of (sol_rHat sol') (b, v) = Some True"
proof -
  have ok: "view_ok I" using assms(1) by (simp add: feasible_for_def)
  have b: "b \<in> set (getBlocks I)" "X (VarR b) = 1" using assms(2,3) extract_r [OF assms(1)] by auto
  have "X (placeVar (buildContext c I) b v) = 1" if "v \<in> set (getEligLiveIn I b)"
    using extract_m(1) [OF assms(1) b(1) view_okD(5) [OF ok b(1) that]] assms(2,5) by simp
  with b assms(2,4) show ?thesis by (auto simp: extract_rHat [OF assms(1) b(1)])
qed

lemma placement_constant:
  assumes "feasible_for c I X" "sol' = extractSolution (buildContext c I) X obj sol" "(p, b) \<in> set (getEdges I)" "b \<notin> sol_r sol'"
    "v \<in> set (getVMObjs I)"
  shows "map_of (sol_m sol') (b, v) = map_of (sol_m sol') (p, v)"
proof -
  have ok: "view_ok I" using assms(1) by (simp add: feasible_for_def)
  have b: "b \<in> set (getBlocks I)" and p: "p \<in> set (getBlocks I)" using view_okD(1,2) [OF ok assms(3)] by auto
  have "X (VarR b) = 0"
    using assms(4) b feasible_r [OF feasible_sat [OF assms(1)], of b] extract_r [OF assms(1)] assms(2) by auto
  with feasible_placement_edge [OF feasible_sat [OF assms(1)], of p b v] assms(3,5)
  have "X (placeVar (buildContext c I) b v) = X (placeVar (buildContext c I) p v)" by simp
  with extract_m(1) [OF assms(1) b assms(5)] extract_m(1) [OF assms(1) p assms(5)] assms(2) show ?thesis by simp
qed

definition vmBytes :: "milp_view \<Rightarrow> MILPSolution \<Rightarrow> node_id \<Rightarrow> double" where
  "vmBytes I sol b =
     (\<Sum>v | v \<in> set (getVMObjs I) \<and> map_of (sol_m sol) (b, v) = Some True. real_of_int (max 0 (getVarSize I v)))
   + (\<Sum>v | v \<in> set (getIneligibleObjs I) \<and> (isGlobalVariable I v \<or> isAllocaInst I v). real_of_int (max 0 (getVarSize I v)))"

lemma ineligibleUsage_eq:
  "ineligibleUsage C = (\<Sum>v \<leftarrow> orderedTrackedValues C.
     if isIneligible (cx_view C) v \<and> (isGlobalVariable (cx_view C) v \<or> isAllocaInst (cx_view C) v) \<and> getVarSize (cx_view C) v > 0
     then real_of_int (getVarSize (cx_view C) v) else 0)"
proof -
  have "foldl (\<lambda>u v. if Q v then u + f v else u) u vs = u + (\<Sum>v \<leftarrow> vs. if Q v then f v else 0)" for Q and f :: "value_ptr \<Rightarrow> real" and u vs
    by (induction vs arbitrary: u) auto
  then show ?thesis by (simp add: ineligibleUsage_def Let_def)
qed

lemma vm_fits:
  assumes "feasible_for c I X" "sol' = extractSolution (buildContext c I) X obj sol" "b \<in> set (getBlocks I)"
  shows "vmBytes I sol' b \<le> real (unat (mp_vmCapacityBytes (getParams I)))"
proof -
  let ?C = "buildContext c I"
  have ok: "view_ok I" using assms(1) by (simp add: feasible_for_def)
  have same: "evalLin X (vmUsage ?C 0) = evalLin X (vmUsage ?C b)" if c
    unfolding evalLin_vmUsage placeVar_def buildContext_simps if_P [OF that] ..
  have cap: "evalLin X (vmUsage ?C b) \<le> real (unat (mp_vmCapacityBytes (getParams I))) - ineligibleUsage ?C"
    using satisfies_groups(3) [OF feasible_sat [OF assms(1)]] assms(3) same
    by (cases c) (auto simp: constrainVMCapacity_def Let_def list_all_iff)
  have "(\<Sum>v | v \<in> set (getVMObjs I) \<and> map_of (sol_m sol') (b, v) = Some True. real_of_int (max 0 (getVarSize I v)))
      \<le> evalLin X (vmUsage ?C b)"
  proof -
    let ?f = "\<lambda>v. if getVarSize I v \<le> 0 then 0 else real_of_int (getVarSize I v) * X (placeVar ?C b v)"
    have "(\<Sum>v | v \<in> set (getVMObjs I) \<and> map_of (sol_m sol') (b, v) = Some True. real_of_int (max 0 (getVarSize I v)))
        = (\<Sum>v | v \<in> set (getVMObjs I) \<and> map_of (sol_m sol') (b, v) = Some True. ?f v)"
      by (rule sum.cong) (use extract_m(1) [OF assms(1,3)] assms(2) in auto)
    also have "\<dots> \<le> (\<Sum>v \<leftarrow> collectSortedValues I (getVMObjs I). ?f v)"
    proof (rule sum_le_sum_list)
      fix v assume "v \<in> set (collectSortedValues I (getVMObjs I))"
      then have "X (placeVar ?C b v) = 0 \<or> X (placeVar ?C b v) = 1" using place_binary [OF assms(1,3)] by simp
      then show "0 \<le> ?f v" by (elim disjE) simp_all
    qed auto
    finally show ?thesis unfolding evalLin_vmUsage buildContext_simps .
  qed
  moreover have "(\<Sum>v | v \<in> set (getIneligibleObjs I) \<and> (isGlobalVariable I v \<or> isAllocaInst I v). real_of_int (max 0 (getVarSize I v)))
      \<le> ineligibleUsage ?C"
  proof -
    let ?f = "\<lambda>v. if isIneligible I v \<and> (isGlobalVariable I v \<or> isAllocaInst I v) \<and> getVarSize I v > 0 then real_of_int (getVarSize I v) else 0"
    have "(\<Sum>v | v \<in> set (getIneligibleObjs I) \<and> (isGlobalVariable I v \<or> isAllocaInst I v). real_of_int (max 0 (getVarSize I v)))
        = (\<Sum>v | v \<in> set (getIneligibleObjs I) \<and> (isGlobalVariable I v \<or> isAllocaInst I v). ?f v)"
      by (rule sum.cong) (auto simp: view_okD(3) [OF ok])
    also have "\<dots> \<le> (\<Sum>v \<leftarrow> orderedTrackedValues ?C. ?f v)"
      by (rule sum_le_sum_list) auto
    finally show ?thesis unfolding ineligibleUsage_eq buildContext_simps .
  qed
  ultimately show ?thesis using cap unfolding vmBytes_def by linarith
qed


section \<open>Properties\<close>

text \<open>(C24) Energy safety of the MILP solution: under a solver that only reports assignments satisfying the model,
  every path through a region of an extracted solution, from a region start over blocks that start no
  region, needs at most the energy buffer, with the epilogue and the saves of the region start that
  follows included, or up to an exit.\<close>

theorem milp_region_energy_safe:
  assumes "solver_sound G" and "view_ok (op_view P)" and "optimizer_solve G P = (True, P')"
    and "region_path (op_view P) (op_solution P') bs"
  shows "(\<forall>b'. (hd bs, b') \<in> set (getEdges (op_view P)) \<longrightarrow>
            regionEnergy (op_view P) (op_solution P') bs + endEnergy (op_view P) (op_solution P') b'
              \<le> mp_capacity (getParams (op_view P))) \<and>
         (hd bs \<in> set (getExitBlocks (op_view P)) \<longrightarrow>
            regionEnergy (op_view P) (op_solution P') bs \<le> mp_capacity (getParams (op_view P)))"
proof -
  obtain X obj sol st gap where X: "feasible_for (coarseAllocation P) (op_view P) X"
      and s: "op_solution P' = (extractSolution (buildContext (coarseAllocation P) (op_view P)) X obj sol)\<lparr>solverStatus := st, mipGap := gap\<rparr>"
    by (rule optimizer_solve_extracts [OF assms(1-3)])
  have "region_path (op_view P) (extractSolution (buildContext (coarseAllocation P) (op_view P)) X obj sol) bs"
    using assms(4) solution_energy_cong [of "op_solution P'"] s by simp
  from region_energy_bound [OF X refl this] show ?thesis unfolding s energy_status_frame .
qed

text \<open>(C25) No state is lost at a region boundary: a variable that is dirty and in VM at the end of a predecessor and live into
  the region start is among its saves, and every variable live into a region start and placed in VM
  there is among its restores.\<close>

theorem milp_saves_dirty_state:
  assumes "solver_sound G" and "view_ok (op_view P)" and "optimizer_solve G P = (True, P')" and "b \<in> sol_r (op_solution P')"
    and "v \<in> set (getEligLiveIn (op_view P) b) \<union> set (getIneligLiveIn (op_view P) b)"
  shows "(map_of (sol_m (op_solution P')) (b, v) = Some True \<longrightarrow> map_of (sol_rHat (op_solution P')) (b, v) = Some True) \<and>
         (\<forall>p. (p, b) \<in> set (getEdges (op_view P)) \<and> b \<noteq> getEntryBlock (op_view P) \<and>
              dirty_at_end (op_view P) (op_solution P') p v \<and> map_of (sol_m (op_solution P')) (p, v) = Some True \<longrightarrow>
              map_of (sol_s (op_solution P')) (b, v) = Some True)"
proof -
  obtain X obj sol st gap where X: "feasible_for (coarseAllocation P) (op_view P) X"
      and s: "op_solution P' = (extractSolution (buildContext (coarseAllocation P) (op_view P)) X obj sol)\<lparr>solverStatus := st, mipGap := gap\<rparr>"
    by (rule optimizer_solve_extracts [OF assms(1-3)])
  let ?s = "extractSolution (buildContext (coarseAllocation P) (op_view P)) X obj sol"
  have d: "dirty_at_end (op_view P) ?s p v" if "dirty_at_end (op_view P) (op_solution P') p v" for p v
    using that by induction (auto simp: s intro: dirty_at_end.intros)
  have r: "b \<in> sol_r ?s" using assms(4) s by simp
  from boundary_restores [OF X refl r assms(5)] boundary_saves [OF X refl d _ r _ assms(5)] show ?thesis
    by (auto simp: s)
qed


text \<open>Failures are reported with their cause: blocks above the capacity, a solver that proved infeasibility, a
  time limit with no incumbent, or an incumbent that was not accepted; a failed call never
  reports that nothing failed.\<close>

theorem optimizer_solve_failure_cause:
  assumes "optimizer_solve G P = (False, P')"
  shows "case solveFailure P' of
      NoFailure \<Rightarrow> False
    | BlocksExceedCapacity \<Rightarrow> \<exists>b. b \<in> set (getBlocks (op_view P)) \<and> getBlockEnergyCost (op_view P) b > mp_capacity (getParams (op_view P))
    | ProvenInfeasible \<Rightarrow> \<exists>t g out. grb_optimize G t g (op_model P) = Some out \<and> go_status out = GRB_INFEASIBLE
    | TimeLimitNoSolution \<Rightarrow> \<exists>t g out. grb_optimize G t g (op_model P) = Some out \<and> go_status out = GRB_TIME_LIMIT \<and> go_solCount out = 0
    | FeasibleNotAccepted \<Rightarrow> \<not> acceptFeasible P \<and> (\<exists>t g out. grb_optimize G t g (op_model P) = Some out \<and> go_solCount out > 0)
    | SolverError \<Rightarrow> True"
proof (cases "getInfeasibleBlocks (op_view P) = []")
  case False
  then have "solveFailure P' = BlocksExceedCapacity" using assms by (auto simp: optimizer_solve_def Let_def)
  with False show ?thesis by (auto simp: getInfeasibleBlocks_def filter_empty_conv)
next
  case True
  obtain ok P1 where e: "ensureModelBuilt G (P\<lparr>solveFailure := NoFailure\<rparr>) = (ok, P1)" by fastforce
  have P1: "op_model P1 = op_model P" "acceptFeasible P1 = acceptFeasible P"
    using e by (auto simp: ensureModelBuilt_def op_model_def split: if_splits)
  define t where "t = (if op_timeLimit P1 > 0 then Some (op_timeLimit P1) else None)"
  define g where "g = (if op_mipGap P1 > 0 then Some (op_mipGap P1) else None)"
  note unf = optimizer_solve_def Let_def t_def [symmetric] g_def [symmetric] e P1
  show ?thesis
  proof (cases "\<exists>out. ok \<and> grb_optimize G t g (op_model P) = Some out")
    case False
    then have "solveFailure P' = SolverError"
      using assms True by (cases ok; cases "grb_optimize G t g (op_model P)") (auto simp: unf)
    then show ?thesis by simp
  next
    case out: True
    then obtain out where o: "ok" "grb_optimize G t g (op_model P) = Some out" by blast
    have "solveFailure P' = (if go_status out = GRB_INFEASIBLE then ProvenInfeasible
            else if go_solCount out > 0 then FeasibleNotAccepted
            else if go_status out = GRB_TIME_LIMIT then TimeLimitNoSolution else SolverError)"
        "\<not> (acceptFeasible P \<and> go_solCount out > 0)"
      using assms True o by (auto simp: unf split: if_splits)
    with o(2) show ?thesis by auto
  qed
qed

text \<open>A chain of three blocks: the variable 7 is written in the first, read in the last, and kept in VM.\<close>

definition sample_mparams :: MILPEnergyParams where
  "sample_mparams = \<lparr>mp_capacity = 100, mp_E_pro = 4, mp_E_epi = 3, mp_N_reg = 16, mp_regStoreEnergy = 2, mp_regRestoreEnergy = 1,
     mp_nvmAccessPenalty = 5, mp_memStoreEnergyPerByte = 2, mp_memRestoreEnergyPerByte = 1, mp_vmCapacityBytes = 16,
     loopStripMiningCost = 0, loopStripMiningEnabled = False\<rparr>"

lemma sample_mparams_simps [simp]: "mp_capacity sample_mparams = 100" "mp_E_pro sample_mparams = 4" "mp_E_epi sample_mparams = 3"
  "mp_vmCapacityBytes sample_mparams = 16"
  by (simp_all add: sample_mparams_def)

definition sample_view :: milp_view where
  "sample_view = \<lparr>getBlocks = [2, 3, 4], getEdges = [(2, 3), (3, 4)], getEntryBlock = 2, getExitBlocks = [4],
     getBlockEnergyCost = (\<lambda>_. 10), getVMObjs = [7], getEligLiveIn = (\<lambda>b. if b = 2 then [] else [7]),
     getEligDefIndicator = (\<lambda>b v. b = 2), getIneligibleObjs = [], isIneligible = (\<lambda>_. False), getIneligLiveIn = (\<lambda>_. []),
     getIneligDefIndicator = (\<lambda>_ _. False), getVarSize = (\<lambda>_. 2), isGlobalVariable = (\<lambda>_. True), isAllocaInst = (\<lambda>_. False),
     getStableValueOrderKey = (\<lambda>_. ''g''),
     getParams = sample_mparams,
     getEBase = (\<lambda>_. 10), getENvm = (\<lambda>_ _. 5), getESave = (\<lambda>_. 5), getERestore = (\<lambda>_. 2),
     getFEntry = (\<lambda>_. 1), getFBoundary = (\<lambda>_. 1)\<rparr>"

lemma sample_view_simps [simp]:
  "getBlocks sample_view = [2, 3, 4]" "getEdges sample_view = [(2, 3), (3, 4)]" "getEntryBlock sample_view = 2" "getExitBlocks sample_view = [4]"
  "getBlockEnergyCost sample_view b = 10" "getVMObjs sample_view = [7]" "getEligLiveIn sample_view b = (if b = 2 then [] else [7])"
  "getEligDefIndicator sample_view b v = (b = 2)" "getIneligibleObjs sample_view = []" "isIneligible sample_view v = False"
  "getIneligLiveIn sample_view b = []" "getIneligDefIndicator sample_view b v = False" "getVarSize sample_view v = 2"
  "isGlobalVariable sample_view v = True" "isAllocaInst sample_view v = False" "getStableValueOrderKey sample_view v = ''g''"
  "getParams sample_view = sample_mparams"
  "getEBase sample_view b = 10" "getENvm sample_view b v = 5" "getESave sample_view v = 5" "getERestore sample_view v = 2"
  by (simp_all add: sample_view_def)

fun sample_X :: assignment where
  "sample_X (VarR b) = (if b = 3 then 0 else 1)"
| "sample_X (VarM b v) = 1"
| "sample_X (VarMGlobal v) = 1"
| "sample_X (VarD b v) = (if b = 4 then 0 else 1)"
| "sample_X (VarRHat b v) = (if b = 4 then 1 else 0)"
| "sample_X (VarS b v) = (if b = 4 then 1 else 0)"
| "sample_X (VarEAccum b) = (if b = 2 then 4 else if b = 3 then 14 else 6)"

definition sample_gurobi :: gurobi where
  "sample_gurobi = \<lparr>grb_buildThrows = (\<lambda>_. False),
     grb_optimize = (\<lambda>_ _ M. if satisfies sample_X M
       then Some \<lparr>go_status = GRB_OPTIMAL, go_solCount = 1, go_X = sample_X, go_objVal = 15, go_gap = 0\<rparr> else None)\<rparr>"

lemma sample_gurobi_sound: "solver_sound sample_gurobi"
  by (auto simp: solver_sound_def sample_gurobi_def split: if_splits)

lemma sample_view_ok: "view_ok sample_view"
  by (auto simp: view_ok_def kInvalidNodeId_def)

definition sample_ctx :: milp_ctx where
  "sample_ctx = \<lparr>cx_view = sample_view, cx_coarse = False, cx_preds = [(2, []), (3, [2]), (4, [3])], orderedVmObjs = [7],
     orderedTrackedValues = [7], reachableDefs = computeReachableDefs sample_view [7] [(2, [3]), (3, [4]), (4, [])],
     rHatKeys = [(3, 7), (4, 7)], sKeys = [(3, 7), (4, 7)]\<rparr>"

lemma sample_ctx_simps [simp]:
  "cx_view sample_ctx = sample_view" "cx_coarse sample_ctx = False" "orderedVmObjs sample_ctx = [7]" "orderedTrackedValues sample_ctx = [7]"
  "rHatKeys sample_ctx = [(3, 7), (4, 7)]" "sKeys sample_ctx = [(3, 7), (4, 7)]" "reachableDefs sample_ctx 7 = {2, 3, 4}"
  "predsOf sample_ctx b = (if b = 3 then [2] else if b = 4 then [3] else [])"
  by (auto simp: sample_ctx_def predsOf_def omap_get_def computeReachableDefs_def definesIn_def pushNew_def Let_def)

lemma sample_hasD [simp]: "hasD sample_ctx b 7 \<longleftrightarrow> b = 2 \<or> b = 3 \<or> b = 4"
  by (auto simp: hasD_def)

lemma sample_ctx: "buildContext False sample_view = sample_ctx"
proof -
  let ?C = "sample_ctx\<lparr>sKeys := []\<rparr>"
  have "sKeysOf ?C = [(3, 7), (4, 7)]"
    by (simp add: sKeysOf_def collectSortedLiveInValues_def stableSortAndUniqueValues_def)
  moreover have "buildContext False sample_view = ?C\<lparr>sKeys := sKeysOf ?C\<rparr>"
    unfolding buildContext_def Let_def sample_ctx_def
    by (simp add: collectSortedValues_def stableSortAndUniqueValues_def rHatKeysOf_def buildPredecessorMap_def buildSuccessorMap_def omap_get_def)
  ultimately show ?thesis by (simp add: sample_ctx_def)
qed

lemma sample_satisfies: "satisfies sample_X (buildModel (buildContext False sample_view))"
proof -
  have "\<forall>c \<in> set (addConstraints sample_ctx). holds sample_X c"
    by (simp add: addConstraints_def constrainEntryAsRegionStart_def kInvalidNodeId_def constrainNeedRestoreLinearization_def
       constrainVMCapacity_def ineligibleUsage_def constrainPlacementPropagation_def mergeEqualities_def constrainDirtyPropagation_def
       constrainSaveAtRegionBoundary_def saveTightening_def saveOnEdge_def constrainEnergyInitAtRegionStart_def constrainEnergyPropagation_def
       constrainEnergyWithinCapacity_def Let_def placeVar_def evalLin_vmUsage evalLin_predDirtySum evalLin_predPlaceSum evalLin_EBlk
       evalLin_EStart evalLin_EEnd definesIn_def collectSortedValues_def stableSortAndUniqueValues_def)
  moreover have "\<forall>d \<in> set (addVariables sample_ctx). vd_lb d \<le> sample_X (vd_var d) \<and> sample_X (vd_var d) \<le> vd_ub d \<and>
        (vd_type d = GRB_BINARY \<longrightarrow> sample_X (vd_var d) = 0 \<or> sample_X (vd_var d) = 1)"
    by (simp add: addVariables_def Let_def)
  ultimately show ?thesis unfolding sample_ctx satisfies_def buildModel_def by simp
qed

lemma sample_milp_solve:
  obtains P' where "optimizer_solve sample_gurobi (newOptimizer sample_view) = (True, P')"
    "op_solution P' = (extractSolution sample_ctx sample_X 15 emptyMILPSolution)\<lparr>solverStatus := Optimal\<rparr>"
proof -
  have "satisfies sample_X (op_model (newOptimizer sample_view))"
    using sample_satisfies by (simp add: op_model_def newOptimizer_def)
  then have "satisfies sample_X (op_model ((newOptimizer sample_view)\<lparr>solveFailure := NoFailure, modelBuilt := True\<rparr>))"
    by (simp add: op_model_def)
  then have "\<exists>P'. optimizer_solve sample_gurobi (newOptimizer sample_view) = (True, P') \<and>
      op_solution P' = (extractSolution sample_ctx sample_X 15 emptyMILPSolution)\<lparr>solverStatus := Optimal\<rparr>"
    unfolding optimizer_solve_def Let_def ensureModelBuilt_def
    by (simp add: newOptimizer_def getInfeasibleBlocks_def sample_gurobi_def sample_ctx)
  with that show thesis by blast
qed

lemma sample_solution:
  "sol_r (extractSolution sample_ctx sample_X obj sol) = {2, 4}"
  "map_of (sol_m (extractSolution sample_ctx sample_X obj sol)) (b, 7) = (if b \<in> {2, 3, 4} then Some True else None)"
  by (auto simp: extractSolution_def Let_def map_of_putAll)

theorem milp_region_energy_safe_witness:
  "\<exists>P'. optimizer_solve sample_gurobi (newOptimizer sample_view) = (True, P') \<and>
     region_path sample_view (op_solution P') [3, 2] \<and>
     regionEnergy sample_view (op_solution P') [3, 2] + endEnergy sample_view (op_solution P') 4 \<le> 100"
proof -
  obtain P' where P: "optimizer_solve sample_gurobi (newOptimizer sample_view) = (True, P')"
      "op_solution P' = (extractSolution sample_ctx sample_X 15 emptyMILPSolution)\<lparr>solverStatus := Optimal\<rparr>"
    by (rule sample_milp_solve)
  have v: "op_view (newOptimizer sample_view) = sample_view" by (simp add: newOptimizer_def)
  have p: "region_path sample_view (op_solution P') [3, 2]" by (simp add: P(2) sample_solution)
  from milp_region_energy_safe [OF sample_gurobi_sound, of "newOptimizer sample_view", unfolded v, OF sample_view_ok P(1) p] p P(1)
  show ?thesis by auto
qed

theorem milp_saves_dirty_state_witness:
  "\<exists>P'. optimizer_solve sample_gurobi (newOptimizer sample_view) = (True, P') \<and> dirty_at_end sample_view (op_solution P') 3 7 \<and>
     map_of (sol_s (op_solution P')) (4, 7) = Some True \<and> map_of (sol_rHat (op_solution P')) (4, 7) = Some True"
proof -
  obtain P' where P: "optimizer_solve sample_gurobi (newOptimizer sample_view) = (True, P')"
      "op_solution P' = (extractSolution sample_ctx sample_X 15 emptyMILPSolution)\<lparr>solverStatus := Optimal\<rparr>"
    by (rule sample_milp_solve)
  have v: "op_view (newOptimizer sample_view) = sample_view" by (simp add: newOptimizer_def)
  have "dirty_at_end sample_view (op_solution P') 2 7" by (rule dirty_at_end.defined) (simp_all add: definesIn_def)
  then have d: "dirty_at_end sample_view (op_solution P') 3 7"
    by (rule dirty_at_end.inherited) (simp_all add: P(2) sample_solution)
  from milp_saves_dirty_state [OF sample_gurobi_sound, of "newOptimizer sample_view", unfolded v, OF sample_view_ok P(1), of 4 7] d P(1)
  show ?thesis by (auto simp: P(2) sample_solution)
qed


theorem optimizer_solve_failure_cause_witness:
  "\<exists>P'. optimizer_solve (sample_gurobi\<lparr>grb_buildThrows := (\<lambda>_. True)\<rparr>) (newOptimizer sample_view) = (False, P') \<and>
     solveFailure P' \<noteq> NoFailure"
proof -
  let ?G = "sample_gurobi\<lparr>grb_buildThrows := (\<lambda>_. True)\<rparr>"
  obtain P' where P: "optimizer_solve ?G (newOptimizer sample_view) = (False, P')"
    by (simp add: optimizer_solve_def Let_def ensureModelBuilt_def newOptimizer_def getInfeasibleBlocks_def)
  from optimizer_solve_failure_cause [OF P] have "solveFailure P' \<noteq> NoFailure" by (auto split: SolveFailure.splits)
  with P show ?thesis by blast
qed

end
