(* ===== verification/EnergyPaths.thy ===== *)
theory EnergyPaths
  imports Prelude
begin

text \<open>
  Worst-case paths through loops (\<open>milp/EnergyPathUtils.cpp\<close>, \<open>common/LoopUtils.h\<close>). A loop is a tree of
  its sub-loops with the facts LLVM reports about it; the blocks' successors and energies are arguments.
  \<open>computeWorstCasePath\<close> searches the loop body depth first, with every direct sub-loop collapsed into its
  header; the recursive lambda is \<open>dfs\<close>, with fuel for the depth of the recursion, which is shown to be
  enough when it is one more than the number of blocks.

  Shown: the search and the reconstruction of the path always end; the result is an upper bound of every
  path from header to latch in the collapsed body, and the reported blocks are those of a path that
  attains it, with the blocks of the sub-loops it passes.
\<close>

section \<open>Loops\<close>

datatype llvm_loop = LLVMLoop
  (lpHeader: bb_ptr) (lpLatch: bb_ptr) (lpPreheader: bb_ptr) (lpBlocks: "bb_ptr list") (lpExits: "bb_ptr list")
  (lpScevTC: u32) (lpMarkerTC: "u64 option") (lpStripMined: bool) (lpHasInvoke: bool) (lpSubLoops: "llvm_loop list")

type_synonym loop_totals = "(llvm_loop \<times> double) list"

text \<open>The direct child loop of a block of the parent.\<close>

definition getDirectChildLoop :: "llvm_loop list \<Rightarrow> bb_ptr \<Rightarrow> llvm_loop option" where
  "getDirectChildLoop subs bb = find (\<lambda>L. bb \<in> set (lpBlocks L)) subs"

definition collapsedChild :: "loop_totals \<Rightarrow> bb_ptr \<Rightarrow> (llvm_loop \<times> double) option" where
  "collapsedChild totals bb =
     (case getDirectChildLoop (map fst totals) bb of
        Some L \<Rightarrow> if lpHeader L = bb then Some (L, case map_of totals L of Some tot \<Rightarrow> tot | None \<Rightarrow> 0) else None
      | None \<Rightarrow> None)"

definition pathEnergyOf :: "(bb_ptr, double) omap \<Rightarrow> loop_totals \<Rightarrow> bb_ptr \<Rightarrow> double" where
  "pathEnergyOf blockEnergy totals bb =
     (case collapsedChild totals bb of Some (L, tot) \<Rightarrow> tot | None \<Rightarrow> omap_get 0 blockEnergy bb)"

definition pathSuccs :: "(bb_ptr \<Rightarrow> bb_ptr list) \<Rightarrow> loop_totals \<Rightarrow> bb_ptr \<Rightarrow> bb_ptr list" where
  "pathSuccs succ totals bb =
     (case collapsedChild totals bb of Some (L, tot) \<Rightarrow> lpExits L | None \<Rightarrow> succ bb)"

section \<open>The depth-first search\<close>

datatype visit_state = Visiting | Visited

record dfs_state =
  dsVisit :: "(bb_ptr, visit_state) omap"
  dsMemo :: "(bb_ptr, double) omap"
  dsBestSucc :: "(bb_ptr, bb_ptr) omap"
  dsCycle :: bool

record dfs_env =
  deEnergy :: "bb_ptr \<Rightarrow> double"
  deSuccs :: "bb_ptr \<Rightarrow> bb_ptr list"
  deBlocks :: "bb_ptr list"
  deLatch :: bb_ptr

type_synonym best_succ = "double \<times> bb_ptr option"

definition considerSucc ::
  "(bb_ptr \<Rightarrow> dfs_state \<Rightarrow> (double \<times> dfs_state) option) \<Rightarrow> dfs_env \<Rightarrow> best_succ \<times> dfs_state \<Rightarrow> bb_ptr
     \<Rightarrow> (best_succ \<times> dfs_state) option" where
  "considerSucc search env s succ =
     (if succ \<notin> set (deBlocks env) then Some s
      else case search succ (snd s) of
             None \<Rightarrow> None
           | Some (e, st) \<Rightarrow>
               Some (if e < 0 then fst s else if fst (fst s) < e then (e, Some succ) else fst s, st))"

definition finishBlock :: "dfs_env \<Rightarrow> bb_ptr \<Rightarrow> best_succ \<times> dfs_state \<Rightarrow> double \<times> dfs_state" where
  "finishBlock env bb s =
     (let ((bestE, best), st) = s; st1 = st\<lparr>dsVisit := omap_put bb Visited (dsVisit st)\<rparr>
      in case best of
           None \<Rightarrow> (- 1, st1\<lparr>dsMemo := omap_put bb (- 1) (dsMemo st1)\<rparr>)
         | Some succ \<Rightarrow>
             if bestE < 0 then (- 1, st1\<lparr>dsMemo := omap_put bb (- 1) (dsMemo st1)\<rparr>)
             else (deEnergy env bb + bestE,
                   st1\<lparr>dsBestSucc := omap_put bb succ (dsBestSucc st1),
                       dsMemo := omap_put bb (deEnergy env bb + bestE) (dsMemo st1)\<rparr>))"

primrec dfs :: "nat \<Rightarrow> dfs_env \<Rightarrow> bb_ptr \<Rightarrow> dfs_state \<Rightarrow> (double \<times> dfs_state) option" where
  "dfs 0 env = (\<lambda>bb st. None)"
| "dfs (Suc n) env = (\<lambda>bb st.
     if bb = deLatch env then Some (deEnergy env bb, st)
     else case map_of (dsVisit st) bb of
            Some Visiting \<Rightarrow> Some (- 1, st\<lparr>dsCycle := True\<rparr>)
          | Some Visited \<Rightarrow> Some (omap_get 0 (dsMemo st) bb, st)
          | None \<Rightarrow>
              map_option (finishBlock env bb)
                (foldM (considerSucc (dfs n env) env) ((- 1, None), st\<lparr>dsVisit := omap_put bb Visiting (dsVisit st)\<rparr>)
                  (deSuccs env bb)))"

text \<open>Following the best successors from the header to the latch.\<close>

partial_function (option) followBest :: "dfs_env \<Rightarrow> (bb_ptr, bb_ptr) omap \<Rightarrow> bb_ptr \<Rightarrow> bb_ptr list \<Rightarrow> (string + bb_ptr list) option" where
  "followBest env best cur acc =
     (if cur = deLatch env then Some (Inr (acc @ [cur]))
      else case map_of best cur of
             None \<Rightarrow> Some (Inl ''path-reconstruction-failed'')
           | Some nxt \<Rightarrow> followBest env best nxt (acc @ [cur]))"

declare followBest.simps [code]

definition emptySearch :: dfs_state where
  "emptySearch = \<lparr>dsVisit = [], dsMemo = [], dsBestSucc = [], dsCycle = False\<rparr>"

text \<open>The blocks of the path with the blocks of the sub-loops collapsed into it.\<close>

definition expandPath :: "loop_totals \<Rightarrow> bb_ptr list \<Rightarrow> bb_ptr set" where
  "expandPath totals p =
     set p \<union> (\<Union>b \<in> set p. case collapsedChild totals b of Some (L, tot) \<Rightarrow> set (lpBlocks L) | None \<Rightarrow> {})"

type_synonym worst_path = "string + double \<times> bb_ptr set"

definition searchEnv ::
  "(bb_ptr, double) omap \<Rightarrow> (bb_ptr \<Rightarrow> bb_ptr list) \<Rightarrow> llvm_loop \<Rightarrow> loop_totals \<Rightarrow> dfs_env" where
  "searchEnv blockEnergy succ L totals =
     \<lparr>deEnergy = pathEnergyOf blockEnergy totals, deSuccs = pathSuccs succ totals, deBlocks = lpBlocks L, deLatch = lpLatch L\<rparr>"

text \<open>\<open>None\<close> would be a search that does not end.\<close>

definition searchPath ::
  "(bb_ptr, double) omap \<Rightarrow> (bb_ptr \<Rightarrow> bb_ptr list) \<Rightarrow> llvm_loop \<Rightarrow> loop_totals \<Rightarrow> worst_path option" where
  "searchPath blockEnergy succ L totals =
     (let env = searchEnv blockEnergy succ L totals
      in if lpHeader L = lpLatch L then Some (Inr (deEnergy env (lpHeader L), {lpHeader L}))
         else case dfs (length (lpBlocks L) + 2) env (lpHeader L) emptySearch of
                None \<Rightarrow> None
              | Some (energy, st) \<Rightarrow>
                  if dsCycle st then Some (Inl ''unsupported-intra-loop-cycle'')
                  else if energy \<le> 0 then Some (Inl ''unable-to-compute-path-energy'')
                  else map_option (map_sum id (\<lambda>p. (energy, expandPath totals p)))
                         (followBest env (dsBestSucc st) (lpHeader L) []))"

fun computeWorstCasePath ::
    "(bb_ptr, double) omap \<Rightarrow> (bb_ptr \<Rightarrow> bb_ptr list) \<Rightarrow> (llvm_loop \<Rightarrow> u64 option) \<Rightarrow> llvm_loop \<Rightarrow> worst_path option"
  and subLoopTotals ::
    "(bb_ptr, double) omap \<Rightarrow> (bb_ptr \<Rightarrow> bb_ptr list) \<Rightarrow> (llvm_loop \<Rightarrow> u64 option) \<Rightarrow> llvm_loop list \<Rightarrow> (string + loop_totals) option" where
  "computeWorstCasePath blockEnergy succ tc (LLVMLoop h la ph bs ex se mk sm iv subs) =
     (if h = nullptr \<or> la = nullptr then Some (Inl ''missing-header-or-latch'')
      else case subLoopTotals blockEnergy succ tc subs of
             None \<Rightarrow> None
           | Some (Inl e) \<Rightarrow> Some (Inl e)
           | Some (Inr totals) \<Rightarrow> searchPath blockEnergy succ (LLVMLoop h la ph bs ex se mk sm iv subs) totals)"
| "subLoopTotals blockEnergy succ tc [] = Some (Inr [])"
| "subLoopTotals blockEnergy succ tc (L # Ls) =
     (case tc L of
        None \<Rightarrow> Some (Inl ''sub-loop-unknown-trip-count'')
      | Some n \<Rightarrow>
          (case computeWorstCasePath blockEnergy succ tc L of
             None \<Rightarrow> None
           | Some (Inl _) \<Rightarrow> Some (Inl ''sub-loop-energy-unavailable'')
           | Some (Inr (e, _)) \<Rightarrow>
               map_option (map_sum id (\<lambda>totals. (L, e * real (unat n)) # totals)) (subLoopTotals blockEnergy succ tc Ls)))"

definition summarySubLoopTripCount :: "llvm_loop \<Rightarrow> u64 option" where
  "summarySubLoopTripCount L =
     (case lpMarkerTC L of
        Some m \<Rightarrow> Some (if 0 < lpScevTC L then min (ucast (lpScevTC L)) m else m)
      | None \<Rightarrow> if 0 < lpScevTC L then Some (ucast (lpScevTC L)) else None)"

definition computeWorstCaseSummaryPath ::
  "(bb_ptr, double) omap \<Rightarrow> (bb_ptr \<Rightarrow> bb_ptr list) \<Rightarrow> llvm_loop \<Rightarrow> worst_path option" where
  "computeWorstCaseSummaryPath blockEnergy succ L = computeWorstCasePath blockEnergy succ summarySubLoopTripCount L"

section \<open>Paths of the collapsed body\<close>

fun body_path :: "dfs_env \<Rightarrow> bb_ptr list \<Rightarrow> bool" where
  "body_path env [] = False"
| "body_path env [b] = (b = deLatch env)"
| "body_path env (b # c # p) =
     (b \<noteq> deLatch env \<and> c \<in> set (deSuccs env b) \<and> c \<in> set (deBlocks env) \<and> body_path env (c # p))"

definition pathWeight :: "dfs_env \<Rightarrow> bb_ptr list \<Rightarrow> double" where
  "pathWeight env p = sum_list (map (deEnergy env) p)"

text \<open>A path along the recorded best successors of finished blocks.\<close>

fun best_chain :: "dfs_env \<Rightarrow> dfs_state \<Rightarrow> bb_ptr list \<Rightarrow> bool" where
  "best_chain env st [] = False"
| "best_chain env st [b] = (b = deLatch env)"
| "best_chain env st (b # c # p) =
     (b \<noteq> deLatch env \<and> map_of (dsVisit st) b = Some Visited \<and> map_of (dsBestSucc st) b = Some c
      \<and> c \<in> set (deSuccs env b) \<and> c \<in> set (deBlocks env) \<and> best_chain env st (c # p))"

text \<open>A later state keeps what is known of the finished blocks; a search leaves the blocks in progress.\<close>

definition dfs_keep :: "dfs_state \<Rightarrow> dfs_state \<Rightarrow> bool" where
  "dfs_keep st st' \<longleftrightarrow>
     (\<forall>b. map_of (dsVisit st) b = Some Visited \<longrightarrow>
        map_of (dsVisit st') b = Some Visited \<and> map_of (dsMemo st') b = map_of (dsMemo st) b
        \<and> map_of (dsBestSucc st') b = map_of (dsBestSucc st) b)
     \<and> (dsCycle st \<longrightarrow> dsCycle st')"

definition dfs_ext :: "dfs_state \<Rightarrow> dfs_state \<Rightarrow> bool" where
  "dfs_ext st st' \<longleftrightarrow>
     dfs_keep st st' \<and> (\<forall>b. map_of (dsVisit st') b = Some Visiting \<longleftrightarrow> map_of (dsVisit st) b = Some Visiting)"

text \<open>The bound covers the children only when no cycle was met and the latch has no negative energy.\<close>

definition settled :: "dfs_env \<Rightarrow> dfs_state \<Rightarrow> bool" where
  "settled env st \<longleftrightarrow> \<not> dsCycle st \<and> 0 \<le> deEnergy env (deLatch env)"

text \<open>The value of a finished child, and what is known of a finished block.\<close>

definition child_ok :: "dfs_env \<Rightarrow> dfs_state \<Rightarrow> double \<Rightarrow> bb_ptr \<Rightarrow> bool" where
  "child_ok env st bound c \<longleftrightarrow>
     (if c = deLatch env then deEnergy env c \<le> bound
      else map_of (dsVisit st) c = Some Visited
           \<and> (\<exists>m. map_of (dsMemo st) c = Some m \<and> (m < 0 \<or> m \<le> bound)))"

definition block_ok :: "dfs_env \<Rightarrow> dfs_state \<Rightarrow> bb_ptr \<Rightarrow> bool" where
  "block_ok env st b \<longleftrightarrow>
     b \<noteq> deLatch env
     \<and> (\<exists>m. map_of (dsMemo st) b = Some m
          \<and> (m = - 1 \<or> (\<exists>p. best_chain env st (b # p) \<and> pathWeight env (b # p) = m))
          \<and> (settled env st \<longrightarrow> (\<forall>c \<in> set (deSuccs env b) \<inter> set (deBlocks env). child_ok env st (m - deEnergy env b) c)))"

definition dfs_inv :: "dfs_env \<Rightarrow> dfs_state \<Rightarrow> bool" where
  "dfs_inv env st \<longleftrightarrow> (\<forall>b. map_of (dsVisit st) b = Some Visited \<longrightarrow> block_ok env st b)"

lemma best_chain_body: "best_chain env st p \<Longrightarrow> body_path env p"
  by (induction env st p rule: best_chain.induct) auto

lemma dfs_keepD:
  assumes "dfs_keep st st'"
  shows "map_of (dsVisit st) b = Some Visited \<Longrightarrow> map_of (dsVisit st') b = Some Visited"
    and "map_of (dsVisit st) b = Some Visited \<Longrightarrow> map_of (dsMemo st') b = map_of (dsMemo st) b"
    and "map_of (dsVisit st) b = Some Visited \<Longrightarrow> map_of (dsBestSucc st') b = map_of (dsBestSucc st) b"
    and "dsCycle st \<Longrightarrow> dsCycle st'"
  using assms unfolding dfs_keep_def by blast+

lemma dfs_keep_refl [simp]: "dfs_keep st st"
  by (simp add: dfs_keep_def)

lemma dfs_keep_trans [trans]: "dfs_keep st st' \<Longrightarrow> dfs_keep st' st'' \<Longrightarrow> dfs_keep st st''"
  by (simp add: dfs_keep_def)

lemma dfs_ext_refl [simp]: "dfs_ext st st"
  by (simp add: dfs_ext_def)

lemma dfs_ext_trans [trans]: "dfs_ext st st' \<Longrightarrow> dfs_ext st' st'' \<Longrightarrow> dfs_ext st st''"
  unfolding dfs_ext_def using dfs_keep_trans by blast

lemma dfs_ext_keep: "dfs_ext st st' \<Longrightarrow> dfs_keep st st'"
  by (simp add: dfs_ext_def)

lemma best_chain_keep:
  assumes "dfs_keep st st'"
  shows "best_chain env st p \<Longrightarrow> best_chain env st' p"
proof (induction p rule: induct_list012)
  case (3 b c p)
  then have v: "map_of (dsVisit st) b = Some Visited" by simp
  from 3 dfs_keepD(1) [OF assms v] dfs_keepD(3) [OF assms v] show ?case by simp
qed simp_all

lemma child_ok_keep:
  assumes "dfs_keep st st'" and "child_ok env st bound c"
  shows "child_ok env st' bound c"
  using assms(2) dfs_keepD(1,2) [OF assms(1), of c] unfolding child_ok_def by (simp split: if_split_asm)

lemma settled_keep: "dfs_keep st st' \<Longrightarrow> settled env st' \<Longrightarrow> settled env st"
  unfolding settled_def using dfs_keepD(4) by blast

lemma block_ok_keep:
  assumes "dfs_keep st st'" and "map_of (dsVisit st) b = Some Visited" and "block_ok env st b"
  shows "block_ok env st' b"
proof -
  from assms(3) obtain m where m: "b \<noteq> deLatch env" "map_of (dsMemo st) b = Some m"
    "m = - 1 \<or> (\<exists>p. best_chain env st (b # p) \<and> pathWeight env (b # p) = m)"
    "settled env st \<Longrightarrow> \<forall>c \<in> set (deSuccs env b) \<inter> set (deBlocks env). child_ok env st (m - deEnergy env b) c"
    by (auto simp: block_ok_def)
  have "map_of (dsMemo st') b = Some m" using dfs_keepD(2) [OF assms(1,2)] m(2) by simp
  moreover have "m = - 1 \<or> (\<exists>p. best_chain env st' (b # p) \<and> pathWeight env (b # p) = m)"
    using m(3) best_chain_keep [OF assms(1)] by blast
  moreover have "settled env st' \<longrightarrow> (\<forall>c \<in> set (deSuccs env b) \<inter> set (deBlocks env). child_ok env st' (m - deEnergy env b) c)"
    using m(4) settled_keep [OF assms(1)] child_ok_keep [OF assms(1)] by blast
  ultimately show ?thesis using m(1) unfolding block_ok_def by blast
qed

lemma child_ok_mono:
  assumes "child_ok env st bound c" and "bound \<le> bound'"
  shows "child_ok env st bound' c"
proof (cases "c = deLatch env")
  case True
  then show ?thesis using assms by (simp add: child_ok_def)
next
  case False
  with assms(1) obtain m where "map_of (dsVisit st) c = Some Visited" "map_of (dsMemo st) c = Some m" "m < 0 \<or> m \<le> bound"
    by (auto simp: child_ok_def)
  with False assms(2) show ?thesis by (auto simp: child_ok_def)
qed

section \<open>The search keeps the invariant\<close>

text \<open>What a search returns for a block.\<close>

definition search_result :: "dfs_env \<Rightarrow> bb_ptr \<Rightarrow> dfs_state \<Rightarrow> double \<times> dfs_state \<Rightarrow> bool" where
  "search_result env bb st r \<longleftrightarrow>
     (let (e, st') = r
      in dfs_ext st st' \<and> dfs_inv env st'
         \<and> (if bb = deLatch env then e = deEnergy env bb
            else map_of (dsVisit st') bb = Some Visited \<and> map_of (dsMemo st') bb = Some e \<or> e = - 1 \<and> dsCycle st'))"

definition search_ok :: "dfs_env \<Rightarrow> (bb_ptr \<Rightarrow> dfs_state \<Rightarrow> (double \<times> dfs_state) option) \<Rightarrow> bool" where
  "search_ok env search \<longleftrightarrow> (\<forall>bb st r. dfs_inv env st \<longrightarrow> search bb st = Some r \<longrightarrow> search_result env bb st r)"

text \<open>The best successor so far.\<close>

definition best_ok :: "dfs_env \<Rightarrow> bb_ptr \<Rightarrow> dfs_state \<Rightarrow> best_succ \<Rightarrow> bool" where
  "best_ok env bb st s \<longleftrightarrow>
     (case s of
        (bestE, None) \<Rightarrow> bestE = - 1
      | (bestE, Some c) \<Rightarrow> 0 \<le> bestE \<and> c \<in> set (deSuccs env bb) \<and> c \<in> set (deBlocks env)
          \<and> (if c = deLatch env then bestE = deEnergy env c
             else map_of (dsVisit st) c = Some Visited \<and> map_of (dsMemo st) c = Some bestE))"

text \<open>The state of the loop over the successors: the bound covers the children seen so far and, when a
  best successor is known, is its value.\<close>

definition loop_ok :: "dfs_env \<Rightarrow> bb_ptr \<Rightarrow> dfs_state \<Rightarrow> bb_ptr set \<Rightarrow> best_succ \<times> dfs_state \<Rightarrow> bool" where
  "loop_ok env bb st0 seen s \<longleftrightarrow>
     (let (b, st) = s
      in dfs_ext st0 st \<and> dfs_inv env st \<and> best_ok env bb st b
         \<and> (settled env st \<longrightarrow> (\<forall>c \<in> seen \<inter> set (deBlocks env). child_ok env st (fst b) c)))"

lemma best_ok_keep:
  assumes "dfs_keep st st'" and "best_ok env bb st s"
  shows "best_ok env bb st' s"
  using assms(2) dfs_keepD(1,2) [OF assms(1)] by (simp add: best_ok_def split: prod.splits option.splits if_split_asm)

lemma considerSucc_ok:
  assumes "search_ok env search" and "loop_ok env bb st0 seen s" and "considerSucc search env s c = Some s'"
    and "c \<in> set (deSuccs env bb)"
  shows "loop_ok env bb st0 (insert c seen) s'"
proof (cases "c \<in> set (deBlocks env)")
  case False
  then show ?thesis using assms(2,3) by (auto simp: considerSucc_def loop_ok_def split: prod.splits)
next
  case True
  obtain bestE best st where s: "s = ((bestE, best), st)" by (metis prod.collapse)
  from assms(3) True obtain e st' where r: "search c st = Some (e, st')"
    and s': "s' = (if e < 0 then (bestE, best) else if bestE < e then (e, Some c) else (bestE, best), st')"
    by (auto simp: considerSucc_def s split: option.splits prod.splits)
  from assms(2) have inv: "dfs_inv env st" "dfs_ext st0 st" "best_ok env bb st (bestE, best)"
    and cov: "settled env st \<Longrightarrow> \<forall>x \<in> seen \<inter> set (deBlocks env). child_ok env st bestE x"
    by (auto simp: loop_ok_def s)
  from assms(1) r inv have ext: "dfs_ext st st'" and inv': "dfs_inv env st'"
    and res: "if c = deLatch env then e = deEnergy env c
      else map_of (dsVisit st') c = Some Visited \<and> map_of (dsMemo st') c = Some e \<or> e = - 1 \<and> dsCycle st'"
    by (auto simp: search_ok_def search_result_def)
  note keep = dfs_ext_keep [OF ext]
  let ?E = "if e < 0 then bestE else if bestE < e then e else bestE"
  have cover: "child_ok env st' ?E x" if st: "settled env st'" and x: "x \<in> insert c seen" "x \<in> set (deBlocks env)" for x
  proof (cases "x = c")
    case True
    then show ?thesis using res st by (auto simp: child_ok_def settled_def split: if_splits)
  next
    case False
    then show ?thesis using cov [OF settled_keep [OF keep st]] x child_ok_mono [OF child_ok_keep [OF keep], of env bestE x ?E] by auto
  qed
  note common = dfs_ext_trans [OF inv(2) ext] inv'
  show ?thesis
  proof (cases "\<not> e < 0 \<and> bestE < e")
    case better: True
    then have "s' = ((e, Some c), st')" "best_ok env bb st' (e, Some c)" "?E = e"
      using res True assms(4) by (auto simp: s' best_ok_def)
    then show ?thesis using common cover by (simp add: loop_ok_def)
  next
    case False
    then have "s' = ((bestE, best), st')" "?E = bestE" by (auto simp: s')
    then show ?thesis using common best_ok_keep [OF keep inv(3)] cover by (simp add: loop_ok_def)
  qed
qed

lemma considerSuccs_ok:
  assumes "search_ok env search" and "loop_ok env bb st0 seen s" and "foldM (considerSucc search env) s cs = Some s'"
    and "set cs \<subseteq> set (deSuccs env bb)"
  shows "loop_ok env bb st0 (seen \<union> set cs) s'"
  using assms(2,3,4)
proof (induction cs arbitrary: s seen)
  case (Cons c cs)
  from Cons.prems(2) obtain t where t: "considerSucc search env s c = Some t" "foldM (considerSucc search env) t cs = Some s'"
    by (auto split: option.splits)
  from considerSucc_ok [OF assms(1) Cons.prems(1) t(1)] Cons.prems(3) have "loop_ok env bb st0 (insert c seen) t" by simp
  from Cons.IH [OF this t(2)] Cons.prems(3) show ?case by simp
qed simp

lemma dfs_inv_step:
  assumes "dfs_inv env st" and "dfs_keep st st'"
    and "\<And>b. map_of (dsVisit st') b = Some Visited \<Longrightarrow> map_of (dsVisit st) b \<noteq> Some Visited \<Longrightarrow> block_ok env st' b"
  shows "dfs_inv env st'"
  unfolding dfs_inv_def using assms block_ok_keep [OF assms(2)] unfolding dfs_inv_def by blast

lemma dfs_ext_mark:
  assumes "dfs_ext (st\<lparr>dsVisit := omap_put bb Visiting (dsVisit st)\<rparr>) st'" and "map_of (dsVisit st) bb = None"
    and that: "\<And>b. b \<noteq> bb \<Longrightarrow> map_of bs b = map_of (dsBestSucc st') b" "\<And>b. b \<noteq> bb \<Longrightarrow> map_of me b = map_of (dsMemo st') b"
  shows "dfs_ext st (st'\<lparr>dsVisit := omap_put bb Visited (dsVisit st'), dsBestSucc := bs, dsMemo := me\<rparr>)"
    (is "dfs_ext st ?new")
proof -
  have "dfs_keep st (st\<lparr>dsVisit := omap_put bb Visiting (dsVisit st)\<rparr>)" using assms(2) by (auto simp: dfs_keep_def)
  then have keep: "dfs_keep st st'" by (rule dfs_keep_trans [OF _ dfs_ext_keep [OF assms(1)]])
  have "dfs_keep st ?new"
    using keep assms(2) that by (fastforce simp: dfs_keep_def)
  moreover have "map_of (dsVisit ?new) b = Some Visiting \<longleftrightarrow> map_of (dsVisit st) b = Some Visiting" for b
    using assms by (auto simp: dfs_ext_def)
  ultimately show ?thesis by (simp add: dfs_ext_def)
qed

lemma finishBlock_ok:
  assumes loop: "loop_ok env bb (st\<lparr>dsVisit := omap_put bb Visiting (dsVisit st)\<rparr>) (set (deSuccs env bb)) s"
    and new: "map_of (dsVisit st) bb = None" and bb: "bb \<noteq> deLatch env"
  shows "search_result env bb st (finishBlock env bb s)"
proof -
  obtain bestE best st1 where s: "s = ((bestE, best), st1)" by (metis prod.collapse)
  from loop have l: "dfs_ext (st\<lparr>dsVisit := omap_put bb Visiting (dsVisit st)\<rparr>) st1" "dfs_inv env st1"
      "best_ok env bb st1 (bestE, best)"
    and cov: "settled env st1 \<Longrightarrow> \<forall>c \<in> set (deSuccs env bb) \<inter> set (deBlocks env). child_ok env st1 bestE c"
    by (auto simp: loop_ok_def s)
  from l(1) have vis: "map_of (dsVisit st1) bb = Some Visiting" by (simp add: dfs_ext_def)
  obtain e bs me where fin: "finishBlock env bb s = (e, st1\<lparr>dsVisit := omap_put bb Visited (dsVisit st1), dsBestSucc := bs, dsMemo := me\<rparr>)"
    and me: "me = omap_put bb e (dsMemo st1)"
    and res: "best = None \<and> e = - 1 \<and> bs = dsBestSucc st1
      \<or> (\<exists>c. best = Some c \<and> e = deEnergy env bb + bestE \<and> bs = omap_put bb c (dsBestSucc st1))"
    using l(3) by (cases best) (auto simp: finishBlock_def s best_ok_def intro!: that)
  let ?new = "st1\<lparr>dsVisit := omap_put bb Visited (dsVisit st1), dsBestSucc := bs, dsMemo := me\<rparr>"
  have other: "\<And>b. b \<noteq> bb \<Longrightarrow> map_of bs b = map_of (dsBestSucc st1) b" "\<And>b. b \<noteq> bb \<Longrightarrow> map_of me b = map_of (dsMemo st1) b"
    using res me by auto
  have keep: "dfs_keep st1 ?new" using vis other by (fastforce simp: dfs_keep_def)
  have chain: "e = - 1 \<or> (\<exists>p. best_chain env ?new (bb # p) \<and> pathWeight env (bb # p) = e)"
  proof (cases best)
    case (Some c)
    with res have e: "e = deEnergy env bb + bestE" "map_of bs bb = Some c" by auto
    have "\<exists>p. best_chain env st1 (c # p) \<and> pathWeight env (c # p) = bestE"
    proof (cases "c = deLatch env")
      case True
      then have "best_chain env st1 [c] \<and> pathWeight env [c] = bestE" using l(3) Some by (simp add: best_ok_def pathWeight_def)
      then show ?thesis by blast
    next
      case False
      then show ?thesis using l(2,3) Some by (fastforce simp: best_ok_def dfs_inv_def block_ok_def)
    qed
    then obtain p where "best_chain env ?new (c # p)" "pathWeight env (c # p) = bestE" using best_chain_keep [OF keep] by blast
    then have "best_chain env ?new (bb # c # p) \<and> pathWeight env (bb # c # p) = e"
      using Some l(3) e bb by (simp add: best_ok_def pathWeight_def)
    then show ?thesis by blast
  qed (use res in auto)
  have cover: "child_ok env ?new (e - deEnergy env bb) c"
    if st: "settled env ?new" and c: "c \<in> set (deSuccs env bb) \<inter> set (deBlocks env)" for c
  proof -
    have ok: "child_ok env st1 bestE c" using cov [OF settled_keep [OF keep st]] c by blast
    have "child_ok env st1 (e - deEnergy env bb) c"
    proof (cases best)
      case None
      then have "bestE = - 1" using l(3) by (simp add: best_ok_def)
      then show ?thesis using ok st by (auto simp: child_ok_def settled_def split: if_split_asm)
    next
      case (Some d)
      then show ?thesis using ok res by auto
    qed
    then show ?thesis by (rule child_ok_keep [OF keep])
  qed
  have "block_ok env ?new bb" using bb chain cover me unfolding block_ok_def by auto
  then have inv: "dfs_inv env ?new" by (intro dfs_inv_step [OF l(2) keep]) (auto split: if_split_asm)
  show ?thesis using dfs_ext_mark [OF l(1) new other] inv bb me by (simp add: search_result_def fin)
qed

lemma dfs_ok: "search_ok env (dfs n env)"
proof (induction n)
  case (Suc n)
  show ?case
    unfolding search_ok_def
  proof (intro allI impI)
    fix bb st r
    assume inv: "dfs_inv env st" and r: "dfs (Suc n) env bb st = Some r"
    consider "bb = deLatch env" | "bb \<noteq> deLatch env" "map_of (dsVisit st) bb = Some Visiting"
      | "bb \<noteq> deLatch env" "map_of (dsVisit st) bb = Some Visited" | "bb \<noteq> deLatch env" "map_of (dsVisit st) bb = None"
      by (cases "map_of (dsVisit st) bb") (auto intro: visit_state.exhaust)
    then show "search_result env bb st r"
    proof cases
      case 1
      then show ?thesis using r inv by (auto simp: search_result_def)
    next
      case 2
      then have "r = (- 1, st\<lparr>dsCycle := True\<rparr>)" using r by simp
      moreover have k: "dfs_keep st (st\<lparr>dsCycle := True\<rparr>)" by (simp add: dfs_keep_def)
      moreover have "dfs_inv env (st\<lparr>dsCycle := True\<rparr>)" by (rule dfs_inv_step [OF inv k]) simp
      ultimately show ?thesis using 2 by (simp add: search_result_def dfs_ext_def)
    next
      case 3
      then obtain m where "map_of (dsMemo st) bb = Some m" using inv by (auto simp: dfs_inv_def block_ok_def)
      then show ?thesis using 3 r inv by (auto simp: search_result_def omap_get_def)
    next
      case 4
      let ?st0 = "st\<lparr>dsVisit := omap_put bb Visiting (dsVisit st)\<rparr>"
      from r 4 obtain s where s: "foldM (considerSucc (dfs n env) env) ((- 1, None), ?st0) (deSuccs env bb) = Some s"
        and fin: "r = finishBlock env bb s" by (auto split: option.splits)
      have "dfs_keep st ?st0" using 4 by (auto simp: dfs_keep_def)
      then have "dfs_inv env ?st0" by (rule dfs_inv_step [OF inv]) (simp split: if_split_asm)
      then have "loop_ok env bb ?st0 {} ((- 1, None), ?st0)" by (simp add: loop_ok_def best_ok_def)
      from considerSuccs_ok [OF Suc.IH this s] show ?thesis unfolding fin by (intro finishBlock_ok) (use 4 in auto)
    qed
  qed
qed (simp add: search_ok_def)

section \<open>The search ends\<close>

definition unmarked :: "dfs_env \<Rightarrow> dfs_state \<Rightarrow> bb_ptr set" where
  "unmarked env st = {b \<in> set (deBlocks env). map_of (dsVisit st) b = None}"

lemma unmarked_ext:
  assumes "dfs_ext st st'"
  shows "unmarked env st' \<subseteq> unmarked env st"
proof -
  have "map_of (dsVisit st) b = None" if "map_of (dsVisit st') b = None" for b
  proof (cases "map_of (dsVisit st) b")
    case (Some x)
    then show ?thesis using that assms unfolding dfs_ext_def dfs_keep_def by (cases x) (metis option.distinct(1))+
  qed
  then show ?thesis by (auto simp: unmarked_def)
qed

lemma finite_unmarked [simp]: "finite (unmarked env st)"
  by (simp add: unmarked_def)

lemma dfs_returns:
  "dfs_inv env st \<Longrightarrow> map_of (dsVisit st) bb \<noteq> None \<and> 0 < n \<or> card (unmarked env st - {bb}) + 1 < n \<Longrightarrow>
     \<exists>r. dfs n env bb st = Some r"
proof (induction n arbitrary: bb st)
  case (Suc n)
  show ?case
  proof (cases "bb = deLatch env \<or> map_of (dsVisit st) bb \<noteq> None")
    case True
    then show ?thesis by (auto split: option.splits visit_state.splits)
  next
    case False
    let ?st0 = "st\<lparr>dsVisit := omap_put bb Visiting (dsVisit st)\<rparr>"
    define P where "P s \<longleftrightarrow> dfs_inv env (snd s) \<and> dfs_ext ?st0 (snd s)" for s :: "best_succ \<times> dfs_state"
    from False Suc.prems(2) have n: "card (unmarked env st - {bb}) < n" by simp
    have "dfs_keep st ?st0" using False by (auto simp: dfs_keep_def)
    then have "dfs_inv env ?st0" by (rule dfs_inv_step [OF Suc.prems(1)]) (simp split: if_split_asm)
    then have "P ((- 1, None), ?st0)" by (simp add: P_def)
    moreover have "\<exists>s'. considerSucc (dfs n env) env s c = Some s' \<and> P s'" if "P s" for s c
    proof (cases "c \<in> set (deBlocks env)")
      case True
      have "unmarked env (snd s) \<subseteq> unmarked env ?st0" using that unmarked_ext by (auto simp: P_def)
      also have "\<dots> = unmarked env st - {bb}" by (auto simp: unmarked_def)
      finally have le: "card (unmarked env (snd s)) < n" using n card_mono [of "unmarked env st - {bb}" "unmarked env (snd s)"] by simp
      have "map_of (dsVisit (snd s)) c \<noteq> None \<or> c \<in> unmarked env (snd s)" using True by (auto simp: unmarked_def)
      then have "map_of (dsVisit (snd s)) c \<noteq> None \<and> 0 < n \<or> card (unmarked env (snd s) - {c}) + 1 < n"
        using le card_Suc_Diff1 [of "unmarked env (snd s)" c] by fastforce
      from Suc.IH [OF _ this] that obtain e st' where r: "dfs n env c (snd s) = Some (e, st')" by (auto simp: P_def)
      from dfs_ok [of env n] r that have "dfs_ext (snd s) st'" "dfs_inv env st'"
        by (auto simp: P_def search_ok_def search_result_def)
      then show ?thesis using r True that dfs_ext_trans by (auto simp: considerSucc_def P_def)
    qed (use that in \<open>simp add: considerSucc_def\<close>)
    ultimately have "\<exists>t. foldM (considerSucc (dfs n env) env) ((- 1, None), ?st0) (deSuccs env bb) = Some t"
      by (rule foldM_total [of P])
    then show ?thesis using False by auto
  qed
qed simp

lemma dfs_emptySearch:
  obtains e st where "dfs (length (deBlocks env) + 2) env bb emptySearch = Some (e, st)"
    "search_result env bb emptySearch (e, st)"
proof -
  have inv: "dfs_inv env emptySearch" by (simp add: dfs_inv_def emptySearch_def)
  have "card (unmarked env emptySearch - {bb}) \<le> card (set (deBlocks env))" by (rule card_mono) (auto simp: unmarked_def)
  also have "\<dots> \<le> length (deBlocks env)" by (rule card_length)
  finally have "card (unmarked env emptySearch - {bb}) + 1 < length (deBlocks env) + 2" by simp
  from dfs_returns [OF inv disjI2, OF this] obtain e st where r: "dfs (length (deBlocks env) + 2) env bb emptySearch = Some (e, st)"
    by auto
  then show thesis using dfs_ok [of env "length (deBlocks env) + 2"] inv that by (auto simp: search_ok_def)
qed

section \<open>The result of the search\<close>

lemma followBest_chain:
  assumes "best_chain env st p"
  shows "p = b # q \<Longrightarrow> followBest env (dsBestSucc st) b acc = Some (Inr (acc @ p))"
  using assms
proof (induction p arbitrary: b q acc rule: induct_list012)
  case (2 x)
  then show ?case by (subst followBest.simps) simp
next
  case (3 x y p)
  from 3(3) have [simp]: "b = x" "q = y # p" by simp_all
  from 3(2) [of y p "acc @ [x]"] 3(4) show ?case by (subst followBest.simps) simp
qed simp

lemma memo_bound:
  assumes "dfs_inv env st" and "settled env st" and nonneg: "\<And>b. 0 \<le> deEnergy env b"
  shows "body_path env (b # p) \<Longrightarrow> map_of (dsVisit st) b = Some Visited \<Longrightarrow> map_of (dsMemo st) b = Some m
    \<Longrightarrow> pathWeight env (b # p) \<le> m"
proof (induction p arbitrary: b m)
  case Nil
  then show ?case using assms(1) by (auto simp: dfs_inv_def block_ok_def)
next
  case (Cons c p)
  from Cons.prems have c: "c \<in> set (deSuccs env b) \<inter> set (deBlocks env)" "body_path env (c # p)" by auto
  have "block_ok env st b" using assms(1) Cons.prems(2) by (simp add: dfs_inv_def)
  then have ok: "child_ok env st (m - deEnergy env b) c" using assms(2) Cons.prems(3) c(1) by (auto simp: block_ok_def)
  have weight: "pathWeight env (b # c # p) = deEnergy env b + pathWeight env (c # p)" by (simp add: pathWeight_def)
  have pos: "0 \<le> pathWeight env (c # p)" using nonneg by (auto simp: pathWeight_def intro!: add_nonneg_nonneg sum_list_nonneg)
  show ?case
  proof (cases "c = deLatch env")
    case True
    then have "p = []" using c(2) by (cases p) auto
    then show ?thesis using ok True by (simp add: child_ok_def pathWeight_def)
  next
    case False
    then obtain m' where m': "map_of (dsVisit st) c = Some Visited" "map_of (dsMemo st) c = Some m'" "m' < 0 \<or> m' \<le> m - deEnergy env b"
      using ok by (auto simp: child_ok_def)
    from Cons.IH [OF c(2) m'(1,2)] have "pathWeight env (c # p) \<le> m'" .
    then show ?thesis using m'(3) pos weight by linarith
  qed
qed

text \<open>The outcome of the search for one loop: it ends, a path attains the energy, and the energy bounds
  every path.\<close>

lemma searchEnv_simps [simp]:
  "deLatch (searchEnv be succ L totals) = lpLatch L" "deBlocks (searchEnv be succ L totals) = lpBlocks L"
  "deEnergy (searchEnv be succ L totals) = pathEnergyOf be totals" "deSuccs (searchEnv be succ L totals) = pathSuccs succ totals"
  by (simp_all add: searchEnv_def)

lemma searchPath_search:
  assumes "lpHeader L \<noteq> lpLatch L"
  obtains e st where "dfs_inv (searchEnv be succ L totals) st"
    "dsCycle st \<and> searchPath be succ L totals = Some (Inl ''unsupported-intra-loop-cycle'')
     \<or> \<not> dsCycle st \<and> e \<le> 0 \<and> searchPath be succ L totals = Some (Inl ''unable-to-compute-path-energy'')
     \<or> \<not> dsCycle st \<and> 0 < e \<and> map_of (dsVisit st) (lpHeader L) = Some Visited \<and> map_of (dsMemo st) (lpHeader L) = Some e
       \<and> (\<exists>p. best_chain (searchEnv be succ L totals) st (lpHeader L # p)
             \<and> pathWeight (searchEnv be succ L totals) (lpHeader L # p) = e
             \<and> searchPath be succ L totals = Some (Inr (e, expandPath totals (lpHeader L # p))))"
proof -
  let ?env = "searchEnv be succ L totals"
  obtain e st where d: "dfs (length (deBlocks ?env) + 2) ?env (lpHeader L) emptySearch = Some (e, st)"
    and r: "search_result ?env (lpHeader L) emptySearch (e, st)"
    by (rule dfs_emptySearch)
  note d' = d [unfolded searchEnv_simps]
  from r have inv: "dfs_inv ?env st" by (simp add: search_result_def)
  consider "dsCycle st" | "\<not> dsCycle st" "e \<le> 0" | "\<not> dsCycle st" "0 < e" by linarith
  then show thesis
  proof cases
    case 3
    then have h: "map_of (dsVisit st) (lpHeader L) = Some Visited" "map_of (dsMemo st) (lpHeader L) = Some e"
      using r assms by (auto simp: search_result_def)
    then have "block_ok ?env st (lpHeader L)" using inv by (simp add: dfs_inv_def)
    then obtain p where p: "best_chain ?env st (lpHeader L # p)" "pathWeight ?env (lpHeader L # p) = e"
      using 3 h(2) by (auto simp: block_ok_def)
    have "followBest ?env (dsBestSucc st) (lpHeader L) [] = Some (Inr (lpHeader L # p))"
      using followBest_chain [OF p(1) refl, of "[]"] by simp
    then have "searchPath be succ L totals = Some (Inr (e, expandPath totals (lpHeader L # p)))"
      using d' assms 3 by (simp add: searchPath_def Let_def)
    with 3 h p inv that show thesis by blast
  qed (use d' assms inv that in \<open>auto simp: searchPath_def Let_def\<close>)
qed

lemma searchPath_total: "\<exists>r. searchPath be succ L totals = Some r"
proof (cases "lpHeader L = lpLatch L")
  case False
  then obtain e st where "\<exists>r. searchPath be succ L totals = Some r" by (rule searchPath_search) blast
  then show ?thesis .
qed (simp add: searchPath_def)

lemma searchPath_found:
  assumes "lpHeader L \<noteq> lpLatch L" and "searchPath be succ L totals = Some (Inr (e, bs))"
  obtains st p where "dfs_inv (searchEnv be succ L totals) st" "\<not> dsCycle st"
    "map_of (dsVisit st) (lpHeader L) = Some Visited" "map_of (dsMemo st) (lpHeader L) = Some e"
    "best_chain (searchEnv be succ L totals) st (lpHeader L # p)"
    "pathWeight (searchEnv be succ L totals) (lpHeader L # p) = e" "bs = expandPath totals (lpHeader L # p)"
proof -
  from assms(1) show thesis
  proof (rule searchPath_search [of L be succ totals], elim disjE conjE exE)
    fix e' st p
    assume "searchPath be succ L totals = Some (Inr (e', expandPath totals (lpHeader L # p)))"
    then have "e' = e" "bs = expandPath totals (lpHeader L # p)" using assms(2) by auto
    moreover assume "dfs_inv (searchEnv be succ L totals) st" "\<not> dsCycle st"
      "map_of (dsVisit st) (lpHeader L) = Some Visited" "map_of (dsMemo st) (lpHeader L) = Some e'"
      "best_chain (searchEnv be succ L totals) st (lpHeader L # p)"
      "pathWeight (searchEnv be succ L totals) (lpHeader L # p) = e'"
    ultimately show thesis using that by simp
  qed (use assms(2) in simp_all)
qed

lemma body_path_latch: "body_path env (deLatch env # p) \<longleftrightarrow> p = []"
  by (cases p) auto

lemma searchPath_attained:
  assumes "searchPath be succ L totals = Some (Inr (e, bs))"
  shows "\<exists>p. body_path (searchEnv be succ L totals) (lpHeader L # p)
    \<and> pathWeight (searchEnv be succ L totals) (lpHeader L # p) = e
    \<and> bs = (if lpHeader L = lpLatch L then {lpHeader L} else expandPath totals (lpHeader L # p))"
proof (cases "lpHeader L = lpLatch L")
  case True
  then show ?thesis using assms by (auto simp: searchPath_def pathWeight_def intro!: exI [of _ "[]"])
next
  case False
  from False assms obtain st p where "best_chain (searchEnv be succ L totals) st (lpHeader L # p)"
    "pathWeight (searchEnv be succ L totals) (lpHeader L # p) = e" "bs = expandPath totals (lpHeader L # p)"
    by (rule searchPath_found)
  with False best_chain_body show ?thesis by auto
qed

lemma searchPath_bound:
  assumes "searchPath be succ L totals = Some (Inr (e, bs))" and nonneg: "\<And>b. 0 \<le> pathEnergyOf be totals b"
    and "body_path (searchEnv be succ L totals) (lpHeader L # p)"
  shows "pathWeight (searchEnv be succ L totals) (lpHeader L # p) \<le> e"
proof (cases "lpHeader L = lpLatch L")
  case True
  then have "p = []" using assms(3) body_path_latch [of "searchEnv be succ L totals" p] by simp
  then show ?thesis using assms(1) True by (simp add: searchPath_def pathWeight_def)
next
  case False
  from False assms(1) obtain st where "dfs_inv (searchEnv be succ L totals) st" "\<not> dsCycle st"
    "map_of (dsVisit st) (lpHeader L) = Some Visited" "map_of (dsMemo st) (lpHeader L) = Some e"
    by (rule searchPath_found)
  then show ?thesis using memo_bound [of "searchEnv be succ L totals" st "lpHeader L" p e] nonneg assms(3)
    by (simp add: settled_def)
qed

section \<open>Iterations of a loop\<close>

text \<open>What a visit of a block of the collapsed body can cost: the block, or at the header of a sub-loop some
  iterations of it, no more than its trip count.\<close>

definition visitCost ::
  "(bb_ptr, double) omap \<Rightarrow> (llvm_loop \<Rightarrow> u64 option) \<Rightarrow> (llvm_loop \<times> (double \<Rightarrow> bool)) list \<Rightarrow> bb_ptr \<Rightarrow> double \<Rightarrow> bool" where
  "visitCost be tc kids b c \<longleftrightarrow>
     (case getDirectChildLoop (map fst kids) b of
        Some C \<Rightarrow>
          (if lpHeader C = b
           then \<exists>n iter rs. tc C = Some n \<and> map_of kids C = Some iter \<and> length rs \<le> unat n \<and> (\<forall>r \<in> set rs. iter r) \<and> c = sum_list rs
           else c = omap_get 0 be b)
      | None \<Rightarrow> c = omap_get 0 be b)"

definition loopBody :: "(bb_ptr \<Rightarrow> bb_ptr list) \<Rightarrow> llvm_loop \<Rightarrow> dfs_env" where
  "loopBody succ L = searchEnv [] succ L (map (\<lambda>C. (C, 0)) (lpSubLoops L))"

text \<open>An iteration follows a path from the header towards the latch and may leave the loop on the way.\<close>

definition iterationOf ::
  "(bb_ptr, double) omap \<Rightarrow> (bb_ptr \<Rightarrow> bb_ptr list) \<Rightarrow> (llvm_loop \<Rightarrow> u64 option) \<Rightarrow> llvm_loop \<Rightarrow> (llvm_loop \<times> (double \<Rightarrow> bool)) list
     \<Rightarrow> double \<Rightarrow> bool" where
  "iterationOf be succ tc L kids c \<longleftrightarrow>
     (\<exists>p k cs. body_path (loopBody succ L) (lpHeader L # p)
        \<and> list_all2 (visitCost be tc kids) (take k (lpHeader L # p)) cs \<and> c = sum_list cs)"

fun iterationCost ::
  "(bb_ptr, double) omap \<Rightarrow> (bb_ptr \<Rightarrow> bb_ptr list) \<Rightarrow> (llvm_loop \<Rightarrow> u64 option) \<Rightarrow> llvm_loop \<Rightarrow> double \<Rightarrow> bool" where
  "iterationCost be succ tc (LLVMLoop h la ph bs ex se mk sm iv subs) =
     iterationOf be succ tc (LLVMLoop h la ph bs ex se mk sm iv subs) (map (\<lambda>C. (C, iterationCost be succ tc C)) subs)"

lemma iterationCost_unfold:
  "iterationCost be succ tc L = iterationOf be succ tc L (map (\<lambda>C. (C, iterationCost be succ tc C)) (lpSubLoops L))"
  by (cases L) simp

lemma computeWorstCasePath_unfold:
  "computeWorstCasePath be succ tc L =
     (if lpHeader L = nullptr \<or> lpLatch L = nullptr then Some (Inl ''missing-header-or-latch'')
      else case subLoopTotals be succ tc (lpSubLoops L) of
             None \<Rightarrow> None
           | Some (Inl e) \<Rightarrow> Some (Inl e)
           | Some (Inr totals) \<Rightarrow> searchPath be succ L totals)"
  by (cases L, hypsubst) simp

lemma pathSuccs_cong: "map fst totals = map fst totals' \<Longrightarrow> pathSuccs succ totals = pathSuccs succ totals'"
  by (rule ext) (simp add: pathSuccs_def collapsedChild_def split: option.split)

lemma body_path_cong:
  assumes "deLatch env = deLatch env'" "deBlocks env = deBlocks env'" "deSuccs env = deSuccs env'"
  shows "body_path env p = body_path env' p"
  using assms by (induction p rule: induct_list012) simp_all

lemma loopBody_path:
  assumes "map fst totals = lpSubLoops L"
  shows "body_path (loopBody succ L) p = body_path (searchEnv be succ L totals) p"
proof (rule body_path_cong)
  have "map fst (map (\<lambda>C. (C, 0 :: double)) (lpSubLoops L)) = map fst totals" using assms by (simp add: comp_def)
  from pathSuccs_cong [OF this]
  show "deSuccs (loopBody succ L) = deSuccs (searchEnv be succ L totals)" by (simp add: loopBody_def)
qed (simp_all add: loopBody_def)

text \<open>What the totals of the sub-loops are.\<close>

definition totals_ok ::
  "(bb_ptr, double) omap \<Rightarrow> (bb_ptr \<Rightarrow> bb_ptr list) \<Rightarrow> (llvm_loop \<Rightarrow> u64 option) \<Rightarrow> loop_totals \<Rightarrow> bool" where
  "totals_ok be succ tc totals \<longleftrightarrow>
     (\<forall>C t. (C, t) \<in> set totals \<longrightarrow> (\<exists>n e. tc C = Some n \<and> t = e * real (unat n) \<and> 0 \<le> e \<and> (\<forall>c. iterationCost be succ tc C c \<longrightarrow> c \<le> e)))"

lemma child_total:
  assumes "getDirectChildLoop (map fst totals) b = Some C"
  obtains t where "map_of totals C = Some t" "(C, t) \<in> set totals"
proof -
  from assms have "C \<in> set (map fst totals)" by (fastforce simp: getDirectChildLoop_def find_Some_iff)
  then obtain t where "map_of totals C = Some t" by (auto dest!: weak_map_of_SomeI)
  with that map_of_SomeD show thesis by metis
qed

lemma pathEnergy_nonneg:
  assumes "totals_ok be succ tc totals" and "\<forall>b. 0 \<le> omap_get 0 be b"
  shows "0 \<le> pathEnergyOf be totals b"
proof (cases "getDirectChildLoop (map fst totals) b")
  case (Some C)
  then obtain t where "map_of totals C = Some t" "(C, t) \<in> set totals" by (rule child_total)
  moreover from this obtain n e where "tc C = Some n" "t = e * real (unat n)" "0 \<le> e" using assms(1) unfolding totals_ok_def by blast
  then have "0 \<le> t" by (metis mult_nonneg_nonneg of_nat_0_le_iff)
  ultimately show ?thesis using assms(2) Some by (simp add: pathEnergyOf_def collapsedChild_def)
qed (use assms in \<open>simp add: pathEnergyOf_def collapsedChild_def\<close>)

lemma sum_list_le:
  fixes e :: real
  shows "\<forall>r \<in> set rs. r \<le> e \<Longrightarrow> sum_list rs \<le> real (length rs) * e"
  by (induction rs) (auto simp: algebra_simps)

lemma visitCost_bound:
  assumes tot: "totals_ok be succ tc totals" and keys: "map fst totals = subs"
    and cost: "visitCost be tc (map (\<lambda>C. (C, iterationCost be succ tc C)) subs) b c"
  shows "c \<le> pathEnergyOf be totals b"
proof (cases "getDirectChildLoop subs b")
  case (Some C)
  show ?thesis
  proof (cases "lpHeader C = b")
    case True
    have kids: "map fst (map (\<lambda>C. (C, iterationCost be succ tc C)) subs) = subs" by (simp add: comp_def)
    from Some keys obtain t where t: "map_of totals C = Some t" "(C, t) \<in> set totals" using child_total by metis
    then obtain n e where n: "tc C = Some n" "t = e * real (unat n)" "0 \<le> e" "\<forall>c. iterationCost be succ tc C c \<longrightarrow> c \<le> e"
      using tot unfolding totals_ok_def by blast
    from cost Some True obtain iter rs where rs: "map_of (map (\<lambda>C. (C, iterationCost be succ tc C)) subs) C = Some iter"
      "length rs \<le> unat n" "\<forall>r \<in> set rs. iter r" "c = sum_list rs"
      using n(1) unfolding visitCost_def kids by auto
    have "iter = iterationCost be succ tc C" using map_of_SomeD [OF rs(1)] by auto
    then have "c \<le> real (length rs) * e" using rs n(4) by (auto intro!: sum_list_le)
    also have "\<dots> \<le> t" unfolding n(2) using rs(2) n(3) by (metis mult.commute mult_left_mono of_nat_mono)
    finally show ?thesis using Some True keys t by (simp add: pathEnergyOf_def collapsedChild_def)
  next
    case False
    then show ?thesis using cost Some keys by (simp add: visitCost_def comp_def pathEnergyOf_def collapsedChild_def)
  qed
next
  case None
  then show ?thesis using cost keys by (simp add: visitCost_def comp_def pathEnergyOf_def collapsedChild_def)
qed

lemma take_weight:
  fixes f :: "'a \<Rightarrow> real"
  assumes "\<And>x. 0 \<le> f x"
  shows "sum_list (map f (take k xs)) \<le> sum_list (map f xs)"
proof -
  have "sum_list (map f xs) = sum_list (map f (take k xs)) + sum_list (map f (drop k xs))"
    by (metis append_take_drop_id map_append sum_list_append)
  moreover have "0 \<le> sum_list (map f (drop k xs))" using assms by (auto intro!: sum_list_nonneg)
  ultimately show ?thesis by simp
qed

lemma iteration_bound:
  assumes tot: "totals_ok be succ tc totals" and keys: "map fst totals = lpSubLoops L"
    and nonneg: "\<forall>b. 0 \<le> omap_get 0 be b"
    and path: "searchPath be succ L totals = Some (Inr (e, bs))" and cost: "iterationCost be succ tc L c"
  shows "c \<le> e"
proof -
  from cost obtain p k cs where p: "body_path (loopBody succ L) (lpHeader L # p)"
    and cs: "list_all2 (visitCost be tc (map (\<lambda>C. (C, iterationCost be succ tc C)) (lpSubLoops L))) (take k (lpHeader L # p)) cs"
      "c = sum_list cs"
    unfolding iterationCost_unfold [of be succ tc L] iterationOf_def by blast
  note pos = pathEnergy_nonneg [OF tot nonneg]
  have "list_all2 (\<lambda>b c. c \<le> pathEnergyOf be totals b) (take k (lpHeader L # p)) cs"
    using cs(1) by (rule list_all2_mono) (rule visitCost_bound [OF tot keys])
  then have "sum_list cs \<le> sum_list (map (pathEnergyOf be totals) (take k (lpHeader L # p)))"
    by (induction rule: list_all2_induct) auto
  also have "\<dots> \<le> pathWeight (searchEnv be succ L totals) (lpHeader L # p)"
    unfolding pathWeight_def searchEnv_simps by (rule take_weight [OF pos])
  also have "\<dots> \<le> e" using searchPath_bound [OF path pos] p loopBody_path [OF keys] by blast
  finally show ?thesis by (simp add: cs(2))
qed

lemma worst_case_bound:
  assumes nonneg: "\<forall>b. 0 \<le> omap_get 0 be b"
  shows "computeWorstCasePath be succ tc L = Some (Inr (e, bs)) \<Longrightarrow> 0 \<le> e \<and> (\<forall>c. iterationCost be succ tc L c \<longrightarrow> c \<le> e)"
    and "subLoopTotals be succ tc Ls = Some (Inr totals) \<Longrightarrow> map fst totals = Ls \<and> totals_ok be succ tc totals"
  using assms
proof (induction be succ tc L and be succ tc Ls arbitrary: e bs and totals rule: computeWorstCasePath_subLoopTotals.induct)
  case (1 be succ tc h la ph bs' ex se mk sm iv subs)
  let ?L = "LLVMLoop h la ph bs' ex se mk sm iv subs"
  from 1(2) obtain totals where t: "\<not> (h = nullptr \<or> la = nullptr)" "subLoopTotals be succ tc subs = Some (Inr totals)"
    "searchPath be succ ?L totals = Some (Inr (e, bs))"
    by (auto split: if_split_asm option.splits sum.splits)
  from 1(1) [OF t(1,2) 1(3)] have ok: "map fst totals = lpSubLoops ?L" "totals_ok be succ tc totals" by simp_all
  from searchPath_attained [OF t(3)] have "0 \<le> e"
    using pathEnergy_nonneg [OF ok(2) 1(3)] by (auto simp: pathWeight_def intro!: add_nonneg_nonneg sum_list_nonneg)
  with iteration_bound [OF ok(2,1) 1(3) t(3)] show ?case by blast
next
  case (2 be succ tc)
  then show ?case by (simp add: totals_ok_def)
next
  case (3 be succ tc L Ls)
  from 3(3) obtain n e' bs' rest where r: "tc L = Some n" "computeWorstCasePath be succ tc L = Some (Inr (e', bs'))"
    "subLoopTotals be succ tc Ls = Some (Inr rest)" "totals = (L, e' * real (unat n)) # rest"
    by (auto split: option.splits sum.splits prod.splits) (metis (no_types, lifting) map_sum.simps obj_sumE sum.inject(2) sum.simps(4))
  from 3(1) [OF r(1) r(2) 3(4)] 3(2) [OF r(1,2) refl refl r(3) 3(4)] r show ?case by (auto simp: totals_ok_def)
qed

lemma worst_case_total:
  "\<exists>r. computeWorstCasePath be succ tc L = Some r" "\<exists>r. subLoopTotals be succ tc Ls = Some r"
proof (induction be succ tc L and be succ tc Ls rule: computeWorstCasePath_subLoopTotals.induct)
  case (1 be succ tc h la ph bs ex se mk sm iv subs)
  then show ?case using searchPath_total by (fastforce split: option.splits sum.splits)
next
  case (3 be succ tc L Ls)
  then show ?case by (fastforce split: option.splits sum.splits prod.splits)
qed simp

section \<open>Properties\<close>

text \<open>(C29) The worst-case path of a loop is computed for every loop, with a result or with one of the errors.
  A result bounds the energy of every iteration, in which a sub-loop may run up to its trip count and the
  loop may be left early, and is the energy of a path from header to latch, whose blocks, with those of
  the sub-loops on it, are reported.\<close>
theorem computeWorstCasePath_correct:
  fixes be :: "(bb_ptr, double) omap"
  assumes "\<forall>b. 0 \<le> omap_get 0 be b"
  shows "\<exists>r. computeWorstCasePath be succ tc L = Some r
    \<and> (\<forall>e bs. r = Inr (e, bs) \<longrightarrow>
         (\<forall>c. iterationCost be succ tc L c \<longrightarrow> c \<le> e)
         \<and> (\<exists>totals p. subLoopTotals be succ tc (lpSubLoops L) = Some (Inr totals)
              \<and> body_path (loopBody succ L) (lpHeader L # p)
              \<and> e = sum_list (map (pathEnergyOf be totals) (lpHeader L # p))
              \<and> bs = (if lpHeader L = lpLatch L then {lpHeader L} else expandPath totals (lpHeader L # p))))"
proof -
  obtain r where r: "computeWorstCasePath be succ tc L = Some r" using worst_case_total(1) by blast
  have "\<exists>totals p. subLoopTotals be succ tc (lpSubLoops L) = Some (Inr totals) \<and> body_path (loopBody succ L) (lpHeader L # p)
      \<and> e = sum_list (map (pathEnergyOf be totals) (lpHeader L # p))
      \<and> bs = (if lpHeader L = lpLatch L then {lpHeader L} else expandPath totals (lpHeader L # p))"
    if "r = Inr (e, bs)" for e bs
  proof -
    from r that obtain totals where t: "subLoopTotals be succ tc (lpSubLoops L) = Some (Inr totals)"
      "searchPath be succ L totals = Some (Inr (e, bs))"
      unfolding computeWorstCasePath_unfold by (auto split: if_split_asm option.splits sum.splits)
    from worst_case_bound(2) [OF assms t(1)] have keys: "map fst totals = lpSubLoops L" by simp
    from searchPath_attained [OF t(2)] obtain p where "body_path (loopBody succ L) (lpHeader L # p)"
      "sum_list (map (pathEnergyOf be totals) (lpHeader L # p)) = e"
      "bs = (if lpHeader L = lpLatch L then {lpHeader L} else expandPath totals (lpHeader L # p))"
      unfolding loopBody_path [OF keys, of succ _ be] pathWeight_def searchEnv_simps by blast
    with t(1) show ?thesis by blast
  qed
  moreover have "c \<le> e" if "r = Inr (e, bs)" "iterationCost be succ tc L c" for e bs c
    using worst_case_bound(1) [OF assms] r that by simp
  ultimately show ?thesis using r by (intro exI [of _ r] conjI allI impI)
qed

text \<open>A loop with a branch and a sub-loop of one block on one arm.\<close>

definition sample_inner :: llvm_loop where
  "sample_inner = LLVMLoop 3 3 1 [3] [4] 5 None False False []"

definition sample_outer :: llvm_loop where
  "sample_outer = LLVMLoop 1 4 9 [1, 2, 3, 4] [5] 0 (Some 7) False False [sample_inner]"

definition sample_succs :: "bb_ptr \<Rightarrow> bb_ptr list" where
  "sample_succs b = (if b = 1 then [2, 3] else if b = 2 then [4] else if b = 3 then [3, 4] else if b = 4 then [1, 5] else [])"

definition sample_energies :: "(bb_ptr, double) omap" where
  "sample_energies = [(1, 1), (2, 10), (3, 4), (4, 2), (9, 3)]"

lemma sample_worst_case: "computeWorstCaseSummaryPath sample_energies sample_succs sample_outer = Some (Inr (23, {1, 3, 4}))"
  by code_simp

lemma sample_iteration: "iterationCost sample_energies sample_succs summarySubLoopTripCount sample_outer 13"
proof -
  let ?kids = "[(sample_inner, iterationCost sample_energies sample_succs summarySubLoopTripCount sample_inner)]"
  have "body_path (loopBody sample_succs sample_outer) [1, 2, 4]" by code_simp
  moreover have "list_all2 (visitCost sample_energies summarySubLoopTripCount ?kids) [1, 2, 4] [1, 10, 2]"
    by (simp add: visitCost_def getDirectChildLoop_def sample_inner_def sample_energies_def omap_get_def)
  ultimately have "iterationOf sample_energies sample_succs summarySubLoopTripCount sample_outer ?kids 13"
    unfolding iterationOf_def by (intro exI [of _ "[2, 4]"] exI [of _ 3] exI [of _ "[1, 10, 2]"]) (simp add: sample_outer_def)
  then show ?thesis by (simp add: sample_outer_def)
qed

theorem computeWorstCasePath_correct_witness:
  "computeWorstCasePath sample_energies sample_succs summarySubLoopTripCount sample_outer = Some (Inr (23, {1, 3, 4}))
   \<and> iterationCost sample_energies sample_succs summarySubLoopTripCount sample_outer 13 \<and> (13 :: double) \<le> 23"
proof -
  have "\<forall>b. 0 \<le> omap_get 0 sample_energies b" by (simp add: sample_energies_def omap_get_def)
  from computeWorstCasePath_correct [OF this, of sample_succs summarySubLoopTripCount sample_outer]
  have "(13 :: double) \<le> 23"
    using sample_worst_case sample_iteration unfolding computeWorstCaseSummaryPath_def by (metis option.inject)
  then show ?thesis using sample_worst_case sample_iteration unfolding computeWorstCaseSummaryPath_def by blast
qed

end
