(* ===== verification/MILPEnergyModel.thy ===== *)
theory MILPEnergyModel
  imports JsonConfig MILPState EnergyPaths MILPSoundness
begin

text \<open>
  The energy model of the MILP pass (\<open>milp/EnergyModel.cpp\<close>) and the budget of a loop summary
  (\<open>computeSummaryBudget\<close> and the cost helpers of \<open>milp/EnergyPathUtils\<close>). Access counts, sizes and
  live-in sets come from the state analysis, block counts from the loaded frequency file. Sums over
  pointer sets do not depend on the iteration order, because energies are exact.

  Shown: frequencies are computed exactly when the entry and every reachable block have a count, and are
  then relative to the entry; penalties and costs are not negative when the parameters are not; an accepted
  budget covers every run of the loop with all globals in VM; and the NVM accesses of a sub-loop are charged
  once per iteration of the outer loop, however often the sub-loop runs.
\<close>

section \<open>Frequencies, penalties and costs\<close>

record energy_model =
  emParams :: MILPEnergyParams
  emFEntry :: "(bb_ptr, double) omap"
  emNvm :: "(bb_ptr \<times> value_ptr, double) omap"
  emSave :: "(value_ptr, double) omap"
  emRestore :: "(value_ptr, double) omap"

datatype freq_error = EntryFrequencyMissing | BlockFrequencyMissing bb_ptr

definition reachableBlocks :: "ir_function \<Rightarrow> bb_ptr set" where
  "reachableBlocks F = reachLoop (map (\<lambda>b. (b, ifSuccs F b)) (irBlocks F)) [irEntry F] {irEntry F}"

fun blockFrequencies ::
  "block_counts \<Rightarrow> bb_ptr set \<Rightarrow> u64 \<Rightarrow> bb_ptr list \<Rightarrow> (bb_ptr, double) omap \<Rightarrow> freq_error + (bb_ptr, double) omap" where
  "blockFrequencies counts reachable entryCount [] freqs = Inr freqs"
| "blockFrequencies counts reachable entryCount (b # bs) freqs =
     (case getBlockCount counts b of
        None \<Rightarrow>
          (if b \<in> reachable then Inl (BlockFrequencyMissing b)
           else blockFrequencies counts reachable entryCount bs (omap_put b 0 freqs))
      | Some c \<Rightarrow>
          blockFrequencies counts reachable entryCount bs (omap_put b (real (unat c) / real (unat entryCount)) freqs))"

definition computeFrequenciesFromFile :: "block_counts \<Rightarrow> ir_function \<Rightarrow> freq_error + (bb_ptr, double) omap" where
  "computeFrequenciesFromFile counts F =
     (case getBlockCount counts (irEntry F) of
        None \<Rightarrow> Inl EntryFrequencyMissing
      | Some c \<Rightarrow> blockFrequencies counts (reachableBlocks F) (max c 1) (irBlocks F) [])"

definition accessCount :: "state_analysis \<Rightarrow> bb_ptr \<Rightarrow> value_ptr \<Rightarrow> u32" where
  "accessCount sa b gv = saLoads sa b gv + saStores sa b gv"

definition putPenalty ::
  "MILPEnergyParams \<Rightarrow> state_analysis \<Rightarrow> bb_ptr \<Rightarrow> (bb_ptr \<times> value_ptr, double) omap \<Rightarrow> value_ptr \<Rightarrow> (bb_ptr \<times> value_ptr, double) omap" where
  "putPenalty p sa b m gv =
     (if 0 < accessCount sa b gv then omap_put (b, gv) (u2r (accessCount sa b gv) * mp_nvmAccessPenalty p) m else m)"

definition computeNvmPenalties ::
  "MILPEnergyParams \<Rightarrow> state_analysis \<Rightarrow> bb_ptr list \<Rightarrow> (bb_ptr \<times> value_ptr, double) omap" where
  "computeNvmPenalties p sa blocks = foldl (\<lambda>m b. foldl (putPenalty p sa b) m (saVMObjs sa)) [] blocks"

text \<open>The cost of saving and of restoring a variable; none for an object of unknown size.\<close>

definition isRegisterValue :: "ir_function \<Rightarrow> value_ptr \<Rightarrow> bool" where
  "isRegisterValue F v \<longleftrightarrow> instAt F v \<noteq> None \<and> \<not> isAllocaValue F v"

definition varCosts :: "MILPEnergyParams \<Rightarrow> ir_function \<Rightarrow> state_analysis \<Rightarrow> value_ptr \<Rightarrow> (double \<times> double) option" where
  "varCosts p F sa v =
     (if isRegisterValue F v then Some (mp_regStoreEnergy p, mp_regRestoreEnergy p)
      else if saVarSize sa v = 0 then None
      else Some (u2r (saVarSize sa v) * mp_memStoreEnergyPerByte p, u2r (saVarSize sa v) * mp_memRestoreEnergyPerByte p))"

definition computeSaveRestoreCosts ::
  "MILPEnergyParams \<Rightarrow> ir_function \<Rightarrow> state_analysis \<Rightarrow> (value_ptr, double) omap \<times> (value_ptr, double) omap" where
  "computeSaveRestoreCosts p F sa =
     foldl (\<lambda>(s, r) v. case varCosts p F sa v of
                          None \<Rightarrow> (s, r)
                        | Some (es, er) \<Rightarrow> (omap_put v es s, omap_put v er r))
       ([], []) (saVMObjs sa @ saIneligible sa)"

definition buildEnergyModel ::
  "MILPEnergyParams \<Rightarrow> block_counts \<Rightarrow> ir_function \<Rightarrow> state_analysis \<Rightarrow> bb_ptr list \<Rightarrow> freq_error + energy_model" where
  "buildEnergyModel p counts F sa blocks =
     bindE (computeFrequenciesFromFile counts F) (\<lambda>freqs.
       let (saves, restores) = computeSaveRestoreCosts p F sa
       in Inr \<lparr>emParams = p, emFEntry = freqs, emNvm = computeNvmPenalties p sa blocks, emSave = saves, emRestore = restores\<rparr>)"

definition emGetENvm :: "energy_model \<Rightarrow> bb_ptr \<Rightarrow> value_ptr \<Rightarrow> double" where
  "emGetENvm em b gv = omap_get 0 (emNvm em) (b, gv)"

definition emGetESave :: "energy_model \<Rightarrow> value_ptr \<Rightarrow> double" where
  "emGetESave em v = omap_get 0 (emSave em) v"

definition emGetERestore :: "energy_model \<Rightarrow> value_ptr \<Rightarrow> double" where
  "emGetERestore em v = omap_get 0 (emRestore em) v"

definition emGetFEntry :: "energy_model \<Rightarrow> bb_ptr \<Rightarrow> double" where
  "emGetFEntry em b = omap_get 1 (emFEntry em) b"

section \<open>The budget of a summary\<close>

text \<open>Arrays and structs are left out of the margin.\<close>

definition ignoredGlobal :: "ir_env \<Rightarrow> value_ptr \<Rightarrow> bool" where
  "ignoredGlobal env v \<longleftrightarrow> (case globalOf env v of Some g \<Rightarrow> gvAggregate g | None \<Rightarrow> False)"

definition getSaveCostForValue :: "ir_function \<Rightarrow> ir_env \<Rightarrow> state_analysis \<Rightarrow> MILPEnergyParams \<Rightarrow> value_ptr \<Rightarrow> double" where
  "getSaveCostForValue F env sa p v =
     (if ignoredGlobal env v then 0
      else if isRegisterValue F v then mp_regStoreEnergy p
      else if saVarSize sa v = 0 then 0
      else u2r (saVarSize sa v) * mp_memStoreEnergyPerByte p)"

definition getRestoreCostForValue :: "ir_function \<Rightarrow> ir_env \<Rightarrow> state_analysis \<Rightarrow> MILPEnergyParams \<Rightarrow> value_ptr \<Rightarrow> double" where
  "getRestoreCostForValue F env sa p v =
     (if ignoredGlobal env v then 0
      else if isRegisterValue F v then mp_regRestoreEnergy p
      else if saVarSize sa v = 0 then 0
      else u2r (saVarSize sa v) * mp_memRestoreEnergyPerByte p)"

text \<open>The restore and the commit part of the margin.\<close>

definition computeBoundaryStateMarginOnPath ::
  "ir_function \<Rightarrow> ir_env \<Rightarrow> state_analysis \<Rightarrow> MILPEnergyParams \<Rightarrow> bb_ptr set \<Rightarrow> double \<times> double" where
  "computeBoundaryStateMarginOnPath F env sa p pathBlocks =
     (let liveInVars = (\<Union>b \<in> pathBlocks. saEligLiveIn sa b \<union> saIneligLiveIn sa b);
          defVars = (\<Union>b \<in> pathBlocks. (set (saVMObjs sa) \<inter> saEligDef sa b) \<union> (set (saIneligible sa) \<inter> saIneligDef sa b))
      in (\<Sum>v \<in> liveInVars. getRestoreCostForValue F env sa p v, \<Sum>v \<in> defVars. getSaveCostForValue F env sa p v))"

record summary_budget =
  sbPathEnergy :: double
  sbPathBlocks :: "bb_ptr set"
  sbPerIterNvmPenalty :: double
  sbPreheaderEnergy :: double
  sbPreheaderNvmPenalty :: double
  sbRestoreMargin :: double
  sbCommitMargin :: double
  sbBudgetAfterBoundary :: double

definition energyBudget :: "MILPEnergyParams \<Rightarrow> double" where
  "energyBudget p = mp_capacity p - mp_E_pro p - mp_E_epi p"

definition nvmPenaltyIn :: "state_analysis \<Rightarrow> MILPEnergyParams \<Rightarrow> bb_ptr \<Rightarrow> double" where
  "nvmPenaltyIn sa p b = (\<Sum>gv \<leftarrow> saVMObjs sa. u2r (accessCount sa b gv) * mp_nvmAccessPenalty p)"

text \<open>\<open>None\<close> would be a path search that does not end.\<close>

definition computeSummaryBudget ::
  "(bb_ptr, double) omap \<Rightarrow> (bb_ptr \<Rightarrow> bb_ptr list) \<Rightarrow> ir_function \<Rightarrow> ir_env \<Rightarrow> state_analysis \<Rightarrow> MILPEnergyParams \<Rightarrow> llvm_loop
     \<Rightarrow> (string + summary_budget) option" where
  "computeSummaryBudget be succ F env sa p L =
     (if energyBudget p \<le> 0 then Some (Inl ''nonpositive-energy-budget'')
      else case computeWorstCaseSummaryPath be succ L of
             None \<Rightarrow> None
           | Some (Inl err) \<Rightarrow> Some (Inl err)
           | Some (Inr (e, path)) \<Rightarrow>
               if e \<le> 0 then Some (Inl ''nonpositive-loop-energy'')
               else
                 (let pre = lpPreheader L;
                      marginBlocks = (if pre = nullptr then path else insert pre path);
                      (restore, commit) = computeBoundaryStateMarginOnPath F env sa p marginBlocks
                  in Some (Inr \<lparr>sbPathEnergy = e, sbPathBlocks = path,
                       sbPerIterNvmPenalty = (\<Sum>b \<in> path. nvmPenaltyIn sa p b),
                       sbPreheaderEnergy = (if pre = nullptr then 0 else omap_get 0 be pre),
                       sbPreheaderNvmPenalty = (if pre = nullptr then 0 else nvmPenaltyIn sa p pre),
                       sbRestoreMargin = restore, sbCommitMargin = commit,
                       sbBudgetAfterBoundary = energyBudget p - (restore + commit)\<rparr>)))"

definition perIterEnergy :: "summary_budget \<Rightarrow> double" where
  "perIterEnergy b = sbPathEnergy b + sbPerIterNvmPenalty b"

definition fixedEnergy :: "summary_budget \<Rightarrow> double" where
  "fixedEnergy b = sbPreheaderEnergy b + sbPreheaderNvmPenalty b"

section \<open>What the model computes\<close>

definition blockEdges :: "ir_function \<Rightarrow> (bb_ptr \<times> bb_ptr) set" where
  "blockEdges F = {(b, s). b \<in> set (irBlocks F) \<and> s \<in> set (ifSuccs F b)}"

lemma reachableBlocks_closure: "reachableBlocks F = {b. (irEntry F, b) \<in> (blockEdges F)\<^sup>*}"
proof -
  have "reachLoop (map (\<lambda>b. (b, ifSuccs F b)) (irBlocks F)) [irEntry F] {irEntry F} = (blockEdges F)\<^sup>* `` {irEntry F}"
    by (rule reachLoop_closure) (auto simp: blockEdges_def map_of_map_restrict restrict_map_def split: if_split_asm)
  then show ?thesis by (auto simp: reachableBlocks_def)
qed

lemma blockFrequencies_result:
  assumes "distinct bs"
  shows "case blockFrequencies counts R n bs freqs of
      Inl err \<Rightarrow> (\<exists>b \<in> set bs. err = BlockFrequencyMissing b \<and> b \<in> R \<and> getBlockCount counts b = None)
    | Inr fs \<Rightarrow> (\<forall>b. map_of fs b =
        (if b \<in> set bs then Some (case getBlockCount counts b of None \<Rightarrow> 0 | Some c \<Rightarrow> real (unat c) / real (unat n)) else map_of freqs b))
        \<and> (\<forall>b \<in> set bs. getBlockCount counts b = None \<longrightarrow> b \<notin> R)"
  using assms
proof (induction bs arbitrary: freqs)
  case (Cons b bs)
  show ?case
  proof (cases "getBlockCount counts b")
    case None
    show ?thesis
    proof (cases "b \<in> R")
      case False
      then show ?thesis using Cons.IH [of "omap_put b 0 freqs"] Cons.prems None by (auto split: sum.splits)
    qed (simp add: None)
  next
    case (Some c)
    then show ?thesis using Cons.IH [of "omap_put b (real (unat c) / real (unat n)) freqs"] Cons.prems
      by (auto split: sum.splits)
  qed
qed simp

lemma map_of_putPenalties:
  "map_of (foldl (putPenalty p sa b) m gvs) k =
     (if \<exists>gv \<in> set gvs. k = (b, gv) \<and> 0 < accessCount sa b gv then Some (u2r (accessCount sa b (snd k)) * mp_nvmAccessPenalty p) else map_of m k)"
proof (induction gvs arbitrary: m)
  case (Cons gv gvs)
  show ?case unfolding foldl.simps Cons.IH by (auto simp: putPenalty_def)
qed simp

lemma map_of_penalties:
  "map_of (foldl (\<lambda>m b. foldl (putPenalty p sa b) m gvs) m bs) (b, gv) =
     (if b \<in> set bs \<and> gv \<in> set gvs \<and> 0 < accessCount sa b gv then Some (u2r (accessCount sa b gv) * mp_nvmAccessPenalty p)
      else map_of m (b, gv))"
proof (induction bs arbitrary: m)
  case (Cons c bs)
  show ?case unfolding foldl.simps Cons.IH map_of_putPenalties by auto
qed simp

lemma computeNvmPenalties_get:
  "omap_get 0 (computeNvmPenalties p sa blocks) (b, gv) =
     (if b \<in> set blocks \<and> gv \<in> set (saVMObjs sa) then u2r (accessCount sa b gv) * mp_nvmAccessPenalty p else 0)"
proof (cases "accessCount sa b gv = 0")
  case False
  then have "0 < accessCount sa b gv" by (simp add: word_gt_0)
  then show ?thesis by (simp add: computeNvmPenalties_def omap_get_def map_of_penalties)
qed (simp add: computeNvmPenalties_def omap_get_def map_of_penalties)

lemma map_of_costs:
  "map_of (fst (foldl (\<lambda>(s, r) v. case varCosts p F sa v of None \<Rightarrow> (s, r) | Some (es, er) \<Rightarrow> (omap_put v es s, omap_put v er r)) sr vs)) v
     = (if v \<in> set vs \<and> varCosts p F sa v \<noteq> None then map_option fst (varCosts p F sa v) else map_of (fst sr) v)"
  "map_of (snd (foldl (\<lambda>(s, r) v. case varCosts p F sa v of None \<Rightarrow> (s, r) | Some (es, er) \<Rightarrow> (omap_put v es s, omap_put v er r)) sr vs)) v
     = (if v \<in> set vs \<and> varCosts p F sa v \<noteq> None then map_option snd (varCosts p F sa v) else map_of (snd sr) v)"
  by (induction vs arbitrary: sr) (auto split: option.splits)

lemma computeSaveRestoreCosts_get:
  fixes p F sa v
  defines "tracked \<equiv> v \<in> set (saVMObjs sa) \<union> set (saIneligible sa)"
  shows "omap_get 0 (fst (computeSaveRestoreCosts p F sa)) v = (if tracked then (case varCosts p F sa v of None \<Rightarrow> 0 | Some c \<Rightarrow> fst c) else 0)"
    and "omap_get 0 (snd (computeSaveRestoreCosts p F sa)) v = (if tracked then (case varCosts p F sa v of None \<Rightarrow> 0 | Some c \<Rightarrow> snd c) else 0)"
  unfolding tracked_def by (auto simp: computeSaveRestoreCosts_def omap_get_def map_of_costs split: option.splits)

lemma buildEnergyModel_Inr:
  assumes "buildEnergyModel p counts F sa blocks = Inr em"
  shows "emParams em = p" "computeFrequenciesFromFile counts F = Inr (emFEntry em)"
    "emNvm em = computeNvmPenalties p sa blocks" "emSave em = fst (computeSaveRestoreCosts p F sa)"
    "emRestore em = snd (computeSaveRestoreCosts p F sa)"
  using assms by (cases "computeSaveRestoreCosts p F sa"; auto simp: buildEnergyModel_def bindE_eq_Inr)+

text \<open>Parameters without negative energies.\<close>

definition params_ok :: "MILPEnergyParams \<Rightarrow> bool" where
  "params_ok p \<longleftrightarrow> 0 \<le> mp_regStoreEnergy p \<and> 0 \<le> mp_regRestoreEnergy p \<and> 0 \<le> mp_nvmAccessPenalty p
     \<and> 0 \<le> mp_memStoreEnergyPerByte p \<and> 0 \<le> mp_memRestoreEnergyPerByte p"

lemma energy_model_nonneg:
  assumes "buildEnergyModel p counts F sa blocks = Inr em" and "params_ok p"
  shows "0 \<le> emGetENvm em b gv" "0 \<le> emGetESave em v" "0 \<le> emGetERestore em v"
proof -
  note em = buildEnergyModel_Inr [OF assms(1)]
  show "0 \<le> emGetENvm em b gv"
    using assms(2) unfolding emGetENvm_def em computeNvmPenalties_get params_ok_def by (simp del: of_nat_unat)
  show "0 \<le> emGetESave em v" "0 \<le> emGetERestore em v"
    using assms(2) unfolding emGetESave_def emGetERestore_def em computeSaveRestoreCosts_get params_ok_def varCosts_def
    by (auto simp del: of_nat_unat split: option.split)
qed

text \<open>A budget covers every run of the loop, with all globals in VM.\<close>

lemma computeSummaryBudget_Inr:
  assumes "computeSummaryBudget be succ F env sa p L = Some (Inr b)"
  shows "computeWorstCaseSummaryPath be succ L = Some (Inr (sbPathEnergy b, sbPathBlocks b))" "0 < sbPathEnergy b"
    "sbPreheaderEnergy b = (if lpPreheader L = nullptr then 0 else omap_get 0 be (lpPreheader L))"
    "sbPreheaderNvmPenalty b = (if lpPreheader L = nullptr then 0 else nvmPenaltyIn sa p (lpPreheader L))"
    "sbPerIterNvmPenalty b = (\<Sum>c \<in> sbPathBlocks b. nvmPenaltyIn sa p c)"
    "sbBudgetAfterBoundary b = energyBudget p - (sbRestoreMargin b + sbCommitMargin b)"
  using assms by (auto simp: computeSummaryBudget_def Let_def split: if_split_asm option.splits sum.splits prod.splits)

lemma summary_run_bound:
  assumes "computeSummaryBudget be succ F env sa p L = Some (Inr b)" and "\<forall>x. 0 \<le> omap_get 0 be x"
    and "\<forall>c \<in> set cs. iterationCost be succ summarySubLoopTripCount L c" and "length cs \<le> n"
  shows "sum_list cs \<le> sbPathEnergy b * real n"
proof -
  note path = computeSummaryBudget_Inr(1,2) [OF assms(1), unfolded computeWorstCaseSummaryPath_def]
  have "\<forall>c \<in> set cs. c \<le> sbPathEnergy b" using worst_case_bound(1) [OF assms(2) path(1)] assms(3) by blast
  then have "sum_list cs \<le> real (length cs) * sbPathEnergy b" by (rule sum_list_le)
  also have "\<dots> \<le> sbPathEnergy b * real n" using assms(4) path(2) by (metis less_imp_le mult.commute mult_left_mono of_nat_mono)
  finally show ?thesis .
qed

section \<open>Properties\<close>

text \<open>The frequencies fail with the entry when it has no count, fail with a block that has no count only
  when the block is reachable from the entry, and otherwise give every block its count relative to the entry,
  and zero to a block without a count, which is then unreachable.\<close>
theorem computeFrequencies_correct:
  assumes "distinct (irBlocks F)"
  shows "case computeFrequenciesFromFile counts F of
      Inl EntryFrequencyMissing \<Rightarrow> getBlockCount counts (irEntry F) = None
    | Inl (BlockFrequencyMissing b) \<Rightarrow>
        b \<in> set (irBlocks F) \<and> (irEntry F, b) \<in> (blockEdges F)\<^sup>* \<and> getBlockCount counts b = None
    | Inr freqs \<Rightarrow> (\<exists>n. getBlockCount counts (irEntry F) = Some n \<and>
        (\<forall>b \<in> set (irBlocks F). case getBlockCount counts b of
           None \<Rightarrow> map_of freqs b = Some 0 \<and> (irEntry F, b) \<notin> (blockEdges F)\<^sup>*
         | Some c \<Rightarrow> map_of freqs b = Some (real (unat c) / real (unat (max n 1)))))"
proof (cases "getBlockCount counts (irEntry F)")
  case None
  then show ?thesis by (simp add: computeFrequenciesFromFile_def)
next
  case (Some n)
  then have "computeFrequenciesFromFile counts F = blockFrequencies counts (reachableBlocks F) (max n 1) (irBlocks F) []"
    by (simp add: computeFrequenciesFromFile_def)
  with blockFrequencies_result [OF assms, where counts = counts and R = "reachableBlocks F" and n = "max n 1" and freqs = "[]"] Some show ?thesis
    unfolding reachableBlocks_closure by (auto split: sum.splits freq_error.splits option.splits)
qed

definition sample_fn :: ir_function where
  "sample_fn = \<lparr>ifName = ''main'', ifBlocks = [(1, []), (2, []), (3, [])], ifSuccs = (\<lambda>b. if b = 1 then [2] else [])\<rparr>"

theorem computeFrequencies_correct_witness:
  "computeFrequenciesFromFile [(1, 2), (2, 6)] sample_fn = Inr [(1, 1), (2, 3), (3, 0)]
   \<and> getBlockCount [(1, 2 :: u64), (2, 6)] 3 = None \<and> (1, 3) \<notin> (blockEdges sample_fn)\<^sup>*"
proof -
  have r: "computeFrequenciesFromFile [(1, 2), (2, 6)] sample_fn = Inr [(1, 1), (2, 3), (3, 0)]" by code_simp
  have "distinct (irBlocks sample_fn)" by (simp add: sample_fn_def irBlocks_def)
  from computeFrequencies_correct [OF this, of "[(1, 2), (2, 6)]"] r
  have "(irEntry sample_fn, 3) \<notin> (blockEdges sample_fn)\<^sup>*"
    by (auto simp: sample_fn_def irBlocks_def getBlockCount_def)
  then show ?thesis using r by (simp add: sample_fn_def irEntry_def irBlocks_def getBlockCount_def)
qed

text \<open>The sample loop with one access to a global in the block of the sub-loop.\<close>

definition sample_accesses :: state_analysis where
  "sample_accesses = \<lparr>saVMObjs = [100], saNVMKept = [], saErrors = [], saIneligible = [], saSizes = [(100, 2)],
     saLoads = (\<lambda>b gv. if b = 3 \<and> gv = 100 then 1 else 0), saStores = (\<lambda>b gv. 0), saEligDef = (\<lambda>b. {}), saIneligDef = (\<lambda>b. {}),
     saEligLiveIn = (\<lambda>b. {}), saIneligLiveIn = (\<lambda>b. {})\<rparr>"

definition sample_ir_env :: ir_env where
  "sample_ir_env = \<lparr>globalOf = (\<lambda>v. None), getUnderlyingObjects = (\<lambda>v. [v]), getUnderlyingObject = (\<lambda>v. v),
     stripPointerCasts = (\<lambda>v. v), isRefSet = (\<lambda>i v. False), isModSet = (\<lambda>i v. False)\<rparr>"

text \<open>The energies of the blocks when the globals are in NVM.\<close>

definition energiesInNvm :: "(bb_ptr, double) omap \<Rightarrow> state_analysis \<Rightarrow> MILPEnergyParams \<Rightarrow> (bb_ptr, double) omap" where
  "energiesInNvm be sa p = map (\<lambda>(b, e). (b, e + nvmPenaltyIn sa p b)) be"

lemma sample_budget:
  "computeSummaryBudget sample_energies sample_succs sample_fn sample_ir_env sample_accesses sample_mp sample_outer =
     Some (Inr \<lparr>sbPathEnergy = 23, sbPathBlocks = {1, 3, 4}, sbPerIterNvmPenalty = 3, sbPreheaderEnergy = 3, sbPreheaderNvmPenalty = 0,
       sbRestoreMargin = 0, sbCommitMargin = 0, sbBudgetAfterBoundary = 97\<rparr>)"
  by code_simp

lemma sample_in_nvm: "energiesInNvm sample_energies sample_accesses sample_mp = [(1, 1), (2, 10), (3, 7), (4, 2), (9, 3)]"
  by code_simp

lemma sample_inner_iteration:
  "iterationCost [(1, 1), (2, 10), (3, 7), (4, 2), (9, 3)] sample_succs summarySubLoopTripCount sample_inner 7"
proof -
  have "list_all2 (visitCost [(1, 1), (2, 10), (3, 7), (4, 2), (9, 3)] summarySubLoopTripCount []) [3] [7]"
    by (simp add: visitCost_def getDirectChildLoop_def omap_get_def)
  moreover have "body_path (loopBody sample_succs sample_inner) [3]" by code_simp
  ultimately have "iterationOf [(1, 1), (2, 10), (3, 7), (4, 2), (9, 3)] sample_succs summarySubLoopTripCount sample_inner [] 7"
    unfolding iterationOf_def by (intro exI [of _ "[]"] exI [of _ 1] exI [of _ "[7]"]) (simp add: sample_inner_def)
  then show ?thesis by (simp add: sample_inner_def)
qed

lemma sample_outer_iteration:
  "iterationCost [(1, 1), (2, 10), (3, 7), (4, 2), (9, 3)] sample_succs summarySubLoopTripCount sample_outer 38" (is "iterationCost ?be _ _ _ _")
proof -
  let ?kids = "[(sample_inner, iterationCost ?be sample_succs summarySubLoopTripCount sample_inner)]"
  have "visitCost ?be summarySubLoopTripCount ?kids 3 35"
    unfolding visitCost_def using sample_inner_iteration
    by (auto simp: getDirectChildLoop_def sample_inner_def summarySubLoopTripCount_def intro!: exI [of _ "[7, 7, 7, 7, 7]"])
  then have "list_all2 (visitCost ?be summarySubLoopTripCount ?kids) [1, 3, 4] [1, 35, 2]"
    by (simp add: visitCost_def getDirectChildLoop_def sample_inner_def omap_get_def)
  moreover have "body_path (loopBody sample_succs sample_outer) [1, 3, 4]" by code_simp
  ultimately have "iterationOf ?be sample_succs summarySubLoopTripCount sample_outer ?kids 38"
    unfolding iterationOf_def by (intro exI [of _ "[3, 4]"] exI [of _ 3] exI [of _ "[1, 35, 2]"]) (simp add: sample_outer_def)
  then show ?thesis by (simp add: sample_outer_def)
qed


end
