(* ===== verification/AbstractCFG.thy ===== *)
theory AbstractCFG
  imports MILPEnergyModel TextScan
begin

text \<open>
  The abstract control-flow graph the MILP is solved on (\<open>milp/AbstractCFG.cpp\<close>, \<open>common/NodeMap.h\<close>): loops
  that fit the energy budget with all their iterations are collapsed, outermost first, into one summary node
  with their preheader. Node names are the code's strings; node numbers are positions in the list of abstract
  blocks. The maps that are only looked up are keyed as in the code. The views the optimizer asks are the
  record \<open>milp_view\<close>, with the getters' defaults. Log text is left out.
\<close>

section \<open>Node map\<close>

record node_map =
  concreteNodes :: "(node_id, bb_ptr) omap"
  reverseConcrete :: "(bb_ptr, node_id) omap"
  summaryRepresentative :: "(node_id, bb_ptr) omap"
  reverseSummaryMembers :: "(bb_ptr, node_id) omap"

definition emptyNodeMap :: node_map where
  "emptyNodeMap = \<lparr>concreteNodes = [], reverseConcrete = [], summaryRepresentative = [], reverseSummaryMembers = []\<rparr>"

definition setConcreteNode :: "node_id \<Rightarrow> bb_ptr \<Rightarrow> node_map \<Rightarrow> node_map" where
  "setConcreteNode n b m =
     (if b = nullptr then m
      else m\<lparr>concreteNodes := omap_put n b (concreteNodes m), reverseConcrete := omap_put b n (reverseConcrete m)\<rparr>)"

definition setSummaryRepresentative :: "node_id \<Rightarrow> bb_ptr \<Rightarrow> node_map \<Rightarrow> node_map" where
  "setSummaryRepresentative n b m =
     (if b = nullptr then m else m\<lparr>summaryRepresentative := omap_put n b (summaryRepresentative m)\<rparr>)"

definition setSummaryMember :: "node_id \<Rightarrow> bb_ptr \<Rightarrow> node_map \<Rightarrow> node_map" where
  "setSummaryMember n b m =
     (if b = nullptr then m else m\<lparr>reverseSummaryMembers := omap_put b n (reverseSummaryMembers m)\<rparr>)"

definition getNodeId :: "node_map \<Rightarrow> bb_ptr \<Rightarrow> node_id" where
  "getNodeId m b =
     (case map_of (reverseConcrete m) b of
        Some n \<Rightarrow> n
      | None \<Rightarrow> (case map_of (reverseSummaryMembers m) b of Some n \<Rightarrow> n | None \<Rightarrow> kInvalidNodeId))"

definition getConcreteBlock :: "node_map \<Rightarrow> node_id \<Rightarrow> bb_ptr" where
  "getConcreteBlock m n =
     (case map_of (concreteNodes m) n of
        Some b \<Rightarrow> b
      | None \<Rightarrow> (case map_of (summaryRepresentative m) n of Some b \<Rightarrow> b | None \<Rightarrow> nullptr))"

section \<open>Choosing the loops to summarize\<close>

record abs_input =
  aiFunction :: ir_function
  aiEnv :: ir_env
  aiCfg :: CFGAnalysis
  aiState :: state_analysis
  aiEnergy :: energy_model
  aiLoops :: "llvm_loop list"
  aiOrderKey :: "value_ptr \<Rightarrow> string"

record loop_aggregate =
  agEntry :: bb_ptr
  agBlocks :: "bb_ptr list"
  agPathEnergy :: double
  agNvm :: "(value_ptr, double) omap"
  agEligLiveIn :: "value_ptr set"
  agEligDefs :: "value_ptr set"
  agIneligLiveIn :: "value_ptr set"
  agIneligDefs :: "value_ptr set"
  agFEntry :: double

record abs_stats =
  asLoopsSeen :: u32
  asLoopsEligible :: u32
  asLoopsSummarized :: u32
  asStripMinedSeen :: u32
  asStripMinedSummarized :: u32
  asStripMinedSkipped :: u32
  asSkippedReasons :: "(string, u32) omap"
  asAbstractNodes :: u32
  asAbstractEdges :: u32

record summary_state =
  ssStats :: abs_stats
  ssUsedNames :: "string set"
  ssSummarized :: "bb_ptr set"
  ssSummaries :: "(string, loop_aggregate) omap"

fun outermostFirst :: "llvm_loop \<Rightarrow> llvm_loop list" where
  "outermostFirst (LLVMLoop h la ph bs ex se mk sm iv subs) =
     LLVMLoop h la ph bs ex se mk sm iv subs # concat (map outermostFirst subs)"

definition collectOutermostFirst :: "llvm_loop list \<Rightarrow> llvm_loop list" where
  "collectOutermostFirst loops = concat (map outermostFirst loops)"

definition overlapsSelected :: "llvm_loop \<Rightarrow> bb_ptr set \<Rightarrow> bool" where
  "overlapsSelected L selected \<longleftrightarrow> list_ex (\<lambda>b. b \<in> selected) (lpBlocks L)"

function numberedName :: "string \<Rightarrow> string set \<Rightarrow> nat \<Rightarrow> string" where
  "numberedName base used i =
     (if 2 ^ 32 - 1 \<le> i then base @ ''_overflow''
      else let candidate = base @ ''_'' @ to_string i
           in if candidate \<notin> used then candidate else numberedName base used (i + 1))"
  by pat_completeness auto
termination by (relation "measure (\<lambda>(base, used, i). 2 ^ 32 - i)") auto

declare numberedName.simps [simp del]

definition makeUniqueSummaryNodeName :: "string \<Rightarrow> string set \<Rightarrow> string" where
  "makeUniqueSummaryNodeName headerName used =
     (let base = ''__loop_summary__'' @ headerName in if base \<notin> used then base else numberedName base used 1)"

definition bump :: "string \<Rightarrow> (string, u32) omap \<Rightarrow> (string, u32) omap" where
  "bump reason m = omap_put reason (omap_get 0 m reason + 1) m"

definition skipLoop :: "string \<Rightarrow> llvm_loop \<Rightarrow> summary_state \<Rightarrow> summary_state" where
  "skipLoop reason L st =
     st\<lparr>ssStats := (ssStats st)\<lparr>asSkippedReasons := bump reason (asSkippedReasons (ssStats st)),
          asStripMinedSkipped := asStripMinedSkipped (ssStats st) + (if lpStripMined L then 1 else 0)\<rparr>\<rparr>"

definition countLoop :: "llvm_loop \<Rightarrow> summary_state \<Rightarrow> summary_state" where
  "countLoop L st =
     st\<lparr>ssStats := (ssStats st)\<lparr>asLoopsSeen := asLoopsSeen (ssStats st) + 1,
          asStripMinedSeen := asStripMinedSeen (ssStats st) + (if lpStripMined L then 1 else 0)\<rparr>\<rparr>"

definition countEligible :: "summary_state \<Rightarrow> summary_state" where
  "countEligible st = st\<lparr>ssStats := (ssStats st)\<lparr>asLoopsEligible := asLoopsEligible (ssStats st) + 1\<rparr>\<rparr>"

definition nameOf :: "abs_input \<Rightarrow> bb_ptr \<Rightarrow> string" where
  "nameOf inp b = bi_name (getBlockInfo (aiCfg inp) b)"

definition blockEnergyByBB :: "CFGAnalysis \<Rightarrow> (bb_ptr, double) omap" where
  "blockEnergyByBB cfg = foldl (\<lambda>m b. omap_put b (energyCost (getBlockInfo cfg b)) m) [] (cfg_blocks cfg)"

text \<open>The trip count of the loop itself follows the policy for sub-loops.\<close>

definition loopTripCount :: "llvm_loop \<Rightarrow> u64 option" where
  "loopTripCount L =
     (if 0 < lpScevTC L \<and> lpMarkerTC L \<noteq> None then Some (min (ucast (lpScevTC L)) (the (lpMarkerTC L)))
      else if 0 < lpScevTC L then Some (ucast (lpScevTC L))
      else lpMarkerTC L)"

definition totalBaseEnergy :: "summary_budget \<Rightarrow> u64 \<Rightarrow> double" where
  "totalBaseEnergy b tc = sbPathEnergy b * real (unat tc) + sbPreheaderEnergy b"

definition totalNvmPenalty :: "summary_budget \<Rightarrow> u64 \<Rightarrow> double" where
  "totalNvmPenalty b tc = sbPerIterNvmPenalty b * real (unat tc) + sbPreheaderNvmPenalty b"

definition summaryFits :: "summary_budget \<Rightarrow> u64 \<Rightarrow> bool" where
  "summaryFits b tc \<longleftrightarrow>
     0 < sbBudgetAfterBoundary b \<and> totalBaseEnergy b tc + totalNvmPenalty b tc < sbBudgetAfterBoundary b"

definition summaryBlocks :: "llvm_loop \<Rightarrow> bb_ptr list" where
  "summaryBlocks L = lpBlocks L @ (if lpPreheader L = nullptr then [] else [lpPreheader L])"

definition aggregateNvm :: "abs_input \<Rightarrow> llvm_loop \<Rightarrow> summary_budget \<Rightarrow> u64 \<Rightarrow> value_ptr \<Rightarrow> double" where
  "aggregateNvm inp L b tc gv =
     (\<Sum>x \<in> sbPathBlocks b. emGetENvm (aiEnergy inp) x gv) * real (unat tc)
       + (if lpPreheader L = nullptr then 0 else emGetENvm (aiEnergy inp) (lpPreheader L) gv)"

text \<open>An SSA value defined in the loop does not enter it.\<close>

definition entersSummary :: "abs_input \<Rightarrow> bb_ptr list \<Rightarrow> value_ptr \<Rightarrow> bool" where
  "entersSummary inp bs v \<longleftrightarrow>
     (let hasDef = list_ex (\<lambda>x. v \<in> saIneligDef (aiState inp) x) bs;
          isSSA = \<not> isAllocaValue (aiFunction inp) v \<and> globalOf (aiEnv inp) v = None
      in list_ex (\<lambda>x. v \<in> saIneligLiveIn (aiState inp) x) bs \<and> (\<not> isSSA \<or> \<not> hasDef))"

definition aggregateLoop :: "abs_input \<Rightarrow> llvm_loop \<Rightarrow> summary_budget \<Rightarrow> u64 \<Rightarrow> loop_aggregate" where
  "aggregateLoop inp L b tc =
     (let sa = aiState inp; bs = summaryBlocks L; entry = (if lpPreheader L = nullptr then lpHeader L else lpPreheader L)
      in \<lparr>agEntry = entry, agBlocks = bs, agPathEnergy = totalBaseEnergy b tc,
          agNvm = foldl (\<lambda>m gv. if aggregateNvm inp L b tc gv \<noteq> 0 then omap_put gv (aggregateNvm inp L b tc gv) m else m) [] (saVMObjs sa),
          agEligLiveIn = set (filter (\<lambda>gv. list_ex (\<lambda>x. gv \<in> saEligLiveIn sa x) bs) (saVMObjs sa)),
          agEligDefs = set (filter (\<lambda>gv. list_ex (\<lambda>x. gv \<in> saEligDef sa x) bs) (saVMObjs sa)),
          agIneligLiveIn = set (filter (entersSummary inp bs) (saIneligible sa)),
          agIneligDefs = set (filter (\<lambda>v. list_ex (\<lambda>x. v \<in> saIneligDef sa x) bs) (saIneligible sa)),
          agFEntry = emGetFEntry (aiEnergy inp) entry\<rparr>)"

definition addSummary :: "abs_input \<Rightarrow> llvm_loop \<Rightarrow> summary_budget \<Rightarrow> u64 \<Rightarrow> summary_state \<Rightarrow> summary_state" where
  "addSummary inp L b tc st =
     (let nodeName = makeUniqueSummaryNodeName (nameOf inp (lpHeader L)) (ssUsedNames st)
      in st\<lparr>ssUsedNames := insert nodeName (ssUsedNames st),
            ssSummarized := ssSummarized st \<union> set (summaryBlocks L),
            ssSummaries := omap_put nodeName (aggregateLoop inp L b tc) (ssSummaries st),
            ssStats := (ssStats st)\<lparr>asLoopsSummarized := asLoopsSummarized (ssStats st) + 1,
              asStripMinedSummarized := asStripMinedSummarized (ssStats st) + (if lpStripMined L then 1 else 0)\<rparr>\<rparr>)"

definition summarizeLoop :: "abs_input \<Rightarrow> summary_state \<Rightarrow> llvm_loop \<Rightarrow> summary_state option" where
  "summarizeLoop inp st0 L =
     (let st = countLoop L st0; p = emParams (aiEnergy inp)
      in if energyBudget p \<le> 0 then Some (skipLoop ''nonpositive-energy-budget'' L st)
         else if lpHeader L = nullptr \<or> lpLatch L = nullptr then Some (skipLoop ''missing-header-or-latch'' L st)
         else if lpHasInvoke L then Some (skipLoop ''contains-invoke'' L st)
         else if overlapsSelected L (ssSummarized st) then Some (skipLoop ''overlaps-summarized-loop'' L st)
         else case computeSummaryBudget (blockEnergyByBB (aiCfg inp)) (ifSuccs (aiFunction inp)) (aiFunction inp) (aiEnv inp) (aiState inp) p L of
                None \<Rightarrow> None
              | Some (Inl err) \<Rightarrow> Some (skipLoop err L st)
              | Some (Inr b) \<Rightarrow>
                  (let st = countEligible st
                   in case loopTripCount L of
                        None \<Rightarrow> Some (skipLoop ''unknown-loop-trip-count'' L st)
                      | Some tc \<Rightarrow>
                          if \<not> summaryFits b tc then Some (skipLoop ''loop-total-exceeds-budget'' L st)
                          else Some (addSummary inp L b tc st)))"

definition initialSummaries :: "abs_input \<Rightarrow> summary_state" where
  "initialSummaries inp =
     \<lparr>ssStats = \<lparr>asLoopsSeen = 0, asLoopsEligible = 0, asLoopsSummarized = 0, asStripMinedSeen = 0, asStripMinedSummarized = 0,
        asStripMinedSkipped = 0, asSkippedReasons = [], asAbstractNodes = 0, asAbstractEdges = 0\<rparr>,
      ssUsedNames = nameOf inp ` set (cfg_blocks (aiCfg inp)), ssSummarized = {}, ssSummaries = []\<rparr>"

definition summarizeLoops :: "abs_input \<Rightarrow> summary_state option" where
  "summarizeLoops inp = foldM (summarizeLoop inp) (initialSummaries inp) (collectOutermostFirst (aiLoops inp))"

section \<open>The abstract graph\<close>

definition firstOccurrences :: "'a list \<Rightarrow> 'a list" where
  "firstOccurrences xs = foldl (\<lambda>acc x. if x \<in> set acc then acc else acc @ [x]) [] xs"

definition concreteToAbstract :: "abs_input \<Rightarrow> summary_state \<Rightarrow> bb_ptr \<Rightarrow> string" where
  "concreteToAbstract inp st b =
     foldl (\<lambda>node (nodeName, agg). if b \<in> set (agBlocks agg) then nodeName else node) (nameOf inp b) (ssSummaries st)"

definition abstractBlocks :: "abs_input \<Rightarrow> summary_state \<Rightarrow> string list" where
  "abstractBlocks inp st = firstOccurrences (map (concreteToAbstract inp st) (cfg_blocks (aiCfg inp)))"

definition abstractEdge :: "abs_input \<Rightarrow> summary_state \<Rightarrow> bb_ptr \<times> bb_ptr \<Rightarrow> (string \<times> string) list" where
  "abstractEdge inp st e =
     (let (s, d) = e; aSrc = concreteToAbstract inp st s; aDst = concreteToAbstract inp st d;
          selfEdge = (s = d \<and> aSrc = nameOf inp s \<and> aDst = nameOf inp d)
      in if aSrc = aDst \<and> \<not> selfEdge then [] else [(aSrc, aDst)])"

definition abstractEdges :: "abs_input \<Rightarrow> summary_state \<Rightarrow> (string \<times> string) list" where
  "abstractEdges inp st = firstOccurrences (concat (map (abstractEdge inp st) (cfg_edges (aiCfg inp))))"

definition abstractExits :: "abs_input \<Rightarrow> summary_state \<Rightarrow> string list" where
  "abstractExits inp st = firstOccurrences (map (concreteToAbstract inp st) (cfg_exitBlocks (aiCfg inp)))"

definition nameToBBConcrete :: "abs_input \<Rightarrow> summary_state \<Rightarrow> (string, bb_ptr) omap" where
  "nameToBBConcrete inp st =
     foldl (\<lambda>m b. if b \<in> ssSummarized st then m else omap_put (nameOf inp b) b m) [] (cfg_blocks (aiCfg inp))"

record node_data =
  ndEnergy :: double
  ndFEntry :: double
  ndFBoundary :: double
  ndEligLiveIn :: "value_ptr set"
  ndIneligLiveIn :: "value_ptr set"
  ndEligDefs :: "value_ptr set"
  ndIneligDefs :: "value_ptr set"
  ndNvm :: "(value_ptr, double) omap"

definition summaryData :: "loop_aggregate \<Rightarrow> node_data" where
  "summaryData agg =
     \<lparr>ndEnergy = agPathEnergy agg, ndFEntry = agFEntry agg, ndFBoundary = agFEntry agg, ndEligLiveIn = agEligLiveIn agg,
      ndIneligLiveIn = agIneligLiveIn agg, ndEligDefs = agEligDefs agg, ndIneligDefs = agIneligDefs agg, ndNvm = agNvm agg\<rparr>"

definition concreteData :: "abs_input \<Rightarrow> bb_ptr \<Rightarrow> node_data" where
  "concreteData inp b =
     (let sa = aiState inp; em = aiEnergy inp
      in \<lparr>ndEnergy = energyCost (getBlockInfo (aiCfg inp) b), ndFEntry = emGetFEntry em b, ndFBoundary = emGetFEntry em b,
          ndEligLiveIn = saEligLiveIn sa b, ndIneligLiveIn = saIneligLiveIn sa b,
          ndEligDefs = set (filter (\<lambda>gv. gv \<in> saEligDef sa b) (saVMObjs sa)),
          ndIneligDefs = set (filter (\<lambda>v. v \<in> saIneligDef sa b) (saIneligible sa)),
          ndNvm = foldl (\<lambda>m gv. if emGetENvm em b gv \<noteq> 0 then omap_put gv (emGetENvm em b gv) m else m) [] (saVMObjs sa)\<rparr>)"

definition nodeData :: "abs_input \<Rightarrow> summary_state \<Rightarrow> string \<Rightarrow> node_data option" where
  "nodeData inp st node =
     (case map_of (ssSummaries st) node of
        Some agg \<Rightarrow> Some (summaryData agg)
      | None \<Rightarrow> map_option (concreteData inp) (map_of (nameToBBConcrete inp st) node))"

text \<open>Node numbers.\<close>

definition nodeIdByName :: "string list \<Rightarrow> string \<Rightarrow> node_id option" where
  "nodeIdByName nodes name = map_of (zip nodes [0..<length nodes]) name"

definition buildNodeMap :: "abs_input \<Rightarrow> summary_state \<Rightarrow> string list \<Rightarrow> node_map" where
  "buildNodeMap inp st nodes =
     foldl (\<lambda>m (nodeId, nodeName).
        case map_of (ssSummaries st) nodeName of
          Some agg \<Rightarrow> foldl (\<lambda>m b. setSummaryMember nodeId b m) (setSummaryRepresentative nodeId (agEntry agg) m) (agBlocks agg)
        | None \<Rightarrow> (case map_of (nameToBBConcrete inp st) nodeName of
                     Some b \<Rightarrow> setConcreteNode nodeId b m
                   | None \<Rightarrow> m))
       emptyNodeMap (zip [0..<length nodes] nodes)"

text \<open>The data of a node, and the getter of a value of it with its default.\<close>

definition dataAt :: "abs_input \<Rightarrow> summary_state \<Rightarrow> string list \<Rightarrow> node_id \<Rightarrow> node_data option" where
  "dataAt inp st nodes n = (if n < length nodes then nodeData inp st (nodes ! n) else None)"

definition fromData :: "'a \<Rightarrow> (node_data \<Rightarrow> 'a) \<Rightarrow> node_data option \<Rightarrow> 'a" where
  "fromData dflt get d = (case d of Some x \<Rightarrow> get x | None \<Rightarrow> dflt)"

definition trackedOf :: "abs_input \<Rightarrow> value_ptr list" where
  "trackedOf inp = saVMObjs (aiState inp) @ saIneligible (aiState inp)"

definition abstractView :: "abs_input \<Rightarrow> summary_state \<Rightarrow> milp_view" where
  "abstractView inp st =
     (let nodes = abstractBlocks inp st; nid = nodeIdByName nodes; dat = dataAt inp st nodes;
          sa = aiState inp; em = aiEnergy inp; tracked = set (trackedOf inp)
      in \<lparr>getBlocks = [0..<length nodes],
          getEdges = concat (map (\<lambda>(a, b). case (nid a, nid b) of (Some i, Some j) \<Rightarrow> [(i, j)] | _ \<Rightarrow> []) (abstractEdges inp st)),
          getEntryBlock = (case nid (concreteToAbstract inp st (cfg_entryBlock (aiCfg inp))) of Some i \<Rightarrow> i | None \<Rightarrow> kInvalidNodeId),
          getExitBlocks = List.map_filter nid (abstractExits inp st),
          getBlockEnergyCost = (\<lambda>n. fromData 0 ndEnergy (dat n)),
          getVMObjs = saVMObjs sa,
          getEligLiveIn = (\<lambda>n. sorted_list_of_set (fromData {} ndEligLiveIn (dat n))),
          getEligDefIndicator = (\<lambda>n gv. gv \<in> fromData {} ndEligDefs (dat n)),
          getIneligibleObjs = saIneligible sa,
          isIneligible = (\<lambda>v. v \<in> set (saIneligible sa)),
          getIneligLiveIn = (\<lambda>n. sorted_list_of_set (fromData {} ndIneligLiveIn (dat n))),
          getIneligDefIndicator = (\<lambda>n v. v \<in> fromData {} ndIneligDefs (dat n)),
          getVarSize = (\<lambda>v. if v \<in> tracked then sint (saVarSize sa v) else 0),
          isGlobalVariable = (\<lambda>v. globalOf (aiEnv inp) v \<noteq> None),
          isAllocaInst = isAllocaValue (aiFunction inp),
          getStableValueOrderKey = aiOrderKey inp,
          getParams = emParams em,
          getEBase = (\<lambda>n. fromData 0 ndEnergy (dat n)),
          getENvm = (\<lambda>n gv. omap_get 0 (fromData [] ndNvm (dat n)) gv),
          getESave = (\<lambda>v. if v \<in> tracked then emGetESave em v else 0),
          getERestore = (\<lambda>v. if v \<in> tracked then emGetERestore em v else 0),
          getFEntry = (\<lambda>n. fromData 1 ndFEntry (dat n)),
          getFBoundary = (\<lambda>n. fromData 1 ndFBoundary (dat n))\<rparr>)"

record abstract_cfg =
  acView :: milp_view
  acNames :: "string list"
  acNodeMap :: node_map
  acStats :: abs_stats

definition getNodeName :: "abstract_cfg \<Rightarrow> node_id \<Rightarrow> string" where
  "getNodeName a n = (if n < length (acNames a) then acNames a ! n else ''<unknown-node>'')"

text \<open>\<open>None\<close> would be a path search that does not end.\<close>

definition buildAbstractCFG :: "abs_input \<Rightarrow> abstract_cfg option" where
  "buildAbstractCFG inp =
     map_option (\<lambda>st.
       let nodes = abstractBlocks inp st; view = abstractView inp st
       in \<lparr>acView = view, acNames = nodes, acNodeMap = buildNodeMap inp st nodes,
           acStats = (ssStats st)\<lparr>asAbstractNodes := of_nat (length (getBlocks view)), asAbstractEdges := of_nat (length (getEdges view))\<rparr>\<rparr>)
       (summarizeLoops inp)"

section \<open>Facts about the parts\<close>

lemma firstOccurrences_fold:
  assumes "distinct acc"
  shows "set (foldl (\<lambda>acc x. if x \<in> set acc then acc else acc @ [x]) acc xs) = set acc \<union> set xs
    \<and> distinct (foldl (\<lambda>acc x. if x \<in> set acc then acc else acc @ [x]) acc xs)
    \<and> length (foldl (\<lambda>acc x. if x \<in> set acc then acc else acc @ [x]) acc xs) \<le> length acc + length xs"
  using assms
proof (induction xs arbitrary: acc)
  case (Cons x xs)
  show ?case
  proof (cases "x \<in> set acc")
    case True
    then show ?thesis using Cons.IH [OF Cons.prems] by auto
  next
    case False
    then show ?thesis using Cons.IH [of "acc @ [x]"] Cons.prems by auto
  qed
qed simp

lemma firstOccurrences_simps [simp]:
  "set (firstOccurrences xs) = set xs" "distinct (firstOccurrences xs)" "length (firstOccurrences xs) \<le> length xs"
  using firstOccurrences_fold [of "[]" xs] by (simp_all add: firstOccurrences_def)

lemma nodeIdByName_Some:
  "nodeIdByName nodes x = Some i \<Longrightarrow> i < length nodes \<and> nodes ! i = x"
  unfolding nodeIdByName_def by (auto dest!: map_of_SomeD simp: set_zip)

lemma nodeIdByName_mem: "x \<in> set nodes \<Longrightarrow> \<exists>i. nodeIdByName nodes x = Some i"
  unfolding nodeIdByName_def
  by (metis (no_types, lifting) in_set_impl_in_set_zip1 length_upt minus_nat.diff_0 weak_map_of_SomeI prod.collapse)

lemma nodeIdByName_nth: "distinct nodes \<Longrightarrow> i < length nodes \<Longrightarrow> nodeIdByName nodes (nodes ! i) = Some i"
  using nodeIdByName_mem [of "nodes ! i" nodes] nodeIdByName_Some [of nodes "nodes ! i"] nth_eq_iff_index_eq [of nodes] by fastforce

lemma loopTripCount_policy: "loopTripCount L = summarySubLoopTripCount L"
  by (auto simp: loopTripCount_def summarySubLoopTripCount_def split: option.split)

lemma ucast_u32_pos: "0 < (x :: u32) \<Longrightarrow> 0 < (ucast x :: u64)"
  by (metis ucast_0 ucast_u32_u64 word_gt_0)

lemma loopTripCount_pos:
  assumes "loopTripCount L = Some tc" and "lpMarkerTC L \<noteq> Some 0"
  shows "0 < tc"
  using assms ucast_u32_pos [of "lpScevTC L"] by (auto simp: loopTripCount_def word_gt_0 min_def split: if_split_asm)

lemma put_nonzero_get:
  fixes f :: "value_ptr \<Rightarrow> double"
  shows "omap_get 0 (foldl (\<lambda>m gv. if f gv \<noteq> 0 then omap_put gv (f gv) m else m) m gvs) v = (if v \<in> set gvs \<and> f v \<noteq> 0 then f v else omap_get 0 m v)"
  by (induction gvs arbitrary: m) auto

lemma foldl_put_names:
  "map_of (foldl (\<lambda>m b. if b \<in> S then m else omap_put (f b) b m) m bs) x =
     (case find (\<lambda>b. b \<notin> S \<and> f b = x) (rev bs) of Some b \<Rightarrow> Some b | None \<Rightarrow> map_of m x)"
  by (induction bs arbitrary: m) (auto simp: find_append split: option.splits)

lemma foldl_put_energy:
  "omap_get d (foldl (\<lambda>m b. omap_put b (f b) m) m bs) x = (if x \<in> set bs then f x else omap_get d m x)"
  by (induction bs arbitrary: m) auto

lemma blockEnergyByBB_get:
  "omap_get 0 (blockEnergyByBB cfg) b = (if b \<in> set (cfg_blocks cfg) then energyCost (getBlockInfo cfg b) else 0)"
  by (simp add: blockEnergyByBB_def foldl_put_energy)

lemma concreteToAbstract_fold:
  "foldl (\<lambda>node (nodeName, agg). if b \<in> set (agBlocks agg) then nodeName else node) n0 ss \<in>
     (if \<exists>(n, agg) \<in> set ss. b \<in> set (agBlocks agg) then {n. \<exists>agg. (n, agg) \<in> set ss \<and> b \<in> set (agBlocks agg)} else {n0})"
proof (induction ss arbitrary: n0)
  case (Cons x ss)
  from Cons.IH [of "if b \<in> set (agBlocks (snd x)) then fst x else n0"] show ?case
    by (cases x) (auto split: if_split_asm)
qed simp

lemma concreteToAbstract_cases:
  "(\<exists>agg. (concreteToAbstract inp st b, agg) \<in> set (ssSummaries st) \<and> b \<in> set (agBlocks agg))
   \<or> concreteToAbstract inp st b = nameOf inp b \<and> (\<forall>(n, agg) \<in> set (ssSummaries st). b \<notin> set (agBlocks agg))"
  using concreteToAbstract_fold [of b "nameOf inp b" "ssSummaries st"]
  by (auto simp: concreteToAbstract_def split: if_split_asm)

section \<open>The summaries\<close>

definition summary_of :: "abs_input \<Rightarrow> loop_aggregate \<Rightarrow> llvm_loop \<Rightarrow> summary_budget \<Rightarrow> u64 \<Rightarrow> bool" where
  "summary_of inp agg L b tc \<longleftrightarrow>
     L \<in> set (collectOutermostFirst (aiLoops inp))
     \<and> computeSummaryBudget (blockEnergyByBB (aiCfg inp)) (ifSuccs (aiFunction inp)) (aiFunction inp) (aiEnv inp) (aiState inp)
         (emParams (aiEnergy inp)) L = Some (Inr b)
     \<and> loopTripCount L = Some tc \<and> summaryFits b tc \<and> agg = aggregateLoop inp L b tc"

definition summaries_inv :: "abs_input \<Rightarrow> summary_state \<Rightarrow> bool" where
  "summaries_inv inp st \<longleftrightarrow>
     omap_wf (ssSummaries st)
     \<and> (\<forall>n agg. (n, agg) \<in> set (ssSummaries st) \<longrightarrow> (\<exists>L b tc. summary_of inp agg L b tc) \<and> n \<in> ssUsedNames st)
     \<and> nameOf inp ` set (cfg_blocks (aiCfg inp)) \<subseteq> ssUsedNames st
     \<and> (\<forall>b. b \<in> ssSummarized st \<longrightarrow> (\<exists>(n, agg) \<in> set (ssSummaries st). b \<in> set (agBlocks agg)))"

lemma summaries_inv_stats [simp]: "summaries_inv inp (st\<lparr>ssStats := x\<rparr>) = summaries_inv inp st"
  by (simp add: summaries_inv_def)

lemma computeSummaryBudget_total: "\<exists>r. computeSummaryBudget be succ F env sa p L = Some r"
  using worst_case_total(1) [of be succ summarySubLoopTripCount L]
  by (auto simp: computeSummaryBudget_def computeWorstCaseSummaryPath_def Let_def split: sum.splits prod.splits)

definition only_stats :: "summary_state \<Rightarrow> summary_state \<Rightarrow> bool" where
  "only_stats st st' \<longleftrightarrow> (\<exists>x. st' = st\<lparr>ssStats := x\<rparr>)"

lemma only_stats_steps:
  "only_stats st (countLoop L st)" "only_stats st st' \<Longrightarrow> only_stats st (skipLoop r L st')"
  "only_stats st st' \<Longrightarrow> only_stats st (countEligible st')"
  by (auto simp: only_stats_def countLoop_def skipLoop_def countEligible_def)

lemma summarizeLoop_cases:
  obtains (skipped) st' where "summarizeLoop inp st L = Some st'" "only_stats st st'"
  | (added) b tc st' where "summarizeLoop inp st L = Some (addSummary inp L b tc st')" "only_stats st st'"
      "computeSummaryBudget (blockEnergyByBB (aiCfg inp)) (ifSuccs (aiFunction inp)) (aiFunction inp) (aiEnv inp) (aiState inp)
         (emParams (aiEnergy inp)) L = Some (Inr b)" "loopTripCount L = Some tc" "summaryFits b tc"
      "\<not> overlapsSelected L (ssSummarized st)" "lpHeader L \<noteq> nullptr"
proof -
  let ?st = "countLoop L st"
  let ?guard = "energyBudget (emParams (aiEnergy inp)) \<le> 0 \<or> lpHeader L = nullptr \<or> lpLatch L = nullptr \<or> lpHasInvoke L
    \<or> overlapsSelected L (ssSummarized ?st)"
  note stats = only_stats_steps(1) [of st L] only_stats_steps(2) [OF only_stats_steps(1) [of st L]]
    only_stats_steps(2) [OF only_stats_steps(3) [OF only_stats_steps(1) [of st L]]] only_stats_steps(3) [OF only_stats_steps(1) [of st L]]
  have [simp]: "ssSummarized ?st = ssSummarized st" by (simp add: countLoop_def)
  obtain r where r: "computeSummaryBudget (blockEnergyByBB (aiCfg inp)) (ifSuccs (aiFunction inp)) (aiFunction inp) (aiEnv inp) (aiState inp)
      (emParams (aiEnergy inp)) L = Some r" using computeSummaryBudget_total by blast
  show thesis
  proof (cases ?guard)
    case True
    then obtain reason where "summarizeLoop inp st L = Some (skipLoop reason L ?st)"
      unfolding summarizeLoop_def Let_def by (metis (no_types, lifting))
    then show ?thesis using skipped stats(2) by blast
  next
    case False
    then have eq: "summarizeLoop inp st L = (case r of
        Inl err \<Rightarrow> Some (skipLoop err L ?st)
      | Inr b \<Rightarrow> (case loopTripCount L of
          None \<Rightarrow> Some (skipLoop ''unknown-loop-trip-count'' L (countEligible ?st))
        | Some tc \<Rightarrow> if \<not> summaryFits b tc then Some (skipLoop ''loop-total-exceeds-budget'' L (countEligible ?st))
                    else Some (addSummary inp L b tc (countEligible ?st))))"
      unfolding summarizeLoop_def Let_def r by simp
    show ?thesis
    proof (cases r)
      case (Inl err)
      then show ?thesis using eq skipped stats(2) by simp
    next
      case (Inr b)
      show ?thesis
      proof (cases "\<exists>tc. loopTripCount L = Some tc \<and> summaryFits b tc")
        case True
        then show ?thesis using eq Inr r False added stats(4) by auto
      next
        case no: False
        then have "\<exists>reason. summarizeLoop inp st L = Some (skipLoop reason L (countEligible ?st))"
          using eq Inr by (auto split: option.splits)
        then show ?thesis using skipped stats(3) by blast
      qed
    qed
  qed
qed

lemma summaries_inv_only_stats: "only_stats st st' \<Longrightarrow> summaries_inv inp st' = summaries_inv inp st"
  by (auto simp: only_stats_def)

lemma aggregateLoop_blocks [simp]: "agBlocks (aggregateLoop inp L b tc) = summaryBlocks L"
  by (simp add: aggregateLoop_def Let_def)

lemma set_put_new:
  assumes "omap_wf m" and "k \<notin> fst ` set m"
  shows "set (omap_put k v m) = insert (k, v) (set m)"
proof -
  note d = map_of_eq_Some_iff [OF omap_wf_distinct [OF omap_wf_put [OF assms(1)]]] map_of_eq_Some_iff [OF omap_wf_distinct [OF assms(1)]]
  have "(a, c) \<in> set (omap_put k v m) \<longleftrightarrow> (a, c) \<in> insert (k, v) (set m)" for a c
    using assms(2) unfolding d [symmetric] insert_iff map_of_omap_put by (force simp: d(2))
  then show ?thesis by auto
qed

lemma addSummary_inv:
  assumes "summaries_inv inp st" and "summary_of inp (aggregateLoop inp L b tc) L b tc"
    and "makeUniqueSummaryNodeName (nameOf inp (lpHeader L)) (ssUsedNames st) \<notin> ssUsedNames st"
  shows "summaries_inv inp (addSummary inp L b tc st)"
proof -
  let ?n = "makeUniqueSummaryNodeName (nameOf inp (lpHeader L)) (ssUsedNames st)"
  have wf: "omap_wf (ssSummaries st)" using assms(1) by (simp add: summaries_inv_def)
  have new: "?n \<notin> fst ` set (ssSummaries st)" using assms(1,3) by (auto simp: summaries_inv_def)
  show ?thesis
    using assms(1,2) unfolding summaries_inv_def addSummary_def Let_def by (auto simp: set_put_new [OF wf new] omap_wf_put)
qed

text \<open>Names stay unique as long as there are fewer of them than numbers to append.\<close>

lemma numberedName_fresh:
  assumes "i \<le> j" and "j < 2 ^ 32 - 1" and "base @ ''_'' @ to_string j \<notin> used"
  shows "numberedName base used i \<notin> used"
  using assms
proof (induction base used i rule: numberedName.induct)
  case (1 base used i)
  show ?case
  proof (cases "base @ ''_'' @ to_string i \<notin> used")
    case True
    then show ?thesis using 1(2,3) by (subst numberedName.simps) (simp add: Let_def)
  next
    case False
    then have "i \<noteq> j" using 1(4) by auto
    then have "numberedName base used (i + 1) \<notin> used" using 1(1) [OF _ refl] 1(2,3,4) False by simp
    then show ?thesis using False 1(2,3) by (subst numberedName.simps) (simp add: Let_def)
  qed
qed

lemma inj_to_string: "to_string m = to_string n \<Longrightarrow> m = n"
proof -
  have "numVal 10 (to_string n) = n" for n unfolding to_string_def by (rule numVal_digitsOf) simp_all
  then show "to_string m = to_string n \<Longrightarrow> m = n" by metis
qed

lemma makeUnique_fresh:
  assumes "finite used" and "card used < 2 ^ 32 - 2"
  shows "makeUniqueSummaryNodeName h used \<notin> used"
proof (cases "''__loop_summary__'' @ h \<notin> used")
  case False
  let ?f = "\<lambda>i. (''__loop_summary__'' @ h) @ ''_'' @ to_string i"
  have "inj_on ?f {1..<2 ^ 32 - 1}" by (auto intro!: inj_onI dest: inj_to_string)
  then have "card (?f ` {1..<2 ^ 32 - 1}) = 2 ^ 32 - 2" by (subst card_image) simp_all
  then have "\<not> ?f ` {1..<2 ^ 32 - 1} \<subseteq> used" using card_mono [OF assms(1)] assms(2) by (metis leD)
  then obtain j where "j \<in> {1..<2 ^ 32 - 1}" and new: "?f j \<notin> used" by blast
  then have j: "1 \<le> j" "j < 2 ^ 32 - 1" unfolding atLeastLessThan_iff by blast+
  from numberedName_fresh [OF j new] False show ?thesis by (simp add: makeUniqueSummaryNodeName_def Let_def)
qed (simp add: makeUniqueSummaryNodeName_def Let_def)

definition names_bounded :: "abs_input \<Rightarrow> bool" where
  "names_bounded inp \<longleftrightarrow> length (cfg_blocks (aiCfg inp)) + length (collectOutermostFirst (aiLoops inp)) < 2 ^ 32 - 2"

lemma summarizeLoops_fold:
  assumes "set Ls \<subseteq> set (collectOutermostFirst (aiLoops inp))" and "summaries_inv inp st" and "finite (ssUsedNames st)"
    and "card (ssUsedNames st) + length Ls < 2 ^ 32 - 2" and "Q st"
    and stats: "\<And>st st'. Q st \<Longrightarrow> only_stats st st' \<Longrightarrow> Q st'"
    and add: "\<And>st L b tc. Q st \<Longrightarrow> summaries_inv inp st \<Longrightarrow> summary_of inp (aggregateLoop inp L b tc) L b tc \<Longrightarrow>
      \<not> overlapsSelected L (ssSummarized st) \<Longrightarrow>
      makeUniqueSummaryNodeName (nameOf inp (lpHeader L)) (ssUsedNames st) \<notin> ssUsedNames st \<Longrightarrow> Q (addSummary inp L b tc st)"
  shows "\<exists>st'. foldM (summarizeLoop inp) st Ls = Some st' \<and> summaries_inv inp st' \<and> Q st'"
  using assms(1-5)
proof (induction Ls arbitrary: st)
  case (Cons L Ls)
  from summarizeLoop_cases [of inp st L] obtain t where t: "summarizeLoop inp st L = Some t" "summaries_inv inp t"
      "finite (ssUsedNames t)" "card (ssUsedNames t) \<le> card (ssUsedNames st) + 1" "Q t"
  proof cases
    case (skipped t)
    then show ?thesis using that Cons.prems(2,3) stats [OF Cons.prems(5)] summaries_inv_only_stats by (auto simp: only_stats_def)
  next
    case (added b tc st')
    have inv: "summaries_inv inp st'" using added(2) Cons.prems(2) summaries_inv_only_stats by blast
    have same: "ssUsedNames st' = ssUsedNames st" "ssSummarized st' = ssSummarized st" using added(2) by (auto simp: only_stats_def)
    have sum: "summary_of inp (aggregateLoop inp L b tc) L b tc" using added Cons.prems(1) by (simp add: summary_of_def)
    have new: "makeUniqueSummaryNodeName (nameOf inp (lpHeader L)) (ssUsedNames st') \<notin> ssUsedNames st'"
      unfolding same using Cons.prems(3,4) by (intro makeUnique_fresh) simp_all
    have "Q (addSummary inp L b tc st')" using add [OF stats [OF Cons.prems(5) added(2)] inv sum _ new] added(6) same(2) by simp
    moreover have "summaries_inv inp (addSummary inp L b tc st')" by (rule addSummary_inv [OF inv sum new])
    ultimately show ?thesis using added(1) that Cons.prems(3)
      by (simp add: addSummary_def Let_def same card_insert_if)
  qed
  from Cons.IH [OF _ t(2,3) _ t(5)] t(1,4) Cons.prems(1,4) show ?case by simp
qed simp

lemma summarizeLoops_correct:
  assumes "names_bounded inp" and "Q (initialSummaries inp)"
    and "\<And>st st'. Q st \<Longrightarrow> only_stats st st' \<Longrightarrow> Q st'"
    and "\<And>st L b tc. Q st \<Longrightarrow> summaries_inv inp st \<Longrightarrow> summary_of inp (aggregateLoop inp L b tc) L b tc \<Longrightarrow>
      \<not> overlapsSelected L (ssSummarized st) \<Longrightarrow>
      makeUniqueSummaryNodeName (nameOf inp (lpHeader L)) (ssUsedNames st) \<notin> ssUsedNames st \<Longrightarrow> Q (addSummary inp L b tc st)"
  obtains st where "summarizeLoops inp = Some st" "summaries_inv inp st" "Q st"
proof -
  have "card (ssUsedNames (initialSummaries inp)) \<le> length (cfg_blocks (aiCfg inp))"
    by (simp add: initialSummaries_def) (metis card_image_le card_length finite_set le_trans)
  then have "\<exists>st'. foldM (summarizeLoop inp) (initialSummaries inp) (collectOutermostFirst (aiLoops inp)) = Some st' \<and> summaries_inv inp st' \<and> Q st'"
    using assms(1) by (intro summarizeLoops_fold [where Q = Q]) (use assms(2-4) in \<open>simp_all add: initialSummaries_def summaries_inv_def names_bounded_def\<close>)
  with that show thesis by (auto simp: summarizeLoops_def)
qed

lemma summarizeLoops_inv:
  assumes "names_bounded inp"
  obtains st where "summarizeLoops inp = Some st" "summaries_inv inp st"
  using summarizeLoops_correct [OF assms, of "\<lambda>_. True"] by auto

section \<open>What the pass hands over\<close>

lemma analyzeCFG_facts:
  fixes names succs est entry F
  defines "cfg \<equiv> analyzeCFG names succs est entry F"
  shows "cfg_blocks cfg = F" "cfg_edges cfg = concat (map (\<lambda>b. map (Pair b) (succs b)) F)"
    "cfg_exitBlocks cfg = filter (\<lambda>b. succs b = []) F" "cfg_entryBlock cfg = (if entry \<in> set F then entry else nullptr)"
    "getBlockInfo cfg b = (if b \<in> set F then \<lparr>bi_name = names b, energyCost = est b\<rparr> else emptyBlockInfo)"
proof -
  have "let cfg = foldl (analyzeBlock names succs est entry) c F
    in cfg_blocks cfg = cfg_blocks c @ F \<and> cfg_edges cfg = cfg_edges c @ concat (map (\<lambda>b. map (Pair b) (succs b)) F)
      \<and> cfg_exitBlocks cfg = cfg_exitBlocks c @ filter (\<lambda>b. succs b = []) F
      \<and> cfg_entryBlock cfg = (if entry \<in> set F then entry else cfg_entryBlock c)
      \<and> getBlockInfo cfg b = (if b \<in> set F then \<lparr>bi_name = names b, energyCost = est b\<rparr> else getBlockInfo c b)" for c
    by (induction F arbitrary: c) (auto simp: Let_def analyzeBlock_def getBlockInfo_def)
  from this [of "\<lparr>cfg_blocks = [], cfg_blockInfo = [], cfg_edges = [], cfg_entryBlock = nullptr, cfg_exitBlocks = []\<rparr>"]
  show "cfg_blocks cfg = F" "cfg_edges cfg = concat (map (\<lambda>b. map (Pair b) (succs b)) F)"
    "cfg_exitBlocks cfg = filter (\<lambda>b. succs b = []) F" "cfg_entryBlock cfg = (if entry \<in> set F then entry else nullptr)"
    "getBlockInfo cfg b = (if b \<in> set F then \<lparr>bi_name = names b, energyCost = est b\<rparr> else emptyBlockInfo)"
    unfolding cfg_def analyzeCFG_def Let_def by (auto simp: getBlockInfo_def)
qed

text \<open>The analyses the pass runs before it builds the graph, and what LLVM guarantees of the function.\<close>

definition pass_input_ok :: "abs_input \<Rightarrow> block_counts \<Rightarrow> (bb_ptr \<Rightarrow> string) \<Rightarrow> (bb_ptr \<Rightarrow> double) \<Rightarrow> bool" where
  "pass_input_ok inp counts names est \<longleftrightarrow>
     runStateAnalysis (aiFunction inp) (aiEnv inp) = Inr (aiState inp)
     \<and> buildEnergyModel (emParams (aiEnergy inp)) counts (aiFunction inp) (aiState inp) (irBlocks (aiFunction inp)) = Inr (aiEnergy inp)
     \<and> params_ok (emParams (aiEnergy inp))
     \<and> aiCfg inp = analyzeCFG names (ifSuccs (aiFunction inp)) est (irEntry (aiFunction inp)) (irBlocks (aiFunction inp))
     \<and> irBlocks (aiFunction inp) \<noteq> []
     \<and> (\<forall>b \<in> set (irBlocks (aiFunction inp)). 0 < est b \<and> set (ifSuccs (aiFunction inp) b) \<subseteq> set (irBlocks (aiFunction inp)))
     \<and> (\<forall>L \<in> set (collectOutermostFirst (aiLoops inp)). lpMarkerTC L \<noteq> Some 0)
     \<and> (\<forall>v. globalOf (aiEnv inp) v \<noteq> None \<longrightarrow> v \<notin> inId ` set (irInsts (aiFunction inp)))
     \<and> names_bounded inp"

lemma pass_input_okD:
  assumes "pass_input_ok inp counts names est"
  shows "runStateAnalysis (aiFunction inp) (aiEnv inp) = Inr (aiState inp)"
    and "buildEnergyModel (emParams (aiEnergy inp)) counts (aiFunction inp) (aiState inp) (irBlocks (aiFunction inp)) = Inr (aiEnergy inp)"
    and "params_ok (emParams (aiEnergy inp))"
    and "aiCfg inp = analyzeCFG names (ifSuccs (aiFunction inp)) est (irEntry (aiFunction inp)) (irBlocks (aiFunction inp))"
    and "irBlocks (aiFunction inp) \<noteq> []"
    and "b \<in> set (irBlocks (aiFunction inp)) \<Longrightarrow> 0 < est b"
    and "b \<in> set (irBlocks (aiFunction inp)) \<Longrightarrow> set (ifSuccs (aiFunction inp) b) \<subseteq> set (irBlocks (aiFunction inp))"
    and "L \<in> set (collectOutermostFirst (aiLoops inp)) \<Longrightarrow> lpMarkerTC L \<noteq> Some 0"
    and "globalOf (aiEnv inp) v \<noteq> None \<Longrightarrow> v \<notin> inId ` set (irInsts (aiFunction inp))"
    and "names_bounded inp"
  using assms unfolding pass_input_ok_def by blast+

lemma node_of_block: "b \<in> set (cfg_blocks (aiCfg inp)) \<Longrightarrow> concreteToAbstract inp st b \<in> set (abstractBlocks inp st)"
  by (simp add: abstractBlocks_def)

lemma nodeData_cases:
  assumes inv: "summaries_inv inp st" and n: "node \<in> set (abstractBlocks inp st)"
  obtains (summary) agg L b tc where "nodeData inp st node = Some (summaryData agg)" "summary_of inp agg L b tc"
  | (concrete) b where "nodeData inp st node = Some (concreteData inp b)" "b \<in> set (cfg_blocks (aiCfg inp))"
proof (cases "map_of (ssSummaries st) node")
  case (Some agg)
  then have "(node, agg) \<in> set (ssSummaries st)" by (rule map_of_SomeD)
  then obtain L b tc where "summary_of inp agg L b tc" using inv unfolding summaries_inv_def by blast
  then show ?thesis using summary Some by (simp add: nodeData_def)
next
  case None
  from n obtain b where b: "b \<in> set (cfg_blocks (aiCfg inp))" "concreteToAbstract inp st b = node" by (auto simp: abstractBlocks_def)
  have "node \<notin> fst ` set (ssSummaries st)" using None by (simp add: map_of_eq_None_iff)
  with concreteToAbstract_cases [of inp st b] b(2)
  have "nameOf inp b = node" "\<forall>(n, agg) \<in> set (ssSummaries st). b \<notin> set (agBlocks agg)" by force+
  moreover from this(2) have "b \<notin> ssSummarized st" using inv unfolding summaries_inv_def by fastforce
  ultimately have "find (\<lambda>b. b \<notin> ssSummarized st \<and> nameOf inp b = node) (rev (cfg_blocks (aiCfg inp))) \<noteq> None"
    using b(1) by (auto simp: find_None_iff)
  then obtain c where c: "find (\<lambda>b. b \<notin> ssSummarized st \<and> nameOf inp b = node) (rev (cfg_blocks (aiCfg inp))) = Some c" by blast
  then have "map_of (nameToBBConcrete inp st) node = Some c" by (simp add: nameToBBConcrete_def foldl_put_names)
  then show ?thesis using None concrete find_someD [OF c] by (simp add: nodeData_def)
qed

text \<open>What every node of the graph satisfies.\<close>

definition data_ok :: "abs_input \<Rightarrow> node_data \<Rightarrow> bool" where
  "data_ok inp d \<longleftrightarrow>
     0 < ndEnergy d \<and> ndEligLiveIn d \<subseteq> set (saVMObjs (aiState inp)) \<and> ndIneligLiveIn d \<subseteq> set (saIneligible (aiState inp))
     \<and> (\<forall>gv. 0 \<le> omap_get 0 (ndNvm d) gv)"

lemma summaryData_ok:
  assumes ok: "pass_input_ok inp counts names est" and sum: "summary_of inp agg L b tc"
  shows "data_ok inp (summaryData agg)"
proof -
  note nvm = energy_model_nonneg(1) [of "emParams (aiEnergy inp)" counts "aiFunction inp" "aiState inp" "irBlocks (aiFunction inp)" "aiEnergy inp"]
  from sum have agg: "agg = aggregateLoop inp L b tc" and tc: "loopTripCount L = Some tc"
    and L: "L \<in> set (collectOutermostFirst (aiLoops inp))"
    and b: "computeSummaryBudget (blockEnergyByBB (aiCfg inp)) (ifSuccs (aiFunction inp)) (aiFunction inp) (aiEnv inp) (aiState inp)
         (emParams (aiEnergy inp)) L = Some (Inr b)"
    by (auto simp: summary_of_def)
  have "0 < tc" using loopTripCount_pos [OF tc] L ok by (auto simp: pass_input_ok_def)
  then have "0 < real (unat tc)" by (simp add: unat_gt_0 word_gt_0 del: of_nat_unat)
  moreover have "0 \<le> sbPreheaderEnergy b"
    using computeSummaryBudget_Inr(3) [OF b] ok by (auto simp: blockEnergyByBB_get analyzeCFG_facts pass_input_ok_def less_imp_le)
  ultimately have "0 < totalBaseEnergy b tc"
    using computeSummaryBudget_Inr(2) [OF b] unfolding totalBaseEnergy_def by (intro add_pos_nonneg mult_pos_pos)
  moreover have "0 \<le> aggregateNvm inp L b tc gv" for gv
    unfolding aggregateNvm_def using ok nvm by (auto simp: pass_input_ok_def simp del: of_nat_unat intro!: add_nonneg_nonneg mult_nonneg_nonneg sum_nonneg)
  ultimately show ?thesis by (auto simp: data_ok_def summaryData_def agg aggregateLoop_def Let_def put_nonzero_get)
qed

lemma concreteData_ok:
  assumes ok: "pass_input_ok inp counts names est" and b: "b \<in> set (cfg_blocks (aiCfg inp))"
  shows "data_ok inp (concreteData inp b)"
proof -
  note nvm = energy_model_nonneg(1) [of "emParams (aiEnergy inp)" counts "aiFunction inp" "aiState inp" "irBlocks (aiFunction inp)" "aiEnergy inp"]
  have cfg: "aiCfg inp = analyzeCFG names (ifSuccs (aiFunction inp)) est (irEntry (aiFunction inp)) (irBlocks (aiFunction inp))"
    using ok by (simp add: pass_input_ok_def)
  have "0 < energyCost (getBlockInfo (aiCfg inp) b)"
    using ok b unfolding cfg by (simp add: analyzeCFG_facts pass_input_ok_def)
  moreover note runStateAnalysis_facts(3,4) [OF pass_input_okD(1) [OF ok], of b]
  ultimately show ?thesis using ok nvm by (auto simp: data_ok_def concreteData_def Let_def put_nonzero_get pass_input_ok_def)
qed

lemma dataAt_ok:
  assumes ok: "pass_input_ok inp counts names est" and inv: "summaries_inv inp st" and n: "n < length (abstractBlocks inp st)"
  obtains d where "dataAt inp st (abstractBlocks inp st) n = Some d" "data_ok inp d"
proof -
  have "abstractBlocks inp st ! n \<in> set (abstractBlocks inp st)" using n by simp
  with inv show thesis
  proof (cases rule: nodeData_cases)
    case (summary agg L b tc)
    then show ?thesis using that n summaryData_ok [OF ok summary(2)] by (simp add: dataAt_def)
  next
    case (concrete b)
    then show ?thesis using that n concreteData_ok [OF ok concrete(2)] by (simp add: dataAt_def)
  qed
qed

lemma tracked_disjoint_kinds:
  assumes "pass_input_ok inp counts names est"
  shows "set (saVMObjs (aiState inp)) \<inter> set (saIneligible (aiState inp)) = {}"
proof -
  from assms have sa: "runStateAnalysis (aiFunction inp) (aiEnv inp) = Inr (aiState inp)"
    and ids: "\<forall>v. globalOf (aiEnv inp) v \<noteq> None \<longrightarrow> v \<notin> inId ` set (irInsts (aiFunction inp))"
    by (simp_all add: pass_input_ok_def)
  have "globalOf (aiEnv inp) v \<noteq> None" if "v \<in> set (saVMObjs (aiState inp))" for v
    using that directlyAccessed_globals unfolding runStateAnalysis_facts(1) [OF sa] by auto
  then show ?thesis using ids ineligible_insts [OF sa] by blast
qed

lemma abstractView_ok:
  assumes ok: "pass_input_ok inp counts names est" and inv: "summaries_inv inp st"
  shows "view_ok (abstractView inp st)"
proof -
  let ?nodes = "abstractBlocks inp st" and ?F = "aiFunction inp"
  have cfg: "aiCfg inp = analyzeCFG names (ifSuccs ?F) est (irEntry ?F) (irBlocks ?F)" and ne: "irBlocks ?F \<noteq> []"
    and em: "buildEnergyModel (emParams (aiEnergy inp)) counts ?F (aiState inp) (irBlocks ?F) = Inr (aiEnergy inp)"
    and par: "params_ok (emParams (aiEnergy inp))"
    using ok by (simp_all add: pass_input_ok_def)
  have entry: "cfg_entryBlock (aiCfg inp) \<in> set (cfg_blocks (aiCfg inp))"
    using ne unfolding cfg analyzeCFG_facts by (simp add: irEntry_def)
  then obtain i where i: "nodeIdByName ?nodes (concreteToAbstract inp st (cfg_entryBlock (aiCfg inp))) = Some i"
    using nodeIdByName_mem [OF node_of_block] by blast
  have len: "length ?nodes \<le> length (cfg_blocks (aiCfg inp))" unfolding abstractBlocks_def
    using firstOccurrences_simps(3) [of "map (concreteToAbstract inp st) (cfg_blocks (aiCfg inp))"] by simp
  have "i < length ?nodes" using nodeIdByName_Some [OF i] by simp
  moreover have "i \<noteq> kInvalidNodeId" using calculation len pass_input_okD(10) [OF ok] by (simp add: kInvalidNodeId_def names_bounded_def)
  moreover have "set (getEligLiveIn (abstractView inp st) n) \<subseteq> set (saVMObjs (aiState inp))
      \<and> set (getIneligLiveIn (abstractView inp st) n) \<subseteq> set (saIneligible (aiState inp)) \<and> 0 < getEBase (abstractView inp st) n"
    if "n < length ?nodes" for n
  proof -
    from that obtain d where d: "dataAt inp st ?nodes n = Some d" "data_ok inp d" by (rule dataAt_ok [OF ok inv])
    moreover have "finite (ndEligLiveIn d)" "finite (ndIneligLiveIn d)" using d(2) by (auto simp: data_ok_def intro: finite_subset)
    ultimately show ?thesis by (simp add: abstractView_def Let_def fromData_def data_ok_def)
  qed
  moreover have "0 \<le> getENvm (abstractView inp st) n gv" for n gv
  proof (cases "n < length ?nodes")
    case True
    then obtain d where "dataAt inp st ?nodes n = Some d" "data_ok inp d" by (rule dataAt_ok [OF ok inv])
    then show ?thesis by (simp add: abstractView_def Let_def fromData_def data_ok_def)
  qed (simp add: abstractView_def Let_def fromData_def dataAt_def)
  moreover have "0 \<le> getESave (abstractView inp st) v \<and> 0 \<le> getERestore (abstractView inp st) v" for v
    using energy_model_nonneg(2,3) [OF em par] by (simp add: abstractView_def Let_def)
  moreover have "set (getEdges (abstractView inp st)) \<subseteq> {..<length ?nodes} \<times> {..<length ?nodes}"
    by (auto simp: abstractView_def Let_def dest: nodeIdByName_Some [OF sym] split: option.splits)
  moreover have "set (getExitBlocks (abstractView inp st)) \<subseteq> {..<length ?nodes}"
    by (auto simp: abstractView_def Let_def List.map_filter_def dest: nodeIdByName_Some)
  moreover have "getEntryBlock (abstractView inp st) = i" "getBlocks (abstractView inp st) = [0..<length ?nodes]"
    "getVMObjs (abstractView inp st) = saVMObjs (aiState inp)" "getIneligibleObjs (abstractView inp st) = saIneligible (aiState inp)"
    "\<And>v. isIneligible (abstractView inp st) v \<longleftrightarrow> v \<in> set (saIneligible (aiState inp))"
    using i by (simp_all add: abstractView_def Let_def)
  ultimately show ?thesis using tracked_disjoint_kinds [OF ok] unfolding view_ok_def by (auto simp: lessThan_def)
qed

section \<open>Properties\<close>

text \<open>(C30) The abstract graph is always built, and the views it gives satisfy everything the optimizer relies on:
  entry, edges and exits are nodes, live-in objects are tracked, candidates and other objects are disjoint, every
  node costs energy, and no penalty or cost is negative. So the guarantees for extracted solutions hold for the
  graphs the pass solves.\<close>
theorem buildAbstractCFG_view_ok:
  assumes "pass_input_ok inp counts names est"
  shows "\<exists>a. buildAbstractCFG inp = Some a \<and> view_ok (acView a)"
proof -
  from pass_input_okD(10) [OF assms] obtain st where "summarizeLoops inp = Some st" "summaries_inv inp st"
    by (rule summarizeLoops_inv)
  then show ?thesis using abstractView_ok [OF assms] by (simp add: buildAbstractCFG_def Let_def)
qed

text \<open>The sample loop between an entry block, which is its preheader, and an exit.\<close>

definition sample_loop_fn :: ir_function where
  "sample_loop_fn = \<lparr>ifName = ''main'', ifBlocks = map (\<lambda>b. (b, [])) [9, 1, 2, 3, 4, 5],
     ifSuccs = (\<lambda>b. if b = 9 then [1] else sample_succs b)\<rparr>"

definition sample_names :: "bb_ptr \<Rightarrow> string" where
  "sample_names b = ''bb'' @ replicate b CHR ''x''"

definition sample_cost :: "bb_ptr \<Rightarrow> double" where
  "sample_cost b = (if b = 5 then 1 else omap_get 0 sample_energies b)"

definition sample_counts :: block_counts where
  "sample_counts = [(1, 7), (2, 3), (3, 20), (4, 7), (5, 1), (9, 1)]"

definition sample_milp_params :: MILPEnergyParams where
  "sample_milp_params = sample_mp\<lparr>mp_capacity := 300\<rparr>"

definition sample_sa :: state_analysis where
  "sample_sa = projr (runStateAnalysis sample_loop_fn sample_ir_env)"

definition sample_em :: energy_model where
  "sample_em = projr (buildEnergyModel sample_milp_params sample_counts sample_loop_fn sample_sa (irBlocks sample_loop_fn))"

definition sample_abs_input :: abs_input where
  "sample_abs_input =
     \<lparr>aiFunction = sample_loop_fn, aiEnv = sample_ir_env,
      aiCfg = analyzeCFG sample_names (ifSuccs sample_loop_fn) sample_cost (irEntry sample_loop_fn) (irBlocks sample_loop_fn),
      aiState = sample_sa, aiEnergy = sample_em, aiLoops = [sample_outer], aiOrderKey = (\<lambda>v. [])\<rparr>"

lemma sample_state: "runStateAnalysis sample_loop_fn sample_ir_env = Inr sample_sa"
proof -
  let ?F = sample_loop_fn and ?e = sample_ir_env
  have [simp]: "irInsts ?F = []" by (simp add: irInsts_def sample_loop_fn_def comp_def)
  obtain vm kept where vm: "identifyVMObjs ?F ?e = (vm, kept)" by (meson surj_pair)
  obtain el al sl where "computeEligibleLiveness ?F ?e vm = Some el"
    "computeIneligAllocaLiveness ?F ?e (map fst ([] @ identifyIneligibleSSAValues ?F)) = Some al"
    "computeIneligSSALiveness ?F (map fst ([] @ identifyIneligibleSSAValues ?F)) = Some sl"
    by (rule liveness_total [where F = ?F and env = ?e and vmObjs = vm and objs = "map fst ([] @ identifyIneligibleSSAValues ?F)"]) blast
  then show ?thesis by (simp add: sample_sa_def runStateAnalysis_def vm Let_def)
qed

lemma sample_energy: "buildEnergyModel sample_milp_params sample_counts sample_loop_fn sample_sa (irBlocks sample_loop_fn) = Inr sample_em"
proof -
  have "computeFrequenciesFromFile sample_counts sample_loop_fn = Inr [(1, 7), (2, 3), (3, 20), (4, 7), (5, 1), (9, 1)]" by code_simp
  then show ?thesis by (simp add: sample_em_def buildEnergyModel_def split: prod.split)
qed

lemma sample_loops: "collectOutermostFirst [sample_outer] = [sample_outer, sample_inner]"
  by code_simp

lemma sample_input_ok: "pass_input_ok sample_abs_input sample_counts sample_names sample_cost"
proof -
  have blocks: "irBlocks sample_loop_fn = [9, 1, 2, 3, 4, 5]" by code_simp
  have par: "emParams sample_em = sample_milp_params" using buildEnergyModel_Inr(1) [OF sample_energy] .
  have "names_bounded sample_abs_input"
    by (simp add: names_bounded_def sample_abs_input_def analyzeCFG_facts sample_loops blocks)
  moreover have "params_ok sample_milp_params" by (simp add: params_ok_def sample_milp_params_def sample_mp_def)
  moreover have "\<forall>b \<in> set (irBlocks sample_loop_fn). 0 < sample_cost b \<and> set (ifSuccs sample_loop_fn b) \<subseteq> set (irBlocks sample_loop_fn)"
    unfolding blocks by (simp add: sample_cost_def sample_energies_def omap_get_def sample_loop_fn_def sample_succs_def)
  moreover have "\<forall>L \<in> set (collectOutermostFirst [sample_outer]). lpMarkerTC L \<noteq> Some 0"
    unfolding sample_loops by (simp add: sample_outer_def sample_inner_def)
  moreover have "irBlocks sample_loop_fn \<noteq> []" "\<forall>v. globalOf sample_ir_env v = None" by (simp_all add: blocks sample_ir_env_def)
  ultimately show ?thesis using sample_state sample_energy unfolding pass_input_ok_def by (simp add: sample_abs_input_def par)
qed

theorem buildAbstractCFG_view_ok_witness:
  "\<exists>a. buildAbstractCFG sample_abs_input = Some a \<and> view_ok (acView a)"
  by (rule buildAbstractCFG_view_ok [OF sample_input_ok])

end
