(* ===== verification/AbstractCFGSound.thy ===== *)
theory AbstractCFGSound
  imports AbstractCFG
begin

text \<open>
  What the abstract graph says about the function it was built from. The facts LLVM guarantees of natural loops
  are \<open>loop_facts\<close>. From them follow the assertions of \<open>buildAbstractCFG\<close>: summaries do not overlap, and control
  enters a summary only at the block that represents it. The graph is a simulation of the function: every
  edge between blocks is an edge between their nodes or stays inside a summary. A summary's energy covers
  every run of its loop.
\<close>

section \<open>Summaries do not overlap\<close>

definition loop_facts :: "abs_input \<Rightarrow> bool" where
  "loop_facts inp \<longleftrightarrow>
     (\<forall>L \<in> set (collectOutermostFirst (aiLoops inp)).
        lpHeader L \<noteq> nullptr \<and> lpHeader L \<in> set (lpBlocks L)
        \<and> (lpPreheader L \<noteq> nullptr \<longrightarrow>
             (\<forall>L' \<in> set (collectOutermostFirst (aiLoops inp)).
                (lpPreheader L \<in> set (lpBlocks L') \<longrightarrow> lpHeader L \<in> set (lpBlocks L'))
                \<and> (lpPreheader L = lpPreheader L' \<longrightarrow> lpHeader L = lpHeader L')))
        \<and> (\<forall>s d. (s, d) \<in> set (cfg_edges (aiCfg inp)) \<longrightarrow> d \<in> set (lpBlocks L) \<longrightarrow> s \<notin> set (lpBlocks L) \<longrightarrow>
             d = lpHeader L \<and> (lpPreheader L \<noteq> nullptr \<longrightarrow> s = lpPreheader L)))"

lemma loop_factsD:
  assumes "loop_facts inp" and "L \<in> set (collectOutermostFirst (aiLoops inp))"
  shows "lpHeader L \<in> set (lpBlocks L)"
    and "L' \<in> set (collectOutermostFirst (aiLoops inp)) \<Longrightarrow> lpPreheader L \<noteq> nullptr \<Longrightarrow> lpPreheader L \<in> set (lpBlocks L') \<Longrightarrow>
      lpHeader L \<in> set (lpBlocks L')"
    and "L' \<in> set (collectOutermostFirst (aiLoops inp)) \<Longrightarrow> lpPreheader L \<noteq> nullptr \<Longrightarrow> lpPreheader L = lpPreheader L' \<Longrightarrow>
      lpHeader L = lpHeader L'"
    and "(s, d) \<in> set (cfg_edges (aiCfg inp)) \<Longrightarrow> d \<in> set (lpBlocks L) \<Longrightarrow> s \<notin> set (lpBlocks L) \<Longrightarrow>
      d = lpHeader L \<and> (lpPreheader L \<noteq> nullptr \<longrightarrow> s = lpPreheader L)"
    and "lpHeader L \<noteq> nullptr"
  using assms unfolding loop_facts_def by blast+

definition disjoint_inv :: "summary_state \<Rightarrow> bool" where
  "disjoint_inv st \<longleftrightarrow>
     (\<forall>n agg b. (n, agg) \<in> set (ssSummaries st) \<longrightarrow> b \<in> set (agBlocks agg) \<longrightarrow> b \<in> ssSummarized st)
     \<and> (\<forall>n agg m agg' b. (n, agg) \<in> set (ssSummaries st) \<longrightarrow> (m, agg') \<in> set (ssSummaries st) \<longrightarrow>
           b \<in> set (agBlocks agg) \<longrightarrow> b \<in> set (agBlocks agg') \<longrightarrow> m = n)"

lemma disjoint_invD:
  assumes "disjoint_inv st" and "(n, agg) \<in> set (ssSummaries st)"
  shows "b \<in> set (agBlocks agg) \<Longrightarrow> b \<in> ssSummarized st"
    and "(m, agg') \<in> set (ssSummaries st) \<Longrightarrow> b \<in> set (agBlocks agg) \<Longrightarrow> b \<in> set (agBlocks agg') \<Longrightarrow> m = n"
  using assms unfolding disjoint_inv_def by blast+

lemma new_summary_disjoint:
  assumes facts: "loop_facts inp" and inv: "summaries_inv inp st" and dis: "disjoint_inv st"
    and sum: "summary_of inp (aggregateLoop inp L b tc) L b tc" and free: "\<not> overlapsSelected L (ssSummarized st)"
  shows "set (summaryBlocks L) \<inter> ssSummarized st = {}"
proof -
  have L: "L \<in> set (collectOutermostFirst (aiLoops inp))" using sum by (simp add: summary_of_def)
  have out: "x \<notin> ssSummarized st" if "x \<in> set (lpBlocks L)" for x
    using free that by (auto simp: overlapsSelected_def list_ex_iff)
  have "lpPreheader L \<notin> ssSummarized st" if pre: "lpPreheader L \<noteq> nullptr"
  proof
    assume "lpPreheader L \<in> ssSummarized st"
    then obtain n agg where agg: "(n, agg) \<in> set (ssSummaries st)" "lpPreheader L \<in> set (agBlocks agg)"
      using inv unfolding summaries_inv_def by blast
    then obtain L' b' tc' where "summary_of inp agg L' b' tc'" using inv unfolding summaries_inv_def by blast
    then have L': "L' \<in> set (collectOutermostFirst (aiLoops inp))" "agBlocks agg = summaryBlocks L'"
      by (auto simp: summary_of_def)
    have "lpHeader L \<in> set (lpBlocks L')"
    proof (cases "lpPreheader L \<in> set (lpBlocks L')")
      case True
      then show ?thesis using loop_factsD(2) [OF facts L L'(1) pre] by simp
    next
      case False
      then have "lpPreheader L = lpPreheader L'" using agg(2) L'(2) by (auto simp: summaryBlocks_def split: if_split_asm)
      then show ?thesis using loop_factsD(3) [OF facts L L'(1) pre] loop_factsD(1) [OF facts L'(1)] by simp
    qed
    then have "lpHeader L \<in> ssSummarized st" using disjoint_invD(1) [OF dis agg(1)] L'(2) by (simp add: summaryBlocks_def)
    with out loop_factsD(1) [OF facts L] show False by blast
  qed
  then show ?thesis using out by (auto simp: summaryBlocks_def)
qed

lemma disjoint_inv_add:
  assumes "loop_facts inp" and inv: "summaries_inv inp st" and dis: "disjoint_inv st"
    and "summary_of inp (aggregateLoop inp L b tc) L b tc" and "\<not> overlapsSelected L (ssSummarized st)"
    and new: "makeUniqueSummaryNodeName (nameOf inp (lpHeader L)) (ssUsedNames st) \<notin> ssUsedNames st"
  shows "disjoint_inv (addSummary inp L b tc st)"
proof -
  let ?n = "makeUniqueSummaryNodeName (nameOf inp (lpHeader L)) (ssUsedNames st)"
  have wf: "omap_wf (ssSummaries st)" using inv by (simp add: summaries_inv_def)
  have "?n \<notin> fst ` set (ssSummaries st)" using inv new by (auto simp: summaries_inv_def)
  note sets = set_put_new [OF wf this]
  have free: "set (summaryBlocks L) \<inter> ssSummarized st = {}" by (rule new_summary_disjoint [OF assms(1-5)])
  have old: "b \<notin> set (summaryBlocks L)" if "(n, agg) \<in> set (ssSummaries st)" "b \<in> set (agBlocks agg)" for n agg b
    using disjoint_invD(1) [OF dis that] free by blast
  show ?thesis
    unfolding disjoint_inv_def addSummary_def Let_def
    by (simp add: sets) (use old disjoint_invD [OF dis] in fastforce)
qed

definition fresh_inv :: "abs_input \<Rightarrow> summary_state \<Rightarrow> bool" where
  "fresh_inv inp st \<longleftrightarrow> fst ` set (ssSummaries st) \<inter> nameOf inp ` set (cfg_blocks (aiCfg inp)) = {}"

lemma fresh_inv_add:
  assumes "summaries_inv inp st" and "fresh_inv inp st"
    and "makeUniqueSummaryNodeName (nameOf inp (lpHeader L)) (ssUsedNames st) \<notin> ssUsedNames st"
  shows "fresh_inv inp (addSummary inp L b tc st)"
  using assms unfolding fresh_inv_def addSummary_def Let_def summaries_inv_def by (auto simp: fst_set_omap_put)

lemma summarizeLoops_disjoint:
  assumes "names_bounded inp" and "loop_facts inp"
  obtains st where "summarizeLoops inp = Some st" "summaries_inv inp st" "disjoint_inv st" "fresh_inv inp st"
proof (rule summarizeLoops_correct [OF assms(1), of "\<lambda>st. disjoint_inv st \<and> fresh_inv inp st"])
  show "disjoint_inv (initialSummaries inp) \<and> fresh_inv inp (initialSummaries inp)"
    by (simp add: disjoint_inv_def fresh_inv_def initialSummaries_def)
  show "\<And>st st'. disjoint_inv st \<and> fresh_inv inp st \<Longrightarrow> only_stats st st' \<Longrightarrow> disjoint_inv st' \<and> fresh_inv inp st'"
    unfolding only_stats_def by (elim exE) (simp add: disjoint_inv_def fresh_inv_def)
qed (use that disjoint_inv_add [OF assms(2)] fresh_inv_add in blast)+

section \<open>The node of a block\<close>

text \<open>What a block's node is, once summaries are disjoint and names are unique.\<close>

definition names_unique :: "abs_input \<Rightarrow> bool" where
  "names_unique inp \<longleftrightarrow> inj_on (nameOf inp) (set (cfg_blocks (aiCfg inp))) \<and> nullptr \<notin> set (cfg_blocks (aiCfg inp))"

lemma node_in_summary:
  assumes "disjoint_inv st" and "(n, agg) \<in> set (ssSummaries st)" and "b \<in> set (agBlocks agg)"
  shows "concreteToAbstract inp st b = n"
  using concreteToAbstract_cases [of inp st b]
proof
  assume "\<exists>agg. (concreteToAbstract inp st b, agg) \<in> set (ssSummaries st) \<and> b \<in> set (agBlocks agg)"
  then obtain agg' where "(concreteToAbstract inp st b, agg') \<in> set (ssSummaries st)" "b \<in> set (agBlocks agg')" by (elim exE conjE)
  then show ?thesis by (rule disjoint_invD(2) [OF assms(1,2) _ assms(3)])
qed (use assms(2,3) in auto)

lemma node_outside:
  assumes "\<And>n agg. (n, agg) \<in> set (ssSummaries st) \<Longrightarrow> b \<notin> set (agBlocks agg)"
  shows "concreteToAbstract inp st b = nameOf inp b"
  using concreteToAbstract_cases [of inp st b] assms by auto

lemma find_unique:
  assumes "x \<in> set xs" and "P x" and "\<And>y. y \<in> set xs \<Longrightarrow> P y \<Longrightarrow> y = x"
  shows "find P xs = Some x"
proof -
  have "find P xs \<noteq> None" using assms(1,2) unfolding find_None_iff by blast
  then obtain y where y: "find P xs = Some y" by blast
  then show ?thesis using find_someD [OF y] assms(3) by simp
qed

lemma keyed_writes:
  assumes "\<And>m p. p \<in> set ps \<Longrightarrow> g (step m p) k = (if W p then Some (V p) else g m k)"
  shows "g (foldl step m ps) k = (case find W (rev ps) of Some p \<Rightarrow> Some (V p) | None \<Rightarrow> g m k)"
  using assms by (induction ps arbitrary: m) (auto simp: find_append split: option.splits)

lemma members_foldl:
  "reverseConcrete (foldl (\<lambda>m b. setSummaryMember i b m) m bs) = reverseConcrete m"
  "concreteNodes (foldl (\<lambda>m b. setSummaryMember i b m) m bs) = concreteNodes m"
  "summaryRepresentative (foldl (\<lambda>m b. setSummaryMember i b m) m bs) = summaryRepresentative m"
  "map_of (reverseSummaryMembers (foldl (\<lambda>m b. setSummaryMember i b m) m bs)) b =
     (if b \<in> set bs \<and> b \<noteq> nullptr then Some i else map_of (reverseSummaryMembers m) b)"
  by (induction bs arbitrary: m) (auto simp: setSummaryMember_def)

definition nodeStep :: "abs_input \<Rightarrow> summary_state \<Rightarrow> node_map \<Rightarrow> node_id \<times> string \<Rightarrow> node_map" where
  "nodeStep inp st m p =
     (case p of (nodeId, nodeName) \<Rightarrow>
        case map_of (ssSummaries st) nodeName of
          Some agg \<Rightarrow> foldl (\<lambda>m b. setSummaryMember nodeId b m) (setSummaryRepresentative nodeId (agEntry agg) m) (agBlocks agg)
        | None \<Rightarrow> (case map_of (nameToBBConcrete inp st) nodeName of
                     Some b \<Rightarrow> setConcreteNode nodeId b m
                   | None \<Rightarrow> m))"

lemma buildNodeMap_step: "buildNodeMap inp st nodes = foldl (nodeStep inp st) emptyNodeMap (zip [0..<length nodes] nodes)"
  unfolding buildNodeMap_def nodeStep_def ..

lemma nodeStep_maps:
  "map_of (reverseConcrete (nodeStep inp st m p)) b =
     (if map_of (ssSummaries st) (snd p) = None \<and> map_of (nameToBBConcrete inp st) (snd p) = Some b \<and> b \<noteq> nullptr
      then Some (fst p) else map_of (reverseConcrete m) b)"
  "map_of (reverseSummaryMembers (nodeStep inp st m p)) b =
     (if (\<exists>agg. map_of (ssSummaries st) (snd p) = Some agg \<and> b \<in> set (agBlocks agg)) \<and> b \<noteq> nullptr
      then Some (fst p) else map_of (reverseSummaryMembers m) b)"
  "map_of (concreteNodes (nodeStep inp st m p)) i =
     (if i = fst p \<and> map_of (ssSummaries st) (snd p) = None \<and> (\<exists>b. map_of (nameToBBConcrete inp st) (snd p) = Some b \<and> b \<noteq> nullptr)
      then Some (the (map_of (nameToBBConcrete inp st) (snd p))) else map_of (concreteNodes m) i)"
  "map_of (summaryRepresentative (nodeStep inp st m p)) i =
     (if i = fst p \<and> (\<exists>agg. map_of (ssSummaries st) (snd p) = Some agg \<and> agEntry agg \<noteq> nullptr)
      then Some (agEntry (the (map_of (ssSummaries st) (snd p)))) else map_of (summaryRepresentative m) i)"
  by (cases p, cases "map_of (ssSummaries st) (snd p)", cases "map_of (nameToBBConcrete inp st) (snd p)",
      simp_all add: nodeStep_def setConcreteNode_def setSummaryRepresentative_def members_foldl)+

lemma node_map_lookups:
  fixes nodes
  defines "ps \<equiv> rev (zip [0..<length nodes] nodes)"
  shows "map_of (reverseConcrete (buildNodeMap inp st nodes)) b = map_option fst (find (\<lambda>p. map_of (ssSummaries st) (snd p) = None
      \<and> map_of (nameToBBConcrete inp st) (snd p) = Some b \<and> b \<noteq> nullptr) ps)"
    and "map_of (reverseSummaryMembers (buildNodeMap inp st nodes)) b = map_option fst (find (\<lambda>p. (\<exists>agg. map_of (ssSummaries st) (snd p) = Some agg
      \<and> b \<in> set (agBlocks agg)) \<and> b \<noteq> nullptr) ps)"
    and "map_of (concreteNodes (buildNodeMap inp st nodes)) i = map_option (\<lambda>p. the (map_of (nameToBBConcrete inp st) (snd p)))
      (find (\<lambda>p. i = fst p \<and> map_of (ssSummaries st) (snd p) = None \<and> (\<exists>b. map_of (nameToBBConcrete inp st) (snd p) = Some b \<and> b \<noteq> nullptr)) ps)"
    and "map_of (summaryRepresentative (buildNodeMap inp st nodes)) i = map_option (\<lambda>p. agEntry (the (map_of (ssSummaries st) (snd p))))
      (find (\<lambda>p. i = fst p \<and> (\<exists>agg. map_of (ssSummaries st) (snd p) = Some agg \<and> agEntry agg \<noteq> nullptr)) ps)"
proof -
  have empty: "map_of (reverseConcrete emptyNodeMap) b = None" "map_of (reverseSummaryMembers emptyNodeMap) b = None"
    "map_of (concreteNodes emptyNodeMap) i = None" "map_of (summaryRepresentative emptyNodeMap) i = None"
    by (simp_all add: emptyNodeMap_def)
  have opt: "(case x of Some p \<Rightarrow> Some (f p) | None \<Rightarrow> None) = map_option f x" for x :: "(node_id \<times> string) option" and f :: "node_id \<times> string \<Rightarrow> nat"
    by (cases x) simp_all
  show "map_of (reverseConcrete (buildNodeMap inp st nodes)) b = map_option fst (find (\<lambda>p. map_of (ssSummaries st) (snd p) = None
      \<and> map_of (nameToBBConcrete inp st) (snd p) = Some b \<and> b \<noteq> nullptr) ps)"
    unfolding ps_def buildNodeMap_step
    by (subst keyed_writes [of _ "\<lambda>m. map_of (reverseConcrete m)", OF nodeStep_maps(1)]) (simp only: empty opt)
  show "map_of (reverseSummaryMembers (buildNodeMap inp st nodes)) b = map_option fst (find (\<lambda>p. (\<exists>agg. map_of (ssSummaries st) (snd p) = Some agg
      \<and> b \<in> set (agBlocks agg)) \<and> b \<noteq> nullptr) ps)"
    unfolding ps_def buildNodeMap_step
    by (subst keyed_writes [of _ "\<lambda>m. map_of (reverseSummaryMembers m)", OF nodeStep_maps(2)]) (simp only: empty opt)
  show "map_of (concreteNodes (buildNodeMap inp st nodes)) i = map_option (\<lambda>p. the (map_of (nameToBBConcrete inp st) (snd p)))
      (find (\<lambda>p. i = fst p \<and> map_of (ssSummaries st) (snd p) = None \<and> (\<exists>b. map_of (nameToBBConcrete inp st) (snd p) = Some b \<and> b \<noteq> nullptr)) ps)"
    unfolding ps_def buildNodeMap_step
    by (subst keyed_writes [of _ "\<lambda>m. map_of (concreteNodes m)", OF nodeStep_maps(3)]) (simp only: empty opt)
  show "map_of (summaryRepresentative (buildNodeMap inp st nodes)) i = map_option (\<lambda>p. agEntry (the (map_of (ssSummaries st) (snd p))))
      (find (\<lambda>p. i = fst p \<and> (\<exists>agg. map_of (ssSummaries st) (snd p) = Some agg \<and> agEntry agg \<noteq> nullptr)) ps)"
    unfolding ps_def buildNodeMap_step
    by (subst keyed_writes [of _ "\<lambda>m. map_of (summaryRepresentative m)", OF nodeStep_maps(4)]) (simp only: empty opt)
qed

lemma nameToBBConcrete_Some:
  assumes "map_of (nameToBBConcrete inp st) n = Some b"
  shows "nameOf inp b = n" "b \<notin> ssSummarized st" "b \<in> set (cfg_blocks (aiCfg inp))"
proof -
  from assms have "find (\<lambda>b. b \<notin> ssSummarized st \<and> nameOf inp b = n) (rev (cfg_blocks (aiCfg inp))) = Some b"
    by (simp add: nameToBBConcrete_def foldl_put_names split: option.splits)
  from find_someD [OF this] show "nameOf inp b = n" "b \<notin> ssSummarized st" "b \<in> set (cfg_blocks (aiCfg inp))" by auto
qed

lemma nameToBBConcrete_own:
  assumes "names_unique inp" and "b \<in> set (cfg_blocks (aiCfg inp))" and "b \<notin> ssSummarized st"
  shows "map_of (nameToBBConcrete inp st) (nameOf inp b) = Some b"
proof -
  have "find (\<lambda>c. c \<notin> ssSummarized st \<and> nameOf inp c = nameOf inp b) (rev (cfg_blocks (aiCfg inp))) = Some b"
    by (rule find_unique) (use assms in \<open>auto simp: names_unique_def dest: inj_onD\<close>)
  then show ?thesis by (simp add: nameToBBConcrete_def foldl_put_names)
qed

text \<open>The pair of a node in the enumeration.\<close>

lemma enum_pair:
  assumes "distinct nodes" and "nodeIdByName nodes n = Some i"
  shows "(i, n) \<in> set (zip [0..<length nodes] nodes)"
    and "(j, n) \<in> set (zip [0..<length nodes] nodes) \<Longrightarrow> j = i"
    and "(i, m) \<in> set (zip [0..<length nodes] nodes) \<Longrightarrow> m = n"
proof -
  note i = nodeIdByName_Some [OF assms(2)]
  show "(i, n) \<in> set (zip [0..<length nodes] nodes)" using i by (auto simp: set_zip intro!: exI [of _ i])
  show "(j, n) \<in> set (zip [0..<length nodes] nodes) \<Longrightarrow> j = i"
    using i assms(1) by (auto simp: set_zip nth_eq_iff_index_eq)
  show "(i, m) \<in> set (zip [0..<length nodes] nodes) \<Longrightarrow> m = n" using i by (auto simp: set_zip)
qed

lemma abstractBlocks_distinct [simp]: "distinct (abstractBlocks inp st)"
  by (simp add: abstractBlocks_def)

lemma node_map_summary:
  assumes inv: "summaries_inv inp st" and dis: "disjoint_inv st" and nm: "names_unique inp"
    and b: "b \<in> set (cfg_blocks (aiCfg inp))" "(n, agg) \<in> set (ssSummaries st)" "b \<in> set (agBlocks agg)"
    and i: "nodeIdByName (abstractBlocks inp st) n = Some i" and e: "agEntry agg \<noteq> nullptr"
  shows "getNodeId (buildNodeMap inp st (abstractBlocks inp st)) b = i"
    and "getConcreteBlock (buildNodeMap inp st (abstractBlocks inp st)) i = agEntry agg"
proof -
  let ?ps = "zip [0..<length (abstractBlocks inp st)] (abstractBlocks inp st)"
  note pair = enum_pair [OF abstractBlocks_distinct i]
  have nn: "b \<noteq> nullptr" using nm b(1) by (metis names_unique_def)
  have S: "map_of (ssSummaries st) n = Some agg" using inv b(2) by (auto simp: summaries_inv_def intro: omap_wf_map_of_eq)
  have in_sum: "b \<in> ssSummarized st" by (rule disjoint_invD(1) [OF dis b(2,3)])
  have none: "find (\<lambda>p. map_of (ssSummaries st) (snd p) = None \<and> map_of (nameToBBConcrete inp st) (snd p) = Some b \<and> b \<noteq> nullptr) (rev ?ps) = None"
    using nameToBBConcrete_Some(2) in_sum unfolding find_None_iff by blast
  have sum: "find (\<lambda>p. (\<exists>agg. map_of (ssSummaries st) (snd p) = Some agg \<and> b \<in> set (agBlocks agg)) \<and> b \<noteq> nullptr) (rev ?ps) = Some (i, n)"
  proof (rule find_unique)
    fix p assume p: "p \<in> set (rev ?ps)" "(\<exists>agg. map_of (ssSummaries st) (snd p) = Some agg \<and> b \<in> set (agBlocks agg)) \<and> b \<noteq> nullptr"
    then obtain agg' where "(snd p, agg') \<in> set (ssSummaries st)" "b \<in> set (agBlocks agg')" using map_of_SomeD by metis
    then have "snd p = n" using disjoint_invD(2) [OF dis b(2) _ b(3)] by simp
    then show "p = (i, n)" using pair(2) [of "fst p"] p(1) by (metis prod.collapse set_rev)
  qed (use pair(1) S b(3) nn in simp_all)
  show "getNodeId (buildNodeMap inp st (abstractBlocks inp st)) b = i"
    unfolding getNodeId_def node_map_lookups none sum by simp
  have none: "find (\<lambda>p. i = fst p \<and> map_of (ssSummaries st) (snd p) = None \<and> (\<exists>b. map_of (nameToBBConcrete inp st) (snd p) = Some b \<and> b \<noteq> nullptr)) (rev ?ps) = None"
    unfolding find_None_iff
  proof
    assume "\<exists>p. p \<in> set (rev ?ps) \<and> i = fst p \<and> map_of (ssSummaries st) (snd p) = None
      \<and> (\<exists>b. map_of (nameToBBConcrete inp st) (snd p) = Some b \<and> b \<noteq> nullptr)"
    then obtain p where p: "p \<in> set ?ps" "i = fst p" "map_of (ssSummaries st) (snd p) = None" unfolding set_rev by blast
    then have "snd p = n" using pair(3) [of "snd p"] by simp
    with p(3) S show False by simp
  qed
  have rep: "find (\<lambda>p. i = fst p \<and> (\<exists>agg. map_of (ssSummaries st) (snd p) = Some agg \<and> agEntry agg \<noteq> nullptr)) (rev ?ps) = Some (i, n)"
  proof (rule find_unique)
    fix p assume "p \<in> set (rev ?ps)" "i = fst p \<and> (\<exists>agg. map_of (ssSummaries st) (snd p) = Some agg \<and> agEntry agg \<noteq> nullptr)"
    then show "p = (i, n)" using pair(3) [of "snd p"] by (simp add: prod_eq_iff)
  qed (use pair(1) S e in simp_all)
  show "getConcreteBlock (buildNodeMap inp st (abstractBlocks inp st)) i = agEntry agg"
    unfolding getConcreteBlock_def node_map_lookups none rep by (simp add: S)
qed

lemma node_map_concrete:
  assumes inv: "summaries_inv inp st" and fresh: "fresh_inv inp st" and nm: "names_unique inp"
    and b: "b \<in> set (cfg_blocks (aiCfg inp))" "\<And>n agg. (n, agg) \<in> set (ssSummaries st) \<Longrightarrow> b \<notin> set (agBlocks agg)"
    and i: "nodeIdByName (abstractBlocks inp st) (nameOf inp b) = Some i"
  shows "getNodeId (buildNodeMap inp st (abstractBlocks inp st)) b = i"
    and "getConcreteBlock (buildNodeMap inp st (abstractBlocks inp st)) i = b"
proof -
  let ?ps = "zip [0..<length (abstractBlocks inp st)] (abstractBlocks inp st)"
  note pair = enum_pair [OF abstractBlocks_distinct i]
  have nn: "b \<noteq> nullptr" using nm b(1) by (metis names_unique_def)
  have S: "map_of (ssSummaries st) (nameOf inp b) = None" using fresh b(1) by (auto simp: fresh_inv_def map_of_eq_None_iff)
  have "b \<notin> ssSummarized st" using inv b(2) unfolding summaries_inv_def by blast
  then have C: "map_of (nameToBBConcrete inp st) (nameOf inp b) = Some b" by (rule nameToBBConcrete_own [OF nm b(1)])
  have con: "find (\<lambda>p. map_of (ssSummaries st) (snd p) = None \<and> map_of (nameToBBConcrete inp st) (snd p) = Some b \<and> b \<noteq> nullptr) (rev ?ps) = Some (i, nameOf inp b)"
  proof (rule find_unique)
    fix p assume p: "p \<in> set (rev ?ps)" "map_of (ssSummaries st) (snd p) = None \<and> map_of (nameToBBConcrete inp st) (snd p) = Some b \<and> b \<noteq> nullptr"
    then have "snd p = nameOf inp b" using nameToBBConcrete_Some(1) by metis
    then show "p = (i, nameOf inp b)" using pair(2) [of "fst p"] p(1) by (metis prod.collapse set_rev)
  qed (use pair(1) S C nn in simp_all)
  then show "getNodeId (buildNodeMap inp st (abstractBlocks inp st)) b = i" unfolding getNodeId_def node_map_lookups by simp
  have "find (\<lambda>p. i = fst p \<and> map_of (ssSummaries st) (snd p) = None \<and> (\<exists>b. map_of (nameToBBConcrete inp st) (snd p) = Some b \<and> b \<noteq> nullptr)) (rev ?ps)
      = Some (i, nameOf inp b)"
  proof (rule find_unique)
    fix p assume "p \<in> set (rev ?ps)" "i = fst p \<and> map_of (ssSummaries st) (snd p) = None \<and> (\<exists>b. map_of (nameToBBConcrete inp st) (snd p) = Some b \<and> b \<noteq> nullptr)"
    then show "p = (i, nameOf inp b)" using pair(3) [of "snd p"] by (simp add: prod_eq_iff)
  qed (use pair(1) S C nn in simp_all)
  then show "getConcreteBlock (buildNodeMap inp st (abstractBlocks inp st)) i = b"
    unfolding getConcreteBlock_def node_map_lookups by (simp add: C)
qed

text \<open>The node number of a block, from its node's name.\<close>

lemma aggregate_entry:
  assumes "summary_of inp agg L b tc"
  shows "agEntry agg = (if lpPreheader L = nullptr then lpHeader L else lpPreheader L)" "agBlocks agg = summaryBlocks L"
  using assms by (auto simp: summary_of_def aggregateLoop_def Let_def)

lemma node_map_block:
  assumes inv: "summaries_inv inp st" and dis: "disjoint_inv st" and fresh: "fresh_inv inp st" and nm: "names_unique inp"
    and entries: "\<forall>n agg. (n, agg) \<in> set (ssSummaries st) \<longrightarrow> agEntry agg \<noteq> nullptr"
    and b: "b \<in> set (cfg_blocks (aiCfg inp))"
  obtains i where "nodeIdByName (abstractBlocks inp st) (concreteToAbstract inp st b) = Some i"
    "getNodeId (buildNodeMap inp st (abstractBlocks inp st)) b = i"
    "getConcreteBlock (buildNodeMap inp st (abstractBlocks inp st)) i =
       (case find (\<lambda>(n, agg). b \<in> set (agBlocks agg)) (ssSummaries st) of Some (n, agg) \<Rightarrow> agEntry agg | None \<Rightarrow> b)"
proof -
  obtain i where i: "nodeIdByName (abstractBlocks inp st) (concreteToAbstract inp st b) = Some i"
    using nodeIdByName_mem [OF node_of_block [OF b]] by blast
  show thesis
  proof (cases "find (\<lambda>(n, agg). b \<in> set (agBlocks agg)) (ssSummaries st)")
    case None
    then have out: "b \<notin> set (agBlocks agg)" if "(n, agg) \<in> set (ssSummaries st)" for n agg using that by (auto simp: find_None_iff)
    show ?thesis using node_map_concrete [OF inv fresh nm b out, where i = i] i node_outside [OF out] that [OF i] None by simp
  next
    case (Some p)
    obtain n agg where p: "p = (n, agg)" by (cases p)
    from find_someD [OF Some] have s: "(n, agg) \<in> set (ssSummaries st)" "b \<in> set (agBlocks agg)" by (auto simp: p)
    then show ?thesis
      using node_map_summary [OF inv dis nm b s] entries s(1) node_in_summary [OF dis s] i that [OF i] Some p by simp
  qed
qed

section \<open>Edges\<close>

lemma view_edges:
  "set (getEdges (abstractView inp st)) =
     {(i, j). \<exists>a b. (a, b) \<in> set (abstractEdges inp st) \<and> nodeIdByName (abstractBlocks inp st) a = Some i
        \<and> nodeIdByName (abstractBlocks inp st) b = Some j}"
  unfolding abstractView_def Let_def by (auto split: option.splits) force

lemma edge_in_view:
  assumes "(s, d) \<in> set (cfg_edges (aiCfg inp))" and "(concreteToAbstract inp st s, concreteToAbstract inp st d) \<in> set (abstractEdge inp st (s, d))"
    and "nodeIdByName (abstractBlocks inp st) (concreteToAbstract inp st s) = Some i"
    and "nodeIdByName (abstractBlocks inp st) (concreteToAbstract inp st d) = Some j"
  shows "(i, j) \<in> set (getEdges (abstractView inp st))"
proof -
  have "(concreteToAbstract inp st s, concreteToAbstract inp st d) \<in> set (abstractEdges inp st)"
    unfolding abstractEdges_def firstOccurrences_simps set_concat set_map using assms(1,2) by blast
  with assms(3,4) show ?thesis unfolding view_edges by blast
qed

lemma same_node:
  assumes inv: "summaries_inv inp st" and dis: "disjoint_inv st" and fresh: "fresh_inv inp st" and nm: "names_unique inp"
    and b: "s \<in> set (cfg_blocks (aiCfg inp))" "d \<in> set (cfg_blocks (aiCfg inp))"
    and eq: "concreteToAbstract inp st s = concreteToAbstract inp st d"
  shows "(\<exists>n agg. (n, agg) \<in> set (ssSummaries st) \<and> s \<in> set (agBlocks agg) \<and> d \<in> set (agBlocks agg))
    \<or> s = d \<and> concreteToAbstract inp st s = nameOf inp s"
proof -
  have fr: "nameOf inp x \<notin> fst ` set (ssSummaries st)" if "x \<in> set (cfg_blocks (aiCfg inp))" for x
    using fresh that by (auto simp: fresh_inv_def)
  have uniq: "agg' = agg" if "(n, agg) \<in> set (ssSummaries st)" "(n, agg') \<in> set (ssSummaries st)" for n agg agg'
  proof -
    have "omap_wf (ssSummaries st)" using inv by (simp add: summaries_inv_def)
    from omap_wf_map_of_eq [OF this that(1)] omap_wf_map_of_eq [OF this that(2)] show ?thesis by simp
  qed
  from concreteToAbstract_cases [of inp st s] concreteToAbstract_cases [of inp st d] show ?thesis
  proof (elim disjE exE conjE)
    fix agg agg'
    assume "(concreteToAbstract inp st s, agg) \<in> set (ssSummaries st)" "s \<in> set (agBlocks agg)"
      "(concreteToAbstract inp st d, agg') \<in> set (ssSummaries st)" "d \<in> set (agBlocks agg')"
    then show ?thesis using uniq eq by metis
  next
    fix agg assume "(concreteToAbstract inp st s, agg) \<in> set (ssSummaries st)" "concreteToAbstract inp st d = nameOf inp d"
    then show ?thesis using fr [OF b(2)] eq by (metis fst_conv image_eqI)
  next
    fix agg assume "(concreteToAbstract inp st d, agg) \<in> set (ssSummaries st)" "concreteToAbstract inp st s = nameOf inp s"
    then show ?thesis using fr [OF b(1)] eq by (metis fst_conv image_eqI)
  next
    assume "concreteToAbstract inp st s = nameOf inp s" "concreteToAbstract inp st d = nameOf inp d"
    then show ?thesis using nm b eq by (auto simp: names_unique_def dest: inj_onD)
  qed
qed

lemma enters_at_entry:
  assumes facts: "loop_facts inp" and inv: "summaries_inv inp st" and dis: "disjoint_inv st"
    and e: "(s, d) \<in> set (cfg_edges (aiCfg inp))" and ne: "concreteToAbstract inp st s \<noteq> concreteToAbstract inp st d"
    and agg: "(n, agg) \<in> set (ssSummaries st)" "d \<in> set (agBlocks agg)"
  shows "agEntry agg = d"
proof -
  obtain L b tc where sum: "summary_of inp agg L b tc" using inv agg(1) unfolding summaries_inv_def by blast
  note a = aggregate_entry [OF sum]
  have L: "L \<in> set (collectOutermostFirst (aiLoops inp))" using sum by (simp add: summary_of_def)
  have s: "s \<notin> set (summaryBlocks L)"
    using node_in_summary [OF dis agg(1)] agg(2) ne a(2) by metis
  show ?thesis
  proof (cases "d \<in> set (lpBlocks L)")
    case True
    with s have "d = lpHeader L" "lpPreheader L \<noteq> nullptr \<longrightarrow> s = lpPreheader L"
      using loop_factsD(4) [OF facts L e True] by (auto simp: summaryBlocks_def)
    then show ?thesis using s a(1) by (auto simp: summaryBlocks_def split: if_split_asm)
  next
    case False
    then show ?thesis using agg(2) a by (auto simp: summaryBlocks_def split: if_split_asm)
  qed
qed

section \<open>Properties\<close>

text \<open>(C31) The abstract graph simulates the function. The entry block's node is the entry node. An edge between
  blocks of different nodes is an edge between the nodes, and leads to the block that represents its node,
  where the instrumenter puts the boundary; an edge between blocks of the same node stays inside a summary, or is
  a loop of a single block that the graph keeps.\<close>
theorem buildAbstractCFG_simulates:
  assumes ok: "pass_input_ok inp counts names est" and facts: "loop_facts inp" and nm: "names_unique inp"
  shows "\<exists>a st. summarizeLoops inp = Some st \<and> buildAbstractCFG inp = Some a
    \<and> getNodeId (acNodeMap a) (cfg_entryBlock (aiCfg inp)) = getEntryBlock (acView a)
    \<and> (\<forall>s d. (s, d) \<in> set (cfg_edges (aiCfg inp)) \<longrightarrow>
         (let i = getNodeId (acNodeMap a) s; j = getNodeId (acNodeMap a) d
          in if i = j
             then (\<exists>n agg. (n, agg) \<in> set (ssSummaries st) \<and> s \<in> set (agBlocks agg) \<and> d \<in> set (agBlocks agg))
                  \<or> s = d \<and> (i, i) \<in> set (getEdges (acView a))
             else (i, j) \<in> set (getEdges (acView a)) \<and> getConcreteBlock (acNodeMap a) j = d))"
proof -
  from pass_input_okD(10) [OF ok] facts obtain st where st: "summarizeLoops inp = Some st" and inv: "summaries_inv inp st"
    and dis: "disjoint_inv st" and fresh: "fresh_inv inp st" by (rule summarizeLoops_disjoint)
  note cfg = pass_input_okD(4) [OF ok]
  let ?nm = "buildNodeMap inp st (abstractBlocks inp st)" and ?node = "concreteToAbstract inp st" and ?V = "abstractView inp st"
  have entries: "\<forall>n agg. (n, agg) \<in> set (ssSummaries st) \<longrightarrow> agEntry agg \<noteq> nullptr"
  proof (intro allI impI)
    fix n agg
    assume "(n, agg) \<in> set (ssSummaries st)"
    with inv obtain L b tc where sum: "summary_of inp agg L b tc" unfolding summaries_inv_def by blast
    then show "agEntry agg \<noteq> nullptr" using aggregate_entry(1) [OF sum] loop_factsD(5) [OF facts] by (simp add: summary_of_def)
  qed
  note block = node_map_block [OF inv dis fresh nm entries]
  have entry: "cfg_entryBlock (aiCfg inp) \<in> set (cfg_blocks (aiCfg inp))"
    using pass_input_okD(5) [OF ok] unfolding cfg analyzeCFG_facts by (simp add: irEntry_def)
  then obtain k where "nodeIdByName (abstractBlocks inp st) (?node (cfg_entryBlock (aiCfg inp))) = Some k"
    "getNodeId ?nm (cfg_entryBlock (aiCfg inp)) = k" by (rule block)
  then have ent: "getNodeId ?nm (cfg_entryBlock (aiCfg inp)) = getEntryBlock ?V" by (simp add: abstractView_def Let_def)
  have edges: "if getNodeId ?nm s = getNodeId ?nm d
      then (\<exists>n agg. (n, agg) \<in> set (ssSummaries st) \<and> s \<in> set (agBlocks agg) \<and> d \<in> set (agBlocks agg))
           \<or> s = d \<and> (getNodeId ?nm s, getNodeId ?nm s) \<in> set (getEdges ?V)
      else (getNodeId ?nm s, getNodeId ?nm d) \<in> set (getEdges ?V) \<and> getConcreteBlock ?nm (getNodeId ?nm d) = d"
    if e: "(s, d) \<in> set (cfg_edges (aiCfg inp))" for s d
  proof -
    from e have "s \<in> set (irBlocks (aiFunction inp))" "d \<in> set (ifSuccs (aiFunction inp) s)" unfolding cfg analyzeCFG_facts by auto
    then have b: "s \<in> set (cfg_blocks (aiCfg inp))" "d \<in> set (cfg_blocks (aiCfg inp))"
      using pass_input_okD(7) [OF ok] unfolding cfg analyzeCFG_facts by auto
    from b(1) obtain i where i: "nodeIdByName (abstractBlocks inp st) (?node s) = Some i" "getNodeId ?nm s = i" by (rule block)
    from b(2) obtain j where j: "nodeIdByName (abstractBlocks inp st) (?node d) = Some j" "getNodeId ?nm d = j"
      "getConcreteBlock ?nm j = (case find (\<lambda>(n, agg). d \<in> set (agBlocks agg)) (ssSummaries st) of Some (n, agg) \<Rightarrow> agEntry agg | None \<Rightarrow> d)"
      by (rule block)
    have ij: "i = j \<longleftrightarrow> ?node s = ?node d" using nodeIdByName_Some [OF i(1)] nodeIdByName_Some [OF j(1)] i(1) j(1) by auto
    show ?thesis
    proof (cases "?node s = ?node d")
      case True
      have "s = d \<and> ?node s = nameOf inp s \<Longrightarrow> (i, i) \<in> set (getEdges ?V)"
        using edge_in_view [OF e, of st i i] i(1) by (auto simp: abstractEdge_def Let_def)
      then show ?thesis using same_node [OF inv dis fresh nm b True] ij True i(2) j(2) by auto
    next
      case False
      have "(i, j) \<in> set (getEdges ?V)" by (rule edge_in_view [OF e _ i(1) j(1)]) (use False in \<open>simp add: abstractEdge_def Let_def\<close>)
      moreover have "getConcreteBlock ?nm j = d"
      proof (cases "find (\<lambda>(n, agg). d \<in> set (agBlocks agg)) (ssSummaries st)")
        case (Some p)
        from find_someD [OF Some] show ?thesis
          using enters_at_entry [OF facts inv dis e False, of "fst p" "snd p"] j(3) Some by (cases p) simp
      qed (use j(3) in simp)
      ultimately show ?thesis using ij False i(2) j(2) by simp
    qed
  qed
  from st obtain a where a: "buildAbstractCFG inp = Some a" "acNodeMap a = ?nm" "acView a = ?V"
    by (simp add: buildAbstractCFG_def Let_def)
  show ?thesis
    by (rule exI [of _ a], rule exI [of _ st], unfold Let_def a(2,3), intro conjI allI impI) (rule st a(1) ent | erule edges)+
qed

lemma sample_edges: "cfg_edges (aiCfg sample_abs_input) = [(9, 1), (1, 2), (1, 3), (2, 4), (3, 3), (3, 4), (4, 1), (4, 5)]"
  by (simp add: sample_abs_input_def analyzeCFG_facts sample_loop_fn_def irBlocks_def sample_succs_def)

lemma sample_blocks: "cfg_blocks (aiCfg sample_abs_input) = [9, 1, 2, 3, 4, 5]" "cfg_entryBlock (aiCfg sample_abs_input) = 9"
  by (simp_all add: sample_abs_input_def analyzeCFG_facts sample_loop_fn_def irBlocks_def irEntry_def)

lemma sample_loop_facts: "loop_facts sample_abs_input"
proof -
  have "aiLoops sample_abs_input = [sample_outer]" by (simp add: sample_abs_input_def)
  then show ?thesis unfolding loop_facts_def sample_edges
    by (simp add: sample_loops) (auto simp: sample_outer_def sample_inner_def)
qed

lemma sample_names_unique: "names_unique sample_abs_input"
proof -
  have "nameOf sample_abs_input b = sample_names b" if "b \<in> {9, 1, 2, 3, 4, 5}" for b
    using that by (auto simp: nameOf_def sample_abs_input_def analyzeCFG_facts sample_loop_fn_def irBlocks_def)
  moreover have "b = c" if "sample_names b = sample_names c" for b c using that by (simp add: sample_names_def replicate_eq_replicate)
  ultimately have "inj_on (nameOf sample_abs_input) {9, 1, 2, 3, 4, 5}" by (intro inj_onI) metis
  then show ?thesis by (simp add: names_unique_def sample_blocks)
qed

theorem buildAbstractCFG_simulates_witness:
  "\<exists>a. buildAbstractCFG sample_abs_input = Some a \<and> getNodeId (acNodeMap a) 9 = getEntryBlock (acView a)
     \<and> (getNodeId (acNodeMap a) 4 \<noteq> getNodeId (acNodeMap a) 5 \<longrightarrow>
          (getNodeId (acNodeMap a) 4, getNodeId (acNodeMap a) 5) \<in> set (getEdges (acView a)))"
proof -
  from buildAbstractCFG_simulates [OF sample_input_ok sample_loop_facts sample_names_unique]
  obtain a where a: "buildAbstractCFG sample_abs_input = Some a" "getNodeId (acNodeMap a) 9 = getEntryBlock (acView a)"
    "(4, 5) \<in> set (cfg_edges (aiCfg sample_abs_input)) \<longrightarrow> (let i = getNodeId (acNodeMap a) 4; j = getNodeId (acNodeMap a) 5
          in if i = j then (\<exists>n agg. (n, agg) \<in> set (ssSummaries (the (summarizeLoops sample_abs_input))) \<and> 4 \<in> set (agBlocks agg) \<and> 5 \<in> set (agBlocks agg))
                  \<or> 4 = (5 :: nat) \<and> (i, i) \<in> set (getEdges (acView a))
             else (i, j) \<in> set (getEdges (acView a)) \<and> getConcreteBlock (acNodeMap a) j = 5)"
    unfolding sample_blocks by (metis option.sel)
  then show ?thesis unfolding sample_edges Let_def by (intro exI [of _ a]) (simp split: if_split_asm)
qed

section \<open>Energy of a summary\<close>

lemma sum_costs_nonneg:
  assumes "params_ok p" and "computeBoundaryStateMarginOnPath F env sa p bs = (restore, commit)"
  shows "0 \<le> restore" "0 \<le> commit"
  using assms unfolding computeBoundaryStateMarginOnPath_def Let_def params_ok_def
  by (auto intro!: sum_nonneg simp: getRestoreCostForValue_def getSaveCostForValue_def simp del: of_nat_unat)

lemma nvmPenaltyIn_nonneg: "params_ok p \<Longrightarrow> 0 \<le> nvmPenaltyIn sa p b"
  unfolding nvmPenaltyIn_def params_ok_def by (auto intro!: sum_list_nonneg simp del: of_nat_unat)

lemma computeSummaryBudget_margins:
  assumes "computeSummaryBudget be succ F env sa p L = Some (Inr b)" and "params_ok p"
  shows "sbBudgetAfterBoundary b \<le> energyBudget p" "0 \<le> totalNvmPenalty b tc"
proof -
  let ?blocks = "if lpPreheader L = nullptr then sbPathBlocks b else insert (lpPreheader L) (sbPathBlocks b)"
  have "computeBoundaryStateMarginOnPath F env sa p ?blocks = (sbRestoreMargin b, sbCommitMargin b)"
    using assms(1) by (auto simp: computeSummaryBudget_def Let_def split: if_split_asm option.splits sum.splits prod.splits)
  from sum_costs_nonneg [OF assms(2) this] computeSummaryBudget_Inr(6) [OF assms(1)]
  show "sbBudgetAfterBoundary b \<le> energyBudget p" by simp
  show "0 \<le> totalNvmPenalty b tc"
    unfolding totalNvmPenalty_def computeSummaryBudget_Inr(4,5) [OF assms(1)] using nvmPenaltyIn_nonneg [OF assms(2)]
    by (auto intro!: add_nonneg_nonneg mult_nonneg_nonneg sum_nonneg simp del: of_nat_unat)
qed

text \<open>(C32) The energy of a summary covers every run of its loop: the preheader and up to trip-count iterations, each
  with its sub-loops running up to their trip counts, with all globals in VM. It is below the energy budget, so the
  whole loop fits one charge.\<close>
theorem summaries_cover_runs:
  assumes ok: "pass_input_ok inp counts names est" and "summarizeLoops inp = Some st" and mem: "(n, agg) \<in> set (ssSummaries st)"
  shows "\<exists>L tc. L \<in> set (collectOutermostFirst (aiLoops inp)) \<and> agBlocks agg = summaryBlocks L \<and> loopTripCount L = Some tc
    \<and> (\<forall>cs. length cs \<le> unat tc
          \<and> (\<forall>c \<in> set cs. iterationCost (blockEnergyByBB (aiCfg inp)) (ifSuccs (aiFunction inp)) summarySubLoopTripCount L c) \<longrightarrow>
          (if lpPreheader L = nullptr then 0 else omap_get 0 (blockEnergyByBB (aiCfg inp)) (lpPreheader L)) + sum_list cs \<le> agPathEnergy agg)
    \<and> agPathEnergy agg < energyBudget (emParams (aiEnergy inp))"
proof -
  from pass_input_okD(10) [OF ok] obtain st' where "summarizeLoops inp = Some st'" "summaries_inv inp st'" by (rule summarizeLoops_inv)
  then have "summaries_inv inp st" using assms(2) by simp
  then obtain L b tc where sum: "summary_of inp agg L b tc" using mem unfolding summaries_inv_def by blast
  then have b: "computeSummaryBudget (blockEnergyByBB (aiCfg inp)) (ifSuccs (aiFunction inp)) (aiFunction inp) (aiEnv inp) (aiState inp)
      (emParams (aiEnergy inp)) L = Some (Inr b)" and fits: "summaryFits b tc" and L: "L \<in> set (collectOutermostFirst (aiLoops inp))"
      "loopTripCount L = Some tc" and agg: "agPathEnergy agg = totalBaseEnergy b tc"
    by (auto simp: summary_of_def aggregateLoop_def Let_def)
  have nonneg: "\<forall>x. 0 \<le> omap_get 0 (blockEnergyByBB (aiCfg inp)) x"
    using pass_input_okD(6) [OF ok] unfolding blockEnergyByBB_get pass_input_okD(4) [OF ok] analyzeCFG_facts by (auto intro: less_imp_le)
  have "(if lpPreheader L = nullptr then 0 else omap_get 0 (blockEnergyByBB (aiCfg inp)) (lpPreheader L)) + sum_list cs \<le> agPathEnergy agg"
    if "length cs \<le> unat tc" "\<forall>c \<in> set cs. iterationCost (blockEnergyByBB (aiCfg inp)) (ifSuccs (aiFunction inp)) summarySubLoopTripCount L c" for cs
    using summary_run_bound [OF b nonneg that(2,1)] computeSummaryBudget_Inr(3) [OF b] unfolding agg totalBaseEnergy_def by simp
  moreover have "agPathEnergy agg < energyBudget (emParams (aiEnergy inp))"
    using fits computeSummaryBudget_margins(1) [OF b pass_input_okD(3) [OF ok]]
      computeSummaryBudget_margins(2) [OF b pass_input_okD(3) [OF ok], where tc = tc] unfolding agg summaryFits_def by linarith
  ultimately show ?thesis using L aggregate_entry(2) [OF sum] by blast
qed

lemma sample_sa_empty: "saVMObjs sample_sa = []" "saIneligible sample_sa = []" "saEligLiveIn sample_sa b = {}" "saIneligLiveIn sample_sa b = {}"
proof -
  have [simp]: "irInsts sample_loop_fn = []" by (simp add: irInsts_def sample_loop_fn_def comp_def)
  show vm: "saVMObjs sample_sa = []"
    using runStateAnalysis_facts(1) [OF sample_state] by (simp add: directlyAccessedGlobals_def)
  show ie: "saIneligible sample_sa = []"
    using ineligible_insts [OF sample_state] by (metis \<open>irInsts sample_loop_fn = []\<close> empty_iff image_empty list.set(1) set_empty2 subsetI subset_empty)
  show "saEligLiveIn sample_sa b = {}" "saIneligLiveIn sample_sa b = {}"
    using runStateAnalysis_facts(3,4) [OF sample_state, of b] vm ie by simp_all
qed

lemma sample_block_energy: "blockEnergyByBB (aiCfg sample_abs_input) = [(1, 1), (2, 10), (3, 4), (4, 2), (5, 1), (9, 3)]"
  by (simp add: blockEnergyByBB_def sample_blocks sample_abs_input_def analyzeCFG_facts sample_loop_fn_def irBlocks_def sample_cost_def
      sample_energies_def omap_get_def)

lemma sample_worst_loop:
  "computeWorstCaseSummaryPath [(1, 1), (2, 10), (3, 4), (4, 2), (5, 1), (9, 3)] (ifSuccs sample_loop_fn) sample_outer = Some (Inr (23, {1, 3, 4}))"
  by code_simp

lemma sample_loop_budget:
  obtains b where "computeSummaryBudget (blockEnergyByBB (aiCfg sample_abs_input)) (ifSuccs sample_loop_fn) sample_loop_fn sample_ir_env sample_sa
      sample_milp_params sample_outer = Some (Inr b)" "summaryFits b 7"
proof -
  have pen: "nvmPenaltyIn sample_sa sample_milp_params x = 0" for x by (simp add: nvmPenaltyIn_def sample_sa_empty)
  have margin: "computeBoundaryStateMarginOnPath sample_loop_fn sample_ir_env sample_sa sample_milp_params bs = (0, 0)" for bs
    by (simp add: computeBoundaryStateMarginOnPath_def sample_sa_empty)
  have budget: "energyBudget sample_milp_params = 297" by (simp add: energyBudget_def sample_milp_params_def sample_mp_def)
  have pre: "lpPreheader sample_outer = 9" by (simp add: sample_outer_def)
  let ?b = "\<lparr>sbPathEnergy = 23, sbPathBlocks = {1, 3, 4}, sbPerIterNvmPenalty = 0, sbPreheaderEnergy = 3, sbPreheaderNvmPenalty = 0,
    sbRestoreMargin = 0, sbCommitMargin = 0, sbBudgetAfterBoundary = 297\<rparr>"
  have "computeSummaryBudget (blockEnergyByBB (aiCfg sample_abs_input)) (ifSuccs sample_loop_fn) sample_loop_fn sample_ir_env sample_sa
      sample_milp_params sample_outer = Some (Inr ?b)"
    unfolding computeSummaryBudget_def sample_block_energy sample_worst_loop margin by (simp add: budget pen pre margin Let_def omap_get_def)
  moreover have "summaryFits ?b 7" by (simp add: summaryFits_def totalBaseEnergy_def totalNvmPenalty_def)
  ultimately show thesis by (rule that)
qed

lemma sample_summarized:
  obtains st n agg where "summarizeLoops sample_abs_input = Some st" "(n, agg) \<in> set (ssSummaries st)"
proof -
  let ?inp = sample_abs_input
  obtain b where b: "computeSummaryBudget (blockEnergyByBB (aiCfg ?inp)) (ifSuccs sample_loop_fn) sample_loop_fn sample_ir_env sample_sa
      sample_milp_params sample_outer = Some (Inr b)" "summaryFits b 7" by (rule sample_loop_budget)
  have par: "emParams sample_em = sample_milp_params" using buildEnergyModel_Inr(1) [OF sample_energy] .
  have "\<not> energyBudget sample_milp_params \<le> 0" by (simp add: energyBudget_def sample_milp_params_def sample_mp_def)
  moreover have "loopTripCount sample_outer = Some 7" "lpHeader sample_outer \<noteq> nullptr" "lpLatch sample_outer \<noteq> nullptr" "\<not> lpHasInvoke sample_outer"
    by (simp_all add: sample_outer_def loopTripCount_def)
  moreover have "\<not> overlapsSelected sample_outer (ssSummarized (countLoop sample_outer (initialSummaries ?inp)))"
    by (simp add: overlapsSelected_def countLoop_def initialSummaries_def list_ex_iff)
  ultimately obtain x where x: "summarizeLoop ?inp (initialSummaries ?inp) sample_outer = Some (addSummary ?inp sample_outer b 7 x)"
    using b by (simp add: summarizeLoop_def Let_def sample_abs_input_def par)
  have over: "overlapsSelected sample_inner (ssSummarized (countLoop sample_inner (addSummary ?inp sample_outer b 7 x)))"
    by (simp add: overlapsSelected_def countLoop_def addSummary_def Let_def summaryBlocks_def sample_outer_def sample_inner_def)
  obtain y where y: "summarizeLoop ?inp (addSummary ?inp sample_outer b 7 x) sample_inner = Some y"
      "ssSummaries y = ssSummaries (addSummary ?inp sample_outer b 7 x)"
    using summarizeLoop_cases [of ?inp "addSummary ?inp sample_outer b 7 x" sample_inner]
  proof cases
    case (skipped st')
    then show ?thesis using that by (auto simp: only_stats_def)
  next
    case (added b' tc st')
    then show ?thesis using over by (simp add: countLoop_def)
  qed
  have loops: "collectOutermostFirst (aiLoops ?inp) = [sample_outer, sample_inner]"
    by (simp add: sample_abs_input_def sample_loops)
  have "summarizeLoops ?inp = Some y" unfolding summarizeLoops_def loops using x y(1) by simp
  moreover have "makeUniqueSummaryNodeName (nameOf ?inp (lpHeader sample_outer)) (ssUsedNames x) \<in> fst ` set (ssSummaries y)"
    unfolding y(2) by (simp add: addSummary_def Let_def fst_set_omap_put)
  ultimately show thesis using that by fastforce
qed

theorem summaries_cover_runs_witness:
  "\<exists>st n agg. summarizeLoops sample_abs_input = Some st \<and> (n, agg) \<in> set (ssSummaries st) \<and> agPathEnergy agg < energyBudget sample_milp_params"
proof -
  obtain st n agg where s: "summarizeLoops sample_abs_input = Some st" "(n, agg) \<in> set (ssSummaries st)" by (rule sample_summarized)
  have "emParams (aiEnergy sample_abs_input) = sample_milp_params"
    using buildEnergyModel_Inr(1) [OF sample_energy] by (simp add: sample_abs_input_def)
  with summaries_cover_runs [OF sample_input_ok s] s show ?thesis by auto
qed

end
