(* ===== verification/MachineLiveness.thy ===== *)
theory MachineLiveness
  imports Rounds
begin

text \<open>
  The machine-level liveness analysis of the RockClimb backend
  (\<open>rockclimb-backend/MachineLivenessAnalysis.cpp\<close>) and the view of LLVM machine functions that
  all theories of the backend share.

  A \<open>MachineFunction\<close> is its name and its blocks in layout order; a block is known by its number and
  carries its instructions and its successor and predecessor lists; an instruction carries the
  operands and the LLVM predicates the backend asks for. The target description (which registers
  overlap, which are reserved) and the register numbers resolved by \<open>MSP430Constants\<close> are the record
  \<open>target_env\<close>; \<open>target_ok\<close> states what the backend relies on.

  The backend decides liveness twice. \<open>isRegLiveFromBlock\<close> walks forward from a block and is shown to
  answer exactly the path question (a use with no earlier definition on some path).
  \<open>computeBulkLiveIn\<close> iterates data-flow equations; it is shown to terminate, never to claim a
  register live that is not, and to agree with the walk when no instruction lists a definition of a
  register before a use of it. Without that restriction it misses uses.
\<close>

section \<open>Machine functions\<close>

type_synonym phys_reg = nat
type_synonym mbb_ptr = nat

datatype GlobalRef = FunctionRef (globalName: string) (isDeclaration: bool) | OtherGlobal (globalName: string)

datatype MachineOperand =
    RegOperand (moReg: phys_reg) (moDef: bool) (moUndef: bool)
  | GlobalOperand (moGlobal: GlobalRef) (moOffset: int)
  | SymbolOperand (moSymbol: string)
  | ConstantPoolOperand
  | BlockAddressOperand
  | JumpTableOperand
  | FrameIndexOperand
  | OtherOperand

record MachineInstr =
  mi_id :: nat
  opName :: string
  operands :: "MachineOperand list"
  isCall :: bool
  isInlineAsm :: bool
  isBranch :: bool
  isTerminator :: bool
  isPHI :: bool
  isPseudo :: bool
  isDebugInstr :: bool
  isImplicitDef :: bool
  isKill :: bool
  isLabel :: bool

record MachineBasicBlock =
  instrs :: "MachineInstr list"
  succs :: "mbb_ptr list"
  preds :: "mbb_ptr list"
  isReturnBlock :: bool

record MachineFunction =
  mf_name :: string
  mf_blocks :: "(mbb_ptr \<times> MachineBasicBlock) list"

record target_env =
  regsOverlap :: "phys_reg \<Rightarrow> phys_reg \<Rightarrow> bool"
  isPhysical :: "phys_reg \<Rightarrow> bool"
  isReserved :: "phys_reg \<Rightarrow> bool"
  regR4 :: phys_reg
  regR15 :: phys_reg

definition noMBB :: MachineBasicBlock where
  "noMBB = \<lparr>instrs = [], succs = [], preds = [], isReturnBlock = False\<rparr>"

definition mbbAt :: "MachineFunction \<Rightarrow> mbb_ptr \<Rightarrow> MachineBasicBlock" where
  "mbbAt mf b = omap_get noMBB (mf_blocks mf) b"

definition layout :: "MachineFunction \<Rightarrow> mbb_ptr list" where
  "layout mf = map fst (mf_blocks mf)"

definition gprs :: "target_env \<Rightarrow> phys_reg list" where
  "gprs t = [regR4 t ..< Suc (regR15 t)]"

fun isUse :: "MachineOperand \<Rightarrow> bool" where
  "isUse (RegOperand r d u) = (\<not> d)"
| "isUse _ = False"

fun isDef :: "MachineOperand \<Rightarrow> bool" where
  "isDef (RegOperand r d u) = d"
| "isDef _ = False"

text \<open>A register operand on a physical register, with its register.\<close>

fun physReg :: "target_env \<Rightarrow> MachineOperand \<Rightarrow> phys_reg option" where
  "physReg t (RegOperand r d u) = (if isPhysical t r then Some r else None)"
| "physReg t _ = None"

section \<open>Scanning one block\<close>

datatype RegScanResult = UsedFirst | DefinedFirst | Neither

definition touches :: "target_env \<Rightarrow> phys_reg \<Rightarrow> MachineOperand \<Rightarrow> bool" where
  "touches t reg mo = (case physReg t mo of None \<Rightarrow> False | Some r \<Rightarrow> regsOverlap t r reg)"

definition readsReg :: "target_env \<Rightarrow> phys_reg \<Rightarrow> MachineInstr \<Rightarrow> bool" where
  "readsReg t reg mi = list_ex (\<lambda>mo. touches t reg mo \<and> isUse mo \<and> \<not> moUndef mo) (operands mi)"

definition writesReg :: "target_env \<Rightarrow> phys_reg \<Rightarrow> MachineInstr \<Rightarrow> bool" where
  "writesReg t reg mi = list_ex (\<lambda>mo. touches t reg mo \<and> isDef mo) (operands mi)"

fun scanInstrs :: "target_env \<Rightarrow> phys_reg \<Rightarrow> MachineInstr list \<Rightarrow> RegScanResult" where
  "scanInstrs t reg [] = Neither"
| "scanInstrs t reg (mi # mis) =
     (if readsReg t reg mi then UsedFirst
      else if writesReg t reg mi then DefinedFirst
      else scanInstrs t reg mis)"

definition scanBlockForReg :: "MachineFunction \<Rightarrow> target_env \<Rightarrow> mbb_ptr \<Rightarrow> phys_reg \<Rightarrow> RegScanResult" where
  "scanBlockForReg mf t b reg = scanInstrs t reg (instrs (mbbAt mf b))"

section \<open>The forward walk\<close>

lemma mbbAt_outside: "b \<notin> set (layout mf) \<Longrightarrow> mbbAt mf b = noMBB"
  by (auto simp: mbbAt_def layout_def omap_get_def map_of_eq_None_iff [THEN iffD2])

lemma succs_outside [simp]: "b \<notin> set (layout mf) \<Longrightarrow> succs (mbbAt mf b) = []"
  by (simp add: mbbAt_outside noMBB_def)

lemma preds_outside [simp]: "b \<notin> set (layout mf) \<Longrightarrow> preds (mbbAt mf b) = []"
  by (simp add: mbbAt_outside noMBB_def)

text \<open>The measure shared by the walks over a machine function: unvisited blocks, then pending ones.\<close>

lemma unvisited_decreases:
  assumes "b \<notin> visited" and "b \<notin> set (layout mf) \<Longrightarrow> extra = []"
  shows "card (set (layout mf) - insert b visited) < card (set (layout mf) - visited)
    \<or> card (set (layout mf) - insert b visited) = card (set (layout mf) - visited) \<and> extra = []"
proof (cases "b \<in> set (layout mf)")
  case True
  with assms have "set (layout mf) - insert b visited \<subset> set (layout mf) - visited" by auto
  then show ?thesis by (simp add: psubset_card_mono)
next
  case False
  then have "set (layout mf) - insert b visited = set (layout mf) - visited" by auto
  with False assms show ?thesis by simp
qed

function liveWalk ::
  "MachineFunction \<Rightarrow> target_env \<Rightarrow> phys_reg \<Rightarrow> mbb_ptr set \<Rightarrow> mbb_ptr list \<Rightarrow> bool" where
  "liveWalk mf t reg visited [] = False"
| "liveWalk mf t reg visited (b # worklist) =
     (if b \<in> visited then liveWalk mf t reg visited worklist
      else case scanBlockForReg mf t b reg of
             UsedFirst \<Rightarrow> True
           | DefinedFirst \<Rightarrow> liveWalk mf t reg (insert b visited) worklist
           | Neither \<Rightarrow> liveWalk mf t reg (insert b visited) (rev (succs (mbbAt mf b)) @ worklist))"
  by pat_completeness auto
termination
proof (relation "measures [\<lambda>(mf, t, r, v, w). card (set (layout mf) - v), \<lambda>(mf, t, r, v, w). length w]",
    goal_cases)
  case (3 mf t reg visited b worklist)
  then show ?case using unvisited_decreases [of b visited mf "[]"] by auto
next
  case (4 mf t reg visited b worklist)
  then show ?case using unvisited_decreases [of b visited mf "succs (mbbAt mf b)"] by auto
qed auto

definition isRegLiveFromBlock :: "MachineFunction \<Rightarrow> target_env \<Rightarrow> mbb_ptr \<Rightarrow> phys_reg \<Rightarrow> bool" where
  "isRegLiveFromBlock mf t startMBB reg = liveWalk mf t reg {} [startMBB]"

section \<open>The bulk analysis\<close>

text \<open>The 16-bit register a sub-register belongs to: the first of R4 to R15 that overlaps it.\<close>

definition overlappingGpr :: "target_env \<Rightarrow> phys_reg \<Rightarrow> phys_reg option" where
  "overlappingGpr t r = find (regsOverlap t r) (gprs t)"

definition bulkOperand ::
  "target_env \<Rightarrow> phys_reg set \<times> phys_reg set \<Rightarrow> MachineOperand \<Rightarrow> phys_reg set \<times> phys_reg set" where
  "bulkOperand t ud mo =
     (case physReg t mo of
        None \<Rightarrow> ud
      | Some r \<Rightarrow>
          if isReserved t r then ud
          else case overlappingGpr t r of
                 None \<Rightarrow> ud
               | Some gpr \<Rightarrow>
                   (if isUse mo \<and> \<not> moUndef mo \<and> gpr \<notin> snd ud then insert gpr (fst ud) else fst ud,
                    if isDef mo then insert gpr (snd ud) else snd ud))"

definition bulkSets :: "target_env \<Rightarrow> MachineInstr list \<Rightarrow> phys_reg set \<times> phys_reg set" where
  "bulkSets t mis = foldl (\<lambda>ud mi. foldl (bulkOperand t) ud (operands mi)) ({}, {}) mis"

definition useSet :: "MachineFunction \<Rightarrow> target_env \<Rightarrow> mbb_ptr \<Rightarrow> phys_reg set" where
  "useSet mf t b = fst (bulkSets t (instrs (mbbAt mf b)))"

definition defSet :: "MachineFunction \<Rightarrow> target_env \<Rightarrow> mbb_ptr \<Rightarrow> phys_reg set" where
  "defSet mf t b = snd (bulkSets t (instrs (mbbAt mf b)))"

type_synonym live_sets = "mbb_ptr \<Rightarrow> phys_reg set"

definition liveOutOf :: "MachineFunction \<Rightarrow> live_sets \<Rightarrow> mbb_ptr \<Rightarrow> phys_reg set" where
  "liveOutOf mf liveIn b = \<Union> (set (map liveIn (succs (mbbAt mf b))))"

text \<open>One block of a round; the flag is \<open>changed\<close>.\<close>

definition bulkBlock ::
  "MachineFunction \<Rightarrow> target_env \<Rightarrow> bool \<times> live_sets \<Rightarrow> mbb_ptr \<Rightarrow> bool \<times> live_sets" where
  "bulkBlock mf t s b =
     (let fresh = liveOutOf mf (snd s) b - defSet mf t b - snd s b
      in (fst s \<or> fresh \<noteq> {}, (snd s)(b := snd s b \<union> fresh)))"

definition bulkRound :: "MachineFunction \<Rightarrow> target_env \<Rightarrow> live_sets \<Rightarrow> bool \<times> live_sets" where
  "bulkRound mf t liveIn = foldl (bulkBlock mf t) (False, liveIn) (layout mf)"

definition initLiveIn :: "MachineFunction \<Rightarrow> target_env \<Rightarrow> live_sets" where
  "initLiveIn mf t b = (if b \<in> set (layout mf) then useSet mf t b else {})"

definition computeBulkLiveIn :: "MachineFunction \<Rightarrow> target_env \<Rightarrow> live_sets option" where
  "computeBulkLiveIn mf t = untilStable (bulkRound mf t) (initLiveIn mf t)"


section \<open>What liveness means\<close>

text \<open>The reference: some path of blocks from \<open>b\<close> reads the register at an instruction before which
  no instruction of the path writes it.\<close>

fun cfg_path :: "MachineFunction \<Rightarrow> mbb_ptr list \<Rightarrow> bool" where
  "cfg_path mf [] = False"
| "cfg_path mf [b] = True"
| "cfg_path mf (b # c # bs) = (c \<in> set (succs (mbbAt mf b)) \<and> cfg_path mf (c # bs))"

definition path_instrs :: "MachineFunction \<Rightarrow> mbb_ptr list \<Rightarrow> MachineInstr list" where
  "path_instrs mf p = concat (map (\<lambda>b. instrs (mbbAt mf b)) p)"

definition read_first :: "target_env \<Rightarrow> phys_reg \<Rightarrow> MachineInstr list \<Rightarrow> bool" where
  "read_first t reg mis \<longleftrightarrow>
     (\<exists>pre mi post. mis = pre @ mi # post \<and> readsReg t reg mi \<and> (\<forall>x \<in> set pre. \<not> writesReg t reg x))"

definition live_on_path :: "MachineFunction \<Rightarrow> target_env \<Rightarrow> phys_reg \<Rightarrow> mbb_ptr \<Rightarrow> bool" where
  "live_on_path mf t reg b \<longleftrightarrow> (\<exists>p. cfg_path mf (b # p) \<and> read_first t reg (path_instrs mf (b # p)))"

lemma read_first_Nil [simp]: "\<not> read_first t reg []"
  by (simp add: read_first_def)

lemma read_first_Cons [simp]:
  "read_first t reg (mi # mis) \<longleftrightarrow> readsReg t reg mi \<or> \<not> writesReg t reg mi \<and> read_first t reg mis"
proof
  assume "read_first t reg (mi # mis)"
  then obtain pre x post where "mi # mis = pre @ x # post" "readsReg t reg x"
    "\<forall>y \<in> set pre. \<not> writesReg t reg y" by (auto simp: read_first_def)
  then show "readsReg t reg mi \<or> \<not> writesReg t reg mi \<and> read_first t reg mis"
    by (cases pre) (auto simp: read_first_def)
next
  assume "readsReg t reg mi \<or> \<not> writesReg t reg mi \<and> read_first t reg mis"
  then show "read_first t reg (mi # mis)"
  proof (elim disjE conjE)
    assume "readsReg t reg mi"
    then show ?thesis unfolding read_first_def by (intro exI [of _ "[]"]) auto
  next
    assume w: "\<not> writesReg t reg mi" and "read_first t reg mis"
    then obtain pre x post where "mis = pre @ x # post" "readsReg t reg x"
      "\<forall>y \<in> set pre. \<not> writesReg t reg y" by (auto simp: read_first_def)
    with w show ?thesis unfolding read_first_def by (intro exI [of _ "mi # pre"]) auto
  qed
qed

lemma read_first_append:
  "read_first t reg (xs @ ys) \<longleftrightarrow>
     read_first t reg xs \<or> list_all (\<lambda>x. \<not> writesReg t reg x) xs \<and> read_first t reg ys"
  by (induction xs) auto

lemma scanInstrs_read_first: "scanInstrs t reg mis = UsedFirst \<longleftrightarrow> read_first t reg mis"
  by (induction mis) auto

lemma scanInstrs_neither:
  "scanInstrs t reg mis = Neither \<longleftrightarrow>
     \<not> read_first t reg mis \<and> list_all (\<lambda>x. \<not> writesReg t reg x) mis"
  by (induction mis) auto

lemma live_on_path_unfold:
  "live_on_path mf t reg b \<longleftrightarrow>
     scanBlockForReg mf t b reg = UsedFirst
     \<or> scanBlockForReg mf t b reg = Neither \<and> (\<exists>s \<in> set (succs (mbbAt mf b)). live_on_path mf t reg s)"
  (is "_ \<longleftrightarrow> ?used \<or> ?through")
proof
  assume "live_on_path mf t reg b"
  then obtain p where p: "cfg_path mf (b # p)" "read_first t reg (path_instrs mf (b # p))"
    by (auto simp: live_on_path_def)
  show "?used \<or> ?through"
  proof (cases p)
    case Nil
    with p show ?thesis by (simp add: path_instrs_def scanBlockForReg_def scanInstrs_read_first)
  next
    case (Cons s q)
    with p show ?thesis
      by (auto simp: path_instrs_def scanBlockForReg_def scanInstrs_read_first scanInstrs_neither
          read_first_append live_on_path_def)
  qed
next
  assume "?used \<or> ?through"
  then show "live_on_path mf t reg b"
  proof
    assume ?used
    then show ?thesis unfolding live_on_path_def
      by (intro exI [of _ "[]"]) (simp add: path_instrs_def scanBlockForReg_def scanInstrs_read_first)
  next
    assume thr: ?through
    then obtain s p where s: "s \<in> set (succs (mbbAt mf b))" "cfg_path mf (s # p)"
      "read_first t reg (path_instrs mf (s # p))" by (auto simp: live_on_path_def)
    with thr show ?thesis unfolding live_on_path_def
      by (intro exI [of _ "s # p"])
        (simp add: path_instrs_def scanBlockForReg_def scanInstrs_neither read_first_append)
  qed
qed

text \<open>The same notion as rules, for inductions.\<close>

inductive livePoint :: "MachineFunction \<Rightarrow> target_env \<Rightarrow> phys_reg \<Rightarrow> mbb_ptr \<Rightarrow> bool"
  for mf :: MachineFunction and t :: target_env and reg :: phys_reg where
  used: "scanBlockForReg mf t b reg = UsedFirst \<Longrightarrow> livePoint mf t reg b"
| through: "scanBlockForReg mf t b reg = Neither \<Longrightarrow> s \<in> set (succs (mbbAt mf b)) \<Longrightarrow> livePoint mf t reg s
    \<Longrightarrow> livePoint mf t reg b"

inductive_simps livePoint_unfold: "livePoint mf t reg b"

lemma livePoint_path: "livePoint mf t reg b \<longleftrightarrow> live_on_path mf t reg b"
proof
  show "livePoint mf t reg b \<Longrightarrow> live_on_path mf t reg b"
    by (induction rule: livePoint.induct) (blast intro: live_on_path_unfold [THEN iffD2])+
  have "cfg_path mf (b # p) \<Longrightarrow> read_first t reg (path_instrs mf (b # p)) \<Longrightarrow> livePoint mf t reg b" for p
  proof (induction p arbitrary: b)
    case Nil
    then show ?case
      by (auto simp: path_instrs_def scanBlockForReg_def scanInstrs_read_first intro: livePoint.used)
  next
    case (Cons s p)
    show ?case
    proof (cases "read_first t reg (instrs (mbbAt mf b))")
      case True
      then show ?thesis by (auto simp: scanBlockForReg_def scanInstrs_read_first intro: livePoint.used)
    next
      case False
      with Cons.prems(2) have quiet: "list_all (\<lambda>x. \<not> writesReg t reg x) (instrs (mbbAt mf b))"
        and rest: "read_first t reg (path_instrs mf (s # p))"
        by (auto simp: path_instrs_def read_first_append)
      have "scanBlockForReg mf t b reg = Neither"
        using False quiet by (simp add: scanBlockForReg_def scanInstrs_neither)
      moreover have "livePoint mf t reg s" using Cons.prems(1) rest by (intro Cons.IH) auto
      ultimately show ?thesis using Cons.prems(1) by (intro livePoint.through [of mf t b reg s]) auto
    qed
  qed
  then show "live_on_path mf t reg b \<Longrightarrow> livePoint mf t reg b"
    by (auto simp: live_on_path_def)
qed

lemma liveWalk_sound: "liveWalk mf t reg visited wl \<Longrightarrow> \<exists>b \<in> set wl. livePoint mf t reg b"
proof (induction mf t reg visited wl rule: liveWalk.induct)
  case (2 mf t reg visited b worklist)
  then show ?case
    by (auto split: if_splits RegScanResult.splits intro: livePoint.intros)
qed simp

lemma liveWalk_complete:
  assumes "\<And>v. v \<in> visited \<Longrightarrow> scanBlockForReg mf t v reg \<noteq> UsedFirst"
    and "\<And>v s. v \<in> visited \<Longrightarrow> scanBlockForReg mf t v reg = Neither \<Longrightarrow> s \<in> set (succs (mbbAt mf v))
      \<Longrightarrow> s \<in> visited \<union> set wl"
    and "w \<in> visited \<union> set wl" and "livePoint mf t reg w"
  shows "liveWalk mf t reg visited wl"
  using assms
proof (induction mf t reg visited wl arbitrary: w rule: liveWalk.induct)
  case (1 mf t reg visited)
  have "w \<notin> visited" using "1.prems"(4)
    by (induction rule: livePoint.induct) (use "1.prems"(1,2) in auto)
  with "1.prems" show ?case by auto
next
  case (2 mf t reg visited b worklist)
  show ?case
  proof (cases "b \<in> visited")
    case True
    have "liveWalk mf t reg visited worklist"
      using True "2.prems" by (intro "2.IH"(1) [of w]) auto
    with True show ?thesis by simp
  next
    case new: False
    show ?thesis
    proof (cases "scanBlockForReg mf t b reg")
      case UsedFirst
      with new show ?thesis by simp
    next
      case DefinedFirst
      have "liveWalk mf t reg (insert b visited) worklist"
        using DefinedFirst new "2.prems" by (intro "2.IH"(2) [of w]) auto
      with new DefinedFirst show ?thesis by simp
    next
      case Neither
      have "liveWalk mf t reg (insert b visited) (rev (succs (mbbAt mf b)) @ worklist)"
        using Neither new "2.prems" by (intro "2.IH"(3) [of w]) auto
      with new Neither show ?thesis by simp
    qed
  qed
qed

lemma isRegLive_livePoint: "isRegLiveFromBlock mf t b reg \<longleftrightarrow> livePoint mf t reg b"
  using liveWalk_sound [of mf t reg "{}" "[b]"] liveWalk_complete [of "{}" mf t reg "[b]" b]
  by (auto simp: isRegLiveFromBlock_def)


section \<open>The bulk analysis against the walk\<close>

text \<open>What the backend relies on of the target: R4 to R15 are twelve consecutive registers
  (\<open>MSP430Constants::resolve\<close> aborts otherwise), and a physical register overlaps at most one of them
  and is then not reserved.\<close>

definition target_ok :: "target_env \<Rightarrow> bool" where
  "target_ok t \<longleftrightarrow> 0 < regR4 t \<and> regR15 t = regR4 t + 11
     \<and> (\<forall>r g g'. g \<in> set (gprs t) \<longrightarrow> g' \<in> set (gprs t) \<longrightarrow> regsOverlap t r g \<longrightarrow>
           \<not> isReserved t r \<and> (regsOverlap t r g' \<longrightarrow> g' = g))
     \<and> (\<forall>g \<in> set (gprs t). isPhysical t g \<and> regsOverlap t g g)"

definition readModifyWrite :: "target_env \<Rightarrow> phys_reg \<Rightarrow> MachineInstr \<Rightarrow> bool" where
  "readModifyWrite t reg mi \<longleftrightarrow> readsReg t reg mi \<and> writesReg t reg mi"

definition opReads :: "target_env \<Rightarrow> phys_reg \<Rightarrow> MachineOperand \<Rightarrow> bool" where
  "opReads t reg mo \<longleftrightarrow> touches t reg mo \<and> isUse mo \<and> \<not> moUndef mo"

definition opWrites :: "target_env \<Rightarrow> phys_reg \<Rightarrow> MachineOperand \<Rightarrow> bool" where
  "opWrites t reg mo \<longleftrightarrow> touches t reg mo \<and> isDef mo"

fun op_read_first :: "target_env \<Rightarrow> phys_reg \<Rightarrow> MachineOperand list \<Rightarrow> bool" where
  "op_read_first t reg [] = False"
| "op_read_first t reg (mo # ops) = (opReads t reg mo \<or> \<not> opWrites t reg mo \<and> op_read_first t reg ops)"

lemma readsReg_op: "readsReg t reg mi \<longleftrightarrow> list_ex (opReads t reg) (operands mi)"
  by (simp add: readsReg_def opReads_def [abs_def])

lemma writesReg_op: "writesReg t reg mi \<longleftrightarrow> list_ex (opWrites t reg) (operands mi)"
  by (simp add: writesReg_def opWrites_def [abs_def])

lemma overlappingGpr_iff:
  assumes "target_ok t" and "g \<in> set (gprs t)"
  shows "overlappingGpr t r = Some g \<longleftrightarrow> regsOverlap t r g"
proof
  assume "overlappingGpr t r = Some g"
  then show "regsOverlap t r g" by (auto simp: overlappingGpr_def find_Some_iff)
next
  assume ov: "regsOverlap t r g"
  with assms(2) obtain g' where g': "overlappingGpr t r = Some g'"
    by (cases "find (regsOverlap t r) (gprs t)") (auto simp: overlappingGpr_def find_None_iff)
  then have "regsOverlap t r g'" "g' \<in> set (gprs t)"
    by (auto simp: overlappingGpr_def find_Some_iff)
  with assms ov g' show "overlappingGpr t r = Some g" unfolding target_ok_def by blast
qed

lemma overlappingGpr_in: "overlappingGpr t r = Some g \<Longrightarrow> g \<in> set (gprs t)"
  by (auto simp: overlappingGpr_def find_Some_iff)

lemma bulkOperand_iff:
  assumes "target_ok t" and "g \<in> set (gprs t)"
  shows "g \<in> fst (bulkOperand t ud mo) \<longleftrightarrow> g \<in> fst ud \<or> g \<notin> snd ud \<and> opReads t g mo"
    and "g \<in> snd (bulkOperand t ud mo) \<longleftrightarrow> g \<in> snd ud \<or> opWrites t g mo"
proof -
  have res: "\<not> isReserved t r" if "regsOverlap t r g" for r
    using assms that unfolding target_ok_def by blast
  note iff = overlappingGpr_iff [OF assms]
  show "g \<in> fst (bulkOperand t ud mo) \<longleftrightarrow> g \<in> fst ud \<or> g \<notin> snd ud \<and> opReads t g mo"
    using res by (auto simp: bulkOperand_def opReads_def touches_def iff [symmetric] split: option.splits)
  show "g \<in> snd (bulkOperand t ud mo) \<longleftrightarrow> g \<in> snd ud \<or> opWrites t g mo"
    using res by (auto simp: bulkOperand_def opWrites_def touches_def iff [symmetric] split: option.splits)
qed

lemma bulkOperands_iff:
  assumes "target_ok t" and "g \<in> set (gprs t)"
  shows "g \<in> fst (foldl (bulkOperand t) ud ops) \<longleftrightarrow> g \<in> fst ud \<or> g \<notin> snd ud \<and> op_read_first t g ops"
    and "g \<in> snd (foldl (bulkOperand t) ud ops) \<longleftrightarrow> g \<in> snd ud \<or> list_ex (opWrites t g) ops"
  by (induction ops arbitrary: ud) (auto simp: bulkOperand_iff [OF assms])

lemma bulkSets_flat: "bulkSets t mis = foldl (bulkOperand t) ({}, {}) (concat (map operands mis))"
proof -
  have "foldl (\<lambda>ud mi. foldl (bulkOperand t) ud (operands mi)) ud mis =
    foldl (bulkOperand t) ud (concat (map operands mis))" for ud
    by (induction mis arbitrary: ud) auto
  then show ?thesis by (simp add: bulkSets_def)
qed

lemma op_read_first_append:
  "op_read_first t g (xs @ ys) \<longleftrightarrow>
     op_read_first t g xs \<or> \<not> list_ex (opWrites t g) xs \<and> op_read_first t g ys"
  by (induction xs) auto

lemma op_read_first_reads: "op_read_first t g ops \<Longrightarrow> list_ex (opReads t g) ops"
  by (induction ops) auto

lemma op_read_first_ordered:
  "list_ex (opReads t g) ops \<Longrightarrow> \<not> list_ex (opWrites t g) ops \<Longrightarrow> op_read_first t g ops"
  by (induction ops) auto

lemma op_read_first_instrs:
  "op_read_first t g (concat (map operands mis)) \<Longrightarrow> read_first t g mis"
  by (induction mis) (auto simp: op_read_first_append readsReg_op writesReg_op dest: op_read_first_reads)

lemma op_read_first_no_rmw:
  assumes "list_all (\<lambda>mi. \<not> readModifyWrite t g mi) mis" and "read_first t g mis"
  shows "op_read_first t g (concat (map operands mis))"
  using assms
  by (induction mis)
    (auto simp: op_read_first_append readModifyWrite_def readsReg_op writesReg_op intro: op_read_first_ordered)

lemma useSet_iff:
  assumes "target_ok t" and "g \<in> set (gprs t)"
  shows "g \<in> useSet mf t b \<longleftrightarrow> op_read_first t g (concat (map operands (instrs (mbbAt mf b))))"
  using assms by (simp add: useSet_def bulkSets_flat bulkOperands_iff)

lemma defSet_iff:
  assumes "target_ok t" and "g \<in> set (gprs t)"
  shows "g \<in> defSet mf t b \<longleftrightarrow> list_ex (writesReg t g) (instrs (mbbAt mf b))"
  using assms by (simp add: defSet_def bulkSets_flat bulkOperands_iff list_ex_iff writesReg_op)

lemma bulkSets_gprs:
  "fst (foldl (bulkOperand t) ud ops) \<subseteq> fst ud \<union> set (gprs t)"
  by (induction ops arbitrary: ud rule: rev_induct)
    (auto simp: bulkOperand_def dest: overlappingGpr_in split: option.splits if_splits)

lemma useSet_gprs: "useSet mf t b \<subseteq> set (gprs t)"
  using bulkSets_gprs [of t "({}, {})"] by (simp add: useSet_def bulkSets_flat)

text \<open>The least solution of the data-flow equations.\<close>

inductive bulkLive :: "MachineFunction \<Rightarrow> target_env \<Rightarrow> phys_reg \<Rightarrow> mbb_ptr \<Rightarrow> bool"
  for mf :: MachineFunction and t :: target_env and reg :: phys_reg where
  use: "reg \<in> useSet mf t b \<Longrightarrow> b \<in> set (layout mf) \<Longrightarrow> bulkLive mf t reg b"
| pass: "reg \<notin> defSet mf t b \<Longrightarrow> b \<in> set (layout mf) \<Longrightarrow> s \<in> set (succs (mbbAt mf b))
    \<Longrightarrow> bulkLive mf t reg s \<Longrightarrow> bulkLive mf t reg b"

lemma bulkLive_gprs: "bulkLive mf t g b \<Longrightarrow> g \<in> set (gprs t)"
  by (induction rule: bulkLive.induct) (use useSet_gprs in auto)

definition bulk_inv :: "MachineFunction \<Rightarrow> target_env \<Rightarrow> live_sets \<Rightarrow> bool" where
  "bulk_inv mf t s \<longleftrightarrow>
     (\<forall>b. s b \<subseteq> set (gprs t)) \<and> (\<forall>b \<in> set (layout mf). useSet mf t b \<subseteq> s b)
     \<and> (\<forall>b. \<forall>g \<in> s b. bulkLive mf t g b)"

definition bulk_rank :: "MachineFunction \<Rightarrow> target_env \<Rightarrow> live_sets \<Rightarrow> nat" where
  "bulk_rank mf t s = (\<Sum>b \<in> set (layout mf). card (set (gprs t) - s b))"

lemma bulkBlock_changes:
  "snd (bulkBlock mf t (c, s) b) \<noteq> s \<longleftrightarrow> liveOutOf mf s b - defSet mf t b - s b \<noteq> {}"
  by (auto simp: bulkBlock_def Let_def fun_upd_idem_iff)

interpretation bulk: block_rounds "bulkBlock mf t" "layout mf" "bulk_inv mf t" "bulk_rank mf t" for mf t
proof (unfold_locales, goal_cases)
  case (1 c s b)
  then show ?case unfolding bulkBlock_changes by (simp add: bulkBlock_def Let_def)
next
  case (2 b s c)
  have "bulkLive mf t g b" if "g \<in> liveOutOf mf s b - defSet mf t b" for g
    using that 2 by (auto simp: liveOutOf_def bulk_inv_def intro: bulkLive.pass)
  moreover have "liveOutOf mf s b \<subseteq> set (gprs t)" using 2 by (auto simp: liveOutOf_def bulk_inv_def)
  ultimately show ?case using 2 by (auto simp: bulk_inv_def bulkBlock_def Let_def)
next
  case (3 b s c)
  let ?f = "liveOutOf mf s b - defSet mf t b - s b"
  have f: "?f \<noteq> {}" using 3(3) bulkBlock_changes by blast
  have sub: "liveOutOf mf s b \<subseteq> set (gprs t)" using 3 by (auto simp: liveOutOf_def bulk_inv_def)
  have "set (gprs t) - (s b \<union> ?f) \<subset> set (gprs t) - s b" using f sub by auto
  then have "card (set (gprs t) - (s b \<union> ?f)) < card (set (gprs t) - s b)"
    by (intro psubset_card_mono) auto
  then show ?case using 3(1) unfolding bulk_rank_def bulkBlock_def Let_def
    by (intro sum_strict_mono_ex1) auto
qed

lemma bulk_inv_init: "bulk_inv mf t (initLiveIn mf t)"
  using useSet_gprs [of mf t] by (auto simp: bulk_inv_def initLiveIn_def intro: bulkLive.use)

lemma computeBulkLiveIn_least:
  "\<exists>liveIn. computeBulkLiveIn mf t = Some liveIn \<and> (\<forall>b g. g \<in> liveIn b \<longleftrightarrow> bulkLive mf t g b)"
proof -
  from bulk.round_result [OF bulk_inv_init [of mf t]] obtain s where
    s: "computeBulkLiveIn mf t = Some s" "bulk_inv mf t s"
    and stable: "\<forall>b \<in> set (layout mf). bulkBlock mf t (False, s) b = (False, s)"
    by (auto simp: computeBulkLiveIn_def bulkRound_def [abs_def])
  have closed: "liveOutOf mf s b - defSet mf t b \<subseteq> s b" if "b \<in> set (layout mf)" for b
  proof -
    from stable that have "snd (bulkBlock mf t (False, s) b) = s" by simp
    then show ?thesis using bulkBlock_changes [of mf t False s b] by blast
  qed
  have "g \<in> s b" if "bulkLive mf t g b" for g b
    using that
  proof (induction rule: bulkLive.induct)
    case (use b)
    with s(2) show ?case by (auto simp: bulk_inv_def)
  next
    case (pass b x)
    then show ?case using closed [of b] by (auto simp: liveOutOf_def)
  qed
  with s show ?thesis by (auto simp: bulk_inv_def)
qed

lemma bulkLive_livePoint:
  assumes "target_ok t" and "g \<in> set (gprs t)" and "bulkLive mf t g b"
  shows "livePoint mf t g b"
  using assms(3)
proof (induction rule: bulkLive.induct)
  case (use b)
  then show ?case
    using useSet_iff [OF assms(1,2)] op_read_first_instrs
    by (auto simp: scanBlockForReg_def scanInstrs_read_first intro!: livePoint.used)
next
  case (pass b s)
  have quiet: "list_all (\<lambda>x. \<not> writesReg t g x) (instrs (mbbAt mf b))"
    using pass defSet_iff [OF assms(1,2)] by (auto simp: list_ex_iff list_all_iff)
  show ?case
  proof (cases "read_first t g (instrs (mbbAt mf b))")
    case True
    then show ?thesis by (auto simp: scanBlockForReg_def scanInstrs_read_first intro: livePoint.used)
  next
    case False
    with quiet pass show ?thesis
      by (intro livePoint.through [of mf t b g s]) (auto simp: scanBlockForReg_def scanInstrs_neither)
  qed
qed

definition no_rmw :: "MachineFunction \<Rightarrow> target_env \<Rightarrow> phys_reg \<Rightarrow> bool" where
  "no_rmw mf t reg \<longleftrightarrow> (\<forall>b. list_all (\<lambda>mi. \<not> readModifyWrite t reg mi) (instrs (mbbAt mf b)))"

lemma livePoint_bulkLive:
  assumes "target_ok t" and "g \<in> set (gprs t)" and "no_rmw mf t g" and "livePoint mf t g b"
  shows "bulkLive mf t g b"
  using assms(4)
proof (induction rule: livePoint.induct)
  case (used b)
  then have b: "b \<in> set (layout mf)"
    by (cases "b \<in> set (layout mf)") (auto simp: scanBlockForReg_def mbbAt_outside noMBB_def)
  have "op_read_first t g (concat (map operands (instrs (mbbAt mf b))))"
    using used assms(3) by (intro op_read_first_no_rmw)
      (auto simp: no_rmw_def scanBlockForReg_def scanInstrs_read_first)
  then show ?case using b useSet_iff [OF assms(1,2)] by (intro bulkLive.use) auto
next
  case (through b s)
  then have "b \<in> set (layout mf)" by (cases "b \<in> set (layout mf)") auto
  then show ?case using through defSet_iff [OF assms(1,2)]
    by (intro bulkLive.pass [of g mf t b s])
      (auto simp: scanBlockForReg_def scanInstrs_neither list_all_iff list_ex_iff)
qed


section \<open>Properties\<close>

text \<open>(C36) The forward walk decides liveness: it answers true exactly when some path of blocks from
  the start reads the register, or one that overlaps it, at an instruction before which no
  instruction of the path writes it.\<close>

theorem isRegLiveFromBlock_correct:
  "isRegLiveFromBlock mf t b reg \<longleftrightarrow>
     (\<exists>p pre mi post. cfg_path mf (b # p) \<and> path_instrs mf (b # p) = pre @ mi # post
        \<and> readsReg t reg mi \<and> list_all (\<lambda>x. \<not> writesReg t reg x) pre)"
  by (auto simp: isRegLive_livePoint livePoint_path live_on_path_def read_first_def list_all_iff)

text \<open>The data-flow iteration of the bulk analysis always ends. What it reports live at a block is
  live there, and for a register that no instruction both reads and writes it reports exactly the
  blocks from which the forward walk finds the register live.\<close>

theorem computeBulkLiveIn_agrees:
  assumes "target_ok t" and "g \<in> set (gprs t)"
  shows "\<exists>liveIn. computeBulkLiveIn mf t = Some liveIn
    \<and> (\<forall>b. g \<in> liveIn b \<longrightarrow> isRegLiveFromBlock mf t b g)
    \<and> (no_rmw mf t g \<longrightarrow> (\<forall>b. g \<in> liveIn b \<longleftrightarrow> isRegLiveFromBlock mf t b g))"
  using computeBulkLiveIn_least [of mf t] bulkLive_livePoint [OF assms] livePoint_bulkLive [OF assms]
  by (auto simp: isRegLive_livePoint)

text \<open>A target whose registers do not overlap, and a function of two blocks that passes R4 from the
  first to the second.\<close>

definition sample_target :: target_env where
  "sample_target = \<lparr>regsOverlap = (=), isPhysical = (\<lambda>r. 0 < r), isReserved = (\<lambda>r. r < 4),
     regR4 = 4, regR15 = 15\<rparr>"

definition plainInstr :: "nat \<Rightarrow> string \<Rightarrow> MachineOperand list \<Rightarrow> MachineInstr" where
  "plainInstr i name ops = \<lparr>mi_id = i, opName = name, operands = ops, isCall = False, isInlineAsm = False,
     isBranch = False, isTerminator = False, isPHI = False, isPseudo = False, isDebugInstr = False,
     isImplicitDef = False, isKill = False, isLabel = False\<rparr>"

definition sample_mf :: MachineFunction where
  "sample_mf = \<lparr>mf_name = ''f'', mf_blocks =
     [(2, \<lparr>instrs = [plainInstr 20 ''MOV16ri'' [RegOperand 4 True False, OtherOperand]],
           succs = [3], preds = [], isReturnBlock = False\<rparr>),
      (3, \<lparr>instrs = [plainInstr 30 ''MOV16mr'' [RegOperand 4 False False]],
           succs = [], preds = [2], isReturnBlock = True\<rparr>)]\<rparr>"

lemma sample_target_simps [simp]:
  "regsOverlap sample_target = (=)" "isPhysical sample_target = (\<lambda>r. 0 < r)"
  "isReserved sample_target = (\<lambda>r. r < 4)" "regR4 sample_target = 4" "regR15 sample_target = 15"
  by (simp_all add: sample_target_def)

lemma sample_target_ok [simp]: "target_ok sample_target"
  by (auto simp: target_ok_def gprs_def)

lemma sample_no_rmw: "no_rmw sample_mf sample_target 4"
  by (auto simp: no_rmw_def mbbAt_def omap_get_def sample_mf_def noMBB_def readModifyWrite_def
      readsReg_def writesReg_def plainInstr_def)

lemma sample_live: "isRegLiveFromBlock sample_mf sample_target 3 4"
  by (simp add: isRegLiveFromBlock_def scanBlockForReg_def mbbAt_def omap_get_def sample_mf_def
      readsReg_def touches_def plainInstr_def)

lemma sample_dead: "\<not> isRegLiveFromBlock sample_mf sample_target 2 4"
  by (simp add: isRegLiveFromBlock_def scanBlockForReg_def mbbAt_def omap_get_def sample_mf_def
      readsReg_def writesReg_def touches_def plainInstr_def)

theorem computeBulkLiveIn_agrees_witness:
  "\<exists>liveIn. computeBulkLiveIn sample_mf sample_target = Some liveIn \<and> 4 \<in> liveIn 3 \<and> 4 \<notin> liveIn 2"
proof -
  have "4 \<in> set (gprs sample_target)" by (simp add: gprs_def)
  from computeBulkLiveIn_agrees [OF sample_target_ok this, of sample_mf] sample_no_rmw sample_live sample_dead
  show ?thesis by auto
qed

end
