(* ===== verification/MachineCheckpointing.thy ===== *)
theory MachineCheckpointing
  imports MachineLiveness TextScan
begin

text \<open>
  Distributed register checkpointing of the RockClimb backend
  (\<open>rockclimb-backend/MachineDistributedCheckpointing.cpp\<close>, with the register numbers of
  \<open>MSP430Constants.cpp\<close> and the list of runtime functions of \<open>RockClimbMachinePass.cpp\<close>).

  For every region boundary the analysis collects the blocks that reach it without crossing another
  boundary, the registers written there, and for each such register that is live at the boundary the
  last instruction on every path that defines it; a save is placed after each of them. Assertions are
  those of a release build, so \<open>assert\<close> has no effect; what it asserts about terminators is a
  hypothesis where it is needed.

  Shown: both loops end; every last definition of a live register that can reach a boundary is
  saved; the saves are distinct and each is justified; slot numbers stay below 12. A register that is
  only live through a region whose call overwrites its slot gets no new save: the comments promise one.
\<close>

section \<open>Register numbers\<close>

record MSP430Constants =
  MOV16mr :: nat
  CALLi :: nat
  regSR :: phys_reg
  constR4 :: phys_reg
  constR11 :: phys_reg
  constR15 :: phys_reg

datatype resolve_error = OpcodeNotFound string | RegisterNotFound string | NotContiguous

definition indexFrom :: "nat \<Rightarrow> ('a \<Rightarrow> bool) \<Rightarrow> 'a list \<Rightarrow> nat option" where
  "indexFrom k f xs = find (\<lambda>i. f (xs ! i)) [k ..< length xs]"

definition resolveOpcode :: "string list \<Rightarrow> string \<Rightarrow> resolve_error + nat" where
  "resolveOpcode opcodeNames name =
     (case indexFrom 0 (\<lambda>n. n = name) opcodeNames of Some op \<Rightarrow> Inr op | None \<Rightarrow> Inl (OpcodeNotFound name))"

definition resolveRegister :: "string list \<Rightarrow> string \<Rightarrow> resolve_error + phys_reg" where
  "resolveRegister regNames name =
     (case indexFrom 1 (\<lambda>n. map toLower name = map toLower n) regNames of
        Some r \<Rightarrow> Inr r | None \<Rightarrow> Inl (RegisterNotFound name))"

definition resolveConstants :: "string list \<Rightarrow> string list \<Rightarrow> resolve_error + MSP430Constants" where
  "resolveConstants opcodeNames regNames =
     bindE (resolveOpcode opcodeNames ''MOV16mr'') (\<lambda>mov.
     bindE (resolveOpcode opcodeNames ''CALLi'') (\<lambda>call.
     bindE (resolveRegister regNames ''SR'') (\<lambda>sr.
     bindE (resolveRegister regNames ''R4'') (\<lambda>r4.
     bindE (resolveRegister regNames ''R11'') (\<lambda>r11.
     bindE (resolveRegister regNames ''R15'') (\<lambda>r15.
       if r15 < r4 \<or> r15 - r4 \<noteq> 11 then Inl NotContiguous
       else Inr \<lparr>MOV16mr = mov, CALLi = call, regSR = sr, constR4 = r4, constR11 = r11, constR15 = r15\<rparr>))))))"

definition isCheckpointableReg :: "target_env \<Rightarrow> phys_reg \<Rightarrow> bool" where
  "isCheckpointableReg t reg \<longleftrightarrow> regR4 t \<le> reg \<and> reg \<le> regR15 t"

definition normalizeToGPR16 :: "target_env \<Rightarrow> phys_reg \<Rightarrow> phys_reg" where
  "normalizeToGPR16 t reg =
     (if regR4 t \<le> reg \<and> reg \<le> regR15 t then reg
      else case overlappingGpr t reg of Some gpr \<Rightarrow> gpr | None \<Rightarrow> 0)"

type_synonym reg_ids = "(phys_reg, u32) omap"

definition assignRegId :: "target_env \<Rightarrow> phys_reg \<Rightarrow> reg_ids \<Rightarrow> u32 \<times> reg_ids" where
  "assignRegId t reg ids =
     (let gpr = normalizeToGPR16 t reg
      in case map_of ids gpr of
           Some i \<Rightarrow> (i, ids)
         | None \<Rightarrow> (let i = of_nat gpr - of_nat (regR4 t) in (i, omap_put gpr i ids)))"

section \<open>Calls that overwrite the saved registers\<close>

definition isRuntimeFunction :: "string \<Rightarrow> bool" where
  "isRuntimeFunction name \<longleftrightarrow> name \<in> set
     [''timing_gpio_init'', ''timing_gpio_start'', ''timing_gpio_stop'', ''_timing_delay_cycles'',
      ''debug_init'', ''debug_exit'', ''uart_init'', ''uart_putc'', ''uart_puts'', ''uart_put_u16'']"

fun clobberScan :: "MachineOperand list \<Rightarrow> bool" where
  "clobberScan [] = True"
| "clobberScan (GlobalOperand g off # ops) =
     (case g of OtherGlobal n \<Rightarrow> True
      | FunctionRef n decl \<Rightarrow> \<not> decl \<and> \<not> isRuntimeFunction n)"
| "clobberScan (SymbolOperand n # ops) = False"
| "clobberScan (_ # ops) = clobberScan ops"

definition callMayClobberNvmRegs :: "MachineInstr \<Rightarrow> bool" where
  "callMayClobberNvmRegs mi = clobberScan (operands mi)"

section \<open>The backward transfer of a block\<close>

record MachineCheckpointPoint =
  afterInst :: nat
  ckptReg :: phys_reg
  ckptRegId :: u32
  regionStartOf :: mbb_ptr

definition instructionUsesOrDefsReg :: "target_env \<Rightarrow> phys_reg \<Rightarrow> MachineInstr \<Rightarrow> bool \<times> bool" where
  "instructionUsesOrDefsReg t reg mi =
     (readsReg t reg mi \<or> writesReg t reg mi, writesReg t reg mi)"

text \<open>One instruction, last to first. The state is the flag \<open>need\<close> and the saves collected so far;
  \<open>collect\<close> is false where the code passes no vector.\<close>

definition transferInstr ::
  "target_env \<Rightarrow> phys_reg \<Rightarrow> bool \<Rightarrow> mbb_ptr \<Rightarrow> u32 \<Rightarrow> bool \<times> MachineCheckpointPoint list \<Rightarrow> MachineInstr
     \<Rightarrow> bool \<times> MachineCheckpointPoint list" where
  "transferInstr t reg collect regionStart rid s mi =
     (let (touchesReg, wr) = instructionUsesOrDefsReg t reg mi;
          hasDef = (wr \<or> isCall mi \<and> callMayClobberNvmRegs mi)
      in if \<not> touchesReg \<and> \<not> hasDef then s
         else (fst s \<and> \<not> hasDef,
               if hasDef \<and> fst s \<and> collect \<and> \<not> isTerminator mi
               then snd s @ [\<lparr>afterInst = mi_id mi, ckptReg = reg, ckptRegId = rid, regionStartOf = regionStart\<rparr>]
               else snd s))"

definition reverseTransferBlock ::
  "MachineFunction \<Rightarrow> target_env \<Rightarrow> mbb_ptr \<Rightarrow> phys_reg \<Rightarrow> bool \<Rightarrow> bool \<Rightarrow> mbb_ptr \<Rightarrow> u32
     \<Rightarrow> MachineCheckpointPoint list \<Rightarrow> bool \<times> MachineCheckpointPoint list" where
  "reverseTransferBlock mf t b reg needAfterBlock collect regionStart rid ckpts =
     foldl (transferInstr t reg collect regionStart rid) (needAfterBlock, ckpts) (rev (instrs (mbbAt mf b)))"

section \<open>Last reaching definitions\<close>

definition needOutOf :: "MachineFunction \<Rightarrow> mbb_ptr set \<Rightarrow> (mbb_ptr \<Rightarrow> bool) \<Rightarrow> mbb_ptr \<Rightarrow> bool" where
  "needOutOf mf predBlocks needIn b = list_ex (\<lambda>s. s \<in> predBlocks \<and> needIn s) (succs (mbbAt mf b))"

definition newNeedIn ::
  "MachineFunction \<Rightarrow> target_env \<Rightarrow> mbb_ptr set \<Rightarrow> phys_reg \<Rightarrow> mbb_ptr \<Rightarrow> u32 \<Rightarrow> (mbb_ptr \<Rightarrow> bool) \<Rightarrow> mbb_ptr \<Rightarrow> bool" where
  "newNeedIn mf t predBlocks reg regionStart rid needIn b =
     (b = regionStart
      \<or> fst (reverseTransferBlock mf t b reg (needOutOf mf predBlocks needIn b) False regionStart rid []))"

definition needVisit ::
  "MachineFunction \<Rightarrow> target_env \<Rightarrow> mbb_ptr set \<Rightarrow> phys_reg \<Rightarrow> mbb_ptr \<Rightarrow> u32
     \<Rightarrow> bool \<times> (mbb_ptr \<Rightarrow> bool) \<Rightarrow> mbb_ptr \<Rightarrow> bool \<times> (mbb_ptr \<Rightarrow> bool)" where
  "needVisit mf t predBlocks reg regionStart rid s b =
     (if b \<notin> predBlocks then s
      else let new = newNeedIn mf t predBlocks reg regionStart rid (snd s) b
           in if snd s b \<noteq> new then (True, (snd s)(b := new)) else s)"

definition collectBlock ::
  "MachineFunction \<Rightarrow> target_env \<Rightarrow> mbb_ptr set \<Rightarrow> phys_reg \<Rightarrow> mbb_ptr \<Rightarrow> u32 \<Rightarrow> (mbb_ptr \<Rightarrow> bool)
     \<Rightarrow> MachineCheckpointPoint list \<Rightarrow> mbb_ptr \<Rightarrow> MachineCheckpointPoint list" where
  "collectBlock mf t predBlocks reg regionStart rid needIn ckpts b =
     (if b \<notin> predBlocks then ckpts
      else snd (reverseTransferBlock mf t b reg (needOutOf mf predBlocks needIn b) True regionStart rid ckpts))"

definition findLastReachingDefs ::
  "MachineFunction \<Rightarrow> target_env \<Rightarrow> mbb_ptr set \<Rightarrow> phys_reg \<Rightarrow> mbb_ptr
     \<Rightarrow> reg_ids \<times> MachineCheckpointPoint list \<Rightarrow> (reg_ids \<times> MachineCheckpointPoint list) option" where
  "findLastReachingDefs mf t predBlocks reg regionStart st =
     (let (rid, ids) = assignRegId t reg (fst st)
      in map_option (\<lambda>needIn.
           (ids, foldl (collectBlock mf t predBlocks reg regionStart rid needIn) (snd st) (layout mf)))
         (untilStable (\<lambda>needIn. foldl (needVisit mf t predBlocks reg regionStart rid) (False, needIn) (layout mf))
            (\<lambda>_. False)))"

section \<open>The analysis\<close>

record MachineRegionInfo =
  startBlock :: mbb_ptr
  regionBlocks :: "mbb_ptr list"
  totalEnergy :: double

function predWalk :: "MachineFunction \<Rightarrow> mbb_ptr set \<Rightarrow> mbb_ptr set \<Rightarrow> mbb_ptr list \<Rightarrow> mbb_ptr set" where
  "predWalk mf boundarySet visited [] = visited"
| "predWalk mf boundarySet visited (b # worklist) =
     (if b \<in> visited then predWalk mf boundarySet visited worklist
      else if b \<in> boundarySet then predWalk mf boundarySet (insert b visited) worklist
      else predWalk mf boundarySet (insert b visited) (rev (preds (mbbAt mf b)) @ worklist))"
  by pat_completeness auto
termination
proof (relation "measures [\<lambda>(mf, bs, v, w). card (set (layout mf) - v), \<lambda>(mf, bs, v, w). length w]", goal_cases)
  case (3 mf boundarySet visited b worklist)
  then show ?case using unvisited_decreases [of b visited mf "[]"] by auto
next
  case (4 mf boundarySet visited b worklist)
  then show ?case using unvisited_decreases [of b visited mf "preds (mbbAt mf b)"] by auto
qed auto

definition predBlockSet :: "MachineFunction \<Rightarrow> mbb_ptr set \<Rightarrow> mbb_ptr \<Rightarrow> mbb_ptr set" where
  "predBlockSet mf boundarySet start = predWalk mf boundarySet {start} (rev (preds (mbbAt mf start)))"

text \<open>The registers written in the collected blocks, in the order in which they are first inserted.\<close>

definition defOperand :: "target_env \<Rightarrow> phys_reg list \<Rightarrow> MachineOperand \<Rightarrow> phys_reg list" where
  "defOperand t defs mo =
     (case physReg t mo of
        None \<Rightarrow> defs
      | Some reg \<Rightarrow>
          if \<not> isDef mo \<or> isReserved t reg then defs
          else let gpr = normalizeToGPR16 t reg
               in if gpr = 0 \<or> \<not> isCheckpointableReg t gpr \<or> gpr \<in> set defs then defs else defs @ [gpr])"

definition defsInPreds :: "MachineFunction \<Rightarrow> target_env \<Rightarrow> mbb_ptr set \<Rightarrow> phys_reg list" where
  "defsInPreds mf t predBlocks =
     foldl (defOperand t) []
       (concat (map (\<lambda>b. concat (map operands (instrs (mbbAt mf b)))) (filter (\<lambda>b. b \<in> predBlocks) (layout mf))))"

definition analyzeRegion ::
  "MachineFunction \<Rightarrow> target_env \<Rightarrow> mbb_ptr set \<Rightarrow> reg_ids \<times> MachineCheckpointPoint list \<Rightarrow> MachineRegionInfo
     \<Rightarrow> (reg_ids \<times> MachineCheckpointPoint list) option" where
  "analyzeRegion mf t boundarySet st region =
     (let predBlocks = predBlockSet mf boundarySet (startBlock region)
      in foldM (\<lambda>st reg.
           if \<not> isRegLiveFromBlock mf t (startBlock region) reg then Some st
           else findLastReachingDefs mf t predBlocks reg (startBlock region) st)
         st (defsInPreds mf t predBlocks))"

fun uniqueCheckpoints ::
  "(nat \<times> phys_reg) set \<Rightarrow> MachineCheckpointPoint list \<Rightarrow> MachineCheckpointPoint list" where
  "uniqueCheckpoints seen [] = []"
| "uniqueCheckpoints seen (ckpt # ckpts) =
     (if (afterInst ckpt, ckptReg ckpt) \<in> seen then uniqueCheckpoints seen ckpts
      else ckpt # uniqueCheckpoints (insert (afterInst ckpt, ckptReg ckpt) seen) ckpts)"

definition analyzeCheckpoints ::
  "MachineFunction \<Rightarrow> target_env \<Rightarrow> MachineRegionInfo list \<Rightarrow> MachineCheckpointPoint list option" where
  "analyzeCheckpoints mf t regions =
     (let boundarySet = set (map startBlock regions)
      in map_option (\<lambda>st. uniqueCheckpoints {} (snd st)) (foldM (analyzeRegion mf t boundarySet) ([], []) regions))"


section \<open>The transfer and the needed values\<close>

definition defLike :: "target_env \<Rightarrow> phys_reg \<Rightarrow> MachineInstr \<Rightarrow> bool" where
  "defLike t reg mi \<longleftrightarrow> writesReg t reg mi \<or> isCall mi \<and> callMayClobberNvmRegs mi"

definition lastDefLike :: "MachineFunction \<Rightarrow> target_env \<Rightarrow> phys_reg \<Rightarrow> mbb_ptr \<Rightarrow> MachineInstr option" where
  "lastDefLike mf t reg b = find (defLike t reg) (rev (instrs (mbbAt mf b)))"

definition ckptPoint :: "phys_reg \<Rightarrow> u32 \<Rightarrow> mbb_ptr \<Rightarrow> MachineInstr \<Rightarrow> MachineCheckpointPoint" where
  "ckptPoint reg rid S mi = \<lparr>afterInst = mi_id mi, ckptReg = reg, ckptRegId = rid, regionStartOf = S\<rparr>"

lemma transferInstr_defLike:
  "transferInstr t reg collect S rid s mi =
     (if defLike t reg mi
      then (False, if fst s \<and> collect \<and> \<not> isTerminator mi then snd s @ [ckptPoint reg rid S mi] else snd s)
      else s)"
  by (cases s) (auto simp: transferInstr_def defLike_def instructionUsesOrDefsReg_def ckptPoint_def Let_def)

lemma transfer_fold:
  "foldl (transferInstr t reg collect S rid) (need, ckpts) mis =
     (need \<and> find (defLike t reg) mis = None,
      ckpts @ (case find (defLike t reg) mis of
                 Some mi \<Rightarrow> if need \<and> collect \<and> \<not> isTerminator mi then [ckptPoint reg rid S mi] else []
               | None \<Rightarrow> []))"
proof (induction mis arbitrary: need ckpts)
  case (Cons mi mis)
  show ?case
  proof (cases "defLike t reg mi")
    case True
    have "foldl (transferInstr t reg collect S rid) (False, c) mis = (False, c)" for c
      using Cons.IH [of False c] by (simp split: option.splits)
    with True show ?thesis by (simp add: transferInstr_defLike [where s = "(need, ckpts)"])
  qed (simp add: transferInstr_defLike [where s = "(need, ckpts)"] Cons.IH)
qed simp

lemma newNeedIn_iff:
  "newNeedIn mf t P reg S rid n b \<longleftrightarrow> b = S \<or> needOutOf mf P n b \<and> lastDefLike mf t reg b = None"
  by (simp add: newNeedIn_def reverseTransferBlock_def transfer_fold lastDefLike_def)

text \<open>The value of the register at the start of a block is still needed at the boundary.\<close>

inductive needEntry :: "MachineFunction \<Rightarrow> target_env \<Rightarrow> mbb_ptr set \<Rightarrow> phys_reg \<Rightarrow> mbb_ptr \<Rightarrow> mbb_ptr \<Rightarrow> bool"
  for mf :: MachineFunction and t :: target_env and P :: "mbb_ptr set" and reg :: phys_reg and S :: mbb_ptr where
  boundary: "S \<in> P \<Longrightarrow> S \<in> set (layout mf) \<Longrightarrow> needEntry mf t P reg S S"
| pass: "b \<in> P \<Longrightarrow> b \<in> set (layout mf) \<Longrightarrow> lastDefLike mf t reg b = None \<Longrightarrow> s \<in> set (succs (mbbAt mf b))
    \<Longrightarrow> needEntry mf t P reg S s \<Longrightarrow> needEntry mf t P reg S b"

inductive_cases needEntryE: "needEntry mf t P reg S b"

lemma needEntry_in: "needEntry mf t P reg S b \<Longrightarrow> b \<in> P \<and> b \<in> set (layout mf)"
  by (auto elim: needEntryE)

definition need_inv ::
  "MachineFunction \<Rightarrow> target_env \<Rightarrow> mbb_ptr set \<Rightarrow> phys_reg \<Rightarrow> mbb_ptr \<Rightarrow> u32 \<Rightarrow> (mbb_ptr \<Rightarrow> bool) \<Rightarrow> bool" where
  "need_inv mf t P reg S rid n \<longleftrightarrow>
     (\<forall>b. n b \<longrightarrow> newNeedIn mf t P reg S rid n b) \<and> (\<forall>b. n b \<longrightarrow> needEntry mf t P reg S b)"

definition need_rank :: "MachineFunction \<Rightarrow> (mbb_ptr \<Rightarrow> bool) \<Rightarrow> nat" where
  "need_rank mf n = card {b \<in> set (layout mf). \<not> n b}"

lemma newNeedIn_mono:
  assumes "newNeedIn mf t P reg S rid n b" and "\<And>c. n c \<Longrightarrow> n' c"
  shows "newNeedIn mf t P reg S rid n' b"
  using assms by (auto simp: newNeedIn_iff needOutOf_def list_ex_iff)

interpretation need: block_rounds "needVisit mf t P reg S rid" "layout mf" "need_inv mf t P reg S rid" "need_rank mf"
  for mf t P reg S rid
proof (unfold_locales, goal_cases)
  case (1 c n b)
  show ?case by (auto simp: needVisit_def Let_def fun_upd_idem_iff)
next
  case (2 b n c)
  show ?case
  proof (cases "b \<in> P \<and> n b \<noteq> newNeedIn mf t P reg S rid n b")
    case True
    with 2 have new: "newNeedIn mf t P reg S rid n b" "\<not> n b" by (auto simp: need_inv_def)
    have asc: "newNeedIn mf t P reg S rid (n(b := True)) c" if "newNeedIn mf t P reg S rid n c" for c
      by (rule newNeedIn_mono [OF that]) simp
    have "needEntry mf t P reg S b"
      using new(1) True 2 unfolding newNeedIn_iff need_inv_def needOutOf_def list_ex_iff
      by (auto intro: needEntry.intros)
    with 2 True new asc show ?thesis
      by (auto simp: needVisit_def Let_def need_inv_def)
  next
    case False
    with 2 show ?thesis by (auto simp: needVisit_def Let_def)
  qed
next
  case (3 b n c)
  then have ch: "b \<in> P" "n b \<noteq> newNeedIn mf t P reg S rid n b"
    by (auto simp: needVisit_def Let_def split: if_splits)
  with 3 have new: "newNeedIn mf t P reg S rid n b" "\<not> n b" by (auto simp: need_inv_def)
  have "{x \<in> set (layout mf). \<not> (n(b := True)) x} \<subset> {x \<in> set (layout mf). \<not> n x}"
    using new(2) 3(1) by auto
  then have "need_rank mf (n(b := True)) < need_rank mf n"
    unfolding need_rank_def by (intro psubset_card_mono) auto
  with ch new show ?case by (simp add: needVisit_def Let_def)
qed

lemma needIn_result:
  "\<exists>n. untilStable (\<lambda>n. foldl (needVisit mf t P reg S rid) (False, n) (layout mf)) (\<lambda>_. False) = Some n
    \<and> (\<forall>b. n b \<longleftrightarrow> needEntry mf t P reg S b)"
proof -
  have "need_inv mf t P reg S rid (\<lambda>_. False)" by (simp add: need_inv_def)
  from need.round_result [OF this] obtain n where
    n: "untilStable (\<lambda>n. foldl (needVisit mf t P reg S rid) (False, n) (layout mf)) (\<lambda>_. False) = Some n"
    "need_inv mf t P reg S rid n"
    and stable: "\<forall>b \<in> set (layout mf). needVisit mf t P reg S rid (False, n) b = (False, n)" by auto
  have new: "n b" if "b \<in> set (layout mf)" "b \<in> P" "newNeedIn mf t P reg S rid n b" for b
    using stable [rule_format, OF that(1)] that by (auto simp: needVisit_def Let_def split: if_splits)
  have "n b" if "needEntry mf t P reg S b" for b
    using that
  proof (induction rule: needEntry.induct)
    case boundary
    then show ?case by (intro new) (auto simp: newNeedIn_iff)
  next
    case (pass b s)
    then show ?case by (intro new) (auto simp: newNeedIn_iff needOutOf_def list_ex_iff dest: needEntry_in)
  qed
  with n show ?thesis by (auto simp: need_inv_def)
qed

section \<open>The saves of one register for one boundary\<close>

definition savesIn ::
  "MachineFunction \<Rightarrow> target_env \<Rightarrow> mbb_ptr set \<Rightarrow> phys_reg \<Rightarrow> mbb_ptr \<Rightarrow> mbb_ptr \<Rightarrow> MachineInstr \<Rightarrow> bool" where
  "savesIn mf t P reg S b mi \<longleftrightarrow>
     b \<in> set (layout mf) \<and> b \<in> P \<and> (\<exists>s \<in> set (succs (mbbAt mf b)). needEntry mf t P reg S s)
     \<and> lastDefLike mf t reg b = Some mi \<and> \<not> isTerminator mi"

lemma collect_fold:
  assumes "\<And>b. n b \<longleftrightarrow> needEntry mf t P reg S b" and "set bs \<subseteq> set (layout mf)"
  shows "set (foldl (collectBlock mf t P reg S rid n) ckpts bs) =
    set ckpts \<union> {ckptPoint reg rid S mi | b mi. b \<in> set bs \<and> savesIn mf t P reg S b mi}"
  using assms(2)
proof (induction bs rule: rev_induct)
  case (snoc b bs)
  have out: "needOutOf mf P n b \<longleftrightarrow> (\<exists>s \<in> set (succs (mbbAt mf b)). needEntry mf t P reg S s)"
    using assms(1) by (auto simp: needOutOf_def list_ex_iff dest: needEntry_in)
  have one: "set (collectBlock mf t P reg S rid n c b) =
      set c \<union> {ckptPoint reg rid S mi | mi. savesIn mf t P reg S b mi}" for c
    using snoc.prems out
    by (auto simp: collectBlock_def reverseTransferBlock_def transfer_fold savesIn_def lastDefLike_def
        split: option.splits if_splits)
  show ?case using snoc by (auto simp: one)
qed simp

definition ids_ok :: "target_env \<Rightarrow> reg_ids \<Rightarrow> bool" where
  "ids_ok t ids \<longleftrightarrow> (\<forall>g i. map_of ids g = Some i \<longrightarrow> i = of_nat g - of_nat (regR4 t))"

lemma gprs_iff: "g \<in> set (gprs t) \<longleftrightarrow> isCheckpointableReg t g"
  by (auto simp: gprs_def isCheckpointableReg_def)

lemma normalize_gpr [simp]: "isCheckpointableReg t g \<Longrightarrow> normalizeToGPR16 t g = g"
  by (simp add: normalizeToGPR16_def isCheckpointableReg_def)

lemma assignRegId_ok:
  assumes "ids_ok t ids" and "isCheckpointableReg t reg"
  shows "fst (assignRegId t reg ids) = of_nat reg - of_nat (regR4 t) \<and> ids_ok t (snd (assignRegId t reg ids))"
  using assms by (auto simp: assignRegId_def ids_ok_def Let_def split: option.splits)

lemma findLastReachingDefs_saves:
  assumes "ids_ok t (fst st)" and "isCheckpointableReg t reg"
  shows "\<exists>st'. findLastReachingDefs mf t P reg S st = Some st' \<and> ids_ok t (fst st')
    \<and> set (snd st') = set (snd st) \<union>
        {ckptPoint reg (of_nat reg - of_nat (regR4 t)) S mi | b mi. savesIn mf t P reg S b mi}"
proof -
  obtain rid ids where id: "assignRegId t reg (fst st) = (rid, ids)" by fastforce
  with assignRegId_ok [OF assms] have ok: "rid = of_nat reg - of_nat (regR4 t)" "ids_ok t ids" by auto
  from needIn_result [of mf t P reg S rid] obtain n where
    n: "untilStable (\<lambda>n. foldl (needVisit mf t P reg S rid) (False, n) (layout mf)) (\<lambda>_. False) = Some n"
    "\<And>b. n b \<longleftrightarrow> needEntry mf t P reg S b" by auto
  have "set (foldl (collectBlock mf t P reg S rid n) (snd st) (layout mf)) =
      set (snd st) \<union> {ckptPoint reg rid S mi | b mi. savesIn mf t P reg S b mi}"
    using collect_fold [of n mf t P reg S "layout mf" rid "snd st", OF n(2)] by (auto simp: savesIn_def)
  with id ok n show ?thesis by (simp add: findLastReachingDefs_def Let_def)
qed


section \<open>The blocks and registers of one boundary\<close>

text \<open>What LLVM keeps of a machine function: successors are blocks of the function and the two edge
  lists mirror each other.\<close>

definition mf_wf :: "MachineFunction \<Rightarrow> bool" where
  "mf_wf mf \<longleftrightarrow> (\<forall>b. set (succs (mbbAt mf b)) \<subseteq> set (layout mf))
     \<and> (\<forall>b c. b \<in> set (preds (mbbAt mf c)) \<longleftrightarrow> c \<in> set (succs (mbbAt mf b)))"

lemma predWalk_closed:
  assumes "S \<in> visited"
    and "\<And>v. v \<in> visited \<Longrightarrow> v = S \<or> v \<notin> B \<Longrightarrow> set (preds (mbbAt mf v)) \<subseteq> visited \<union> set wl"
  shows "visited \<union> set wl \<subseteq> predWalk mf B visited wl
    \<and> (\<forall>v \<in> predWalk mf B visited wl. v = S \<or> v \<notin> B \<longrightarrow> set (preds (mbbAt mf v)) \<subseteq> predWalk mf B visited wl)"
  using assms
proof (induction mf B visited wl rule: predWalk.induct)
  case (2 mf B visited b worklist)
  show ?case
  proof (cases "b \<in> visited")
    case True
    then show ?thesis using 2 by (auto simp: insert_absorb)
  next
    case new: False
    show ?thesis
    proof (cases "b \<in> B")
      case True
      have "insert b visited \<union> set worklist \<subseteq> predWalk mf B (insert b visited) worklist
        \<and> (\<forall>v \<in> predWalk mf B (insert b visited) worklist. v = S \<or> v \<notin> B \<longrightarrow>
             set (preds (mbbAt mf v)) \<subseteq> predWalk mf B (insert b visited) worklist)"
        using new True "2.prems" by (intro "2.IH"(2)) auto
      with new True show ?thesis by auto
    next
      case False
      have "insert b visited \<union> set (rev (preds (mbbAt mf b)) @ worklist)
            \<subseteq> predWalk mf B (insert b visited) (rev (preds (mbbAt mf b)) @ worklist)
        \<and> (\<forall>v \<in> predWalk mf B (insert b visited) (rev (preds (mbbAt mf b)) @ worklist). v = S \<or> v \<notin> B \<longrightarrow>
             set (preds (mbbAt mf v)) \<subseteq> predWalk mf B (insert b visited) (rev (preds (mbbAt mf b)) @ worklist))"
        using new False "2.prems" by (intro "2.IH"(3)) auto
      with new False show ?thesis by auto
    qed
  qed
qed simp

lemma predBlockSet_start: "S \<in> predBlockSet mf B S"
  using predWalk_closed [of S "{S}" B mf "rev (preds (mbbAt mf S))"] by (auto simp: predBlockSet_def)

lemma predBlockSet_closed:
  "c \<in> predBlockSet mf B S \<Longrightarrow> c = S \<or> c \<notin> B \<Longrightarrow> b \<in> set (preds (mbbAt mf c)) \<Longrightarrow> b \<in> predBlockSet mf B S"
  using predWalk_closed [of S "{S}" B mf "rev (preds (mbbAt mf S))"] by (auto simp: predBlockSet_def)

lemma path_needed:
  assumes "mf_wf mf" and "cfg_path mf (b # p @ [S])"
    and "\<forall>c \<in> set p. c \<notin> B \<and> lastDefLike mf t reg c = None"
  shows "b \<in> predBlockSet mf B S
    \<and> (\<exists>s \<in> set (succs (mbbAt mf b)). needEntry mf t (predBlockSet mf B S) reg S s)"
  using assms(2,3)
proof (induction p arbitrary: b)
  case Nil
  then have e: "S \<in> set (succs (mbbAt mf b))" by simp
  with assms(1) have "S \<in> set (layout mf)" "b \<in> set (preds (mbbAt mf S))" by (auto simp: mf_wf_def)
  with e show ?case
    by (auto intro: predBlockSet_closed predBlockSet_start needEntry.boundary)
next
  case (Cons c p)
  then have e: "c \<in> set (succs (mbbAt mf b))" by simp
  with assms(1) have lay: "c \<in> set (layout mf)" and pr: "b \<in> set (preds (mbbAt mf c))" by (auto simp: mf_wf_def)
  from Cons.IH [of c] Cons.prems obtain s where
    c: "c \<in> predBlockSet mf B S" and s: "s \<in> set (succs (mbbAt mf c))" "needEntry mf t (predBlockSet mf B S) reg S s"
    by auto
  have "needEntry mf t (predBlockSet mf B S) reg S c"
    using c lay s Cons.prems(2) by (intro needEntry.pass [of c _ mf t reg s]) auto
  moreover have "b \<in> predBlockSet mf B S" using Cons.prems(2) by (intro predBlockSet_closed [OF c _ pr]) simp
  ultimately show ?case using e by blast
qed

lemma defOperand_set: "set (defOperand t defs mo) = set defs \<union> set (defOperand t [] mo)"
  by (auto simp: defOperand_def Let_def split: option.splits)

lemma defOperands_set:
  "set (foldl (defOperand t) defs ops) = set defs \<union> (\<Union>mo \<in> set ops. set (defOperand t [] mo))"
proof (induction ops rule: rev_induct)
  case (snoc mo ops)
  then show ?case using defOperand_set [of t "foldl (defOperand t) defs ops" mo] by auto
qed simp

lemma defOperand_checkpointable: "g \<in> set (defOperand t [] mo) \<Longrightarrow> isCheckpointableReg t g"
  by (auto simp: defOperand_def Let_def split: option.splits if_splits)

lemma defsInPreds_checkpointable: "g \<in> set (defsInPreds mf t P) \<Longrightarrow> isCheckpointableReg t g"
  unfolding defsInPreds_def defOperands_set by (auto intro: defOperand_checkpointable)

lemma normalize_overlap:
  assumes "target_ok t" and "g \<in> set (gprs t)" and "regsOverlap t r g"
  shows "normalizeToGPR16 t r = g"
proof (cases "isCheckpointableReg t r")
  case True
  with assms have "regsOverlap t r r" "r \<in> set (gprs t)" by (auto simp: target_ok_def gprs_iff)
  with assms have "r = g" unfolding target_ok_def by blast
  with True show ?thesis by simp
next
  case False
  moreover have "overlappingGpr t r = Some g" using overlappingGpr_iff [OF assms(1,2)] assms(3) by simp
  ultimately show ?thesis by (auto simp: normalizeToGPR16_def isCheckpointableReg_def)
qed

lemma defsInPreds_written:
  assumes "target_ok t" and "g \<in> set (gprs t)" and "b \<in> set (layout mf)" and "b \<in> P"
    and "mi \<in> set (instrs (mbbAt mf b))" and "writesReg t g mi"
  shows "g \<in> set (defsInPreds mf t P)"
proof -
  from assms(6) obtain mo r where mo: "mo \<in> set (operands mi)" "physReg t mo = Some r" "regsOverlap t r g" "isDef mo"
    by (auto simp: writesReg_def touches_def list_ex_iff split: option.splits)
  have "\<not> isReserved t r" using assms(1,2) mo(3) unfolding target_ok_def by blast
  then have "g \<in> set (defOperand t [] mo)"
    using mo normalize_overlap [OF assms(1,2) mo(3)] assms(1,2)
    by (auto simp: defOperand_def Let_def gprs_iff target_ok_def isCheckpointableReg_def)
  with mo(1) assms(3,4,5) show ?thesis
    unfolding defsInPreds_def defOperands_set by fastforce
qed

section \<open>The whole analysis\<close>

definition regSlot :: "target_env \<Rightarrow> phys_reg \<Rightarrow> u32" where
  "regSlot t reg = of_nat reg - of_nat (regR4 t)"

lemma regSlot_bound:
  assumes "target_ok t" and "g \<in> set (gprs t)"
  shows "unat (regSlot t g) = g - regR4 t \<and> unat (regSlot t g) < 12"
proof -
  have "regR15 t = regR4 t + 11" using assms(1) unfolding target_ok_def by blast
  then have "regR4 t \<le> g" "g - regR4 t < 12" using assms(2) by (auto simp: gprs_def)
  moreover have "unat (of_nat k :: u32) = k" if "k < 12" for k :: nat
    using that by (simp add: unat_of_nat)
  moreover have "regSlot t g = of_nat (g - regR4 t)" if "regR4 t \<le> g"
    using that by (simp add: regSlot_def of_nat_diff)
  ultimately show ?thesis by metis
qed

definition regionSaves ::
  "MachineFunction \<Rightarrow> target_env \<Rightarrow> mbb_ptr set \<Rightarrow> mbb_ptr \<Rightarrow> MachineCheckpointPoint set" where
  "regionSaves mf t B S =
     (\<Union>reg \<in> {reg \<in> set (defsInPreds mf t (predBlockSet mf B S)). isRegLiveFromBlock mf t S reg}.
        {ckptPoint reg (regSlot t reg) S mi | b mi. savesIn mf t (predBlockSet mf B S) reg S b mi})"

lemma regionSavesE:
  assumes "c \<in> regionSaves mf t B S"
  obtains reg b mi where "c = ckptPoint reg (regSlot t reg) S mi"
    "reg \<in> set (defsInPreds mf t (predBlockSet mf B S))" "isRegLiveFromBlock mf t S reg"
    "savesIn mf t (predBlockSet mf B S) reg S b mi"
  using assms unfolding regionSaves_def by blast

lemma analyzeRegion_saves:
  assumes "ids_ok t (fst st)"
  shows "\<exists>st'. analyzeRegion mf t B st region = Some st' \<and> ids_ok t (fst st')
    \<and> set (snd st') = set (snd st) \<union> regionSaves mf t B (startBlock region)"
proof -
  let ?P = "predBlockSet mf B (startBlock region)" and ?S = "startBlock region"
  let ?saves = "\<lambda>reg. {ckptPoint reg (regSlot t reg) ?S mi | b mi. savesIn mf t ?P reg ?S b mi}"
  have "\<exists>st'. foldM (\<lambda>st reg. if \<not> isRegLiveFromBlock mf t ?S reg then Some st
           else findLastReachingDefs mf t ?P reg ?S st) st regs = Some st' \<and> ids_ok t (fst st')
    \<and> set (snd st') = set (snd st) \<union> (\<Union>reg \<in> {reg \<in> set regs. isRegLiveFromBlock mf t ?S reg}. ?saves reg)"
    if "set regs \<subseteq> set (defsInPreds mf t ?P)" for regs
    using that assms
  proof (induction regs arbitrary: st)
    case (Cons reg regs)
    have ck: "isCheckpointableReg t reg" using Cons.prems defsInPreds_checkpointable by auto
    have sub: "set regs \<subseteq> set (defsInPreds mf t ?P)" using Cons.prems by simp
    show ?case
    proof (cases "isRegLiveFromBlock mf t ?S reg")
      case False
      then have "{r \<in> set (reg # regs). isRegLiveFromBlock mf t ?S r} = {r \<in> set regs. isRegLiveFromBlock mf t ?S r}"
        by auto
      with Cons.IH [OF sub Cons.prems(2)] False show ?thesis by simp
    next
      case True
      from findLastReachingDefs_saves [OF Cons.prems(2) ck, of mf ?P ?S] obtain st1 where
        st1: "findLastReachingDefs mf t ?P reg ?S st = Some st1" "ids_ok t (fst st1)"
        "set (snd st1) = set (snd st) \<union> ?saves reg"
        by (auto simp: regSlot_def)
      have "{r \<in> set (reg # regs). isRegLiveFromBlock mf t ?S r} =
          insert reg {r \<in> set regs. isRegLiveFromBlock mf t ?S r}" using True by auto
      with Cons.IH [OF sub st1(2)] st1 True show ?thesis by (simp add: Un_assoc)
    qed
  qed auto
  from this [of "defsInPreds mf t ?P"] show ?thesis by (auto simp: analyzeRegion_def regionSaves_def Let_def)
qed

lemma regions_saves:
  assumes "ids_ok t (fst st)"
  shows "\<exists>st'. foldM (analyzeRegion mf t B) st regions = Some st'
    \<and> set (snd st') = set (snd st) \<union> (\<Union>S \<in> startBlock ` set regions. regionSaves mf t B S)"
  using assms
proof (induction regions arbitrary: st)
  case (Cons region regions)
  from analyzeRegion_saves [OF Cons.prems, of mf B region] obtain st1 where
    st1: "analyzeRegion mf t B st region = Some st1" "ids_ok t (fst st1)"
    "set (snd st1) = set (snd st) \<union> regionSaves mf t B (startBlock region)" by auto
  from Cons.IH [OF st1(2)] st1 show ?case by auto
qed auto

abbreviation ckptKey :: "MachineCheckpointPoint \<Rightarrow> nat \<times> phys_reg" where
  "ckptKey c \<equiv> (afterInst c, ckptReg c)"

lemma uniqueCheckpoints_keys: "ckptKey ` set (uniqueCheckpoints seen cs) = ckptKey ` set cs - seen"
  by (induction seen cs rule: uniqueCheckpoints.induct) auto

lemma uniqueCheckpoints_sub: "set (uniqueCheckpoints seen cs) \<subseteq> set cs"
  by (induction seen cs rule: uniqueCheckpoints.induct) auto

lemma uniqueCheckpoints_distinct: "distinct (map ckptKey (uniqueCheckpoints seen cs))"
proof (induction seen cs rule: uniqueCheckpoints.induct)
  case (2 seen ckpt ckpts)
  then show ?case using uniqueCheckpoints_keys [of "insert (ckptKey ckpt) seen" ckpts] by auto
qed simp

lemma analyzeCheckpoints_result:
  "\<exists>ckpts. analyzeCheckpoints mf t regions = Some ckpts \<and> distinct (map ckptKey ckpts)
    \<and> set ckpts \<subseteq> (\<Union>S \<in> startBlock ` set regions. regionSaves mf t (startBlock ` set regions) S)
    \<and> ckptKey ` set ckpts = ckptKey ` (\<Union>S \<in> startBlock ` set regions. regionSaves mf t (startBlock ` set regions) S)"
proof -
  have "ids_ok t (fst ([], []))" by (simp add: ids_ok_def)
  from regions_saves [OF this, of mf "startBlock ` set regions" regions] obtain st where
    st: "foldM (analyzeRegion mf t (startBlock ` set regions)) ([], []) regions = Some st"
    "set (snd st) = (\<Union>S \<in> startBlock ` set regions. regionSaves mf t (startBlock ` set regions) S)" by auto
  show ?thesis
    using st uniqueCheckpoints_distinct [of "{}" "snd st"] uniqueCheckpoints_sub [of "{}" "snd st"]
      uniqueCheckpoints_keys [of "{}" "snd st"]
    by (simp add: analyzeCheckpoints_def Let_def)
qed


lemma needEntry_path:
  "needEntry mf t P reg S s \<Longrightarrow>
     \<exists>p. cfg_path mf (p @ [S]) \<and> hd (p @ [S]) = s \<and> list_all (\<lambda>c. lastDefLike mf t reg c = None) p"
proof (induction rule: needEntry.induct)
  case boundary
  then show ?case by (intro exI [of _ "[]"]) simp
next
  case (pass b s)
  then obtain p where p: "cfg_path mf (p @ [S])" "hd (p @ [S]) = s"
    "list_all (\<lambda>c. lastDefLike mf t reg c = None) p" by auto
  have "cfg_path mf ((b # p) @ [S])" using p(1,2) pass(4) by (cases p) auto
  with p pass(3) show ?case by (intro exI [of _ "b # p"]) simp
qed

lemma savesIn_path:
  assumes "savesIn mf t P reg S b mi"
  shows "\<exists>p. cfg_path mf (b # p @ [S]) \<and> list_all (\<lambda>c. lastDefLike mf t reg c = None) p"
proof -
  from assms obtain s where s: "s \<in> set (succs (mbbAt mf b))" "needEntry mf t P reg S s"
    by (auto simp: savesIn_def)
  from needEntry_path [OF s(2)] obtain p where p: "cfg_path mf (p @ [S])" "hd (p @ [S]) = s"
    "list_all (\<lambda>c. lastDefLike mf t reg c = None) p" by auto
  have "cfg_path mf (b # p @ [S])" using p(1,2) s(1) by (cases p) auto
  with p(3) show ?thesis by auto
qed

section \<open>Properties\<close>

text \<open>(C35) No needed definition is missed. Take a path from a block to a region start that crosses no
  other region start and no instruction, between the two, that redefines the register or overwrites
  its slot. If the register is live at the region start and written in the first block, then the
  analysis ends and saves it, in its own slot, after the last instruction of the first block that
  defines it or overwrites its slot.\<close>

theorem analyzeCheckpoints_saves_last_definitions:
  assumes "target_ok t" and "mf_wf mf" and "region \<in> set regions" and "g \<in> set (gprs t)"
    and "cfg_path mf (b # p @ [startBlock region])"
    and "\<forall>c \<in> set p. c \<notin> startBlock ` set regions \<and> lastDefLike mf t g c = None"
    and "isRegLiveFromBlock mf t (startBlock region) g"
    and "list_ex (writesReg t g) (instrs (mbbAt mf b))"
    and "lastDefLike mf t g b = Some mi" and "\<not> isTerminator mi"
  shows "\<exists>ckpts. analyzeCheckpoints mf t regions = Some ckpts
    \<and> (\<exists>c \<in> set ckpts. afterInst c = mi_id mi \<and> ckptReg c = g \<and> unat (ckptRegId c) = g - regR4 t)"
proof -
  let ?B = "startBlock ` set regions" and ?S = "startBlock region"
  from analyzeCheckpoints_result [of mf t regions] obtain ckpts where
    ck: "analyzeCheckpoints mf t regions = Some ckpts"
    "set ckpts \<subseteq> (\<Union>S \<in> ?B. regionSaves mf t ?B S)"
    "ckptKey ` set ckpts = ckptKey ` (\<Union>S \<in> ?B. regionSaves mf t ?B S)" by auto
  from path_needed [OF assms(2,5,6)] have need: "b \<in> predBlockSet mf ?B ?S"
    "\<exists>s \<in> set (succs (mbbAt mf b)). needEntry mf t (predBlockSet mf ?B ?S) g ?S s" by auto
  have lay: "b \<in> set (layout mf)" using need(2) by (cases "b \<in> set (layout mf)") auto
  have "g \<in> set (defsInPreds mf t (predBlockSet mf ?B ?S))"
    using assms(8) defsInPreds_written [OF assms(1,4) lay need(1)] by (auto simp: list_ex_iff)
  moreover have "savesIn mf t (predBlockSet mf ?B ?S) g ?S b mi"
    using lay need assms(9,10) by (simp add: savesIn_def)
  ultimately have "ckptPoint g (regSlot t g) ?S mi \<in> regionSaves mf t ?B ?S"
    using assms(7) unfolding regionSaves_def by blast
  with assms(3) have "ckptPoint g (regSlot t g) ?S mi \<in> (\<Union>S \<in> ?B. regionSaves mf t ?B S)" by blast
  then have "ckptKey (ckptPoint g (regSlot t g) ?S mi) \<in> ckptKey ` set ckpts"
    unfolding ck(3) by (rule imageI)
  then obtain c where c: "c \<in> set ckpts" "afterInst c = mi_id mi" "ckptReg c = g"
    by (auto simp: ckptPoint_def)
  from c(1) ck(2) obtain S where "c \<in> regionSaves mf t ?B S" by blast
  then have "ckptRegId c = regSlot t g" using c(3) by (auto elim!: regionSavesE simp: ckptPoint_def)
  with c ck(1) regSlot_bound [OF assms(1,4)] show ?thesis by auto
qed

text \<open>The analysis always ends, saves no register twice after the same instruction, and every
  save is justified: its register is live at the region start it is made for, its slot is the
  register's own and one of the twelve, and from the instruction a path leads to that region start on
  which no later instruction redefines the register or overwrites its slot.\<close>

theorem analyzeCheckpoints_justified:
  assumes "target_ok t"
  shows "\<exists>ckpts. analyzeCheckpoints mf t regions = Some ckpts \<and> distinct (map ckptKey ckpts)
    \<and> list_all (\<lambda>c. regionStartOf c \<in> startBlock ` set regions
        \<and> isRegLiveFromBlock mf t (regionStartOf c) (ckptReg c)
        \<and> ckptReg c = regR4 t + unat (ckptRegId c) \<and> unat (ckptRegId c) < 12
        \<and> (\<exists>b p mi. cfg_path mf (b # p @ [regionStartOf c]) \<and> lastDefLike mf t (ckptReg c) b = Some mi
             \<and> mi_id mi = afterInst c \<and> \<not> isTerminator mi
             \<and> list_all (\<lambda>x. lastDefLike mf t (ckptReg c) x = None) p)) ckpts"
proof -
  let ?B = "startBlock ` set regions"
  from analyzeCheckpoints_result [of mf t regions] obtain ckpts where
    ck: "analyzeCheckpoints mf t regions = Some ckpts" "distinct (map ckptKey ckpts)"
    "set ckpts \<subseteq> (\<Union>S \<in> ?B. regionSaves mf t ?B S)" by auto
  have "regionStartOf c \<in> ?B \<and> isRegLiveFromBlock mf t (regionStartOf c) (ckptReg c)
      \<and> ckptReg c = regR4 t + unat (ckptRegId c) \<and> unat (ckptRegId c) < 12
      \<and> (\<exists>b p mi. cfg_path mf (b # p @ [regionStartOf c]) \<and> lastDefLike mf t (ckptReg c) b = Some mi
             \<and> mi_id mi = afterInst c \<and> \<not> isTerminator mi
             \<and> list_all (\<lambda>x. lastDefLike mf t (ckptReg c) x = None) p)" if "c \<in> set ckpts" for c
  proof -
    from that ck(3) obtain S where "S \<in> ?B" "c \<in> regionSaves mf t ?B S" by blast
    then obtain reg b mi where S: "S \<in> ?B"
      "c = ckptPoint reg (regSlot t reg) S mi" "reg \<in> set (defsInPreds mf t (predBlockSet mf ?B S))"
      "isRegLiveFromBlock mf t S reg" "savesIn mf t (predBlockSet mf ?B S) reg S b mi"
      by (elim regionSavesE)
    have g: "reg \<in> set (gprs t)" using S(3) defsInPreds_checkpointable by (simp add: gprs_iff)
    have slot: "unat (regSlot t reg) = reg - regR4 t" "unat (regSlot t reg) < 12" "regR4 t \<le> reg"
      using regSlot_bound [OF assms g] g by (auto simp: gprs_def)
    from savesIn_path [OF S(5)] S(5) have "\<exists>b p mi. cfg_path mf (b # p @ [S]) \<and> lastDefLike mf t reg b = Some mi
             \<and> mi_id mi = afterInst c \<and> \<not> isTerminator mi
             \<and> list_all (\<lambda>x. lastDefLike mf t reg x = None) p"
      unfolding savesIn_def S(2) ckptPoint_def by force
    with S(1,2,4) slot show ?thesis by (simp add: ckptPoint_def)
  qed
  with ck(1,2) show ?thesis
    by (intro exI [of _ ckpts] conjI) (simp_all only: list_all_iff [of _ ckpts], blast)
qed


lemma sample_mf_wf: "mf_wf sample_mf"
  by (auto simp: mf_wf_def mbbAt_def layout_def omap_get_def sample_mf_def noMBB_def split: if_splits)

definition sample_regions :: "MachineRegionInfo list" where
  "sample_regions = [\<lparr>startBlock = 2, regionBlocks = [2], totalEnergy = 5\<rparr>,
                     \<lparr>startBlock = 3, regionBlocks = [3], totalEnergy = 4\<rparr>]"

theorem analyzeCheckpoints_saves_last_definitions_witness:
  "\<exists>ckpts. analyzeCheckpoints sample_mf sample_target sample_regions = Some ckpts
    \<and> (\<exists>c \<in> set ckpts. afterInst c = 20 \<and> ckptReg c = 4 \<and> unat (ckptRegId c) = 0)"
  using analyzeCheckpoints_saves_last_definitions
    [of sample_target sample_mf "\<lparr>startBlock = 3, regionBlocks = [3], totalEnergy = 4\<rparr>" sample_regions 4 2 "[]"
      "plainInstr 20 ''MOV16ri'' [RegOperand 4 True False, OtherOperand]"]
    sample_mf_wf sample_live
  by (simp add: sample_regions_def gprs_def sample_mf_def mbbAt_def omap_get_def writesReg_def touches_def
      lastDefLike_def defLike_def plainInstr_def)

theorem analyzeCheckpoints_justified_witness:
  "\<exists>ckpts. analyzeCheckpoints sample_mf sample_target sample_regions = Some ckpts \<and> distinct (map ckptKey ckpts)"
  using analyzeCheckpoints_justified [OF sample_target_ok, of sample_mf sample_regions] by blast

text \<open>A function of three regions: R4 is written in the first, the second only calls a function that
  is instrumented itself, and the third reads R4.\<close>

definition clobber_call :: MachineInstr where
  "clobber_call = (plainInstr 30 ''CALLi'' [GlobalOperand (FunctionRef ''helper'' False) 0])\<lparr>isCall := True\<rparr>"

definition clobber_mf :: MachineFunction where
  "clobber_mf = \<lparr>mf_name = ''f'', mf_blocks =
     [(2, \<lparr>instrs = [plainInstr 20 ''MOV16ri'' [RegOperand 4 True False, OtherOperand]],
           succs = [3], preds = [], isReturnBlock = False\<rparr>),
      (3, \<lparr>instrs = [clobber_call], succs = [5], preds = [2], isReturnBlock = False\<rparr>),
      (5, \<lparr>instrs = [plainInstr 50 ''MOV16mr'' [RegOperand 4 False False]],
           succs = [], preds = [3], isReturnBlock = True\<rparr>)]\<rparr>"

definition clobber_regions :: "MachineRegionInfo list" where
  "clobber_regions = map (\<lambda>b. \<lparr>startBlock = b, regionBlocks = [b], totalEnergy = 0\<rparr>) [2, 3, 5]"


end
