(* ===== verification/RockClimb.thy ===== *)
theory RockClimb
  imports MachineCheckpointing
begin

text \<open>
  The RockClimb machine pass: the configuration (\<open>common/RockClimbConfig\<close>), the region optimizer
  (\<open>rockclimb-backend/RockClimbMachineOptimizer.cpp\<close>), the instrumenter
  (\<open>RockClimbMachineInstrumenter.cpp\<close>) and the pass that runs them (\<open>RockClimbMachinePass.cpp\<close>).

  Arguments of the model: the parsed JSON document with the accessors the code calls, LLVM's loop tree
  and reverse post-order, the block energy estimate, and the two LLVM builders the instrumenter uses.
  Log output, statistics and the text of messages are left out.

  Shown: partitioning fails exactly when one block alone exceeds the budget; otherwise every path of
  blocks between two region boundaries costs less than a full charge after prologue, epilogue and
  register restore; the regions tile the topological order. The cost charged for register saves is an
  upper bound only for registers that no instruction both reads and writes.
\<close>

section \<open>Configuration\<close>

datatype json_object = JsonObject
  (getNumber: "string \<Rightarrow> double option")
  (getInteger: "string \<Rightarrow> int option")
  (getBoolean: "string \<Rightarrow> bool option")
  (getObject: "string \<Rightarrow> json_object option")

record RockClimbParams =
  rcCapacity :: double
  rcEPro :: double
  rcEEpi :: double
  rcNReg :: u32
  rcRegRestoreEnergy :: double
  rcRegStoreEnergy :: double
  rcDistributedCheckpointing :: bool

definition calculateESafe :: "RockClimbParams \<Rightarrow> double" where
  "calculateESafe p = rcCapacity p - rcEPro p - rcEEpi p - u2r (rcNReg p - 2) * rcRegRestoreEnergy p"

text \<open>The first error, in the order in which the parser reports them. The file not opening, not
  parsing and not being an object are all the absence of the object.\<close>

datatype config_error = ConfigUnreadable | ConfigMissing string | NRegTooSmall

definition requireField :: "string \<Rightarrow> 'a option \<Rightarrow> config_error + 'a" where
  "requireField name v = (case v of Some a \<Rightarrow> Inr a | None \<Rightarrow> Inl (ConfigMissing name))"

definition distributedFlag :: "json_object \<Rightarrow> bool" where
  "distributedFlag rootObj =
     (case (case getObject rootObj ''rockclimb'' of Some rc \<Rightarrow> getBoolean rc ''distributed_checkpointing'' | None \<Rightarrow> None) of
        Some v \<Rightarrow> v
      | None \<Rightarrow> (case getBoolean rootObj ''distributed_checkpointing'' of Some v \<Rightarrow> v | None \<Rightarrow> True))"

definition parseRockClimbParams :: "json_object option \<Rightarrow> config_error + RockClimbParams" where
  "parseRockClimbParams doc =
     (case doc of
        None \<Rightarrow> Inl ConfigUnreadable
      | Some rootObj \<Rightarrow>
          bindE (requireField ''capacity''
            (case getNumber rootObj ''capacity'' of Some c \<Rightarrow> Some c | None \<Rightarrow> getNumber rootObj ''E_input'')) (\<lambda>capacity.
          bindE (requireField ''N_reg'' (getInteger rootObj ''N_reg'')) (\<lambda>nreg.
          bindE (requireField ''reg_store_energy'' (getNumber rootObj ''reg_store_energy'')) (\<lambda>store.
          bindE (requireField ''reg_restore_energy'' (getNumber rootObj ''reg_restore_energy'')) (\<lambda>restore.
          bindE (requireField ''E_pro'' (getNumber rootObj ''E_pro'')) (\<lambda>pro.
          bindE (requireField ''E_epi'' (getNumber rootObj ''E_epi'')) (\<lambda>epi.
            if nreg < 2 then Inl NRegTooSmall
            else Inr \<lparr>rcCapacity = capacity, rcEPro = pro, rcEEpi = epi, rcNReg = word_of_int nreg,
              rcRegRestoreEnergy = restore, rcRegStoreEnergy = store,
              rcDistributedCheckpointing = distributedFlag rootObj\<rparr>)))))))"

section \<open>The optimizer's tables\<close>

datatype MachineLoop = MachineLoop (loopHeader: mbb_ptr) (subLoops: "MachineLoop list")

function headersQueue :: "MachineLoop list \<Rightarrow> mbb_ptr set \<Rightarrow> mbb_ptr set" where
  "headersQueue [] headers = headers"
| "headersQueue (L # queue) headers =
     headersQueue (queue @ subLoops L) (if loopHeader L \<noteq> nullptr then insert (loopHeader L) headers else headers)"
  by pat_completeness auto
termination
proof (relation "measure (\<lambda>(q, h). size_list size q)", goal_cases)
  case (2 L queue headers)
  then show ?case by (cases L) simp
qed simp

definition identifyLoopHeaders :: "MachineLoop list \<Rightarrow> mbb_ptr set" where
  "identifyLoopHeaders loops = foldl (\<lambda>headers L. headersQueue [L] headers) {} loops"

definition identifyExitBlocks :: "MachineFunction \<Rightarrow> mbb_ptr set" where
  "identifyExitBlocks mf = set (filter (\<lambda>b. isReturnBlock (mbbAt mf b)) (layout mf))"

definition rpoIndex :: "mbb_ptr list \<Rightarrow> mbb_ptr \<Rightarrow> nat option" where
  "rpoIndex rpo = map_of (zip rpo [0 ..< length rpo])"

definition retreatingTargets :: "MachineFunction \<Rightarrow> mbb_ptr list \<Rightarrow> mbb_ptr set" where
  "retreatingTargets mf rpo =
     (if layout mf = [] then {}
      else set (concat (map (\<lambda>b. filter (\<lambda>s. case (rpoIndex rpo s, rpoIndex rpo b) of
                  (Some i, Some j) \<Rightarrow> i \<le> j | _ \<Rightarrow> False) (succs (mbbAt mf b))) rpo)))"

definition topoOrder :: "MachineFunction \<Rightarrow> mbb_ptr list \<Rightarrow> mbb_ptr list" where
  "topoOrder mf rpo = (if layout mf = [] then [] else rpo @ filter (\<lambda>b. b \<notin> set rpo) (layout mf))"

definition definedOperand :: "target_env \<Rightarrow> MachineOperand \<Rightarrow> phys_reg option" where
  "definedOperand t mo =
     (case physReg t mo of
        None \<Rightarrow> None
      | Some reg \<Rightarrow> if \<not> isDef mo \<or> isReserved t reg then None else overlappingGpr t reg)"

definition definedIn :: "target_env \<Rightarrow> MachineInstr list \<Rightarrow> phys_reg set" where
  "definedIn t mis = set (List.map_filter (definedOperand t) (concat (map operands mis)))"

definition saveCount :: "MachineFunction \<Rightarrow> target_env \<Rightarrow> live_sets \<Rightarrow> mbb_ptr \<Rightarrow> nat" where
  "saveCount mf t liveIn b =
     (let liveOut = liveOutOf mf liveIn b;
          mis = instrs (mbbAt mf b);
          hasClobberingCall = list_ex (\<lambda>mi. isCall mi \<and> callMayClobberNvmRegs mi) mis
      in card (Set.filter (\<lambda>reg. hasClobberingCall \<or> reg \<in> definedIn t mis) liveOut))"

type_synonym energy_costs = "(mbb_ptr, double) omap"

text \<open>\<open>None\<close> is the fatal error of the estimator.\<close>

definition estimatedCosts :: "MachineFunction \<Rightarrow> (mbb_ptr \<Rightarrow> double option) \<Rightarrow> energy_costs option" where
  "estimatedCosts mf estimateBlock =
     foldM (\<lambda>costs b. map_option (\<lambda>e. omap_put b e costs) (estimateBlock b)) [] (layout mf)"

definition getBlockCost :: "energy_costs \<Rightarrow> mbb_ptr \<Rightarrow> double" where
  "getBlockCost costs b = omap_get 0 costs b"

definition addDistributedSaveCosts ::
  "MachineFunction \<Rightarrow> target_env \<Rightarrow> double \<Rightarrow> energy_costs \<Rightarrow> energy_costs option" where
  "addDistributedSaveCosts mf t regStoreEnergy costs =
     map_option (\<lambda>liveIn.
       foldl (\<lambda>costs b. if liveOutOf mf liveIn b = {} then costs
                else omap_put b (getBlockCost costs b + real (saveCount mf t liveIn b) * regStoreEnergy) costs)
         costs (layout mf))
     (computeBulkLiveIn mf t)"

record optimizer_state =
  rcFunction :: MachineFunction
  rcEnergyCosts :: energy_costs
  rcESafe :: double
  rcLoopHeaders :: "mbb_ptr set"
  rcExitBlocks :: "mbb_ptr set"
  rcTopoOrder :: "mbb_ptr list"
  rcRetreatingTargets :: "mbb_ptr set"

definition makeOptimizer ::
  "MachineFunction \<Rightarrow> target_env \<Rightarrow> MachineLoop list \<Rightarrow> mbb_ptr list \<Rightarrow> (mbb_ptr \<Rightarrow> double option)
     \<Rightarrow> double \<Rightarrow> double \<Rightarrow> optimizer_state option" where
  "makeOptimizer mf t loops rpo estimateBlock eSafe regStoreEnergy =
     map_option (\<lambda>costs.
       \<lparr>rcFunction = mf, rcEnergyCosts = costs, rcESafe = eSafe,
        rcLoopHeaders = identifyLoopHeaders loops, rcExitBlocks = identifyExitBlocks mf,
        rcTopoOrder = topoOrder mf rpo, rcRetreatingTargets = retreatingTargets mf rpo\<rparr>)
     (case estimatedCosts mf estimateBlock of
        None \<Rightarrow> None
      | Some costs \<Rightarrow> if 0 < regStoreEnergy then addDistributedSaveCosts mf t regStoreEnergy costs else Some costs)"

section \<open>Region partitioning\<close>

record MachineRockClimbResult =
  regionBoundaries :: "mbb_ptr list"
  rcRegions :: "MachineRegionInfo list"
  rcFeasible :: bool
  errorBlock :: "mbb_ptr option"

definition mandatoryBoundary :: "optimizer_state \<Rightarrow> mbb_ptr \<Rightarrow> bool" where
  "mandatoryBoundary st b \<longleftrightarrow>
     b \<in> rcLoopHeaders st \<or> b \<in> rcRetreatingTargets st \<or> b \<in> rcExitBlocks st"

text \<open>One block of the income propagation: the boundaries, the income of every block, and \<open>Inl\<close> with
  the block that does not fit one charge.\<close>

type_synonym partition_state = "mbb_ptr set \<times> (mbb_ptr \<Rightarrow> double)"

definition partitionBlock ::
  "optimizer_state \<Rightarrow> mbb_ptr \<Rightarrow> partition_state \<Rightarrow> mbb_ptr \<Rightarrow> mbb_ptr + partition_state" where
  "partitionBlock st entryMBB s b =
     (let cost = getBlockCost (rcEnergyCosts st) b;
          bounds = (if b \<noteq> entryMBB \<and> mandatoryBoundary st b then insert b (fst s) else fst s);
          (bounds, accum) =
            (if b \<in> bounds then (bounds, cost)
             else let candidate = cost + snd s b
                  in if rcESafe st \<le> candidate then (insert b bounds, cost) else (bounds, candidate))
      in if rcESafe st \<le> accum then Inl b
         else Inr (bounds, foldl (\<lambda>income succ. income(succ := max (income succ) accum))
                     (snd s) (succs (mbbAt (rcFunction st) b))))"

fun partitionBlocks ::
  "optimizer_state \<Rightarrow> mbb_ptr \<Rightarrow> partition_state \<Rightarrow> mbb_ptr list \<Rightarrow> mbb_ptr + partition_state" where
  "partitionBlocks st entryMBB s [] = Inr s"
| "partitionBlocks st entryMBB s (b # bs) =
     bindE (partitionBlock st entryMBB s b) (\<lambda>s'. partitionBlocks st entryMBB s' bs)"

record region_build =
  rbStart :: mbb_ptr
  rbBlocks :: "mbb_ptr list"
  rbEnergy :: double
  rbRegions :: "MachineRegionInfo list"
  rbBoundaries :: "mbb_ptr list"

definition finishRegion :: "region_build \<Rightarrow> region_build" where
  "finishRegion rb =
     (if rbBlocks rb = [] then rb
      else rb\<lparr>rbRegions := rbRegions rb @
        [\<lparr>startBlock = rbStart rb, regionBlocks = rbBlocks rb, totalEnergy = rbEnergy rb\<rparr>]\<rparr>)"

definition buildRegion :: "energy_costs \<Rightarrow> mbb_ptr set \<Rightarrow> region_build \<Rightarrow> mbb_ptr \<Rightarrow> region_build" where
  "buildRegion costs bounds rb b =
     (let rb1 = (if b \<in> bounds
                 then (finishRegion rb)\<lparr>rbBoundaries := rbBoundaries rb @ [b], rbStart := b, rbBlocks := [], rbEnergy := 0\<rparr>
                 else rb)
      in rb1\<lparr>rbBlocks := rbBlocks rb1 @ [b], rbEnergy := rbEnergy rb1 + getBlockCost costs b\<rparr>)"

definition emptyBuild :: "mbb_ptr \<Rightarrow> region_build" where
  "emptyBuild entry = \<lparr>rbStart = entry, rbBlocks = [], rbEnergy = 0, rbRegions = [], rbBoundaries = []\<rparr>"

definition partitionRegions :: "optimizer_state \<Rightarrow> MachineRockClimbResult" where
  "partitionRegions st =
     (case rcTopoOrder st of
        [] \<Rightarrow> \<lparr>regionBoundaries = [], rcRegions = [], rcFeasible = True, errorBlock = None\<rparr>
      | entryMBB # _ \<Rightarrow>
          (let bounds0 = (if mf_name (rcFunction st) \<noteq> ''main'' then {entryMBB} else {})
           in case partitionBlocks st entryMBB (bounds0, \<lambda>_. 0) (rcTopoOrder st) of
                Inl b \<Rightarrow> \<lparr>regionBoundaries = [], rcRegions = [], rcFeasible = False, errorBlock = Some b\<rparr>
              | Inr s \<Rightarrow>
                  (let rb = finishRegion (foldl (buildRegion (rcEnergyCosts st) (fst s)) (emptyBuild entryMBB) (rcTopoOrder st))
                   in \<lparr>regionBoundaries = rbBoundaries rb, rcRegions = rbRegions rb, rcFeasible = True, errorBlock = None\<rparr>)))"


section \<open>Income propagation\<close>

abbreviation costOf :: "optimizer_state \<Rightarrow> mbb_ptr \<Rightarrow> double" where
  "costOf st \<equiv> getBlockCost (rcEnergyCosts st)"

abbreviation succOf :: "optimizer_state \<Rightarrow> mbb_ptr \<Rightarrow> mbb_ptr set" where
  "succOf st b \<equiv> set (succs (mbbAt (rcFunction st) b))"

lemma raise_income:
  "foldl (\<lambda>income s. income(s := max (income s) a)) income ss x =
     (if x \<in> set ss then max (income x) a else income x)" for a :: double
  by (induction ss arbitrary: income) auto

lemma partitionBlock_Inr:
  assumes "partitionBlock st e s b = Inr s'"
  obtains accum where "fst s \<subseteq> fst s'" "fst s' \<subseteq> insert b (fst s)" "b \<noteq> e \<Longrightarrow> mandatoryBoundary st b \<Longrightarrow> b \<in> fst s'"
    "accum = (if b \<in> fst s' then costOf st b else costOf st b + snd s b)" "accum < rcESafe st"
    "\<And>x. snd s' x = (if x \<in> succOf st b then max (snd s x) accum else snd s x)"
proof -
  define B1 where "B1 = (if b \<noteq> e \<and> mandatoryBoundary st b then insert b (fst s) else fst s)"
  define full where "full \<longleftrightarrow> b \<notin> B1 \<and> rcESafe st \<le> costOf st b + snd s b"
  define B2 where "B2 = (if full then insert b B1 else B1)"
  define accum where "accum = (if b \<in> B2 then costOf st b else costOf st b + snd s b)"
  have eq: "partitionBlock st e s b =
      (if rcESafe st \<le> accum then Inl b
       else Inr (B2, foldl (\<lambda>income succ. income(succ := max (income succ) accum)) (snd s)
         (succs (mbbAt (rcFunction st) b))))"
    by (auto simp: partitionBlock_def Let_def accum_def B2_def full_def B1_def)
  with assms have s': "s' = (B2, foldl (\<lambda>income succ. income(succ := max (income succ) accum)) (snd s)
         (succs (mbbAt (rcFunction st) b)))" and lt: "accum < rcESafe st" by (auto split: if_splits)
  show ?thesis
    by (rule that [of accum])
      (use s' lt in \<open>auto simp: raise_income accum_def B2_def B1_def split: if_splits\<close>)
qed

lemma partitionBlock_Inl:
  assumes "partitionBlock st e s b = Inl x"
  shows "x = b \<and> rcESafe st \<le> costOf st b"
  using assms by (auto simp: partitionBlock_def Let_def split: if_splits)

definition part_inv :: "optimizer_state \<Rightarrow> mbb_ptr \<Rightarrow> mbb_ptr list \<Rightarrow> partition_state \<Rightarrow> (mbb_ptr \<Rightarrow> double) \<Rightarrow> bool" where
  "part_inv st e pre s acc \<longleftrightarrow>
     (\<forall>x. 0 \<le> snd s x)
     \<and> (\<forall>b \<in> set pre. costOf st b \<le> acc b \<and> acc b < rcESafe st \<and> (\<forall>x \<in> succOf st b. acc b \<le> snd s x))
     \<and> (\<forall>b \<in> set pre. b \<noteq> e \<longrightarrow> mandatoryBoundary st b \<longrightarrow> b \<in> fst s)
     \<and> (\<forall>b \<in> set pre. b \<notin> fst s \<longrightarrow> (\<forall>p \<in> set (takeWhile (\<lambda>x. x \<noteq> b) pre). b \<in> succOf st p \<longrightarrow> acc p + costOf st b \<le> acc b))"

lemma part_inv_step:
  assumes inv: "part_inv st e pre s acc" and new: "b \<notin> set pre" and ok: "partitionBlock st e s b = Inr s'"
  shows "\<exists>a. part_inv st e (pre @ [b]) s' (acc(b := a))"
proof -
  from partitionBlock_Inr [OF ok] obtain accum where
    B: "fst s \<subseteq> fst s'" "fst s' \<subseteq> insert b (fst s)" "b \<noteq> e \<Longrightarrow> mandatoryBoundary st b \<Longrightarrow> b \<in> fst s'"
    and a: "accum = (if b \<in> fst s' then costOf st b else costOf st b + snd s b)" "accum < rcESafe st"
    and inc: "\<And>x. snd s' x = (if x \<in> succOf st b then max (snd s x) accum else snd s x)"
    by metis
  have pos: "0 \<le> snd s x" for x using inv by (simp add: part_inv_def)
  have up: "snd s x \<le> snd s' x" for x by (simp add: inc)
  have ge: "costOf st b \<le> accum" using a(1) pos [of b] by simp
  have "part_inv st e (pre @ [b]) s' (acc(b := accum))"
    unfolding part_inv_def
  proof (intro conjI ballI allI impI)
    fix x show "0 \<le> snd s' x" using pos [of x] up [of x] by linarith
  next
    fix c assume c: "c \<in> set (pre @ [b])"
    show "costOf st c \<le> (acc(b := accum)) c" using c ge inv by (auto simp: part_inv_def)
    show "(acc(b := accum)) c < rcESafe st" using c a(2) inv by (auto simp: part_inv_def)
    fix x assume x: "x \<in> succOf st c"
    show "(acc(b := accum)) c \<le> snd s' x"
    proof (cases "c = b")
      case True
      with x show ?thesis by (simp add: inc)
    next
      case False
      with c x inv have "acc c \<le> snd s x" by (auto simp: part_inv_def)
      with up [of x] False show ?thesis by simp
    qed
  next
    fix c assume "c \<in> set (pre @ [b])" "c \<noteq> e" "mandatoryBoundary st c"
    with B inv show "c \<in> fst s'" by (auto simp: part_inv_def)
  next
    fix c p assume c: "c \<in> set (pre @ [b])" "c \<notin> fst s'"
      and p: "p \<in> set (takeWhile (\<lambda>x. x \<noteq> c) (pre @ [b]))" "c \<in> succOf st p"
    show "(acc(b := accum)) p + costOf st c \<le> (acc(b := accum)) c"
    proof (cases "c = b")
      case True
      with p(1) new have "p \<in> set pre" by (auto simp: takeWhile_append2 dest: set_takeWhileD)
      with True p(2) inv new have "acc p \<le> snd s b" "p \<noteq> b" by (auto simp: part_inv_def)
      with True c(2) a(1) show ?thesis by simp
    next
      case False
      with c(1) have cp: "c \<in> set pre" by simp
      with p(1) have "p \<in> set (takeWhile (\<lambda>x. x \<noteq> c) pre)" by (simp add: takeWhile_append1)
      moreover from this have "p \<noteq> b" using new by (auto dest: set_takeWhileD)
      ultimately show ?thesis using cp c(2) p(2) B(1) False inv by (auto simp: part_inv_def)
    qed
  qed
  then show ?thesis ..
qed

lemma partitionBlocks_inv:
  assumes "part_inv st e pre s acc" and "distinct (pre @ bs)" and "partitionBlocks st e s bs = Inr s'"
  shows "\<exists>acc'. part_inv st e (pre @ bs) s' acc'"
  using assms
proof (induction bs arbitrary: pre s acc)
  case (Cons b bs)
  from Cons.prems(3) obtain s1 where s1: "partitionBlock st e s b = Inr s1" "partitionBlocks st e s1 bs = Inr s'"
    by (auto simp: bindE_def split: sum.splits)
  have "b \<notin> set pre" using Cons.prems(2) by simp
  from part_inv_step [OF Cons.prems(1) this s1(1)] obtain a where "part_inv st e (pre @ [b]) s1 (acc(b := a))" ..
  from Cons.IH [OF this _ s1(2)] Cons.prems(2) show ?case by simp
qed auto

lemma partitionBlocks_mono:
  "partitionBlocks st e s bs = Inr s' \<Longrightarrow> fst s \<subseteq> fst s'"
proof (induction bs arbitrary: s)
  case (Cons b bs)
  then obtain s1 where "partitionBlock st e s b = Inr s1" "partitionBlocks st e s1 bs = Inr s'"
    by (auto simp: bindE_def split: sum.splits)
  with Cons.IH [of s1] show ?case by (meson partitionBlock_Inr order_trans)
qed simp

lemma partitionBlocks_fail:
  assumes "partitionBlocks st e s bs = Inl x"
  shows "x \<in> set bs \<and> rcESafe st \<le> costOf st x"
  using assms
proof (induction bs arbitrary: s)
  case (Cons b bs)
  then show ?case
    by (auto simp: bindE_def split: sum.splits dest: partitionBlock_Inl)
qed simp


section \<open>The regions\<close>

definition regionFacts :: "energy_costs \<Rightarrow> mbb_ptr set \<Rightarrow> MachineRegionInfo \<Rightarrow> bool" where
  "regionFacts costs B r \<longleftrightarrow>
     regionBlocks r \<noteq> [] \<and> startBlock r = hd (regionBlocks r) \<and> set (tl (regionBlocks r)) \<inter> B = {}
     \<and> totalEnergy r = sum_list (map (getBlockCost costs) (regionBlocks r))"

definition build_inv :: "energy_costs \<Rightarrow> mbb_ptr set \<Rightarrow> mbb_ptr \<Rightarrow> mbb_ptr list \<Rightarrow> region_build \<Rightarrow> bool" where
  "build_inv costs B e pre rb \<longleftrightarrow>
     concat (map regionBlocks (rbRegions rb)) @ rbBlocks rb = pre
     \<and> rbBoundaries rb = filter (\<lambda>b. b \<in> B) pre
     \<and> list_all (regionFacts costs B) (rbRegions rb)
     \<and> (rbBlocks rb = [] \<longrightarrow> pre = [] \<and> rbStart rb = e \<and> rbEnergy rb = 0)
     \<and> (rbBlocks rb \<noteq> [] \<longrightarrow>
          regionFacts costs B \<lparr>startBlock = rbStart rb, regionBlocks = rbBlocks rb, totalEnergy = rbEnergy rb\<rparr>)"

lemma build_inv_step:
  assumes "build_inv costs B e pre rb" and "pre = [] \<Longrightarrow> b = e"
  shows "build_inv costs B e (pre @ [b]) (buildRegion costs B rb b)"
proof (cases "rbBlocks rb = []")
  case True
  with assms show ?thesis
    by (auto simp: build_inv_def buildRegion_def finishRegion_def regionFacts_def Let_def)
next
  case False
  with assms show ?thesis
    by (auto simp: build_inv_def buildRegion_def finishRegion_def regionFacts_def Let_def)
qed

lemma build_inv_fold:
  assumes "build_inv costs B e pre rb" and "hd (pre @ bs) = e"
  shows "build_inv costs B e (pre @ bs) (foldl (buildRegion costs B) rb bs)"
  using assms
proof (induction bs arbitrary: pre rb)
  case (Cons b bs)
  have "build_inv costs B e (pre @ [b]) (buildRegion costs B rb b)"
    using Cons.prems by (intro build_inv_step) auto
  from Cons.IH [OF this] Cons.prems(2) show ?case by simp
qed simp

lemma regions_built:
  assumes "topo \<noteq> []" and rb: "rb = finishRegion (foldl (buildRegion costs B) (emptyBuild (hd topo)) topo)"
  shows "concat (map regionBlocks (rbRegions rb)) = topo \<and> rbBoundaries rb = filter (\<lambda>b. b \<in> B) topo
    \<and> list_all (regionFacts costs B) (rbRegions rb)"
proof -
  have "build_inv costs B (hd topo) [] (emptyBuild (hd topo))"
    by (simp add: build_inv_def emptyBuild_def)
  from build_inv_fold [OF this, of topo] assms(1) show ?thesis
    by (auto simp: build_inv_def rb finishRegion_def)
qed

section \<open>Results of the partition\<close>

text \<open>What LLVM promises of its reverse post-order: the entry first, every block once, only blocks of
  the function, and with a block its successors.\<close>

definition rpo_ok :: "MachineFunction \<Rightarrow> mbb_ptr list \<Rightarrow> bool" where
  "rpo_ok mf rpo \<longleftrightarrow> rpo \<noteq> [] \<and> distinct rpo \<and> set rpo \<subseteq> set (layout mf) \<and> distinct (layout mf)
     \<and> (\<forall>b \<in> set rpo. set (succs (mbbAt mf b)) \<subseteq> set rpo)"

lemma makeOptimizer_fields:
  assumes "makeOptimizer mf t loops rpo est eSafe store = Some st"
  shows "rcFunction st = mf" "rcESafe st = eSafe" "rcTopoOrder st = topoOrder mf rpo"
    "rcRetreatingTargets st = retreatingTargets mf rpo" "rcExitBlocks st = identifyExitBlocks mf"
    "rcLoopHeaders st = identifyLoopHeaders loops"
  using assms by (auto simp: makeOptimizer_def)

lemma topoOrder_rpo:
  assumes "rpo_ok mf rpo"
  shows "topoOrder mf rpo = rpo @ filter (\<lambda>b. b \<notin> set rpo) (layout mf)" "distinct (topoOrder mf rpo)"
    "set (topoOrder mf rpo) = set (layout mf)" "topoOrder mf rpo \<noteq> []" "hd (topoOrder mf rpo) = hd rpo"
  using assms by (auto simp: rpo_ok_def topoOrder_def)

lemma partitionRegions_unfold:
  assumes "rcTopoOrder st \<noteq> []"
  shows "partitionRegions st =
    (case partitionBlocks st (hd (rcTopoOrder st))
        (if mf_name (rcFunction st) \<noteq> ''main'' then {hd (rcTopoOrder st)} else {}, \<lambda>_. 0) (rcTopoOrder st) of
       Inl b \<Rightarrow> \<lparr>regionBoundaries = [], rcRegions = [], rcFeasible = False, errorBlock = Some b\<rparr>
     | Inr s \<Rightarrow>
         (let rb = finishRegion (foldl (buildRegion (rcEnergyCosts st) (fst s)) (emptyBuild (hd (rcTopoOrder st))) (rcTopoOrder st))
          in \<lparr>regionBoundaries = rbBoundaries rb, rcRegions = rbRegions rb, rcFeasible = True, errorBlock = None\<rparr>))"
proof -
  obtain e rest where "rcTopoOrder st = e # rest" using assms by (cases "rcTopoOrder st") auto
  then show ?thesis unfolding partitionRegions_def by (simp only: list.case list.sel Let_def)
qed

lemma partitionRegions_feasible:
  assumes "rcTopoOrder st \<noteq> []" and "rcFeasible (partitionRegions st)"
  obtains B inc where
    "partitionBlocks st (hd (rcTopoOrder st))
       (if mf_name (rcFunction st) \<noteq> ''main'' then {hd (rcTopoOrder st)} else {}, \<lambda>_. 0) (rcTopoOrder st) = Inr (B, inc)"
    "concat (map regionBlocks (rcRegions (partitionRegions st))) = rcTopoOrder st"
    "regionBoundaries (partitionRegions st) = filter (\<lambda>b. b \<in> B) (rcTopoOrder st)"
    "list_all (regionFacts (rcEnergyCosts st) B) (rcRegions (partitionRegions st))"
proof -
  show ?thesis
  proof (cases "partitionBlocks st (hd (rcTopoOrder st))
      (if mf_name (rcFunction st) \<noteq> ''main'' then {hd (rcTopoOrder st)} else {}, \<lambda>_. 0) (rcTopoOrder st)")
    case (Inl x)
    with assms(2) show ?thesis unfolding partitionRegions_unfold [OF assms(1)] by simp
  next
    case (Inr s)
    from regions_built [OF assms(1) refl, of "rcEnergyCosts st" "fst s"] Inr show ?thesis
      by (intro that [of "fst s" "snd s"]) (simp_all add: partitionRegions_unfold [OF assms(1)] Let_def)
  qed
qed

lemma partitionRegions_infeasible:
  assumes "rcTopoOrder st \<noteq> []" and "\<not> rcFeasible (partitionRegions st)"
  shows "\<exists>x \<in> set (rcTopoOrder st). errorBlock (partitionRegions st) = Some x \<and> rcESafe st \<le> costOf st x"
proof (cases "partitionBlocks st (hd (rcTopoOrder st))
    (if mf_name (rcFunction st) \<noteq> ''main'' then {hd (rcTopoOrder st)} else {}, \<lambda>_. 0) (rcTopoOrder st)")
  case (Inl x)
  with partitionBlocks_fail [OF Inl] show ?thesis unfolding partitionRegions_unfold [OF assms(1)] by simp
next
  case (Inr s)
  with assms(2) show ?thesis unfolding partitionRegions_unfold [OF assms(1)] by (simp add: Let_def)
qed

lemma rpoIndex_nth:
  assumes "distinct rpo"
  shows "rpoIndex rpo b = Some i \<longleftrightarrow> i < length rpo \<and> rpo ! i = b"
proof -
  have "distinct (map fst (zip rpo [0 ..< length rpo]))" using assms by simp
  then show ?thesis by (auto simp: rpoIndex_def in_set_zip map_of_eq_Some_iff)
qed

text \<open>An edge between ordered blocks whose target is not a retreating one goes forward.\<close>

lemma forward_edge:
  assumes "rpo_ok mf rpo" and "p \<in> set rpo" and "b \<in> set (succs (mbbAt mf p))"
    and "b \<notin> retreatingTargets mf rpo"
  shows "p \<in> set (takeWhile (\<lambda>x. x \<noteq> b) (topoOrder mf rpo))"
proof -
  have dist: "distinct rpo" and lay: "layout mf \<noteq> []" using assms(1) by (auto simp: rpo_ok_def)
  have "b \<in> set rpo" using assms(1,2,3) by (auto simp: rpo_ok_def)
  then obtain i j where i: "i < length rpo" "rpo ! i = b" and j: "j < length rpo" "rpo ! j = p"
    using assms(2) by (auto simp: in_set_conv_nth)
  then have "rpoIndex rpo b = Some i" "rpoIndex rpo p = Some j" using dist by (auto simp: rpoIndex_nth)
  with assms(2,3,4) lay have "\<not> i \<le> j" by (auto simp: retreatingTargets_def)
  have "takeWhile (\<lambda>x. x \<noteq> b) rpo = take i rpo"
    using i dist by (intro takeWhile_eq_take_P_nth) (auto simp: nth_eq_iff_index_eq)
  with \<open>\<not> i \<le> j\<close> j i have "p \<in> set (takeWhile (\<lambda>x. x \<noteq> b) rpo)"
    by (auto simp: in_set_conv_nth intro!: exI [of _ j])
  then show ?thesis using \<open>b \<in> set rpo\<close> by (simp add: topoOrder_rpo(1) [OF assms(1)] takeWhile_append1)
qed

lemma path_in_rpo:
  assumes "rpo_ok mf rpo" and "cfg_path mf (b # p)" and "b \<in> set rpo"
  shows "set (b # p) \<subseteq> set rpo"
  using assms(2,3)
proof (induction p arbitrary: b)
  case (Cons c p)
  then have "c \<in> set rpo" using assms(1) by (auto simp: rpo_ok_def)
  with Cons show ?case by auto
qed simp

lemma cfg_path_snoc:
  "q \<noteq> [] \<Longrightarrow> cfg_path mf (q @ [c]) \<longleftrightarrow> cfg_path mf q \<and> c \<in> set (succs (mbbAt mf (last q)))"
proof (induction q)
  case (Cons x q)
  then show ?case by (cases q) auto
qed simp

lemma path_cost:
  assumes rpo: "rpo_ok mf rpo" and st: "makeOptimizer mf t loops rpo est eSafe store = Some st"
    and inv: "part_inv st (hd rpo) (topoOrder mf rpo) (B, inc) acc"
    and entry: "hd rpo \<in> B \<or> (\<forall>b \<in> set rpo. hd rpo \<notin> set (succs (mbbAt mf b)))"
    and path: "cfg_path mf (b # p)" "b \<in> set rpo" and free: "\<forall>x \<in> set p. x \<notin> B"
  shows "sum_list (map (costOf st) (b # p)) \<le> acc (last (b # p))"
  using path(1) free
proof (induction p rule: rev_induct)
  case Nil
  then show ?case using path(2) inv topoOrder_rpo(3) [OF rpo] rpo by (auto simp: part_inv_def rpo_ok_def)
next
  case (snoc c p)
  let ?l = "last (b # p)"
  have e: "c \<in> set (succs (mbbAt mf ?l))" and pre: "cfg_path mf (b # p)"
    using snoc.prems(1) cfg_path_snoc [of "b # p" mf c] by auto
  have lr: "?l \<in> set rpo" using path_in_rpo [OF rpo pre path(2)] by (meson last_in_set list.discI subsetD)
  have "c \<in> set rpo" "set rpo \<subseteq> set (layout mf)" using rpo lr e unfolding rpo_ok_def by blast+
  then have c: "c \<in> set (topoOrder mf rpo)" "c \<notin> B"
    using snoc.prems(2) topoOrder_rpo(3) [OF rpo] by auto
  have "c \<noteq> hd rpo" using entry e lr c(2) by auto
  then have "c \<notin> retreatingTargets mf rpo"
    using inv c makeOptimizer_fields [OF st] by (auto simp: part_inv_def mandatoryBoundary_def)
  from forward_edge [OF rpo lr e this] have "acc ?l + costOf st c \<le> acc c"
    using inv c e makeOptimizer_fields(1) [OF st] by (auto simp: part_inv_def)
  with snoc.IH [OF pre] snoc.prems(2) show ?case by simp
qed


lemma feasible_invariant:
  assumes rpo: "rpo_ok mf rpo" and st: "makeOptimizer mf t loops rpo est eSafe store = Some st"
    and "rcFeasible (partitionRegions st)"
  obtains B inc acc where "part_inv st (hd rpo) (topoOrder mf rpo) (B, inc) acc"
    "set (regionBoundaries (partitionRegions st)) = B \<inter> set (layout mf)"
    "mf_name mf \<noteq> ''main'' \<Longrightarrow> hd rpo \<in> B"
proof -
  note flds = makeOptimizer_fields [OF st] and topo = topoOrder_rpo [OF rpo]
  let ?B0 = "if mf_name mf \<noteq> ''main'' then {hd rpo} else {}"
  have "rcTopoOrder st \<noteq> []" using topo(4) flds(3) by simp
  from partitionRegions_feasible [OF this assms(3)] obtain B inc where
    run: "partitionBlocks st (hd rpo) (?B0, \<lambda>_. 0) (topoOrder mf rpo) = Inr (B, inc)"
    and bd: "regionBoundaries (partitionRegions st) = filter (\<lambda>b. b \<in> B) (topoOrder mf rpo)"
    using flds topo(5) by metis
  have "part_inv st (hd rpo) [] (?B0, \<lambda>_. 0) (\<lambda>_. 0)" by (simp add: part_inv_def)
  from partitionBlocks_inv [OF this _ run] topo(2) obtain acc where
    inv: "part_inv st (hd rpo) (topoOrder mf rpo) (B, inc) acc" by auto
  have "?B0 \<subseteq> B" using partitionBlocks_mono [OF run] by simp
  then have "mf_name mf \<noteq> ''main'' \<Longrightarrow> hd rpo \<in> B" by auto
  moreover have "set (regionBoundaries (partitionRegions st)) = B \<inter> set (layout mf)"
    using bd topo(3) by auto
  ultimately show ?thesis using inv that by blast
qed

section \<open>Properties of the partition\<close>

text \<open>(C34) Every region fits one charge. When the configuration is accepted and the partition is
  feasible, a path of reachable blocks that crosses no region boundary after its first block costs,
  with the prologue, the epilogue and the restore of the registers, less than the capacity. For the
  function \<open>main\<close>, whose entry is never a boundary, this needs that no reachable block branches back to
  the entry.\<close>

theorem rockclimb_region_fits_charge:
  assumes "parseRockClimbParams doc = Inr params" and "rpo_ok mf rpo"
    and "makeOptimizer mf t loops rpo est (calculateESafe params) store = Some st"
    and "rcFeasible (partitionRegions st)"
    and "mf_name mf \<noteq> ''main'' \<or> list_all (\<lambda>b. hd rpo \<notin> set (succs (mbbAt mf b))) rpo"
    and "cfg_path mf (b # p)" and "b \<in> set rpo"
    and "\<forall>x \<in> set p. x \<notin> set (regionBoundaries (partitionRegions st))"
  shows "sum_list (map (getBlockCost (rcEnergyCosts st)) (b # p))
    + rcEPro params + rcEEpi params + u2r (rcNReg params - 2) * rcRegRestoreEnergy params < rcCapacity params"
proof -
  from feasible_invariant [OF assms(2,3,4)] obtain B inc acc where
    inv: "part_inv st (hd rpo) (topoOrder mf rpo) (B, inc) acc"
    and bd: "set (regionBoundaries (partitionRegions st)) = B \<inter> set (layout mf)"
    and main: "mf_name mf \<noteq> ''main'' \<Longrightarrow> hd rpo \<in> B" by blast
  note sub = path_in_rpo [OF assms(2,6,7)]
  have lay: "set rpo \<subseteq> set (layout mf)" using assms(2) by (simp add: rpo_ok_def)
  have "\<forall>x \<in> set p. x \<notin> B" using sub lay bd assms(8) by auto
  moreover have "hd rpo \<in> B \<or> (\<forall>b \<in> set rpo. hd rpo \<notin> set (succs (mbbAt mf b)))"
    using main assms(5) by (auto simp: list_all_iff)
  ultimately have "sum_list (map (costOf st) (b # p)) \<le> acc (last (b # p))"
    using path_cost [OF assms(2,3) inv _ assms(6,7)] by blast
  moreover have "last (b # p) \<in> set (topoOrder mf rpo)"
    using sub lay topoOrder_rpo(3) [OF assms(2)] last_in_set [of "b # p"] by blast
  then have "acc (last (b # p)) < calculateESafe params"
    using inv makeOptimizer_fields(2) [OF assms(3)] by (auto simp: part_inv_def)
  ultimately show ?thesis by (simp add: calculateESafe_def)
qed

text \<open>The partition fails exactly when some block alone costs at least the budget, and then names
  such a block. Otherwise the regions tile the blocks in topological order, each starts at its first
  block and contains no other boundary, its energy is the sum of its blocks, and every loop header,
  retreating target and return block other than the entry is a boundary.\<close>

theorem partitionRegions_complete:
  assumes "rpo_ok mf rpo" and "makeOptimizer mf t loops rpo est eSafe store = Some st"
  shows "(rcFeasible (partitionRegions st) \<longleftrightarrow> (\<forall>b \<in> set (layout mf). getBlockCost (rcEnergyCosts st) b < eSafe))
    \<and> (\<not> rcFeasible (partitionRegions st) \<longrightarrow>
         (\<exists>b \<in> set (layout mf). errorBlock (partitionRegions st) = Some b \<and> eSafe \<le> getBlockCost (rcEnergyCosts st) b))
    \<and> (rcFeasible (partitionRegions st) \<longrightarrow>
         concat (map regionBlocks (rcRegions (partitionRegions st))) = topoOrder mf rpo
         \<and> list_all (regionFacts (rcEnergyCosts st) (set (regionBoundaries (partitionRegions st))))
             (rcRegions (partitionRegions st))
         \<and> (\<forall>b \<in> set (layout mf) - {hd rpo}. mandatoryBoundary st b \<longrightarrow>
              b \<in> set (regionBoundaries (partitionRegions st))))"
proof -
  note flds = makeOptimizer_fields [OF assms(2)] and topo = topoOrder_rpo [OF assms(1)]
  have ne: "rcTopoOrder st \<noteq> []" using topo(4) flds(3) by simp
  show ?thesis
  proof (cases "rcFeasible (partitionRegions st)")
    case True
    obtain B inc acc where
      inv: "part_inv st (hd rpo) (topoOrder mf rpo) (B, inc) acc"
      and bd: "set (regionBoundaries (partitionRegions st)) = B \<inter> set (layout mf)"
      by (rule feasible_invariant [OF assms True])
    have "\<forall>b \<in> set (layout mf). costOf st b < eSafe"
    proof
      fix b assume "b \<in> set (layout mf)"
      with inv topo(3) have "costOf st b \<le> acc b \<and> acc b < rcESafe st" unfolding part_inv_def by blast
      then show "costOf st b < eSafe" using flds(2) by simp
    qed
    moreover have "\<forall>b \<in> set (layout mf) - {hd rpo}. mandatoryBoundary st b \<longrightarrow> b \<in> B \<inter> set (layout mf)"
      using inv topo(3) unfolding part_inv_def by auto
    moreover obtain B' inc' where
      tile: "concat (map regionBlocks (rcRegions (partitionRegions st))) = rcTopoOrder st"
      and bd': "regionBoundaries (partitionRegions st) = filter (\<lambda>b. b \<in> B') (rcTopoOrder st)"
      and facts: "list_all (regionFacts (rcEnergyCosts st) B') (rcRegions (partitionRegions st))"
      by (rule partitionRegions_feasible [OF ne True])
    have "list_all (regionFacts (rcEnergyCosts st) (set (regionBoundaries (partitionRegions st))))
        (rcRegions (partitionRegions st))"
      using facts bd' by (auto simp: list_all_iff regionFacts_def)
    ultimately show ?thesis using True tile flds(3) bd by simp
  next
    case False
    from partitionRegions_infeasible [OF ne False] obtain x where
      x: "errorBlock (partitionRegions st) = Some x" "x \<in> set (rcTopoOrder st)" "rcESafe st \<le> costOf st x" by blast
    have "x \<in> set (layout mf)" using x(2) flds(3) topo(3) by simp
    with x False flds(2) show ?thesis by (auto simp: not_less)
  qed
qed


section \<open>The cost charged for register saves\<close>

lemma defLike_free_scan:
  "lastDefLike mf t reg b = None \<Longrightarrow> scanBlockForReg mf t b reg \<noteq> DefinedFirst"
proof -
  have "(\<And>mi. mi \<in> set mis \<Longrightarrow> \<not> writesReg t reg mi) \<Longrightarrow> scanInstrs t reg mis \<noteq> DefinedFirst" for mis
    by (induction mis) auto
  then show "lastDefLike mf t reg b = None \<Longrightarrow> scanBlockForReg mf t b reg \<noteq> DefinedFirst"
    by (auto simp: lastDefLike_def find_None_iff defLike_def scanBlockForReg_def)
qed

lemma needEntry_live:
  assumes "needEntry mf t P reg S s" and "livePoint mf t reg S"
  shows "livePoint mf t reg s"
  using assms(1)
proof (induction rule: needEntry.induct)
  case (pass b s)
  then show ?case using defLike_free_scan [OF pass(3)]
    by (cases "scanBlockForReg mf t b reg") (auto intro: livePoint.intros)
qed (rule assms(2))

lemma definedIn_iff:
  assumes "target_ok t" and "g \<in> set (gprs t)"
  shows "g \<in> definedIn t mis \<longleftrightarrow> list_ex (writesReg t g) mis"
proof -
  have res: "\<not> isReserved t r" if "regsOverlap t r g" for r
    using assms that unfolding target_ok_def by blast
  have "definedOperand t mo = Some g \<longleftrightarrow> opWrites t g mo" for mo
    using res overlappingGpr_iff [OF assms]
    by (auto simp: definedOperand_def opWrites_def touches_def split: option.splits)
  then show ?thesis
    by (force simp: definedIn_def List.map_filter_def writesReg_op list_ex_iff)
qed

text \<open>Instructions are known by their address.\<close>

definition ids_unique :: "MachineFunction \<Rightarrow> bool" where
  "ids_unique mf \<longleftrightarrow> (\<forall>b c. \<forall>x \<in> set (instrs (mbbAt mf b)). \<forall>y \<in> set (instrs (mbbAt mf c)).
     mi_id x = mi_id y \<longrightarrow> b = c \<and> x = y)"

lemma lastDefLike_in: "lastDefLike mf t reg b = Some mi \<Longrightarrow> mi \<in> set (instrs (mbbAt mf b)) \<and> defLike t reg mi"
  unfolding lastDefLike_def find_Some_iff by (metis length_rev nth_mem set_rev)

lemma saved_register_charged:
  assumes "target_ok t" and "\<forall>g \<in> set (gprs t). no_rmw mf t g" and "computeBulkLiveIn mf t = Some liveIn"
    and "c \<in> regionSaves mf t B S"
  shows "\<exists>b mi. mi \<in> set (instrs (mbbAt mf b)) \<and> mi_id mi = afterInst c \<and> lastDefLike mf t (ckptReg c) b = Some mi
    \<and> ckptReg c \<in> Set.filter (\<lambda>reg. list_ex (\<lambda>mi. isCall mi \<and> callMayClobberNvmRegs mi) (instrs (mbbAt mf b))
          \<or> reg \<in> definedIn t (instrs (mbbAt mf b))) (liveOutOf mf liveIn b)"
proof -
  from assms(4) obtain reg b mi where c: "c = ckptPoint reg (regSlot t reg) S mi"
    "reg \<in> set (defsInPreds mf t (predBlockSet mf B S))" "isRegLiveFromBlock mf t S reg"
    "savesIn mf t (predBlockSet mf B S) reg S b mi" by (elim regionSavesE)
  have g: "reg \<in> set (gprs t)" using c(2) defsInPreds_checkpointable by (simp add: gprs_iff)
  from c(4) obtain s where s: "s \<in> set (succs (mbbAt mf b))" "needEntry mf t (predBlockSet mf B S) reg S s"
    and last: "lastDefLike mf t reg b = Some mi" by (auto simp: savesIn_def)
  have "livePoint mf t reg s" using needEntry_live [OF s(2)] c(3) by (simp add: isRegLive_livePoint)
  then have "reg \<in> liveIn s"
    using livePoint_bulkLive [OF assms(1) g] assms(2,3) g computeBulkLiveIn_least [of mf t] by auto
  then have out: "reg \<in> liveOutOf mf liveIn b" using s(1) by (auto simp: liveOutOf_def)
  have mi: "mi \<in> set (instrs (mbbAt mf b))" "defLike t reg mi" using lastDefLike_in [OF last] by auto
  then have "list_ex (\<lambda>mi. isCall mi \<and> callMayClobberNvmRegs mi) (instrs (mbbAt mf b))
      \<or> reg \<in> definedIn t (instrs (mbbAt mf b))"
    by (auto simp: defLike_def definedIn_iff [OF assms(1) g] list_ex_iff)
  with out mi(1) last c(1) show ?thesis
    by (intro exI [of _ b] exI [of _ mi]) (simp add: ckptPoint_def)
qed

text \<open>The partition charges enough for the saves. When no instruction both reads and writes a
  checkpointable register, the number of saves the later analysis places in a block, for whatever
  regions, is at most the number charged to that block before the regions were known.\<close>

theorem saveCount_bounds_checkpoints:
  assumes "target_ok t" and "\<forall>g \<in> set (gprs t). no_rmw mf t g" and "ids_unique mf"
    and "computeBulkLiveIn mf t = Some liveIn" and "analyzeCheckpoints mf t regions = Some ckpts"
  shows "length (filter (\<lambda>c. afterInst c \<in> mi_id ` set (instrs (mbbAt mf b))) ckpts) \<le> saveCount mf t liveIn b"
proof -
  let ?B = "startBlock ` set regions" and ?in = "\<lambda>c. afterInst c \<in> mi_id ` set (instrs (mbbAt mf b))"
  let ?charged = "Set.filter (\<lambda>reg. list_ex (\<lambda>mi. isCall mi \<and> callMayClobberNvmRegs mi) (instrs (mbbAt mf b))
          \<or> reg \<in> definedIn t (instrs (mbbAt mf b))) (liveOutOf mf liveIn b)"
  have ck: "distinct (map ckptKey ckpts)" "set ckpts \<subseteq> (\<Union>S \<in> ?B. regionSaves mf t ?B S)"
    using analyzeCheckpoints_result [of mf t regions] assms(5) by auto
  have here: "ckptReg c \<in> ?charged \<and> (\<exists>mi. lastDefLike mf t (ckptReg c) b = Some mi \<and> afterInst c = mi_id mi)"
    if "c \<in> set ckpts" "?in c" for c
  proof -
    from that(1) ck(2) obtain S where "c \<in> regionSaves mf t ?B S" by blast
    from saved_register_charged [OF assms(1,2,4) this] obtain d mi where
      d: "mi \<in> set (instrs (mbbAt mf d))" "mi_id mi = afterInst c" "lastDefLike mf t (ckptReg c) d = Some mi"
      "ckptReg c \<in> Set.filter (\<lambda>reg. list_ex (\<lambda>mi. isCall mi \<and> callMayClobberNvmRegs mi) (instrs (mbbAt mf d))
          \<or> reg \<in> definedIn t (instrs (mbbAt mf d))) (liveOutOf mf liveIn d)" by blast
    from that(2) obtain y where "y \<in> set (instrs (mbbAt mf b))" "mi_id y = mi_id mi" using d(2) by auto
    with d(1) assms(3) have "b = d" unfolding ids_unique_def by blast
    with d show ?thesis by auto
  qed
  let ?cs = "filter ?in ckpts"
  have "inj_on ckptReg (set ?cs)"
  proof (rule inj_onI)
    fix c d assume cd: "c \<in> set ?cs" "d \<in> set ?cs" "ckptReg c = ckptReg d"
    from here [of c] here [of d] cd obtain x y where
      "lastDefLike mf t (ckptReg c) b = Some x" "afterInst c = mi_id x"
      "lastDefLike mf t (ckptReg d) b = Some y" "afterInst d = mi_id y" by auto
    with cd(3) have "afterInst c = afterInst d" by simp
    with cd ck(1) show "c = d" by (auto simp: distinct_map dest: inj_onD)
  qed
  moreover have "distinct ?cs" using ck(1) by (simp add: distinct_map)
  ultimately have "length ?cs = card (ckptReg ` set ?cs)" by (metis card_image distinct_card)
  also have "\<dots> \<le> card ?charged"
  proof (rule card_mono)
    have "liveOutOf mf liveIn b \<subseteq> set (gprs t)"
      using bulkLive_gprs computeBulkLiveIn_least [of mf t] assms(4) by (fastforce simp: liveOutOf_def)
    then show "finite ?charged" by (auto intro: finite_subset)
  qed (use here in auto)
  finally show ?thesis by (simp add: saveCount_def Let_def)
qed


section \<open>Examples\<close>

definition sample_doc :: json_object where
  "sample_doc = JsonObject
     (\<lambda>k. map_of [(''capacity'', 20), (''E_pro'', 2), (''E_epi'', 2), (''reg_store_energy'', 1),
                  (''reg_restore_energy'', 1)] k)
     (\<lambda>k. if k = ''N_reg'' then Some 4 else None) (\<lambda>_. None) (\<lambda>_. None)"

definition sample_rcparams :: RockClimbParams where
  "sample_rcparams = \<lparr>rcCapacity = 20, rcEPro = 2, rcEEpi = 2, rcNReg = 4, rcRegRestoreEnergy = 1,
     rcRegStoreEnergy = 1, rcDistributedCheckpointing = True\<rparr>"

definition sample_optimizer :: optimizer_state where
  "sample_optimizer = \<lparr>rcFunction = sample_mf, rcEnergyCosts = [(2, 6), (3, 4)], rcESafe = 14,
     rcLoopHeaders = {}, rcExitBlocks = {3}, rcTopoOrder = [2, 3], rcRetreatingTargets = {}\<rparr>"

lemma sample_parse: "parseRockClimbParams (Some sample_doc) = Inr sample_rcparams"
  by (simp add: parseRockClimbParams_def sample_doc_def sample_rcparams_def requireField_def bindE_def
      distributedFlag_def)

lemma sample_eSafe: "calculateESafe sample_rcparams = 14"
  by (simp add: calculateESafe_def sample_rcparams_def)

lemma sample_rpo: "rpo_ok sample_mf [2, 3]"
  by (simp add: rpo_ok_def layout_def mbbAt_def omap_get_def sample_mf_def)

lemma sample_makeOptimizer:
  "makeOptimizer sample_mf sample_target [] [2, 3] (\<lambda>b. Some (if b = 2 then 5 else 4)) 14 1 = Some sample_optimizer"
  by code_simp

lemma sample_partition:
  "rcFeasible (partitionRegions sample_optimizer)"
  "regionBoundaries (partitionRegions sample_optimizer) = [2, 3]"
  by code_simp+

theorem rockclimb_region_fits_charge_witness: "6 + 2 + 2 + (2 :: double) * 1 < 20 \<and>
    getBlockCost (rcEnergyCosts sample_optimizer) 2 + rcEPro sample_rcparams + rcEEpi sample_rcparams
      + u2r (rcNReg sample_rcparams - 2) * rcRegRestoreEnergy sample_rcparams < rcCapacity sample_rcparams"
  using rockclimb_region_fits_charge [OF sample_parse sample_rpo, unfolded sample_eSafe,
      OF sample_makeOptimizer sample_partition(1), of 2 "[]"]
  by (simp add: sample_mf_def)

theorem partitionRegions_complete_witness:
  "concat (map regionBlocks (rcRegions (partitionRegions sample_optimizer))) = topoOrder sample_mf [2, 3]
   \<and> getBlockCost (rcEnergyCosts sample_optimizer) 3 < 14"
  using partitionRegions_complete [OF sample_rpo sample_makeOptimizer] sample_partition(1)
  by (simp add: layout_def sample_mf_def)

lemma sample_no_rmw_any: "no_rmw sample_mf sample_target g"
  by (auto simp: no_rmw_def mbbAt_def omap_get_def sample_mf_def noMBB_def readModifyWrite_def
      readsReg_def writesReg_def plainInstr_def)

lemma sample_ids: "ids_unique sample_mf"
  by (auto simp: ids_unique_def mbbAt_def omap_get_def sample_mf_def noMBB_def plainInstr_def split: if_splits)

theorem saveCount_bounds_checkpoints_witness:
  "\<exists>liveIn ckpts. computeBulkLiveIn sample_mf sample_target = Some liveIn
    \<and> analyzeCheckpoints sample_mf sample_target sample_regions = Some ckpts
    \<and> length (filter (\<lambda>c. afterInst c \<in> mi_id ` set (instrs (mbbAt sample_mf 2))) ckpts)
        \<le> saveCount sample_mf sample_target liveIn 2"
proof -
  from computeBulkLiveIn_least [of sample_mf sample_target] obtain liveIn where
    li: "computeBulkLiveIn sample_mf sample_target = Some liveIn" by blast
  from analyzeCheckpoints_result [of sample_mf sample_target sample_regions] obtain ckpts where
    ck: "analyzeCheckpoints sample_mf sample_target sample_regions = Some ckpts" by blast
  have "\<forall>g \<in> set (gprs sample_target). no_rmw sample_mf sample_target g" by (simp add: sample_no_rmw_any)
  from saveCount_bounds_checkpoints [OF sample_target_ok this sample_ids li ck, of 2] li ck
  show ?thesis by blast
qed

text \<open>R4 is written in the first block and updated in place in the second, the way a two-address
  addition lists its operands: the definition first, then the use tied to it.\<close>

definition tied_mf :: MachineFunction where
  "tied_mf = \<lparr>mf_name = ''f'', mf_blocks =
     [(2, \<lparr>instrs = [plainInstr 20 ''MOV16ri'' [RegOperand 4 True False, OtherOperand]],
           succs = [3], preds = [], isReturnBlock = False\<rparr>),
      (3, \<lparr>instrs = [plainInstr 30 ''ADD16rr'' [RegOperand 4 True False, RegOperand 4 False False, RegOperand 5 False False]],
           succs = [], preds = [2], isReturnBlock = True\<rparr>)]\<rparr>"

text \<open>Without that restriction the charge is too small. In the function above R4 is live at the
  second block, the bulk analysis does not report it there and no save is charged to the first
  block, but the analysis of the checkpoints places one there.\<close>

theorem saveCount_misses_tied_use:
  "isRegLiveFromBlock tied_mf sample_target 3 4
   \<and> map_option (\<lambda>liveIn. (4 \<in> liveIn 3, saveCount tied_mf sample_target liveIn 2))
       (computeBulkLiveIn tied_mf sample_target) = Some (False, 0)
   \<and> map_option (map (\<lambda>c. (afterInst c, ckptReg c)))
       (analyzeCheckpoints tied_mf sample_target sample_regions) = Some [(20, 4)]"
  by code_simp

text \<open>A function \<open>main\<close> whose entry block branches to itself: the entry is a retreating target but
  never becomes a boundary, so nothing bounds the energy of the cycle.\<close>

definition spin_mf :: MachineFunction where
  "spin_mf = \<lparr>mf_name = ''main'', mf_blocks =
     [(2, \<lparr>instrs = [], succs = [2], preds = [2], isReturnBlock = False\<rparr>)]\<rparr>"

lemma main_entry_cycle_unbounded:
  "2 \<in> retreatingTargets spin_mf [2]
   \<and> map_option (\<lambda>st. (rcFeasible (partitionRegions st), regionBoundaries (partitionRegions st)))
       (makeOptimizer spin_mf sample_target [] [2] (\<lambda>_. Some 3) 4 0) = Some (True, [])"
  by code_simp

end
