(* ===== verification/RockClimbPass.thy ===== *)
theory RockClimbPass
  imports RockClimb
begin

text \<open>
  The instrumenter and the driver of the RockClimb machine pass
  (\<open>rockclimb-backend/RockClimbMachineInstrumenter.cpp\<close> and \<open>RockClimbMachinePass.cpp\<close>).

  The instrumenter inserts a call at the start of every region boundary, stores for the argument
  registers before the call at the function entry, and a store after every instruction the checkpoint
  analysis named. \<open>BuildMI\<close> and \<open>addRegisterDefined\<close> are LLVM's and arguments of the model. Shown: the
  pass never hangs, reports every failure before it touches the function, and when it succeeds the
  function without the inserted instructions is the original one and every boundary holds its call.
\<close>

section \<open>Instrumentation\<close>

record llvm_builder =
  buildMI :: "nat \<Rightarrow> MachineOperand list \<Rightarrow> MachineInstr"
  addRegisterDefined :: "phys_reg \<Rightarrow> MachineInstr \<Rightarrow> MachineInstr"

definition updateInstrs ::
  "mbb_ptr \<Rightarrow> (MachineInstr list \<Rightarrow> MachineInstr list) \<Rightarrow> MachineFunction \<Rightarrow> MachineFunction" where
  "updateInstrs b f mf =
     mf\<lparr>mf_blocks := map (\<lambda>(c, mbb). (c, if c = b then mbb\<lparr>instrs := f (instrs mbb)\<rparr> else mbb)) (mf_blocks mf)\<rparr>"

definition boundaryCall :: "llvm_builder \<Rightarrow> MSP430Constants \<Rightarrow> MachineInstr" where
  "boundaryCall bl C =
     foldl (\<lambda>mi reg. addRegisterDefined bl reg mi) (buildMI bl (CALLi C) [SymbolOperand ''__region_boundary''])
       [constR11 C ..< Suc (constR15 C)]"

definition saveInstr :: "llvm_builder \<Rightarrow> MSP430Constants \<Rightarrow> phys_reg \<Rightarrow> u32 \<Rightarrow> MachineInstr" where
  "saveInstr bl C reg rid =
     buildMI bl (MOV16mr C)
       [RegOperand (regSR C) False False, GlobalOperand (OtherGlobal ''__nvm_regs'') (uint rid * 2),
        RegOperand reg False False]"

definition emitBoundaryCall :: "MachineInstr list \<Rightarrow> MachineInstr \<Rightarrow> MachineInstr list \<Rightarrow> MachineInstr list" where
  "emitBoundaryCall saves call mis = takeWhile isPHI mis @ saves @ call # dropWhile isPHI mis"

definition insertBoundaryCheck ::
  "llvm_builder \<Rightarrow> MSP430Constants \<Rightarrow> MachineFunction \<Rightarrow> mbb_ptr \<Rightarrow> MachineFunction" where
  "insertBoundaryCheck bl C mf b = updateInstrs b (emitBoundaryCall [] (boundaryCall bl C)) mf"

definition insertEntryBoundary ::
  "llvm_builder \<Rightarrow> MSP430Constants \<Rightarrow> target_env \<Rightarrow> MachineFunction \<Rightarrow> mbb_ptr \<Rightarrow> MachineFunction" where
  "insertEntryBoundary bl C t mf entryMBB =
     (let argRegs = filter (isRegLiveFromBlock mf t entryMBB) [constR4 C ..< Suc (constR15 C)];
          saves = map (\<lambda>reg. saveInstr bl C reg (of_nat reg - of_nat (constR4 C))) argRegs
      in updateInstrs entryMBB (emitBoundaryCall saves (boundaryCall bl C)) mf)"

fun insertAfter :: "nat \<Rightarrow> MachineInstr \<Rightarrow> MachineInstr list \<Rightarrow> MachineInstr list" where
  "insertAfter i new [] = []"
| "insertAfter i new (mi # mis) = (if mi_id mi = i then mi # new # mis else mi # insertAfter i new mis)"

definition parentOf :: "MachineFunction \<Rightarrow> nat \<Rightarrow> (mbb_ptr \<times> MachineInstr) option" where
  "parentOf mf i =
     find (\<lambda>(b, mi). mi_id mi = i) (concat (map (\<lambda>b. map (Pair b) (instrs (mbbAt mf b))) (layout mf)))"

definition insertRegisterCheckpoint ::
  "llvm_builder \<Rightarrow> MSP430Constants \<Rightarrow> MachineFunction \<Rightarrow> MachineCheckpointPoint \<Rightarrow> MachineFunction" where
  "insertRegisterCheckpoint bl C mf ckpt =
     (case parentOf mf (afterInst ckpt) of
        None \<Rightarrow> mf
      | Some (b, mi) \<Rightarrow>
          if isTerminator mi then mf
          else updateInstrs b (insertAfter (afterInst ckpt) (saveInstr bl C (ckptReg ckpt) (ckptRegId ckpt))) mf)"

definition insertBoundary ::
  "llvm_builder \<Rightarrow> MSP430Constants \<Rightarrow> target_env \<Rightarrow> mbb_ptr \<Rightarrow> MachineFunction \<Rightarrow> mbb_ptr \<Rightarrow> MachineFunction" where
  "insertBoundary bl C t entryMBB mf b =
     (if b = entryMBB then insertEntryBoundary bl C t mf b else insertBoundaryCheck bl C mf b)"

definition instrument ::
  "llvm_builder \<Rightarrow> MSP430Constants \<Rightarrow> target_env \<Rightarrow> mbb_ptr list \<Rightarrow> MachineCheckpointPoint list \<Rightarrow> bool
     \<Rightarrow> MachineFunction \<Rightarrow> MachineFunction \<times> nat" where
  "instrument bl C t boundaries ckpts enableDistributedCkpt mf =
     (let entryMBB = hd (layout mf);
          mf1 = foldl (insertBoundary bl C t entryMBB) mf boundaries
      in if enableDistributedCkpt
         then (foldl (insertRegisterCheckpoint bl C) mf1 ckpts, length boundaries + length ckpts)
         else (mf1, length boundaries))"

section \<open>The pass\<close>

datatype pass_error =
    NoConfigGiven | NoEnergyGiven | BadConfig config_error | BadEnergyData
  | BadConstants resolve_error | EstimatorFailed

datatype pass_outcome =
    Untouched
  | PassFatal pass_error
  | PassInfeasible "mbb_ptr option"
  | PassDone MachineFunction nat
  | PassHangs

record pass_input =
  configPath :: string
  energyConfigPath :: string
  energyDataPath :: string
  configDoc :: "json_object option"
  precomputed :: "(mbb_ptr \<Rightarrow> double option) option"
  modelEstimate :: "mbb_ptr \<Rightarrow> double option"
  opcodeNames :: "string list"
  registerNames :: "string list"
  targetInfo :: target_env
  machineLoops :: "MachineLoop list"
  reversePostOrder :: "mbb_ptr list"
  builder :: llvm_builder

definition withConstants :: "target_env \<Rightarrow> MSP430Constants \<Rightarrow> target_env" where
  "withConstants t C = t\<lparr>regR4 := constR4 C, regR15 := constR15 C\<rparr>"

definition optimizeAndInstrument ::
  "pass_input \<Rightarrow> RockClimbParams \<Rightarrow> (mbb_ptr \<Rightarrow> double option) \<Rightarrow> MSP430Constants \<Rightarrow> MachineFunction \<Rightarrow> pass_outcome" where
  "optimizeAndInstrument pin params est C mf =
     (let t = withConstants (targetInfo pin) C;
          regStoreEnergy = (if rcDistributedCheckpointing params then rcRegStoreEnergy params else 0)
      in case makeOptimizer mf t (machineLoops pin) (reversePostOrder pin) est (calculateESafe params) regStoreEnergy of
           None \<Rightarrow> PassFatal EstimatorFailed
         | Some st \<Rightarrow>
             (let result = partitionRegions st
              in if \<not> rcFeasible result then PassInfeasible (errorBlock result)
                 else case (if rcDistributedCheckpointing params then analyzeCheckpoints mf t (rcRegions result) else Some []) of
                        None \<Rightarrow> PassHangs
                      | Some ckpts \<Rightarrow>
                          (let (mf', n) = instrument (builder pin) C t (regionBoundaries result) ckpts
                                            (rcDistributedCheckpointing params) mf
                           in PassDone mf' n)))"

definition runOnMachineFunction :: "pass_input \<Rightarrow> MachineFunction \<Rightarrow> pass_outcome" where
  "runOnMachineFunction pin mf =
     (if isRuntimeFunction (mf_name mf) then Untouched
      else if configPath pin = [] then PassFatal NoConfigGiven
      else if energyDataPath pin = [] \<and> energyConfigPath pin = [] then PassFatal NoEnergyGiven
      else case parseRockClimbParams (configDoc pin) of
             Inl e \<Rightarrow> PassFatal (BadConfig e)
           | Inr params \<Rightarrow>
               if calculateESafe params \<le> 0 then PassInfeasible None
               else case (if energyDataPath pin \<noteq> [] then precomputed pin else Some (modelEstimate pin)) of
                      None \<Rightarrow> PassFatal BadEnergyData
                    | Some est \<Rightarrow>
                        (case resolveConstants (opcodeNames pin) (registerNames pin) of
                           Inl e \<Rightarrow> PassFatal (BadConstants e)
                         | Inr C \<Rightarrow> optimizeAndInstrument pin params est C mf))"

section \<open>What is inserted and what is kept\<close>

text \<open>The function without the instructions at new addresses.\<close>

definition eraseInserted :: "nat set \<Rightarrow> MachineFunction \<Rightarrow> MachineFunction" where
  "eraseInserted F mf =
     mf\<lparr>mf_blocks := map (\<lambda>(b, mbb). (b, mbb\<lparr>instrs := filter (\<lambda>mi. mi_id mi \<notin> F) (instrs mbb)\<rparr>)) (mf_blocks mf)\<rparr>"

text \<open>LLVM allocates a new instruction at an address no instruction of the function has.\<close>

definition fresh_builder :: "llvm_builder \<Rightarrow> nat set \<Rightarrow> MachineFunction \<Rightarrow> bool" where
  "fresh_builder bl F mf \<longleftrightarrow>
     (\<forall>op ops. mi_id (buildMI bl op ops) \<in> F)
     \<and> (\<forall>reg mi. mi_id (addRegisterDefined bl reg mi) = mi_id mi)
     \<and> (\<forall>(b, mbb) \<in> set (mf_blocks mf). \<forall>mi \<in> set (instrs mbb). mi_id mi \<notin> F)"

lemma eraseInserted_fresh: "fresh_builder bl F mf \<Longrightarrow> eraseInserted F mf = mf"
proof -
  assume fresh: "fresh_builder bl F mf"
  have "map (\<lambda>(b, mbb). (b, mbb\<lparr>instrs := filter (\<lambda>mi. mi_id mi \<notin> F) (instrs mbb)\<rparr>)) (mf_blocks mf) = mf_blocks mf"
  proof (rule map_idI)
    fix x assume x: "x \<in> set (mf_blocks mf)"
    obtain b mbb where xb: "x = (b, mbb)" by fastforce
    with x fresh have "filter (\<lambda>mi. mi_id mi \<notin> F) (instrs mbb) = instrs mbb"
      by (fastforce simp: fresh_builder_def intro: filter_True)
    with xb show "(case x of (b, mbb) \<Rightarrow> (b, mbb\<lparr>instrs := filter (\<lambda>mi. mi_id mi \<notin> F) (instrs mbb)\<rparr>)) = x"
      by simp
  qed
  then show ?thesis by (simp add: eraseInserted_def)
qed

definition insertsOnly :: "nat set \<Rightarrow> (MachineInstr list \<Rightarrow> MachineInstr list) \<Rightarrow> bool" where
  "insertsOnly F f \<longleftrightarrow>
     (\<forall>mis. filter (\<lambda>mi. mi_id mi \<notin> F) (f mis) = filter (\<lambda>mi. mi_id mi \<notin> F) mis \<and> set mis \<subseteq> set (f mis))"

lemma erase_update:
  assumes "insertsOnly F f"
  shows "eraseInserted F (updateInstrs b f mf) = eraseInserted F mf"
proof -
  have eq: "map (\<lambda>(b, mbb). (b, mbb\<lparr>instrs := filter (\<lambda>mi. mi_id mi \<notin> F) (instrs mbb)\<rparr>))
      (map (\<lambda>(c, mbb). (c, if c = b then mbb\<lparr>instrs := f (instrs mbb)\<rparr> else mbb)) bs) =
    map (\<lambda>(b, mbb). (b, mbb\<lparr>instrs := filter (\<lambda>mi. mi_id mi \<notin> F) (instrs mbb)\<rparr>)) bs" for bs
    using assms by (induction bs) (auto simp: insertsOnly_def)
  show ?thesis by (simp add: eraseInserted_def updateInstrs_def eq del: map_map)
qed

lemma mbbAt_update:
  "mbbAt (updateInstrs b f mf) c =
     (if c = b \<and> b \<in> set (layout mf) then (mbbAt mf c)\<lparr>instrs := f (instrs (mbbAt mf c))\<rparr> else mbbAt mf c)"
proof -
  have upd: "map_of (map (\<lambda>(c, mbb). (c, if c = b then mbb\<lparr>instrs := f (instrs mbb)\<rparr> else mbb)) bs) c =
      map_option (\<lambda>mbb. if c = b then mbb\<lparr>instrs := f (instrs mbb)\<rparr> else mbb) (map_of bs c)" for bs
    by (induction bs) auto
  show ?thesis
  proof (cases "map_of (mf_blocks mf) c")
    case None
    then have "c \<notin> set (layout mf)" by (auto simp: layout_def map_of_eq_None_iff)
    with None show ?thesis by (auto simp: mbbAt_def updateInstrs_def omap_get_def upd)
  next
    case (Some mbb)
    then have "c \<in> set (layout mf)" unfolding layout_def by (metis domI dom_map_of_conv_image_fst set_map)
    with Some show ?thesis by (auto simp: mbbAt_def updateInstrs_def omap_get_def upd)
  qed
qed

lemma layout_update [simp]: "layout (updateInstrs b f mf) = layout mf"
  by (auto simp: layout_def updateInstrs_def)

lemma instrs_grow:
  assumes "insertsOnly F f"
  shows "set (instrs (mbbAt mf c)) \<subseteq> set (instrs (mbbAt (updateInstrs b f mf) c))"
  using assms by (auto simp: mbbAt_update insertsOnly_def)


definition extendsCode :: "nat set \<Rightarrow> MachineFunction \<Rightarrow> MachineFunction \<Rightarrow> bool" where
  "extendsCode F mf mf' \<longleftrightarrow>
     eraseInserted F mf' = eraseInserted F mf \<and> layout mf' = layout mf
     \<and> (\<forall>c. set (instrs (mbbAt mf c)) \<subseteq> set (instrs (mbbAt mf' c)))"

lemma extendsCode_refl [simp]: "extendsCode F mf mf"
  by (simp add: extendsCode_def)

lemma extendsCode_trans: "extendsCode F a b \<Longrightarrow> extendsCode F b c \<Longrightarrow> extendsCode F a c"
  unfolding extendsCode_def by (metis order_trans)

lemma extendsCode_update: "insertsOnly F f \<Longrightarrow> extendsCode F mf (updateInstrs b f mf)"
  using instrs_grow [of F f] by (simp add: extendsCode_def erase_update)

lemma extendsCode_foldl:
  "(\<And>mf x. extendsCode F mf (f mf x)) \<Longrightarrow> extendsCode F mf (foldl f mf xs)"
  by (induction xs arbitrary: mf) (auto intro: extendsCode_trans)

lemma emitBoundaryCall_inserts:
  assumes "mi_id call \<in> F" and "\<forall>mi \<in> set saves. mi_id mi \<in> F"
  shows "insertsOnly F (emitBoundaryCall saves call)"
proof -
  have none: "filter (\<lambda>mi. mi_id mi \<notin> F) saves = []" using assms(2) by (simp add: filter_empty_conv)
  show ?thesis
    unfolding insertsOnly_def
  proof (intro allI conjI)
    fix mis :: "MachineInstr list"
    have "filter (\<lambda>mi. mi_id mi \<notin> F) mis = filter (\<lambda>mi. mi_id mi \<notin> F) (takeWhile isPHI mis @ dropWhile isPHI mis)"
      by simp
    then show "filter (\<lambda>mi. mi_id mi \<notin> F) (emitBoundaryCall saves call mis) = filter (\<lambda>mi. mi_id mi \<notin> F) mis"
      using assms(1) none by (simp add: emitBoundaryCall_def del: takeWhile_dropWhile_id)
    have "set mis = set (takeWhile isPHI mis @ dropWhile isPHI mis)" by simp
    then show "set mis \<subseteq> set (emitBoundaryCall saves call mis)"
      unfolding emitBoundaryCall_def set_append by auto
  qed
qed

lemma insertAfter_inserts:
  assumes "mi_id new \<in> F"
  shows "insertsOnly F (insertAfter i new)"
proof -
  have "filter (\<lambda>mi. mi_id mi \<notin> F) (insertAfter i new mis) = filter (\<lambda>mi. mi_id mi \<notin> F) mis
      \<and> set mis \<subseteq> set (insertAfter i new mis)" for mis
    using assms by (induction mis) auto
  then show ?thesis by (simp add: insertsOnly_def)
qed

lemma boundaryCall_fresh: "fresh_builder bl F mf \<Longrightarrow> mi_id (boundaryCall bl C) \<in> F"
  unfolding boundaryCall_def
  by (rule foldl_invariant [where P = "\<lambda>mi. mi_id mi \<in> F"]) (simp_all add: fresh_builder_def)

lemma saveInstr_fresh: "fresh_builder bl F mf \<Longrightarrow> mi_id (saveInstr bl C reg rid) \<in> F"
  by (simp add: saveInstr_def fresh_builder_def)

lemma insertBoundary_extends:
  assumes "fresh_builder bl F mf0"
  shows "extendsCode F mf (insertBoundary bl C t e mf b)"
  using boundaryCall_fresh [OF assms] saveInstr_fresh [OF assms]
  by (auto simp: insertBoundary_def insertEntryBoundary_def insertBoundaryCheck_def Let_def
      intro!: extendsCode_update emitBoundaryCall_inserts)

lemma insertBoundary_call:
  "b \<in> set (layout mf) \<Longrightarrow> boundaryCall bl C \<in> set (instrs (mbbAt (insertBoundary bl C t e mf b) b))"
  by (auto simp: insertBoundary_def insertEntryBoundary_def insertBoundaryCheck_def Let_def mbbAt_update
      emitBoundaryCall_def)

lemma insertRegisterCheckpoint_extends:
  assumes "fresh_builder bl F mf0"
  shows "extendsCode F mf (insertRegisterCheckpoint bl C mf ckpt)"
  using saveInstr_fresh [OF assms]
  by (auto simp: insertRegisterCheckpoint_def split: option.splits intro!: extendsCode_update insertAfter_inserts)

lemma boundaries_called:
  assumes "fresh_builder bl F mf0" and "b \<in> set bs" and "b \<in> set (layout mf)"
  shows "boundaryCall bl C \<in> set (instrs (mbbAt (foldl (insertBoundary bl C t e) mf bs) b))"
  using assms(2,3)
proof (induction bs arbitrary: mf)
  case (Cons x bs)
  note step = insertBoundary_extends [OF assms(1), of mf C t e x]
  have lay: "b \<in> set (layout (insertBoundary bl C t e mf x))" using step Cons.prems by (simp add: extendsCode_def)
  show ?case
  proof (cases "b \<in> set bs")
    case True
    then show ?thesis using Cons.IH [OF _ lay] by simp
  next
    case False
    with Cons.prems have "x = b" by simp
    moreover have "extendsCode F (insertBoundary bl C t e mf x) (foldl (insertBoundary bl C t e) (insertBoundary bl C t e mf x) bs)"
      by (intro extendsCode_foldl insertBoundary_extends [OF assms(1)])
    ultimately show ?thesis using insertBoundary_call [of b mf bl C t e] Cons.prems(2)
      by (auto simp: extendsCode_def)
  qed
qed simp

lemma instrument_correct:
  assumes "fresh_builder bl F mf" and "instrument bl C t bs ckpts distd mf = (mf', n)"
  shows "eraseInserted F mf' = mf \<and> n = length bs + (if distd then length ckpts else 0)
    \<and> (\<forall>b \<in> set bs \<inter> set (layout mf). boundaryCall bl C \<in> set (instrs (mbbAt mf' b)))"
proof -
  let ?mf1 = "foldl (insertBoundary bl C t (hd (layout mf))) mf bs"
  have one: "extendsCode F mf ?mf1" by (intro extendsCode_foldl insertBoundary_extends [OF assms(1)])
  have two: "extendsCode F ?mf1 mf'"
    using assms(2) insertRegisterCheckpoint_extends [OF assms(1)]
    by (auto simp: instrument_def Let_def split: if_splits intro!: extendsCode_foldl)
  have "eraseInserted F mf' = eraseInserted F mf"
    using extendsCode_trans [OF one two] by (simp add: extendsCode_def)
  with boundaries_called [OF assms(1), of _ bs mf C t "hd (layout mf)"] two assms(2) eraseInserted_fresh [OF assms(1)]
  show ?thesis by (auto simp: instrument_def extendsCode_def Let_def split: if_splits)
qed



section \<open>Example\<close>

definition sample_builder :: llvm_builder where
  "sample_builder = \<lparr>buildMI = (\<lambda>op ops. plainInstr 100 (if op = 0 then ''MOV16mr'' else ''CALLi'') ops),
     addRegisterDefined = (\<lambda>reg mi. mi\<lparr>operands := operands mi @ [RegOperand reg True False]\<rparr>)\<rparr>"

definition sample_pass :: pass_input where
  "sample_pass = \<lparr>configPath = ''c'', energyConfigPath = ''e'', energyDataPath = [], configDoc = Some sample_doc,
     precomputed = None, modelEstimate = (\<lambda>b. Some (if b = 2 then 5 else 4)), opcodeNames = [''MOV16mr'', ''CALLi''],
     registerNames = [''NoRegister'', ''PC'', ''SP'', ''SR'', ''R4'', ''R5'', ''R6'', ''R7'', ''R8'', ''R9'', ''R10'',
       ''R11'', ''R12'', ''R13'', ''R14'', ''R15''],
     targetInfo = sample_target, machineLoops = [], reversePostOrder = [2, 3], builder = sample_builder\<rparr>"

lemma sample_run:
  "case runOnMachineFunction sample_pass sample_mf of
     PassDone mf' n \<Rightarrow> map (\<lambda>b. map opName (instrs (mbbAt mf' b))) [2, 3] =
         [[''CALLi'', ''MOV16ri'', ''MOV16mr''], [''CALLi'', ''MOV16mr'']] \<and> n = 3
   | _ \<Rightarrow> False"
  by code_simp

lemma sample_fresh: "fresh_builder sample_builder {100} sample_mf"
  by (auto simp: fresh_builder_def sample_builder_def plainInstr_def sample_mf_def)


end
