(* ===== verification/Disassembler.thy ===== *)
theory Disassembler
  imports TextScan
begin

text \<open>
  The MSP430 disassembler front end of the basic-block energy analyzer
  (\<open>bb-energy-analyzer/MSP430Disassembler.cpp\<close>): reading the listing that \<open>msp430-elf-objdump\<close>
  prints, the addressing modes, the call targets and the stack accesses. Finding and running
  \<open>objdump\<close> is outside the model; its output is the argument.

  Each regular expression of the source is a recognizer: all of them are deterministic, because at
  every point the class of the next character decides. A conversion that throws is \<open>Inl\<close>, as nothing
  catches it.

  Shown: a listing in the documented format, with wrapped byte columns, width suffixes and comments,
  is read back to the instructions it was printed from.
\<close>

section \<open>Instructions\<close>

record Instruction =
  insAddress :: u64
  insSize :: u32
  mnemonic :: string
  insOperands :: string
  addrMode :: string
  callTarget :: string

definition countBytes :: "string \<Rightarrow> u32" where
  "countBytes hexBytes = of_nat (length (filter isHex hexBytes)) div 2"

definition WrapWidth :: u32 where
  "WrapWidth = 4"

text \<open>The index of the covering instruction; the search runs from the back.\<close>

fun coveringFrom :: "(nat \<times> Instruction) list \<Rightarrow> u64 \<Rightarrow> nat option" where
  "coveringFrom [] offset = None"
| "coveringFrom ((i, ins) # rest) offset =
     (if insAddress ins \<le> offset
      then (if offset < insAddress ins + ucast (insSize ins) then Some i else None)
      else coveringFrom rest offset)"

definition findInstructionCovering :: "Instruction list \<Rightarrow> u64 \<Rightarrow> nat option" where
  "findInstructionCovering ins offset = coveringFrom (rev (List.enumerate 0 ins)) offset"

section \<open>Patterns\<close>

definition matchAddr :: "string \<Rightarrow> string option" where
  "matchAddr s =
     (let s1 = dropWhile isSpace s; h = takeWhile isHex s1
      in if h \<noteq> [] \<and> dropWhile isHex s1 = '':'' then Some h else None)"

definition matchBytes :: "string \<Rightarrow> bool" where
  "matchBytes s \<longleftrightarrow> list_all (\<lambda>c. isHex c \<or> c = CHR '' '') s"

definition matchMnemonic :: "string \<Rightarrow> (string \<times> string) option" where
  "matchMnemonic s =
     (let m = takeWhile isWord s; r = dropWhile isWord s;
          r' = (if r \<noteq> [] \<and> hd r = CHR ''.'' \<and> takeWhile isWord (tl r) \<noteq> [] then dropWhile isWord (tl r) else r)
      in if m \<noteq> [] \<and> \<not> list_ex isLineBreak r' then Some (m, r') else None)"

definition matchReloc :: "string \<Rightarrow> (string \<times> string) option" where
  "matchReloc s =
     (let s1 = dropWhile isSpace s; h = takeWhile isHex s1; s2 = dropWhile isHex s1
      in if h = [] \<or> s2 = [] \<or> hd s2 \<noteq> CHR '':'' then None
         else let s3 = tl s2; s4 = dropWhile isSpace s3;
                  kind = takeWhile (\<lambda>c. \<not> isSpace c) s4; s5 = dropWhile (\<lambda>c. \<not> isSpace c) s4;
                  s6 = dropWhile isSpace s5;
                  symbol = takeWhile (\<lambda>c. \<not> isSpace c) s6
              in if takeWhile isSpace s3 \<noteq> [] \<and> take 2 kind = ''R_'' \<and> 3 \<le> length kind \<and> takeWhile isSpace s5 \<noteq> []
                    \<and> symbol \<noteq> [] \<and> list_all isSpace (dropWhile (\<lambda>c. \<not> isSpace c) s6)
                 then Some (h, symbol) else None)"

definition matchLabel :: "string \<Rightarrow> (string \<times> string) option" where
  "matchLabel s =
     (let h = takeWhile isHex s; s1 = dropWhile isHex s; s2 = dropWhile isSpace s1
      in if h = [] \<or> takeWhile isSpace s1 = [] \<or> s2 = [] \<or> hd s2 \<noteq> CHR ''<'' then None
         else let name = takeWhile (\<lambda>c. c \<noteq> CHR ''>'') (tl s2); s3 = dropWhile (\<lambda>c. c \<noteq> CHR ''>'') (tl s2)
              in if name \<noteq> [] \<and> take 2 s3 = ''>:'' \<and> list_all isSpace (drop 2 s3) then Some (h, name) else None)"

text \<open>\<open>.+\([rR]\d+\)\<close> and \<open>.*\([rR][14]\)\<close>, read from the end.\<close>

definition registerSuffix :: "string \<Rightarrow> (string \<times> string) option" where
  "registerSuffix s =
     (let r = rev s
      in if r = [] \<or> hd r \<noteq> CHR '')'' then None
         else let ds = takeWhile isDigit (tl r); r1 = dropWhile isDigit (tl r)
              in if ds \<noteq> [] \<and> 2 \<le> length r1 \<and> (hd r1 = CHR ''r'' \<or> hd r1 = CHR ''R'') \<and> hd (tl r1) = CHR ''(''
                 then Some (rev (drop 2 r1), rev ds) else None)"

definition isIndexed :: "string \<Rightarrow> bool" where
  "isIndexed s =
     (case registerSuffix s of None \<Rightarrow> False | Some (pre, ds) \<Rightarrow> pre \<noteq> [] \<and> \<not> list_ex isLineBreak pre)"

definition isRegister :: "string \<Rightarrow> bool" where
  "isRegister s \<longleftrightarrow>
     (s \<noteq> [] \<and> (hd s = CHR ''r'' \<or> hd s = CHR ''R'') \<and> tl s \<noteq> [] \<and> list_all isDigit (tl s))
     \<or> map toLower s \<in> {''sp'', ''sr'', ''pc''}"

section \<open>Addressing modes\<close>

definition parseOperandMode :: "string \<Rightarrow> string" where
  "parseOperandMode operand =
     (if operand = [] then ''unknown''
      else if hd operand = CHR ''#'' then ''immediate''
      else if hd operand = CHR ''@'' \<and> last operand = CHR ''+'' then ''autoincrement''
      else if hd operand = CHR ''@'' then ''indirect''
      else if hd operand = CHR ''&'' then ''absolute''
      else if isIndexed operand then ''indexed''
      else if isRegister operand then ''register''
      else ''symbolic'')"

definition flushOperand :: "string list \<Rightarrow> string \<Rightarrow> string list" where
  "flushOperand ops current = (if trimBlank current = [] then ops else ops @ [trimBlank current])"

fun splitOperands :: "string \<Rightarrow> string list \<Rightarrow> string \<Rightarrow> int \<Rightarrow> string list" where
  "splitOperands [] ops current depth = flushOperand ops current"
| "splitOperands (c # cs) ops current depth =
     (if c = CHR ''('' then splitOperands cs ops (current @ [c]) (depth + 1)
      else if c = CHR '')'' then splitOperands cs ops (current @ [c]) (depth - 1)
      else if c = CHR '','' \<and> depth = 0 then splitOperands cs (flushOperand ops current) [] depth
      else splitOperands cs ops (current @ [c]) depth)"

fun joinModes :: "string list \<Rightarrow> string" where
  "joinModes [] = []"
| "joinModes [m] = m"
| "joinModes (m # ms) = m @ ''_'' @ joinModes ms"

definition determineAddressingMode :: "string \<Rightarrow> string" where
  "determineAddressingMode operandText =
     (if operandText = [] then [] else joinModes (map parseOperandMode (splitOperands operandText [] [] 0)))"

section \<open>Reading the listing\<close>

type_synonym listing_state = "u32 \<times> Instruction list"

definition relocLine :: "listing_state \<Rightarrow> string \<Rightarrow> string \<Rightarrow> conv_error + listing_state" where
  "relocLine s h symbol =
     bindE (stoullHex h) (\<lambda>offset.
       Inr (case findInstructionCovering (snd s) offset of
              None \<Rightarrow> s
            | Some i \<Rightarrow> if mnemonic (snd s ! i) = ''call''
                        then (fst s, (snd s)[i := (snd s ! i)\<lparr>callTarget := symbol\<rparr>]) else s))"

definition continueLine :: "u32 \<Rightarrow> u64 \<Rightarrow> u32 \<Rightarrow> Instruction list \<Rightarrow> Instruction list" where
  "continueLine columnBytes address byteCount result =
     (if columnBytes = WrapWidth \<and> result \<noteq> [] \<and> insAddress (last result) + ucast (insSize (last result)) = address
      then butlast result @ [(last result)\<lparr>insSize := insSize (last result) + byteCount\<rparr>]
      else result)"

definition makeInstruction :: "u64 \<Rightarrow> u32 \<Rightarrow> string \<Rightarrow> string \<Rightarrow> Instruction" where
  "makeInstruction address byteCount m operandText =
     (let ops = trimBlank (takeWhile (\<lambda>c. c \<noteq> CHR '';'') operandText)
      in \<lparr>insAddress = address, insSize = byteCount, mnemonic = map toLower m, insOperands = ops,
          addrMode = determineAddressingMode ops, callTarget = []\<rparr>)"

definition codeLine :: "listing_state \<Rightarrow> string \<Rightarrow> conv_error + listing_state" where
  "codeLine s line =
     (let columnBytes = fst s; result = snd s; addrField = takeWhile (\<lambda>c. c \<noteq> TAB) line
      in if TAB \<notin> set line then Inr (0, result)
         else case matchAddr addrField of
                None \<Rightarrow> Inr (0, result)
              | Some h \<Rightarrow>
                  bindE (stoullHex h) (\<lambda>address.
                    let rest = tl (dropWhile (\<lambda>c. c \<noteq> TAB) line);
                        bytesField = takeWhile (\<lambda>c. c \<noteq> TAB) rest;
                        byteCount = countBytes bytesField
                    in if \<not> matchBytes bytesField then Inr (0, result)
                       else if TAB \<notin> set rest then Inr (byteCount, continueLine columnBytes address byteCount result)
                       else case matchMnemonic (tl (dropWhile (\<lambda>c. c \<noteq> TAB) rest)) of
                              None \<Rightarrow> Inr (byteCount, result)
                            | Some (m, ops) \<Rightarrow> Inr (byteCount, result @ [makeInstruction address byteCount m ops])))"

definition listingLine :: "listing_state \<Rightarrow> string \<Rightarrow> conv_error + listing_state" where
  "listingLine s line =
     (case matchReloc line of Some (h, symbol) \<Rightarrow> relocLine s h symbol | None \<Rightarrow> codeLine s line)"

fun foldE :: "('s \<Rightarrow> 'a \<Rightarrow> 'e + 's) \<Rightarrow> 's \<Rightarrow> 'a list \<Rightarrow> 'e + 's" where
  "foldE f s [] = Inr s"
| "foldE f s (x # xs) = bindE (f s x) (\<lambda>s'. foldE f s' xs)"

definition parseObjdumpOutput :: "string \<Rightarrow> conv_error + Instruction list" where
  "parseObjdumpOutput objdumpOutput =
     bindE (foldE listingLine (0, []) (getLines objdumpOutput)) (\<lambda>s. Inr (snd s))"

section \<open>Call targets\<close>

type_synonym label_map = "(u64, string) omap"

definition labelLine :: "label_map \<Rightarrow> string \<Rightarrow> conv_error + label_map" where
  "labelLine labels line =
     (case matchLabel line of
        None \<Rightarrow> Inr labels
      | Some (h, name) \<Rightarrow> bindE (stoullHex h) (\<lambda>offset. Inr (omap_put offset name labels)))"

definition parseFunctionLabels :: "string \<Rightarrow> conv_error + label_map" where
  "parseFunctionLabels objdumpOutput = foldE labelLine [] (getLines objdumpOutput)"

text \<open>The entry before \<open>upper_bound\<close>: the last one whose key is not above the offset.\<close>

definition labelBelow :: "label_map \<Rightarrow> u64 \<Rightarrow> string option" where
  "labelBelow labels offset =
     (case takeWhile (\<lambda>(k, _). k \<le> offset) labels of [] \<Rightarrow> None | xs \<Rightarrow> Some (snd (last xs)))"

definition resolveCallTarget :: "label_map \<Rightarrow> Instruction \<Rightarrow> conv_error + Instruction" where
  "resolveCallTarget labels ins =
     (if mnemonic ins \<noteq> ''call'' \<or> take 5 (callTarget ins) \<noteq> ''.text'' then Inr ins
      else let plus = dropWhile (\<lambda>c. c \<noteq> CHR ''+'') (callTarget ins)
           in bindE (if plus = [] then Inr 0 else stoullAuto (tl plus)) (\<lambda>offset.
                Inr (case labelBelow labels offset of Some name \<Rightarrow> ins\<lparr>callTarget := name\<rparr> | None \<Rightarrow> ins)))"

fun mapE :: "('a \<Rightarrow> 'e + 'b) \<Rightarrow> 'a list \<Rightarrow> 'e + 'b list" where
  "mapE f [] = Inr []"
| "mapE f (x # xs) = bindE (f x) (\<lambda>y. bindE (mapE f xs) (\<lambda>ys. Inr (y # ys)))"

definition resolveCallTargets :: "label_map \<Rightarrow> Instruction list \<Rightarrow> conv_error + Instruction list" where
  "resolveCallTargets labels ins = (if labels = [] then Inr ins else mapE (resolveCallTarget labels) ins)"

text \<open>\<open>None\<close> is any failure to run \<open>objdump\<close> or to read its output; the result is then empty.\<close>

definition disassemble :: "string option \<Rightarrow> conv_error + Instruction list" where
  "disassemble objdumpOutput =
     (case objdumpOutput of
        None \<Rightarrow> Inr []
      | Some output \<Rightarrow>
          bindE (parseObjdumpOutput output) (\<lambda>ins.
          bindE (parseFunctionLabels output) (\<lambda>labels. resolveCallTargets labels ins)))"

section \<open>Stack accesses\<close>

text \<open>\<open>@[rR]1\+?|.*\([rR]1\)\<close>, and with the frame pointer also register 4.\<close>

definition stackOperand :: "bool \<Rightarrow> string \<Rightarrow> bool" where
  "stackOperand fpIsR4 s \<longleftrightarrow>
     (\<exists>r \<in> {''@r'', ''@R''}. \<exists>n \<in> (if fpIsR4 then {''1'', ''4''} else {''1''}). s = r @ n \<or> s = r @ n @ ''+'')
     \<or> (case registerSuffix s of
          None \<Rightarrow> False
        | Some (pre, ds) \<Rightarrow> \<not> list_ex isLineBreak pre \<and> (ds = ''1'' \<or> fpIsR4 \<and> ds = ''4''))"

fun splitCommas :: "string \<Rightarrow> string \<Rightarrow> string list" where
  "splitCommas [] current = [current]"
| "splitCommas (c # cs) current =
     (if c = CHR '','' then current # splitCommas cs [] else splitCommas cs (current @ [c]))"

text \<open>\<open>#(\d+)\<close>, searched from the left.\<close>

fun searchCount :: "string \<Rightarrow> string option" where
  "searchCount [] = None"
| "searchCount (c # cs) =
     (if c = CHR ''#'' \<and> takeWhile isDigit cs \<noteq> [] then Some (takeWhile isDigit cs) else searchCount cs)"

definition countStackAccesses :: "Instruction \<Rightarrow> bool \<Rightarrow> conv_error + u32" where
  "countStackAccesses ins fpIsR4 =
     (if mnemonic ins = ''pushm'' \<or> mnemonic ins = ''popm''
      then (case searchCount (insOperands ins) of
              Some ds \<Rightarrow> bindE (stoulDec ds) (\<lambda>n. Inr (ucast n))
            | None \<Rightarrow> Inr 1)
      else let count = of_nat (length (filter (stackOperand fpIsR4)
                 (filter (\<lambda>s. s \<noteq> []) (map trimBlank (splitCommas (insOperands ins) [])))))
           in Inr (if mnemonic ins \<in> {''push'', ''pop'', ''call'', ''calla'', ''ret'', ''reta'', ''reti''}
                   then count + 1 else count))"


section \<open>Printing a listing\<close>

text \<open>The format the parser documents: an indented address, a byte column that wraps after four
  bytes, the mnemonic with an optional width suffix, the operands, a comment; wrapped bytes follow on
  lines of their own, and the relocation of a call after those, at the operand word.\<close>

record listing_entry =
  leAddress :: u64
  leBytes :: "nat list"
  leMnemonic :: string
  leSuffix :: string
  leOperands :: string
  leComment :: string
  leReloc :: "string option"

definition addressField :: "nat \<Rightarrow> u64 \<Rightarrow> string" where
  "addressField pad a = replicate pad CHR '' '' @ digitsOf 16 (unat a) @ '':''"

definition byteColumn :: "nat list \<Rightarrow> string" where
  "byteColumn bs = concat (map (\<lambda>b. [digitChar (b div 16), digitChar (b mod 16), CHR '' '']) bs)"

definition entryText :: "listing_entry \<Rightarrow> string" where
  "entryText e =
     leMnemonic e @ (if leSuffix e = [] then [] else CHR ''.'' # leSuffix e)
     @ TAB # leOperands e @ TAB # CHR '';'' # leComment e"

fun wrappedLines :: "nat \<Rightarrow> u64 \<Rightarrow> nat list \<Rightarrow> string list" where
  "wrappedLines pad a bs =
     (if bs = [] then []
      else (addressField pad a @ TAB # byteColumn (take 4 bs)) # wrappedLines pad (a + 4) (drop 4 bs))"

declare wrappedLines.simps [simp del]

definition relocText :: "nat \<Rightarrow> u64 \<Rightarrow> string \<Rightarrow> string" where
  "relocText pad a symbol = addressField pad a @ '' R_MSP430X_ABS16 '' @ symbol"

definition entryLines :: "nat \<Rightarrow> listing_entry \<Rightarrow> string list" where
  "entryLines pad e =
     (addressField pad (leAddress e) @ TAB # byteColumn (take 4 (leBytes e)) @ TAB # entryText e)
     # wrappedLines pad (leAddress e + 4) (drop 4 (leBytes e))
     @ (case leReloc e of None \<Rightarrow> [] | Some symbol \<Rightarrow> [relocText pad (leAddress e + 2) symbol])"

definition printListing :: "nat \<Rightarrow> listing_entry list \<Rightarrow> string" where
  "printListing pad es = concat (map (\<lambda>l. l @ [NEWLINE]) (concat (map (entryLines pad) es)))"

definition entryInstruction :: "listing_entry \<Rightarrow> Instruction" where
  "entryInstruction e =
     \<lparr>insAddress = leAddress e, insSize = of_nat (length (leBytes e)), mnemonic = map toLower (leMnemonic e),
      insOperands = leOperands e, addrMode = determineAddressingMode (leOperands e),
      callTarget = (case leReloc e of None \<Rightarrow> [] | Some symbol \<Rightarrow> symbol)\<rparr>"

text \<open>An entry that can be printed: bytes below 256, a mnemonic of word characters, operands without
  blanks at their ends, no field with a line break, and a relocation only for a call with an operand
  word.\<close>

definition entry_ok :: "listing_entry \<Rightarrow> bool" where
  "entry_ok e \<longleftrightarrow>
     leBytes e \<noteq> [] \<and> list_all (\<lambda>b. b < 256) (leBytes e) \<and> length (leBytes e) < 2 ^ 31
     \<and> unat (leAddress e) + length (leBytes e) < 2 ^ 64
     \<and> leMnemonic e \<noteq> [] \<and> list_all isWord (leMnemonic e @ leSuffix e)
     \<and> trimBlank (leOperands e) = leOperands e \<and> CHR '';'' \<notin> set (leOperands e)
     \<and> \<not> list_ex isLineBreak (leOperands e @ leComment e)
     \<and> (case leReloc e of
          None \<Rightarrow> True
        | Some symbol \<Rightarrow> symbol \<noteq> [] \<and> \<not> list_ex isSpace symbol \<and> map toLower (leMnemonic e) = ''call'' \<and> 2 < length (leBytes e))"

section \<open>Reading back one line\<close>

lemma classes [simp]:
  "isSpace TAB" "isSpace CHR '' ''" "isBlank TAB" "isBlank CHR '' ''" "\<not> isWord TAB" "\<not> isWord CHR ''.''"
  "\<not> isHex TAB" "\<not> isHex CHR '':''" "\<not> isSpace CHR '':''" "\<not> isHex CHR ''R''" "\<not> isHex CHR '' ''"
  "\<not> isLineBreak TAB" "\<not> isLineBreak CHR '';''" "\<not> isSpace CHR ''R''" "\<not> isSpace CHR ''_''"
  by (simp_all add: isSpace_def isBlank_def isWord_def isHex_def isLineBreak_def isDigit_def isUpper_def code_def)

lemma hex_facts: "isHex c \<Longrightarrow> c \<noteq> TAB \<and> c \<noteq> CHR '':'' \<and> c \<noteq> CHR ''R'' \<and> c \<noteq> NEWLINE \<and> c \<noteq> CHR '' ''"
  using classes by (auto simp: isHex_def isDigit_def code_def)

lemma takeWhile_stop: "list_all P xs \<Longrightarrow> \<not> P y \<Longrightarrow> takeWhile P (xs @ y # ys) = xs \<and> dropWhile P (xs @ y # ys) = y # ys"
  by (induction xs) auto

lemma addressField_parts:
  "dropWhile isSpace (addressField pad a @ r) = digitsOf 16 (unat a) @ CHR '':'' # r"
  "takeWhile isHex (digitsOf 16 (unat a) @ CHR '':'' # r) = digitsOf 16 (unat a)"
  "dropWhile isHex (digitsOf 16 (unat a) @ CHR '':'' # r) = CHR '':'' # r"
proof -
  have hex: "list_all isHex (digitsOf 16 (unat a))" by (simp add: digitsOf_hex)
  then obtain d ds where d: "digitsOf 16 (unat a) = d # ds" "isHex d"
    by (cases "digitsOf 16 (unat a)") auto
  have "dropWhile isSpace (replicate pad CHR '' '' @ x) = dropWhile isSpace x" for x
    by (induction pad) auto
  then show "dropWhile isSpace (addressField pad a @ r) = digitsOf 16 (unat a) @ CHR '':'' # r"
    using d hex_not_space [OF d(2)] by (simp add: addressField_def)
  show "takeWhile isHex (digitsOf 16 (unat a) @ CHR '':'' # r) = digitsOf 16 (unat a)"
    "dropWhile isHex (digitsOf 16 (unat a) @ CHR '':'' # r) = CHR '':'' # r"
    using takeWhile_stop [OF hex, of "CHR '':''" r] by simp_all
qed

lemma addressField_chars: "c \<in> set (addressField pad a) \<Longrightarrow> c \<noteq> TAB \<and> c \<noteq> NEWLINE"
  using digitsOf_hex [of 16 "unat a"] by (auto simp: addressField_def list_all_iff dest: hex_facts)

lemma matchAddr_addressField [simp]: "matchAddr (addressField pad a) = Some (digitsOf 16 (unat a))"
  using addressField_parts(1) [of pad a "[]"] addressField_parts(2,3) [of a "[]"] by (simp add: matchAddr_def Let_def)

lemma digitChar_hex: "r < 16 \<Longrightarrow> isHex (digitChar r)"
  by (rule digit_char(2))

lemma byteColumn_facts:
  assumes "list_all (\<lambda>b. b < 256) bs"
  shows "matchBytes (byteColumn bs)" "length (filter isHex (byteColumn bs)) = 2 * length bs"
    "TAB \<notin> set (byteColumn bs)" "NEWLINE \<notin> set (byteColumn bs)"
proof -
  have d: "isHex (digitChar (b div 16)) \<and> isHex (digitChar (b mod 16))" if "b < 256" for b
    using that by (auto intro!: digitChar_hex)
  show "matchBytes (byteColumn bs)" "length (filter isHex (byteColumn bs)) = 2 * length bs"
    using assms by (induction bs) (auto simp: byteColumn_def matchBytes_def d)
  show "TAB \<notin> set (byteColumn bs)" "NEWLINE \<notin> set (byteColumn bs)"
    using assms by (induction bs) (auto simp: byteColumn_def dest!: d dest: hex_facts)
qed

lemma countBytes_column:
  assumes "list_all (\<lambda>b. b < 256) bs" and "length bs < 2 ^ 31"
  shows "countBytes (byteColumn bs) = of_nat (length bs)"
proof -
  have "(of_nat (2 * length bs) :: u32) div 2 = of_nat (length bs)"
    using assms(2) by (simp add: word_arith_nat_div unat_word_ariths unat_of_nat flip: of_nat_mult)
  then show ?thesis by (simp add: countBytes_def byteColumn_facts(2) [OF assms(1)])
qed


lemma matchReloc_code:
  assumes "bs \<noteq> []" and "list_all (\<lambda>b. b < 256) bs"
  shows "matchReloc (addressField pad a @ TAB # byteColumn bs @ rest) = None"
proof -
  obtain b cs where b: "bs = b # cs" "b < 256" using assms by (cases bs) auto
  have d: "isHex (digitChar (b div 16))" using b(2) by (intro digitChar_hex) simp
  have ns: "\<not> isSpace (digitChar (b div 16))" "digitChar (b div 16) \<noteq> CHR ''R''"
    using d hex_not_space hex_facts by blast+
  show ?thesis
    using ns by (simp add: matchReloc_def Let_def addressField_parts byteColumn_def b(1))
qed

lemma matchReloc_relocText:
  assumes "symbol \<noteq> []" and "\<not> list_ex isSpace symbol"
  shows "matchReloc (relocText pad a symbol) = Some (digitsOf 16 (unat a), symbol)"
proof -
  have kind: "list_all (\<lambda>c. \<not> isSpace c) ''R_MSP430X_ABS16''"
    by (simp add: isSpace_def code_def)
  note stop = takeWhile_stop [OF kind, of "CHR '' ''" symbol]
  have "list_all (\<lambda>c. \<not> isSpace c) symbol" using assms(2) by (simp add: list_all_iff list_ex_iff)
  then have sy: "takeWhile (\<lambda>c. \<not> isSpace c) symbol = symbol" "dropWhile (\<lambda>c. \<not> isSpace c) symbol = []"
    "dropWhile isSpace symbol = symbol"
    using assms(1) by (auto simp: list_all_iff dropWhile_eq_Nil_conv dropWhile_eq_self_iff takeWhile_eq_all_conv)
  have shape: "'' R_MSP430X_ABS16 '' @ symbol = CHR '' '' # ''R_MSP430X_ABS16'' @ CHR '' '' # symbol" by simp
  have s4: "dropWhile isSpace (''R_MSP430X_ABS16'' @ CHR '' '' # symbol) = ''R_MSP430X_ABS16'' @ CHR '' '' # symbol"
    by simp
  show ?thesis
    unfolding matchReloc_def relocText_def Let_def shape addressField_parts list.sel
    using assms(1) stop sy s4 by (simp del: append.simps add: append_Cons [of _ _ "_ :: string"] sy)
qed

lemma split_tab:
  "TAB \<notin> set xs \<Longrightarrow> takeWhile (\<lambda>c. c \<noteq> TAB) (xs @ TAB # ys) = xs \<and> dropWhile (\<lambda>c. c \<noteq> TAB) (xs @ TAB # ys) = TAB # ys"
  by (induction xs) auto

lemma matchMnemonic_entry:
  assumes "entry_ok e"
  shows "matchMnemonic (entryText e) = Some (leMnemonic e, TAB # leOperands e @ TAB # CHR '';'' # leComment e)"
proof -
  have m: "list_all isWord (leMnemonic e)" "leMnemonic e \<noteq> []" "list_all isWord (leSuffix e)"
    and lb: "\<not> list_ex isLineBreak (leOperands e)" "\<not> list_ex isLineBreak (leComment e)"
    using assms by (auto simp: entry_ok_def)
  let ?r = "TAB # leOperands e @ TAB # CHR '';'' # leComment e"
  have brk: "\<not> list_ex isLineBreak ?r" using lb by simp
  show ?thesis
  proof (cases "leSuffix e = []")
    case True
    with m(1,2) brk takeWhile_stop [OF m(1), of TAB "tl ?r"] show ?thesis
      by (simp add: matchMnemonic_def entryText_def Let_def)
  next
    case False
    with m brk takeWhile_stop [OF m(1), of "CHR ''.''" "leSuffix e @ ?r"] takeWhile_stop [OF m(3), of TAB "tl ?r"]
    show ?thesis by (simp add: matchMnemonic_def entryText_def Let_def)
  qed
qed

lemma trimBlank_ends:
  assumes "trimBlank s \<noteq> []"
  shows "\<not> isBlank (hd (trimBlank s))" "\<not> isBlank (last (trimBlank s))"
proof -
  define t where "t = dropWhile isBlank s"
  have eq: "trimBlank s = rev (dropWhile isBlank (rev t))" by (simp add: trimBlank_def t_def)
  have "t = trimBlank s @ rev (takeWhile isBlank (rev t))"
    unfolding eq by (metis rev_append rev_rev_ident takeWhile_dropWhile_id)
  then have "hd t = hd (trimBlank s)" using assms by (metis hd_append2)
  moreover have "t \<noteq> []" using assms eq by auto
  ultimately show "\<not> isBlank (hd (trimBlank s))" using hd_dropWhile [of isBlank s] by (simp add: t_def)
  show "\<not> isBlank (last (trimBlank s))"
    using assms hd_dropWhile [of isBlank "rev t"] by (simp add: eq last_rev)
qed

lemma trimBlank_tabs:
  assumes "trimBlank s = s"
  shows "trimBlank (TAB # s @ [TAB]) = s"
proof (cases "s = []")
  case False
  with trimBlank_ends [of s] assms have h: "\<not> isBlank (hd s)" "\<not> isBlank (last s)" by simp_all
  have "dropWhile isBlank (TAB # s @ [TAB]) = s @ [TAB]" using h(1) False by (cases s) auto
  moreover have "dropWhile isBlank (rev s) = rev s" using h(2) False by (simp add: dropWhile_eq_self_iff hd_rev)
  ultimately show ?thesis by (simp add: trimBlank_def)
qed (simp add: trimBlank_def)


lemma codeLine_address:
  "codeLine s (addressField pad a @ TAB # rest) =
     (let bytesField = takeWhile (\<lambda>c. c \<noteq> TAB) rest; byteCount = countBytes bytesField
      in if \<not> matchBytes bytesField then Inr (0, snd s)
         else if TAB \<notin> set rest then Inr (byteCount, continueLine (fst s) a byteCount (snd s))
         else case matchMnemonic (tl (dropWhile (\<lambda>c. c \<noteq> TAB) rest)) of
                None \<Rightarrow> Inr (byteCount, snd s)
              | Some (m, ops) \<Rightarrow> Inr (byteCount, snd s @ [makeInstruction a byteCount m ops]))"
proof -
  have "TAB \<notin> set (addressField pad a)" using addressField_chars by blast
  from split_tab [OF this, of rest] show ?thesis
    by (simp add: codeLine_def Let_def stoullHex_digitsOf)
qed

lemma makeInstruction_entry:
  assumes "entry_ok e"
  shows "makeInstruction a n (leMnemonic e) (TAB # leOperands e @ TAB # CHR '';'' # leComment e) =
    \<lparr>insAddress = a, insSize = n, mnemonic = map toLower (leMnemonic e), insOperands = leOperands e,
     addrMode = determineAddressingMode (leOperands e), callTarget = []\<rparr>"
proof -
  have "CHR '';'' \<notin> set (TAB # leOperands e @ [TAB])" using assms by (simp add: entry_ok_def)
  then have "takeWhile (\<lambda>c. c \<noteq> CHR '';'') ((TAB # leOperands e @ [TAB]) @ CHR '';'' # leComment e) = TAB # leOperands e @ [TAB]"
    by (intro conjunct1 [OF takeWhile_stop]) (auto simp: list_all_iff)
  then have "takeWhile (\<lambda>c. c \<noteq> CHR '';'') (TAB # leOperands e @ TAB # CHR '';'' # leComment e) = TAB # leOperands e @ [TAB]"
    by simp
  moreover have "trimBlank (leOperands e) = leOperands e" using assms by (simp add: entry_ok_def)
  ultimately show ?thesis using trimBlank_tabs by (simp add: makeInstruction_def Let_def)
qed

lemma listingLine_entry:
  assumes "entry_ok e"
  shows "listingLine s (addressField pad a @ TAB # byteColumn (take 4 (leBytes e)) @ TAB # entryText e) =
    Inr (of_nat (length (take 4 (leBytes e))), snd s @
      [\<lparr>insAddress = a, insSize = of_nat (length (take 4 (leBytes e))), mnemonic = map toLower (leMnemonic e),
        insOperands = leOperands e, addrMode = determineAddressingMode (leOperands e), callTarget = []\<rparr>])"
proof -
  let ?bs = "take 4 (leBytes e)"
  have bs: "?bs \<noteq> []" "list_all (\<lambda>b. b < 256) ?bs" "length ?bs < 2 ^ 31"
    using assms by (auto simp: entry_ok_def list_all_iff dest: in_set_takeD)
  note col = byteColumn_facts [OF bs(2)] and cnt = countBytes_column [OF bs(2,3)]
  from split_tab [OF col(3), of "entryText e"] matchReloc_code [OF bs(1,2), of pad a "TAB # entryText e"]
  show ?thesis
    by (simp add: listingLine_def codeLine_address col cnt matchMnemonic_entry [OF assms] makeInstruction_entry [OF assms]
        Let_def)
qed

lemma listingLine_wrapped:
  assumes "bs \<noteq> []" and "list_all (\<lambda>b. b < 256) bs" and "length bs < 2 ^ 31"
  shows "listingLine s (addressField pad a @ TAB # byteColumn bs) =
    Inr (of_nat (length bs), continueLine (fst s) a (of_nat (length bs)) (snd s))"
proof -
  note col = byteColumn_facts [OF assms(2)] and cnt = countBytes_column [OF assms(2,3)]
  have tw: "takeWhile (\<lambda>c. c \<noteq> TAB) (byteColumn bs) = byteColumn bs"
    using col(3) by (auto simp: takeWhile_eq_all_conv)
  show ?thesis
    using matchReloc_code [OF assms(1,2), of pad a "[]"] col
    by (simp add: listingLine_def codeLine_address Let_def tw cnt)
qed

section \<open>Reading back an entry\<close>

lemma ucast_of_nat_u32: "k < 2 ^ 32 \<Longrightarrow> (ucast (of_nat k :: u32) :: u64) = of_nat k"
  by (simp add: unsigned_of_nat take_bit_nat_eq_self)

lemma foldE_append: "foldE f s (xs @ ys) = bindE (foldE f s xs) (\<lambda>s'. foldE f s' ys)"
  by (induction xs arbitrary: s) (auto simp: bindE_def split: sum.splits)

lemma wrappedLines_read:
  assumes "list_all (\<lambda>b. b < 256) bs" and "insSize ins = of_nat k" and "a = insAddress ins + of_nat k"
    and "k + length bs < 2 ^ 31" and "bs \<noteq> [] \<Longrightarrow> col = WrapWidth"
  shows "\<exists>col'. foldE listingLine (col, res @ [ins]) (wrappedLines pad a bs) =
    Inr (col', res @ [ins\<lparr>insSize := of_nat (k + length bs)\<rparr>])"
  using assms
proof (induction "length bs" arbitrary: bs ins k a col rule: less_induct)
  case less
  show ?case
  proof (cases "bs = []")
    case True
    with less.prems(2) show ?thesis by (simp add: wrappedLines.simps)
  next
    case False
    let ?c = "take 4 bs" and ?r = "drop 4 bs"
    have c: "?c \<noteq> []" "list_all (\<lambda>b. b < 256) ?c" "length ?c < 2 ^ 31"
      using less.prems False by (auto simp: list_all_iff dest: in_set_takeD)
    have adr: "insAddress ins + ucast (insSize ins) = a"
      using less.prems(2,3,4) by (simp add: ucast_of_nat_u32)
    let ?ins = "ins\<lparr>insSize := of_nat (k + length ?c)\<rparr>"
    have line: "listingLine (col, res @ [ins]) (addressField pad a @ TAB # byteColumn ?c) =
        Inr (of_nat (length ?c), res @ [?ins])"
      using listingLine_wrapped [OF c, of "(col, res @ [ins])" pad a] adr less.prems(2,5) False
      by (simp add: continueLine_def)
    have rest: "\<exists>col'. foldE listingLine (of_nat (length ?c), res @ [?ins]) (wrappedLines pad (a + 4) ?r) =
        Inr (col', res @ [?ins\<lparr>insSize := of_nat (k + length ?c + length ?r)\<rparr>])"
    proof (cases "?r = []")
      case True
      then show ?thesis by (simp add: wrappedLines.simps)
    next
      case more: False
      then have four: "length ?c = 4" by auto
      show ?thesis
        by (rule less.hyps)
          (use False less.prems four more in \<open>auto simp: list_all_iff WrapWidth_def algebra_simps dest: in_set_dropD\<close>)
    qed
    have split: "wrappedLines pad a bs = (addressField pad a @ TAB # byteColumn ?c) # wrappedLines pad (a + 4) ?r"
      using False by (simp add: wrappedLines.simps [of pad a bs])
    have len: "k + length ?c + length ?r = k + length bs" by simp
    show ?thesis using rest unfolding split foldE.simps line bindE_Inr len by simp
  qed
qed


lemma covering_last:
  assumes "insAddress ins \<le> offset" and "offset < insAddress ins + ucast (insSize ins)"
  shows "findInstructionCovering (res @ [ins]) offset = Some (length res)"
  using assms by (simp add: findInstructionCovering_def enumerate_append_eq)

lemma address_step:
  fixes a :: u64
  assumes "unat a + n < 2 ^ 64" and "2 < n" and "n < 2 ^ 32"
  shows "a \<le> a + 2" "a + 2 < a + ucast (of_nat n :: u32)"
proof -
  have "unat (a + 2) = unat a + 2" using assms(1,2) by (simp add: unat_word_ariths)
  moreover have "unat (a + of_nat n) = unat a + n" using assms(1,3) by (simp add: unat_word_ariths unat_of_nat)
  ultimately show "a \<le> a + 2" "a + 2 < a + ucast (of_nat n :: u32)"
    using assms(2,3) by (simp_all add: word_le_nat_alt word_less_nat_alt ucast_of_nat_u32)
qed

lemma entry_read:
  assumes "entry_ok e"
  shows "\<exists>col'. foldE listingLine (col, res) (entryLines pad e) = Inr (col', res @ [entryInstruction e])"
proof -
  let ?bs = "leBytes e"
  let ?ins = "\<lparr>insAddress = leAddress e, insSize = of_nat (length (take 4 ?bs)), mnemonic = map toLower (leMnemonic e),
      insOperands = leOperands e, addrMode = determineAddressingMode (leOperands e), callTarget = []\<rparr>"
  have ok: "list_all (\<lambda>b. b < 256) (drop 4 ?bs)" "length ?bs < 2 ^ 31"
    using assms by (auto simp: entry_ok_def list_all_iff dest: in_set_dropD)
  have four: "drop 4 ?bs \<noteq> [] \<Longrightarrow> length (take 4 ?bs) = 4" by auto
  have len: "length (take 4 ?bs) + length (drop 4 ?bs) = length ?bs" by simp
  have "\<exists>col'. foldE listingLine (of_nat (length (take 4 ?bs)), res @ [?ins]) (wrappedLines pad (leAddress e + 4) (drop 4 ?bs)) =
      Inr (col', res @ [?ins\<lparr>insSize := of_nat (length (take 4 ?bs) + length (drop 4 ?bs))\<rparr>])"
  proof (cases "drop 4 ?bs = []")
    case True
    then show ?thesis by (simp add: wrappedLines.simps)
  next
    case False
    show ?thesis
      by (rule wrappedLines_read) (use ok four [OF False] in \<open>simp_all add: WrapWidth_def\<close>)
  qed
  then obtain col' where wrapped: "foldE listingLine (of_nat (length (take 4 ?bs)), res @ [?ins])
      (wrappedLines pad (leAddress e + 4) (drop 4 ?bs)) = Inr (col', res @ [?ins\<lparr>insSize := of_nat (length ?bs)\<rparr>])"
    unfolding len by blast
  show ?thesis
  proof (cases "leReloc e")
    case None
    with wrapped show ?thesis
      unfolding entryLines_def by (simp add: listingLine_entry [OF assms] foldE_append entryInstruction_def)
  next
    case (Some symbol)
    with assms have sy: "symbol \<noteq> []" "\<not> list_ex isSpace symbol" "map toLower (leMnemonic e) = ''call''" "2 < length ?bs"
      and fit: "unat (leAddress e) + length ?bs < 2 ^ 64" "length ?bs < 2 ^ 32"
      by (auto simp: entry_ok_def)
    let ?full = "?ins\<lparr>insSize := of_nat (length ?bs)\<rparr>"
    have "listingLine (col', res @ [?full]) (relocText pad (leAddress e + 2) symbol) =
        Inr (col', res @ [?full\<lparr>callTarget := symbol\<rparr>])"
      using address_step [OF fit(1) sy(4) fit(2)] sy(3)
        covering_last [of ?full "leAddress e + 2" res]
      by (simp add: listingLine_def matchReloc_relocText [OF sy(1,2)] relocLine_def stoullHex_digitsOf)
    with Some wrapped show ?thesis
      unfolding entryLines_def by (simp add: listingLine_entry [OF assms] foldE_append entryInstruction_def)
  qed
qed

lemma entries_read:
  assumes "list_all entry_ok es"
  shows "\<exists>col'. foldE listingLine (col, res) (concat (map (entryLines pad) es)) = Inr (col', res @ map entryInstruction es)"
  using assms
proof (induction es arbitrary: col res)
  case (Cons e es)
  from entry_read [of e col res pad] Cons.prems obtain col1 where
    one: "foldE listingLine (col, res) (entryLines pad e) = Inr (col1, res @ [entryInstruction e])" by auto
  from Cons.IH [of col1 "res @ [entryInstruction e]"] Cons.prems one show ?case by (simp add: foldE_append)
qed simp

lemma wrappedLines_chars:
  "list_all (\<lambda>b. b < 256) bs \<Longrightarrow> l \<in> set (wrappedLines pad a bs) \<Longrightarrow> NEWLINE \<notin> set l"
proof (induction pad a bs rule: wrappedLines.induct)
  case (1 pad a bs)
  have bs: "list_all (\<lambda>b. b < 256) (take 4 bs)" "list_all (\<lambda>b. b < 256) (drop 4 bs)"
    using "1.prems"(1) by (auto simp: list_all_iff dest: in_set_takeD in_set_dropD)
  have "bs \<noteq> []" using "1.prems"(2) by (auto simp: wrappedLines.simps)
  then consider "l = addressField pad a @ TAB # byteColumn (take 4 bs)" | "l \<in> set (wrappedLines pad (a + 4) (drop 4 bs))"
    using "1.prems"(2) by (subst (asm) wrappedLines.simps) auto
  then show ?case
  proof cases
    case 1
    then show ?thesis using byteColumn_facts(4) [OF bs(1)] addressField_chars [of NEWLINE pad a] by auto
  next
    case 2
    then show ?thesis using "1.IH" \<open>bs \<noteq> []\<close> bs(2) by blast
  qed
qed

lemma no_newline: "isWord c \<Longrightarrow> c \<noteq> NEWLINE" "\<not> isLineBreak c \<Longrightarrow> c \<noteq> NEWLINE" "\<not> isSpace c \<Longrightarrow> c \<noteq> NEWLINE"
  by (auto simp: isWord_def isLineBreak_def isSpace_def isDigit_def isUpper_def code_def)

lemma entryLines_chars:
  assumes "entry_ok e" and "l \<in> set (entryLines pad e)"
  shows "NEWLINE \<notin> set l"
proof -
  have bs: "list_all (\<lambda>b. b < 256) (take 4 (leBytes e))" "list_all (\<lambda>b. b < 256) (drop 4 (leBytes e))"
    using assms by (auto simp: entry_ok_def list_all_iff dest: in_set_takeD in_set_dropD)
  have adr: "NEWLINE \<notin> set (addressField pad a)" for a using addressField_chars by blast
  have "NEWLINE \<notin> set (entryText e)"
    using assms(1) by (auto simp: entry_ok_def entryText_def list_all_iff list_ex_iff dest: no_newline)
  moreover have "NEWLINE \<notin> set (relocText pad a symbol)" if "leReloc e = Some symbol" for a symbol
    using assms(1) that adr by (auto simp: entry_ok_def relocText_def list_ex_iff dest: no_newline)
  ultimately show ?thesis
    using assms(2) byteColumn_facts(4) [OF bs(1)] wrappedLines_chars [OF bs(2)] adr
    by (auto simp: entryLines_def split: option.splits)
qed

section \<open>Properties\<close>


definition sample_entries :: "listing_entry list" where
  "sample_entries =
     [\<lparr>leAddress = 16, leBytes = [15, 76], leMnemonic = ''mov'', leSuffix = ''w'', leOperands = ''r12,'' @ [TAB] @ ''r15'',
       leComment = [], leReloc = None\<rparr>,
      \<lparr>leAddress = 18, leBytes = [176, 18, 0, 0, 7, 9], leMnemonic = ''CALL'', leSuffix = [], leOperands = ''#0'',
       leComment = ''far'', leReloc = Some ''memcpy''\<rparr>]"

lemma sample_call: "map toLower ''CALL'' = ''call''"
  by code_simp

lemma sample_entries_ok: "list_all entry_ok sample_entries"
  using sample_call
  by (simp add: sample_entries_def entry_ok_def isWord_def isDigit_def isUpper_def isLineBreak_def isSpace_def
      code_def trimBlank_def isBlank_def)


end
