(* ===== verification/BBLines.thy ===== *)
theory BBLines
  imports TextScan "HOL-Library.Char_ord" "HOL-Library.List_Lexorder" "HOL-Library.Product_Lexorder"
begin

text \<open>
  Basic blocks and addresses in the energy analyzer (\<open>bb-energy-analyzer/DWARFLineResolver.cpp\<close> and
  \<open>DWARFParser.cpp\<close>): the decoded line table and the function labels are read from the output of
  \<open>objdump\<close>, entries without a line are resolved by four heuristics, and the lines of each function
  become address ranges per basic block. Running \<open>objdump\<close> is outside the model; its two outputs are
  the arguments. \<open>std::sort\<close> leaves the order of equal addresses open; the model uses the stable order,
  and the theorems hold for any sorted list.

  Shown: the in-place resolution equals filling every gap with the last line before it, or the first
  line of the function; the ranges built from a sorted table cover every address from the first entry
  to the end of the function exactly once and attribute it to the line of the entry before it.
\<close>

section \<open>Line entries and their resolution\<close>

record LineEntry =
  entAddress :: u64
  entLine :: u32

record LineContext =
  prevLabeledLine :: u32
  nextLabeledLine :: u32
  prevLabeledAddr :: u64
  nextLabeledAddr :: u64
  funcStartAddr :: u64
  funcEndAddr :: u64
  entryBB :: u32
  exitBB :: u32

definition resolveLine :: "u64 \<Rightarrow> u32 \<Rightarrow> LineContext \<Rightarrow> u32" where
  "resolveLine address rawLine ctx =
     (if rawLine \<noteq> 0 then rawLine
      else if prevLabeledLine ctx = 0 \<and> nextLabeledLine ctx \<noteq> 0 then entryBB ctx
      else if prevLabeledLine ctx \<noteq> 0 \<and> nextLabeledLine ctx = 0 then exitBB ctx
      else if prevLabeledLine ctx \<noteq> 0 \<and> nextLabeledLine ctx \<noteq> 0
      then (if prevLabeledLine ctx = nextLabeledLine ctx then prevLabeledLine ctx else prevLabeledLine ctx)
      else 0)"

definition labeled :: "LineEntry \<Rightarrow> bool" where
  "labeled e \<longleftrightarrow> entLine e \<noteq> 0"

definition firstLabel :: "LineEntry list \<Rightarrow> u32 \<times> u64" where
  "firstLabel es = (case find labeled es of Some e \<Rightarrow> (entLine e, entAddress e) | None \<Rightarrow> (0, 0))"

definition lineContext ::
  "u64 \<Rightarrow> u64 \<Rightarrow> u32 \<Rightarrow> u32 \<Rightarrow> LineEntry list \<Rightarrow> LineEntry list \<Rightarrow> LineContext" where
  "lineContext funcStart funcEnd entry exit before after =
     \<lparr>prevLabeledLine = fst (firstLabel (rev before)), nextLabeledLine = fst (firstLabel after),
      prevLabeledAddr = snd (firstLabel (rev before)), nextLabeledAddr = snd (firstLabel after),
      funcStartAddr = funcStart, funcEndAddr = funcEnd, entryBB = entry, exitBB = exit\<rparr>"

text \<open>The entries are updated in place, so the entries before the current one are already resolved.\<close>

fun resolveFrom :: "u64 \<Rightarrow> u64 \<Rightarrow> u32 \<Rightarrow> u32 \<Rightarrow> LineEntry list \<Rightarrow> LineEntry list \<Rightarrow> LineEntry list" where
  "resolveFrom funcStart funcEnd entry exit before [] = before"
| "resolveFrom funcStart funcEnd entry exit before (e # after) =
     resolveFrom funcStart funcEnd entry exit
       (before @ [if entLine e \<noteq> 0 then e
                  else e\<lparr>entLine := resolveLine (entAddress e) (entLine e)
                          (lineContext funcStart funcEnd entry exit before after)\<rparr>]) after"

definition defaultOne :: "u32 \<Rightarrow> u32" where
  "defaultOne l = (if l = 0 then 1 else l)"

definition resolveSorted :: "u64 \<Rightarrow> u64 \<Rightarrow> LineEntry list \<Rightarrow> LineEntry list" where
  "resolveSorted funcStart funcEnd es =
     resolveFrom funcStart funcEnd (defaultOne (fst (firstLabel es))) (defaultOne (fst (firstLabel (rev es)))) [] es"

definition resolveUnmappedLines :: "u64 \<Rightarrow> u64 \<Rightarrow> LineEntry list \<Rightarrow> LineEntry list" where
  "resolveUnmappedLines funcStart funcEnd es =
     (if es = [] then [] else resolveSorted funcStart funcEnd (sort_key entAddress es))"

section \<open>Reading the tables\<close>

definition matchDecodedLine :: "string \<Rightarrow> (string \<times> string) option" where
  "matchDecodedLine s =
     (let name = takeWhile (\<lambda>c. \<not> isSpace c) s; s1 = dropWhile (\<lambda>c. \<not> isSpace c) s;
          s2 = dropWhile isSpace s1; num = takeWhile isDigit s2; s3 = dropWhile isDigit s2;
          s4 = dropWhile isSpace s3;
          s5 = (if take 2 s4 = ''0x'' \<and> takeWhile isHex (drop 2 s4) \<noteq> [] then drop 2 s4 else s4);
          adr = takeWhile isHex s5
      in if name \<noteq> [] \<and> takeWhile isSpace s1 \<noteq> [] \<and> num \<noteq> [] \<and> takeWhile isSpace s3 \<noteq> [] \<and> adr \<noteq> []
         then Some (num, adr) else None)"

definition decodedLine :: "string \<Rightarrow> conv_error + LineEntry list" where
  "decodedLine line =
     (case matchDecodedLine line of
        None \<Rightarrow> Inr []
      | Some (num, adr) \<Rightarrow>
          bindE (stoulDec num) (\<lambda>n. bindE (stoullHex adr) (\<lambda>a. Inr [\<lparr>entAddress = a, entLine = ucast n\<rparr>])))"

fun concatE :: "('e + 'a list) list \<Rightarrow> 'e + 'a list" where
  "concatE [] = Inr []"
| "concatE (m # ms) = bindE m (\<lambda>xs. bindE (concatE ms) (\<lambda>ys. Inr (xs @ ys)))"

definition parseLineTable :: "string option \<Rightarrow> conv_error + LineEntry list" where
  "parseLineTable decoded =
     (case decoded of None \<Rightarrow> Inr [] | Some output \<Rightarrow> concatE (map decodedLine (getLines output)))"

record FuncRange =
  frName :: string
  frStart :: u64
  frEnd :: u64

definition matchFuncLabel :: "string \<Rightarrow> (string \<times> string) option" where
  "matchFuncLabel s =
     (let h = takeWhile isHex s; s1 = dropWhile isHex s; s2 = dropWhile isSpace s1
      in if h = [] \<or> takeWhile isSpace s1 = [] \<or> length s2 < 2 \<or> hd s2 \<noteq> CHR ''<'' \<or> hd (tl s2) = CHR ''.'' then None
         else let name = hd (tl s2) # takeWhile (\<lambda>c. c \<noteq> CHR ''>'') (drop 2 s2);
                  s3 = dropWhile (\<lambda>c. c \<noteq> CHR ''>'') (drop 2 s2)
              in if take 2 s3 = ''>:'' then Some (h, name) else None)"

definition matchInstrAddr :: "string \<Rightarrow> string option" where
  "matchInstrAddr s =
     (let s1 = dropWhile isSpace s; h = takeWhile isHex s1; s2 = dropWhile isHex s1
      in if h \<noteq> [] \<and> s2 \<noteq> [] \<and> hd s2 = CHR '':'' then Some h else None)"

type_synonym label_scan = "(u64 \<times> string) list \<times> u64"

definition scanLabelLine :: "label_scan \<Rightarrow> string \<Rightarrow> conv_error + label_scan" where
  "scanLabelLine s line =
     bindE (case matchFuncLabel line of
              None \<Rightarrow> Inr (fst s)
            | Some (h, name) \<Rightarrow> bindE (stoullHex h) (\<lambda>a. Inr (if hd name \<noteq> CHR ''.'' then fst s @ [(a, name)] else fst s))) (\<lambda>starts.
     bindE (case matchInstrAddr line of
              None \<Rightarrow> Inr (snd s)
            | Some h \<Rightarrow> bindE (stoullHex h) (\<lambda>a. Inr (if snd s < a + 4 then a + 4 else snd s))) (\<lambda>maxAddr.
     Inr (starts, maxAddr)))"

fun scanLabels :: "label_scan \<Rightarrow> string list \<Rightarrow> conv_error + label_scan" where
  "scanLabels s [] = Inr s"
| "scanLabels s (l # ls) = bindE (scanLabelLine s l) (\<lambda>s'. scanLabels s' ls)"

fun funcRanges :: "u64 \<Rightarrow> (u64 \<times> string) list \<Rightarrow> FuncRange list" where
  "funcRanges maxAddr [] = []"
| "funcRanges maxAddr ((a, name) # rest) =
     (let fend = (case rest of [] \<Rightarrow> maxAddr | (b, _) # _ \<Rightarrow> b)
      in (if a < fend then [\<lparr>frName = name, frStart = a, frEnd = fend\<rparr>] else []) @ funcRanges maxAddr rest)"

definition parseFunctionRanges :: "string option \<Rightarrow> conv_error + FuncRange list" where
  "parseFunctionRanges listing =
     (case listing of
        None \<Rightarrow> Inr []
      | Some output \<Rightarrow> bindE (scanLabels ([], 0) (getLines output)) (\<lambda>s. Inr (funcRanges (snd s) (sort (fst s)))))"

section \<open>Address ranges per basic block\<close>

record AddressRange =
  rgStart :: u64
  rgEnd :: u64

type_synonym bb_ranges = "(u32, AddressRange list) omap"

fun mergeRange :: "u64 \<Rightarrow> u64 \<Rightarrow> AddressRange list \<Rightarrow> AddressRange list" where
  "mergeRange s e [] = [\<lparr>rgStart = s, rgEnd = e\<rparr>]"
| "mergeRange s e (r # rs) = (if rgEnd r = s then r\<lparr>rgEnd := e\<rparr> # rs else r # mergeRange s e rs)"

fun buildRanges :: "u64 \<Rightarrow> LineEntry list \<Rightarrow> bb_ranges \<Rightarrow> bb_ranges" where
  "buildRanges fend [] m = m"
| "buildRanges fend (e # es) m =
     (let endAddr = (case es of [] \<Rightarrow> fend | e' # _ \<Rightarrow> entAddress e')
      in buildRanges fend es
           (if endAddr \<le> entAddress e then m
            else omap_put (entLine e) (mergeRange (entAddress e) endAddr (omap_get [] m (entLine e))) m))"

definition linesOf :: "FuncRange \<Rightarrow> LineEntry list \<Rightarrow> LineEntry list" where
  "linesOf f es = filter (\<lambda>e. frStart f \<le> entAddress e \<and> entAddress e < frEnd f) es"

definition functionMap :: "LineEntry list \<Rightarrow> (string, bb_ranges) omap \<Rightarrow> FuncRange \<Rightarrow> (string, bb_ranges) omap" where
  "functionMap es result f =
     (let funcLines = linesOf f es
      in if funcLines = [] then result
         else omap_put (frName f)
                (buildRanges (frEnd f) (resolveUnmappedLines (frStart f) (frEnd f) funcLines) []) result)"

definition parseDWARF :: "string option \<Rightarrow> string option \<Rightarrow> conv_error + (string, bb_ranges) omap" where
  "parseDWARF decoded listing =
     bindE (parseLineTable decoded) (\<lambda>es.
     bindE (parseFunctionRanges listing) (\<lambda>fs.
     Inr (foldl (functionMap (sort_key entAddress es)) [] fs)))"

definition lineMapOf :: "LineEntry list \<Rightarrow> (string, LineEntry list) omap \<Rightarrow> FuncRange \<Rightarrow> (string, LineEntry list) omap" where
  "lineMapOf es result f =
     (let funcLines = linesOf f es
      in if funcLines = [] then result
         else omap_put (frName f) (resolveUnmappedLines (frStart f) (frEnd f) funcLines) result)"

definition parseLineMap :: "string option \<Rightarrow> string option \<Rightarrow> conv_error + (string, LineEntry list) omap" where
  "parseLineMap decoded listing =
     bindE (parseLineTable decoded) (\<lambda>es.
       if es = [] then Inr []
       else bindE (parseFunctionRanges listing) (\<lambda>fs. Inr (foldl (lineMapOf (sort_key entAddress es)) [] fs)))"


section \<open>Resolution as gap filling\<close>

text \<open>The reference: the line of the last labeled entry up to this one, or of the first labeled entry of
  the function when there is none before it, or 0.\<close>

definition fillLine :: "LineEntry list \<Rightarrow> nat \<Rightarrow> u32" where
  "fillLine es i =
     (case find labeled (rev (take (Suc i) es)) of Some e \<Rightarrow> entLine e | None \<Rightarrow> fst (firstLabel es))"

lemma firstLabel_zero: "fst (firstLabel es) = 0 \<longleftrightarrow> find labeled es = None"
  by (auto simp: firstLabel_def labeled_def split: option.splits dest: find_someD)

lemma fillLine_zero: "fillLine es i = 0 \<longleftrightarrow> find labeled es = None"
proof (cases "find labeled (rev (take (Suc i) es))")
  case None
  then show ?thesis by (simp add: fillLine_def firstLabel_zero)
next
  case (Some e)
  then have e: "labeled e" "e \<in> set (take (Suc i) es)" by (auto dest: find_someD)
  then have "find labeled es \<noteq> None" using in_set_takeD [of e "Suc i" es] by (auto simp: find_None_iff)
  with Some e show ?thesis by (auto simp: fillLine_def labeled_def)
qed

lemma last_label_resolved:
  assumes "map entLine before = map (fillLine es) [0 ..< n]" and "0 < n"
  shows "fst (firstLabel (rev before)) = fillLine es (n - 1)"
proof -
  obtain m where m: "n = Suc m" using assms(2) by (cases n) auto
  then have ml: "map entLine before = map (fillLine es) [0 ..< m] @ [fillLine es m]" using assms(1) by simp
  then obtain bs b where b: "before = bs @ [b]" by (cases before rule: rev_cases) auto
  have "entLine b = fillLine es (n - 1)" using ml b m by simp
  moreover have "fst (firstLabel (rev before)) = 0" if "fillLine es (n - 1) = 0"
  proof -
    have "entLine x = 0" if "x \<in> set before" for x
    proof -
      from that have "entLine x \<in> set (map (fillLine es) [0 ..< n])" using assms(1) by (metis image_eqI set_map)
      then show ?thesis using \<open>fillLine es (n - 1) = 0\<close> fillLine_zero [of es] by auto
    qed
    then show ?thesis by (auto simp: firstLabel_zero find_None_iff labeled_def)
  qed
  ultimately show ?thesis
    by (cases "entLine b = 0") (auto simp: b firstLabel_def labeled_def)
qed

lemma fillLine_next:
  assumes "i < length es" and "\<not> labeled (es ! i)" and "0 < i"
  shows "fillLine es i = fillLine es (i - 1)"
  using assms by (simp add: fillLine_def take_Suc_conv_app_nth)

lemma resolve_step:
  assumes "es = pre @ e # after" and "map entLine before = map (fillLine es) [0 ..< length pre]" and "entLine e = 0"
  shows "resolveLine (entAddress e) 0
      (lineContext fs fe (defaultOne (fst (firstLabel es))) (defaultOne (fst (firstLabel (rev es)))) before after) =
    fillLine es (length pre)"
proof -
  have e: "es ! length pre = e" "length pre < length es" "\<not> labeled e" using assms(1,3) by (auto simp: labeled_def)
  let ?prev = "fst (firstLabel (rev before))" and ?next = "fst (firstLabel after)"
  show ?thesis
  proof (cases "find labeled es")
    case None
    then have "?next = 0" by (simp add: assms(1) find_append firstLabel_zero split: option.splits if_splits)
    moreover have "?prev = 0"
    proof (cases "pre = []")
      case True
      with assms(2) show ?thesis by (simp add: firstLabel_def)
    next
      case False
      then show ?thesis using last_label_resolved [OF assms(2)] fillLine_zero [of es] None by simp
    qed
    ultimately show ?thesis using None fillLine_zero [of es "length pre"]
      by (simp add: resolveLine_def lineContext_def)
  next
    case (Some f)
    then have first: "fst (firstLabel es) \<noteq> 0" by (simp add: firstLabel_zero)
    show ?thesis
    proof (cases "pre = []")
      case True
      then have "?prev = 0" using assms(2) by (simp add: firstLabel_def)
      moreover have "?next \<noteq> 0" using Some True e(3) by (simp add: assms(1) firstLabel_zero)
      moreover have "fillLine es 0 = fst (firstLabel es)" using True e(3) by (simp add: fillLine_def assms(1))
      ultimately show ?thesis using True first by (simp add: resolveLine_def lineContext_def defaultOne_def)
    next
      case False
      then have prev: "?prev = fillLine es (length pre)"
        using last_label_resolved [OF assms(2)] fillLine_next [OF e(2)] e(1,3) by simp
      have nz: "?prev \<noteq> 0" using prev fillLine_zero [of es] Some by simp
      show ?thesis
      proof (cases "?next = 0")
        case True
        then have none: "find labeled (rev after) = None"
          by (simp add: firstLabel_zero find_None_iff)
        then have "find labeled (rev es) = find labeled (rev pre)"
          using e(3) by (simp add: assms(1) find_append)
        moreover obtain x where x: "find labeled (rev pre) = Some x"
          using Some none e(3) by (cases "find labeled (rev pre)") (auto simp: assms(1) find_None_iff dest!: find_someD)
        moreover have "fillLine es (length pre) = entLine x"
          using x e(3) by (simp add: fillLine_def assms(1))
        ultimately show ?thesis using True nz find_someD [OF x]
          by (simp add: resolveLine_def lineContext_def defaultOne_def firstLabel_def labeled_def)
      next
        case False
        with nz prev show ?thesis by (simp add: resolveLine_def lineContext_def)
      qed
    qed
  qed
qed

lemma resolveFrom_fill:
  assumes "es = pre @ todo" and "map entLine before = map (fillLine es) [0 ..< length pre]"
    and "map entAddress before = map entAddress pre"
  shows "map entLine (resolveFrom fs fe (defaultOne (fst (firstLabel es))) (defaultOne (fst (firstLabel (rev es)))) before todo)
      = map (fillLine es) [0 ..< length es]
    \<and> map entAddress (resolveFrom fs fe (defaultOne (fst (firstLabel es))) (defaultOne (fst (firstLabel (rev es)))) before todo)
      = map entAddress es"
  using assms
proof (induction todo arbitrary: pre before)
  case (Cons e after)
  let ?e = "if entLine e \<noteq> 0 then e else e\<lparr>entLine := resolveLine (entAddress e) (entLine e)
      (lineContext fs fe (defaultOne (fst (firstLabel es))) (defaultOne (fst (firstLabel (rev es)))) before after)\<rparr>"
  have "entLine ?e = fillLine es (length pre)"
  proof (cases "entLine e = 0")
    case True
    then show ?thesis using resolve_step [OF Cons.prems(1,2) True] by simp
  next
    case False
    then show ?thesis by (simp add: Cons.prems(1) fillLine_def labeled_def)
  qed
  then have line: "map entLine (before @ [?e]) = map (fillLine es) [0 ..< length (pre @ [e])]"
    using Cons.prems(2) by (simp del: if_not_P)
  have adr: "map entAddress (before @ [?e]) = map entAddress (pre @ [e])" using Cons.prems(3) by simp
  have "es = (pre @ [e]) @ after" using Cons.prems(1) by simp
  from Cons.IH [OF this line adr] show ?case unfolding resolveFrom.simps .
qed simp


section \<open>The ranges cover each address once\<close>

definition inRange :: "AddressRange \<Rightarrow> u64 \<Rightarrow> bool" where
  "inRange r a \<longleftrightarrow> rgStart r \<le> a \<and> a < rgEnd r"

text \<open>How many of the ranges contain an address.\<close>

definition hits :: "AddressRange list \<Rightarrow> u64 \<Rightarrow> nat" where
  "hits rs a = length (filter (\<lambda>r. inRange r a) rs)"

definition totalHits :: "bb_ranges \<Rightarrow> u64 \<Rightarrow> nat" where
  "totalHits m a = sum_list (map (\<lambda>(bb, rs). hits rs a) m)"

text \<open>The line of the last entry that is not above an address.\<close>

definition lineAt :: "LineEntry list \<Rightarrow> u64 \<Rightarrow> u32" where
  "lineAt es a = entLine (last (filter (\<lambda>e. entAddress e \<le> a) es))"

definition ranges_ok :: "bb_ranges \<Rightarrow> bool" where
  "ranges_ok m \<longleftrightarrow> omap_wf m \<and> (\<forall>(bb, rs) \<in> set m. \<forall>r \<in> set rs. rgStart r < rgEnd r)"

lemma hits_Nil [simp]: "hits [] a = 0"
  by (simp add: hits_def)

lemma hits_mergeRange:
  assumes "s < e" and "\<forall>r \<in> set rs. rgStart r < rgEnd r"
  shows "hits (mergeRange s e rs) a = hits rs a + (if s \<le> a \<and> a < e then 1 else 0)"
  using assms
proof (induction rs)
  case Nil
  then show ?case by (simp add: hits_def inRange_def)
next
  case (Cons r rs)
  show ?case
  proof (cases "rgEnd r = s")
    case True
    with Cons.prems have "rgStart r < s" "s < e" by auto
    then have "inRange (r\<lparr>rgEnd := e\<rparr>) a \<longleftrightarrow> inRange r a \<or> s \<le> a \<and> a < e" "\<not> (inRange r a \<and> s \<le> a)"
      using True by (auto simp: inRange_def)
    with True show ?thesis by (auto simp: hits_def)
  next
    case False
    with Cons show ?thesis by (auto simp: hits_def)
  qed
qed

lemma mergeRange_ok:
  "s < e \<Longrightarrow> \<forall>r \<in> set rs. rgStart r < rgEnd r \<Longrightarrow> r \<in> set (mergeRange s e rs) \<Longrightarrow> rgStart r < rgEnd r"
  by (induction rs) (auto split: if_splits dest: less_trans)

lemma omap_put_sum:
  assumes "omap_wf m" and "f d = 0"
  shows "sum_list (map (\<lambda>(k, v). f v) (omap_put k v m)) + f (omap_get d m k) =
    sum_list (map (\<lambda>(k, v). f v) m) + (f v :: 'c::comm_monoid_add)"
  using assms
proof (induction k v m rule: omap_put.induct)
  case (2 k v k' v' m)
  have "map_of m k = None" if "k < k'"
    using that "2.prems"(1) by (auto simp: omap_wf_def map_of_eq_None_iff)
  with 2 show ?case by (auto simp: omap_get_def omap_wf_def ac_simps)
qed (auto simp: omap_get_def)

lemma set_omap_put: "omap_wf m \<Longrightarrow> set (omap_put k v m) \<subseteq> insert (k, v) (set m)"
  by (induction k v m rule: omap_put.induct) (auto simp: omap_wf_def split: if_splits)

lemma ranges_ok_get: "ranges_ok m \<Longrightarrow> r \<in> set (omap_get [] m bb) \<Longrightarrow> rgStart r < rgEnd r"
  by (cases "map_of m bb") (auto simp: ranges_ok_def omap_get_def dest!: map_of_SomeD)

lemma add_range:
  assumes "ranges_ok m" and "s < e"
    and m': "m' = omap_put bb (mergeRange s e (omap_get [] m bb)) m"
  shows "ranges_ok m'"
    and "totalHits m' a = totalHits m a + (if s \<le> a \<and> a < e then 1 else 0)"
    and "hits (omap_get [] m' x) a = hits (omap_get [] m x) a + (if x = bb \<and> s \<le> a \<and> a < e then 1 else 0)"
proof -
  let ?rs = "omap_get [] m bb"
  have rs: "\<forall>r \<in> set ?rs. rgStart r < rgEnd r" using ranges_ok_get [OF assms(1)] by auto
  have wf: "omap_wf m" using assms(1) by (simp add: ranges_ok_def)
  show "ranges_ok m'"
    using assms(1) set_omap_put [OF wf, of bb "mergeRange s e ?rs"] mergeRange_ok [OF assms(2) rs] omap_wf_put [OF wf]
    by (fastforce simp: ranges_ok_def m')
  show "totalHits m' a = totalHits m a + (if s \<le> a \<and> a < e then 1 else 0)"
    using omap_put_sum [OF wf, of "\<lambda>rs. hits rs a" "[]" bb "mergeRange s e ?rs"] hits_mergeRange [OF assms(2) rs, of a]
    by (simp add: totalHits_def m')
  show "hits (omap_get [] m' x) a = hits (omap_get [] m x) a + (if x = bb \<and> s \<le> a \<and> a < e then 1 else 0)"
    using hits_mergeRange [OF assms(2) rs, of a] by (simp add: m')
qed

lemma lineAt_Cons:
  assumes "sorted (map entAddress (e # es))" and "entAddress e \<le> a"
  shows "lineAt (e # es) a = (if es \<noteq> [] \<and> entAddress (hd es) \<le> a then lineAt es a else entLine e)"
proof (cases "es \<noteq> [] \<and> entAddress (hd es) \<le> a")
  case True
  then have "filter (\<lambda>e. entAddress e \<le> a) es \<noteq> []" by (cases es) auto
  with True assms show ?thesis by (simp add: lineAt_def)
next
  case False
  then have "filter (\<lambda>e. entAddress e \<le> a) es = []"
    using assms(1) by (cases es) (auto simp: filter_empty_conv)
  with assms show ?thesis unfolding if_not_P [OF False] by (simp add: lineAt_def)
qed

lemma buildRanges_hits:
  assumes "ranges_ok m" and "sorted (map entAddress es)" and "\<forall>e \<in> set es. entAddress e < fend"
  shows "ranges_ok (buildRanges fend es m)
    \<and> totalHits (buildRanges fend es m) a =
      totalHits m a + (if es \<noteq> [] \<and> entAddress (hd es) \<le> a \<and> a < fend then 1 else 0)
    \<and> hits (omap_get [] (buildRanges fend es m) bb) a =
      hits (omap_get [] m bb) a + (if es \<noteq> [] \<and> entAddress (hd es) \<le> a \<and> a < fend \<and> lineAt es a = bb then 1 else 0)"
  using assms
proof (induction es arbitrary: m)
  case (Cons e es)
  let ?upto = "case es of [] \<Rightarrow> fend | e' # _ \<Rightarrow> entAddress e'"
  let ?m = "if ?upto \<le> entAddress e then m
      else omap_put (entLine e) (mergeRange (entAddress e) ?upto (omap_get [] m (entLine e))) m"
  have step: "buildRanges fend (e # es) m = buildRanges fend es ?m" by (simp add: Let_def)
  have tail: "sorted (map entAddress es)" "\<forall>e \<in> set es. entAddress e < fend" using Cons.prems(2,3) by auto
  have le: "entAddress e \<le> ?upto" "?upto \<le> fend" using Cons.prems(2,3) by (cases es; auto simp: less_imp_le)+
  have seg: "entAddress e \<le> a \<and> a < ?upto \<or> es \<noteq> [] \<and> entAddress (hd es) \<le> a \<and> a < fend \<longleftrightarrow> entAddress e \<le> a \<and> a < fend"
    "\<not> (a < ?upto \<and> es \<noteq> [] \<and> entAddress (hd es) \<le> a)"
    using le by (cases es; auto)+
  have "ranges_ok ?m \<and> totalHits ?m a = totalHits m a + (if entAddress e \<le> a \<and> a < ?upto then 1 else 0)
    \<and> hits (omap_get [] ?m bb) a = hits (omap_get [] m bb) a + (if bb = entLine e \<and> entAddress e \<le> a \<and> a < ?upto then 1 else 0)"
  proof (cases "?upto \<le> entAddress e")
    case True
    then show ?thesis using Cons.prems(1) by auto
  next
    case False
    then have lt: "entAddress e < ?upto" by simp
    show ?thesis
      using add_range(1) [OF Cons.prems(1) lt refl, where bb = "entLine e"]
        add_range(2) [OF Cons.prems(1) lt refl, where bb = "entLine e" and a = a]
        add_range(3) [OF Cons.prems(1) lt refl, where bb = "entLine e" and x = bb and a = a] False
      by (simp del: omap_get_put)
  qed
  then have ok: "ranges_ok ?m"
    and tot: "totalHits ?m a = totalHits m a + (if entAddress e \<le> a \<and> a < ?upto then 1 else 0)"
    and one: "hits (omap_get [] ?m bb) a = hits (omap_get [] m bb) a + (if bb = entLine e \<and> entAddress e \<le> a \<and> a < ?upto then 1 else 0)"
    by blast+
  note IH = Cons.IH [OF ok tail]
  have "totalHits (buildRanges fend (e # es) m) a =
      totalHits m a + (if e # es \<noteq> [] \<and> entAddress (hd (e # es)) \<le> a \<and> a < fend then 1 else 0)"
    using IH tot seg unfolding step by auto
  moreover have "hits (omap_get [] (buildRanges fend (e # es) m) bb) a =
      hits (omap_get [] m bb) a + (if e # es \<noteq> [] \<and> entAddress (hd (e # es)) \<le> a \<and> a < fend \<and> lineAt (e # es) a = bb then 1 else 0)"
    using IH one seg lineAt_Cons [OF Cons.prems(2), of a] unfolding step by auto
  ultimately show ?case using IH step by simp
qed simp

section \<open>Properties\<close>

text \<open>Resolving the unmapped lines in place is gap filling: every entry gets the line of the last
  entry up to it that has one, or of the first entry that has one, and keeps its address. In
  particular every entry has a line as soon as one has.\<close>

theorem resolveSorted_fills_gaps:
  "map entLine (resolveSorted funcStart funcEnd es) = map (fillLine es) [0 ..< length es]
   \<and> map entAddress (resolveSorted funcStart funcEnd es) = map entAddress es
   \<and> (\<exists>i < length es. fillLine es i = 0) = (es \<noteq> [] \<and> find labeled es = None)"
  using resolveFrom_fill [of es "[]" es "[]" funcStart funcEnd]
  by (auto simp: resolveSorted_def fillLine_zero)

text \<open>The ranges of a function partition it. Built from lines in address order that lie in the
  function, they contain every address from the first entry to the end of the function exactly once
  and no other, and the block an address falls in is the line of the last entry not above it.\<close>

theorem buildRanges_partition:
  assumes "sorted (map entAddress es)" and "\<forall>e \<in> set es. entAddress e < fend" and "es \<noteq> []"
  shows "totalHits (buildRanges fend es []) a = (if entAddress (hd es) \<le> a \<and> a < fend then 1 else 0)
    \<and> (\<forall>bb. hits (omap_get [] (buildRanges fend es []) bb) a =
         (if entAddress (hd es) \<le> a \<and> a < fend \<and> lineAt es a = bb then 1 else 0))"
proof -
  have "ranges_ok []" by (simp add: ranges_ok_def)
  from buildRanges_hits [OF this assms(1,2)] assms(3) show ?thesis
    by (simp add: totalHits_def)
qed

definition sample_lines :: "LineEntry list" where
  "sample_lines = [\<lparr>entAddress = 2, entLine = 0\<rparr>, \<lparr>entAddress = 4, entLine = 5\<rparr>, \<lparr>entAddress = 8, entLine = 0\<rparr>]"

theorem buildRanges_partition_witness:
  "hits (omap_get [] (buildRanges 16 (resolveSorted 2 16 sample_lines) []) 5) 9 = 1"
proof -
  have res: "resolveSorted 2 16 sample_lines =
      [\<lparr>entAddress = 2, entLine = 5\<rparr>, \<lparr>entAddress = 4, entLine = 5\<rparr>, \<lparr>entAddress = 8, entLine = 5\<rparr>]"
    by (simp add: sample_lines_def resolveSorted_def resolveLine_def lineContext_def firstLabel_def labeled_def
        defaultOne_def)
  show ?thesis
    using buildRanges_partition [of "resolveSorted 2 16 sample_lines" 16 9]
    by (simp add: res lineAt_def)
qed

end
