(* ===== verification/EnergyAnalysis.thy ===== *)
theory EnergyAnalysis
  imports Disassembler BBLines MachineCheckpointing
begin

text \<open>
  The energy costs: the assembly energy model (\<open>bb-energy-analyzer/EnergyModel.cpp\<close>), the analyzer
  that charges every instruction to a basic block (\<open>BBEnergyAnalyzer.cpp\<close>), and the estimator of the
  RockClimb backend that uses the same model or the analyzer's output
  (\<open>rockclimb-backend/MachineEnergyEstimator.cpp\<close>).

  The JSON documents are arguments, already parsed; a value of the wrong type is \<open>None\<close>. Output is the
  structure that is written, not its text; warnings are left out.

  Shown: without a stack penalty the energies of all blocks and of the unmapped instructions add up to
  the energies of all instructions, because the address ranges contain each address at most once; the
  size of a copy is taken from a move even when a one-operand instruction has changed the register in
  between.
\<close>

section \<open>The energy model\<close>

record EnergyModel =
  emCosts :: "(string, double) omap"
  emDefault :: double
  emIgnored :: "string set"

record energy_config =
  cfgDefault :: "double option option"
  cfgParameters :: "(string \<times> double option) list option"
  cfgIgnored :: "string option list option"

fun loadCosts :: "(string \<times> double option) list \<Rightarrow> (string, double) omap \<Rightarrow> bool \<times> (string, double) omap" where
  "loadCosts [] costs = (True, costs)"
| "loadCosts ((k, Some v) # rest) costs = loadCosts rest (omap_put k v costs)"
| "loadCosts ((k, None) # rest) costs = (False, costs)"

text \<open>The names up to the first that is not a string.\<close>

fun loadIgnored :: "string option list \<Rightarrow> string set \<Rightarrow> string set" where
  "loadIgnored [] names = names"
| "loadIgnored (Some n # rest) names = loadIgnored rest (insert n names)"
| "loadIgnored (None # rest) names = names"

definition emptyModel :: EnergyModel where
  "emptyModel = \<lparr>emCosts = [], emDefault = 1, emIgnored = {}\<rparr>"

text \<open>\<open>None\<close> is no path, a file that does not open or a document that does not parse. An exception ends
  the loading and keeps what was loaded.\<close>

definition loadEnergyModel :: "energy_config option \<Rightarrow> EnergyModel" where
  "loadEnergyModel config =
     (case config of
        None \<Rightarrow> emptyModel
      | Some c \<Rightarrow>
          (case cfgDefault c of
             Some None \<Rightarrow> emptyModel
           | d \<Rightarrow>
               (let m = (case d of Some (Some v) \<Rightarrow> emptyModel\<lparr>emDefault := v\<rparr> | _ \<Rightarrow> emptyModel);
                    (ok, costs) = (case cfgParameters c of None \<Rightarrow> (True, []) | Some ps \<Rightarrow> loadCosts ps [])
                in m\<lparr>emCosts := costs,
                     emIgnored := (if \<not> ok then {}
                                   else case cfgIgnored c of None \<Rightarrow> {} | Some ns \<Rightarrow> loadIgnored ns {})\<rparr>)))"

definition makeKey :: "string \<Rightarrow> string \<Rightarrow> string" where
  "makeKey m mode = (if mode = [] then m else m @ ''_'' @ mode)"

definition hasEnergy :: "EnergyModel \<Rightarrow> string \<Rightarrow> string \<Rightarrow> bool" where
  "hasEnergy em m mode \<longleftrightarrow> omap_count (emCosts em) (makeKey m mode)"

text \<open>The keys asked for and the keys not found, which the model collects as it is used.\<close>

record key_log =
  requiredKeys :: "string set"
  missingKeys :: "string set"

definition require :: "string \<Rightarrow> key_log \<Rightarrow> key_log" where
  "require k ks = ks\<lparr>requiredKeys := insert k (requiredKeys ks)\<rparr>"

definition reportMissing :: "string \<Rightarrow> key_log \<Rightarrow> key_log" where
  "reportMissing k ks = ks\<lparr>missingKeys := insert k (missingKeys ks)\<rparr>"

definition getEnergy :: "EnergyModel \<Rightarrow> string \<Rightarrow> string \<Rightarrow> key_log \<Rightarrow> double \<times> key_log" where
  "getEnergy em m mode ks =
     (let key = makeKey m mode; ks1 = require key ks
      in case map_of (emCosts em) key of
           Some e \<Rightarrow> (e, ks1)
         | None \<Rightarrow>
             (case map_of (emCosts em) m of
                Some e \<Rightarrow> (e, ks1)
              | None \<Rightarrow> (emDefault em, reportMissing key ks1)))"

definition perByteKey :: "string \<Rightarrow> string" where
  "perByteKey target = ''call_'' @ target @ ''_bytes''"

definition getCallEnergy :: "EnergyModel \<Rightarrow> string \<Rightarrow> string \<Rightarrow> u32 option \<Rightarrow> key_log \<Rightarrow> double \<times> key_log" where
  "getCallEnergy em mode target sizeArg ks =
     (if target \<noteq> [] \<and> target \<in> emIgnored em then (0, ks)
      else if target \<noteq> [] then
        (let primaryKey = ''call_'' @ target; ks1 = require primaryKey ks
         in case map_of (emCosts em) primaryKey of
              Some base \<Rightarrow>
                (case sizeArg of
                   None \<Rightarrow> (base, ks1)
                 | Some n \<Rightarrow>
                     (let ks2 = require (perByteKey target) ks1
                      in case map_of (emCosts em) (perByteKey target) of
                           Some per \<Rightarrow> (base + u2r n * per, ks2)
                         | None \<Rightarrow> (base, reportMissing (perByteKey target) ks2)))
            | None \<Rightarrow>
                (let ks2 = (case sizeArg of
                              None \<Rightarrow> ks1
                            | Some n \<Rightarrow>
                                (let k = require (perByteKey target) ks1
                                 in if omap_count (emCosts em) (perByteKey target) then k
                                    else reportMissing (perByteKey target) k))
                 in case map_of (emCosts em) (makeKey ''call'' mode) of
                      Some e \<Rightarrow> (e, ks2)
                    | None \<Rightarrow> (emDefault em, reportMissing primaryKey ks2)))
      else getEnergy em ''call'' mode ks)"

section \<open>The size of a copy\<close>

fun containsText :: "string \<Rightarrow> string \<Rightarrow> bool" where
  "containsText pat [] = (pat = [])"
| "containsText pat (c # cs) = (take (length pat) (c # cs) = pat \<or> containsText pat cs)"

definition afterComma :: "string \<Rightarrow> string" where
  "afterComma s = trimLeft (tl (dropWhile (\<lambda>c. c \<noteq> CHR '','') s))"

definition beforeComma :: "string \<Rightarrow> string" where
  "beforeComma s = trimLeft (takeWhile (\<lambda>c. c \<noteq> CHR '','') s)"

text \<open>Over the previous instructions, the nearest first.\<close>

fun sizeArgFrom :: "Instruction list \<Rightarrow> u32 option" where
  "sizeArgFrom [] = None"
| "sizeArgFrom (prev # rest) =
     (if mnemonic prev = ''mov'' \<and> addrMode prev = ''immediate_register'' then
        (if CHR '','' \<notin> set (insOperands prev) then sizeArgFrom rest
         else if afterComma (insOperands prev) \<noteq> ''r14'' then sizeArgFrom rest
         else if beforeComma (insOperands prev) = [] \<or> hd (beforeComma (insOperands prev)) \<noteq> CHR ''#'' then sizeArgFrom rest
         else (case stoullAuto (tl (beforeComma (insOperands prev))) of Inr v \<Rightarrow> Some (ucast v) | Inl _ \<Rightarrow> None))
      else if containsText ''r14'' (insOperands prev) \<and> CHR '','' \<in> set (insOperands prev)
              \<and> afterComma (insOperands prev) = ''r14'' then None
      else sizeArgFrom rest)"

definition extractSizeArg :: "Instruction list \<Rightarrow> nat \<Rightarrow> u32 option" where
  "extractSizeArg ins callIdx = sizeArgFrom (take 3 (rev (take callIdx ins)))"

definition copySizeArg :: "u32 \<Rightarrow> Instruction list \<Rightarrow> nat \<Rightarrow> u32 option" where
  "copySizeArg unknownCopySize ins callIdx =
     (case extractSizeArg ins callIdx of
        Some n \<Rightarrow> Some n
      | None \<Rightarrow> if 0 < unknownCopySize then Some unknownCopySize else None)"

section \<open>Charging instructions to blocks\<close>

record analyzer_options =
  stackAccessPenalty :: double
  unknownCopySize :: u32

definition instructionEnergy ::
  "analyzer_options \<Rightarrow> EnergyModel \<Rightarrow> Instruction list \<Rightarrow> nat \<Rightarrow> key_log \<Rightarrow> double \<times> key_log" where
  "instructionEnergy opts em ins i ks =
     (let x = ins ! i
      in if mnemonic x = ''call''
         then getCallEnergy em (addrMode x) (callTarget x)
                (if callTarget x = ''memcpy'' \<or> callTarget x = ''memset'' then copySizeArg (unknownCopySize opts) ins i else None) ks
         else getEnergy em (mnemonic x) (addrMode x) ks)"

record charge_state =
  chEnergy :: double
  chCount :: nat
  chKeys :: key_log
  chMapped :: "bool list"

definition chargeInstruction ::
  "analyzer_options \<Rightarrow> EnergyModel \<Rightarrow> bool \<Rightarrow> Instruction list \<Rightarrow> charge_state \<Rightarrow> AddressRange \<times> nat \<Rightarrow> conv_error + charge_state" where
  "chargeInstruction opts em fpIsR4 ins s p =
     (let (range, i) = p; x = ins ! i
      in if rgStart range \<le> insAddress x \<and> insAddress x < rgEnd range
         then (let (e, ks) = instructionEnergy opts em ins i (chKeys s)
               in bindE (if 0 < stackAccessPenalty opts
                         then bindE (countStackAccesses x fpIsR4) (\<lambda>n. Inr (stackAccessPenalty opts * u2r n)) else Inr 0) (\<lambda>extra.
                    Inr \<lparr>chEnergy = chEnergy s + e + extra, chCount = chCount s + 1, chKeys = ks,
                         chMapped = (chMapped s)[i := True]\<rparr>))
         else Inr s)"

definition chargeBlock ::
  "analyzer_options \<Rightarrow> EnergyModel \<Rightarrow> bool \<Rightarrow> Instruction list \<Rightarrow> key_log \<times> bool list \<Rightarrow> AddressRange list \<Rightarrow> conv_error + charge_state" where
  "chargeBlock opts em fpIsR4 ins s ranges =
     foldE (chargeInstruction opts em fpIsR4 ins) \<lparr>chEnergy = 0, chCount = 0, chKeys = fst s, chMapped = snd s\<rparr>
       (concat (map (\<lambda>r. map (Pair r) [0 ..< length ins]) ranges))"

text \<open>The pattern of the frame pointer set-up, \<open>r1,\s*r4\<close>.\<close>

definition isFpPrologue :: "string \<Rightarrow> bool" where
  "isFpPrologue s \<longleftrightarrow> take 3 s = ''r1,'' \<and> dropWhile isSpace (drop 3 s) = ''r4''"

definition frameInR4 :: "analyzer_options \<Rightarrow> Instruction list \<Rightarrow> bb_ranges \<Rightarrow> bool" where
  "frameInR4 opts ins m \<longleftrightarrow>
     0 < stackAccessPenalty opts
     \<and> list_ex (\<lambda>(bb, ranges). list_ex (\<lambda>r. list_ex (\<lambda>x. rgStart r \<le> insAddress x \<and> insAddress x < rgEnd r
          \<and> mnemonic x = ''mov'' \<and> isFpPrologue (insOperands x)) ins) ranges) m"

type_synonym block_cost = "u32 \<times> double \<times> nat"

fun chargeBlocks ::
  "analyzer_options \<Rightarrow> EnergyModel \<Rightarrow> bool \<Rightarrow> Instruction list \<Rightarrow> bb_ranges \<Rightarrow> key_log \<times> bool list
     \<Rightarrow> conv_error + block_cost list \<times> key_log \<times> bool list" where
  "chargeBlocks opts em fpIsR4 ins [] s = Inr ([], s)"
| "chargeBlocks opts em fpIsR4 ins ((bb, ranges) # rest) s =
     bindE (chargeBlock opts em fpIsR4 ins s ranges) (\<lambda>c.
     bindE (chargeBlocks opts em fpIsR4 ins rest (chKeys c, chMapped c)) (\<lambda>(costs, s').
     Inr ((bb, chEnergy c, chCount c) # costs, s')))"

fun chargeFunctions ::
  "analyzer_options \<Rightarrow> EnergyModel \<Rightarrow> Instruction list \<Rightarrow> (string, bb_ranges) omap \<Rightarrow> key_log \<times> bool list
     \<Rightarrow> conv_error + (string \<times> block_cost list) list \<times> key_log \<times> bool list" where
  "chargeFunctions opts em ins [] s = Inr ([], s)"
| "chargeFunctions opts em ins ((f, m) # rest) s =
     bindE (chargeBlocks opts em (frameInR4 opts ins m) ins m s) (\<lambda>(costs, s1).
     bindE (chargeFunctions opts em ins rest s1) (\<lambda>(fs, s2).
     Inr ((f, costs) # fs, s2)))"

section \<open>The output\<close>

type_synonym bb_mapping = "(string, (string, string) omap) omap"

definition blockName :: "bb_mapping \<Rightarrow> string \<Rightarrow> u32 \<Rightarrow> string" where
  "blockName mapping f bb =
     (case map_of mapping f of
        Some names \<Rightarrow> (case map_of names (to_string (unat bb)) of Some n \<Rightarrow> n | None \<Rightarrow> ''bb'' @ to_string (unat (bb - 1)))
      | None \<Rightarrow> ''bb'' @ to_string (unat (bb - 1)))"

type_synonym function_output = "nat \<times> (string, double \<times> nat) omap"

definition functionOutput :: "bb_mapping \<Rightarrow> string \<Rightarrow> block_cost list \<Rightarrow> function_output" where
  "functionOutput mapping f costs =
     (length costs, foldl (\<lambda>m (bb, e, n). omap_put (blockName mapping f bb) (e, n) m) [] costs)"

definition addZeroBlocks :: "(string, function_output) omap \<Rightarrow> string \<times> (string, string) omap \<Rightarrow> (string, function_output) omap" where
  "addZeroBlocks fs p =
     (let (f, names) = p;
          blocks = foldl (\<lambda>m (i, n). if omap_count m n then m else omap_put n (0, 0) m)
                     (snd (omap_get (0, []) fs f)) names
      in omap_put f (length blocks, blocks) fs)"

record analysis_output =
  outFunctions :: "(string, function_output) omap"
  outUnmappedCount :: nat
  outUnmappedEnergy :: double
  outKeys :: key_log

fun chargeUnmapped ::
  "analyzer_options \<Rightarrow> EnergyModel \<Rightarrow> Instruction list \<Rightarrow> (nat \<times> bool) list \<Rightarrow> nat \<times> double \<times> key_log \<Rightarrow> nat \<times> double \<times> key_log" where
  "chargeUnmapped opts em ins [] s = s"
| "chargeUnmapped opts em ins ((i, mapped) # rest) s =
     chargeUnmapped opts em ins rest
       (if mapped then s
        else let (n, e, ks) = s; (e1, ks1) = instructionEnergy opts em ins i ks in (n + 1, e + e1, ks1))"

definition noKeys :: key_log where
  "noKeys = \<lparr>requiredKeys = {}, missingKeys = {}\<rparr>"

definition computeEnergy ::
  "analyzer_options \<Rightarrow> EnergyModel \<Rightarrow> bb_mapping \<Rightarrow> Instruction list \<Rightarrow> (string, bb_ranges) omap \<Rightarrow> conv_error + analysis_output" where
  "computeEnergy opts em mapping ins bbMaps =
     bindE (chargeFunctions opts em ins bbMaps (noKeys, replicate (length ins) False)) (\<lambda>(fs, ks, mapped).
       let functions = foldl addZeroBlocks
             (foldl (\<lambda>out (f, costs). omap_put f (functionOutput mapping f costs) out) [] fs) mapping;
           (n, e, ks') = chargeUnmapped opts em ins (List.enumerate 0 mapped) (0, 0, ks)
       in Inr \<lparr>outFunctions = functions, outUnmappedCount = n, outUnmappedEnergy = e, outKeys = ks'\<rparr>)"

text \<open>\<open>loadBBMapping\<close>: \<open>None\<close> is a file that does not open or parse; the names are strings, as the
  \<open>bb-debuginfo\<close> pass writes them. A function without blocks leaves no entry.\<close>

definition loadBBMapping :: "(string \<times> (string \<times> string) list) list option \<Rightarrow> bb_mapping" where
  "loadBBMapping doc =
     (case doc of
        None \<Rightarrow> []
      | Some fs \<Rightarrow> foldl (\<lambda>m (f, bbs). foldl (\<lambda>m (i, n). omap_put f (omap_put i n (omap_get [] m f)) m) m bbs) [] fs)"

record analyzer_input =
  aiDumpLineMap :: bool
  aiEnergyParams :: string
  aiMappingFile :: string
  aiDecodedLines :: "string option"
  aiListing :: "string option"
  aiRelocListing :: "string option"
  aiConfig :: "energy_config option"
  aiMapping :: "(string \<times> (string \<times> string) list) list option"
  aiOutputOpens :: bool
  aiOptions :: analyzer_options

datatype analyzer_result = ExitFailure | LineMapDump "(u64 \<times> u32) list" | Report analysis_output

definition dumpLineMap :: "analyzer_input \<Rightarrow> conv_error + analyzer_result" where
  "dumpLineMap inp =
     bindE (parseLineMap (aiDecodedLines inp) (aiListing inp)) (\<lambda>lineMaps.
       if lineMaps = [] then Inr ExitFailure
       else Inr (LineMapDump (concat (map (\<lambda>(f, es). map (\<lambda>e. (entAddress e, entLine e)) es) lineMaps))))"

definition analyzerMain :: "analyzer_input \<Rightarrow> conv_error + analyzer_result" where
  "analyzerMain inp =
     (if aiDumpLineMap inp then dumpLineMap inp
      else if aiEnergyParams inp = [] \<or> aiMappingFile inp = [] then Inr ExitFailure
      else bindE (parseDWARF (aiDecodedLines inp) (aiListing inp)) (\<lambda>bbMaps.
        if bbMaps = [] then Inr ExitFailure
        else bindE (disassemble (aiRelocListing inp)) (\<lambda>ins.
          if ins = [] then Inr ExitFailure
          else let mapping = loadBBMapping (aiMapping inp)
               in if mapping = [] then Inr ExitFailure
                  else bindE (computeEnergy (aiOptions inp) (loadEnergyModel (aiConfig inp)) mapping ins bbMaps) (\<lambda>out.
                    if aiOutputOpens inp then Inr (Report out) else Inr ExitFailure))))"

section \<open>Accounting\<close>

text \<open>The energy of an instruction, which does not depend on the keys collected so far.\<close>

definition energyOf :: "analyzer_options \<Rightarrow> EnergyModel \<Rightarrow> Instruction list \<Rightarrow> nat \<Rightarrow> double" where
  "energyOf opts em ins i = fst (instructionEnergy opts em ins i noKeys)"

definition functionHits :: "(string, bb_ranges) omap \<Rightarrow> u64 \<Rightarrow> nat" where
  "functionHits bbMaps a = sum_list (map (\<lambda>(f, m). totalHits m a) bbMaps)"

lemma getEnergy_keys: "fst (getEnergy em m mode ks) = fst (getEnergy em m mode ks')"
  by (simp add: getEnergy_def Let_def split: option.split)

lemma getCallEnergy_keys: "fst (getCallEnergy em mode t n ks) = fst (getCallEnergy em mode t n ks')"
  using getEnergy_keys [of em "''call''" mode ks ks']
  by (simp add: getCallEnergy_def Let_def split: option.split)

lemma instructionEnergy_fst [simp]: "fst (instructionEnergy opts em ins i ks) = energyOf opts em ins i"
  using getEnergy_keys [of em _ _ ks noKeys] getCallEnergy_keys [of em _ _ _ ks noKeys]
  by (simp add: energyOf_def instructionEnergy_def Let_def)

lemma chargeInstruction_no_penalty:
  assumes "stackAccessPenalty opts \<le> 0"
  shows "\<exists>ks. chargeInstruction opts em fp ins s (r, i) =
    Inr (if inRange r (insAddress (ins ! i))
         then \<lparr>chEnergy = chEnergy s + energyOf opts em ins i, chCount = chCount s + 1, chKeys = ks,
               chMapped = (chMapped s)[i := True]\<rparr>
         else s)"
  using assms instructionEnergy_fst [of opts em ins i "chKeys s"]
  by (cases "instructionEnergy opts em ins i (chKeys s)") (auto simp: chargeInstruction_def inRange_def Let_def)

lemma chargeInstructions:
  assumes "stackAccessPenalty opts \<le> 0" and "\<forall>(r, i) \<in> set ps. i < length (chMapped s)"
  shows "\<exists>s'. foldE (chargeInstruction opts em fp ins) s ps = Inr s'
    \<and> chEnergy s' = chEnergy s + sum_list (map (\<lambda>(r, i). if inRange r (insAddress (ins ! i)) then energyOf opts em ins i else 0) ps)
    \<and> chCount s' = chCount s + sum_list (map (\<lambda>(r, i). if inRange r (insAddress (ins ! i)) then 1 else 0) ps)
    \<and> length (chMapped s') = length (chMapped s)
    \<and> (\<forall>i < length (chMapped s). chMapped s' ! i \<longleftrightarrow>
         chMapped s ! i \<or> (\<exists>r. (r, i) \<in> set ps \<and> inRange r (insAddress (ins ! i))))"
  using assms(2)
proof (induction ps arbitrary: s)
  case (Cons p ps)
  obtain r i where p: "p = (r, i)" by (cases p)
  let ?hit = "inRange r (insAddress (ins ! i))"
  obtain ks where one: "chargeInstruction opts em fp ins s (r, i) =
    Inr (if ?hit then \<lparr>chEnergy = chEnergy s + energyOf opts em ins i, chCount = chCount s + 1, chKeys = ks,
               chMapped = (chMapped s)[i := True]\<rparr> else s)" (is "_ = Inr ?s1")
    using chargeInstruction_no_penalty [OF assms(1)] by blast
  have "\<forall>(r, i) \<in> set ps. i < length (chMapped ?s1)" using Cons.prems by auto
  from Cons.IH [OF this] obtain s' where s': "foldE (chargeInstruction opts em fp ins) ?s1 ps = Inr s'"
    "chEnergy s' = chEnergy ?s1 + sum_list (map (\<lambda>(r, i). if inRange r (insAddress (ins ! i)) then energyOf opts em ins i else 0) ps)"
    "chCount s' = chCount ?s1 + sum_list (map (\<lambda>(r, i). if inRange r (insAddress (ins ! i)) then 1 else 0) ps)"
    "length (chMapped s') = length (chMapped ?s1)"
    "\<forall>i < length (chMapped ?s1). chMapped s' ! i \<longleftrightarrow>
         chMapped ?s1 ! i \<or> (\<exists>r. (r, i) \<in> set ps \<and> inRange r (insAddress (ins ! i)))" by blast
  have "\<forall>j < length (chMapped s). chMapped s' ! j \<longleftrightarrow>
      chMapped s ! j \<or> (\<exists>r. (r, j) \<in> set (p # ps) \<and> inRange r (insAddress (ins ! j)))"
    using s'(5) Cons.prems unfolding p by (auto simp: nth_list_update)
  then show ?case using s' one by (intro exI [of _ s']) (simp add: p)
qed simp

lemma range_pairs_sum:
  "sum_list (map (\<lambda>(r, i). if inRange r (adr i) then w i else 0) (concat (map (\<lambda>r. map (Pair r) [0 ..< n]) rs)))
   = (\<Sum>i < n. of_nat (hits rs (adr i)) * (w i :: 'c::semiring_1))"
proof (induction rs)
  case (Cons r rs)
  have "sum_list (map (\<lambda>i. if inRange r (adr i) then w i else 0) [0 ..< n]) = (\<Sum>i < n. if inRange r (adr i) then w i else 0)"
    by (simp add: interv_sum_list_conv_sum_set_nat atLeast0LessThan)
  then show ?case using Cons
    by (simp add: o_def hits_def sum.distrib [symmetric]) (auto intro!: sum.cong simp: distrib_right)
qed (simp add: hits_def)

lemma chargeBlock_hits:
  assumes "stackAccessPenalty opts \<le> 0" and "length mapped = length ins"
  shows "\<exists>c. chargeBlock opts em fp ins (ks, mapped) ranges = Inr c
    \<and> chEnergy c = (\<Sum>i < length ins. real (hits ranges (insAddress (ins ! i))) * energyOf opts em ins i)
    \<and> chCount c = (\<Sum>i < length ins. hits ranges (insAddress (ins ! i)))
    \<and> length (chMapped c) = length ins
    \<and> (\<forall>i < length ins. chMapped c ! i \<longleftrightarrow> mapped ! i \<or> 0 < hits ranges (insAddress (ins ! i)))"
proof -
  let ?s = "\<lparr>chEnergy = 0, chCount = 0, chKeys = ks, chMapped = mapped\<rparr>"
  let ?ps = "concat (map (\<lambda>r. map (Pair r) [0 ..< length ins]) ranges)"
  have "\<forall>(r, i) \<in> set ?ps. i < length (chMapped ?s)" using assms(2) by auto
  from chargeInstructions [OF assms(1) this, of em fp ins]
  obtain c where c: "foldE (chargeInstruction opts em fp ins) ?s ?ps = Inr c"
    "chEnergy c = sum_list (map (\<lambda>(r, i). if inRange r (insAddress (ins ! i)) then energyOf opts em ins i else 0) ?ps)"
    "chCount c = sum_list (map (\<lambda>(r, i). if inRange r (insAddress (ins ! i)) then 1 else 0) ?ps)"
    "length (chMapped c) = length mapped"
    "\<forall>i < length mapped. chMapped c ! i \<longleftrightarrow> mapped ! i \<or> (\<exists>r. (r, i) \<in> set ?ps \<and> inRange r (insAddress (ins ! i)))"
    by auto
  have "0 < hits ranges a \<longleftrightarrow> (\<exists>r \<in> set ranges. inRange r a)" for a by (auto simp: hits_def filter_empty_conv)
  moreover have "(r, i) \<in> set ?ps \<longleftrightarrow> r \<in> set ranges \<and> i < length ins" for r i by (auto simp: image_iff)
  ultimately have "\<forall>i < length ins. chMapped c ! i \<longleftrightarrow> mapped ! i \<or> 0 < hits ranges (insAddress (ins ! i))"
    using c(5) assms(2) by (metis (no_types, lifting))
  with c assms(2) range_pairs_sum [of "\<lambda>i. insAddress (ins ! i)" "energyOf opts em ins" "length ins" ranges]
    range_pairs_sum [of "\<lambda>i. insAddress (ins ! i)" "\<lambda>i. 1 :: nat" "length ins" ranges]
  show ?thesis by (intro exI [of _ c]) (simp add: chargeBlock_def)
qed

lemma chargeBlocks_hits:
  assumes "stackAccessPenalty opts \<le> 0" and "length mapped = length ins"
  shows "\<exists>costs ks' mapped'. chargeBlocks opts em fp ins m (ks, mapped) = Inr (costs, ks', mapped')
    \<and> map fst costs = map fst m
    \<and> sum_list (map (\<lambda>(bb, e, n). e) costs) = (\<Sum>i < length ins. real (totalHits m (insAddress (ins ! i))) * energyOf opts em ins i)
    \<and> sum_list (map (\<lambda>(bb, e, n). n) costs) = (\<Sum>i < length ins. totalHits m (insAddress (ins ! i)))
    \<and> length mapped' = length ins
    \<and> (\<forall>i < length ins. mapped' ! i \<longleftrightarrow> mapped ! i \<or> 0 < totalHits m (insAddress (ins ! i)))"
  using assms(2)
proof (induction m arbitrary: ks mapped)
  case Nil
  then show ?case by (simp add: totalHits_def)
next
  case (Cons q m)
  obtain bb ranges where q: "q = (bb, ranges)" by (cases q)
  from chargeBlock_hits [OF assms(1) Cons.prems, of em fp ks ranges]
  obtain c where c: "chargeBlock opts em fp ins (ks, mapped) ranges = Inr c"
    "chEnergy c = (\<Sum>i < length ins. real (hits ranges (insAddress (ins ! i))) * energyOf opts em ins i)"
    "chCount c = (\<Sum>i < length ins. hits ranges (insAddress (ins ! i)))"
    "length (chMapped c) = length ins"
    "\<forall>i < length ins. chMapped c ! i \<longleftrightarrow> mapped ! i \<or> 0 < hits ranges (insAddress (ins ! i))" by blast
  from Cons.IH [OF c(4), of "chKeys c"] obtain costs ks' mapped' where
    d: "chargeBlocks opts em fp ins m (chKeys c, chMapped c) = Inr (costs, ks', mapped')"
    "map fst costs = map fst m"
    "sum_list (map (\<lambda>(bb, e, n). e) costs) = (\<Sum>i < length ins. real (totalHits m (insAddress (ins ! i))) * energyOf opts em ins i)"
    "sum_list (map (\<lambda>(bb, e, n). n) costs) = (\<Sum>i < length ins. totalHits m (insAddress (ins ! i)))"
    "length mapped' = length ins"
    "\<forall>i < length ins. mapped' ! i \<longleftrightarrow> chMapped c ! i \<or> 0 < totalHits m (insAddress (ins ! i))" by blast
  have tot: "totalHits (q # m) a = hits ranges a + totalHits m a" for a by (simp add: totalHits_def q)
  show ?case
    using c(1,5) d(1,2,5,6)
    by (intro exI [of _ "(bb, chEnergy c, chCount c) # costs"] exI [of _ ks'] exI [of _ mapped'])
      (auto simp: q tot [unfolded q] c(2,3) d(3,4) distrib_right sum.distrib)
qed

lemma chargeFunctions_hits:
  assumes "stackAccessPenalty opts \<le> 0" and "length mapped = length ins"
  shows "\<exists>fs ks' mapped'. chargeFunctions opts em ins bbMaps (ks, mapped) = Inr (fs, ks', mapped')
    \<and> map (\<lambda>(f, costs). (f, map fst costs)) fs = map (\<lambda>(f, m). (f, map fst m)) bbMaps
    \<and> sum_list (map (\<lambda>(f, costs). sum_list (map (\<lambda>(bb, e, n). e) costs)) fs)
      = (\<Sum>i < length ins. real (functionHits bbMaps (insAddress (ins ! i))) * energyOf opts em ins i)
    \<and> sum_list (map (\<lambda>(f, costs). sum_list (map (\<lambda>(bb, e, n). n) costs)) fs)
      = (\<Sum>i < length ins. functionHits bbMaps (insAddress (ins ! i)))
    \<and> length mapped' = length ins
    \<and> (\<forall>i < length ins. mapped' ! i \<longleftrightarrow> mapped ! i \<or> 0 < functionHits bbMaps (insAddress (ins ! i)))"
  using assms(2)
proof (induction bbMaps arbitrary: ks mapped)
  case Nil
  then show ?case by (simp add: functionHits_def)
next
  case (Cons q bbMaps)
  obtain f m where q: "q = (f, m)" by (cases q)
  from chargeBlocks_hits [OF assms(1) Cons.prems, of em "frameInR4 opts ins m" m ks]
  obtain costs ks1 mapped1 where c: "chargeBlocks opts em (frameInR4 opts ins m) ins m (ks, mapped) = Inr (costs, ks1, mapped1)"
    "map fst costs = map fst m"
    "sum_list (map (\<lambda>(bb, e, n). e) costs) = (\<Sum>i < length ins. real (totalHits m (insAddress (ins ! i))) * energyOf opts em ins i)"
    "sum_list (map (\<lambda>(bb, e, n). n) costs) = (\<Sum>i < length ins. totalHits m (insAddress (ins ! i)))"
    "length mapped1 = length ins"
    "\<forall>i < length ins. mapped1 ! i \<longleftrightarrow> mapped ! i \<or> 0 < totalHits m (insAddress (ins ! i))" by blast
  from Cons.IH [OF c(5), of ks1] obtain fs ks' mapped' where
    d: "chargeFunctions opts em ins bbMaps (ks1, mapped1) = Inr (fs, ks', mapped')"
    "map (\<lambda>(f, costs). (f, map fst costs)) fs = map (\<lambda>(f, m). (f, map fst m)) bbMaps"
    "sum_list (map (\<lambda>(f, costs). sum_list (map (\<lambda>(bb, e, n). e) costs)) fs)
      = (\<Sum>i < length ins. real (functionHits bbMaps (insAddress (ins ! i))) * energyOf opts em ins i)"
    "sum_list (map (\<lambda>(f, costs). sum_list (map (\<lambda>(bb, e, n). n) costs)) fs)
      = (\<Sum>i < length ins. functionHits bbMaps (insAddress (ins ! i)))"
    "length mapped' = length ins"
    "\<forall>i < length ins. mapped' ! i \<longleftrightarrow> mapped1 ! i \<or> 0 < functionHits bbMaps (insAddress (ins ! i))" by blast
  have tot: "functionHits (q # bbMaps) a = totalHits m a + functionHits bbMaps a" for a by (simp add: functionHits_def q)
  show ?case
    using c(1,2,6) d(1,2,5,6)
    by (intro exI [of _ "(f, costs) # fs"] exI [of _ ks'] exI [of _ mapped'])
      (auto simp: q tot [unfolded q] c(3,4) d(3,4) distrib_right sum.distrib)
qed

text \<open>The functions lie side by side, so an address is in the ranges of at most one of them.\<close>

lemma funcRanges_start:
  "sorted (map fst starts) \<Longrightarrow> f \<in> set (funcRanges mx starts) \<Longrightarrow> fst (hd starts) \<le> frStart f"
proof (induction starts)
  case (Cons p starts)
  then show ?case by (cases p; cases starts) (auto simp: Let_def split: if_splits)
qed simp

lemma funcRanges_disjoint:
  "sorted (map fst starts) \<Longrightarrow> length (filter (\<lambda>f. frStart f \<le> a \<and> a < frEnd f) (funcRanges mx starts)) \<le> 1"
proof (induction starts)
  case (Cons p starts)
  obtain s n where p: "p = (s, n)" by (cases p)
  note IH = Cons.IH and tail = Cons.prems
  show ?case
  proof (cases starts)
    case Nil
    then show ?thesis by (simp add: p Let_def)
  next
    case (Cons p' rest)
    have "\<not> (frStart f \<le> a \<and> a < frEnd f)" if "a < fst p'" "f \<in> set (funcRanges mx starts)" for f
      using that funcRanges_start [of starts f mx] tail Cons by auto
    then have "filter (\<lambda>f. frStart f \<le> a \<and> a < frEnd f) (funcRanges mx starts) = []" if "a < fst p'"
      using that by (simp add: filter_empty_conv)
    then show ?thesis using IH tail Cons
      by (cases p') (auto simp: p Let_def simp del: funcRanges.simps(2), simp_all add: Let_def)
  qed
qed simp

lemma resolveUnmappedLines_address:
  "map entAddress (resolveUnmappedLines fs fe es) = map entAddress (sort_key entAddress es)"
  using resolveFrom_fill [of "sort_key entAddress es" "[]" "sort_key entAddress es" "[]" fs fe]
  by (simp add: resolveUnmappedLines_def resolveSorted_def)

lemma functionMap_hits:
  assumes "omap_wf result"
  shows "functionHits (functionMap es result f) a \<le> functionHits result a + (if frStart f \<le> a \<and> a < frEnd f then 1 else 0)
    \<and> omap_wf (functionMap es result f)"
proof (cases "linesOf f es = []")
  case True
  then show ?thesis using assms by (simp add: functionMap_def)
next
  case False
  let ?es = "resolveUnmappedLines (frStart f) (frEnd f) (linesOf f es)"
  let ?m = "buildRanges (frEnd f) ?es []"
  have adr: "map entAddress ?es = map entAddress (sort_key entAddress (linesOf f es))"
    by (rule resolveUnmappedLines_address)
  then have "sorted (map entAddress ?es)" by simp
  moreover have in_f: "\<forall>x \<in> entAddress ` set ?es. frStart f \<le> x \<and> x < frEnd f"
  proof -
    have "entAddress ` set ?es = entAddress ` set (linesOf f es)" using arg_cong [OF adr, of set] by simp
    then show ?thesis by (auto simp: linesOf_def)
  qed
  moreover have "ranges_ok []" by (simp add: ranges_ok_def)
  ultimately have "totalHits ?m a = (if ?es \<noteq> [] \<and> entAddress (hd ?es) \<le> a \<and> a < frEnd f then 1 else 0)"
    using buildRanges_hits [of "[]" ?es "frEnd f" a] by (simp add: totalHits_def)
  moreover have "frStart f \<le> entAddress (hd ?es)" if "?es \<noteq> []" using that in_f by simp
  ultimately have le: "totalHits ?m a \<le> (if frStart f \<le> a \<and> a < frEnd f then 1 else 0)" by auto
  have "functionHits (omap_put (frName f) ?m result) a + totalHits (omap_get [] result (frName f)) a =
      functionHits result a + totalHits ?m a"
    using omap_put_sum [OF assms, of "\<lambda>m. totalHits m a" "[]"] by (simp add: functionHits_def totalHits_def)
  with le False assms show ?thesis by (auto simp: functionMap_def Let_def)
qed

lemma functionMaps_hits:
  "omap_wf result \<Longrightarrow>
   functionHits (foldl (functionMap es) result fs) a \<le>
     functionHits result a + length (filter (\<lambda>f. frStart f \<le> a \<and> a < frEnd f) fs)
   \<and> omap_wf (foldl (functionMap es) result fs)"
proof (induction fs arbitrary: result)
  case (Cons f fs)
  from functionMap_hits [OF Cons.prems, of es f a] Cons.IH [of "functionMap es result f"]
  show ?case by (auto split: if_splits)
qed simp

lemma parseDWARF_hits:
  assumes "parseDWARF decoded listing = Inr bbMaps"
  shows "functionHits bbMaps a \<le> 1" and "omap_wf bbMaps"
proof -
  from assms obtain es fs where fs: "parseFunctionRanges listing = Inr fs"
    and m: "bbMaps = foldl (functionMap es) [] fs"
    by (auto simp: parseDWARF_def bindE_eq_Inr)
  from fs obtain mx starts where "fs = funcRanges mx (sort starts) \<or> fs = []"
    by (auto simp: parseFunctionRanges_def bindE_eq_Inr split: option.splits)
  moreover have "sorted (map fst (sort starts))" for starts :: "(u64 \<times> string) list"
    by (rule sorted_map_mono [OF sorted_sort]) (auto simp: mono_on_def less_eq_prod_def)
  ultimately have "length (filter (\<lambda>f. frStart f \<le> a \<and> a < frEnd f) fs) \<le> 1"
    using funcRanges_disjoint [of "sort starts" a mx] by auto
  moreover note functionMaps_hits [of "[]" es fs a]
  ultimately show "functionHits bbMaps a \<le> 1" and "omap_wf bbMaps"
    unfolding m by (auto simp: functionHits_def)
qed

text \<open>The report keeps every charged block when no two blocks of a function share a name.\<close>

definition reportedEnergy :: "(string, function_output) omap \<Rightarrow> double" where
  "reportedEnergy out = sum_list (map (\<lambda>(f, v). sum_list (map (\<lambda>(b, e, n). e) (snd v))) out)"

definition reportedCount :: "(string, function_output) omap \<Rightarrow> nat" where
  "reportedCount out = sum_list (map (\<lambda>(f, v). sum_list (map (\<lambda>(b, e, n). n) (snd v))) out)"

lemma omap_put_sum_new:
  assumes "omap_wf m" and "\<not> omap_count m k"
  shows "sum_list (map (\<lambda>(k, v). f v) (omap_put k v m)) = sum_list (map (\<lambda>(k, v). f v) m) + (f v :: 'c::comm_monoid_add)"
  using assms
proof (induction k v m rule: omap_put.induct)
  case (2 k v k' v' m)
  then show ?case by (auto simp: omap_wf_def omap_count_def ac_simps split: if_splits)
qed simp

lemma put_all_sum:
  assumes "omap_wf m" and "distinct (map g xs)" and "\<forall>x \<in> set xs. \<not> omap_count m (g x)"
  shows "sum_list (map (\<lambda>(k, v). f v) (foldl (\<lambda>m x. omap_put (g x) (h x) m) m xs)) =
      sum_list (map (\<lambda>(k, v). f v) m) + sum_list (map (\<lambda>x. f (h x)) xs :: 'c::comm_monoid_add list)
    \<and> omap_wf (foldl (\<lambda>m x. omap_put (g x) (h x) m) m xs)"
  using assms
proof (induction xs arbitrary: m)
  case (Cons x xs)
  have "sum_list (map (\<lambda>(k, v). f v) (omap_put (g x) (h x) m)) = sum_list (map (\<lambda>(k, v). f v) m) + f (h x)"
    using omap_put_sum_new [of m "g x"] Cons.prems(1,3) by simp
  moreover have "\<forall>y \<in> set xs. \<not> omap_count (omap_put (g x) (h x) m) (g y)" using Cons.prems(2,3) by (fastforce simp: image_iff)
  ultimately show ?case using Cons.IH [of "omap_put (g x) (h x) m"] Cons.prems(1,2) by (auto simp: ac_simps)
qed simp

lemma functionOutput_sum:
  assumes "distinct (map (\<lambda>c. blockName mapping f (fst c)) costs)"
  shows "sum_list (map (\<lambda>(b, e, n). e) (snd (functionOutput mapping f costs))) = sum_list (map (\<lambda>(bb, e, n). e) costs)"
    and "sum_list (map (\<lambda>(b, e, n). n) (snd (functionOutput mapping f costs))) = sum_list (map (\<lambda>(bb, e, n). n) costs)"
proof -
  have fo: "snd (functionOutput mapping f costs) = foldl (\<lambda>m x. omap_put (blockName mapping f (fst x)) (snd x) m) [] costs"
    by (simp add: functionOutput_def case_prod_beta')
  show "sum_list (map (\<lambda>(b, e, n). e) (snd (functionOutput mapping f costs))) = sum_list (map (\<lambda>(bb, e, n). e) costs)"
    using put_all_sum [OF omap_wf_Nil assms, of fst snd] by (simp add: fo case_prod_beta')
  show "sum_list (map (\<lambda>(b, e, n). n) (snd (functionOutput mapping f costs))) = sum_list (map (\<lambda>(bb, e, n). n) costs)"
    using put_all_sum [OF omap_wf_Nil assms, of snd snd] by (simp add: fo case_prod_beta')
qed

lemma zero_entries_sum:
  assumes "omap_wf m" and "f (0, 0) = (0 :: 'c::cancel_comm_monoid_add)"
  shows "sum_list (map (\<lambda>(k, v). f v) (foldl (\<lambda>m (i, n). if omap_count m n then m else omap_put n (0, 0) m) m names)) =
      sum_list (map (\<lambda>(k, v). f v) m)
    \<and> omap_wf (foldl (\<lambda>m (i, n). if omap_count m n then m else omap_put n (0, 0) m) m names)"
  using assms(1)
proof (induction names arbitrary: m)
  case (Cons p names)
  obtain i n where p: "p = (i, n)" by (cases p)
  have "sum_list (map (\<lambda>(k, v). f v) (omap_put n (0, 0) m)) = sum_list (map (\<lambda>(k, v). f v) m)" if "\<not> omap_count m n"
    using omap_put_sum_new [OF Cons.prems that, of f] assms(2) by simp
  then show ?case using Cons.IH [OF Cons.prems] Cons.IH [OF omap_wf_put [OF Cons.prems]] by (auto simp: p)
qed simp

definition outputs_ok :: "(string, function_output) omap \<Rightarrow> bool" where
  "outputs_ok out \<longleftrightarrow> omap_wf out \<and> (\<forall>f. omap_wf (snd (omap_get (0, []) out f)))"

lemma addZeroBlocks_sum:
  assumes "outputs_ok out"
  shows "outputs_ok (addZeroBlocks out p)
    \<and> reportedEnergy (addZeroBlocks out p) = reportedEnergy out \<and> reportedCount (addZeroBlocks out p) = reportedCount out"
proof -
  obtain f names where p: "p = (f, names)" by (cases p)
  let ?old = "snd (omap_get (0, []) out f)"
  let ?bs = "foldl (\<lambda>m (i, n). if omap_count m n then m else omap_put n (0, 0) m) ?old names"
  have old: "omap_wf ?old" and wf: "omap_wf out" using assms by (simp_all add: outputs_ok_def)
  have add: "addZeroBlocks out p = omap_put f (length ?bs, ?bs) out" by (simp add: addZeroBlocks_def p Let_def)
  have "reportedEnergy (addZeroBlocks out p) = reportedEnergy out"
    using omap_put_sum [OF wf, of "\<lambda>v. sum_list (map (\<lambda>(b, e, n). e) (snd v))" "(0, [])" f "(length ?bs, ?bs)"]
      zero_entries_sum [OF old, of fst names]
    by (simp add: add reportedEnergy_def case_prod_beta')
  moreover have "reportedCount (addZeroBlocks out p) = reportedCount out"
    using omap_put_sum [OF wf, of "\<lambda>v. sum_list (map (\<lambda>(b, e, n). n) (snd v))" "(0, [])" f "(length ?bs, ?bs)"]
      zero_entries_sum [OF old, of snd names]
    by (simp add: add reportedCount_def case_prod_beta')
  moreover have "outputs_ok (addZeroBlocks out p)"
    using assms zero_entries_sum [OF old, of fst names] by (auto simp: add outputs_ok_def)
  ultimately show ?thesis by simp
qed

lemma addZeroBlocks_all_sum:
  "outputs_ok out \<Longrightarrow> reportedEnergy (foldl addZeroBlocks out ms) = reportedEnergy out
    \<and> reportedCount (foldl addZeroBlocks out ms) = reportedCount out"
  by (induction ms arbitrary: out) (auto simp: addZeroBlocks_sum)

lemma chargeUnmapped_sum:
  "\<exists>ks'. chargeUnmapped opts em ins ps (n, e, ks) =
     (n + length (filter (\<lambda>p. \<not> snd p) ps), e + sum_list (map (\<lambda>(i, b). if b then 0 else energyOf opts em ins i) ps), ks')"
proof (induction ps arbitrary: n e ks)
  case (Cons p ps)
  obtain i b where p: "p = (i, b)" by (cases p)
  obtain ks1 where e1: "instructionEnergy opts em ins i ks = (energyOf opts em ins i, ks1)"
    using instructionEnergy_fst [of opts em ins i ks] by (metis prod.collapse)
  show ?case using Cons.IH [of n e ks] Cons.IH [of "n + 1" "e + energyOf opts em ins i" ks1] e1
    by (auto simp: p ac_simps)
qed simp

lemma mapped_once:
  assumes "\<forall>i < n. functionHits bbMaps (adr i) \<le> 1" and "length mapped = n"
    and "\<forall>i < n. mapped ! i \<longleftrightarrow> 0 < functionHits bbMaps (adr i)"
  shows "(\<Sum>i < n. of_nat (functionHits bbMaps (adr i)) * w i)
      + sum_list (map (\<lambda>(i, b). if b then 0 else w i) (List.enumerate 0 mapped)) = (\<Sum>i < n. w i :: 'c::semiring_1)"
proof -
  have "map (\<lambda>(i, b). if b then 0 else w i) (List.enumerate 0 mapped) = map (\<lambda>i. if mapped ! i then 0 else w i) [0 ..< n]"
    using assms(2) by (intro nth_equalityI) (auto simp: nth_enumerate_eq)
  then have "sum_list (map (\<lambda>(i, b). if b then 0 else w i) (List.enumerate 0 mapped)) = (\<Sum>i < n. if mapped ! i then 0 else w i)"
    by (simp add: interv_sum_list_conv_sum_set_nat atLeast0LessThan)
  moreover have "of_nat (functionHits bbMaps (adr i)) * w i + (if mapped ! i then 0 else w i) = w i" if "i < n" for i
  proof -
    have "functionHits bbMaps (adr i) = (if mapped ! i then 1 else 0)" using assms(1,3) that by (metis gr0I le_neq_implies_less less_one less_numeral_extra(3))
    then show ?thesis by simp
  qed
  ultimately show ?thesis by (simp add: sum.distrib [symmetric])
qed

lemma unmapped_count:
  "length (filter (\<lambda>p. \<not> snd p) ps) = sum_list (map (\<lambda>(i, b). if b then 0 else 1) ps)"
  by (induction ps) auto

lemma functionOutputs_sum:
  assumes "distinct (map fst fs)" and "\<forall>(f, costs) \<in> set fs. distinct (map (\<lambda>c. blockName mapping f (fst c)) costs)"
    and out: "out = foldl (\<lambda>out (f, costs). omap_put f (functionOutput mapping f costs) out) [] fs"
  shows "reportedEnergy out = sum_list (map (\<lambda>(f, costs). sum_list (map (\<lambda>(bb, e, n). e) costs)) fs)"
    and "reportedCount out = sum_list (map (\<lambda>(f, costs). sum_list (map (\<lambda>(bb, e, n). n) costs)) fs)"
proof -
  let ?h = "\<lambda>x. functionOutput mapping (fst x) (snd x)"
  have o: "out = foldl (\<lambda>m x. omap_put (fst x) (?h x) m) [] fs" by (simp add: out case_prod_beta')
  note sums = put_all_sum [OF omap_wf_Nil assms(1), where h = ?h]
  have "map (\<lambda>x. sum_list (map (\<lambda>(b, e, n). e) (snd (?h x)))) fs = map (\<lambda>(f, costs). sum_list (map (\<lambda>(bb, e, n). e) costs)) fs"
    using functionOutput_sum(1) assms(2) by fastforce
  from arg_cong [OF this, of sum_list]
  show "reportedEnergy out = sum_list (map (\<lambda>(f, costs). sum_list (map (\<lambda>(bb, e, n). e) costs)) fs)"
    using sums [of "\<lambda>v. sum_list (map (\<lambda>(b, e, n). e) (snd v))"] by (simp add: o reportedEnergy_def)
  have "map (\<lambda>x. sum_list (map (\<lambda>(b, e, n). n) (snd (?h x)))) fs = map (\<lambda>(f, costs). sum_list (map (\<lambda>(bb, e, n). n) costs)) fs"
    using functionOutput_sum(2) assms(2) by fastforce
  from arg_cong [OF this, of sum_list]
  show "reportedCount out = sum_list (map (\<lambda>(f, costs). sum_list (map (\<lambda>(bb, e, n). n) costs)) fs)"
    using sums [of "\<lambda>v. sum_list (map (\<lambda>(b, e, n). n) (snd v))"] by (simp add: o reportedCount_def)
qed

lemma functionOutputs_ok:
  assumes "out = foldl (\<lambda>out (f, costs). omap_put f (functionOutput mapping f costs) out) [] fs"
  shows "outputs_ok out"
proof -
  have blocks: "omap_wf (snd (functionOutput mapping f costs))" for f costs
    unfolding functionOutput_def snd_conv by (rule foldl_invariant) (auto simp: case_prod_beta')
  have "omap_wf out \<and> (\<forall>f. omap_wf (snd (omap_get (0, []) out f)))"
    unfolding assms by (rule foldl_invariant) (auto simp: blocks case_prod_beta')
  then show ?thesis by (simp add: outputs_ok_def)
qed

lemma computeEnergy_outputs_ok:
  assumes "computeEnergy opts em mapping ins bbMaps = Inr out"
  shows "outputs_ok (outFunctions out)"
proof -
  from assms obtain fs where "outFunctions out = foldl addZeroBlocks
      (foldl (\<lambda>out (f, costs). omap_put f (functionOutput mapping f costs) out) [] fs) mapping"
    by (auto simp: computeEnergy_def bindE_eq_Inr case_prod_beta' Let_def)
  moreover have "outputs_ok (foldl addZeroBlocks m ms)" if "outputs_ok m" for m ms
    using that by (rule foldl_invariant) (simp add: addZeroBlocks_sum)
  ultimately show ?thesis using functionOutputs_ok [OF refl, of mapping fs] by simp
qed

section \<open>Properties\<close>

text \<open>(C38) The report accounts for every instruction exactly once. When no stack penalty is charged and no two
  blocks of a function share a name, the analysis of any parsed line table succeeds, the reported block
  energies and the unmapped energy add up to the energies of all instructions, and the reported
  instruction counts and the unmapped count add up to the number of instructions.\<close>

theorem computeEnergy_accounts:
  assumes "stackAccessPenalty opts \<le> 0" and "parseDWARF decoded listing = Inr bbMaps"
    and "\<forall>(f, m) \<in> set bbMaps. distinct (map (\<lambda>p. blockName mapping f (fst p)) m)"
  shows "\<exists>out. computeEnergy opts em mapping ins bbMaps = Inr out
    \<and> reportedEnergy (outFunctions out) + outUnmappedEnergy out = (\<Sum>i < length ins. energyOf opts em ins i)
    \<and> reportedCount (outFunctions out) + outUnmappedCount out = length ins"
proof -
  let ?adr = "\<lambda>i. insAddress (ins ! i)"
  obtain fs ks mapped where c: "chargeFunctions opts em ins bbMaps (noKeys, replicate (length ins) False) = Inr (fs, ks, mapped)"
    "map (\<lambda>(f, costs). (f, map fst costs)) fs = map (\<lambda>(f, m). (f, map fst m)) bbMaps"
    "sum_list (map (\<lambda>(f, costs). sum_list (map (\<lambda>(bb, e, n). e) costs)) fs)
      = (\<Sum>i < length ins. real (functionHits bbMaps (?adr i)) * energyOf opts em ins i)"
    "sum_list (map (\<lambda>(f, costs). sum_list (map (\<lambda>(bb, e, n). n) costs)) fs) = (\<Sum>i < length ins. functionHits bbMaps (?adr i))"
    "length mapped = length ins" "\<forall>i < length ins. mapped ! i \<longleftrightarrow> 0 < functionHits bbMaps (?adr i)"
    using chargeFunctions_hits [OF assms(1), of "replicate (length ins) False" ins em bbMaps noKeys] by auto
  obtain ks' where u: "chargeUnmapped opts em ins (List.enumerate 0 mapped) (0, 0, ks) =
      (length (filter (\<lambda>p. \<not> snd p) (List.enumerate 0 mapped)),
       sum_list (map (\<lambda>(i, b). if b then 0 else energyOf opts em ins i) (List.enumerate 0 mapped)), ks')"
    using chargeUnmapped_sum [of opts em ins "List.enumerate 0 mapped" 0 0 ks] by auto
  have once: "\<forall>i < length ins. functionHits bbMaps (?adr i) \<le> 1" using parseDWARF_hits(1) [OF assms(2)] by simp
  have "map fst fs = map fst bbMaps" using arg_cong [OF c(2), of "map fst"] by (simp add: case_prod_beta' o_def)
  then have dist_f: "distinct (map fst fs)" using omap_wf_distinct [OF parseDWARF_hits(2) [OF assms(2)]] by simp
  have dist_b: "\<forall>(f, costs) \<in> set fs. distinct (map (\<lambda>c. blockName mapping f (fst c)) costs)"
  proof clarify
    fix f costs assume "(f, costs) \<in> set fs"
    then have "(f, map fst costs) \<in> set (map (\<lambda>(f, m). (f, map fst m)) bbMaps)" unfolding c(2) [symmetric] by force
    then obtain m where m: "(f, m) \<in> set bbMaps" "map fst m = map fst costs" by auto
    from arg_cong [OF m(2), of "map (blockName mapping f)"] assms(3) m(1)
    show "distinct (map (\<lambda>c. blockName mapping f (fst c)) costs)" by (auto simp: o_def)
  qed
  let ?base = "foldl (\<lambda>out (f, costs). omap_put f (functionOutput mapping f costs) out) [] fs"
  note base = functionOutputs_sum [OF dist_f dist_b refl]
  note zero = addZeroBlocks_all_sum [OF functionOutputs_ok [OF refl], of mapping fs mapping]
  note count = unmapped_count [of "List.enumerate 0 mapped"]
  show ?thesis
    using c(1) u zero base(1,2) c(3,4) mapped_once [OF once c(5,6), of "energyOf opts em ins"]
      mapped_once [OF once c(5,6), of "\<lambda>i. 1 :: nat"] count
    by (simp add: computeEnergy_def)
qed

definition sample_options :: analyzer_options where
  "sample_options = \<lparr>stackAccessPenalty = 0, unknownCopySize = 0\<rparr>"

definition sample_model :: EnergyModel where
  "sample_model = \<lparr>emCosts = [(''add'', 3), (''mov'', 2)], emDefault = 1, emIgnored = {}\<rparr>"

definition sample_code :: "Instruction list" where
  "sample_code =
     [makeInstruction 4 2 ''mov'' ''r5, r6'', makeInstruction 6 2 ''add'' ''r5, r6'', makeInstruction 64 2 ''nop'' []]"

definition sample_decoded :: string where
  "sample_decoded = ''f.c 1 0x4'' @ CHR 0x0A # ''f.c 2 0x6''"

definition sample_listing :: string where
  "sample_listing = ''00000004 <main>:'' @ CHR 0x0A # '' 4: 45'' @ CHR 0x0A # '' 6: 45''"

definition sample_bbMaps :: "(string, bb_ranges) omap" where
  "sample_bbMaps = [(''main'', [(1, [\<lparr>rgStart = 4, rgEnd = 6\<rparr>]), (2, [\<lparr>rgStart = 6, rgEnd = 10\<rparr>])])]"

lemma sample_parseDWARF: "parseDWARF (Some sample_decoded) (Some sample_listing) = Inr sample_bbMaps"
  by code_simp

theorem computeEnergy_accounts_witness:
  "\<exists>out. computeEnergy sample_options sample_model [(''main'', [(''1'', ''entry'')])] sample_code sample_bbMaps = Inr out
    \<and> reportedEnergy (outFunctions out) + outUnmappedEnergy out = (\<Sum>i < length sample_code. energyOf sample_options sample_model sample_code i)
    \<and> reportedCount (outFunctions out) + outUnmappedCount out = length sample_code"
proof (rule computeEnergy_accounts [OF _ sample_parseDWARF])
  show "stackAccessPenalty sample_options \<le> 0" by (simp add: sample_options_def)
  show "\<forall>(f, m) \<in> set sample_bbMaps. distinct (map (\<lambda>p. blockName [(''main'', [(''1'', ''entry'')])] f (fst p)) m)"
    by code_simp
qed

text \<open>The size of a copy is read past an instruction that changes it. When the instruction between the
  move of an immediate into r14 and the call has a single operand, such as a shift or a rotation of r14
  itself, the immediate is still reported as the size, although the comment says that a write of r14 by
  anything else makes the size dynamic.\<close>

theorem extractSizeArg_misses_single_operand:
  assumes "mnemonic m = ''mov''" and "addrMode m = ''immediate_register''" and "insOperands m = ''#16, r14''"
    and "mnemonic x \<noteq> ''mov''" and "CHR '','' \<notin> set (insOperands x)"
  shows "extractSizeArg (ins @ [m, x, c]) (length ins + 2) = Some 16"
proof -
  have "stoullAuto ''16'' = Inr 16" by code_simp
  moreover have "afterComma ''#16, r14'' = ''r14''" "beforeComma ''#16, r14'' = ''#16''" by code_simp+
  moreover have "ins @ [m, x, c] = (ins @ [m, x]) @ [c]" by simp
  moreover have "take (length ins + 2) ((ins @ [m, x]) @ [c]) = ins @ [m, x]" by simp
  ultimately show ?thesis using assms by (simp add: extractSizeArg_def)
qed

definition sample_move :: Instruction where
  "sample_move = \<lparr>insAddress = 0, insSize = 4, mnemonic = ''mov'', insOperands = ''#16, r14'',
     addrMode = ''immediate_register'', callTarget = []\<rparr>"

definition sample_shift :: Instruction where
  "sample_shift = \<lparr>insAddress = 4, insSize = 2, mnemonic = ''rla'', insOperands = ''r14'', addrMode = ''register'', callTarget = []\<rparr>"

theorem extractSizeArg_misses_single_operand_witness:
  "extractSizeArg [sample_move, sample_shift, makeInstruction 6 4 ''call'' ''#0''] 2 = Some 16"
  using extractSizeArg_misses_single_operand [of sample_move sample_shift "[]" "makeInstruction 6 4 ''call'' ''#0''"]
  by (simp add: sample_move_def sample_shift_def numeral_2_eq_2)

end
