(* ===== verification/EnergyEstimator.thy ===== *)
theory EnergyEstimator
  imports EnergyAnalysis RockClimb
begin

text \<open>
  The block energies of the RockClimb backend (\<open>rockclimb-backend/MachineEnergyEstimator.cpp\<close>): either
  the energies the analyzer reported, by the name of the block, or the energies of the machine
  instructions by their opcode names, with the energy model of the analyzer.

  JSON documents are arguments, already parsed; the number of a block is an argument. A block that
  needs an energy and has none ends the compilation; that is \<open>None\<close>.

  Shown: a report of the analyzer is read back unchanged and every block gets its reported energy, zero
  when it has no code and no entry, and a fatal error otherwise; the key report covers every key the
  estimation asks for and every key it misses; an ignored call target is reported as missing although no
  key is consulted for it.
\<close>

section \<open>Opcode names\<close>

definition isZeroCostInstr :: "MachineInstr \<Rightarrow> bool" where
  "isZeroCostInstr mi \<longleftrightarrow> isPseudo mi \<or> isDebugInstr mi \<or> isImplicitDef mi \<or> isKill mi \<or> isLabel mi"

fun targetOfOperands :: "MachineOperand list \<Rightarrow> string" where
  "targetOfOperands [] = []"
| "targetOfOperands (GlobalOperand g off # mos) = globalName g"
| "targetOfOperands (SymbolOperand name # mos) = name"
| "targetOfOperands (mo # mos) = targetOfOperands mos"

definition callTargetName :: "MachineInstr \<Rightarrow> string" where
  "callTargetName mi = targetOfOperands (operands mi)"

definition extractMnemonic :: "string \<Rightarrow> string" where
  "extractMnemonic name = map toLower (takeWhile isUpper name)"

definition extractSuffix :: "string \<Rightarrow> string" where
  "extractSuffix name = dropWhile isDigit (dropWhile isUpper name)"

fun classifyOperands :: "MachineOperand list \<Rightarrow> string" where
  "classifyOperands [] = ''indexed''"
| "classifyOperands (mo # mos) =
     (case mo of
        GlobalOperand _ _ \<Rightarrow> ''symbolic''
      | SymbolOperand _ \<Rightarrow> ''symbolic''
      | ConstantPoolOperand \<Rightarrow> ''symbolic''
      | BlockAddressOperand \<Rightarrow> ''symbolic''
      | JumpTableOperand \<Rightarrow> ''symbolic''
      | FrameIndexOperand \<Rightarrow> ''indexed''
      | _ \<Rightarrow> classifyOperands mos)"

definition classifyMemoryOperand :: "MachineInstr \<Rightarrow> nat \<Rightarrow> string" where
  "classifyMemoryOperand mi startIdx = classifyOperands (drop startIdx (operands mi))"

definition mapSuffixChar :: "char \<Rightarrow> MachineInstr \<Rightarrow> nat \<Rightarrow> string" where
  "mapSuffixChar c mi operandIdx =
     (if c = CHR ''r'' then ''register''
      else if c = CHR ''i'' then ''immediate''
      else if c = CHR ''c'' then ''immediate''
      else if c = CHR ''m'' then classifyMemoryOperand mi operandIdx
      else if c = CHR ''n'' then ''indirect''
      else if c = CHR ''p'' then ''autoincrement''
      else ''register'')"

definition getAddressingMode :: "MachineInstr \<Rightarrow> string \<Rightarrow> string" where
  "getAddressingMode mi suffix =
     (case suffix of
        [] \<Rightarrow> if isBranch mi then ''symbolic'' else []
      | [c] \<Rightarrow> mapSuffixChar c mi 0
      | [dstChar, srcChar] \<Rightarrow>
          (let srcOpIdx = (if dstChar = CHR ''m'' then 2 else 1)
           in mapSuffixChar srcChar mi srcOpIdx @ ''_'' @ mapSuffixChar dstChar mi 0)
      | _ \<Rightarrow> [])"

definition getInstructionKey :: "MachineInstr \<Rightarrow> string" where
  "getInstructionKey mi =
     (if isZeroCostInstr mi then []
      else let m = extractMnemonic (opName mi); mode = getAddressingMode mi (extractSuffix (opName mi))
           in if mode = [] then m else m @ ''_'' @ mode)"

section \<open>Energies\<close>

record MachineEnergyEstimator =
  meModel :: EnergyModel
  meUsePrecomputed :: bool
  mePrecomputed :: "(string, (string, double) omap) omap"

definition estimatorFromConfig :: "energy_config option \<Rightarrow> MachineEnergyEstimator" where
  "estimatorFromConfig config = \<lparr>meModel = loadEnergyModel config, meUsePrecomputed = False, mePrecomputed = []\<rparr>"

text \<open>The \<open>functions\<close> object: for every function its \<open>bb_energy\<close> object, if it has one, with the energies
  that are numbers.\<close>

type_synonym energy_doc = "(string \<times> (string \<times> double option) list option) list"

fun loadBlocks :: "(string, double) omap \<Rightarrow> (string \<times> double option) list \<Rightarrow> (string, double) omap" where
  "loadBlocks m [] = m"
| "loadBlocks m ((bb, e) # rest) = loadBlocks (case e of Some v \<Rightarrow> omap_put bb v m | None \<Rightarrow> m) rest"

fun loadFunctions :: "(string, (string, double) omap) omap \<Rightarrow> energy_doc \<Rightarrow> (string, (string, double) omap) omap" where
  "loadFunctions m [] = m"
| "loadFunctions m ((f, blocks) # rest) =
     loadFunctions (case blocks of None \<Rightarrow> m | Some bs \<Rightarrow> omap_put f (loadBlocks (omap_get [] m f) bs) m) rest"

text \<open>The outer \<open>None\<close> is a file that does not open or parse, the inner one a document without functions.\<close>

definition fromPrecomputed :: "energy_doc option option \<Rightarrow> MachineEnergyEstimator option" where
  "fromPrecomputed doc =
     (case doc of
        Some (Some fs) \<Rightarrow>
          Some \<lparr>meModel = loadEnergyModel None, meUsePrecomputed = True, mePrecomputed = loadFunctions [] fs\<rparr>
      | _ \<Rightarrow> None)"

definition lookupPrecomputed :: "MachineEnergyEstimator \<Rightarrow> string \<Rightarrow> nat \<Rightarrow> double" where
  "lookupPrecomputed me funcName number =
     (case map_of (mePrecomputed me) funcName of
        None \<Rightarrow> - 1
      | Some blocks \<Rightarrow> (case map_of blocks (''mirbb'' @ to_string number) of Some e \<Rightarrow> e | None \<Rightarrow> - 1))"

definition estimateInstruction :: "MachineEnergyEstimator \<Rightarrow> MachineInstr \<Rightarrow> key_log \<Rightarrow> double \<times> key_log" where
  "estimateInstruction me mi ks =
     (if isZeroCostInstr mi then (0, ks)
      else let m = extractMnemonic (opName mi); mode = getAddressingMode mi (extractSuffix (opName mi))
           in if isCall mi \<and> \<not> isInlineAsm mi then getCallEnergy (meModel me) mode (callTargetName mi) None ks
              else getEnergy (meModel me) m mode ks)"

fun estimateInstructions :: "MachineEnergyEstimator \<Rightarrow> MachineInstr list \<Rightarrow> double \<times> key_log \<Rightarrow> double \<times> key_log" where
  "estimateInstructions me [] s = s"
| "estimateInstructions me (mi # mis) s =
     (let (e, ks) = estimateInstruction me mi (snd s) in estimateInstructions me mis (fst s + e, ks))"

definition estimateBlock ::
  "MachineEnergyEstimator \<Rightarrow> string \<Rightarrow> nat \<Rightarrow> MachineBasicBlock \<Rightarrow> key_log \<Rightarrow> (double \<times> key_log) option" where
  "estimateBlock me funcName number mbb ks =
     (if meUsePrecomputed me
      then (let energy = lookupPrecomputed me funcName number
            in if 0 \<le> energy then Some (energy, ks)
               else if list_ex (\<lambda>mi. \<not> isZeroCostInstr mi) (instrs mbb) then None
               else Some (0, ks))
      else Some (estimateInstructions me (instrs mbb) (0, ks)))"

section \<open>The key report\<close>

definition collectKey :: "EnergyModel \<Rightarrow> key_log \<Rightarrow> MachineInstr \<Rightarrow> key_log" where
  "collectKey em ks mi =
     (if isZeroCostInstr mi then ks
      else let m = extractMnemonic (opName mi); mode = getAddressingMode mi (extractSuffix (opName mi))
           in if isCall mi \<and> \<not> isInlineAsm mi
              then (let target = callTargetName mi;
                        callKey = (if target = [] then ''call_'' @ mode else ''call_'' @ target);
                        present = (target \<noteq> [] \<and> hasEnergy em ''call'' target \<or> hasEnergy em ''call'' mode)
                    in if present then require callKey ks else reportMissing callKey (require callKey ks))
              else (let key = (if mode = [] then m else m @ ''_'' @ mode)
                    in if hasEnergy em m mode then require key ks else reportMissing key (require key ks)))"

definition collectRequiredKeys :: "EnergyModel \<Rightarrow> MachineFunction \<Rightarrow> key_log \<Rightarrow> key_log" where
  "collectRequiredKeys em mf ks =
     foldl (collectKey em) ks (concat (map (\<lambda>b. instrs (mbbAt mf b)) (layout mf)))"

section \<open>Reports read back\<close>

text \<open>The \<open>functions\<close> object of the analyzer's report.\<close>

definition reportDoc :: "analysis_output \<Rightarrow> energy_doc" where
  "reportDoc out = map (\<lambda>(f, v). (f, Some (map (\<lambda>(b, e, n). (b, Some e)) (snd v)))) (outFunctions out)"

lemma map_of_loadBlocks:
  "distinct (map fst bs) \<Longrightarrow> map_of (loadBlocks m (map (\<lambda>(b, e, n). (b, Some e)) bs)) k =
     (case map_of bs k of Some (e, n) \<Rightarrow> Some e | None \<Rightarrow> map_of m k)"
proof (induction bs arbitrary: m)
  case (Cons p bs)
  obtain b e n where p: "p = (b, e, n)" by (cases p)
  have "map_of bs b = None" using Cons.prems by (simp add: p map_of_eq_None_iff)
  then show ?case using Cons.IH [of "omap_put b e m"] Cons.prems by (auto simp: p split: option.splits)
qed simp

lemma map_of_loadFunctions:
  "distinct (map fst fs) \<Longrightarrow>
   map_of (loadFunctions m (map (\<lambda>(f, v). (f, Some (g v))) fs)) k =
     (case map_of fs k of Some v \<Rightarrow> Some (loadBlocks (omap_get [] m k) (g v)) | None \<Rightarrow> map_of m k)"
proof (induction fs arbitrary: m)
  case (Cons p fs)
  obtain f v where p: "p = (f, v)" by (cases p)
  have "map_of fs f = None" using Cons.prems by (simp add: p map_of_eq_None_iff)
  then show ?case using Cons.IH [of "omap_put f (loadBlocks (omap_get [] m f) (g v)) m"] Cons.prems
    by (auto simp: p split: option.splits)
qed simp

text \<open>The energy a report gives to a name of a function.\<close>

definition reportedBlock :: "analysis_output \<Rightarrow> string \<Rightarrow> string \<Rightarrow> double option" where
  "reportedBlock out f b = map_option fst (map_of (snd (omap_get (0, []) (outFunctions out) f)) b)"

lemma lookup_report:
  assumes "outputs_ok (outFunctions out)" and "fromPrecomputed (Some (Some (reportDoc out))) = Some me"
  shows "lookupPrecomputed me f n = (case reportedBlock out f (''mirbb'' @ to_string n) of Some e \<Rightarrow> e | None \<Rightarrow> - 1)"
proof -
  let ?bs = "snd (omap_get (0, []) (outFunctions out) f)"
  have d: "distinct (map fst (outFunctions out))" "distinct (map fst ?bs)"
    using assms(1) by (simp_all add: outputs_ok_def omap_wf_distinct)
  have "map_of (mePrecomputed me) f =
      (case map_of (outFunctions out) f of Some v \<Rightarrow> Some (loadBlocks [] (map (\<lambda>(b, e, n). (b, Some e)) (snd v))) | None \<Rightarrow> None)"
    using assms(2) map_of_loadFunctions [OF d(1), of "[]" "\<lambda>v. map (\<lambda>(b, e, n). (b, Some e)) (snd v)" f]
    by (auto simp: fromPrecomputed_def reportDoc_def split: option.splits)
  moreover have "map_of (loadBlocks [] (map (\<lambda>(b, e, n). (b, Some e)) ?bs)) k = map_option fst (map_of ?bs k)" for k
    using map_of_loadBlocks [OF d(2), of "[]" k] by (cases "map_of ?bs k") (simp_all add: case_prod_beta')
  ultimately show ?thesis
    by (cases "map_of (outFunctions out) f") (simp_all add: lookupPrecomputed_def reportedBlock_def omap_get_def)
qed

section \<open>Keys covered\<close>

definition keys_le :: "key_log \<Rightarrow> key_log \<Rightarrow> bool" where
  "keys_le ks ks' \<longleftrightarrow> requiredKeys ks \<subseteq> requiredKeys ks' \<and> missingKeys ks \<subseteq> missingKeys ks'"

text \<open>A call whose target is unknown names its addressing mode.\<close>

definition call_named :: "MachineInstr \<Rightarrow> bool" where
  "call_named mi \<longleftrightarrow>
     (isZeroCostInstr mi \<or> \<not> isCall mi \<or> isInlineAsm mi \<or> callTargetName mi \<noteq> []
      \<or> getAddressingMode mi (extractSuffix (opName mi)) \<noteq> [])"

definition noteKey :: "EnergyModel \<Rightarrow> bool \<Rightarrow> string \<Rightarrow> key_log \<Rightarrow> key_log" where
  "noteKey em present key ks = (if present then require key ks else reportMissing key (require key ks))"

lemma noteKey_le: "keys_le ks ks' \<Longrightarrow> keys_le (require key ks) (noteKey em present key ks')"
  by (auto simp: keys_le_def noteKey_def require_def reportMissing_def)

lemma noteKey_missing_le: "keys_le ks ks' \<Longrightarrow> keys_le (reportMissing key (require key ks)) (noteKey em False key ks')"
  by (auto simp: keys_le_def noteKey_def require_def reportMissing_def)

lemma noteKey_mono: "keys_le ks ks' \<Longrightarrow> keys_le ks (noteKey em present key ks')"
  by (auto simp: keys_le_def noteKey_def require_def reportMissing_def)

lemma getEnergy_le:
  "keys_le ks ks' \<Longrightarrow> keys_le (snd (getEnergy em m mode ks)) (noteKey em (hasEnergy em m mode) (makeKey m mode) ks')"
  by (auto simp: getEnergy_def Let_def hasEnergy_def omap_count_def noteKey_le noteKey_missing_le split: option.split)

lemma getCallEnergy_le:
  assumes "keys_le ks ks'" and "target \<noteq> []"
  shows "keys_le (snd (getCallEnergy em mode target None ks))
    (noteKey em (hasEnergy em ''call'' target \<or> hasEnergy em ''call'' mode) (''call_'' @ target) ks')"
  using assms
  by (auto simp: getCallEnergy_def Let_def hasEnergy_def omap_count_def makeKey_def noteKey_le noteKey_missing_le noteKey_mono
      split: option.split)

lemma collectKey_note:
  "collectKey em ks mi =
     (if isZeroCostInstr mi then ks
      else let mode = getAddressingMode mi (extractSuffix (opName mi)); m = extractMnemonic (opName mi); target = callTargetName mi
           in if isCall mi \<and> \<not> isInlineAsm mi
              then noteKey em (target \<noteq> [] \<and> hasEnergy em ''call'' target \<or> hasEnergy em ''call'' mode)
                     (if target = [] then ''call_'' @ mode else ''call_'' @ target) ks
              else noteKey em (hasEnergy em m mode) (makeKey m mode) ks)"
  by (simp add: collectKey_def noteKey_def makeKey_def Let_def)

lemma collectKey_covers:
  assumes "keys_le ks ks'" and "call_named mi"
  shows "keys_le (snd (estimateInstruction me mi ks)) (collectKey (meModel me) ks' mi)"
proof (cases "isZeroCostInstr mi \<or> callTargetName mi \<noteq> [] \<or> \<not> (isCall mi \<and> \<not> isInlineAsm mi)")
  case True
  then show ?thesis using assms(1) getEnergy_le [OF assms(1)] getCallEnergy_le [OF assms(1)]
    by (auto simp: estimateInstruction_def collectKey_note Let_def)
next
  case False
  then have "makeKey ''call'' (getAddressingMode mi (extractSuffix (opName mi))) = ''call_'' @ getAddressingMode mi (extractSuffix (opName mi))"
    using assms(2) by (simp add: call_named_def makeKey_def)
  then show ?thesis using False getEnergy_le [OF assms(1), of "meModel me" "''call''" "getAddressingMode mi (extractSuffix (opName mi))"]
    by (auto simp: estimateInstruction_def collectKey_note getCallEnergy_def Let_def)
qed

lemma collectKeys_cover:
  "keys_le (snd s) ks' \<Longrightarrow> \<forall>mi \<in> set mis. call_named mi \<Longrightarrow>
   keys_le (snd (estimateInstructions me mis s)) (foldl (collectKey (meModel me)) ks' mis)"
proof (induction mis arbitrary: s ks')
  case (Cons mi mis)
  have "keys_le (snd (estimateInstruction me mi (snd s))) (collectKey (meModel me) ks' mi)"
    using collectKey_covers Cons.prems by simp
  with Cons show ?case by (simp add: case_prod_beta' Let_def)
qed simp

definition functionInstrs :: "MachineFunction \<Rightarrow> MachineInstr list" where
  "functionInstrs mf = concat (map (\<lambda>b. instrs (mbbAt mf b)) (layout mf))"

section \<open>Properties\<close>

text \<open>The energies the analyzer reports reach the backend unchanged. A report read back as precomputed
  data gives every block its reported energy under its name; a block without one costs nothing when it
  has no billable instruction and is a fatal error otherwise.\<close>

theorem estimateBlock_reads_report:
  assumes "computeEnergy opts em mapping ins bbMaps = Inr out"
  shows "\<exists>me. fromPrecomputed (Some (Some (reportDoc out))) = Some me
    \<and> estimateBlock me f n mbb ks =
       (case reportedBlock out f (''mirbb'' @ to_string n) of
          Some e \<Rightarrow> if 0 \<le> e then Some (e, ks)
                     else if list_ex (\<lambda>mi. \<not> isZeroCostInstr mi) (instrs mbb) then None else Some (0, ks)
        | None \<Rightarrow> if list_ex (\<lambda>mi. \<not> isZeroCostInstr mi) (instrs mbb) then None else Some (0, ks))"
proof -
  obtain me where me: "fromPrecomputed (Some (Some (reportDoc out))) = Some me" "meUsePrecomputed me"
    by (simp add: fromPrecomputed_def)
  note look = lookup_report [OF computeEnergy_outputs_ok [OF assms] me(1), of f n]
  show ?thesis using me look by (auto simp: estimateBlock_def Let_def split: option.splits)
qed

definition sample_report_mapping :: bb_mapping where
  "sample_report_mapping = [(''main'', [(''1'', ''mirbb0''), (''2'', ''mirbb1'')])]"

lemma sample_report:
  "map_sum id outFunctions (computeEnergy sample_options sample_model sample_report_mapping sample_code sample_bbMaps)
   = Inr [(''main'', 2, [(''mirbb0'', 2, 1), (''mirbb1'', 3, 1)])]"
  by code_simp

theorem estimateBlock_reads_report_witness:
  "\<exists>out me. computeEnergy sample_options sample_model sample_report_mapping sample_code sample_bbMaps = Inr out
    \<and> fromPrecomputed (Some (Some (reportDoc out))) = Some me
    \<and> estimateBlock me ''main'' 1 noMBB noKeys = Some (3, noKeys)"
proof -
  obtain out where out: "computeEnergy sample_options sample_model sample_report_mapping sample_code sample_bbMaps = Inr out"
    "outFunctions out = [(''main'', 2, [(''mirbb0'', 2, 1), (''mirbb1'', 3, 1)])]"
    using sample_report
    by (cases "computeEnergy sample_options sample_model sample_report_mapping sample_code sample_bbMaps") simp_all
  have name: "to_string 1 = ''1''" by code_simp
  have "reportedBlock out ''main'' (''mirbb'' @ to_string 1) = Some 3"
    unfolding name by (simp add: reportedBlock_def omap_get_def out(2))
  with estimateBlock_reads_report [OF out(1), of "''main''" 1 noMBB noKeys] out(1) show ?thesis by auto
qed

text \<open>The key report covers the estimation. Every key the instructions of a function ask for is among the
  required keys, and every key the model misses while it estimates them is among the missing ones.\<close>

theorem collectRequiredKeys_covers:
  assumes "\<forall>mi \<in> set (functionInstrs mf). call_named mi"
  shows "requiredKeys (snd (estimateInstructions me (functionInstrs mf) (0, noKeys)))
      \<subseteq> requiredKeys (collectRequiredKeys (meModel me) mf noKeys)
    \<and> missingKeys (snd (estimateInstructions me (functionInstrs mf) (0, noKeys)))
      \<subseteq> missingKeys (collectRequiredKeys (meModel me) mf noKeys)"
proof -
  have "keys_le (snd (0 :: double, noKeys)) noKeys" by (simp add: keys_le_def)
  from collectKeys_cover [OF this assms, of me] show ?thesis
    by (simp add: keys_le_def collectRequiredKeys_def functionInstrs_def)
qed

definition sample_indirect_call :: MachineInstr where
  "sample_indirect_call =
     \<lparr>mi_id = 1, opName = ''CALLr'', operands = [RegOperand 5 False False], isCall = True, isInlineAsm = False, isBranch = False,
      isTerminator = False, isPHI = False, isPseudo = False, isDebugInstr = False, isImplicitDef = False, isKill = False, isLabel = False\<rparr>"

definition sample_call_function :: MachineFunction where
  "sample_call_function =
     \<lparr>mf_name = ''f'', mf_blocks = [(1, \<lparr>instrs = [sample_indirect_call], succs = [], preds = [], isReturnBlock = True\<rparr>)]\<rparr>"

theorem collectRequiredKeys_covers_witness:
  "''call_register'' \<in> missingKeys (collectRequiredKeys (loadEnergyModel None) sample_call_function noKeys)"
proof -
  have ins: "functionInstrs sample_call_function = [sample_indirect_call]"
    by (simp add: functionInstrs_def sample_call_function_def layout_def mbbAt_def omap_get_def)
  have suffix: "extractSuffix ''CALLr'' = ''r''" by code_simp
  have named: "\<forall>mi \<in> set (functionInstrs sample_call_function). call_named mi"
    by (simp add: ins call_named_def sample_indirect_call_def suffix getAddressingMode_def mapSuffixChar_def)
  have "missingKeys (snd (estimateInstructions (estimatorFromConfig None) (functionInstrs sample_call_function) (0, noKeys)))
      = {''call_register''}"
    by (simp add: ins sample_indirect_call_def estimateInstruction_def isZeroCostInstr_def suffix getAddressingMode_def
        mapSuffixChar_def callTargetName_def getCallEnergy_def getEnergy_def makeKey_def estimatorFromConfig_def
        loadEnergyModel_def emptyModel_def require_def reportMissing_def noKeys_def Let_def)
  with collectRequiredKeys_covers [OF named, of "estimatorFromConfig None"] show ?thesis
    by (simp add: estimatorFromConfig_def)
qed

end
