(* ===== verification/Spec2Isabelle.thy ===== *)
theory Spec2Isabelle
  imports SchematicDriver TraceFile MILPSoundness AbstractCFGSound RockClimbPass EnergyEstimator
begin

text \<open>
  A verification library for BAO, a set of LLVM passes that make programs survive power failures on
  energy-harvesting microcontrollers. Paths below are relative to \<open>passes/\<close> in the repository.

  \<^bold>\<open>The program.\<close> Three passes place checkpoints so that the energy between two of them fits the capacitor.

  \<^item> SCHEMATIC (\<open>src/schematic\<close>) works on traces of basic blocks. The trace analyzer cuts a trace at blocks whose
    memory allocation is fixed, a shortest-path solver over the graph of possible checkpoints chooses the
    checkpoints of each part together with the placement of variables in VM or NVM, the result is written into the
    solution, and the remaining energy is propagated along edges without a checkpoint. Loops are analysed from the
    inside out, with a number of iterations per charge for each. Calls are isolated in blocks of their own beforehand;
    functions are solved bottom-up, and the summary of a callee is folded onto the blocks of its calls.
  \<^item> The MILP pass (\<open>src/milp\<close>) runs a liveness and state analysis of the function, an energy model, a summary of
    the loops that fit one charge, and an integer program over the resulting abstract graph, solved by Gurobi.
  \<^item> RockClimb (\<open>rockclimb-backend\<close>) works on machine code: it cuts the blocks in reverse post-order into regions
    that fit the capacity, saves registers at their last definitions before a region start and inserts the calls.
    Its block energies come from its own instruction model or from the report of the basic-block energy analyzer
    (\<open>bb-energy-analyzer\<close>), which reads an objdump listing and the line table of the linked program.

  \<^bold>\<open>Conventions.\<close> \<open>double\<close> is the exact type \<open>real\<close>: rounding is not modelled, and results about energies are about
  exact arithmetic. \<open>unsigned\<close> and \<open>uint64_t\<close> are words of 32 and 64 bits with wrap-around. Pointers are numbers, 0 is
  the null pointer. \<open>std::map\<close> and \<open>std::set\<close> are association lists sorted by key (\<open>omap\<close>); hash maps whose order is not
  observable are the same. Shared pointers to allocations are addresses into a heap in the solution. Fatal errors,
  thrown exceptions and early failures are values of a sum type; a loop that might not end is an option, and every
  such function that a property is about is shown to return. LLVM and Gurobi are arguments: instruction lists,
  successors, loop structure, trip counts, alias queries, register descriptions, instruction builders and the
  solver's answers. What is relied on of them is a named hypothesis (for example \<open>solver_sound\<close>, \<open>target_ok\<close>, \<open>rpo_ok\<close>,
  \<open>pass_input_ok\<close>). Log output is not modelled.

  \<^bold>\<open>Theories.\<close> Each models one component; its definitions carry the names of the code.

  \<^item> \<open>Prelude\<close>: machine types, ordered maps (the locale \<open>ordered_map\<close> and its interpretation), folds that may fail.
    \<open>Rounds\<close>: iteration until nothing changes, with the locale \<open>block_rounds\<close> that gives termination and the least
    solution to the four data-flow analyses. \<open>TextScan\<close>: the string functions of the C++ library that are used.
  \<^item> \<open>SchematicSolution\<close> (\<open>SchematicBlock\<close>, \<open>SchematicSolution.h\<close>, \<open>common/CFGAnalysis\<close>): blocks, checkpoint table, edge
    resolution. \<open>MemoryAllocator\<close>: the greedy packing, merging and extension of allocations. \<open>RCGSolver\<close>: the graph of
    possible checkpoints and its shortest path. \<open>EnergyPropagation\<close>: the two propagations. \<open>ApplyAllocation\<close>: writing a
    solver result into the solution. \<open>TraceAnalyzer\<close> and \<open>LoopAnalyzer\<close>: the drivers over traces and loops.
  \<^item> \<open>TraceRuntime\<close> (\<open>runtime/schematic_trace_runtime.c\<close>): the recorder that the profiled program is linked with, its
    tables of functions, loops and paths. \<open>TraceFile\<close>: the JSON file it writes, character by character, and its way
    back through the loader. \<open>TraceLoader\<close>: reading the file, completing the set of paths by breadth-first search
    over the graph with collapsed loops (the locale \<open>reduced_graph\<close>). \<open>TraceCoverage\<close>: loader and loop analyzer
    together.
  \<^item> \<open>CallIsolation\<close> (\<open>CallIsolation.cpp\<close>, \<open>common/FunctionFilters.h\<close>): the search for recursion, the splitting of calls and
    their collection. \<open>SchematicState\<close> (\<open>SchematicStateAnalysis.cpp\<close>): candidates, call check and access counts.
    \<open>SchematicDriver\<close> (\<open>SchematicPass.cpp\<close>, \<open>CallFold\<close>, \<open>CallSummary.h\<close>, \<open>milp/CheckpointContext.h\<close>): solving a function
    from its code to the solution that is instrumented, summaries, and the run over the module, which puts all
    SCHEMATIC components together.
  \<^item> \<open>IRFunction\<close>: functions as the middle-end analyses see them. \<open>IRLiveness\<close> (\<open>LivenessAnalysis\<close>), \<open>MILPState\<close>
    (\<open>StateAnalysis\<close>), \<open>JsonConfig\<close> (parameter files of both middle-end passes, block counts), \<open>EnergyPaths\<close> and
    \<open>MILPEnergyModel\<close> (\<open>EnergyPathUtils\<close>, \<open>EnergyModel\<close>), \<open>AbstractCFG\<close> and \<open>AbstractCFGSound\<close> (\<open>AbstractCFG\<close>,
    \<open>NodeMap.h\<close>).
    \<open>MILPOptimizer\<close>: the linear model, built constraint by constraint, and the extraction. \<open>MILPSoundness\<close>: what
    feasible assignments mean for execution by regions.
  \<^item> \<open>MachineLiveness\<close>, \<open>MachineCheckpointing\<close>, \<open>RockClimb\<close> (configuration and optimizer), \<open>RockClimbPass\<close>
    (instrumenter and driver), \<open>EnergyEstimator\<close> (\<open>MachineEnergyEstimator\<close>).
  \<^item> \<open>Disassembler\<close>, \<open>BBLines\<close>, \<open>EnergyAnalysis\<close>: listing, line table and per-block energies of the energy analyzer.

  \<^bold>\<open>What is shown.\<close>

  \<^item> SCHEMATIC: an interval of a feasible solution fits the energy it starts with; the solution is a cheapest path
    and tiles the trace; variables placed in VM do not overlap and merges keep placements; the checkpoint table is
    consistent; applying a result only makes progress; propagated reserves cover the paths of the graph they are
    computed on; loop decisions fit a charge; compatible allocations extend each other without overlap.
  \<^item> SCHEMATIC as a whole: recursion is rejected exactly when calls form a cycle; isolation keeps the runs of a function
    and the isolated calls are found again (the input is well formed and not yet marked: \<open>iso_wf\<close>, \<open>noMarks\<close>, \<open>gid_wf\<close>);
    the access tables count the accesses of each block (no pointer is derived from itself or from two allocas:
    \<open>uses_ok\<close>, \<open>single_base\<close>); a solved function has every block analysed, a consistent checkpoint table and no undecided
    edge between allocated blocks; which errors can end the work on a function or the pass (\<open>forest_ok\<close>, \<open>nesting_ok\<close>);
    every function with a summary was solved after all its isolated callees, and summaries speak about globals only.
  \<^item> Traces: the recorder stays inside its fixed tables for every sequence of calls, and while nothing is refused its
    counts are the numbers of times each path was run; the file it writes is read back as those paths; the loader
    covers every block of a function and of its loops with a path from entry to exit, and succeeds on every
    function whose loops are natural and nested and whose blocks lie on such a path; the paths it loads pass the
    coverage check of the loop analyzer.
  \<^item> MILP: liveness is exactly reading before overwriting along some path; the state analysis fails exactly for
    unsupported allocas; the worst-case path of a loop bounds every iteration and is attained; the abstract graph
    simulates the function, its summaries cover every run of their loops, and it satisfies what the optimizer relies on; every path through a region of an extracted solution fits the buffer,
    dirty live state is saved, placements only change at region starts and fit the VM.
  \<^item> RockClimb: every path between region starts fits a charge; the partition fails only when a block does not fit;
    every last definition of a live register is saved; both liveness analyses compute liveness; the pass only
    inserts instructions and every region start holds its call.
  \<^item> Energy analyzer: a printed listing is read back; address ranges partition the code; block energies account
    for every instruction once; a written report is read back by the estimator; the key report misses no key.
  \<^item> Where the code does not do what it means to, a theorem shows the behaviour on a concrete input: conflicting
    allocations accepted, a longer arm missed by the propagation, NVM accesses of sub-loops charged once, a clobbered
    slot not saved again, a save that was not charged, a refused call that ends the trace of its caller.

  \<^bold>\<open>Bounds and fuel.\<close> The depth-first search over a loop body has fuel for its recursion depth, two more than the
  number of blocks, which always suffices (\<open>dfs_returns\<close>). The convergence rounds of the loop analyzer are bounded in
  the code, and by the same numbers here. All other loops are shown to end by a measure or by their invariant. Node
  numbers are not bounded by 32 bits; \<open>names_bounded\<close> says that there are fewer nodes than that. The tables of the
  recorder have the sizes of the code (32 function states, 16 nested calls, 256 loops per
  function nested 8 deep, 512 blocks in a path).

  \<^bold>\<open>Not modelled.\<close> The parts that rewrite LLVM IR (the SCHEMATIC and MILP instrumenters, strip mining,
  unrolling, the instrumentation that calls the recorder), pass registration, statistics and logging, the Python and
  shell tooling, the checkpoint runtime on the device, and the text-level parsing of JSON by its library. Floating-point rounding. The
  instability of \<open>std::sort\<close>: where the code sorts with it, equal elements keep their order here.
\<close>

end
